(* ===== verification/Rust_Base.thy ===== *)
theory Rust_Base
  imports Main "HOL-Library.AList" "HOL-Library.Product_Lexorder" "HOL-Library.Multiset"
    "HOL-Library.Code_Target_Nat"
begin

text \<open>
  The prelude of the development: what the components share of Rust and of its standard
  library.

  \<^item> \<open>usize\<close>, \<open>u64\<close> and \<open>u32\<close> values are natural numbers and \<open>isize\<close>, \<open>i64\<close> values are
    integers.  Where an operation of the source can leave the range of its type the model
    uses the checked operations below: \<open>None\<close> is the arithmetic panic of a build with
    overflow checks (the profiles \<open>dev\<close> and \<open>test\<close> of the workspace).
  \<^item> \<open>Result<T, E>\<close> is \<open>'e + 'a\<close> with \<open>Inl\<close> for \<open>Err\<close> and \<open>Inr\<close> for \<open>Ok\<close>; a function that
    may also panic returns an option around it.
  \<^item> A \<open>HashMap\<close> is an association list with distinct keys, whose order stands for the
    iteration order of the map.  That order is arbitrary in Rust; the components that
    iterate over a map prove that their result does not depend on it.
\<close>

section \<open>Collections of facts\<close>

text \<open>\<open>checked_defs\<close> unfolds the bounded arithmetic below.\<close>

named_theorems checked_defs

section \<open>Bounded arithmetic\<close>

definition u32_limit :: nat where
  "u32_limit = 2 ^ 32"

definition u64_limit :: nat where
  "u64_limit = 2 ^ 64"

definition i64_limit :: nat where
  "i64_limit = 2 ^ 63"

definition checked_add_u64 :: "nat \<Rightarrow> nat \<Rightarrow> nat option" where
  "checked_add_u64 a b = (if a + b < u64_limit then Some (a + b) else None)"

definition checked_mul_u64 :: "nat \<Rightarrow> nat \<Rightarrow> nat option" where
  "checked_mul_u64 a b = (if a * b < u64_limit then Some (a * b) else None)"

definition saturating_add_usize :: "nat \<Rightarrow> nat \<Rightarrow> nat" where
  "saturating_add_usize a b = (if a + b < u64_limit then a + b else u64_limit - 1)"

text \<open>\<open>n.div_ceil(d)\<close>, for \<open>d > 0\<close>.\<close>

definition div_ceil :: "nat \<Rightarrow> nat \<Rightarrow> nat" where
  "div_ceil n d = n div d + (if n mod d = 0 then 0 else 1)"

text \<open>\<open>x as usize\<close> for an \<open>isize\<close>: two's complement reinterpretation.\<close>

definition as_usize :: "int \<Rightarrow> nat" where
  "as_usize x = nat (x mod 2 ^ 64)"

text \<open>\<open>n as i64\<close> for a \<open>u64\<close>.\<close>

definition as_i64 :: "nat \<Rightarrow> int" where
  "as_i64 n = (if n < i64_limit then int n else int n - 2 ^ 64)"

definition checked_i64 :: "int \<Rightarrow> int option" where
  "checked_i64 x = (if - (2 ^ 63) \<le> x \<and> x < 2 ^ 63 then Some x else None)"

definition checked_mul_i64 :: "int \<Rightarrow> int \<Rightarrow> int option" where
  "checked_mul_i64 a b = checked_i64 (a * b)"

lemmas limit_defs [checked_defs] = u32_limit_def u64_limit_def i64_limit_def

declare checked_add_u64_def [checked_defs] checked_mul_u64_def [checked_defs]
  saturating_add_usize_def [checked_defs] checked_i64_def [checked_defs] checked_mul_i64_def [checked_defs]

lemma u64_limit_pos [simp]: "0 < u64_limit" "u64_limit \<noteq> 0"
  by (simp_all add: u64_limit_def)

lemma max_one_pos [simp]: "0 < max a (Suc 0)"
  by (simp add: max_def)

lemma as_usize_nonneg: "0 \<le> x \<Longrightarrow> x < 2 ^ 64 \<Longrightarrow> as_usize x = nat x"
  by (simp add: as_usize_def)

lemma as_i64_small: "n < i64_limit \<Longrightarrow> as_i64 n = int n"
  by (simp add: as_i64_def)

lemma div_ceil_mult_ge: "0 < d \<Longrightarrow> n \<le> div_ceil n d * d"
proof -
  assume d: "0 < d"
  have "n = n div d * d + n mod d" by simp
  moreover have "n mod d \<le> (if n mod d = 0 then 0 else 1) * d"
    using d by (auto intro: less_imp_le)
  ultimately show ?thesis
    by (metis add_le_cancel_left add_mult_distrib div_ceil_def)
qed

lemma div_ceil_mult_lt: "0 < d \<Longrightarrow> div_ceil n d * d < n + d"
proof -
  assume d: "0 < d"
  have eq: "n = n div d * d + n mod d" by simp
  show ?thesis
  proof (cases "n mod d = 0")
    case True
    with eq have "div_ceil n d * d = n" by (simp add: div_ceil_def)
    with d show ?thesis by simp
  next
    case False
    have "div_ceil n d * d = n div d * d + d" using False by (simp add: div_ceil_def)
    with eq False show ?thesis by linarith
  qed
qed

lemma div_ceil_mult_fix: "0 < d \<Longrightarrow> d dvd n \<Longrightarrow> div_ceil n d * d = n"
  by (auto simp: div_ceil_def dvd_def)

lemma div_ceil_mult_least:
  assumes "0 < d" "n \<le> m" "d dvd m"
  shows "div_ceil n d * d \<le> m"
proof (rule ccontr)
  assume "\<not> div_ceil n d * d \<le> m"
  then have lt: "m < div_ceil n d * d" by simp
  from \<open>d dvd m\<close> obtain k where m: "m = k * d" by (auto simp: dvd_def mult.commute)
  with lt have "k < div_ceil n d" using \<open>0 < d\<close> by simp
  then have "(k + 1) * d \<le> div_ceil n d * d" by (intro mult_le_mono1) simp
  with div_ceil_mult_lt[OF \<open>0 < d\<close>, of n] m \<open>n \<le> m\<close> show False by simp
qed

lemma checked_add_u64_Some [simp]:
  "checked_add_u64 a b = Some c \<longleftrightarrow> c = a + b \<and> a + b < u64_limit"
  by (auto simp: checked_add_u64_def)

lemma checked_mul_u64_Some [simp]:
  "checked_mul_u64 a b = Some c \<longleftrightarrow> c = a * b \<and> a * b < u64_limit"
  by (auto simp: checked_mul_u64_def)

lemma checked_i64_Some [simp]:
  "checked_i64 x = Some y \<longleftrightarrow> y = x \<and> - (2 ^ 63) \<le> x \<and> x < 2 ^ 63"
  by (auto simp: checked_i64_def)

text \<open>An overflow-checked sum of a list, as \<open>Iterator::sum\<close> computes it.\<close>

fun checked_sum_u64 :: "nat \<Rightarrow> nat list \<Rightarrow> nat option" where
  "checked_sum_u64 acc [] = Some acc"
| "checked_sum_u64 acc (x # xs) =
     (case checked_add_u64 acc x of None \<Rightarrow> None | Some s \<Rightarrow> checked_sum_u64 s xs)"

lemma checked_sum_u64_Some:
  "acc < u64_limit \<Longrightarrow>
   checked_sum_u64 acc xs = (if acc + sum_list xs < u64_limit then Some (acc + sum_list xs) else None)"
proof (induction xs arbitrary: acc)
  case Nil
  then show ?case by simp
next
  case (Cons x xs)
  then show ?case by (auto simp: checked_add_u64_def)
qed

section \<open>Folds that may stop\<close>

text \<open>A loop over a list whose body may panic (\<open>None\<close>).\<close>

fun fold_opt :: "('a \<Rightarrow> 's \<Rightarrow> 's option) \<Rightarrow> 'a list \<Rightarrow> 's \<Rightarrow> 's option" where
  "fold_opt f [] s = Some s"
| "fold_opt f (x # xs) s = (case f x s of None \<Rightarrow> None | Some s' \<Rightarrow> fold_opt f xs s')"

text \<open>An invariant of the loop that may look at the elements already visited.\<close>

lemma fold_opt_invariant:
  assumes run: "fold_opt f xs s = Some s'"
    and init: "I [] s"
    and step: "\<And>ys y s s'. I ys s \<Longrightarrow> (\<exists>zs. xs = ys @ y # zs) \<Longrightarrow> f y s = Some s' \<Longrightarrow> I (ys @ [y]) s'"
  shows "I xs s'"
proof -
  have "fold_opt f zs s = Some s' \<Longrightarrow> I ys s \<Longrightarrow> xs = ys @ zs \<Longrightarrow> I xs s'" for ys zs s
  proof (induction zs arbitrary: ys s)
    case Nil
    then show ?case by simp
  next
    case (Cons z zs)
    from Cons.prems(1) obtain s1 where s1: "f z s = Some s1" "fold_opt f zs s1 = Some s'"
      by (auto split: option.splits)
    have "I (ys @ [z]) s1"
      using step[OF Cons.prems(2) _ s1(1)] Cons.prems(3) by blast
    from Cons.IH[OF s1(2) this] Cons.prems(3) show ?case by simp
  qed
  from this[OF run init] show ?thesis by simp
qed

lemma fold_opt_total:
  assumes init: "I [] s"
    and step: "\<And>ys y s. I ys s \<Longrightarrow> (\<exists>zs. xs = ys @ y # zs) \<Longrightarrow> \<exists>s'. f y s = Some s' \<and> I (ys @ [y]) s'"
  shows "\<exists>s'. fold_opt f xs s = Some s' \<and> I xs s'"
proof -
  have "I ys s \<Longrightarrow> xs = ys @ zs \<Longrightarrow> \<exists>s'. fold_opt f zs s = Some s' \<and> I xs s'" for ys zs s
  proof (induction zs arbitrary: ys s)
    case Nil
    then show ?case by simp
  next
    case (Cons z zs)
    from step[OF Cons.prems(1)] Cons.prems(2)
    obtain s1 where s1: "f z s = Some s1" "I (ys @ [z]) s1" by blast
    from Cons.IH[OF s1(2)] Cons.prems(2) s1(1) show ?case by simp
  qed
  from this[OF init] show ?thesis by simp
qed

section \<open>Lists\<close>

lemma sum_list_update_nat:
  "i < length xs \<Longrightarrow> sum_list (xs[i := y]) + xs ! i = sum_list xs + (y :: nat)"
proof (induction xs arbitrary: i)
  case Nil
  then show ?case by simp
next
  case (Cons x xs)
  then show ?case by (cases i) auto
qed

lemma prod_list_pos: "0 \<notin> set xs \<Longrightarrow> 0 < prod_list (xs :: nat list)"
  by (induction xs) auto

lemma prod_list_zero: "0 \<in> set xs \<Longrightarrow> prod_list (xs :: nat list) = 0"
  by (induction xs) auto

lemma map_of_distinct_mem:
  "distinct (map fst xs) \<Longrightarrow> (k, v) \<in> set xs \<longleftrightarrow> map_of xs k = Some v"
  by (auto intro: map_of_is_SomeI dest: map_of_SomeD)

lemma list_all2_right_mem: "list_all2 P xs ys \<Longrightarrow> y \<in> set ys \<Longrightarrow> \<exists>x \<in> set xs. P x y"
  by (induction rule: list_all2_induct) auto

lemma list_all2_left_mem: "list_all2 P xs ys \<Longrightarrow> x \<in> set xs \<Longrightarrow> \<exists>y \<in> set ys. P x y"
  by (induction rule: list_all2_induct) auto

lemma those_map_Some: "\<forall>x \<in> set xs. f x = Some (g x) \<Longrightarrow> those (map f xs) = Some (map g xs)"
  by (induction xs) auto

lemma sum_list_mset_cong:
  "mset xs = mset ys \<Longrightarrow> sum_list (map f xs) = (sum_list (map f ys) :: nat)"
  by (simp flip: sum_mset_sum_list)

lemma sort_key_mset_cong:
  assumes "mset xs = mset ys" "inj_on f (set xs)"
  shows "sort_key f xs = sort_key f ys"
  by (rule sort_key_inj_key_eq[OF _ assms(2)]) (simp_all add: assms(1))

text \<open>Joining texts with a separator.\<close>

fun join_with :: "string \<Rightarrow> string list \<Rightarrow> string" where
  "join_with sep [] = ''''"
| "join_with sep [x] = x"
| "join_with sep (x # y # ys) = x @ sep @ join_with sep (y # ys)"

text \<open>A product \<open>a * b * c * d\<close> of sizes.\<close>

definition product4 :: "nat \<Rightarrow> nat \<Rightarrow> nat \<Rightarrow> nat \<Rightarrow> nat option" where
  "product4 a b c d = fold_opt (\<lambda>x acc. checked_mul_u64 acc x) [b, c, d] a"

lemma product4_Some: "product4 a b c d = Some n \<Longrightarrow> n = a * b * c * d"
  by (auto simp: product4_def checked_mul_u64_def split: if_splits option.splits)

end
