(* ===== verification/Shape.thy ===== *)
theory Shape
  imports Rust_Base
begin

text \<open>
  Shapes, broadcasting and index arithmetic: \<open>rustorch-core/src/tensor/shape.rs\<close>, the
  stride helpers of \<open>layout.rs\<close> and the index decoding loop that \<open>tensor_impl.rs\<close>
  (\<open>strided_index\<close>), \<open>convert.rs\<close> (\<open>ShapeIter::next\<close>) and \<open>rustorch-cpu/src/iterator.rs\<close>
  (\<open>linear_to_offset\<close>) each contain.

  A \<open>Shape\<close> is a list of dimensions.  The loops over axes are kept as loops over an index
  that updates a vector; each is then related to a structural reference definition
  (\<open>row_major\<close>, \<open>coords_of\<close>, \<open>dot\<close>), which the rest of the development reasons with.
\<close>

type_synonym shape = "nat list"
type_synonym strides = "int list"

section \<open>Sizes\<close>

definition ndim :: "shape \<Rightarrow> nat" where
  "ndim s = length s"

definition is_scalar :: "shape \<Rightarrow> bool" where
  "is_scalar s \<longleftrightarrow> s = []"

definition numel :: "shape \<Rightarrow> nat" where
  "numel s = (if s = [] then 1 else prod_list s)"

text \<open>
  \<open>numel\<close> is the exact number of elements.  \<open>Shape::numel\<close> multiplies machine integers: it returns that
  number unless a product on the way leaves the range (\<open>None\<close>), which can happen in an empty shape too.
\<close>

definition numel_u64 :: "shape \<Rightarrow> nat option" where
  "numel_u64 s = (if s = [] then Some 1 else fold_opt (\<lambda>d acc. checked_mul_u64 acc d) s 1)"

lemma numel_prod_list: "numel s = prod_list s"
  by (simp add: numel_def)

lemma checked_product:
  "fold_opt (\<lambda>d acc. checked_mul_u64 acc d) s a = Some n \<Longrightarrow> n = a * prod_list s"
proof (induction s arbitrary: a)
  case (Cons d s)
  then have "fold_opt (\<lambda>d acc. checked_mul_u64 acc d) s (a * d) = Some n"
    by (simp add: checked_mul_u64_def split: if_splits)
  from Cons.IH[OF this] show ?case by simp
qed simp

lemma numel_u64_Some: "numel_u64 s = Some n \<Longrightarrow> n = numel s"
  using checked_product[of s 1 n] by (auto simp: numel_u64_def numel_prod_list split: if_splits)

text \<open>The product of the axes that are not empty bounds every product on the way.\<close>

definition bulk :: "shape \<Rightarrow> nat" where
  "bulk s = prod_list (filter (\<lambda>d. d \<noteq> 0) s)"

lemma bulk_simps [simp]: "bulk [] = 1" "bulk (d # s) = (if d = 0 then bulk s else d * bulk s)"
  by (simp_all add: bulk_def)

lemma bulk_pos [simp]: "0 < bulk s"
  by (induction s) auto

lemma prod_list_le_bulk: "prod_list s \<le> bulk s"
  by (induction s) auto

lemma bulk_nonempty: "0 \<notin> set s \<Longrightarrow> bulk s = prod_list s"
  by (induction s) auto

lemma checked_product_bulk:
  "a * bulk s < u64_limit \<Longrightarrow> fold_opt (\<lambda>d acc. checked_mul_u64 acc d) s a = Some (a * prod_list s)"
proof (induction s arbitrary: a)
  case (Cons d s)
  have le: "a * d * bulk s \<le> a * bulk (d # s)" by (simp add: mult.assoc)
  have "a * d * 1 \<le> a * d * bulk s" by (intro mult_le_mono2) (simp add: Suc_leI)
  with le Cons.prems have "a * d < u64_limit" by linarith
  moreover have "a * d * bulk s < u64_limit" using le Cons.prems by linarith
  ultimately show ?case using Cons.IH[of "a * d"] by (simp add: checked_mul_u64_def mult.assoc)
qed simp

lemma numel_u64_bulk: "bulk s < u64_limit \<Longrightarrow> numel_u64 s = Some (numel s)"
  using checked_product_bulk[of 1 s] by (simp add: numel_u64_def numel_prod_list)

lemma numel_eq_0_iff: "numel s = 0 \<longleftrightarrow> 0 \<in> set s"
  using prod_list_pos[of s] prod_list_zero[of s] by (cases "0 \<in> set s") (auto simp: numel_prod_list)

section \<open>Broadcasting\<close>

record broadcast_error =
  be_lhs :: "nat list"
  be_rhs :: "nat list"
  axis_from_right :: nat

text \<open>The \<open>i\<close>-th dimension from the right, \<open>1\<close> when it is missing.\<close>

definition dim_from_right :: "shape \<Rightarrow> nat \<Rightarrow> nat" where
  "dim_from_right s i = (if 1 + i \<le> length s then s ! (length s - (1 + i)) else 1)"

fun broadcast_loop :: "shape \<Rightarrow> shape \<Rightarrow> nat \<Rightarrow> nat \<Rightarrow> nat list \<Rightarrow> broadcast_error + shape" where
  "broadcast_loop lhs rhs i 0 out = Inr (rev out)"
| "broadcast_loop lhs rhs i (Suc k) out =
     (let l = dim_from_right lhs i; r = dim_from_right rhs i in
      if l = r then broadcast_loop lhs rhs (i + 1) k (out @ [l])
      else if l = 1 then broadcast_loop lhs rhs (i + 1) k (out @ [r])
      else if r = 1 then broadcast_loop lhs rhs (i + 1) k (out @ [l])
      else Inl \<lparr>be_lhs = lhs, be_rhs = rhs, axis_from_right = i\<rparr>)"

definition broadcast_with :: "shape \<Rightarrow> shape \<Rightarrow> broadcast_error + shape" where
  "broadcast_with lhs rhs = broadcast_loop lhs rhs 0 (max (length lhs) (length rhs)) []"

text \<open>The NumPy rule for one axis, as the module header states it.\<close>

definition compatible :: "nat \<Rightarrow> nat \<Rightarrow> bool" where
  "compatible l r \<longleftrightarrow> l = r \<or> l = 1 \<or> r = 1"

definition join_dim :: "nat \<Rightarrow> nat \<Rightarrow> nat" where
  "join_dim l r = (if l = 1 then r else l)"

lemma broadcast_loop_ok:
  assumes "\<forall>j. i \<le> j \<and> j < i + k \<longrightarrow> compatible (dim_from_right a j) (dim_from_right b j)"
  shows "broadcast_loop a b i k out =
    Inr (rev (out @ map (\<lambda>j. join_dim (dim_from_right a j) (dim_from_right b j)) [i..<i + k]))"
  using assms
proof (induction k arbitrary: i out)
  case 0
  then show ?case by simp
next
  case (Suc k)
  have c: "compatible (dim_from_right a i) (dim_from_right b i)" using Suc.prems by auto
  have up: "[i..<i + Suc k] = i # [Suc i..<Suc i + k]" by (simp add: upt_conv_Cons)
  have "broadcast_loop a b i (Suc k) out =
      broadcast_loop a b (Suc i) k (out @ [join_dim (dim_from_right a i) (dim_from_right b i)])"
    using c by (auto simp: Let_def compatible_def join_dim_def)
  also have "\<dots> = Inr (rev ((out @ [join_dim (dim_from_right a i) (dim_from_right b i)])
      @ map (\<lambda>j. join_dim (dim_from_right a j) (dim_from_right b j)) [Suc i..<Suc i + k]))"
    using Suc.prems by (intro Suc.IH) auto
  finally show ?case unfolding up by simp
qed

lemma broadcast_loop_err:
  assumes "i \<le> m" "m < i + k" "\<not> compatible (dim_from_right a m) (dim_from_right b m)"
    and "\<forall>j. i \<le> j \<and> j < m \<longrightarrow> compatible (dim_from_right a j) (dim_from_right b j)"
  shows "broadcast_loop a b i k out = Inl \<lparr>be_lhs = a, be_rhs = b, axis_from_right = m\<rparr>"
  using assms
proof (induction k arbitrary: i out)
  case 0
  then show ?case by simp
next
  case (Suc k)
  show ?case
  proof (cases "i = m")
    case True
    with Suc.prems(3) show ?thesis by (simp add: Let_def compatible_def)
  next
    case False
    then have "compatible (dim_from_right a i) (dim_from_right b i)" using Suc.prems by auto
    then show ?thesis
      using Suc.IH[of "i + 1"] Suc.prems False by (auto simp: Let_def compatible_def)
  qed
qed

abbreviation "max_rank a b \<equiv> max (length a) (length b)"

lemma broadcast_with_incompatible:
  assumes "\<not> (\<forall>i < max_rank a b. compatible (dim_from_right a i) (dim_from_right b i))"
  obtains m where "m < max_rank a b" "\<not> compatible (dim_from_right a m) (dim_from_right b m)"
    "\<forall>j<m. compatible (dim_from_right a j) (dim_from_right b j)"
    "broadcast_with a b = Inl \<lparr>be_lhs = a, be_rhs = b, axis_from_right = m\<rparr>"
proof -
  let ?bad = "\<lambda>i. i < max_rank a b \<and> \<not> compatible (dim_from_right a i) (dim_from_right b i)"
  define m where "m = Least ?bad"
  have m: "?bad m" unfolding m_def by (rule LeastI_ex) (use assms in blast)
  have least: "\<forall>j<m. compatible (dim_from_right a j) (dim_from_right b j)"
    using m not_less_Least[of _ ?bad] unfolding m_def[symmetric] by (meson less_trans)
  have "broadcast_with a b = Inl \<lparr>be_lhs = a, be_rhs = b, axis_from_right = m\<rparr>"
    unfolding broadcast_with_def by (intro broadcast_loop_err) (use m least in auto)
  with m least that show thesis by blast
qed

lemma broadcast_with_Inr_iff:
  "broadcast_with a b = Inr c \<longleftrightarrow>
     (\<forall>i < max_rank a b. compatible (dim_from_right a i) (dim_from_right b i)) \<and>
     c = rev (map (\<lambda>j. join_dim (dim_from_right a j) (dim_from_right b j)) [0..<max_rank a b])"
proof (cases "\<forall>i < max_rank a b. compatible (dim_from_right a i) (dim_from_right b i)")
  case True
  then show ?thesis
    unfolding broadcast_with_def by (subst broadcast_loop_ok) auto
next
  case False
  then show ?thesis by (elim broadcast_with_incompatible) (auto simp: False)
qed

lemma dim_from_right_rev:
  "dim_from_right (rev xs) i = (if i < length xs then xs ! i else 1)"
  by (auto simp: dim_from_right_def rev_nth)

lemma dim_from_right_beyond [simp]: "length s \<le> i \<Longrightarrow> dim_from_right s i = 1"
  by (simp add: dim_from_right_def)

lemma shape_eqI:
  assumes "length a = length b" "\<And>i. i < length a \<Longrightarrow> dim_from_right a i = dim_from_right b i"
  shows "a = b"
proof (rule nth_equalityI)
  fix i assume i: "i < length a"
  from assms(2)[of "length a - (1 + i)"] i assms(1) show "a ! i = b ! i"
    by (auto simp: dim_from_right_def)
qed (rule assms(1))

text \<open>
  C25. \<open>Shape::broadcast_with\<close> implements the broadcasting rule: it returns a shape exactly when
  every right-aligned pair of dimensions is compatible (equal, or one of them \<open>1\<close>, a missing
  dimension counting as \<open>1\<close>); the result then has the larger rank and on every axis the
  dimension that is not the broadcast \<open>1\<close>.  Otherwise the error carries both operands and the
  first incompatible axis counted from the right.
\<close>

theorem broadcast_with_correct:
  "case broadcast_with a b of
     Inr c \<Rightarrow> length c = max_rank a b
       \<and> (\<forall>i. compatible (dim_from_right a i) (dim_from_right b i)
            \<and> dim_from_right c i = join_dim (dim_from_right a i) (dim_from_right b i))
   | Inl e \<Rightarrow> be_lhs e = a \<and> be_rhs e = b \<and> axis_from_right e < max_rank a b
       \<and> \<not> compatible (dim_from_right a (axis_from_right e)) (dim_from_right b (axis_from_right e))
       \<and> (\<forall>i < axis_from_right e. compatible (dim_from_right a i) (dim_from_right b i))"
proof (cases "\<forall>i < max_rank a b. compatible (dim_from_right a i) (dim_from_right b i)")
  case True
  let ?c = "rev (map (\<lambda>j. join_dim (dim_from_right a j) (dim_from_right b j)) [0..<max_rank a b])"
  have "broadcast_with a b = Inr ?c" using True by (simp add: broadcast_with_Inr_iff)
  moreover have "compatible (dim_from_right a i) (dim_from_right b i)" for i
    using True by (cases "i < max_rank a b") (auto simp: compatible_def)
  moreover have "dim_from_right ?c i = join_dim (dim_from_right a i) (dim_from_right b i)" for i
    unfolding dim_from_right_rev by (auto simp: join_dim_def)
  ultimately show ?thesis by simp
next
  case False
  then show ?thesis by (elim broadcast_with_incompatible) simp
qed

theorem broadcast_with_correct_witness:
  "broadcast_with [5, 1, 4] [3, 1] = Inr [5, 3, 4]
   \<and> broadcast_with [2, 3, 4] [5, 4]
       = Inl \<lparr>be_lhs = [2, 3, 4], be_rhs = [5, 4], axis_from_right = 1\<rparr>
   \<and> \<not> compatible (dim_from_right [2, 3, 4] 1) (dim_from_right [5, 4] 1)
   \<and> (\<forall>i. compatible (dim_from_right [5, 1, 4] i) (dim_from_right [3, 1] i))"
proof -
  have ok: "broadcast_with [5, 1, 4] [3, 1] = Inr [5, 3, 4]" by code_simp
  have err: "broadcast_with [2, 3, 4] [5, 4]
      = Inl \<lparr>be_lhs = [2, 3, 4], be_rhs = [5, 4], axis_from_right = 1\<rparr>" by code_simp
  from broadcast_with_correct[of "[5, 1, 4]" "[3, 1]"] ok
    broadcast_with_correct[of "[2, 3, 4]" "[5, 4]"] err
  show ?thesis by simp
qed


lemma broadcast_with_dims:
  assumes "broadcast_with a b = Inr c"
  shows "length c = max_rank a b"
    and "compatible (dim_from_right a i) (dim_from_right b i)"
    and "dim_from_right c i = join_dim (dim_from_right a i) (dim_from_right b i)"
proof -
  have ok: "\<forall>i < max_rank a b. compatible (dim_from_right a i) (dim_from_right b i)"
    and c: "c = rev (map (\<lambda>j. join_dim (dim_from_right a j) (dim_from_right b j)) [0..<max_rank a b])"
    using assms by (auto simp: broadcast_with_Inr_iff)
  show "length c = max_rank a b" using c by simp
  show "compatible (dim_from_right a i) (dim_from_right b i)"
    using ok by (cases "i < max_rank a b") (auto simp: compatible_def)
  show "dim_from_right c i = join_dim (dim_from_right a i) (dim_from_right b i)"
    unfolding c dim_from_right_rev by (auto simp: join_dim_def)
qed

lemma broadcast_withI:
  assumes "\<And>i. compatible (dim_from_right a i) (dim_from_right b i)"
    and "length c = max_rank a b"
    and "\<And>i. dim_from_right c i = join_dim (dim_from_right a i) (dim_from_right b i)"
  shows "broadcast_with a b = Inr c"
  unfolding broadcast_with_Inr_iff
proof
  show "\<forall>i < max_rank a b. compatible (dim_from_right a i) (dim_from_right b i)"
    using assms(1) by blast
  show "c = rev (map (\<lambda>j. join_dim (dim_from_right a j) (dim_from_right b j)) [0..<max_rank a b])"
    using assms by (intro shape_eqI) (simp_all add: dim_from_right_rev)
qed

lemma broadcast_with_commute:
  assumes "broadcast_with a b = Inr c"
  shows "broadcast_with b a = Inr c"
proof (rule broadcast_withI)
  note d = broadcast_with_dims[OF assms]
  show "compatible (dim_from_right b i) (dim_from_right a i)" for i
    using d(2)[of i] by (auto simp: compatible_def)
  show "length c = max_rank b a" using d(1) by (simp add: max.commute)
  show "dim_from_right c i = join_dim (dim_from_right b i) (dim_from_right a i)" for i
    using d(2)[of i] d(3)[of i] by (auto simp: compatible_def join_dim_def)
qed

lemma broadcast_with_assoc:
  assumes ab: "broadcast_with a b = Inr ab" and abc: "broadcast_with ab c = Inr abc"
  shows "\<exists>bc. broadcast_with b c = Inr bc \<and> broadcast_with a bc = Inr abc"
proof -
  note d = broadcast_with_dims[OF ab] and e = broadcast_with_dims[OF abc]
  let ?bc = "rev (map (\<lambda>j. join_dim (dim_from_right b j) (dim_from_right c j)) [0..<max_rank b c])"
  have bc: "dim_from_right ?bc i = join_dim (dim_from_right b i) (dim_from_right c i)" for i
    unfolding dim_from_right_rev by (auto simp: join_dim_def)
  have "broadcast_with b c = Inr ?bc"
  proof (rule broadcast_withI)
    show "compatible (dim_from_right b i) (dim_from_right c i)" for i
      using d(2,3)[of i] e(2)[of i] by (auto simp: compatible_def join_dim_def split: if_splits)
  qed (simp_all add: bc)
  moreover have "broadcast_with a ?bc = Inr abc"
  proof (rule broadcast_withI)
    show "compatible (dim_from_right a i) (dim_from_right ?bc i)" for i
      using d(2,3)[of i] e(2)[of i] unfolding bc
      by (auto simp: compatible_def join_dim_def split: if_splits)
    show "length abc = max_rank a ?bc" using d(1) e(1) by simp
    show "dim_from_right abc i = join_dim (dim_from_right a i) (dim_from_right ?bc i)" for i
      using d(2,3)[of i] e(2,3)[of i] unfolding bc
      by (auto simp: compatible_def join_dim_def split: if_splits)
  qed
  ultimately show ?thesis by blast
qed

text \<open>
  Broadcasting is commutative and associative, and the scalar shape is its neutral element:
  an expression over several operands has one broadcast shape however it is bracketed.
\<close>

theorem broadcast_with_algebra:
  "(broadcast_with a b = Inr c \<longleftrightarrow> broadcast_with b a = Inr c)
   \<and> ((\<exists>ab. broadcast_with a b = Inr ab \<and> broadcast_with ab d = Inr r)
      \<longleftrightarrow> (\<exists>bd. broadcast_with b d = Inr bd \<and> broadcast_with a bd = Inr r))
   \<and> broadcast_with a [] = Inr a \<and> broadcast_with a a = Inr a"
proof (intro conjI)
  show "broadcast_with a b = Inr c \<longleftrightarrow> broadcast_with b a = Inr c"
    using broadcast_with_commute by blast
  show "(\<exists>ab. broadcast_with a b = Inr ab \<and> broadcast_with ab d = Inr r)
      \<longleftrightarrow> (\<exists>bd. broadcast_with b d = Inr bd \<and> broadcast_with a bd = Inr r)"
    using broadcast_with_assoc broadcast_with_commute by meson
  show "broadcast_with a [] = Inr a" "broadcast_with a a = Inr a"
    by (rule broadcast_withI; simp add: compatible_def join_dim_def)+
qed

text \<open>
  The header of the module and the comment on \<open>broadcast_with\<close> say that each dimension of the
  result is the maximum of the two.  With an empty axis it is not: \<open>[0]\<close> and \<open>[1]\<close> give \<open>[0]\<close>.
\<close>

lemma broadcast_empty_axis_not_max: "broadcast_with [0] [1] = Inr [0] \<and> [max 0 1] \<noteq> [0 :: nat]"
  by code_simp

section \<open>Row-major strides\<close>

fun strides_loop :: "shape \<Rightarrow> nat \<Rightarrow> strides \<Rightarrow> strides" where
  "strides_loop shape 0 s = s"
| "strides_loop shape (Suc i) s =
     strides_loop shape i (s[i := s ! (i + 1) * int (shape ! (i + 1))])"

definition compute_contiguous_strides :: "shape \<Rightarrow> strides" where
  "compute_contiguous_strides shape =
     (let n = length shape in
      if n = 0 then []
      else strides_loop shape (n - 1) ((replicate n 0)[n - 1 := 1]))"

text \<open>The same loop over machine integers: \<open>None\<close> is an overflow.\<close>

fun strides_loop_i64 :: "shape \<Rightarrow> nat \<Rightarrow> strides \<Rightarrow> strides option" where
  "strides_loop_i64 shape 0 s = Some s"
| "strides_loop_i64 shape (Suc i) s =
     (case checked_mul_i64 (s ! (i + 1)) (as_i64 (shape ! (i + 1))) of
        None \<Rightarrow> None
      | Some x \<Rightarrow> strides_loop_i64 shape i (s[i := x]))"

definition contiguous_strides_i64 :: "shape \<Rightarrow> strides option" where
  "contiguous_strides_i64 shape =
     (let n = length shape in
      if n = 0 then Some []
      else strides_loop_i64 shape (n - 1) ((replicate n 0)[n - 1 := 1]))"

fun row_major :: "shape \<Rightarrow> strides" where
  "row_major [] = []"
| "row_major (d # ds) = int (prod_list ds) # row_major ds"

lemma length_row_major [simp]: "length (row_major s) = length s"
  by (induction s) auto

lemma row_major_nth: "k < length s \<Longrightarrow> row_major s ! k = int (prod_list (drop (Suc k) s))"
proof (induction s arbitrary: k)
  case Nil
  then show ?case by simp
next
  case (Cons d ds)
  then show ?case by (cases k) auto
qed

lemma prod_list_drop_Suc:
  "Suc k < length s \<Longrightarrow> prod_list (drop (Suc k) s) = s ! Suc k * prod_list (drop (Suc (Suc k)) s)"
  by (metis Cons_nth_drop_Suc prod_list.Cons)

lemma strides_loop_row_major:
  assumes "length s = length shape" "i < length shape"
    and "\<forall>k. i \<le> k \<and> k < length shape \<longrightarrow> s ! k = row_major shape ! k"
  shows "strides_loop shape i s = row_major shape"
  using assms
proof (induction i arbitrary: s)
  case 0
  then show ?case by (auto intro: nth_equalityI)
next
  case (Suc i)
  have "s ! (i + 1) * int (shape ! (i + 1)) = row_major shape ! i"
    using Suc.prems by (simp add: row_major_nth prod_list_drop_Suc mult.commute)
  then have "\<forall>k. i \<le> k \<and> k < length shape \<longrightarrow>
      s[i := s ! (i + 1) * int (shape ! (i + 1))] ! k = row_major shape ! k"
    using Suc.prems by (auto simp: nth_list_update)
  with Suc show ?case by simp
qed

lemma compute_contiguous_strides_eq [simp]: "compute_contiguous_strides shape = row_major shape"
proof (cases "shape = []")
  case True
  then show ?thesis by (simp add: compute_contiguous_strides_def)
next
  case False
  then have "strides_loop shape (length shape - 1) ((replicate (length shape) 0)[length shape - 1 := 1])
      = row_major shape"
    by (intro strides_loop_row_major) (auto simp: row_major_nth nth_list_update)
  with False show ?thesis by (simp add: compute_contiguous_strides_def Let_def)
qed

lemma length_strides_loop_i64: "strides_loop_i64 shape i s = Some st \<Longrightarrow> length st = length s"
  by (induction i arbitrary: s) (auto split: option.splits)

lemma length_contiguous_strides_i64: "contiguous_strides_i64 shape = Some st \<Longrightarrow> length st = length shape"
  by (auto simp: contiguous_strides_i64_def Let_def dest: length_strides_loop_i64 split: if_splits)

lemma bulk_drop: "bulk (drop k s) \<le> bulk s"
proof (induction s arbitrary: k)
  case (Cons d s)
  have "bulk s \<le> bulk (d # s)" by simp
  moreover have "bulk (drop j s) \<le> bulk s" for j by (rule Cons.IH)
  ultimately have "bulk (drop j s) \<le> bulk (d # s)" for j using le_trans by blast
  then show ?case by (cases k) (simp_all only: drop_0 drop_Suc_Cons order_refl)
qed simp

lemma dim_le_bulk: "d \<in> set s \<Longrightarrow> d \<le> bulk s"
proof (induction s)
  case (Cons x s)
  have "x \<le> x * bulk s" by (simp add: Suc_leI)
  moreover have "bulk s \<le> bulk (x # s)" by simp
  moreover have "d \<le> bulk s" if "d \<noteq> x" using Cons that by simp
  ultimately show ?case by (cases "d = x") auto
qed simp

text \<open>In range, the strides are the row-major ones.\<close>

lemma strides_loop_i64_exact:
  assumes "bulk shape < i64_limit" "length s = length shape" "i < length shape"
    and "\<forall>k. i \<le> k \<and> k < length shape \<longrightarrow> s ! k = row_major shape ! k"
  shows "strides_loop_i64 shape i s = Some (strides_loop shape i s)"
  using assms
proof (induction i arbitrary: s)
  case (Suc i)
  let ?x = "s ! (i + 1) * int (shape ! (i + 1))"
  have x: "?x = row_major shape ! i"
    using Suc.prems by (simp add: row_major_nth prod_list_drop_Suc mult.commute)
  have "prod_list (drop (Suc i) shape) \<le> bulk shape"
    using prod_list_le_bulk bulk_drop le_trans by blast
  then have "?x < 2 ^ 63" "0 \<le> ?x" using Suc.prems x by (simp_all add: row_major_nth i64_limit_def)
  moreover have "shape ! (i + 1) \<le> bulk shape" using Suc.prems by (intro dim_le_bulk) simp
  then have "as_i64 (shape ! (i + 1)) = int (shape ! (i + 1))" using Suc.prems by (intro as_i64_small) simp
  ultimately have "checked_mul_i64 (s ! (i + 1)) (as_i64 (shape ! (i + 1))) = Some ?x"
    by (simp add: checked_mul_i64_def checked_i64_def)
  moreover have "\<forall>k. i \<le> k \<and> k < length shape \<longrightarrow> s[i := ?x] ! k = row_major shape ! k"
    using Suc.prems x by (auto simp: nth_list_update)
  ultimately show ?case using Suc.IH[of "s[i := ?x]"] Suc.prems by simp
qed simp

lemma contiguous_strides_i64_bulk:
  assumes "bulk shape < i64_limit"
  shows "contiguous_strides_i64 shape = Some (compute_contiguous_strides shape)"
proof (cases "shape = []")
  case False
  then have "strides_loop_i64 shape (length shape - 1) ((replicate (length shape) 0)[length shape - 1 := 1])
      = Some (strides_loop shape (length shape - 1) ((replicate (length shape) 0)[length shape - 1 := 1]))"
    by (intro strides_loop_i64_exact assms) (auto simp: row_major_nth nth_list_update)
  with False show ?thesis
    unfolding contiguous_strides_i64_def compute_contiguous_strides_def Let_def by simp
qed (simp add: contiguous_strides_i64_def compute_contiguous_strides_def)

section \<open>Decoding a linear index\<close>

fun strided_loop :: "shape \<Rightarrow> strides \<Rightarrow> nat \<Rightarrow> nat \<Rightarrow> int \<Rightarrow> int" where
  "strided_loop shape strides 0 idx storage = storage"
| "strided_loop shape strides (Suc axis) idx storage =
     strided_loop shape strides axis (idx div shape ! axis)
       (storage + int (idx mod shape ! axis) * strides ! axis)"

definition strided_index :: "nat \<Rightarrow> shape \<Rightarrow> strides \<Rightarrow> nat \<Rightarrow> nat" where
  "strided_index linear shape strides offset =
     as_usize (strided_loop shape strides (length shape) linear (int offset))"

text \<open>Reference: the coordinates of a linear index, and the address of a coordinate.\<close>

fun coords_of :: "shape \<Rightarrow> nat \<Rightarrow> nat list" where
  "coords_of [] i = []"
| "coords_of (d # ds) i = (i div prod_list ds) mod d # coords_of ds i"

fun dot :: "nat list \<Rightarrow> strides \<Rightarrow> int" where
  "dot (c # cs) (s # ss) = int c * s + dot cs ss"
| "dot _ _ = 0"

definition valid_coords :: "shape \<Rightarrow> nat list \<Rightarrow> bool" where
  "valid_coords s cs \<longleftrightarrow> list_all2 (<) cs s"

lemma length_coords_of [simp]: "length (coords_of s i) = length s"
  by (induction s) auto

lemma coords_of_snoc: "coords_of (s @ [d]) i = coords_of s (i div d) @ [i mod d]"
  by (induction s) (auto simp: div_mult2_eq mult.commute)

lemma dot_snoc: "length cs = length ss \<Longrightarrow> dot (cs @ [c]) (ss @ [s]) = dot cs ss + int c * s"
  by (induction cs ss rule: list_induct2) auto

lemma strided_loop_append:
  "n \<le> length shape \<Longrightarrow> n \<le> length strides \<Longrightarrow>
   strided_loop (shape @ xs) (strides @ ys) n idx b = strided_loop shape strides n idx b"
  by (induction n arbitrary: idx b) (auto simp: nth_append)

lemma strided_loop_dot:
  "length strides = length shape \<Longrightarrow>
   strided_loop shape strides (length shape) idx b = b + dot (coords_of shape idx) strides"
proof (induction shape arbitrary: strides idx b rule: rev_induct)
  case Nil
  then show ?case by simp
next
  case (snoc d shape)
  from snoc.prems obtain ss s where st: "strides = ss @ [s]" and len: "length ss = length shape"
    by (metis append_butlast_last_id diff_Suc_1 length_append_singleton length_butlast
        list.size(3) nat.distinct(1))
  have "strided_loop (shape @ [d]) strides (length (shape @ [d])) idx b
      = strided_loop shape ss (length shape) (idx div d) (b + int (idx mod d) * s)"
    using len by (simp add: st nth_append strided_loop_append)
  then show ?case
    using snoc.IH[OF len] len by (simp add: st coords_of_snoc dot_snoc)
qed

lemma strided_index_dot:
  "length strides = length shape \<Longrightarrow>
   strided_index i shape strides off = as_usize (int off + dot (coords_of shape i) strides)"
  by (simp add: strided_index_def strided_loop_dot)


section \<open>Linear indices and coordinates\<close>

fun ravel :: "shape \<Rightarrow> nat list \<Rightarrow> nat" where
  "ravel (d # ds) (c # cs) = c * prod_list ds + ravel ds cs"
| "ravel _ _ = 0"

lemma dot_row_major: "length cs = length s \<Longrightarrow> dot cs (row_major s) = int (ravel s cs)"
  by (induction cs s rule: list_induct2) auto

lemma valid_coords_length: "valid_coords s cs \<Longrightarrow> length cs = length s"
  by (simp add: valid_coords_def list_all2_lengthD)

lemma valid_coords_Nil [simp]: "valid_coords [] cs \<longleftrightarrow> cs = []"
  by (simp add: valid_coords_def)

lemma valid_coords_Cons: "valid_coords (d # ds) cs \<longleftrightarrow> (\<exists>c cs'. cs = c # cs' \<and> c < d \<and> valid_coords ds cs')"
  by (auto simp: valid_coords_def list_all2_Cons2)

lemma valid_coords_nth:
  "valid_coords s cs \<longleftrightarrow> length cs = length s \<and> (\<forall>k < length s. cs ! k < s ! k)"
  by (auto simp: valid_coords_def list_all2_conv_all_nth)

lemma ravel_less: "valid_coords s cs \<Longrightarrow> ravel s cs < prod_list s"
proof (induction s arbitrary: cs)
  case Nil
  then show ?case by simp
next
  case (Cons d ds)
  then obtain c cs' where cs: "cs = c # cs'" "c < d" "valid_coords ds cs'"
    by (auto simp: valid_coords_Cons)
  have "c * prod_list ds + ravel ds cs' < Suc c * prod_list ds"
    using Cons.IH[OF cs(3)] by simp
  also have "\<dots> \<le> d * prod_list ds" using cs(2) by (intro mult_le_mono1) simp
  finally show ?case by (simp add: cs)
qed

lemma coords_of_mod: "coords_of s (i mod prod_list s) = coords_of s i"
proof (induction s arbitrary: i)
  case Nil
  then show ?case by simp
next
  case (Cons d ds)
  let ?P = "prod_list ds"
  have "i mod (d * ?P) div ?P mod d = i div ?P mod d"
  proof (cases "?P = 0")
    case False
    have "i mod (d * ?P) = ?P * (i div ?P mod d) + i mod ?P"
      by (simp add: mod_mult2_eq mult.commute[of d])
    with False show ?thesis by simp
  qed simp
  moreover have "coords_of ds (i mod (d * ?P)) = coords_of ds i"
    using Cons.IH[of "i mod (d * ?P)"] Cons.IH[of i] by (metis mod_mod_cancel dvd_triv_right)
  ultimately show ?case by simp
qed


lemma coords_of_ravel: "valid_coords s cs \<Longrightarrow> coords_of s (ravel s cs) = cs"
proof (induction s arbitrary: cs)
  case Nil
  then show ?case by simp
next
  case (Cons d ds)
  then obtain c cs' where cs: "cs = c # cs'" "c < d" "valid_coords ds cs'"
    by (auto simp: valid_coords_Cons)
  have lt: "ravel ds cs' < prod_list ds" using cs(3) by (rule ravel_less)
  have "coords_of ds (c * prod_list ds + ravel ds cs') = coords_of ds (ravel ds cs')"
    using coords_of_mod[of ds "c * prod_list ds + ravel ds cs'"] lt by simp
  with Cons.IH[OF cs(3)] cs(2) lt show ?case by (simp add: cs(1))
qed

lemma ravel_coords_of: "ravel s (coords_of s i) = i mod prod_list s"
proof (induction s)
  case Nil
  then show ?case by simp
next
  case (Cons d ds)
  have "i mod (d * prod_list ds) = prod_list ds * (i div prod_list ds mod d) + i mod prod_list ds"
    by (simp add: mod_mult2_eq mult.commute[of d])
  with Cons.IH show ?case by (simp add: mult.commute)
qed

lemma valid_coords_of: "0 \<notin> set s \<Longrightarrow> valid_coords s (coords_of s i)"
  by (induction s) (auto simp: valid_coords_Cons)

lemma valid_coords_of_less: "i < numel s \<Longrightarrow> valid_coords s (coords_of s i)"
  using numel_eq_0_iff[of s] by (intro valid_coords_of) auto

lemma valid_coords_linear:
  assumes "valid_coords s cs"
  obtains i where "i < numel s" "cs = coords_of s i"
  using ravel_less[OF assms] coords_of_ravel[OF assms] that by (auto simp: numel_prod_list)

lemma dot_nth_cong:
  assumes "length cs = length st" "length st' = length st"
    and "\<forall>k < length cs. cs ! k = 0 \<or> st ! k = st' ! k"
  shows "dot cs st = dot cs st'"
  using assms
proof (induction cs st arbitrary: st' rule: list_induct2)
  case Nil
  then show ?case by simp
next
  case (Cons c cs s st)
  then obtain s' st'' where st': "st' = s' # st''" by (cases st') auto
  have "dot cs st = dot cs st''"
    using Cons.prems unfolding st' by (intro Cons.IH) auto
  moreover have "int c * s = int c * s'" using Cons.prems unfolding st' by auto
  ultimately show ?case by (simp add: st')
qed

lemma dot_replicate_0 [simp]: "dot (replicate n 0) st = 0"
proof (induction n arbitrary: st)
  case (Suc n)
  then show ?case by (cases st) auto
qed simp

lemma dot_unit: "k < length st \<Longrightarrow> length st = n \<Longrightarrow> dot ((replicate n 0)[k := 1]) st = st ! k"
proof (induction st arbitrary: k n)
  case Nil
  then show ?case by simp
next
  case (Cons s st)
  then show ?case by (cases k; cases n) auto
qed

section \<open>Contiguity\<close>

fun contiguous_loop :: "shape \<Rightarrow> strides \<Rightarrow> nat \<Rightarrow> int \<Rightarrow> bool" where
  "contiguous_loop shape strides 0 expected \<longleftrightarrow> True"
| "contiguous_loop shape strides (Suc i) expected \<longleftrightarrow>
     (if shape ! i \<noteq> 1 \<and> strides ! i \<noteq> expected then False
      else contiguous_loop shape strides i (expected * int (shape ! i)))"

definition is_contiguous_strides :: "shape \<Rightarrow> strides \<Rightarrow> bool" where
  "is_contiguous_strides shape strides \<longleftrightarrow>
     (if length shape \<noteq> length strides then False
      else if shape = [] then True
      else if 0 \<in> set shape then True
      else contiguous_loop shape strides (length shape) 1)"

lemma contiguous_loop_iff:
  "n \<le> length shape \<Longrightarrow> expected = int (prod_list (drop n shape)) \<Longrightarrow>
   contiguous_loop shape strides n expected \<longleftrightarrow>
     (\<forall>k < n. shape ! k = 1 \<or> strides ! k = row_major shape ! k)"
proof (induction n arbitrary: expected)
  case 0
  then show ?case by simp
next
  case (Suc n)
  have drop: "prod_list (drop n shape) = shape ! n * prod_list (drop (Suc n) shape)"
    using Suc.prems(1) by (metis Cons_nth_drop_Suc Suc_le_eq prod_list.Cons)
  have "contiguous_loop shape strides n (expected * int (shape ! n)) \<longleftrightarrow>
      (\<forall>k < n. shape ! k = 1 \<or> strides ! k = row_major shape ! k)"
    using Suc.prems by (intro Suc.IH) (simp_all add: drop mult.commute)
  moreover have "row_major shape ! n = expected" using Suc.prems by (simp add: row_major_nth)
  ultimately show ?case by (auto simp: less_Suc_eq)
qed

lemma is_contiguous_strides_iff:
  "is_contiguous_strides shape strides \<longleftrightarrow> length strides = length shape \<and>
     (0 \<in> set shape \<or> (\<forall>k < length shape. shape ! k = 1 \<or> strides ! k = row_major shape ! k))"
  by (auto simp: is_contiguous_strides_def contiguous_loop_iff)

lemma is_contiguous_strides_row_major [simp]: "is_contiguous_strides s (row_major s)"
  by (simp add: is_contiguous_strides_iff)

lemma contiguous_dot:
  assumes "is_contiguous_strides shape strides" "i < numel shape"
  shows "dot (coords_of shape i) strides = int i"
proof -
  have valid: "valid_coords shape (coords_of shape i)" using assms(2) by (rule valid_coords_of_less)
  have nz: "0 \<notin> set shape" using assms(2) numel_eq_0_iff by force
  have "dot (coords_of shape i) strides = dot (coords_of shape i) (row_major shape)"
  proof (rule dot_nth_cong)
    show "\<forall>k < length (coords_of shape i). coords_of shape i ! k = 0 \<or> strides ! k = row_major shape ! k"
      using assms(1) nz valid
      by (auto simp: is_contiguous_strides_iff valid_coords_nth) (metis One_nat_def less_one)
  qed (use assms(1) in \<open>auto simp: is_contiguous_strides_iff\<close>)
  also have "\<dots> = int i" using assms(2) by (simp add: dot_row_major ravel_coords_of numel_prod_list)
  finally show ?thesis .
qed


text \<open>
  \<open>is_contiguous_strides\<close> (the cached \<open>contiguous\<close> flag of a layout) holds exactly when the
  strides have the rank of the shape and visiting the elements in shape order visits the
  addresses \<open>b, b + 1, b + 2, \<dots>\<close> one after the other from any base \<open>b\<close>; empty tensors and
  axes of size one are covered.
\<close>

theorem is_contiguous_strides_correct:
  "is_contiguous_strides shape strides \<longleftrightarrow> length strides = length shape
     \<and> (\<forall>b. \<forall>i < numel shape. strided_loop shape strides (length shape) i b = b + int i)"
proof
  assume c: "is_contiguous_strides shape strides"
  then have "length strides = length shape" by (simp add: is_contiguous_strides_iff)
  then show "length strides = length shape
     \<and> (\<forall>b. \<forall>i < numel shape. strided_loop shape strides (length shape) i b = b + int i)"
    using contiguous_dot[OF c] by (simp add: strided_loop_dot)
next
  assume R: "length strides = length shape
     \<and> (\<forall>b. \<forall>i < numel shape. strided_loop shape strides (length shape) i b = b + int i)"
  then have len: "length strides = length shape" by blast
  have addr: "dot (coords_of shape i) strides = int i" if "i < numel shape" for i
    using R that by (metis add_left_cancel strided_loop_dot)
  have "strides ! k = row_major shape ! k"
    if nz: "0 \<notin> set shape" and k: "k < length shape" and n1: "shape ! k \<noteq> 1" for k
  proof -
    let ?e = "(replicate (length shape) 0)[k := 1 :: nat]"
    have "0 < shape ! j" if "j < length shape" for j using nz that by (metis gr0I nth_mem)
    then have v: "valid_coords shape ?e"
      using k n1 by (auto simp: valid_coords_nth nth_list_update Suc_lessI)
    have "strides ! k = dot ?e strides" by (rule dot_unit[symmetric]) (use k len in auto)
    also have "\<dots> = int (ravel shape ?e)"
      using addr[of "ravel shape ?e"] coords_of_ravel[OF v] ravel_less[OF v]
      by (simp add: numel_prod_list)
    also have "\<dots> = dot ?e (row_major shape)" by (simp add: dot_row_major)
    also have "\<dots> = row_major shape ! k" by (rule dot_unit) (use k in auto)
    finally show ?thesis .
  qed
  with len show "is_contiguous_strides shape strides" by (auto simp: is_contiguous_strides_iff)
qed

theorem is_contiguous_strides_correct_witness:
  "is_contiguous_strides [2, 1, 3] [3, 999, 1]
   \<and> strided_loop [2, 1, 3] [3, 999, 1] (length [2 :: nat, 1, 3]) 4 10 = 14
   \<and> \<not> is_contiguous_strides [3, 2] [1, 3]"
proof -
  have c: "is_contiguous_strides [2, 1, 3] [3, 999, 1]" by code_simp
  have n: "\<not> is_contiguous_strides [3, 2] [1, 3]" by code_simp
  have "4 < numel [2, 1, 3]" by (simp add: numel_def)
  then have "strided_loop [2, 1, 3] [3, 999, 1] (length [2 :: nat, 1, 3]) 4 10 = 10 + int 4"
    using c is_contiguous_strides_correct[of "[2, 1, 3]" "[3, 999, 1]"] by blast
  with c n show ?thesis by simp
qed

section \<open>Expanding strides\<close>

fun elem_strides_loop :: "shape \<Rightarrow> nat \<Rightarrow> int \<Rightarrow> strides \<Rightarrow> strides" where
  "elem_strides_loop lhs 0 acc es = es"
| "elem_strides_loop lhs (Suc i) acc es =
     elem_strides_loop lhs i (acc * int (lhs ! i)) (es[i := acc])"

fun expand_loop ::
  "shape \<Rightarrow> shape \<Rightarrow> nat \<Rightarrow> strides \<Rightarrow> nat \<Rightarrow> (nat \<times> nat) list \<Rightarrow> strides \<Rightarrow> broadcast_error + strides" where
  "expand_loop lhs rhs offset es i [] out = Inr out"
| "expand_loop lhs rhs offset es i ((src, dst) # ps) out =
     (if src = dst then expand_loop lhs rhs offset es (i + 1) ps (out[offset + i := es ! i])
      else if src = 1 then expand_loop lhs rhs offset es (i + 1) ps (out[offset + i := 0])
      else Inl \<lparr>be_lhs = lhs, be_rhs = rhs, axis_from_right = length lhs - 1 - i\<rparr>)"

definition expand_strides_to :: "shape \<Rightarrow> shape \<Rightarrow> broadcast_error + strides" where
  "expand_strides_to lhs rhs =
     (if length rhs < length lhs
      then Inl \<lparr>be_lhs = lhs, be_rhs = rhs, axis_from_right = length rhs\<rparr>
      else let es = elem_strides_loop lhs (length lhs) 1 (replicate (length lhs) 0);
               offset = length rhs - length lhs
           in expand_loop lhs rhs offset es 0 (zip lhs (drop offset rhs))
                (replicate (length rhs) 0))"

lemma elem_strides_loop_row_major:
  assumes "length es = length lhs" "i \<le> length lhs" "acc = int (prod_list (drop i lhs))"
    and "\<forall>k. i \<le> k \<and> k < length lhs \<longrightarrow> es ! k = row_major lhs ! k"
  shows "elem_strides_loop lhs i acc es = row_major lhs"
  using assms
proof (induction i arbitrary: acc es)
  case 0
  then show ?case by (auto intro: nth_equalityI)
next
  case (Suc i)
  have drop: "prod_list (drop i lhs) = lhs ! i * prod_list (drop (Suc i) lhs)"
    using Suc.prems(2) by (metis Cons_nth_drop_Suc Suc_le_eq prod_list.Cons)
  have "row_major lhs ! i = acc" using Suc.prems by (simp add: row_major_nth)
  then have "\<forall>k. i \<le> k \<and> k < length lhs \<longrightarrow> es[i := acc] ! k = row_major lhs ! k"
    using Suc.prems by (auto simp: nth_list_update)
  with Suc.prems drop show ?case by (simp add: Suc.IH mult.commute)
qed

lemma elem_strides_eq [simp]:
  "elem_strides_loop lhs (length lhs) 1 (replicate (length lhs) 0) = row_major lhs"
  by (rule elem_strides_loop_row_major) auto

definition expandable :: "nat \<times> nat \<Rightarrow> bool" where
  "expandable p \<longleftrightarrow> fst p = snd p \<or> fst p = 1"

lemma expand_loop_Inr:
  assumes "length out = off + i + length ps" "length es = i + length ps"
  shows "expand_loop lhs rhs off es i ps out = Inr st \<longleftrightarrow>
     list_all expandable ps \<and>
     st = take (off + i) out @ map2 (\<lambda>p e. if fst p = snd p then e else 0) ps (drop i es)"
  using assms
proof (induction ps arbitrary: i out)
  case Nil
  then show ?case by auto
next
  case (Cons p ps)
  obtain src dst where p: "p = (src, dst)" by (cases p)
  have es: "drop i es = es ! i # drop (Suc i) es"
    using Cons.prems by (simp add: Cons_nth_drop_Suc)
  have out: "take (Suc (off + i)) (out[off + i := v]) = take (off + i) out @ [v]" for v
    using Cons.prems by (simp add: take_Suc_conv_app_nth)
  show ?case
  proof (cases "expandable p")
    case True
    let ?v = "if src = dst then es ! i else 0"
    have "expand_loop lhs rhs off es i (p # ps) out =
        expand_loop lhs rhs off es (Suc i) ps (out[off + i := ?v])"
      using True by (auto simp: p expandable_def)
    then show ?thesis
      using Cons.IH[of "out[off + i := ?v]" "Suc i"] Cons.prems True es out
      by (simp add: p)
  next
    case False
    then show ?thesis by (auto simp: p expandable_def)
  qed
qed

lemma expand_strides_to_Inr:
  "expand_strides_to lhs rhs = Inr st \<longleftrightarrow>
     length lhs \<le> length rhs \<and>
     list_all expandable (zip lhs (drop (length rhs - length lhs) rhs)) \<and>
     st = replicate (length rhs - length lhs) 0 @
          map2 (\<lambda>p e. if fst p = snd p then e else 0)
            (zip lhs (drop (length rhs - length lhs) rhs)) (row_major lhs)"
  unfolding expand_strides_to_def
  by (auto simp: Let_def expand_loop_Inr min_def)


lemma expandable_iff_broadcast:
  assumes "length s \<le> length t"
  shows "list_all expandable (zip s (drop (length t - length s) t)) \<longleftrightarrow> broadcast_with s t = Inr t"
proof -
  let ?off = "length t - length s"
  have "list_all expandable (zip s (drop ?off t)) \<longleftrightarrow>
      (\<forall>k < length s. s ! k = t ! (?off + k) \<or> s ! k = 1)"
    using assms by (auto simp: list_all_length expandable_def)
  also have "\<dots> \<longleftrightarrow> (\<forall>i < length s. dim_from_right s i = dim_from_right t i \<or> dim_from_right s i = 1)"
  proof (intro iffI allI impI)
    fix i assume A: "\<forall>k < length s. s ! k = t ! (?off + k) \<or> s ! k = 1" and i: "i < length s"
    then have "?off + (length s - Suc i) = length t - Suc i" using assms by simp
    with A i assms show "dim_from_right s i = dim_from_right t i \<or> dim_from_right s i = 1"
      by (auto simp: dim_from_right_def dest!: spec[of _ "length s - Suc i"])
  next
    fix k assume A: "\<forall>i < length s. dim_from_right s i = dim_from_right t i \<or> dim_from_right s i = 1"
      and k: "k < length s"
    then have "length t - Suc (length s - Suc k) = ?off + k" using assms by simp
    with A k assms show "s ! k = t ! (?off + k) \<or> s ! k = 1"
      by (auto simp: dim_from_right_def dest!: spec[of _ "length s - Suc k"])
  qed
  also have "\<dots> \<longleftrightarrow> broadcast_with s t = Inr t"
  proof
    assume A: "\<forall>i < length s. dim_from_right s i = dim_from_right t i \<or> dim_from_right s i = 1"
    then have "dim_from_right s i = dim_from_right t i \<or> dim_from_right s i = 1" for i
      by (cases "i < length s") auto
    then show "broadcast_with s t = Inr t"
      using assms by (intro broadcast_withI) (simp_all add: compatible_def join_dim_def, metis+)
  next
    assume "broadcast_with s t = Inr t"
    from broadcast_with_dims(3)[OF this]
    show "\<forall>i < length s. dim_from_right s i = dim_from_right t i \<or> dim_from_right s i = 1"
      by (metis join_dim_def)
  qed
  finally show ?thesis .
qed

definition project_coords :: "shape \<Rightarrow> nat list \<Rightarrow> nat list" where
  "project_coords s cs = map2 (\<lambda>d c. if d = 1 then 0 else c) s (drop (length cs - length s) cs)"

lemma dot_append:
  "length xs = length ss \<Longrightarrow> dot (xs @ ys) (ss @ ts) = dot xs ss + dot ys ts"
  by (induction xs ss rule: list_induct2) auto

lemma dot_0_right [simp]: "dot cs (replicate n 0) = 0"
proof (induction cs arbitrary: n)
  case (Cons c cs)
  then show ?case by (cases n) auto
qed simp

lemma dot_cong_nth:
  assumes "length cs = length st" "length cs' = length st'" "length st' = length st"
    and "\<And>k. k < length st \<Longrightarrow> int (cs ! k) * st ! k = int (cs' ! k) * st' ! k"
  shows "dot cs st = dot cs' st'"
  using assms
proof (induction cs st arbitrary: cs' st' rule: list_induct2)
  case Nil
  then show ?case by simp
next
  case (Cons c cs s st)
  then obtain c' cs'' s' st'' where eq: "cs' = c' # cs''" "st' = s' # st''"
    by (metis Suc_length_conv)
  have "dot cs st = dot cs'' st''"
    by (rule Cons.IH) (use Cons.prems(1,2) Cons.prems(3)[of "Suc _"] in \<open>auto simp: eq\<close>)
  with Cons.prems(3)[of 0] show ?case by (simp add: eq)
qed

lemma valid_project_coords:
  assumes "broadcast_with s t = Inr t" "valid_coords t cs"
  shows "valid_coords s (project_coords s cs)"
proof -
  have le: "length s \<le> length t" using broadcast_with_dims(1)[OF assms(1)] by simp
  have ex: "list_all expandable (zip s (drop (length t - length s) t))"
    using expandable_iff_broadcast[OF le] assms(1) by simp
  show ?thesis
    using assms(2) ex le
    by (auto simp: valid_coords_nth project_coords_def list_all_length expandable_def)
qed

lemma expand_strides_exists: "(\<exists>st. expand_strides_to s t = Inr st) \<longleftrightarrow> broadcast_with s t = Inr t"
proof (cases "length s \<le> length t")
  case True
  then show ?thesis by (simp add: expand_strides_to_Inr expandable_iff_broadcast)
next
  case False
  then have "broadcast_with s t \<noteq> Inr t" using broadcast_with_dims(1)[of s t t] by auto
  with False show ?thesis by (simp add: expand_strides_to_Inr)
qed

lemma expand_strides_addr:
  assumes A: "expand_strides_to s t = Inr st" "valid_coords t cs"
  shows "length st = length t"
    and "dot cs st = int (ravel s (project_coords s cs))"
    and "ravel s (project_coords s cs) < numel s"
    and "valid_coords s (project_coords s cs)"
proof -
  let ?off = "length t - length s"
  let ?st = "map2 (\<lambda>p e. if fst p = snd p then e else 0) (zip s (drop ?off t)) (row_major s)"
  from A have le: "length s \<le> length t"
    and ex: "list_all expandable (zip s (drop ?off t))"
    and st: "st = replicate ?off 0 @ ?st"
    by (auto simp: expand_strides_to_Inr)
  have len: "length cs = length t" using A valid_coords_length by blast
  have v: "valid_coords s (project_coords s cs)"
    using valid_project_coords expandable_iff_broadcast[OF le] ex A by blast
  then show "valid_coords s (project_coords s cs)" .
  show "length st = length t" using le by (simp add: st)
  have "dot cs st = dot (take ?off cs @ drop ?off cs) st" by simp
  also have "\<dots> = dot (drop ?off cs) ?st"
    using len unfolding st by (subst dot_append) simp_all
  also have "\<dots> = dot (project_coords s cs) (row_major s)"
  proof (rule dot_cong_nth)
    fix k assume k: "k < length ?st"
    then have "cs ! (?off + k) < t ! (?off + k)" using A le by (auto simp: valid_coords_nth)
    with ex k le len show "int (drop ?off cs ! k) * ?st ! k
        = int (project_coords s cs ! k) * row_major s ! k"
      by (auto simp: project_coords_def list_all_length expandable_def)
  qed (use le len in \<open>auto simp: project_coords_def\<close>)
  also have "\<dots> = int (ravel s (project_coords s cs))"
    using v by (simp add: dot_row_major valid_coords_length)
  finally show "dot cs st = int (ravel s (project_coords s cs))" .
  show "ravel s (project_coords s cs) < numel s" using ravel_less[OF v] by (simp add: numel_prod_list)
qed

text \<open>
  \<open>Shape::expand_strides_to\<close> succeeds exactly when the source broadcasts to the target shape,
  and the strides it returns address, for every coordinate of the target, the row-major element
  of the source whose broadcast axes are at coordinate 0; that address is inside the source.
\<close>

theorem expand_strides_to_correct:
  "((\<exists>st. expand_strides_to s t = Inr st) \<longleftrightarrow> broadcast_with s t = Inr t)
   \<and> (\<forall>st cs. expand_strides_to s t = Inr st \<and> valid_coords t cs \<longrightarrow>
        length st = length t
        \<and> dot cs st = int (ravel s (project_coords s cs))
        \<and> ravel s (project_coords s cs) < numel s)"
  using expand_strides_exists[of s t] expand_strides_addr(1,2,3)[of s t] by blast

theorem expand_strides_to_correct_witness:
  "expand_strides_to [3, 1] [2, 3, 4] = Inr [0, 1, 0]
   \<and> dot [1, 2, 3] [0, 1, 0] = int (ravel [3, 1] (project_coords [3, 1] [1, 2, 3]))
   \<and> ravel [3, 1] (project_coords [3, 1] [1, 2, 3]) = 2"
proof -
  have e: "expand_strides_to [3, 1] [2, 3, 4] = Inr [0, 1, 0]" by code_simp
  have v: "valid_coords [2, 3, 4] [1, 2, 3]" by (simp add: valid_coords_def)
  have r: "ravel [3, 1] (project_coords [3, 1] [1, 2, 3]) = 2" by code_simp
  from e v expand_strides_to_correct[of "[3, 1]" "[2, 3, 4]"] r show ?thesis by blast
qed

end
