(* ===== verification/Dtype.thy ===== *)
theory Dtype
  imports Rust_Base
begin

text \<open>
  Element types of \<open>rustorch-core/src/tensor/dtype.rs\<close> and the device tag of \<open>device.rs\<close>.
  The binary type-promotion table \<open>Dtype::promote_with\<close> is shown to be the join of a
  semilattice, so the class \<open>semilattice_sup\<close> is instantiated with it and \<open>promote_all\<close>
  becomes the supremum of the list, whatever the order of the operands.
\<close>

section \<open>Data\<close>

datatype dtype = F32 | F64 | F16 | BF16 | I64 | I32 | I8 | Bool

datatype device = Cpu | Wgpu | Metal | Cuda

definition byte_size :: "dtype \<Rightarrow> nat" where
  "byte_size d = (case d of F32 \<Rightarrow> 4 | I32 \<Rightarrow> 4 | F64 \<Rightarrow> 8 | I64 \<Rightarrow> 8
     | F16 \<Rightarrow> 2 | BF16 \<Rightarrow> 2 | I8 \<Rightarrow> 1 | Bool \<Rightarrow> 1)"

definition is_floating :: "dtype \<Rightarrow> bool" where
  "is_floating d \<longleftrightarrow> d \<in> {F32, F64, F16, BF16}"

definition is_signed :: "dtype \<Rightarrow> bool" where
  "is_signed d \<longleftrightarrow> d \<in> {I64, I32, I8}"

definition is_integer :: "dtype \<Rightarrow> bool" where
  "is_integer d \<longleftrightarrow> d \<in> {I64, I32, I8}"

definition is_boolean :: "dtype \<Rightarrow> bool" where
  "is_boolean d \<longleftrightarrow> d = Bool"

section \<open>Promotion\<close>

definition promote_with :: "dtype \<Rightarrow> dtype \<Rightarrow> dtype" where
  "promote_with a b =
     (if a = b then a
      else if a = F64 \<or> b = F64 then F64
      else if a = F32 \<or> b = F32 then F32
      else if (a, b) = (F16, BF16) \<or> (a, b) = (BF16, F16) then F32
      else if a = F16 \<or> b = F16 then F16
      else if a = BF16 \<or> b = BF16 then BF16
      else if a = I64 \<or> b = I64 then I64
      else if a = I32 \<or> b = I32 then I32
      else if a = I8 \<or> b = I8 then I8
      else F32)"

definition promote_all :: "dtype list \<Rightarrow> dtype option" where
  "promote_all ds = (case ds of [] \<Rightarrow> None
     | head # rest \<Rightarrow> Some (foldl promote_with head rest))"

lemma promote_with_idem [simp]: "promote_with a a = a"
  by (simp add: promote_with_def)

lemma promote_with_commute: "promote_with a b = promote_with b a"
  by (cases a; cases b) (simp_all add: promote_with_def)

lemma promote_with_assoc: "promote_with (promote_with a b) c = promote_with a (promote_with b c)"
  by (cases a; cases b; cases c) (simp_all add: promote_with_def)

text \<open>The order of the table: \<open>a \<le> b\<close> when promoting \<open>a\<close> with \<open>b\<close> gives \<open>b\<close>.\<close>

instantiation dtype :: semilattice_sup
begin

definition less_eq_dtype :: "dtype \<Rightarrow> dtype \<Rightarrow> bool" where
  "a \<le> b \<longleftrightarrow> promote_with a b = b"

definition less_dtype :: "dtype \<Rightarrow> dtype \<Rightarrow> bool" where
  "a < b \<longleftrightarrow> promote_with a b = b \<and> a \<noteq> b"

definition sup_dtype :: "dtype \<Rightarrow> dtype \<Rightarrow> dtype" where
  "sup a b = promote_with a b"

instance
proof
  fix x y z :: dtype
  show "x \<le> x" by (simp add: less_eq_dtype_def)
  show "(x < y) = (x \<le> y \<and> \<not> y \<le> x)"
    by (auto simp: less_dtype_def less_eq_dtype_def promote_with_commute)
  show "x \<le> y \<Longrightarrow> y \<le> z \<Longrightarrow> x \<le> z"
    by (metis less_eq_dtype_def promote_with_assoc)
  show "x \<le> y \<Longrightarrow> y \<le> x \<Longrightarrow> x = y"
    by (metis less_eq_dtype_def promote_with_commute)
  show "x \<le> sup x y" "y \<le> sup x y"
    by (metis less_eq_dtype_def sup_dtype_def promote_with_assoc promote_with_commute
          promote_with_idem)+
  show "y \<le> x \<Longrightarrow> z \<le> x \<Longrightarrow> sup y z \<le> x"
    by (metis less_eq_dtype_def sup_dtype_def promote_with_assoc)
qed

end

lemma promote_all_Sup: "promote_all (d # ds) = Some (Sup_fin (set (d # ds)))"
proof -
  have fold: "foldl promote_with a xs = sup a (Sup_fin (set xs))" if "xs \<noteq> []" for a xs
    using that
  proof (induction xs arbitrary: a)
    case (Cons x xs)
    show ?case
    proof (cases "xs = []")
      case True
      then show ?thesis by (simp add: sup_dtype_def)
    next
      case False
      then show ?thesis
        using Cons.IH[OF False, of "promote_with a x"]
        by (simp add: sup_dtype_def promote_with_assoc)
    qed
  qed simp
  show ?thesis by (cases "ds = []") (simp_all add: promote_all_def fold)
qed

text \<open>
  \<open>Dtype::promote_all\<close> does not depend on the order or the multiplicity of its operands,
  and its result is the least type to which every operand promotes: each operand promotes to
  it, and every type with that property absorbs it.
\<close>

theorem promote_all_least_upper_bound:
  assumes "set ds = set es" and "ds \<noteq> []"
  shows "promote_all ds = promote_all es
    \<and> (\<exists>r. promote_all ds = Some r
         \<and> (\<forall>d \<in> set ds. promote_with d r = r)
         \<and> (\<forall>u. (\<forall>d \<in> set ds. promote_with d u = u) \<longrightarrow> promote_with r u = u))"
proof -
  from assms obtain d ds' e es' where ds: "ds = d # ds'" and es: "es = e # es'"
    by (metis list.exhaust set_empty)
  have same: "promote_all ds = promote_all es"
    using assms(1) unfolding ds es by (simp only: promote_all_Sup)
  let ?r = "Sup_fin (set ds)"
  have ub: "\<forall>d \<in> set ds. promote_with d ?r = ?r"
    using Sup_fin.coboundedI[of "set ds"] by (auto simp: less_eq_dtype_def)
  have least: "\<forall>u. (\<forall>d \<in> set ds. promote_with d u = u) \<longrightarrow> promote_with ?r u = u"
    using Sup_fin.boundedI[of "set ds"] assms(2) by (auto simp: less_eq_dtype_def)
  have "promote_all ds = Some ?r" unfolding ds by (rule promote_all_Sup)
  with same ub least show ?thesis by blast
qed

theorem promote_all_least_upper_bound_witness:
  "promote_all [F16, I64, BF16] = promote_all [BF16, F16, I64]
   \<and> promote_all [F16, I64, BF16] = Some F32"
proof -
  have "set [F16, I64, BF16] = set [BF16, F16, I64]" by auto
  from promote_all_least_upper_bound[OF this] show ?thesis
    by (auto simp: promote_all_def promote_with_def)
qed

lemma promote_with_floating: "is_floating (promote_with a b) \<longleftrightarrow> is_floating a \<or> is_floating b"
  by (cases a; cases b) (simp_all add: promote_with_def is_floating_def)

lemma byte_size_pos [simp]: "0 < byte_size d" "byte_size d \<noteq> 0"
  by (cases d; simp add: byte_size_def)+

end
