(* ===== verification/Layout.thy ===== *)
theory Layout
  imports Shape Dtype
begin

text \<open>
  View metadata: \<open>rustorch-core/src/tensor/layout.rs\<close>.  A layout is a shape, element strides, an
  element offset into the storage, the element type and the cached contiguity flag.
  \<open>layout_contiguous\<close> is \<open>Layout::contiguous\<close> with its machine arithmetic; \<open>contiguous_layout\<close> is
  the layout it returns when nothing overflows.
\<close>

record layout =
  lay_shape :: shape
  lay_strides :: strides
  storage_offset :: nat
  lay_dtype :: dtype
  contiguous :: bool

datatype layout_error = StridesRankMismatch "nat list" nat

definition contiguous_layout :: "shape \<Rightarrow> dtype \<Rightarrow> layout" where
  "contiguous_layout shape dt =
     \<lparr>lay_shape = shape, lay_strides = compute_contiguous_strides shape, storage_offset = 0,
      lay_dtype = dt, contiguous = True\<rparr>"

definition layout_contiguous :: "shape \<Rightarrow> dtype \<Rightarrow> layout option" where
  "layout_contiguous shape dt =
     map_option (\<lambda>st. \<lparr>lay_shape = shape, lay_strides = st, storage_offset = 0, lay_dtype = dt, contiguous = True\<rparr>)
       (contiguous_strides_i64 shape)"

definition from_strides :: "shape \<Rightarrow> strides \<Rightarrow> nat \<Rightarrow> dtype \<Rightarrow> layout_error + layout" where
  "from_strides shape strides offset dt =
     (if length strides \<noteq> length shape
      then Inl (StridesRankMismatch shape (length strides))
      else Inr \<lparr>lay_shape = shape, lay_strides = strides, storage_offset = offset,
                lay_dtype = dt, contiguous = is_contiguous_strides shape strides\<rparr>)"

definition layout_numel :: "layout \<Rightarrow> nat" where
  "layout_numel l = numel (lay_shape l)"

definition layout_byte_size :: "layout \<Rightarrow> nat" where
  "layout_byte_size l = layout_numel l * byte_size (lay_dtype l)"

definition recompute_contiguous :: "layout \<Rightarrow> layout" where
  "recompute_contiguous l = l\<lparr>contiguous := is_contiguous_strides (lay_shape l) (lay_strides l)\<rparr>"

definition is_channels_last :: "layout \<Rightarrow> bool" where
  "is_channels_last l \<longleftrightarrow>
     (if length (lay_shape l) \<noteq> 4 then False
      else let s = lay_shape l; c = s ! 1; h = s ! 2; w = s ! 3 in
        lay_strides l = [int (c * h * w), 1, int (c * w), int c] \<and> storage_offset l = 0)"

lemma layout_contiguous_bulk:
  "bulk s < i64_limit \<Longrightarrow> layout_contiguous s d = Some (contiguous_layout s d)"
  by (simp add: layout_contiguous_def contiguous_layout_def contiguous_strides_i64_bulk)

lemma layout_contiguous_nonempty:
  "0 < numel s \<Longrightarrow> numel s < i64_limit \<Longrightarrow> layout_contiguous s d = Some (contiguous_layout s d)"
  by (rule layout_contiguous_bulk) (metis bulk_nonempty numel_eq_0_iff numel_prod_list less_irrefl)

section \<open>The type invariant\<close>

text \<open>The rank of the strides is the rank of the shape, and the cached flag is up to date.\<close>

definition wf_layout :: "layout \<Rightarrow> bool" where
  "wf_layout l \<longleftrightarrow> length (lay_strides l) = length (lay_shape l)
     \<and> contiguous l = is_contiguous_strides (lay_shape l) (lay_strides l)"

lemma wf_contiguous_layout [simp]: "wf_layout (contiguous_layout s d)"
  by (simp add: wf_layout_def contiguous_layout_def)

lemma wf_from_strides: "from_strides s st off d = Inr l \<Longrightarrow> wf_layout l"
  by (auto simp: from_strides_def wf_layout_def split: if_splits)

lemma from_strides_Inr:
  "from_strides s st off d = Inr l \<longleftrightarrow> length st = length s \<and>
     l = \<lparr>lay_shape = s, lay_strides = st, storage_offset = off, lay_dtype = d,
          contiguous = is_contiguous_strides s st\<rparr>"
  by (auto simp: from_strides_def)

lemma wf_recompute: "length (lay_strides l) = length (lay_shape l) \<Longrightarrow> wf_layout (recompute_contiguous l)"
  by (simp add: wf_layout_def recompute_contiguous_def)

lemma recompute_wf [simp]: "wf_layout l \<Longrightarrow> recompute_contiguous l = l"
  by (simp add: wf_layout_def recompute_contiguous_def)

section \<open>Addresses\<close>

definition addr :: "layout \<Rightarrow> nat list \<Rightarrow> int" where
  "addr l cs = int (storage_offset l) + dot cs (lay_strides l)"

text \<open>
  The layout invariant over a buffer of \<open>n\<close> elements: well-formed, every coordinate addresses the
  buffer from the offset on, and distinct coordinates address distinct elements.
\<close>

definition layout_inv :: "layout \<Rightarrow> nat \<Rightarrow> bool" where
  "layout_inv l n \<longleftrightarrow> wf_layout l \<and> n < i64_limit
     \<and> (\<forall>cs. valid_coords (lay_shape l) cs \<longrightarrow> 0 \<le> dot cs (lay_strides l))
     \<and> (\<forall>cs. valid_coords (lay_shape l) cs \<longrightarrow> addr l cs < int n)
     \<and> inj_on (addr l) {cs. valid_coords (lay_shape l) cs}"

lemma dot_nonneg: "\<forall>s \<in> set st. 0 \<le> s \<Longrightarrow> 0 \<le> dot cs st"
  by (induction cs st rule: dot.induct) auto

lemma addr_nonneg: "layout_inv l n \<Longrightarrow> valid_coords (lay_shape l) cs \<Longrightarrow> 0 \<le> addr l cs"
  by (simp add: layout_inv_def addr_def)

lemma layout_inv_small: "layout_inv l n \<Longrightarrow> n < u64_limit"
  by (simp add: layout_inv_def limit_defs)

lemma strided_index_addr:
  assumes "layout_inv l n" "i < numel (lay_shape l)"
  shows "strided_index i (lay_shape l) (lay_strides l) (storage_offset l)
           = nat (addr l (coords_of (lay_shape l) i))"
    and "nat (addr l (coords_of (lay_shape l) i)) < n"
proof -
  have v: "valid_coords (lay_shape l) (coords_of (lay_shape l) i)"
    using assms(2) by (rule valid_coords_of_less)
  then have lt: "addr l (coords_of (lay_shape l) i) < int n"
    using assms(1) by (simp add: layout_inv_def)
  have nn: "0 \<le> addr l (coords_of (lay_shape l) i)" using assms(1) v by (rule addr_nonneg)
  moreover have "int n < 2 ^ 64" using layout_inv_small[OF assms(1)] by (simp add: limit_defs)
  ultimately show "strided_index i (lay_shape l) (lay_strides l) (storage_offset l)
           = nat (addr l (coords_of (lay_shape l) i))"
    using assms(1) lt
    by (simp add: strided_index_dot layout_inv_def wf_layout_def as_usize_nonneg addr_def)
  show "nat (addr l (coords_of (lay_shape l) i)) < n"
    using lt nn by (simp add: nat_less_iff)
qed

lemma addr_contiguous_layout:
  "valid_coords s cs \<Longrightarrow> addr (contiguous_layout s d) cs = int (ravel s cs)"
  by (simp add: addr_def contiguous_layout_def dot_row_major valid_coords_length)

lemma row_major_nonneg: "x \<in> set (row_major s) \<Longrightarrow> 0 \<le> x"
  by (induction s) auto

lemma ravel_inj: "inj_on (ravel s) {cs. valid_coords s cs}"
  by (rule inj_on_inverseI[where g = "coords_of s"]) (simp add: coords_of_ravel)

lemma contiguous_layout_inv:
  assumes "numel s \<le> n" "n < i64_limit"
  shows "layout_inv (contiguous_layout s d) n"
proof -
  have sh: "lay_shape (contiguous_layout s d) = s" by (simp add: contiguous_layout_def)
  have "addr (contiguous_layout s d) cs < int n" if "valid_coords s cs" for cs
    using ravel_less[OF that] assms(1) by (simp add: addr_contiguous_layout[OF that] numel_prod_list)
  moreover have "inj_on (addr (contiguous_layout s d)) {cs. valid_coords s cs}"
    using ravel_inj[of s] by (auto simp: inj_on_def addr_contiguous_layout)
  moreover have "0 \<le> dot cs (lay_strides (contiguous_layout s d))" for cs
    by (rule dot_nonneg) (simp add: contiguous_layout_def row_major_nonneg)
  ultimately show ?thesis using assms(2) sh by (simp add: layout_inv_def)
qed

lemma addr_contiguous:
  assumes "wf_layout l" "contiguous l" "i < numel (lay_shape l)"
  shows "addr l (coords_of (lay_shape l) i) = int (storage_offset l) + int i"
  using assms contiguous_dot by (simp add: wf_layout_def addr_def)

text \<open>
  The comment on \<open>Layout::is_contiguous\<close> lists \<open>storage_offset == 0\<close> among its conditions; the
  flag does not look at the offset.
\<close>

lemma contiguous_flag_ignores_offset:
  "from_strides [2] [1] 5 F32
     = Inr \<lparr>lay_shape = [2], lay_strides = [1], storage_offset = 5, lay_dtype = F32, contiguous = True\<rparr>"
  by code_simp

end
