(* ===== verification/View.thy ===== *)
theory View
  imports Layout
begin

text \<open>
  The zero-copy view operations of \<open>rustorch-core/src/tensor/view.rs\<close> on layouts; the tensors
  and the shared storage around them are in \<open>Tensor\<close>.

  Every operation but \<open>view\<close> is described by the coordinate of the source that a coordinate of
  the result stands for.  The locale \<open>view_op\<close> states that contract and derives from it that
  the layout invariant is kept; each operation is an interpretation of it.
\<close>

section \<open>Operations\<close>

text \<open>
  \<open>ViewPanic\<close> stands for a failing \<open>expect\<close> on the result of \<open>Layout::from_strides\<close>, and
  \<open>ViewOverflow\<close> for an arithmetic overflow, which is a panic in a build with overflow checks.
\<close>

datatype view_error =
    NonContiguous
  | NumelMismatch nat nat
  | PermuteRankMismatch nat nat
  | InvalidPermutation "nat list"
  | DimOutOfRange nat nat
  | NarrowOutOfRange nat nat nat nat
  | NotSqueezable nat nat
  | ViewPanic
  | ViewOverflow

definition expect_layout :: "layout_error + layout \<Rightarrow> view_error + layout" where
  "expect_layout r = (case r of Inl _ \<Rightarrow> Inl ViewPanic | Inr l \<Rightarrow> Inr l)"

definition list_swap :: "'a list \<Rightarrow> nat \<Rightarrow> nat \<Rightarrow> 'a list" where
  "list_swap xs i j = xs[i := xs ! j, j := xs ! i]"

definition list_insert :: "'a list \<Rightarrow> nat \<Rightarrow> 'a \<Rightarrow> 'a list" where
  "list_insert xs i x = take i xs @ x # drop i xs"

definition list_remove :: "'a list \<Rightarrow> nat \<Rightarrow> 'a list" where
  "list_remove xs i = take i xs @ drop (Suc i) xs"

definition view :: "layout \<Rightarrow> shape \<Rightarrow> view_error + layout" where
  "view l new_shape =
     (if \<not> contiguous l then Inl NonContiguous
      else case (numel_u64 new_shape, numel_u64 (lay_shape l)) of
        (Some dst, Some src) \<Rightarrow>
          if dst \<noteq> src then Inl (NumelMismatch src dst)
          else (case layout_contiguous new_shape (lay_dtype l) of None \<Rightarrow> Inl ViewOverflow | Some l' \<Rightarrow> Inr l')
      | _ \<Rightarrow> Inl ViewOverflow)"

definition reshape :: "layout \<Rightarrow> shape \<Rightarrow> view_error + layout" where
  "reshape l new_shape = (if contiguous l then view l new_shape else Inl NonContiguous)"

definition transpose_axes :: "layout \<Rightarrow> nat \<times> nat \<Rightarrow> view_error + layout" where
  "transpose_axes l p =
     (let d0 = fst p; d1 = snd p; nd = length (lay_shape l) in
      if d0 \<ge> nd then Inl (DimOutOfRange d0 nd)
      else if d1 \<ge> nd then Inl (DimOutOfRange d1 nd)
      else expect_layout (from_strides (list_swap (lay_shape l) d0 d1)
             (list_swap (lay_strides l) d0 d1) (storage_offset l) (lay_dtype l)))"

fun permutation_loop :: "nat \<Rightarrow> bool list \<Rightarrow> nat list \<Rightarrow> bool" where
  "permutation_loop nd seen [] \<longleftrightarrow> True"
| "permutation_loop nd seen (p # ps) \<longleftrightarrow>
     (if p \<ge> nd \<or> seen ! p then False else permutation_loop nd (seen[p := True]) ps)"

definition permute :: "layout \<Rightarrow> nat list \<Rightarrow> view_error + layout" where
  "permute l perm =
     (let nd = length (lay_shape l) in
      if length perm \<noteq> nd then Inl (PermuteRankMismatch nd (length perm))
      else if \<not> permutation_loop nd (replicate nd False) perm then Inl (InvalidPermutation perm)
      else expect_layout (from_strides (map (\<lambda>p. lay_shape l ! p) perm)
             (map (\<lambda>p. lay_strides l ! p) perm) (storage_offset l) (lay_dtype l)))"

definition unsqueeze :: "layout \<Rightarrow> nat \<Rightarrow> view_error + layout" where
  "unsqueeze l dim =
     (let nd = length (lay_shape l) in
      if dim > nd then Inl (DimOutOfRange dim nd)
      else let inserted = (if dim < nd then lay_strides l ! dim else 1) in
        expect_layout (from_strides (list_insert (lay_shape l) dim 1)
          (list_insert (lay_strides l) dim inserted) (storage_offset l) (lay_dtype l)))"

definition squeeze :: "layout \<Rightarrow> nat \<Rightarrow> view_error + layout" where
  "squeeze l dim =
     (let nd = length (lay_shape l) in
      if dim \<ge> nd then Inl (DimOutOfRange dim nd)
      else if lay_shape l ! dim \<noteq> 1 then Inl (NotSqueezable dim (lay_shape l ! dim))
      else expect_layout (from_strides (list_remove (lay_shape l) dim)
             (list_remove (lay_strides l) dim) (storage_offset l) (lay_dtype l)))"

definition shifted_offset :: "layout \<Rightarrow> nat \<Rightarrow> nat \<Rightarrow> nat option" where
  "shifted_offset l dim start =
     map_option (\<lambda>x. saturating_add_usize (storage_offset l) (nat (max x 0)))
       (checked_mul_i64 (as_i64 start) (lay_strides l ! dim))"

definition narrow :: "layout \<Rightarrow> nat \<times> nat \<times> nat \<Rightarrow> view_error + layout" where
  "narrow l p =
     (let dim = fst p; start = fst (snd p); len = snd (snd p); nd = length (lay_shape l) in
      if dim \<ge> nd then Inl (DimOutOfRange dim nd)
      else let dim_size = lay_shape l ! dim in
        case checked_add_u64 start len of
          None \<Rightarrow> Inl (NarrowOutOfRange dim start len dim_size)
        | Some e \<Rightarrow>
            if e > dim_size then Inl (NarrowOutOfRange dim start len dim_size)
            else (case shifted_offset l dim start of
                    None \<Rightarrow> Inl ViewOverflow
                  | Some off \<Rightarrow> expect_layout (from_strides ((lay_shape l)[dim := len]) (lay_strides l) off (lay_dtype l))))"

definition slice :: "layout \<Rightarrow> nat \<times> nat \<times> nat \<times> nat \<Rightarrow> view_error + layout" where
  "slice l p =
     (let dim = fst p; start = fst (snd p); e = fst (snd (snd p)); step = snd (snd (snd p));
          nd = length (lay_shape l) in
      if dim \<ge> nd then Inl (DimOutOfRange dim nd)
      else let dim_size = lay_shape l ! dim in
        if start > e \<or> e > dim_size \<or> step = 0 then Inl (NarrowOutOfRange dim start e dim_size)
        else let span = e - start; new_dim = (if span = 0 then 0 else (span - 1) div step + 1) in
          case (checked_mul_i64 (lay_strides l ! dim) (as_i64 step), shifted_offset l dim start) of
            (Some stride, Some off) \<Rightarrow>
              expect_layout (from_strides ((lay_shape l)[dim := new_dim]) ((lay_strides l)[dim := stride]) off (lay_dtype l))
          | _ \<Rightarrow> Inl ViewOverflow)"

section \<open>The contract of a view\<close>

locale view_op =
  fixes vop :: "layout \<Rightarrow> 'p \<Rightarrow> view_error + layout"
    and src :: "layout \<Rightarrow> 'p \<Rightarrow> nat list \<Rightarrow> nat list"
  assumes vop_wf: "layout_inv l n \<Longrightarrow> vop l p = Inr l' \<Longrightarrow> wf_layout l'"
    and vop_low: "layout_inv l n \<Longrightarrow> vop l p = Inr l' \<Longrightarrow> valid_coords (lay_shape l') cs \<Longrightarrow>
          0 \<le> dot cs (lay_strides l')"
    and vop_dtype: "vop l p = Inr l' \<Longrightarrow> lay_dtype l' = lay_dtype l"
    and src_valid: "layout_inv l n \<Longrightarrow> vop l p = Inr l' \<Longrightarrow> valid_coords (lay_shape l') cs \<Longrightarrow>
          valid_coords (lay_shape l) (src l p cs)"
    and src_addr: "layout_inv l n \<Longrightarrow> vop l p = Inr l' \<Longrightarrow> valid_coords (lay_shape l') cs \<Longrightarrow>
          addr l' cs = addr l (src l p cs)"
    and src_inj: "layout_inv l n \<Longrightarrow> vop l p = Inr l' \<Longrightarrow>
          inj_on (src l p) {cs. valid_coords (lay_shape l') cs}"
begin

lemma keeps_inv:
  assumes "layout_inv l n" "vop l p = Inr l'"
  shows "layout_inv l' n"
proof -
  have inj: "inj_on (addr l) {cs. valid_coords (lay_shape l) cs}"
    using assms(1) by (simp add: layout_inv_def)
  have "inj_on (addr l') {cs. valid_coords (lay_shape l') cs}"
  proof (rule inj_onI)
    fix a b
    assume a: "a \<in> {cs. valid_coords (lay_shape l') cs}" and b: "b \<in> {cs. valid_coords (lay_shape l') cs}"
      and eq: "addr l' a = addr l' b"
    from eq a b have "addr l (src l p a) = addr l (src l p b)" by (simp add: src_addr[OF assms])
    with inj a b have "src l p a = src l p b"
      by (simp add: inj_on_def src_valid[OF assms])
    with src_inj[OF assms] a b show "a = b" by (simp add: inj_on_def)
  qed
  moreover have "addr l' cs < int n" if "valid_coords (lay_shape l') cs" for cs
    using assms(1) src_valid[OF assms that] by (simp add: layout_inv_def src_addr[OF assms that])
  ultimately show ?thesis
    using assms(1) vop_wf[OF assms] vop_low[OF assms] by (simp add: layout_inv_def)
qed

end

section \<open>Each operation meets the contract\<close>

lemmas op_defs = Let_def expect_layout_def from_strides_Inr

lemma expect_layout_Inr:
  "expect_layout (from_strides s st off d) = Inr l \<longleftrightarrow> from_strides s st off d = Inr l"
  by (auto simp: expect_layout_def split: sum.splits)

text \<open>A view that keeps the offset keeps its elements behind it.\<close>

lemma same_offset_low:
  "layout_inv l n \<Longrightarrow> valid_coords (lay_shape l) ds \<Longrightarrow> addr l' cs = addr l ds \<Longrightarrow>
   storage_offset l' = storage_offset l \<Longrightarrow> 0 \<le> dot cs (lay_strides l')"
  by (simp add: layout_inv_def addr_def)

text \<open>An axis of a layout that addresses an element is no longer than the buffer.\<close>

lemma axis_le_buffer:
  assumes inv: "layout_inv l n" and v: "valid_coords (lay_shape l) cs" and k: "k < length (lay_shape l)"
  shows "lay_shape l ! k \<le> n"
proof -
  have vc: "valid_coords (lay_shape l) (cs[k := c])" if "c < lay_shape l ! k" for c
    using v k that by (auto simp: valid_coords_nth nth_list_update)
  have "inj_on (\<lambda>c. nat (addr l (cs[k := c]))) {..<lay_shape l ! k}"
  proof (rule inj_onI)
    fix a b assume ab: "a \<in> {..<lay_shape l ! k}" "b \<in> {..<lay_shape l ! k}" and "nat (addr l (cs[k := a])) = nat (addr l (cs[k := b]))"
    then have "addr l (cs[k := a]) = addr l (cs[k := b])"
      using addr_nonneg[OF inv vc] by (simp add: eq_nat_nat_iff)
    then have "cs[k := a] = cs[k := b]" using inv vc ab by (simp add: layout_inv_def inj_on_def)
    then have "cs[k := a] ! k = cs[k := b] ! k" by simp
    then show "a = b" using v k by (simp add: valid_coords_nth)
  qed
  moreover have "(\<lambda>c. nat (addr l (cs[k := c]))) ` {..<lay_shape l ! k} \<subseteq> {..<n}"
    using inv vc addr_nonneg[OF inv vc] by (auto simp: layout_inv_def nat_less_iff)
  ultimately show ?thesis using card_inj_on_le[of _ "{..<lay_shape l ! k}" "{..<n}"] by simp
qed

lemma dot_sum: "length cs = length st \<Longrightarrow> dot cs st = (\<Sum>k < length st. int (cs ! k) * st ! k)"
  by (induction cs st rule: list_induct2) (auto simp: sum.lessThan_Suc_shift simp del: sum.lessThan_Suc)

lemma dot_update:
  assumes "length cs = length st" "d < length cs"
  shows "dot (cs[d := x]) st = dot cs st + (int x - int (cs ! d)) * st ! d"
  using assms
proof (induction cs st arbitrary: d rule: list_induct2)
  case Nil
  then show ?case by simp
next
  case (Cons c cs s st)
  then show ?case by (cases d) (auto simp: algebra_simps)
qed

text \<open>In a tensor with elements, the distance to a position on one axis is a machine integer.\<close>

lemma axis_shift_ok:
  assumes inv: "layout_inv l n" and v: "valid_coords (lay_shape l) cs"
    and dim: "dim < length (lay_shape l)" and start: "start < lay_shape l ! dim"
  shows "shifted_offset l dim start \<noteq> None"
proof -
  let ?z = "(replicate (length (lay_shape l)) 0)[dim := start]" and ?s = "lay_strides l ! dim"
  have len: "length (lay_strides l) = length (lay_shape l)" using inv by (simp add: layout_inv_def wf_layout_def)
  have vz: "valid_coords (lay_shape l) ?z"
    using v start dim unfolding valid_coords_nth by (auto simp: nth_list_update intro: le_less_trans[OF le0])
  have "dot ?z (lay_strides l) = int start * ?s"
    using len dim dot_update[of "replicate (length (lay_shape l)) 0" "lay_strides l" dim start] by simp
  then have "0 \<le> int start * ?s" "int start * ?s < int n"
    using vz inv unfolding layout_inv_def addr_def by (fastforce, smt (verit) of_nat_0_le_iff)
  moreover have "start < i64_limit" using axis_le_buffer[OF inv v dim] start inv by (simp add: layout_inv_def)
  moreover have "n < i64_limit" using inv by (simp add: layout_inv_def)
  ultimately show ?thesis
    by (simp add: shifted_offset_def checked_mul_i64_def checked_i64_def as_i64_small limit_defs)
qed

lemma dot_update_stride:
  assumes "length cs = length st" "d < length cs"
  shows "dot cs (st[d := y]) = dot cs st + int (cs ! d) * (y - st ! d)"
  using assms
proof (induction cs st arbitrary: d rule: list_induct2)
  case Nil
  then show ?case by simp
next
  case (Cons c cs s st)
  then show ?case by (cases d) (auto simp: algebra_simps)
qed

subsection \<open>Transpose\<close>

definition swap_ix :: "nat \<Rightarrow> nat \<Rightarrow> nat \<Rightarrow> nat" where
  "swap_ix i j k = (if k = i then j else if k = j then i else k)"

lemma length_list_swap [simp]: "length (list_swap xs i j) = length xs"
  by (simp add: list_swap_def)

lemma list_swap_nth:
  "i < length xs \<Longrightarrow> j < length xs \<Longrightarrow> k < length xs \<Longrightarrow> list_swap xs i j ! k = xs ! swap_ix i j k"
  by (auto simp: list_swap_def swap_ix_def nth_list_update)

lemma swap_ix_bij: "i < n \<Longrightarrow> j < n \<Longrightarrow> bij_betw (swap_ix i j) {..<n} {..<n}"
  by (rule bij_betw_byWitness[where f' = "swap_ix i j"]) (auto simp: swap_ix_def)

lemma list_swap_swap [simp]:
  "i < length xs \<Longrightarrow> j < length xs \<Longrightarrow> list_swap (list_swap xs i j) i j = xs"
  by (rule nth_equalityI) (auto simp: list_swap_def nth_list_update)

lemma dot_list_swap:
  assumes "length cs = length st" "i < length st" "j < length st"
  shows "dot (list_swap cs i j) (list_swap st i j) = dot cs st"
proof -
  let ?f = "\<lambda>k. int (cs ! k) * st ! k"
  have "dot (list_swap cs i j) (list_swap st i j) = (\<Sum>k < length st. ?f (swap_ix i j k))"
    using assms by (simp add: dot_sum list_swap_nth)
  also have "\<dots> = (\<Sum>k < length st. ?f k)"
    using sum.reindex_bij_betw[OF swap_ix_bij[OF assms(2,3)], of ?f] by simp
  finally show ?thesis using assms by (simp add: dot_sum)
qed

lemma transpose_axes_Inr:
  "transpose_axes l (d0, d1) = Inr l' \<Longrightarrow> wf_layout l \<Longrightarrow>
   d0 < length (lay_shape l) \<and> d1 < length (lay_shape l) \<and>
   l' = \<lparr>lay_shape = list_swap (lay_shape l) d0 d1, lay_strides = list_swap (lay_strides l) d0 d1,
         storage_offset = storage_offset l, lay_dtype = lay_dtype l,
         contiguous = is_contiguous_strides (list_swap (lay_shape l) d0 d1) (list_swap (lay_strides l) d0 d1)\<rparr>"
  by (auto simp: transpose_axes_def Let_def expect_layout_Inr from_strides_Inr split: if_splits)

interpretation transpose_view: view_op transpose_axes "\<lambda>l p cs. list_swap cs (fst p) (snd p)"
proof
  fix l l' :: layout and n :: nat and p :: "nat \<times> nat" and cs :: "nat list"
  obtain d0 d1 where p: "p = (d0, d1)" by (cases p)
  assume op: "transpose_axes l p = Inr l'"
  then show "lay_dtype l' = lay_dtype l"
    by (auto simp: transpose_axes_def Let_def expect_layout_Inr from_strides_Inr split: if_splits)
  assume inv: "layout_inv l n"
  then have wf: "wf_layout l" by (simp add: layout_inv_def)
  note r = transpose_axes_Inr[OF op[unfolded p] wf]
  have len: "length (lay_strides l) = length (lay_shape l)" using wf by (simp add: wf_layout_def)
  show "wf_layout l'" using r len by (auto simp: wf_layout_def)
  show "inj_on (\<lambda>cs. list_swap cs (fst p) (snd p)) {cs. valid_coords (lay_shape l') cs}"
    by (rule inj_on_inverseI[where g = "\<lambda>cs. list_swap cs d0 d1"])
      (use r in \<open>auto simp: p valid_coords_nth\<close>)
  assume v: "valid_coords (lay_shape l') cs"
  then have lcs: "length cs = length (lay_shape l)" using r by (simp add: valid_coords_nth)
  show v': "valid_coords (lay_shape l) (list_swap cs (fst p) (snd p))"
    using v r unfolding p valid_coords_nth
    by (auto simp: list_swap_def nth_list_update)
  show a: "addr l' cs = addr l (list_swap cs (fst p) (snd p))"
    using dot_list_swap[of "list_swap cs d0 d1" "lay_strides l" d0 d1] r lcs len
    by (simp add: addr_def p)
  show "0 \<le> dot cs (lay_strides l')" by (rule same_offset_low[OF inv v' a]) (use r in simp)
qed


subsection \<open>Permute\<close>

lemma permutation_loop_iff:
  "length seen = nd \<Longrightarrow>
   permutation_loop nd seen ps \<longleftrightarrow> distinct ps \<and> (\<forall>p \<in> set ps. p < nd \<and> \<not> seen ! p)"
proof (induction ps arbitrary: seen)
  case Nil
  then show ?case by simp
next
  case (Cons p ps)
  have "permutation_loop nd (seen[p := True]) ps \<longleftrightarrow>
      distinct ps \<and> (\<forall>q \<in> set ps. q < nd \<and> \<not> seen[p := True] ! q)"
    using Cons.prems by (intro Cons.IH) simp
  then show ?case using Cons.prems by (auto simp: nth_list_update split: if_splits)
qed

lemma permutation_loop_start:
  "permutation_loop nd (replicate nd False) ps \<longleftrightarrow> distinct ps \<and> set ps \<subseteq> {..<nd}"
  by (auto simp: permutation_loop_iff)

definition is_perm :: "nat list \<Rightarrow> nat \<Rightarrow> bool" where
  "is_perm perm n \<longleftrightarrow> length perm = n \<and> distinct perm \<and> set perm \<subseteq> {..<n}"

definition perm_pos :: "nat list \<Rightarrow> nat \<Rightarrow> nat" where
  "perm_pos perm j = length (takeWhile (\<lambda>x. x \<noteq> j) perm)"

lemma is_perm_bij: "is_perm perm n \<Longrightarrow> bij_betw (\<lambda>k. perm ! k) {..<n} {..<n}"
proof -
  assume P: "is_perm perm n"
  have "inj_on ((!) perm) {..<n}" using P by (auto simp: is_perm_def inj_on_def nth_eq_iff_index_eq)
  moreover have "(!) perm ` {..<n} \<subseteq> {..<n}" using P by (force simp: is_perm_def)
  ultimately show ?thesis by (auto simp: bij_betw_def endo_inj_surj)
qed

lemma perm_pos:
  assumes "is_perm perm n" "j < n"
  shows "perm_pos perm j < n" "perm ! perm_pos perm j = j"
proof -
  have "j \<in> (!) perm ` {..<n}" using is_perm_bij[OF assms(1)] assms(2) by (simp add: bij_betw_def)
  then have "j \<in> set perm" using assms(1) by (auto simp: is_perm_def)
  then have lt: "length (takeWhile (\<lambda>x. x \<noteq> j) perm) < length perm" by (induction perm) auto
  show "perm_pos perm j < n" using lt assms(1) by (simp add: perm_pos_def is_perm_def)
  show "perm ! perm_pos perm j = j" using nth_length_takeWhile[OF lt] by (simp add: perm_pos_def)
qed

lemma perm_pos_nth: "is_perm perm n \<Longrightarrow> k < n \<Longrightarrow> perm_pos perm (perm ! k) = k"
proof -
  assume P: "is_perm perm n" and k: "k < n"
  then have "perm ! k < n" by (force simp: is_perm_def)
  from perm_pos[OF P this] P k show ?thesis by (simp add: is_perm_def nth_eq_iff_index_eq)
qed

definition unpermute :: "nat list \<Rightarrow> nat list \<Rightarrow> nat list" where
  "unpermute perm cs = map (\<lambda>j. cs ! perm_pos perm j) [0..<length cs]"

lemma dot_unpermute:
  assumes "is_perm perm n" "length cs = n" "length st = n"
  shows "dot (unpermute perm cs) st = dot cs (map (\<lambda>p. st ! p) perm)"
proof -
  let ?f = "\<lambda>j. int (cs ! perm_pos perm j) * st ! j"
  have lp: "length perm = n" using assms(1) by (simp add: is_perm_def)
  have "dot cs (map (\<lambda>p. st ! p) perm) = (\<Sum>k < n. ?f (perm ! k))"
    using assms lp by (simp add: dot_sum perm_pos_nth)
  also have "\<dots> = (\<Sum>j < n. ?f j)"
    using sum.reindex_bij_betw[OF is_perm_bij[OF assms(1)], of ?f] by simp
  finally show ?thesis using assms by (simp add: dot_sum unpermute_def)
qed

lemma permute_Inr:
  "permute l perm = Inr l' \<Longrightarrow> wf_layout l \<Longrightarrow>
   is_perm perm (length (lay_shape l)) \<and>
   lay_shape l' = map (\<lambda>p. lay_shape l ! p) perm \<and> lay_strides l' = map (\<lambda>p. lay_strides l ! p) perm \<and>
   storage_offset l' = storage_offset l \<and> wf_layout l'"
  by (auto simp: permute_def Let_def expect_layout_Inr from_strides_Inr permutation_loop_start
      is_perm_def wf_layout_def split: if_splits)

interpretation permute_view: view_op permute "\<lambda>l perm cs. unpermute perm cs"
proof
  fix l l' :: layout and n :: nat and perm cs :: "nat list"
  assume op: "permute l perm = Inr l'"
  then show "lay_dtype l' = lay_dtype l"
    by (auto simp: permute_def Let_def expect_layout_Inr from_strides_Inr split: if_splits)
  assume inv: "layout_inv l n"
  then have wf: "wf_layout l" by (simp add: layout_inv_def)
  note r = permute_Inr[OF op wf]
  then have P: "is_perm perm (length (lay_shape l))" and lp: "length perm = length (lay_shape l)"
    by (auto simp: is_perm_def)
  have len: "length (lay_strides l) = length (lay_shape l)" using wf by (simp add: wf_layout_def)
  show "wf_layout l'" using r by simp
  show "inj_on (\<lambda>cs. unpermute perm cs) {cs. valid_coords (lay_shape l') cs}"
  proof (rule inj_on_inverseI[where g = "\<lambda>ds. map (\<lambda>p. ds ! p) perm"])
    fix cs assume "cs \<in> {cs. valid_coords (lay_shape l') cs}"
    then have "length cs = length perm" using r by (simp add: valid_coords_nth)
    moreover have "perm ! k < length perm" if "k < length perm" for k
      using P lp that by (force simp: is_perm_def)
    ultimately show "map (\<lambda>p. unpermute perm cs ! p) perm = cs"
      using lp perm_pos_nth[OF P] by (intro nth_equalityI) (simp_all add: unpermute_def)
  qed
  assume v: "valid_coords (lay_shape l') cs"
  then have lcs: "length cs = length (lay_shape l)" using r lp by (simp add: valid_coords_nth)
  show v': "valid_coords (lay_shape l) (unpermute perm cs)"
    unfolding valid_coords_nth
  proof (intro conjI allI impI)
    fix k assume k: "k < length (lay_shape l)"
    from v r lp perm_pos(1)[OF P k]
    have "cs ! perm_pos perm k < lay_shape l ! (perm ! perm_pos perm k)" by (simp add: valid_coords_nth)
    then show "unpermute perm cs ! k < lay_shape l ! k"
      using k lcs perm_pos(2)[OF P k] by (simp add: unpermute_def)
  qed (simp add: unpermute_def lcs)
  show a: "addr l' cs = addr l (unpermute perm cs)"
    using dot_unpermute[OF P lcs len] r by (simp add: addr_def)
  show "0 \<le> dot cs (lay_strides l')" by (rule same_offset_low[OF inv v' a]) (use r in simp)
qed


subsection \<open>Unsqueeze and squeeze\<close>

lemma length_list_insert [simp]: "i \<le> length xs \<Longrightarrow> length (list_insert xs i x) = Suc (length xs)"
  by (simp add: list_insert_def)

lemma length_list_remove [simp]: "i < length xs \<Longrightarrow> length (list_remove xs i) = length xs - 1"
  by (simp add: list_remove_def)

lemma list_remove_insert [simp]: "i \<le> length xs \<Longrightarrow> list_remove (list_insert xs i x) i = xs"
  by (simp add: list_remove_def list_insert_def)

lemma list_insert_remove [simp]: "i < length xs \<Longrightarrow> list_insert (list_remove xs i) i (xs ! i) = xs"
  by (simp add: list_remove_def list_insert_def id_take_nth_drop[symmetric])

lemma dot_list_insert:
  assumes "length cs = length st" "i \<le> length st"
  shows "dot (list_insert cs i c) (list_insert st i x) = dot cs st + int c * x"
proof -
  have "dot cs st = dot (take i cs) (take i st) + dot (drop i cs) (drop i st)"
    using assms dot_append[of "take i cs" "take i st" "drop i cs" "drop i st"] by simp
  moreover have "dot (list_insert cs i c) (list_insert st i x)
      = dot (take i cs) (take i st) + (int c * x + dot (drop i cs) (drop i st))"
    using assms unfolding list_insert_def by (subst dot_append) simp_all
  ultimately show ?thesis by simp
qed

lemma valid_coords_append:
  "length xs = length s \<Longrightarrow> valid_coords (s @ t) (xs @ ys) \<longleftrightarrow> valid_coords s xs \<and> valid_coords t ys"
  by (simp add: valid_coords_def list_all2_append)

lemma valid_coords_list_insert:
  assumes "i \<le> length s" "length cs = length s"
  shows "valid_coords (list_insert s i d) (list_insert cs i c) \<longleftrightarrow> valid_coords s cs \<and> c < d"
proof -
  have "valid_coords s cs \<longleftrightarrow> valid_coords (take i s) (take i cs) \<and> valid_coords (drop i s) (drop i cs)"
    using valid_coords_append[of "take i cs" "take i s" "drop i s" "drop i cs"] assms by simp
  moreover have "valid_coords (list_insert s i d) (list_insert cs i c) \<longleftrightarrow>
      valid_coords (take i s) (take i cs) \<and> c < d \<and> valid_coords (drop i s) (drop i cs)"
    using assms by (simp add: list_insert_def valid_coords_append valid_coords_Cons)
  ultimately show ?thesis by blast
qed

lemma unsqueeze_Inr:
  "unsqueeze l dim = Inr l' \<Longrightarrow> wf_layout l \<Longrightarrow>
   dim \<le> length (lay_shape l) \<and> lay_shape l' = list_insert (lay_shape l) dim 1 \<and>
   lay_strides l' = list_insert (lay_strides l) dim
      (if dim < length (lay_shape l) then lay_strides l ! dim else 1) \<and>
   storage_offset l' = storage_offset l \<and> wf_layout l'"
  by (auto simp: unsqueeze_def Let_def expect_layout_Inr from_strides_Inr wf_layout_def
      split: if_splits)

lemma squeeze_Inr:
  "squeeze l dim = Inr l' \<Longrightarrow> wf_layout l \<Longrightarrow>
   dim < length (lay_shape l) \<and> lay_shape l ! dim = 1 \<and> lay_shape l' = list_remove (lay_shape l) dim \<and>
   lay_strides l' = list_remove (lay_strides l) dim \<and>
   storage_offset l' = storage_offset l \<and> wf_layout l'"
  by (auto simp: squeeze_def Let_def expect_layout_Inr from_strides_Inr wf_layout_def
      split: if_splits)

lemma valid_unsqueezed:
  assumes "valid_coords (list_insert s dim 1) cs" "dim \<le> length s"
  shows "cs = list_insert (list_remove cs dim) dim 0 \<and> valid_coords s (list_remove cs dim)"
proof -
  have lcs: "length cs = Suc (length s)" using assms by (simp add: valid_coords_nth)
  have "cs ! dim < 1"
    using assms lcs by (auto simp: valid_coords_nth list_insert_def nth_append dest!: spec[of _ dim])
  then have "cs ! dim = 0" by simp
  with list_insert_remove[of dim cs] lcs assms(2)
  have cs: "cs = list_insert (list_remove cs dim) dim 0" by (metis le_imp_less_Suc)
  moreover have "valid_coords s (list_remove cs dim)"
    using valid_coords_list_insert[OF assms(2), of "list_remove cs dim" 1 0] assms lcs cs by simp
  ultimately show ?thesis by blast
qed

interpretation unsqueeze_view: view_op unsqueeze "\<lambda>l dim cs. list_remove cs dim"
proof
  fix l l' :: layout and n dim :: nat and cs :: "nat list"
  assume op: "unsqueeze l dim = Inr l'"
  then show "lay_dtype l' = lay_dtype l"
    by (auto simp: unsqueeze_def Let_def expect_layout_Inr from_strides_Inr split: if_splits)
  assume inv: "layout_inv l n"
  then have wf: "wf_layout l" by (simp add: layout_inv_def)
  note r = unsqueeze_Inr[OF op wf]
  have len: "length (lay_strides l) = length (lay_shape l)" using wf by (simp add: wf_layout_def)
  show "wf_layout l'" using r by simp
  show "inj_on (\<lambda>cs. list_remove cs dim) {cs. valid_coords (lay_shape l') cs}"
    by (rule inj_on_inverseI[where g = "\<lambda>ds. list_insert ds dim 0"])
      (use r valid_unsqueezed in \<open>metis mem_Collect_eq\<close>)
  assume "valid_coords (lay_shape l') cs"
  then have v: "cs = list_insert (list_remove cs dim) dim 0"
      "valid_coords (lay_shape l) (list_remove cs dim)"
    using r valid_unsqueezed by metis+
  show "valid_coords (lay_shape l) (list_remove cs dim)" by (rule v(2))
  show a: "addr l' cs = addr l (list_remove cs dim)"
    using r len valid_coords_length[OF v(2)]
    by (subst v(1)) (simp add: addr_def dot_list_insert)
  show "0 \<le> dot cs (lay_strides l')" by (rule same_offset_low[OF inv v(2) a]) (use r in simp)
qed

interpretation squeeze_view: view_op squeeze "\<lambda>l dim cs. list_insert cs dim 0"
proof
  fix l l' :: layout and n dim :: nat and cs :: "nat list"
  assume op: "squeeze l dim = Inr l'"
  then show "lay_dtype l' = lay_dtype l"
    by (auto simp: squeeze_def Let_def expect_layout_Inr from_strides_Inr split: if_splits)
  assume inv: "layout_inv l n"
  then have wf: "wf_layout l" by (simp add: layout_inv_def)
  note r = squeeze_Inr[OF op wf]
  have len: "length (lay_strides l) = length (lay_shape l)" using wf by (simp add: wf_layout_def)
  have sh: "lay_shape l = list_insert (lay_shape l') dim 1"
    and st: "lay_strides l = list_insert (lay_strides l') dim (lay_strides l ! dim)"
    using r len list_insert_remove[of dim "lay_shape l"] by simp_all
  show "wf_layout l'" using r by simp
  have d: "dim \<le> length (lay_shape l')" using r by auto
  show "inj_on (\<lambda>cs. list_insert cs dim 0) {cs. valid_coords (lay_shape l') cs}"
    by (rule inj_on_inverseI[where g = "\<lambda>ds. list_remove ds dim"])
      (use d in \<open>auto dest: valid_coords_length\<close>)
  assume v: "valid_coords (lay_shape l') cs"
  show v': "valid_coords (lay_shape l) (list_insert cs dim 0)"
    using valid_coords_list_insert[OF d valid_coords_length[OF v], of 1 0] v sh by simp
  have "length (lay_strides l') = length (lay_shape l')" using r unfolding wf_layout_def by blast
  then show a: "addr l' cs = addr l (list_insert cs dim 0)"
    using r d valid_coords_length[OF v] by (subst (2) addr_def) (subst st, simp add: dot_list_insert addr_def)
  show "0 \<le> dot cs (lay_strides l')" by (rule same_offset_low[OF inv v' a]) (use r in simp)
qed


subsection \<open>Narrow and slice\<close>

text \<open>
  Both select the coordinates \<open>start + step * c\<close> of one axis; \<open>narrow\<close> is the case \<open>step = 1\<close>.
\<close>

definition strided_axis :: "nat \<Rightarrow> nat \<Rightarrow> nat \<Rightarrow> nat list \<Rightarrow> nat list" where
  "strided_axis dim start step cs = cs[dim := start + step * cs ! dim]"

lemma strided_axis_addr:
  assumes inv: "layout_inv l n" and dim: "dim < length (lay_shape l)"
    and sh: "lay_shape l' = (lay_shape l)[dim := len]"
    and st: "lay_strides l' = (lay_strides l)[dim := lay_strides l ! dim * as_i64 step]"
    and off: "shifted_offset l dim start = Some (storage_offset l')"
    and fits: "\<And>c. c < len \<Longrightarrow> start + step * c < lay_shape l ! dim"
    and v: "valid_coords (lay_shape l') cs"
  shows "valid_coords (lay_shape l) (strided_axis dim start step cs)"
    and "addr l' cs = addr l (strided_axis dim start step cs)"
    and "0 \<le> dot cs (lay_strides l')"
proof -
  let ?at = "\<lambda>x. cs[dim := x]" and ?s = "lay_strides l ! dim" and ?c = "cs ! dim"
  have len: "length (lay_strides l) = length (lay_shape l)"
    using inv by (simp add: layout_inv_def wf_layout_def)
  have lcs: "length cs = length (lay_shape l)" using v sh by (simp add: valid_coords_nth)
  have c: "?c < len" using v dim sh by (auto simp: valid_coords_nth dest!: spec[of _ dim])
  have va: "valid_coords (lay_shape l) (?at x)" if "x < lay_shape l ! dim" for x
    unfolding valid_coords_nth
  proof (intro conjI allI impI)
    fix k assume k: "k < length (lay_shape l)"
    have "cs ! k < (lay_shape l)[dim := len] ! k" using v sh k by (simp add: valid_coords_nth)
    with k that lcs show "?at x ! k < lay_shape l ! k" by (cases "k = dim") simp_all
  qed (simp add: lcs)
  have at: "dot (?at x) (lay_strides l) = dot (?at 0) (lay_strides l) + int x * ?s" for x
    using lcs len dim by (simp add: dot_update algebra_simps)
  note low = inv[unfolded layout_inv_def, THEN conjunct2, THEN conjunct2, THEN conjunct1, rule_format]
  show v': "valid_coords (lay_shape l) (strided_axis dim start step cs)"
    unfolding strided_axis_def by (rule va) (rule fits[OF c])
  have small: "x < i64_limit" if "x < lay_shape l ! dim" for x
    using axis_le_buffer[OF inv v' dim] inv that by (simp add: layout_inv_def)
  have start: "start < lay_shape l ! dim" using fits[of 0] c by simp
  have shift0: "0 \<le> int start * ?s"
  proof (rule ccontr)
    assume neg: "\<not> 0 \<le> int start * ?s"
    txt \<open>The other coordinates can be zero.\<close>
    have vz: "valid_coords (lay_shape l) ((replicate (length cs) 0)[dim := start])"
      using v' start dim unfolding valid_coords_nth
      by (auto simp: nth_list_update lcs intro: le_less_trans[OF le0])
    have "dot ((replicate (length cs) 0)[dim := start]) (lay_strides l) = int start * ?s"
      using lcs len dim dot_update[of "replicate (length cs) 0" "lay_strides l" dim start]
      by simp
    then show False using low[OF vz] neg by simp
  qed
  have step_c: "as_i64 step * int ?c = int (step * ?c)"
  proof (cases "?c = 0")
    case False
    then have "step \<le> start + step * ?c" by (simp add: Suc_leI trans_le_add2)
    with fits[OF c] have "step < lay_shape l ! dim" by linarith
    then show ?thesis using small by (simp add: as_i64_small)
  qed simp
  have "dot cs (lay_strides l') = dot cs (lay_strides l) + int ?c * (?s * as_i64 step - ?s)"
    using lcs len dim by (simp add: st dot_update_stride)
  also have "\<dots> = dot (?at 0) (lay_strides l) + ?s * (as_i64 step * int ?c)"
    using at[of ?c] by (simp add: algebra_simps)
  also have "\<dots> = dot (?at (step * ?c)) (lay_strides l)" unfolding step_c using at[of "step * ?c"] by (simp add: algebra_simps)
  finally have dot': "dot cs (lay_strides l') = dot (?at (step * ?c)) (lay_strides l)" .
  have "step * ?c < lay_shape l ! dim" using fits[OF c] by simp
  then show ge: "0 \<le> dot cs (lay_strides l')" unfolding dot' by (intro low va)
  have dots: "dot (strided_axis dim start step cs) (lay_strides l) = dot cs (lay_strides l') + int start * ?s"
    unfolding strided_axis_def dot' using at[of "start + step * ?c"] at[of "step * ?c"] by (simp add: algebra_simps)
  have "addr l (strided_axis dim start step cs) < int n"
    using inv v' by (simp add: layout_inv_def)
  then have "int (storage_offset l) + int start * ?s < int u64_limit"
    using layout_inv_small[OF inv] dots ge by (simp add: addr_def)
  then have "int (storage_offset l + nat (int start * ?s)) < int u64_limit" using shift0 by simp
  then have "storage_offset l + nat (int start * ?s) < u64_limit" by (simp only: of_nat_less_iff)
  moreover have "as_i64 start = int start" using small[OF start] by (rule as_i64_small)
  ultimately have "int (storage_offset l') = int (storage_offset l) + int start * ?s"
    using off shift0 by (auto simp: shifted_offset_def saturating_add_usize_def checked_mul_i64_def checked_i64_def split: if_splits)
  then show "addr l' cs = addr l (strided_axis dim start step cs)"
    using dots by (simp add: addr_def)
qed

lemma strided_axis_inj:
  assumes "0 < step" "dim < length s" "s = s0[dim := len]"
  shows "inj_on (strided_axis dim start step) {cs. valid_coords s cs}"
proof (rule inj_onI)
  fix a b assume a: "a \<in> {cs. valid_coords s cs}" and b: "b \<in> {cs. valid_coords s cs}"
    and eq: "strided_axis dim start step a = strided_axis dim start step b"
  have len: "length a = length s" "length b = length s" using a b by (simp_all add: valid_coords_nth)
  have "a ! k = b ! k" if "k < length s" for k
  proof -
    have "strided_axis dim start step a ! k = strided_axis dim start step b ! k" using eq by simp
    then show ?thesis
      using assms(1) len that by (cases "k = dim") (simp_all add: strided_axis_def)
  qed
  with len show "a = b" by (auto intro: nth_equalityI)
qed

lemma narrow_Inr:
  "narrow l (dim, start, len) = Inr l' \<Longrightarrow> wf_layout l \<Longrightarrow>
   dim < length (lay_shape l) \<and> start + len \<le> lay_shape l ! dim \<and>
   lay_shape l' = (lay_shape l)[dim := len] \<and> lay_strides l' = lay_strides l \<and>
   shifted_offset l dim start = Some (storage_offset l') \<and> wf_layout l'"
  by (auto simp: narrow_def Let_def expect_layout_Inr from_strides_Inr wf_layout_def
      split: if_splits option.splits)

lemma slice_Inr:
  "slice l (dim, start, e, step) = Inr l' \<Longrightarrow> wf_layout l \<Longrightarrow>
   dim < length (lay_shape l) \<and> start \<le> e \<and> e \<le> lay_shape l ! dim \<and> 0 < step \<and>
   lay_shape l' = (lay_shape l)[dim := (if e - start = 0 then 0 else (e - start - 1) div step + 1)] \<and>
   lay_strides l' = (lay_strides l)[dim := lay_strides l ! dim * as_i64 step] \<and>
   shifted_offset l dim start = Some (storage_offset l') \<and> wf_layout l'"
  by (auto simp: slice_def Let_def expect_layout_Inr from_strides_Inr wf_layout_def checked_mul_i64_def
      checked_i64_def split: if_splits option.splits)

interpretation narrow_view: view_op narrow "\<lambda>l p cs. strided_axis (fst p) (fst (snd p)) 1 cs"
proof
  fix l l' :: layout and n :: nat and p :: "nat \<times> nat \<times> nat" and cs :: "nat list"
  obtain dim start len where p: "p = (dim, start, len)" by (cases p)
  assume op: "narrow l p = Inr l'"
  then show "lay_dtype l' = lay_dtype l"
    by (auto simp: narrow_def Let_def expect_layout_Inr from_strides_Inr split: if_splits option.splits)
  assume inv: "layout_inv l n"
  then have wf: "wf_layout l" by (simp add: layout_inv_def)
  note r = narrow_Inr[OF op[unfolded p] wf]
  have st: "lay_strides l' = (lay_strides l)[dim := lay_strides l ! dim * as_i64 1]"
    using r by (simp add: as_i64_small limit_defs)
  show "wf_layout l'" using r by simp
  show "inj_on (\<lambda>cs. strided_axis (fst p) (fst (snd p)) 1 cs) {cs. valid_coords (lay_shape l') cs}"
    using r by (intro strided_axis_inj) (auto simp: p)
  assume v: "valid_coords (lay_shape l') cs"
  have fits: "start + 1 * c < lay_shape l ! dim" if "c < len" for c using r that by simp
  show "valid_coords (lay_shape l) (strided_axis (fst p) (fst (snd p)) 1 cs)"
    and "addr l' cs = addr l (strided_axis (fst p) (fst (snd p)) 1 cs)" and "0 \<le> dot cs (lay_strides l')"
    using strided_axis_addr[where len = len and start = start, OF inv _ _ st _ fits v] r
    by (simp_all add: p)
qed

interpretation slice_view: view_op slice
  "\<lambda>l p cs. strided_axis (fst p) (fst (snd p)) (snd (snd (snd p))) cs"
proof
  fix l l' :: layout and n :: nat and p :: "nat \<times> nat \<times> nat \<times> nat" and cs :: "nat list"
  obtain dim start e step where p: "p = (dim, start, e, step)" by (cases p)
  assume op: "slice l p = Inr l'"
  then show "lay_dtype l' = lay_dtype l"
    by (auto simp: slice_def Let_def expect_layout_Inr from_strides_Inr split: if_splits option.splits)
  assume inv: "layout_inv l n"
  then have wf: "wf_layout l" by (simp add: layout_inv_def)
  note r = slice_Inr[OF op[unfolded p] wf]
  let ?len = "if e - start = 0 then 0 else (e - start - 1) div step + 1"
  show "wf_layout l'" using r by simp
  show "inj_on (\<lambda>cs. strided_axis (fst p) (fst (snd p)) (snd (snd (snd p))) cs)
      {cs. valid_coords (lay_shape l') cs}"
    using r by (intro strided_axis_inj) (auto simp: p)
  assume v: "valid_coords (lay_shape l') cs"
  have fits: "start + step * c < lay_shape l ! dim" if "c < ?len" for c
  proof -
    have "c \<le> (e - start - 1) div step" "e - start \<noteq> 0" using that by (auto split: if_splits)
    then have "step * c \<le> e - start - 1"
      by (metis div_times_less_eq_dividend le_trans mult.commute mult_le_mono1)
    with r \<open>e - start \<noteq> 0\<close> show ?thesis by linarith
  qed
  show "valid_coords (lay_shape l) (strided_axis (fst p) (fst (snd p)) (snd (snd (snd p))) cs)"
    and "addr l' cs = addr l (strided_axis (fst p) (fst (snd p)) (snd (snd (snd p))) cs)"
    and "0 \<le> dot cs (lay_strides l')"
    using strided_axis_addr[where len = ?len and start = start and step = step, OF inv _ _ _ _ fits v] r
    by (simp_all add: p)
qed


subsection \<open>View and reshape\<close>

lemma view_Inr:
  "view l s = Inr l' \<Longrightarrow> contiguous l \<and> numel s = layout_numel l \<and> layout_contiguous s (lay_dtype l) = Some l'"
  by (auto simp: view_def layout_numel_def split: if_splits option.splits dest!: numel_u64_Some)

lemma layout_contiguous_Some:
  "layout_contiguous s d = Some l \<Longrightarrow> lay_shape l = s \<and> lay_dtype l = d \<and> storage_offset l = 0 \<and> contiguous l
     \<and> length (lay_strides l) = length s"
  by (auto simp: layout_contiguous_def length_contiguous_strides_i64)

lemma reshape_view: "reshape l s = view l s"
  by (simp add: reshape_def view_def)

text \<open>A view of a dense layout with numbers in range succeeds.\<close>

lemma view_exact:
  assumes "contiguous l" "numel s = numel (lay_shape l)" "bulk s < i64_limit" "bulk (lay_shape l) < i64_limit"
  shows "view l s = Inr (contiguous_layout s (lay_dtype l))"
proof -
  have "bulk s < u64_limit" "bulk (lay_shape l) < u64_limit" using assms(3,4) by (simp_all add: limit_defs)
  then show ?thesis
    using assms numel_u64_bulk[of s] numel_u64_bulk[of "lay_shape l"] by (simp add: view_def layout_contiguous_bulk)
qed

lemma view_nonempty:
  assumes "contiguous l" "numel s = numel (lay_shape l)" "0 < numel s" "numel s < i64_limit"
  shows "view l s = Inr (contiguous_layout s (lay_dtype l))"
  using assms numel_eq_0_iff[of s] numel_eq_0_iff[of "lay_shape l"]
  by (intro view_exact) (simp_all add: bulk_nonempty numel_prod_list)

lemma contiguous_numel_le:
  assumes "layout_inv l n" "contiguous l"
  shows "numel (lay_shape l) \<le> n"
proof (cases "numel (lay_shape l) = 0")
  case False
  then have lt: "numel (lay_shape l) - 1 < numel (lay_shape l)" by simp
  have "valid_coords (lay_shape l) (coords_of (lay_shape l) (numel (lay_shape l) - 1))"
    using lt by (rule valid_coords_of_less)
  then have "addr l (coords_of (lay_shape l) (numel (lay_shape l) - 1)) < int n"
    using assms(1) by (simp add: layout_inv_def)
  with addr_contiguous[OF _ assms(2) lt] assms(1) False show ?thesis
    by (simp add: layout_inv_def)
qed simp

lemma no_coords: "0 \<in> set s \<Longrightarrow> \<not> valid_coords s cs"
  by (auto simp: valid_coords_nth in_set_conv_nth)

text \<open>A dense layout that was built without overflow addresses its buffer.\<close>

lemma layout_contiguous_inv:
  assumes l: "layout_contiguous s d = Some l" and n: "numel s \<le> n" "n < i64_limit"
  shows "layout_inv l n"
proof (cases "numel s = 0")
  case True
  then have "0 \<in> set s" by (simp add: numel_eq_0_iff)
  then show ?thesis
    using layout_contiguous_Some[OF l] n no_coords
    by (simp add: layout_inv_def wf_layout_def is_contiguous_strides_iff)
next
  case False
  then have "l = contiguous_layout s d" using l n layout_contiguous_nonempty[of s d] by simp
  then show ?thesis using n by (simp add: contiguous_layout_inv)
qed

lemma view_keeps_inv:
  assumes "layout_inv l n" "view l s = Inr l'"
  shows "layout_inv l' n"
proof -
  note v = view_Inr[OF assms(2)]
  have "numel (lay_shape l) \<le> n" using contiguous_numel_le[OF assms(1)] v by blast
  moreover have "n < i64_limit" using assms(1) by (simp add: layout_inv_def)
  ultimately show ?thesis
    using v by (intro layout_contiguous_inv[of s "lay_dtype l"]) (simp_all add: layout_numel_def)
qed

section \<open>Sequences of views\<close>

datatype view_call =
    CallView shape
  | CallReshape shape
  | CallTranspose nat nat
  | CallPermute "nat list"
  | CallUnsqueeze nat
  | CallSqueeze nat
  | CallNarrow nat nat nat
  | CallSlice nat nat nat nat

fun apply_view :: "layout \<Rightarrow> view_call \<Rightarrow> view_error + layout" where
  "apply_view l (CallView s) = view l s"
| "apply_view l (CallReshape s) = reshape l s"
| "apply_view l (CallTranspose d0 d1) = transpose_axes l (d0, d1)"
| "apply_view l (CallPermute p) = permute l p"
| "apply_view l (CallUnsqueeze d) = unsqueeze l d"
| "apply_view l (CallSqueeze d) = squeeze l d"
| "apply_view l (CallNarrow d s n) = narrow l (d, s, n)"
| "apply_view l (CallSlice d s e k) = slice l (d, s, e, k)"

fun apply_views :: "layout \<Rightarrow> view_call list \<Rightarrow> view_error + layout" where
  "apply_views l [] = Inr l"
| "apply_views l (c # cs) = (case apply_view l c of Inl e \<Rightarrow> Inl e | Inr l' \<Rightarrow> apply_views l' cs)"

lemma apply_view_keeps_inv:
  "layout_inv l n \<Longrightarrow> apply_view l c = Inr l' \<Longrightarrow> layout_inv l' n"
  by (cases c; simp only: apply_view.simps reshape_view)
    (erule (1) view_keeps_inv transpose_view.keeps_inv permute_view.keeps_inv
      unsqueeze_view.keeps_inv squeeze_view.keeps_inv narrow_view.keeps_inv slice_view.keeps_inv)+

lemma apply_views_keeps_inv:
  "layout_inv l n \<Longrightarrow> apply_views l cs = Inr l' \<Longrightarrow> layout_inv l' n"
proof (induction cs arbitrary: l)
  case (Cons c cs)
  then obtain m where m: "apply_view l c = Inr m" "apply_views m cs = Inr l'"
    by (simp split: sum.splits)
  show ?case using Cons.IH m(2) apply_view_keeps_inv[OF Cons.prems(1) m(1)] by simp
qed simp

lemma from_strides_no_panic:
  "length st = length s \<Longrightarrow> expect_layout (from_strides s st off d) \<noteq> Inl ViewPanic"
  by (simp add: expect_layout_def from_strides_def)

lemma apply_view_no_panic: "wf_layout l \<Longrightarrow> apply_view l c \<noteq> Inl ViewPanic"
  by (cases c)
    (auto simp: wf_layout_def reshape_view view_def transpose_axes_def permute_def unsqueeze_def
      squeeze_def narrow_def slice_def Let_def from_strides_no_panic split: option.splits if_splits)

lemma apply_views_no_panic: "layout_inv l n \<Longrightarrow> apply_views l cs \<noteq> Inl ViewPanic"
proof (induction cs arbitrary: l)
  case (Cons c cs)
  have "apply_view l c \<noteq> Inl ViewPanic"
    using Cons.prems by (simp add: layout_inv_def apply_view_no_panic)
  moreover have "apply_views m cs \<noteq> Inl ViewPanic" if "apply_view l c = Inr m" for m
    using Cons.IH apply_view_keeps_inv[OF Cons.prems that] .
  ultimately show ?case by (cases "apply_view l c") simp_all
qed simp

section \<open>Calls in range\<close>

text \<open>
  No product of sizes or strides leaves the machine range in the call: a requested shape stays below
  \<open>2 ^ 63\<close>, and so do the products of strides with a start or a step.
\<close>

fun view_in_range :: "layout \<Rightarrow> view_call \<Rightarrow> bool" where
  "view_in_range l (CallView s) \<longleftrightarrow> bulk s < i64_limit"
| "view_in_range l (CallReshape s) \<longleftrightarrow> bulk s < i64_limit"
| "view_in_range l (CallNarrow d start len) \<longleftrightarrow> shifted_offset l d start \<noteq> None"
| "view_in_range l (CallSlice d start stop step) \<longleftrightarrow>
     shifted_offset l d start \<noteq> None \<and> checked_mul_i64 (lay_strides l ! d) (as_i64 step) \<noteq> None"
| "view_in_range l _ \<longleftrightarrow> True"

lemma view_no_overflow:
  assumes "bulk (lay_shape l) < i64_limit" "bulk s < i64_limit"
  shows "view l s \<noteq> Inl ViewOverflow"
proof -
  have "bulk s < u64_limit" "bulk (lay_shape l) < u64_limit" using assms by (simp_all add: limit_defs)
  then show ?thesis
    using assms numel_u64_bulk[of s] numel_u64_bulk[of "lay_shape l"] by (simp add: view_def layout_contiguous_bulk)
qed

lemma apply_view_no_overflow:
  assumes "bulk (lay_shape l) < i64_limit" "view_in_range l c"
  shows "apply_view l c \<noteq> Inl ViewOverflow"
  using assms view_no_overflow[OF assms(1)]
  by (cases c) (auto simp: reshape_view transpose_axes_def permute_def unsqueeze_def squeeze_def narrow_def
      slice_def expect_layout_def Let_def split: option.splits sum.splits)

lemma bulk_append [simp]: "bulk (xs @ ys) = bulk xs * bulk ys"
  by (induction xs) simp_all

lemma bulk_mset: "mset xs = mset ys \<Longrightarrow> bulk xs = bulk ys"
  unfolding bulk_def by (metis mset_filter prod_mset_prod_list)

lemma bulk_shrink:
  assumes "k < length s" "x \<le> s ! k"
  shows "bulk (s[k := x]) \<le> bulk s"
proof -
  have "bulk (take k s @ x # drop (Suc k) s) \<le> bulk (take k s @ s ! k # drop (Suc k) s)"
    using assms(2) by (auto intro!: mult_le_mono2 mult_le_mono1)
  then show ?thesis using assms(1) by (simp only: upd_conv_take_nth_drop id_take_nth_drop[symmetric])
qed

lemma mset_permuted:
  assumes "is_perm perm (length s)"
  shows "mset (map (\<lambda>p. s ! p) perm) = mset s"
proof -
  have "set perm = {..<length s}"
    using assms by (intro card_subset_eq) (simp_all add: is_perm_def distinct_card)
  then have "mset perm = mset [0..<length s]"
    using assms set_eq_iff_mset_eq_distinct[of perm "[0..<length s]"]
    by (simp add: is_perm_def lessThan_atLeast0)
  then have "image_mset (\<lambda>p. s ! p) (mset perm) = image_mset (\<lambda>p. s ! p) (mset [0..<length s])" by (simp only:)
  then show ?thesis by (metis map_nth mset_map)
qed

lemma apply_view_bulk:
  assumes wf: "wf_layout l" and op: "apply_view l c = Inr l'" and l: "bulk (lay_shape l) < i64_limit" and c: "view_in_range l c"
  shows "bulk (lay_shape l') < i64_limit"
proof (cases c)
  case (CallView s)
  then show ?thesis using op c view_Inr[of l s l'] layout_contiguous_Some by auto
next
  case (CallReshape s)
  then show ?thesis using op c view_Inr[of l s l'] layout_contiguous_Some by (auto simp: reshape_view)
next
  case (CallTranspose d0 d1)
  then have r: "d0 < length (lay_shape l)" "d1 < length (lay_shape l)" "lay_shape l' = list_swap (lay_shape l) d0 d1"
    using transpose_axes_Inr[of l d0 d1 l'] op wf by auto
  have "mset (list_swap (lay_shape l) d0 d1) = mset (lay_shape l)"
    using mset_swap[OF r(2,1)] by (simp add: list_swap_def)
  from bulk_mset[OF this] show ?thesis using l r by simp
next
  case (CallPermute p)
  then show ?thesis using permute_Inr[of l p l'] op wf l bulk_mset[OF mset_permuted, of p "lay_shape l"] by simp
next
  case (CallUnsqueeze d)
  then have r: "d \<le> length (lay_shape l)" "lay_shape l' = list_insert (lay_shape l) d 1"
    using unsqueeze_Inr[of l d l'] op wf by auto
  have "bulk (list_insert (lay_shape l) d 1) = bulk (take d (lay_shape l) @ drop d (lay_shape l))"
    by (simp add: list_insert_def del: append_take_drop_id)
  then show ?thesis using l r by simp
next
  case (CallSqueeze d)
  then have r: "d < length (lay_shape l)" "lay_shape l ! d = 1" "lay_shape l' = list_remove (lay_shape l) d"
    using squeeze_Inr[of l d l'] op wf by auto
  have "bulk (list_remove (lay_shape l) d) = bulk (take d (lay_shape l) @ lay_shape l ! d # drop (Suc d) (lay_shape l))"
    using r(2) by (simp add: list_remove_def)
  then show ?thesis using l r(1,3) by (simp only: id_take_nth_drop[symmetric])
next
  case (CallNarrow d st n)
  then have "d < length (lay_shape l)" "st + n \<le> lay_shape l ! d" "lay_shape l' = (lay_shape l)[d := n]"
    using narrow_Inr[of l d st n l'] op wf by auto
  then show ?thesis using bulk_shrink[of d "lay_shape l" n] l by simp
next
  case (CallSlice d st e k)
  let ?n = "if e - st = 0 then 0 else (e - st - 1) div k + 1"
  have r: "d < length (lay_shape l)" "e \<le> lay_shape l ! d" "lay_shape l' = (lay_shape l)[d := ?n]"
    using slice_Inr[of l d st e k l'] op wf CallSlice by auto
  have "(e - st - 1) div k \<le> e - st - 1" by (rule div_le_dividend)
  then have "(e - st - 1) div k + 1 \<le> lay_shape l ! d" if "e - st \<noteq> 0" using r(2) that by linarith
  then have "?n \<le> lay_shape l ! d" by simp
  then show ?thesis using bulk_shrink[OF r(1)] r(3) l by (metis le_less_trans)
qed

lemma strided_index_inj:
  assumes "layout_inv l n"
  shows "inj_on (\<lambda>i. strided_index i (lay_shape l) (lay_strides l) (storage_offset l))
           {..<numel (lay_shape l)}"
proof (rule inj_onI)
  let ?c = "coords_of (lay_shape l)"
  fix i j assume ij: "i \<in> {..<numel (lay_shape l)}" "j \<in> {..<numel (lay_shape l)}"
    and eq: "strided_index i (lay_shape l) (lay_strides l) (storage_offset l)
      = strided_index j (lay_shape l) (lay_strides l) (storage_offset l)"
  have "addr l (?c i) = addr l (?c j)"
    using eq ij[THEN lessThan_iff[THEN iffD1], THEN strided_index_addr(1)[OF assms]]
      eq_nat_nat_iff[OF addr_nonneg[OF assms, of "?c i"] addr_nonneg[OF assms, of "?c j"]]
      ij[THEN lessThan_iff[THEN iffD1], THEN valid_coords_of_less]
    by (simp only:)
  moreover have "valid_coords (lay_shape l) (?c i)" "valid_coords (lay_shape l) (?c j)"
    using ij by (simp_all add: valid_coords_of_less)
  ultimately have "?c i = ?c j" using assms by (simp add: layout_inv_def inj_on_def)
  moreover have "ravel (lay_shape l) (?c k) = k" if "k \<in> {..<numel (lay_shape l)}" for k
    using that by (simp add: ravel_coords_of numel_prod_list)
  ultimately show "i = j" using ij by metis
qed

text \<open>
  C20. Memory safety of views: from a freshly built row-major tensor over a buffer of \<open>n\<close>
  elements, every sequence of view operations either reports an error, or panics because a product of
  sizes or strides leaves the machine range, or yields a layout whose elements are read at pairwise
  distinct indices below \<open>n\<close>.  The internal \<open>expect\<close> never fails.
\<close>

theorem views_stay_in_bounds:
  assumes fresh: "layout_contiguous s d = Some l0" and "numel s \<le> n" and "n < i64_limit"
  shows "case apply_views l0 calls of
      Inl e \<Rightarrow> e \<noteq> ViewPanic
    | Inr l \<Rightarrow> (\<forall>i < numel (lay_shape l).
          strided_index i (lay_shape l) (lay_strides l) (storage_offset l) < n)
        \<and> inj_on (\<lambda>i. strided_index i (lay_shape l) (lay_strides l) (storage_offset l))
            {..<numel (lay_shape l)}"
proof -
  have inv: "layout_inv l0 n" using assms by (rule layout_contiguous_inv)
  show ?thesis
  proof (cases "apply_views l0 calls")
    case (Inl e)
    with apply_views_no_panic[OF inv, of calls] show ?thesis by auto
  next
    case (Inr l)
    have l: "layout_inv l n" using inv Inr by (rule apply_views_keeps_inv)
    have "strided_index i (lay_shape l) (lay_strides l) (storage_offset l) < n"
      if "i < numel (lay_shape l)" for i
      using strided_index_addr[OF l that] by simp
    with Inr strided_index_inj[OF l] show ?thesis by simp
  qed
qed

theorem views_stay_in_bounds_witness:
  "apply_views (contiguous_layout [2, 3] F32)
      [CallTranspose 0 1, CallNarrow 0 1 2, CallUnsqueeze 1]
    = Inr \<lparr>lay_shape = [2, 1, 2], lay_strides = [1, 3, 3], storage_offset = 1,
           lay_dtype = F32, contiguous = False\<rparr>
   \<and> strided_index 3 [2, 1, 2] [1, 3, 3] 1 < 6
   \<and> inj_on (\<lambda>i. strided_index i [2, 1, 2] [1, 3, 3] 1) {..<numel [2, 1, 2]}"
proof -
  let ?calls = "[CallTranspose 0 1, CallNarrow 0 1 2, CallUnsqueeze 1]"
  let ?l = "\<lparr>lay_shape = [2, 1, 2], lay_strides = [1, 3, 3], storage_offset = 1,
           lay_dtype = F32, contiguous = False\<rparr>"
  have fresh: "layout_contiguous [2, 3] F32 = Some (contiguous_layout [2, 3] F32)" by code_simp
  have run: "apply_views (contiguous_layout [2, 3] F32) ?calls = Inr ?l" by code_simp
  have "numel [2, 3] \<le> 6" by code_simp
  moreover have "(6::nat) < i64_limit" by (simp add: limit_defs)
  moreover have "3 < numel [2, 1, 2]" by code_simp
  ultimately show ?thesis using views_stay_in_bounds[OF fresh, of 6 ?calls]
    unfolding run sum.case layout.select_convs by blast
qed

text \<open>
  Sizes are multiplied without a check: an empty tensor cannot be viewed at the shape \<open>[2 ^ 32, 2 ^ 32]\<close>,
  whose element count does not fit a machine word.  The operation panics; a build without overflow
  checks computes the element count 0, accepts the shape and returns a view of elements that do not exist.
\<close>

lemma huge_view_overflows: "view (contiguous_layout [0] F32) [2 ^ 32, 2 ^ 32] = Inl ViewOverflow"
  by code_simp

text \<open>
  The source coordinate that each call reads at a coordinate of its result.  \<open>view\<close> and
  \<open>reshape\<close> keep the row-major position.
\<close>

fun view_src :: "layout \<Rightarrow> view_call \<Rightarrow> nat list \<Rightarrow> nat list" where
  "view_src l (CallView s) cs = coords_of (lay_shape l) (ravel s cs)"
| "view_src l (CallReshape s) cs = coords_of (lay_shape l) (ravel s cs)"
| "view_src l (CallTranspose d0 d1) cs = list_swap cs d0 d1"
| "view_src l (CallPermute perm) cs = unpermute perm cs"
| "view_src l (CallUnsqueeze d) cs = list_remove cs d"
| "view_src l (CallSqueeze d) cs = list_insert cs d 0"
| "view_src l (CallNarrow d start len) cs = cs[d := start + cs ! d]"
| "view_src l (CallSlice d start stop step) cs = cs[d := start + step * cs ! d]"

fun reshapes :: "view_call \<Rightarrow> bool" where
  "reshapes (CallView s) \<longleftrightarrow> True"
| "reshapes (CallReshape s) \<longleftrightarrow> True"
| "reshapes _ \<longleftrightarrow> False"

lemma view_src_addr:
  assumes inv: "layout_inv l n" and op: "view l s = Inr l'" and v: "valid_coords s cs"
  shows "valid_coords (lay_shape l) (coords_of (lay_shape l) (ravel s cs))"
    and "addr l' cs = addr l (coords_of (lay_shape l) (ravel s cs)) - int (storage_offset l)"
proof -
  have r: "contiguous l" "numel s = numel (lay_shape l)" "layout_contiguous s (lay_dtype l) = Some l'"
    using view_Inr[OF op] by (auto simp: layout_numel_def)
  have lt: "ravel s cs < numel (lay_shape l)" using ravel_less[OF v] r(2) by (simp add: numel_prod_list)
  have "numel (lay_shape l) < i64_limit" using contiguous_numel_le[OF inv r(1)] inv by (simp add: layout_inv_def)
  then have l': "l' = contiguous_layout s (lay_dtype l)"
    using r lt layout_contiguous_nonempty[of s "lay_dtype l"] by simp
  from lt show "valid_coords (lay_shape l) (coords_of (lay_shape l) (ravel s cs))"
    by (rule valid_coords_of_less)
  have "wf_layout l" using inv by (simp add: layout_inv_def)
  from addr_contiguous[OF this r(1) lt]
  show "addr l' cs = addr l (coords_of (lay_shape l) (ravel s cs)) - int (storage_offset l)"
    by (simp add: l' addr_contiguous_layout[OF v])
qed

lemmas view_dtypes = transpose_view.vop_dtype permute_view.vop_dtype unsqueeze_view.vop_dtype
  squeeze_view.vop_dtype narrow_view.vop_dtype slice_view.vop_dtype

lemmas narrow_src = narrow_view.src_addr narrow_view.src_valid
lemmas slice_src = slice_view.src_addr slice_view.src_valid

lemmas view_src_facts = transpose_view.src_addr transpose_view.src_valid
  permute_view.src_addr permute_view.src_valid unsqueeze_view.src_addr unsqueeze_view.src_valid
  squeeze_view.src_addr squeeze_view.src_valid
  narrow_src[of _ _ "(d, st, len)" for d st len, unfolded strided_axis_def fst_conv snd_conv mult_1]
  slice_src[of _ _ "(d, st, en, k)" for d st en k, unfolded strided_axis_def fst_conv snd_conv]



text \<open>
  \<open>unpermute\<close> is the permutation the other way round: axis \<open>perm ! k\<close> of the source takes the
  coordinate of axis \<open>k\<close> of the result.
\<close>

lemma permute_unpermute:
  assumes inv: "layout_inv l n" and op: "permute l perm = Inr l'"
    and v: "valid_coords (lay_shape l') cs" and k: "k < length perm"
  shows "unpermute perm cs ! (perm ! k) = cs ! k"
proof -
  have wf: "wf_layout l" using inv by (simp add: layout_inv_def)
  note r = permute_Inr[OF op wf]
  have P: "is_perm perm (length perm)" using r by (simp add: is_perm_def)
  have "length cs = length perm" using r v by (simp add: valid_coords_nth)
  moreover have "perm ! k < length perm" using P k by (force simp: is_perm_def)
  ultimately show ?thesis using k perm_pos_nth[OF P k] by (simp add: unpermute_def)
qed

text \<open>
  The offset matters: \<open>narrow\<close> leaves a leading-axis slice contiguous, and \<open>view\<close> then builds a
  layout with offset zero, so the reshaped tensor starts at element 0 instead of element 3.
\<close>

lemma narrow_view_drops_offset:
  "apply_views (contiguous_layout [2, 3] F32) [CallNarrow 0 1 1, CallView [3]]
     = Inr (contiguous_layout [3] F32)
   \<and> apply_views (contiguous_layout [2, 3] F32) [CallNarrow 0 1 1]
     = Inr ((contiguous_layout [1, 3] F32)\<lparr>storage_offset := 3\<rparr>)"
  by code_simp

end
