(* ===== verification/Storage.thy ===== *)
theory Storage
  imports Rust_Base
begin

text \<open>
  The CPU storage of the tensors (\<open>rustorch-core/src/tensor/storage.rs\<close>, in a build without
  the GPU features, where \<open>Cpu\<close> is the only variant of \<open>Storage\<close>): buffers shared by \<open>Arc\<close>,
  and the thread-local pools that recycle the memory of dropped buffers.

  The model is a machine state with the live allocations of the system allocator
  (\<open>mem\<close>), the \<open>Arc\<close> cells with their strong counts (\<open>arcs\<close>) and one pool per thread.  What
  the system allocator answers is an argument of the operations: \<open>None\<close> for a null pointer,
  or a pointer with the contents of the fresh memory.  An operation returns \<open>None\<close> where the
  source would run into undefined behaviour (memory that is not allocated is read, written
  or freed, or freed with another layout).  The theory shows that this never happens, that
  the memory is neither shared nor leaked, that the pools keep to their limits, and that
  the buffers behave like an abstract store of byte lists with reference counts.
\<close>

section \<open>State\<close>

type_synonym ptr = nat

definition CPU_ALIGN :: nat where
  "CPU_ALIGN = 64"

datatype storage_error = InvalidAlloc nat nat | OutOfMemory nat

text \<open>\<open>std::alloc::Layout\<close>: size and alignment.  \<open>from_size_align\<close> refuses a size that, rounded
  up to the alignment, exceeds \<open>isize::MAX\<close> (64 is a power of two).\<close>

type_synonym alloc_layout_t = "nat \<times> nat"

definition from_size_align :: "nat \<Rightarrow> nat \<Rightarrow> alloc_layout_t option" where
  "from_size_align sz al = (if 0 < al \<and> div_ceil sz al * al < i64_limit then Some (sz, al) else None)"

definition alloc_layout :: "nat \<Rightarrow> storage_error + alloc_layout_t" where
  "alloc_layout byte_len =
     (case from_size_align byte_len CPU_ALIGN of
        None \<Rightarrow> Inl (InvalidAlloc byte_len CPU_ALIGN)
      | Some l \<Rightarrow> Inr l)"

record cpu_storage_inner =
  in_ptr :: ptr
  in_layout :: alloc_layout_t
  in_len :: nat

record cpu_storage =
  cs_inner :: nat
  cs_len :: nat

record pool =
  pl_buckets :: "(alloc_layout_t \<times> ptr list) list"
  pl_retained :: nat

record 'b machine =
  mem :: "ptr \<Rightarrow> 'b list option"
  arcs :: "nat \<Rightarrow> (cpu_storage_inner \<times> nat) option"
  next_arc :: nat
  pools :: "nat \<Rightarrow> pool"

section \<open>The pool\<close>

definition PER_BUCKET_CAP :: nat where
  "PER_BUCKET_CAP = 16"

definition POOL_BYTE_BUDGET :: nat where
  "POOL_BYTE_BUDGET = 256 * 1024 * 1024"

definition pool_new :: pool where
  "pool_new = \<lparr>pl_buckets = [], pl_retained = 0\<rparr>"

definition bucket :: "pool \<Rightarrow> alloc_layout_t \<Rightarrow> ptr list" where
  "bucket pl k = (case map_of (pl_buckets pl) k of None \<Rightarrow> [] | Some s \<Rightarrow> s)"

definition try_acquire :: "alloc_layout_t \<Rightarrow> pool \<Rightarrow> (ptr \<times> pool) option" where
  "try_acquire lay pl =
     (case map_of (pl_buckets pl) lay of
        None \<Rightarrow> None
      | Some stack \<Rightarrow>
          if stack = [] then None
          else Some (last stack,
            \<lparr>pl_buckets = AList.update lay (butlast stack) (pl_buckets pl),
             pl_retained = pl_retained pl - fst lay\<rparr>))"

definition try_release :: "ptr \<Rightarrow> alloc_layout_t \<Rightarrow> pool \<Rightarrow> bool \<times> pool" where
  "try_release p lay pl =
     (if saturating_add_usize (pl_retained pl) (fst lay) > POOL_BYTE_BUDGET then (False, pl)
      else let stack = bucket pl lay in
        if length stack \<ge> PER_BUCKET_CAP
        then (False, pl\<lparr>pl_buckets := AList.update lay stack (pl_buckets pl)\<rparr>)
        else (True, \<lparr>pl_buckets = AList.update lay (stack @ [p]) (pl_buckets pl),
                     pl_retained = pl_retained pl + fst lay\<rparr>))"

text \<open>\<open>dealloc\<close> of memory that is not live, or with another size, is undefined behaviour.\<close>

definition dealloc :: "ptr \<Rightarrow> alloc_layout_t \<Rightarrow> (ptr \<Rightarrow> 'b list option) \<Rightarrow> (ptr \<Rightarrow> 'b list option) option" where
  "dealloc p lay M =
     (case M p of
        None \<Rightarrow> None
      | Some bs \<Rightarrow> if length bs = fst lay then Some (M(p := None)) else None)"

text \<open>\<open>Pool::drop\<close>, when the thread exits.\<close>

fun drain_stack :: "alloc_layout_t \<Rightarrow> ptr list \<Rightarrow> (ptr \<Rightarrow> 'b list option) \<Rightarrow> (ptr \<Rightarrow> 'b list option) option" where
  "drain_stack lay [] M = Some M"
| "drain_stack lay (p # ps) M =
     (case dealloc p lay M of None \<Rightarrow> None | Some M' \<Rightarrow> drain_stack lay ps M')"

fun drain_buckets ::
  "(alloc_layout_t \<times> ptr list) list \<Rightarrow> (ptr \<Rightarrow> 'b list option) \<Rightarrow> (ptr \<Rightarrow> 'b list option) option" where
  "drain_buckets [] M = Some M"
| "drain_buckets ((k, stack) # bs) M =
     (case from_size_align (fst k) (snd k) of
        None \<Rightarrow> drain_buckets bs M
      | Some lay \<Rightarrow>
          (case drain_stack lay stack M of None \<Rightarrow> None | Some M' \<Rightarrow> drain_buckets bs M'))"

definition pool_drop :: "nat \<Rightarrow> 'b machine \<Rightarrow> 'b machine option" where
  "pool_drop t m =
     (case drain_buckets (pl_buckets (pools m t)) (mem m) of
        None \<Rightarrow> None
      | Some M \<Rightarrow> Some (m\<lparr>mem := M, pools := (pools m)(t := pool_new)\<rparr>))"

section \<open>Storages\<close>

definition wrap :: "ptr \<Rightarrow> alloc_layout_t \<Rightarrow> nat \<Rightarrow> 'b machine \<Rightarrow> cpu_storage \<times> 'b machine" where
  "wrap p lay byte_len m =
     (\<lparr>cs_inner = next_arc m, cs_len = byte_len\<rparr>,
      m\<lparr>arcs := (arcs m)(next_arc m \<mapsto>
           (\<lparr>in_ptr = p, in_layout = lay, in_len = byte_len\<rparr>, 1)),
        next_arc := Suc (next_arc m)\<rparr>)"

text \<open>The sentinel of an empty buffer is never dereferenced; its address is left as 1.\<close>

definition empty_cpu :: "'b machine \<Rightarrow> cpu_storage \<times> 'b machine" where
  "empty_cpu m = wrap 1 (1, 1) 0 m"

text \<open>The pool of the running thread first, then the system allocator, whose answer is \<open>ans\<close>.\<close>

definition acquire ::
  "nat \<Rightarrow> alloc_layout_t \<Rightarrow> (ptr \<times> 'b list) option \<Rightarrow> 'b machine \<Rightarrow> (ptr \<times> bool \<times> 'b machine) option" where
  "acquire t lay ans m =
     (case try_acquire lay (pools m t) of
        Some (p, pl) \<Rightarrow> Some (p, True, m\<lparr>pools := (pools m)(t := pl)\<rparr>)
      | None \<Rightarrow>
          (case ans of
             None \<Rightarrow> None
           | Some (p, bs) \<Rightarrow> Some (p, False, m\<lparr>mem := (mem m)(p \<mapsto> bs)\<rparr>)))"

definition zeroed ::
  "nat \<Rightarrow> nat \<Rightarrow> (ptr \<times> ('b :: zero) list) option \<Rightarrow> 'b machine
   \<Rightarrow> (storage_error + cpu_storage) \<times> 'b machine" where
  "zeroed t byte_len ans m =
     (if byte_len = 0 then let (s, m') = empty_cpu m in (Inr s, m')
      else case alloc_layout byte_len of
        Inl e \<Rightarrow> (Inl e, m)
      | Inr lay \<Rightarrow>
          (case acquire t lay (map_option (\<lambda>(p, bs). (p, replicate byte_len 0)) ans) m of
             None \<Rightarrow> (Inl (OutOfMemory byte_len), m)
           | Some (p, reused, m1) \<Rightarrow>
               let m2 = (if reused then m1\<lparr>mem := (mem m1)(p \<mapsto> replicate byte_len 0)\<rparr> else m1);
                   (s, m3) = wrap p lay byte_len m2
               in (Inr s, m3)))"

definition uninit ::
  "nat \<Rightarrow> nat \<Rightarrow> (ptr \<times> 'b list) option \<Rightarrow> 'b machine \<Rightarrow> (storage_error + cpu_storage) \<times> 'b machine" where
  "uninit t byte_len ans m =
     (if byte_len = 0 then let (s, m') = empty_cpu m in (Inr s, m')
      else case alloc_layout byte_len of
        Inl e \<Rightarrow> (Inl e, m)
      | Inr lay \<Rightarrow>
          (case acquire t lay ans m of
             None \<Rightarrow> (Inl (OutOfMemory byte_len), m)
           | Some (p, _, m1) \<Rightarrow> let (s, m2) = wrap p lay byte_len m1 in (Inr s, m2)))"

text \<open>A slice over the memory of a cell: undefined behaviour unless it is live and long enough.\<close>

definition raw_slice :: "ptr \<Rightarrow> nat \<Rightarrow> 'b machine \<Rightarrow> 'b list option" where
  "raw_slice p n m =
     (case mem m p of None \<Rightarrow> None | Some bs \<Rightarrow> if n \<le> length bs then Some (take n bs) else None)"

definition as_bytes :: "cpu_storage \<Rightarrow> 'b machine \<Rightarrow> 'b list option" where
  "as_bytes s m =
     (if cs_len s = 0 then Some []
      else case arcs m (cs_inner s) of
        None \<Rightarrow> None
      | Some (i, n) \<Rightarrow> raw_slice (in_ptr i) (cs_len s) m)"

text \<open>
  \<open>as_bytes_mut\<close> gives out a mutable slice when the cell has one owner.  The model takes what
  the holder of the slice does with it as a function \<open>f\<close> on the bytes.  The outer option is
  undefined behaviour, the inner one the \<open>None\<close> of the source.
\<close>

definition as_bytes_mut ::
  "cpu_storage \<Rightarrow> ('b list \<Rightarrow> 'b list) \<Rightarrow> 'b machine \<Rightarrow> 'b machine option option" where
  "as_bytes_mut s f m =
     (if cs_len s = 0 then Some (Some m)
      else case arcs m (cs_inner s) of
        None \<Rightarrow> None
      | Some (i, n) \<Rightarrow>
          if n \<noteq> 1 then Some None
          else case raw_slice (in_ptr i) (in_len i) m of
            None \<Rightarrow> None
          | Some bs \<Rightarrow> Some (Some (m\<lparr>mem := (mem m)(in_ptr i \<mapsto> f bs)\<rparr>)))"

definition from_bytes_storage ::
  "nat \<Rightarrow> 'b list \<Rightarrow> (ptr \<times> 'b list) option \<Rightarrow> 'b machine
   \<Rightarrow> ((storage_error + cpu_storage) \<times> 'b machine) option" where
  "from_bytes_storage t bytes ans m =
     (if bytes = [] then let (s, m') = empty_cpu m in Some (Inr s, m')
      else case uninit t (length bytes) ans m of
        (Inl e, m1) \<Rightarrow> Some (Inl e, m1)
      | (Inr s, m1) \<Rightarrow>
          (case as_bytes_mut s (\<lambda>_. bytes) m1 of
             Some (Some m2) \<Rightarrow> Some (Inr s, m2)
           | _ \<Rightarrow> None))"

text \<open>\<open>Drop for CpuStorageInner\<close>.\<close>

definition inner_drop :: "nat \<Rightarrow> cpu_storage_inner \<Rightarrow> 'b machine \<Rightarrow> 'b machine option" where
  "inner_drop t i m =
     (if in_len i = 0 then Some m
      else let (kept, pl) = try_release (in_ptr i) (in_layout i) (pools m t);
               m1 = m\<lparr>pools := (pools m)(t := pl)\<rparr>
        in if kept then Some m1
           else (case dealloc (in_ptr i) (in_layout i) (mem m1) of
                   None \<Rightarrow> None
                 | Some M \<Rightarrow> Some (m1\<lparr>mem := M\<rparr>)))"

definition storage_clone :: "cpu_storage \<Rightarrow> 'b machine \<Rightarrow> 'b machine option" where
  "storage_clone s m =
     (case arcs m (cs_inner s) of
        None \<Rightarrow> None
      | Some (i, n) \<Rightarrow> Some (m\<lparr>arcs := (arcs m)(cs_inner s \<mapsto> (i, Suc n))\<rparr>))"

definition storage_drop :: "nat \<Rightarrow> cpu_storage \<Rightarrow> 'b machine \<Rightarrow> 'b machine option" where
  "storage_drop t s m =
     (case arcs m (cs_inner s) of
        None \<Rightarrow> None
      | Some (i, n) \<Rightarrow>
          if n = 1 then inner_drop t i (m\<lparr>arcs := (arcs m)(cs_inner s := None)\<rparr>)
          else Some (m\<lparr>arcs := (arcs m)(cs_inner s \<mapsto> (i, n - 1))\<rparr>))"

definition strong_count :: "cpu_storage \<Rightarrow> 'b machine \<Rightarrow> nat" where
  "strong_count s m = (case arcs m (cs_inner s) of None \<Rightarrow> 0 | Some (i, n) \<Rightarrow> n)"

definition is_unique :: "cpu_storage \<Rightarrow> 'b machine \<Rightarrow> bool" where
  "is_unique s m = (strong_count s m = 1)"

section \<open>Ownership of memory\<close>

text \<open>A live allocation belongs to exactly one place: a cell, or a position in the stack of a pool.\<close>

datatype place = InArc nat | InPool nat alloc_layout_t nat

fun loc :: "'b machine \<Rightarrow> place \<Rightarrow> (ptr \<times> alloc_layout_t) option" where
  "loc m (InArc a) =
     (case arcs m a of
        None \<Rightarrow> None
      | Some (i, n) \<Rightarrow> if in_len i = 0 then None else Some (in_ptr i, in_layout i))"
| "loc m (InPool t k j) =
     (let s = bucket (pools m t) k in if j < length s then Some (s ! j, k) else None)"

definition good_layout :: "alloc_layout_t \<Rightarrow> bool" where
  "good_layout k \<longleftrightarrow> 0 < fst k \<and> snd k = CPU_ALIGN \<and> from_size_align (fst k) (snd k) = Some k"

definition own :: "(place \<Rightarrow> (ptr \<times> alloc_layout_t) option) \<Rightarrow> (ptr \<Rightarrow> 'b list option) \<Rightarrow> bool" where
  "own L M \<longleftrightarrow>
     (\<forall>x y p k k'. L x = Some (p, k) \<longrightarrow> L y = Some (p, k') \<longrightarrow> x = y) \<and>
     (\<forall>x p k. L x = Some (p, k) \<longrightarrow> good_layout k \<and> (\<exists>bs. M p = Some bs \<and> length bs = fst k)) \<and>
     (\<forall>p. M p \<noteq> None \<longrightarrow> (\<exists>x k. L x = Some (p, k)))"

lemma own_memD: "own L M \<Longrightarrow> L x = Some (p, k) \<Longrightarrow> \<exists>bs. M p = Some bs \<and> length bs = fst k"
  unfolding own_def by blast

lemma own_layoutD: "own L M \<Longrightarrow> L x = Some (p, k) \<Longrightarrow> good_layout k"
  unfolding own_def by blast

lemma own_uniqueD: "own L M \<Longrightarrow> L x = Some (p, k) \<Longrightarrow> L y = Some (p, k') \<Longrightarrow> x = y"
  unfolding own_def by blast

lemma own_liveD: "own L M \<Longrightarrow> M p \<noteq> None \<Longrightarrow> \<exists>x k. L x = Some (p, k)"
  unfolding own_def by blast

lemma ownI:
  assumes "\<And>x y p k k'. L x = Some (p, k) \<Longrightarrow> L y = Some (p, k') \<Longrightarrow> x = y"
    and "\<And>x p k. L x = Some (p, k) \<Longrightarrow> good_layout k \<and> (\<exists>bs. M p = Some bs \<and> length bs = fst k)"
    and "\<And>p. M p \<noteq> None \<Longrightarrow> \<exists>x k. L x = Some (p, k)"
  shows "own L M"
  unfolding own_def using assms by blast

lemma own_add:
  assumes "own L M" "M p = None" "L x = None" "good_layout k" "length bs = fst k"
  shows "own (L(x \<mapsto> (p, k))) (M(p \<mapsto> bs))"
proof (rule ownI)
  have fresh: "L y \<noteq> Some (p, l)" for y l
    using own_memD[OF assms(1), of y p l] assms(2) by auto
  fix u v q l l'
  assume "(L(x \<mapsto> (p, k))) u = Some (q, l)" "(L(x \<mapsto> (p, k))) v = Some (q, l')"
  then show "u = v" using own_uniqueD[OF assms(1)] fresh by (auto split: if_splits)
next
  fix u q l
  assume u: "(L(x \<mapsto> (p, k))) u = Some (q, l)"
  show "good_layout l \<and> (\<exists>bs'. (M(p \<mapsto> bs)) q = Some bs' \<and> length bs' = fst l)"
  proof (cases "u = x")
    case True
    with u assms(4,5) show ?thesis by simp
  next
    case False
    with u have "L u = Some (q, l)" by simp
    from own_memD[OF assms(1) this] own_layoutD[OF assms(1) this] assms(2) show ?thesis by auto
  qed
next
  fix q assume q: "(M(p \<mapsto> bs)) q \<noteq> None"
  show "\<exists>u l. (L(x \<mapsto> (p, k))) u = Some (q, l)"
  proof (cases "q = p")
    case True
    then have "(L(x \<mapsto> (p, k))) x = Some (q, k)" by simp
    then show ?thesis by blast
  next
    case False
    with q have "M q \<noteq> None" by simp
    then obtain u l where u: "L u = Some (q, l)" using own_liveD[OF assms(1)] by blast
    with assms(3) have "(L(x \<mapsto> (p, k))) u = Some (q, l)" by auto
    then show ?thesis by blast
  qed
qed

lemma own_move:
  assumes "own L M" "L x = Some (p, k)" "L y = None"
  shows "own ((L(x := None))(y \<mapsto> (p, k))) M"
proof -
  have ne: "x \<noteq> y" using assms(2,3) by auto
  show ?thesis
  proof (rule ownI)
    fix u v q l l'
    assume "((L(x := None))(y \<mapsto> (p, k))) u = Some (q, l)" "((L(x := None))(y \<mapsto> (p, k))) v = Some (q, l')"
    then show "u = v" using own_uniqueD[OF assms(1)] assms(2) by (auto split: if_splits)
  next
    fix u q l
    assume "((L(x := None))(y \<mapsto> (p, k))) u = Some (q, l)"
    then have "\<exists>w. L w = Some (q, l)" using assms(2) by (auto split: if_splits)
    then show "good_layout l \<and> (\<exists>bs. M q = Some bs \<and> length bs = fst l)"
      using own_layoutD[OF assms(1)] own_memD[OF assms(1)] by blast
  next
    fix q assume "M q \<noteq> None"
    with own_liveD[OF assms(1)] obtain w l where w: "L w = Some (q, l)" by blast
    then show "\<exists>u l. ((L(x := None))(y \<mapsto> (p, k))) u = Some (q, l)"
    proof (cases "w = x")
      case True
      with w assms(2) have "((L(x := None))(y \<mapsto> (p, k))) y = Some (q, l)" by simp
      then show ?thesis by blast
    next
      case False
      with w assms(3) have "((L(x := None))(y \<mapsto> (p, k))) w = Some (q, l)" by auto
      then show ?thesis by blast
    qed
  qed
qed

lemma own_remove:
  assumes "own L M" "L x = Some (p, k)"
  shows "own (L(x := None)) (M(p := None))"
proof (rule ownI)
  fix u v q l l'
  assume "(L(x := None)) u = Some (q, l)" "(L(x := None)) v = Some (q, l')"
  then show "u = v" using own_uniqueD[OF assms(1)] by (auto split: if_splits)
next
  fix u q l
  assume u: "(L(x := None)) u = Some (q, l)"
  then have Lu: "L u = Some (q, l)" and ne: "u \<noteq> x" by (auto split: if_splits)
  have "q \<noteq> p" using own_uniqueD[OF assms(1) Lu, of x] assms(2) ne by blast
  with own_memD[OF assms(1) Lu] own_layoutD[OF assms(1) Lu]
  show "good_layout l \<and> (\<exists>bs. (M(p := None)) q = Some bs \<and> length bs = fst l)" by simp
next
  fix q assume q: "(M(p := None)) q \<noteq> None"
  then have "M q \<noteq> None" and ne: "q \<noteq> p" by (auto split: if_splits)
  with own_liveD[OF assms(1)] obtain u l where u: "L u = Some (q, l)" by blast
  with assms(2) ne have "(L(x := None)) u = Some (q, l)" by auto
  then show "\<exists>u l. (L(x := None)) u = Some (q, l)" by blast
qed

lemma own_write:
  assumes "own L M" "M p = Some bs" "length bs' = length bs"
  shows "own L (M(p \<mapsto> bs'))"
proof (rule ownI)
  fix u v q l l' assume "L u = Some (q, l)" "L v = Some (q, l')"
  then show "u = v" by (rule own_uniqueD[OF assms(1)])
next
  fix u q l assume u: "L u = Some (q, l)"
  from own_memD[OF assms(1) u] own_layoutD[OF assms(1) u] assms(2,3)
  show "good_layout l \<and> (\<exists>bs. (M(p \<mapsto> bs')) q = Some bs \<and> length bs = fst l)" by auto
next
  fix q assume "(M(p \<mapsto> bs')) q \<noteq> None"
  then have "M q \<noteq> None" using assms(2) by (auto split: if_splits)
  then show "\<exists>u l. L u = Some (q, l)" by (rule own_liveD[OF assms(1)])
qed

lemma loc_wrap [simp]:
  "0 < n \<Longrightarrow> loc (snd (wrap p lay n m)) = (loc m)(InArc (next_arc m) \<mapsto> (p, lay))"
proof
  fix x assume "0 < n"
  then show "loc (snd (wrap p lay n m)) x = ((loc m)(InArc (next_arc m) \<mapsto> (p, lay))) x"
    by (cases x) (auto simp: wrap_def)
qed

lemma bucket_update [simp]:
  "bucket (pl\<lparr>pl_buckets := AList.update k s bs\<rparr>) k' = (if k' = k then s else bucket (pl\<lparr>pl_buckets := bs\<rparr>) k')"
  "bucket \<lparr>pl_buckets = AList.update k s bs, pl_retained = r\<rparr> k'
     = (if k' = k then s else bucket \<lparr>pl_buckets = bs, pl_retained = r\<rparr> k')"
  by (auto simp: bucket_def update_conv)

lemma bucket_retained [simp]: "bucket \<lparr>pl_buckets = pl_buckets pl, pl_retained = r\<rparr> = bucket pl"
  by (auto simp: bucket_def)

lemma loc_acquired:
  assumes "try_acquire lay (pools m t) = Some (p, pl)"
  obtains j where "loc m (InPool t lay j) = Some (p, lay)"
    "loc (m\<lparr>pools := (pools m)(t := pl)\<rparr>) = (loc m)(InPool t lay j := None)"
proof -
  from assms obtain stack where s: "map_of (pl_buckets (pools m t)) lay = Some stack" "stack \<noteq> []"
    "p = last stack" and pl: "pl = \<lparr>pl_buckets = AList.update lay (butlast stack) (pl_buckets (pools m t)),
             pl_retained = pl_retained (pools m t) - fst lay\<rparr>"
    by (auto simp: try_acquire_def split: option.splits if_splits)
  have b: "bucket (pools m t) lay = stack" using s(1) by (simp add: bucket_def)
  have 1: "loc m (InPool t lay (length stack - 1)) = Some (p, lay)"
    using s(2,3) by (simp add: b last_conv_nth)
  have 2: "loc (m\<lparr>pools := (pools m)(t := pl)\<rparr>) = (loc m)(InPool t lay (length stack - 1) := None)"
  proof
    fix x
    show "loc (m\<lparr>pools := (pools m)(t := pl)\<rparr>) x = ((loc m)(InPool t lay (length stack - 1) := None)) x"
    proof (cases x)
      case (InPool t' k j)
      then show ?thesis using s(2) by (auto simp: b pl Let_def nth_butlast)
    qed simp
  qed
  from that[OF 1 2] show thesis .
qed

lemma loc_released:
  assumes "try_release p lay (pools m t) = (True, pl)"
  shows "loc m (InPool t lay (length (bucket (pools m t) lay))) = None"
    "loc (m\<lparr>pools := (pools m)(t := pl)\<rparr>)
       = (loc m)(InPool t lay (length (bucket (pools m t) lay)) \<mapsto> (p, lay))"
proof -
  let ?s = "bucket (pools m t) lay"
  from assms have pl: "pl = \<lparr>pl_buckets = AList.update lay (?s @ [p]) (pl_buckets (pools m t)),
      pl_retained = pl_retained (pools m t) + fst lay\<rparr>"
    by (auto simp: try_release_def Let_def split: if_splits)
  show "loc m (InPool t lay (length ?s)) = None" by simp
  show "loc (m\<lparr>pools := (pools m)(t := pl)\<rparr>) = (loc m)(InPool t lay (length ?s) \<mapsto> (p, lay))"
  proof
    fix x
    show "loc (m\<lparr>pools := (pools m)(t := pl)\<rparr>) x = ((loc m)(InPool t lay (length ?s) \<mapsto> (p, lay))) x"
      by (cases x) (auto simp: pl Let_def nth_append)
  qed
qed

lemma loc_refused:
  assumes "try_release p lay (pools m t) = (False, pl)"
  shows "loc (m\<lparr>pools := (pools m)(t := pl)\<rparr>) = loc m"
proof
  fix x
  have "bucket pl = bucket (pools m t)"
    using assms by (auto simp: try_release_def Let_def fun_eq_iff split: if_splits)
  then show "loc (m\<lparr>pools := (pools m)(t := pl)\<rparr>) x = loc m x"
    by (cases x) auto
qed

lemma drain_stack_own:
  assumes "own L M" and "\<And>i. i < length ps \<Longrightarrow> L (InPool t k (j + i)) = Some (ps ! i, k)"
  shows "\<exists>M'. drain_stack k ps M = Some M' \<and> own (L |` (- (InPool t k ` {j..<j + length ps}))) M'"
  using assms
proof (induction ps arbitrary: L M j)
  case Nil
  then show ?case by simp
next
  case (Cons p ps)
  have p: "L (InPool t k j) = Some (p, k)" using Cons.prems(2)[of 0] by simp
  from own_memD[OF Cons.prems(1) p] have d: "dealloc p k M = Some (M(p := None))"
    by (auto simp: dealloc_def)
  have rest: "(L(InPool t k j := None)) (InPool t k (Suc j + i)) = Some (ps ! i, k)" if "i < length ps" for i
    using Cons.prems(2)[of "Suc i"] that by simp
  have S: "L |` (- (InPool t k ` {j..<j + length (p # ps)}))
      = (L(InPool t k j := None)) |` (- (InPool t k ` {Suc j..<Suc j + length ps}))"
    by (rule ext) (auto simp: restrict_map_def image_iff)
  from Cons.IH[OF own_remove[OF Cons.prems(1) p] rest] obtain M' where
    M': "drain_stack k ps (M(p := None)) = Some M'"
    "own ((L(InPool t k j := None)) |` (- (InPool t k ` {Suc j..<Suc j + length ps}))) M'" by blast
  have "drain_stack k (p # ps) M = Some M'" using M'(1) by (simp add: d del: fun_upd_apply)
  with M'(2) show ?case unfolding S by blast
qed

lemma drain_buckets_own:
  assumes "own L M" "distinct (map fst bs)"
    and "\<And>k s i. (k, s) \<in> set bs \<Longrightarrow> i < length s \<Longrightarrow> L (InPool t k i) = Some (s ! i, k)"
  shows "\<exists>M'. drain_buckets bs M = Some M' \<and>
    own (L |` (- (\<Union>(k, s) \<in> set bs. InPool t k ` {..<length s}))) M'"
  using assms
proof (induction bs arbitrary: L M)
  case Nil
  then show ?case by simp
next
  case (Cons e bs)
  obtain k s where e: "e = (k, s)" by (cases e)
  let ?L = "L |` (- (InPool t k ` {..<length s}))"
  have R: "L |` (- (\<Union>(k, s) \<in> set (e # bs). InPool t k ` {..<length s}))
      = ?L |` (- (\<Union>(k, s) \<in> set bs. InPool t k ` {..<length s}))"
    by (rule ext) (auto simp: restrict_map_def e)
  have keep: "?L (InPool t k' i) = Some (s' ! i, k')" if "(k', s') \<in> set bs" "i < length s'" for k' s' i
  proof -
    have "k' \<noteq> k" using Cons.prems(2) that(1) by (force simp: e)
    then show ?thesis using Cons.prems(3)[of k' s' i] that by (auto simp: restrict_map_def)
  qed
  have dist: "distinct (map fst bs)" using Cons.prems(2) by simp
  show ?case
  proof (cases "s = []")
    case True
    then have "?L = L" by (simp add: restrict_map_def fun_eq_iff)
    then show ?thesis
      unfolding R using Cons.IH[of L M, OF Cons.prems(1) dist] keep
      by (auto simp: e True split: option.splits)
  next
    case False
    then have "L (InPool t k 0) = Some (s ! 0, k)" using Cons.prems(3)[of k s 0] by (simp add: e)
    from own_layoutD[OF Cons.prems(1) this] have good: "from_size_align (fst k) (snd k) = Some k"
      unfolding good_layout_def by blast
    have "L (InPool t k (0 + i)) = Some (s ! i, k)" if "i < length s" for i
      using Cons.prems(3)[of k s i] that by (simp add: e)
    from drain_stack_own[OF Cons.prems(1) this] obtain M1 where M1:
      "drain_stack k s M = Some M1" "own ?L M1"
      by (auto simp: atLeast0LessThan)
    from Cons.IH[OF M1(2) dist keep] show ?thesis
      unfolding R by (simp add: e good M1(1))
  qed
qed

section \<open>The invariant\<close>

definition pool_ok :: "pool \<Rightarrow> bool" where
  "pool_ok pl \<longleftrightarrow>
     distinct (map fst (pl_buckets pl)) \<and>
     pl_retained pl = (\<Sum>(k, s) \<leftarrow> pl_buckets pl. fst k * length s) \<and>
     pl_retained pl \<le> POOL_BYTE_BUDGET \<and>
     (\<forall>(k, s) \<in> set (pl_buckets pl). length s \<le> PER_BUCKET_CAP)"

definition holders :: "nat \<Rightarrow> cpu_storage list \<Rightarrow> nat" where
  "holders a hs = length (filter (\<lambda>s. cs_inner s = a) hs)"

definition arc_ok :: "'b machine \<Rightarrow> cpu_storage list \<Rightarrow> nat \<Rightarrow> cpu_storage_inner \<Rightarrow> nat \<Rightarrow> bool" where
  "arc_ok m hs a i n \<longleftrightarrow> a < next_arc m \<and> 0 < n \<and> n = holders a hs \<and>
     (0 < in_len i \<longrightarrow> in_layout i = (in_len i, CPU_ALIGN))"

definition machine_inv :: "'b machine \<Rightarrow> cpu_storage list \<Rightarrow> bool" where
  "machine_inv m hs \<longleftrightarrow>
     own (loc m) (mem m) \<and>
     (\<forall>a i n. arcs m a = Some (i, n) \<longrightarrow> arc_ok m hs a i n) \<and>
     (\<forall>s \<in> set hs. \<exists>i n. arcs m (cs_inner s) = Some (i, n) \<and> cs_len s = in_len i) \<and>
     (\<forall>t. pool_ok (pools m t))"

definition initial_machine :: "'b machine" where
  "initial_machine = \<lparr>mem = \<lambda>_. None, arcs = \<lambda>_. None, next_arc = 0, pools = \<lambda>_. pool_new\<rparr>"

lemma pool_new_ok [simp]: "pool_ok pool_new"
  by (simp add: pool_ok_def pool_new_def)

lemma initial_machine_inv: "machine_inv (initial_machine :: 'b machine) []"
proof -
  have "loc (initial_machine :: 'b machine) x = None" for x
    by (cases x) (auto simp: initial_machine_def bucket_def pool_new_def)
  then have "own (loc (initial_machine :: 'b machine)) (mem (initial_machine :: 'b machine))"
    by (intro ownI) (simp_all add: initial_machine_def)
  then show ?thesis
    by (simp add: machine_inv_def) (simp add: initial_machine_def)
qed

lemma sum_list_update_fresh:
  "distinct (map fst al) \<Longrightarrow>
   (\<Sum>(k, s) \<leftarrow> AList.update k0 s0 al. f k * length s) + f k0 * length (case map_of al k0 of None \<Rightarrow> [] | Some s \<Rightarrow> s)
     = (\<Sum>(k, s) \<leftarrow> al. f k * length s) + f k0 * length s0"
  for f :: "'k \<Rightarrow> nat"
proof (induction al)
  case Nil
  then show ?case by simp
next
  case (Cons e al)
  obtain k s where e: "e = (k, s)" by (cases e)
  show ?case
  proof (cases "k = k0")
    case True
    with Cons.prems show ?thesis by (auto simp: e)
  next
    case False
    with Cons show ?thesis by (auto simp: e)
  qed
qed

lemma update_mem: "(k, s) \<in> set (AList.update k0 s0 al) \<Longrightarrow> (k, s) = (k0, s0) \<or> (k, s) \<in> set al"
  by (induction al) (auto split: if_splits)

lemma try_acquire_ok:
  assumes "pool_ok pl" "try_acquire lay pl = Some (p, pl')"
  shows "pool_ok pl'"
proof -
  from assms(2) obtain stack where s: "map_of (pl_buckets pl) lay = Some stack" "stack \<noteq> []"
    and pl': "pl' = \<lparr>pl_buckets = AList.update lay (butlast stack) (pl_buckets pl),
             pl_retained = pl_retained pl - fst lay\<rparr>"
    by (auto simp: try_acquire_def split: option.splits if_splits)
  have d: "distinct (map fst (pl_buckets pl))" using assms(1) by (simp add: pool_ok_def)
  have len: "length stack = Suc (length (butlast stack))" using s(2) by simp
  have eq: "(\<Sum>(k, s) \<leftarrow> pl_buckets pl'. fst k * length s) + fst lay
      = (\<Sum>(k, s) \<leftarrow> pl_buckets pl. fst k * length s)"
    using sum_list_update_fresh[OF d, of fst lay "butlast stack"]
    unfolding s(1) by (simp add: pl' len del: length_butlast)
  moreover have "pl_retained pl' = pl_retained pl - fst lay" by (simp add: pl')
  ultimately have "pl_retained pl' = (\<Sum>(k, s) \<leftarrow> pl_buckets pl'. fst k * length s)"
    "pl_retained pl' \<le> POOL_BYTE_BUDGET"
    using assms(1) unfolding pool_ok_def by linarith+
  moreover have "\<forall>(k, s') \<in> set (pl_buckets pl'). length s' \<le> PER_BUCKET_CAP"
    using assms(1) map_of_SomeD[OF s(1)] by (fastforce simp: pl' pool_ok_def dest: update_mem)
  moreover have "distinct (map fst (pl_buckets pl'))" using d by (simp add: pl' distinct_update)
  ultimately show ?thesis unfolding pool_ok_def by blast
qed

lemma saturating_over_budget:
  "saturating_add_usize a b > POOL_BYTE_BUDGET \<longleftrightarrow> a + b > POOL_BYTE_BUDGET"
  by (simp add: saturating_add_usize_def POOL_BYTE_BUDGET_def u64_limit_def)

lemma try_release_ok:
  assumes "pool_ok pl" "try_release p lay pl = (kept, pl')"
  shows "pool_ok pl'"
proof -
  let ?s = "bucket pl lay"
  have d: "distinct (map fst (pl_buckets pl))" using assms(1) by (simp add: pool_ok_def)
  note upd = sum_list_update_fresh[OF d, of fst lay, folded bucket_def]
  have rel: "(kept, pl') = (if pl_retained pl + fst lay > POOL_BYTE_BUDGET then (False, pl)
      else if length ?s \<ge> PER_BUCKET_CAP then (False, pl\<lparr>pl_buckets := AList.update lay ?s (pl_buckets pl)\<rparr>)
      else (True, \<lparr>pl_buckets = AList.update lay (?s @ [p]) (pl_buckets pl), pl_retained = pl_retained pl + fst lay\<rparr>))"
    using assms(2) unfolding try_release_def saturating_over_budget Let_def by (rule sym)
  consider "pl_retained pl + fst lay > POOL_BYTE_BUDGET"
    | "pl_retained pl + fst lay \<le> POOL_BYTE_BUDGET" "length ?s \<ge> PER_BUCKET_CAP"
    | "pl_retained pl + fst lay \<le> POOL_BYTE_BUDGET" "length ?s < PER_BUCKET_CAP"
    by linarith
  then show ?thesis
  proof cases
    case 1
    with rel have "pl' = pl" by simp
    with assms(1) show ?thesis by simp
  next
    case 2
    with rel have pl': "pl' = pl\<lparr>pl_buckets := AList.update lay ?s (pl_buckets pl)\<rparr>" by simp
    from 2 have ne: "?s \<noteq> []" by (auto simp: PER_BUCKET_CAP_def)
    then have "(lay, ?s) \<in> set (pl_buckets pl)"
      by (auto simp: bucket_def split: option.splits dest: map_of_SomeD)
    then have "\<forall>(k, s) \<in> set (pl_buckets pl'). length s \<le> PER_BUCKET_CAP"
      using assms(1) by (fastforce simp: pl' pool_ok_def dest: update_mem)
    then show ?thesis
      using assms(1) upd[of ?s] by (simp add: pool_ok_def pl' distinct_update)
  next
    case 3
    with rel have pl': "pl' = \<lparr>pl_buckets = AList.update lay (?s @ [p]) (pl_buckets pl),
        pl_retained = pl_retained pl + fst lay\<rparr>" by simp
    have "\<forall>(k, s) \<in> set (pl_buckets pl'). length s \<le> PER_BUCKET_CAP"
      using assms(1) 3(2) by (fastforce simp: pl' pool_ok_def dest: update_mem)
    then show ?thesis
      using assms(1) upd[of "?s @ [p]"] 3(1) by (simp add: pool_ok_def pl' distinct_update)
  qed
qed

section \<open>Every operation keeps the invariant\<close>

definition fresh_answer :: "nat \<Rightarrow> (ptr \<times> 'b list) option \<Rightarrow> 'b machine \<Rightarrow> bool" where
  "fresh_answer n ans m \<longleftrightarrow> (case ans of None \<Rightarrow> True | Some (p, bs) \<Rightarrow> mem m p = None \<and> length bs = n)"

definition abs_store :: "'b machine \<Rightarrow> nat \<Rightarrow> ('b list \<times> nat) option" where
  "abs_store m a =
     (case arcs m a of
        None \<Rightarrow> None
      | Some (i, n) \<Rightarrow> Some (if in_len i = 0 then [] else the (mem m (in_ptr i)), n))"

lemma machine_invD:
  assumes "machine_inv m hs"
  shows "own (loc m) (mem m)"
    and "arcs m a = Some (i, n) \<Longrightarrow> arc_ok m hs a i n"
    and "s \<in> set hs \<Longrightarrow> \<exists>i n. arcs m (cs_inner s) = Some (i, n) \<and> cs_len s = in_len i"
    and "pool_ok (pools m t)"
  using assms by (auto simp: machine_inv_def)

lemma machine_invI:
  assumes "own (loc m) (mem m)"
    and "\<And>a i n. arcs m a = Some (i, n) \<Longrightarrow> arc_ok m hs a i n"
    and "\<And>s. s \<in> set hs \<Longrightarrow> \<exists>i n. arcs m (cs_inner s) = Some (i, n) \<and> cs_len s = in_len i"
    and "\<And>t. pool_ok (pools m t)"
  shows "machine_inv m hs"
  unfolding machine_inv_def using assms by blast

lemma alloc_layout_good: "alloc_layout n = Inr lay \<Longrightarrow> 0 < n \<Longrightarrow> lay = (n, CPU_ALIGN) \<and> good_layout lay"
  by (auto simp: alloc_layout_def good_layout_def from_size_align_def split: option.splits if_splits)

lemma next_arc_free:
  assumes "machine_inv m hs" shows "arcs m (next_arc m) = None" "loc m (InArc (next_arc m)) = None"
    "holders (next_arc m) hs = 0"
proof -
  show 1: "arcs m (next_arc m) = None"
  proof (cases "arcs m (next_arc m)")
    case (Some v)
    with machine_invD(2)[OF assms, of "next_arc m" "fst v" "snd v"] show ?thesis by (simp add: arc_ok_def)
  qed
  then show "loc m (InArc (next_arc m)) = None" by simp
  have "cs_inner s \<noteq> next_arc m" if "s \<in> set hs" for s
    using machine_invD(3)[OF assms that] 1 by auto
  then show "holders (next_arc m) hs = 0" by (simp add: holders_def)
qed

text \<open>Memory that was just acquired belongs to the cell about to be made.\<close>

lemma acquire_own:
  assumes inv: "machine_inv m hs" and good: "good_layout lay" and ans: "fresh_answer (fst lay) ans m"
    and acq: "acquire t lay ans m = Some (p, r, m1)"
  shows "own ((loc m1)(InArc (next_arc m1) \<mapsto> (p, lay))) (mem m1)"
    and "arcs m1 = arcs m" "next_arc m1 = next_arc m" "\<And>t. pool_ok (pools m1 t)"
    and "\<And>q. q \<noteq> p \<Longrightarrow> mem m1 q = mem m q"
    and "\<not> r \<Longrightarrow> \<exists>bs. ans = Some (p, bs) \<and> mem m1 p = Some bs"
proof -
  note own0 = machine_invD(1)[OF inv] and free = next_arc_free(2)[OF inv] and ok = machine_invD(4)[OF inv]
  consider pl where "try_acquire lay (pools m t) = Some (p, pl)" "m1 = m\<lparr>pools := (pools m)(t := pl)\<rparr>" "r"
    | bs where "ans = Some (p, bs)" "m1 = m\<lparr>mem := (mem m)(p \<mapsto> bs)\<rparr>" "\<not> r"
    using acq by (auto simp: acquire_def split: option.splits)
  then have "own ((loc m1)(InArc (next_arc m1) \<mapsto> (p, lay))) (mem m1) \<and> arcs m1 = arcs m
    \<and> next_arc m1 = next_arc m \<and> (\<forall>t. pool_ok (pools m1 t)) \<and> (\<forall>q. q \<noteq> p \<longrightarrow> mem m1 q = mem m q)
    \<and> (\<not> r \<longrightarrow> (\<exists>bs. ans = Some (p, bs) \<and> mem m1 p = Some bs))"
  proof cases
    case 1
    from loc_acquired[OF 1(1)] obtain j where
      j: "loc m (InPool t lay j) = Some (p, lay)" "loc m1 = (loc m)(InPool t lay j := None)"
      using 1(2) by blast
    have "own ((loc m1)(InArc (next_arc m1) \<mapsto> (p, lay))) (mem m1)"
      using own_move[OF own0 j(1) free] unfolding j(2) by (simp add: 1(2))
    then show ?thesis using try_acquire_ok[OF ok 1(1)] ok 1(3) by (simp add: 1(2))
  next
    case 2
    have l: "loc m1 = loc m"
    proof
      fix x show "loc m1 x = loc m x" by (cases x) (simp_all add: 2(2))
    qed
    from ans have "mem m p = None" "length bs = fst lay" by (simp_all add: fresh_answer_def 2(1))
    from own_add[OF own0 this(1) free good this(2)]
    have "own ((loc m1)(InArc (next_arc m1) \<mapsto> (p, lay))) (mem m1)" unfolding l by (simp add: 2(2))
    then show ?thesis using ok 2 by simp
  qed
  then show "own ((loc m1)(InArc (next_arc m1) \<mapsto> (p, lay))) (mem m1)" "arcs m1 = arcs m"
    "next_arc m1 = next_arc m" "\<And>t. pool_ok (pools m1 t)" "\<And>q. q \<noteq> p \<Longrightarrow> mem m1 q = mem m q"
    "\<not> r \<Longrightarrow> \<exists>bs. ans = Some (p, bs) \<and> mem m1 p = Some bs" by blast+
qed

lemma holders_Cons: "holders a (s # hs) = (if cs_inner s = a then Suc (holders a hs) else holders a hs)"
  by (simp add: holders_def)

text \<open>Making the cell: \<open>m\<close> is the machine before, \<open>m1\<close> the one that has the memory ready.\<close>

lemma wrap_inv:
  assumes inv: "machine_inv m hs" and arcs: "arcs m1 = arcs m" "next_arc m1 = next_arc m"
    and own: "own ((loc m1)(InArc (next_arc m1) \<mapsto> (p, lay))) (mem m1)"
    and pools: "\<And>t. pool_ok (pools m1 t)" and mem: "\<And>q. q \<noteq> p \<Longrightarrow> mem m1 q = mem m q"
    and lay: "lay = (n, CPU_ALIGN)" "0 < n" and w: "wrap p lay n m1 = (s, m2)"
  shows "machine_inv m2 (s # hs) \<and> abs_store m2 = (abs_store m)(next_arc m \<mapsto> (the (mem m1 p), 1))"
proof
  have m2: "m2 = snd (wrap p lay n m1)" and s: "s = \<lparr>cs_inner = next_arc m, cs_len = n\<rparr>"
    using w by (simp_all add: wrap_def arcs)
  have arcs2: "arcs m2 = (arcs m)(next_arc m \<mapsto> (\<lparr>in_ptr = p, in_layout = lay, in_len = n\<rparr>, 1))"
    "next_arc m2 = Suc (next_arc m)" "mem m2 = mem m1" "pools m2 = pools m1"
    by (simp_all add: m2 wrap_def arcs)
  note free = next_arc_free[OF inv]
  show "machine_inv m2 (s # hs)"
  proof (rule machine_invI)
    show "own (loc m2) (mem m2)" using own by (simp add: m2 lay(2) arcs2) (simp add: wrap_def)
    show "arc_ok m2 (s # hs) a i k" if "arcs m2 a = Some (i, k)" for a i k
    proof (cases "a = next_arc m")
      case True
      with that show ?thesis using free(3) by (auto simp: arcs2 arc_ok_def holders_Cons s lay)
    next
      case False
      with that have "arcs m a = Some (i, k)" by (simp add: arcs2)
      from machine_invD(2)[OF inv this] False show ?thesis
        by (auto simp: arc_ok_def arcs2 holders_Cons s)
    qed
    show "\<exists>i k. arcs m2 (cs_inner u) = Some (i, k) \<and> cs_len u = in_len i" if "u \<in> set (s # hs)" for u
    proof (cases "u = s")
      case True
      then show ?thesis by (simp add: arcs2 s)
    next
      case False
      with that have "u \<in> set hs" by simp
      from machine_invD(3)[OF inv this] free(1) show ?thesis by (auto simp: arcs2)
    qed
    show "pool_ok (pools m2 t)" for t using pools by (simp add: arcs2)
  qed
  show "abs_store m2 = (abs_store m)(next_arc m \<mapsto> (the (mem m1 p), 1))"
  proof
    fix a
    show "abs_store m2 a = ((abs_store m)(next_arc m \<mapsto> (the (mem m1 p), 1))) a"
    proof (cases "a = next_arc m")
      case True
      then show ?thesis using lay(2) by (simp add: abs_store_def arcs2)
    next
      case False
      have "in_ptr i \<noteq> p" if "arcs m a = Some (i, k)" "0 < in_len i" for i k
      proof
        assume "in_ptr i = p"
        then have "((loc m1)(InArc (next_arc m1) \<mapsto> (p, lay))) (InArc a) = Some (p, in_layout i)"
          using that False by (simp add: arcs)
        from own_uniqueD[OF own this, of "InArc (next_arc m1)"] False show False by (simp add: arcs)
      qed
      then show ?thesis using False mem by (auto simp: abs_store_def arcs2 split: option.splits)
    qed
  qed
qed

lemma empty_cpu_inv:
  assumes inv: "machine_inv m hs" and e: "empty_cpu m = (s, m')"
  shows "machine_inv m' (s # hs) \<and> abs_store m' = (abs_store m)(next_arc m \<mapsto> ([], 1))"
proof
  have m': "arcs m' = (arcs m)(next_arc m \<mapsto> (\<lparr>in_ptr = 1, in_layout = (1, 1), in_len = 0\<rparr>, 1))"
    "next_arc m' = Suc (next_arc m)" "mem m' = mem m" "pools m' = pools m"
    and s: "s = \<lparr>cs_inner = next_arc m, cs_len = 0\<rparr>"
    using e by (auto simp: empty_cpu_def wrap_def)
  note free = next_arc_free[OF inv]
  have l: "loc m' = loc m"
  proof
    fix x show "loc m' x = loc m x" using free(1) by (cases x) (auto simp: m')
  qed
  show "machine_inv m' (s # hs)"
  proof (rule machine_invI)
    show "own (loc m') (mem m')" using machine_invD(1)[OF inv] by (simp add: l m')
    show "arc_ok m' (s # hs) a i n" if "arcs m' a = Some (i, n)" for a i n
      using that machine_invD(2)[OF inv, of a i n] free(3)
      by (auto simp: m' arc_ok_def holders_Cons s split: if_splits)
    show "\<exists>i n. arcs m' (cs_inner u) = Some (i, n) \<and> cs_len u = in_len i" if "u \<in> set (s # hs)" for u
      using that machine_invD(3)[OF inv, of u] free(1) by (auto simp: m' s)
    show "pool_ok (pools m' t)" for t using machine_invD(4)[OF inv] by (simp add: m')
  qed
  show "abs_store m' = (abs_store m)(next_arc m \<mapsto> ([], 1))"
    by (auto simp: abs_store_def m' fun_eq_iff split: option.splits)
qed

lemma zeroed_inv:
  assumes inv: "machine_inv m hs" and ans: "fresh_answer n ans m" and z: "zeroed t n ans m = (r, m')"
  shows "case r of Inl e \<Rightarrow> m' = m
    | Inr s \<Rightarrow> machine_inv m' (s # hs) \<and> abs_store m' = (abs_store m)(next_arc m \<mapsto> (replicate n 0, 1))"
proof (cases "n = 0")
  case True
  then show ?thesis using z empty_cpu_inv[OF inv] by (auto simp: zeroed_def split: prod.splits)
next
  case False
  let ?ans = "map_option (\<lambda>(p, bs). (p, replicate n 0)) ans"
  show ?thesis
  proof (cases "\<exists>lay. alloc_layout n = Inr lay \<and> acquire t lay ?ans m \<noteq> None")
    case True
    then obtain lay p b m1 where lay: "alloc_layout n = Inr lay" and acq: "acquire t lay ?ans m = Some (p, b, m1)"
      by auto
    let ?m2 = "if b then m1\<lparr>mem := (mem m1)(p \<mapsto> replicate n 0)\<rparr> else m1"
    obtain s m3 where w: "wrap p lay n ?m2 = (s, m3)" by fastforce
    have res: "r = Inr s" "m' = m3"
      using z False w by (auto simp: zeroed_def lay acq Let_def split: prod.splits)
    have good: "lay = (n, CPU_ALIGN)" "good_layout lay" using alloc_layout_good[OF lay] False by auto
    have "fresh_answer (fst lay) ?ans m" using ans good(1) by (auto simp: fresh_answer_def split: option.splits)
    note a = acquire_own[OF inv good(2) this acq]
    have l2: "loc ?m2 = loc m1"
    proof
      fix x show "loc ?m2 x = loc m1 x" by (cases x) simp_all
    qed
    from own_memD[OF a(1), of "InArc (next_arc m1)" p lay] obtain bs where
      bs: "mem m1 p = Some bs" "length bs = n" by (auto simp: good(1))
    have eq: "mem ?m2 p = Some (replicate n 0)" using a(6) by (auto split: option.splits)
    have own2: "own ((loc ?m2)(InArc (next_arc ?m2) \<mapsto> (p, lay))) (mem ?m2)"
      unfolding l2 using a(1) own_write[OF a(1) bs(1), of "replicate n 0"] bs(2) by simp
    from wrap_inv[OF inv _ _ own2 _ _ good(1) _ w] a(2-5) False eq
    show ?thesis by (simp add: res)
  next
    case False
    with \<open>n \<noteq> 0\<close> z show ?thesis by (auto simp: zeroed_def split: sum.splits option.splits)
  qed
qed

lemma uninit_inv:
  assumes inv: "machine_inv m hs" and ans: "fresh_answer n ans m" and z: "uninit t n ans m = (r, m')"
  shows "case r of Inl e \<Rightarrow> m' = m
    | Inr s \<Rightarrow> machine_inv m' (s # hs) \<and> s = \<lparr>cs_inner = next_arc m, cs_len = n\<rparr> \<and>
        (\<exists>bs. length bs = n \<and> abs_store m' = (abs_store m)(next_arc m \<mapsto> (bs, 1)))"
proof (cases "n = 0")
  case True
  then show ?thesis using z empty_cpu_inv[OF inv]
    by (auto simp: uninit_def empty_cpu_def wrap_def split: prod.splits)
next
  case False
  show ?thesis
  proof (cases "\<exists>lay. alloc_layout n = Inr lay \<and> acquire t lay ans m \<noteq> None")
    case True
    then obtain lay p b m1 where lay: "alloc_layout n = Inr lay" and acq: "acquire t lay ans m = Some (p, b, m1)"
      by auto
    obtain s m2 where w: "wrap p lay n m1 = (s, m2)" by fastforce
    have res: "r = Inr s" "m' = m2" using z False w by (auto simp: uninit_def lay acq Let_def split: prod.splits)
    have good: "lay = (n, CPU_ALIGN)" "good_layout lay" using alloc_layout_good[OF lay] False by auto
    have "fresh_answer (fst lay) ans m" using ans good(1) by simp
    note a = acquire_own[OF inv good(2) this acq]
    from own_memD[OF a(1), of "InArc (next_arc m1)" p lay] have "length (the (mem m1 p)) = n"
      by (auto simp: good(1))
    moreover have "s = \<lparr>cs_inner = next_arc m, cs_len = n\<rparr>" using w a(3) by (simp add: wrap_def)
    ultimately show ?thesis
      using wrap_inv[OF inv a(2,3,1) a(4) a(5) good(1) _ w] False by (auto simp: res)
  next
    case False
    with \<open>n \<noteq> 0\<close> z show ?thesis by (auto simp: uninit_def split: sum.splits option.splits)
  qed
qed

lemma held_memory:
  assumes "machine_inv m hs" "arcs m a = Some (i, n)" "0 < in_len i"
  obtains bs where "mem m (in_ptr i) = Some bs" "length bs = in_len i"
    "abs_store m a = Some (bs, n)"
proof -
  have "loc m (InArc a) = Some (in_ptr i, in_layout i)" using assms(2,3) by simp
  from own_memD[OF machine_invD(1)[OF assms(1)] this] machine_invD(2)[OF assms(1,2)] assms(3)
  obtain bs where "mem m (in_ptr i) = Some bs" "length bs = in_len i" by (auto simp: arc_ok_def)
  with that[of bs] assms(2,3) show thesis by (simp add: abs_store_def)
qed

lemma as_bytes_correct:
  assumes inv: "machine_inv m hs" and s: "s \<in> set hs"
  shows "\<exists>bs n. as_bytes s m = Some bs \<and> abs_store m (cs_inner s) = Some (bs, n)"
proof -
  from machine_invD(3)[OF inv s] obtain i n where i: "arcs m (cs_inner s) = Some (i, n)" "cs_len s = in_len i"
    by blast
  show ?thesis
  proof (cases "in_len i = 0")
    case True
    with i show ?thesis by (simp add: as_bytes_def abs_store_def)
  next
    case False
    then have "0 < in_len i" by simp
    from held_memory[OF inv i(1) this] obtain bs where "mem m (in_ptr i) = Some bs" "length bs = in_len i"
      "abs_store m (cs_inner s) = Some (bs, n)" .
    with i False show ?thesis by (simp add: as_bytes_def raw_slice_def)
  qed
qed

lemma as_bytes_mut_inv:
  assumes inv: "machine_inv m hs" and s: "s \<in> set hs" and f: "\<And>bs. length (f bs) = length bs"
  shows "\<exists>r bs n. as_bytes_mut s f m = Some r \<and> abs_store m (cs_inner s) = Some (bs, n) \<and>
    (case r of
       None \<Rightarrow> n \<noteq> 1
     | Some m' \<Rightarrow> machine_inv m' hs \<and> (bs \<noteq> [] \<longrightarrow> n = 1) \<and>
         abs_store m' = (abs_store m)(cs_inner s \<mapsto> (f bs, n)) \<and> next_arc m' = next_arc m)"
proof -
  from machine_invD(3)[OF inv s] obtain i n where i: "arcs m (cs_inner s) = Some (i, n)" "cs_len s = in_len i"
    by blast
  show ?thesis
  proof (cases "in_len i = 0")
    case True
    have "f [] = []" using f[of "[]"] by simp
    with True i inv show ?thesis
      by (auto simp: as_bytes_mut_def abs_store_def fun_eq_iff)
  next
    case False
    then have "0 < in_len i" by simp
    from held_memory[OF inv i(1) this] obtain bs where bs: "mem m (in_ptr i) = Some bs" "length bs = in_len i"
      "abs_store m (cs_inner s) = Some (bs, n)" .
    let ?m = "m\<lparr>mem := (mem m)(in_ptr i \<mapsto> f bs)\<rparr>"
    have l: "loc ?m = loc m"
    proof
      fix x show "loc ?m x = loc m x" by (cases x) simp_all
    qed
    have own: "own (loc ?m) (mem ?m)"
      unfolding l using own_write[OF machine_invD(1)[OF inv] bs(1) f] by simp
    have inv': "machine_inv ?m hs"
      using own inv unfolding machine_inv_def arc_ok_def by simp
    have "in_ptr i' \<noteq> in_ptr i" if "arcs m a = Some (i', n')" "0 < in_len i'" "a \<noteq> cs_inner s" for a i' n'
      using own_uniqueD[OF machine_invD(1)[OF inv], of "InArc a" "in_ptr i'" "in_layout i'" "InArc (cs_inner s)" "in_layout i"]
        that i False by auto
    then have "abs_store ?m = (abs_store m)(cs_inner s \<mapsto> (f bs, n))"
      using i False by (auto simp: abs_store_def fun_eq_iff split: option.splits)
    with inv' i False bs show ?thesis by (auto simp: as_bytes_mut_def raw_slice_def)
  qed
qed

lemma from_bytes_inv:
  assumes inv: "machine_inv m hs" and ans: "fresh_answer (length bytes) ans m"
  shows "\<exists>r m'. from_bytes_storage t bytes ans m = Some (r, m') \<and>
    (case r of Inl e \<Rightarrow> m' = m
     | Inr s \<Rightarrow> machine_inv m' (s # hs) \<and> abs_store m' = (abs_store m)(next_arc m \<mapsto> (bytes, 1)))"
proof (cases "bytes = []")
  case True
  then show ?thesis
    using empty_cpu_inv[OF inv] by (cases "empty_cpu m") (simp add: from_bytes_storage_def)
next
  case False
  obtain r m1 where u: "uninit t (length bytes) ans m = (r, m1)" by fastforce
  show ?thesis
  proof (cases r)
    case (Inl e)
    with uninit_inv[OF inv ans u] u False show ?thesis by (simp add: from_bytes_storage_def)
  next
    case (Inr s)
    from uninit_inv[OF inv ans u] obtain bs where a: "machine_inv m1 (s # hs)"
      "s = \<lparr>cs_inner = next_arc m, cs_len = length bytes\<rparr>" "length bs = length bytes"
      "abs_store m1 = (abs_store m)(next_arc m \<mapsto> (bs, 1))"
      by (auto simp: Inr)
    let ?f = "\<lambda>xs. if length xs = length bytes then bytes else xs"
    have f: "length (?f xs) = length xs" for xs by simp
    have same: "as_bytes_mut s (\<lambda>_. bytes) m1 = as_bytes_mut s ?f m1"
    proof -
      from machine_invD(3)[OF a(1), of s] obtain i n where
        i: "arcs m1 (cs_inner s) = Some (i, n)" "cs_len s = in_len i" by auto
      then have "in_len i = length bytes" using a(2) by simp
      then have "0 < in_len i" using False by simp
      from held_memory[OF a(1) i(1) this] obtain bs' where "mem m1 (in_ptr i) = Some bs'" "length bs' = in_len i" .
      with i a(2) show ?thesis by (simp add: as_bytes_mut_def raw_slice_def)
    qed
    from as_bytes_mut_inv[OF a(1) list.set_intros(1), of ?f, OF f] a(2-4) obtain m2 where
      m2: "as_bytes_mut s (\<lambda>_. bytes) m1 = Some (Some m2)" "machine_inv m2 (s # hs)"
      "abs_store m2 = (abs_store m1)(next_arc m \<mapsto> (bytes, 1))"
      unfolding same by (auto split: option.splits)
    then show ?thesis using u False a(4) by (simp add: from_bytes_storage_def Inr)
  qed
qed

lemma loc_arcs_cong:
  assumes "pools m' = pools m"
    and "\<And>a. map_option fst (arcs m' a) = map_option fst (arcs m a)"
  shows "loc m' = loc m"
proof
  fix x
  show "loc m' x = loc m x"
  proof (cases x)
    case (InArc a)
    then show ?thesis using assms(2)[of a] by (cases "arcs m a"; cases "arcs m' a") auto
  next
    case (InPool t k j)
    then show ?thesis using assms(1) by simp
  qed
qed

lemma storage_clone_inv:
  assumes inv: "machine_inv m hs" and s: "s \<in> set hs"
  shows "\<exists>m' bs n. storage_clone s m = Some m' \<and> machine_inv m' (s # hs) \<and>
    abs_store m (cs_inner s) = Some (bs, n) \<and> abs_store m' = (abs_store m)(cs_inner s \<mapsto> (bs, Suc n))"
proof -
  from machine_invD(3)[OF inv s] obtain i n where i: "arcs m (cs_inner s) = Some (i, n)" "cs_len s = in_len i"
    by blast
  let ?m = "m\<lparr>arcs := (arcs m)(cs_inner s \<mapsto> (i, Suc n))\<rparr>"
  have l: "loc ?m = loc m" by (rule loc_arcs_cong) (simp_all add: i)
  have "machine_inv ?m (s # hs)"
  proof (rule machine_invI)
    show "own (loc ?m) (mem ?m)" using machine_invD(1)[OF inv] unfolding l by simp
    show "arc_ok ?m (s # hs) a j k" if "arcs ?m a = Some (j, k)" for a j k
      using that machine_invD(2)[OF inv, of a] i by (auto simp: arc_ok_def holders_Cons split: if_splits)
    show "\<exists>j k. arcs ?m (cs_inner u) = Some (j, k) \<and> cs_len u = in_len j" if "u \<in> set (s # hs)" for u
      using that machine_invD(3)[OF inv, of u] i by auto
    show "pool_ok (pools ?m t)" for t using machine_invD(4)[OF inv] by simp
  qed
  moreover have "abs_store ?m = (abs_store m)(cs_inner s \<mapsto> (fst (the (abs_store m (cs_inner s))), Suc n))"
    using i by (auto simp: abs_store_def fun_eq_iff split: option.splits)
  ultimately show ?thesis using i by (auto simp: storage_clone_def abs_store_def)
qed

lemma holders_remove1:
  "s \<in> set hs \<Longrightarrow> holders a (remove1 s hs) = (if cs_inner s = a then holders a hs - 1 else holders a hs)"
  by (auto simp: holders_def filter_remove1 length_remove1)

text \<open>Dropping the cell of a storage: its memory goes to the pool or back to the system.\<close>

lemma inner_drop_inv:
  assumes own: "own (loc m) (mem m)" and arc: "arcs m a = Some (i, n)"
    and pools: "\<And>t. pool_ok (pools m t)"
    and m0: "m0 = m\<lparr>arcs := (arcs m)(a := None)\<rparr>"
  shows "\<exists>m'. inner_drop t i m0 = Some m' \<and> own (loc m') (mem m') \<and> arcs m' = arcs m0 \<and>
    next_arc m' = next_arc m0 \<and> (\<forall>t. pool_ok (pools m' t)) \<and>
    (\<forall>q. (0 < in_len i \<longrightarrow> q \<noteq> in_ptr i) \<longrightarrow> mem m' q = mem m q)"
proof (cases "in_len i = 0")
  case True
  have "loc m0 = loc m"
  proof
    fix x show "loc m0 x = loc m x" using arc True by (cases x) (auto simp: m0)
  qed
  with own pools True show ?thesis by (simp add: inner_drop_def m0)
next
  case False
  let ?p = "in_ptr i" and ?k = "in_layout i"
  have at: "loc m (InArc a) = Some (?p, ?k)" using arc False by simp
  have l0: "loc m0 = (loc m)(InArc a := None)"
  proof
    fix x show "loc m0 x = ((loc m)(InArc a := None)) x" by (cases x) (auto simp: m0)
  qed
  obtain kept pl where rel: "try_release ?p ?k (pools m0 t) = (kept, pl)" by fastforce
  let ?m1 = "m0\<lparr>pools := (pools m0)(t := pl)\<rparr>"
  have ok: "pool_ok (pools ?m1 u)" for u
    using try_release_ok[OF _ rel] pools by (simp add: m0)
  show ?thesis
  proof (cases kept)
    case True
    with rel have rel': "try_release ?p ?k (pools m0 t) = (True, pl)" by simp
    let ?x = "InPool t ?k (length (bucket (pools m0 t) ?k))"
    note r = loc_released[OF rel']
    have free: "loc m ?x = None" by (simp add: m0)
    have "own (loc ?m1) (mem ?m1)"
      unfolding r(2) l0 using own_move[OF own at free] by (simp add: m0)
    then show ?thesis using rel True ok False by (simp add: inner_drop_def) (simp add: m0)
  next
    case False
    with rel have rel': "try_release ?p ?k (pools m0 t) = (False, pl)" by simp
    note r = loc_refused[OF rel']
    from own_memD[OF own at] obtain bs where bs: "mem m ?p = Some bs" "length bs = fst ?k" by blast
    then have d: "dealloc ?p ?k (mem ?m1) = Some ((mem m)(?p := None))" by (simp add: dealloc_def m0)
    let ?m2 = "?m1\<lparr>mem := (mem m)(?p := None)\<rparr>"
    have "loc ?m2 = loc ?m1" by (rule loc_arcs_cong) simp_all
    then have "own (loc ?m2) (mem ?m2)"
      using own_remove[OF own at] by (simp add: r l0)
    then show ?thesis using rel False \<open>in_len i \<noteq> 0\<close> ok d by (simp add: inner_drop_def)
  qed
qed

lemma storage_drop_inv:
  assumes inv: "machine_inv m hs" and s: "s \<in> set hs"
  shows "\<exists>m' bs n. storage_drop t s m = Some m' \<and> machine_inv m' (remove1 s hs) \<and>
    abs_store m (cs_inner s) = Some (bs, n) \<and>
    abs_store m' = (abs_store m)(cs_inner s := (if n = 1 then None else Some (bs, n - 1)))"
proof -
  let ?a = "cs_inner s" and ?hs = "remove1 s hs"
  from machine_invD(3)[OF inv s] obtain i n where i: "arcs m ?a = Some (i, n)" "cs_len s = in_len i"
    by blast
  have n: "n = holders ?a hs" "0 < n" using machine_invD(2)[OF inv i(1)] by (auto simp: arc_ok_def)
  have keep: "cs_inner u = ?a \<Longrightarrow> u \<in> set ?hs \<Longrightarrow> n \<noteq> 1" for u
    using n holders_remove1[OF s, of ?a] by (auto simp: holders_def filter_empty_conv)
  have mem': "u \<in> set ?hs \<Longrightarrow> u \<in> set hs" for u by (meson notin_set_remove1)
  show ?thesis
  proof (cases "n = 1")
    case True
    let ?m0 = "m\<lparr>arcs := (arcs m)(?a := None)\<rparr>"
    from inner_drop_inv[OF machine_invD(1)[OF inv] i(1) machine_invD(4)[OF inv] refl] obtain m' where
      m': "inner_drop t i ?m0 = Some m'" "own (loc m') (mem m')" "arcs m' = arcs ?m0"
        "next_arc m' = next_arc ?m0" "\<And>t. pool_ok (pools m' t)"
        "\<And>q. (0 < in_len i \<longrightarrow> q \<noteq> in_ptr i) \<Longrightarrow> mem m' q = mem m q" by blast
    have "machine_inv m' ?hs"
    proof (rule machine_invI[OF m'(2)])
      show "arc_ok m' ?hs b j k" if "arcs m' b = Some (j, k)" for b j k
        using that machine_invD(2)[OF inv, of b j k] m'(3,4)
        by (auto simp: arc_ok_def holders_remove1[OF s] split: if_splits)
      show "\<exists>j k. arcs m' (cs_inner u) = Some (j, k) \<and> cs_len u = in_len j" if "u \<in> set ?hs" for u
        using machine_invD(3)[OF inv mem'[OF that]] keep[OF _ that] True m'(3) by auto
      show "pool_ok (pools m' u)" for u by (rule m'(5))
    qed
    moreover have "abs_store m' = (abs_store m)(?a := None)"
    proof
      fix b
      have "in_ptr j \<noteq> in_ptr i" if "arcs m b = Some (j, k)" "0 < in_len j" "0 < in_len i" "b \<noteq> ?a" for j k
        using own_uniqueD[OF machine_invD(1)[OF inv], of "InArc b" "in_ptr j" "in_layout j" "InArc ?a" "in_layout i"]
          that i by auto
      then show "abs_store m' b = ((abs_store m)(?a := None)) b"
        using m'(6) by (auto simp: abs_store_def m'(3) split: option.splits)
    qed
    ultimately show ?thesis using i True m'(1) by (auto simp: storage_drop_def abs_store_def)
  next
    case False
    let ?m = "m\<lparr>arcs := (arcs m)(?a \<mapsto> (i, n - 1))\<rparr>"
    have l: "loc ?m = loc m" by (rule loc_arcs_cong) (simp_all add: i)
    have "machine_inv ?m ?hs"
    proof (rule machine_invI)
      show "own (loc ?m) (mem ?m)" using machine_invD(1)[OF inv] unfolding l by simp
      show "arc_ok ?m ?hs b j k" if "arcs ?m b = Some (j, k)" for b j k
        using that machine_invD(2)[OF inv, of b] i n False
        by (auto simp: arc_ok_def holders_remove1[OF s] split: if_splits)
      show "\<exists>j k. arcs ?m (cs_inner u) = Some (j, k) \<and> cs_len u = in_len j" if "u \<in> set ?hs" for u
        using machine_invD(3)[OF inv mem'[OF that]] i by auto
      show "pool_ok (pools ?m t)" for t using machine_invD(4)[OF inv] by simp
    qed
    moreover have "abs_store ?m = (abs_store m)(?a \<mapsto> (fst (the (abs_store m ?a)), n - 1))"
      using i by (auto simp: abs_store_def fun_eq_iff split: option.splits)
    ultimately show ?thesis using i False by (auto simp: storage_drop_def abs_store_def)
  qed
qed

lemma drain_stack_mem: "drain_stack k ps M = Some M' \<Longrightarrow> M' q = M q \<or> M' q = None"
  by (induction ps arbitrary: M) (fastforce simp: dealloc_def split: option.splits if_splits)+

lemma drain_buckets_mem: "drain_buckets bs M = Some M' \<Longrightarrow> M' q = M q \<or> M' q = None"
proof (induction bs arbitrary: M)
  case Nil
  then show ?case by simp
next
  case (Cons e bs)
  obtain k s where e: "e = (k, s)" by (cases e)
  show ?case
  proof (cases "from_size_align (fst k) (snd k)")
    case None
    with Cons show ?thesis by (simp add: e)
  next
    case (Some lay)
    with Cons.prems obtain M1 where "drain_stack lay s M = Some M1" "drain_buckets bs M1 = Some M'"
      by (auto simp: e split: option.splits)
    with drain_stack_mem[of lay s M M1 q] Cons.IH[of M1] show ?thesis by auto
  qed
qed

lemma pool_drop_inv:
  assumes inv: "machine_inv m hs"
  shows "\<exists>m'. pool_drop t m = Some m' \<and> machine_inv m' hs \<and> abs_store m' = abs_store m"
proof -
  let ?bs = "pl_buckets (pools m t)"
  have dist: "distinct (map fst ?bs)" using machine_invD(4)[OF inv, of t] by (simp add: pool_ok_def)
  have at: "loc m (InPool t k i) = Some (s ! i, k)" if "(k, s) \<in> set ?bs" "i < length s" for k s i
    using that dist by (simp add: bucket_def)
  from drain_buckets_own[OF machine_invD(1)[OF inv] dist at] obtain M' where
    M': "drain_buckets ?bs (mem m) = Some M'"
    "own (loc m |` (- (\<Union>(k, s) \<in> set ?bs. InPool t k ` {..<length s}))) M'" by blast
  let ?m = "m\<lparr>mem := M', pools := (pools m)(t := pool_new)\<rparr>"
  have l: "loc ?m = loc m |` (- (\<Union>(k, s) \<in> set ?bs. InPool t k ` {..<length s}))"
  proof
    fix x
    show "loc ?m x = (loc m |` (- (\<Union>(k, s) \<in> set ?bs. InPool t k ` {..<length s}))) x"
    proof (cases x)
      case (InArc a)
      then show ?thesis by (auto simp: restrict_map_def)
    next
      case (InPool t' k j)
      then show ?thesis
        by (auto simp: restrict_map_def Let_def bucket_def pool_new_def image_iff split: option.splits
            dest: map_of_SomeD)
    qed
  qed
  have "machine_inv ?m hs"
  proof (rule machine_invI)
    show "own (loc ?m) (mem ?m)" using M'(2) unfolding l by simp
    show "arc_ok ?m hs a i n" if "arcs ?m a = Some (i, n)" for a i n
      using that machine_invD(2)[OF inv, of a i n] by (simp add: arc_ok_def)
    show "\<exists>i n. arcs ?m (cs_inner u) = Some (i, n) \<and> cs_len u = in_len i" if "u \<in> set hs" for u
      using machine_invD(3)[OF inv that] by simp
    show "pool_ok (pools ?m u)" for u using machine_invD(4)[OF inv] by simp
  qed
  moreover have "abs_store ?m a = abs_store m a" for a
  proof (cases "\<exists>i n. arcs m a = Some (i, n) \<and> 0 < in_len i")
    case True
    then obtain i n where i: "arcs m a = Some (i, n)" "0 < in_len i" by blast
    have "loc ?m (InArc a) = Some (in_ptr i, in_layout i)" using i by simp
    from own_memD[OF M'(2), folded l, OF this] have "M' (in_ptr i) \<noteq> None" by auto
    with drain_buckets_mem[OF M'(1), of "in_ptr i"] i show ?thesis by (auto simp: abs_store_def)
  next
    case False
    then show ?thesis by (auto simp: abs_store_def split: option.splits)
  qed
  ultimately show ?thesis using M'(1) by (auto simp: pool_drop_def fun_eq_iff)
qed

section \<open>Runs of the machine\<close>

text \<open>
  What a program does with storages: it allocates, clones, drops, reads and writes those it
  holds (a Rust value is used only by its owner), and threads end.  The last argument of an
  allocation is the answer of the system allocator, which is memory not live at that moment.
\<close>

datatype 'b storage_op =
    OpZeroed nat nat "(ptr \<times> 'b list) option"
  | OpUninit nat nat "(ptr \<times> 'b list) option"
  | OpFromBytes nat "'b list" "(ptr \<times> 'b list) option"
  | OpClone cpu_storage
  | OpDrop nat cpu_storage
  | OpRead cpu_storage
  | OpWrite cpu_storage "'b list \<Rightarrow> 'b list"
  | OpThreadExit nat

fun allowed :: "'b storage_op \<Rightarrow> 'b machine \<Rightarrow> cpu_storage list \<Rightarrow> bool" where
  "allowed (OpZeroed t n ans) m hs \<longleftrightarrow> fresh_answer n ans m"
| "allowed (OpUninit t n ans) m hs \<longleftrightarrow> fresh_answer n ans m"
| "allowed (OpFromBytes t bytes ans) m hs \<longleftrightarrow> fresh_answer (length bytes) ans m"
| "allowed (OpClone s) m hs \<longleftrightarrow> s \<in> set hs"
| "allowed (OpDrop t s) m hs \<longleftrightarrow> s \<in> set hs"
| "allowed (OpRead s) m hs \<longleftrightarrow> s \<in> set hs"
| "allowed (OpWrite s f) m hs \<longleftrightarrow> s \<in> set hs \<and> (\<forall>bs. length (f bs) = length bs)"
| "allowed (OpThreadExit t) m hs \<longleftrightarrow> True"

definition new_handle :: "(storage_error + cpu_storage) \<times> 'b machine \<Rightarrow> cpu_storage list \<Rightarrow> 'b machine \<times> cpu_storage list" where
  "new_handle r hs = (case r of (Inl e, m) \<Rightarrow> (m, hs) | (Inr s, m) \<Rightarrow> (m, s # hs))"

fun exec_op ::
  "('b :: zero) storage_op \<Rightarrow> 'b machine \<Rightarrow> cpu_storage list \<Rightarrow> ('b machine \<times> cpu_storage list) option" where
  "exec_op (OpZeroed t n ans) m hs = Some (new_handle (zeroed t n ans m) hs)"
| "exec_op (OpUninit t n ans) m hs = Some (new_handle (uninit t n ans m) hs)"
| "exec_op (OpFromBytes t bytes ans) m hs =
     map_option (\<lambda>r. new_handle r hs) (from_bytes_storage t bytes ans m)"
| "exec_op (OpClone s) m hs = map_option (\<lambda>m'. (m', s # hs)) (storage_clone s m)"
| "exec_op (OpDrop t s) m hs = map_option (\<lambda>m'. (m', remove1 s hs)) (storage_drop t s m)"
| "exec_op (OpRead s) m hs = map_option (\<lambda>_. (m, hs)) (as_bytes s m)"
| "exec_op (OpWrite s f) m hs =
     map_option (\<lambda>r. case r of None \<Rightarrow> (m, hs) | Some m' \<Rightarrow> (m', hs)) (as_bytes_mut s f m)"
| "exec_op (OpThreadExit t) m hs = map_option (\<lambda>m'. (m', hs)) (pool_drop t m)"

inductive reached :: "('b :: zero) machine \<Rightarrow> cpu_storage list \<Rightarrow> bool" where
  reached_start: "reached initial_machine []"
| reached_step: "reached m hs \<Longrightarrow> allowed op m hs \<Longrightarrow> exec_op op m hs = Some (m', hs') \<Longrightarrow> reached m' hs'"

text \<open>The abstract store: byte lists with reference counts, where memory does not exist.\<close>

inductive store_step ::
  "('b :: zero) storage_op \<Rightarrow> (nat \<Rightarrow> ('b list \<times> nat) option) \<Rightarrow> (nat \<Rightarrow> ('b list \<times> nat) option) \<Rightarrow> bool" where
  ss_zeroed: "S a = None \<Longrightarrow> store_step (OpZeroed t n ans) S (S(a \<mapsto> (replicate n 0, 1)))"
| ss_uninit: "S a = None \<Longrightarrow> length bs = n \<Longrightarrow> store_step (OpUninit t n ans) S (S(a \<mapsto> (bs, 1)))"
| ss_from_bytes: "S a = None \<Longrightarrow> store_step (OpFromBytes t bytes ans) S (S(a \<mapsto> (bytes, 1)))"
| ss_zeroed_fails: "n > 0 \<Longrightarrow> ans = None \<or> i64_limit \<le> div_ceil n 64 * 64 \<Longrightarrow> store_step (OpZeroed t n ans) S S"
| ss_uninit_fails: "n > 0 \<Longrightarrow> ans = None \<or> i64_limit \<le> div_ceil n 64 * 64 \<Longrightarrow> store_step (OpUninit t n ans) S S"
| ss_from_bytes_fails: "bytes \<noteq> [] \<Longrightarrow> ans = None \<or> i64_limit \<le> div_ceil (length bytes) 64 * 64 \<Longrightarrow>
    store_step (OpFromBytes t bytes ans) S S"
| ss_clone: "S (cs_inner s) = Some (bs, n) \<Longrightarrow> store_step (OpClone s) S (S(cs_inner s \<mapsto> (bs, Suc n)))"
| ss_drop: "S (cs_inner s) = Some (bs, n) \<Longrightarrow>
    store_step (OpDrop t s) S (S(cs_inner s := (if n = 1 then None else Some (bs, n - 1))))"
| ss_read: "store_step (OpRead s) S S"
| ss_write: "S (cs_inner s) = Some (bs, 1) \<Longrightarrow> store_step (OpWrite s f) S (S(cs_inner s \<mapsto> (f bs, 1)))"
| ss_write_shared: "S (cs_inner s) = Some (bs, n) \<Longrightarrow> n \<noteq> 1 \<or> bs = [] \<Longrightarrow> store_step (OpWrite s f) S S"
| ss_thread_exit: "store_step (OpThreadExit t) S S"

lemma acquire_None: "acquire t lay ans m = None \<Longrightarrow> ans = None"
  by (auto simp: acquire_def split: option.splits)

lemma alloc_layout_Inl: "alloc_layout n = Inl e \<Longrightarrow> i64_limit \<le> div_ceil n 64 * 64"
  by (auto simp: alloc_layout_def from_size_align_def CPU_ALIGN_def split: option.splits if_splits)

lemma uninit_Inl:
  assumes "uninit t n ans m = (Inl e, m')" shows "n > 0 \<and> (ans = None \<or> i64_limit \<le> div_ceil n 64 * 64)"
  using assms alloc_layout_Inl[of n] acquire_None[of t _ ans m]
  by (auto simp: uninit_def Let_def split: if_splits sum.splits option.splits prod.splits)

lemma zeroed_Inl:
  assumes "zeroed t n ans m = (Inl e, m')" shows "n > 0 \<and> (ans = None \<or> i64_limit \<le> div_ceil n 64 * 64)"
  using assms alloc_layout_Inl[of n] acquire_None[of t _ "map_option (\<lambda>(p, bs). (p, replicate n 0)) ans" m]
  by (auto simp: zeroed_def Let_def split: if_splits sum.splits option.splits prod.splits)

lemma from_bytes_Inl:
  assumes "from_bytes_storage t bytes ans m = Some (Inl e, m')"
  shows "bytes \<noteq> [] \<and> (ans = None \<or> i64_limit \<le> div_ceil (length bytes) 64 * 64)"
  using assms uninit_Inl[of t "length bytes" ans m]
  by (auto simp: from_bytes_storage_def Let_def split: if_splits sum.splits option.splits prod.splits)

lemma exec_op_correct:
  assumes inv: "machine_inv m hs" and op: "allowed op m hs"
  shows "\<exists>m' hs'. exec_op op m hs = Some (m', hs') \<and> machine_inv m' hs' \<and>
    store_step op (abs_store m) (abs_store m')"
proof -
  have free: "abs_store m (next_arc m) = None" using next_arc_free(1)[OF inv] by (simp add: abs_store_def)
  show ?thesis
  proof (cases op)
    case (OpZeroed t n ans)
    obtain r m' where z: "zeroed t n ans m = (r, m')" by fastforce
    from op have "fresh_answer n ans m" by (simp add: OpZeroed)
    from zeroed_inv[OF inv this z] zeroed_Inl[of t n ans m] inv free show ?thesis
      by (cases r) (auto simp: OpZeroed z new_handle_def simp del: One_nat_def intro: ss_zeroed ss_zeroed_fails)
  next
    case (OpUninit t n ans)
    obtain r m' where z: "uninit t n ans m = (r, m')" by fastforce
    from op have "fresh_answer n ans m" by (simp add: OpUninit)
    from uninit_inv[OF inv this z] uninit_Inl[of t n ans m] inv free show ?thesis
      by (cases r) (auto simp: OpUninit z new_handle_def simp del: One_nat_def intro: ss_uninit ss_uninit_fails)
  next
    case (OpFromBytes t bytes ans)
    from op have "fresh_answer (length bytes) ans m" by (simp add: OpFromBytes)
    from from_bytes_inv[OF inv this, of t] obtain r m' where r: "from_bytes_storage t bytes ans m = Some (r, m')"
      "case r of Inl e \<Rightarrow> m' = m
       | Inr s \<Rightarrow> machine_inv m' (s # hs) \<and> abs_store m' = (abs_store m)(next_arc m \<mapsto> (bytes, 1))" by blast
    with from_bytes_Inl[of t bytes ans m] inv free show ?thesis
      by (cases r) (auto simp: OpFromBytes new_handle_def simp del: One_nat_def intro: ss_from_bytes ss_from_bytes_fails)
  next
    case (OpClone s)
    with op storage_clone_inv[OF inv, of s] show ?thesis by (auto intro: ss_clone)
  next
    case (OpDrop t s)
    with op obtain m' bs n where "storage_drop t s m = Some m'" "machine_inv m' (remove1 s hs)"
      "abs_store m (cs_inner s) = Some (bs, n)"
      "abs_store m' = (abs_store m)(cs_inner s := (if n = 1 then None else Some (bs, n - 1)))"
      using storage_drop_inv[OF inv, of s t] by auto
    with ss_drop[of "abs_store m" s bs n t] show ?thesis by (simp add: OpDrop)
  next
    case (OpRead s)
    with op as_bytes_correct[OF inv, of s] inv show ?thesis by (auto intro: ss_read)
  next
    case (OpWrite s f)
    with op obtain r bs n where r: "as_bytes_mut s f m = Some r" "abs_store m (cs_inner s) = Some (bs, n)"
      "case r of
       None \<Rightarrow> n \<noteq> 1
     | Some m' \<Rightarrow> machine_inv m' hs \<and> (bs \<noteq> [] \<longrightarrow> n = 1) \<and>
         abs_store m' = (abs_store m)(cs_inner s \<mapsto> (f bs, n)) \<and> next_arc m' = next_arc m"
      using as_bytes_mut_inv[OF inv, of s f] by auto
    have "length (f []) = length ([] :: 'a list)" using op by (simp add: OpWrite del: length_0_conv)
    then have e: "bs = [] \<Longrightarrow> (abs_store m)(cs_inner s \<mapsto> (f bs, n)) = abs_store m"
      using r(2) by (auto simp: fun_eq_iff)
    show ?thesis
    proof (cases r)
      case None
      with r inv show ?thesis by (auto simp: OpWrite intro: ss_write_shared)
    next
      case (Some m')
      with r have m': "machine_inv m' hs" "bs \<noteq> [] \<longrightarrow> n = 1"
        "abs_store m' = (abs_store m)(cs_inner s \<mapsto> (f bs, n))" by auto
      have "store_step op (abs_store m) (abs_store m')"
      proof (cases "bs = []")
        case True
        with e m'(3) r(2) show ?thesis by (auto simp: OpWrite intro: ss_write_shared)
      next
        case False
        with m'(2,3) r(2) ss_write[of "abs_store m" s bs f] show ?thesis by (simp add: OpWrite)
      qed
      with m'(1) r(1) Some show ?thesis by (simp add: OpWrite)
    qed
  next
    case (OpThreadExit t)
    with pool_drop_inv[OF inv, of t] show ?thesis by (auto intro: ss_thread_exit)
  qed
qed

lemma reached_inv: "reached m hs \<Longrightarrow> machine_inv m hs"
proof (induction rule: reached.induct)
  case reached_start
  show ?case by (rule initial_machine_inv)
next
  case (reached_step m hs op m' hs')
  from exec_op_correct[OF reached_step.IH reached_step.hyps(2)] reached_step.hyps(3) show ?case by auto
qed

lemma bucket_cap: "pool_ok pl \<Longrightarrow> length (bucket pl k) \<le> PER_BUCKET_CAP"
  by (fastforce simp: pool_ok_def bucket_def split: option.splits dest: map_of_SomeD)

text \<open>
  C4. Memory safety of the storages.  Whatever a program that owns its storages does, with any
  answers of the system allocator and any number of threads, no operation reads, writes or
  frees memory that is not live; the bytes of two cells never share memory; when the program
  holds no storage any more, what is still allocated sits in the pools; and each pool accounts
  exactly for the bytes it retains, within its byte budget and its bucket limit.
\<close>

theorem storage_memory_safe:
  assumes "reached m hs"
  shows "(\<forall>op. allowed op m hs \<longrightarrow> exec_op op m hs \<noteq> None) \<and>
    (\<forall>a b i j n k. arcs m a = Some (i, n) \<longrightarrow> arcs m b = Some (j, k) \<longrightarrow> a \<noteq> b \<longrightarrow>
       0 < in_len i \<longrightarrow> 0 < in_len j \<longrightarrow> in_ptr i \<noteq> in_ptr j) \<and>
    (hs = [] \<longrightarrow> (\<forall>p. mem m p \<noteq> None \<longrightarrow> (\<exists>t k. p \<in> set (bucket (pools m t) k)))) \<and>
    (\<forall>t. pl_retained (pools m t) = (\<Sum>(k, s) \<leftarrow> pl_buckets (pools m t). fst k * length s) \<and>
       pl_retained (pools m t) \<le> POOL_BYTE_BUDGET \<and>
       (\<forall>k. length (bucket (pools m t) k) \<le> PER_BUCKET_CAP))"
proof -
  note inv = reached_inv[OF assms]
  have 1: "exec_op op m hs \<noteq> None" if "allowed op m hs" for op
    using exec_op_correct[OF inv that] by auto
  have 2: "in_ptr i \<noteq> in_ptr j" if "arcs m a = Some (i, n)" "arcs m b = Some (j, k)" "a \<noteq> b"
    "0 < in_len i" "0 < in_len j" for a b i j n k
    using own_uniqueD[OF machine_invD(1)[OF inv], of "InArc a" "in_ptr i" "in_layout i" "InArc b" "in_layout j"] that
    by auto
  have 3: "\<exists>t k. p \<in> set (bucket (pools m t) k)" if "hs = []" "mem m p \<noteq> None" for p
  proof -
    from own_liveD[OF machine_invD(1)[OF inv] that(2)] obtain x k where x: "loc m x = Some (p, k)" by blast
    show ?thesis
    proof (cases x)
      case (InArc a)
      with x obtain i n where "arcs m a = Some (i, n)" by (auto split: option.splits)
      from machine_invD(2)[OF inv this] that(1) show ?thesis by (auto simp: arc_ok_def holders_def)
    next
      case (InPool t k' j)
      with x have "p \<in> set (bucket (pools m t) k')" by (auto simp: Let_def split: if_splits)
      then show ?thesis by blast
    qed
  qed
  note ok = machine_invD(4)[OF inv]
  have 4: "pl_retained (pools m t) = (\<Sum>(k, s) \<leftarrow> pl_buckets (pools m t). fst k * length s)"
    "pl_retained (pools m t) \<le> POOL_BYTE_BUDGET" "length (bucket (pools m t) k) \<le> PER_BUCKET_CAP" for t k
    using ok[of t] bucket_cap[OF ok] by (auto simp: pool_ok_def)
  from 1 2 3 4 show ?thesis by blast
qed

text \<open>
  C18. The storages implement the abstract store.  An operation of the machine, with its pools,
  recycled memory and reference-counted cells, does exactly what the operation does on a
  store of byte lists: \<open>zeroed\<close> gives zeros even from recycled memory, a write changes the
  bytes of its own cell only and happens only when the cell has one owner, the last drop
  removes the cell, and the end of a thread changes nothing.  Reading returns the bytes of
  the abstract store, and the strong count is the number of storages held on the cell.
\<close>

theorem storage_refines_store:
  assumes "reached m hs"
  shows "(\<forall>op. allowed op m hs \<longrightarrow>
      (\<exists>m' hs'. exec_op op m hs = Some (m', hs') \<and> store_step op (abs_store m) (abs_store m'))) \<and>
    (\<forall>s \<in> set hs. as_bytes s m \<noteq> None \<and> as_bytes s m = map_option fst (abs_store m (cs_inner s)) \<and>
      strong_count s m = length (filter (\<lambda>u. cs_inner u = cs_inner s) hs))"
proof -
  note inv = reached_inv[OF assms]
  have "\<exists>m' hs'. exec_op op m hs = Some (m', hs') \<and> store_step op (abs_store m) (abs_store m')"
    if "allowed op m hs" for op
    using exec_op_correct[OF inv that] by blast
  moreover have "as_bytes s m \<noteq> None \<and> as_bytes s m = map_option fst (abs_store m (cs_inner s)) \<and>
      strong_count s m = length (filter (\<lambda>u. cs_inner u = cs_inner s) hs)" if "s \<in> set hs" for s
    using as_bytes_correct[OF inv that] machine_invD(3)[OF inv that] machine_invD(2)[OF inv]
    by (auto simp: strong_count_def arc_ok_def holders_def)
  ultimately show ?thesis by blast
qed

text \<open>A concrete run: a buffer is filled, dropped into the pool, and its memory recycled.\<close>

definition demo_ops :: "nat storage_op list" where
  "demo_ops = [OpFromBytes 0 [1, 2, 3] (Some (100, [9, 9, 9])), OpDrop 0 \<lparr>cs_inner = 0, cs_len = 3\<rparr>,
     OpZeroed 0 3 None]"

fun run_ops :: "('b :: zero) storage_op list \<Rightarrow> 'b machine \<Rightarrow> cpu_storage list \<Rightarrow> ('b machine \<times> cpu_storage list) option" where
  "run_ops [] m hs = Some (m, hs)"
| "run_ops (op # ops) m hs =
     (if allowed op m hs then
        (case exec_op op m hs of None \<Rightarrow> None | Some (m', hs') \<Rightarrow> run_ops ops m' hs')
      else None)"

lemma run_ops_reached:
  "run_ops ops m hs = Some (m', hs') \<Longrightarrow> reached m hs \<Longrightarrow> reached m' hs'"
  by (induction ops arbitrary: m hs) (auto split: if_splits option.splits intro: reached_step)

definition demo_end :: "nat machine \<times> cpu_storage list" where
  "demo_end = the (run_ops demo_ops initial_machine [])"

lemmas machine_defs = initial_machine_def fresh_answer_def from_bytes_storage_def
  uninit_def zeroed_def alloc_layout_def from_size_align_def CPU_ALIGN_def div_ceil_def i64_limit_def
  acquire_def try_acquire_def pool_new_def wrap_def as_bytes_mut_def raw_slice_def new_handle_def
  storage_drop_def inner_drop_def try_release_def saturating_add_usize_def u64_limit_def
  POOL_BYTE_BUDGET_def PER_BUCKET_CAP_def bucket_def

lemma demo_run: "run_ops demo_ops initial_machine [] = Some demo_end"
  "snd demo_end = [\<lparr>cs_inner = 1, cs_len = 3\<rparr>]"
  "abs_store (fst demo_end) 1 = Some (replicate 3 0, 1)"
  "pl_retained (pools (fst demo_end) 0) = 0"
  by (simp_all add: demo_end_def demo_ops_def abs_store_def machine_defs)

lemma demo_reached: "reached (fst demo_end) (snd demo_end)"
  by (rule run_ops_reached[OF _ reached_start, of demo_ops]) (simp add: demo_run(1))

theorem storage_memory_safe_witness:
  "reached (fst demo_end) (snd demo_end) \<and>
   exec_op (OpDrop 0 \<lparr>cs_inner = 1, cs_len = 3\<rparr>) (fst demo_end) (snd demo_end) \<noteq> None \<and>
   pl_retained (pools (fst demo_end) 0) \<le> POOL_BYTE_BUDGET"
proof -
  have "allowed (OpDrop 0 \<lparr>cs_inner = 1, cs_len = 3\<rparr>) (fst demo_end) (snd demo_end)"
    by (simp add: demo_run(2))
  with storage_memory_safe[OF demo_reached] demo_reached show ?thesis by blast
qed

theorem storage_refines_store_witness:
  "as_bytes \<lparr>cs_inner = 1, cs_len = 3\<rparr> (fst demo_end) = Some (replicate 3 0) \<and>
   strong_count \<lparr>cs_inner = 1, cs_len = 3\<rparr> (fst demo_end) = 1"
  using storage_refines_store[OF demo_reached] demo_run(2,3) by simp

end
