(* ===== verification/Tensor.thy ===== *)
theory Tensor
  imports View Storage
begin

text \<open>
  Tensors over shared storage: \<open>tensor_impl.rs\<close>, \<open>version.rs\<close> and \<open>convert.rs\<close> of
  \<open>rustorch-core/src/tensor/\<close>, for CPU tensors.  The heap holds the buffers, at the abstract
  level that theory \<open>Storage\<close> justifies (a list of elements with a strong count), and the
  version counters that a tensor shares with its views.  A buffer also records the element
  type it was written with: the source reinterprets raw bytes, and the theory shows that it
  always does so at that type.

  Elements are values of a type \<open>'v\<close>; their arithmetic and the casts between element types are
  arguments.  An operation returns \<open>None\<close> where the source panics (an \<open>expect\<close>, an index or a
  debug assertion that fails).
\<close>

section \<open>Version counters\<close>

record 'v buffer =
  buf_dtype :: dtype
  buf_data :: "'v list"
  buf_strong :: nat

record 'v theap =
  bufs :: "'v buffer list"
  vers :: "nat list"

text \<open>A counter is an \<open>Arc\<close> to an atomic \<open>u64\<close>; \<open>fetch_add\<close> wraps around.\<close>

definition version_new :: "'v theap \<Rightarrow> nat \<times> 'v theap" where
  "version_new h = (length (vers h), h\<lparr>vers := vers h @ [0]\<rparr>)"

definition current :: "nat \<Rightarrow> 'v theap \<Rightarrow> nat" where
  "current v h = vers h ! v"

definition bump :: "nat \<Rightarrow> 'v theap \<Rightarrow> 'v theap" where
  "bump v h = h\<lparr>vers := (vers h)[v := (vers h ! v + 1) mod u64_limit]\<rparr>"

definition snapshot :: "nat \<Rightarrow> 'v theap \<Rightarrow> nat" where
  "snapshot v h = current v h"

definition has_changed_since :: "nat \<Rightarrow> nat \<Rightarrow> 'v theap \<Rightarrow> bool" where
  "has_changed_since v snap h \<longleftrightarrow> current v h \<noteq> snap"

definition shares_with :: "nat \<Rightarrow> nat \<Rightarrow> bool" where
  "shares_with v w \<longleftrightarrow> v = w"

section \<open>Tensors\<close>

record tensor =
  t_storage :: nat
  t_layout :: layout
  t_version :: nat
  t_requires_grad :: bool
  t_device :: device

text \<open>\<open>SizeOverflow\<close> is no error of the source: it stands for the panic of a product of sizes or strides
  that leaves the machine range.\<close>

datatype tensor_error =
    ShapeDataMismatch nat nat "nat list"
  | ShapeMismatch string "nat list" "nat list"
  | DtypeMismatch string dtype dtype
  | Aliased string
  | StorageFailed storage_error
  | SizeOverflow

abbreviation t_shape :: "tensor \<Rightarrow> shape" where
  "t_shape t \<equiv> lay_shape (t_layout t)"

abbreviation t_dtype :: "tensor \<Rightarrow> dtype" where
  "t_dtype t \<equiv> lay_dtype (t_layout t)"

abbreviation t_numel :: "tensor \<Rightarrow> nat" where
  "t_numel t \<equiv> numel (t_shape t)"

abbreviation t_data :: "tensor \<Rightarrow> 'v theap \<Rightarrow> 'v list" where
  "t_data t h \<equiv> buf_data (bufs h ! t_storage t)"

text \<open>A fresh buffer of \<open>byte_len\<close> bytes, that is of the elements given.  An empty buffer is the
  sentinel and is not allocated.\<close>

definition alloc_buffer :: "dtype \<Rightarrow> nat \<Rightarrow> 'v list \<Rightarrow> 'v theap \<Rightarrow> (storage_error + nat) \<times> 'v theap" where
  "alloc_buffer d byte_len data h =
     (case (if byte_len = 0 then Inr (0, 0) else alloc_layout byte_len) of
        Inl e \<Rightarrow> (Inl e, h)
      | Inr _ \<Rightarrow> (Inr (length (bufs h)),
          h\<lparr>bufs := bufs h @ [\<lparr>buf_dtype = d, buf_data = data, buf_strong = 1\<rparr>]\<rparr>))"

definition fresh_tensor :: "nat \<Rightarrow> shape \<Rightarrow> dtype \<Rightarrow> 'v theap \<Rightarrow> tensor \<times> 'v theap" where
  "fresh_tensor b shape d h =
     (let (v, h') = version_new h in
      (\<lparr>t_storage = b, t_layout = contiguous_layout shape d, t_version = v,
        t_requires_grad = False, t_device = Cpu\<rparr>, h'))"

definition from_vec_typed ::
  "dtype \<Rightarrow> shape \<Rightarrow> 'v list \<Rightarrow> 'v theap \<Rightarrow> (tensor_error + tensor) \<times> 'v theap" where
  "from_vec_typed d shape data h =
     (case numel_u64 shape of
        None \<Rightarrow> (Inl SizeOverflow, h)
      | Some expected \<Rightarrow>
          if length data \<noteq> expected then (Inl (ShapeDataMismatch expected (length data) shape), h)
          else case alloc_buffer d (expected * byte_size d) data h of
            (Inl e, h1) \<Rightarrow> (Inl (StorageFailed e), h1)
          | (Inr b, h1) \<Rightarrow>
              (case layout_contiguous shape d of
                 None \<Rightarrow> (Inl SizeOverflow, h1)
               | Some l \<Rightarrow> let (v, h2) = version_new h1 in
                   (Inr \<lparr>t_storage = b, t_layout = l, t_version = v, t_requires_grad = False, t_device = Cpu\<rparr>, h2)))"

text \<open>
  The same function with exact sizes, for the operations on tensors that exist already: it is what
  \<open>from_vec_typed\<close> computes for a shape whose sizes and strides stay in range (lemma \<open>from_vec_exact\<close>).
\<close>

definition from_vec_sized ::
  "dtype \<Rightarrow> shape \<Rightarrow> 'v list \<Rightarrow> 'v theap \<Rightarrow> (tensor_error + tensor) \<times> 'v theap" where
  "from_vec_sized d shape data h =
     (let expected = numel shape in
      if length data \<noteq> expected then (Inl (ShapeDataMismatch expected (length data) shape), h)
      else case alloc_buffer d (expected * byte_size d) data h of
        (Inl e, h1) \<Rightarrow> (Inl (StorageFailed e), h1)
      | (Inr b, h1) \<Rightarrow> let (t, h2) = fresh_tensor b shape d h1 in (Inr t, h2))"

lemma from_vec_exact: "bulk shape < i64_limit \<Longrightarrow> from_vec_typed d shape data h = from_vec_sized d shape data h"
  by (simp add: from_vec_typed_def from_vec_sized_def numel_u64_bulk layout_contiguous_bulk limit_defs fresh_tensor_def
      Let_def split: sum.splits prod.splits)

definition from_vec :: "shape \<Rightarrow> 'v list \<Rightarrow> 'v theap \<Rightarrow> (tensor_error + tensor) \<times> 'v theap" where
  "from_vec shape data h = from_vec_typed F32 shape data h"

definition from_slice :: "dtype \<Rightarrow> shape \<Rightarrow> 'v list \<Rightarrow> 'v theap \<Rightarrow> (tensor_error + tensor) \<times> 'v theap" where
  "from_slice d shape data h = from_vec_typed d shape data h"

text \<open>\<open>expect\<close> on a result: a panic unless it is \<open>Ok\<close>.\<close>

definition expect_ok :: "('e + 'a) \<times> 's \<Rightarrow> ('a \<times> 's) option" where
  "expect_ok r = (case r of (Inl _, _) \<Rightarrow> None | (Inr x, s) \<Rightarrow> Some (x, s))"

text \<open>\<open>zero\<close> is the element whose bytes are all zero.\<close>

definition zeros_dtype :: "'v \<Rightarrow> shape \<Rightarrow> dtype \<Rightarrow> 'v theap \<Rightarrow> (tensor \<times> 'v theap) option" where
  "zeros_dtype zero shape d h =
     (case numel_u64 shape of
        None \<Rightarrow> None
      | Some n \<Rightarrow>
          (case checked_mul_u64 n (byte_size d) of
             None \<Rightarrow> None
           | Some byte_len \<Rightarrow>
               (case (expect_ok (alloc_buffer d byte_len (replicate n zero) h), layout_contiguous shape d) of
                  (Some (b, h1), Some l) \<Rightarrow> let (v, h2) = version_new h1 in
                    Some (\<lparr>t_storage = b, t_layout = l, t_version = v, t_requires_grad = False, t_device = Cpu\<rparr>, h2)
                | _ \<Rightarrow> None)))"

definition zeros :: "'v \<Rightarrow> shape \<Rightarrow> 'v theap \<Rightarrow> (tensor \<times> 'v theap) option" where
  "zeros zero shape h = zeros_dtype zero shape F32 h"

definition ones :: "'v \<Rightarrow> shape \<Rightarrow> 'v theap \<Rightarrow> (tensor \<times> 'v theap) option" where
  "ones one shape h =
     (case numel_u64 shape of
        None \<Rightarrow> None
      | Some n \<Rightarrow> expect_ok (from_vec_typed F32 shape (replicate n one) h))"

definition scalar :: "'v \<Rightarrow> 'v theap \<Rightarrow> (tensor \<times> 'v theap) option" where
  "scalar v h = expect_ok (from_vec_sized F32 [] [v] h)"

definition from_parts :: "nat \<Rightarrow> layout \<Rightarrow> nat \<Rightarrow> bool \<Rightarrow> tensor" where
  "from_parts b l v rg =
     \<lparr>t_storage = b, t_layout = l, t_version = v, t_requires_grad = rg, t_device = Cpu\<rparr>"

definition tensor_from_storage :: "nat \<Rightarrow> layout \<Rightarrow> 'v theap \<Rightarrow> tensor \<times> 'v theap" where
  "tensor_from_storage b l h = (let (v, h') = version_new h in (from_parts b l v False, h'))"

definition with_device :: "device \<Rightarrow> tensor \<Rightarrow> tensor" where
  "with_device d t = t\<lparr>t_device := d\<rparr>"

definition requires_grad_flag :: "bool \<Rightarrow> tensor \<Rightarrow> tensor" where
  "requires_grad_flag b t = t\<lparr>t_requires_grad := b\<rparr>"

text \<open>Cloning and dropping the \<open>Arc\<close> of a buffer.\<close>

definition share :: "nat \<Rightarrow> 'v theap \<Rightarrow> 'v theap" where
  "share b h = h\<lparr>bufs := (bufs h)[b := (bufs h ! b)\<lparr>buf_strong := buf_strong (bufs h ! b) + 1\<rparr>]\<rparr>"

definition unshare :: "nat \<Rightarrow> 'v theap \<Rightarrow> 'v theap" where
  "unshare b h = h\<lparr>bufs := (bufs h)[b := (bufs h ! b)\<lparr>buf_strong := buf_strong (bufs h ! b) - 1\<rparr>]\<rparr>"

definition clone_tensor :: "tensor \<Rightarrow> 'v theap \<Rightarrow> tensor \<times> 'v theap" where
  "clone_tensor t h = (t, share (t_storage t) h)"

text \<open>A view operation of theory \<open>View\<close> on the tensor: same storage, same counter.\<close>

definition view_tensor :: "tensor \<Rightarrow> view_call \<Rightarrow> 'v theap \<Rightarrow> (view_error + tensor) \<times> 'v theap" where
  "view_tensor t c h =
     (case apply_view (t_layout t) c of
        Inl e \<Rightarrow> (Inl e, h)
      | Inr l \<Rightarrow> (Inr (from_parts (t_storage t) l (t_version t) (t_requires_grad t)),
                  share (t_storage t) h))"

section \<open>Reading\<close>

definition get_elem :: "'v list \<Rightarrow> nat \<Rightarrow> 'v option" where
  "get_elem xs i = (if i < length xs then Some (xs ! i) else None)"

text \<open>\<open>as_slice::<T>\<close>: the inner option is the \<open>None\<close> of the source.\<close>

definition as_slice :: "dtype \<Rightarrow> tensor \<Rightarrow> 'v theap \<Rightarrow> 'v list option option" where
  "as_slice d t h =
     (if t_dtype t \<noteq> d \<or> \<not> contiguous (t_layout t) \<or> storage_offset (t_layout t) \<noteq> 0 then Some None
      else let s = t_data t h in
        if s = [] \<and> t_numel t > 0 then Some None
        else if t_numel t \<le> length s then Some (Some (take (t_numel t) s)) else None)"

definition to_vec :: "dtype \<Rightarrow> tensor \<Rightarrow> 'v theap \<Rightarrow> 'v list option option" where
  "to_vec d t h = as_slice d t h"

definition tensor_data :: "tensor \<Rightarrow> 'v theap \<Rightarrow> 'v list option" where
  "tensor_data t h = (case as_slice F32 t h of Some (Some s) \<Rightarrow> Some s | _ \<Rightarrow> None)"

text \<open>\<open>PartialEq\<close>: \<open>eqv\<close> is the equality of \<open>f32\<close> values.\<close>

definition tensor_eq :: "('v \<Rightarrow> 'v \<Rightarrow> bool) \<Rightarrow> tensor \<Rightarrow> tensor \<Rightarrow> 'v theap \<Rightarrow> bool option" where
  "tensor_eq eqv a b h =
     (if t_shape a \<noteq> t_shape b \<or> t_dtype a \<noteq> t_dtype b then Some False
      else case (as_slice F32 a h, as_slice F32 b h) of
        (None, _) \<Rightarrow> None
      | (_, None) \<Rightarrow> None
      | (Some (Some x), Some (Some y)) \<Rightarrow> Some (list_all2 eqv x y)
      | _ \<Rightarrow> Some False)"

record 'v shape_iter =
  si_data :: "'v list"
  si_shape :: shape
  si_strides :: strides
  si_offset :: nat
  si_index :: nat
  si_numel :: nat

definition iter_elements :: "dtype \<Rightarrow> tensor \<Rightarrow> 'v theap \<Rightarrow> 'v shape_iter option" where
  "iter_elements d t h =
     (if t_dtype t \<noteq> d then None
      else Some \<lparr>si_data = t_data t h, si_shape = t_shape t, si_strides = lay_strides (t_layout t),
                 si_offset = storage_offset (t_layout t), si_index = 0, si_numel = t_numel t\<rparr>)"

text \<open>\<open>ShapeIter::next\<close>: the outer option is the panic of an index out of range.\<close>

definition shape_iter_next :: "'v shape_iter \<Rightarrow> ('v \<times> 'v shape_iter) option option" where
  "shape_iter_next it =
     (if si_index it \<ge> si_numel it then Some None
      else case get_elem (si_data it)
              (strided_index (si_index it) (si_shape it) (si_strides it) (si_offset it)) of
        None \<Rightarrow> None
      | Some v \<Rightarrow> Some (Some (v, it\<lparr>si_index := si_index it + 1\<rparr>)))"

function collect_iter :: "'v shape_iter \<Rightarrow> 'v list option" where
  "collect_iter it =
     (case shape_iter_next it of
        None \<Rightarrow> None
      | Some None \<Rightarrow> Some []
      | Some (Some (v, it')) \<Rightarrow> map_option ((#) v) (collect_iter it'))"
  by pat_completeness auto
termination
  by (relation "measure (\<lambda>it. si_numel it - si_index it)")
    (auto simp: shape_iter_next_def split: if_splits option.splits)

declare collect_iter.simps [simp del]

definition copy_to_contiguous :: "dtype \<Rightarrow> tensor \<Rightarrow> 'v theap \<Rightarrow> (tensor \<times> 'v theap) option" where
  "copy_to_contiguous d src h =
     (case iter_elements d src h of
        None \<Rightarrow> None
      | Some it \<Rightarrow>
          (case collect_iter it of
             None \<Rightarrow> None
           | Some collected \<Rightarrow> expect_ok (from_vec_sized d (t_shape src) collected h)))"

text \<open>The match on the element type instantiates \<open>copy_to_contiguous\<close> at that type.\<close>

definition contiguous_tensor :: "tensor \<Rightarrow> 'v theap \<Rightarrow> (tensor \<times> 'v theap) option" where
  "contiguous_tensor t h =
     (if contiguous (t_layout t) \<and> storage_offset (t_layout t) = 0 then Some (clone_tensor t h)
      else copy_to_contiguous (t_dtype t) t h)"

section \<open>Casts\<close>

text \<open>The conversions of single elements: to \<open>f64\<close>, and from \<open>f64\<close> to each type.\<close>

record 'v casts =
  c_to_f64 :: "dtype \<Rightarrow> 'v \<Rightarrow> 'v"
  c_of_f64 :: "dtype \<Rightarrow> 'v \<Rightarrow> 'v"
  c_nonzero :: "'v \<Rightarrow> bool"
  c_true :: "'v \<Rightarrow> bool"
  c_bool :: "bool \<Rightarrow> 'v"
  c_one :: 'v
  c_zero :: 'v

definition cast_from_f64 :: "'v casts \<Rightarrow> shape \<Rightarrow> 'v list \<Rightarrow> dtype \<Rightarrow> 'v theap \<Rightarrow> (tensor \<times> 'v theap) option" where
  "cast_from_f64 c shape src target h =
     expect_ok (from_vec_sized target shape
       (case target of
          F64 \<Rightarrow> src
        | Bool \<Rightarrow> map (\<lambda>x. c_bool c (c_nonzero c x)) src
        | d \<Rightarrow> map (c_of_f64 c d) src) h)"

definition cast_via_f64 :: "'v casts \<Rightarrow> dtype \<Rightarrow> tensor \<Rightarrow> dtype \<Rightarrow> 'v theap \<Rightarrow> (tensor \<times> 'v theap) option" where
  "cast_via_f64 c d src target h =
     (case iter_elements d src h of
        None \<Rightarrow> None
      | Some it \<Rightarrow>
          (case collect_iter it of
             None \<Rightarrow> None
           | Some xs \<Rightarrow> cast_from_f64 c (t_shape src) (map (c_to_f64 c d) xs) target h))"

definition cast_from_bool :: "'v casts \<Rightarrow> tensor \<Rightarrow> dtype \<Rightarrow> 'v theap \<Rightarrow> (tensor \<times> 'v theap) option" where
  "cast_from_bool c src target h =
     (case iter_elements Bool src h of
        None \<Rightarrow> None
      | Some it \<Rightarrow>
          (case collect_iter it of
             None \<Rightarrow> None
           | Some bools \<Rightarrow>
               cast_from_f64 c (t_shape src) (map (\<lambda>b. if c_true c b then c_one c else c_zero c) bools) target h))"

definition to_dtype :: "'v casts \<Rightarrow> tensor \<Rightarrow> dtype \<Rightarrow> 'v theap \<Rightarrow> (tensor \<times> 'v theap) option" where
  "to_dtype c t target h =
     (if t_dtype t = target then Some (clone_tensor t h)
      else case t_dtype t of
        Bool \<Rightarrow> cast_from_bool c t target h
      | d \<Rightarrow> cast_via_f64 c d t target h)"

section \<open>In-place operations\<close>

text \<open>The bytes of the storage when they may be written: it is empty or has one owner.\<close>

definition storage_mut_for_inplace :: "tensor \<Rightarrow> 'v theap \<Rightarrow> 'v list option" where
  "storage_mut_for_inplace t h =
     (let b = bufs h ! t_storage t in
      if buf_data b = [] then Some [] else if buf_strong b = 1 then Some (buf_data b) else None)"

definition set_data_at :: "tensor \<Rightarrow> 'v list \<Rightarrow> 'v theap \<Rightarrow> 'v theap" where
  "set_data_at t xs h =
     h\<lparr>bufs := (bufs h)[t_storage t := (bufs h ! t_storage t)\<lparr>buf_data := xs\<rparr>]\<rparr>"

text \<open>The end of every in-place operation: the new contents, and the counter one up.\<close>

definition commit :: "tensor \<Rightarrow> 'v list \<Rightarrow> 'v theap \<Rightarrow> 'v theap" where
  "commit t xs h = bump (t_version t) (set_data_at t xs h)"

type_synonym 'v inplace_result = "((tensor_error + unit) \<times> 'v theap) option"

text \<open>\<open>par_chunks_mut\<close> zipped with \<open>par_chunks\<close>: the chunks are disjoint, each is updated from its own
  part of the right-hand side.\<close>

function zip_chunks :: "nat \<Rightarrow> ('v \<Rightarrow> 'v \<Rightarrow> 'v) \<Rightarrow> 'v list \<Rightarrow> 'v list \<Rightarrow> 'v list" where
  "zip_chunks c op xs ys =
     (if xs = [] \<or> ys = [] \<or> c = 0 then xs
      else map2 op (take c xs) (take c ys) @ zip_chunks c op (drop c xs) (drop c ys))"
  by pat_completeness auto
termination
  by (relation "measure (\<lambda>(c, op, xs, ys). length xs)") auto

declare zip_chunks.simps [simp del]

definition PARALLEL_MIN :: nat where
  "PARALLEL_MIN = 4000000"

text \<open>The dense update of \<open>n\<close> elements; \<open>threads\<close> is the number of threads of the pool.\<close>

definition dense_update :: "nat \<Rightarrow> ('v \<Rightarrow> 'v \<Rightarrow> 'v) \<Rightarrow> nat \<Rightarrow> 'v list \<Rightarrow> 'v list \<Rightarrow> 'v list" where
  "dense_update threads op n l r =
     (let ld = take n l; rd = take n r in
      (if n \<ge> PARALLEL_MIN then zip_chunks (max (n div max threads 1) (256 * 1024)) op ld rd
       else map2 op ld rd) @ drop n l)"

text \<open>\<open>add_f32_dense_inplace\<close> and the functions of the macro \<open>emit_dense_f32_binary\<close>.\<close>

definition dense_f32_inplace ::
  "nat \<Rightarrow> string \<Rightarrow> ('v \<Rightarrow> 'v \<Rightarrow> 'v) \<Rightarrow> tensor \<Rightarrow> tensor \<Rightarrow> 'v theap \<Rightarrow> 'v inplace_result" where
  "dense_f32_inplace threads op_name op lhs rhs h =
     (let n = t_numel lhs in
      if n = 0 then Some (Inr (), h)
      else if length (t_data rhs h) < n then None
      else case storage_mut_for_inplace lhs h of
        None \<Rightarrow> Some (Inl (Aliased op_name), h)
      | Some raw \<Rightarrow>
          if length raw < n then None
          else Some (Inr (), commit lhs (dense_update threads op n raw (t_data rhs h)) h))"

text \<open>One step of the strided walk.\<close>

definition binary_step ::
  "('v \<Rightarrow> 'v \<Rightarrow> 'v) \<Rightarrow> shape \<Rightarrow> strides \<Rightarrow> nat \<Rightarrow> strides \<Rightarrow> nat \<Rightarrow> 'v list \<Rightarrow> nat \<Rightarrow> 'v list \<Rightarrow> 'v list option" where
  "binary_step op shape ls lo rs ro rhs_raw i raw =
     (let li = strided_index i shape ls lo; ri = strided_index i shape rs ro in
      if li < length raw \<and> ri < length rhs_raw
      then Some (raw[li := op (raw ! li) (rhs_raw ! ri)]) else None)"

definition binary_inplace_typed ::
  "nat \<Rightarrow> string \<Rightarrow> ('v \<Rightarrow> 'v \<Rightarrow> 'v) \<Rightarrow> tensor \<Rightarrow> tensor \<Rightarrow> 'v theap \<Rightarrow> 'v inplace_result" where
  "binary_inplace_typed threads op_name op lhs rhs h =
     (case expand_strides_to (t_shape rhs) (t_shape lhs) of
        Inl _ \<Rightarrow> None
      | Inr rhs_strides \<Rightarrow>
          (case storage_mut_for_inplace lhs h of
             None \<Rightarrow> Some (Inl (Aliased op_name), h)
           | Some raw \<Rightarrow>
               let n = t_numel lhs; rhs_raw = t_data rhs h in
               if storage_offset (t_layout lhs) = 0 \<and> storage_offset (t_layout rhs) = 0
                  \<and> t_shape lhs = t_shape rhs \<and> contiguous (t_layout lhs) \<and> contiguous (t_layout rhs)
                  \<and> length raw \<ge> n \<and> length rhs_raw \<ge> n
               then Some (Inr (), commit lhs (dense_update threads op n raw rhs_raw) h)
               else (case fold_opt (binary_step op (t_shape lhs) (lay_strides (t_layout lhs))
                        (storage_offset (t_layout lhs)) rhs_strides (storage_offset (t_layout rhs)) rhs_raw)
                        [0..<n] raw of
                   None \<Rightarrow> None
                 | Some xs \<Rightarrow> Some (Inr (), commit lhs xs h))))"

text \<open>The operations come in pairs, for \<open>f32\<close> and for \<open>f64\<close> elements.\<close>

definition binary_inplace ::
  "nat \<Rightarrow> string \<Rightarrow> ('v \<Rightarrow> 'v \<Rightarrow> 'v) \<times> ('v \<Rightarrow> 'v \<Rightarrow> 'v) \<Rightarrow> tensor \<Rightarrow> tensor \<Rightarrow> 'v theap \<Rightarrow> 'v inplace_result" where
  "binary_inplace threads op_name ops lhs rhs h =
     (if t_dtype lhs \<noteq> t_dtype rhs then Some (Inl (DtypeMismatch op_name (t_dtype lhs) (t_dtype rhs)), h)
      else case expand_strides_to (t_shape rhs) (t_shape lhs) of
        Inl _ \<Rightarrow> Some (Inl (ShapeMismatch op_name (t_shape lhs) (t_shape rhs)), h)
      | Inr _ \<Rightarrow>
          (case t_dtype lhs of
             F32 \<Rightarrow> binary_inplace_typed threads op_name (fst ops) lhs rhs h
           | F64 \<Rightarrow> binary_inplace_typed threads op_name (snd ops) lhs rhs h
           | d \<Rightarrow> Some (Inl (DtypeMismatch op_name d F32), h)))"

definition dense_f32_pair :: "tensor \<Rightarrow> tensor \<Rightarrow> bool" where
  "dense_f32_pair lhs rhs \<longleftrightarrow> t_dtype lhs = F32 \<and> t_dtype rhs = F32
     \<and> contiguous (t_layout lhs) \<and> contiguous (t_layout rhs)
     \<and> storage_offset (t_layout lhs) = 0 \<and> storage_offset (t_layout rhs) = 0
     \<and> t_shape lhs = t_shape rhs"

record 'v arith =
  ar_add :: "('v \<Rightarrow> 'v \<Rightarrow> 'v) \<times> ('v \<Rightarrow> 'v \<Rightarrow> 'v)"
  ar_sub :: "('v \<Rightarrow> 'v \<Rightarrow> 'v) \<times> ('v \<Rightarrow> 'v \<Rightarrow> 'v)"
  ar_mul :: "('v \<Rightarrow> 'v \<Rightarrow> 'v) \<times> ('v \<Rightarrow> 'v \<Rightarrow> 'v)"
  ar_div :: "('v \<Rightarrow> 'v \<Rightarrow> 'v) \<times> ('v \<Rightarrow> 'v \<Rightarrow> 'v)"
  ar_neg :: "('v \<Rightarrow> 'v) \<times> ('v \<Rightarrow> 'v)"
  ar_abs :: "('v \<Rightarrow> 'v) \<times> ('v \<Rightarrow> 'v)"
  ar_f32 :: "'v \<Rightarrow> 'v"
  ar_zero :: 'v

definition add_inplace :: "'v arith \<Rightarrow> nat \<Rightarrow> tensor \<Rightarrow> tensor \<Rightarrow> 'v theap \<Rightarrow> 'v inplace_result" where
  "add_inplace ar threads lhs rhs h =
     (if dense_f32_pair lhs rhs then dense_f32_inplace threads ''add_'' (fst (ar_add ar)) lhs rhs h
      else binary_inplace threads ''add_'' (ar_add ar) lhs rhs h)"

definition sub_inplace :: "'v arith \<Rightarrow> nat \<Rightarrow> tensor \<Rightarrow> tensor \<Rightarrow> 'v theap \<Rightarrow> 'v inplace_result" where
  "sub_inplace ar threads lhs rhs h =
     (if dense_f32_pair lhs rhs then dense_f32_inplace threads ''sub_'' (fst (ar_sub ar)) lhs rhs h
      else binary_inplace threads ''sub_'' (ar_sub ar) lhs rhs h)"

definition mul_inplace :: "'v arith \<Rightarrow> nat \<Rightarrow> tensor \<Rightarrow> tensor \<Rightarrow> 'v theap \<Rightarrow> 'v inplace_result" where
  "mul_inplace ar threads lhs rhs h =
     (if dense_f32_pair lhs rhs then dense_f32_inplace threads ''mul_'' (fst (ar_mul ar)) lhs rhs h
      else binary_inplace threads ''mul_'' (ar_mul ar) lhs rhs h)"

definition div_inplace :: "'v arith \<Rightarrow> nat \<Rightarrow> tensor \<Rightarrow> tensor \<Rightarrow> 'v theap \<Rightarrow> 'v inplace_result" where
  "div_inplace ar threads lhs rhs h =
     (if dense_f32_pair lhs rhs then dense_f32_inplace threads ''div_'' (fst (ar_div ar)) lhs rhs h
      else binary_inplace threads ''div_'' (ar_div ar) lhs rhs h)"

definition unary_step :: "('v \<Rightarrow> 'v) \<Rightarrow> layout \<Rightarrow> nat \<Rightarrow> 'v list \<Rightarrow> 'v list option" where
  "unary_step op l i raw =
     (let idx = strided_index i (lay_shape l) (lay_strides l) (storage_offset l) in
      if idx < length raw then Some (raw[idx := op (raw ! idx)]) else None)"

text \<open>A strided walk that writes \<open>op\<close> of every element; shared by the unary and the fill loops.\<close>

definition walk_inplace :: "string \<Rightarrow> ('v \<Rightarrow> 'v) \<Rightarrow> tensor \<Rightarrow> 'v list \<Rightarrow> 'v theap \<Rightarrow> 'v inplace_result" where
  "walk_inplace op_name op t raw h =
     (case fold_opt (unary_step op (t_layout t)) [0..<t_numel t] raw of
        None \<Rightarrow> None
      | Some xs \<Rightarrow> Some (Inr (), commit t xs h))"

definition unary_inplace_typed :: "string \<Rightarrow> ('v \<Rightarrow> 'v) \<Rightarrow> tensor \<Rightarrow> 'v theap \<Rightarrow> 'v inplace_result" where
  "unary_inplace_typed op_name op t h =
     (case storage_mut_for_inplace t h of
        None \<Rightarrow> Some (Inl (Aliased op_name), h)
      | Some raw \<Rightarrow>
          let n = t_numel t in
          if storage_offset (t_layout t) = 0 \<and> contiguous (t_layout t) \<and> length raw \<ge> n
          then Some (Inr (), commit t (map op (take n raw) @ drop n raw) h)
          else walk_inplace op_name op t raw h)"

definition unary_inplace :: "string \<Rightarrow> ('v \<Rightarrow> 'v) \<times> ('v \<Rightarrow> 'v) \<Rightarrow> tensor \<Rightarrow> 'v theap \<Rightarrow> 'v inplace_result" where
  "unary_inplace op_name ops t h =
     (case t_dtype t of
        F32 \<Rightarrow> unary_inplace_typed op_name (fst ops) t h
      | F64 \<Rightarrow> unary_inplace_typed op_name (snd ops) t h
      | d \<Rightarrow> Some (Inl (DtypeMismatch op_name d F32), h))"

definition neg_inplace :: "'v arith \<Rightarrow> tensor \<Rightarrow> 'v theap \<Rightarrow> 'v inplace_result" where
  "neg_inplace ar t h = unary_inplace ''neg_'' (ar_neg ar) t h"

definition abs_inplace :: "'v arith \<Rightarrow> tensor \<Rightarrow> 'v theap \<Rightarrow> 'v inplace_result" where
  "abs_inplace ar t h = unary_inplace ''abs_'' (ar_abs ar) t h"

text \<open>\<open>fill_inplace_f32\<close> and \<open>fill_inplace_f64\<close> differ in the element type only.\<close>

definition fill_inplace_typed :: "'v \<Rightarrow> tensor \<Rightarrow> 'v theap \<Rightarrow> 'v inplace_result" where
  "fill_inplace_typed v t h =
     (case storage_mut_for_inplace t h of
        None \<Rightarrow> Some (Inl (Aliased ''fill_''), h)
      | Some raw \<Rightarrow> walk_inplace ''fill_'' (\<lambda>_. v) t raw h)"

definition fill_inplace :: "'v arith \<Rightarrow> 'v \<Rightarrow> tensor \<Rightarrow> 'v theap \<Rightarrow> 'v inplace_result" where
  "fill_inplace ar v t h =
     (case t_dtype t of
        F32 \<Rightarrow> fill_inplace_typed (ar_f32 ar v) t h
      | F64 \<Rightarrow> fill_inplace_typed v t h
      | d \<Rightarrow> Some (Inl (DtypeMismatch ''fill_'' d F32), h))"

definition zero_inplace :: "'v arith \<Rightarrow> tensor \<Rightarrow> 'v theap \<Rightarrow> 'v inplace_result" where
  "zero_inplace ar t h = fill_inplace ar (ar_zero ar) t h"

definition copy_inplace_typed :: "tensor \<Rightarrow> tensor \<Rightarrow> 'v theap \<Rightarrow> 'v inplace_result" where
  "copy_inplace_typed dst src h =
     (case storage_mut_for_inplace dst h of
        None \<Rightarrow> Some (Inl (Aliased ''copy_''), h)
      | Some raw \<Rightarrow>
          (case fold_opt (binary_step (\<lambda>_ s. s) (t_shape dst) (lay_strides (t_layout dst))
              (storage_offset (t_layout dst)) (lay_strides (t_layout src)) (storage_offset (t_layout src))
              (t_data src h)) [0..<t_numel dst] raw of
             None \<Rightarrow> None
           | Some xs \<Rightarrow> Some (Inr (), commit dst xs h)))"

definition copy_inplace :: "tensor \<Rightarrow> tensor \<Rightarrow> 'v theap \<Rightarrow> 'v inplace_result" where
  "copy_inplace t src h =
     (if t_dtype t \<noteq> t_dtype src then Some (Inl (DtypeMismatch ''copy_'' (t_dtype t) (t_dtype src)), h)
      else if t_shape t \<noteq> t_shape src then Some (Inl (ShapeMismatch ''copy_'' (t_shape t) (t_shape src)), h)
      else case t_dtype t of
        F32 \<Rightarrow> copy_inplace_typed t src h
      | F64 \<Rightarrow> copy_inplace_typed t src h
      | d \<Rightarrow> Some (Inl (DtypeMismatch ''copy_'' d F32), h))"

section \<open>Elements of a tensor\<close>

definition t_elem :: "tensor \<Rightarrow> 'v theap \<Rightarrow> nat list \<Rightarrow> 'v" where
  "t_elem t h cs = t_data t h ! nat (addr (t_layout t) cs)"

definition elems :: "tensor \<Rightarrow> 'v theap \<Rightarrow> 'v list" where
  "elems t h = map (\<lambda>i. t_elem t h (coords_of (t_shape t) i)) [0..<t_numel t]"

lemma length_elems [simp]: "length (elems t h) = t_numel t"
  by (simp add: elems_def)

text \<open>A tensor is well-formed in a heap: its layout addresses its buffer, at the type the buffer has.\<close>

definition fits_memory :: "dtype \<Rightarrow> nat \<Rightarrow> bool" where
  "fits_memory d n \<longleftrightarrow> n = 0 \<or> (case alloc_layout (n * byte_size d) of Inl _ \<Rightarrow> False | Inr _ \<Rightarrow> True)"

lemma fits_memory_iff: "fits_memory d n \<longleftrightarrow> n = 0 \<or> (\<exists>l. alloc_layout (n * byte_size d) = Inr l)"
  by (auto simp: fits_memory_def split: sum.splits)

definition tensor_ok :: "tensor \<Rightarrow> 'v theap \<Rightarrow> bool" where
  "tensor_ok t h \<longleftrightarrow>
     t_storage t < length (bufs h) \<and> t_version t < length (vers h) \<and>
     layout_inv (t_layout t) (length (t_data t h)) \<and>
     t_dtype t = buf_dtype (bufs h ! t_storage t) \<and>
     fits_memory (t_dtype t) (length (t_data t h))"

lemma alloc_layout_mono: "alloc_layout n = Inr l \<Longrightarrow> m \<le> n \<Longrightarrow> \<exists>l'. alloc_layout m = Inr l'"
proof -
  assume n: "alloc_layout n = Inr l" and le: "m \<le> n"
  have "m \<le> div_ceil n CPU_ALIGN * CPU_ALIGN"
    using div_ceil_mult_ge[of CPU_ALIGN n] le by (simp add: CPU_ALIGN_def)
  then have "div_ceil m CPU_ALIGN * CPU_ALIGN \<le> div_ceil n CPU_ALIGN * CPU_ALIGN"
    by (intro div_ceil_mult_least) (simp_all add: CPU_ALIGN_def)
  moreover have "div_ceil n CPU_ALIGN * CPU_ALIGN < i64_limit"
    using n by (auto simp: alloc_layout_def from_size_align_def split: if_splits)
  ultimately have "div_ceil m CPU_ALIGN * CPU_ALIGN < i64_limit" by (rule order.strict_trans1)
  then show ?thesis by (simp add: alloc_layout_def from_size_align_def CPU_ALIGN_def)
qed

lemma fits_memory_mono: "fits_memory d n \<Longrightarrow> m \<le> n \<Longrightarrow> fits_memory d m"
  using alloc_layout_mono[of "n * byte_size d" _ "m * byte_size d"]
  by (auto simp: fits_memory_iff mult_le_mono1)

lemma fits_memory_i64: "fits_memory d n \<Longrightarrow> n < i64_limit"
proof (cases "n = 0")
  case False
  assume "fits_memory d n"
  with False have "div_ceil (n * byte_size d) 64 * 64 < i64_limit"
    by (auto simp: fits_memory_iff alloc_layout_def from_size_align_def CPU_ALIGN_def split: if_splits)
  moreover have "n * byte_size d \<le> div_ceil (n * byte_size d) 64 * 64" by (rule div_ceil_mult_ge) simp
  moreover have "n \<le> n * byte_size d" by (simp add: Suc_leI)
  ultimately show ?thesis by linarith
qed (simp add: limit_defs)

lemma fits_memory_small: "fits_memory d n \<Longrightarrow> n < u64_limit"
  using fits_memory_i64[of d n] by (simp add: limit_defs)

text \<open>An injective layout has no more elements than the buffer behind its offset.\<close>

lemma layout_numel_le:
  assumes inv: "layout_inv l n" and pos: "0 < numel (lay_shape l)"
  shows "storage_offset l + numel (lay_shape l) \<le> n"
proof -
  let ?f = "\<lambda>i. strided_index i (lay_shape l) (lay_strides l) (storage_offset l)"
  have "?f i \<in> {storage_offset l..<n}" if "i < numel (lay_shape l)" for i
  proof -
    have "0 \<le> dot (coords_of (lay_shape l) i) (lay_strides l)"
      using inv valid_coords_of_less[OF that] by (simp add: layout_inv_def)
    then have "storage_offset l \<le> nat (addr l (coords_of (lay_shape l) i))" by (simp add: addr_def)
    with strided_index_addr[OF inv that] show ?thesis by simp
  qed
  then have "?f ` {..<numel (lay_shape l)} \<subseteq> {storage_offset l..<n}" by auto
  from card_inj_on_le[OF strided_index_inj[OF inv] this] have "numel (lay_shape l) \<le> n - storage_offset l"
    by simp
  with pos show ?thesis by simp
qed

lemma numel_le_data: "tensor_ok t h \<Longrightarrow> t_numel t \<le> length (t_data t h)"
  using layout_numel_le[of "t_layout t" "length (t_data t h)"] by (cases "t_numel t = 0") (auto simp: tensor_ok_def)

subsection \<open>Reading\<close>

lemma collect_iter_eq:
  assumes "\<And>i. i < si_numel it \<Longrightarrow>
      strided_index i (si_shape it) (si_strides it) (si_offset it) < length (si_data it)"
  shows "collect_iter it = Some (map (\<lambda>i. si_data it ! strided_index i (si_shape it) (si_strides it) (si_offset it))
           [si_index it..<si_numel it])"
  using assms
proof (induction it rule: collect_iter.induct)
  case (1 it)
  show ?case
  proof (cases "si_index it < si_numel it")
    case True
    let ?it = "it\<lparr>si_index := si_index it + 1\<rparr>"
    let ?v = "si_data it ! strided_index (si_index it) (si_shape it) (si_strides it) (si_offset it)"
    have n: "shape_iter_next it = Some (Some (?v, ?it))"
      using True "1.prems" by (simp add: shape_iter_next_def get_elem_def)
    have "collect_iter ?it = Some (map (\<lambda>i. si_data it ! strided_index i (si_shape it) (si_strides it) (si_offset it))
           [Suc (si_index it)..<si_numel it])"
      using "1.IH"[OF n refl refl] "1.prems" by simp
    then show ?thesis using True by (subst collect_iter.simps) (simp add: n upt_conv_Cons)
  next
    case False
    then show ?thesis by (subst collect_iter.simps) (simp add: shape_iter_next_def)
  qed
qed

lemma iter_elements_collect:
  assumes "tensor_ok t h"
  shows "\<exists>it. iter_elements (t_dtype t) t h = Some it \<and> collect_iter it = Some (elems t h)"
proof -
  have inv: "layout_inv (t_layout t) (length (t_data t h))" using assms by (simp add: tensor_ok_def)
  note ix = strided_index_addr[OF inv]
  let ?it = "\<lparr>si_data = t_data t h, si_shape = t_shape t, si_strides = lay_strides (t_layout t),
     si_offset = storage_offset (t_layout t), si_index = 0, si_numel = t_numel t\<rparr>"
  have "collect_iter ?it = Some (elems t h)"
    using ix by (subst collect_iter_eq) (auto simp: elems_def t_elem_def)
  then show ?thesis by (simp add: iter_elements_def)
qed

lemma expect_from_vec:
  assumes "length data = numel s" "fits_memory d (numel s)"
  shows "expect_ok (from_vec_sized d s data h) =
    Some (\<lparr>t_storage = length (bufs h), t_layout = contiguous_layout s d, t_version = length (vers h),
           t_requires_grad = False, t_device = Cpu\<rparr>,
          h\<lparr>bufs := bufs h @ [\<lparr>buf_dtype = d, buf_data = data, buf_strong = 1\<rparr>], vers := vers h @ [0]\<rparr>)"
proof -
  have "alloc_buffer d (numel s * byte_size d) data h
      = (Inr (length (bufs h)), h\<lparr>bufs := bufs h @ [\<lparr>buf_dtype = d, buf_data = data, buf_strong = 1\<rparr>]\<rparr>)"
    using assms(2) by (auto simp: alloc_buffer_def fits_memory_iff split: sum.splits)
  then show ?thesis
    using assms(1) by (simp add: expect_ok_def from_vec_sized_def fresh_tensor_def version_new_def)
qed

lemma elems_contiguous:
  assumes "t_layout t = contiguous_layout s d" "t_data t h = data" "length data = numel s"
  shows "elems t h = data"
proof (rule nth_equalityI)
  have sh: "t_shape t = s" using assms(1) by (simp add: contiguous_layout_def)
  show "length (elems t h) = length data" by (simp add: sh assms(3))
  fix i assume "i < length (elems t h)"
  then have i: "i < numel s" by (simp add: sh)
  have "addr (t_layout t) (coords_of s i) = int i"
    using i by (simp add: assms(1) addr_contiguous_layout[OF valid_coords_of_less[OF i]] ravel_coords_of numel_prod_list)
  then show "elems t h ! i = data ! i" using i by (simp add: elems_def t_elem_def sh assms(2))
qed

subsection \<open>Writing\<close>

text \<open>
  What a loop \<open>for i in 0..n\<close> that rewrites the element at index \<open>f i\<close> leaves behind, when the
  indices are distinct.
\<close>

definition rewritten :: "(nat \<Rightarrow> nat) \<Rightarrow> (nat \<Rightarrow> 'v \<Rightarrow> 'v) \<Rightarrow> nat \<Rightarrow> 'v list \<Rightarrow> 'v list \<Rightarrow> bool" where
  "rewritten f g n raw xs \<longleftrightarrow> length xs = length raw \<and> (\<forall>i < n. xs ! f i = g i (raw ! f i)) \<and>
     (\<forall>j < length raw. j \<notin> f ` {..<n} \<longrightarrow> xs ! j = raw ! j)"

lemma walk_rewritten:
  assumes inj: "inj_on f {..<n}" and bound: "\<And>i. i < n \<Longrightarrow> f i < length raw"
    and step: "\<And>i xs. i < n \<Longrightarrow> length xs = length raw \<Longrightarrow> stp i xs = Some (xs[f i := g i (xs ! f i)])"
  shows "\<exists>xs. fold_opt stp [0..<n] raw = Some xs \<and> rewritten f g n raw xs"
proof -
  have "\<exists>xs. fold_opt stp [0..<n] raw = Some xs \<and> rewritten f g (length [0..<n]) raw xs"
  proof (rule fold_opt_total[where I = "\<lambda>ys. rewritten f g (length ys) raw"])
    show "rewritten f g (length []) raw raw" by (simp add: rewritten_def)
    fix ys y xs assume xs: "rewritten f g (length ys) raw xs" and "\<exists>zs. [0..<n] = ys @ y # zs"
    then obtain zs where zs: "[0..<n] = ys @ y # zs" by blast
    have len: "length ys < n" using arg_cong[OF zs, of length] by simp
    have "[0..<n] ! length ys = y" unfolding zs by simp
    with len have y: "y = length ys" by simp
    let ?xs = "xs[f y := g y (xs ! f y)]"
    have lx: "length xs = length raw" using xs by (simp add: rewritten_def)
    have ne: "f i \<noteq> f y" if "i < length ys" for i
      using inj_onD[OF inj, of i y] that len by (auto simp: y)
    then have fresh: "f y \<notin> f ` {..<length ys}" by force
    have old: "xs ! f y = raw ! f y" using xs fresh bound[of y] len by (simp add: rewritten_def y)
    have "rewritten f g (length (ys @ [y])) raw ?xs"
      unfolding rewritten_def
    proof (intro conjI allI impI)
      show "length ?xs = length raw" by (simp add: lx)
      fix i assume "i < length (ys @ [y])"
      then consider "i = y" | "i < length ys" by (auto simp: y less_Suc_eq)
      then show "?xs ! f i = g i (raw ! f i)"
      proof cases
        case 1
        then show ?thesis using bound[of y] len lx old by (simp add: y)
      next
        case 2
        with ne[OF 2] xs show ?thesis by (simp add: rewritten_def)
      qed
    next
      fix j assume "j < length raw" "j \<notin> f ` {..<length (ys @ [y])}"
      then show "?xs ! j = raw ! j" using xs by (auto simp: rewritten_def y lessThan_Suc)
    qed
    moreover have "stp y xs = Some ?xs" using step[of y xs] len lx by (simp add: y)
    ultimately show "\<exists>s'. stp y xs = Some s' \<and> rewritten f g (length (ys @ [y])) raw s'" by blast
  qed
  then show ?thesis by simp
qed

lemma rewritten_dense:
  assumes "n \<le> length raw"
  shows "rewritten (\<lambda>i. i) g n raw (map (\<lambda>i. g i (raw ! i)) [0..<n] @ drop n raw)"
  using assms by (auto simp: rewritten_def nth_append)

lemma zip_chunks_eq: "0 < c \<Longrightarrow> length xs = length ys \<Longrightarrow> zip_chunks c op xs ys = map2 op xs ys"
proof (induction c op xs ys rule: zip_chunks.induct)
  case (1 c op xs ys)
  show ?case
  proof (cases "xs = []")
    case True
    with "1.prems" show ?thesis by (subst zip_chunks.simps) simp
  next
    case False
    then have "ys \<noteq> []" using "1.prems"(2) by auto
    have "zip_chunks c op (drop c xs) (drop c ys) = map2 op (drop c xs) (drop c ys)"
      using "1.IH" False \<open>ys \<noteq> []\<close> "1.prems" by simp
    moreover have "map2 op (take c xs) (take c ys) @ map2 op (drop c xs) (drop c ys)
        = map2 op (take c xs @ drop c xs) (take c ys @ drop c ys)"
      using "1.prems"(2) by (subst zip_append) simp_all
    ultimately show ?thesis
      using False \<open>ys \<noteq> []\<close> "1.prems"(1) by (subst zip_chunks.simps) simp
  qed
qed

text \<open>The parallel and the sequential dense loops compute the same.\<close>

lemma dense_update_rewritten:
  assumes "n \<le> length l" "n \<le> length r"
  shows "rewritten (\<lambda>i. i) (\<lambda>i x. op x (r ! i)) n l (dense_update threads op n l r)"
proof -
  have "dense_update threads op n l r = map2 op (take n l) (take n r) @ drop n l"
    using assms by (simp add: dense_update_def Let_def zip_chunks_eq)
  also have "map2 op (take n l) (take n r) = map (\<lambda>i. op (l ! i) (r ! i)) [0..<n]"
    using assms by (intro nth_equalityI) simp_all
  finally show ?thesis using rewritten_dense[OF assms(1), of "\<lambda>i x. op x (r ! i)"] by simp
qed

text \<open>
  The effect of an in-place operation on \<open>t\<close>: the element at every coordinate \<open>cs\<close> becomes \<open>g cs\<close>
  of itself, the rest of the buffer, the other buffers and the counts stay, and the version
  counter of \<open>t\<close> is one up.
\<close>

definition wrote :: "tensor \<Rightarrow> (nat list \<Rightarrow> 'v \<Rightarrow> 'v) \<Rightarrow> 'v theap \<Rightarrow> 'v theap \<Rightarrow> bool" where
  "wrote t g h h' \<longleftrightarrow>
     (\<forall>cs. valid_coords (t_shape t) cs \<longrightarrow> t_elem t h' cs = g cs (t_elem t h cs)) \<and>
     length (t_data t h') = length (t_data t h) \<and>
     (\<forall>j < length (t_data t h). (\<forall>cs. valid_coords (t_shape t) cs \<longrightarrow> nat (addr (t_layout t) cs) \<noteq> j) \<longrightarrow>
        t_data t h' ! j = t_data t h ! j) \<and>
     length (bufs h') = length (bufs h) \<and> (\<forall>b. b \<noteq> t_storage t \<longrightarrow> bufs h' ! b = bufs h ! b) \<and>
     buf_strong (bufs h' ! t_storage t) = buf_strong (bufs h ! t_storage t) \<and>
     buf_dtype (bufs h' ! t_storage t) = buf_dtype (bufs h ! t_storage t) \<and>
     vers h' = (vers h)[t_version t := (vers h ! t_version t + 1) mod u64_limit]"

lemma commit_wrote:
  assumes ok: "tensor_ok t h"
    and rw: "rewritten (\<lambda>i. nat (addr (t_layout t) (coords_of (t_shape t) i)))
      (\<lambda>i. g (coords_of (t_shape t) i)) (t_numel t) (t_data t h) xs"
  shows "wrote t g h (commit t xs h)"
proof -
  let ?s = "t_shape t" and ?h = "commit t xs h"
  have b: "t_storage t < length (bufs h)" using ok by (simp add: tensor_ok_def)
  have d: "t_data t ?h = xs" using b by (simp add: commit_def bump_def set_data_at_def)
  have cs: "cs = coords_of ?s (ravel ?s cs)" "ravel ?s cs < t_numel t" if "valid_coords ?s cs" for cs
    using that by (simp_all add: coords_of_ravel ravel_less numel_prod_list)
  have "t_elem t ?h cs = g cs (t_elem t h cs)" if v: "valid_coords ?s cs" for cs
  proof -
    have "xs ! nat (addr (t_layout t) (coords_of ?s (ravel ?s cs)))
        = g (coords_of ?s (ravel ?s cs)) (t_data t h ! nat (addr (t_layout t) (coords_of ?s (ravel ?s cs))))"
      using rw cs(2)[OF v] by (simp add: rewritten_def)
    then show ?thesis by (simp add: t_elem_def d coords_of_ravel[OF v])
  qed
  moreover have "xs ! j = t_data t h ! j"
    if "j < length (t_data t h)" "\<forall>cs. valid_coords ?s cs \<longrightarrow> nat (addr (t_layout t) cs) \<noteq> j" for j
  proof -
    have "j \<notin> (\<lambda>i. nat (addr (t_layout t) (coords_of ?s i))) ` {..<t_numel t}"
      using that(2) valid_coords_of_less[of _ ?s] by blast
    with rw that(1) show ?thesis by (simp add: rewritten_def)
  qed
  ultimately show ?thesis
    using rw b by (simp add: wrote_def d) (simp add: commit_def bump_def set_data_at_def rewritten_def)
qed

lemma dense_addr:
  assumes "tensor_ok t h" "contiguous (t_layout t)" "storage_offset (t_layout t) = 0" "i < t_numel t"
  shows "nat (addr (t_layout t) (coords_of (t_shape t) i)) = i"
  using addr_contiguous[of "t_layout t" i] assms by (simp add: tensor_ok_def layout_inv_def)

lemma rewritten_cong:
  assumes "\<And>i. i < n \<Longrightarrow> f i = f' i" "\<And>i x. i < n \<Longrightarrow> g i x = g' i x"
  shows "rewritten f g n raw xs \<longleftrightarrow> rewritten f' g' n raw xs"
proof -
  have "f ` {..<n} = f' ` {..<n}" using assms(1) by auto
  then show ?thesis using assms by (auto simp: rewritten_def)
qed

lemma unique_raw:
  assumes "buf_strong (bufs h ! t_storage t) = 1"
  shows "storage_mut_for_inplace t h = Some (t_data t h)"
  using assms by (simp add: storage_mut_for_inplace_def Let_def)

subsection \<open>Binary operations\<close>

text \<open>The index into the right-hand side is in range whatever its strides are, because an injective
  layout with as many elements reaches at least that far.\<close>

lemma rhs_index:
  assumes ok: "tensor_ok rhs h" and st: "expand_strides_to (t_shape rhs) s = Inr st"
    and i: "i < numel s"
  shows "strided_index i s st (storage_offset (t_layout rhs))
      = storage_offset (t_layout rhs) + ravel (t_shape rhs) (project_coords (t_shape rhs) (coords_of s i))"
    and "strided_index i s st (storage_offset (t_layout rhs)) < length (t_data rhs h)"
proof -
  let ?r = "ravel (t_shape rhs) (project_coords (t_shape rhs) (coords_of s i))" and ?o = "storage_offset (t_layout rhs)"
  have v: "valid_coords s (coords_of s i)" using i by (rule valid_coords_of_less)
  note e = expand_strides_addr[OF st v]
  have inv: "layout_inv (t_layout rhs) (length (t_data rhs h))" using ok by (simp add: tensor_ok_def)
  have lt: "?o + ?r < length (t_data rhs h)"
    using layout_numel_le[OF inv] e(3) by simp
  then have "?o + ?r < u64_limit" using layout_inv_small[OF inv] by simp
  then show eq: "strided_index i s st ?o = ?o + ?r"
    using e(1,2) by (simp add: strided_index_dot as_usize_nonneg limit_defs nat_add_distrib)
  show "strided_index i s st ?o < length (t_data rhs h)" using lt eq by simp
qed

text \<open>The element the loop reads from \<open>rhs\<close> for the coordinate \<open>cs\<close> of \<open>lhs\<close>.\<close>

definition rhs_read :: "tensor \<Rightarrow> 'v theap \<Rightarrow> nat list \<Rightarrow> 'v" where
  "rhs_read rhs h cs = t_data rhs h ! (storage_offset (t_layout rhs) + ravel (t_shape rhs) (project_coords (t_shape rhs) cs))"

lemma rhs_read_contiguous:
  assumes ok: "tensor_ok rhs h" and c: "contiguous (t_layout rhs)"
    and st: "expand_strides_to (t_shape rhs) s = Inr st" and v: "valid_coords s cs"
  shows "rhs_read rhs h cs = t_elem rhs h (project_coords (t_shape rhs) cs)"
proof -
  let ?p = "project_coords (t_shape rhs) cs"
  note e = expand_strides_addr[OF st v]
  have "addr (t_layout rhs) (coords_of (t_shape rhs) (ravel (t_shape rhs) ?p))
      = int (storage_offset (t_layout rhs)) + int (ravel (t_shape rhs) ?p)"
    using addr_contiguous[OF _ c e(3)] ok by (simp add: tensor_ok_def layout_inv_def)
  then show ?thesis
    using e(4) by (simp add: rhs_read_def t_elem_def coords_of_ravel nat_add_distrib)
qed

lemma project_coords_self: "valid_coords s cs \<Longrightarrow> project_coords s cs = cs"
  by (rule nth_equalityI) (auto simp: project_coords_def valid_coords_nth)

lemma binary_walk:
  assumes ok: "tensor_ok lhs h" "tensor_ok rhs h" and st: "expand_strides_to (t_shape rhs) (t_shape lhs) = Inr st"
  shows "\<exists>xs. fold_opt (binary_step op (t_shape lhs) (lay_strides (t_layout lhs))
      (storage_offset (t_layout lhs)) st (storage_offset (t_layout rhs)) (t_data rhs h))
      [0..<t_numel lhs] (t_data lhs h) = Some xs \<and>
    wrote lhs (\<lambda>cs x. op x (rhs_read rhs h cs)) h (commit lhs xs h)"
proof -
  let ?f = "\<lambda>i. nat (addr (t_layout lhs) (coords_of (t_shape lhs) i))"
  let ?g = "\<lambda>i x. op x (rhs_read rhs h (coords_of (t_shape lhs) i))"
  have inv: "layout_inv (t_layout lhs) (length (t_data lhs h))" using ok(1) by (simp add: tensor_ok_def)
  note ix = strided_index_addr[OF inv] and rx = rhs_index[OF ok(2) st]
  have "\<exists>xs. fold_opt (binary_step op (t_shape lhs) (lay_strides (t_layout lhs))
      (storage_offset (t_layout lhs)) st (storage_offset (t_layout rhs)) (t_data rhs h))
      [0..<t_numel lhs] (t_data lhs h) = Some xs \<and> rewritten ?f ?g (t_numel lhs) (t_data lhs h) xs"
  proof (rule walk_rewritten)
    show "inj_on ?f {..<t_numel lhs}"
      using strided_index_inj[OF inv] ix(1) by (auto simp: inj_on_def)
    show "?f i < length (t_data lhs h)" if "i < t_numel lhs" for i using ix(2)[OF that] .
    fix i and xs :: "'a list" assume i: "i < t_numel lhs" and l: "length xs = length (t_data lhs h)"
    show "binary_step op (t_shape lhs) (lay_strides (t_layout lhs)) (storage_offset (t_layout lhs)) st
        (storage_offset (t_layout rhs)) (t_data rhs h) i xs = Some (xs[?f i := ?g i (xs ! ?f i)])"
      using ix[OF i] rx[OF i] l by (simp add: binary_step_def Let_def rhs_read_def)
  qed
  then show ?thesis
    using commit_wrote[OF ok(1), where g = "\<lambda>cs x. op x (rhs_read rhs h cs)"] by blast
qed

lemma dense_wrote:
  assumes ok: "tensor_ok lhs h" "tensor_ok rhs h"
    and c: "contiguous (t_layout lhs)" "storage_offset (t_layout lhs) = 0" "storage_offset (t_layout rhs) = 0"
    and s: "t_shape lhs = t_shape rhs"
  shows "wrote lhs (\<lambda>cs x. op x (rhs_read rhs h cs)) h
    (commit lhs (dense_update threads op (t_numel lhs) (t_data lhs h) (t_data rhs h)) h)"
proof (rule commit_wrote[OF ok(1)])
  have le: "t_numel lhs \<le> length (t_data lhs h)" "t_numel lhs \<le> length (t_data rhs h)"
    using numel_le_data[OF ok(1)] numel_le_data[OF ok(2)] s by simp_all
  have r: "rhs_read rhs h (coords_of (t_shape lhs) i) = t_data rhs h ! i" if i: "i < t_numel lhs" for i
    using valid_coords_of_less[OF i] i
    by (simp add: rhs_read_def c s[symmetric] project_coords_self ravel_coords_of numel_prod_list)
  show "rewritten (\<lambda>i. nat (addr (t_layout lhs) (coords_of (t_shape lhs) i)))
      (\<lambda>i x. op x (rhs_read rhs h (coords_of (t_shape lhs) i))) (t_numel lhs) (t_data lhs h)
      (dense_update threads op (t_numel lhs) (t_data lhs h) (t_data rhs h))"
    using dense_update_rewritten[OF le, of op threads] dense_addr[OF ok(1) c(1,2)] r
    by (subst rewritten_cong[where f' = "\<lambda>i. i" and g' = "\<lambda>i x. op x (t_data rhs h ! i)"]) simp_all
qed

lemma binary_typed_wrote:
  assumes ok: "tensor_ok lhs h" "tensor_ok rhs h" and m: "storage_mut_for_inplace lhs h = Some (t_data lhs h)"
    and st: "expand_strides_to (t_shape rhs) (t_shape lhs) = Inr st"
  shows "\<exists>h'. binary_inplace_typed threads name op lhs rhs h = Some (Inr (), h') \<and>
    wrote lhs (\<lambda>cs x. op x (rhs_read rhs h cs)) h h'"
  using binary_walk[OF ok st, of op] dense_wrote[OF ok, of op threads] st
  by (auto simp: binary_inplace_typed_def m Let_def)

lemma dense_f32_wrote:
  assumes ok: "tensor_ok lhs h" "tensor_ok rhs h" and m: "storage_mut_for_inplace lhs h = Some (t_data lhs h)"
    and p: "dense_f32_pair lhs rhs" and n: "0 < t_numel lhs"
  shows "\<exists>h'. dense_f32_inplace threads name op lhs rhs h = Some (Inr (), h') \<and>
    wrote lhs (\<lambda>cs x. op x (rhs_read rhs h cs)) h h'"
  using dense_wrote[OF ok, of op threads] numel_le_data[OF ok(1)] numel_le_data[OF ok(2)] p n
  by (auto simp: dense_f32_inplace_def dense_f32_pair_def m Let_def)

subsection \<open>Unary operations, fill and copy\<close>

lemma unary_walk:
  assumes ok: "tensor_ok t h"
  shows "\<exists>h'. walk_inplace name op t (t_data t h) h = Some (Inr (), h') \<and> wrote t (\<lambda>_. op) h h'"
proof -
  let ?f = "\<lambda>i. nat (addr (t_layout t) (coords_of (t_shape t) i))"
  have inv: "layout_inv (t_layout t) (length (t_data t h))" using ok by (simp add: tensor_ok_def)
  note ix = strided_index_addr[OF inv]
  have "\<exists>xs. fold_opt (unary_step op (t_layout t)) [0..<t_numel t] (t_data t h) = Some xs \<and>
      rewritten ?f (\<lambda>i. op) (t_numel t) (t_data t h) xs"
  proof (rule walk_rewritten)
    show "inj_on ?f {..<t_numel t}" using strided_index_inj[OF inv] ix(1) by (auto simp: inj_on_def)
    show "?f i < length (t_data t h)" if "i < t_numel t" for i using ix(2)[OF that] .
    fix i and xs :: "'a list" assume i: "i < t_numel t" and l: "length xs = length (t_data t h)"
    show "unary_step op (t_layout t) i xs = Some (xs[?f i := op (xs ! ?f i)])"
      using ix[OF i] l by (simp add: unary_step_def Let_def)
  qed
  then show ?thesis
    using commit_wrote[OF ok, where g = "\<lambda>_. op"] by (auto simp: walk_inplace_def)
qed

lemma unary_typed_wrote:
  assumes ok: "tensor_ok t h" and m: "storage_mut_for_inplace t h = Some (t_data t h)"
  shows "\<exists>h'. unary_inplace_typed name op t h = Some (Inr (), h') \<and> wrote t (\<lambda>_. op) h h'"
proof (cases "storage_offset (t_layout t) = 0 \<and> contiguous (t_layout t)")
  case True
  let ?n = "t_numel t" and ?d = "t_data t h"
  have le: "?n \<le> length ?d" by (rule numel_le_data[OF ok])
  have "map op (take ?n ?d) = map (\<lambda>i. op (?d ! i)) [0..<?n]" using le by (intro nth_equalityI) simp_all
  then have "rewritten (\<lambda>i. i) (\<lambda>i. op) ?n ?d (map op (take ?n ?d) @ drop ?n ?d)"
    using rewritten_dense[OF le, of "\<lambda>i. op"] by simp
  then have "rewritten (\<lambda>i. nat (addr (t_layout t) (coords_of (t_shape t) i))) (\<lambda>i. op) ?n ?d
      (map op (take ?n ?d) @ drop ?n ?d)"
    using dense_addr[OF ok] True by (subst rewritten_cong[where f' = "\<lambda>i. i" and g' = "\<lambda>i. op"]) simp_all
  from commit_wrote[OF ok this] True le show ?thesis
    by (auto simp: unary_inplace_typed_def m Let_def)
next
  case False
  with unary_walk[OF ok, of name op] show ?thesis
    by (auto simp: unary_inplace_typed_def m Let_def)
qed

lemma fill_typed_wrote:
  assumes ok: "tensor_ok t h" and m: "storage_mut_for_inplace t h = Some (t_data t h)"
  shows "\<exists>h'. fill_inplace_typed v t h = Some (Inr (), h') \<and> wrote t (\<lambda>_ _. v) h h'"
  using unary_walk[OF ok, of "''fill_''" "\<lambda>_. v"] by (simp add: fill_inplace_typed_def m)

lemma copy_walk:
  assumes ok: "tensor_ok t h" "tensor_ok src h" and s: "t_shape t = t_shape src"
  shows "\<exists>xs. fold_opt (binary_step (\<lambda>_ s. s) (t_shape t) (lay_strides (t_layout t))
      (storage_offset (t_layout t)) (lay_strides (t_layout src)) (storage_offset (t_layout src)) (t_data src h))
      [0..<t_numel t] (t_data t h) = Some xs \<and> wrote t (\<lambda>cs _. t_elem src h cs) h (commit t xs h)"
proof -
  let ?f = "\<lambda>i. nat (addr (t_layout t) (coords_of (t_shape t) i))"
  let ?g = "\<lambda>i _. t_elem src h (coords_of (t_shape t) i)"
  have inv: "layout_inv (t_layout t) (length (t_data t h))" "layout_inv (t_layout src) (length (t_data src h))"
    using ok by (simp_all add: tensor_ok_def)
  note ix = strided_index_addr[OF inv(1)] and sx = strided_index_addr[OF inv(2), folded s]
  have "\<exists>xs. fold_opt (binary_step (\<lambda>_ s. s) (t_shape t) (lay_strides (t_layout t))
      (storage_offset (t_layout t)) (lay_strides (t_layout src)) (storage_offset (t_layout src)) (t_data src h))
      [0..<t_numel t] (t_data t h) = Some xs \<and> rewritten ?f ?g (t_numel t) (t_data t h) xs"
  proof (rule walk_rewritten)
    show "inj_on ?f {..<t_numel t}" using strided_index_inj[OF inv(1)] ix(1) by (auto simp: inj_on_def)
    show "?f i < length (t_data t h)" if "i < t_numel t" for i using ix(2)[OF that] .
    fix i and xs :: "'a list" assume i: "i < t_numel t" and l: "length xs = length (t_data t h)"
    show "binary_step (\<lambda>_ s. s) (t_shape t) (lay_strides (t_layout t)) (storage_offset (t_layout t))
        (lay_strides (t_layout src)) (storage_offset (t_layout src)) (t_data src h) i xs
        = Some (xs[?f i := ?g i (xs ! ?f i)])"
      using ix[OF i] sx[OF i] l by (simp add: binary_step_def Let_def t_elem_def)
  qed
  then show ?thesis using commit_wrote[OF ok(1), where g = "\<lambda>cs _. t_elem src h cs"] by blast
qed

lemma copy_typed_wrote:
  assumes ok: "tensor_ok t h" "tensor_ok src h" and m: "storage_mut_for_inplace t h = Some (t_data t h)"
    and s: "t_shape t = t_shape src"
  shows "\<exists>h'. copy_inplace_typed t src h = Some (Inr (), h') \<and> wrote t (\<lambda>cs _. t_elem src h cs) h h'"
  using copy_walk[OF ok s] by (auto simp: copy_inplace_typed_def m)

subsection \<open>The in-place calls\<close>

text \<open>A call on a tensor; the operand of a binary operation is named by its position in the list of
  live tensors.\<close>

datatype 'v inplace_call =
  IAdd nat | ISub nat | IMul nat | IDiv nat | INeg | IAbs | IFill 'v | IZero | ICopy nat

fun apply_inplace ::
  "'v arith \<Rightarrow> nat \<Rightarrow> 'v inplace_call \<Rightarrow> tensor \<Rightarrow> tensor list \<Rightarrow> 'v theap \<Rightarrow> 'v inplace_result" where
  "apply_inplace ar n (IAdd j) t ts h = add_inplace ar n t (ts ! j) h"
| "apply_inplace ar n (ISub j) t ts h = sub_inplace ar n t (ts ! j) h"
| "apply_inplace ar n (IMul j) t ts h = mul_inplace ar n t (ts ! j) h"
| "apply_inplace ar n (IDiv j) t ts h = div_inplace ar n t (ts ! j) h"
| "apply_inplace ar n INeg t ts h = neg_inplace ar t h"
| "apply_inplace ar n IAbs t ts h = abs_inplace ar t h"
| "apply_inplace ar n (IFill v) t ts h = fill_inplace ar v t h"
| "apply_inplace ar n IZero t ts h = zero_inplace ar t h"
| "apply_inplace ar n (ICopy j) t ts h = copy_inplace t (ts ! j) h"

fun call_operand :: "'v inplace_call \<Rightarrow> nat option" where
  "call_operand (IAdd j) = Some j"
| "call_operand (ISub j) = Some j"
| "call_operand (IMul j) = Some j"
| "call_operand (IDiv j) = Some j"
| "call_operand (ICopy j) = Some j"
| "call_operand _ = None"

lemmas inplace_defs = add_inplace_def sub_inplace_def mul_inplace_def div_inplace_def neg_inplace_def
  abs_inplace_def fill_inplace_def zero_inplace_def copy_inplace_def dense_f32_inplace_def
  binary_inplace_def binary_inplace_typed_def unary_inplace_def unary_inplace_typed_def
  fill_inplace_typed_def copy_inplace_typed_def walk_inplace_def Let_def

lemma inplace_error_heap: "apply_inplace ar n c t ts h = Some (Inl e, h') \<Longrightarrow> h' = h"
  by (cases c) (auto simp: inplace_defs split: if_splits option.splits sum.splits dtype.splits)

lemma inplace_shared:
  assumes "t_data t h \<noteq> []" "buf_strong (bufs h ! t_storage t) \<noteq> 1" "0 < t_numel t"
    "apply_inplace ar n c t ts h = Some (r, h')"
  shows "\<exists>e. r = Inl e"
  using assms
  by (cases c) (auto simp: inplace_defs storage_mut_for_inplace_def split: if_splits option.splits sum.splits dtype.splits)

text \<open>The outcome of a binary call: an error, or the effect of the loop.\<close>

definition outcome_ok :: "tensor \<Rightarrow> 'v theap \<Rightarrow> 'v inplace_result \<Rightarrow> bool" where
  "outcome_ok t h r \<longleftrightarrow>
     (\<exists>e. r = Some (Inl e, h)) \<or> r = Some (Inr (), h) \<or> (\<exists>g h'. r = Some (Inr (), h') \<and> wrote t g h h')"

lemma storage_mut_cases:
  assumes "storage_mut_for_inplace t h = Some raw"
  shows "raw = t_data t h"
  using assms by (auto simp: storage_mut_for_inplace_def Let_def split: if_splits)

lemma unary_outcome:
  assumes ok: "tensor_ok t h"
  shows "outcome_ok t h (unary_inplace name ops t h)"
proof (cases "storage_mut_for_inplace t h")
  case None
  then show ?thesis
    by (auto simp: outcome_ok_def unary_inplace_def unary_inplace_typed_def split: dtype.splits)
next
  case (Some raw)
  with storage_mut_cases have m: "storage_mut_for_inplace t h = Some (t_data t h)" by blast
  from unary_typed_wrote[OF ok m, of name] have "outcome_ok t h (unary_inplace_typed name op t h)" for op
    by (fastforce simp: outcome_ok_def)
  then show ?thesis by (cases "t_dtype t") (simp_all add: unary_inplace_def, auto simp: outcome_ok_def)
qed

lemma fill_outcome:
  assumes ok: "tensor_ok t h"
  shows "outcome_ok t h (fill_inplace ar v t h)"
proof (cases "storage_mut_for_inplace t h")
  case None
  then show ?thesis
    by (auto simp: outcome_ok_def fill_inplace_def fill_inplace_typed_def split: dtype.splits)
next
  case (Some raw)
  with storage_mut_cases have m: "storage_mut_for_inplace t h = Some (t_data t h)" by blast
  from fill_typed_wrote[OF ok m] have "outcome_ok t h (fill_inplace_typed x t h)" for x
    by (fastforce simp: outcome_ok_def)
  then show ?thesis by (cases "t_dtype t") (simp_all add: fill_inplace_def, auto simp: outcome_ok_def)
qed

lemma copy_outcome:
  assumes ok: "tensor_ok t h" "tensor_ok src h"
  shows "outcome_ok t h (copy_inplace t src h)"
proof (cases "t_shape t = t_shape src \<and> storage_mut_for_inplace t h \<noteq> None")
  case False
  then show ?thesis
    by (auto simp: outcome_ok_def copy_inplace_def copy_inplace_typed_def split: dtype.splits)
next
  case True
  with storage_mut_cases have m: "storage_mut_for_inplace t h = Some (t_data t h)" by blast
  from copy_typed_wrote[OF ok m] True have "outcome_ok t h (copy_inplace_typed t src h)"
    by (fastforce simp: outcome_ok_def)
  then show ?thesis using True
    by (cases "t_dtype t") (simp_all add: copy_inplace_def, auto simp: outcome_ok_def)
qed

lemma binary_outcome:
  assumes ok: "tensor_ok lhs h" "tensor_ok rhs h"
  shows "outcome_ok lhs h (binary_inplace n name ops lhs rhs h)"
proof (cases "(\<exists>st. expand_strides_to (t_shape rhs) (t_shape lhs) = Inr st) \<and> storage_mut_for_inplace lhs h \<noteq> None")
  case False
  then show ?thesis
    by (auto simp: outcome_ok_def binary_inplace_def binary_inplace_typed_def split: dtype.splits sum.splits)
next
  case True
  then obtain st where st: "expand_strides_to (t_shape rhs) (t_shape lhs) = Inr st"
    and m: "storage_mut_for_inplace lhs h = Some (t_data lhs h)" using storage_mut_cases by blast
  from binary_typed_wrote[OF ok m st, of n name]
  have "outcome_ok lhs h (binary_inplace_typed n name op lhs rhs h)" for op
    by (fastforce simp: outcome_ok_def)
  then show ?thesis
    by (cases "t_dtype lhs") (simp_all add: binary_inplace_def st, auto simp: outcome_ok_def)
qed

lemma dense_outcome:
  assumes ok: "tensor_ok lhs h" "tensor_ok rhs h" and p: "dense_f32_pair lhs rhs"
  shows "outcome_ok lhs h (dense_f32_inplace n name op lhs rhs h)"
proof (cases "t_numel lhs = 0 \<or> storage_mut_for_inplace lhs h = None")
  case True
  have "t_numel lhs \<le> length (t_data rhs h)"
    using numel_le_data[OF ok(2)] p by (simp add: dense_f32_pair_def)
  with True show ?thesis by (auto simp: outcome_ok_def dense_f32_inplace_def Let_def)
next
  case False
  with storage_mut_cases have m: "storage_mut_for_inplace lhs h = Some (t_data lhs h)" by blast
  from dense_f32_wrote[OF ok m p, of n name op] False show ?thesis
    by (fastforce simp: outcome_ok_def)
qed

lemma apply_inplace_outcome:
  assumes ok: "tensor_ok t h" and arg: "\<And>j. call_operand c = Some j \<Longrightarrow> tensor_ok (ts ! j) h"
  shows "outcome_ok t h (apply_inplace ar n c t ts h)"
  using arg
  by (cases c)
    (simp_all add: add_inplace_def sub_inplace_def mul_inplace_def div_inplace_def neg_inplace_def
      abs_inplace_def zero_inplace_def unary_outcome[OF ok] fill_outcome[OF ok] copy_outcome[OF ok]
      binary_outcome[OF ok] dense_outcome[OF ok])

section \<open>Copies and casts\<close>

lemma contiguous_numel_data: "tensor_ok t h \<Longrightarrow> contiguous (t_layout t) \<Longrightarrow> storage_offset (t_layout t) = 0 \<Longrightarrow>
   as_slice (t_dtype t) t h = Some (Some (elems t h))"
proof -
  assume ok: "tensor_ok t h" and c: "contiguous (t_layout t)" "storage_offset (t_layout t) = 0"
  have le: "t_numel t \<le> length (t_data t h)" by (rule numel_le_data[OF ok])
  have "elems t h = take (t_numel t) (t_data t h)"
    using dense_addr[OF ok c] le by (intro nth_equalityI) (simp_all add: elems_def t_elem_def)
  with c le show ?thesis by (auto simp: as_slice_def Let_def)
qed

lemma share_data [simp]: "t_storage t < length (bufs h) \<Longrightarrow> t_data u (share (t_storage t) h) = t_data u h"
  by (cases "t_storage u = t_storage t") (simp_all add: share_def)

lemma elems_share [simp]: "t_storage t < length (bufs h) \<Longrightarrow> elems u (share (t_storage t) h) = elems u h"
  by (simp add: elems_def t_elem_def)

lemma copy_to_contiguous_correct:
  assumes ok: "tensor_ok t h"
  shows "\<exists>t' h'. copy_to_contiguous (t_dtype t) t h = Some (t', h') \<and>
    t' = \<lparr>t_storage = length (bufs h), t_layout = contiguous_layout (t_shape t) (t_dtype t),
      t_version = length (vers h), t_requires_grad = False, t_device = Cpu\<rparr> \<and>
    h' = h\<lparr>bufs := bufs h @ [\<lparr>buf_dtype = t_dtype t, buf_data = elems t h, buf_strong = 1\<rparr>], vers := vers h @ [0]\<rparr>"
proof -
  have "fits_memory (t_dtype t) (t_numel t)"
    using ok numel_le_data[OF ok] fits_memory_mono by (auto simp: tensor_ok_def)
  with iter_elements_collect[OF ok] expect_from_vec[of "elems t h" "t_shape t" "t_dtype t" h]
  show ?thesis by (auto simp: copy_to_contiguous_def)
qed

text \<open>The value a cast gives for one element.\<close>

definition cast_elem :: "'v casts \<Rightarrow> dtype \<Rightarrow> dtype \<Rightarrow> 'v \<Rightarrow> 'v" where
  "cast_elem c d target x =
     (let y = (if d = Bool then (if c_true c x then c_one c else c_zero c) else c_to_f64 c d x) in
      if target = F64 then y else if target = Bool then c_bool c (c_nonzero c y) else c_of_f64 c target y)"

lemma to_dtype_cast:
  assumes ok: "tensor_ok t h" and ne: "t_dtype t \<noteq> target" and fits: "fits_memory target (t_numel t)"
  shows "to_dtype c t target h =
    Some (\<lparr>t_storage = length (bufs h), t_layout = contiguous_layout (t_shape t) target,
       t_version = length (vers h), t_requires_grad = False, t_device = Cpu\<rparr>,
      h\<lparr>bufs := bufs h @ [\<lparr>buf_dtype = target, buf_data = map (cast_elem c (t_dtype t) target) (elems t h), buf_strong = 1\<rparr>],
        vers := vers h @ [0]\<rparr>)"
proof -
  from iter_elements_collect[OF ok] obtain it where
    it: "iter_elements (t_dtype t) t h = Some it" "collect_iter it = Some (elems t h)" by blast
  have cast: "cast_from_f64 c (t_shape t) (map f (elems t h)) target h =
      Some (\<lparr>t_storage = length (bufs h), t_layout = contiguous_layout (t_shape t) target,
         t_version = length (vers h), t_requires_grad = False, t_device = Cpu\<rparr>,
        h\<lparr>bufs := bufs h @ [\<lparr>buf_dtype = target, buf_data = map (cast_elem c (t_dtype t) target) (elems t h), buf_strong = 1\<rparr>],
          vers := vers h @ [0]\<rparr>)"
    if f: "\<And>x. f x = (if t_dtype t = Bool then (if c_true c x then c_one c else c_zero c) else c_to_f64 c (t_dtype t) x)" for f
    unfolding cast_from_f64_def
    using fits f by (subst expect_from_vec) (auto simp: cast_elem_def Let_def o_def split: dtype.splits)
  show ?thesis
  proof (cases "t_dtype t = Bool")
    case True
    then show ?thesis using it cast ne by (simp add: to_dtype_def cast_from_bool_def)
  next
    case False
    then show ?thesis using it cast ne by (cases "t_dtype t") (simp_all add: to_dtype_def cast_via_f64_def)
  qed
qed

text \<open>
  C29. \<open>contiguous\<close> and \<open>to_dtype\<close> never panic on a well-formed tensor (the cast needs its result to
  be allocatable).  \<open>contiguous\<close> returns a dense tensor that reads the same elements in the
  same order, so that \<open>as_slice\<close> gives them: the tensor itself, sharing storage and version
  counter, when it is dense already, a copy in fresh storage otherwise.  \<open>to_dtype\<close> gives the
  cast of every element through \<open>f64\<close>, also between integers, where the conversion back saturates
  although the source documents truncation (lemma \<open>narrowing_saturates\<close>).
\<close>

theorem contiguous_and_cast_correct:
  assumes ok: "tensor_ok t h"
  shows "(\<exists>t' h'. contiguous_tensor t h = Some (t', h') \<and>
      elems t' h' = elems t h \<and> t_shape t' = t_shape t \<and> t_dtype t' = t_dtype t \<and>
      as_slice (t_dtype t) t' h' = Some (Some (elems t h)) \<and>
      (if contiguous (t_layout t) \<and> storage_offset (t_layout t) = 0
       then t' = t else t_storage t' = length (bufs h) \<and> t_version t' = length (vers h))) \<and>
    (\<forall>c target. t_dtype t \<noteq> target \<and> fits_memory target (t_numel t) \<longrightarrow>
      (\<exists>t' h'. to_dtype c t target h = Some (t', h') \<and> t_shape t' = t_shape t \<and> t_dtype t' = target \<and>
        elems t' h' = map (cast_elem c (t_dtype t) target) (elems t h)))"
proof (intro conjI allI impI)
  have b: "t_storage t < length (bufs h)" using ok by (simp add: tensor_ok_def)
  have dt: "t_dtype (fresh :: tensor) = d \<and> t_shape fresh = s" if "t_layout fresh = contiguous_layout s d" for fresh s d
    using that by (simp add: contiguous_layout_def)
  show "\<exists>t' h'. contiguous_tensor t h = Some (t', h') \<and>
      elems t' h' = elems t h \<and> t_shape t' = t_shape t \<and> t_dtype t' = t_dtype t \<and>
      as_slice (t_dtype t) t' h' = Some (Some (elems t h)) \<and>
      (if contiguous (t_layout t) \<and> storage_offset (t_layout t) = 0
       then t' = t else t_storage t' = length (bufs h) \<and> t_version t' = length (vers h))"
  proof (cases "contiguous (t_layout t) \<and> storage_offset (t_layout t) = 0")
    case True
    then have "as_slice (t_dtype t) t h = Some (Some (elems t h))" using contiguous_numel_data[OF ok] by simp
    then have "as_slice (t_dtype t) t (share (t_storage t) h) = Some (Some (elems t h))"
      unfolding as_slice_def by (simp only: share_data[OF b])
    with True b show ?thesis by (simp add: contiguous_tensor_def clone_tensor_def)
  next
    case False
    from copy_to_contiguous_correct[OF ok] obtain t' h' where r:
      "copy_to_contiguous (t_dtype t) t h = Some (t', h')"
      "t' = \<lparr>t_storage = length (bufs h), t_layout = contiguous_layout (t_shape t) (t_dtype t),
        t_version = length (vers h), t_requires_grad = False, t_device = Cpu\<rparr>"
      "h' = h\<lparr>bufs := bufs h @ [\<lparr>buf_dtype = t_dtype t, buf_data = elems t h, buf_strong = 1\<rparr>], vers := vers h @ [0]\<rparr>"
      by blast
    have l: "t_layout t' = contiguous_layout (t_shape t) (t_dtype t)" and d: "t_data t' h' = elems t h"
      by (simp_all add: r)
    from elems_contiguous[OF l d] have e: "elems t' h' = elems t h" by simp
    have "as_slice (t_dtype t) t' h' = Some (Some (elems t h))"
      using length_elems[of t h]
      by (cases "elems t h") (auto simp: as_slice_def Let_def d, auto simp: r contiguous_layout_def)
    moreover have "contiguous_tensor t h = Some (t', h')"
      unfolding contiguous_tensor_def if_not_P[OF False] by (rule r(1))
    moreover have "t_storage t' = length (bufs h) \<and> t_version t' = length (vers h)" by (simp add: r)
    ultimately show ?thesis unfolding if_not_P[OF False] using e dt[OF l] by blast
  qed
next
  fix c target assume A: "t_dtype t \<noteq> target \<and> fits_memory target (t_numel t)"
  let ?t = "\<lparr>t_storage = length (bufs h), t_layout = contiguous_layout (t_shape t) target,
      t_version = length (vers h), t_requires_grad = False, t_device = Cpu\<rparr>"
  let ?h = "h\<lparr>bufs := bufs h @ [\<lparr>buf_dtype = target, buf_data = map (cast_elem c (t_dtype t) target) (elems t h), buf_strong = 1\<rparr>],
        vers := vers h @ [0]\<rparr>"
  have "elems ?t ?h = map (cast_elem c (t_dtype t) target) (elems t h)"
    by (rule elems_contiguous) simp_all
  with to_dtype_cast[OF ok] A
  show "\<exists>t' h'. to_dtype c t target h = Some (t', h') \<and> t_shape t' = t_shape t \<and> t_dtype t' = target \<and>
        elems t' h' = map (cast_elem c (t_dtype t) target) (elems t h)"
    by (simp add: contiguous_layout_def)
qed

text \<open>The comment on \<open>contiguous\<close> says that it always allocates a fresh version counter; a dense tensor
  is returned with its own.\<close>

lemma contiguous_shares_counter:
  "contiguous (t_layout t) \<Longrightarrow> storage_offset (t_layout t) = 0 \<Longrightarrow>
   \<exists>h'. contiguous_tensor t h = Some (t, h')"
  by (simp add: contiguous_tensor_def clone_tensor_def)

section \<open>Correctness of the in-place operations\<close>

lemma wrote_cong:
  assumes "\<And>cs x. valid_coords (t_shape t) cs \<Longrightarrow> g cs x = g' cs x"
  shows "wrote t g h h' \<longleftrightarrow> wrote t g' h h'"
  using assms by (simp add: wrote_def)

lemma binary_call_wrote:
  assumes ok: "tensor_ok lhs h" "tensor_ok rhs h" and m: "storage_mut_for_inplace lhs h = Some (t_data lhs h)"
    and d: "t_dtype lhs = t_dtype rhs" "t_dtype lhs \<in> {F32, F64}"
    and st: "expand_strides_to (t_shape rhs) (t_shape lhs) = Inr st" and n: "0 < t_numel lhs"
  shows "\<exists>h'. (if dense_f32_pair lhs rhs then dense_f32_inplace threads name (fst ops) lhs rhs h
      else binary_inplace threads name ops lhs rhs h) = Some (Inr (), h') \<and>
    wrote lhs (\<lambda>cs x. (if t_dtype lhs = F32 then fst ops else snd ops) x (rhs_read rhs h cs)) h h'"
proof (cases "dense_f32_pair lhs rhs")
  case True
  then show ?thesis
    using dense_f32_wrote[OF ok m True n, of threads name "fst ops"] by (simp add: dense_f32_pair_def)
next
  case False
  from d(2) show ?thesis
    using False d(1) st binary_typed_wrote[OF ok m st, of threads name "fst ops"]
      binary_typed_wrote[OF ok m st, of threads name "snd ops"]
    by (auto simp: binary_inplace_def)
qed

text \<open>
  The casts between integers are documented as truncating, but they go through \<open>f64\<close>, and the
  conversion back saturates: the \<open>i64\<close> 300 becomes the \<open>i8\<close> 127, where truncation gives 44.
\<close>

definition saturating_casts :: "int casts" where
  "saturating_casts = \<lparr>c_to_f64 = \<lambda>_ x. x,
     c_of_f64 = \<lambda>d x. (case d of I8 \<Rightarrow> max (- 128) (min 127 x) | I32 \<Rightarrow> max (- (2 ^ 31)) (min (2 ^ 31 - 1) x) | _ \<Rightarrow> x),
     c_nonzero = \<lambda>x. x \<noteq> 0, c_true = \<lambda>x. x \<noteq> 0, c_bool = of_bool, c_one = 1, c_zero = 0\<rparr>"

lemma narrowing_saturates:
  "map_option (\<lambda>(t, h). elems t h)
     (to_dtype saturating_casts \<lparr>t_storage = 0, t_layout = contiguous_layout [1] I64, t_version = 0, t_requires_grad = False, t_device = Cpu\<rparr>
        I8 \<lparr>bufs = [\<lparr>buf_dtype = I64, buf_data = [300], buf_strong = 1\<rparr>], vers = [0]\<rparr>) = Some [127]"
  by code_simp


text \<open>
  The other in-place operations, on every layout and with every layout of the source of a
  copy: \<open>neg_\<close> and \<open>abs_\<close> rewrite each element, \<open>fill_\<close> and \<open>zero_\<close> set it, \<open>copy_\<close> takes the
  element of the source at the same coordinate; the rest of the heap stays and the version
  counter goes up by one.
\<close>

theorem unary_fill_copy_correct:
  assumes ok: "tensor_ok t h" and unshared: "buf_strong (bufs h ! t_storage t) = 1" and d: "t_dtype t \<in> {F32, F64}"
  shows "(\<exists>h'. neg_inplace ar t h = Some (Inr (), h') \<and>
      wrote t (\<lambda>_. (if t_dtype t = F32 then fst else snd) (ar_neg ar)) h h') \<and>
    (\<exists>h'. abs_inplace ar t h = Some (Inr (), h') \<and>
      wrote t (\<lambda>_. (if t_dtype t = F32 then fst else snd) (ar_abs ar)) h h') \<and>
    (\<exists>h'. fill_inplace ar v t h = Some (Inr (), h') \<and>
      wrote t (\<lambda>_ _. if t_dtype t = F32 then ar_f32 ar v else v) h h') \<and>
    (\<exists>h'. zero_inplace ar t h = Some (Inr (), h') \<and>
      wrote t (\<lambda>_ _. if t_dtype t = F32 then ar_f32 ar (ar_zero ar) else ar_zero ar) h h') \<and>
    (tensor_ok src h \<and> t_dtype src = t_dtype t \<and> t_shape src = t_shape t \<longrightarrow>
      (\<exists>h'. copy_inplace t src h = Some (Inr (), h') \<and> wrote t (\<lambda>cs _. t_elem src h cs) h h'))"
proof -
  note m = unique_raw[OF unshared]
  have u: "\<exists>h'. unary_inplace name ops t h = Some (Inr (), h') \<and>
      wrote t (\<lambda>_. (if t_dtype t = F32 then fst else snd) ops) h h'" for name ops
    using d unary_typed_wrote[OF ok m, of name] by (auto simp: unary_inplace_def)
  have f: "\<exists>h'. fill_inplace ar w t h = Some (Inr (), h') \<and>
      wrote t (\<lambda>_ _. if t_dtype t = F32 then ar_f32 ar w else w) h h'" for w
    using d fill_typed_wrote[OF ok m] by (auto simp: fill_inplace_def)
  have "\<exists>h'. copy_inplace t src h = Some (Inr (), h') \<and> wrote t (\<lambda>cs _. t_elem src h cs) h h'"
    if "tensor_ok src h" "t_dtype src = t_dtype t" "t_shape src = t_shape t"
    using that d copy_typed_wrote[OF ok _ m, of src] by (auto simp: copy_inplace_def)
  with u f show ?thesis unfolding neg_inplace_def abs_inplace_def zero_inplace_def by blast
qed

text \<open>
  A right-hand side with strides of its own is read as if it were row-major: adding the
  transpose of \<open>[[10, 20], [30, 40]]\<close> to zeros gives \<open>[[10, 20], [30, 40]]\<close> instead of
  \<open>[[10, 30], [20, 40]]\<close>.
\<close>

definition int_arith :: "int arith" where
  "int_arith = \<lparr>ar_add = ((+), (+)), ar_sub = ((-), (-)), ar_mul = ((*), (*)), ar_div = ((div), (div)),
     ar_neg = (uminus, uminus), ar_abs = (abs, abs), ar_f32 = (\<lambda>x. x), ar_zero = 0\<rparr>"

definition two_matrices :: "int theap" where
  "two_matrices = \<lparr>bufs = [\<lparr>buf_dtype = F32, buf_data = [0, 0, 0, 0], buf_strong = 1\<rparr>,
      \<lparr>buf_dtype = F32, buf_data = [10, 20, 30, 40], buf_strong = 1\<rparr>], vers = [0, 0]\<rparr>"

definition matrix_at :: "nat \<Rightarrow> tensor" where
  "matrix_at k = \<lparr>t_storage = k, t_layout = contiguous_layout [2, 2] F32, t_version = k,
     t_requires_grad = False, t_device = Cpu\<rparr>"

definition transposed_at :: "nat \<Rightarrow> tensor" where
  "transposed_at k = (matrix_at k)\<lparr>t_layout :=
     \<lparr>lay_shape = [2, 2], lay_strides = [1, 2], storage_offset = 0, lay_dtype = F32, contiguous = False\<rparr>\<rparr>"

lemma add_ignores_rhs_strides:
  "view_tensor (matrix_at 1) (CallTranspose 0 1) two_matrices = (Inr (transposed_at 1), share 1 two_matrices)"
  "elems (transposed_at 1) two_matrices = [10, 30, 20, 40]"
  "map_option (\<lambda>(r, h'). (r, elems (matrix_at 0) h'))
     (add_inplace int_arith 1 (matrix_at 0) (transposed_at 1) two_matrices) = Some (Inr (), [10, 20, 30, 40])"
  by code_simp+

text \<open>The dense path returns early on an empty tensor, without the step of the version counter that the
  strided path takes.\<close>

lemma empty_add_keeps_version:
  assumes "dense_f32_pair lhs rhs" "t_numel lhs = 0"
  shows "add_inplace ar n lhs rhs h = Some (Inr (), h)"
  using assms by (simp add: add_inplace_def dense_f32_inplace_def)

lemma matrices_ok:
  "tensor_ok (matrix_at 0) two_matrices" "tensor_ok (matrix_at 1) two_matrices"
  "tensor_ok (transposed_at 1) two_matrices"
proof -
  have fits: "fits_memory F32 4"
    by (simp add: fits_memory_iff alloc_layout_def from_size_align_def CPU_ALIGN_def byte_size_def
        div_ceil_def i64_limit_def)
  have inv: "layout_inv (contiguous_layout [2, 2] F32) 4"
    by (rule contiguous_layout_inv) (simp_all add: numel_prod_list limit_defs)
  have tr: "apply_view (contiguous_layout [2, 2] F32) (CallTranspose 0 1)
      = Inr \<lparr>lay_shape = [2, 2], lay_strides = [1, 2], storage_offset = 0, lay_dtype = F32, contiguous = False\<rparr>"
    by code_simp
  have dt: "lay_dtype (contiguous_layout s d) = d" for s d by (simp add: contiguous_layout_def)
  have len: "length (t_data (matrix_at 0) two_matrices) = 4" "length (t_data (matrix_at 1) two_matrices) = 4"
    "length (t_data (transposed_at 1) two_matrices) = 4"
    by (simp_all add: matrix_at_def transposed_at_def two_matrices_def)
  show "tensor_ok (matrix_at 0) two_matrices" "tensor_ok (matrix_at 1) two_matrices"
    unfolding tensor_ok_def len using inv fits by (simp_all add: matrix_at_def two_matrices_def dt)
  show "tensor_ok (transposed_at 1) two_matrices"
    unfolding tensor_ok_def len using apply_view_keeps_inv[OF inv tr] fits
    by (simp add: transposed_at_def matrix_at_def two_matrices_def)
qed

theorem contiguous_and_cast_correct_witness:
  "\<exists>t' h'. contiguous_tensor (transposed_at 1) two_matrices = Some (t', h') \<and>
     as_slice F32 t' h' = Some (Some [10, 30, 20, 40])"
proof -
  have "t_dtype (transposed_at 1) = F32" by (simp add: transposed_at_def)
  with contiguous_and_cast_correct[OF matrices_ok(3)] add_ignores_rhs_strides(2) show ?thesis
    by (metis (no_types))
qed


theorem unary_fill_copy_correct_witness:
  "\<exists>h'. neg_inplace int_arith (matrix_at 0) two_matrices = Some (Inr (), h') \<and>
     wrote (matrix_at 0) (\<lambda>_. uminus) two_matrices h'"
proof -
  have f: "buf_strong (bufs two_matrices ! t_storage (matrix_at 0)) = 1" "t_dtype (matrix_at 0) = F32"
    by (simp_all add: two_matrices_def matrix_at_def contiguous_layout_def)
  have "t_dtype (matrix_at 0) \<in> {F32, F64}" by (simp add: f)
  from unary_fill_copy_correct[OF matrices_ok(1) f(1) this, of int_arith] f(2)
  show ?thesis by (simp add: int_arith_def)
qed

end
