(* ===== verification/Tensor_Programs.thy ===== *)
theory Tensor_Programs
  imports Tensor
begin

text \<open>
  Programs over tensors: sequences of the operations of theory \<open>Tensor\<close> and of the views of
  theory \<open>View\<close>, on the tensors a program holds.  The theory shows that no sequence panics,
  that raw bytes are always read at the type they were written with, that the strong counts
  are the numbers of tensors on each buffer, and that an in-place operation never changes
  what another tensor reads.
\<close>

section \<open>Programs\<close>

datatype 'v tensor_op =
    OFromVec dtype shape "'v list"
  | OZeros shape dtype
  | OClone nat
  | ODrop nat
  | OView nat view_call
  | OContiguous nat
  | OToDtype nat dtype
  | OInplace nat "'v inplace_call"

record 'v env =
  e_arith :: "'v arith"
  e_casts :: "'v casts"
  e_zero :: 'v
  e_threads :: nat

definition push_tensor :: "tensor list \<Rightarrow> tensor \<times> 'v theap \<Rightarrow> 'v theap \<times> tensor list" where
  "push_tensor ts r = (snd r, ts @ [fst r])"

definition remove_nth :: "nat \<Rightarrow> 'a list \<Rightarrow> 'a list" where
  "remove_nth i xs = take i xs @ drop (Suc i) xs"

fun exec_tensor ::
  "'v env \<Rightarrow> 'v tensor_op \<Rightarrow> 'v theap \<Rightarrow> tensor list \<Rightarrow> ('v theap \<times> tensor list) option" where
  "exec_tensor e (OFromVec d s data) h ts =
     (case from_vec_typed d s data h of
        (Inl err, h') \<Rightarrow> if err = SizeOverflow then None else Some (h', ts)
      | (Inr t, h') \<Rightarrow> Some (h', ts @ [t]))"
| "exec_tensor e (OZeros s d) h ts = map_option (push_tensor ts) (zeros_dtype (e_zero e) s d h)"
| "exec_tensor e (OClone i) h ts = Some (push_tensor ts (clone_tensor (ts ! i) h))"
| "exec_tensor e (ODrop i) h ts = Some (unshare (t_storage (ts ! i)) h, remove_nth i ts)"
| "exec_tensor e (OView i c) h ts =
     (case view_tensor (ts ! i) c h of
        (Inl err, h') \<Rightarrow> if err = ViewPanic \<or> err = ViewOverflow then None else Some (h', ts)
      | (Inr t, h') \<Rightarrow> Some (h', ts @ [t]))"
| "exec_tensor e (OContiguous i) h ts = map_option (push_tensor ts) (contiguous_tensor (ts ! i) h)"
| "exec_tensor e (OToDtype i d) h ts = map_option (push_tensor ts) (to_dtype (e_casts e) (ts ! i) d h)"
| "exec_tensor e (OInplace i c) h ts =
     map_option (\<lambda>r. (snd r, ts)) (apply_inplace (e_arith e) (e_threads e) c (ts ! i) ts h)"

text \<open>
  Operands are held by the program, the operand of an in-place call is another tensor than the
  one written (the borrow checker demands it), the results of \<open>zeros\<close> and \<open>to_dtype\<close>,
  which \<open>expect\<close> their allocation, are of a size that can be allocated, and the sizes of the shapes,
  starts and steps that a program asks for stay in the machine range, since the code multiplies
  them without a check.
\<close>

fun allowed_tensor :: "'v tensor_op \<Rightarrow> tensor list \<Rightarrow> bool" where
  "allowed_tensor (OFromVec d s data) ts \<longleftrightarrow> bulk s < i64_limit"
| "allowed_tensor (OZeros s d) ts \<longleftrightarrow> fits_memory d (numel s) \<and> bulk s < i64_limit"
| "allowed_tensor (OClone i) ts \<longleftrightarrow> i < length ts"
| "allowed_tensor (ODrop i) ts \<longleftrightarrow> i < length ts"
| "allowed_tensor (OView i c) ts \<longleftrightarrow> i < length ts \<and> view_in_range (t_layout (ts ! i)) c"
| "allowed_tensor (OContiguous i) ts \<longleftrightarrow> i < length ts"
| "allowed_tensor (OToDtype i d) ts \<longleftrightarrow> i < length ts \<and> fits_memory d (t_numel (ts ! i))"
| "allowed_tensor (OInplace i c) ts \<longleftrightarrow> i < length ts \<and>
     (case call_operand c of None \<Rightarrow> True | Some j \<Rightarrow> j < length ts \<and> j \<noteq> i)"

inductive program_reaches :: "'v env \<Rightarrow> 'v theap \<Rightarrow> tensor list \<Rightarrow> bool" for e where
  pr_start: "program_reaches e \<lparr>bufs = [], vers = []\<rparr> []"
| pr_step: "program_reaches e h ts \<Longrightarrow> allowed_tensor op ts \<Longrightarrow> exec_tensor e op h ts = Some (h', ts') \<Longrightarrow>
    program_reaches e h' ts'"

section \<open>The invariant\<close>

definition users :: "nat \<Rightarrow> tensor list \<Rightarrow> nat" where
  "users b ts = length (filter (\<lambda>t. t_storage t = b) ts)"

definition program_inv :: "'v theap \<Rightarrow> tensor list \<Rightarrow> bool" where
  "program_inv h ts \<longleftrightarrow> (\<forall>t \<in> set ts. tensor_ok t h \<and> bulk (t_shape t) < i64_limit) \<and>
     (\<forall>b < length (bufs h). buf_strong (bufs h ! b) = users b ts)"

lemma program_invI:
  assumes "\<And>t. t \<in> set ts \<Longrightarrow> tensor_ok t h" "\<And>t. t \<in> set ts \<Longrightarrow> bulk (t_shape t) < i64_limit"
    and "\<And>b. b < length (bufs h) \<Longrightarrow> buf_strong (bufs h ! b) = users b ts"
  shows "program_inv h ts"
  using assms by (simp add: program_inv_def)

lemma program_invD:
  assumes "program_inv h ts"
  shows "t \<in> set ts \<Longrightarrow> tensor_ok t h" "t \<in> set ts \<Longrightarrow> bulk (t_shape t) < i64_limit" "b < length (bufs h) \<Longrightarrow> buf_strong (bufs h ! b) = users b ts"
  using assms by (simp_all add: program_inv_def)

lemma users_append [simp]: "users b (ts @ us) = users b ts + users b us"
  by (simp add: users_def)

lemma users_single [simp]: "users b [t] = (if t_storage t = b then 1 else 0)"
  by (simp add: users_def)

lemma users_remove:
  assumes "i < length ts"
  shows "users b ts = users b (remove_nth i ts) + (if t_storage (ts ! i) = b then 1 else 0)"
proof -
  have "ts = take i ts @ [ts ! i] @ drop (Suc i) ts" using assms by (simp add: id_take_nth_drop)
  from arg_cong[OF this, of "users b"] show ?thesis
    unfolding users_append users_single by (simp add: remove_nth_def)
qed

lemma set_remove_nth: "set (remove_nth i ts) \<subseteq> set ts"
  by (auto simp: remove_nth_def dest: in_set_takeD in_set_dropD)

text \<open>Well-formedness depends on the shape of the heap only.\<close>

lemma tensor_ok_cong:
  assumes "tensor_ok t h" "length (bufs h) \<le> length (bufs h')" "length (vers h) \<le> length (vers h')"
    and "length (t_data t h') = length (t_data t h)"
      "buf_dtype (bufs h' ! t_storage t) = buf_dtype (bufs h ! t_storage t)"
  shows "tensor_ok t h'"
  using assms unfolding tensor_ok_def by auto

lemma new_buffer_inv:
  assumes inv: "program_inv h ts" and len: "length data = numel s" and fits: "fits_memory d (numel s)" and small: "bulk s < i64_limit"
  shows "program_inv (h\<lparr>bufs := bufs h @ [\<lparr>buf_dtype = d, buf_data = data, buf_strong = 1\<rparr>], vers := vers h @ [0]\<rparr>)
    (ts @ [\<lparr>t_storage = length (bufs h), t_layout = contiguous_layout s d, t_version = length (vers h),
       t_requires_grad = rg, t_device = dev\<rparr>])"
    (is "program_inv ?h (ts @ [?t])")
proof (rule program_invI)
  have st: "t_storage t < length (bufs h)" if "t \<in> set ts" for t
    using program_invD(1)[OF inv that] by (simp add: tensor_ok_def)
  have none: "users (length (bufs h)) ts = 0"
    using st by (fastforce simp: users_def filter_empty_conv)
  show "tensor_ok t ?h" if "t \<in> set (ts @ [?t])" for t
  proof (cases "t \<in> set ts")
    case True
    show ?thesis by (rule tensor_ok_cong[OF program_invD(1)[OF inv True]]) (simp_all add: st[OF True] nth_append)
  next
    case False
    with that have t: "t = ?t" by simp
    have "layout_inv (contiguous_layout s d) (length data)"
      using fits_memory_i64[OF fits] by (intro contiguous_layout_inv) (simp_all add: len)
    then show ?thesis using fits by (simp add: t tensor_ok_def len) (simp add: contiguous_layout_def)
  qed
  show "bulk (t_shape t) < i64_limit" if "t \<in> set (ts @ [?t])" for t
    using that program_invD(2)[OF inv] small by (auto simp: contiguous_layout_def)
  show "buf_strong (bufs ?h ! b) = users b (ts @ [?t])" if "b < length (bufs ?h)" for b
    using that program_invD(3)[OF inv, of b] none by (auto simp: nth_append less_Suc_eq)
qed

lemma share_inv:
  assumes inv: "program_inv h ts" and i: "i < length ts"
    and t: "t_storage t = t_storage (ts ! i)" "t_version t = t_version (ts ! i)"
      "layout_inv (t_layout t) (length (t_data (ts ! i) h))" "t_dtype t = t_dtype (ts ! i)"
      "bulk (t_shape t) < i64_limit"
  shows "program_inv (share (t_storage (ts ! i)) h) (ts @ [t])"
proof (rule program_invI)
  let ?b = "t_storage (ts ! i)" and ?h = "share (t_storage (ts ! i)) h"
  have ok: "tensor_ok (ts ! i) h" using program_invD(1)[OF inv] i by simp
  then have b: "?b < length (bufs h)" by (simp add: tensor_ok_def)
  have same: "length (bufs ?h) = length (bufs h)" "vers ?h = vers h"
    "t_data u ?h = t_data u h" "buf_dtype (bufs ?h ! t_storage u) = buf_dtype (bufs h ! t_storage u)" for u
    using b by (simp_all add: share_def nth_list_update)
  show "tensor_ok u ?h" if "u \<in> set (ts @ [t])" for u
  proof (cases "u \<in> set ts")
    case True
    show ?thesis by (rule tensor_ok_cong[OF program_invD(1)[OF inv True]]) (simp_all add: same)
  next
    case False
    with that have u: "u = t" by simp
    have "tensor_ok t h" using ok t unfolding tensor_ok_def by auto
    then show ?thesis unfolding u by (rule tensor_ok_cong) (simp_all add: same)
  qed
  show "bulk (t_shape u) < i64_limit" if "u \<in> set (ts @ [t])" for u
    using that program_invD(2)[OF inv] t(5) by auto
  show "buf_strong (bufs ?h ! k) = users k (ts @ [t])" if "k < length (bufs ?h)" for k
    using that b program_invD(3)[OF inv, of k] t(1) by (auto simp: share_def nth_list_update)
qed

lemma unshare_inv:
  assumes inv: "program_inv h ts" and i: "i < length ts"
  shows "program_inv (unshare (t_storage (ts ! i)) h) (remove_nth i ts)"
proof (rule program_invI)
  let ?b = "t_storage (ts ! i)" and ?h = "unshare (t_storage (ts ! i)) h"
  have b: "?b < length (bufs h)" using program_invD(1)[OF inv, of "ts ! i"] i by (simp add: tensor_ok_def)
  have same: "length (bufs ?h) = length (bufs h)" "vers ?h = vers h"
    "t_data u ?h = t_data u h" "buf_dtype (bufs ?h ! t_storage u) = buf_dtype (bufs h ! t_storage u)" for u
    using b by (simp_all add: unshare_def nth_list_update)
  show "tensor_ok u ?h" if "u \<in> set (remove_nth i ts)" for u
    using that set_remove_nth[of i ts]
    by (intro tensor_ok_cong[OF program_invD(1)[OF inv]]) (auto simp: same)
  show "bulk (t_shape u) < i64_limit" if "u \<in> set (remove_nth i ts)" for u
    using that set_remove_nth[of i ts] program_invD(2)[OF inv] by auto
  show "buf_strong (bufs ?h ! k) = users k (remove_nth i ts)" if "k < length (bufs ?h)" for k
    using that b program_invD(3)[OF inv, of k] users_remove[OF i, of k]
    by (auto simp: unshare_def nth_list_update)
qed

lemma wrote_inv:
  assumes inv: "program_inv h ts" and i: "i < length ts" and w: "wrote (ts ! i) g h h'"
  shows "program_inv h' ts"
proof (rule program_invI)
  have len: "length (t_data u h') = length (t_data u h)"
    and dt: "buf_dtype (bufs h' ! t_storage u) = buf_dtype (bufs h ! t_storage u)" for u
    using w by (cases "t_storage u = t_storage (ts ! i)"; simp add: wrote_def)+
  have sz: "length (bufs h') = length (bufs h)" "length (vers h') = length (vers h)"
    using w by (simp_all add: wrote_def)
  show "tensor_ok u h'" if "u \<in> set ts" for u
    using len[of u] dt[of u] sz by (intro tensor_ok_cong[OF program_invD(1)[OF inv that]]) simp_all
  show "bulk (t_shape u) < i64_limit" if "u \<in> set ts" for u by (rule program_invD(2)[OF inv that])
  show "buf_strong (bufs h' ! b) = users b ts" if "b < length (bufs h')" for b
    using that program_invD(3)[OF inv, of b] w by (cases "b = t_storage (ts ! i)") (simp_all add: wrote_def)
qed

lemma inplace_outcome:
  assumes inv: "program_inv h ts" and op: "allowed_tensor (OInplace i c) ts"
  shows "outcome_ok (ts ! i) h (apply_inplace ar n c (ts ! i) ts h)"
proof (rule apply_inplace_outcome)
  show "tensor_ok (ts ! i) h" using op program_invD(1)[OF inv] by simp
  show "tensor_ok (ts ! j) h" if "call_operand c = Some j" for j
    using op program_invD(1)[OF inv] that by simp
qed

lemma apply_view_dtype: "apply_view l c = Inr l' \<Longrightarrow> lay_dtype l' = lay_dtype l"
proof (cases c)
  case (CallView s)
  moreover assume "apply_view l c = Inr l'"
  ultimately show ?thesis using view_Inr[of l s l'] layout_contiguous_Some by auto
next
  case (CallReshape s)
  moreover assume "apply_view l c = Inr l'"
  ultimately show ?thesis using view_Inr[of l s l'] layout_contiguous_Some by (auto simp: reshape_view)
qed (auto simp: transpose_axes_def permute_def unsqueeze_def squeeze_def narrow_def slice_def Let_def
      expect_layout_def from_strides_def split: if_splits option.splits)

lemma fits_memory_oversize:
  assumes "\<not> fits_memory d (numel s)" "length data = numel s"
  shows "\<exists>e. from_vec_sized d s data h = (Inl e, h)"
proof -
  from assms(1) have "numel s \<noteq> 0" "\<And>l. alloc_layout (numel s * byte_size d) \<noteq> Inr l"
    by (auto simp: fits_memory_iff)
  then obtain e where "alloc_layout (numel s * byte_size d) = Inl e" "numel s * byte_size d \<noteq> 0"
    using byte_size_pos[of d] by (cases "alloc_layout (numel s * byte_size d)") auto
  with assms(2) show ?thesis by (simp add: from_vec_sized_def alloc_buffer_def Let_def)
qed

lemma from_vec_cases:
  obtains e where "from_vec_sized d s data h = (Inl e, h)"
    | "length data = numel s" "fits_memory d (numel s)"
      "from_vec_sized d s data h = (Inr \<lparr>t_storage = length (bufs h), t_layout = contiguous_layout s d,
         t_version = length (vers h), t_requires_grad = False, t_device = Cpu\<rparr>,
        h\<lparr>bufs := bufs h @ [\<lparr>buf_dtype = d, buf_data = data, buf_strong = 1\<rparr>], vers := vers h @ [0]\<rparr>)"
proof (cases "length data = numel s \<and> fits_memory d (numel s)")
  case True
  with expect_from_vec[of data s d h] that(2) show thesis
    by (auto simp: expect_ok_def split: sum.splits prod.splits)
next
  case False
  then have "\<exists>e. from_vec_sized d s data h = (Inl e, h)"
    using fits_memory_oversize[of d s data h] by (cases "length data = numel s")
      (auto simp: from_vec_sized_def Let_def)
  with that(1) show thesis by blast
qed

lemma zeros_dtype_eq:
  assumes "fits_memory d (numel s)" "bulk s < i64_limit"
  shows "zeros_dtype z s d h = expect_ok (from_vec_sized d s (replicate (numel s) z) h)"
proof -
  have "numel s * byte_size d < u64_limit"
  proof (cases "numel s = 0")
    case False
    then have "div_ceil (numel s * byte_size d) 64 * 64 < i64_limit"
      using assms(1) by (auto simp: fits_memory_iff alloc_layout_def from_size_align_def CPU_ALIGN_def split: if_splits)
    moreover have "numel s * byte_size d \<le> div_ceil (numel s * byte_size d) 64 * 64" by (rule div_ceil_mult_ge) simp
    moreover have "i64_limit < u64_limit" by (simp add: limit_defs)
    ultimately show ?thesis by linarith
  qed simp
  moreover have "bulk s < u64_limit" using assms(2) by (simp add: limit_defs)
  ultimately show ?thesis
    using assms by (auto simp: zeros_dtype_def numel_u64_bulk layout_contiguous_bulk checked_mul_u64_def from_vec_sized_def
        fresh_tensor_def expect_ok_def Let_def alloc_buffer_def fits_memory_iff split: sum.splits prod.splits)
qed

lemma exec_tensor_inv:
  assumes inv: "program_inv h ts" and op: "allowed_tensor op ts"
  shows "\<exists>h' ts'. exec_tensor e op h ts = Some (h', ts') \<and> program_inv h' ts'"
proof (cases op)
  case (OFromVec d s data)
  then have small: "bulk s < i64_limit" using op by simp
  have "err \<noteq> SizeOverflow" if "from_vec_sized d s data h = (Inl err, h')" for err h'
    using that by (auto simp: from_vec_sized_def Let_def split: if_splits sum.splits prod.splits)
  note ok = this
  show ?thesis
    by (rule from_vec_cases[of d s data h])
      (use ok inv new_buffer_inv[OF inv] small in \<open>auto simp: OFromVec from_vec_exact\<close>)
next
  case (OZeros s d)
  with op have f: "fits_memory d (numel s)" "bulk s < i64_limit" by simp_all
  show ?thesis
    using new_buffer_inv[OF inv, of "replicate (numel s) (e_zero e)" s d] f
    by (simp add: OZeros zeros_dtype_eq[OF f] expect_from_vec push_tensor_def)
next
  case (OClone i)
  with op have i: "i < length ts" by simp
  then have "layout_inv (t_layout (ts ! i)) (length (t_data (ts ! i) h))"
    using program_invD(1)[OF inv, of "ts ! i"] by (simp add: tensor_ok_def)
  with share_inv[OF inv i, of "ts ! i"] program_invD(2)[OF inv, of "ts ! i"] i show ?thesis by (simp add: OClone push_tensor_def clone_tensor_def)
next
  case (ODrop i)
  with op unshare_inv[OF inv, of i] show ?thesis by simp
next
  case (OView i c)
  with op have i: "i < length ts" and c: "view_in_range (t_layout (ts ! i)) c" by simp_all
  have l: "layout_inv (t_layout (ts ! i)) (length (t_data (ts ! i) h))"
    using program_invD(1)[OF inv, of "ts ! i"] i by (simp add: tensor_ok_def)
  have small: "bulk (t_shape (ts ! i)) < i64_limit" using program_invD(2)[OF inv, of "ts ! i"] i by simp
  have wf: "wf_layout (t_layout (ts ! i))" using l by (simp add: layout_inv_def)
  show ?thesis
  proof (cases "apply_view (t_layout (ts ! i)) c")
    case (Inl err)
    with apply_view_no_panic[OF wf, of c] apply_view_no_overflow[OF small c] inv show ?thesis
      by (auto simp: OView view_tensor_def)
  next
    case (Inr l')
    from apply_view_keeps_inv[OF l Inr] apply_view_dtype[OF Inr] apply_view_bulk[OF wf Inr small c]
      share_inv[OF inv i, of "from_parts (t_storage (ts ! i)) l' (t_version (ts ! i)) (t_requires_grad (ts ! i))"]
    show ?thesis by (simp add: OView view_tensor_def Inr from_parts_def)
  qed
next
  case (OContiguous i)
  with op have i: "i < length ts" by simp
  have ok: "tensor_ok (ts ! i) h" using program_invD(1)[OF inv] i by simp
  show ?thesis
  proof (cases "contiguous (t_layout (ts ! i)) \<and> storage_offset (t_layout (ts ! i)) = 0")
    case True
    have "layout_inv (t_layout (ts ! i)) (length (t_data (ts ! i) h))" using ok by (simp add: tensor_ok_def)
    with share_inv[OF inv i, of "ts ! i"] program_invD(2)[OF inv, of "ts ! i"] i True show ?thesis
      by (simp add: OContiguous contiguous_tensor_def clone_tensor_def push_tensor_def)
  next
    case False
    have "fits_memory (t_dtype (ts ! i)) (t_numel (ts ! i))"
      using ok numel_le_data[OF ok] fits_memory_mono by (auto simp: tensor_ok_def)
    from new_buffer_inv[OF inv length_elems this program_invD(2)[OF inv nth_mem[OF i]]] copy_to_contiguous_correct[OF ok]
    show ?thesis
      unfolding OContiguous exec_tensor.simps contiguous_tensor_def if_not_P[OF False]
      by (auto simp: push_tensor_def)
  qed
next
  case (OToDtype i d)
  with op have i: "i < length ts" and f: "fits_memory d (t_numel (ts ! i))" by simp_all
  have ok: "tensor_ok (ts ! i) h" using program_invD(1)[OF inv] i by simp
  show ?thesis
  proof (cases "t_dtype (ts ! i) = d")
    case True
    have "layout_inv (t_layout (ts ! i)) (length (t_data (ts ! i) h))" using ok by (simp add: tensor_ok_def)
    with share_inv[OF inv i, of "ts ! i"] program_invD(2)[OF inv, of "ts ! i"] i True show ?thesis
      by (simp add: OToDtype to_dtype_def clone_tensor_def push_tensor_def)
  next
    case False
    from new_buffer_inv[OF inv _ f program_invD(2)[OF inv nth_mem[OF i]], of "map (cast_elem (e_casts e) (t_dtype (ts ! i)) d) (elems (ts ! i) h)"]
    show ?thesis by (simp add: OToDtype to_dtype_cast[OF ok False f] push_tensor_def)
  qed
next
  case (OInplace i c)
  with op have i: "i < length ts" by simp
  from inplace_outcome[OF inv, of i c "e_arith e" "e_threads e"] op OInplace
  have "outcome_ok (ts ! i) h (apply_inplace (e_arith e) (e_threads e) c (ts ! i) ts h)" by simp
  then show ?thesis
    using inv wrote_inv[OF inv i] by (fastforce simp: outcome_ok_def OInplace)
qed

lemma program_reaches_inv: "program_reaches e h ts \<Longrightarrow> program_inv h ts"
proof (induction rule: program_reaches.induct)
  case pr_start
  show ?case by (simp add: program_inv_def)
next
  case (pr_step h ts op h' ts')
  from exec_tensor_inv[OF pr_step.IH pr_step.hyps(2), of e] pr_step.hyps(3) show ?case by auto
qed

lemma other_storage:
  assumes "users b ts = 1" "i < length ts" "k < length ts" "k \<noteq> i" "t_storage (ts ! i) = b"
  shows "t_storage (ts ! k) \<noteq> b"
proof
  assume b: "t_storage (ts ! k) = b"
  have "{i, k} \<subseteq> {j. j < length ts \<and> t_storage (ts ! j) = b}" using assms b by auto
  then have "card {i, k} \<le> card {j. j < length ts \<and> t_storage (ts ! j) = b}" by (intro card_mono) auto
  with assms(1,4) show False by (simp add: users_def length_filter_conv_card)
qed


text \<open>
  C28. No tensor changes behind another's back.  An in-place operation on a tensor with elements that
  shares its storage reports an error and leaves the heap as it is (the source documents a panic; a tensor
  without elements is accepted); if it succeeds, every other tensor of the program reads the same
  elements as before.
\<close>

theorem inplace_never_changes_others:
  assumes reach: "program_reaches e h ts" and op: "allowed_tensor (OInplace i c) ts"
    and run: "apply_inplace (e_arith e) (e_threads e) c (ts ! i) ts h = Some (r, h')" and n: "0 < t_numel (ts ! i)"
  shows "(case r of Inl _ \<Rightarrow> h' = h
      | Inr _ \<Rightarrow> \<forall>k < length ts. k \<noteq> i \<longrightarrow> elems (ts ! k) h' = elems (ts ! k) h) \<and>
    ((\<exists>k < length ts. k \<noteq> i \<and> t_storage (ts ! k) = t_storage (ts ! i)) \<longrightarrow> (\<exists>err. r = Inl err))"
proof -
  note inv = program_reaches_inv[OF reach]
  let ?b = "t_storage (ts ! i)"
  have i: "i < length ts" using op by simp
  have ok: "tensor_ok (ts ! i) h" using program_invD(1)[OF inv] i by simp
  then have st: "buf_strong (bufs h ! ?b) = users ?b ts"
    using program_invD(3)[OF inv] by (simp add: tensor_ok_def)
  have data: "t_data (ts ! i) h \<noteq> []" using numel_le_data[OF ok] n by auto
  have shared: "\<exists>err. r = Inl err" if "users ?b ts \<noteq> 1"
    using inplace_shared[OF data _ n run] that st by simp
  have others: "elems (ts ! k) h' = elems (ts ! k) h" if "r = Inr ()" "k < length ts" "k \<noteq> i" for k
  proof -
    have u: "users ?b ts = 1" using shared that(1) by blast
    from other_storage[OF u i that(2,3) refl] have ne: "t_storage (ts ! k) \<noteq> ?b" .
    from inplace_outcome[OF inv op, of "e_arith e" "e_threads e"] run that(1)
    have "h' = h \<or> (\<exists>g. wrote (ts ! i) g h h')" by (auto simp: outcome_ok_def)
    then have "bufs h' ! t_storage (ts ! k) = bufs h ! t_storage (ts ! k)" using ne by (auto simp: wrote_def)
    then show ?thesis by (simp add: elems_def t_elem_def)
  qed
  show ?thesis
  proof (intro conjI impI)
    show "case r of Inl _ \<Rightarrow> h' = h
      | Inr _ \<Rightarrow> \<forall>k < length ts. k \<noteq> i \<longrightarrow> elems (ts ! k) h' = elems (ts ! k) h"
      using others inplace_error_heap run by (auto split: sum.splits)
    assume "\<exists>k < length ts. k \<noteq> i \<and> t_storage (ts ! k) = ?b"
    then have "users ?b ts \<noteq> 1" using other_storage[OF _ i] by blast
    then show "\<exists>err. r = Inl err" by (rule shared)
  qed
qed

text \<open>A concrete program: a matrix, its transpose, and another matrix.\<close>

fun run_program :: "'v env \<Rightarrow> 'v tensor_op list \<Rightarrow> 'v theap \<Rightarrow> tensor list \<Rightarrow> ('v theap \<times> tensor list) option" where
  "run_program e [] h ts = Some (h, ts)"
| "run_program e (op # ops) h ts =
     (if allowed_tensor op ts then
        (case exec_tensor e op h ts of None \<Rightarrow> None | Some (h', ts') \<Rightarrow> run_program e ops h' ts')
      else None)"

lemma run_program_reaches:
  "run_program e ops h ts = Some (h', ts') \<Longrightarrow> program_reaches e h ts \<Longrightarrow> program_reaches e h' ts'"
  by (induction ops arbitrary: h ts) (auto split: if_splits option.splits intro: pr_step)

definition demo_env :: "int env" where
  "demo_env = \<lparr>e_arith = int_arith,
     e_casts = \<lparr>c_to_f64 = (\<lambda>_ x. x), c_of_f64 = (\<lambda>_ x. x), c_nonzero = (\<lambda>x. x \<noteq> 0), c_true = (\<lambda>x. x \<noteq> 0),
                c_bool = (\<lambda>b. if b then 1 else 0), c_one = 1, c_zero = 0\<rparr>,
     e_zero = 0, e_threads = 1\<rparr>"

definition demo_program :: "int tensor_op list" where
  "demo_program = [OFromVec F32 [2, 2] [10, 20, 30, 40], OView 0 (CallTranspose 0 1),
     OFromVec F32 [2, 2] [1, 2, 3, 4]]"

definition demo_heap :: "int theap" where
  "demo_heap = \<lparr>bufs = [\<lparr>buf_dtype = F32, buf_data = [10, 20, 30, 40], buf_strong = 2\<rparr>,
      \<lparr>buf_dtype = F32, buf_data = [1, 2, 3, 4], buf_strong = 1\<rparr>], vers = [0, 0]\<rparr>"

definition demo_tensors :: "tensor list" where
  "demo_tensors = [matrix_at 0, transposed_at 0, matrix_at 1]"

lemma demo_program_reaches: "program_reaches demo_env demo_heap demo_tensors"
proof -
  have "run_program demo_env demo_program \<lparr>bufs = [], vers = []\<rparr> [] = Some (demo_heap, demo_tensors)"
    by code_simp
  from run_program_reaches[OF this pr_start] show ?thesis .
qed


theorem inplace_never_changes_others_witness:
  "\<exists>err. apply_inplace int_arith 1 INeg (matrix_at 0) demo_tensors demo_heap = Some (Inl err, demo_heap)"
proof -
  have op: "allowed_tensor (OInplace 0 INeg :: int tensor_op) demo_tensors" by code_simp
  have env: "e_arith demo_env = int_arith" "e_threads demo_env = 1" "demo_tensors ! 0 = matrix_at 0"
    by (simp_all add: demo_env_def demo_tensors_def)
  have shared: "\<exists>k < length demo_tensors. k \<noteq> 0 \<and> t_storage (demo_tensors ! k) = t_storage (demo_tensors ! 0)"
    by (rule exI[of _ 1]) (simp add: demo_tensors_def transposed_at_def matrix_at_def)
  have n: "0 < t_numel (demo_tensors ! 0)" by code_simp
  obtain r h' where run: "apply_inplace (e_arith demo_env) (e_threads demo_env) INeg (demo_tensors ! 0) demo_tensors demo_heap
      = Some (r, h')"
    using inplace_outcome[OF program_reaches_inv[OF demo_program_reaches] op, of "e_arith demo_env" "e_threads demo_env"]
    by (auto simp: outcome_ok_def)
  from inplace_never_changes_others[OF demo_program_reaches op run n] shared
  obtain err where "r = Inl err" "h' = demo_heap" by (auto split: sum.splits)
  with run show ?thesis by (simp add: env)
qed

end
