(* ===== verification/Kernels.thy ===== *)
theory Kernels
  imports Tensor
begin

text \<open>
  The kernels of \<open>rustorch-cpu/src/\<close> that move elements: the element-wise iterator
  (\<open>iterator.rs\<close>), repetition, reversal and rotation
  (\<open>kernels/shape_ops.rs\<close>), and the indexing kernels of \<open>cpu_backend.rs\<close> (\<open>gather\<close>, \<open>scatter\<close>,
  \<open>index_select\<close>, the masked operations and \<open>where\<close>).  They read a tensor of theory \<open>Tensor\<close> element by
  element and build a new dense tensor from a vector.

  A kernel returns \<open>None\<close> where the source panics; otherwise its \<open>Result\<close> and the heap.  The sizes
  the kernels multiply are unbounded here; a vector that is too large panics when it is created
  (\<open>vec_with_capacity\<close>), before any size beyond the machine's is used.
\<close>

section \<open>Errors and common steps\<close>

datatype backend_error =
    BackendShapeMismatch string "nat list" "nat list"
  | BackendDtypeMismatch string dtype dtype
  | OutOfMemory nat
  | UnsupportedOp string string
  | NumericalError string
  | IndexOutOfBounds string int nat
  | AliasingViolation string

type_synonym 'v kernel_result = "((backend_error + tensor) \<times> 'v theap) option"

text \<open>\<open>Vec::<T>::with_capacity(n)\<close>: a capacity above \<open>isize::MAX\<close> bytes panics.\<close>

definition vec_with_capacity :: "dtype \<Rightarrow> nat \<Rightarrow> bool" where
  "vec_with_capacity d n \<longleftrightarrow> n * byte_size d < i64_limit"

text \<open>\<open>t.iter_elements::<T>().expect("dtype").collect()\<close>\<close>

definition read_all :: "dtype \<Rightarrow> tensor \<Rightarrow> 'v theap \<Rightarrow> 'v list option" where
  "read_all d t h = (case iter_elements d t h of None \<Rightarrow> None | Some it \<Rightarrow> collect_iter it)"

text \<open>\<open>Tensor::from_vec_typed(shape, out).map_err(|_| OutOfMemory ...)\<close>\<close>

definition build_tensor :: "dtype \<Rightarrow> shape \<Rightarrow> 'v list \<Rightarrow> 'v theap \<Rightarrow> 'v kernel_result" where
  "build_tensor d shape out h =
     (case from_vec_sized d shape out h of
        (Inl _, h') \<Rightarrow> Some (Inl (OutOfMemory (numel shape * byte_size d)), h')
      | (Inr t, h') \<Rightarrow> Some (Inr t, h'))"

fun kernel_strides_loop :: "shape \<Rightarrow> nat \<Rightarrow> nat list \<Rightarrow> nat list" where
  "kernel_strides_loop shape 0 s = s"
| "kernel_strides_loop shape (Suc i) s =
     kernel_strides_loop shape i (s[i := s ! (i + 1) * shape ! (i + 1)])"

definition contiguous_strides :: "shape \<Rightarrow> nat list" where
  "contiguous_strides shape =
     (if shape = [] then []
      else kernel_strides_loop shape (length shape - 1) (replicate (length shape) 1))"

text \<open>The remainder by an empty axis is a panic.\<close>

fun decode_loop :: "shape \<Rightarrow> nat \<Rightarrow> nat \<Rightarrow> nat list \<Rightarrow> nat list option" where
  "decode_loop shape 0 idx coords = Some coords"
| "decode_loop shape (Suc axis) idx coords =
     (if shape ! axis = 0 then None
      else decode_loop shape axis (idx div shape ! axis) (coords[axis := idx mod shape ! axis]))"

definition decode_coords :: "nat \<Rightarrow> shape \<Rightarrow> nat list option" where
  "decode_coords linear shape =
     (if shape = [] then Some []
      else decode_loop shape (length shape) linear (replicate (length shape) 0))"

definition linear_of :: "nat list \<Rightarrow> nat list \<Rightarrow> nat" where
  "linear_of coords strides = sum_list (map2 (*) coords strides)"

text \<open>
  The loop of the kernels that compute, for every position of the output, the coordinates of an
  element of the source: \<open>f linear coords\<close> gives these coordinates, an error, or a panic.
\<close>

fun reindex_loop ::
  "'v list \<Rightarrow> nat list \<Rightarrow> shape \<Rightarrow> (nat \<Rightarrow> nat list \<Rightarrow> (backend_error + nat list) option)
    \<Rightarrow> nat list \<Rightarrow> 'v list \<Rightarrow> (backend_error + 'v list) option" where
  "reindex_loop buf strides out_shape f [] out = Some (Inr out)"
| "reindex_loop buf strides out_shape f (linear # ls) out =
     (case decode_coords linear out_shape of
        None \<Rightarrow> None
      | Some coords \<Rightarrow>
          (case f linear coords of
             None \<Rightarrow> None
           | Some (Inl e) \<Rightarrow> Some (Inl e)
           | Some (Inr src_coords) \<Rightarrow>
               (case get_elem buf (linear_of src_coords strides) of
                  None \<Rightarrow> None
                | Some v \<Rightarrow> reindex_loop buf strides out_shape f ls (out @ [v]))))"

definition reindex ::
  "dtype \<Rightarrow> tensor \<Rightarrow> shape \<Rightarrow> (nat \<Rightarrow> nat list \<Rightarrow> (backend_error + nat list) option) \<Rightarrow> 'v theap \<Rightarrow> 'v kernel_result" where
  "reindex d src out_shape f h =
     (case read_all d src h of
        None \<Rightarrow> None
      | Some buf \<Rightarrow>
          if \<not> vec_with_capacity d (numel out_shape) then None
          else (case reindex_loop buf (contiguous_strides (t_shape src)) out_shape f [0..<numel out_shape] [] of
             None \<Rightarrow> None
           | Some (Inl e) \<Rightarrow> Some (Inl e, h)
           | Some (Inr out) \<Rightarrow> build_tensor d out_shape out h))"

text \<open>The element types of the shape kernels.\<close>

definition shape_op_dtype :: "dtype \<Rightarrow> bool" where
  "shape_op_dtype d \<longleftrightarrow> (case d of F16 \<Rightarrow> False | BF16 \<Rightarrow> False | _ \<Rightarrow> True)"

section \<open>Repetition, reversal, rotation\<close>

definition repeat_src :: "shape \<Rightarrow> nat \<Rightarrow> nat list \<Rightarrow> (backend_error + nat list) option" where
  "repeat_src src_shape linear coords =
     (if 0 \<in> set src_shape then None else Some (Inr (map2 (mod) coords src_shape)))"

definition repeat_tensor :: "tensor \<Rightarrow> nat list \<Rightarrow> 'v theap \<Rightarrow> 'v kernel_result" where
  "repeat_tensor src repeats h =
     (if length repeats \<noteq> length (t_shape src)
      then Some (Inl (BackendShapeMismatch ''repeat'' (t_shape src) repeats), h)
      else if shape_op_dtype (t_dtype src)
        then reindex (t_dtype src) src (map2 (*) (t_shape src) repeats) (repeat_src (t_shape src)) h
      else Some (Inl (BackendDtypeMismatch ''repeat'' (t_dtype src) (t_dtype src)), h))"

text \<open>\<open>coords[d] = shape[d] - 1 - coords[d]\<close> for every \<open>d\<close> of \<open>dims\<close>; an underflow panics.\<close>

fun flip_coords :: "shape \<Rightarrow> nat list \<Rightarrow> nat list \<Rightarrow> nat list option" where
  "flip_coords shape [] coords = Some coords"
| "flip_coords shape (d # ds) coords =
     (if shape ! d < 1 + coords ! d then None
      else flip_coords shape ds (coords[d := shape ! d - 1 - coords ! d]))"

definition flip_src :: "shape \<Rightarrow> nat list \<Rightarrow> nat \<Rightarrow> nat list \<Rightarrow> (backend_error + nat list) option" where
  "flip_src shape dims linear coords = map_option Inr (flip_coords shape dims coords)"

fun flip_check :: "tensor \<Rightarrow> nat list \<Rightarrow> backend_error option" where
  "flip_check src [] = None"
| "flip_check src (d # ds) =
     (if d \<ge> length (t_shape src) then Some (IndexOutOfBounds ''flip'' (as_i64 d) (length (t_shape src)))
      else flip_check src ds)"

definition flip :: "tensor \<Rightarrow> nat list \<Rightarrow> 'v theap \<Rightarrow> 'v kernel_result" where
  "flip src dims h =
     (case flip_check src dims of
        Some e \<Rightarrow> Some (Inl e, h)
      | None \<Rightarrow>
          if shape_op_dtype (t_dtype src)
          then reindex (t_dtype src) src (t_shape src) (flip_src (t_shape src) dims) h
          else Some (Inl (BackendDtypeMismatch ''flip'' (t_dtype src) (t_dtype src)), h))"

definition roll_src :: "shape \<Rightarrow> nat \<Rightarrow> nat \<Rightarrow> nat \<Rightarrow> nat list \<Rightarrow> (backend_error + nat list) option" where
  "roll_src shape s dim linear coords =
     (let dim_size = shape ! dim in
      if coords ! dim + dim_size < s \<or> dim_size = 0 then None
      else Some (Inr (coords[dim := (coords ! dim + dim_size - s) mod dim_size])))"

text \<open>\<open>%\<close> on \<open>i64\<close> truncates, so the remainder has the sign of the shift.\<close>

definition rem_i64 :: "int \<Rightarrow> int \<Rightarrow> int" where
  "rem_i64 a b = (if a < 0 then - (\<bar>a\<bar> mod \<bar>b\<bar>) else \<bar>a\<bar> mod \<bar>b\<bar>)"

definition roll_shift :: "int \<Rightarrow> int \<Rightarrow> nat" where
  "roll_shift shifts n = nat (rem_i64 (rem_i64 shifts n + n) n)"

definition roll :: "tensor \<Rightarrow> int \<Rightarrow> nat \<Rightarrow> 'v theap \<Rightarrow> 'v kernel_result" where
  "roll src shifts dim h =
     (if dim \<ge> length (t_shape src)
      then Some (Inl (IndexOutOfBounds ''roll'' (as_i64 dim) (length (t_shape src))), h)
      else let n = int (t_shape src ! dim) in
        if n = 0 then (case contiguous_tensor src h of None \<Rightarrow> None | Some (t, h') \<Rightarrow> Some (Inr t, h'))
        else if shape_op_dtype (t_dtype src)
          then reindex (t_dtype src) src (t_shape src) (roll_src (t_shape src) (roll_shift shifts n) dim) h
        else Some (Inl (BackendDtypeMismatch ''roll'' (t_dtype src) (t_dtype src)), h))"

section \<open>Indexing kernels\<close>

text \<open>\<open>to_int\<close> reads an element of an index tensor as an \<open>i64\<close>.\<close>

definition index_op_dtype :: "dtype \<Rightarrow> bool" where
  "index_op_dtype d \<longleftrightarrow> d \<in> {F32, F64, I64, I32}"

definition index_src :: "string \<Rightarrow> nat \<Rightarrow> nat \<Rightarrow> int \<Rightarrow> nat list \<Rightarrow> backend_error + nat list" where
  "index_src op dim bound j coords =
     (if j < 0 \<or> nat j \<ge> bound then Inl (IndexOutOfBounds op j bound) else Inr (coords[dim := nat j]))"

definition gather_typed :: "('v \<Rightarrow> int) \<Rightarrow> dtype \<Rightarrow> tensor \<Rightarrow> nat \<Rightarrow> tensor \<Rightarrow> 'v theap \<Rightarrow> 'v kernel_result" where
  "gather_typed to_int d src dim idx h =
     (case read_all I64 idx h of
        None \<Rightarrow> None
      | Some idx_typed \<Rightarrow>
          reindex d src (t_shape idx)
            (\<lambda>linear coords. map_option (\<lambda>j. index_src ''gather'' dim (t_shape src ! dim) j coords)
                              (get_elem (map to_int idx_typed) linear)) h)"

definition gather :: "('v \<Rightarrow> int) \<Rightarrow> tensor \<Rightarrow> nat \<Rightarrow> tensor \<Rightarrow> 'v theap \<Rightarrow> 'v kernel_result" where
  "gather to_int src dim idx h =
     (if t_dtype idx \<noteq> I64 then Some (Inl (BackendDtypeMismatch ''gather'' (t_dtype idx) I64), h)
      else if length (t_shape src) \<noteq> length (t_shape idx)
        then Some (Inl (BackendShapeMismatch ''gather'' (t_shape src) (t_shape idx)), h)
      else if dim \<ge> length (t_shape src)
        then Some (Inl (IndexOutOfBounds ''gather'' (as_i64 dim) (length (t_shape src))), h)
      else if index_op_dtype (t_dtype src) then gather_typed to_int (t_dtype src) src dim idx h
      else Some (Inl (BackendDtypeMismatch ''gather'' (t_dtype src) (t_dtype src)), h))"

definition index_select_typed :: "('v \<Rightarrow> int) \<Rightarrow> dtype \<Rightarrow> tensor \<Rightarrow> nat \<Rightarrow> tensor \<Rightarrow> 'v theap \<Rightarrow> 'v kernel_result" where
  "index_select_typed to_int d src dim indices h =
     (case read_all I64 indices h of
        None \<Rightarrow> None
      | Some idx_vec \<Rightarrow>
          reindex d src ((t_shape src)[dim := length idx_vec])
            (\<lambda>linear coords. map_option (\<lambda>j. index_src ''index_select'' dim (t_shape src ! dim) j coords)
                              (get_elem (map to_int idx_vec) (coords ! dim))) h)"

definition index_select :: "('v \<Rightarrow> int) \<Rightarrow> tensor \<Rightarrow> nat \<Rightarrow> tensor \<Rightarrow> 'v theap \<Rightarrow> 'v kernel_result" where
  "index_select to_int src dim indices h =
     (if t_dtype indices \<noteq> I64 then Some (Inl (BackendDtypeMismatch ''index_select'' (t_dtype indices) I64), h)
      else if length (t_shape indices) \<noteq> 1
        then Some (Inl (BackendShapeMismatch ''index_select'' (t_shape indices) [t_numel indices]), h)
      else if dim \<ge> length (t_shape src)
        then Some (Inl (IndexOutOfBounds ''index_select'' (as_i64 dim) (length (t_shape src))), h)
      else if index_op_dtype (t_dtype src) then index_select_typed to_int (t_dtype src) src dim indices h
      else Some (Inl (BackendDtypeMismatch ''index_select'' (t_dtype src) (t_dtype src)), h))"

fun scatter_loop ::
  "string \<Rightarrow> bool \<Rightarrow> ('v \<Rightarrow> 'v \<Rightarrow> 'v) \<Rightarrow> nat \<Rightarrow> nat \<Rightarrow> nat list \<Rightarrow> shape \<Rightarrow> int list \<Rightarrow> 'v list
    \<Rightarrow> nat list \<Rightarrow> 'v list \<Rightarrow> (backend_error + 'v list) option" where
  "scatter_loop op accumulate add dim bound strides idx_shape idx_typed src_typed [] dst = Some (Inr dst)"
| "scatter_loop op accumulate add dim bound strides idx_shape idx_typed src_typed (linear # ls) dst =
     (case (decode_coords linear idx_shape, get_elem idx_typed linear) of
        (Some coords, Some j) \<Rightarrow>
          (case index_src op dim bound j coords of
             Inl e \<Rightarrow> Some (Inl e)
           | Inr dst_coords \<Rightarrow>
               let p = linear_of dst_coords strides in
               (case (get_elem dst p, get_elem src_typed linear) of
                  (Some old, Some v) \<Rightarrow>
                    scatter_loop op accumulate add dim bound strides idx_shape idx_typed src_typed ls
                      (dst[p := (if accumulate then add old v else v)])
                | _ \<Rightarrow> None))
      | _ \<Rightarrow> None)"

definition scatter_typed ::
  "('v \<Rightarrow> int) \<Rightarrow> dtype \<Rightarrow> tensor \<Rightarrow> nat \<Rightarrow> tensor \<Rightarrow> tensor \<Rightarrow> string \<Rightarrow> bool \<Rightarrow> ('v \<Rightarrow> 'v \<Rightarrow> 'v)
    \<Rightarrow> 'v theap \<Rightarrow> 'v kernel_result" where
  "scatter_typed to_int d dst dim idx src op accumulate add h =
     (case (read_all d dst h, read_all I64 idx h, read_all d src h) of
        (Some dst_typed, Some idx_typed, Some src_typed) \<Rightarrow>
          (case scatter_loop op accumulate add dim (t_shape dst ! dim) (contiguous_strides (t_shape dst))
                  (t_shape idx) (map to_int idx_typed) src_typed [0..<t_numel idx] dst_typed of
             None \<Rightarrow> None
           | Some (Inl e) \<Rightarrow> Some (Inl e, h)
           | Some (Inr out) \<Rightarrow> build_tensor d (t_shape dst) out h)
      | _ \<Rightarrow> None)"

text \<open>\<open>adds d\<close> is the addition of the element type \<open>d\<close>.\<close>

definition scatter_dispatch ::
  "('v \<Rightarrow> int) \<Rightarrow> (dtype \<Rightarrow> 'v \<Rightarrow> 'v \<Rightarrow> 'v) \<Rightarrow> tensor \<Rightarrow> nat \<Rightarrow> tensor \<Rightarrow> tensor \<Rightarrow> string \<Rightarrow> bool
    \<Rightarrow> 'v theap \<Rightarrow> 'v kernel_result" where
  "scatter_dispatch to_int adds dst dim idx src op accumulate h =
     (if t_dtype idx \<noteq> I64 then Some (Inl (BackendDtypeMismatch op (t_dtype idx) I64), h)
      else if t_dtype dst \<noteq> t_dtype src then Some (Inl (BackendDtypeMismatch op (t_dtype dst) (t_dtype src)), h)
      else if length (t_shape dst) \<noteq> length (t_shape idx) \<or> length (t_shape dst) \<noteq> length (t_shape src)
        then Some (Inl (BackendShapeMismatch op (t_shape dst) (t_shape idx)), h)
      else if dim \<ge> length (t_shape dst) then Some (Inl (IndexOutOfBounds op (as_i64 dim) (length (t_shape dst))), h)
      else if t_shape idx \<noteq> t_shape src then Some (Inl (BackendShapeMismatch op (t_shape idx) (t_shape src)), h)
      else if index_op_dtype (t_dtype dst)
        then scatter_typed to_int (t_dtype dst) dst dim idx src op accumulate (adds (t_dtype dst)) h
      else Some (Inl (BackendDtypeMismatch op (t_dtype dst) (t_dtype dst)), h))"

definition scatter ::
  "('v \<Rightarrow> int) \<Rightarrow> (dtype \<Rightarrow> 'v \<Rightarrow> 'v \<Rightarrow> 'v) \<Rightarrow> tensor \<Rightarrow> nat \<Rightarrow> tensor \<Rightarrow> tensor \<Rightarrow> 'v theap \<Rightarrow> 'v kernel_result" where
  "scatter to_int adds dst dim idx src h = scatter_dispatch to_int adds dst dim idx src ''scatter'' False h"

definition scatter_add ::
  "('v \<Rightarrow> int) \<Rightarrow> (dtype \<Rightarrow> 'v \<Rightarrow> 'v \<Rightarrow> 'v) \<Rightarrow> tensor \<Rightarrow> nat \<Rightarrow> tensor \<Rightarrow> tensor \<Rightarrow> 'v theap \<Rightarrow> 'v kernel_result" where
  "scatter_add to_int adds dst dim idx src h = scatter_dispatch to_int adds dst dim idx src ''scatter_add'' True h"

section \<open>Masks\<close>

text \<open>\<open>to_bool\<close> reads an element of a \<open>bool\<close> tensor; \<open>value d\<close> is the fill value cast to the type \<open>d\<close>.\<close>

definition masked_select_typed :: "('v \<Rightarrow> bool) \<Rightarrow> dtype \<Rightarrow> tensor \<Rightarrow> tensor \<Rightarrow> 'v theap \<Rightarrow> 'v kernel_result" where
  "masked_select_typed to_bool d src mask_t h =
     (case (read_all d src h, read_all Bool mask_t h) of
        (Some src_v, Some mask_v) \<Rightarrow>
          let out = map fst (filter (\<lambda>(v, m). to_bool m) (zip src_v mask_v)) in
          (case from_vec_sized d [length out] out h of
             (Inl _, h') \<Rightarrow> Some (Inl (OutOfMemory 0), h')
           | (Inr t, h') \<Rightarrow> Some (Inr t, h'))
      | _ \<Rightarrow> None)"

definition masked_select :: "('v \<Rightarrow> bool) \<Rightarrow> tensor \<Rightarrow> tensor \<Rightarrow> 'v theap \<Rightarrow> 'v kernel_result" where
  "masked_select to_bool src mask_t h =
     (if t_dtype mask_t \<noteq> Bool then Some (Inl (BackendDtypeMismatch ''masked_select'' (t_dtype mask_t) Bool), h)
      else if t_shape mask_t \<noteq> t_shape src
        then Some (Inl (BackendShapeMismatch ''masked_select'' (t_shape src) (t_shape mask_t)), h)
      else if index_op_dtype (t_dtype src) then masked_select_typed to_bool (t_dtype src) src mask_t h
      else Some (Inl (BackendDtypeMismatch ''masked_select'' (t_dtype src) (t_dtype src)), h))"

definition masked_fill_typed :: "('v \<Rightarrow> bool) \<Rightarrow> dtype \<Rightarrow> tensor \<Rightarrow> tensor \<Rightarrow> 'v \<Rightarrow> 'v theap \<Rightarrow> 'v kernel_result" where
  "masked_fill_typed to_bool d src mask_t value h =
     (case (read_all d src h, read_all Bool mask_t h) of
        (Some src_v, Some mask_v) \<Rightarrow>
          build_tensor d (t_shape src) (map (\<lambda>(v, m). if to_bool m then value else v) (zip src_v mask_v)) h
      | _ \<Rightarrow> None)"

definition masked_fill :: "('v \<Rightarrow> bool) \<Rightarrow> tensor \<Rightarrow> tensor \<Rightarrow> (dtype \<Rightarrow> 'v) \<Rightarrow> 'v theap \<Rightarrow> 'v kernel_result" where
  "masked_fill to_bool src mask_t value h =
     (if t_dtype mask_t \<noteq> Bool then Some (Inl (BackendDtypeMismatch ''masked_fill'' (t_dtype mask_t) Bool), h)
      else if t_shape mask_t \<noteq> t_shape src
        then Some (Inl (BackendShapeMismatch ''masked_fill'' (t_shape src) (t_shape mask_t)), h)
      else if index_op_dtype (t_dtype src)
        then masked_fill_typed to_bool (t_dtype src) src mask_t (value (t_dtype src)) h
      else Some (Inl (BackendDtypeMismatch ''masked_fill'' (t_dtype src) (t_dtype src)), h))"

definition where_typed :: "('v \<Rightarrow> bool) \<Rightarrow> dtype \<Rightarrow> tensor \<Rightarrow> tensor \<Rightarrow> tensor \<Rightarrow> 'v theap \<Rightarrow> 'v kernel_result" where
  "where_typed to_bool d cond x y h =
     (case (read_all Bool cond h, read_all d x h, read_all d y h) of
        (Some cond_v, Some x_v, Some y_v) \<Rightarrow>
          build_tensor d (t_shape x)
            (map (\<lambda>(c, xi, yi). if to_bool c then xi else yi) (zip cond_v (zip x_v y_v))) h
      | _ \<Rightarrow> None)"

definition where_tensor :: "('v \<Rightarrow> bool) \<Rightarrow> tensor \<Rightarrow> tensor \<Rightarrow> tensor \<Rightarrow> 'v theap \<Rightarrow> 'v kernel_result" where
  "where_tensor to_bool cond x y h =
     (if t_dtype cond \<noteq> Bool then Some (Inl (BackendDtypeMismatch ''where'' (t_dtype cond) Bool), h)
      else if t_dtype x \<noteq> t_dtype y then Some (Inl (BackendDtypeMismatch ''where'' (t_dtype x) (t_dtype y)), h)
      else if t_shape cond \<noteq> t_shape x \<or> t_shape x \<noteq> t_shape y
        then Some (Inl (BackendShapeMismatch ''where'' (t_shape x) (t_shape y)), h)
      else if index_op_dtype (t_dtype x) then where_typed to_bool (t_dtype x) cond x y h
      else Some (Inl (BackendDtypeMismatch ''where'' (t_dtype x) (t_dtype x)), h))"

section \<open>Element-wise operations\<close>

record binary_op_plan =
  bp_out_shape :: shape
  bp_lhs_strides :: strides
  bp_rhs_strides :: strides
  bp_lhs_offset :: nat
  bp_rhs_offset :: nat

definition build_plan :: "tensor \<Rightarrow> tensor \<Rightarrow> string \<Rightarrow> backend_error + binary_op_plan" where
  "build_plan lhs rhs op =
     (if t_dtype lhs \<noteq> t_dtype rhs then Inl (BackendDtypeMismatch op (t_dtype lhs) (t_dtype rhs))
      else case broadcast_with (t_shape lhs) (t_shape rhs) of
        Inl _ \<Rightarrow> Inl (BackendShapeMismatch op (t_shape lhs) (t_shape rhs))
      | Inr out_shape \<Rightarrow>
          (case (expand_strides_to (t_shape lhs) out_shape, expand_strides_to (t_shape rhs) out_shape) of
             (Inr ls, Inr rs) \<Rightarrow>
               Inr \<lparr>bp_out_shape = out_shape, bp_lhs_strides = ls, bp_rhs_strides = rs,
                    bp_lhs_offset = storage_offset (t_layout lhs), bp_rhs_offset = storage_offset (t_layout rhs)\<rparr>
           | _ \<Rightarrow> Inl (BackendShapeMismatch op (t_shape lhs) (t_shape rhs))))"

text \<open>The same loop over the axes, from the last to the first, as in \<open>ShapeIter\<close>.\<close>

definition linear_to_offset :: "nat \<Rightarrow> shape \<Rightarrow> strides \<Rightarrow> nat \<Rightarrow> nat" where
  "linear_to_offset linear shape strides base = strided_index linear shape strides base"

definition PARALLEL_THRESHOLD :: nat where
  "PARALLEL_THRESHOLD = 16384"

definition CHUNK :: nat where
  "CHUNK = 8192"

function map_chunks :: "nat \<Rightarrow> ('v \<Rightarrow> 'v) \<Rightarrow> 'v list \<Rightarrow> 'v list" where
  "map_chunks c f xs =
     (if xs = [] \<or> c = 0 then [] else map f (take c xs) @ map_chunks c f (drop c xs))"
  by pat_completeness auto
termination
  by (relation "measure (\<lambda>(c, f, xs). length xs)") auto

declare map_chunks.simps [simp del]

text \<open>\<open>map_unary::<T, U, F>\<close> with \<open>T::DTYPE = d\<close> and \<open>U::DTYPE = u\<close>.\<close>

definition unary_elem :: "('v \<Rightarrow> 'v) \<Rightarrow> tensor \<Rightarrow> 'v list \<Rightarrow> nat \<Rightarrow> 'v option" where
  "unary_elem f src raw i =
     map_option f (get_elem raw (linear_to_offset i (t_shape src) (lay_strides (t_layout src))
       (storage_offset (t_layout src))))"

definition map_unary :: "dtype \<Rightarrow> dtype \<Rightarrow> string \<Rightarrow> ('v \<Rightarrow> 'v) \<Rightarrow> tensor \<Rightarrow> 'v theap \<Rightarrow> 'v kernel_result" where
  "map_unary d u op f src h =
     (if t_dtype src \<noteq> d then Some (Inl (BackendDtypeMismatch op (t_dtype src) d), h)
      else let n = t_numel src; raw = t_data src h in
        if contiguous (t_layout src) \<and> storage_offset (t_layout src) = 0
        then if length raw < n \<or> \<not> vec_with_capacity u n then None
          else build_tensor u (t_shape src)
                 (if n < PARALLEL_THRESHOLD then map f (take n raw) else map_chunks CHUNK f (take n raw)) h
        else if \<not> vec_with_capacity u n then None
        else (case those (map (unary_elem f src raw) [0..<n]) of
           None \<Rightarrow> None
         | Some out \<Rightarrow> build_tensor u (t_shape src) out h))"

definition map_binary_contiguous_parallel ::
  "dtype \<Rightarrow> ('v \<Rightarrow> 'v \<Rightarrow> 'v) \<Rightarrow> tensor \<Rightarrow> tensor \<Rightarrow> 'v theap \<Rightarrow> 'v kernel_result" where
  "map_binary_contiguous_parallel u f lhs rhs h =
     (let n = t_numel lhs; lraw = t_data lhs h; rraw = t_data rhs h in
      if length lraw < n \<or> length rraw < n \<or> \<not> vec_with_capacity u n then None
      else build_tensor u (t_shape lhs)
             (if n < PARALLEL_THRESHOLD then map2 f (take n lraw) (take n rraw)
              else zip_chunks CHUNK f (take n lraw) (take n rraw)) h)"

definition binary_elem :: "('v \<Rightarrow> 'v \<Rightarrow> 'v) \<Rightarrow> binary_op_plan \<Rightarrow> 'v list \<Rightarrow> 'v list \<Rightarrow> nat \<Rightarrow> 'v option" where
  "binary_elem f p lraw rraw i =
     (case (get_elem lraw (linear_to_offset i (bp_out_shape p) (bp_lhs_strides p) (bp_lhs_offset p)),
            get_elem rraw (linear_to_offset i (bp_out_shape p) (bp_rhs_strides p) (bp_rhs_offset p))) of
        (Some a, Some b) \<Rightarrow> Some (f a b)
      | _ \<Rightarrow> None)"

definition map_binary ::
  "dtype \<Rightarrow> dtype \<Rightarrow> string \<Rightarrow> ('v \<Rightarrow> 'v \<Rightarrow> 'v) \<Rightarrow> tensor \<Rightarrow> tensor \<Rightarrow> 'v theap \<Rightarrow> 'v kernel_result" where
  "map_binary d u op f lhs rhs h =
     (if t_dtype lhs \<noteq> d then Some (Inl (BackendDtypeMismatch op (t_dtype lhs) d), h)
      else if t_dtype rhs \<noteq> d then Some (Inl (BackendDtypeMismatch op (t_dtype lhs) (t_dtype rhs)), h)
      else if t_shape lhs = t_shape rhs \<and> contiguous (t_layout lhs) \<and> contiguous (t_layout rhs)
          \<and> storage_offset (t_layout lhs) = 0 \<and> storage_offset (t_layout rhs) = 0
        then map_binary_contiguous_parallel u f lhs rhs h
      else case build_plan lhs rhs op of
        Inl e \<Rightarrow> Some (Inl e, h)
      | Inr p \<Rightarrow>
          if \<not> vec_with_capacity u (numel (bp_out_shape p)) then None
          else (case those (map (binary_elem f p (t_data lhs h) (t_data rhs h)) [0..<numel (bp_out_shape p)]) of
             None \<Rightarrow> None
           | Some out \<Rightarrow> build_tensor u (bp_out_shape p) out h))"

section \<open>Facts about the common steps\<close>

lemma kernel_strides_loop_int:
  "n < length s \<Longrightarrow> length shape = length s \<Longrightarrow>
   map int (kernel_strides_loop shape n s) = strides_loop shape n (map int s)"
  by (induction n arbitrary: s) (auto simp: map_update)

lemma contiguous_strides_row_major: "map int (contiguous_strides s) = row_major s"
proof (cases "s = []")
  case False
  have "map int (contiguous_strides s)
      = strides_loop s (length s - 1) (map int (replicate (length s) 1))"
    using False by (simp add: contiguous_strides_def kernel_strides_loop_int)
  also have "\<dots> = row_major s"
    using False by (intro strides_loop_row_major) (auto simp: row_major_nth)
  finally show ?thesis .
qed (simp add: contiguous_strides_def)

lemma linear_of_dot: "int (linear_of cs st) = dot cs (map int st)"
proof (induction cs st rule: list_induct2')
  case (4 c cs s st)
  then show ?case by (simp add: linear_of_def)
qed (simp_all add: linear_of_def)

lemma linear_of_ravel: "length cs = length s \<Longrightarrow> linear_of cs (contiguous_strides s) = ravel s cs"
  using linear_of_dot[of cs "contiguous_strides s"] dot_row_major[of cs s]
  by (simp add: contiguous_strides_row_major)

lemma decode_loop_eq:
  "0 \<notin> set shape \<Longrightarrow> n \<le> length shape \<Longrightarrow> length cs = length shape \<Longrightarrow>
   decode_loop shape n i cs = Some (coords_of (take n shape) i @ drop n cs)"
proof (induction n arbitrary: i cs)
  case 0
  then show ?case by simp
next
  case (Suc n)
  have nz: "shape ! n \<noteq> 0" using Suc.prems by (metis Suc_le_eq nth_mem)
  have "decode_loop shape (Suc n) i cs = decode_loop shape n (i div shape ! n) (cs[n := i mod shape ! n])"
    using nz by simp
  also have "\<dots> = Some (coords_of (take n shape) (i div shape ! n) @ drop n (cs[n := i mod shape ! n]))"
    using Suc.prems by (intro Suc.IH) auto
  also have "drop n (cs[n := i mod shape ! n]) = (i mod shape ! n) # drop (Suc n) cs"
    using Suc.prems by (simp add: Cons_nth_drop_Suc[symmetric])
  also have "coords_of (take n shape) (i div shape ! n) @ (i mod shape ! n) # drop (Suc n) cs
      = coords_of (take (Suc n) shape) i @ drop (Suc n) cs"
    using Suc.prems by (simp add: take_Suc_conv_app_nth coords_of_snoc)
  finally show ?case .
qed

lemma decode_coords_eq: "i < numel shape \<Longrightarrow> decode_coords i shape = Some (coords_of shape i)"
  using numel_eq_0_iff[of shape] decode_loop_eq[of shape "length shape"]
  by (cases "shape = []") (auto simp: decode_coords_def)

lemma read_all_ok: "tensor_ok t h \<Longrightarrow> d = t_dtype t \<Longrightarrow> read_all d t h = Some (elems t h)"
  using iter_elements_collect[of t h] by (auto simp: read_all_def)

lemma fits_capacity: "fits_memory d n \<Longrightarrow> vec_with_capacity d n"
proof (cases "n = 0")
  case False
  assume "fits_memory d n"
  with False have "div_ceil (n * byte_size d) 64 * 64 < i64_limit"
    by (auto simp: fits_memory_iff alloc_layout_def from_size_align_def CPU_ALIGN_def split: if_splits)
  moreover have "n * byte_size d \<le> div_ceil (n * byte_size d) 64 * 64" by (rule div_ceil_mult_ge) simp
  ultimately show ?thesis by (simp add: vec_with_capacity_def)
qed (simp add: vec_with_capacity_def limit_defs)

text \<open>The dense tensor a kernel builds, in a heap that has one more buffer.\<close>

definition new_tensor :: "dtype \<Rightarrow> shape \<Rightarrow> 'v list \<Rightarrow> 'v theap \<Rightarrow> tensor \<times> 'v theap" where
  "new_tensor d s data h =
     (\<lparr>t_storage = length (bufs h), t_layout = contiguous_layout s d, t_version = length (vers h),
       t_requires_grad = False, t_device = Cpu\<rparr>,
      h\<lparr>bufs := bufs h @ [\<lparr>buf_dtype = d, buf_data = data, buf_strong = 1\<rparr>], vers := vers h @ [0]\<rparr>)"

lemma build_tensor_ok:
  assumes "length data = numel s" "fits_memory d (numel s)" "new_tensor d s data h = (t, h')"
  shows "build_tensor d s data h = Some (Inr t, h')"
  using expect_from_vec[OF assms(1,2), of h] assms(3)
  by (auto simp: build_tensor_def new_tensor_def expect_ok_def split: prod.splits sum.splits)

lemma elem_ravel: "valid_coords (t_shape t) cs \<Longrightarrow> elems t h ! ravel (t_shape t) cs = t_elem t h cs"
  using ravel_less[of "t_shape t" cs] by (simp add: elems_def numel_prod_list coords_of_ravel)

lemma elem_position: "i < t_numel t \<Longrightarrow> elems t h ! i = t_elem t h (coords_of (t_shape t) i)"
  by (simp add: elems_def)

lemma new_tensor_ok:
  assumes "length data = numel s" "fits_memory d (numel s)" "new_tensor d s data h = (t, h')"
  shows "tensor_ok t h'" "t_shape t = s" "t_dtype t = d" "elems t h' = data"
    "t_storage t = length (bufs h)" "contiguous (t_layout t)" "storage_offset (t_layout t) = 0"
proof -
  have t: "t = \<lparr>t_storage = length (bufs h), t_layout = contiguous_layout s d, t_version = length (vers h),
       t_requires_grad = False, t_device = Cpu\<rparr>"
    and h': "h' = h\<lparr>bufs := bufs h @ [\<lparr>buf_dtype = d, buf_data = data, buf_strong = 1\<rparr>], vers := vers h @ [0]\<rparr>"
    using assms(3) by (simp_all add: new_tensor_def)
  have l: "t_layout t = contiguous_layout s d" "t_data t h' = data" by (simp_all add: t h')
  show "t_shape t = s" "t_dtype t = d" "contiguous (t_layout t)" "storage_offset (t_layout t) = 0"
    by (simp_all add: l contiguous_layout_def)
  show "t_storage t = length (bufs h)" by (simp add: t)
  show "elems t h' = data" by (rule elems_contiguous[OF l assms(1)])
  have "layout_inv (contiguous_layout s d) (numel s)"
    using fits_memory_i64[OF assms(2)] by (intro contiguous_layout_inv) simp_all
  then show "tensor_ok t h'"
    unfolding tensor_ok_def l using assms(1,2) by (simp add: t h') (simp add: contiguous_layout_def)
qed

lemma new_tensor_elem:
  assumes "length data = numel s" "fits_memory d (numel s)" "new_tensor d s data h = (t, h')"
    and "valid_coords s cs"
  shows "t_elem t h' cs = data ! ravel s cs"
  using new_tensor_ok[OF assms(1-3)] elem_ravel[of t cs h'] assms(4) by simp

text \<open>A kernel leaves the elements of the tensors that exist as they are.\<close>

definition extends :: "'v theap \<Rightarrow> 'v theap \<Rightarrow> bool" where
  "extends h h' \<longleftrightarrow> length (bufs h) \<le> length (bufs h') \<and> length (vers h) \<le> length (vers h')
     \<and> (\<forall>b < length (bufs h). buf_data (bufs h' ! b) = buf_data (bufs h ! b)
          \<and> buf_dtype (bufs h' ! b) = buf_dtype (bufs h ! b))
     \<and> (\<forall>v < length (vers h). vers h' ! v = vers h ! v)"

lemma extends_refl [simp]: "extends h h"
  by (simp add: extends_def)

lemma extends_trans: "extends h h1 \<Longrightarrow> extends h1 h2 \<Longrightarrow> extends h h2"
  by (auto simp: extends_def)

lemma extends_tensor:
  assumes "extends h h'" "tensor_ok u h"
  shows "tensor_ok u h'" "t_elem u h' cs = t_elem u h cs" "elems u h' = elems u h"
  using assms by (auto simp: tensor_ok_def extends_def t_elem_def elems_def)

lemma new_tensor_extends: "new_tensor d s data h = (t, h') \<Longrightarrow> extends h h'"
  by (auto simp: new_tensor_def extends_def nth_append)

lemma share_extends: "extends h (share b h)"
  by (cases "b < length (bufs h)") (auto simp: extends_def share_def nth_list_update)

lemma unshare_extends: "extends h (unshare b h)"
  by (cases "b < length (bufs h)") (auto simp: extends_def unshare_def nth_list_update)

lemma contiguous_tensor_extends:
  assumes ok: "tensor_ok t h"
  shows "\<exists>t' h'. contiguous_tensor t h = Some (t', h') \<and> extends h h' \<and> tensor_ok t' h' \<and>
    t_shape t' = t_shape t \<and> t_dtype t' = t_dtype t \<and> elems t' h' = elems t h \<and>
    contiguous (t_layout t') \<and> storage_offset (t_layout t') = 0"
proof (cases "contiguous (t_layout t) \<and> storage_offset (t_layout t) = 0")
  case True
  then have "contiguous_tensor t h = Some (t, share (t_storage t) h)"
    by (simp add: contiguous_tensor_def clone_tensor_def)
  then show ?thesis
    using True ok extends_tensor[OF share_extends ok, of "t_storage t"] share_extends by blast
next
  case False
  obtain t' h' where nt: "new_tensor (t_dtype t) (t_shape t) (elems t h) h = (t', h')" by fastforce
  have fits: "fits_memory (t_dtype t) (t_numel t)"
    using ok numel_le_data[OF ok] fits_memory_mono by (auto simp: tensor_ok_def)
  have "contiguous_tensor t h = Some (t', h')"
    using copy_to_contiguous_correct[OF ok] nt unfolding contiguous_tensor_def if_not_P[OF False]
    by (auto simp: new_tensor_def)
  then show ?thesis
    using new_tensor_ok[OF _ fits nt] new_tensor_extends[OF nt] by (metis length_elems)
qed

section \<open>Kernels that move elements\<close>

text \<open>
  \<open>t'\<close> is a well-formed dense tensor of shape \<open>s\<close> whose element at \<open>cs\<close> is the one of \<open>t\<close> at
  \<open>g cs\<close>; nothing else has changed.
\<close>

definition moved :: "tensor \<Rightarrow> 'v theap \<Rightarrow> shape \<Rightarrow> (nat list \<Rightarrow> nat list) \<Rightarrow> tensor \<Rightarrow> 'v theap \<Rightarrow> bool" where
  "moved t h s g t' h' \<longleftrightarrow> tensor_ok t' h' \<and> t_shape t' = s \<and> t_dtype t' = t_dtype t \<and>
     contiguous (t_layout t') \<and> storage_offset (t_layout t') = 0 \<and> extends h h' \<and>
     (\<forall>cs. valid_coords s cs \<longrightarrow> t_elem t' h' cs = t_elem t h (g cs))"

lemma reindex_loop_ok:
  assumes "\<And>i. i \<in> set ls \<Longrightarrow> i < numel out \<and> f i (coords_of out i) = Some (Inr (g (coords_of out i))) \<and>
      valid_coords s (g (coords_of out i))"
    and "length buf = numel s"
  shows "reindex_loop buf (contiguous_strides s) out f ls acc
    = Some (Inr (acc @ map (\<lambda>i. buf ! ravel s (g (coords_of out i))) ls))"
  using assms(1)
proof (induction ls arbitrary: acc)
  case (Cons i ls)
  note i = Cons.prems[of i, simplified]
  have "ravel s (g (coords_of out i)) < length buf"
    using ravel_less i assms(2) by (simp add: numel_prod_list)
  then have "get_elem buf (linear_of (g (coords_of out i)) (contiguous_strides s))
      = Some (buf ! ravel s (g (coords_of out i)))"
    using i by (simp add: get_elem_def linear_of_ravel valid_coords_length)
  with i Cons show ?case by (simp add: decode_coords_eq)
qed simp

text \<open>The first error ends the loop.\<close>

lemma reindex_loop_err:
  assumes "\<And>j. j \<in> set pre \<Longrightarrow> j < numel out \<and> f j (coords_of out j) = Some (Inr (g (coords_of out j))) \<and>
      valid_coords s (g (coords_of out j))"
    and "i < numel out" "f i (coords_of out i) = Some (Inl e)" and "length buf = numel s"
  shows "reindex_loop buf (contiguous_strides s) out f (pre @ i # post) acc = Some (Inl e)"
  using assms(1)
proof (induction pre arbitrary: acc)
  case Nil
  then show ?case using assms(2,3) by (simp add: decode_coords_eq)
next
  case (Cons j pre)
  note j = Cons.prems[of j, simplified]
  have "ravel s (g (coords_of out j)) < length buf"
    using ravel_less j assms(4) by (simp add: numel_prod_list)
  then have "get_elem buf (linear_of (g (coords_of out j)) (contiguous_strides s))
      = Some (buf ! ravel s (g (coords_of out j)))"
    using j by (simp add: get_elem_def linear_of_ravel valid_coords_length)
  with j Cons show ?case by (simp add: decode_coords_eq)
qed

text \<open>
  The contract of such a kernel with parameters \<open>p\<close> on a source of shape \<open>s\<close>: when it is ready,
  \<open>pick\<close> gives for every coordinate of the output the coordinate \<open>src\<close> of the source, which is
  valid.
\<close>

locale coord_map =
  fixes ready :: "'p \<Rightarrow> shape \<Rightarrow> bool"
    and out :: "'p \<Rightarrow> shape \<Rightarrow> shape"
    and pick :: "'p \<Rightarrow> shape \<Rightarrow> nat \<Rightarrow> nat list \<Rightarrow> (backend_error + nat list) option"
    and src :: "'p \<Rightarrow> shape \<Rightarrow> nat list \<Rightarrow> nat list"
  assumes pick_src: "ready p s \<Longrightarrow> i < numel (out p s) \<Longrightarrow>
      pick p s i (coords_of (out p s) i) = Some (Inr (src p s (coords_of (out p s) i)))"
    and src_valid: "ready p s \<Longrightarrow> valid_coords (out p s) cs \<Longrightarrow> valid_coords s (src p s cs)"
begin

lemma reindex_moved:
  assumes ok: "tensor_ok t h" and s: "s = t_shape t" and r: "ready p s"
    and fits: "fits_memory (t_dtype t) (numel (out p s))"
  shows "\<exists>t' h'. reindex (t_dtype t) t (out p s) (pick p s) h = Some (Inr t', h')
    \<and> moved t h (out p s) (src p s) t' h'"
proof -
  let ?data = "map (\<lambda>i. elems t h ! ravel s (src p s (coords_of (out p s) i))) [0..<numel (out p s)]"
  obtain t' h' where nt: "new_tensor (t_dtype t) (out p s) ?data h = (t', h')" by fastforce
  have len: "length ?data = numel (out p s)" by simp
  have "reindex_loop (elems t h) (contiguous_strides s) (out p s) (pick p s) [0..<numel (out p s)] []
      = Some (Inr ([] @ ?data))"
    using pick_src[OF r] src_valid[OF r] valid_coords_of_less s by (intro reindex_loop_ok) auto
  then have "reindex (t_dtype t) t (out p s) (pick p s) h = Some (Inr t', h')"
    using build_tensor_ok[OF len fits nt] fits_capacity[OF fits]
    by (simp add: reindex_def read_all_ok[OF ok] s)
  moreover have "t_elem t' h' cs = t_elem t h (src p s cs)" if v: "valid_coords (out p s) cs" for cs
  proof -
    have "ravel (out p s) cs < numel (out p s)" using ravel_less[OF v] by (simp add: numel_prod_list)
    then have "t_elem t' h' cs = elems t h ! ravel s (src p s cs)"
      using new_tensor_elem[OF len fits nt v] by (simp add: coords_of_ravel[OF v])
    then show ?thesis using elem_ravel[of t] src_valid[OF r v] s by simp
  qed
  ultimately show ?thesis
    using new_tensor_ok[OF len fits nt] new_tensor_extends[OF nt] unfolding moved_def by blast
qed

end

subsection \<open>Repetition\<close>

lemma map2_mod_valid:
  assumes "0 \<notin> set s" "length s = length rs" "valid_coords (map2 (*) s rs) cs"
  shows "valid_coords s (map2 (mod) cs s)"
proof -
  have "s ! k \<noteq> 0" if "k < length s" for k using assms(1) that by (metis nth_mem)
  then show ?thesis using assms(2,3) by (auto simp: valid_coords_nth)
qed

lemma repeated_empty: "0 \<in> set s \<Longrightarrow> length s = length rs \<Longrightarrow> numel (map2 (*) s rs) = 0"
proof -
  assume "0 \<in> set s" and l: "length s = length rs"
  then obtain k where "k < length s" "s ! k = 0" by (auto simp: in_set_conv_nth)
  with l have "map2 (*) s rs ! k = 0" "k < length (map2 (*) s rs)" by simp_all
  then have "0 \<in> set (map2 (*) s rs)" by (metis nth_mem)
  then show ?thesis by (simp add: numel_eq_0_iff)
qed

interpretation repeat_map: coord_map "\<lambda>rs s. length rs = length s" "\<lambda>rs s. map2 (*) s rs"
  "\<lambda>rs s. repeat_src s" "\<lambda>rs s cs. map2 (mod) cs s"
proof
  fix rs :: "nat list" and s :: shape and i
  assume l: "length rs = length s" and i: "i < numel (map2 (*) s rs)"
  have "0 \<notin> set s" using i repeated_empty[of s rs] l by auto
  then show "repeat_src s i (coords_of (map2 (*) s rs) i) = Some (Inr (map2 (mod) (coords_of (map2 (*) s rs) i) s))"
    by (simp add: repeat_src_def)
next
  fix rs :: "nat list" and s :: shape and cs
  assume l: "length rs = length s" and v: "valid_coords (map2 (*) s rs) cs"
  have "0 \<notin> set s" using ravel_less[OF v] repeated_empty[of s rs] l by (auto simp: numel_prod_list)
  then show "valid_coords s (map2 (mod) cs s)" by (rule map2_mod_valid[OF _ l[symmetric] v])
qed

subsection \<open>Reversal\<close>

text \<open>An axis that is listed twice is reversed twice.\<close>

definition flipped :: "shape \<Rightarrow> nat list \<Rightarrow> nat list \<Rightarrow> nat list" where
  "flipped s dims cs =
     map (\<lambda>k. if odd (count_list dims k) then s ! k - 1 - cs ! k else cs ! k) [0..<length s]"

lemma length_flipped [simp]: "length (flipped s dims cs) = length s"
  by (simp add: flipped_def)

lemma flipped_nth:
  "k < length s \<Longrightarrow> flipped s dims cs ! k = (if odd (count_list dims k) then s ! k - 1 - cs ! k else cs ! k)"
  by (simp add: flipped_def)

lemma flipped_valid: "valid_coords s cs \<Longrightarrow> valid_coords s (flipped s dims cs)"
  by (auto simp: valid_coords_nth flipped_nth)

lemma flipped_flipped: "valid_coords s cs \<Longrightarrow> flipped s dims (flipped s dims cs) = cs"
  by (rule nth_equalityI) (auto simp: valid_coords_nth flipped_nth)

lemma flip_coords_eq:
  "valid_coords s cs \<Longrightarrow> \<forall>d \<in> set dims. d < length s \<Longrightarrow> flip_coords s dims cs = Some (flipped s dims cs)"
proof (induction dims arbitrary: cs)
  case Nil
  then show ?case by (auto simp: valid_coords_nth flipped_nth intro: nth_equalityI)
next
  case (Cons d dims)
  have d: "cs ! d < s ! d" "d < length s" using Cons.prems by (auto simp: valid_coords_nth)
  let ?cs = "cs[d := s ! d - 1 - cs ! d]"
  have v: "valid_coords s ?cs" using Cons.prems by (auto simp: valid_coords_nth nth_list_update)
  have "flipped s dims ?cs = flipped s (d # dims) cs"
    using Cons.prems by (intro nth_equalityI) (auto simp: flipped_nth nth_list_update valid_coords_nth)
  then show ?case using Cons.IH[OF v] Cons.prems d by simp
qed

interpretation flip_map: coord_map "\<lambda>dims s. \<forall>d \<in> set dims. d < length s" "\<lambda>dims s. s"
  "\<lambda>dims s. flip_src s dims" "\<lambda>dims s cs. flipped s dims cs"
  by unfold_locales
    (simp_all add: flip_src_def flip_coords_eq valid_coords_of_less flipped_valid del: coords_of.simps)

lemma flip_check_None: "\<forall>d \<in> set dims. d < length (t_shape t) \<Longrightarrow> flip_check t dims = None"
  by (induction dims) auto

subsection \<open>Rotation\<close>

lemma roll_shift_eq: "0 < n \<Longrightarrow> int (roll_shift k (int n)) = k mod int n"
proof -
  assume n: "0 < n"
  have r: "rem_i64 k (int n) + int n \<ge> 0 \<and> (rem_i64 k (int n) + int n) mod int n = k mod int n"
  proof (cases "k < 0")
    case True
    have "\<bar>k\<bar> mod int n \<le> int n" using n by (simp add: less_imp_le)
    moreover have "(- (\<bar>k\<bar> mod int n) + int n) mod int n = k mod int n"
      using True by (simp add: mod_minus_eq)
    ultimately show ?thesis using True n by (simp add: rem_i64_def)
  next
    case False
    then show ?thesis using n by (simp add: rem_i64_def)
  qed
  then have "rem_i64 (rem_i64 k (int n) + int n) (int n) = k mod int n"
    using n by (simp add: rem_i64_def[of "rem_i64 k (int n) + int n"] del: mod_add_self2)
  then show ?thesis using n by (simp add: roll_shift_def)
qed

lemma roll_shift_less: "0 < n \<Longrightarrow> roll_shift k (int n) < n"
  using roll_shift_eq[of n k] pos_mod_bound[of "int n" k] by linarith

definition rolled :: "shape \<Rightarrow> int \<Rightarrow> nat \<Rightarrow> nat list \<Rightarrow> nat list" where
  "rolled s k dim cs = cs[dim := nat ((int (cs ! dim) - k) mod int (s ! dim))]"

lemma rolled_valid: "valid_coords s cs \<Longrightarrow> dim < length s \<Longrightarrow> valid_coords s (rolled s k dim cs)"
  by (auto simp: valid_coords_nth rolled_def nth_list_update nat_less_iff intro!: pos_mod_bound)

lemma rolled_back: "valid_coords s cs \<Longrightarrow> dim < length s \<Longrightarrow> rolled s k dim (rolled s (- k) dim cs) = cs"
proof -
  assume v: "valid_coords s cs" and d: "dim < length s"
  have c: "cs ! dim < s ! dim" "length cs = length s" using v d by (auto simp: valid_coords_nth)
  have "((int (cs ! dim) + k) mod int (s ! dim) - k) mod int (s ! dim) = int (cs ! dim)"
    using c by (simp add: mod_diff_left_eq)
  then show ?thesis using c d by (simp add: rolled_def)
qed

lemma roll_src_eq:
  assumes v: "valid_coords s cs" and d: "dim < length s" and sh: "sh = roll_shift k (int (s ! dim))"
  shows "roll_src s sh dim i cs = Some (Inr (rolled s k dim cs))"
proof -
  have c: "cs ! dim < s ! dim" using v d by (auto simp: valid_coords_nth)
  have lt: "sh < s ! dim" using roll_shift_less c sh by simp
  have "int ((cs ! dim + s ! dim - sh) mod s ! dim) = (int (cs ! dim) + int (s ! dim) - int sh) mod int (s ! dim)"
    using lt by (simp add: zmod_int)
  also have "\<dots> = (int (cs ! dim) - int sh) mod int (s ! dim)"
    by (metis add.commute add_diff_eq mod_add_self1)
  also have "\<dots> = (int (cs ! dim) - k) mod int (s ! dim)"
    using roll_shift_eq[of "s ! dim" k] c sh by (simp add: mod_diff_right_eq)
  finally have "(cs ! dim + s ! dim - sh) mod s ! dim = nat ((int (cs ! dim) - k) mod int (s ! dim))"
    by linarith
  then show ?thesis using c lt by (simp add: roll_src_def Let_def rolled_def)
qed

interpretation roll_map: coord_map "\<lambda>p s. snd p < length s" "\<lambda>p s. s"
  "\<lambda>p s. roll_src s (roll_shift (fst p) (int (s ! snd p))) (snd p)" "\<lambda>p s cs. rolled s (fst p) (snd p) cs"
  by unfold_locales
    (simp_all add: roll_src_eq valid_coords_of_less rolled_valid del: coords_of.simps)

subsection \<open>Indexing\<close>

lemma index_src_ok: "0 \<le> j \<Longrightarrow> j < int n \<Longrightarrow> index_src op dim n j cs = Inr (cs[dim := nat j])"
  by (auto simp: index_src_def nat_le_iff)

lemma index_src_bad: "j < 0 \<or> int n \<le> j \<Longrightarrow> index_src op dim n j cs = Inl (IndexOutOfBounds op j n)"
  by (auto simp: index_src_def)

text \<open>An index tensor fits \<open>gather\<close> and \<open>scatter\<close> when it is no larger than the indexed tensor on the
  other axes.\<close>

definition index_fits :: "nat \<Rightarrow> shape \<Rightarrow> shape \<Rightarrow> bool" where
  "index_fits dim ish s \<longleftrightarrow> dim < length s \<and> length ish = length s
     \<and> list_all (\<lambda>k. k = dim \<or> ish ! k \<le> s ! k) [0..<length s]"

definition in_range :: "nat \<Rightarrow> int list \<Rightarrow> bool" where
  "in_range n js \<longleftrightarrow> list_all (\<lambda>j. 0 \<le> j \<and> j < int n) js"

lemma index_fits_valid:
  assumes "index_fits dim ish s" "valid_coords ish cs" "0 \<le> j" "j < int (s ! dim)"
  shows "valid_coords s (cs[dim := nat j])"
  using assms by (auto simp: index_fits_def valid_coords_nth list_all_length nth_list_update nat_less_iff
      intro: order.strict_trans2)

interpretation gather_map: coord_map
  "\<lambda>(dim, ish, js) s. index_fits dim ish s \<and> length js = numel ish \<and> in_range (s ! dim) js"
  "\<lambda>(dim, ish, js) s. ish"
  "\<lambda>(dim, ish, js) s linear coords.
     map_option (\<lambda>j. index_src ''gather'' dim (s ! dim) j coords) (get_elem js linear)"
  "\<lambda>(dim, ish, js) s cs. cs[dim := nat (js ! ravel ish cs)]"
proof (unfold_locales, goal_cases)
  case (1 p s i)
  then show ?case
    by (auto simp: get_elem_def in_range_def list_all_length index_src_ok ravel_coords_of numel_prod_list
        split: prod.splits)
next
  case (2 p s cs)
  obtain dim ish js where p: "p = (dim, ish, js)" by (cases p)
  have "ravel ish cs < length js" using 2 ravel_less by (simp add: p numel_prod_list)
  then show ?case using 2 index_fits_valid by (auto simp: p in_range_def list_all_length)
qed

interpretation select_map: coord_map
  "\<lambda>(dim, js) s. dim < length s \<and> in_range (s ! dim) js"
  "\<lambda>(dim, js) s. s[dim := length js]"
  "\<lambda>(dim, js) s linear coords.
     map_option (\<lambda>j. index_src ''index_select'' dim (s ! dim) j coords) (get_elem js (coords ! dim))"
  "\<lambda>(dim, js) s cs. cs[dim := nat (js ! (cs ! dim))]"
proof (unfold_locales, goal_cases)
  case (1 p s i)
  obtain dim js where p: "p = (dim, js)" by (cases p)
  have v: "valid_coords (s[dim := length js]) (coords_of (s[dim := length js]) i)"
    using 1 by (intro valid_coords_of_less) (simp add: p)
  then have "coords_of (s[dim := length js]) i ! dim < length js"
    using 1 by (auto simp: p valid_coords_nth)
  then show ?case using 1 by (simp add: p get_elem_def in_range_def list_all_length index_src_ok)
next
  case (2 p s cs)
  obtain dim js where p: "p = (dim, js)" by (cases p)
  have "cs ! dim < length js" using 2 by (auto simp: p valid_coords_nth)
  then show ?case
    using 2 by (auto simp: p in_range_def list_all_length valid_coords_nth nth_list_update nat_less_iff)
qed

lemma reindex_loop_some_err:
  assumes cases: "\<And>i. i \<in> set ls \<Longrightarrow> i < numel out \<and>
      ((f i (coords_of out i) = Some (Inr (g (coords_of out i))) \<and> valid_coords s (g (coords_of out i)))
       \<or> (\<exists>e. f i (coords_of out i) = Some (Inl e) \<and> Q e))"
    and bad: "\<exists>i \<in> set ls. \<exists>e. f i (coords_of out i) = Some (Inl e)" and len: "length buf = numel s"
  shows "\<exists>e. reindex_loop buf (contiguous_strides s) out f ls acc = Some (Inl e) \<and> Q e"
proof -
  obtain pre i post where ls: "ls = pre @ i # post" and i: "\<exists>e. f i (coords_of out i) = Some (Inl e)"
    and pre: "\<forall>j \<in> set pre. \<not> (\<exists>e. f j (coords_of out j) = Some (Inl e))"
    using split_list_first_prop[OF bad] by blast
  from i cases[of i] ls obtain e where e: "f i (coords_of out i) = Some (Inl e)" "Q e" by auto
  have "reindex_loop buf (contiguous_strides s) out f (pre @ i # post) acc = Some (Inl e)"
    using cases ls pre e(1) len by (intro reindex_loop_err[of _ out f g s]) fastforce+
  with e ls show ?thesis by blast
qed

lemma gather_eq:
  assumes "tensor_ok idx h" "t_dtype idx = I64" "length (t_shape idx) = length (t_shape t)"
    "dim < length (t_shape t)" "index_op_dtype (t_dtype t)"
  shows "gather to_int t dim idx h = reindex (t_dtype t) t (t_shape idx)
    (\<lambda>linear coords. map_option (\<lambda>j. index_src ''gather'' dim (t_shape t ! dim) j coords)
      (get_elem (map to_int (elems idx h)) linear)) h"
  using assms by (simp add: gather_def gather_typed_def read_all_ok)

lemma index_select_eq:
  assumes "tensor_ok idx h" "t_dtype idx = I64" "length (t_shape idx) = 1"
    "dim < length (t_shape t)" "index_op_dtype (t_dtype t)"
  shows "index_select to_int t dim idx h = reindex (t_dtype t) t ((t_shape t)[dim := t_numel idx])
    (\<lambda>linear coords. map_option (\<lambda>j. index_src ''index_select'' dim (t_shape t ! dim) j coords)
      (get_elem (map to_int (elems idx h)) (coords ! dim))) h"
  using assms by (simp add: index_select_def index_select_typed_def read_all_ok)

lemma gather_ok:
  assumes ok: "tensor_ok t h" "tensor_ok idx h" and d: "t_dtype idx = I64" "index_op_dtype (t_dtype t)"
    and fit: "index_fits dim (t_shape idx) (t_shape t)"
    and r: "in_range (t_shape t ! dim) (map to_int (elems idx h))"
    and fits: "fits_memory (t_dtype t) (t_numel idx)"
  shows "\<exists>t' h'. gather to_int t dim idx h = Some (Inr t', h') \<and>
    moved t h (t_shape idx) (\<lambda>cs. cs[dim := nat (to_int (t_elem idx h cs))]) t' h'"
proof -
  have "\<exists>t' h'. gather to_int t dim idx h = Some (Inr t', h') \<and>
    moved t h (t_shape idx) (\<lambda>cs. cs[dim := nat (map to_int (elems idx h) ! ravel (t_shape idx) cs)]) t' h'"
    using gather_map.reindex_moved[OF ok(1) refl, of "(dim, t_shape idx, map to_int (elems idx h))"]
      fit r fits d gather_eq[OF ok(2) d(1) _ _ d(2), of dim to_int]
    by (simp add: index_fits_def)
  moreover have "map to_int (elems idx h) ! ravel (t_shape idx) cs = to_int (t_elem idx h cs)"
    if "valid_coords (t_shape idx) cs" for cs
    using elem_ravel[OF that, of h] ravel_less[OF that] by (simp add: numel_prod_list)
  ultimately show ?thesis by (auto simp: moved_def)
qed

lemma gather_err:
  assumes ok: "tensor_ok t h" "tensor_ok idx h" and d: "t_dtype idx = I64" "index_op_dtype (t_dtype t)"
    and fit: "index_fits dim (t_shape idx) (t_shape t)"
    and r: "\<not> in_range (t_shape t ! dim) (map to_int (elems idx h))"
    and fits: "fits_memory (t_dtype t) (t_numel idx)"
  shows "\<exists>j. gather to_int t dim idx h = Some (Inl (IndexOutOfBounds ''gather'' j (t_shape t ! dim)), h) \<and>
    (j < 0 \<or> int (t_shape t ! dim) \<le> j) \<and> j \<in> to_int ` set (elems idx h)"
proof -
  let ?n = "t_shape t ! dim" and ?js = "map to_int (elems idx h)" and ?out = "t_shape idx"
  let ?f = "\<lambda>linear coords. map_option (\<lambda>j. index_src ''gather'' dim ?n j coords) (get_elem ?js linear)"
  let ?Q = "\<lambda>e. \<exists>j. e = IndexOutOfBounds ''gather'' j ?n \<and> (j < 0 \<or> int ?n \<le> j) \<and> j \<in> set ?js"
  have len: "length ?js = numel ?out" by simp
  have bad: "?f i cs = Some (Inl (IndexOutOfBounds ''gather'' (?js ! i) ?n))"
    if "i < numel ?out" "?js ! i < 0 \<or> int ?n \<le> ?js ! i" for i cs
    using that by (simp add: get_elem_def index_src_bad)
  obtain i0 where i0: "i0 < numel ?out" "?js ! i0 < 0 \<or> int ?n \<le> ?js ! i0"
    using r by (auto simp: in_range_def list_all_length not_le not_less)
  have "\<exists>e. reindex_loop (elems t h) (contiguous_strides (t_shape t)) ?out ?f [0..<numel ?out] [] = Some (Inl e) \<and> ?Q e"
  proof (rule reindex_loop_some_err[where g = "\<lambda>cs. cs[dim := nat (?js ! ravel ?out cs)]"])
    show "\<exists>i \<in> set [0..<numel ?out]. \<exists>e. ?f i (coords_of ?out i) = Some (Inl e)"
    proof (intro bexI exI)
      show "?f i0 (coords_of ?out i0) = Some (Inl (IndexOutOfBounds ''gather'' (?js ! i0) ?n))" by (rule bad[OF i0])
      show "i0 \<in> set [0..<numel ?out]" using i0(1) by simp
    qed
    fix i assume "i \<in> set [0..<numel ?out]"
    then have i: "i < numel ?out" by simp
    show "i < numel ?out \<and> ((?f i (coords_of ?out i) = Some (Inr ((coords_of ?out i)[dim := nat (?js ! ravel ?out (coords_of ?out i))]))
        \<and> valid_coords (t_shape t) ((coords_of ?out i)[dim := nat (?js ! ravel ?out (coords_of ?out i))]))
        \<or> (\<exists>e. ?f i (coords_of ?out i) = Some (Inl e) \<and> ?Q e))"
    proof (cases "?js ! i < 0 \<or> int ?n \<le> ?js ! i")
      case True
      have "?js ! i \<in> set ?js" using i len by (intro nth_mem) simp
      with True bad[OF i True] i show ?thesis by blast
    next
      case False
      have "ravel ?out (coords_of ?out i) = i" using i by (simp add: ravel_coords_of numel_prod_list)
      then show ?thesis
        using False i index_fits_valid[OF fit valid_coords_of_less[OF i], of "?js ! i"]
        by (simp add: get_elem_def index_src_ok)
    qed
  qed simp
  then show ?thesis
    using gather_eq[OF ok(2) d(1) _ _ d(2), of dim to_int] fit fits_capacity[OF fits]
    by (auto simp: index_fits_def reindex_def read_all_ok[OF ok(1)])
qed

lemma index_select_ok:
  assumes ok: "tensor_ok t h" "tensor_ok idx h" and d: "t_dtype idx = I64" "index_op_dtype (t_dtype t)"
    and one: "t_shape idx = [n]" and dim: "dim < length (t_shape t)"
    and r: "in_range (t_shape t ! dim) (map to_int (elems idx h))"
    and fits: "fits_memory (t_dtype t) (numel ((t_shape t)[dim := n]))"
  shows "\<exists>t' h'. index_select to_int t dim idx h = Some (Inr t', h') \<and>
    moved t h ((t_shape t)[dim := n]) (\<lambda>cs. cs[dim := nat (to_int (t_elem idx h [cs ! dim]))]) t' h'"
proof -
  have n: "t_numel idx = n" by (simp add: one numel_prod_list)
  have "\<exists>t' h'. index_select to_int t dim idx h = Some (Inr t', h') \<and>
    moved t h ((t_shape t)[dim := n]) (\<lambda>cs. cs[dim := nat (map to_int (elems idx h) ! (cs ! dim))]) t' h'"
    using select_map.reindex_moved[OF ok(1) refl, of "(dim, map to_int (elems idx h))"]
      dim r fits n index_select_eq[OF ok(2) d(1) _ dim d(2), of to_int]
    by (simp add: one)
  moreover have "map to_int (elems idx h) ! (cs ! dim) = to_int (t_elem idx h [cs ! dim])"
    if "valid_coords ((t_shape t)[dim := n]) cs" for cs
  proof -
    have "cs ! dim < n" using that dim by (auto simp: valid_coords_nth)
    then show ?thesis
      using elem_ravel[of idx "[cs ! dim]" h] n by (simp add: one valid_coords_Cons)
  qed
  ultimately show ?thesis by (auto simp: moved_def)
qed

text \<open>\<open>scatter\<close>: the element at \<open>cs\<close> takes, in the order of the index tensor, every source element
  that is sent there.\<close>

definition scattered :: "bool \<Rightarrow> ('v \<Rightarrow> 'v \<Rightarrow> 'v) \<Rightarrow> 'v list \<Rightarrow> 'v \<Rightarrow> nat list \<Rightarrow> 'v" where
  "scattered accumulate add xs v is = foldl (\<lambda>acc i. if accumulate then add acc (xs ! i) else xs ! i) v is"

lemma scatter_loop_ok:
  assumes tgt: "\<And>i. i \<in> set ls \<Longrightarrow> i < numel ish \<and> 0 \<le> js ! i \<and> js ! i < int n \<and>
      valid_coords s ((coords_of ish i)[dim := nat (js ! i)])"
    and len: "length js = numel ish" "length xs = numel ish" "length dst = numel s"
  shows "scatter_loop op acc add dim n (contiguous_strides s) ish js xs ls dst =
    Some (Inr (map (\<lambda>p. scattered acc add xs (dst ! p)
      (filter (\<lambda>i. ravel s ((coords_of ish i)[dim := nat (js ! i)]) = p) ls)) [0..<numel s]))"
  using tgt len(3)
proof (induction ls arbitrary: dst)
  case Nil
  then show ?case by (auto simp: scattered_def intro: nth_equalityI)
next
  case (Cons i ls)
  let ?cs = "(coords_of ish i)[dim := nat (js ! i)]"
  let ?v = "if acc then add (dst ! ravel s ?cs) (xs ! i) else xs ! i"
  note i = Cons.prems(1)[of i, simplified]
  have p: "ravel s ?cs < numel s" using ravel_less[of s ?cs] i by (simp add: numel_prod_list)
  have lin: "linear_of ?cs (contiguous_strides s) = ravel s ?cs"
    using i by (intro linear_of_ravel valid_coords_length) blast
  have "scatter_loop op acc add dim n (contiguous_strides s) ish js xs (i # ls) dst
      = scatter_loop op acc add dim n (contiguous_strides s) ish js xs ls (dst[ravel s ?cs := ?v])"
    using i p len Cons.prems(2)
    by (simp add: decode_coords_eq get_elem_def index_src_ok lin Let_def)
  also have "\<dots> = Some (Inr (map (\<lambda>p. scattered acc add xs ((dst[ravel s ?cs := ?v]) ! p)
      (filter (\<lambda>i. ravel s ((coords_of ish i)[dim := nat (js ! i)]) = p) ls)) [0..<numel s]))"
    using Cons.prems by (intro Cons.IH) auto
  also have "map (\<lambda>p. scattered acc add xs ((dst[ravel s ?cs := ?v]) ! p)
      (filter (\<lambda>i. ravel s ((coords_of ish i)[dim := nat (js ! i)]) = p) ls)) [0..<numel s]
    = map (\<lambda>p. scattered acc add xs (dst ! p)
      (filter (\<lambda>i. ravel s ((coords_of ish i)[dim := nat (js ! i)]) = p) (i # ls))) [0..<numel s]"
    using Cons.prems(2) p by (auto simp: scattered_def nth_list_update)
  finally show ?case .
qed

lemma ravel_eq_iff: "valid_coords s cs \<Longrightarrow> valid_coords s cs' \<Longrightarrow> ravel s cs = ravel s cs' \<longleftrightarrow> cs = cs'"
  using ravel_inj[of s] by (auto simp: inj_on_def)

lemma scatter_ok:
  assumes ok: "tensor_ok t h" "tensor_ok idx h" "tensor_ok u h"
    and d: "t_dtype idx = I64" "index_op_dtype (t_dtype t)" "t_dtype u = t_dtype t"
    and fit: "index_fits dim (t_shape idx) (t_shape t)" "t_shape u = t_shape idx"
    and r: "in_range (t_shape t ! dim) (map to_int (elems idx h))"
  shows "\<exists>t' h'. scatter_dispatch to_int adds t dim idx u op acc h = Some (Inr t', h') \<and>
    tensor_ok t' h' \<and> t_shape t' = t_shape t \<and> t_dtype t' = t_dtype t \<and> extends h h' \<and>
    (\<forall>cs. valid_coords (t_shape t) cs \<longrightarrow> t_elem t' h' cs =
      scattered acc (adds (t_dtype t)) (elems u h) (t_elem t h cs)
        (filter (\<lambda>i. (coords_of (t_shape idx) i)[dim := nat (to_int (elems idx h ! i))] = cs) [0..<t_numel idx]))"
proof -
  let ?s = "t_shape t" and ?ish = "t_shape idx" and ?js = "map to_int (elems idx h)"
  let ?tgt = "\<lambda>i. (coords_of ?ish i)[dim := nat (?js ! i)]"
  let ?data = "map (\<lambda>p. scattered acc (adds (t_dtype t)) (elems u h) (elems t h ! p)
      (filter (\<lambda>i. ravel ?s (?tgt i) = p) [0..<numel ?ish])) [0..<numel ?s]"
  have fits: "fits_memory (t_dtype t) (t_numel t)"
    using ok(1) numel_le_data[OF ok(1)] fits_memory_mono by (auto simp: tensor_ok_def)
  obtain t' h' where nt: "new_tensor (t_dtype t) ?s ?data h = (t', h')" by fastforce
  have len: "length ?data = numel ?s" by simp
  have tgt: "i < numel ?ish \<and> 0 \<le> ?js ! i \<and> ?js ! i < int (?s ! dim) \<and> valid_coords ?s (?tgt i)"
    if "i \<in> set [0..<numel ?ish]" for i
    using that r index_fits_valid[OF fit(1) valid_coords_of_less[of i]]
    by (auto simp: in_range_def list_all_length)
  have "scatter_loop op acc (adds (t_dtype t)) dim (?s ! dim) (contiguous_strides ?s) ?ish ?js (elems u h)
      [0..<numel ?ish] (elems t h) = Some (Inr ?data)"
    by (rule scatter_loop_ok) (use tgt fit(2) in \<open>simp_all\<close>)
  then have run: "scatter_dispatch to_int adds t dim idx u op acc h = Some (Inr t', h')"
    using build_tensor_ok[OF len fits nt] d fit(1) fit(2)
    by (simp add: scatter_dispatch_def scatter_typed_def read_all_ok ok index_fits_def)
  have "t_elem t' h' cs = scattered acc (adds (t_dtype t)) (elems u h) (t_elem t h cs)
        (filter (\<lambda>i. (coords_of ?ish i)[dim := nat (to_int (elems idx h ! i))] = cs) [0..<t_numel idx])"
    if v: "valid_coords ?s cs" for cs
  proof -
    have "filter (\<lambda>i. ravel ?s (?tgt i) = ravel ?s cs) [0..<numel ?ish]
        = filter (\<lambda>i. (coords_of ?ish i)[dim := nat (to_int (elems idx h ! i))] = cs) [0..<numel ?ish]"
      using tgt ravel_eq_iff[OF _ v] by (intro filter_cong) auto
    then show ?thesis
      using new_tensor_elem[OF len fits nt v] ravel_less[OF v] elem_ravel[OF v, of h]
      by (simp add: numel_prod_list)
  qed
  then show ?thesis
    using run new_tensor_ok[OF len fits nt] new_tensor_extends[OF nt] by blast
qed

subsection \<open>Masks\<close>

lemma where_ok:
  assumes ok: "tensor_ok c h" "tensor_ok x h" "tensor_ok y h"
    and d: "t_dtype c = Bool" "t_dtype x = t_dtype y" "index_op_dtype (t_dtype x)"
    and s: "t_shape c = t_shape x" "t_shape y = t_shape x"
  shows "\<exists>t' h'. where_tensor to_bool c x y h = Some (Inr t', h') \<and> tensor_ok t' h' \<and> extends h h' \<and>
    t_shape t' = t_shape x \<and> t_dtype t' = t_dtype x \<and>
    (\<forall>cs. valid_coords (t_shape x) cs \<longrightarrow>
      t_elem t' h' cs = (if to_bool (t_elem c h cs) then t_elem x h cs else t_elem y h cs))"
proof -
  let ?data = "map (\<lambda>(c, xi, yi). if to_bool c then xi else yi) (zip (elems c h) (zip (elems x h) (elems y h)))"
  have fits: "fits_memory (t_dtype x) (t_numel x)"
    using ok(2) numel_le_data[OF ok(2)] fits_memory_mono by (auto simp: tensor_ok_def)
  obtain t' h' where nt: "new_tensor (t_dtype x) (t_shape x) ?data h = (t', h')" by fastforce
  have len: "length ?data = t_numel x" using s by simp
  have "where_tensor to_bool c x y h = Some (Inr t', h')"
    using build_tensor_ok[OF len fits nt] d s by (simp add: where_tensor_def where_typed_def read_all_ok ok)
  moreover have "t_elem t' h' cs = (if to_bool (t_elem c h cs) then t_elem x h cs else t_elem y h cs)"
    if v: "valid_coords (t_shape x) cs" for cs
    using new_tensor_elem[OF len fits nt v] ravel_less[OF v] s v
      elem_ravel[of c cs h] elem_ravel[of x cs h] elem_ravel[of y cs h]
    by (simp add: numel_prod_list)
  ultimately show ?thesis
    using new_tensor_ok[OF len fits nt] new_tensor_extends[OF nt] by blast
qed

lemma masked_fill_ok:
  assumes ok: "tensor_ok x h" "tensor_ok m h" and d: "t_dtype m = Bool" "index_op_dtype (t_dtype x)"
    and s: "t_shape m = t_shape x"
  shows "\<exists>t' h'. masked_fill to_bool x m value h = Some (Inr t', h') \<and> tensor_ok t' h' \<and> extends h h' \<and>
    t_shape t' = t_shape x \<and> t_dtype t' = t_dtype x \<and>
    (\<forall>cs. valid_coords (t_shape x) cs \<longrightarrow>
      t_elem t' h' cs = (if to_bool (t_elem m h cs) then value (t_dtype x) else t_elem x h cs))"
proof -
  let ?data = "map (\<lambda>(v, b). if to_bool b then value (t_dtype x) else v) (zip (elems x h) (elems m h))"
  have fits: "fits_memory (t_dtype x) (t_numel x)"
    using ok(1) numel_le_data[OF ok(1)] fits_memory_mono by (auto simp: tensor_ok_def)
  obtain t' h' where nt: "new_tensor (t_dtype x) (t_shape x) ?data h = (t', h')" by fastforce
  have len: "length ?data = t_numel x" using s by simp
  have "masked_fill to_bool x m value h = Some (Inr t', h')"
    using build_tensor_ok[OF len fits nt] d s by (simp add: masked_fill_def masked_fill_typed_def read_all_ok ok)
  moreover have "t_elem t' h' cs = (if to_bool (t_elem m h cs) then value (t_dtype x) else t_elem x h cs)"
    if v: "valid_coords (t_shape x) cs" for cs
    using new_tensor_elem[OF len fits nt v] ravel_less[OF v] s v
      elem_ravel[of x cs h] elem_ravel[of m cs h]
    by (simp add: numel_prod_list)
  ultimately show ?thesis
    using new_tensor_ok[OF len fits nt] new_tensor_extends[OF nt] by blast
qed

lemma masked_select_ok:
  assumes ok: "tensor_ok x h" "tensor_ok m h" and d: "t_dtype m = Bool" "index_op_dtype (t_dtype x)"
    and s: "t_shape m = t_shape x"
  shows "\<exists>t' h'. masked_select to_bool x m h = Some (Inr t', h') \<and> tensor_ok t' h' \<and> extends h h' \<and>
    t_dtype t' = t_dtype x \<and> t_shape t' = [length (elems t' h')] \<and>
    elems t' h' = map (\<lambda>i. elems x h ! i) (filter (\<lambda>i. to_bool (elems m h ! i)) [0..<t_numel x])"
proof -
  let ?data = "map fst (filter (\<lambda>(v, b). to_bool b) (zip (elems x h) (elems m h)))"
  have fits_x: "fits_memory (t_dtype x) (t_numel x)"
    using ok(1) numel_le_data[OF ok(1)] fits_memory_mono by (auto simp: tensor_ok_def)
  have "length ?data \<le> t_numel x"
    using length_filter_le[of "\<lambda>(v, b). to_bool b" "zip (elems x h) (elems m h)"] s by simp
  then have fits: "fits_memory (t_dtype x) (numel [length ?data])"
    using fits_memory_mono[OF fits_x] by (simp add: numel_prod_list)
  obtain t' h' where nt: "new_tensor (t_dtype x) [length ?data] ?data h = (t', h')" by fastforce
  have len: "length ?data = numel [length ?data]" by (simp add: numel_prod_list)
  have "from_vec_sized (t_dtype x) [length ?data] ?data h = (Inr t', h')"
    using build_tensor_ok[OF len fits nt] by (auto simp: build_tensor_def split: prod.splits sum.splits)
  then have "masked_select to_bool x m h = Some (Inr t', h')"
    using d s by (simp add: masked_select_def masked_select_typed_def read_all_ok ok Let_def)
  moreover have "zip (elems x h) (elems m h) = map (\<lambda>i. (elems x h ! i, elems m h ! i)) [0..<t_numel x]"
    using s by (intro nth_equalityI) simp_all
  then have "?data = map (\<lambda>i. elems x h ! i) (filter (\<lambda>i. to_bool (elems m h ! i)) [0..<t_numel x])"
    by (simp add: filter_map o_def)
  ultimately show ?thesis
    using new_tensor_ok[OF len fits nt] new_tensor_extends[OF nt] by metis
qed

section \<open>Element-wise operations\<close>

lemma map_chunks_eq: "0 < c \<Longrightarrow> map_chunks c f xs = map f xs"
proof (induction c f xs rule: map_chunks.induct)
  case (1 c f xs)
  then show ?case
    by (subst map_chunks.simps) (simp flip: map_append)
qed

lemma map_unary_ok:
  assumes ok: "tensor_ok t h" and d: "t_dtype t = d" and fits: "fits_memory u (t_numel t)"
  shows "\<exists>t' h'. map_unary d u op f t h = Some (Inr t', h') \<and> tensor_ok t' h' \<and> extends h h' \<and>
    t_shape t' = t_shape t \<and> t_dtype t' = u \<and> contiguous (t_layout t') \<and> storage_offset (t_layout t') = 0 \<and>
    elems t' h' = map f (elems t h)"
proof -
  obtain t' h' where nt: "new_tensor u (t_shape t) (map f (elems t h)) h = (t', h')" by fastforce
  have len: "length (map f (elems t h)) = t_numel t" by simp
  note b = build_tensor_ok[OF len fits nt]
  have inv: "layout_inv (t_layout t) (length (t_data t h))" using ok by (simp add: tensor_ok_def)
  have "map_unary d u op f t h = Some (Inr t', h')"
  proof (cases "contiguous (t_layout t) \<and> storage_offset (t_layout t) = 0")
    case True
    have "take (t_numel t) (t_data t h) = elems t h"
      using True contiguous_numel_data[OF ok] by (auto simp: as_slice_def Let_def split: if_splits)
    then show ?thesis
      using True d b fits_capacity[OF fits] numel_le_data[OF ok]
      by (simp add: map_unary_def Let_def map_chunks_eq CHUNK_def)
  next
    case False
    have "those (map (unary_elem f t (t_data t h)) [0..<t_numel t]) = Some (map f (elems t h))"
      using strided_index_addr[OF inv]
      by (subst those_map_Some[of _ _ "\<lambda>i. f (elems t h ! i)"])
        (auto simp: unary_elem_def linear_to_offset_def get_elem_def elems_def t_elem_def)
    then show ?thesis
      using d b fits_capacity[OF fits] unfolding map_unary_def Let_def if_not_P[OF False] by simp
  qed
  then show ?thesis using new_tensor_ok[OF len fits nt] new_tensor_extends[OF nt] by blast
qed

lemma broadcast_absorb: "broadcast_with a b = Inr c \<Longrightarrow> broadcast_with a c = Inr c"
  by (rule broadcast_withI)
    (use broadcast_with_dims[of a b c] in \<open>auto simp: compatible_def join_dim_def split: if_splits\<close>)

lemma build_plan_ok:
  assumes "t_dtype lhs = t_dtype rhs" "broadcast_with (t_shape lhs) (t_shape rhs) = Inr s"
  obtains ls rs where "expand_strides_to (t_shape lhs) s = Inr ls" "expand_strides_to (t_shape rhs) s = Inr rs"
    "build_plan lhs rhs op = Inr \<lparr>bp_out_shape = s, bp_lhs_strides = ls, bp_rhs_strides = rs,
       bp_lhs_offset = storage_offset (t_layout lhs), bp_rhs_offset = storage_offset (t_layout rhs)\<rparr>"
proof -
  obtain ls where ls: "expand_strides_to (t_shape lhs) s = Inr ls"
    using expand_strides_exists broadcast_absorb[OF assms(2)] by blast
  obtain rs where rs: "expand_strides_to (t_shape rhs) s = Inr rs"
    using expand_strides_exists broadcast_absorb[OF broadcast_with_commute[OF assms(2)]] by blast
  show thesis by (rule that[OF ls rs]) (simp add: build_plan_def assms ls rs)
qed

text \<open>What the strided loop computes, whatever the layouts of the operands are: it reads both of them
  as if they were dense behind their offset.\<close>

lemma map_binary_reads:
  assumes ok: "tensor_ok lhs h" "tensor_ok rhs h" and d: "t_dtype lhs = d" "t_dtype rhs = d"
    and bc: "broadcast_with (t_shape lhs) (t_shape rhs) = Inr s" and fits: "fits_memory u (numel s)"
  shows "\<exists>t' h'. map_binary d u op f lhs rhs h = Some (Inr t', h') \<and> tensor_ok t' h' \<and> extends h h' \<and>
    t_shape t' = s \<and> t_dtype t' = u \<and> contiguous (t_layout t') \<and> storage_offset (t_layout t') = 0 \<and>
    (\<forall>cs. valid_coords s cs \<longrightarrow> t_elem t' h' cs = f (rhs_read lhs h cs) (rhs_read rhs h cs))"
proof -
  let ?data = "map (\<lambda>i. f (rhs_read lhs h (coords_of s i)) (rhs_read rhs h (coords_of s i))) [0..<numel s]"
  have dd: "t_dtype lhs = t_dtype rhs" using d by simp
  obtain ls rs where st: "expand_strides_to (t_shape lhs) s = Inr ls" "expand_strides_to (t_shape rhs) s = Inr rs"
    and plan: "build_plan lhs rhs op = Inr \<lparr>bp_out_shape = s, bp_lhs_strides = ls, bp_rhs_strides = rs,
       bp_lhs_offset = storage_offset (t_layout lhs), bp_rhs_offset = storage_offset (t_layout rhs)\<rparr>"
    by (rule build_plan_ok[OF dd bc, of op])
  obtain t' h' where nt: "new_tensor u s ?data h = (t', h')" by fastforce
  have len: "length ?data = numel s" by simp
  note b = build_tensor_ok[OF len fits nt]
  have "map_binary d u op f lhs rhs h = Some (Inr t', h')"
  proof (cases "t_shape lhs = t_shape rhs \<and> contiguous (t_layout lhs) \<and> contiguous (t_layout rhs)
          \<and> storage_offset (t_layout lhs) = 0 \<and> storage_offset (t_layout rhs) = 0")
    case True
    have s: "t_shape lhs = s" "t_shape rhs = s"
      using bc True broadcast_withI[of s s s] broadcast_with_dims[OF bc]
      by (auto simp: compatible_def join_dim_def intro: shape_eqI)
    have "map2 f (take (numel s) (t_data lhs h)) (take (numel s) (t_data rhs h)) = ?data"
      using numel_le_data[OF ok(1)] numel_le_data[OF ok(2)] True s
      by (intro nth_equalityI)
        (simp_all add: rhs_read_def project_coords_self valid_coords_of_less ravel_coords_of numel_prod_list)
    then show ?thesis
      using True s d b fits_capacity[OF fits] numel_le_data[OF ok(1)] numel_le_data[OF ok(2)]
      by (simp add: map_binary_def map_binary_contiguous_parallel_def Let_def zip_chunks_eq CHUNK_def)
  next
    case False
    have "those (map (binary_elem f \<lparr>bp_out_shape = s, bp_lhs_strides = ls, bp_rhs_strides = rs,
       bp_lhs_offset = storage_offset (t_layout lhs), bp_rhs_offset = storage_offset (t_layout rhs)\<rparr>
       (t_data lhs h) (t_data rhs h)) [0..<numel s]) = Some ?data"
      using rhs_index[OF ok(1) st(1)] rhs_index[OF ok(2) st(2)]
      by (intro those_map_Some) (auto simp: binary_elem_def linear_to_offset_def get_elem_def rhs_read_def)
    then show ?thesis
      using d b plan fits_capacity[OF fits] unfolding map_binary_def if_not_P[OF False] by simp
  qed
  moreover have "t_elem t' h' cs = f (rhs_read lhs h cs) (rhs_read rhs h cs)" if v: "valid_coords s cs" for cs
    using new_tensor_elem[OF len fits nt v] ravel_less[OF v] by (simp add: coords_of_ravel[OF v] numel_prod_list)
  ultimately show ?thesis
    using new_tensor_ok[OF len fits nt] new_tensor_extends[OF nt] by blast
qed

text \<open>
  C15. The element-wise kernels.  \<open>map_unary\<close> applies the function to every element of a tensor of
  any layout.  \<open>map_binary\<close> on two dense operands whose shapes broadcast applies the function to
  the two elements that broadcasting pairs.  Neither panics, whichever path (chunked in
  parallel, sequential, strided) runs, and no existing tensor changes.
\<close>

theorem elementwise_kernels_correct:
  assumes ok: "tensor_ok lhs h" "tensor_ok rhs h" and d: "t_dtype lhs = d" "t_dtype rhs = d"
    and c: "contiguous (t_layout lhs)" "contiguous (t_layout rhs)"
    and bc: "broadcast_with (t_shape lhs) (t_shape rhs) = Inr s" and fits: "fits_memory u (numel s)"
    and src: "tensor_ok t h" "fits_memory u (t_numel t)"
  shows "(\<exists>t' h'. map_unary (t_dtype t) u op g t h = Some (Inr t', h') \<and> tensor_ok t' h' \<and> extends h h' \<and>
      t_shape t' = t_shape t \<and> t_dtype t' = u \<and> elems t' h' = map g (elems t h)) \<and>
    (\<exists>t' h'. map_binary d u op f lhs rhs h = Some (Inr t', h') \<and> tensor_ok t' h' \<and> extends h h' \<and>
      t_shape t' = s \<and> t_dtype t' = u \<and>
      (\<forall>cs. valid_coords s cs \<longrightarrow> t_elem t' h' cs =
         f (t_elem lhs h (project_coords (t_shape lhs) cs)) (t_elem rhs h (project_coords (t_shape rhs) cs))))"
proof
  show "\<exists>t' h'. map_unary (t_dtype t) u op g t h = Some (Inr t', h') \<and> tensor_ok t' h' \<and> extends h h' \<and>
      t_shape t' = t_shape t \<and> t_dtype t' = u \<and> elems t' h' = map g (elems t h)"
    using map_unary_ok[OF src(1) refl src(2), of op g] by blast
  have "t_dtype lhs = t_dtype rhs" using d by simp
  then obtain ls rs where st: "expand_strides_to (t_shape lhs) s = Inr ls" "expand_strides_to (t_shape rhs) s = Inr rs"
    by (rule build_plan_ok[OF _ bc])
  show "\<exists>t' h'. map_binary d u op f lhs rhs h = Some (Inr t', h') \<and> tensor_ok t' h' \<and> extends h h' \<and>
      t_shape t' = s \<and> t_dtype t' = u \<and>
      (\<forall>cs. valid_coords s cs \<longrightarrow> t_elem t' h' cs =
         f (t_elem lhs h (project_coords (t_shape lhs) cs)) (t_elem rhs h (project_coords (t_shape rhs) cs)))"
    using map_binary_reads[OF ok d bc fits, of op f]
    by (fastforce simp: rhs_read_contiguous[OF ok(1) c(1) st(1)] rhs_read_contiguous[OF ok(2) c(2) st(2)])
qed

theorem elementwise_kernels_correct_witness:
  "\<exists>t' h'. map_binary F32 F32 ''add'' (+) (matrix_at 0) (matrix_at 1) two_matrices = Some (Inr t', h') \<and>
     t_shape t' = [2, 2]"
proof -
  have f: "t_dtype (matrix_at k) = F32" "t_shape (matrix_at k) = [2, 2]" "contiguous (t_layout (matrix_at k))" for k
    by (simp_all add: matrix_at_def contiguous_layout_def)
  have bc: "broadcast_with (t_shape (matrix_at 0)) (t_shape (matrix_at 1)) = Inr [2, 2]"
    unfolding f(2) by code_simp
  have fits: "fits_memory F32 (numel [2, 2])" "fits_memory F32 (t_numel (matrix_at 0))"
    unfolding f(2) by code_simp+
  show ?thesis
    using elementwise_kernels_correct[OF matrices_ok(1,2) f(1) f(1) f(3) f(3) bc fits(1) matrices_ok(1) fits(2)]
    by blast
qed

text \<open>The strides of the operands are not used: adding a transposed matrix adds the matrix itself.\<close>

lemma add_ignores_strides:
  "map_option (\<lambda>(r, h'). case r of Inr t \<Rightarrow> elems t h' | Inl _ \<Rightarrow> [])
     (map_binary F32 F32 ''add'' (+) (matrix_at 0) (transposed_at 1) two_matrices) = Some [10, 20, 30, 40]"
  by code_simp

subsection \<open>The moving kernels\<close>

lemma moved_elems:
  assumes "moved t h (t_shape t) g t' h'" "\<And>cs. valid_coords (t_shape t) cs \<Longrightarrow> g cs = cs"
  shows "elems t' h' = elems t h"
  using assms valid_coords_of_less[of _ "t_shape t"] by (auto simp: elems_def moved_def)

lemma moved_twice:
  assumes "moved t h s g t1 h1" "moved t1 h1 s' g' t2 h2" "\<And>cs. valid_coords s' cs \<Longrightarrow> valid_coords s (g' cs)"
  shows "moved t h s' (\<lambda>cs. g (g' cs)) t2 h2"
  using assms extends_trans[of h h1 h2] by (auto simp: moved_def)

lemma own_fits: "tensor_ok t h \<Longrightarrow> fits_memory (t_dtype t) (t_numel t)"
  using numel_le_data[of t h] fits_memory_mono by (auto simp: tensor_ok_def)

lemma flip_ok:
  assumes ok: "tensor_ok t h" and d: "shape_op_dtype (t_dtype t)" and dims: "\<forall>d \<in> set dims. d < length (t_shape t)"
  shows "\<exists>t' h'. flip t dims h = Some (Inr t', h') \<and> moved t h (t_shape t) (flipped (t_shape t) dims) t' h'"
  using flip_map.reindex_moved[OF ok refl dims own_fits[OF ok]] d by (simp add: flip_def flip_check_None[OF dims])

lemma roll_ok:
  assumes ok: "tensor_ok t h" and d: "shape_op_dtype (t_dtype t)" and dim: "dim < length (t_shape t)"
  shows "\<exists>t' h'. roll t k dim h = Some (Inr t', h') \<and> moved t h (t_shape t) (rolled (t_shape t) k dim) t' h'"
proof (cases "t_shape t ! dim = 0")
  case True
  then have "\<not> valid_coords (t_shape t) cs" for cs using dim by (auto simp: valid_coords_nth)
  then show ?thesis
    using contiguous_tensor_extends[OF ok] True dim by (auto simp: roll_def Let_def moved_def)
next
  case False
  then show ?thesis
    using roll_map.reindex_moved[OF ok refl, of "(k, dim)"] dim d own_fits[OF ok]
    by (simp add: roll_def Let_def)
qed

lemma repeat_ok:
  assumes ok: "tensor_ok t h" and d: "shape_op_dtype (t_dtype t)" and l: "length rs = length (t_shape t)"
    and fits: "fits_memory (t_dtype t) (numel (map2 (*) (t_shape t) rs))"
  shows "\<exists>t' h'. repeat_tensor t rs h = Some (Inr t', h') \<and>
    moved t h (map2 (*) (t_shape t) rs) (\<lambda>cs. map2 (mod) cs (t_shape t)) t' h'"
  using repeat_map.reindex_moved[OF ok refl l fits] d l by (simp add: repeat_tensor_def)

text \<open>
  C30. \<open>repeat\<close>, \<open>flip\<close> and \<open>roll\<close> on a tensor of any layout: the element of the result at \<open>cs\<close> is the
  element of the source at \<open>cs\<close> taken modulo the shape, mirrored on the listed axes, or moved
  back by the shift modulo the axis (any \<open>i64\<close> shift, negative ones included).  Flipping twice, or
  rolling back, gives the original elements.  None of them panics or changes a tensor that
  exists.
\<close>

theorem moving_kernels_correct:
  assumes ok: "tensor_ok t h" and d: "shape_op_dtype (t_dtype t)"
    and rs: "length rs = length (t_shape t)" "fits_memory (t_dtype t) (numel (map2 (*) (t_shape t) rs))"
    and dims: "\<forall>d \<in> set dims. d < length (t_shape t)" and dim: "dim < length (t_shape t)"
  shows "(\<exists>t' h'. repeat_tensor t rs h = Some (Inr t', h') \<and>
      moved t h (map2 (*) (t_shape t) rs) (\<lambda>cs. map2 (mod) cs (t_shape t)) t' h') \<and>
    (\<exists>t1 h1 t2 h2. flip t dims h = Some (Inr t1, h1) \<and> moved t h (t_shape t) (flipped (t_shape t) dims) t1 h1 \<and>
      flip t1 dims h1 = Some (Inr t2, h2) \<and> elems t2 h2 = elems t h) \<and>
    (\<exists>t1 h1 t2 h2. roll t k dim h = Some (Inr t1, h1) \<and> moved t h (t_shape t) (rolled (t_shape t) k dim) t1 h1 \<and>
      roll t1 (- k) dim h1 = Some (Inr t2, h2) \<and> elems t2 h2 = elems t h)"
proof (intro conjI)
  show "\<exists>t' h'. repeat_tensor t rs h = Some (Inr t', h') \<and>
      moved t h (map2 (*) (t_shape t) rs) (\<lambda>cs. map2 (mod) cs (t_shape t)) t' h'"
    by (rule repeat_ok[OF ok d rs])
  obtain t1 h1 where t1: "flip t dims h = Some (Inr t1, h1)" "moved t h (t_shape t) (flipped (t_shape t) dims) t1 h1"
    using flip_ok[OF ok d dims] by blast
  then have m: "tensor_ok t1 h1" "t_shape t1 = t_shape t" "t_dtype t1 = t_dtype t" by (auto simp: moved_def)
  obtain t2 h2 where t2: "flip t1 dims h1 = Some (Inr t2, h2)" "moved t1 h1 (t_shape t) (flipped (t_shape t) dims) t2 h2"
    using flip_ok[OF m(1)] d dims unfolding m by blast
  have "elems t2 h2 = elems t h"
    by (rule moved_elems[OF moved_twice[OF t1(2) t2(2)]]) (simp_all add: flipped_valid flipped_flipped)
  then show "\<exists>t1 h1 t2 h2. flip t dims h = Some (Inr t1, h1) \<and>
      moved t h (t_shape t) (flipped (t_shape t) dims) t1 h1 \<and>
      flip t1 dims h1 = Some (Inr t2, h2) \<and> elems t2 h2 = elems t h"
    using t1 t2(1) by blast
next
  obtain t1 h1 where t1: "roll t k dim h = Some (Inr t1, h1)" "moved t h (t_shape t) (rolled (t_shape t) k dim) t1 h1"
    using roll_ok[OF ok d dim] by blast
  then have m: "tensor_ok t1 h1" "t_shape t1 = t_shape t" "t_dtype t1 = t_dtype t" by (auto simp: moved_def)
  obtain t2 h2 where t2: "roll t1 (- k) dim h1 = Some (Inr t2, h2)"
      "moved t1 h1 (t_shape t) (rolled (t_shape t) (- k) dim) t2 h2"
    using roll_ok[OF m(1), of dim "- k"] d dim unfolding m by blast
  have "elems t2 h2 = elems t h"
    by (rule moved_elems[OF moved_twice[OF t1(2) t2(2)]]) (simp_all add: rolled_valid rolled_back dim)
  then show "\<exists>t1 h1 t2 h2. roll t k dim h = Some (Inr t1, h1) \<and>
      moved t h (t_shape t) (rolled (t_shape t) k dim) t1 h1 \<and>
      roll t1 (- k) dim h1 = Some (Inr t2, h2) \<and> elems t2 h2 = elems t h"
    using t1 t2(1) by blast
qed

theorem moving_kernels_correct_witness:
  "\<exists>t1 h1. roll (transposed_at 1) (- 1) 1 two_matrices = Some (Inr t1, h1) \<and>
     moved (transposed_at 1) two_matrices [2, 2] (rolled [2, 2] (- 1) 1) t1 h1"
proof -
  have f: "t_dtype (transposed_at 1) = F32" "t_shape (transposed_at 1) = [2, 2]"
    by (simp_all add: transposed_at_def)
  have rs: "length [3, 1 :: nat] = length (t_shape (transposed_at 1))"
    "fits_memory (t_dtype (transposed_at 1)) (numel (map2 (*) (t_shape (transposed_at 1)) [3, 1]))"
    and d: "shape_op_dtype (t_dtype (transposed_at 1))" "\<forall>d \<in> set [0, 1]. d < length (t_shape (transposed_at 1))"
      "1 < length (t_shape (transposed_at 1))"
    unfolding f by code_simp+
  show ?thesis
    using moving_kernels_correct[OF matrices_ok(3) d(1) rs d(2,3), of "- 1"] unfolding f by blast
qed

text \<open>
  C31. The indexing kernels, on operands of any layout.  \<open>gather\<close> with an index tensor that is no
  larger than the source on the other axes, and \<open>index_select\<close> with a vector of indices, read
  the elements the indices name; \<open>gather\<close> reports \<open>IndexOutOfBounds\<close> for an index that is
  outside the axis (negative ones included) and never panics.  \<open>scatter\<close> and \<open>scatter_add\<close> put
  into every position the last, or the sum, of the source elements sent there, in index order.
\<close>

theorem indexing_kernels_correct:
  assumes ok: "tensor_ok t h" "tensor_ok idx h" "tensor_ok u h" "tensor_ok sel h"
    and d: "t_dtype idx = I64" "t_dtype sel = I64" "index_op_dtype (t_dtype t)" "t_dtype u = t_dtype t"
    and fit: "index_fits dim (t_shape idx) (t_shape t)" "t_shape u = t_shape idx" "t_shape sel = [n]"
    and fits: "fits_memory (t_dtype t) (t_numel idx)" "fits_memory (t_dtype t) (numel ((t_shape t)[dim := n]))"
    and sel: "in_range (t_shape t ! dim) (map to_int (elems sel h))"
  shows "(if in_range (t_shape t ! dim) (map to_int (elems idx h))
      then (\<exists>t' h'. gather to_int t dim idx h = Some (Inr t', h') \<and>
          moved t h (t_shape idx) (\<lambda>cs. cs[dim := nat (to_int (t_elem idx h cs))]) t' h') \<and>
        (\<forall>acc op. \<exists>t' h'. scatter_dispatch to_int adds t dim idx u op acc h = Some (Inr t', h') \<and>
          tensor_ok t' h' \<and> t_shape t' = t_shape t \<and> t_dtype t' = t_dtype t \<and> extends h h' \<and>
          (\<forall>cs. valid_coords (t_shape t) cs \<longrightarrow> t_elem t' h' cs =
            scattered acc (adds (t_dtype t)) (elems u h) (t_elem t h cs)
              (filter (\<lambda>i. (coords_of (t_shape idx) i)[dim := nat (to_int (elems idx h ! i))] = cs) [0..<t_numel idx])))
      else \<exists>j. gather to_int t dim idx h = Some (Inl (IndexOutOfBounds ''gather'' j (t_shape t ! dim)), h) \<and>
          (j < 0 \<or> int (t_shape t ! dim) \<le> j) \<and> j \<in> to_int ` set (elems idx h)) \<and>
    (\<exists>t' h'. index_select to_int t dim sel h = Some (Inr t', h') \<and>
       moved t h ((t_shape t)[dim := n]) (\<lambda>cs. cs[dim := nat (to_int (t_elem sel h [cs ! dim]))]) t' h')"
proof
  have "dim < length (t_shape t)" using fit(1) by (simp add: index_fits_def)
  then show "\<exists>t' h'. index_select to_int t dim sel h = Some (Inr t', h') \<and>
       moved t h ((t_shape t)[dim := n]) (\<lambda>cs. cs[dim := nat (to_int (t_elem sel h [cs ! dim]))]) t' h'"
    by (rule index_select_ok[OF ok(1,4) d(2,3) fit(3) _ sel fits(2)])
next
  note g = gather_ok[OF ok(1,2) d(1,3) fit(1) _ fits(1), of to_int]
    and e = gather_err[OF ok(1,2) d(1,3) fit(1) _ fits(1), of to_int]
    and s = scatter_ok[OF ok(1-3) d(1,3,4) fit(1,2)]
  show "if in_range (t_shape t ! dim) (map to_int (elems idx h))
      then (\<exists>t' h'. gather to_int t dim idx h = Some (Inr t', h') \<and>
          moved t h (t_shape idx) (\<lambda>cs. cs[dim := nat (to_int (t_elem idx h cs))]) t' h') \<and>
        (\<forall>acc op. \<exists>t' h'. scatter_dispatch to_int adds t dim idx u op acc h = Some (Inr t', h') \<and>
          tensor_ok t' h' \<and> t_shape t' = t_shape t \<and> t_dtype t' = t_dtype t \<and> extends h h' \<and>
          (\<forall>cs. valid_coords (t_shape t) cs \<longrightarrow> t_elem t' h' cs =
            scattered acc (adds (t_dtype t)) (elems u h) (t_elem t h cs)
              (filter (\<lambda>i. (coords_of (t_shape idx) i)[dim := nat (to_int (elems idx h ! i))] = cs) [0..<t_numel idx])))
      else \<exists>j. gather to_int t dim idx h = Some (Inl (IndexOutOfBounds ''gather'' j (t_shape t ! dim)), h) \<and>
          (j < 0 \<or> int (t_shape t ! dim) \<le> j) \<and> j \<in> to_int ` set (elems idx h)"
    using g e s by (cases "in_range (t_shape t ! dim) (map to_int (elems idx h))") auto
qed

definition index_heap :: "int theap" where
  "index_heap = \<lparr>bufs = [\<lparr>buf_dtype = F32, buf_data = [1, 2, 3, 4], buf_strong = 1\<rparr>,
      \<lparr>buf_dtype = I64, buf_data = [1, 0, 0, 1], buf_strong = 1\<rparr>], vers = [0, 0]\<rparr>"

definition dense_at :: "nat \<Rightarrow> shape \<Rightarrow> dtype \<Rightarrow> tensor" where
  "dense_at b s d = \<lparr>t_storage = b, t_layout = contiguous_layout s d, t_version = b,
     t_requires_grad = False, t_device = Cpu\<rparr>"

lemma dense_at_ok:
  assumes "b < length (bufs h)" "b < length (vers h)" "buf_dtype (bufs h ! b) = d"
    and "numel s \<le> length (buf_data (bufs h ! b))" "fits_memory d (length (buf_data (bufs h ! b)))"
  shows "tensor_ok (dense_at b s d) h"
  using assms fits_memory_i64[OF assms(5)] contiguous_layout_inv[OF assms(4)]
  by (simp add: tensor_ok_def dense_at_def) (simp add: contiguous_layout_def)

lemma index_heap_ok:
  "tensor_ok (dense_at 0 [2, 2] F32) index_heap" "tensor_ok (dense_at 1 [2, 2] I64) index_heap"
  "tensor_ok (dense_at 1 [3] I64) index_heap" "tensor_ok (dense_at 1 [1, 3] I64) index_heap"
  by (rule dense_at_ok; code_simp)+

theorem indexing_kernels_correct_witness:
  "\<exists>t' h'. gather (\<lambda>j. j) (dense_at 0 [2, 2] F32) 0 (dense_at 1 [2, 2] I64) index_heap = Some (Inr t', h') \<and>
     t_shape t' = [2, 2]"
proof -
  have d: "t_dtype (dense_at 1 [2, 2] I64) = I64" "t_dtype (dense_at 1 [3] I64) = I64"
    "index_op_dtype (t_dtype (dense_at 0 [2, 2] F32))" "t_dtype (dense_at 0 [2, 2] F32) = t_dtype (dense_at 0 [2, 2] F32)"
    by code_simp+
  have f: "index_fits 0 (t_shape (dense_at 1 [2, 2] I64)) (t_shape (dense_at 0 [2, 2] F32))"
    "t_shape (dense_at 0 [2, 2] F32) = t_shape (dense_at 1 [2, 2] I64)" "t_shape (dense_at 1 [3] I64) = [3]"
    by code_simp+
  have m: "fits_memory (t_dtype (dense_at 0 [2, 2] F32)) (t_numel (dense_at 1 [2, 2] I64))"
    "fits_memory (t_dtype (dense_at 0 [2, 2] F32)) (numel ((t_shape (dense_at 0 [2, 2] F32))[0 := 3]))"
    by code_simp+
  have r: "in_range (t_shape (dense_at 0 [2, 2] F32) ! 0) (map (\<lambda>j. j) (elems (dense_at 1 [3] I64) index_heap))"
    "in_range (t_shape (dense_at 0 [2, 2] F32) ! 0) (map (\<lambda>j. j) (elems (dense_at 1 [2, 2] I64) index_heap))"
    by code_simp+
  have s: "t_shape (dense_at 1 [2, 2] I64) = [2, 2]" by code_simp
  show ?thesis
    using indexing_kernels_correct[OF index_heap_ok(1,2,1,3) d f m r(1), of "\<lambda>_ _ x. x"] r(2)
    unfolding if_P[OF r(2)] s by (auto simp: moved_def)
qed

text \<open>
  \<open>gather\<close> does not compare the other axes: with an index tensor that is wider than the source it
  reads on into the next row instead of reporting a shape error.
\<close>

lemma gather_wraps_rows:
  "map_option (\<lambda>(r, h'). case r of Inr t \<Rightarrow> elems t h' | Inl _ \<Rightarrow> [])
     (gather (\<lambda>j. 0) (dense_at 0 [2, 2] F32) 0 (dense_at 1 [1, 3] I64) index_heap) = Some [1, 2, 3]"
  by code_simp

end
