(* ===== verification/Concat.thy ===== *)
theory Concat
  imports Kernels
begin

text \<open>
  Concatenation, stacking, splitting and chunking: \<open>cat\<close>, \<open>stack\<close>, \<open>split\<close> and \<open>chunk\<close> of
  \<open>rustorch-cpu/src/kernels/shape_ops.rs\<close>, with the drops of the temporary views.
\<close>

section \<open>Concatenation\<close>

fun cat_check_axes :: "nat \<Rightarrow> nat \<Rightarrow> shape \<Rightarrow> shape \<Rightarrow> bool" where
  "cat_check_axes dim axis (a # as) (b # bs) =
     (if axis \<noteq> dim \<and> a \<noteq> b then False else cat_check_axes dim (axis + 1) as bs)"
| "cat_check_axes dim axis _ _ = True"

fun cat_validate :: "tensor \<Rightarrow> nat \<Rightarrow> tensor list \<Rightarrow> backend_error option" where
  "cat_validate first dim [] = None"
| "cat_validate first dim (t # ts) =
     (if t_dtype t \<noteq> t_dtype first then Some (BackendDtypeMismatch ''cat'' (t_dtype first) (t_dtype t))
      else if length (t_shape t) \<noteq> length (t_shape first)
        then Some (BackendShapeMismatch ''cat'' (t_shape first) (t_shape t))
      else if \<not> cat_check_axes dim 0 (t_shape first) (t_shape t)
        then Some (BackendShapeMismatch ''cat'' (t_shape first) (t_shape t))
      else cat_validate first dim ts)"

text \<open>What tensor \<open>t\<close> contributes to the outer position \<open>outer_idx\<close>.  The slice of the buffer
  panics when it is out of range.\<close>

definition cat_piece :: "dtype \<Rightarrow> nat \<Rightarrow> 'v theap \<Rightarrow> nat \<times> tensor \<Rightarrow> 'v list option" where
  "cat_piece d dim h p =
     (let outer_idx = fst p; t = snd p in
      case read_all d t h of
        None \<Rightarrow> None
      | Some buf \<Rightarrow>
          let dim_size = t_shape t ! dim;
              inner = max (numel (drop (dim + 1) (t_shape t))) 1;
              in_offset = outer_idx * dim_size * inner;
              chunk_len = dim_size * inner
          in if in_offset + chunk_len \<le> length buf then Some (take chunk_len (drop in_offset buf)) else None)"

definition cat_typed :: "dtype \<Rightarrow> tensor list \<Rightarrow> nat \<Rightarrow> shape \<Rightarrow> 'v theap \<Rightarrow> 'v kernel_result" where
  "cat_typed d tensors dim out_shape h =
     (if \<not> vec_with_capacity d (numel out_shape) then None
      else let outer = max (numel (take dim out_shape)) 1 in
        case those (map (cat_piece d dim h) (List.product [0..<outer] tensors)) of
          None \<Rightarrow> None
        | Some pieces \<Rightarrow> build_tensor d out_shape (concat pieces) h)"

definition cat :: "tensor list \<Rightarrow> nat \<Rightarrow> 'v theap \<Rightarrow> 'v kernel_result" where
  "cat tensors dim h =
     (case tensors of
        [] \<Rightarrow> Some (Inl (BackendShapeMismatch ''cat'' [] []), h)
      | first # rest \<Rightarrow>
          if dim \<ge> length (t_shape first)
          then Some (Inl (IndexOutOfBounds ''cat'' (as_i64 dim) (length (t_shape first))), h)
          else (case cat_validate first dim rest of
             Some e \<Rightarrow> Some (Inl e, h)
           | None \<Rightarrow>
               let total = sum_list (map (\<lambda>t. t_shape t ! dim) tensors);
                   out_shape = (t_shape first)[dim := total] in
               if shape_op_dtype (t_dtype first) then cat_typed (t_dtype first) tensors dim out_shape h
               else Some (Inl (BackendDtypeMismatch ''cat'' (t_dtype first) (t_dtype first)), h)))"

text \<open>Dropping a tensor drops its share of the buffer.\<close>

definition drop_tensor :: "tensor \<Rightarrow> 'v theap \<Rightarrow> 'v theap" where
  "drop_tensor t h = unshare (t_storage t) h"

definition drop_tensors :: "tensor list \<Rightarrow> 'v theap \<Rightarrow> 'v theap" where
  "drop_tensors ts h = fold drop_tensor ts h"

fun stack_validate :: "tensor \<Rightarrow> tensor list \<Rightarrow> backend_error option" where
  "stack_validate first [] = None"
| "stack_validate first (t # ts) =
     (if t_dtype t \<noteq> t_dtype first then Some (BackendDtypeMismatch ''stack'' (t_dtype first) (t_dtype t))
      else if t_shape t \<noteq> t_shape first then Some (BackendShapeMismatch ''stack'' (t_shape first) (t_shape t))
      else stack_validate first ts)"

text \<open>\<open>t.contiguous().view(new_shape).expect(...)\<close>; the temporary is dropped after the view.\<close>

definition unsqueezed :: "shape \<Rightarrow> tensor \<Rightarrow> 'v theap \<Rightarrow> (tensor \<times> 'v theap) option" where
  "unsqueezed new_shape t h =
     (case contiguous_tensor t h of
        None \<Rightarrow> None
      | Some (c, h1) \<Rightarrow>
          (case expect_ok (view_tensor c (CallView new_shape) h1) of
             None \<Rightarrow> None
           | Some (u, h2) \<Rightarrow> Some (u, drop_tensor c h2)))"

fun unsqueeze_all :: "shape \<Rightarrow> tensor list \<Rightarrow> 'v theap \<Rightarrow> (tensor list \<times> 'v theap) option" where
  "unsqueeze_all new_shape [] h = Some ([], h)"
| "unsqueeze_all new_shape (t # ts) h =
     (case unsqueezed new_shape t h of
        None \<Rightarrow> None
      | Some (u, h1) \<Rightarrow>
          (case unsqueeze_all new_shape ts h1 of
             None \<Rightarrow> None
           | Some (us, h2) \<Rightarrow> Some (u # us, h2)))"

definition stack :: "tensor list \<Rightarrow> nat \<Rightarrow> 'v theap \<Rightarrow> 'v kernel_result" where
  "stack tensors dim h =
     (case tensors of
        [] \<Rightarrow> Some (Inl (BackendShapeMismatch ''stack'' [] []), h)
      | first # rest \<Rightarrow>
          if dim > length (t_shape first)
          then Some (Inl (IndexOutOfBounds ''stack'' (as_i64 dim) (length (t_shape first) + 1)), h)
          else (case stack_validate first rest of
             Some e \<Rightarrow> Some (Inl e, h)
           | None \<Rightarrow>
               (case unsqueeze_all (list_insert (t_shape first) dim 1) tensors h of
                  None \<Rightarrow> None
                | Some (us, h1) \<Rightarrow>
                    (case cat us dim h1 of
                       None \<Rightarrow> None
                     | Some (r, h2) \<Rightarrow> Some (r, drop_tensors us h2)))))"

section \<open>Splitting\<close>

text \<open>The loop \<open>while start < dim_size\<close>; the view is dropped after it has been copied.  An error drops the
  pieces made so far.\<close>

function split_loop ::
  "tensor \<Rightarrow> nat \<Rightarrow> nat \<Rightarrow> nat \<Rightarrow> nat \<Rightarrow> tensor list \<Rightarrow> 'v theap \<Rightarrow> ((backend_error + tensor list) \<times> 'v theap) option" where
  "split_loop src dim split_size dim_size start pieces h =
     (if start < dim_size \<and> split_size \<noteq> 0 then
        let len = min (dim_size - start) split_size in
        case view_tensor src (CallNarrow dim start len) h of
          (Inl _, h1) \<Rightarrow> Some (Inl (IndexOutOfBounds ''split'' (as_i64 start) dim_size), drop_tensors pieces h1)
        | (Inr piece, h1) \<Rightarrow>
            (case contiguous_tensor piece h1 of
               None \<Rightarrow> None
             | Some (c, h2) \<Rightarrow>
                 split_loop src dim split_size dim_size (start + len) (pieces @ [c]) (drop_tensor piece h2))
      else Some (Inr pieces, h))"
  by pat_completeness auto
termination
  by (relation "measure (\<lambda>(src, dim, split_size, dim_size, start, pieces, h). dim_size - start)") auto

declare split_loop.simps [simp del]

definition split_tensor ::
  "tensor \<Rightarrow> nat \<Rightarrow> nat \<Rightarrow> 'v theap \<Rightarrow> ((backend_error + tensor list) \<times> 'v theap) option" where
  "split_tensor src split_size dim h =
     (if dim \<ge> length (t_shape src)
      then Some (Inl (IndexOutOfBounds ''split'' (as_i64 dim) (length (t_shape src))), h)
      else if split_size = 0 then Some (Inl (BackendShapeMismatch ''split'' (t_shape src) [split_size]), h)
      else split_loop src dim split_size (t_shape src ! dim) 0 [] h)"

definition chunk_tensor ::
  "tensor \<Rightarrow> nat \<Rightarrow> nat \<Rightarrow> 'v theap \<Rightarrow> ((backend_error + tensor list) \<times> 'v theap) option" where
  "chunk_tensor src n_chunks dim h =
     (if n_chunks = 0 then Some (Inl (BackendShapeMismatch ''chunk'' (t_shape src) [n_chunks]), h)
      else if dim \<ge> length (t_shape src)
        then Some (Inl (IndexOutOfBounds ''chunk'' (as_i64 dim) (length (t_shape src))), h)
      else split_tensor src (max (div_ceil (t_shape src ! dim) n_chunks) 1) dim h)"

section \<open>Concatenation is concatenation\<close>

lemma concat_nth_at:
  "k < length xss \<Longrightarrow> j < length (xss ! k) \<Longrightarrow>
   concat xss ! (sum_list (map length (take k xss)) + j) = xss ! k ! j"
proof (induction xss arbitrary: k)
  case Nil
  then show ?case by simp
next
  case (Cons xs xss)
  then show ?case by (cases k) (auto simp: nth_append)
qed

lemma ravel_append:
  "length cs = length s \<Longrightarrow> ravel (s @ s') (cs @ cs') = ravel s cs * prod_list s' + ravel s' cs'"
  by (induction cs s rule: list_induct2) (auto simp: add_mult_distrib)

lemma split_at: "dim < length s \<Longrightarrow> s[dim := x] = take dim s @ x # drop (dim + 1) s"
  by (simp add: upd_conv_take_nth_drop)

text \<open>The position of a coordinate, with the axis \<open>dim\<close> singled out.\<close>

lemma ravel_axis:
  assumes "dim < length s" "length cs = length s"
  shows "ravel (s[dim := D]) (cs[dim := c]) = ravel (take dim s) (take dim cs) * (D * prod_list (drop (dim + 1) s))
    + (c * prod_list (drop (dim + 1) s) + ravel (drop (dim + 1) s) (drop (dim + 1) cs))"
  using assms by (simp add: split_at ravel_append)

lemma valid_take_drop:
  assumes "dim < length s" "valid_coords (s[dim := D]) cs"
  shows "valid_coords (take dim s) (take dim cs)" "valid_coords (drop (dim + 1) s) (drop (dim + 1) cs)"
    "cs ! dim < D" "length cs = length s"
proof -
  have a: "cs ! k < (if k = dim then D else s ! k)" if "k < length s" for k
    using assms that by (auto simp: valid_coords_nth nth_list_update)
  show len: "length cs = length s" using assms by (simp add: valid_coords_nth)
  show "cs ! dim < D" using a[OF assms(1)] by simp
  have "take dim cs ! k < take dim s ! k" if "k < dim" for k using a[of k] that assms(1) by simp
  then show "valid_coords (take dim s) (take dim cs)" using len assms(1) by (simp add: valid_coords_nth)
  have "drop (dim + 1) cs ! k < drop (dim + 1) s ! k" if "k < length s - (dim + 1)" for k
    using a[of "dim + 1 + k"] that len by simp
  then show "valid_coords (drop (dim + 1) s) (drop (dim + 1) cs)" using len by (simp add: valid_coords_nth)
qed

definition cat_compatible :: "nat \<Rightarrow> tensor list \<Rightarrow> bool" where
  "cat_compatible dim ts \<longleftrightarrow> list_all (\<lambda>t. t_dtype t = t_dtype (hd ts) \<and>
     t_shape t = (t_shape (hd ts))[dim := t_shape t ! dim]) ts"

lemma cat_check_axes_iff:
  "length as = length bs \<Longrightarrow> cat_check_axes dim n as bs \<longleftrightarrow> (\<forall>k < length as. n + k \<noteq> dim \<longrightarrow> as ! k = bs ! k)"
proof (induction as bs arbitrary: n rule: list_induct2)
  case (Cons a as b bs)
  have "(\<forall>k < length (a # as). n + k \<noteq> dim \<longrightarrow> (a # as) ! k = (b # bs) ! k) \<longleftrightarrow>
      (n \<noteq> dim \<longrightarrow> a = b) \<and> (\<forall>k < length as. n + 1 + k \<noteq> dim \<longrightarrow> as ! k = bs ! k)"
    by (auto simp: less_Suc_eq_0_disj)
  with Cons show ?case by auto
qed simp

lemma same_axes_iff:
  "dim < length s \<Longrightarrow> u = s[dim := u ! dim] \<longleftrightarrow> length u = length s \<and> cat_check_axes dim 0 s u"
  by (auto simp: cat_check_axes_iff list_eq_iff_nth_eq nth_list_update)

lemma cat_validate_None_iff:
  "dim < length (t_shape first) \<Longrightarrow> cat_validate first dim ts = None \<longleftrightarrow>
   list_all (\<lambda>t. t_dtype t = t_dtype first \<and> t_shape t = (t_shape first)[dim := t_shape t ! dim]) ts"
  by (induction ts) (auto simp: same_axes_iff)

definition cat_offset :: "nat \<Rightarrow> tensor list \<Rightarrow> nat \<Rightarrow> nat" where
  "cat_offset dim ts k = sum_list (map (\<lambda>t. t_shape t ! dim) (take k ts))"

definition cat_shape :: "nat \<Rightarrow> tensor list \<Rightarrow> shape" where
  "cat_shape dim ts = (t_shape (hd ts))[dim := sum_list (map (\<lambda>t. t_shape t ! dim) ts)]"

text \<open>The part of \<open>t\<close> at the outer position \<open>o\<close>.\<close>

definition piece :: "nat \<Rightarrow> 'v theap \<Rightarrow> nat \<Rightarrow> tensor \<Rightarrow> 'v list" where
  "piece dim h k t =
     (let n = t_shape t ! dim * prod_list (drop (dim + 1) (t_shape t)) in take n (drop (k * n) (elems t h)))"

lemma numel_axis: "dim < length s \<Longrightarrow> numel s = prod_list (take dim s) * (s ! dim * prod_list (drop (dim + 1) s))"
  by (metis id_take_nth_drop numel_prod_list prod_list.Cons prod_list.append Suc_eq_plus1)

lemma length_piece:
  assumes "dim < length (t_shape t)" "k < prod_list (take dim (t_shape t))"
  shows "length (piece dim h k t) = t_shape t ! dim * prod_list (drop (dim + 1) (t_shape t))"
    and "k * (t_shape t ! dim * prod_list (drop (dim + 1) (t_shape t)))
      + t_shape t ! dim * prod_list (drop (dim + 1) (t_shape t)) \<le> t_numel t"
proof -
  let ?n = "t_shape t ! dim * prod_list (drop (dim + 1) (t_shape t))"
  have "Suc k * ?n \<le> prod_list (take dim (t_shape t)) * ?n" using assms(2) by (intro mult_le_mono1) simp
  then show *: "k * ?n + ?n \<le> t_numel t" by (simp add: numel_axis[OF assms(1)])
  then show "length (piece dim h k t) = ?n" by (simp add: piece_def Let_def)
qed

lemma cat_piece_eq:
  assumes ok: "tensor_ok t h" "t_dtype t = d" and dim: "dim < length (t_shape t)"
    and k: "k < prod_list (take dim (t_shape t))" and pos: "0 < prod_list (drop (dim + 1) (t_shape t))"
  shows "cat_piece d dim h (k, t) = Some (piece dim h k t)"
proof -
  have "max (prod_list (drop (dim + 1) (t_shape t))) 1 = prod_list (drop (dim + 1) (t_shape t))" using pos by simp
  then show ?thesis
    using length_piece(2)[OF dim k]
    by (simp add: cat_piece_def read_all_ok ok piece_def Let_def numel_prod_list mult.assoc del: One_nat_def)
qed

lemma piece_nth:
  assumes dim: "dim < length (t_shape t)" and v: "valid_coords (t_shape t) cs"
  shows "piece dim h (ravel (take dim (t_shape t)) (take dim cs)) t
      ! (cs ! dim * prod_list (drop (dim + 1) (t_shape t)) + ravel (drop (dim + 1) (t_shape t)) (drop (dim + 1) cs))
    = t_elem t h cs"
    and "cs ! dim * prod_list (drop (dim + 1) (t_shape t)) + ravel (drop (dim + 1) (t_shape t)) (drop (dim + 1) cs)
      < t_shape t ! dim * prod_list (drop (dim + 1) (t_shape t))"
proof -
  let ?P = "prod_list (drop (dim + 1) (t_shape t))" and ?r = "ravel (drop (dim + 1) (t_shape t)) (drop (dim + 1) cs)"
  let ?k = "ravel (take dim (t_shape t)) (take dim cs)"
  have v': "valid_coords ((t_shape t)[dim := t_shape t ! dim]) cs" using v by simp
  note td = valid_take_drop[OF dim v']
  have "cs ! dim * ?P + ?r < Suc (cs ! dim) * ?P" using ravel_less[OF td(2)] by simp
  also have "\<dots> \<le> t_shape t ! dim * ?P" using td(3) by (intro mult_le_mono1) simp
  finally show lt: "cs ! dim * ?P + ?r < t_shape t ! dim * ?P" .
  have "ravel (t_shape t) cs = ?k * (t_shape t ! dim * ?P) + (cs ! dim * ?P + ?r)"
    using ravel_axis[OF dim td(4), of "t_shape t ! dim" "cs ! dim"] by simp
  moreover have "ravel (t_shape t) cs < length (elems t h)" using ravel_less[OF v] by (simp add: numel_prod_list)
  ultimately show "piece dim h ?k t ! (cs ! dim * ?P + ?r) = t_elem t h cs"
    using lt elem_ravel[OF v, of h] by (simp add: piece_def Let_def)
qed

lemma sum_blocks: "\<forall>x \<in> set xs. f x = B \<Longrightarrow> sum_list (map f xs) = length xs * (B :: nat)"
  by (induction xs) auto

text \<open>The vector the loop builds.\<close>

definition cat_data :: "nat \<Rightarrow> 'v theap \<Rightarrow> nat \<Rightarrow> tensor list \<Rightarrow> 'v list" where
  "cat_data dim h n ts = concat (map (\<lambda>k. concat (map (piece dim h k) ts)) [0..<n])"

lemma pieces_eq:
  assumes "\<And>k t. k < n \<Longrightarrow> t \<in> set ts \<Longrightarrow> cat_piece d dim h (k, t) = Some (piece dim h k t)"
  shows "\<exists>ps. those (map (cat_piece d dim h) (List.product [0..<n] ts)) = Some ps \<and> concat ps = cat_data dim h n ts"
proof -
  have "those (map (cat_piece d dim h) (List.product [0..<n] ts))
      = Some (map (\<lambda>p. piece dim h (fst p) (snd p)) (List.product [0..<n] ts))"
    using assms by (intro those_map_Some) auto
  moreover have "concat (map (\<lambda>p. piece dim h (fst p) (snd p)) (List.product ks ts))
      = concat (map (\<lambda>k. concat (map (piece dim h k) ts)) ks)" for ks
    by (induction ks) (simp_all add: o_def)
  ultimately show ?thesis by (simp add: cat_data_def)
qed

lemma cat_compatible_Cons: "cat_compatible dim (t # ts) \<longleftrightarrow>
    list_all (\<lambda>u. t_dtype u = t_dtype t \<and> t_shape u = (t_shape t)[dim := t_shape u ! dim]) ts"
  by (simp add: cat_compatible_def)

lemma compatible_axes:
  assumes "cat_compatible dim ts" "t \<in> set ts" "dim < length (t_shape (hd ts))"
  shows "t_dtype t = t_dtype (hd ts)" "t_shape t = (t_shape (hd ts))[dim := t_shape t ! dim]"
    "take dim (t_shape t) = take dim (t_shape (hd ts))" "drop (dim + 1) (t_shape t) = drop (dim + 1) (t_shape (hd ts))"
    "dim < length (t_shape t)"
proof -
  show e: "t_dtype t = t_dtype (hd ts)" "t_shape t = (t_shape (hd ts))[dim := t_shape t ! dim]"
    using assms(1,2) by (auto simp: cat_compatible_def list_all_iff)
  show "take dim (t_shape t) = take dim (t_shape (hd ts))"
    by (subst e(2)) simp
  show "drop (dim + 1) (t_shape t) = drop (dim + 1) (t_shape (hd ts))"
    by (subst e(2)) simp
  show "dim < length (t_shape t)" by (subst e(2)) (simp add: assms(3))
qed

text \<open>No axis but \<open>dim\<close> is empty.\<close>

definition other_axes_nonempty :: "nat \<Rightarrow> shape \<Rightarrow> bool" where
  "other_axes_nonempty dim s \<longleftrightarrow> 0 < prod_list (take dim s) \<and> 0 < prod_list (drop (dim + 1) s)"

lemma block_lengths:
  assumes c: "cat_compatible dim ts" and dim: "dim < length (t_shape (hd ts))"
    and k: "k < prod_list (take dim (t_shape (hd ts)))" and us: "set us \<subseteq> set ts"
  shows "sum_list (map length (map (piece dim h k) us))
    = sum_list (map (\<lambda>t. t_shape t ! dim) us) * prod_list (drop (dim + 1) (t_shape (hd ts)))"
  using us
proof (induction us)
  case (Cons t us)
  then have "t \<in> set ts" by simp
  note a = compatible_axes[OF c this dim]
  have "length (piece dim h k t) = t_shape t ! dim * prod_list (drop (dim + 1) (t_shape (hd ts)))"
    using length_piece(1)[OF a(5), of k h] k a(3,4) by simp
  with Cons show ?case by (simp add: add_mult_distrib)
qed simp

lemma cat_data_nth:
  assumes c: "cat_compatible dim ts" and dim: "dim < length (t_shape (hd ts))" and k: "k < length ts"
    and v: "valid_coords (t_shape (ts ! k)) cs"
  shows "cat_data dim h (prod_list (take dim (t_shape (hd ts)))) ts
      ! ravel (cat_shape dim ts) (cs[dim := cs ! dim + cat_offset dim ts k]) = t_elem (ts ! k) h cs"
proof -
  let ?s = "t_shape (hd ts)" and ?t = "ts ! k"
  let ?A = "prod_list (take dim ?s)" and ?P = "prod_list (drop (dim + 1) ?s)"
  let ?T = "sum_list (map (\<lambda>t. t_shape t ! dim) ts)"
  let ?r1 = "ravel (take dim ?s) (take dim cs)" and ?r2 = "ravel (drop (dim + 1) ?s) (drop (dim + 1) cs)"
  let ?blk = "\<lambda>k. concat (map (piece dim h k) ts)"
  have t: "?t \<in> set ts" using k by simp
  note a = compatible_axes[OF c t dim]
  have v': "valid_coords (?s[dim := t_shape ?t ! dim]) cs" using v a(2) by simp
  note td = valid_take_drop[OF dim v']
  have r1: "?r1 < ?A" using ravel_less[OF td(1)] .
  have len: "length (?blk j) = ?T * ?P" if "j < ?A" for j
    using block_lengths[OF c dim that order.refl, of h] by (simp add: length_concat)
  have pos: "ravel (cat_shape dim ts) (cs[dim := cs ! dim + cat_offset dim ts k])
      = ?r1 * (?T * ?P) + (cat_offset dim ts k * ?P + (cs ! dim * ?P + ?r2))"
    using ravel_axis[OF dim td(4), of ?T "cs ! dim + cat_offset dim ts k"]
    by (simp add: cat_shape_def add_mult_distrib)
  note pn = piece_nth(1)[OF a(5) v, of h, unfolded a(3,4)] piece_nth(2)[OF a(5) v, unfolded a(3,4)]
  have lp: "length (piece dim h ?r1 ?t) = t_shape ?t ! dim * ?P"
    using length_piece(1)[OF a(5), of ?r1 h] r1 a(3,4) by simp
  have off: "sum_list (map length (take k (map (piece dim h ?r1) ts))) = cat_offset dim ts k * ?P"
    using block_lengths[OF c dim r1, of "take k ts" h] set_take_subset[of k ts]
    by (simp add: take_map cat_offset_def)
  have in_blk: "?blk ?r1 ! (cat_offset dim ts k * ?P + (cs ! dim * ?P + ?r2)) = t_elem ?t h cs"
    using concat_nth_at[of k "map (piece dim h ?r1) ts" "cs ! dim * ?P + ?r2"] k pn lp off by simp
  have "cat_offset dim ts k + t_shape ?t ! dim \<le> ?T"
  proof -
    have "?T = sum_list (map (\<lambda>t. t_shape t ! dim) (take k ts @ ts ! k # drop (Suc k) ts))"
      using id_take_nth_drop[OF k] by simp
    then show ?thesis by (simp add: cat_offset_def)
  qed
  then have "(cat_offset dim ts k + t_shape ?t ! dim) * ?P \<le> ?T * ?P" by (rule mult_le_mono1)
  then have lt: "cat_offset dim ts k * ?P + (cs ! dim * ?P + ?r2) < ?T * ?P"
    using pn(2) by (simp add: add_mult_distrib)
  have "sum_list (map length (take ?r1 (map ?blk [0..<?A]))) = ?r1 * (?T * ?P)"
    using sum_blocks[of "take ?r1 [0..<?A]" "\<lambda>j. length (?blk j)" "?T * ?P"] len r1
    by (simp add: take_map o_def)
  then show ?thesis
    using concat_nth_at[of ?r1 "map ?blk [0..<?A]" "cat_offset dim ts k * ?P + (cs ! dim * ?P + ?r2)"]
      r1 lt len[OF r1] in_blk
    by (simp add: cat_data_def pos)
qed

lemma length_cat_data:
  assumes c: "cat_compatible dim ts" and dim: "dim < length (t_shape (hd ts))"
  shows "length (cat_data dim h (prod_list (take dim (t_shape (hd ts)))) ts) = numel (cat_shape dim ts)"
proof -
  let ?s = "t_shape (hd ts)" and ?T = "sum_list (map (\<lambda>t. t_shape t ! dim) ts)"
  have len: "length (concat (map (piece dim h k) ts)) = ?T * prod_list (drop (dim + 1) ?s)"
    if "k < prod_list (take dim ?s)" for k
    using block_lengths[OF c dim that order.refl, of h] by (simp add: length_concat)
  have "length (cat_data dim h (prod_list (take dim ?s)) ts)
      = prod_list (take dim ?s) * (?T * prod_list (drop (dim + 1) ?s))"
    using sum_blocks[of "[0..<prod_list (take dim ?s)]" "\<lambda>k. length (concat (map (piece dim h k) ts))"] len
    by (simp add: cat_data_def length_concat o_def)
  then show ?thesis using numel_axis[of dim "cat_shape dim ts"] dim by (simp add: cat_shape_def)
qed

text \<open>What \<open>cat\<close> returns.\<close>

definition concatenated :: "nat \<Rightarrow> tensor list \<Rightarrow> 'v theap \<Rightarrow> tensor \<Rightarrow> 'v theap \<Rightarrow> bool" where
  "concatenated dim ts h t' h' \<longleftrightarrow> tensor_ok t' h' \<and> extends h h' \<and> t_shape t' = cat_shape dim ts \<and>
     t_dtype t' = t_dtype (hd ts) \<and> contiguous (t_layout t') \<and> storage_offset (t_layout t') = 0 \<and>
     (\<forall>k < length ts. \<forall>cs. valid_coords (t_shape (ts ! k)) cs \<longrightarrow>
        t_elem t' h' (cs[dim := cs ! dim + cat_offset dim ts k]) = t_elem (ts ! k) h cs)"

lemma offset_coords_valid:
  assumes c: "cat_compatible dim ts" and dim: "dim < length (t_shape (hd ts))" and k: "k < length ts"
    and v: "valid_coords (t_shape (ts ! k)) cs"
  shows "valid_coords (cat_shape dim ts) (cs[dim := cs ! dim + cat_offset dim ts k])"
proof -
  have t: "ts ! k \<in> set ts" using k by simp
  note a = compatible_axes[OF c t dim]
  have "sum_list (map (\<lambda>t. t_shape t ! dim) ts)
      = sum_list (map (\<lambda>t. t_shape t ! dim) (take k ts @ ts ! k # drop (Suc k) ts))"
    using id_take_nth_drop[OF k] by simp
  then have le: "cat_offset dim ts k + t_shape (ts ! k) ! dim \<le> sum_list (map (\<lambda>t. t_shape t ! dim) ts)"
    by (simp add: cat_offset_def)
  have "valid_coords ((t_shape (hd ts))[dim := t_shape (ts ! k) ! dim]) cs" using v a(2) by simp
  with le dim show ?thesis
    by (auto simp: valid_coords_nth cat_shape_def nth_list_update split: if_splits)
qed

lemma cat_eq:
  "ts \<noteq> [] \<Longrightarrow> dim < length (t_shape (hd ts)) \<Longrightarrow> cat ts dim h =
    (case cat_validate (hd ts) dim (tl ts) of
       Some e \<Rightarrow> Some (Inl e, h)
     | None \<Rightarrow>
         if shape_op_dtype (t_dtype (hd ts)) then cat_typed (t_dtype (hd ts)) ts dim (cat_shape dim ts) h
         else Some (Inl (BackendDtypeMismatch ''cat'' (t_dtype (hd ts)) (t_dtype (hd ts))), h))"
  by (cases ts) (auto simp: cat_def cat_shape_def Let_def split: option.splits)

lemma validate_iff:
  "ts \<noteq> [] \<Longrightarrow> dim < length (t_shape (hd ts)) \<Longrightarrow>
   cat_validate (hd ts) dim (tl ts) = None \<longleftrightarrow> cat_compatible dim ts"
  by (cases ts) (simp_all add: cat_validate_None_iff cat_compatible_Cons)

lemma cat_ok:
  assumes ts: "ts \<noteq> []" and ok: "\<forall>t \<in> set ts. tensor_ok t h" and c: "cat_compatible dim ts"
    and d: "shape_op_dtype (t_dtype (hd ts))" and dim: "dim < length (t_shape (hd ts))"
    and pos: "other_axes_nonempty dim (t_shape (hd ts))"
    and fits: "fits_memory (t_dtype (hd ts)) (numel (cat_shape dim ts))"
  shows "\<exists>t' h'. cat ts dim h = Some (Inr t', h') \<and> concatenated dim ts h t' h' \<and> t_storage t' = length (bufs h) \<and>
    (\<exists>data. new_tensor (t_dtype (hd ts)) (cat_shape dim ts) data h = (t', h'))"
proof -
  let ?first = "hd ts" and ?A = "prod_list (take dim (t_shape (hd ts)))"
  let ?data = "cat_data dim h ?A ts"
  obtain t' h' where nt: "new_tensor (t_dtype ?first) (cat_shape dim ts) ?data h = (t', h')" by fastforce
  note len = length_cat_data[OF c dim, of h]
  have A: "max ?A 1 = ?A" using pos by (simp add: other_axes_nonempty_def)
  have "cat_piece (t_dtype ?first) dim h (k, t) = Some (piece dim h k t)" if "k < ?A" "t \<in> set ts" for k t
    using compatible_axes[OF c that(2) dim] that ok pos
    by (intro cat_piece_eq) (auto simp: other_axes_nonempty_def)
  from pieces_eq[OF this] obtain ps where
    ps: "those (map (cat_piece (t_dtype ?first) dim h) (List.product [0..<?A] ts)) = Some ps" "concat ps = ?data"
    by blast
  have take: "take dim (cat_shape dim ts) = take dim (t_shape ?first)" by (simp add: cat_shape_def)
  have "cat_typed (t_dtype ?first) ts dim (cat_shape dim ts) h = Some (Inr t', h')"
    using fits_capacity[OF fits] build_tensor_ok[OF len fits nt] ps A
    by (simp add: cat_typed_def take numel_prod_list)
  then have "cat ts dim h = Some (Inr t', h')"
    using validate_iff[OF ts dim] c d by (simp add: cat_eq[OF ts dim])
  moreover have "t_elem t' h' (cs[dim := cs ! dim + cat_offset dim ts k]) = t_elem (ts ! k) h cs"
    if "k < length ts" "valid_coords (t_shape (ts ! k)) cs" for k cs
    using new_tensor_elem[OF len fits nt offset_coords_valid[OF c dim that]] cat_data_nth[OF c dim that, of h]
    by simp
  ultimately show ?thesis
    using new_tensor_ok[OF len fits nt] new_tensor_extends[OF nt] nt unfolding concatenated_def by blast
qed

lemma cat_err:
  assumes "ts \<noteq> []" "dim < length (t_shape (hd ts))" "\<not> cat_compatible dim ts"
  shows "\<exists>e. cat ts dim h = Some (Inl e, h)"
  using validate_iff[OF assms(1,2)] assms(3) by (auto simp: cat_eq[OF assms(1,2)])

text \<open>The lists that are refused.\<close>

lemma cat_errors:
  assumes "\<not> (ts \<noteq> [] \<and> dim < length (t_shape (hd ts)) \<and> cat_compatible dim ts \<and> shape_op_dtype (t_dtype (hd ts)))"
  shows "\<exists>e. cat ts dim h = Some (Inl e, h)"
proof (cases "ts \<noteq> [] \<and> dim < length (t_shape (hd ts))")
  case True
  then show ?thesis using assms cat_err[of ts dim h] validate_iff[of ts dim] by (auto simp: cat_eq)
next
  case False
  then show ?thesis by (cases ts) (auto simp: cat_def)
qed

section \<open>Splitting\<close>

text \<open>\<open>p\<close> is the part of \<open>t\<close> that begins at \<open>start\<close> on the axis \<open>dim\<close> and has \<open>len\<close> entries there.\<close>

definition part_of :: "tensor \<Rightarrow> 'v theap \<Rightarrow> nat \<Rightarrow> nat \<Rightarrow> nat \<Rightarrow> tensor \<Rightarrow> 'v theap \<Rightarrow> bool" where
  "part_of t h dim start len p h' \<longleftrightarrow> tensor_ok p h' \<and> t_dtype p = t_dtype t \<and>
     t_shape p = (t_shape t)[dim := len] \<and>
     (\<forall>cs. valid_coords (t_shape p) cs \<longrightarrow> t_elem p h' cs = t_elem t h (cs[dim := start + cs ! dim]))"

lemma part_of_extends: "part_of t h dim start len p h1 \<Longrightarrow> extends h1 h2 \<Longrightarrow> part_of t h dim start len p h2"
  using extends_tensor[of h1 h2 p] by (auto simp: part_of_def)

lemma drop_tensor_extends: "extends h (drop_tensor t h)"
  unfolding drop_tensor_def by (rule unshare_extends)

lemma drop_tensors_extends: "extends h (drop_tensors ts h)"
proof (induction ts arbitrary: h)
  case (Cons t ts)
  then show ?case using extends_trans[OF drop_tensor_extends, of t h] by (simp add: drop_tensors_def)
qed (simp add: drop_tensors_def)

lemma view_tensor_ok:
  assumes ok: "tensor_ok t h" and v: "apply_view (t_layout t) c = Inr l" and d: "lay_dtype l = t_dtype t"
  shows "\<exists>u h1. view_tensor t c h = (Inr u, h1) \<and> tensor_ok u h1 \<and> extends h h1 \<and> t_layout u = l \<and>
    t_data u h1 = t_data t h"
proof -
  let ?u = "from_parts (t_storage t) l (t_version t) (t_requires_grad t)" and ?h = "share (t_storage t) h"
  have inv: "layout_inv l (length (t_data t h))"
    using apply_view_keeps_inv[OF _ v] ok by (simp add: tensor_ok_def)
  have b: "t_storage t < length (bufs h)" using ok by (simp add: tensor_ok_def)
  have "tensor_ok ?u ?h"
    using ok inv d b by (auto simp: tensor_ok_def from_parts_def share_def)
  then show ?thesis
    using v share_data[OF b, of ?u] share_extends[of h "t_storage t"] by (simp add: view_tensor_def from_parts_def)
qed

lemma split_step:
  assumes ok: "tensor_ok t h" and dim: "dim < length (t_shape t)"
    and le: "start + len \<le> t_shape t ! dim" and small: "t_shape t ! dim < u64_limit"
    and start: "start < t_shape t ! dim" and ne: "0 < t_numel t"
  shows "\<exists>p h1 c h2. view_tensor t (CallNarrow dim start len) h = (Inr p, h1) \<and>
    contiguous_tensor p h1 = Some (c, h2) \<and> extends h (drop_tensor p h2) \<and>
    part_of t h dim start len c (drop_tensor p h2)"
proof -
  let ?l = "t_layout t"
  have inv: "layout_inv ?l (length (t_data t h))" using ok by (simp add: tensor_ok_def)
  then have wf: "wf_layout ?l" by (simp add: layout_inv_def)
  have "valid_coords (t_shape t) (coords_of (t_shape t) 0)" using ne by (rule valid_coords_of_less)
  then have "shifted_offset ?l dim start \<noteq> None" using axis_shift_ok[OF inv _ dim start] by blast
  then obtain l where l: "narrow ?l (dim, start, len) = Inr l"
    using dim le small wf by (auto simp: narrow_def Let_def expect_layout_Inr checked_add_u64_def wf_layout_def
        from_strides_def expect_layout_def)
  note r = narrow_Inr[OF l wf] and dt = narrow_view.vop_dtype[OF l]
  obtain p h1 where p: "view_tensor t (CallNarrow dim start len) h = (Inr p, h1)" "tensor_ok p h1" "extends h h1"
      "t_layout p = l" "t_data p h1 = t_data t h"
    using view_tensor_ok[OF ok, of "CallNarrow dim start len" l] l dt by auto
  obtain c h2 where c: "contiguous_tensor p h1 = Some (c, h2)" "extends h1 h2" "tensor_ok c h2"
      "t_shape c = t_shape p" "t_dtype c = t_dtype p" "elems c h2 = elems p h1"
    using contiguous_tensor_extends[OF p(2)] by blast
  have ext: "extends h2 (drop_tensor p h2)" by (rule drop_tensor_extends)
  have sh: "t_shape c = (t_shape t)[dim := len]" using c(4) p(4) r by simp
  have "t_elem c h2 cs = t_elem t h (cs[dim := start + cs ! dim])" if v: "valid_coords (t_shape c) cs" for cs
  proof -
    have "t_elem c h2 cs = t_elem p h1 cs"
      using elem_ravel[OF v, of h2] elem_ravel[of p cs h1] v c(4,6) by simp
    also have "\<dots> = t_elem t h (cs[dim := start + cs ! dim])"
      using narrow_view.src_addr[OF inv l, of cs] v p(4,5) c(4) by (simp add: t_elem_def strided_axis_def)
    finally show ?thesis .
  qed
  then have "part_of t h dim start len c h2" using c(3,5) sh p(4) dt by (simp add: part_of_def)
  then have "part_of t h dim start len c (drop_tensor p h2)" using ext by (rule part_of_extends)
  moreover have "extends h (drop_tensor p h2)" using p(3) c(2) ext extends_trans by blast
  ultimately show ?thesis using p(1) c(1) by blast
qed

lemma div_ceil_add: "0 < d \<Longrightarrow> div_ceil (n + d) d = Suc (div_ceil n d)"
  by (simp add: div_ceil_def div_add_self2)

lemma split_loop_ok:
  assumes ok: "tensor_ok t h0" and dim: "dim < length (t_shape t)" and D: "D = t_shape t ! dim"
    and small: "D < u64_limit" and sz: "0 < sz" and ne: "0 < t_numel t"
  shows "extends h0 h \<Longrightarrow> start \<le> D \<Longrightarrow> \<exists>ps h'. split_loop t dim sz D start pieces h = Some (Inr (pieces @ ps), h') \<and>
    extends h h' \<and> length ps = div_ceil (D - start) sz \<and>
    (\<forall>k < length ps. part_of t h0 dim (start + k * sz) (min sz (D - (start + k * sz))) (ps ! k) h')"
proof (induction "D - start" arbitrary: start pieces h rule: less_induct)
  case less
  show ?case
  proof (cases "start < D")
    case False
    then show ?thesis using less.prems by (subst split_loop.simps) (simp add: div_ceil_def)
  next
    case True
    let ?len = "min (D - start) sz"
    have ok': "tensor_ok t h" by (rule extends_tensor(1)[OF less.prems(1) ok])
    obtain p h1 c h2 where st: "view_tensor t (CallNarrow dim start ?len) h = (Inr p, h1)"
        "contiguous_tensor p h1 = Some (c, h2)" "extends h (drop_tensor p h2)"
        "part_of t h dim start ?len c (drop_tensor p h2)"
      using split_step[OF ok' dim, of start ?len] True small D ne by fastforce
    have run: "split_loop t dim sz D start pieces h
        = split_loop t dim sz D (start + ?len) (pieces @ [c]) (drop_tensor p h2)"
      using True sz st(1,2) by (subst split_loop.simps) (simp add: Let_def)
    have "D - (start + ?len) < D - start" "start + ?len \<le> D" using True sz by auto
    with less.hyps[of "start + ?len" "drop_tensor p h2" "pieces @ [c]"] extends_trans[OF less.prems(1) st(3)]
    obtain ps h' where ih: "split_loop t dim sz D (start + ?len) (pieces @ [c]) (drop_tensor p h2)
          = Some (Inr ((pieces @ [c]) @ ps), h')" "extends (drop_tensor p h2) h'"
        "length ps = div_ceil (D - (start + ?len)) sz"
        "\<forall>k < length ps. part_of t h0 dim (start + ?len + k * sz) (min sz (D - (start + ?len + k * sz))) (ps ! k) h'"
      by blast
    have "part_of t h0 dim start ?len c (drop_tensor p h2)"
      using st(4) extends_tensor(2)[OF less.prems(1) ok] by (simp add: part_of_def)
    then have c0: "part_of t h0 dim start ?len c h'" using ih(2) by (rule part_of_extends)
    have len: "length (c # ps) = div_ceil (D - start) sz"
    proof (cases "D - start \<le> sz")
      case True
      then show ?thesis using ih(3) \<open>start < D\<close> sz
        by (cases "D - start = sz") (simp_all add: div_ceil_def min_def)
    next
      case False
      then have "D - start = (D - (start + ?len)) + sz" by simp
      then have "div_ceil (D - start) sz = Suc (div_ceil (D - (start + ?len)) sz)"
        using div_ceil_add[OF sz, of "D - (start + ?len)"] by argo
      then show ?thesis using ih(3) by simp
    qed
    have "part_of t h0 dim (start + k * sz) (min sz (D - (start + k * sz))) ((c # ps) ! k) h'"
      if "k < length (c # ps)" for k
    proof (cases k)
      case 0
      then show ?thesis using c0 by (simp add: min.commute)
    next
      case (Suc j)
      then have j: "j < length ps" using that by simp
      have "?len = sz"
      proof (rule ccontr)
        assume "?len \<noteq> sz"
        then have "D - (start + ?len) = 0" by (simp add: min_def split: if_splits)
        with ih(3) j show False by (simp add: div_ceil_def)
      qed
      then show ?thesis using ih(4) j Suc by (simp add: add.assoc)
    qed
    then show ?thesis
      using run ih(1) len extends_trans[OF st(3) ih(2)] by (intro exI[of _ "c # ps"] exI[of _ h']) simp
  qed
qed

lemma div_ceil_le: "0 < d \<Longrightarrow> n \<le> k * d \<Longrightarrow> div_ceil n d \<le> k"
  using div_ceil_mult_least[of d n "k * d"] by simp

text \<open>What \<open>split\<close> and \<open>chunk\<close> return.\<close>

definition splits :: "tensor \<Rightarrow> 'v theap \<Rightarrow> nat \<Rightarrow> nat \<Rightarrow> tensor list \<Rightarrow> 'v theap \<Rightarrow> bool" where
  "splits t h dim sz ps h' \<longleftrightarrow> extends h h' \<and> length ps = div_ceil (t_shape t ! dim) sz \<and>
     (\<forall>k < length ps. part_of t h dim (k * sz) (min sz (t_shape t ! dim - k * sz)) (ps ! k) h')"

lemma split_ok:
  assumes ok: "tensor_ok t h" and dim: "dim < length (t_shape t)" and small: "t_shape t ! dim < u64_limit"
    and sz: "0 < sz" and ne: "0 < t_numel t"
  shows "\<exists>ps h'. split_tensor t sz dim h = Some (Inr ps, h') \<and> splits t h dim sz ps h'"
  using split_loop_ok[OF ok dim refl small sz ne, of h 0 "[]"] dim sz by (simp add: split_tensor_def splits_def)

lemma chunk_ok:
  assumes ok: "tensor_ok t h" and dim: "dim < length (t_shape t)" and small: "t_shape t ! dim < u64_limit"
    and n: "0 < n" and ne: "0 < t_numel t"
  shows "\<exists>ps h'. chunk_tensor t n dim h = Some (Inr ps, h') \<and> length ps \<le> n \<and>
    splits t h dim (max (div_ceil (t_shape t ! dim) n) 1) ps h'"
proof -
  let ?D = "t_shape t ! dim"
  let ?sz = "max (div_ceil ?D n) 1"
  have "?D \<le> div_ceil ?D n * n" by (rule div_ceil_mult_ge[OF n])
  also have "\<dots> \<le> ?sz * n" by (rule mult_le_mono1) simp
  finally have le: "div_ceil ?D ?sz \<le> n" by (intro div_ceil_le) (simp_all add: mult.commute)
  obtain ps h' where "split_tensor t ?sz dim h = Some (Inr ps, h')" "splits t h dim ?sz ps h'"
    using split_ok[OF ok dim small _ ne, of ?sz] by auto
  then show ?thesis using n dim le by (auto simp: chunk_tensor_def splits_def)
qed

text \<open>Concatenating the parts gives the tensor back.\<close>

lemma sum_parts: "sum_list (map (\<lambda>j. min sz (D - j * sz)) [0..<k]) = min (k * sz) (D :: nat)"
  by (induction k) (auto simp: min_def)

lemma splits_sums:
  assumes "splits t h dim sz ps h'" "dim < length (t_shape t)" "k \<le> length ps"
  shows "cat_offset dim ps k = min (k * sz) (t_shape t ! dim)"
proof -
  have "map (\<lambda>p. t_shape p ! dim) (take k ps) = map (\<lambda>j. min sz (t_shape t ! dim - j * sz)) [0..<k]"
    using assms by (intro nth_equalityI) (auto simp: splits_def part_of_def)
  then show ?thesis by (simp add: cat_offset_def sum_parts)
qed

lemma split_cat:
  assumes sp: "splits t h dim sz ps h'" and dim: "dim < length (t_shape t)" and sz: "0 < sz"
    and D: "0 < t_shape t ! dim" and pos: "other_axes_nonempty dim (t_shape t)"
    and d: "shape_op_dtype (t_dtype t)" and fits: "fits_memory (t_dtype t) (t_numel t)"
  shows "\<exists>t' h''. cat ps dim h' = Some (Inr t', h'') \<and> t_shape t' = t_shape t \<and> t_dtype t' = t_dtype t \<and>
    elems t' h'' = elems t h"
proof -
  let ?D = "t_shape t ! dim"
  have len: "length ps = div_ceil ?D sz" using sp by (simp add: splits_def)
  have covers: "?D \<le> length ps * sz" using div_ceil_mult_ge[OF sz] len by simp
  then have ne: "ps \<noteq> []" using D by auto
  have part: "part_of t h dim (k * sz) (min sz (?D - k * sz)) (ps ! k) h'" if "k < length ps" for k
    using sp that by (simp add: splits_def)
  have hd: "t_shape (hd ps) = (t_shape t)[dim := min sz ?D]" "t_dtype (hd ps) = t_dtype t"
    using part[of 0] ne by (simp_all add: part_of_def hd_conv_nth)
  have mem: "\<exists>k n. part_of t h dim k n p h'" if "p \<in> set ps" for p
    using that part by (auto simp: in_set_conv_nth)
  have okp: "\<forall>p \<in> set ps. tensor_ok p h'" using mem by (auto simp: part_of_def)
  have comp: "cat_compatible dim ps"
    unfolding cat_compatible_def list_all_iff
  proof
    fix p assume "p \<in> set ps"
    then obtain k n where "part_of t h dim k n p h'" using mem by blast
    then show "t_dtype p = t_dtype (hd ps) \<and> t_shape p = (t_shape (hd ps))[dim := t_shape p ! dim]"
      using dim by (simp add: hd part_of_def)
  qed
  have sh: "cat_shape dim ps = t_shape t"
    using splits_sums[OF sp dim, of "length ps"] covers dim by (simp add: cat_shape_def cat_offset_def hd(1) min_def)
  have "\<exists>t' h''. cat ps dim h' = Some (Inr t', h'') \<and> concatenated dim ps h' t' h'' \<and> t_storage t' = length (bufs h') \<and>
    (\<exists>data. new_tensor (t_dtype (hd ps)) (cat_shape dim ps) data h' = (t', h''))"
    using d dim pos fits by (intro cat_ok[OF ne okp comp]) (simp_all add: hd sh other_axes_nonempty_def)
  then obtain t' h'' where cat: "cat ps dim h' = Some (Inr t', h'')" "concatenated dim ps h' t' h''" by blast
  have "t_elem t' h'' cs = t_elem t h cs" if v: "valid_coords (t_shape t) cs" for cs
  proof -
    let ?k = "cs ! dim div sz" and ?c = "cs ! dim mod sz"
    have c: "cs ! dim < ?D" "length cs = length (t_shape t)" using v dim by (auto simp: valid_coords_nth)
    have k: "?k < length ps"
      using c(1) covers by (metis div_less_iff_less_mult order.strict_trans2 sz)
    have kc: "?k * sz + ?c = cs ! dim" "?c < sz" using sz by simp_all
    note p = part[OF k]
    have "?c < ?D - ?k * sz" using kc(1) c(1) by linarith
    then have v': "valid_coords (t_shape (ps ! ?k)) (cs[dim := ?c])"
      using p v dim c kc by (auto simp: part_of_def valid_coords_nth nth_list_update)
    have "cat_offset dim ps ?k = ?k * sz"
      using splits_sums[OF sp dim, of ?k] k kc c(1) by simp
    then have "(cs[dim := ?c])[dim := cs[dim := ?c] ! dim + cat_offset dim ps ?k] = cs"
      using c dim kc by (simp add: add.commute)
    moreover have "(cs[dim := ?c])[dim := ?k * sz + cs[dim := ?c] ! dim] = cs"
      using c dim kc by simp
    ultimately show ?thesis
      using cat(2) k v' p unfolding concatenated_def part_of_def by metis
  qed
  then have "elems t' h'' = elems t h"
    using cat(2) sh valid_coords_of_less[of _ "t_shape t"] by (auto simp: elems_def concatenated_def)
  then show ?thesis using cat sh hd(2) by (auto simp: concatenated_def)
qed

section \<open>Stacking\<close>

lemma list_insert_split: "dim \<le> length xs \<Longrightarrow> list_insert xs dim x = take dim xs @ x # drop dim xs"
  by (simp add: list_insert_def)

lemma list_insert_update: "dim \<le> length xs \<Longrightarrow> (list_insert xs dim x)[dim := y] = list_insert xs dim y"
  by (simp add: list_insert_def list_update_append)

lemma list_insert_at: "dim \<le> length xs \<Longrightarrow> list_insert xs dim x ! dim = x"
  by (simp add: list_insert_def nth_append)

lemma ravel_insert:
  assumes "length cs = length s" "dim \<le> length s"
  shows "ravel (list_insert s dim 1) (list_insert cs dim 0) = ravel s cs"
proof -
  have "ravel s cs = ravel (take dim s @ drop dim s) (take dim cs @ drop dim cs)" by simp
  also have "\<dots> = ravel (take dim s) (take dim cs) * prod_list (drop dim s) + ravel (drop dim s) (drop dim cs)"
    using assms by (intro ravel_append) simp
  finally show ?thesis using assms by (simp add: list_insert_split ravel_append)
qed

lemma valid_insert: "valid_coords s cs \<Longrightarrow> dim \<le> length s \<Longrightarrow> c < n \<Longrightarrow>
    valid_coords (list_insert s dim n) (list_insert cs dim c)"
  using valid_coords_length[of s cs]
  by (simp add: list_insert_split valid_coords_def list_all2_appendI)

lemma dense_elems: "tensor_ok t h \<Longrightarrow> contiguous (t_layout t) \<Longrightarrow> storage_offset (t_layout t) = 0 \<Longrightarrow>
    elems t h = take (t_numel t) (t_data t h)"
  using contiguous_numel_data[of t h] by (auto simp: as_slice_def Let_def split: if_splits)

text \<open>One input, with its new axis.\<close>

definition lifted :: "nat \<Rightarrow> tensor \<Rightarrow> 'v theap \<Rightarrow> tensor \<Rightarrow> 'v theap \<Rightarrow> bool" where
  "lifted dim t h u h' \<longleftrightarrow> tensor_ok u h' \<and> t_dtype u = t_dtype t \<and> t_shape u = list_insert (t_shape t) dim 1 \<and>
     (\<forall>cs. valid_coords (t_shape t) cs \<longrightarrow> t_elem u h' (list_insert cs dim 0) = t_elem t h cs)"

lemma lifted_extends: "lifted dim t h u h1 \<Longrightarrow> extends h1 h2 \<Longrightarrow> lifted dim t h u h2"
  using extends_tensor[of h1 h2 u] by (auto simp: lifted_def)

lemma unsqueezed_ok:
  assumes ok: "tensor_ok t h" and dim: "dim \<le> length (t_shape t)" and ne: "0 < t_numel t"
  shows "\<exists>u h'. unsqueezed (list_insert (t_shape t) dim 1) t h = Some (u, h') \<and> extends h h' \<and> lifted dim t h u h'"
proof -
  let ?s = "list_insert (t_shape t) dim 1"
  obtain c h1 where c: "contiguous_tensor t h = Some (c, h1)" "extends h h1" "tensor_ok c h1"
      "t_shape c = t_shape t" "t_dtype c = t_dtype t" "elems c h1 = elems t h"
      "contiguous (t_layout c)" "storage_offset (t_layout c) = 0"
    using contiguous_tensor_extends[OF ok] by blast
  have n: "numel ?s = t_numel c" using dim
    using prod_list.append[of "take dim (t_shape t)" "drop dim (t_shape t)"]
    by (simp add: c(4) list_insert_split numel_prod_list)
  have v: "apply_view (t_layout c) (CallView ?s) = Inr (contiguous_layout ?s (t_dtype t))"
  proof -
    have "t_numel c < i64_limit"
      using contiguous_numel_le[of "t_layout c" "length (t_data c h1)"] c(3,7) by (simp add: tensor_ok_def layout_inv_def)
    then have "view (t_layout c) ?s = Inr (contiguous_layout ?s (t_dtype c))"
      using c(7) n ne by (intro view_nonempty) (simp_all add: c(4))
    then show ?thesis by (simp add: c(5))
  qed
  have dt: "lay_dtype (contiguous_layout ?s (t_dtype t)) = t_dtype c"
    by (simp add: contiguous_layout_def c(5))
  obtain u h2 where u: "view_tensor c (CallView ?s) h1 = (Inr u, h2)" "tensor_ok u h2" "extends h1 h2"
      "t_layout u = contiguous_layout ?s (t_dtype t)" "t_data u h2 = t_data c h1"
    using view_tensor_ok[OF c(3) v dt] by blast
  have sh: "t_shape u = ?s" "t_dtype u = t_dtype t" "contiguous (t_layout u)" "storage_offset (t_layout u) = 0"
    by (simp_all add: u(4) contiguous_layout_def)
  have "elems u h2 = elems c h1"
    using dense_elems[OF u(2) sh(3,4)] dense_elems[OF c(3,7,8)] sh(1) n u(5) by simp
  then have e: "elems u h2 = elems t h" using c(6) by simp
  have "t_elem u h2 (list_insert cs dim 0) = t_elem t h cs" if cs: "valid_coords (t_shape t) cs" for cs
  proof -
    have "valid_coords (t_shape u) (list_insert cs dim 0)" using valid_insert[OF cs dim, of 0 1] sh(1) by simp
    from elem_ravel[OF this, of h2] elem_ravel[OF cs, of h] e
    show ?thesis using ravel_insert[OF valid_coords_length[OF cs] dim] sh(1) by simp
  qed
  then have "lifted dim t h u h2" using u(2) sh by (simp add: lifted_def)
  then have "lifted dim t h u (drop_tensor c h2)" using drop_tensor_extends by (rule lifted_extends)
  moreover have "extends h (drop_tensor c h2)" using c(2) u(3) drop_tensor_extends extends_trans by blast
  ultimately show ?thesis using c(1) u(1) by (simp add: unsqueezed_def expect_ok_def)
qed

lemma unsqueeze_all_ok:
  assumes ok: "\<forall>t \<in> set ts. tensor_ok t h \<and> t_shape t = s" and dim: "dim \<le> length s" and ne: "0 < numel s"
  shows "\<exists>us h'. unsqueeze_all (list_insert s dim 1) ts h = Some (us, h') \<and> extends h h' \<and>
    list_all2 (\<lambda>t u. lifted dim t h u h') ts us"
  using ok
proof (induction ts arbitrary: h)
  case Nil
  then show ?case by simp
next
  case (Cons t ts)
  then have t: "tensor_ok t h" "t_shape t = s" by simp_all
  obtain u h1 where u: "unsqueezed (list_insert s dim 1) t h = Some (u, h1)" "extends h h1" "lifted dim t h u h1"
    using unsqueezed_ok[OF t(1), of dim] dim ne t(2) by auto
  have "\<forall>t \<in> set ts. tensor_ok t h1 \<and> t_shape t = s" using Cons.prems extends_tensor(1)[OF u(2)] by auto
  from Cons.IH[OF this] obtain us h2 where us: "unsqueeze_all (list_insert s dim 1) ts h1 = Some (us, h2)"
      "extends h1 h2" "list_all2 (\<lambda>t u. lifted dim t h1 u h2) ts us" by blast
  have "lifted dim x h y h2" if "lifted dim x h1 y h2" "x \<in> set ts" for x y
    using that Cons.prems extends_tensor(2)[OF u(2)] by (auto simp: lifted_def)
  then have "list_all2 (\<lambda>t u. lifted dim t h u h2) ts us"
    using us(3) by (auto simp: list_all2_conv_all_nth)
  then show ?case
    using u us lifted_extends[OF u(3) us(2)] extends_trans[OF u(2) us(2)] by simp
qed

lemma sum_ones: "\<forall>x \<in> set xs. f x = (1 :: nat) \<Longrightarrow> sum_list (map f xs) = length xs"
  using sum_blocks[of xs f 1] by simp

lemma stack_validate_None_iff:
  "stack_validate first ts = None \<longleftrightarrow> list_all (\<lambda>t. t_dtype t = t_dtype first \<and> t_shape t = t_shape first) ts"
  by (induction ts) auto

lemma stack_errors:
  assumes "\<not> (ts \<noteq> [] \<and> dim \<le> length (t_shape (hd ts)) \<and>
    (\<forall>t \<in> set ts. t_dtype t = t_dtype (hd ts) \<and> t_shape t = t_shape (hd ts)))"
  shows "\<exists>e. stack ts dim h = Some (Inl e, h)"
proof (cases ts)
  case (Cons first rest)
  then have "dim > length (t_shape first) \<or> stack_validate first rest \<noteq> None"
    using assms stack_validate_None_iff[of first rest] by (auto simp: list_all_iff)
  then show ?thesis using Cons by (auto simp: stack_def)
qed (simp add: stack_def)

text \<open>What \<open>stack\<close> returns.\<close>

definition stacked :: "nat \<Rightarrow> tensor list \<Rightarrow> 'v theap \<Rightarrow> tensor \<Rightarrow> 'v theap \<Rightarrow> bool" where
  "stacked dim ts h t' h' \<longleftrightarrow> tensor_ok t' h' \<and> extends h h' \<and>
     t_shape t' = list_insert (t_shape (hd ts)) dim (length ts) \<and> t_dtype t' = t_dtype (hd ts) \<and>
     (\<forall>k < length ts. \<forall>cs. valid_coords (t_shape (hd ts)) cs \<longrightarrow>
        t_elem t' h' (list_insert cs dim k) = t_elem (ts ! k) h cs)"

lemma stack_ok:
  assumes ts: "ts \<noteq> []" and ok: "\<forall>t \<in> set ts. tensor_ok t h"
    and same: "\<forall>t \<in> set ts. t_dtype t = t_dtype (hd ts) \<and> t_shape t = t_shape (hd ts)"
    and d: "shape_op_dtype (t_dtype (hd ts))" and dim: "dim \<le> length (t_shape (hd ts))"
    and pos: "0 < t_numel (hd ts)"
    and fits: "fits_memory (t_dtype (hd ts)) (length ts * t_numel (hd ts))"
  shows "\<exists>t' h'. stack ts dim h = Some (Inr t', h') \<and> stacked dim ts h t' h'"
proof -
  let ?s = "t_shape (hd ts)" and ?d = "t_dtype (hd ts)"
  have oks: "\<forall>t \<in> set ts. tensor_ok t h \<and> t_shape t = ?s" using ok same by blast
  obtain us h1 where us: "unsqueeze_all (list_insert ?s dim 1) ts h = Some (us, h1)" "extends h h1"
      "list_all2 (\<lambda>t u. lifted dim t h u h1) ts us"
    using unsqueeze_all_ok[OF oks dim pos] by blast
  have len: "length us = length ts" using us(3) by (simp add: list_all2_lengthD)
  have lift: "lifted dim (ts ! k) h (us ! k) h1" if "k < length ts" for k
    using list_all2_nthD[OF us(3) that] .
  have une: "us \<noteq> []" using ts len by auto
  have u: "tensor_ok u h1 \<and> t_dtype u = ?d \<and> t_shape u = list_insert ?s dim 1" if mem: "u \<in> set us" for u
  proof -
    obtain k where k: "k < length ts" "u = us ! k" using mem len by (auto simp: in_set_conv_nth)
    have "ts ! k \<in> set ts" using k by simp
    then show ?thesis using lift[OF k(1)] k(2) same by (auto simp: lifted_def)
  qed
  have hd: "t_shape (hd us) = list_insert ?s dim 1" "t_dtype (hd us) = ?d" using u une by auto
  have dim1: "dim < length (list_insert ?s dim 1)" using dim by simp
  have comp: "cat_compatible dim us" using u dim by (simp add: cat_compatible_def list_all_iff hd list_insert_update list_insert_at)
  have ones: "t_shape x ! dim = 1" if "x \<in> set us" for x using u[OF that] dim by (simp add: list_insert_at)
  have sh: "cat_shape dim us = list_insert ?s dim (length ts)"
    using sum_ones[of us "\<lambda>t. t_shape t ! dim"] ones dim by (simp add: cat_shape_def hd list_insert_update len)
  have parts: "numel ?s = prod_list (take dim ?s) * prod_list (drop dim ?s)"
    using prod_list.append[of "take dim ?s" "drop dim ?s"] by (simp add: numel_prod_list)
  have n: "numel (list_insert ?s dim (length ts)) = length ts * numel ?s"
    using dim parts by (simp add: list_insert_split numel_prod_list)
  have "\<exists>t' h'. cat us dim h1 = Some (Inr t', h') \<and> concatenated dim us h1 t' h' \<and> t_storage t' = length (bufs h1) \<and>
    (\<exists>data. new_tensor (t_dtype (hd us)) (cat_shape dim us) data h1 = (t', h'))"
    using u d dim1 fits pos parts dim n
    by (intro cat_ok[OF une _ comp]) (auto simp: hd sh other_axes_nonempty_def list_insert_split)
  then obtain t' h2 where cat: "cat us dim h1 = Some (Inr t', h2)" "concatenated dim us h1 t' h2" by blast
  have run: "stack ts dim h = Some (Inr t', drop_tensors us h2)"
  proof -
    obtain first rest where e: "ts = first # rest" using ts by (cases ts) auto
    have "stack_validate first rest = None" using same e by (simp add: stack_validate_None_iff list_all_iff)
    then show ?thesis using us(1) cat(1) dim e by (simp add: stack_def)
  qed
  have ext: "extends h2 (drop_tensors us h2)" by (rule drop_tensors_extends)
  note c = cat(2)[unfolded concatenated_def]
  have "t_elem t' h2 (list_insert cs dim k) = t_elem (ts ! k) h cs"
    if k: "k < length ts" and v: "valid_coords ?s cs" for k cs
  proof -
    have l: "length cs = length ?s" by (rule valid_coords_length[OF v])
    have tk: "ts ! k \<in> set ts" using k by simp
    have sk: "t_shape (us ! k) = list_insert ?s dim 1" using u k len by simp
    have "valid_coords (t_shape (us ! k)) (list_insert cs dim 0)"
      using valid_insert[OF v dim, of 0 1] sk by simp
    then have "t_elem t' h2 ((list_insert cs dim 0)[dim := list_insert cs dim 0 ! dim + cat_offset dim us k])
        = t_elem (us ! k) h1 (list_insert cs dim 0)"
      using c k len by simp
    moreover have "cat_offset dim us k = k"
      using sum_ones[of "take k us" "\<lambda>t. t_shape t ! dim"] ones k len in_set_takeD[of _ k us]
      by (simp add: cat_offset_def)
    ultimately have "t_elem t' h2 (list_insert cs dim k) = t_elem (us ! k) h1 (list_insert cs dim 0)"
      using l dim by (simp add: list_insert_update list_insert_at)
    also have "\<dots> = t_elem (ts ! k) h cs" using lift[OF k] v same tk by (simp add: lifted_def)
    finally show ?thesis .
  qed
  then have "stacked dim ts h t' (drop_tensors us h2)"
    using c extends_tensor[OF ext] extends_trans[OF us(2) extends_trans[OF _ ext]] sh hd(2)
    by (simp add: stacked_def)
  then show ?thesis using run by blast
qed

section \<open>Properties\<close>



text \<open>
  The \<open>.max(1)\<close> on the products of the outer and the inner axes makes \<open>cat\<close> slice an empty
  buffer when another axis is empty: it panics instead of returning the empty result.
\<close>

lemma cat_empty_axis_panics:
  "cat [dense_at 0 [0, 2] F32, dense_at 0 [0, 2] F32] 1 index_heap = None"
  by code_simp

text \<open>
  C32. \<open>split\<close> and \<open>chunk\<close> on a tensor of any layout return the consecutive parts of the axis, the
  last one shorter, \<open>chunk\<close> at most as many as asked for, and concatenating the parts of a
  non-empty tensor gives its elements back.
\<close>

theorem split_and_chunk_roundtrip:
  assumes ok: "tensor_ok t h" and dim: "dim < length (t_shape t)" and small: "t_shape t ! dim < u64_limit"
    and sz: "0 < sz" and n: "0 < n"
    and D: "0 < t_shape t ! dim" and pos: "other_axes_nonempty dim (t_shape t)" and d: "shape_op_dtype (t_dtype t)"
  shows "(\<exists>ps h' t' h''. split_tensor t sz dim h = Some (Inr ps, h') \<and> splits t h dim sz ps h' \<and>
      cat ps dim h' = Some (Inr t', h'') \<and> t_shape t' = t_shape t \<and> elems t' h'' = elems t h) \<and>
    (\<exists>ps h' t' h''. chunk_tensor t n dim h = Some (Inr ps, h') \<and> length ps \<le> n \<and>
      splits t h dim (max (div_ceil (t_shape t ! dim) n) 1) ps h' \<and>
      cat ps dim h' = Some (Inr t', h'') \<and> t_shape t' = t_shape t \<and> elems t' h'' = elems t h)"
proof
  note sc = split_cat[OF _ dim _ D pos d own_fits[OF ok]]
  have ne: "0 < t_numel t"
    using D pos unfolding numel_axis[OF dim] by (simp add: other_axes_nonempty_def)
  show "\<exists>ps h' t' h''. split_tensor t sz dim h = Some (Inr ps, h') \<and> splits t h dim sz ps h' \<and>
      cat ps dim h' = Some (Inr t', h'') \<and> t_shape t' = t_shape t \<and> elems t' h'' = elems t h"
    using split_ok[OF ok dim small sz ne] sc[OF _ sz] by blast
  obtain ps h' where p: "chunk_tensor t n dim h = Some (Inr ps, h')" "length ps \<le> n"
      "splits t h dim (max (div_ceil (t_shape t ! dim) n) 1) ps h'"
    using chunk_ok[OF ok dim small n ne] by blast
  show "\<exists>ps h' t' h''. chunk_tensor t n dim h = Some (Inr ps, h') \<and> length ps \<le> n \<and>
      splits t h dim (max (div_ceil (t_shape t ! dim) n) 1) ps h' \<and>
      cat ps dim h' = Some (Inr t', h'') \<and> t_shape t' = t_shape t \<and> elems t' h'' = elems t h"
    using p sc[OF p(3)] by auto
qed

theorem split_and_chunk_roundtrip_witness:
  "\<exists>ps h' t' h''. split_tensor (transposed_at 1) 1 1 two_matrices = Some (Inr ps, h') \<and>
     cat ps 1 h' = Some (Inr t', h'') \<and> elems t' h'' = [10, 30, 20, 40]"
proof -
  have f: "1 < length (t_shape (transposed_at 1))" "t_shape (transposed_at 1) ! 1 < u64_limit"
    "0 < t_shape (transposed_at 1) ! 1" "other_axes_nonempty 1 (t_shape (transposed_at 1))"
    "shape_op_dtype (t_dtype (transposed_at 1))" and one: "0 < (1 :: nat)"
    by code_simp+
  show ?thesis
    using split_and_chunk_roundtrip[OF matrices_ok(3) f(1,2) one one f(3-5)] add_ignores_rhs_strides(2) by auto
qed

end
