(* ===== verification/Data.thy ===== *)
theory Data
  imports Concat
begin

text \<open>
  Samplers, datasets and the loader: \<open>sampler.rs\<close>, \<open>dataset.rs\<close> and \<open>dataloader.rs\<close> of
  \<open>rustorch-data/src/\<close>.  The traits \<open>Sampler\<close> and \<open>Dataset\<close> are locales that the structs of the
  crate interpret.  The random number generator and its shuffle (crate \<open>rand\<close>) are arguments:
  \<open>shuffle\<close> takes the generator and a list and returns both changed, and \<open>seed\<close> makes a generator
  from a \<open>u64\<close>.  What is used of \<open>shuffle\<close> is its documented behaviour, that it permutes the
  list.
\<close>

section \<open>Samplers\<close>

definition sampler_is_empty :: "('s \<Rightarrow> nat) \<Rightarrow> 's \<Rightarrow> bool" where
  "sampler_is_empty len s \<longleftrightarrow> len s = 0"

record sequential_sampler =
  ss_n :: nat

definition sequential_new :: "nat \<Rightarrow> sequential_sampler" where
  "sequential_new n = \<lparr>ss_n = n\<rparr>"

definition sequential_iter :: "sequential_sampler \<Rightarrow> nat list \<times> sequential_sampler" where
  "sequential_iter s = ([0..<ss_n s], s)"

definition sequential_len :: "sequential_sampler \<Rightarrow> nat" where
  "sequential_len s = ss_n s"

record 'r random_sampler =
  rs_n :: nat
  rs_rng :: 'r

text \<open>\<open>RandomSampler::new\<close> seeds with the time of day, an argument here.\<close>

definition random_with_seed :: "(nat \<Rightarrow> 'r) \<Rightarrow> nat \<Rightarrow> nat \<Rightarrow> 'r random_sampler" where
  "random_with_seed seed n s = \<lparr>rs_n = n, rs_rng = seed s\<rparr>"

definition random_new :: "(nat \<Rightarrow> 'r) \<Rightarrow> nat \<Rightarrow> nat \<Rightarrow> 'r random_sampler" where
  "random_new seed nanos n = \<lparr>rs_n = n, rs_rng = seed (nanos mod u64_limit)\<rparr>"

type_synonym 'r shuffler = "'r \<Rightarrow> nat list \<Rightarrow> nat list \<times> 'r"

definition random_iter :: "'r shuffler \<Rightarrow> 'r random_sampler \<Rightarrow> nat list \<times> 'r random_sampler" where
  "random_iter shuffle s =
     (let (idx, rng) = shuffle (rs_rng s) [0..<rs_n s] in (idx, s\<lparr>rs_rng := rng\<rparr>))"

definition random_len :: "'r random_sampler \<Rightarrow> nat" where
  "random_len s = rs_n s"

text \<open>The arithmetic of \<open>f32\<close> that the weighted sampler uses.\<close>

record 'f f32_ops =
  f_zero :: 'f
  f_add :: "'f \<Rightarrow> 'f \<Rightarrow> 'f"
  f_div :: "'f \<Rightarrow> 'f \<Rightarrow> 'f"
  f_le :: "'f \<Rightarrow> 'f \<Rightarrow> bool"
  f_lt :: "'f \<Rightarrow> 'f \<Rightarrow> bool"

record ('f, 'r) weighted_sampler =
  ws_weights :: "'f list"
  ws_cdf :: "'f list"
  ws_n_samples :: nat
  ws_rng :: 'r

text \<open>The loop over the weights; a negative weight (or a NaN) fails the assertion.\<close>

fun weighted_cdf :: "'f f32_ops \<Rightarrow> 'f \<Rightarrow> 'f \<Rightarrow> 'f list \<Rightarrow> 'f list \<Rightarrow> 'f list option" where
  "weighted_cdf F tot acc [] cdf = Some cdf"
| "weighted_cdf F tot acc (w # ws) cdf =
     (if \<not> f_le F (f_zero F) w then None
      else let acc' = f_add F acc (f_div F w tot) in weighted_cdf F tot acc' ws (cdf @ [acc']))"

definition weighted_with_seed ::
  "'f f32_ops \<Rightarrow> (nat \<Rightarrow> 'r) \<Rightarrow> 'f list \<Rightarrow> nat \<Rightarrow> nat \<Rightarrow> ('f, 'r) weighted_sampler option" where
  "weighted_with_seed F seed weights n_samples s =
     (let tot = foldl (f_add F) (f_zero F) weights in
      if \<not> f_lt F (f_zero F) tot then None
      else case weighted_cdf F tot (f_zero F) weights [] of
        None \<Rightarrow> None
      | Some cdf \<Rightarrow> Some \<lparr>ws_weights = weights, ws_cdf = cdf, ws_n_samples = n_samples, ws_rng = seed s\<rparr>)"

definition weighted_new ::
  "'f f32_ops \<Rightarrow> (nat \<Rightarrow> 'r) \<Rightarrow> 'f list \<Rightarrow> nat \<Rightarrow> ('f, 'r) weighted_sampler option" where
  "weighted_new F seed weights n_samples = weighted_with_seed F seed weights n_samples 0"

text \<open>\<open>draw\<close> is \<open>rng.gen_range(0.0..1.0)\<close>; \<open>partition_point\<close> on a list that \<open>c <= u\<close> partitions.  An empty
  list of weights would underflow \<open>len() - 1\<close>.\<close>

fun weighted_draws ::
  "'f f32_ops \<Rightarrow> ('r \<Rightarrow> 'f \<times> 'r) \<Rightarrow> 'f list \<Rightarrow> nat \<Rightarrow> nat \<Rightarrow> 'r \<Rightarrow> (nat list \<times> 'r) option" where
  "weighted_draws F draw cdf n_weights 0 rng = Some ([], rng)"
| "weighted_draws F draw cdf n_weights (Suc n) rng =
     (if n_weights = 0 then None
      else let (u, rng') = draw rng;
               idx = min (length (takeWhile (\<lambda>c. f_le F c u) cdf)) (n_weights - 1) in
        case weighted_draws F draw cdf n_weights n rng' of
          None \<Rightarrow> None
        | Some (out, rng'') \<Rightarrow> Some (idx # out, rng''))"

definition weighted_iter ::
  "'f f32_ops \<Rightarrow> ('r \<Rightarrow> 'f \<times> 'r) \<Rightarrow> ('f, 'r) weighted_sampler \<Rightarrow> (nat list \<times> ('f, 'r) weighted_sampler) option" where
  "weighted_iter F draw s =
     (case weighted_draws F draw (ws_cdf s) (length (ws_weights s)) (ws_n_samples s) (ws_rng s) of
        None \<Rightarrow> None
      | Some (out, rng) \<Rightarrow> Some (out, s\<lparr>ws_rng := rng\<rparr>))"

definition weighted_len :: "('f, 'r) weighted_sampler \<Rightarrow> nat" where
  "weighted_len s = ws_n_samples s"

record distributed_sampler =
  ds_n :: nat
  ds_rank :: nat
  ds_world_size :: nat
  ds_epoch :: nat

definition distributed_new :: "nat \<Rightarrow> nat \<Rightarrow> nat \<Rightarrow> distributed_sampler option" where
  "distributed_new n rank world_size =
     (if \<not> world_size > 0 then None
      else if \<not> rank < world_size then None
      else Some \<lparr>ds_n = n, ds_rank = rank, ds_world_size = world_size, ds_epoch = 0\<rparr>)"

definition set_epoch :: "nat \<Rightarrow> distributed_sampler \<Rightarrow> distributed_sampler" where
  "set_epoch epoch s = s\<lparr>ds_epoch := epoch\<rparr>"

text \<open>\<open>enumerate().filter_map(...)\<close>\<close>

definition rank_slice :: "nat \<Rightarrow> nat \<Rightarrow> nat list \<Rightarrow> nat list" where
  "rank_slice world_size rank all =
     map snd (filter (\<lambda>(i, v). i mod world_size = rank) (zip [0..<length all] all))"

definition distributed_iter ::
  "(nat \<Rightarrow> 'r) \<Rightarrow> 'r shuffler \<Rightarrow> distributed_sampler \<Rightarrow> nat list \<times> distributed_sampler" where
  "distributed_iter seed shuffle s =
     (rank_slice (ds_world_size s) (ds_rank s) (fst (shuffle (seed (ds_epoch s)) [0..<ds_n s])), s)"

definition distributed_len :: "distributed_sampler \<Rightarrow> nat" where
  "distributed_len s =
     (let base = ds_n s div ds_world_size s;
          extra = (if ds_rank s < ds_n s mod ds_world_size s then 1 else 0)
      in base + extra)"

section \<open>Datasets\<close>

datatype dataset_error =
    DatasetShapeMismatch nat "nat list" "nat list"
  | DatasetIndexOutOfBounds nat nat

record tensor_dataset =
  td_inputs :: tensor
  td_targets :: tensor
  td_len :: nat

definition rows_of :: "tensor \<Rightarrow> nat" where
  "rows_of t = (if t_shape t = [] then 0 else t_shape t ! 0)"

definition tensor_dataset_new :: "tensor \<Rightarrow> tensor \<Rightarrow> dataset_error + tensor_dataset" where
  "tensor_dataset_new inputs targets =
     (let n_in = rows_of inputs; n_tgt = rows_of targets in
      if n_in \<noteq> n_tgt then Inl (DatasetShapeMismatch 0 (t_shape targets) (t_shape inputs))
      else Inr \<lparr>td_inputs = inputs, td_targets = targets, td_len = n_in\<rparr>)"

text \<open>How an \<open>i64\<close> is stored in and read from a buffer.\<close>

record 'v i64_codec =
  of_i64 :: "int \<Rightarrow> 'v"
  to_i64 :: "'v \<Rightarrow> int"

text \<open>\<open>get\<close>: a one-element index tensor, two selections that are expected to succeed.\<close>

definition expect_kernel :: "'v kernel_result \<Rightarrow> (tensor \<times> 'v theap) option" where
  "expect_kernel r = (case r of None \<Rightarrow> None | Some x \<Rightarrow> expect_ok x)"

definition dataset_get ::
  "'v i64_codec \<Rightarrow> tensor_dataset \<Rightarrow> nat \<Rightarrow> 'v theap \<Rightarrow> ((dataset_error + tensor \<times> tensor) \<times> 'v theap) option" where
  "dataset_get C ds idx h =
     (if idx \<ge> td_len ds then Some (Inl (DatasetIndexOutOfBounds idx (td_len ds)), h)
      else case expect_ok (from_vec_sized I64 [1] [of_i64 C (as_i64 idx)] h) of
        None \<Rightarrow> None
      | Some (idx_t, h1) \<Rightarrow>
          (case expect_kernel (index_select (to_i64 C) (td_inputs ds) 0 idx_t h1) of
             None \<Rightarrow> None
           | Some (in_row, h2) \<Rightarrow>
               (case expect_kernel (index_select (to_i64 C) (td_targets ds) 0 idx_t h2) of
                  None \<Rightarrow> None
                | Some (tgt_row, h3) \<Rightarrow> Some (Inr (in_row, tgt_row), drop_tensor idx_t h3))))"

section \<open>The loader\<close>

datatype data_loader_error =
    DatasetFailed dataset_error
  | BackendFailed backend_error

type_synonym 'v dataset_fn = "nat \<Rightarrow> 'v theap \<Rightarrow> ((dataset_error + tensor \<times> tensor) \<times> 'v theap) option"

record 's data_loader =
  dl_sampler :: 's
  dl_batch_size :: nat
  dl_drop_last :: bool

definition loader_new :: "'s \<Rightarrow> nat \<Rightarrow> 's data_loader" where
  "loader_new sampler batch_size = \<lparr>dl_sampler = sampler, dl_batch_size = batch_size, dl_drop_last = False\<rparr>"

definition set_drop_last :: "bool \<Rightarrow> 's data_loader \<Rightarrow> 's data_loader" where
  "set_drop_last b l = l\<lparr>dl_drop_last := b\<rparr>"

text \<open>A batch size of zero divides by zero.\<close>

definition num_batches :: "('s \<Rightarrow> nat) \<Rightarrow> 's data_loader \<Rightarrow> nat option" where
  "num_batches len l =
     (let n = len (dl_sampler l) in
      if dl_batch_size l = 0 then None
      else Some (if dl_drop_last l then n div dl_batch_size l else div_ceil n (dl_batch_size l)))"

function chunks :: "nat \<Rightarrow> 'a list \<Rightarrow> 'a list list" where
  "chunks n xs = (if xs = [] \<or> n = 0 then [] else take n xs # chunks n (drop n xs))"
  by pat_completeness auto
termination
  by (relation "measure (\<lambda>(n, xs). length xs)") auto

declare chunks.simps [simp del]

fun collect_rows ::
  "'v dataset_fn \<Rightarrow> nat list \<Rightarrow> tensor list \<Rightarrow> tensor list \<Rightarrow> 'v theap
    \<Rightarrow> ((dataset_error + tensor list \<times> tensor list) \<times> 'v theap) option" where
  "collect_rows get [] xs ys h = Some (Inr (xs, ys), h)"
| "collect_rows get (i # is) xs ys h =
     (case get i h of
        None \<Rightarrow> None
      | Some (Inl e, h') \<Rightarrow> Some (Inl e, drop_tensors ys (drop_tensors xs h'))
      | Some (Inr (x, y), h') \<Rightarrow> collect_rows get is (xs @ [x]) (ys @ [y]) h')"

text \<open>One batch: the rows, then the two concatenations; the rows are dropped at the end of the iteration.\<close>

definition load_batch ::
  "'v dataset_fn \<Rightarrow> nat list \<Rightarrow> 'v theap \<Rightarrow> ((data_loader_error + tensor \<times> tensor) \<times> 'v theap) option" where
  "load_batch get chunk h =
     (case collect_rows get chunk [] [] h of
        None \<Rightarrow> None
      | Some (Inl e, h1) \<Rightarrow> Some (Inl (DatasetFailed e), h1)
      | Some (Inr (xs, ys), h1) \<Rightarrow>
          (case cat xs 0 h1 of
             None \<Rightarrow> None
           | Some (xb, h2) \<Rightarrow>
               (case cat ys 0 h2 of
                  None \<Rightarrow> None
                | Some (yb, h3) \<Rightarrow>
                    let h4 = drop_tensors ys (drop_tensors xs h3) in
                    (case (xb, yb) of
                       (Inr x, Inr y) \<Rightarrow> Some (Inr (x, y), h4)
                     | (Inl e, Inl _) \<Rightarrow> Some (Inl (BackendFailed e), h4)
                     | (Inl e, Inr y) \<Rightarrow> Some (Inl (BackendFailed e), drop_tensor y h4)
                     | (Inr x, Inl e) \<Rightarrow> Some (Inl (BackendFailed e), drop_tensor x h4)))))"

fun load_batches ::
  "'v dataset_fn \<Rightarrow> nat \<Rightarrow> bool \<Rightarrow> nat list list \<Rightarrow> 'v theap
    \<Rightarrow> ((data_loader_error + tensor \<times> tensor) list \<times> 'v theap) option" where
  "load_batches get batch_size drop_last [] h = Some ([], h)"
| "load_batches get batch_size drop_last (c # cs) h =
     (if drop_last \<and> length c < batch_size then Some ([], h)
      else case load_batch get c h of
        None \<Rightarrow> None
      | Some (b, h1) \<Rightarrow>
          (case load_batches get batch_size drop_last cs h1 of
             None \<Rightarrow> None
           | Some (bs, h2) \<Rightarrow> Some (b # bs, h2)))"

definition iter_epoch ::
  "'v dataset_fn \<Rightarrow> ('s \<Rightarrow> nat list \<times> 's) \<Rightarrow> 's data_loader \<Rightarrow> 'v theap
    \<Rightarrow> ((data_loader_error + tensor \<times> tensor) list \<times> 's data_loader \<times> 'v theap) option" where
  "iter_epoch get iter l h =
     (let (indices, s) = iter (dl_sampler l) in
      if dl_batch_size l = 0 then None
      else case load_batches get (dl_batch_size l) (dl_drop_last l) (chunks (dl_batch_size l) indices) h of
        None \<Rightarrow> None
      | Some (bs, h') \<Rightarrow> Some (bs, l\<lparr>dl_sampler := s\<rparr>, h'))"

section \<open>The contracts\<close>

subsection \<open>Samplers\<close>

text \<open>\<open>iter\<close> gives \<open>len\<close> indices into a dataset of \<open>size\<close> rows and keeps the sampler well-formed.\<close>

locale sampler =
  fixes wf :: "'s \<Rightarrow> bool" and iter :: "'s \<Rightarrow> nat list \<times> 's" and len :: "'s \<Rightarrow> nat" and size :: "'s \<Rightarrow> nat"
  assumes iter_wf: "wf s \<Longrightarrow> wf (snd (iter s))"
    and iter_len: "wf s \<Longrightarrow> length (fst (iter s)) = len s"
    and iter_range: "wf s \<Longrightarrow> set (fst (iter s)) \<subseteq> {..<size s}"
    and iter_same: "wf s \<Longrightarrow> len (snd (iter s)) = len s \<and> size (snd (iter s)) = size s"

text \<open>A sampler that visits every row exactly once in an epoch.\<close>

locale exhaustive_sampler = sampler +
  assumes iter_perm: "wf s \<Longrightarrow> mset (fst (iter s)) = mset [0..<size s]"
begin

lemma len_size: "wf s \<Longrightarrow> len s = size s"
  using iter_perm[of s] iter_len[of s] by (metis length_upt mset_eq_length diff_zero)

lemma visits_once: "wf s \<Longrightarrow> i < size s \<Longrightarrow> count_list (fst (iter s)) i = 1"
proof -
  assume wf: "wf s" and i: "i < size s"
  have "count_list (fst (iter s)) i = count (mset (fst (iter s))) i" by (simp add: count_mset)
  also have "\<dots> = count (mset [0..<size s]) i" using iter_perm[OF wf] by (rule arg_cong)
  also have "\<dots> = 1" using i by (simp add: count_mset_set)
  finally show ?thesis .
qed

end

interpretation sequential: exhaustive_sampler "\<lambda>_. True" sequential_iter sequential_len ss_n
  by unfold_locales (auto simp: sequential_iter_def sequential_len_def)

text \<open>The documented behaviour of \<open>SliceRandom::shuffle\<close>.\<close>

definition permutes_list :: "'r shuffler \<Rightarrow> bool" where
  "permutes_list shuffle \<longleftrightarrow> (\<forall>rng xs. mset (fst (shuffle rng xs)) = mset xs)"

lemma shuffled:
  assumes "permutes_list shuffle"
  shows "length (fst (shuffle rng [0..<n])) = n" "set (fst (shuffle rng [0..<n])) = {..<n}"
    "mset (fst (shuffle rng [0..<n])) = mset [0..<n]"
proof -
  show m: "mset (fst (shuffle rng [0..<n])) = mset [0..<n]" using assms unfolding permutes_list_def by blast
  show "length (fst (shuffle rng [0..<n])) = n" using mset_eq_length[OF m] by simp
  show "set (fst (shuffle rng [0..<n])) = {..<n}" using mset_eq_setD[OF m] by (simp add: atLeast0LessThan)
qed

text \<open>The shuffle is part of what is sampled here, so that one interpretation covers every shuffle that
  permutes.\<close>

definition random_step :: "'r shuffler \<times> 'r random_sampler \<Rightarrow> nat list \<times> 'r shuffler \<times> 'r random_sampler" where
  "random_step p = (fst (random_iter (fst p) (snd p)), fst p, snd (random_iter (fst p) (snd p)))"

lemma random_iter_eq:
  "fst (random_iter shuffle s) = fst (shuffle (rs_rng s) [0..<rs_n s])" "rs_n (snd (random_iter shuffle s)) = rs_n s"
  by (simp_all add: random_iter_def split: prod.splits)

interpretation random: exhaustive_sampler "\<lambda>p. permutes_list (fst p)" random_step
  "\<lambda>p. random_len (snd p)" "\<lambda>p. rs_n (snd p)"
proof
  fix p :: "'r shuffler \<times> 'r random_sampler" assume w: "permutes_list (fst p)"
  note f = shuffled[OF w, of "rs_rng (snd p)" "rs_n (snd p)"]
  show "permutes_list (fst (snd (random_step p)))" using w by (simp add: random_step_def)
  show "length (fst (random_step p)) = random_len (snd p)"
    using f(1) by (simp add: random_step_def random_iter_eq random_len_def)
  show "set (fst (random_step p)) \<subseteq> {..<rs_n (snd p)}" using f(2) by (simp add: random_step_def random_iter_eq)
  show "random_len (snd (snd (random_step p))) = random_len (snd p) \<and> rs_n (snd (snd (random_step p))) = rs_n (snd p)"
    by (simp add: random_step_def random_iter_eq random_len_def)
  show "mset (fst (random_step p)) = mset [0..<rs_n (snd p)]"
    using f(3) unfolding random_step_def random_iter_eq fst_conv .
qed

text \<open>The weighted sampler.\<close>

definition weighted_wf :: "('f, 'r) weighted_sampler \<Rightarrow> bool" where
  "weighted_wf s \<longleftrightarrow> ws_weights s \<noteq> []"

lemma weighted_draws_ok:
  "0 < n_weights \<Longrightarrow> \<exists>out rng'. weighted_draws F draw cdf n_weights n rng = Some (out, rng') \<and> length out = n \<and>
     set out \<subseteq> {..<n_weights}"
proof (induction n arbitrary: rng)
  case (Suc n)
  obtain u rng1 where u: "draw rng = (u, rng1)" by fastforce
  obtain out rng2 where "weighted_draws F draw cdf n_weights n rng1 = Some (out, rng2)" "length out = n"
      "set out \<subseteq> {..<n_weights}" using Suc by blast
  then show ?case using Suc.prems by (simp add: u Let_def)
qed simp

text \<open>A sampler that passed the assertions of its constructor has a weight, so drawing never panics.\<close>

lemma weighted_new_wf:
  assumes "\<not> f_lt F (f_zero F) (f_zero F)" "weighted_with_seed F seed weights n s = Some w"
  shows "weighted_wf w" "ws_weights w = weights" "ws_n_samples w = n"
proof -
  have "weights \<noteq> []" using assms by (auto simp: weighted_with_seed_def Let_def)
  then show "weighted_wf w" "ws_weights w = weights" "ws_n_samples w = n"
    using assms(2) by (auto simp: weighted_with_seed_def weighted_wf_def Let_def split: if_splits option.splits)
qed

definition weighted_step ::
  "('f f32_ops \<times> ('r \<Rightarrow> 'f \<times> 'r)) \<times> ('f, 'r) weighted_sampler
    \<Rightarrow> nat list \<times> ('f f32_ops \<times> ('r \<Rightarrow> 'f \<times> 'r)) \<times> ('f, 'r) weighted_sampler" where
  "weighted_step p =
     (case weighted_iter (fst (fst p)) (snd (fst p)) (snd p) of
        None \<Rightarrow> ([], p)
      | Some (out, s) \<Rightarrow> (out, fst p, s))"

lemma weighted_iter_ok:
  assumes "weighted_wf s"
  shows "\<exists>out rng. weighted_iter F draw s = Some (out, s\<lparr>ws_rng := rng\<rparr>) \<and> length out = ws_n_samples s \<and>
    set out \<subseteq> {..<length (ws_weights s)}"
proof -
  have "0 < length (ws_weights s)" using assms by (simp add: weighted_wf_def)
  from weighted_draws_ok[OF this, of F draw "ws_cdf s" "ws_n_samples s" "ws_rng s"]
  show ?thesis by (auto simp: weighted_iter_def)
qed

interpretation weighted: sampler "\<lambda>p. weighted_wf (snd p)" weighted_step
  "\<lambda>p. weighted_len (snd p)" "\<lambda>p. length (ws_weights (snd p))"
proof
  fix p :: "('f f32_ops \<times> ('r \<Rightarrow> 'f \<times> 'r)) \<times> ('f, 'r) weighted_sampler"
  assume w: "weighted_wf (snd p)"
  from weighted_iter_ok[OF w, of "fst (fst p)" "snd (fst p)"] obtain out rng where
    r: "weighted_iter (fst (fst p)) (snd (fst p)) (snd p) = Some (out, (snd p)\<lparr>ws_rng := rng\<rparr>)"
       "length out = ws_n_samples (snd p)" "set out \<subseteq> {..<length (ws_weights (snd p))}" by blast
  show "weighted_wf (snd (snd (weighted_step p)))" "length (fst (weighted_step p)) = weighted_len (snd p)"
    "set (fst (weighted_step p)) \<subseteq> {..<length (ws_weights (snd p))}"
    "weighted_len (snd (snd (weighted_step p))) = weighted_len (snd p) \<and>
     length (ws_weights (snd (snd (weighted_step p)))) = length (ws_weights (snd p))"
    using w r by (simp_all add: weighted_step_def weighted_wf_def weighted_len_def)
qed

text \<open>The distributed sampler: the slices of the ranks partition the list.\<close>

lemma mod_partition:
  fixes w :: nat
  assumes "0 < w"
  shows "(\<Sum>r<w. mset (filter (\<lambda>(i, v). i mod w = r) ps)) = mset ps"
proof (induction ps)
  case (Cons p ps)
  obtain i v where p: "p = (i, v)" by (cases p)
  have "(\<Sum>r<w. mset (filter (\<lambda>(i, v). i mod w = r) (p # ps)))
      = (\<Sum>r<w. (if i mod w = r then {#p#} else {#}) + mset (filter (\<lambda>(i, v). i mod w = r) ps))"
    by (intro sum.cong) (auto simp: p)
  also have "\<dots> = (\<Sum>r<w. if i mod w = r then {#p#} else {#}) + mset ps"
    using Cons by (simp add: sum.distrib)
  also have "(\<Sum>r<w. if i mod w = r then {#p#} else {#}) = {#p#}"
    using assms by (subst sum.delta') simp_all
  finally show ?case by simp
qed simp

lemma image_mset_sum_less: "image_mset f (\<Sum>r<n :: nat. g r) = (\<Sum>r<n. image_mset f (g r))"
  by (induction n) simp_all

lemma rank_slices_partition:
  assumes "0 < w"
  shows "(\<Sum>r<w. mset (rank_slice w r xs)) = mset xs"
proof -
  have "(\<Sum>r<w. mset (rank_slice w r xs)) = image_mset snd (\<Sum>r<w. mset (filter (\<lambda>(i, v). i mod w = r) (zip [0..<length xs] xs)))"
    by (simp add: rank_slice_def image_mset_sum_less)
  also have "\<dots> = image_mset snd (mset (zip [0..<length xs] xs))" by (simp only: mod_partition[OF assms])
  also have "\<dots> = mset xs" by (simp flip: mset_map)
  finally show ?thesis .
qed

lemma count_residues:
  "0 < w \<Longrightarrow> r < w \<Longrightarrow> length (filter (\<lambda>i. i mod w = r) [0..<n]) = n div w + (if r < n mod w then 1 else 0)"
proof (induction n)
  case (Suc n)
  then show ?case by (auto simp: div_Suc mod_Suc)
qed simp

lemma length_rank_slice:
  assumes "0 < w" "r < w"
  shows "length (rank_slice w r xs) = length xs div w + (if r < length xs mod w then 1 else 0)"
proof -
  have "filter (\<lambda>(i, v). i mod w = r) (zip [0..<length xs] xs)
      = filter ((\<lambda>i. i mod w = r) \<circ> fst) (zip [0..<length xs] xs)"
    by (rule filter_cong) auto
  moreover have "length (filter ((\<lambda>i. i mod w = r) \<circ> fst) (zip [0..<length xs] xs))
      = length (filter (\<lambda>i. i mod w = r) (map fst (zip [0..<length xs] xs)))"
    by (simp only: filter_map length_map)
  ultimately have "length (rank_slice w r xs) = length (filter (\<lambda>i. i mod w = r) [0..<length xs])"
    by (simp add: rank_slice_def)
  then show ?thesis using count_residues[OF assms, of "length xs"] by simp
qed

lemma rank_slice_subset: "set (rank_slice w r xs) \<subseteq> set xs"
  by (auto simp: rank_slice_def dest: set_zip_rightD)

definition distributed_wf :: "distributed_sampler \<Rightarrow> bool" where
  "distributed_wf s \<longleftrightarrow> ds_rank s < ds_world_size s"

lemma distributed_new_wf: "distributed_new n rank w = Some s \<Longrightarrow> distributed_wf s"
  by (auto simp: distributed_new_def distributed_wf_def split: if_splits)

definition distributed_step ::
  "((nat \<Rightarrow> 'r) \<times> 'r shuffler) \<times> distributed_sampler \<Rightarrow> nat list \<times> ((nat \<Rightarrow> 'r) \<times> 'r shuffler) \<times> distributed_sampler" where
  "distributed_step p = (fst (distributed_iter (fst (fst p)) (snd (fst p)) (snd p)), fst p,
     snd (distributed_iter (fst (fst p)) (snd (fst p)) (snd p)))"

interpretation distributed: sampler "\<lambda>p. permutes_list (snd (fst p)) \<and> distributed_wf (snd p)" distributed_step
  "\<lambda>p. distributed_len (snd p)" "\<lambda>p. ds_n (snd p)"
proof
  fix p :: "((nat \<Rightarrow> 'r) \<times> 'r shuffler) \<times> distributed_sampler"
  assume w: "permutes_list (snd (fst p)) \<and> distributed_wf (snd p)"
  let ?s = "snd p" and ?all = "fst (snd (fst p) (fst (fst p) (ds_epoch (snd p))) [0..<ds_n (snd p)])"
  note f = shuffled[OF conjunct1[OF w], of "fst (fst p) (ds_epoch ?s)" "ds_n ?s"]
  have r: "ds_rank ?s < ds_world_size ?s" using w by (simp add: distributed_wf_def)
  then have pos: "0 < ds_world_size ?s" by simp
  have it: "fst (distributed_step p) = rank_slice (ds_world_size ?s) (ds_rank ?s) ?all" "snd (distributed_step p) = p"
    by (simp_all add: distributed_step_def distributed_iter_def)
  show "permutes_list (snd (fst (snd (distributed_step p)))) \<and> distributed_wf (snd (snd (distributed_step p)))"
    using w by (simp add: it)
  show "length (fst (distributed_step p)) = distributed_len ?s"
    using length_rank_slice[OF pos r, of ?all] f(1) by (simp add: it distributed_len_def)
  show "set (fst (distributed_step p)) \<subseteq> {..<ds_n ?s}"
    using rank_slice_subset[of "ds_world_size ?s" "ds_rank ?s" ?all] f(2) by (simp add: it)
  show "distributed_len (snd (snd (distributed_step p))) = distributed_len ?s \<and> ds_n (snd (snd (distributed_step p))) = ds_n ?s"
    by (simp add: it)
qed

subsection \<open>Datasets\<close>

text \<open>One row, and a batch of rows: the leading axis counts the rows.\<close>

definition is_batch :: "dtype \<Rightarrow> shape \<Rightarrow> (nat list \<Rightarrow> 'v) list \<Rightarrow> tensor \<Rightarrow> 'v theap \<Rightarrow> bool" where
  "is_batch d s rows t h \<longleftrightarrow> tensor_ok t h \<and> t_dtype t = d \<and> t_shape t = length rows # s \<and>
     (\<forall>j < length rows. \<forall>cs. valid_coords s cs \<longrightarrow> t_elem t h (j # cs) = (rows ! j) cs)"

lemma is_batch_extends: "is_batch d s rows t h \<Longrightarrow> extends h h' \<Longrightarrow> is_batch d s rows t h'"
  using extends_tensor[of h h' t] by (auto simp: is_batch_def)

text \<open>
  \<open>get\<close> returns row \<open>i\<close> of both parts, \<open>xrow D h i\<close> and \<open>yrow D h i\<close> as functions of the
  coordinates, in two tensors of leading extent 1.
\<close>

locale dataset =
  fixes wf :: "'d \<Rightarrow> 'v theap \<Rightarrow> bool" and get :: "'d \<Rightarrow> 'v dataset_fn" and size :: "'d \<Rightarrow> nat"
    and xrow yrow :: "'d \<Rightarrow> 'v theap \<Rightarrow> nat \<Rightarrow> nat list \<Rightarrow> 'v"
    and xd yd :: "'d \<Rightarrow> dtype" and xs ys :: "'d \<Rightarrow> shape"
  assumes wf_extends: "wf D h \<Longrightarrow> extends h h' \<Longrightarrow> wf D h'"
    and row_extends: "wf D h \<Longrightarrow> extends h h' \<Longrightarrow> i < size D \<Longrightarrow> valid_coords (xs D) cs \<Longrightarrow> xrow D h' i cs = xrow D h i cs"
      "wf D h \<Longrightarrow> extends h h' \<Longrightarrow> i < size D \<Longrightarrow> valid_coords (ys D) cs \<Longrightarrow> yrow D h' i cs = yrow D h i cs"
    and get_row: "wf D h \<Longrightarrow> i < size D \<Longrightarrow> \<exists>x y h'. get D i h = Some (Inr (x, y), h') \<and> extends h h' \<and>
      is_batch (xd D) (xs D) [xrow D h i] x h' \<and> is_batch (yd D) (ys D) [yrow D h i] y h'"
    and get_outside: "size D \<le> i \<Longrightarrow> get D i h = Some (Inl (DatasetIndexOutOfBounds i (size D)), h)"
    and rows_cat: "wf D h \<Longrightarrow> shape_op_dtype (xd D) \<and> shape_op_dtype (yd D) \<and> 0 \<notin> set (xs D) \<and> 0 \<notin> set (ys D)"

text \<open>Concatenating rows gives the batch.\<close>

lemma cat_rows:
  assumes rows: "list_all2 (\<lambda>r t. is_batch d s [r] t h) rs ts" and ne: "ts \<noteq> []"
    and d: "shape_op_dtype d" and s: "0 \<notin> set s" and fits: "fits_memory d (length ts * prod_list s)"
  shows "\<exists>t h'. cat ts 0 h = Some (Inr t, h') \<and> is_batch d s rs t h' \<and> extends h h'"
proof -
  have len: "length rs = length ts" using rows by (rule list_all2_lengthD)
  have r: "is_batch d s [rs ! k] (ts ! k) h" if "k < length ts" for k
    using list_all2_nthD[OF rows] that len by simp
  have t: "tensor_ok t h \<and> t_dtype t = d \<and> t_shape t = 1 # s" if mem: "t \<in> set ts" for t
  proof -
    obtain k where "k < length ts" "t = ts ! k" using mem by (auto simp: in_set_conv_nth)
    then show ?thesis using r by (auto simp: is_batch_def)
  qed
  have hd: "t_dtype (hd ts) = d" "t_shape (hd ts) = 1 # s" using t ne by auto
  have comp: "cat_compatible 0 ts" using t by (simp add: cat_compatible_def list_all_iff hd)
  have one: "t_shape x ! 0 = 1" if "x \<in> set ts" for x using t[OF that] by simp
  have sh: "cat_shape 0 ts = length ts # s"
    using sum_ones[of ts "\<lambda>t. t_shape t ! 0"] one by (simp add: cat_shape_def hd)
  have "\<exists>t' h'. cat ts 0 h = Some (Inr t', h') \<and> concatenated 0 ts h t' h' \<and> t_storage t' = length (bufs h) \<and>
    (\<exists>data. new_tensor (t_dtype (hd ts)) (cat_shape 0 ts) data h = (t', h'))"
    using t d fits prod_list_pos[OF s]
    by (intro cat_ok[OF ne _ comp]) (simp_all add: hd sh other_axes_nonempty_def numel_prod_list)
  then obtain t' h' where cat: "cat ts 0 h = Some (Inr t', h')" "concatenated 0 ts h t' h'" by blast
  have "t_elem t' h' (k # cs) = (rs ! k) cs" if k: "k < length ts" and v: "valid_coords s cs" for k cs
  proof -
    have "valid_coords (t_shape (ts ! k)) (0 # cs)" using v t k by (simp add: valid_coords_Cons)
    then have "t_elem t' h' ((0 # cs)[0 := (0 # cs) ! 0 + cat_offset 0 ts k]) = t_elem (ts ! k) h (0 # cs)"
      using cat(2) k unfolding concatenated_def by blast
    moreover have "cat_offset 0 ts k = k"
      using sum_ones[of "take k ts" "\<lambda>t. t_shape t ! 0"] one k in_set_takeD[of _ k ts]
      by (simp add: cat_offset_def)
    moreover have "t_elem (ts ! k) h (0 # cs) = (rs ! k) cs" using r[OF k] v by (simp add: is_batch_def)
    ultimately show ?thesis by simp
  qed
  then show ?thesis using cat sh len hd by (auto simp: is_batch_def concatenated_def)
qed

context dataset begin

lemma rows_extend:
  assumes "wf D h" "extends h h'" "i < size D"
  shows "is_batch d (xs D) [xrow D h' i] t g \<longleftrightarrow> is_batch d (xs D) [xrow D h i] t g"
    and "is_batch d (ys D) [yrow D h' i] t g \<longleftrightarrow> is_batch d (ys D) [yrow D h i] t g"
  using row_extends[OF assms] by (auto simp: is_batch_def)

lemma collect_rows_ok:
  assumes wf: "wf D h0" and range: "set is \<subseteq> {..<size D}"
  shows "extends h0 h \<Longrightarrow> list_all2 (\<lambda>i t. is_batch (xd D) (xs D) [xrow D h0 i] t h) js us \<Longrightarrow>
    list_all2 (\<lambda>i t. is_batch (yd D) (ys D) [yrow D h0 i] t h) js vs \<Longrightarrow>
    \<exists>us' vs' h'. collect_rows (get D) is us vs h = Some (Inr (us', vs'), h') \<and> extends h h' \<and>
      list_all2 (\<lambda>i t. is_batch (xd D) (xs D) [xrow D h0 i] t h') (js @ is) us' \<and>
      list_all2 (\<lambda>i t. is_batch (yd D) (ys D) [yrow D h0 i] t h') (js @ is) vs'"
  using range
proof (induction "is" arbitrary: h js us vs)
  case Nil
  then show ?case by auto
next
  case (Cons i "is")
  have i: "i < size D" using Cons.prems(4) by simp
  obtain x y h1 where g: "get D i h = Some (Inr (x, y), h1)" "extends h h1"
      "is_batch (xd D) (xs D) [xrow D h i] x h1" "is_batch (yd D) (ys D) [yrow D h i] y h1"
    using get_row[OF wf_extends[OF wf Cons.prems(1)] i] by blast
  have us: "list_all2 (\<lambda>i t. is_batch (xd D) (xs D) [xrow D h0 i] t h1) (js @ [i]) (us @ [x])"
    and vs: "list_all2 (\<lambda>i t. is_batch (yd D) (ys D) [yrow D h0 i] t h1) (js @ [i]) (vs @ [y])"
    using Cons.prems(2,3) g(3,4) rows_extend[OF wf Cons.prems(1) i] is_batch_extends[OF _ g(2)]
    by (auto intro!: list_all2_appendI elim!: list_all2_mono)
  have "set is \<subseteq> {..<size D}" using Cons.prems(4) by simp
  from Cons.IH[OF extends_trans[OF Cons.prems(1) g(2)] us vs this] g(1) extends_trans[OF g(2)]
  show ?case by fastforce
qed

lemma load_batch_ok:
  assumes wf: "wf D h0" and ext: "extends h0 h" and range: "set c \<subseteq> {..<size D}" and ne: "c \<noteq> []"
    and fits: "fits_memory (xd D) (length c * prod_list (xs D))" "fits_memory (yd D) (length c * prod_list (ys D))"
  shows "\<exists>x y h'. load_batch (get D) c h = Some (Inr (x, y), h') \<and> extends h h' \<and>
    is_batch (xd D) (xs D) (map (xrow D h0) c) x h' \<and> is_batch (yd D) (ys D) (map (yrow D h0) c) y h'"
proof -
  note rc = rows_cat[OF wf]
  obtain us vs h1 where cr: "collect_rows (get D) c [] [] h = Some (Inr (us, vs), h1)" "extends h h1"
      "list_all2 (\<lambda>i t. is_batch (xd D) (xs D) [xrow D h0 i] t h1) c us"
      "list_all2 (\<lambda>i t. is_batch (yd D) (ys D) [yrow D h0 i] t h1) c vs"
    using collect_rows_ok[OF wf range ext, of "[]" "[]" "[]"] by auto
  have len: "length us = length c" "length vs = length c" using list_all2_lengthD[OF cr(3)] list_all2_lengthD[OF cr(4)] by simp_all
  have nes: "us \<noteq> []" "vs \<noteq> []" using ne len by auto
  have "list_all2 (\<lambda>r t. is_batch (xd D) (xs D) [r] t h1) (map (xrow D h0) c) us"
    using cr(3) by (simp add: list_all2_map1)
  from cat_rows[OF this nes(1)] rc fits(1) len(1) obtain x h2 where
    x: "cat us 0 h1 = Some (Inr x, h2)" "is_batch (xd D) (xs D) (map (xrow D h0) c) x h2" "extends h1 h2" by auto
  have "list_all2 (\<lambda>r t. is_batch (yd D) (ys D) [r] t h2) (map (yrow D h0) c) vs"
    using cr(4) is_batch_extends[OF _ x(3)] by (auto simp: list_all2_map1 elim!: list_all2_mono)
  from cat_rows[OF this nes(2)] rc fits(2) len(2) obtain y h3 where
    y: "cat vs 0 h2 = Some (Inr y, h3)" "is_batch (yd D) (ys D) (map (yrow D h0) c) y h3" "extends h2 h3" by auto
  let ?h = "drop_tensors vs (drop_tensors us h3)"
  have e: "extends h3 ?h" using drop_tensors_extends extends_trans by blast
  have "extends h ?h" using cr(2) x(3) y(3) e extends_trans by blast
  moreover have "load_batch (get D) c h = Some (Inr (x, y), ?h)"
    by (simp add: load_batch_def cr(1) x(1) y(1) Let_def)
  ultimately show ?thesis
    using is_batch_extends[OF is_batch_extends[OF x(2) y(3)] e] is_batch_extends[OF y(2) e] by blast
qed

text \<open>Batch \<open>b\<close> of an epoch holds the rows of the indices \<open>c\<close>.\<close>

definition batch_of :: "'d \<Rightarrow> 'v theap \<Rightarrow> nat list \<Rightarrow> data_loader_error + tensor \<times> tensor \<Rightarrow> 'v theap \<Rightarrow> bool" where
  "batch_of D h c b h' \<longleftrightarrow> (\<exists>x y. b = Inr (x, y) \<and>
     is_batch (xd D) (xs D) (map (xrow D h) c) x h' \<and> is_batch (yd D) (ys D) (map (yrow D h) c) y h')"

lemma load_batches_ok:
  assumes wf: "wf D h0" and cs: "\<forall>c \<in> set cs. set c \<subseteq> {..<size D} \<and> c \<noteq> [] \<and> length c \<le> B"
    and fits: "fits_memory (xd D) (B * prod_list (xs D))" "fits_memory (yd D) (B * prod_list (ys D))"
  shows "extends h0 h \<Longrightarrow> \<exists>bs h'. load_batches (get D) B d cs h = Some (bs, h') \<and> extends h h' \<and>
    list_all2 (\<lambda>c b. batch_of D h0 c b h') (takeWhile (\<lambda>c. \<not> (d \<and> length c < B)) cs) bs"
  using cs
proof (induction cs arbitrary: h)
  case Nil
  then show ?case by simp
next
  case (Cons c cs)
  show ?case
  proof (cases "d \<and> length c < B")
    case True
    then show ?thesis by simp
  next
    case False
    have c: "set c \<subseteq> {..<size D}" "c \<noteq> []" "length c \<le> B" using Cons.prems(2) by auto
    have f: "fits_memory (xd D) (length c * prod_list (xs D))" "fits_memory (yd D) (length c * prod_list (ys D))"
      using fits_memory_mono[OF fits(1)] fits_memory_mono[OF fits(2)] c(3) by (auto simp: mult_le_mono1)
    obtain x y h1 where b: "load_batch (get D) c h = Some (Inr (x, y), h1)" "extends h h1"
        "is_batch (xd D) (xs D) (map (xrow D h0) c) x h1" "is_batch (yd D) (ys D) (map (yrow D h0) c) y h1"
      using load_batch_ok[OF wf Cons.prems(1) c(1,2) f] by blast
    obtain bs h2 where r: "load_batches (get D) B d cs h1 = Some (bs, h2)" "extends h1 h2"
        "list_all2 (\<lambda>c b. batch_of D h0 c b h2) (takeWhile (\<lambda>c. \<not> (d \<and> length c < B)) cs) bs"
      using Cons.IH[OF extends_trans[OF Cons.prems(1) b(2)]] Cons.prems(2) by auto
    have "batch_of D h0 c (Inr (x, y)) h2"
      using b(3,4) is_batch_extends[OF _ r(2)] by (auto simp: batch_of_def)
    then show ?thesis using False b(1,2) r extends_trans by (intro exI[of _ "Inr (x, y) # bs"]) auto
  qed
qed

end

section \<open>Epochs\<close>

text \<open>The batches of an epoch are the consecutive slices of the index list.\<close>

definition batch_count :: "bool \<Rightarrow> nat \<Rightarrow> nat \<Rightarrow> nat" where
  "batch_count d B n = (if d then n div B else div_ceil n B)"

lemma batch_count_step:
  assumes "0 < B" "0 < n" "\<not> (d \<and> n < B)"
  shows "batch_count d B n = Suc (batch_count d B (n - B))"
proof (cases "n \<le> B")
  case True
  then show ?thesis using assms by (cases "n = B") (auto simp: batch_count_def div_ceil_def)
next
  case False
  then have "n = (n - B) + B" by simp
  then show ?thesis
    using assms(1) div_ceil_add[OF assms(1), of "n - B"] div_add_self2[of B "n - B"]
    by (auto simp: batch_count_def)
qed

lemma kept_chunks:
  "0 < B \<Longrightarrow> takeWhile (\<lambda>c. \<not> (d \<and> length c < B)) (chunks B xs)
    = map (\<lambda>k. take B (drop (k * B) xs)) [0..<batch_count d B (length xs)]"
proof (induction B xs rule: chunks.induct)
  case (1 B xs)
  show ?case
  proof (cases "xs = []")
    case True
    then show ?thesis by (simp add: chunks.simps batch_count_def div_ceil_def)
  next
    case False
    then have ch: "chunks B xs = take B xs # chunks B (drop B xs)" using 1(2) by (subst chunks.simps) simp
    show ?thesis
    proof (cases "d \<and> length xs < B")
      case True
      then show ?thesis by (simp add: ch batch_count_def)
    next
      case F: False
      have "length (take B xs) < B \<longleftrightarrow> length xs < B" by auto
      then have "takeWhile (\<lambda>c. \<not> (d \<and> length c < B)) (chunks B xs)
          = take B xs # map (\<lambda>k. take B (drop (k * B) (drop B xs))) [0..<batch_count d B (length xs - B)]"
        using F False 1 by (simp add: ch)
      also have "\<dots> = map (\<lambda>k. take B (drop (k * B) xs)) [0..<Suc (batch_count d B (length xs - B))]"
        by (simp add: upt_conv_Cons o_def add.commute del: upt_Suc flip: map_Suc_upt)
      finally show ?thesis using batch_count_step[OF 1(2), of "length xs" d] False F by simp
    qed
  qed
qed

lemma concat_slices: "concat (map (\<lambda>k. take B (drop (k * B) xs)) [0..<n]) = take (n * B) xs"
  by (induction n) (simp_all add: add.commute flip: take_add)

lemma chunks_ne: "c \<in> set (chunks B xs) \<Longrightarrow> c \<noteq> [] \<and> set c \<subseteq> set xs \<and> length c \<le> B"
proof (induction B xs rule: chunks.induct)
  case (1 B xs)
  show ?case
  proof (cases "xs = [] \<or> B = 0")
    case True
    then have "chunks B xs = []" by (subst chunks.simps) simp
    with 1(2) show ?thesis by simp
  next
    case False
    then have "chunks B xs = take B xs # chunks B (drop B xs)" by (subst chunks.simps) simp
    with 1 False show ?thesis by (auto dest: in_set_takeD in_set_dropD)
  qed
qed

context dataset begin

lemma iter_epoch_ok:
  assumes wf: "wf D h" and it: "set (fst (iter (dl_sampler l))) \<subseteq> {..<size D}" and B: "0 < dl_batch_size l"
    and fits: "fits_memory (xd D) (dl_batch_size l * prod_list (xs D))"
      "fits_memory (yd D) (dl_batch_size l * prod_list (ys D))"
  shows "\<exists>bs h'. iter_epoch (get D) iter l h = Some (bs, l\<lparr>dl_sampler := snd (iter (dl_sampler l))\<rparr>, h') \<and>
    extends h h' \<and> length bs = batch_count (dl_drop_last l) (dl_batch_size l) (length (fst (iter (dl_sampler l)))) \<and>
    (\<forall>k < length bs. batch_of D h (take (dl_batch_size l) (drop (k * dl_batch_size l) (fst (iter (dl_sampler l))))) (bs ! k) h')"
proof -
  let ?is = "fst (iter (dl_sampler l))" and ?B = "dl_batch_size l" and ?d = "dl_drop_last l"
  obtain "is" s where i: "iter (dl_sampler l) = (is, s)" by fastforce
  have "\<forall>c \<in> set (chunks ?B ?is). set c \<subseteq> {..<size D} \<and> c \<noteq> [] \<and> length c \<le> ?B"
    using chunks_ne it by blast
  from load_batches_ok[OF wf this fits extends_refl, of ?d] obtain bs h' where
    r: "load_batches (get D) ?B ?d (chunks ?B ?is) h = Some (bs, h')" "extends h h'"
      "list_all2 (\<lambda>c b. batch_of D h c b h') (takeWhile (\<lambda>c. \<not> (?d \<and> length c < ?B)) (chunks ?B ?is)) bs" by blast
  have run: "iter_epoch (get D) iter l h = Some (bs, l\<lparr>dl_sampler := snd (iter (dl_sampler l))\<rparr>, h')"
    using r(1) B by (simp add: iter_epoch_def i)
  have all: "list_all2 (\<lambda>c b. batch_of D h c b h')
      (map (\<lambda>k. take ?B (drop (k * ?B) ?is)) [0..<batch_count ?d ?B (length ?is)]) bs"
    using r(3) unfolding kept_chunks[OF B] .
  have len: "length bs = batch_count ?d ?B (length ?is)" using list_all2_lengthD[OF all] by simp
  have "batch_of D h (take ?B (drop (k * ?B) ?is)) (bs ! k) h'" if "k < length bs" for k
    using list_all2_nthD[OF all, of k] that len by simp
  then show ?thesis using run r(2) len by blast
qed

end

subsection \<open>Tensor datasets\<close>

text \<open>An \<open>i64\<close> that is stored in a buffer is read back.\<close>

definition codec_ok :: "'v i64_codec \<Rightarrow> bool" where
  "codec_ok C \<longleftrightarrow> (\<forall>j. - (2 ^ 63) \<le> j \<and> j < 2 ^ 63 \<longrightarrow> to_i64 C (of_i64 C j) = j)"

definition part_ok :: "nat \<Rightarrow> tensor \<Rightarrow> 'v theap \<Rightarrow> bool" where
  "part_ok n t h \<longleftrightarrow> tensor_ok t h \<and> index_op_dtype (t_dtype t) \<and> t_shape t \<noteq> [] \<and> t_shape t ! 0 = n \<and>
     0 \<notin> set (tl (t_shape t))"

definition tensor_dataset_wf :: "'v i64_codec \<times> tensor_dataset \<Rightarrow> 'v theap \<Rightarrow> bool" where
  "tensor_dataset_wf D h \<longleftrightarrow> codec_ok (fst D) \<and> td_len (snd D) < i64_limit \<and>
     part_ok (td_len (snd D)) (td_inputs (snd D)) h \<and> part_ok (td_len (snd D)) (td_targets (snd D)) h"

definition tensor_row :: "tensor \<Rightarrow> 'v theap \<Rightarrow> nat \<Rightarrow> nat list \<Rightarrow> 'v" where
  "tensor_row t h i cs = t_elem t h (i # cs)"

lemma part_ok_extends: "part_ok n t h \<Longrightarrow> extends h h' \<Longrightarrow> part_ok n t h'"
  using extends_tensor(1)[of h h' t] by (simp add: part_ok_def)

lemma select_row:
  assumes C: "codec_ok C" and p: "part_ok n t h" and i: "i < n" "n < i64_limit"
    and idx: "tensor_ok idx h" "t_dtype idx = I64" "t_shape idx = [1]" "t_elem idx h [0] = of_i64 C (int i)"
  shows "\<exists>r h'. index_select (to_i64 C) t 0 idx h = Some (Inr r, h') \<and> extends h h' \<and>
    is_batch (t_dtype t) (tl (t_shape t)) [tensor_row t h i] r h'"
proof -
  obtain s where s: "t_shape t = n # s" using p by (cases "t_shape t") (auto simp: part_ok_def)
  have ok: "tensor_ok t h" and d: "index_op_dtype (t_dtype t)" using p by (simp_all add: part_ok_def)
  have v: "to_i64 C (of_i64 C (int i)) = int i" using C i by (auto simp: codec_ok_def i64_limit_def)
  have e: "elems idx h = [of_i64 C (int i)]" by (simp add: elems_def idx(3,4) numel_prod_list)
  have r: "in_range (t_shape t ! 0) (map (to_i64 C) (elems idx h))" using i by (simp add: in_range_def e v s)
  have "fits_memory (t_dtype t) (numel ((t_shape t)[0 := 1]))"
    using fits_memory_mono[OF own_fits[OF ok]] i by (simp add: s numel_prod_list)
  from index_select_ok[OF ok idx(1,2) d idx(3) _ r this] obtain t' h' where
    m: "index_select (to_i64 C) t 0 idx h = Some (Inr t', h')"
      "moved t h ((t_shape t)[0 := 1]) (\<lambda>cs. cs[0 := nat (to_i64 C (t_elem idx h [cs ! 0]))]) t' h'"
    by (auto simp: s)
  have "t_elem t' h' (0 # cs) = tensor_row t h i cs" if "valid_coords s cs" for cs
    using m(2) that by (simp add: moved_def s valid_coords_Cons tensor_row_def idx(4) v)
  then show ?thesis using m by (auto simp: moved_def is_batch_def s)
qed

interpretation tensor_data: dataset tensor_dataset_wf "\<lambda>D. dataset_get (fst D) (snd D)" "\<lambda>D. td_len (snd D)"
  "\<lambda>D. tensor_row (td_inputs (snd D))" "\<lambda>D. tensor_row (td_targets (snd D))"
  "\<lambda>D. t_dtype (td_inputs (snd D))" "\<lambda>D. t_dtype (td_targets (snd D))"
  "\<lambda>D. tl (t_shape (td_inputs (snd D)))" "\<lambda>D. tl (t_shape (td_targets (snd D)))"
proof
  fix D :: "'v i64_codec \<times> tensor_dataset" and h h' :: "'v theap" and i and cs :: "nat list"
  let ?ds = "snd D" and ?C = "fst D"
  show "td_len ?ds \<le> i \<Longrightarrow> dataset_get ?C ?ds i h = Some (Inl (DatasetIndexOutOfBounds i (td_len ?ds)), h)"
    by (simp add: dataset_get_def)
  assume wf: "tensor_dataset_wf D h"
  then have p: "part_ok (td_len ?ds) (td_inputs ?ds) h" "part_ok (td_len ?ds) (td_targets ?ds) h"
    and C: "codec_ok ?C" and small: "td_len ?ds < i64_limit"
    by (simp_all add: tensor_dataset_wf_def)
  show "shape_op_dtype (t_dtype (td_inputs ?ds)) \<and> shape_op_dtype (t_dtype (td_targets ?ds)) \<and>
      0 \<notin> set (tl (t_shape (td_inputs ?ds))) \<and> 0 \<notin> set (tl (t_shape (td_targets ?ds)))"
    using p by (auto simp: part_ok_def index_op_dtype_def shape_op_dtype_def)
  show "tensor_dataset_wf D h'" if "extends h h'"
    using wf part_ok_extends[OF _ that] by (simp add: tensor_dataset_wf_def)
  show "tensor_row (td_inputs ?ds) h' i cs = tensor_row (td_inputs ?ds) h i cs"
    "tensor_row (td_targets ?ds) h' i cs = tensor_row (td_targets ?ds) h i cs" if "extends h h'"
    using extends_tensor(2)[OF that] p by (simp_all add: tensor_row_def part_ok_def)
  assume i: "i < td_len ?ds"
  have asi: "as_i64 i = int i" using i small by (simp add: as_i64_small)
  have fits: "fits_memory I64 (numel [1])"
    by (simp add: fits_memory_iff alloc_layout_def from_size_align_def CPU_ALIGN_def byte_size_def
        div_ceil_def i64_limit_def numel_prod_list)
  obtain idx h1 where nt: "new_tensor I64 [1] [of_i64 ?C (int i)] h = (idx, h1)" by fastforce
  have len: "length [of_i64 ?C (int i)] = numel [1]" by (simp add: numel_prod_list)
  note idx = new_tensor_ok[OF len fits nt] and ext = new_tensor_extends[OF nt]
  have new: "expect_ok (from_vec_sized I64 [1] [of_i64 ?C (int i)] h) = Some (idx, h1)"
    using expect_from_vec[OF len fits, of h] nt by (simp add: new_tensor_def)
  have e0: "t_elem idx h1 [0] = of_i64 ?C (int i)"
    using new_tensor_elem[OF len fits nt, of "[0]"] by (simp add: valid_coords_Cons)
  obtain x h2 where x: "index_select (to_i64 ?C) (td_inputs ?ds) 0 idx h1 = Some (Inr x, h2)" "extends h1 h2"
      "is_batch (t_dtype (td_inputs ?ds)) (tl (t_shape (td_inputs ?ds))) [tensor_row (td_inputs ?ds) h1 i] x h2"
    using select_row[OF C part_ok_extends[OF p(1) ext] i small idx(1) idx(3) idx(2) e0] by blast
  have e0': "t_elem idx h2 [0] = of_i64 ?C (int i)" using extends_tensor(2)[OF x(2) idx(1)] e0 by simp
  obtain y h3 where y: "index_select (to_i64 ?C) (td_targets ?ds) 0 idx h2 = Some (Inr y, h3)" "extends h2 h3"
      "is_batch (t_dtype (td_targets ?ds)) (tl (t_shape (td_targets ?ds))) [tensor_row (td_targets ?ds) h2 i] y h3"
    using select_row[OF C part_ok_extends[OF p(2) extends_trans[OF ext x(2)]] i small
        extends_tensor(1)[OF x(2) idx(1)] idx(3) idx(2) e0'] by blast
  let ?h = "drop_tensor idx h3"
  have g: "dataset_get ?C ?ds i h = Some (Inr (x, y), ?h)"
    using i new x(1) y(1) by (simp add: dataset_get_def asi expect_kernel_def expect_ok_def)
  have e3: "extends h3 ?h" by (rule drop_tensor_extends)
  have rows: "tensor_row (td_inputs ?ds) h1 i = tensor_row (td_inputs ?ds) h i"
    "tensor_row (td_targets ?ds) h2 i = tensor_row (td_targets ?ds) h i"
    using extends_tensor(2)[OF ext, of "td_inputs ?ds"] extends_tensor(2)[OF extends_trans[OF ext x(2)], of "td_targets ?ds"] p
    by (auto simp: tensor_row_def part_ok_def)
  have "is_batch (t_dtype (td_inputs ?ds)) (tl (t_shape (td_inputs ?ds))) [tensor_row (td_inputs ?ds) h i] x ?h"
    using is_batch_extends[OF is_batch_extends[OF x(3) y(2)] e3] by (simp only: rows)
  moreover have "is_batch (t_dtype (td_targets ?ds)) (tl (t_shape (td_targets ?ds))) [tensor_row (td_targets ?ds) h i] y ?h"
    using is_batch_extends[OF y(3) e3] by (simp only: rows)
  moreover have "extends h ?h" using ext x(2) y(2) e3 extends_trans by blast
  ultimately show "\<exists>x y h'. dataset_get ?C ?ds i h = Some (Inr (x, y), h') \<and> extends h h' \<and>
      is_batch (t_dtype (td_inputs ?ds)) (tl (t_shape (td_inputs ?ds))) [tensor_row (td_inputs ?ds) h i] x h' \<and>
      is_batch (t_dtype (td_targets ?ds)) (tl (t_shape (td_targets ?ds))) [tensor_row (td_targets ?ds) h i] y h'"
    using g by blast
qed

section \<open>Properties\<close>


definition demo_codec :: "int i64_codec" where
  "demo_codec = \<lparr>of_i64 = (\<lambda>j. j), to_i64 = (\<lambda>j. j)\<rparr>"

definition demo_dataset :: tensor_dataset where
  "demo_dataset = \<lparr>td_inputs = transposed_at 1, td_targets = matrix_at 0, td_len = 2\<rparr>"

definition demo_loader :: "sequential_sampler data_loader" where
  "demo_loader = loader_new (sequential_new 2) 1"


text \<open>
  C33. What the samplers visit.  The sequential and the random sampler give every row exactly once per
  epoch.  For any number of rows and of ranks, and any epoch, the samplers of all ranks
  together give every row exactly once, each as many as its \<open>len\<close> says, which differ by at most
  one between ranks.  The weighted sampler draws the number of rows asked for, all in range.
\<close>

theorem samplers_cover:
  assumes shuffle: "permutes_list shuffle" and w: "0 < w"
    and wt: "\<not> f_lt F (f_zero F) (f_zero F)" "weighted_with_seed F seed weights k sd = Some ws"
  shows "mset (fst (sequential_iter (sequential_new n))) = mset [0..<n] \<and>
    mset (fst (random_iter shuffle (random_with_seed seed n sd))) = mset [0..<n] \<and>
    (\<Sum>r<w. mset (fst (distributed_iter seed shuffle (set_epoch e (the (distributed_new n r w)))))) = mset [0..<n] \<and>
    (\<forall>r < w. \<exists>s. distributed_new n r w = Some s \<and>
       length (fst (distributed_iter seed shuffle (set_epoch e s))) = distributed_len (set_epoch e s) \<and>
       distributed_len (set_epoch e s) \<in> {n div w, n div w + 1}) \<and>
    (\<exists>out ws'. weighted_iter F draw ws = Some (out, ws') \<and> length out = k \<and> set out \<subseteq> {..<length weights})"
proof (intro conjI allI impI)
  show "mset (fst (sequential_iter (sequential_new n))) = mset [0..<n]"
    by (simp add: sequential_iter_def sequential_new_def)
  show "mset (fst (random_iter shuffle (random_with_seed seed n sd))) = mset [0..<n]"
    using random.iter_perm[of "(shuffle, random_with_seed seed n sd)"] shuffle
    by (simp add: random_step_def random_with_seed_def)
  let ?all = "fst (shuffle (seed e) [0..<n])"
  have new: "distributed_new n r w = Some \<lparr>ds_n = n, ds_rank = r, ds_world_size = w, ds_epoch = 0\<rparr>" if "r < w" for r
    using that by (simp add: distributed_new_def)
  have it: "fst (distributed_iter seed shuffle (set_epoch e (the (distributed_new n r w)))) = rank_slice w r ?all"
    if "r < w" for r
    using new[OF that] by (simp add: distributed_iter_def set_epoch_def)
  have "(\<Sum>r<w. mset (fst (distributed_iter seed shuffle (set_epoch e (the (distributed_new n r w))))))
      = (\<Sum>r<w. mset (rank_slice w r ?all))"
    by (intro sum.cong) (simp_all add: it)
  also have "\<dots> = mset [0..<n]"
    using rank_slices_partition[OF w, of ?all] shuffled(3)[OF shuffle] by simp
  finally show "(\<Sum>r<w. mset (fst (distributed_iter seed shuffle (set_epoch e (the (distributed_new n r w))))))
      = mset [0..<n]" .
  fix r assume r: "r < w"
  let ?s = "\<lparr>ds_n = n, ds_rank = r, ds_world_size = w, ds_epoch = 0\<rparr>"
  have "distributed_wf (set_epoch e ?s)" using r by (simp add: distributed_wf_def set_epoch_def)
  then have "length (fst (distributed_iter seed shuffle (set_epoch e ?s))) = distributed_len (set_epoch e ?s)"
    using distributed.iter_len[of "((seed, shuffle), set_epoch e ?s)"] shuffle by (simp add: distributed_step_def)
  then show "\<exists>s. distributed_new n r w = Some s \<and>
       length (fst (distributed_iter seed shuffle (set_epoch e s))) = distributed_len (set_epoch e s) \<and>
       distributed_len (set_epoch e s) \<in> {n div w, n div w + 1}"
    using new[OF r] by (simp add: distributed_len_def set_epoch_def)
next
  show "\<exists>out ws'. weighted_iter F draw ws = Some (out, ws') \<and> length out = k \<and> set out \<subseteq> {..<length weights}"
    using weighted_iter_ok[OF weighted_new_wf(1)[OF wt], of F draw] weighted_new_wf(2,3)[OF wt] by auto
qed

definition nat_f32 :: "nat f32_ops" where
  "nat_f32 = \<lparr>f_zero = 0, f_add = (+), f_div = (div), f_le = (\<le>), f_lt = (<)\<rparr>"

theorem samplers_cover_witness:
  "(\<Sum>r<3. mset (fst (distributed_iter (\<lambda>s. s) (\<lambda>s xs. (rev xs, s)) (set_epoch 5 (the (distributed_new 10 r 3))))))
     = mset [0..<10]"
proof -
  have p: "permutes_list (\<lambda>(s :: nat) xs. (rev xs, s))" by (simp add: permutes_list_def)
  have f: "\<not> f_lt nat_f32 (f_zero nat_f32) (f_zero nat_f32)" by (simp add: nat_f32_def)
  have wt: "weighted_with_seed nat_f32 (\<lambda>s. s) [1, 3] 4 7
      = Some \<lparr>ws_weights = [1, 3], ws_cdf = [0, 0], ws_n_samples = 4, ws_rng = 7\<rparr>"
    by code_simp
  have w: "0 < (3 :: nat)" by simp
  from samplers_cover[OF p w f wt, where n = 10 and e = 5 and draw = "\<lambda>r. (0, r)"]
  show ?thesis by (elim conjE)
qed

text \<open>
  \<open>TensorDataset::new\<close> accepts tensors of every element type, but \<open>get\<close> expects the selection to
  succeed: a dataset whose targets are \<open>bool\<close> panics at the first row.
\<close>

lemma bool_targets_panic:
  "map_sum (\<lambda>_. True) (\<lambda>ds. dataset_get demo_codec ds 0 \<lparr>bufs = [\<lparr>buf_dtype = F32, buf_data = [1, 2], buf_strong = 1\<rparr>,
      \<lparr>buf_dtype = Bool, buf_data = [1, 0], buf_strong = 1\<rparr>], vers = [0, 0]\<rparr>)
     (tensor_dataset_new (dense_at 0 [2, 1] F32) (dense_at 1 [2] Bool)) = Inr None"
  by code_simp

end
