(* ===== verification/Lifetime.thy ===== *)
theory Lifetime
  imports Rust_Base
begin

text \<open>
  Tensor lifetimes: \<open>rustorch-planner/src/lifetime.rs\<close>.  A trace of definitions and uses builds
  the table of live intervals that the allocator consumes.
\<close>

section \<open>Identifiers\<close>

datatype tensor_id = TensorId (raw_id: nat)

instantiation tensor_id :: linorder
begin

definition less_eq_tensor_id :: "tensor_id \<Rightarrow> tensor_id \<Rightarrow> bool" where
  "less_eq_tensor_id a b \<longleftrightarrow> raw_id a \<le> raw_id b"

definition less_tensor_id :: "tensor_id \<Rightarrow> tensor_id \<Rightarrow> bool" where
  "less_tensor_id a b \<longleftrightarrow> raw_id a < raw_id b"

instance
  by standard (auto simp: less_eq_tensor_id_def less_tensor_id_def intro: tensor_id.expand)

end

section \<open>Intervals\<close>

record interval =
  iv_def :: nat
  last_use :: nat
  iv_bytes :: nat
  iv_align :: nat

text \<open>\<open>None\<close>: the \<open>u32\<close> subtraction or addition overflows.\<close>

definition duration :: "interval \<Rightarrow> nat option" where
  "duration iv =
     (if last_use iv < iv_def iv \<or> last_use iv - iv_def iv + 1 \<ge> u32_limit then None
      else Some (last_use iv - iv_def iv + 1))"

definition overlaps :: "interval \<Rightarrow> interval \<Rightarrow> bool" where
  "overlaps a b \<longleftrightarrow> iv_def a \<le> last_use b \<and> iv_def b \<le> last_use a"

section \<open>The table\<close>

type_synonym lifetime_table = "(tensor_id \<times> interval) list"

datatype lifetime_error = UseBeforeDef tensor_id nat

definition record_def_with_align ::
    "lifetime_table \<Rightarrow> tensor_id \<Rightarrow> nat \<Rightarrow> nat \<Rightarrow> nat \<Rightarrow> lifetime_table" where
  "record_def_with_align t ident step bytes align0 =
     (let align = max align0 1 in
      case map_of t ident of
        Some iv \<Rightarrow> AList.update ident
          \<lparr>iv_def = min (iv_def iv) step, last_use = max (last_use iv) step,
           iv_bytes = max (iv_bytes iv) bytes, iv_align = max (iv_align iv) align\<rparr> t
      | None \<Rightarrow> AList.update ident
          \<lparr>iv_def = step, last_use = step, iv_bytes = bytes, iv_align = align\<rparr> t)"

definition record_def :: "lifetime_table \<Rightarrow> tensor_id \<Rightarrow> nat \<Rightarrow> nat \<Rightarrow> lifetime_table" where
  "record_def t ident step bytes = record_def_with_align t ident step bytes 1"

definition record_use :: "lifetime_table \<Rightarrow> tensor_id \<Rightarrow> nat \<Rightarrow> lifetime_error + lifetime_table" where
  "record_use t ident step =
     (case map_of t ident of
        Some iv \<Rightarrow> Inr (AList.update ident (iv\<lparr>last_use := max (last_use iv) step\<rparr>) t)
      | None \<Rightarrow> Inl (UseBeforeDef ident step))"

text \<open>\<open>None\<close>: the sum overflows \<open>u64\<close>.\<close>

definition naive_total_bytes :: "lifetime_table \<Rightarrow> nat option" where
  "naive_total_bytes t = checked_sum_u64 0 (map (\<lambda>(_, iv). iv_bytes iv) t)"

section \<open>Invariant\<close>

definition iv_ok :: "interval \<Rightarrow> bool" where
  "iv_ok iv \<longleftrightarrow> iv_def iv \<le> last_use iv \<and> 1 \<le> iv_align iv"

definition table_inv :: "lifetime_table \<Rightarrow> bool" where
  "table_inv t \<longleftrightarrow> distinct (map fst t) \<and> (\<forall>(_, iv) \<in> set t. iv_ok iv)"

lemma table_inv_empty [simp]: "table_inv []"
  by (simp add: table_inv_def)

lemma table_inv_map_of: "table_inv t \<Longrightarrow> map_of t i = Some iv \<Longrightarrow> iv_ok iv"
  by (auto simp: table_inv_def dest: map_of_SomeD)

lemma set_update_subset: "set (AList.update k v t) \<subseteq> insert (k, v) (set t)"
  by (induction t) (auto split: if_splits)

lemma table_inv_update: "table_inv t \<Longrightarrow> iv_ok iv \<Longrightarrow> table_inv (AList.update i iv t)"
  using set_update_subset[of i iv t] by (auto simp: table_inv_def distinct_update)

lemma record_def_inv: "table_inv t \<Longrightarrow> table_inv (record_def_with_align t i step b a)"
  by (auto simp: record_def_with_align_def Let_def iv_ok_def min.coboundedI1 le_max_iff_disj
      split: option.splits intro!: table_inv_update dest: table_inv_map_of)

lemma record_use_inv: "table_inv t \<Longrightarrow> record_use t i step = Inr t' \<Longrightarrow> table_inv t'"
  by (fastforce simp: record_use_def iv_ok_def le_max_iff_disj split: option.splits
      intro!: table_inv_update dest: table_inv_map_of)

lemma overlaps_commute: "overlaps a b \<longleftrightarrow> overlaps b a"
  by (auto simp: overlaps_def)

lemma overlaps_refl: "iv_ok a \<Longrightarrow> overlaps a a"
  by (simp add: overlaps_def iv_ok_def)

text \<open>\<open>overlaps\<close> is what it is meant to be: some step at which both tensors are live.\<close>

lemma overlaps_iff_common_step:
  "iv_ok a \<Longrightarrow> iv_ok b \<Longrightarrow>
   overlaps a b \<longleftrightarrow> (\<exists>s. s \<in> {iv_def a..last_use a} \<and> s \<in> {iv_def b..last_use b})"
  by (auto simp: overlaps_def iv_ok_def intro: exI[of _ "max (iv_def a) (iv_def b)"])

section \<open>Traces\<close>

datatype lifetime_event =
    Def (ev_id: tensor_id) (ev_step: nat) nat nat
  | Use (ev_id: tensor_id) (ev_step: nat)

fun record_event :: "lifetime_table \<Rightarrow> lifetime_event \<Rightarrow> lifetime_error + lifetime_table" where
  "record_event t (Def i step b a) = Inr (record_def_with_align t i step b a)"
| "record_event t (Use i step) = record_use t i step"

fun record_trace :: "lifetime_table \<Rightarrow> lifetime_event list \<Rightarrow> lifetime_error + lifetime_table" where
  "record_trace t [] = Inr t"
| "record_trace t (e # es) =
     (case record_event t e of Inl er \<Rightarrow> Inl er | Inr t' \<Rightarrow> record_trace t' es)"

text \<open>The specification: the envelope of the events of one tensor.\<close>

fun def_bytes :: "lifetime_event \<Rightarrow> nat" where
  "def_bytes (Def _ _ b _) = b" | "def_bytes (Use _ _) = 0"

fun def_align :: "lifetime_event \<Rightarrow> nat" where
  "def_align (Def _ _ _ a) = max a 1" | "def_align (Use _ _) = 1"

fun is_def :: "lifetime_event \<Rightarrow> bool" where
  "is_def (Def _ _ _ _) = True" | "is_def (Use _ _) = False"

definition envelope :: "lifetime_event list \<Rightarrow> interval option" where
  "envelope es =
     (if es = [] then None
      else Some \<lparr>iv_def = Min (ev_step ` set (filter is_def es)), last_use = Max (ev_step ` set es),
                 iv_bytes = Max (def_bytes ` set es), iv_align = Max (def_align ` set es)\<rparr>)"

text \<open>Every tensor is defined before it is used.\<close>

fun defined_first :: "tensor_id set \<Rightarrow> lifetime_event list \<Rightarrow> bool" where
  "defined_first D [] \<longleftrightarrow> True"
| "defined_first D (e # es) \<longleftrightarrow> (is_def e \<or> ev_id e \<in> D) \<and> defined_first (insert (ev_id e) D) es"

abbreviation events_of :: "tensor_id \<Rightarrow> lifetime_event list \<Rightarrow> lifetime_event list" where
  "events_of i es \<equiv> filter (\<lambda>e. ev_id e = i) es"

lemma envelope_singleton_def:
  "envelope [Def i s b a] = Some \<lparr>iv_def = s, last_use = s, iv_bytes = b, iv_align = max a 1\<rparr>"
  by (simp add: envelope_def)

lemma envelope_snoc_def:
  assumes "envelope es = Some iv" "\<exists>e \<in> set es. is_def e"
  shows "envelope (es @ [Def i s b a]) =
    Some \<lparr>iv_def = min (iv_def iv) s, last_use = max (last_use iv) s,
          iv_bytes = max (iv_bytes iv) b, iv_align = max (iv_align iv) (max a 1)\<rparr>"
proof -
  have "es \<noteq> []" "{e \<in> set es. is_def e} \<noteq> {}" using assms(2) by auto
  with assms(1) show ?thesis
    by (auto simp: envelope_def Min_insert2 max.commute min.commute image_Un)
qed

lemma def_bytes_use_le: "es \<noteq> [] \<Longrightarrow> max (Max (def_bytes ` set es)) 0 = Max (def_bytes ` set es)"
  by simp

lemma def_align_ge: "es \<noteq> [] \<Longrightarrow> 1 \<le> Max (def_align ` set es)"
proof -
  assume "es \<noteq> []"
  then have "Max (def_align ` set es) \<in> def_align ` set es" by (intro Max_in) auto
  moreover have "1 \<le> def_align e" for e by (cases e) auto
  ultimately show ?thesis by auto
qed

lemma envelope_snoc_use:
  assumes "envelope es = Some iv"
  shows "envelope (es @ [Use i s]) = Some (iv\<lparr>last_use := max (last_use iv) s\<rparr>)"
proof -
  have ne: "es \<noteq> []" using assms by (auto simp: envelope_def)
  with assms def_align_ge[OF ne] show ?thesis
    by (auto simp: envelope_def max.commute max_def)
qed

text \<open>The table after a history: the envelope of each tensor's events, each beginning with a definition.\<close>

definition represents :: "lifetime_table \<Rightarrow> lifetime_event list \<Rightarrow> bool" where
  "represents t hs \<longleftrightarrow> table_inv t \<and> (\<forall>i. map_of t i = envelope (events_of i hs))
     \<and> (\<forall>i. events_of i hs \<noteq> [] \<longrightarrow> (\<exists>e \<in> set (events_of i hs). is_def e))"

lemma represents_unseen: "represents t hs \<Longrightarrow> map_of t i = None \<longleftrightarrow> i \<notin> ev_id ` set hs"
  by (auto simp: represents_def envelope_def filter_empty_conv)

lemma represents_def_event:
  assumes R: "represents t hs"
  shows "represents (record_def_with_align t i s b a) (hs @ [Def i s b a])"
proof -
  have inv: "table_inv (record_def_with_align t i s b a)"
    using R by (simp add: represents_def record_def_inv)
  have m: "map_of (record_def_with_align t i s b a) j = envelope (events_of j (hs @ [Def i s b a]))" for j
  proof (cases "map_of t i")
    case None
    then have "events_of i hs = []" using R by (auto simp: represents_def envelope_def split: if_splits)
    with None R show ?thesis
      by (auto simp: record_def_with_align_def update_conv' represents_def envelope_singleton_def)
  next
    case (Some iv)
    then have "envelope (events_of i hs) = Some iv" "\<exists>e \<in> set (events_of i hs). is_def e"
      using R by (auto simp: represents_def envelope_def split: if_splits)
    from envelope_snoc_def[OF this] Some R show ?thesis
      by (auto simp: record_def_with_align_def update_conv' represents_def)
  qed
  show ?thesis using inv m R by (auto simp: represents_def)
qed

lemma represents_use_event:
  assumes R: "represents t hs" and op: "record_use t i s = Inr t'"
  shows "represents t' (hs @ [Use i s])"
proof -
  from op obtain iv where iv: "map_of t i = Some iv"
    and t': "t' = AList.update i (iv\<lparr>last_use := max (last_use iv) s\<rparr>) t"
    by (auto simp: record_use_def split: option.splits)
  have env: "envelope (events_of i hs) = Some iv" using R iv by (simp add: represents_def)
  have "map_of t' j = envelope (events_of j (hs @ [Use i s]))" for j
    using R envelope_snoc_use[OF env] by (auto simp: t' update_conv' represents_def)
  moreover have "events_of i hs \<noteq> []" using env by (auto simp: envelope_def)
  moreover have "table_inv t'" using R op record_use_inv unfolding represents_def by blast
  ultimately show ?thesis using R by (auto simp: represents_def)
qed

lemma record_trace_represents:
  "represents t hs \<Longrightarrow>
   (case record_trace t es of
      Inr t' \<Rightarrow> represents t' (hs @ es) \<and> defined_first (ev_id ` set hs) es
    | Inl (UseBeforeDef i s) \<Rightarrow> \<not> defined_first (ev_id ` set hs) es
        \<and> (\<exists>pre post. es = pre @ Use i s # post \<and> i \<notin> ev_id ` set (hs @ pre)))"
proof (induction es arbitrary: t hs)
  case Nil
  then show ?case by simp
next
  case (Cons e es)
  show ?case
  proof (cases "record_event t e")
    case (Inl er)
    then obtain i s where e: "e = Use i s" "map_of t i = None" "er = UseBeforeDef i s"
      by (cases e) (auto simp: record_use_def split: option.splits)
    with represents_unseen[OF Cons.prems] have "i \<notin> ev_id ` set hs" by simp
    moreover from this e(1)
    have "\<exists>pre post. e # es = pre @ Use i s # post \<and> i \<notin> ev_id ` set (hs @ pre)"
      by (intro exI[of _ "[]"] exI[of _ es]) simp
    ultimately show ?thesis using e Inl by simp
  next
    case (Inr t1)
    have R1: "represents t1 (hs @ [e])"
      using Inr Cons.prems by (cases e) (auto simp: represents_def_event represents_use_event)
    have ok: "is_def e \<or> ev_id e \<in> ev_id ` set hs"
      using Inr represents_unseen[OF Cons.prems, of "ev_id e"]
      by (cases e) (auto simp: record_use_def split: option.splits)
    have shift: "\<exists>pre post. e # es = pre @ Use i s # post \<and> i \<notin> ev_id ` set (hs @ pre)"
      if "\<exists>pre post. es = pre @ Use i s # post \<and> i \<notin> ev_id ` set ((hs @ [e]) @ pre)" for i s
      using that by (elim exE) (rule_tac x = "e # pre" in exI, auto)
    have df: "defined_first (ev_id ` set hs) (e # es) \<longleftrightarrow> defined_first (ev_id ` set (hs @ [e])) es"
      using ok by (simp add: insert_absorb)
    show ?thesis unfolding df
      using Cons.IH[OF R1] Inr shift
      by (simp only: record_trace.simps append_assoc append_Cons append_Nil sum.case sum.distinct sum.inject
          split: sum.splits lifetime_error.splits) (simp | blast)+
  qed
qed

text \<open>
  Recording a trace of definitions and uses: the trace is accepted exactly when every tensor
  is defined before it is used; the table then holds for each tensor the envelope of its events
  (earliest definition, latest event, largest size and alignment) and satisfies the table
  invariant.  A rejected trace reports a use of a tensor with no earlier event.
\<close>

theorem record_trace_correct:
  "case record_trace [] es of
     Inr t \<Rightarrow> table_inv t \<and> (\<forall>i. map_of t i = envelope (events_of i es)) \<and> defined_first {} es
   | Inl (UseBeforeDef i s) \<Rightarrow> \<not> defined_first {} es
       \<and> (\<exists>pre post. es = pre @ Use i s # post \<and> i \<notin> ev_id ` set pre)"
  using record_trace_represents[of "[]" "[]" es]
  by (auto simp: represents_def envelope_def split: sum.splits lifetime_error.splits)

end
