(* ===== verification/Allocator.thy ===== *)
theory Allocator
  imports Lifetime
begin

text \<open>
  The slot allocator: \<open>rustorch-planner/src/allocator.rs\<close>, first-fit over the intervals sorted by
  decreasing size.  \<open>None\<close> stands for an overflow of \<open>u64\<close>.

  The locale \<open>slot_planner\<close> is what the callers of \<open>plan\<close> rely on: every tensor of the table has
  one slot, tenants of a slot are never live together, and a slot is large and aligned enough for
  each of its tenants.
\<close>

section \<open>Slots\<close>

definition round_up :: "nat \<Rightarrow> nat \<Rightarrow> nat option" where
  "round_up bytes align = (let a = max align 1 in checked_mul_u64 (div_ceil bytes a) a)"

record slot =
  slot_bytes :: nat
  slot_align :: nat
  tenants :: "tensor_id list"
  intervals :: "interval list"

definition slot_new :: "tensor_id \<Rightarrow> interval \<Rightarrow> slot option" where
  "slot_new ident iv =
     (let align = max (iv_align iv) 1 in
      case round_up (iv_bytes iv) align of
        None \<Rightarrow> None
      | Some b \<Rightarrow> Some \<lparr>slot_bytes = b, slot_align = align, tenants = [ident], intervals = [iv]\<rparr>)"

definition fits :: "slot \<Rightarrow> interval \<Rightarrow> bool" where
  "fits s iv \<longleftrightarrow> list_all (\<lambda>existing. \<not> overlaps existing iv) (intervals s)"

definition slot_add :: "slot \<Rightarrow> tensor_id \<Rightarrow> interval \<Rightarrow> slot option" where
  "slot_add s ident iv =
     (let align = max (slot_align s) (max (iv_align iv) 1) in
      case round_up (max (slot_bytes s) (iv_bytes iv)) align of
        None \<Rightarrow> None
      | Some b \<Rightarrow> Some \<lparr>slot_bytes = b, slot_align = align, tenants = tenants s @ [ident],
                        intervals = intervals s @ [iv]\<rparr>)"

definition push_aliased_tenant :: "slot \<Rightarrow> tensor_id \<Rightarrow> slot" where
  "push_aliased_tenant s ident = s\<lparr>tenants := tenants s @ [ident]\<rparr>"

section \<open>Plans\<close>

record plan_result =
  slots :: "slot list"
  assignment :: "(tensor_id \<times> nat) list"

definition peak_bytes :: "plan_result \<Rightarrow> nat option" where
  "peak_bytes r = checked_sum_u64 0 (map slot_bytes (slots r))"

text \<open>The ratio is an \<open>f64\<close> quotient; its arithmetic is the parameter \<open>ratio\<close> (and \<open>zero\<close>).\<close>

definition savings_vs ::
    "(nat \<Rightarrow> nat \<Rightarrow> 'f) \<Rightarrow> 'f \<Rightarrow> plan_result \<Rightarrow> nat \<Rightarrow> (nat \<times> 'f) option" where
  "savings_vs ratio zero r naive_total =
     (case peak_bytes r of
        None \<Rightarrow> None
      | Some peak \<Rightarrow> let saved = naive_total - peak in
          Some (saved, if naive_total = 0 then zero else ratio saved naive_total))"

definition slot_count :: "plan_result \<Rightarrow> nat" where
  "slot_count r = length (slots r)"

definition slot_of :: "plan_result \<Rightarrow> tensor_id \<Rightarrow> nat option" where
  "slot_of r ident = map_option snd (find (\<lambda>(tid, _). tid = ident) (assignment r))"

datatype plan_error = BudgetExceeded nat nat

text \<open>The comparison of \<open>plan\<close>: bytes descending, then definition, then identifier.\<close>

definition order_key :: "tensor_id \<times> interval \<Rightarrow> int \<times> nat \<times> tensor_id" where
  "order_key x = (- int (iv_bytes (snd x)), iv_def (snd x), fst x)"

fun first_fit :: "slot list \<Rightarrow> interval \<Rightarrow> nat \<Rightarrow> nat option" where
  "first_fit [] iv idx = None"
| "first_fit (s # ss) iv idx = (if fits s iv then Some idx else first_fit ss iv (Suc idx))"

definition plan_step :: "tensor_id \<times> interval \<Rightarrow> plan_result \<Rightarrow> plan_result option" where
  "plan_step x r =
     (let ident = fst x; iv = snd x in
      case first_fit (slots r) iv 0 of
        Some idx \<Rightarrow>
          (case slot_add (slots r ! idx) ident iv of
             None \<Rightarrow> None
           | Some s \<Rightarrow> Some \<lparr>slots = (slots r)[idx := s], assignment = assignment r @ [(ident, idx)]\<rparr>)
      | None \<Rightarrow>
          (case slot_new ident iv of
             None \<Rightarrow> None
           | Some s \<Rightarrow> Some \<lparr>slots = slots r @ [s],
                             assignment = assignment r @ [(ident, length (slots r @ [s]) - 1)]\<rparr>))"

definition plan :: "lifetime_table \<Rightarrow> plan_result option" where
  "plan table = fold_opt plan_step (sort_key order_key table) \<lparr>slots = [], assignment = []\<rparr>"

definition plan_with_budget :: "lifetime_table \<Rightarrow> nat \<Rightarrow> (plan_error + plan_result) option" where
  "plan_with_budget table budget =
     (case plan table of
        None \<Rightarrow> None
      | Some r \<Rightarrow>
          (case peak_bytes r of
             None \<Rightarrow> None
           | Some required \<Rightarrow>
               Some (if required > budget then Inl (BudgetExceeded required budget) else Inr r)))"

section \<open>Slots keep their contract\<close>

lemma round_up_Some:
  "round_up b a = Some c \<longleftrightarrow> c = div_ceil b (max a 1) * max a 1 \<and> c < u64_limit"
  by (auto simp: round_up_def Let_def)

lemma round_up_bounds:
  assumes "round_up b a = Some c"
  shows "b \<le> c" "max a 1 dvd c" "c < b + max a 1"
  using assms div_ceil_mult_ge[of "max a 1" b] div_ceil_mult_lt[of "max a 1" b]
  by (auto simp: round_up_Some)

definition slot_ok :: "slot \<Rightarrow> bool" where
  "slot_ok s \<longleftrightarrow> length (intervals s) = length (tenants s)
     \<and> sorted_wrt (\<lambda>a b. \<not> overlaps a b) (intervals s)
     \<and> (\<forall>iv \<in> set (intervals s). iv_bytes iv \<le> slot_bytes s \<and> iv_align iv \<le> slot_align s)
     \<and> 1 \<le> slot_align s \<and> slot_align s dvd slot_bytes s"

definition slot_items :: "slot \<Rightarrow> (tensor_id \<times> interval) list" where
  "slot_items s = zip (tenants s) (intervals s)"

lemma slot_new_ok:
  assumes "slot_new i iv = Some s"
  shows "slot_ok s" "slot_items s = [(i, iv)]"
  using assms round_up_bounds[of "iv_bytes iv" "max (iv_align iv) 1"]
  by (auto simp: slot_new_def slot_ok_def slot_items_def Let_def split: option.splits)

lemma slot_add_ok:
  assumes ok: "slot_ok s" and fit: "fits s iv" and add: "slot_add s i iv = Some s'"
  shows "slot_ok s'" "slot_items s' = slot_items s @ [(i, iv)]"
proof -
  let ?a = "max (slot_align s) (max (iv_align iv) 1)"
  from add obtain b where r: "round_up (max (slot_bytes s) (iv_bytes iv)) ?a = Some b"
    and s': "s' = \<lparr>slot_bytes = b, slot_align = ?a, tenants = tenants s @ [i],
                   intervals = intervals s @ [iv]\<rparr>"
    by (auto simp: slot_add_def Let_def split: option.splits)
  have b: "slot_bytes s \<le> b" "iv_bytes iv \<le> b" "?a dvd b"
    using round_up_bounds[OF r] by (auto simp: max_def split: if_splits)
  have fit': "\<not> overlaps e iv" if "e \<in> set (intervals s)" for e
    using fit that by (auto simp: fits_def list_all_iff)
  have "sorted_wrt (\<lambda>a b. \<not> overlaps a b) (intervals s @ [iv])"
    using ok fit' by (auto simp: sorted_wrt_append slot_ok_def)
  moreover have "iv_bytes e \<le> b \<and> iv_align e \<le> ?a" if "e \<in> set (intervals s @ [iv])" for e
    using that ok b by (fastforce simp: slot_ok_def)
  ultimately show "slot_ok s'" using ok b(3) by (simp add: slot_ok_def s')
  show "slot_items s' = slot_items s @ [(i, iv)]" using ok by (simp add: slot_items_def s' slot_ok_def)
qed

lemma first_fit_Some:
  "first_fit ss iv n = Some k \<Longrightarrow> n \<le> k \<and> k - n < length ss \<and> fits (ss ! (k - n)) iv
     \<and> (\<forall>j < k - n. \<not> fits (ss ! j) iv)"
proof (induction ss iv n rule: first_fit.induct)
  case (2 s ss iv idx)
  show ?case
  proof (cases "fits s iv")
    case False
    with 2 have IH: "Suc idx \<le> k \<and> k - Suc idx < length ss \<and> fits (ss ! (k - Suc idx)) iv
     \<and> (\<forall>j < k - Suc idx. \<not> fits (ss ! j) iv)" by simp
    then have k: "k - idx = Suc (k - Suc idx)" by arith
    show ?thesis unfolding k using IH False by (auto simp: less_Suc_eq_0_disj)
  qed (use 2 in simp)
qed simp

lemma first_fit_None: "first_fit ss iv n = None \<longleftrightarrow> (\<forall>s \<in> set ss. \<not> fits s iv)"
  by (induction ss iv n rule: first_fit.induct) auto

section \<open>What the callers of a planner rely on\<close>

definition live_at :: "nat \<Rightarrow> interval \<Rightarrow> bool" where
  "live_at s iv \<longleftrightarrow> iv_def iv \<le> s \<and> s \<le> last_use iv"

definition live_bytes :: "nat \<Rightarrow> (tensor_id \<times> interval) list \<Rightarrow> nat" where
  "live_bytes s xs = sum_list (map (iv_bytes \<circ> snd) (filter (live_at s \<circ> snd) xs))"

lemma slot_items_overlap:
  assumes "slot_ok s" "(i, a) \<in> set (slot_items s)" "(j, b) \<in> set (slot_items s)" "overlaps a b"
    "distinct (map fst (slot_items s))"
  shows "i = j"
proof -
  from assms(2,3) obtain m n where m: "m < length (tenants s)" "i = tenants s ! m" "a = intervals s ! m"
    and n: "n < length (tenants s)" "j = tenants s ! n" "b = intervals s ! n"
    by (auto simp: slot_items_def set_zip)
  have "\<not> overlaps (intervals s ! x) (intervals s ! y)" if "x < y" "y < length (tenants s)" for x y
    using assms(1) that by (auto simp: slot_ok_def sorted_wrt_iff_nth_less)
  with m n assms(4) have "m = n" by (metis linorder_neqE_nat overlaps_commute)
  with m n show ?thesis by simp
qed

lemma live_at_overlaps: "live_at s a \<Longrightarrow> live_at s b \<Longrightarrow> overlaps a b"
  by (auto simp: live_at_def overlaps_def)

lemma disjoint_live_sum:
  "sorted_wrt (\<lambda>a b. \<not> overlaps a b) ivs \<Longrightarrow> \<forall>iv \<in> set ivs. iv_bytes iv \<le> B \<Longrightarrow>
   sum_list (map iv_bytes (filter (live_at s) ivs)) \<le> B"
proof (induction ivs)
  case (Cons a ivs)
  show ?case
  proof (cases "live_at s a")
    case True
    then have "filter (live_at s) ivs = []"
      using Cons.prems(1) live_at_overlaps by (auto simp: filter_empty_conv)
    with True Cons.prems show ?thesis by simp
  qed (use Cons in simp)
qed simp

lemma slot_live_bytes:
  assumes "slot_ok s"
  shows "live_bytes t (slot_items s) \<le> slot_bytes s"
proof -
  have "map (iv_bytes \<circ> snd) (filter (live_at t \<circ> snd) (slot_items s))
      = map iv_bytes (filter (live_at t) (map snd (slot_items s)))"
    by (simp add: filter_map)
  also have "map snd (slot_items s) = intervals s"
    using assms by (simp add: slot_items_def slot_ok_def)
  finally have eq: "map (iv_bytes \<circ> snd) (filter (live_at t \<circ> snd) (slot_items s))
      = map iv_bytes (filter (live_at t) (intervals s))" .
  show ?thesis
    using assms disjoint_live_sum[of "intervals s" "slot_bytes s" t]
    unfolding live_bytes_def eq by (simp add: slot_ok_def)
qed

lemma live_bytes_append: "live_bytes s (xs @ ys) = live_bytes s xs + live_bytes s ys"
  by (simp add: live_bytes_def)

lemma live_bytes_concat:
  "\<forall>x \<in> set ss. slot_ok x \<Longrightarrow>
   live_bytes t (concat (map slot_items ss)) \<le> sum_list (map slot_bytes ss)"
proof (induction ss)
  case (Cons x ss)
  then show ?case using slot_live_bytes[of x t] by (simp add: live_bytes_append)
qed (simp add: live_bytes_def)

lemma live_bytes_mset: "mset xs = mset ys \<Longrightarrow> live_bytes s xs = live_bytes s ys"
proof -
  assume "mset xs = mset ys"
  then have "mset (map (iv_bytes \<circ> snd) (filter (live_at s \<circ> snd) xs))
      = mset (map (iv_bytes \<circ> snd) (filter (live_at s \<circ> snd) ys))" by simp
  then show ?thesis unfolding live_bytes_def by (metis sum_mset_sum_list)
qed

locale slot_planner =
  fixes pl :: "lifetime_table \<Rightarrow> plan_result option"
  assumes covers: "table_inv t \<Longrightarrow> pl t = Some r \<Longrightarrow>
        mset (concat (map slot_items (slots r))) = mset t"
    and slots_ok: "table_inv t \<Longrightarrow> pl t = Some r \<Longrightarrow> s \<in> set (slots r) \<Longrightarrow> slot_ok s"
    and assigned: "table_inv t \<Longrightarrow> pl t = Some r \<Longrightarrow> mset (map fst (assignment r)) = mset (map fst t)"
    and assigned_tenant: "table_inv t \<Longrightarrow> pl t = Some r \<Longrightarrow> (i, k) \<in> set (assignment r) \<Longrightarrow>
        k < length (slots r) \<and> i \<in> set (tenants (slots r ! k))"
begin

lemma items_of_table:
  assumes "table_inv t" "pl t = Some r" "k < length (slots r)"
  shows "set (slot_items (slots r ! k)) \<subseteq> set t" "distinct (map fst (slot_items (slots r ! k)))"
proof -
  have "mset (map fst (concat (map slot_items (slots r)))) = mset (map fst t)"
    using covers[OF assms(1,2)] by (metis mset_map)
  then have "distinct (map fst (concat (map slot_items (slots r))))"
    using assms(1) by (metis mset_eq_imp_distinct_iff table_inv_def)
  moreover have "concat (map slot_items (slots r)) = concat (map slot_items (take k (slots r)))
      @ slot_items (slots r ! k) @ concat (map slot_items (drop (Suc k) (slots r)))"
    using assms(3) by (subst id_take_nth_drop[OF assms(3)]) simp
  ultimately show "distinct (map fst (slot_items (slots r ! k)))" by simp
  show "set (slot_items (slots r ! k)) \<subseteq> set t"
    using mset_eq_setD[OF covers[OF assms(1,2)]] assms(3) by auto
qed

lemma slot_of_total:
  assumes "table_inv t" "pl t = Some r" "(i, iv) \<in> set t"
  shows "\<exists>k. slot_of r i = Some k \<and> k < length (slots r) \<and> i \<in> set (tenants (slots r ! k))"
proof -
  have "i \<in> fst ` set (assignment r)"
    using mset_eq_setD[OF assigned[OF assms(1,2)]] assms(3) by force
  then obtain x where x: "find (\<lambda>(tid, _). tid = i) (assignment r) = Some x"
    by (cases "find (\<lambda>(tid, _). tid = i) (assignment r)") (auto simp: find_None_iff)
  then have "x \<in> set (assignment r)" "fst x = i" by (auto simp: find_Some_iff nth_mem intro: nth_mem[of _ "assignment r"] dest!: sym[of _ x])
  with x assigned_tenant[OF assms(1,2), of i "snd x"] show ?thesis
    by (cases x) (auto simp: slot_of_def)
qed

text \<open>The interval of a tenant of slot \<open>k\<close> is the one of the table.\<close>

lemma tenant_item:
  assumes "table_inv t" "pl t = Some r" "k < length (slots r)" "i \<in> set (tenants (slots r ! k))"
    "(i, iv) \<in> set t"
  shows "(i, iv) \<in> set (slot_items (slots r ! k))"
proof -
  have len: "length (intervals (slots r ! k)) = length (tenants (slots r ! k))"
    using slots_ok[OF assms(1,2) nth_mem[OF assms(3)]] by (simp add: slot_ok_def)
  from assms(4) obtain n where "n < length (tenants (slots r ! k))" "tenants (slots r ! k) ! n = i"
    by (auto simp: in_set_conv_nth)
  then have mem: "(i, intervals (slots r ! k) ! n) \<in> set (slot_items (slots r ! k))"
    using len by (auto simp: slot_items_def set_zip)
  with items_of_table(1)[OF assms(1-3)] have "(i, intervals (slots r ! k) ! n) \<in> set t" by blast
  with assms(1,5) have "iv = intervals (slots r ! k) ! n"
    by (metis eq_key_imp_eq_value table_inv_def)
  with mem show ?thesis by simp
qed

lemma slot_mates_disjoint:
  assumes "table_inv t" "pl t = Some r" "(i, a) \<in> set t" "(j, b) \<in> set t" "i \<noteq> j"
    "slot_of r i = slot_of r j"
  shows "\<not> overlaps a b"
proof
  assume ov: "overlaps a b"
  obtain k where k: "slot_of r i = Some k" "k < length (slots r)" "i \<in> set (tenants (slots r ! k))"
    using slot_of_total[OF assms(1,2,3)] by blast
  with slot_of_total[OF assms(1,2,4)] assms(6) have j: "j \<in> set (tenants (slots r ! k))" by auto
  from slot_items_overlap[OF slots_ok[OF assms(1,2) nth_mem[OF k(2)]]
      tenant_item[OF assms(1,2) k(2,3) assms(3)] tenant_item[OF assms(1,2) k(2) j assms(4)] ov
      items_of_table(2)[OF assms(1,2) k(2)]] assms(5)
  show False by simp
qed

lemma slot_accommodates:
  assumes "table_inv t" "pl t = Some r" "(i, a) \<in> set t"
  shows "\<exists>k. slot_of r i = Some k \<and> k < length (slots r) \<and> iv_bytes a \<le> slot_bytes (slots r ! k)
    \<and> iv_align a \<le> slot_align (slots r ! k) \<and> slot_align (slots r ! k) dvd slot_bytes (slots r ! k)"
proof -
  obtain k where k: "slot_of r i = Some k" "k < length (slots r)" "i \<in> set (tenants (slots r ! k))"
    using slot_of_total[OF assms] by blast
  have "a \<in> set (intervals (slots r ! k))"
    using tenant_item[OF assms(1,2) k(2,3) assms(3)] by (auto simp: slot_items_def dest: set_zip_rightD)
  with slots_ok[OF assms(1,2) nth_mem[OF k(2)]] k show ?thesis by (auto simp: slot_ok_def)
qed

lemma live_bytes_le_slots:
  assumes "table_inv t" "pl t = Some r"
  shows "live_bytes s t \<le> sum_list (map slot_bytes (slots r))"
  using live_bytes_concat[of "slots r" s] slots_ok[OF assms]
    live_bytes_mset[OF covers[OF assms], of s] by simp

end

section \<open>The plan\<close>

definition plan_inv :: "(tensor_id \<times> interval) list \<Rightarrow> plan_result \<Rightarrow> bool" where
  "plan_inv seen r \<longleftrightarrow> mset (concat (map slot_items (slots r))) = mset seen
     \<and> (\<forall>s \<in> set (slots r). slot_ok s)
     \<and> map fst (assignment r) = map fst seen
     \<and> (\<forall>(i, k) \<in> set (assignment r). k < length (slots r) \<and> i \<in> set (tenants (slots r ! k)))"

lemma mset_concat_update:
  "k < length ss \<Longrightarrow> f y = f (ss ! k) @ zs \<Longrightarrow>
   mset (concat (map f (ss[k := y]))) = mset (concat (map f ss)) + mset zs"
proof (induction ss arbitrary: k)
  case (Cons s ss)
  then show ?case by (cases k) auto
qed simp

lemma slot_add_tenants: "slot_add s i iv = Some s' \<Longrightarrow> tenants s' = tenants s @ [i]"
  by (auto simp: slot_add_def Let_def split: option.splits)

lemma slot_new_tenants: "slot_new i iv = Some s \<Longrightarrow> tenants s = [i]"
  by (auto simp: slot_new_def Let_def split: option.splits)

lemma plan_step_inv:
  assumes inv: "plan_inv seen r" and step: "plan_step (i, iv) r = Some r'"
  shows "plan_inv (seen @ [(i, iv)]) r'"
proof (cases "first_fit (slots r) iv 0")
  case None
  with step obtain s where s: "slot_new i iv = Some s"
    "r' = \<lparr>slots = slots r @ [s], assignment = assignment r @ [(i, length (slots r))]\<rparr>"
    by (auto simp: plan_step_def Let_def split: option.splits)
  from inv slot_new_ok[OF s(1)] slot_new_tenants[OF s(1)] show ?thesis
    by (auto simp: plan_inv_def s(2) nth_append split: prod.splits)
next
  case (Some k)
  then have k: "k < length (slots r)" "fits (slots r ! k) iv" using first_fit_Some by force+
  from step Some obtain s where s: "slot_add (slots r ! k) i iv = Some s"
    "r' = \<lparr>slots = (slots r)[k := s], assignment = assignment r @ [(i, k)]\<rparr>"
    by (auto simp: plan_step_def Let_def split: option.splits)
  have ok: "slot_ok (slots r ! k)" using inv k(1) by (simp add: plan_inv_def)
  note add = slot_add_ok[OF ok k(2) s(1)]
  have "mset (concat (map slot_items ((slots r)[k := s]))) = mset (seen @ [(i, iv)])"
    using mset_concat_update[OF k(1) add(2)] inv by (simp add: plan_inv_def)
  moreover have "\<forall>x \<in> set ((slots r)[k := s]). slot_ok x"
    using inv add(1) set_update_subset_insert[of "slots r" k s] by (auto simp: plan_inv_def)
  moreover have "j < length (slots r) \<and> a \<in> set (tenants ((slots r)[k := s] ! j))"
    if "(a, j) \<in> set (assignment r @ [(i, k)])" for a j
    using that inv k(1) slot_add_tenants[OF s(1)]
    by (cases "j = k") (auto simp: plan_inv_def)
  ultimately show ?thesis using inv by (auto simp: plan_inv_def s(2))
qed

lemma plan_keeps_inv:
  assumes "plan t = Some r"
  shows "plan_inv (sort_key order_key t) r"
  using assms unfolding plan_def
proof (rule fold_opt_invariant)
  show "plan_inv [] \<lparr>slots = [], assignment = []\<rparr>" by (simp add: plan_inv_def)
next
  fix ys y s s' assume "plan_inv ys s" "plan_step y s = Some s'"
  then show "plan_inv (ys @ [y]) s'" by (cases y) (simp add: plan_step_inv)
qed

interpretation ffd: slot_planner plan
proof
  fix t r s i k
  assume p: "plan t = Some r"
  note inv = plan_keeps_inv[OF p]
  show "mset (concat (map slot_items (slots r))) = mset t" using inv by (simp add: plan_inv_def)
  show "slot_ok s" if "s \<in> set (slots r)" using inv that by (simp add: plan_inv_def)
  have "mset (map fst (assignment r)) = image_mset fst (mset (sort_key order_key t))"
    using inv unfolding plan_inv_def by (metis mset_map)
  then show "mset (map fst (assignment r)) = mset (map fst t)" by simp
  show "k < length (slots r) \<and> i \<in> set (tenants (slots r ! k))" if "(i, k) \<in> set (assignment r)"
    using inv that by (auto simp: plan_inv_def)
qed

text \<open>
  C7. The memory plan is safe: every tensor of the table has exactly one slot, the slot is at
  least as large and as strictly aligned as the tensor asks for, and two different tensors that
  share a slot are never live at the same step.
\<close>

theorem plan_safe:
  assumes "table_inv t" and "plan t = Some r" and "(i, a) \<in> set t"
  shows "(\<exists>k. slot_of r i = Some k \<and> k < slot_count r \<and> iv_bytes a \<le> slot_bytes (slots r ! k)
            \<and> iv_align a \<le> slot_align (slots r ! k))
       \<and> (\<forall>j b. (j, b) \<in> set t \<and> j \<noteq> i \<and> slot_of r j = slot_of r i \<longrightarrow>
            \<not> (\<exists>s. live_at s a \<and> live_at s b))"
  using ffd.slot_accommodates[OF assms] ffd.slot_mates_disjoint[OF assms] live_at_overlaps
  by (fastforce simp: slot_count_def)

theorem plan_safe_witness:
  "let t = [(TensorId 1, \<lparr>iv_def = 0, last_use = 2, iv_bytes = 100, iv_align = 64\<rparr>),
            (TensorId 2, \<lparr>iv_def = 1, last_use = 3, iv_bytes = 40, iv_align = 1\<rparr>),
            (TensorId 3, \<lparr>iv_def = 3, last_use = 4, iv_bytes = 130, iv_align = 1\<rparr>)] in
   case plan t of
     None \<Rightarrow> False
   | Some r \<Rightarrow> slot_of r (TensorId 1) = Some 0 \<and> slot_of r (TensorId 2) = Some 1
       \<and> slot_of r (TensorId 3) = Some 0 \<and> map slot_bytes (slots r) = [192, 40]
       \<and> (\<exists>k. slot_of r (TensorId 3) = Some k \<and> k < slot_count r
            \<and> 130 \<le> slot_bytes (slots r ! k) \<and> 1 \<le> slot_align (slots r ! k))"
proof -
  let ?t = "[(TensorId 1, \<lparr>iv_def = 0, last_use = 2, iv_bytes = 100, iv_align = 64\<rparr>),
            (TensorId 2, \<lparr>iv_def = 1, last_use = 3, iv_bytes = 40, iv_align = 1\<rparr>),
            (TensorId 3, \<lparr>iv_def = 3, last_use = 4, iv_bytes = 130, iv_align = 1\<rparr>)]"
  have run: "case plan ?t of
     None \<Rightarrow> False
   | Some r \<Rightarrow> slot_of r (TensorId 1) = Some 0 \<and> slot_of r (TensorId 2) = Some 1
       \<and> slot_of r (TensorId 3) = Some 0 \<and> map slot_bytes (slots r) = [192, 40]" by code_simp
  have inv: "table_inv ?t" by code_simp
  obtain r where r: "plan ?t = Some r" using run by (cases "plan ?t") auto
  have mem: "(TensorId 3, \<lparr>iv_def = 3, last_use = 4, iv_bytes = 130, iv_align = 1\<rparr>) \<in> set ?t" by simp
  from plan_safe[OF inv r mem] run show ?thesis unfolding Let_def r by simp
qed

section \<open>Size of the plan\<close>

abbreviation aligned_bytes :: "interval \<Rightarrow> nat" where
  "aligned_bytes iv \<equiv> div_ceil (iv_bytes iv) (max (iv_align iv) 1) * max (iv_align iv) 1"

lemma aligned_bytes_ge_align: "0 < iv_bytes iv \<Longrightarrow> max (iv_align iv) 1 \<le> aligned_bytes iv"
proof -
  assume "0 < iv_bytes iv"
  moreover have "iv_bytes iv \<le> aligned_bytes iv" by (rule div_ceil_mult_ge) simp
  ultimately have "0 < div_ceil (iv_bytes iv) (max (iv_align iv) 1)" by (cases "div_ceil (iv_bytes iv) (max (iv_align iv) 1)") auto
  then show ?thesis by (cases "div_ceil (iv_bytes iv) (max (iv_align iv) 1)") (auto intro: trans_le_add1)
qed

lemma slot_add_bytes_le:
  assumes ok: "slot_ok s" and pos: "0 < iv_bytes iv" "0 < slot_bytes s"
    and add: "slot_add s i iv = Some s'"
  shows "slot_bytes s' \<le> slot_bytes s + aligned_bytes iv" "0 < slot_bytes s'"
proof -
  let ?B = "slot_bytes s" and ?A = "slot_align s" and ?b = "iv_bytes iv" and ?a = "max (iv_align iv) 1"
  have r: "round_up (max ?B ?b) (max ?A ?a) = Some (slot_bytes s')"
    using add by (auto simp: slot_add_def Let_def split: option.splits)
  note bd = round_up_bounds[OF r]
  have A: "1 \<le> ?A" "?A dvd ?B" using ok by (simp_all add: slot_ok_def)
  then have AB: "?A \<le> ?B" using pos(2) by (simp add: dvd_imp_le)
  have b: "?b \<le> aligned_bytes iv" by (rule div_ceil_mult_ge) simp
  have a: "?a \<le> aligned_bytes iv" by (rule aligned_bytes_ge_align[OF pos(1)])
  show "0 < slot_bytes s'" using bd(1) pos(1) by linarith
  have v: "slot_bytes s' = div_ceil (max ?B ?b) (max ?A ?a) * max ?A ?a"
    using r A by (simp add: round_up_Some max_def)
  consider "?b \<le> ?B" "?a \<le> ?A" | "?b \<le> ?B" "?A < ?a" | "?B < ?b" "?a \<le> ?A" | "?B < ?b" "?A < ?a"
    by linarith
  then show "slot_bytes s' \<le> ?B + aligned_bytes iv"
  proof cases
    case 1
    then show ?thesis using v div_ceil_mult_fix[of ?A ?B] A by (simp add: max_absorb1)
  next
    case 2
    then have "slot_bytes s' < ?B + ?a" using bd(3) by (simp add: max_absorb1 max_absorb2)
    with a show ?thesis by linarith
  next
    case 3
    then have "slot_bytes s' < ?b + ?A" using bd(3) A by (simp add: max_absorb1 max_absorb2)
    with AB b show ?thesis by linarith
  next
    case 4
    then show ?thesis using v by (simp add: max_absorb2)
  qed
qed

lemma slot_new_bytes: "slot_new i iv = Some s \<Longrightarrow> slot_bytes s = aligned_bytes iv"
  by (auto simp: slot_new_def round_up_Some Let_def split: option.splits)

definition total_bytes :: "plan_result \<Rightarrow> nat" where
  "total_bytes r = sum_list (map slot_bytes (slots r))"

lemma plan_step_total_bytes:
  assumes inv: "plan_inv seen r" and pos: "0 < iv_bytes iv" "\<forall>s \<in> set (slots r). 0 < slot_bytes s"
    and step: "plan_step (i, iv) r = Some r'"
  shows "total_bytes r' \<le> total_bytes r + aligned_bytes iv" "\<forall>s \<in> set (slots r'). 0 < slot_bytes s"
proof -
  have "total_bytes r' \<le> total_bytes r + aligned_bytes iv \<and> (\<forall>s \<in> set (slots r'). 0 < slot_bytes s)"
  proof (cases "first_fit (slots r) iv 0")
    case None
    with step obtain s where s: "slot_new i iv = Some s" "slots r' = slots r @ [s]"
      by (auto simp: plan_step_def Let_def split: option.splits)
    with pos slot_new_bytes[OF s(1)] aligned_bytes_ge_align[OF pos(1)] show ?thesis
      by (auto simp: total_bytes_def)
  next
    case (Some k)
    then have k: "k < length (slots r)" using first_fit_Some by force
    from step Some obtain s where s: "slot_add (slots r ! k) i iv = Some s" "slots r' = (slots r)[k := s]"
      by (auto simp: plan_step_def Let_def split: option.splits)
    have ok: "slot_ok (slots r ! k)" "0 < slot_bytes (slots r ! k)" using inv k pos by (simp_all add: plan_inv_def)
    note le = slot_add_bytes_le[OF ok(1) pos(1) ok(2) s(1)]
    have "sum_list (map slot_bytes (slots r')) + slot_bytes (slots r ! k)
        = sum_list (map slot_bytes (slots r)) + slot_bytes s"
      using sum_list_update_nat[of k "map slot_bytes (slots r)" "slot_bytes s"] k by (simp add: s(2) map_update)
    with le pos(2) k show ?thesis
      by (auto simp: total_bytes_def s(2) dest!: subsetD[OF set_update_subset_insert])
  qed
  then show "total_bytes r' \<le> total_bytes r + aligned_bytes iv" "\<forall>s \<in> set (slots r'). 0 < slot_bytes s"
    by auto
qed

lemma plan_total_bytes_le:
  assumes "plan t = Some r" "\<forall>(_, iv) \<in> set t. 0 < iv_bytes iv"
  shows "total_bytes r \<le> sum_list (map (aligned_bytes \<circ> snd) t)"
proof -
  let ?I = "\<lambda>ys r. plan_inv ys r \<and> (\<forall>s \<in> set (slots r). 0 < slot_bytes s)
      \<and> total_bytes r \<le> sum_list (map (aligned_bytes \<circ> snd) ys)"
  have "?I (sort_key order_key t) r"
    using assms(1) unfolding plan_def
  proof (rule fold_opt_invariant)
    show "?I [] \<lparr>slots = [], assignment = []\<rparr>" by (simp add: plan_inv_def total_bytes_def)
  next
    fix ys y s s'
    assume I: "?I ys s" and pre: "\<exists>zs. sort_key order_key t = ys @ y # zs" and st: "plan_step y s = Some s'"
    obtain i iv where y: "y = (i, iv)" by (cases y)
    have "y \<in> set t" using pre by (metis in_set_conv_decomp set_sort)
    then have "0 < iv_bytes iv" using assms(2) y by auto
    then have "total_bytes s' \<le> total_bytes s + aligned_bytes iv" "\<forall>x \<in> set (slots s'). 0 < slot_bytes x"
      using plan_step_total_bytes[of ys s iv i s'] I st y by blast+
    moreover have "plan_inv (ys @ [y]) s'" using plan_step_inv I st y by blast
    ultimately show "?I (ys @ [y]) s'" using I by (simp add: y)
  qed
  moreover have "sum_list (map (aligned_bytes \<circ> snd) (sort_key order_key t))
      = sum_list (map (aligned_bytes \<circ> snd) t)"
    by (rule sum_list_mset_cong) simp
  ultimately show ?thesis by simp
qed

lemma peak_bytes_Some: "peak_bytes r = Some p \<longleftrightarrow> p = total_bytes r \<and> p < u64_limit"
  unfolding peak_bytes_def total_bytes_def checked_sum_u64_Some[OF u64_limit_pos(1)] add_0
  by (auto split: if_splits)



section \<open>The plan exists and is determined by the table\<close>

definition weight :: "tensor_id \<times> interval \<Rightarrow> nat" where
  "weight x = iv_bytes (snd x) + max (iv_align (snd x)) 1"

text \<open>No slot outgrows the sizes and alignments of its tenants.\<close>

definition slot_bound :: "slot \<Rightarrow> bool" where
  "slot_bound s \<longleftrightarrow> slot_bytes s \<le> sum_list (map weight (slot_items s))
     \<and> slot_align s \<le> sum_list (map (\<lambda>x. max (iv_align (snd x)) 1) (slot_items s))"

lemma align_le_weight:
  "sum_list (map (\<lambda>x. max (iv_align (snd x)) 1) xs) \<le> sum_list (map weight xs)"
  by (rule sum_list_mono) (simp add: weight_def)

lemma round_up_exists: "b + max a 1 \<le> u64_limit \<Longrightarrow> \<exists>c. round_up b a = Some c"
  using div_ceil_mult_lt[of "max a 1" b] by (auto simp: round_up_Some)

lemma slot_new_exists:
  assumes "weight (i, iv) < u64_limit"
  shows "\<exists>s. slot_new i iv = Some s \<and> slot_bound s"
proof -
  obtain b where b: "round_up (iv_bytes iv) (max (iv_align iv) 1) = Some b"
    using round_up_exists[of "iv_bytes iv" "max (iv_align iv) 1"] assms by (auto simp: weight_def)
  with round_up_bounds(3)[OF b] show ?thesis
    by (simp add: slot_new_def Let_def slot_bound_def slot_items_def weight_def)
qed

lemma slot_add_exists:
  assumes ok: "slot_ok s" "fits s iv" and bd: "slot_bound s"
    and lim: "sum_list (map weight (slot_items s)) + weight (i, iv) < u64_limit"
  shows "\<exists>s'. slot_add s i iv = Some s' \<and> slot_bound s'"
proof -
  let ?M = "max (slot_bytes s) (iv_bytes iv)" and ?m = "max (slot_align s) (max (iv_align iv) 1)"
  let ?W = "sum_list (map weight (slot_items s)) + weight (i, iv)"
  have al: "slot_align s \<le> sum_list (map weight (slot_items s))"
    using bd align_le_weight[of "slot_items s"] by (simp add: slot_bound_def)
  have A: "1 \<le> slot_align s" "slot_align s dvd slot_bytes s" using ok by (simp_all add: slot_ok_def)
  have new: "div_ceil ?M ?m * ?m \<le> ?W"
  proof (cases "iv_bytes iv \<le> slot_bytes s \<and> max (iv_align iv) 1 \<le> slot_align s")
    case True
    with A div_ceil_mult_fix[of "slot_align s" "slot_bytes s"] bd show ?thesis
      by (simp add: max_absorb1 slot_bound_def)
  next
    case False
    have "div_ceil ?M ?m * ?m < ?M + ?m" by (rule div_ceil_mult_lt) (simp add: max_def)
    with False al bd show ?thesis by (auto simp: slot_bound_def weight_def max_def split: if_splits)
  qed
  then have r: "round_up ?M ?m = Some (div_ceil ?M ?m * ?m)"
    using lim A by (simp add: round_up_Some max_def)
  then obtain s' where s': "slot_add s i iv = Some s'" "slot_bytes s' = div_ceil ?M ?m * ?m" "slot_align s' = ?m"
    by (simp add: slot_add_def Let_def)
  have "slot_bound s'" using new bd slot_add_ok(2)[OF ok s'(1)] by (simp add: slot_bound_def s'(2,3))
  with s' show ?thesis by blast
qed

lemma sum_list_concat_le:
  "k < length ss \<Longrightarrow> sum_list (map f (g (ss ! k))) \<le> (sum_list (map f (concat (map g ss))) :: nat)"
proof (induction ss arbitrary: k)
  case (Cons s ss)
  then show ?case by (cases k) (auto intro: trans_le_add2)
qed simp

lemma slot_bounds_sum:
  "\<forall>s \<in> set ss. slot_bound s \<Longrightarrow>
   sum_list (map slot_bytes ss) \<le> sum_list (map weight (concat (map slot_items ss)))"
  by (induction ss) (auto simp: slot_bound_def intro: add_mono)

lemma plan_step_exists:
  assumes inv: "plan_inv seen r" and bd: "\<forall>s \<in> set (slots r). slot_bound s"
    and lim: "sum_list (map weight (seen @ [(i, iv)])) < u64_limit"
  shows "\<exists>r'. plan_step (i, iv) r = Some r' \<and> (\<forall>s \<in> set (slots r'). slot_bound s)"
proof (cases "first_fit (slots r) iv 0")
  case None
  moreover obtain s where "slot_new i iv = Some s \<and> slot_bound s"
    using slot_new_exists[of i iv] lim by auto
  ultimately show ?thesis using bd by (auto simp: plan_step_def)
next
  case (Some k)
  then have k: "k < length (slots r)" "fits (slots r ! k) iv" using first_fit_Some by force+
  have "sum_list (map weight (slot_items (slots r ! k))) \<le> sum_list (map weight seen)"
    using sum_list_concat_le[OF k(1), of weight slot_items] inv
      sum_list_mset_cong[of "concat (map slot_items (slots r))" seen weight] by (simp add: plan_inv_def)
  then obtain s where "slot_add (slots r ! k) i iv = Some s \<and> slot_bound s"
    using slot_add_exists[of "slots r ! k" iv i] inv bd k lim by (auto simp: plan_inv_def)
  with Some bd show ?thesis
    by (auto simp: plan_step_def dest!: subsetD[OF set_update_subset_insert])
qed

lemma plan_exists_total_bytes:
  assumes "sum_list (map weight t) < u64_limit"
  shows "\<exists>r. plan t = Some r \<and> total_bytes r \<le> sum_list (map weight t)"
proof -
  let ?o = "sort_key order_key t"
  let ?I = "\<lambda>ys r. plan_inv ys r \<and> (\<forall>s \<in> set (slots r). slot_bound s)"
  have W: "sum_list (map weight ?o) = sum_list (map weight t)" by (rule sum_list_mset_cong) simp
  have "\<exists>r. fold_opt plan_step ?o \<lparr>slots = [], assignment = []\<rparr> = Some r \<and> ?I ?o r"
  proof (rule fold_opt_total)
    show "?I [] \<lparr>slots = [], assignment = []\<rparr>" by (simp add: plan_inv_def)
  next
    fix ys y r assume I: "?I ys r" and pre: "\<exists>zs. ?o = ys @ y # zs"
    obtain i iv where y: "y = (i, iv)" by (cases y)
    have "sum_list (map weight (ys @ [(i, iv)])) < u64_limit"
      using pre assms by (auto simp: y W[symmetric])
    from plan_step_exists[OF _ _ this] I plan_step_inv[of ys r i iv]
    show "\<exists>r'. plan_step y r = Some r' \<and> ?I (ys @ [y]) r'" unfolding y by blast
  qed
  then obtain r where r: "plan t = Some r" "?I ?o r" by (auto simp: plan_def)
  have "total_bytes r \<le> sum_list (map weight (concat (map slot_items (slots r))))"
    unfolding total_bytes_def using r(2) by (simp add: slot_bounds_sum)
  also have "\<dots> = sum_list (map weight t)"
    by (rule sum_list_mset_cong) (use r(2) in \<open>simp add: plan_inv_def\<close>)
  finally show ?thesis using r(1) by blast
qed

lemma plan_exists: "sum_list (map weight t) < u64_limit \<Longrightarrow> \<exists>r. plan t = Some r"
  using plan_exists_total_bytes by blast

text \<open>
  C23. The planner never panics on a table whose sizes and alignments sum to less than \<open>2^64\<close>, and
  its peak then fits \<open>u64\<close>: \<open>plan_with_budget\<close> returns the plan exactly when the peak is within
  the budget and reports the required bytes otherwise.
\<close>

theorem plan_total:
  assumes "sum_list (map weight t) < u64_limit"
  shows "\<exists>r p. plan t = Some r \<and> peak_bytes r = Some p
    \<and> plan_with_budget t budget
        = Some (if p \<le> budget then Inr r else Inl (BudgetExceeded p budget))"
proof -
  obtain r where r: "plan t = Some r" "total_bytes r \<le> sum_list (map weight t)"
    using plan_exists_total_bytes[OF assms] by blast
  then have "peak_bytes r = Some (total_bytes r)" using assms by (simp add: peak_bytes_Some)
  with r(1) show ?thesis by (auto simp: plan_with_budget_def)
qed

theorem plan_total_witness:
  "let t = [(TensorId 7, \<lparr>iv_def = 0, last_use = 1, iv_bytes = 10, iv_align = 4\<rparr>),
            (TensorId 8, \<lparr>iv_def = 1, last_use = 3, iv_bytes = 9, iv_align = 1\<rparr>)] in
   plan_with_budget t 20 = Some (Inl (BudgetExceeded 21 20))
   \<and> (\<exists>r p. plan t = Some r \<and> peak_bytes r = Some p
        \<and> plan_with_budget t 20 = Some (if p \<le> 20 then Inr r else Inl (BudgetExceeded p 20)))"
proof -
  let ?t = "[(TensorId 7, \<lparr>iv_def = 0, last_use = 1, iv_bytes = 10, iv_align = 4\<rparr>),
            (TensorId 8, \<lparr>iv_def = 1, last_use = 3, iv_bytes = 9, iv_align = 1\<rparr>)]"
  have "sum_list (map weight ?t) < u64_limit" by code_simp
  from plan_total[OF this, of 20]
  have "\<exists>r p. plan ?t = Some r \<and> peak_bytes r = Some p
        \<and> plan_with_budget ?t 20 = Some (if p \<le> 20 then Inr r else Inl (BudgetExceeded p 20))" .
  moreover have "case plan_with_budget ?t 20 of
      Some (Inl (BudgetExceeded a b)) \<Rightarrow> a = 21 \<and> b = 20 | _ \<Rightarrow> False" by code_simp
  ultimately show ?thesis unfolding Let_def by (auto split: option.splits sum.splits plan_error.splits)
qed

lemma order_key_inj: "distinct (map fst t) \<Longrightarrow> inj_on order_key (set t)"
  by (auto simp: inj_on_def order_key_def dest: eq_key_imp_eq_value)

text \<open>
  The plan depends only on the contents of the table: whatever order the hash map iterates
  its entries in, the slots, their tenants and the assignment are the same.
\<close>

theorem plan_deterministic:
  assumes "table_inv t" and "mset t' = mset t"
  shows "plan t' = plan t"
proof -
  have "inj_on order_key (set t')"
    using order_key_inj[of t] assms(1) mset_eq_setD[OF assms(2)] by (simp add: table_inv_def)
  from sort_key_mset_cong[OF assms(2) this] show ?thesis by (simp add: plan_def)
qed

theorem plan_deterministic_witness:
  "let a = (TensorId 1, \<lparr>iv_def = 0, last_use = 2, iv_bytes = 8, iv_align = 1\<rparr>);
       b = (TensorId 2, \<lparr>iv_def = 0, last_use = 1, iv_bytes = 8, iv_align = 1\<rparr>) in
   plan [b, a] = plan [a, b] \<and> plan [a, b] \<noteq> None"
proof -
  let ?a = "(TensorId 1, \<lparr>iv_def = 0, last_use = 2, iv_bytes = 8, iv_align = 1\<rparr>)"
  let ?b = "(TensorId 2, \<lparr>iv_def = 0, last_use = 1, iv_bytes = 8, iv_align = 1\<rparr>)"
  have inv: "table_inv [?a, ?b]" by code_simp
  have "mset [?b, ?a] = mset [?a, ?b]" by simp
  from plan_deterministic[OF inv this] have "plan [?b, ?a] = plan [?a, ?b]" .
  moreover have "(case plan [?a, ?b] of None \<Rightarrow> False | Some _ \<Rightarrow> True)" by code_simp
  ultimately show ?thesis unfolding Let_def by (auto split: option.splits)
qed

text \<open>
  With an empty tensor of a large alignment the peak exceeds the sum of the aligned sizes, which
  is why \<open>plan_peak_bounds\<close> asks for non-empty tensors.
\<close>

lemma empty_tensor_raises_peak:
  "let t = [(TensorId 1, \<lparr>iv_def = 0, last_use = 0, iv_bytes = 4, iv_align = 4\<rparr>),
            (TensorId 2, \<lparr>iv_def = 1, last_use = 1, iv_bytes = 0, iv_align = 64\<rparr>)] in
   (case plan t of None \<Rightarrow> False | Some r \<Rightarrow> peak_bytes r = Some 64)
   \<and> sum_list (map (aligned_bytes \<circ> snd) t) = 4"
  by code_simp

end
