(* ===== verification/Reorder.thy ===== *)
theory Reorder
  imports Allocator
begin

text \<open>
  Scheduling of an operation graph: \<open>rustorch-planner/src/reorder.rs\<close>.  The greedy scheduler picks
  among the ready operations the one that frees most memory; the lifetime table of the schedule
  goes to the allocator.  \<open>None\<close> stands for a panic (an index or \<open>expect\<close> failure, or an
  arithmetic overflow).

  The hash sets and the ordered set of the scheduler are sets; the hash map of operations, over
  which the code iterates, is an association list; the other maps are functions.
\<close>

section \<open>Operation graphs\<close>

datatype op_id = OpId (raw_op: nat)

instantiation op_id :: linorder
begin

definition less_eq_op_id :: "op_id \<Rightarrow> op_id \<Rightarrow> bool" where
  "less_eq_op_id a b \<longleftrightarrow> raw_op a \<le> raw_op b"

definition less_op_id :: "op_id \<Rightarrow> op_id \<Rightarrow> bool" where
  "less_op_id a b \<longleftrightarrow> raw_op a < raw_op b"

instance
  by standard (auto simp: less_eq_op_id_def less_op_id_def intro: op_id.expand)

end

record op_node =
  op_ident :: op_id
  reads :: "tensor_id list"
  writes :: tensor_id
  op_bytes :: nat
  op_align :: nat

record op_dag =
  nodes :: "(op_id \<times> op_node) list"
  producer_of :: "tensor_id \<rightharpoonup> op_id"

definition empty_dag :: op_dag where
  "empty_dag = \<lparr>nodes = [], producer_of = Map.empty\<rparr>"

definition add_op :: "op_dag \<Rightarrow> op_node \<Rightarrow> op_dag option" where
  "add_op dag op =
     (case producer_of dag (writes op) of
        Some _ \<Rightarrow> None
      | None \<Rightarrow> Some \<lparr>nodes = AList.update (op_ident op) op (nodes dag),
                      producer_of = (producer_of dag)(writes op \<mapsto> op_ident op)\<rparr>)"

definition all_reads :: "op_dag \<Rightarrow> tensor_id list" where
  "all_reads dag = concat (map (reads \<circ> snd) (nodes dag))"

definition external :: "op_dag \<Rightarrow> tensor_id list" where
  "external dag = remdups (filter (\<lambda>r. producer_of dag r = None) (all_reads dag))"

section \<open>The lifetimes of a schedule\<close>

text \<open>\<open>let _ = t.record_use(..)\<close>: an error is ignored.\<close>

definition use_or_skip :: "nat \<Rightarrow> tensor_id \<Rightarrow> lifetime_table \<Rightarrow> lifetime_table" where
  "use_or_skip step r t = (case record_use t r step of Inl _ \<Rightarrow> t | Inr t' \<Rightarrow> t')"

definition record_op :: "op_dag \<Rightarrow> nat \<times> op_id \<Rightarrow> lifetime_table \<Rightarrow> lifetime_table option" where
  "record_op dag x t =
     (case map_of (nodes dag) (snd x) of
        None \<Rightarrow> None
      | Some op \<Rightarrow> let step = fst x mod u32_limit in
          Some (fold (use_or_skip step) (reads op)
            (record_def_with_align t (writes op) step (op_bytes op) (op_align op))))"

definition lifetime_for :: "op_dag \<Rightarrow> op_id list \<Rightarrow> lifetime_table option" where
  "lifetime_for dag schedule =
     fold_opt (record_op dag) (enumerate 0 schedule)
       (fold (\<lambda>ext t. record_def t ext 0 0) (external dag) [])"

section \<open>The greedy scheduler\<close>

datatype reorder_error = Cycle "op_id list"

record reorder_state =
  consumers :: "tensor_id \<rightharpoonup> nat"
  produced :: "tensor_id set"
  unscheduled :: "op_id set"
  ready :: "op_id set"
  schedule :: "op_id list"

definition count_read :: "tensor_id \<Rightarrow> (tensor_id \<rightharpoonup> nat) \<Rightarrow> (tensor_id \<rightharpoonup> nat) option" where
  "count_read r m =
     (let c = (case m r of Some c \<Rightarrow> c | None \<Rightarrow> 0) in
      if c + 1 < u32_limit then Some (m(r \<mapsto> c + 1)) else None)"

definition reads_ready :: "tensor_id set \<Rightarrow> op_node \<Rightarrow> bool" where
  "reads_ready P op \<longleftrightarrow> list_all (\<lambda>r. r \<in> P) (reads op)"

definition initial_state :: "op_dag \<Rightarrow> reorder_state option" where
  "initial_state dag =
     (case fold_opt count_read (all_reads dag) Map.empty of
        None \<Rightarrow> None
      | Some m \<Rightarrow> let P = set (filter (\<lambda>r. producer_of dag r = None) (all_reads dag)) in
          Some \<lparr>consumers = m, produced = P, unscheduled = set (map fst (nodes dag)),
                ready = set (map (op_ident \<circ> snd) (filter (reads_ready P \<circ> snd) (nodes dag))),
                schedule = []\<rparr>)"

text \<open>The bytes a read frees, if the operation is its last consumer.\<close>

definition freed_by :: "op_dag \<Rightarrow> (tensor_id \<rightharpoonup> nat) \<Rightarrow> tensor_id \<Rightarrow> int option" where
  "freed_by dag m r =
     (if (case m r of Some c \<Rightarrow> c | None \<Rightarrow> 0) = 1 then
        (case producer_of dag r of
           None \<Rightarrow> None
         | Some p \<Rightarrow> map_option (\<lambda>op. as_i64 (op_bytes op)) (map_of (nodes dag) p))
      else None)"

definition score :: "op_dag \<Rightarrow> (tensor_id \<rightharpoonup> nat) \<Rightarrow> op_node \<Rightarrow> int option" where
  "score dag m op =
     (case fold_opt (\<lambda>x acc. checked_i64 (acc + x)) (List.map_filter (freed_by dag m) (reads op)) 0 of
        None \<Rightarrow> None
      | Some freed \<Rightarrow> checked_i64 (freed - as_i64 (op_bytes op)))"

text \<open>The comparison key \<open>(score, Reverse(bytes), Reverse(id))\<close>; a reversed component is negated.\<close>

definition candidate :: "op_dag \<Rightarrow> (tensor_id \<rightharpoonup> nat) \<Rightarrow> op_id \<Rightarrow> (int \<times> int \<times> int) option" where
  "candidate dag m i =
     (case map_of (nodes dag) i of
        None \<Rightarrow> None
      | Some op \<Rightarrow> map_option (\<lambda>s. (s, - int (op_bytes op), - int (raw_op (op_ident op)))) (score dag m op))"

definition pick_op :: "op_dag \<Rightarrow> (tensor_id \<rightharpoonup> nat) \<Rightarrow> op_id set \<Rightarrow> op_id option" where
  "pick_op dag m R =
     (case those (map (candidate dag m) (sorted_list_of_set R)) of
        Some (k # ks) \<Rightarrow> Some (OpId (nat (- snd (snd (fold max ks k)))))
      | _ \<Rightarrow> None)"

definition release :: "tensor_id \<Rightarrow> (tensor_id \<rightharpoonup> nat) \<Rightarrow> (tensor_id \<rightharpoonup> nat)" where
  "release r m = (case m r of Some c \<Rightarrow> m(r \<mapsto> c - 1) | None \<Rightarrow> m)"

definition reorder_step :: "op_dag \<Rightarrow> reorder_state \<Rightarrow> reorder_state option" where
  "reorder_step dag st =
     (case pick_op dag (consumers st) (ready st) of
        None \<Rightarrow> None
      | Some i \<Rightarrow>
          (case map_of (nodes dag) i of
             None \<Rightarrow> None
           | Some op \<Rightarrow>
               let U = unscheduled st - {i}; R = ready st - {i}; P = insert (writes op) (produced st) in
               Some \<lparr>consumers = fold release (reads op) (consumers st), produced = P, unscheduled = U,
                     ready = R \<union> {u \<in> U. u \<notin> R \<and> (case map_of (nodes dag) u of Some op_u \<Rightarrow> reads_ready P op_u | None \<Rightarrow> False)},
                     schedule = schedule st @ [i]\<rparr>))"

text \<open>
  The loop removes one operation per round; the fuel is one more than the number of operations.
\<close>

fun reorder_loop :: "nat \<Rightarrow> op_dag \<Rightarrow> reorder_state \<Rightarrow> (reorder_error + op_id list) option" where
  "reorder_loop 0 dag st = None"
| "reorder_loop (Suc fuel) dag st =
     (if unscheduled st = {} then Some (Inr (schedule st))
      else if ready st = {} then Some (Inl (Cycle (sorted_list_of_set (unscheduled st))))
      else (case reorder_step dag st of None \<Rightarrow> None | Some st' \<Rightarrow> reorder_loop fuel dag st'))"

definition reorder :: "op_dag \<Rightarrow> (reorder_error + op_id list) option" where
  "reorder dag =
     (if nodes dag = [] then Some (Inr [])
      else case initial_state dag of
        None \<Rightarrow> None
      | Some st \<Rightarrow> reorder_loop (Suc (length (nodes dag))) dag st)"

definition plan_with_reorder :: "op_dag \<Rightarrow> (reorder_error + plan_result) option" where
  "plan_with_reorder dag =
     (case reorder dag of
        None \<Rightarrow> None
      | Some (Inl e) \<Rightarrow> Some (Inl e)
      | Some (Inr s) \<Rightarrow>
          (case lifetime_for dag s of
             None \<Rightarrow> None
           | Some t \<Rightarrow> map_option Inr (plan t)))"

section \<open>Well-formed graphs\<close>

text \<open>
  Every operation is stored under its own identifier, and the producer of a tensor is the one
  operation that writes it.
\<close>

definition dag_inv :: "op_dag \<Rightarrow> bool" where
  "dag_inv dag \<longleftrightarrow> distinct (map fst (nodes dag)) \<and> (\<forall>(i, op) \<in> set (nodes dag). op_ident op = i)
     \<and> (\<forall>t p. producer_of dag t = Some p \<longleftrightarrow> (\<exists>op. map_of (nodes dag) p = Some op \<and> writes op = t))"

lemma dag_inv_empty: "dag_inv empty_dag"
  by (simp add: dag_inv_def empty_dag_def)

lemma add_op_inv:
  assumes inv: "dag_inv dag" and fresh: "map_of (nodes dag) (op_ident op) = None"
    and add: "add_op dag op = Some dag'"
  shows "dag_inv dag'"
proof -
  have new: "producer_of dag (writes op) = None"
    and d: "dag' = \<lparr>nodes = AList.update (op_ident op) op (nodes dag),
                    producer_of = (producer_of dag)(writes op \<mapsto> op_ident op)\<rparr>"
    using add by (auto simp: add_op_def split: option.splits)
  have "\<forall>(i, x) \<in> set (nodes dag'). op_ident x = i"
    using inv set_update_subset[of "op_ident op" op "nodes dag"] by (auto simp: dag_inv_def d)
  moreover have "distinct (map fst (nodes dag'))" using inv by (simp add: d dag_inv_def distinct_update)
  moreover have "producer_of dag' t = Some p \<longleftrightarrow> (\<exists>x. map_of (nodes dag') p = Some x \<and> writes x = t)" for t p
  proof -
    have old: "producer_of dag t = Some p \<longleftrightarrow> (\<exists>x. map_of (nodes dag) p = Some x \<and> writes x = t)" for t p
      using inv by (simp add: dag_inv_def)
    show ?thesis using old[of t p] old[of t "op_ident op"] old[of "writes op" p] new fresh
      by (auto simp: d update_conv' split: if_splits)
  qed
  ultimately show ?thesis by (simp add: dag_inv_def)
qed

section \<open>Valid schedules\<close>

definition deps :: "op_dag \<Rightarrow> op_id \<Rightarrow> op_id set" where
  "deps dag i = {p. \<exists>op r. map_of (nodes dag) i = Some op \<and> r \<in> set (reads op) \<and> producer_of dag r = Some p}"

definition op_ids :: "op_dag \<Rightarrow> op_id set" where
  "op_ids dag = fst ` set (nodes dag)"

definition valid_prefix :: "op_dag \<Rightarrow> op_id list \<Rightarrow> bool" where
  "valid_prefix dag s \<longleftrightarrow> distinct s \<and> set s \<subseteq> op_ids dag
     \<and> (\<forall>k < length s. deps dag (s ! k) \<subseteq> set (take k s))"

text \<open>
  A valid schedule runs every operation once, after the operations that produce what it reads.
\<close>

definition valid_schedule :: "op_dag \<Rightarrow> op_id list \<Rightarrow> bool" where
  "valid_schedule dag s \<longleftrightarrow> valid_prefix dag s \<and> set s = op_ids dag"

lemma op_ids_map_of: "i \<in> op_ids dag \<longleftrightarrow> (\<exists>op. map_of (nodes dag) i = Some op)"
  by (auto simp: op_ids_def map_of_eq_None_iff simp flip: not_None_eq)

lemma finite_op_ids [simp]: "finite (op_ids dag)"
  by (simp add: op_ids_def)

lemma dag_inv_producer:
  "dag_inv dag \<Longrightarrow> producer_of dag t = Some p \<longleftrightarrow> (\<exists>op. map_of (nodes dag) p = Some op \<and> writes op = t)"
  unfolding dag_inv_def by blast

lemma dag_inv_mem: "dag_inv dag \<Longrightarrow> (i, op) \<in> set (nodes dag) \<longleftrightarrow> map_of (nodes dag) i = Some op"
  by (simp add: dag_inv_def)

lemma dag_inv_ident: "dag_inv dag \<Longrightarrow> map_of (nodes dag) i = Some op \<Longrightarrow> op_ident op = i"
  by (auto simp: dag_inv_def dest!: map_of_SomeD)

lemma valid_prefix_snoc:
  assumes "valid_prefix dag s" "i \<in> op_ids dag" "i \<notin> set s" "deps dag i \<subseteq> set s"
  shows "valid_prefix dag (s @ [i])"
  using assms by (auto simp: valid_prefix_def nth_append less_Suc_eq)

text \<open>No valid schedule exists when every operation of a non-empty set waits for another of the set.\<close>

lemma blocked_no_schedule:
  assumes ne: "B \<noteq> {}" "B \<subseteq> op_ids dag" and blk: "\<And>i. i \<in> B \<Longrightarrow> deps dag i \<inter> B \<noteq> {}"
  shows "\<not> valid_schedule dag s"
proof
  assume v: "valid_schedule dag s"
  let ?ks = "{k. k < length s \<and> s ! k \<in> B}"
  obtain i where i: "i \<in> B" using ne by blast
  then have "i \<in> set s" using ne v by (auto simp: valid_schedule_def)
  then have "\<exists>k. k \<in> ?ks" using i by (auto simp: in_set_conv_nth)
  then have k: "(LEAST k. k \<in> ?ks) \<in> ?ks" by (rule LeastI_ex)
  let ?k = "LEAST k. k \<in> ?ks"
  obtain p where p: "p \<in> deps dag (s ! ?k)" "p \<in> B" using blk k by blast
  have "p \<in> set (take ?k s)" using v k p(1) by (auto simp: valid_schedule_def valid_prefix_def)
  then obtain j where j: "j < ?k" "j < length s" "s ! j = p" by (auto simp: in_set_conv_nth)
  then have "j \<in> ?ks" using p(2) by simp
  then have "?k \<le> j" by (rule Least_le)
  with j(1) show False by simp
qed

section \<open>The scheduler's invariant\<close>

definition loop_inv :: "op_dag \<Rightarrow> reorder_state \<Rightarrow> bool" where
  "loop_inv dag st \<longleftrightarrow> valid_prefix dag (schedule st)
     \<and> unscheduled st = op_ids dag - set (schedule st)
     \<and> produced st = set (external dag)
         \<union> {w. \<exists>i \<in> set (schedule st). \<exists>op. map_of (nodes dag) i = Some op \<and> writes op = w}
     \<and> ready st = {u \<in> unscheduled st. deps dag u \<subseteq> set (schedule st)}"

lemma external_iff:
  "r \<in> set (external dag) \<longleftrightarrow> producer_of dag r = None \<and> (\<exists>x \<in> set (nodes dag). r \<in> set (reads (snd x)))"
  by (auto simp: external_def all_reads_def)

lemma reads_ready_deps:
  assumes inv: "dag_inv dag" and op: "map_of (nodes dag) i = Some op"
  shows "reads_ready (set (external dag)
      \<union> {w. \<exists>j \<in> S. \<exists>op. map_of (nodes dag) j = Some op \<and> writes op = w}) op \<longleftrightarrow> deps dag i \<subseteq> S"
proof -
  have "r \<in> set (external dag) \<or> (\<exists>j \<in> S. \<exists>op. map_of (nodes dag) j = Some op \<and> writes op = r)
      \<longleftrightarrow> (\<forall>p. producer_of dag r = Some p \<longrightarrow> p \<in> S)" if "r \<in> set (reads op)" for r
  proof (cases "producer_of dag r")
    case None
    have "(i, op) \<in> set (nodes dag)" using op by (rule map_of_SomeD)
    then have "r \<in> set (external dag)" using None that by (force simp: external_iff)
    with None show ?thesis by simp
  next
    case (Some p)
    have "r \<notin> set (external dag)" using Some by (simp add: external_iff)
    moreover have "(\<exists>op. map_of (nodes dag) j = Some op \<and> writes op = r) \<longleftrightarrow> j = p" for j
      using dag_inv_producer[OF inv, of r j] Some by auto
    ultimately show ?thesis using Some by auto
  qed
  then show ?thesis using op by (auto simp: reads_ready_def list_all_iff deps_def)
qed

lemma initial_state_inv:
  assumes inv: "dag_inv dag" and st: "initial_state dag = Some st"
  shows "loop_inv dag st" "schedule st = []"
proof -
  obtain m where s: "st = \<lparr>consumers = m, produced = set (external dag), unscheduled = set (map fst (nodes dag)),
      ready = set (map (op_ident \<circ> snd) (filter (reads_ready (set (external dag)) \<circ> snd) (nodes dag))),
      schedule = []\<rparr>"
    using st unfolding initial_state_def Let_def external_def set_remdups by (auto split: option.splits)
  have "ready st = fst ` {x \<in> set (nodes dag). reads_ready (set (external dag)) (snd x)}"
    unfolding s reorder_state.select_convs set_map set_filter
    by (rule image_cong) (use inv in \<open>auto simp: dag_inv_def\<close>)
  also have "\<dots> = fst ` {x \<in> set (nodes dag). deps dag (fst x) \<subseteq> {}}"
    using reads_ready_deps[OF inv, of _ _ "{}"] dag_inv_mem[OF inv] by (intro arg_cong[where f = "image fst"]) auto
  also have "\<dots> = {u \<in> op_ids dag. deps dag u \<subseteq> {}}" unfolding op_ids_def by blast
  finally have r: "ready st = {u \<in> op_ids dag. deps dag u \<subseteq> {}}" .
  have u: "unscheduled st = op_ids dag" "produced st = set (external dag)" and sc: "schedule st = []"
    by (simp_all add: s op_ids_def)
  show "loop_inv dag st" unfolding loop_inv_def r u sc by (simp add: valid_prefix_def)
  show "schedule st = []" by (rule sc)
qed

lemma those_mapD: "those (map f xs) = Some ys \<Longrightarrow> list_all2 (\<lambda>x y. f x = Some y) xs ys"
  by (induction xs arbitrary: ys) (auto split: option.splits)

text \<open>The pick is a ready operation with the largest key.\<close>

lemma pick_op_max:
  assumes inv: "dag_inv dag" and pk: "pick_op dag m R = Some i" and fin: "finite R"
  shows "i \<in> R" "j \<in> R \<Longrightarrow> \<exists>a b. candidate dag m i = Some a \<and> candidate dag m j = Some b \<and> b \<le> a"
proof -
  from pk obtain k ks where ks: "those (map (candidate dag m) (sorted_list_of_set R)) = Some (k # ks)"
    and i: "i = OpId (nat (- snd (snd (fold max ks k))))"
    by (auto simp: pick_op_def split: option.splits list.splits)
  have mx: "fold max ks k = Max (set (k # ks))" by (rule Max.set_eq_fold[symmetric])
  then have mem: "fold max ks k \<in> set (k # ks)" using Max_in[of "set (k # ks)"] by simp
  note l2 = those_mapD[OF ks]
  obtain u where u: "u \<in> R" "candidate dag m u = Some (fold max ks k)"
    using list_all2_right_mem[OF l2 mem] unfolding set_sorted_list_of_set[OF fin] by blast
  then obtain op where "map_of (nodes dag) u = Some op" "snd (snd (fold max ks k)) = - int (raw_op (op_ident op))"
    by (auto simp: candidate_def split: option.splits dest!: sym[of _ "fold max ks k"])
  with i inv have iu: "i = u" by (simp add: dag_inv_ident)
  with u show "i \<in> R" by simp
  assume "j \<in> R"
  then obtain b where "b \<in> set (k # ks)" "candidate dag m j = Some b"
    using list_all2_left_mem[OF l2, of j] unfolding set_sorted_list_of_set[OF fin] by blast
  moreover from this have "b \<le> fold max ks k" unfolding mx by (intro Max_ge) auto
  ultimately show "\<exists>a b. candidate dag m i = Some a \<and> candidate dag m j = Some b \<and> b \<le> a"
    using u(2) iu by blast
qed

lemma reorder_step_inv:
  assumes inv: "dag_inv dag" and L: "loop_inv dag st" and step: "reorder_step dag st = Some st'"
  shows "loop_inv dag st'" "length (schedule st') = Suc (length (schedule st))"
proof -
  from step obtain i op where pk: "pick_op dag (consumers st) (ready st) = Some i"
    and op: "map_of (nodes dag) i = Some op"
    and s': "schedule st' = schedule st @ [i]" "unscheduled st' = unscheduled st - {i}"
      "produced st' = insert (writes op) (produced st)"
    and r': "ready st' = (ready st - {i}) \<union> {u \<in> unscheduled st - {i}. u \<notin> ready st - {i}
        \<and> (case map_of (nodes dag) u of Some op_u \<Rightarrow> reads_ready (insert (writes op) (produced st)) op_u | None \<Rightarrow> False)}"
    by (auto simp: reorder_step_def Let_def split: option.splits)
  have fin: "finite (ready st)" using L by (simp add: loop_inv_def)
  have i: "i \<in> unscheduled st" "deps dag i \<subseteq> set (schedule st)"
    using pick_op_max(1)[OF inv pk fin] L by (auto simp: loop_inv_def)
  have v: "valid_prefix dag (schedule st')" unfolding s'(1)
    using L i by (intro valid_prefix_snoc) (auto simp: loop_inv_def)
  have P: "produced st' = set (external dag)
      \<union> {w. \<exists>i \<in> set (schedule st'). \<exists>op. map_of (nodes dag) i = Some op \<and> writes op = w}"
    using L op by (auto simp: loop_inv_def s')
  have "(case map_of (nodes dag) u of Some op_u \<Rightarrow> reads_ready (produced st') op_u | None \<Rightarrow> False)
      \<longleftrightarrow> deps dag u \<subseteq> set (schedule st')" if "u \<in> op_ids dag" for u
    using that reads_ready_deps[OF inv] by (auto simp: op_ids_map_of P)
  then have "ready st' = {u \<in> unscheduled st'. deps dag u \<subseteq> set (schedule st')}"
    using L unfolding r'[folded s'(3)] by (auto simp: s'(1,2) loop_inv_def)
  with v P L show "loop_inv dag st'" by (auto simp: loop_inv_def s')
  show "length (schedule st') = Suc (length (schedule st))" by (simp add: s')
qed

lemma reorder_loop_result:
  assumes inv: "dag_inv dag"
  shows "loop_inv dag st \<Longrightarrow> reorder_loop fuel dag st = Some res \<Longrightarrow>
    (case res of Inr s \<Rightarrow> valid_schedule dag s
     | Inl (Cycle rem) \<Rightarrow> rem \<noteq> [] \<and> set rem \<subseteq> op_ids dag \<and> sorted rem
         \<and> (\<forall>i \<in> set rem. deps dag i \<inter> set rem \<noteq> {}))"
proof (induction fuel arbitrary: st)
  case (Suc fuel)
  show ?case
  proof (cases "unscheduled st = {} \<or> ready st = {}")
    case True
    have fin: "finite (unscheduled st)" using Suc.prems(1) by (simp add: loop_inv_def)
    have dk: "deps dag i \<subseteq> op_ids dag" for i using inv by (auto simp: deps_def dag_inv_def op_ids_map_of)
    show ?thesis
    proof (cases "unscheduled st = {}")
      case True
      with Suc.prems show ?thesis by (auto simp: loop_inv_def valid_schedule_def valid_prefix_def)
    next
      case False
      with True Suc.prems(2) have res: "res = Inl (Cycle (sorted_list_of_set (unscheduled st)))"
        and nr: "ready st = {}" by auto
      have "deps dag i \<inter> unscheduled st \<noteq> {}" if "i \<in> unscheduled st" for i
        using that nr dk[of i] Suc.prems(1) unfolding loop_inv_def by blast
      with False fin Suc.prems(1) show ?thesis by (auto simp: res loop_inv_def)
    qed
  next
    case False
    with Suc.prems(2) obtain st' where st': "reorder_step dag st = Some st'" "reorder_loop fuel dag st' = Some res"
      by (auto split: option.splits)
    from Suc.IH[OF reorder_step_inv(1)[OF inv Suc.prems(1) st'(1)] st'(2)] show ?thesis .
  qed
qed simp

section \<open>The scheduler returns\<close>

definition bytes_read :: "op_dag \<Rightarrow> tensor_id \<Rightarrow> nat" where
  "bytes_read dag r =
     (case producer_of dag r of
        Some p \<Rightarrow> (case map_of (nodes dag) p of Some op \<Rightarrow> op_bytes op | None \<Rightarrow> 0) | None \<Rightarrow> 0)"

text \<open>The sizes the score of an operation adds up fit \<open>i64\<close>, and the reads are counted in \<open>u32\<close>.\<close>

definition dag_bounded :: "op_dag \<Rightarrow> bool" where
  "dag_bounded dag \<longleftrightarrow> length (all_reads dag) < u32_limit
     \<and> (\<forall>(i, op) \<in> set (nodes dag). sum_list (map (bytes_read dag) (reads op)) + op_bytes op < i64_limit)"

lemma count_reads_total:
  assumes "length rs < u32_limit"
  shows "\<exists>m. fold_opt count_read rs Map.empty = Some m"
proof -
  let ?I = "\<lambda>(ys :: tensor_id list) (m :: tensor_id \<rightharpoonup> nat). \<forall>r c. m r = Some c \<longrightarrow> c \<le> length ys"
  have "\<exists>m. fold_opt count_read rs Map.empty = Some m \<and> ?I rs m"
  proof (rule fold_opt_total)
    fix ys y m assume I: "?I ys m" and pre: "\<exists>zs. rs = ys @ y # zs"
    let ?c = "case m y of Some c \<Rightarrow> c | None \<Rightarrow> 0"
    have "?c \<le> length ys" using I by (auto split: option.splits)
    with pre assms have "count_read y m = Some (m(y \<mapsto> ?c + 1))" by (auto simp: count_read_def Let_def)
    moreover have "?I (ys @ [y]) (m(y \<mapsto> ?c + 1))" using I \<open>?c \<le> length ys\<close> by (auto simp: le_Suc_eq)
    ultimately show "\<exists>m'. count_read y m = Some m' \<and> ?I (ys @ [y]) m'" by blast
  qed simp
  then show ?thesis by blast
qed

lemma checked_sum_i64_total:
  "\<forall>x \<in> set xs. 0 \<le> x \<Longrightarrow> 0 \<le> acc \<Longrightarrow> acc + sum_list xs < 2 ^ 63 \<Longrightarrow>
   fold_opt (\<lambda>x acc. checked_i64 (acc + x)) xs acc = Some (acc + sum_list xs)"
proof (induction xs arbitrary: acc)
  case (Cons x xs)
  have "0 \<le> sum_list xs" using Cons.prems(1) by (simp add: sum_list_nonneg)
  then have c: "checked_i64 (acc + x) = Some (acc + x)" using Cons.prems by simp
  show ?case unfolding fold_opt.simps c option.case
    using Cons.IH[of "acc + x"] Cons.prems by (simp add: add.assoc)
qed simp

lemma freed_by_bounds:
  assumes "freed_by dag m r = Some x" "bytes_read dag r < i64_limit"
  shows "0 \<le> x" "x \<le> int (bytes_read dag r)"
  using assms by (auto simp: freed_by_def bytes_read_def as_i64_small split: if_splits option.splits)

lemma freed_sum_bounds:
  "sum_list (map (bytes_read dag) rs) < i64_limit \<Longrightarrow>
   (\<forall>x \<in> set (List.map_filter (freed_by dag m) rs). 0 \<le> x)
   \<and> sum_list (List.map_filter (freed_by dag m) rs) \<le> int (sum_list (map (bytes_read dag) rs))"
proof (induction rs)
  case (Cons r rs)
  then show ?case
    using freed_by_bounds[of dag m r] by (cases "freed_by dag m r") (auto simp: map_filter_simps)
qed (simp add: map_filter_simps)

lemma score_total:
  assumes "sum_list (map (bytes_read dag) (reads op)) + op_bytes op < i64_limit"
  shows "\<exists>s. score dag m op = Some s"
proof -
  let ?xs = "List.map_filter (freed_by dag m) (reads op)"
  have b: "sum_list (map (bytes_read dag) (reads op)) < i64_limit" "op_bytes op < i64_limit"
    using assms by simp_all
  note f = freed_sum_bounds[OF b(1), of m]
  have "sum_list ?xs < 2 ^ 63" using f b(1) by (simp add: i64_limit_def)
  with f checked_sum_i64_total[of ?xs 0]
  have "fold_opt (\<lambda>x acc. checked_i64 (acc + x)) ?xs 0 = Some (sum_list ?xs)" by simp
  moreover have "0 \<le> sum_list ?xs" using f by (simp add: sum_list_nonneg)
  ultimately show ?thesis
    using \<open>sum_list ?xs < 2 ^ 63\<close> b(2) by (simp add: score_def as_i64_small i64_limit_def)
qed

lemma pick_op_total:
  assumes inv: "dag_inv dag" and bd: "dag_bounded dag" and R: "finite R" "R \<noteq> {}" "R \<subseteq> op_ids dag"
  shows "\<exists>i. pick_op dag m R = Some i"
proof -
  have "\<exists>c. candidate dag m u = Some c" if u: "u \<in> R" for u
  proof -
    obtain op where op: "map_of (nodes dag) u = Some op" using u R(3) op_ids_map_of by blast
    then have "sum_list (map (bytes_read dag) (reads op)) + op_bytes op < i64_limit"
      using bd by (auto simp: dag_bounded_def dest: map_of_SomeD)
    from score_total[OF this, of m] op show ?thesis by (auto simp: candidate_def)
  qed
  then have "\<forall>u \<in> set (sorted_list_of_set R). candidate dag m u = Some (the (candidate dag m u))"
    using R(1) by fastforce
  from those_map_Some[OF this] obtain ks where ks: "those (map (candidate dag m) (sorted_list_of_set R)) = Some ks"
    "length ks = length (sorted_list_of_set R)" by auto
  have "length ks \<noteq> 0" using R ks(2) by simp
  then show ?thesis by (cases ks) (auto simp: pick_op_def ks(1))
qed

lemma reorder_step_total:
  assumes inv: "dag_inv dag" and bd: "dag_bounded dag" and L: "loop_inv dag st" and ne: "ready st \<noteq> {}"
  shows "\<exists>st'. reorder_step dag st = Some st'"
proof -
  have R: "finite (ready st)" "ready st \<subseteq> op_ids dag" using L by (auto simp: loop_inv_def)
  obtain i where i: "pick_op dag (consumers st) (ready st) = Some i"
    using pick_op_total[OF inv bd R(1) ne R(2)] by blast
  then have "i \<in> op_ids dag" using pick_op_max(1)[OF inv i R(1)] R(2) by blast
  then obtain op where "map_of (nodes dag) i = Some op" by (auto simp: op_ids_map_of)
  with i show ?thesis by (simp add: reorder_step_def Let_def)
qed

lemma reorder_loop_total:
  assumes inv: "dag_inv dag" and bd: "dag_bounded dag"
  shows "loop_inv dag st \<Longrightarrow> card (op_ids dag) < fuel + length (schedule st) \<Longrightarrow>
    \<exists>res. reorder_loop fuel dag st = Some res"
proof (induction fuel arbitrary: st)
  case 0
  have "length (schedule st) = card (set (schedule st))" "set (schedule st) \<subseteq> op_ids dag"
    using 0 by (auto simp: loop_inv_def valid_prefix_def distinct_card)
  with 0 card_mono[OF finite_op_ids, of "set (schedule st)" dag] show ?case by simp
next
  case (Suc fuel)
  show ?case
  proof (cases "unscheduled st = {} \<or> ready st = {}")
    case False
    then obtain st' where st': "reorder_step dag st = Some st'"
      using reorder_step_total[OF inv bd Suc.prems(1)] by blast
    note n = reorder_step_inv[OF inv Suc.prems(1) st']
    from Suc.IH[OF n(1)] n(2) Suc.prems(2) st' show ?thesis by (auto split: if_splits)
  qed auto
qed

lemma reorder_total:
  assumes inv: "dag_inv dag" and bd: "dag_bounded dag"
  shows "\<exists>res. reorder dag = Some res"
proof -
  obtain m where m: "fold_opt count_read (all_reads dag) Map.empty = Some m"
    using count_reads_total bd by (auto simp: dag_bounded_def)
  then obtain st where st: "initial_state dag = Some st" by (simp add: initial_state_def Let_def)
  note i = initial_state_inv[OF inv st]
  have "card (op_ids dag) \<le> length (nodes dag)" unfolding op_ids_def
    by (metis card_length length_map set_map)
  then show ?thesis using reorder_loop_total[OF inv bd i(1), of "Suc (length (nodes dag))"] i(2) st
    by (simp add: reorder_def del: reorder_loop.simps)
qed

lemma reorder_result:
  assumes inv: "dag_inv dag" and run: "reorder dag = Some res"
  shows "(case res of Inr s \<Rightarrow> valid_schedule dag s
     | Inl (Cycle rem) \<Rightarrow> rem \<noteq> [] \<and> set rem \<subseteq> op_ids dag \<and> sorted rem
         \<and> (\<forall>i \<in> set rem. deps dag i \<inter> set rem \<noteq> {}))"
proof (cases "nodes dag = []")
  case True
  with run show ?thesis by (auto simp: reorder_def valid_schedule_def valid_prefix_def op_ids_def)
next
  case False
  with run obtain st where st: "initial_state dag = Some st"
    and l: "reorder_loop (Suc (length (nodes dag))) dag st = Some res"
    by (auto simp: reorder_def simp del: reorder_loop.simps split: option.splits)
  show ?thesis by (rule reorder_loop_result[OF inv initial_state_inv(1)[OF inv st] l])
qed

text \<open>
  C6. \<open>reorder\<close> is a complete topological sort: on a well-formed graph whose sizes fit the
  arithmetic it returns, either a schedule that runs every operation once and after all the
  producers of its reads, or a non-empty sorted list of operations each of which waits for
  another one of the list, and then no valid schedule exists.
\<close>

theorem reorder_correct:
  assumes inv: "dag_inv dag" and bd: "dag_bounded dag"
  shows "\<exists>res. reorder dag = Some res \<and>
    (case res of
       Inr s \<Rightarrow> valid_schedule dag s
     | Inl (Cycle rem) \<Rightarrow> rem \<noteq> [] \<and> sorted rem \<and> set rem \<subseteq> op_ids dag
         \<and> (\<forall>i \<in> set rem. deps dag i \<inter> set rem \<noteq> {}) \<and> (\<nexists>s. valid_schedule dag s))"
proof -
  obtain res where r: "reorder dag = Some res" using reorder_total[OF inv bd] by blast
  note x = reorder_result[OF inv r]
  show ?thesis
  proof (intro exI[of _ res] conjI r)
    show "case res of
       Inr s \<Rightarrow> valid_schedule dag s
     | Inl (Cycle rem) \<Rightarrow> rem \<noteq> [] \<and> sorted rem \<and> set rem \<subseteq> op_ids dag
         \<and> (\<forall>i \<in> set rem. deps dag i \<inter> set rem \<noteq> {}) \<and> (\<nexists>s. valid_schedule dag s)"
    proof (cases res)
      case (Inl e)
      then obtain rem where e: "res = Inl (Cycle rem)" by (cases e) simp
      with x have rem: "rem \<noteq> []" "set rem \<subseteq> op_ids dag" "sorted rem"
        "\<forall>i \<in> set rem. deps dag i \<inter> set rem \<noteq> {}" by simp_all
      from blocked_no_schedule[of "set rem" dag] rem have "\<nexists>s. valid_schedule dag s" by auto
      with rem show ?thesis by (simp add: e)
    qed (use x in simp)
  qed
qed

section \<open>A diamond\<close>

text \<open>Four operations: 1 feeds 2 and 3, and 4 joins them; a second graph with a cycle.\<close>

abbreviation diamond :: op_dag where
  "diamond \<equiv> \<lparr>nodes =
     [(OpId 4, \<lparr>op_ident = OpId 4, reads = [TensorId 12, TensorId 13], writes = TensorId 14, op_bytes = 4, op_align = 1\<rparr>),
      (OpId 3, \<lparr>op_ident = OpId 3, reads = [TensorId 11], writes = TensorId 13, op_bytes = 4, op_align = 1\<rparr>),
      (OpId 2, \<lparr>op_ident = OpId 2, reads = [TensorId 11], writes = TensorId 12, op_bytes = 16, op_align = 1\<rparr>),
      (OpId 1, \<lparr>op_ident = OpId 1, reads = [TensorId 10], writes = TensorId 11, op_bytes = 8, op_align = 1\<rparr>)],
     producer_of = [TensorId 11 \<mapsto> OpId 1, TensorId 12 \<mapsto> OpId 2, TensorId 13 \<mapsto> OpId 3, TensorId 14 \<mapsto> OpId 4]\<rparr>"

abbreviation two_cycle :: op_dag where
  "two_cycle \<equiv> \<lparr>nodes =
     [(OpId 1, \<lparr>op_ident = OpId 1, reads = [TensorId 12], writes = TensorId 11, op_bytes = 8, op_align = 1\<rparr>),
      (OpId 2, \<lparr>op_ident = OpId 2, reads = [TensorId 11], writes = TensorId 12, op_bytes = 8, op_align = 1\<rparr>)],
     producer_of = [TensorId 11 \<mapsto> OpId 1, TensorId 12 \<mapsto> OpId 2]\<rparr>"

lemma diamond_inv: "dag_inv diamond" "dag_bounded diamond" "dag_inv two_cycle" "dag_bounded two_cycle"
  by (auto simp: dag_inv_def dag_bounded_def all_reads_def bytes_read_def limit_defs split: if_splits)

theorem reorder_correct_witness:
  "(case reorder diamond of Some (Inr s) \<Rightarrow> s = [OpId 1, OpId 3, OpId 2, OpId 4] \<and> valid_schedule diamond s | _ \<Rightarrow> False)
   \<and> (\<nexists>s. valid_schedule two_cycle s)"
proof
  have a: "case reorder diamond of Some (Inr s) \<Rightarrow> s = [OpId 1, OpId 3, OpId 2, OpId 4] | _ \<Rightarrow> False" by code_simp
  obtain s where s: "reorder diamond = Some (Inr s)" using a by (auto split: option.splits sum.splits)
  with a reorder_correct[OF diamond_inv(1,2)]
  show "case reorder diamond of Some (Inr s) \<Rightarrow> s = [OpId 1, OpId 3, OpId 2, OpId 4] \<and> valid_schedule diamond s | _ \<Rightarrow> False"
    unfolding s by simp
  have b: "case reorder two_cycle of Some (Inl (Cycle rem)) \<Rightarrow> rem = [OpId 1, OpId 2] | _ \<Rightarrow> False" by code_simp
  obtain rem where r: "reorder two_cycle = Some (Inl (Cycle rem))"
    using b by (auto split: option.splits sum.splits reorder_error.splits)
  with reorder_correct[OF diamond_inv(3,4)] show "\<nexists>s. valid_schedule two_cycle s" unfolding r by simp
qed

section \<open>The lifetimes of a valid schedule\<close>

definition node_at :: "op_dag \<Rightarrow> op_id list \<Rightarrow> nat \<Rightarrow> op_node" where
  "node_at dag s k = the (map_of (nodes dag) (s ! k))"

definition op_events :: "op_dag \<Rightarrow> op_id list \<Rightarrow> nat \<Rightarrow> lifetime_event list" where
  "op_events dag s k =
     (let op = node_at dag s k in
      Def (writes op) k (op_bytes op) (op_align op) # map (\<lambda>r. Use r k) (reads op))"

definition schedule_events :: "op_dag \<Rightarrow> op_id list \<Rightarrow> lifetime_event list" where
  "schedule_events dag s =
     map (\<lambda>e. Def e 0 0 1) (external dag) @ concat (map (op_events dag s) [0..<length s])"

lemma record_trace_append:
  "record_trace t (a @ b) = (case record_trace t a of Inl e \<Rightarrow> Inl e | Inr t' \<Rightarrow> record_trace t' b)"
  by (induction a arbitrary: t) (auto split: sum.splits)

lemma fold_use_trace:
  "record_trace t (map (\<lambda>r. Use r k) rs) = Inr t' \<Longrightarrow> fold (use_or_skip k) rs t = t'"
  by (induction rs arbitrary: t) (auto simp: use_or_skip_def split: sum.splits)

lemma fold_def_trace:
  "record_trace t (map (\<lambda>e. Def e 0 0 1) es) = Inr (fold (\<lambda>ext t. record_def t ext 0 0) es t)"
  by (induction es arbitrary: t) (auto simp: record_def_def)

lemma node_at_Some:
  "valid_prefix dag s \<Longrightarrow> k < length s \<Longrightarrow> map_of (nodes dag) (s ! k) = Some (node_at dag s k)"
proof -
  assume "valid_prefix dag s" "k < length s"
  then have "s ! k \<in> op_ids dag" by (auto simp: valid_prefix_def)
  then show ?thesis by (auto simp: op_ids_map_of node_at_def)
qed

lemma record_op_trace:
  assumes "valid_prefix dag s" "k < length s" "k < u32_limit" "record_trace t (op_events dag s k) = Inr t'"
  shows "record_op dag (k, s ! k) t = Some t'"
  using assms(4) fold_use_trace[of _ k "reads (node_at dag s k)" t']
  by (simp add: record_op_def node_at_Some[OF assms(1,2)] op_events_def Let_def assms(3))

lemma fold_opt_append:
  "fold_opt f (xs @ ys) s = (case fold_opt f xs s of None \<Rightarrow> None | Some s' \<Rightarrow> fold_opt f ys s')"
  by (induction xs arbitrary: s) (auto split: option.splits)

lemma record_ops_trace:
  assumes v: "valid_prefix dag s" and lim: "length s \<le> u32_limit"
  shows "n \<le> length s \<Longrightarrow> record_trace t (concat (map (op_events dag s) [0..<n])) = Inr t' \<Longrightarrow>
    fold_opt (record_op dag) (enumerate 0 (take n s)) t = Some t'"
proof (induction n arbitrary: t')
  case (Suc n)
  then obtain t1 where t1: "record_trace t (concat (map (op_events dag s) [0..<n])) = Inr t1"
    "record_trace t1 (op_events dag s n) = Inr t'" by (auto simp: record_trace_append split: sum.splits)
  have "enumerate 0 (take (Suc n) s) = enumerate 0 (take n s) @ [(n, s ! n)]"
    using Suc.prems(1) by (simp add: take_Suc_conv_app_nth enumerate_append_eq)
  with Suc.IH[OF _ t1(1)] Suc.prems(1) lim record_op_trace[OF v _ _ t1(2)] show ?case
    by (simp add: fold_opt_append)
qed simp

lemma defined_first_append:
  "defined_first D (a @ b) \<longleftrightarrow> defined_first D a \<and> defined_first (D \<union> ev_id ` set a) b"
  by (induction a arbitrary: D) (auto simp: insert_commute Un_commute)

lemma defined_first_uses: "set rs \<subseteq> D \<Longrightarrow> defined_first D (map (\<lambda>r. Use r k) rs)"
  by (induction rs arbitrary: D) (auto simp: insert_absorb)

lemma read_produced_before:
  assumes inv: "dag_inv dag" and v: "valid_prefix dag s" and k: "k < length s"
    and r: "r \<in> set (reads (node_at dag s k))"
  shows "r \<in> set (external dag) \<or> (\<exists>j < k. writes (node_at dag s j) = r)"
proof (cases "producer_of dag r")
  case None
  have "(s ! k, node_at dag s k) \<in> set (nodes dag)" using node_at_Some[OF v k] by (rule map_of_SomeD)
  with None r show ?thesis by (force simp: external_iff)
next
  case (Some p)
  then have "p \<in> deps dag (s ! k)" using node_at_Some[OF v k] r by (auto simp: deps_def)
  then obtain j where j: "j < k" "s ! j = p" using v k by (force simp: valid_prefix_def in_set_conv_nth)
  obtain op where "map_of (nodes dag) p = Some op" "writes op = r"
    using Some dag_inv_producer[OF inv] by blast
  with j show ?thesis by (auto simp: node_at_def)
qed

lemma schedule_events_ids:
  "ev_id ` set (concat (map (op_events dag s) [0..<n])) \<supseteq> (\<lambda>j. writes (node_at dag s j)) ` {..<n}"
  by (force simp: op_events_def Let_def)

lemma schedule_defined_first:
  assumes inv: "dag_inv dag" and v: "valid_prefix dag s"
  shows "n \<le> length s \<Longrightarrow> defined_first (set (external dag)) (concat (map (op_events dag s) [0..<n]))"
proof (induction n)
  case (Suc n)
  let ?D = "set (external dag) \<union> ev_id ` set (concat (map (op_events dag s) [0..<n]))"
  have "set (reads (node_at dag s n)) \<subseteq> insert (writes (node_at dag s n)) ?D"
    using read_produced_before[OF inv v, of n] Suc.prems schedule_events_ids[of dag s n] by fastforce
  then have "defined_first ?D (op_events dag s n)"
    by (simp add: op_events_def Let_def defined_first_uses)
  with Suc show ?case by (simp add: defined_first_append)
qed simp

lemma defined_first_defs: "defined_first D (map (\<lambda>e. Def e 0 0 a) es)"
  by (induction es arbitrary: D) auto

lemma lifetime_for_trace:
  assumes inv: "dag_inv dag" and v: "valid_prefix dag s" and lim: "length s \<le> u32_limit"
  obtains t where "lifetime_for dag s = Some t" "record_trace [] (schedule_events dag s) = Inr t"
proof -
  have "defined_first {} (schedule_events dag s)"
    using schedule_defined_first[OF inv v, of "length s"]
    by (simp add: schedule_events_def defined_first_append defined_first_defs image_image)
  then obtain t where t: "record_trace [] (schedule_events dag s) = Inr t"
    using record_trace_represents[of "[]" "[]" "schedule_events dag s"]
    by (cases "record_trace [] (schedule_events dag s)")
      (auto simp: represents_def envelope_def split: lifetime_error.splits)
  then have "lifetime_for dag s = Some t"
    using record_ops_trace[OF v lim, of "length s" _ t]
    by (simp add: schedule_events_def record_trace_append fold_def_trace[unfolded One_nat_def] lifetime_for_def)
  with t that show ?thesis by blast
qed

text \<open>What an event says about the interval of its tensor.\<close>

lemma envelope_event:
  assumes t: "record_trace [] es = Inr t" and e: "e \<in> set es" "ev_id e = x"
  shows "\<exists>iv. (x, iv) \<in> set t \<and> ev_step e \<le> last_use iv \<and> def_bytes e \<le> iv_bytes iv \<and> def_align e \<le> iv_align iv
    \<and> (\<forall>d \<in> set es. is_def d \<and> ev_id d = x \<longrightarrow> iv_def iv \<le> ev_step d)"
proof -
  have R: "represents t es"
    using record_trace_represents[of "[]" "[]" es] t by (simp add: represents_def envelope_def)
  have mem: "e \<in> set (events_of x es)" using e by simp
  then obtain iv where iv: "envelope (events_of x es) = Some iv" by (cases "events_of x es") (auto simp: envelope_def)
  then have "map_of t x = Some iv" using R by (simp add: represents_def)
  then have "(x, iv) \<in> set t" by (rule map_of_SomeD)
  moreover have "ev_step e \<le> last_use iv" "def_bytes e \<le> iv_bytes iv" "def_align e \<le> iv_align iv"
    using iv mem by (auto simp: envelope_def split: if_splits intro!: Max_ge)
  moreover have "iv_def iv \<le> ev_step d" if "d \<in> set es" "is_def d" "ev_id d = x" for d
    using iv that by (auto simp: envelope_def split: if_splits intro!: Min_le)
  ultimately show ?thesis by blast
qed

definition use_event :: "op_dag \<Rightarrow> op_id list \<Rightarrow> nat \<Rightarrow> tensor_id \<Rightarrow> bool" where
  "use_event dag s k x \<longleftrightarrow> x = writes (node_at dag s k) \<or> x \<in> set (reads (node_at dag s k))"

text \<open>A tensor is available from step \<open>j\<close>: an external input from the start, a result once written.\<close>

definition available_from :: "op_dag \<Rightarrow> op_id list \<Rightarrow> nat \<Rightarrow> tensor_id \<Rightarrow> bool" where
  "available_from dag s j x \<longleftrightarrow> x \<in> set (external dag) \<or> (j < length s \<and> x = writes (node_at dag s j))"

lemma live_interval:
  assumes t: "record_trace [] (schedule_events dag s) = Inr t"
    and av: "available_from dag s j x" and use: "m < length s" "use_event dag s m x" and k: "j \<le> k" "k \<le> m"
  shows "\<exists>iv. (x, iv) \<in> set t \<and> live_at k iv"
proof -
  have "\<exists>e \<in> set (op_events dag s m). ev_id e = x \<and> ev_step e = m"
    using use by (auto simp: use_event_def op_events_def Let_def)
  then obtain e where em: "e \<in> set (op_events dag s m)" and e: "ev_id e = x" "ev_step e = m"
    by blast
  from em use(1) have "e \<in> set (schedule_events dag s)" by (auto simp: schedule_events_def)
  note e = this e
  obtain d where d: "d \<in> set (schedule_events dag s)" "is_def d" "ev_id d = x" "ev_step d \<le> j"
  proof (cases "x \<in> set (external dag)")
    case True
    then have "Def x 0 0 1 \<in> set (schedule_events dag s)" by (auto simp: schedule_events_def)
    from that[OF this] show ?thesis by simp
  next
    case False
    with av have j: "j < length s" "x = writes (node_at dag s j)" by (auto simp: available_from_def)
    then have "Def x j (op_bytes (node_at dag s j)) (op_align (node_at dag s j)) \<in> set (schedule_events dag s)"
      by (auto simp: schedule_events_def op_events_def Let_def)
    from that[OF this] show ?thesis by simp
  qed
  obtain iv where iv: "(x, iv) \<in> set t" "ev_step e \<le> last_use iv"
    "\<forall>d \<in> set (schedule_events dag s). is_def d \<and> ev_id d = x \<longrightarrow> iv_def iv \<le> ev_step d"
    using envelope_event[OF t e(1,2)] by blast
  then have "iv_def iv \<le> ev_step d" using d by blast
  with iv(1,2) d(4) e(3) k show ?thesis by (auto simp: live_at_def)
qed

lemma written_interval:
  assumes t: "record_trace [] (schedule_events dag s) = Inr t" and k: "k < length s"
  shows "\<exists>iv. (writes (node_at dag s k), iv) \<in> set t \<and> op_bytes (node_at dag s k) \<le> iv_bytes iv
    \<and> op_align (node_at dag s k) \<le> iv_align iv"
proof -
  let ?op = "node_at dag s k"
  have "Def (writes ?op) k (op_bytes ?op) (op_align ?op) \<in> set (schedule_events dag s)"
    using k by (auto simp: schedule_events_def op_events_def Let_def)
  from envelope_event[OF t this] show ?thesis by auto
qed


section \<open>Executing a schedule in shared slots\<close>

text \<open>
  The requirement on a memory plan: between becoming available and its last read, no tensor has
  its slot overwritten by the result of another operation.
\<close>

definition available_before :: "op_dag \<Rightarrow> op_id list \<Rightarrow> nat \<Rightarrow> tensor_id \<Rightarrow> bool" where
  "available_before dag s k x \<longleftrightarrow> x \<in> set (external dag) \<or> (\<exists>j < k. x = writes (node_at dag s j))"

definition no_clobber :: "op_dag \<Rightarrow> op_id list \<Rightarrow> (tensor_id \<Rightarrow> 'slot) \<Rightarrow> bool" where
  "no_clobber dag s slot \<longleftrightarrow>
     (\<forall>k m x. k < m \<and> m < length s \<and> x \<in> set (reads (node_at dag s m)) \<and> available_before dag s k x
        \<and> x \<noteq> writes (node_at dag s k) \<longrightarrow> slot x \<noteq> slot (writes (node_at dag s k)))"

text \<open>
  The kernel of an operation is a parameter \<open>f\<close>: the value it computes from the values read.
  \<open>run_tensors\<close> keeps every tensor in a place of its own, \<open>run_slots\<close> in the slot of the plan.
\<close>

definition run_tensors ::
    "(op_node \<Rightarrow> 'v list \<Rightarrow> 'v) \<Rightarrow> op_node list \<Rightarrow> (tensor_id \<Rightarrow> 'v) \<Rightarrow> tensor_id \<Rightarrow> 'v" where
  "run_tensors f ops env = fold (\<lambda>op env. env(writes op := f op (map env (reads op)))) ops env"

definition run_slots ::
    "(op_node \<Rightarrow> 'v list \<Rightarrow> 'v) \<Rightarrow> (tensor_id \<Rightarrow> 'slot) \<Rightarrow> op_node list \<Rightarrow> ('slot \<Rightarrow> 'v) \<Rightarrow> 'slot \<Rightarrow> 'v" where
  "run_slots f slot ops mem =
     fold (\<lambda>op mem. mem(slot (writes op) := f op (map (\<lambda>r. mem (slot r)) (reads op)))) ops mem"

definition first_ops :: "op_dag \<Rightarrow> op_id list \<Rightarrow> nat \<Rightarrow> op_node list" where
  "first_ops dag s k = map (node_at dag s) [0..<k]"

lemma run_tensors_Suc:
  "run_tensors f (first_ops dag s (Suc k)) env =
     (let e = run_tensors f (first_ops dag s k) env; op = node_at dag s k
      in e(writes op := f op (map e (reads op))))"
  by (simp add: run_tensors_def first_ops_def Let_def)

lemma run_slots_Suc:
  "run_slots f slot (first_ops dag s (Suc k)) mem =
     (let e = run_slots f slot (first_ops dag s k) mem; op = node_at dag s k
      in e(slot (writes op) := f op (map (\<lambda>r. e (slot r)) (reads op))))"
  by (simp add: run_slots_def first_ops_def Let_def)

lemma reads_available:
  "dag_inv dag \<Longrightarrow> valid_prefix dag s \<Longrightarrow> k < length s \<Longrightarrow> r \<in> set (reads (node_at dag s k)) \<Longrightarrow>
   available_before dag s k r"
  using read_produced_before by (fastforce simp: available_before_def)

text \<open>The simulation: a tensor that is still read has the same value in its slot.\<close>

lemma slots_simulate:
  assumes inv: "dag_inv dag" and v: "valid_prefix dag s" and nc: "no_clobber dag s slot"
    and ini: "\<forall>x \<in> set (external dag). mem (slot x) = env x"
  shows "k \<le> m \<Longrightarrow> m < length s \<Longrightarrow> x \<in> set (reads (node_at dag s m)) \<Longrightarrow> available_before dag s k x \<Longrightarrow>
    run_slots f slot (first_ops dag s k) mem (slot x) = run_tensors f (first_ops dag s k) env x"
proof (induction k arbitrary: m x)
  case 0
  then have "x \<in> set (external dag)" by (simp add: available_before_def)
  with ini show ?case by (simp add: run_slots_def run_tensors_def first_ops_def)
next
  case (Suc k)
  let ?op = "node_at dag s k"
  let ?m = "run_slots f slot (first_ops dag s k) mem" and ?e = "run_tensors f (first_ops dag s k) env"
  have "?m (slot r) = ?e r" if "r \<in> set (reads ?op)" for r
    using Suc.IH[of k r] that Suc.prems reads_available[OF inv v, of k r] by simp
  then have "map (\<lambda>r. ?m (slot r)) (reads ?op) = map ?e (reads ?op)" by simp
  then have val: "f ?op (map (\<lambda>r. ?m (slot r)) (reads ?op)) = f ?op (map ?e (reads ?op))" by (rule arg_cong)
  show ?case
  proof (cases "x = writes ?op")
    case True
    then show ?thesis by (simp add: run_tensors_Suc run_slots_Suc Let_def val)
  next
    case False
    then have av: "available_before dag s k x"
      using Suc.prems(4) by (auto simp: available_before_def less_Suc_eq)
    have "slot x \<noteq> slot (writes ?op)"
      using nc Suc.prems False av unfolding no_clobber_def by (meson Suc_le_lessD)
    with False Suc.IH[of m x] Suc.prems av show ?thesis
      by (simp add: run_tensors_Suc run_slots_Suc Let_def)
  qed
qed

lemma slots_compute_results:
  assumes inv: "dag_inv dag" and v: "valid_prefix dag s" and nc: "no_clobber dag s slot"
    and ini: "\<forall>x \<in> set (external dag). mem (slot x) = env x" and k: "k < length s"
  shows "run_slots f slot (first_ops dag s (Suc k)) mem (slot (writes (node_at dag s k)))
    = run_tensors f (first_ops dag s (Suc k)) env (writes (node_at dag s k))"
proof -
  let ?op = "node_at dag s k"
  have "map (\<lambda>r. run_slots f slot (first_ops dag s k) mem (slot r)) (reads ?op)
      = map (run_tensors f (first_ops dag s k) env) (reads ?op)"
    using slots_simulate[OF inv v nc ini order_refl k] reads_available[OF inv v k] by simp
  then show ?thesis unfolding run_tensors_Suc run_slots_Suc Let_def by (simp del: map_eq_conv)
qed

lemma record_trace_inv: "record_trace [] es = Inr t \<Longrightarrow> table_inv t"
  using record_trace_represents[of "[]" "[]" es] by (simp add: represents_def envelope_def)

text \<open>Every planner that keeps the slot contract satisfies the requirement.\<close>

context slot_planner
begin

lemma plan_no_clobber:
  assumes t: "record_trace [] (schedule_events dag s) = Inr t" and p: "pl t = Some r"
  shows "no_clobber dag s (slot_of r)"
  unfolding no_clobber_def
proof (intro allI impI)
  fix k m x
  assume a: "k < m \<and> m < length s \<and> x \<in> set (reads (node_at dag s m)) \<and> available_before dag s k x
        \<and> x \<noteq> writes (node_at dag s k)"
  let ?w = "writes (node_at dag s k)"
  obtain j where "j \<le> k" "available_from dag s j x"
    using a by (auto simp: available_before_def available_from_def intro: less_imp_le)
  then obtain iv where iv: "(x, iv) \<in> set t" "live_at k iv"
    using live_interval[OF t, of j x m k] a by (auto simp: use_event_def)
  obtain iw where iw: "(?w, iw) \<in> set t" "live_at k iw"
    using live_interval[OF t, of k ?w k k] a by (auto simp: use_event_def available_from_def)
  show "slot_of r x \<noteq> slot_of r ?w"
    using slot_mates_disjoint[OF record_trace_inv[OF t] p iv(1) iw(1)] live_at_overlaps[OF iv(2) iw(2)] a by blast
qed

end

text \<open>
  A plan for a reordered graph computes the right results: whatever the kernels compute, if
  the external inputs are in their slots at the start, then running the chosen schedule with
  every tensor in the slot of the plan leaves after each operation, in the slot of its result,
  the value that a run with unlimited memory gives; the slot has room for it.
\<close>

theorem plan_with_reorder_correct:
  assumes inv: "dag_inv dag" and len: "length (nodes dag) \<le> u32_limit"
    and run: "plan_with_reorder dag = Some (Inr r)" and s: "reorder dag = Some (Inr s)"
    and ini: "\<forall>x \<in> set (external dag). mem (slot_of r x) = env x" and k: "k < length s"
  shows "valid_schedule dag s
    \<and> run_slots f (slot_of r) (first_ops dag s (Suc k)) mem (slot_of r (writes (node_at dag s k)))
        = run_tensors f (first_ops dag s (Suc k)) env (writes (node_at dag s k))
    \<and> (\<exists>c. slot_of r (writes (node_at dag s k)) = Some c \<and> c < slot_count r
        \<and> op_bytes (node_at dag s k) \<le> slot_bytes (slots r ! c))"
proof -
  have v: "valid_schedule dag s" using reorder_result[OF inv s] by simp
  then have vp: "valid_prefix dag s" by (simp add: valid_schedule_def)
  have "length s = card (op_ids dag)" using v by (metis distinct_card valid_prefix_def valid_schedule_def)
  then have "length s \<le> u32_limit" using len card_length[of "map fst (nodes dag)"] by (simp add: op_ids_def)
  then obtain t where t: "lifetime_for dag s = Some t" "record_trace [] (schedule_events dag s) = Inr t"
    using lifetime_for_trace[OF inv vp] by blast
  have p: "plan t = Some r" using run s t(1) by (auto simp: plan_with_reorder_def split: option.splits)
  obtain iv where "(writes (node_at dag s k), iv) \<in> set t" "op_bytes (node_at dag s k) \<le> iv_bytes iv"
    using written_interval[OF t(2) k] by blast
  with ffd.slot_accommodates[OF record_trace_inv[OF t(2)] p] have
    "\<exists>c. slot_of r (writes (node_at dag s k)) = Some c \<and> c < slot_count r
        \<and> op_bytes (node_at dag s k) \<le> slot_bytes (slots r ! c)" by (force simp: slot_count_def)
  with v slots_compute_results[OF inv vp ffd.plan_no_clobber[OF t(2) p] ini k] show ?thesis by blast
qed

theorem plan_with_reorder_correct_witness:
  "case plan_with_reorder diamond of
     Some (Inr r) \<Rightarrow> map slot_bytes (slots r) = [16, 8, 4]
       \<and> run_slots (\<lambda>op vs. sum_list vs + raw_op (op_ident op)) (slot_of r)
             (first_ops diamond [OpId 1, OpId 3, OpId 2, OpId 4] 4) (\<lambda>_. 5) (slot_of r (TensorId 14))
         = run_tensors (\<lambda>op vs. sum_list vs + raw_op (op_ident op))
             (first_ops diamond [OpId 1, OpId 3, OpId 2, OpId 4] 4) (\<lambda>_. 5) (TensorId 14)
   | _ \<Rightarrow> False"
proof -
  let ?s = "[OpId 1, OpId 3, OpId 2, OpId 4]"
  have a: "case plan_with_reorder diamond of Some (Inr r) \<Rightarrow> map slot_bytes (slots r) = [16, 8, 4] | _ \<Rightarrow> False"
    by code_simp
  have b: "case reorder diamond of Some (Inr s) \<Rightarrow> s = ?s | _ \<Rightarrow> False" by code_simp
  from a obtain r where r: "plan_with_reorder diamond = Some (Inr r)" by (auto split: option.splits sum.splits)
  from b have s: "reorder diamond = Some (Inr ?s)" by (auto split: option.splits sum.splits)
  have n: "writes (node_at diamond ?s 3) = TensorId 14" "(3::nat) < length ?s" by (simp_all add: node_at_def)
  have "length (nodes diamond) \<le> u32_limit" by (simp add: limit_defs)
  note c = plan_with_reorder_correct[OF diamond_inv(1) this r s, of "\<lambda>_. 5" "\<lambda>_. 5" 3
      "\<lambda>op vs. sum_list vs + raw_op (op_ident op)", OF _ n(2), unfolded n(1)]
  have e: "Suc 3 = (4::nat)" by simp
  from c[unfolded e] a show ?thesis unfolding r option.case sum.case by blast
qed

end
