(* ===== verification/Inplace.thy ===== *)
theory Inplace
  imports Allocator
begin

text \<open>
  In-place rewriting of a memory plan: \<open>rustorch-planner/src/inplace.rs\<close>.  A hint says that an
  operation may write its output over one of its inputs; accepted hints put both tensors in one
  slot.  \<open>None\<close> stands for a panic (a failing \<open>expect\<close> or an overflow in the allocator).
\<close>

section \<open>Hints\<close>

record inplace_hint =
  hint_input :: tensor_id
  hint_output :: tensor_id
  hint_step :: nat

record inplace_blockers =
  has_hook :: "tensor_id set"
  is_view :: "tensor_id set"

definition mark_hook :: "inplace_blockers \<Rightarrow> tensor_id \<Rightarrow> inplace_blockers" where
  "mark_hook b i = b\<lparr>has_hook := insert i (has_hook b)\<rparr>"

definition mark_view :: "inplace_blockers \<Rightarrow> tensor_id \<Rightarrow> inplace_blockers" where
  "mark_view b i = b\<lparr>is_view := insert i (is_view b)\<rparr>"

definition is_hook_free :: "inplace_blockers \<Rightarrow> tensor_id \<Rightarrow> bool" where
  "is_hook_free b i \<longleftrightarrow> i \<notin> has_hook b"

definition is_not_view :: "inplace_blockers \<Rightarrow> tensor_id \<Rightarrow> bool" where
  "is_not_view b i \<longleftrightarrow> i \<notin> is_view b"

datatype inplace_decision = Apply | BlockedByMissingId | BlockedByLastUse | BlockedByHook | BlockedByView

definition evaluate_hint ::
    "lifetime_table \<Rightarrow> inplace_hint \<Rightarrow> inplace_blockers \<Rightarrow> inplace_decision" where
  "evaluate_hint table h blockers =
     (case map_of table (hint_input h) of
        None \<Rightarrow> BlockedByMissingId
      | Some input \<Rightarrow>
          if map_of table (hint_output h) = None then BlockedByMissingId
          else if last_use input \<noteq> hint_step h then BlockedByLastUse
          else if \<not> is_hook_free blockers (hint_input h) then BlockedByHook
          else if \<not> is_not_view blockers (hint_input h) then BlockedByView
          else Apply)"

section \<open>Planning with hints\<close>

text \<open>Step 1: the two filters of the hints, with the sets of claimed inputs and outputs.\<close>

fun select_hints ::
    "tensor_id set \<Rightarrow> tensor_id set \<Rightarrow> inplace_hint list \<Rightarrow> inplace_hint list" where
  "select_hints ins outs [] = []"
| "select_hints ins outs (h # hs) =
     (if hint_input h \<in> ins \<or> hint_output h \<in> outs \<or> hint_output h \<in> ins \<or> hint_input h \<in> outs
      then select_hints ins outs hs
      else h # select_hints (insert (hint_input h) ins) (insert (hint_output h) outs) hs)"

definition safe_hints ::
    "lifetime_table \<Rightarrow> inplace_hint list \<Rightarrow> inplace_blockers \<Rightarrow> inplace_hint list" where
  "safe_hints table hints blockers =
     select_hints {} {} (filter (\<lambda>h. evaluate_hint table h blockers = Apply) hints)"

text \<open>Step 2: the interval of the input, extended to cover the output.\<close>

definition merged_interval :: "interval \<Rightarrow> interval \<Rightarrow> interval" where
  "merged_interval i u =
     \<lparr>iv_def = iv_def i, last_use = max (last_use i) (last_use u),
      iv_bytes = max (iv_bytes i) (iv_bytes u), iv_align = max (iv_align i) (iv_align u)\<rparr>"

definition merge_hint :: "lifetime_table \<Rightarrow> inplace_hint \<Rightarrow> (tensor_id \<times> interval) option" where
  "merge_hint table h =
     (case (map_of table (hint_input h), map_of table (hint_output h)) of
        (Some i, Some u) \<Rightarrow> Some (hint_input h, merged_interval i u)
      | _ \<Rightarrow> None)"

definition rewrite_entry ::
    "tensor_id set \<Rightarrow> (tensor_id \<rightharpoonup> interval) \<Rightarrow> tensor_id \<times> interval \<Rightarrow> lifetime_table \<Rightarrow> lifetime_table" where
  "rewrite_entry outs merged x t =
     (let ident = fst x in
      if ident \<in> outs then t
      else let final_iv = (case merged ident of Some m \<Rightarrow> m | None \<Rightarrow> snd x);
               t' = record_def_with_align t ident (iv_def final_iv) (iv_bytes final_iv) (iv_align final_iv)
        in case record_use t' ident (last_use final_iv) of Inl _ \<Rightarrow> t' | Inr t'' \<Rightarrow> t'')"

definition rewrite_table :: "lifetime_table \<Rightarrow> inplace_hint list \<Rightarrow> lifetime_table option" where
  "rewrite_table table safe =
     (case those (map (merge_hint table) safe) of
        None \<Rightarrow> None
      | Some pairs \<Rightarrow>
          Some (fold (rewrite_entry (set (map hint_output safe)) (map_of (rev pairs))) table []))"

text \<open>Step 4: an aliased output joins the slot of its input.\<close>

definition stitch :: "inplace_hint \<Rightarrow> plan_result \<Rightarrow> plan_result option" where
  "stitch h r =
     (case slot_of r (hint_input h) of
        None \<Rightarrow> None
      | Some k \<Rightarrow>
          if k < length (slots r)
          then Some \<lparr>slots = (slots r)[k := push_aliased_tenant (slots r ! k) (hint_output h)],
                     assignment = assignment r @ [(hint_output h, k)]\<rparr>
          else None)"

definition plan_with_inplace ::
    "lifetime_table \<Rightarrow> inplace_hint list \<Rightarrow> inplace_blockers \<Rightarrow> plan_result option" where
  "plan_with_inplace table hints blockers =
     (let safe = safe_hints table hints blockers in
      case rewrite_table table safe of
        None \<Rightarrow> None
      | Some rewritten \<Rightarrow>
          (case plan rewritten of
             None \<Rightarrow> None
           | Some result \<Rightarrow> fold_opt stitch safe result))"

section \<open>Selected hints\<close>

lemma evaluate_hint_Apply:
  "evaluate_hint t h b = Apply \<longleftrightarrow>
     (\<exists>i u. map_of t (hint_input h) = Some i \<and> map_of t (hint_output h) = Some u
        \<and> last_use i = hint_step h) \<and> hint_input h \<notin> has_hook b \<and> hint_input h \<notin> is_view b"
  by (auto simp: evaluate_hint_def is_hook_free_def is_not_view_def split: option.splits if_splits)

lemma select_hints_fresh:
  "h \<in> set (select_hints ins outs hs) \<Longrightarrow>
   hint_input h \<notin> ins \<and> hint_input h \<notin> outs \<and> hint_output h \<notin> ins \<and> hint_output h \<notin> outs"
  by (induction ins outs hs rule: select_hints.induct) (auto split: if_splits)

lemma select_hints_subset: "set (select_hints ins outs hs) \<subseteq> set hs"
  by (induction ins outs hs rule: select_hints.induct) auto

lemma select_hints_distinct:
  "distinct (map hint_input (select_hints ins outs hs))
   \<and> distinct (map hint_output (select_hints ins outs hs))"
  by (induction ins outs hs rule: select_hints.induct) (auto dest: select_hints_fresh)

lemma select_hints_disjoint:
  "\<forall>h \<in> set hs. hint_input h \<noteq> hint_output h \<Longrightarrow>
   g \<in> set (select_hints ins outs hs) \<Longrightarrow> h \<in> set (select_hints ins outs hs) \<Longrightarrow>
   hint_input g \<noteq> hint_output h"
  by (induction ins outs hs rule: select_hints.induct) (auto split: if_splits dest: select_hints_fresh)

lemma safe_hints_facts:
  assumes "\<forall>h \<in> set hints. hint_input h \<noteq> hint_output h"
  shows "distinct (map hint_input (safe_hints t hints b))"
    and "distinct (map hint_output (safe_hints t hints b))"
    and "g \<in> set (safe_hints t hints b) \<Longrightarrow> h \<in> set (safe_hints t hints b) \<Longrightarrow> hint_input g \<noteq> hint_output h"
    and "h \<in> set (safe_hints t hints b) \<Longrightarrow> h \<in> set hints \<and> evaluate_hint t h b = Apply"
  using select_hints_distinct select_hints_disjoint[where ins = "{}" and outs = "{}"
      and hs = "filter (\<lambda>h. evaluate_hint t h b = Apply) hints"] assms select_hints_subset
  unfolding safe_hints_def by fastforce+

section \<open>The rewritten table\<close>

lemma update_fresh: "i \<notin> fst ` set t \<Longrightarrow> AList.update i v t = t @ [(i, v)]"
  by (induction t) (auto split: if_splits)

lemma update_last: "i \<notin> fst ` set t \<Longrightarrow> AList.update i v (t @ [(i, w)]) = t @ [(i, v)]"
  by (induction t) (auto split: if_splits)

abbreviation final_interval :: "(tensor_id \<rightharpoonup> interval) \<Rightarrow> tensor_id \<Rightarrow> interval \<Rightarrow> interval" where
  "final_interval merged i iv \<equiv> (case merged i of Some m \<Rightarrow> m | None \<Rightarrow> iv)"

lemma rewrite_entry_fresh:
  assumes "i \<notin> fst ` set t" "iv_ok (final_interval merged i iv)"
  shows "rewrite_entry outs merged (i, iv) t
    = (if i \<in> outs then t else t @ [(i, final_interval merged i iv)])"
proof -
  let ?f = "final_interval merged i iv"
  have "map_of t i = None" using assms(1) by (simp add: map_of_eq_None_iff)
  then have def_t: "record_def_with_align t i (iv_def ?f) (iv_bytes ?f) (iv_align ?f)
      = t @ [(i, \<lparr>iv_def = iv_def ?f, last_use = iv_def ?f, iv_bytes = iv_bytes ?f, iv_align = iv_align ?f\<rparr>)]"
    using assms by (simp add: record_def_with_align_def update_fresh iv_ok_def max_absorb1)
  have "map_of (t @ [(i, v)]) i = Some v" for v
    using \<open>map_of t i = None\<close> by (simp add: map_add_def)
  then have "record_use (t @ [(i, v)]) i s = Inr (t @ [(i, v\<lparr>last_use := max (last_use v) s\<rparr>)])" for v s
    using assms(1) by (simp add: record_use_def update_last)
  with assms(2) show ?thesis
    unfolding rewrite_entry_def Let_def fst_conv snd_conv def_t by (simp add: iv_ok_def max_absorb2)
qed

lemma fold_rewrite_entry:
  assumes "distinct (map fst t)" "fst ` set acc \<inter> fst ` set t = {}"
    "\<forall>(i, iv) \<in> set t. iv_ok (final_interval merged i iv)"
  shows "fold (rewrite_entry outs merged) t acc
    = acc @ map (\<lambda>(i, iv). (i, final_interval merged i iv)) (filter (\<lambda>(i, _). i \<notin> outs) t)"
  using assms
proof (induction t arbitrary: acc)
  case (Cons x t)
  obtain i iv where x: "x = (i, iv)" by (cases x)
  have "rewrite_entry outs merged (i, iv) acc
      = (if i \<in> outs then acc else acc @ [(i, final_interval merged i iv)])"
    using Cons.prems x by (intro rewrite_entry_fresh) auto
  with Cons.IH[of "if i \<in> outs then acc else acc @ [(i, final_interval merged i iv)]"] Cons.prems x
  show ?case by auto
qed simp

text \<open>
  What \<open>rewrite_table\<close> promises to the allocator: a well-formed table in which every tensor of the
  original (an output through its input) is covered by an interval that is no shorter, no
  smaller and no less aligned.
\<close>

definition owner :: "inplace_hint list \<Rightarrow> tensor_id \<Rightarrow> tensor_id" where
  "owner safe i = (case find (\<lambda>h. hint_output h = i) safe of Some h \<Rightarrow> hint_input h | None \<Rightarrow> i)"

definition hints_ok :: "lifetime_table \<Rightarrow> inplace_hint list \<Rightarrow> bool" where
  "hints_ok t hints \<longleftrightarrow> (\<forall>h \<in> set hints. hint_input h \<noteq> hint_output h
     \<and> (\<forall>u. map_of t (hint_output h) = Some u \<longrightarrow> hint_step h \<le> iv_def u))"

definition covers_iv :: "interval \<Rightarrow> interval \<Rightarrow> bool" where
  "covers_iv m a \<longleftrightarrow> iv_def m \<le> iv_def a \<and> last_use a \<le> last_use m
     \<and> iv_bytes a \<le> iv_bytes m \<and> iv_align a \<le> iv_align m"

lemma covers_overlaps: "covers_iv m a \<Longrightarrow> covers_iv n b \<Longrightarrow> overlaps a b \<Longrightarrow> overlaps m n"
  by (auto simp: covers_iv_def overlaps_def)

lemma owner_cases:
  assumes "distinct (map hint_output safe)"
  shows "h \<in> set safe \<Longrightarrow> owner safe (hint_output h) = hint_input h"
    and "i \<notin> hint_output ` set safe \<Longrightarrow> owner safe i = i"
proof -
  assume h: "h \<in> set safe"
  then obtain g where g: "find (\<lambda>g. hint_output g = hint_output h) safe = Some g"
    by (cases "find (\<lambda>g. hint_output g = hint_output h) safe") (auto simp: find_None_iff)
  then have "g \<in> set safe" "hint_output g = hint_output h" by (auto simp: find_Some_iff in_set_conv_nth)
  with h assms have "g = h" by (auto simp: distinct_map inj_on_def)
  with g show "owner safe (hint_output h) = hint_input h" by (simp add: owner_def)
next
  assume "i \<notin> hint_output ` set safe"
  then have "find (\<lambda>h. hint_output h = i) safe = None" by (auto simp: find_None_iff)
  then show "owner safe i = i" by (simp add: owner_def)
qed

definition merged_map :: "lifetime_table \<Rightarrow> inplace_hint list \<Rightarrow> (tensor_id \<rightharpoonup> interval)" where
  "merged_map t safe = map_of (rev (map (\<lambda>h. (hint_input h,
     merged_interval (the (map_of t (hint_input h))) (the (map_of t (hint_output h))))) safe))"

lemma merged_map_input:
  assumes "distinct (map hint_input safe)" "h \<in> set safe"
    "map_of t (hint_input h) = Some i" "map_of t (hint_output h) = Some u"
  shows "merged_map t safe (hint_input h) = Some (merged_interval i u)"
  unfolding merged_map_def
proof (rule map_of_is_SomeI)
  show "(hint_input h, merged_interval i u) \<in> set (rev (map (\<lambda>h. (hint_input h,
     merged_interval (the (map_of t (hint_input h))) (the (map_of t (hint_output h))))) safe))"
    using assms by (force simp: image_iff)
qed (use assms(1) in \<open>simp add: rev_map[symmetric] comp_def\<close>)

lemma merged_map_other: "i \<notin> hint_input ` set safe \<Longrightarrow> merged_map t safe i = None"
  by (auto simp: merged_map_def map_of_eq_None_iff)

lemma iv_ok_merged: "iv_ok a \<Longrightarrow> iv_ok b \<Longrightarrow> iv_ok (merged_interval a b)"
  by (auto simp: iv_ok_def merged_interval_def le_max_iff_disj)

lemma rewrite_table_eq:
  assumes inv: "table_inv t" and di: "distinct (map hint_input safe)"
    and ap: "\<forall>h \<in> set safe. evaluate_hint t h b = Apply"
  shows "rewrite_table t safe = Some (map (\<lambda>(i, iv). (i, final_interval (merged_map t safe) i iv))
      (filter (\<lambda>(i, _). i \<notin> hint_output ` set safe) t))"
    and "(i, iv) \<in> set t \<Longrightarrow> iv_ok (final_interval (merged_map t safe) i iv)"
proof -
  have th: "those (map (merge_hint t) safe) = Some (map (\<lambda>h. (hint_input h,
     merged_interval (the (map_of t (hint_input h))) (the (map_of t (hint_output h))))) safe)"
    by (rule those_map_Some) (use ap in \<open>auto simp: merge_hint_def evaluate_hint_Apply\<close>)
  have ok: "iv_ok (final_interval (merged_map t safe) i iv)" if "(i, iv) \<in> set t" for i iv
  proof (cases "i \<in> hint_input ` set safe")
    case True
    then obtain h where h: "h \<in> set safe" "i = hint_input h" by blast
    with ap obtain x u where x: "map_of t (hint_input h) = Some x" "map_of t (hint_output h) = Some u"
      by (auto simp: evaluate_hint_Apply)
    with merged_map_input[OF di h(1) x] h(2) inv show ?thesis
      by (simp add: iv_ok_merged table_inv_map_of)
  next
    case False
    with merged_map_other[OF False, of t] that inv show ?thesis by (auto simp: table_inv_def)
  qed
  then show "(i, iv) \<in> set t \<Longrightarrow> iv_ok (final_interval (merged_map t safe) i iv)" .
  have "fold (rewrite_entry (set (map hint_output safe)) (merged_map t safe)) t []
    = map (\<lambda>(i, iv). (i, final_interval (merged_map t safe) i iv))
      (filter (\<lambda>(i, _). i \<notin> hint_output ` set safe) t)"
    using inv ok by (subst fold_rewrite_entry) (auto simp: table_inv_def)
  then show "rewrite_table t safe = Some (map (\<lambda>(i, iv). (i, final_interval (merged_map t safe) i iv))
      (filter (\<lambda>(i, _). i \<notin> hint_output ` set safe) t))"
    unfolding rewrite_table_def th merged_map_def by simp
qed

lemma rewrite_table_covers:
  assumes inv: "table_inv t" and ok: "hints_ok t hints" and safe: "safe = safe_hints t hints b"
  obtains rt where "rewrite_table t safe = Some rt" "table_inv rt"
    "fst ` set rt = fst ` set t - hint_output ` set safe"
    "\<And>i a. (i, a) \<in> set t \<Longrightarrow> \<exists>m. (owner safe i, m) \<in> set rt \<and> covers_iv m a"
proof -
  have ne: "\<forall>h \<in> set hints. hint_input h \<noteq> hint_output h" using ok by (simp add: hints_ok_def)
  note sf = safe_hints_facts[OF ne, where t = t and b = b, folded safe]
  have ap: "\<forall>h \<in> set safe. evaluate_hint t h b = Apply" using sf(4) by blast
  let ?rt = "map (\<lambda>(i, iv). (i, final_interval (merged_map t safe) i iv))
      (filter (\<lambda>(i, _). i \<notin> hint_output ` set safe) t)"
  note rt = rewrite_table_eq[OF inv sf(1) ap]
  have "distinct (map fst ?rt)" using inv
    by (auto simp: table_inv_def comp_def case_prod_unfold distinct_map inj_on_def)
  moreover have "\<forall>(i, iv) \<in> set ?rt. iv_ok iv" using rt(2) by fastforce
  ultimately have inv': "table_inv ?rt" by (simp add: table_inv_def)
  have mem: "(i, final_interval (merged_map t safe) i a) \<in> set ?rt"
    if "(i, a) \<in> set t" "i \<notin> hint_output ` set safe" for i a
    using that by force
  have cov: "\<exists>m. (owner safe i, m) \<in> set ?rt \<and> covers_iv m a" if ia: "(i, a) \<in> set t" for i a
  proof (cases "i \<in> hint_output ` set safe")
    case True
    then obtain h where h: "h \<in> set safe" "i = hint_output h" by blast
    from ap h(1) obtain x where x: "map_of t (hint_input h) = Some x" "last_use x = hint_step h"
      by (auto simp: evaluate_hint_Apply)
    have u: "map_of t (hint_output h) = Some a" using ia h(2) inv by (simp add: table_inv_def)
    have "hint_step h \<le> iv_def a" using ok sf(4)[OF h(1)] u by (auto simp: hints_ok_def)
    moreover have "iv_ok x" using inv x(1) by (rule table_inv_map_of)
    ultimately have "covers_iv (merged_interval x a) a"
      using x(2) by (auto simp: covers_iv_def merged_interval_def iv_ok_def)
    moreover have "hint_input h \<notin> hint_output ` set safe" using sf(3)[OF h(1)] by blast
    ultimately show ?thesis
      using mem[of "hint_input h" x] map_of_SomeD[OF x(1)] merged_map_input[OF sf(1) h(1) x(1) u]
        owner_cases(1)[OF sf(2) h(1)] h(2) by (intro exI[of _ "merged_interval x a"]) simp
  next
    case False
    have "covers_iv (final_interval (merged_map t safe) i a) a"
    proof (cases "i \<in> hint_input ` set safe")
      case True
      then obtain h where h: "h \<in> set safe" "i = hint_input h" by blast
      from ap h(1) obtain u where u: "map_of t (hint_output h) = Some u" by (auto simp: evaluate_hint_Apply)
      have "map_of t (hint_input h) = Some a" using ia h(2) inv by (simp add: table_inv_def)
      from merged_map_input[OF sf(1) h(1) this u] h(2) show ?thesis
        by (simp add: covers_iv_def merged_interval_def)
    qed (simp add: merged_map_other covers_iv_def)
    with mem[OF ia False] owner_cases(2)[OF sf(2) False] show ?thesis by auto
  qed
  have "fst ` set ?rt = fst ` set t - hint_output ` set safe" by force
  from that[OF rt(1) inv' this cov] show ?thesis .
qed

section \<open>Stitching the outputs\<close>

lemma slot_of_map_of: "slot_of r i = map_of (assignment r) i"
proof -
  have "map_option snd (find (\<lambda>(tid, _). tid = i) xs) = map_of xs i" for xs :: "(tensor_id \<times> nat) list"
    by (induction xs) auto
  then show ?thesis by (simp add: slot_of_def)
qed

definition stitched :: "plan_result \<Rightarrow> inplace_hint list \<Rightarrow> plan_result \<Rightarrow> bool" where
  "stitched r0 hs r \<longleftrightarrow> map slot_bytes (slots r) = map slot_bytes (slots r0)
     \<and> map slot_align (slots r) = map slot_align (slots r0)
     \<and> assignment r = assignment r0 @ map (\<lambda>h. (hint_output h, the (slot_of r0 (hint_input h)))) hs"

lemma stitched_nth:
  assumes "stitched r0 hs r"
  shows "length (slots r) = length (slots r0)"
    and "k < length (slots r0) \<Longrightarrow> slot_bytes (slots r ! k) = slot_bytes (slots r0 ! k)"
    and "k < length (slots r0) \<Longrightarrow> slot_align (slots r ! k) = slot_align (slots r0 ! k)"
proof -
  have b: "map slot_bytes (slots r) = map slot_bytes (slots r0)"
    and a: "map slot_align (slots r) = map slot_align (slots r0)" using assms by (simp_all add: stitched_def)
  show len: "length (slots r) = length (slots r0)" using map_eq_imp_length_eq[OF b] .
  assume "k < length (slots r0)"
  with len arg_cong[OF b, of "\<lambda>xs. xs ! k"] arg_cong[OF a, of "\<lambda>xs. xs ! k"]
  show "slot_bytes (slots r ! k) = slot_bytes (slots r0 ! k)" "slot_align (slots r ! k) = slot_align (slots r0 ! k)"
    by simp_all
qed

lemma stitch_step:
  assumes "stitched r0 hs r" "slot_of r0 (hint_input h) = Some k" "k < length (slots r0)"
  shows "\<exists>r'. stitch h r = Some r' \<and> stitched r0 (hs @ [h]) r'"
proof -
  have len: "k < length (slots r)" using assms stitched_nth(1) by simp
  have "slot_of r (hint_input h) = Some k"
    using assms(1,2) by (simp add: stitched_def slot_of_map_of map_add_Some_iff)
  then have s: "stitch h r = Some \<lparr>slots = (slots r)[k := push_aliased_tenant (slots r ! k) (hint_output h)],
                     assignment = assignment r @ [(hint_output h, k)]\<rparr>"
    using len by (simp add: stitch_def)
  have "map slot_bytes ((slots r)[k := push_aliased_tenant (slots r ! k) (hint_output h)]) = map slot_bytes (slots r)"
    "map slot_align ((slots r)[k := push_aliased_tenant (slots r ! k) (hint_output h)]) = map slot_align (slots r)"
    using len by (simp_all add: map_update push_aliased_tenant_def list_update_same_conv)
  with assms(1,2) s show ?thesis by (simp add: stitched_def)
qed

lemma stitch_all:
  assumes do: "distinct (map hint_output safe)"
    and ins: "\<forall>h \<in> set safe. \<exists>k < length (slots r0). slot_of r0 (hint_input h) = Some k"
    and outs: "\<forall>h \<in> set safe. slot_of r0 (hint_output h) = None"
  shows "\<exists>r. fold_opt stitch safe r0 = Some r \<and> stitched r0 safe r
    \<and> (\<forall>i. slot_of r i = slot_of r0 (owner safe i))"
proof -
  have "\<exists>r. fold_opt stitch safe r0 = Some r \<and> stitched r0 safe r"
  proof (rule fold_opt_total)
    show "stitched r0 [] r0" by (simp add: stitched_def)
  next
    fix ys y r assume "stitched r0 ys r" "\<exists>zs. safe = ys @ y # zs"
    with ins stitch_step[of r0 ys r y] show "\<exists>r'. stitch y r = Some r' \<and> stitched r0 (ys @ [y]) r'" by auto
  qed
  then obtain r where r: "fold_opt stitch safe r0 = Some r" "stitched r0 safe r" by blast
  let ?f = "\<lambda>h. (hint_output h, the (slot_of r0 (hint_input h)))"
  have "slot_of r i = slot_of r0 (owner safe i)" for i
  proof (cases "i \<in> hint_output ` set safe")
    case True
    then obtain h where h: "h \<in> set safe" "i = hint_output h" by blast
    then obtain k where k: "slot_of r0 (hint_input h) = Some k" using ins by blast
    have "map_of (map ?f safe) i = Some k"
      using do h k by (intro map_of_is_SomeI) (force simp: comp_def)+
    moreover have "map_of (assignment r0) i = None" using outs h by (simp add: slot_of_map_of)
    ultimately show ?thesis
      using r(2) k owner_cases(1)[OF do h(1)] h(2) by (simp add: slot_of_map_of stitched_def map_add_def)
  next
    case False
    then have "map_of (map ?f safe) i = None" by (auto simp: map_of_eq_None_iff)
    with r(2) owner_cases(2)[OF do False] show ?thesis
      by (simp add: slot_of_map_of stitched_def map_add_def split: option.splits)
  qed
  with r show ?thesis by blast
qed

lemma owner_same:
  assumes "distinct (map hint_input safe)" "distinct (map hint_output safe)"
    "\<And>g h. g \<in> set safe \<Longrightarrow> h \<in> set safe \<Longrightarrow> hint_input g \<noteq> hint_output h"
    "owner safe i = owner safe j" "i \<noteq> j"
  shows "\<exists>h \<in> set safe. {i, j} = {hint_input h, hint_output h}"
proof -
  have one: "\<exists>h \<in> set safe. {x, y} = {hint_input h, hint_output h}"
    if "x \<in> hint_output ` set safe" "owner safe x = owner safe y" "x \<noteq> y" for x y
  proof -
    from that(1) obtain h where h: "h \<in> set safe" "x = hint_output h" by blast
    note ox = owner_cases(1)[OF assms(2) h(1)]
    show ?thesis
    proof (cases "y \<in> hint_output ` set safe")
      case True
      then obtain g where g: "g \<in> set safe" "y = hint_output g" by blast
      with ox h that(2) owner_cases(1)[OF assms(2) g(1)] have "hint_input g = hint_input h" by simp
      with g h assms(1) that(3) show ?thesis by (auto simp: distinct_map inj_on_def)
    next
      case False
      with ox h that(2) owner_cases(2)[OF assms(2) False] show ?thesis by auto
    qed
  qed
  show ?thesis
  proof (cases "i \<in> hint_output ` set safe \<or> j \<in> hint_output ` set safe")
    case True
    then show ?thesis using one[of i j] one[of j i] assms(4,5) by (auto simp: insert_commute)
  next
    case False
    with owner_cases(2)[OF assms(2)] assms(4,5) show ?thesis by simp
  qed
qed


text \<open>The stages together: planning with hints is planning the rewritten table, seen through the owners.\<close>

lemma inplace_stages:
  assumes inv: "table_inv t" and ok: "hints_ok t hints" and safe: "safe = safe_hints t hints b"
  obtains rt where "rewrite_table t safe = Some rt" "table_inv rt"
    "\<And>i a. (i, a) \<in> set t \<Longrightarrow> \<exists>m. (owner safe i, m) \<in> set rt \<and> covers_iv m a"
    "\<And>r0. plan rt = Some r0 \<Longrightarrow> \<exists>r. plan_with_inplace t hints b = Some r \<and> stitched r0 safe r
        \<and> (\<forall>i. slot_of r i = slot_of r0 (owner safe i))"
    "plan rt = None \<Longrightarrow> plan_with_inplace t hints b = None"
proof -
  have ne: "\<forall>h \<in> set hints. hint_input h \<noteq> hint_output h" using ok by (simp add: hints_ok_def)
  note sf = safe_hints_facts[OF ne, where t = t and b = b, folded safe]
  obtain rt where rt: "rewrite_table t safe = Some rt" "table_inv rt"
    and keys: "fst ` set rt = fst ` set t - hint_output ` set safe"
    and cov: "\<And>i a. (i, a) \<in> set t \<Longrightarrow> \<exists>m. (owner safe i, m) \<in> set rt \<and> covers_iv m a"
    using rewrite_table_covers[OF inv ok safe] by blast
  have "\<exists>r. fold_opt stitch safe r0 = Some r \<and> stitched r0 safe r
        \<and> (\<forall>i. slot_of r i = slot_of r0 (owner safe i))" if r0: "plan rt = Some r0" for r0
  proof (rule stitch_all[OF sf(2)]; intro ballI)
    fix h assume h: "h \<in> set safe"
    then obtain x where "map_of t (hint_input h) = Some x" using sf(4) by (auto simp: evaluate_hint_Apply)
    then have "hint_input h \<in> fst ` set t" by (metis domI dom_map_of_conv_image_fst)
    moreover have "hint_input h \<notin> hint_output ` set safe" using sf(3)[OF h] by blast
    ultimately have "hint_input h \<in> fst ` set rt" by (simp add: keys)
    then obtain m where "(hint_input h, m) \<in> set rt" by force
    from ffd.slot_of_total[OF rt(2) r0 this]
    show "\<exists>k < length (slots r0). slot_of r0 (hint_input h) = Some k" by blast
    have "fst ` set (assignment r0) = fst ` set rt"
      using mset_eq_setD[OF ffd.assigned[OF rt(2) r0]] by simp
    then show "slot_of r0 (hint_output h) = None"
      using h keys by (auto simp: slot_of_map_of map_of_eq_None_iff)
  qed
  moreover have "plan_with_inplace t hints b = (case plan rt of None \<Rightarrow> None | Some r \<Rightarrow> fold_opt stitch safe r)"
    by (simp add: plan_with_inplace_def Let_def rt(1) flip: safe)
  ultimately show ?thesis by (intro that[OF rt cov]) simp_all
qed

lemma accepted_hint_step:
  assumes inv: "table_inv t" and ok: "hints_ok t hints" and h: "h \<in> set (safe_hints t hints b)"
    and a: "(hint_input h, a) \<in> set t" "(hint_output h, c) \<in> set t" and s: "live_at s a" "live_at s c"
  shows "s = hint_step h"
proof -
  have ne: "\<forall>h \<in> set hints. hint_input h \<noteq> hint_output h" using ok by (simp add: hints_ok_def)
  have m: "map_of t (hint_input h) = Some a" "map_of t (hint_output h) = Some c"
    using inv a by (simp_all add: table_inv_def)
  note sf = safe_hints_facts(4)[OF ne h]
  have "hint_step h \<le> iv_def c" using ok sf m(2) by (auto simp: hints_ok_def)
  moreover have "last_use a = hint_step h" using sf m by (auto simp: evaluate_hint_Apply)
  ultimately show ?thesis using s by (simp add: live_at_def)
qed

lemma inplace_plan_stages:
  assumes inv: "table_inv t" and ok: "hints_ok t hints" and run: "plan_with_inplace t hints b = Some r"
  obtains rt r0 where "table_inv rt" "plan rt = Some r0" "stitched r0 (safe_hints t hints b) r"
    "\<And>i. slot_of r i = slot_of r0 (owner (safe_hints t hints b) i)"
    "\<And>i a. (i, a) \<in> set t \<Longrightarrow> \<exists>m. (owner (safe_hints t hints b) i, m) \<in> set rt \<and> covers_iv m a"
proof (rule inplace_stages[OF inv ok refl, of b])
  fix rt assume rt: "table_inv rt"
    and cov: "\<And>i a. (i, a) \<in> set t \<Longrightarrow> \<exists>m. (owner (safe_hints t hints b) i, m) \<in> set rt \<and> covers_iv m a"
    and st: "\<And>r0. plan rt = Some r0 \<Longrightarrow> \<exists>r. plan_with_inplace t hints b = Some r
      \<and> stitched r0 (safe_hints t hints b) r \<and> (\<forall>i. slot_of r i = slot_of r0 (owner (safe_hints t hints b) i))"
    and no: "plan rt = None \<Longrightarrow> plan_with_inplace t hints b = None"
  obtain r0 where r0: "plan rt = Some r0" using no run by (cases "plan rt") auto
  with st[OF r0] run have "stitched r0 (safe_hints t hints b) r"
    "\<And>i. slot_of r i = slot_of r0 (owner (safe_hints t hints b) i)" by auto
  from that[OF rt r0 this cov] show ?thesis .
qed

lemma inplace_slot_room:
  assumes inv: "table_inv t" and ok: "hints_ok t hints"
    and run: "plan_with_inplace t hints b = Some r" and i: "(i, a) \<in> set t"
  shows "\<exists>k. slot_of r i = Some k \<and> k < slot_count r \<and> iv_bytes a \<le> slot_bytes (slots r ! k)
            \<and> iv_align a \<le> slot_align (slots r ! k)"
proof (rule inplace_plan_stages[OF inv ok run])
  fix rt r0 assume rt: "table_inv rt" "plan rt = Some r0" and sr: "stitched r0 (safe_hints t hints b) r"
    and so: "\<And>i. slot_of r i = slot_of r0 (owner (safe_hints t hints b) i)"
    and cov: "\<And>i a. (i, a) \<in> set t \<Longrightarrow> \<exists>m. (owner (safe_hints t hints b) i, m) \<in> set rt \<and> covers_iv m a"
  obtain m where m: "(owner (safe_hints t hints b) i, m) \<in> set rt" "covers_iv m a" using cov[OF i] by blast
  obtain k where k: "slot_of r0 (owner (safe_hints t hints b) i) = Some k" "k < length (slots r0)"
    "iv_bytes m \<le> slot_bytes (slots r0 ! k)" "iv_align m \<le> slot_align (slots r0 ! k)"
    using ffd.slot_accommodates[OF rt m(1)] by blast
  with m(2) so[of i] stitched_nth(1)[OF sr] stitched_nth(2,3)[OF sr k(2)] show ?thesis
    by (simp add: slot_count_def covers_iv_def)
qed

lemma inplace_slot_mates:
  assumes inv: "table_inv t" and ok: "hints_ok t hints"
    and run: "plan_with_inplace t hints b = Some r" and ij: "(i, a) \<in> set t" "(j, c) \<in> set t" "j \<noteq> i"
    and same: "slot_of r j = slot_of r i" and s: "live_at s a" "live_at s c"
  shows "\<exists>h \<in> set (safe_hints t hints b). {i, j} = {hint_input h, hint_output h} \<and> s = hint_step h"
proof (rule inplace_plan_stages[OF inv ok run])
  let ?own = "owner (safe_hints t hints b)"
  fix rt r0 assume rt: "table_inv rt" "plan rt = Some r0"
    and so: "\<And>i. slot_of r i = slot_of r0 (?own i)"
    and cov: "\<And>i a. (i, a) \<in> set t \<Longrightarrow> \<exists>m. (?own i, m) \<in> set rt \<and> covers_iv m a"
  have ne: "\<forall>h \<in> set hints. hint_input h \<noteq> hint_output h" using ok by (simp add: hints_ok_def)
  note sf = safe_hints_facts[OF ne, where t = t and b = b]
  obtain m where m: "(?own i, m) \<in> set rt" "covers_iv m a" using cov[OF ij(1)] by blast
  obtain n where n: "(?own j, n) \<in> set rt" "covers_iv n c" using cov[OF ij(2)] by blast
  have "overlaps m n" using covers_overlaps[OF m(2) n(2)] live_at_overlaps[OF s] by simp
  then have "?own i = ?own j" using ffd.slot_mates_disjoint[OF rt m(1) n(1)] same so by auto
  from owner_same[OF sf(1,2,3) this] ij(3) obtain h where h: "h \<in> set (safe_hints t hints b)"
    "{i, j} = {hint_input h, hint_output h}" by auto
  then have "s = hint_step h"
    using accepted_hint_step[OF inv ok h(1)] ij s by (auto simp: doubleton_eq_iff)
  with h show ?thesis by blast
qed


section \<open>Planning with hints does not panic\<close>

lemma merged_weight: "weight (i, merged_interval a u) \<le> weight (i, a) + weight (j, u)"
  by (simp add: weight_def merged_interval_def max_def)

lemma rewrite_table_weight:
  assumes inv: "table_inv t" and ok: "hints_ok t hints" and safe: "safe = safe_hints t hints b"
    and rt: "rewrite_table t safe = Some rt"
  shows "sum_list (map weight rt) \<le> sum_list (map weight t)"
proof -
  have ne: "\<forall>h \<in> set hints. hint_input h \<noteq> hint_output h" using ok by (simp add: hints_ok_def)
  note sf = safe_hints_facts[OF ne, where t = t and b = b, folded safe]
  have ap: "\<forall>h \<in> set safe. evaluate_hint t h b = Apply" using sf(4) by blast
  let ?O = "hint_output ` set safe" and ?M = "merged_map t safe"
  let ?A = "{x \<in> set t. fst x \<notin> ?O}" and ?B = "{x \<in> set t. fst x \<in> ?O}"
  let ?fin = "\<lambda>x. (fst x, final_interval ?M (fst x) (snd x))"
  let ?f = "\<lambda>x. weight (?fin x) - weight x"
  let ?A' = "{x \<in> ?A. fst x \<in> hint_input ` set safe}"
  have dt: "distinct t" using inv by (auto simp: table_inv_def distinct_map)
  have "rt = map ?fin (filter (\<lambda>x. fst x \<notin> ?O) t)"
    using rewrite_table_eq(1)[OF inv sf(1) ap] rt by (simp add: case_prod_unfold)
  then have "sum_list (map weight rt) = (\<Sum>x \<in> ?A. weight (?fin x))"
    using dt by (simp add: comp_def sum_list_distinct_conv_sum_set)
  also have "\<dots> \<le> (\<Sum>x \<in> ?A. weight x + ?f x)" by (rule sum_mono) simp
  also have "\<dots> = (\<Sum>x \<in> ?A. weight x) + (\<Sum>x \<in> ?A. ?f x)" by (rule sum.distrib)
  also have "(\<Sum>x \<in> ?A. ?f x) = (\<Sum>x \<in> ?A'. ?f x)"
    by (rule sum.mono_neutral_right) (auto simp: merged_map_other)
  also have "\<dots> \<le> (\<Sum>y \<in> ?B. weight y)"
  proof (rule sum_le_included[where i = "\<lambda>y. (owner safe (fst y), the (map_of t (owner safe (fst y))))"])
    show "\<forall>x \<in> ?A'. \<exists>y \<in> ?B. (owner safe (fst y), the (map_of t (owner safe (fst y)))) = x \<and> ?f x \<le> weight y"
    proof
      fix x assume x: "x \<in> ?A'"
      then obtain h where h: "h \<in> set safe" "fst x = hint_input h" by auto
      with ap obtain a u where m: "map_of t (hint_input h) = Some a" "map_of t (hint_output h) = Some u"
        by (auto simp: evaluate_hint_Apply)
      have "x = (hint_input h, a)"
        using x h(2) inv eq_key_imp_eq_value[OF _ map_of_SomeD[OF m(1)], of "snd x"]
        by (cases x) (simp add: table_inv_def)
      with merged_map_input[OF sf(1) h(1) m] owner_cases(1)[OF sf(2) h(1)] m h(1)
        merged_weight[of "hint_input h" a u "hint_output h"] map_of_SomeD[OF m(2)]
      show "\<exists>y \<in> ?B. (owner safe (fst y), the (map_of t (owner safe (fst y)))) = x \<and> ?f x \<le> weight y"
        by (intro bexI[of _ "(hint_output h, u)"]) auto
    qed
  qed auto
  also have "(\<Sum>x \<in> ?A. weight x) + (\<Sum>y \<in> ?B. weight y) = (\<Sum>x \<in> ?A \<union> ?B. weight x)"
    by (rule sum.union_disjoint[symmetric]) auto
  also have "?A \<union> ?B = set t" by blast
  finally show ?thesis using dt by (simp add: sum_list_distinct_conv_sum_set)
qed

text \<open>
  With such hints the planner does not panic either: if the sizes and alignments of the table
  sum to less than \<open>2^64\<close>, \<open>plan_with_inplace\<close> returns a plan.
\<close>

theorem plan_with_inplace_total:
  assumes inv: "table_inv t" and ok: "hints_ok t hints" and lim: "sum_list (map weight t) < u64_limit"
  shows "\<exists>r. plan_with_inplace t hints b = Some r"
proof (rule inplace_stages[OF inv ok refl, of b])
  fix rt assume rt: "rewrite_table t (safe_hints t hints b) = Some rt"
    and st: "\<And>r0. plan rt = Some r0 \<Longrightarrow> \<exists>r. plan_with_inplace t hints b = Some r
      \<and> stitched r0 (safe_hints t hints b) r \<and> (\<forall>i. slot_of r i = slot_of r0 (owner (safe_hints t hints b) i))"
  have "sum_list (map weight rt) < u64_limit"
    using rewrite_table_weight[OF inv ok refl rt] lim by simp
  then obtain r0 where "plan rt = Some r0" using plan_exists by blast
  from st[OF this] show ?thesis by blast
qed

section \<open>Concrete plans\<close>

abbreviation relu_table :: lifetime_table where
  "relu_table \<equiv>
     [(TensorId 1, \<lparr>iv_def = 0, last_use = 1, iv_bytes = 64, iv_align = 16\<rparr>),
      (TensorId 2, \<lparr>iv_def = 1, last_use = 3, iv_bytes = 60, iv_align = 16\<rparr>),
      (TensorId 3, \<lparr>iv_def = 1, last_use = 2, iv_bytes = 8, iv_align = 1\<rparr>)]"

abbreviation relu_hint :: inplace_hint where
  "relu_hint \<equiv> \<lparr>hint_input = TensorId 1, hint_output = TensorId 2, hint_step = 1\<rparr>"

abbreviation no_blockers :: inplace_blockers where
  "no_blockers \<equiv> \<lparr>has_hook = {}, is_view = {}\<rparr>"

lemma relu_facts:
  "table_inv relu_table" "hints_ok relu_table [relu_hint]" "sum_list (map weight relu_table) < u64_limit"
  by (code_simp, simp add: hints_ok_def, code_simp)


theorem plan_with_inplace_total_witness:
  "\<exists>r. plan_with_inplace relu_table [relu_hint] no_blockers = Some r"
  by (rule plan_with_inplace_total[OF relu_facts])

text \<open>
  The two conditions of \<open>hints_ok\<close> are not checked by \<open>evaluate_hint\<close>.  A hint that names one
  tensor twice is accepted; the tensor is then dropped from the rewritten table and the \<open>expect\<close>
  of the last step fails.
\<close>

lemma self_hint_panics:
  "plan_with_inplace [(TensorId 1, \<lparr>iv_def = 0, last_use = 2, iv_bytes = 8, iv_align = 1\<rparr>)]
     [\<lparr>hint_input = TensorId 1, hint_output = TensorId 1, hint_step = 2\<rparr>] no_blockers = None"
proof -
  have "(case plan_with_inplace [(TensorId 1, \<lparr>iv_def = 0, last_use = 2, iv_bytes = 8, iv_align = 1\<rparr>)]
     [\<lparr>hint_input = TensorId 1, hint_output = TensorId 1, hint_step = 2\<rparr>] no_blockers of
       None \<Rightarrow> True | Some _ \<Rightarrow> False)" by code_simp
  then show ?thesis by (simp split: option.splits)
qed

text \<open>
  A hint whose output is defined long before the step is accepted as well: both tensors are live
  from step 0 to step 2 and share a slot.
\<close>

lemma early_output_aliased:
  "case plan_with_inplace
      [(TensorId 1, \<lparr>iv_def = 0, last_use = 2, iv_bytes = 8, iv_align = 1\<rparr>),
       (TensorId 2, \<lparr>iv_def = 0, last_use = 4, iv_bytes = 8, iv_align = 1\<rparr>)]
      [\<lparr>hint_input = TensorId 1, hint_output = TensorId 2, hint_step = 2\<rparr>] no_blockers of
     None \<Rightarrow> False | Some r \<Rightarrow> slot_of r (TensorId 1) = Some 0 \<and> slot_of r (TensorId 2) = Some 0"
  by code_simp

end
