(* ===== verification/Planner.thy ===== *)
theory Planner
  imports Reorder Inplace
begin

text \<open>
  The planner's entry point: \<open>rustorch-planner/src/planner.rs\<close>.  It reorders the graph, builds the
  lifetimes, plans the slots with or without in-place hints and checks the budget.
\<close>

record planner_input =
  in_dag :: op_dag
  in_hints :: "inplace_hint list"
  in_blockers :: inplace_blockers
  in_budget :: "nat option"

record planner_schedule =
  sched_ops :: "op_id list"
  sched_plan :: plan_result

datatype planner_error =
    ReorderFailed reorder_error
  | PlanFailed plan_error
  | OverBudget nat nat "op_id list"

text \<open>The five largest operations, larger first and then by identifier.\<close>

definition suggest_checkpoints :: "op_dag \<Rightarrow> op_id list" where
  "suggest_checkpoints dag =
     map fst (take 5 (sort_key (\<lambda>(i, b). (- int b, i))
       (map (\<lambda>(_, op). (op_ident op, op_bytes op)) (nodes dag))))"

definition planner_plan :: "planner_input \<Rightarrow> (planner_error + planner_schedule) option" where
  "planner_plan input =
     (case reorder (in_dag input) of
        None \<Rightarrow> None
      | Some (Inl e) \<Rightarrow> Some (Inl (ReorderFailed e))
      | Some (Inr ops) \<Rightarrow>
          (case lifetime_for (in_dag input) ops of
             None \<Rightarrow> None
           | Some table \<Rightarrow>
               (case (if in_hints input = [] then plan table
                      else plan_with_inplace table (in_hints input) (in_blockers input)) of
                  None \<Rightarrow> None
                | Some r \<Rightarrow>
                    (case in_budget input of
                       None \<Rightarrow> Some (Inr \<lparr>sched_ops = ops, sched_plan = r\<rparr>)
                     | Some budget \<Rightarrow>
                         (case peak_bytes r of
                            None \<Rightarrow> None
                          | Some peak \<Rightarrow>
                              if peak > budget
                              then Some (Inl (OverBudget peak budget (suggest_checkpoints (in_dag input))))
                              else (case plan_with_budget table budget of
                                      None \<Rightarrow> None
                                    | Some _ \<Rightarrow> Some (Inr \<lparr>sched_ops = ops, sched_plan = r\<rparr>)))))))"

section \<open>Hints that come from the operations\<close>

text \<open>
  A hint describes an operation of the schedule: it writes its result over one of the tensors it
  reads.
\<close>

definition hints_from_ops :: "op_dag \<Rightarrow> op_id list \<Rightarrow> inplace_hint list \<Rightarrow> bool" where
  "hints_from_ops dag s hints \<longleftrightarrow> (\<forall>h \<in> set hints. hint_step h < length s
     \<and> hint_output h = writes (node_at dag s (hint_step h))
     \<and> hint_input h \<in> set (reads (node_at dag s (hint_step h))))"

lemma writer_unique:
  assumes inv: "dag_inv dag" and v: "valid_prefix dag s" and jk: "j < length s" "k < length s"
    and eq: "writes (node_at dag s j) = writes (node_at dag s k)"
  shows "j = k"
proof -
  have "producer_of dag (writes (node_at dag s i)) = Some (s ! i)" if "i < length s" for i
    using dag_inv_producer[OF inv] node_at_Some[OF v that] by blast
  from this[OF jk(1)] this[OF jk(2)] eq have "s ! j = s ! k" by simp
  with v jk show ?thesis by (simp add: valid_prefix_def nth_eq_iff_index_eq)
qed

lemma writer_not_external:
  assumes inv: "dag_inv dag" and v: "valid_prefix dag s" and k: "k < length s"
  shows "writes (node_at dag s k) \<notin> set (external dag)"
  using dag_inv_producer[OF inv] node_at_Some[OF v k] by (auto simp: external_iff)

lemma written_def_step:
  assumes inv: "dag_inv dag" and v: "valid_prefix dag s" and k: "k < length s"
    and t: "record_trace [] (schedule_events dag s) = Inr t" and u: "(writes (node_at dag s k), u) \<in> set t"
  shows "k \<le> iv_def u"
proof -
  let ?w = "writes (node_at dag s k)" and ?es = "schedule_events dag s"
  let ?D = "ev_step ` set (filter is_def (events_of ?w ?es))"
  have R: "represents t ?es"
    using record_trace_represents[of "[]" "[]" ?es] t by (simp add: represents_def envelope_def)
  then have "table_inv t" by (simp add: represents_def)
  then have "map_of t ?w = Some u" using u by (simp add: table_inv_def)
  then have env: "envelope (events_of ?w ?es) = Some u" using R by (simp add: represents_def)
  then have ne: "events_of ?w ?es \<noteq> []" and du: "iv_def u = Min ?D" by (auto simp: envelope_def split: if_splits)
  then have "?D \<noteq> {}" using R by (auto simp: represents_def)
  moreover have "n = k" if "n \<in> ?D" for n
    using that writer_not_external[OF inv v k] writer_unique[OF inv v _ k]
    by (auto simp: schedule_events_def op_events_def Let_def)
  ultimately have "Min ?D \<in> {k}" using Min_in[of ?D] by (metis List.finite_set finite_imageI singletonI)
  then show ?thesis unfolding du by simp
qed

lemma hints_from_ops_ok:
  assumes inv: "dag_inv dag" and v: "valid_prefix dag s"
    and t: "record_trace [] (schedule_events dag s) = Inr t" and h: "hints_from_ops dag s hints"
  shows "hints_ok t hints"
  unfolding hints_ok_def
proof (intro ballI conjI allI impI)
  fix g assume "g \<in> set hints"
  then have g: "hint_step g < length s" "hint_output g = writes (node_at dag s (hint_step g))"
    "hint_input g \<in> set (reads (node_at dag s (hint_step g)))" using h by (auto simp: hints_from_ops_def)
  show "hint_input g \<noteq> hint_output g"
    using read_produced_before[OF inv v g(1,3)] writer_not_external[OF inv v g(1)]
      writer_unique[OF inv v _ g(1)] g by (metis order_less_trans less_irrefl)
  fix u assume "map_of t (hint_output g) = Some u"
  then show "hint_step g \<le> iv_def u"
    using written_def_step[OF inv v g(1) t] g(2) by (auto dest: map_of_SomeD)
qed

lemma inplace_no_clobber:
  assumes inv: "dag_inv dag" and v: "valid_prefix dag s"
    and t: "record_trace [] (schedule_events dag s) = Inr t" and h: "hints_from_ops dag s hints"
    and run: "plan_with_inplace t hints b = Some r"
  shows "no_clobber dag s (slot_of r)"
  unfolding no_clobber_def
proof (intro allI impI notI)
  fix k m x
  let ?w = "writes (node_at dag s k)"
  assume a: "k < m \<and> m < length s \<and> x \<in> set (reads (node_at dag s m)) \<and> available_before dag s k x
        \<and> x \<noteq> ?w" and eq: "slot_of r x = slot_of r ?w"
  note tinv = record_trace_inv[OF t] and ok = hints_from_ops_ok[OF inv v t h]
  obtain j where j: "j \<le> k" "available_from dag s j x"
    using a by (auto simp: available_before_def available_from_def intro: less_imp_le)
  obtain iv where iv: "(x, iv) \<in> set t" "live_at k iv"
    using live_interval[OF t j(2), of m k] a j(1) by (auto simp: use_event_def)
  have "live_at m iv"
    using live_interval[OF t j(2), of m m] a j(1) iv(1) tinv
    by (force simp: use_event_def table_inv_def dest: eq_key_imp_eq_value)
  obtain iw where iw: "(?w, iw) \<in> set t" "live_at k iw"
    using live_interval[OF t, of k ?w k k] a by (auto simp: use_event_def available_from_def)
  obtain g where g: "g \<in> set (safe_hints t hints b)" "{x, ?w} = {hint_input g, hint_output g}" "k = hint_step g"
    using inplace_slot_mates[OF tinv ok run iv(1) iw(1) _ eq[symmetric] iv(2) iw(2)] a by auto
  have ne: "\<forall>h \<in> set hints. hint_input h \<noteq> hint_output h" using ok by (simp add: hints_ok_def)
  note gf = safe_hints_facts(4)[OF ne g(1)]
  then have "hint_output g = ?w" using h g(3) by (auto simp: hints_from_ops_def)
  then have "hint_input g = x" using g(2) a by (auto simp: doubleton_eq_iff)
  then have "last_use iv = k" using gf iv(1) tinv g(3) by (auto simp: evaluate_hint_Apply table_inv_def dest: eq_key_imp_eq_value)
  with \<open>live_at m iv\<close> a show False by (simp add: live_at_def)
qed

section \<open>The planner is correct\<close>

lemma hinted_plan_correct:
  assumes inv: "dag_inv dag" and v: "valid_prefix dag s"
    and t: "record_trace [] (schedule_events dag s) = Inr t" and h: "hints_from_ops dag s hints"
    and run: "(if hints = [] then plan t else plan_with_inplace t hints b) = Some r" and k: "k < length s"
  shows "no_clobber dag s (slot_of r)"
    and "\<exists>c. slot_of r (writes (node_at dag s k)) = Some c \<and> c < slot_count r
        \<and> op_bytes (node_at dag s k) \<le> slot_bytes (slots r ! c)
        \<and> op_align (node_at dag s k) \<le> slot_align (slots r ! c)"
proof -
  note tinv = record_trace_inv[OF t]
  obtain iv where iv: "(writes (node_at dag s k), iv) \<in> set t" "op_bytes (node_at dag s k) \<le> iv_bytes iv"
    "op_align (node_at dag s k) \<le> iv_align iv" using written_interval[OF t k] by blast
  have "no_clobber dag s (slot_of r) \<and> (\<exists>c. slot_of r (writes (node_at dag s k)) = Some c \<and> c < slot_count r
        \<and> op_bytes (node_at dag s k) \<le> slot_bytes (slots r ! c)
        \<and> op_align (node_at dag s k) \<le> slot_align (slots r ! c))"
  proof (cases "hints = []")
    case True
    then have p: "plan t = Some r" using run by simp
    from ffd.slot_accommodates[OF tinv p iv(1)] iv(2,3) ffd.plan_no_clobber[OF t p] show ?thesis
      by (auto simp: slot_count_def intro: order_trans)
  next
    case False
    then have p: "plan_with_inplace t hints b = Some r" using run by simp
    from inplace_slot_room[OF tinv hints_from_ops_ok[OF inv v t h] p iv(1)] iv(2,3)
      inplace_no_clobber[OF inv v t h p] show ?thesis by (auto intro: order_trans)
  qed
  then show "no_clobber dag s (slot_of r)" "\<exists>c. slot_of r (writes (node_at dag s k)) = Some c \<and> c < slot_count r
        \<and> op_bytes (node_at dag s k) \<le> slot_bytes (slots r ! c)
        \<and> op_align (node_at dag s k) \<le> slot_align (slots r ! c)" by blast+
qed

lemma planner_plan_Inr:
  assumes "planner_plan input = Some (Inr out)"
  obtains t where "reorder (in_dag input) = Some (Inr (sched_ops out))"
    "lifetime_for (in_dag input) (sched_ops out) = Some t"
    "(if in_hints input = [] then plan t else plan_with_inplace t (in_hints input) (in_blockers input))
      = Some (sched_plan out)"
    "\<And>b. in_budget input = Some b \<Longrightarrow> \<exists>p. peak_bytes (sched_plan out) = Some p \<and> p \<le> b"
  using assms unfolding planner_plan_def by (auto split: option.splits sum.splits if_splits)

lemma schedule_length:
  "valid_schedule dag s \<Longrightarrow> length (nodes dag) \<le> u32_limit \<Longrightarrow> length s \<le> u32_limit"
proof -
  assume v: "valid_schedule dag s" and n: "length (nodes dag) \<le> u32_limit"
  have "length s = card (op_ids dag)" using v by (metis distinct_card valid_prefix_def valid_schedule_def)
  also have "\<dots> \<le> length (nodes dag)" using card_length[of "map fst (nodes dag)"] by (simp add: op_ids_def)
  finally show ?thesis using n by simp
qed



section \<open>Errors of the planner\<close>

lemma sort_key_take_drop:
  assumes "a \<in> set (take n (sort_key f xs))" "b \<in> set (drop n (sort_key f xs))"
  shows "f a \<le> f b"
proof -
  have "sorted (map f (take n (sort_key f xs) @ drop n (sort_key f xs)))" by (simp only: append_take_drop_id sorted_sort_key)
  then have "sorted_wrt (\<lambda>x y. f x \<le> f y) (take n (sort_key f xs) @ drop n (sort_key f xs))"
    by (simp only: sorted_map)
  with assms show ?thesis unfolding sorted_wrt_append by blast
qed

lemma suggest_checkpoints_largest:
  assumes inv: "dag_inv dag"
  shows "length (suggest_checkpoints dag) = min 5 (length (nodes dag))"
    and "distinct (suggest_checkpoints dag)"
    and "i \<in> set (suggest_checkpoints dag) \<Longrightarrow> j \<notin> set (suggest_checkpoints dag) \<Longrightarrow>
      map_of (nodes dag) j = Some q \<Longrightarrow> \<exists>p. map_of (nodes dag) i = Some p \<and> op_bytes q \<le> op_bytes p"
proof -
  define xs where "xs = map (\<lambda>(_, op). (op_ident op, op_bytes op)) (nodes dag)"
  define ys where "ys = sort_key (\<lambda>(i, b). (- int b, i)) xs"
  have sg: "suggest_checkpoints dag = map fst (take 5 ys)"
    by (simp add: suggest_checkpoints_def ys_def xs_def)
  show "length (suggest_checkpoints dag) = min 5 (length (nodes dag))"
    unfolding sg by (simp add: ys_def xs_def)
  have "map fst xs = map fst (nodes dag)"
    using inv by (auto simp: xs_def dag_inv_def comp_def)
  then have "distinct (map fst xs)" using inv by (simp add: dag_inv_def)
  then have "distinct (map fst ys)" unfolding ys_def by (metis mset_eq_imp_distinct_iff mset_map mset_sort)
  then show "distinct (suggest_checkpoints dag)" unfolding sg by (metis distinct_take take_map)
  have mem: "(i, b) \<in> set ys \<longleftrightarrow> (\<exists>p. map_of (nodes dag) i = Some p \<and> op_bytes p = b)" for i b
    using dag_inv_mem[OF inv] dag_inv_ident[OF inv] by (force simp: ys_def xs_def)
  assume i: "i \<in> set (suggest_checkpoints dag)" and j: "j \<notin> set (suggest_checkpoints dag)"
    and q: "map_of (nodes dag) j = Some q"
  from i obtain b where b: "(i, b) \<in> set (take 5 ys)" by (auto simp: sg)
  have "(j, op_bytes q) \<in> set ys" using q mem by blast
  moreover have "(j, op_bytes q) \<notin> set (take 5 ys)" using j by (force simp: sg)
  ultimately have "(j, op_bytes q) \<in> set (drop 5 ys)"
    by (metis Un_iff append_take_drop_id set_append)
  from sort_key_take_drop[OF b[unfolded ys_def] this[unfolded ys_def]] have "op_bytes q \<le> b" by auto
  moreover have "(i, b) \<in> set ys" using b by (rule in_set_takeD)
  then obtain p where "map_of (nodes dag) i = Some p" "op_bytes p = b" using mem by blast
  ultimately show "\<exists>p. map_of (nodes dag) i = Some p \<and> op_bytes q \<le> op_bytes p" by blast
qed

text \<open>The suggestions are operations of the graph, larger first and then by identifier.\<close>

lemma suggest_checkpoints_ops:
  assumes inv: "dag_inv dag"
  shows "set (suggest_checkpoints dag) \<subseteq> op_ids dag"
    and "sorted_wrt (\<lambda>i j. \<exists>p q. map_of (nodes dag) i = Some p \<and> map_of (nodes dag) j = Some q
      \<and> (op_bytes q < op_bytes p \<or> op_bytes q = op_bytes p \<and> i \<le> j)) (suggest_checkpoints dag)"
proof -
  let ?f = "\<lambda>(i, b). (- int b, i)"
  define ys where "ys = sort_key ?f (map (\<lambda>(_, op). (op_ident op, op_bytes op)) (nodes dag))"
  have mem: "\<exists>p. map_of (nodes dag) i = Some p \<and> op_bytes p = b" if "(i, b) \<in> set (take 5 ys)" for i b
    using in_set_takeD[OF that] dag_inv_mem[OF inv] dag_inv_ident[OF inv] by (force simp: ys_def)
  have sg: "suggest_checkpoints dag = map fst (take 5 ys)" by (simp add: suggest_checkpoints_def ys_def)
  show "set (suggest_checkpoints dag) \<subseteq> op_ids dag"
    unfolding sg using mem by (force simp: op_ids_def dest: map_of_SomeD)
  have "sorted (map ?f ys)" unfolding ys_def by (rule sorted_sort_key)
  then have srt: "sorted_wrt (\<lambda>x y. ?f x \<le> ?f y) (take 5 ys)" unfolding sorted_map by (rule sorted_wrt_take)
  have rel: "\<exists>p q. map_of (nodes dag) (fst x) = Some p \<and> map_of (nodes dag) (fst y) = Some q
      \<and> (op_bytes q < op_bytes p \<or> op_bytes q = op_bytes p \<and> fst x \<le> fst y)"
    if m: "x \<in> set (take 5 ys)" "y \<in> set (take 5 ys)" "?f x \<le> ?f y" for x y
  proof -
    obtain i b j c where xy: "x = (i, b)" "y = (j, c)" by fastforce
    obtain p q where "map_of (nodes dag) i = Some p" "op_bytes p = b" "map_of (nodes dag) j = Some q" "op_bytes q = c"
      using mem m(1,2) xy by blast
    moreover have "c < b \<or> c = b \<and> i \<le> j" using m(3) xy by auto
    ultimately show ?thesis using xy by auto
  qed
  show "sorted_wrt (\<lambda>i j. \<exists>p q. map_of (nodes dag) i = Some p \<and> map_of (nodes dag) j = Some q
      \<and> (op_bytes q < op_bytes p \<or> op_bytes q = op_bytes p \<and> i \<le> j)) (suggest_checkpoints dag)"
    unfolding sg sorted_wrt_map by (rule sorted_wrt_mono_rel[OF rel srt])
qed

text \<open>
  C24. The errors of \<open>Planner::plan\<close>: either the scheduler's cycle, passed on, or an exceeded budget.
  The latter reports the peak of the plan that was made for the scheduler's order, which is above the
  budget, and suggests as checkpoints the five largest operations of the graph (all of them when there
  are fewer), larger ones first and then by identifier.  The variant for a failed plan is never returned.
\<close>

theorem planner_plan_errors:
  assumes inv: "dag_inv (in_dag input)" and run: "planner_plan input = Some (Inl err)"
  shows "(\<exists>e. err = ReorderFailed e \<and> reorder (in_dag input) = Some (Inl e))
    \<or> (\<exists>required budget sugg s t r. err = OverBudget required budget sugg
         \<and> in_budget input = Some budget \<and> budget < required
         \<and> reorder (in_dag input) = Some (Inr s) \<and> lifetime_for (in_dag input) s = Some t
         \<and> (if in_hints input = [] then plan t else plan_with_inplace t (in_hints input) (in_blockers input)) = Some r
         \<and> peak_bytes r = Some required
         \<and> distinct sugg \<and> length sugg = min 5 (length (nodes (in_dag input))) \<and> set sugg \<subseteq> op_ids (in_dag input)
         \<and> sorted_wrt (\<lambda>i j. \<exists>p q. map_of (nodes (in_dag input)) i = Some p \<and> map_of (nodes (in_dag input)) j = Some q
              \<and> (op_bytes q < op_bytes p \<or> op_bytes q = op_bytes p \<and> i \<le> j)) sugg
         \<and> (\<forall>i j p q. i \<in> set sugg \<and> j \<notin> set sugg \<and> map_of (nodes (in_dag input)) i = Some p
              \<and> map_of (nodes (in_dag input)) j = Some q \<longrightarrow> op_bytes q \<le> op_bytes p))"
proof (cases err)
  case (ReorderFailed e)
  with run show ?thesis by (auto simp: planner_plan_def split: option.splits sum.splits if_splits)
next
  case (PlanFailed e)
  with run show ?thesis by (auto simp: planner_plan_def split: option.splits sum.splits if_splits)
next
  case (OverBudget required budget sugg)
  with run obtain s t r where o: "sugg = suggest_checkpoints (in_dag input)" "in_budget input = Some budget" "budget < required"
    "reorder (in_dag input) = Some (Inr s)" "lifetime_for (in_dag input) s = Some t"
    "(if in_hints input = [] then plan t else plan_with_inplace t (in_hints input) (in_blockers input)) = Some r"
    "peak_bytes r = Some required"
    unfolding planner_plan_def by (auto split: option.splits sum.splits if_splits)
  have large: "op_bytes q \<le> op_bytes p" if "i \<in> set sugg \<and> j \<notin> set sugg \<and> map_of (nodes (in_dag input)) i = Some p
    \<and> map_of (nodes (in_dag input)) j = Some q" for i j p q
    using suggest_checkpoints_largest(3)[OF inv] that by (fastforce simp: o(1))
  note sug = suggest_checkpoints_largest(2)[OF inv] suggest_checkpoints_largest(1)[OF inv] suggest_checkpoints_ops[OF inv]
  show ?thesis
    by (intro disjI2 exI conjI allI impI, rule OverBudget, rule o(2), rule o(3), rule o(4), rule o(5), rule o(6), rule o(7))
      (use sug in \<open>simp_all only: o(1)\<close>, rule large[unfolded o(1)])
qed

theorem planner_plan_errors_witness:
  "planner_plan \<lparr>in_dag = diamond, in_hints = [], in_blockers = no_blockers, in_budget = Some 27\<rparr>
     = Some (Inl (OverBudget 28 27 [OpId 2, OpId 1, OpId 3, OpId 4]))
   \<and> distinct [OpId 2, OpId 1, OpId 3, OpId 4]"
proof -
  let ?in = "\<lparr>in_dag = diamond, in_hints = [], in_blockers = no_blockers, in_budget = Some 27\<rparr>"
  have "case planner_plan ?in of
      Some (Inl (OverBudget a b s)) \<Rightarrow> a = 28 \<and> b = 27 \<and> s = [OpId 2, OpId 1, OpId 3, OpId 4] | _ \<Rightarrow> False"
    by code_simp
  then have run: "planner_plan ?in = Some (Inl (OverBudget 28 27 [OpId 2, OpId 1, OpId 3, OpId 4]))"
    by (auto split: option.splits sum.splits planner_error.splits)
  have "dag_inv (in_dag ?in)" using diamond_inv(1) by simp
  from planner_plan_errors[OF this run] run show ?thesis by blast
qed

end
