(* ===== verification/Gguf_Format.thy ===== *)
theory Gguf_Format
  imports Rust_Base "HOL-Library.Word"
begin

text \<open>
  The data model of GGUF files: \<open>rustorch-gguf/src/metadata.rs\<close> and \<open>rustorch-gguf/src/tensor.rs\<close>.

  Unsigned and signed integers are words of their width (a signed value is read off a word by
  \<open>sint\<close>); floats are kept as their bit patterns; a string is the list of its bytes.
\<close>

type_synonym byte = "8 word"

section \<open>Metadata\<close>

datatype meta_value_type =
    TU8 | TI8 | TU16 | TI16 | TU32 | TI32 | TF32 | TBool | TString | TArray | TU64 | TI64 | TF64

definition meta_type_from_u32 :: "32 word \<Rightarrow> meta_value_type option" where
  "meta_type_from_u32 v =
     (if v = 0 then Some TU8 else if v = 1 then Some TI8 else if v = 2 then Some TU16
      else if v = 3 then Some TI16 else if v = 4 then Some TU32 else if v = 5 then Some TI32
      else if v = 6 then Some TF32 else if v = 7 then Some TBool else if v = 8 then Some TString
      else if v = 9 then Some TArray else if v = 10 then Some TU64 else if v = 11 then Some TI64
      else if v = 12 then Some TF64 else None)"

datatype meta_array =
    AU8 "8 word list" | AI8 "8 word list" | AU16 "16 word list" | AI16 "16 word list"
  | AU32 "32 word list" | AI32 "32 word list" | AF32 "32 word list" | ABool "bool list"
  | AString "byte list list" | AU64 "64 word list" | AI64 "64 word list" | AF64 "64 word list"

fun meta_array_len :: "meta_array \<Rightarrow> nat" where
  "meta_array_len (AU8 v) = length v"
| "meta_array_len (AI8 v) = length v"
| "meta_array_len (AU16 v) = length v"
| "meta_array_len (AI16 v) = length v"
| "meta_array_len (AU32 v) = length v"
| "meta_array_len (AI32 v) = length v"
| "meta_array_len (AF32 v) = length v"
| "meta_array_len (ABool v) = length v"
| "meta_array_len (AString v) = length v"
| "meta_array_len (AU64 v) = length v"
| "meta_array_len (AI64 v) = length v"
| "meta_array_len (AF64 v) = length v"

datatype meta_value =
    VU8 "8 word" | VI8 "8 word" | VU16 "16 word" | VI16 "16 word" | VU32 "32 word" | VI32 "32 word"
  | VF32 "32 word" | VBool bool | VString "byte list" | VArray meta_array
  | VU64 "64 word" | VI64 "64 word" | VF64 "64 word"

text \<open>The casts \<open>as u32\<close> and \<open>as u64\<close>: truncation, zero extension, sign extension.\<close>

fun as_u32 :: "meta_value \<Rightarrow> 32 word option" where
  "as_u32 (VU8 v) = Some (ucast v)"
| "as_u32 (VU16 v) = Some (ucast v)"
| "as_u32 (VU32 v) = Some v"
| "as_u32 (VU64 v) = Some (ucast v)"
| "as_u32 (VI8 v) = Some (scast v)"
| "as_u32 (VI16 v) = Some (scast v)"
| "as_u32 (VI32 v) = Some v"
| "as_u32 (VI64 v) = Some (ucast v)"
| "as_u32 _ = None"

fun as_u64 :: "meta_value \<Rightarrow> 64 word option" where
  "as_u64 (VU8 v) = Some (ucast v)"
| "as_u64 (VU16 v) = Some (ucast v)"
| "as_u64 (VU32 v) = Some (ucast v)"
| "as_u64 (VU64 v) = Some v"
| "as_u64 (VI8 v) = Some (scast v)"
| "as_u64 (VI16 v) = Some (scast v)"
| "as_u64 (VI32 v) = Some (scast v)"
| "as_u64 (VI64 v) = Some v"
| "as_u64 _ = None"

text \<open>The rounding of \<open>f64 as f32\<close> is the parameter \<open>narrow_f64\<close>.\<close>

fun as_f32 :: "(64 word \<Rightarrow> 32 word) \<Rightarrow> meta_value \<Rightarrow> 32 word option" where
  "as_f32 narrow_f64 (VF32 v) = Some v"
| "as_f32 narrow_f64 (VF64 v) = Some (narrow_f64 v)"
| "as_f32 narrow_f64 _ = None"

fun as_bool :: "meta_value \<Rightarrow> bool option" where
  "as_bool (VBool b) = Some b"
| "as_bool _ = None"

fun as_str :: "meta_value \<Rightarrow> byte list option" where
  "as_str (VString s) = Some s"
| "as_str _ = None"

fun as_array :: "meta_value \<Rightarrow> meta_array option" where
  "as_array (VArray a) = Some a"
| "as_array _ = None"

text \<open>The map of key-value pairs; an insertion replaces an earlier value of the key.\<close>

type_synonym metadata = "(byte list \<times> meta_value) list"

definition ascii :: "string \<Rightarrow> byte list" where
  "ascii s = map (\<lambda>c. word_of_nat (of_char c)) s"

definition meta_get :: "metadata \<Rightarrow> byte list \<Rightarrow> meta_value option" where
  "meta_get m key = map_of m key"

definition meta_get_u32 :: "metadata \<Rightarrow> byte list \<Rightarrow> 32 word option" where
  "meta_get_u32 m key = (case meta_get m key of None \<Rightarrow> None | Some v \<Rightarrow> as_u32 v)"

definition meta_get_u64 :: "metadata \<Rightarrow> byte list \<Rightarrow> 64 word option" where
  "meta_get_u64 m key = (case meta_get m key of None \<Rightarrow> None | Some v \<Rightarrow> as_u64 v)"

definition meta_get_f32 :: "(64 word \<Rightarrow> 32 word) \<Rightarrow> metadata \<Rightarrow> byte list \<Rightarrow> 32 word option" where
  "meta_get_f32 narrow_f64 m key = (case meta_get m key of None \<Rightarrow> None | Some v \<Rightarrow> as_f32 narrow_f64 v)"

definition meta_get_str :: "metadata \<Rightarrow> byte list \<Rightarrow> byte list option" where
  "meta_get_str m key = (case meta_get m key of None \<Rightarrow> None | Some v \<Rightarrow> as_str v)"

definition meta_get_array :: "metadata \<Rightarrow> byte list \<Rightarrow> meta_array option" where
  "meta_get_array m key = (case meta_get m key of None \<Rightarrow> None | Some v \<Rightarrow> as_array v)"

definition architecture :: "metadata \<Rightarrow> byte list option" where
  "architecture m = meta_get_str m (ascii ''general.architecture'')"

definition arch_prefix :: "metadata \<Rightarrow> byte list option" where
  "arch_prefix m = map_option (\<lambda>a. a @ ascii ''.'') (architecture m)"

definition get_arch :: "metadata \<Rightarrow> byte list \<Rightarrow> meta_value option" where
  "get_arch m suffix = (case arch_prefix m of None \<Rightarrow> None | Some p \<Rightarrow> meta_get m (p @ suffix))"

section \<open>Tensors\<close>

datatype ggml_type =
    GF32 | GF16 | Q4_0 | Q4_1 | Q5_0 | Q5_1 | Q8_0 | Q8_1 | Q2_K | Q3_K | Q4_K | Q5_K | Q6_K | Q8_K
  | IQ2_XXS | IQ2_XS | IQ3_XXS | IQ1_S | IQ4_NL | IQ3_S | IQ2_S | IQ4_XS | GI8 | GI16 | GI32 | GI64
  | GF64 | IQ1_M | GBF16

text \<open>The tags of the format; 4 and 5 are not assigned.\<close>

definition ggml_tags :: "(nat \<times> ggml_type) list" where
  "ggml_tags =
     [(0, GF32), (1, GF16), (2, Q4_0), (3, Q4_1), (6, Q5_0), (7, Q5_1), (8, Q8_0), (9, Q8_1),
      (10, Q2_K), (11, Q3_K), (12, Q4_K), (13, Q5_K), (14, Q6_K), (15, Q8_K), (16, IQ2_XXS),
      (17, IQ2_XS), (18, IQ3_XXS), (19, IQ1_S), (20, IQ4_NL), (21, IQ3_S), (22, IQ2_S),
      (23, IQ4_XS), (24, GI8), (25, GI16), (26, GI32), (27, GI64), (28, GF64), (29, IQ1_M),
      (30, GBF16)]"

definition ggml_type_from_u32 :: "32 word \<Rightarrow> ggml_type option" where
  "ggml_type_from_u32 v = map_of ggml_tags (unat v)"

definition block_size :: "ggml_type \<Rightarrow> nat" where
  "block_size t =
     (if t \<in> {GF32, GF16, GBF16, GF64, GI8, GI16, GI32, GI64} then 1
      else if t \<in> {Q4_0, Q4_1, Q5_0, Q5_1, Q8_0, Q8_1} then 32 else 256)"

fun type_size :: "ggml_type \<Rightarrow> nat" where
  "type_size GF32 = 4" | "type_size GI32 = 4"
| "type_size GF16 = 2" | "type_size GBF16 = 2" | "type_size GI16 = 2"
| "type_size GF64 = 8" | "type_size GI64 = 8" | "type_size GI8 = 1"
| "type_size Q4_0 = 2 + 16" | "type_size Q4_1 = 2 + 2 + 16"
| "type_size Q5_0 = 2 + 4 + 16" | "type_size Q5_1 = 2 + 2 + 4 + 16"
| "type_size Q8_0 = 2 + 32" | "type_size Q8_1 = 4 + 32"
| "type_size Q4_K = 2 + 2 + 12 + 128" | "type_size Q6_K = 128 + 64 + 16 + 2"
| "type_size Q2_K = 2 + 2 + 16 + 64" | "type_size Q3_K = 32 + 64 + 12 + 2"
| "type_size Q5_K = 2 + 2 + 12 + 32 + 128" | "type_size Q8_K = 4 + 256 + 32"
| "type_size IQ2_XXS = 2 + 64" | "type_size IQ2_XS = 2 + 64 + 16" | "type_size IQ3_XXS = 2 + 64 + 32"
| "type_size IQ1_S = 2 + 32 + 8" | "type_size IQ4_NL = 2 + 16" | "type_size IQ3_S = 2 + 64 + 32 + 8 + 16"
| "type_size IQ2_S = 2 + 64 + 16 + 8" | "type_size IQ4_XS = 2 + 2 + 64 + 128" | "type_size IQ1_M = 32 + 16 + 8"

text \<open>\<open>None\<close>: the debug assertion fails or the product overflows.\<close>

definition byte_size_for :: "ggml_type \<Rightarrow> nat \<Rightarrow> nat option" where
  "byte_size_for t n =
     (if n mod block_size t \<noteq> 0 then None else checked_mul_u64 (n div block_size t) (type_size t))"

definition is_dequant_supported :: "ggml_type \<Rightarrow> bool" where
  "is_dequant_supported t \<longleftrightarrow> t \<in> {GF32, GF16, GBF16, Q8_0, Q4_K, Q6_K}"

record tensor_info =
  ti_name :: "byte list"
  ti_shape :: "64 word list"
  ti_dtype :: ggml_type
  ti_offset :: "64 word"

definition n_elements :: "tensor_info \<Rightarrow> nat option" where
  "n_elements t = fold_opt (\<lambda>d acc. checked_mul_u64 acc (unat d)) (ti_shape t) 1"

definition ti_byte_size :: "tensor_info \<Rightarrow> nat option" where
  "ti_byte_size t = (case n_elements t of None \<Rightarrow> None | Some n \<Rightarrow> byte_size_for (ti_dtype t) n)"

end
