(* ===== verification/Gguf_Reader.thy ===== *)
theory Gguf_Reader
  imports Gguf_Format
begin

text \<open>
  The GGUF parser: \<open>rustorch-gguf/src/reader.rs\<close>.  A reader is a function of the buffer and the
  position of the cursor; \<open>Panicked\<close> stands for an arithmetic overflow, an index out of range or
  the capacity overflow of a vector.

  The locale \<open>codec\<close> relates a reader to the encoding of the format; the round trip of the whole
  file is put together from its interpretations.
\<close>

section \<open>Readers\<close>

datatype gguf_error =
    BadMagic "32 word"
  | UnsupportedVersion "32 word"
  | UnknownMetaType "32 word"
  | UnknownDtype "32 word"
  | Truncated nat nat
  | BadUtf8 string
  | TensorOffsetOob "byte list" nat nat

datatype 'a parsed = Parsed 'a nat | Failed gguf_error | Panicked

type_synonym 'a reader = "byte list \<Rightarrow> nat \<Rightarrow> 'a parsed"

definition ret :: "'a \<Rightarrow> 'a reader" where
  "ret x buf pos = Parsed x pos"

definition and_then :: "'a reader \<Rightarrow> ('a \<Rightarrow> 'b reader) \<Rightarrow> 'b reader" where
  "and_then p f buf pos =
     (case p buf pos of Parsed x pos' \<Rightarrow> f x buf pos' | Failed e \<Rightarrow> Failed e | Panicked \<Rightarrow> Panicked)"

definition fail :: "gguf_error \<Rightarrow> 'a reader" where
  "fail e buf pos = Failed e"

definition panic :: "'a reader" where
  "panic buf pos = Panicked"

definition need :: "nat \<Rightarrow> unit reader" where
  "need n buf pos =
     (case checked_add_u64 pos n of
        None \<Rightarrow> Panicked
      | Some e \<Rightarrow> if e > length buf then Failed (Truncated n (length buf - pos)) else Parsed () pos)"

text \<open>The bytes \<open>buf[pos .. pos + n]\<close>, after which the cursor moves on.\<close>

definition take_bytes :: "nat \<Rightarrow> byte list reader" where
  "take_bytes n buf pos =
     (if pos + n \<le> length buf then Parsed (take n (drop pos buf)) (pos + n) else Panicked)"

text \<open>\<open>Vec::with_capacity(n)\<close> for elements of \<open>elem\<close> bytes.\<close>

definition with_capacity :: "nat \<Rightarrow> nat \<Rightarrow> unit reader" where
  "with_capacity n elem buf pos = (if n * elem < i64_limit then Parsed () pos else Panicked)"

fun le_nat :: "byte list \<Rightarrow> nat" where
  "le_nat [] = 0"
| "le_nat (b # bs) = unat b + 256 * le_nat bs"

definition read_u8 :: "8 word reader" where
  "read_u8 = and_then (need 1) (\<lambda>_. and_then (take_bytes 1) (\<lambda>bs. ret (word_of_nat (le_nat bs))))"

definition read_u16 :: "16 word reader" where
  "read_u16 = and_then (need 2) (\<lambda>_. and_then (take_bytes 2) (\<lambda>bs. ret (word_of_nat (le_nat bs))))"

definition read_u32 :: "32 word reader" where
  "read_u32 = and_then (need 4) (\<lambda>_. and_then (take_bytes 4) (\<lambda>bs. ret (word_of_nat (le_nat bs))))"

definition read_u64 :: "64 word reader" where
  "read_u64 = and_then (need 8) (\<lambda>_. and_then (take_bytes 8) (\<lambda>bs. ret (word_of_nat (le_nat bs))))"

text \<open>The signed and floating-point readers reinterpret the bits.\<close>

definition read_i8 :: "8 word reader" where "read_i8 = read_u8"
definition read_i16 :: "16 word reader" where "read_i16 = read_u16"
definition read_i32 :: "32 word reader" where "read_i32 = read_u32"
definition read_i64 :: "64 word reader" where "read_i64 = read_u64"
definition read_f32 :: "32 word reader" where "read_f32 = read_u32"
definition read_f64 :: "64 word reader" where "read_f64 = read_u64"

definition read_bool :: "bool reader" where
  "read_bool = and_then read_u8 (\<lambda>b. ret (b \<noteq> 0))"

text \<open>\<open>std::str::from_utf8\<close>: the well-formed byte sequences of UTF-8.\<close>

definition cont :: "byte \<Rightarrow> bool" where
  "cont b \<longleftrightarrow> 0x80 \<le> b \<and> b \<le> 0xBF"

fun valid_utf8 :: "byte list \<Rightarrow> bool" where
  "valid_utf8 [] \<longleftrightarrow> True"
| "valid_utf8 (a # bs) \<longleftrightarrow>
     (if a \<le> 0x7F then valid_utf8 bs
      else if 0xC2 \<le> a \<and> a \<le> 0xDF then
        (case bs of b # rest \<Rightarrow> cont b \<and> valid_utf8 rest | _ \<Rightarrow> False)
      else if 0xE0 \<le> a \<and> a \<le> 0xEF then
        (case bs of b # c # rest \<Rightarrow>
           (if a = 0xE0 then 0xA0 \<le> b \<and> b \<le> 0xBF else if a = 0xED then 0x80 \<le> b \<and> b \<le> 0x9F else cont b)
           \<and> cont c \<and> valid_utf8 rest | _ \<Rightarrow> False)
      else if 0xF0 \<le> a \<and> a \<le> 0xF4 then
        (case bs of b # c # d # rest \<Rightarrow>
           (if a = 0xF0 then 0x90 \<le> b \<and> b \<le> 0xBF else if a = 0xF4 then 0x80 \<le> b \<and> b \<le> 0x8F else cont b)
           \<and> cont c \<and> cont d \<and> valid_utf8 rest | _ \<Rightarrow> False)
      else False)"

definition read_string :: "string \<Rightarrow> byte list reader" where
  "read_string field =
     and_then read_u64 (\<lambda>n. and_then (need (unat n)) (\<lambda>_. and_then (take_bytes (unat n)) (\<lambda>s.
       if valid_utf8 s then ret s else fail (BadUtf8 field))))"

text \<open>\<open>for _ in 0..n { v.push(read()?) }\<close>\<close>

fun read_many :: "nat \<Rightarrow> 'a reader \<Rightarrow> 'a list reader" where
  "read_many 0 p buf pos = Parsed [] pos"
| "read_many (Suc n) p buf pos =
     (case p buf pos of
        Parsed x pos' \<Rightarrow>
          (case read_many n p buf pos' of
             Parsed xs pos'' \<Rightarrow> Parsed (x # xs) pos'' | Failed e \<Rightarrow> Failed e | Panicked \<Rightarrow> Panicked)
      | Failed e \<Rightarrow> Failed e
      | Panicked \<Rightarrow> Panicked)"

definition read_vec :: "nat \<Rightarrow> nat \<Rightarrow> 'a reader \<Rightarrow> 'a list reader" where
  "read_vec n elem p = and_then (with_capacity n elem) (\<lambda>_. read_many n p)"

fun read_elements :: "nat \<Rightarrow> meta_value_type \<Rightarrow> meta_array reader" where
  "read_elements n TU8 = and_then (with_capacity n 1) (\<lambda>_. and_then (need n) (\<lambda>_. and_then (take_bytes n) (\<lambda>v. ret (AU8 v))))"
| "read_elements n TI8 = and_then (read_vec n 1 read_i8) (\<lambda>v. ret (AI8 v))"
| "read_elements n TU16 = and_then (read_vec n 2 read_u16) (\<lambda>v. ret (AU16 v))"
| "read_elements n TI16 = and_then (read_vec n 2 read_i16) (\<lambda>v. ret (AI16 v))"
| "read_elements n TU32 = and_then (read_vec n 4 read_u32) (\<lambda>v. ret (AU32 v))"
| "read_elements n TI32 = and_then (read_vec n 4 read_i32) (\<lambda>v. ret (AI32 v))"
| "read_elements n TF32 = and_then (read_vec n 4 read_f32) (\<lambda>v. ret (AF32 v))"
| "read_elements n TBool = and_then (read_vec n 1 read_bool) (\<lambda>v. ret (ABool v))"
| "read_elements n TString = and_then (read_vec n 24 (read_string ''meta.array.string'')) (\<lambda>v. ret (AString v))"
| "read_elements n TU64 = and_then (read_vec n 8 read_u64) (\<lambda>v. ret (AU64 v))"
| "read_elements n TI64 = and_then (read_vec n 8 read_i64) (\<lambda>v. ret (AI64 v))"
| "read_elements n TF64 = and_then (read_vec n 8 read_f64) (\<lambda>v. ret (AF64 v))"
| "read_elements n TArray = fail (UnknownMetaType 9)"

definition read_meta_type :: "meta_value_type reader" where
  "read_meta_type = and_then read_u32 (\<lambda>tag.
     case meta_type_from_u32 tag of None \<Rightarrow> fail (UnknownMetaType tag) | Some vt \<Rightarrow> ret vt)"

definition read_array :: "meta_array reader" where
  "read_array = and_then read_meta_type (\<lambda>vt. and_then read_u64 (\<lambda>n. read_elements (unat n) vt))"

fun read_value :: "meta_value_type \<Rightarrow> meta_value reader" where
  "read_value TU8 = and_then read_u8 (\<lambda>v. ret (VU8 v))"
| "read_value TI8 = and_then read_i8 (\<lambda>v. ret (VI8 v))"
| "read_value TU16 = and_then read_u16 (\<lambda>v. ret (VU16 v))"
| "read_value TI16 = and_then read_i16 (\<lambda>v. ret (VI16 v))"
| "read_value TU32 = and_then read_u32 (\<lambda>v. ret (VU32 v))"
| "read_value TI32 = and_then read_i32 (\<lambda>v. ret (VI32 v))"
| "read_value TF32 = and_then read_f32 (\<lambda>v. ret (VF32 v))"
| "read_value TBool = and_then read_bool (\<lambda>v. ret (VBool v))"
| "read_value TString = and_then (read_string ''meta.string'') (\<lambda>v. ret (VString v))"
| "read_value TU64 = and_then read_u64 (\<lambda>v. ret (VU64 v))"
| "read_value TI64 = and_then read_i64 (\<lambda>v. ret (VI64 v))"
| "read_value TF64 = and_then read_f64 (\<lambda>v. ret (VF64 v))"
| "read_value TArray = and_then read_array (\<lambda>v. ret (VArray v))"

section \<open>Files\<close>

definition GGUF_MAGIC :: "32 word" where "GGUF_MAGIC = 0x46554747"
definition GGUF_DEFAULT_ALIGNMENT :: nat where "GGUF_DEFAULT_ALIGNMENT = 32"

record gguf_file =
  gf_bytes :: "byte list"
  gf_version :: "32 word"
  gf_metadata :: metadata
  gf_tensors :: "tensor_info list"
  gf_data_offset :: nat
  gf_alignment :: nat

definition read_header :: "(32 word \<times> nat \<times> nat) reader" where
  "read_header = and_then read_u32 (\<lambda>magic.
     if magic \<noteq> GGUF_MAGIC then fail (BadMagic magic)
     else and_then read_u32 (\<lambda>version.
       if version \<noteq> 2 \<and> version \<noteq> 3 then fail (UnsupportedVersion version)
       else and_then read_u64 (\<lambda>tensor_count. and_then read_u64 (\<lambda>metadata_count.
         ret (version, unat tensor_count, unat metadata_count)))))"

definition read_kv :: "(byte list \<times> meta_value) reader" where
  "read_kv = and_then (read_string ''meta.key'') (\<lambda>key. and_then read_meta_type (\<lambda>vt.
     and_then (read_value vt) (\<lambda>v. ret (key, v))))"

definition read_tensor_info :: "tensor_info reader" where
  "read_tensor_info =
     and_then (read_string ''tensor.name'') (\<lambda>name. and_then read_u32 (\<lambda>n_dims.
     and_then (read_vec (unat n_dims) 8 read_u64) (\<lambda>shape. and_then read_u32 (\<lambda>tag.
       case ggml_type_from_u32 tag of
         None \<Rightarrow> fail (UnknownDtype tag)
       | Some dt \<Rightarrow> and_then read_u64 (\<lambda>offset.
           ret \<lparr>ti_name = name, ti_shape = shape, ti_dtype = dt, ti_offset = offset\<rparr>)))))"

definition insert_all :: "(byte list \<times> meta_value) list \<Rightarrow> metadata" where
  "insert_all kvs = fold (\<lambda>(k, v) m. AList.update k v m) kvs []"

text \<open>The size of a \<open>TensorInfo\<close> in memory.\<close>

definition tensor_info_size :: nat where "tensor_info_size = 64"

definition read_front :: "(32 word \<times> metadata \<times> tensor_info list) reader" where
  "read_front = and_then read_header (\<lambda>(version, tensor_count, metadata_count).
     and_then (read_many metadata_count read_kv) (\<lambda>kvs.
     and_then (read_vec tensor_count tensor_info_size read_tensor_info) (\<lambda>tensors.
       ret (version, insert_all kvs, tensors))))"

text \<open>The bounds check of the tensors: the first one out of bounds is reported.\<close>

fun check_tensors :: "nat \<Rightarrow> tensor_info list \<Rightarrow> (gguf_error + unit) option" where
  "check_tensors data_len [] = Some (Inr ())"
| "check_tensors data_len (t # ts) =
     (case ti_byte_size t of
        None \<Rightarrow> None
      | Some sz \<Rightarrow>
          (case checked_add_u64 (unat (ti_offset t)) sz of
             None \<Rightarrow> None
           | Some e \<Rightarrow>
               if e > data_len then Some (Inl (TensorOffsetOob (ti_name t) (unat (ti_offset t)) data_len))
               else check_tensors data_len ts))"

definition file_alignment :: "metadata \<Rightarrow> nat" where
  "file_alignment m = (case meta_get_u64 m (ascii ''general.alignment'') of
     Some a \<Rightarrow> unat a | None \<Rightarrow> GGUF_DEFAULT_ALIGNMENT)"

definition from_bytes :: "byte list \<Rightarrow> (gguf_error + gguf_file) option" where
  "from_bytes bytes =
     (case read_front bytes 0 of
        Panicked \<Rightarrow> None
      | Failed e \<Rightarrow> Some (Inl e)
      | Parsed (version, m, ts) header_end \<Rightarrow>
          let alignment = file_alignment m in
          if alignment = 0 then None
          else (case checked_mul_u64 (div_ceil header_end alignment) alignment of
            None \<Rightarrow> None
          | Some data_offset \<Rightarrow>
              if length bytes < data_offset then None
              else (case check_tensors (length bytes - data_offset) ts of
                None \<Rightarrow> None
              | Some (Inl e) \<Rightarrow> Some (Inl e)
              | Some (Inr _) \<Rightarrow>
                  Some (Inr \<lparr>gf_bytes = bytes, gf_version = version, gf_metadata = m, gf_tensors = ts,
                             gf_data_offset = data_offset, gf_alignment = alignment\<rparr>))))"

definition gf_tensor :: "gguf_file \<Rightarrow> byte list \<Rightarrow> tensor_info option" where
  "gf_tensor f name = find (\<lambda>t. ti_name t = name) (gf_tensors f)"

text \<open>\<open>None\<close>: an overflow, or a slice out of range.\<close>

definition tensor_bytes :: "gguf_file \<Rightarrow> tensor_info \<Rightarrow> byte list option" where
  "tensor_bytes f t =
     (case checked_add_u64 (gf_data_offset f) (unat (ti_offset t)) of
        None \<Rightarrow> None
      | Some start \<Rightarrow>
          (case ti_byte_size t of
             None \<Rightarrow> None
           | Some sz \<Rightarrow>
               (case checked_add_u64 start sz of
                  None \<Rightarrow> None
                | Some stop \<Rightarrow> if stop \<le> length (gf_bytes f) then Some (take sz (drop start (gf_bytes f))) else None)))"

definition file_size :: "gguf_file \<Rightarrow> nat" where
  "file_size f = length (gf_bytes f)"

section \<open>Encodings\<close>

text \<open>
  The encoding the format prescribes.  \<open>reads p bs x\<close>: wherever the bytes \<open>bs\<close> stand in a buffer
  that fits the address space, the reader \<open>p\<close> consumes exactly them and returns \<open>x\<close>.
\<close>

fun le_bytes :: "nat \<Rightarrow> nat \<Rightarrow> byte list" where
  "le_bytes 0 n = []"
| "le_bytes (Suc w) n = word_of_nat n # le_bytes w (n div 256)"

definition reads :: "'a reader \<Rightarrow> byte list \<Rightarrow> 'a \<Rightarrow> bool" where
  "reads p bs x \<longleftrightarrow> (\<forall>pre post. length (pre @ bs @ post) < i64_limit \<longrightarrow>
     p (pre @ bs @ post) (length pre) = Parsed x (length pre + length bs))"

lemma length_le_bytes [simp]: "length (le_bytes w n) = w"
  by (induction w arbitrary: n) auto

lemma le_nat_le_bytes: "le_nat (le_bytes w n) = n mod 256 ^ w"
proof (induction w arbitrary: n)
  case (Suc w)
  have "le_nat (le_bytes (Suc w) n) = n mod 256 + 256 * (n div 256 mod 256 ^ w)"
    using Suc by (simp add: unat_of_nat)
  also have "\<dots> = n mod 256 ^ Suc w" by (simp add: mod_mult2_eq)
  finally show ?case .
qed simp

lemma readsI:
  assumes "\<And>pre post. length (pre @ bs @ post) < i64_limit \<Longrightarrow>
    p (pre @ bs @ post) (length pre) = Parsed x (length pre + length bs)"
  shows "reads p bs x"
  using assms by (simp add: reads_def)

lemma reads_ret: "reads (ret x) [] x"
  by (simp add: reads_def ret_def)

lemma reads_and_then:
  assumes "reads p b1 x" "reads (f x) b2 y"
  shows "reads (and_then p f) (b1 @ b2) y"
proof (rule readsI)
  fix pre post assume l: "length (pre @ (b1 @ b2) @ post) < i64_limit"
  have "p (pre @ b1 @ (b2 @ post)) (length pre) = Parsed x (length pre + length b1)"
    using assms(1) l unfolding reads_def by (metis append.assoc)
  moreover have "f x ((pre @ b1) @ b2 @ post) (length (pre @ b1)) = Parsed y (length (pre @ b1) + length b2)"
    using assms(2) l unfolding reads_def by (metis append.assoc)
  ultimately show "and_then p f (pre @ (b1 @ b2) @ post) (length pre) = Parsed y (length pre + length (b1 @ b2))"
    by (simp add: and_then_def add.assoc)
qed

lemma reads_map: "reads p bs x \<Longrightarrow> reads (and_then p (\<lambda>v. ret (g v))) bs (g x)"
  using reads_and_then[of p bs x "\<lambda>v. ret (g v)" "[]" "g x"] reads_ret[of "g x"] by simp

lemma i64_u64: "n < i64_limit \<Longrightarrow> n < u64_limit"
  by (simp add: limit_defs)

lemma reads_exact:
  assumes "length bs = n"
  shows "reads (and_then (need n) (\<lambda>_. and_then (take_bytes n) f)) (bs @ b2) y \<longleftrightarrow> reads (and_then (take_bytes n) f) (bs @ b2) y"
proof -
  have "need n (pre @ (bs @ b2) @ post) (length pre) = Parsed () (length pre)"
    if "length (pre @ (bs @ b2) @ post) < i64_limit" for pre post
    using that i64_u64[of "length pre + n"] assms by (simp add: need_def checked_add_u64_def)
  then show ?thesis by (simp add: reads_def and_then_def)
qed

lemma reads_take_bytes: "length bs = n \<Longrightarrow> reads (take_bytes n) bs bs"
  by (simp add: reads_def take_bytes_def)

lemma reads_block:
  assumes "length bs = n" "reads (f bs) b2 y"
  shows "reads (and_then (need n) (\<lambda>_. and_then (take_bytes n) f)) (bs @ b2) y"
  unfolding reads_exact[OF assms(1)] by (rule reads_and_then[where f = f, OF reads_take_bytes[OF assms(1)] assms(2)])

lemma reads_number:
  fixes w :: "'w::len word"
  assumes "256 ^ n = (2::nat) ^ LENGTH('w)"
  shows "reads (and_then (need n) (\<lambda>_. and_then (take_bytes n) (\<lambda>bs. ret (word_of_nat (le_nat bs)))))
    (le_bytes n (unat w)) w"
proof -
  have "word_of_nat (le_nat (le_bytes n (unat w))) = w"
    using unsigned_less[of w, where ?'a = nat] by (simp add: le_nat_le_bytes assms)
  with reads_block[of "le_bytes n (unat w)" n "\<lambda>bs. ret (word_of_nat (le_nat bs))" "[]" w]
    reads_ret[of w] show ?thesis by simp
qed

locale codec =
  fixes dec :: "'a reader" and enc :: "'a \<Rightarrow> byte list" and good :: "'a \<Rightarrow> bool"
  assumes reads_enc: "good x \<Longrightarrow> reads dec (enc x) x"
begin

lemma reads_many:
  "list_all good xs \<Longrightarrow> reads (read_many (length xs) dec) (concat (map enc xs)) xs"
proof (induction xs)
  case Nil
  then show ?case by (simp add: reads_def)
next
  case (Cons x xs)
  have "read_many (Suc (length xs)) dec = and_then dec (\<lambda>x. and_then (read_many (length xs) dec) (\<lambda>xs. ret (x # xs)))"
    by (intro ext) (simp add: and_then_def ret_def split: parsed.splits)
  moreover have "reads (and_then dec (\<lambda>x. and_then (read_many (length xs) dec) (\<lambda>xs. ret (x # xs))))
      (enc x @ concat (map enc xs)) (x # xs)"
    using Cons by (intro reads_and_then[where x = x] reads_enc reads_map) auto
  ultimately show ?case by simp
qed

lemma reads_vec:
  assumes "list_all good xs"
    and "length xs * elem < i64_limit \<or> length xs * elem \<le> length (concat (map enc xs))"
  shows "reads (read_vec (length xs) elem dec) (concat (map enc xs)) xs"
proof (rule readsI)
  fix pre post assume l: "length (pre @ concat (map enc xs) @ post) < i64_limit"
  then have "length xs * elem < i64_limit" using assms(2) by auto
  then show "read_vec (length xs) elem dec (pre @ concat (map enc xs) @ post) (length pre)
      = Parsed xs (length pre + length (concat (map enc xs)))"
    using reads_many[OF assms(1)] l by (simp add: read_vec_def and_then_def with_capacity_def reads_def)
qed

end

definition enc_u8 :: "8 word \<Rightarrow> byte list" where "enc_u8 w = le_bytes 1 (unat w)"
definition enc_u16 :: "16 word \<Rightarrow> byte list" where "enc_u16 w = le_bytes 2 (unat w)"
definition enc_u32 :: "32 word \<Rightarrow> byte list" where "enc_u32 w = le_bytes 4 (unat w)"
definition enc_u64 :: "64 word \<Rightarrow> byte list" where "enc_u64 w = le_bytes 8 (unat w)"
definition enc_bool :: "bool \<Rightarrow> byte list" where "enc_bool b = enc_u8 (if b then 1 else 0)"
definition enc_string :: "byte list \<Rightarrow> byte list" where
  "enc_string s = enc_u64 (word_of_nat (length s)) @ s"

definition good_string :: "byte list \<Rightarrow> bool" where
  "good_string s \<longleftrightarrow> valid_utf8 s \<and> length s < i64_limit"

lemmas signed_readers = read_i8_def read_i16_def read_i32_def read_i64_def read_f32_def read_f64_def

interpretation u8: codec read_u8 enc_u8 "\<lambda>_. True"
  by standard (simp add: read_u8_def enc_u8_def reads_number del: le_bytes.simps)

interpretation u16: codec read_u16 enc_u16 "\<lambda>_. True"
  by standard (simp add: read_u16_def enc_u16_def reads_number)

interpretation u32: codec read_u32 enc_u32 "\<lambda>_. True"
  by standard (simp add: read_u32_def enc_u32_def reads_number)

interpretation u64: codec read_u64 enc_u64 "\<lambda>_. True"
  by standard (simp add: read_u64_def enc_u64_def reads_number)

interpretation bool: codec read_bool enc_bool "\<lambda>_. True"
proof
  fix b :: bool
  have "reads read_bool (enc_u8 (if b then 1 else 0)) ((if b then 1 else (0 :: 8 word)) \<noteq> 0)"
    unfolding read_bool_def by (rule reads_map[OF u8.reads_enc]) simp
  then show "reads read_bool (enc_bool b) b" by (cases b) (simp_all add: enc_bool_def)
qed

interpretation str: codec "read_string field" enc_string good_string
proof
  fix s assume g: "good_string s"
  have n: "unat (word_of_nat (length s) :: 64 word) = length s"
    using g by (simp add: good_string_def unat_of_nat limit_defs)
  have "reads (and_then (need (length s)) (\<lambda>_. and_then (take_bytes (length s)) (\<lambda>s.
       if valid_utf8 s then ret s else fail (BadUtf8 field)))) (s @ []) s"
    using g reads_ret[of s] by (intro reads_block) (simp_all add: good_string_def)
  then show "reads (read_string field) (enc_string s) s"
    unfolding read_string_def enc_string_def
    by (intro reads_and_then[OF u64.reads_enc]) (simp_all add: n)
qed

subsection \<open>Values\<close>

fun type_tag :: "meta_value_type \<Rightarrow> nat" where
  "type_tag TU8 = 0" | "type_tag TI8 = 1" | "type_tag TU16 = 2" | "type_tag TI16 = 3"
| "type_tag TU32 = 4" | "type_tag TI32 = 5" | "type_tag TF32 = 6" | "type_tag TBool = 7"
| "type_tag TString = 8" | "type_tag TArray = 9" | "type_tag TU64 = 10" | "type_tag TI64 = 11"
| "type_tag TF64 = 12"

definition enc_type :: "meta_value_type \<Rightarrow> byte list" where
  "enc_type vt = enc_u32 (word_of_nat (type_tag vt))"

fun array_type :: "meta_array \<Rightarrow> meta_value_type" where
  "array_type (AU8 _) = TU8" | "array_type (AI8 _) = TI8" | "array_type (AU16 _) = TU16"
| "array_type (AI16 _) = TI16" | "array_type (AU32 _) = TU32" | "array_type (AI32 _) = TI32"
| "array_type (AF32 _) = TF32" | "array_type (ABool _) = TBool" | "array_type (AString _) = TString"
| "array_type (AU64 _) = TU64" | "array_type (AI64 _) = TI64" | "array_type (AF64 _) = TF64"

fun enc_elements :: "meta_array \<Rightarrow> byte list" where
  "enc_elements (AU8 v) = v"
| "enc_elements (AI8 v) = concat (map enc_u8 v)"
| "enc_elements (AU16 v) = concat (map enc_u16 v)"
| "enc_elements (AI16 v) = concat (map enc_u16 v)"
| "enc_elements (AU32 v) = concat (map enc_u32 v)"
| "enc_elements (AI32 v) = concat (map enc_u32 v)"
| "enc_elements (AF32 v) = concat (map enc_u32 v)"
| "enc_elements (ABool v) = concat (map enc_bool v)"
| "enc_elements (AString v) = concat (map enc_string v)"
| "enc_elements (AU64 v) = concat (map enc_u64 v)"
| "enc_elements (AI64 v) = concat (map enc_u64 v)"
| "enc_elements (AF64 v) = concat (map enc_u64 v)"

definition enc_array :: "meta_array \<Rightarrow> byte list" where
  "enc_array a = enc_type (array_type a) @ enc_u64 (word_of_nat (meta_array_len a)) @ enc_elements a"

fun value_type :: "meta_value \<Rightarrow> meta_value_type" where
  "value_type (VU8 _) = TU8" | "value_type (VI8 _) = TI8" | "value_type (VU16 _) = TU16"
| "value_type (VI16 _) = TI16" | "value_type (VU32 _) = TU32" | "value_type (VI32 _) = TI32"
| "value_type (VF32 _) = TF32" | "value_type (VBool _) = TBool" | "value_type (VString _) = TString"
| "value_type (VArray _) = TArray" | "value_type (VU64 _) = TU64" | "value_type (VI64 _) = TI64"
| "value_type (VF64 _) = TF64"

fun enc_value :: "meta_value \<Rightarrow> byte list" where
  "enc_value (VU8 v) = enc_u8 v" | "enc_value (VI8 v) = enc_u8 v"
| "enc_value (VU16 v) = enc_u16 v" | "enc_value (VI16 v) = enc_u16 v"
| "enc_value (VU32 v) = enc_u32 v" | "enc_value (VI32 v) = enc_u32 v"
| "enc_value (VF32 v) = enc_u32 v" | "enc_value (VBool v) = enc_bool v"
| "enc_value (VString v) = enc_string v" | "enc_value (VArray v) = enc_array v"
| "enc_value (VU64 v) = enc_u64 v" | "enc_value (VI64 v) = enc_u64 v" | "enc_value (VF64 v) = enc_u64 v"

text \<open>Strings are valid, and the vectors of an array fit the address space.\<close>

fun good_array :: "meta_array \<Rightarrow> bool" where
  "good_array (AString v) \<longleftrightarrow> list_all good_string v \<and> length v * 24 < i64_limit"
| "good_array a \<longleftrightarrow> meta_array_len a * 8 < i64_limit"

fun good_value :: "meta_value \<Rightarrow> bool" where
  "good_value (VString s) \<longleftrightarrow> good_string s"
| "good_value (VArray a) \<longleftrightarrow> good_array a"
| "good_value _ \<longleftrightarrow> True"

interpretation mtype: codec read_meta_type enc_type "\<lambda>_. True"
proof
  fix vt :: meta_value_type
  have "meta_type_from_u32 (word_of_nat (type_tag vt)) = Some vt"
    by (cases vt) (simp_all add: meta_type_from_u32_def)
  then have "reads (case meta_type_from_u32 (word_of_nat (type_tag vt)) of
      None \<Rightarrow> fail (UnknownMetaType (word_of_nat (type_tag vt))) | Some vt \<Rightarrow> ret vt) [] vt"
    by (simp add: reads_ret)
  from reads_and_then[OF u32.reads_enc[of "word_of_nat (type_tag vt)"], OF TrueI,
      of "\<lambda>tag. case meta_type_from_u32 tag of None \<Rightarrow> fail (UnknownMetaType tag) | Some vt \<Rightarrow> ret vt", OF this]
  show "reads read_meta_type (enc_type vt) vt" by (simp add: read_meta_type_def enc_type_def)
qed

lemma good_array_len: "good_array a \<Longrightarrow> meta_array_len a < i64_limit"
  by (cases a) auto

lemma list_all_True [simp]: "list_all (\<lambda>_. True) xs"
  by (simp add: list_all_iff)

lemma reads_elements:
  assumes "good_array a"
  shows "reads (read_elements (meta_array_len a) (array_type a)) (enc_elements a) a"
proof (cases a)
  case (AU8 v)
  have "reads (and_then (need (length v)) (\<lambda>_. and_then (take_bytes (length v)) (\<lambda>v. ret (AU8 v)))) (v @ []) (AU8 v)"
    by (rule reads_block) (simp_all add: reads_ret)
  with AU8 assms show ?thesis by (simp add: reads_def and_then_def with_capacity_def)
qed (use assms in \<open>auto simp: signed_readers intro!: reads_map u8.reads_vec u16.reads_vec u32.reads_vec
  u64.reads_vec bool.reads_vec str.reads_vec\<close>)

interpretation arr: codec read_array enc_array good_array
proof
  fix a assume g: "good_array a"
  have n: "unat (word_of_nat (meta_array_len a) :: 64 word) = meta_array_len a"
    using good_array_len[OF g] by (simp add: unat_of_nat limit_defs)
  show "reads read_array (enc_array a) a"
    unfolding read_array_def enc_array_def
    by (intro reads_and_then[OF mtype.reads_enc] reads_and_then[OF u64.reads_enc])
      (simp_all add: n reads_elements[OF g])
qed

lemma reads_value: "good_value v \<Longrightarrow> reads (read_value (value_type v)) (enc_value v) v"
  by (cases v) (auto simp: signed_readers intro!: reads_map u8.reads_enc u16.reads_enc u32.reads_enc
      u64.reads_enc bool.reads_enc str.reads_enc arr.reads_enc)

subsection \<open>The index and the file\<close>

definition enc_kv :: "byte list \<times> meta_value \<Rightarrow> byte list" where
  "enc_kv kv = enc_string (fst kv) @ enc_type (value_type (snd kv)) @ enc_value (snd kv)"

definition good_kv :: "byte list \<times> meta_value \<Rightarrow> bool" where
  "good_kv kv \<longleftrightarrow> good_string (fst kv) \<and> good_value (snd kv)"

interpretation kv: codec read_kv enc_kv good_kv
proof
  fix x :: "byte list \<times> meta_value" assume g: "good_kv x"
  show "reads read_kv (enc_kv x) x"
    unfolding read_kv_def enc_kv_def
    using g reads_value[of "snd x"] reads_map[of "read_value (value_type (snd x))" "enc_value (snd x)" "snd x" "\<lambda>v. (fst x, v)"]
    by (intro reads_and_then[OF str.reads_enc] reads_and_then[OF mtype.reads_enc]) (simp_all add: good_kv_def)
qed

definition dtype_tag :: "ggml_type \<Rightarrow> nat" where
  "dtype_tag t = (case find (\<lambda>x. snd x = t) ggml_tags of Some x \<Rightarrow> fst x | None \<Rightarrow> 0)"

definition enc_tensor_info :: "tensor_info \<Rightarrow> byte list" where
  "enc_tensor_info t = enc_string (ti_name t) @ enc_u32 (word_of_nat (length (ti_shape t)))
     @ concat (map enc_u64 (ti_shape t)) @ enc_u32 (word_of_nat (dtype_tag (ti_dtype t))) @ enc_u64 (ti_offset t)"

definition good_tensor_info :: "tensor_info \<Rightarrow> bool" where
  "good_tensor_info t \<longleftrightarrow> good_string (ti_name t) \<and> length (ti_shape t) < u32_limit"

lemma dtype_tag_correct: "ggml_type_from_u32 (word_of_nat (dtype_tag t)) = Some t"
  by (cases t) (simp_all add: ggml_type_from_u32_def dtype_tag_def ggml_tags_def)

interpretation tinfo: codec read_tensor_info enc_tensor_info good_tensor_info
proof
  fix t :: tensor_info assume g: "good_tensor_info t"
  have n: "unat (word_of_nat (length (ti_shape t)) :: 32 word) = length (ti_shape t)"
    using g by (simp add: good_tensor_info_def unat_of_nat limit_defs)
  have v: "reads (read_vec (length (ti_shape t)) 8 read_u64) (concat (map enc_u64 (ti_shape t))) (ti_shape t)"
    using g by (intro u64.reads_vec) (auto simp: good_tensor_info_def limit_defs)
  have o: "reads (and_then read_u64 (\<lambda>offset. ret \<lparr>ti_name = ti_name t, ti_shape = ti_shape t,
      ti_dtype = ti_dtype t, ti_offset = offset\<rparr>)) (enc_u64 (ti_offset t)) t"
    using reads_map[OF u64.reads_enc[OF TrueI, of "ti_offset t"], of "\<lambda>offset. \<lparr>ti_name = ti_name t, ti_shape = ti_shape t,
      ti_dtype = ti_dtype t, ti_offset = offset\<rparr>"] by (cases t) simp
  define kont where "kont name shape tag = (case ggml_type_from_u32 tag of
         None \<Rightarrow> fail (UnknownDtype tag)
       | Some dt \<Rightarrow> and_then read_u64 (\<lambda>offset.
           ret \<lparr>ti_name = name, ti_shape = shape, ti_dtype = dt, ti_offset = offset\<rparr>))" for name shape tag
  define dims where "dims name n_dims = and_then (read_vec (unat n_dims) 8 read_u64)
      (\<lambda>shape. and_then read_u32 (kont name shape))" for name and n_dims :: "32 word"
  let ?tag = "word_of_nat (dtype_tag (ti_dtype t)) :: 32 word" and ?n = "word_of_nat (length (ti_shape t)) :: 32 word"
  have "reads (kont (ti_name t) (ti_shape t) ?tag) (enc_u64 (ti_offset t)) t"
    using o by (simp add: kont_def dtype_tag_correct)
  then have "reads (and_then read_u32 (kont (ti_name t) (ti_shape t))) (enc_u32 ?tag @ enc_u64 (ti_offset t)) t"
    by (rule reads_and_then[where x = ?tag, OF u32.reads_enc[OF TrueI]])
  then have "reads (dims (ti_name t) ?n) (concat (map enc_u64 (ti_shape t)) @ enc_u32 ?tag @ enc_u64 (ti_offset t)) t"
    unfolding dims_def n by (rule reads_and_then[where x = "ti_shape t", OF v])
  then have "reads (and_then read_u32 (dims (ti_name t)))
      (enc_u32 ?n @ concat (map enc_u64 (ti_shape t)) @ enc_u32 ?tag @ enc_u64 (ti_offset t)) t"
    by (rule reads_and_then[where x = ?n, OF u32.reads_enc[OF TrueI]])
  then have "reads (and_then (read_string ''tensor.name'') (\<lambda>name. and_then read_u32 (dims name))) (enc_tensor_info t) t"
    unfolding enc_tensor_info_def using g
    by (intro reads_and_then[where x = "ti_name t", OF str.reads_enc]) (simp_all add: good_tensor_info_def)
  then show "reads read_tensor_info (enc_tensor_info t) t"
    unfolding read_tensor_info_def dims_def kont_def .
qed

definition enc_front :: "32 word \<Rightarrow> (byte list \<times> meta_value) list \<Rightarrow> tensor_info list \<Rightarrow> byte list" where
  "enc_front version kvs ts = enc_u32 GGUF_MAGIC @ enc_u32 version
     @ enc_u64 (word_of_nat (length ts)) @ enc_u64 (word_of_nat (length kvs))
     @ concat (map enc_kv kvs) @ concat (map enc_tensor_info ts)"

lemma insert_all_distinct: "distinct (map fst kvs) \<Longrightarrow> insert_all kvs = kvs"
proof -
  have "distinct (map fst (acc @ kvs)) \<Longrightarrow> fold (\<lambda>(k, v) m. AList.update k v m) kvs acc = acc @ kvs" for acc
  proof (induction kvs arbitrary: acc)
    case (Cons x kvs)
    have "AList.update (fst x) (snd x) acc = acc @ [x]"
      using Cons.prems by (induction acc) (auto split: if_splits)
    with Cons show ?case by (simp add: case_prod_unfold)
  qed simp
  from this[of "[]"] show "distinct (map fst kvs) \<Longrightarrow> insert_all kvs = kvs" by (simp add: insert_all_def)
qed

definition good_front :: "32 word \<Rightarrow> (byte list \<times> meta_value) list \<Rightarrow> tensor_info list \<Rightarrow> bool" where
  "good_front version kvs ts \<longleftrightarrow> version \<in> {2, 3} \<and> distinct (map fst kvs) \<and> list_all good_kv kvs
     \<and> list_all good_tensor_info ts \<and> length kvs < i64_limit \<and> length ts * tensor_info_size < i64_limit"

lemma reads_header:
  assumes "version \<in> {2, 3}"
  shows "reads read_header (enc_u32 GGUF_MAGIC @ enc_u32 version @ enc_u64 tc @ enc_u64 mc)
    (version, unat tc, unat mc)"
  unfolding read_header_def
  using assms reads_map[OF u64.reads_enc[OF TrueI, of mc], of "\<lambda>mc. (version, unat tc, unat mc)"]
  by (intro reads_and_then[OF u32.reads_enc[OF TrueI, of GGUF_MAGIC]])
    (auto intro!: reads_and_then[OF u32.reads_enc[OF TrueI, of version]] reads_and_then[OF u64.reads_enc[OF TrueI, of tc]])

lemma reads_front:
  assumes g: "good_front version kvs ts"
  shows "reads read_front (enc_front version kvs ts) (version, kvs, ts)"
proof -
  have n: "unat (word_of_nat (length ts) :: 64 word) = length ts"
    "unat (word_of_nat (length kvs) :: 64 word) = length kvs"
    using g by (auto simp: good_front_def unat_of_nat limit_defs tensor_info_size_def)
  have h: "reads read_header (enc_u32 GGUF_MAGIC @ enc_u32 version @ enc_u64 (word_of_nat (length ts))
      @ enc_u64 (word_of_nat (length kvs))) (version, length ts, length kvs)"
    using reads_header[of version "word_of_nat (length ts)" "word_of_nat (length kvs)"] g
    by (simp add: n good_front_def)
  have k: "reads (read_many (length kvs) read_kv) (concat (map enc_kv kvs)) kvs"
    using g by (intro kv.reads_many) (simp add: good_front_def)
  have t: "reads (read_vec (length ts) tensor_info_size read_tensor_info) (concat (map enc_tensor_info ts)) ts"
    using g by (intro tinfo.reads_vec) (simp_all add: good_front_def)
  have "insert_all kvs = kvs" using g by (intro insert_all_distinct) (simp add: good_front_def)
  with reads_map[OF t, of "\<lambda>ts. (version, insert_all kvs, ts)"]
  have "reads (and_then (read_vec (length ts) tensor_info_size read_tensor_info)
      (\<lambda>ts. ret (version, insert_all kvs, ts))) (concat (map enc_tensor_info ts)) (version, kvs, ts)" by simp
  from reads_and_then[where f = "\<lambda>kvs. and_then (read_vec (length ts) tensor_info_size read_tensor_info)
      (\<lambda>ts. ret (version, insert_all kvs, ts))", OF k this]
  have "reads (case (version, length ts, length kvs) of (version, tensor_count, metadata_count) \<Rightarrow>
     and_then (read_many metadata_count read_kv) (\<lambda>kvs.
     and_then (read_vec tensor_count tensor_info_size read_tensor_info) (\<lambda>tensors.
       ret (version, insert_all kvs, tensors)))) (concat (map enc_kv kvs) @ concat (map enc_tensor_info ts))
     (version, kvs, ts)" by simp
  from reads_and_then[where f = "\<lambda>(version, tensor_count, metadata_count).
     and_then (read_many metadata_count read_kv) (\<lambda>kvs.
     and_then (read_vec tensor_count tensor_info_size read_tensor_info) (\<lambda>tensors.
       ret (version, insert_all kvs, tensors)))", OF h this]
  show ?thesis by (simp add: read_front_def enc_front_def)
qed

text \<open>The tensors lie inside a data section of \<open>n\<close> bytes.\<close>

definition tensors_within :: "nat \<Rightarrow> tensor_info list \<Rightarrow> bool" where
  "tensors_within n ts \<longleftrightarrow> list_all (\<lambda>t. case ti_byte_size t of
     None \<Rightarrow> False | Some sz \<Rightarrow> unat (ti_offset t) + sz \<le> n) ts"

lemma check_tensors_Inr:
  "n < u64_limit \<Longrightarrow> check_tensors n ts = Some (Inr ()) \<longleftrightarrow> tensors_within n ts"
proof (induction ts)
  case (Cons t ts)
  show ?case
  proof (cases "ti_byte_size t")
    case (Some sz)
    with Cons show ?thesis by (auto simp: tensors_within_def checked_add_u64_def)
  qed (auto simp: tensors_within_def)
qed (simp add: tensors_within_def)

text \<open>
  C10. Reading what the format prescribes gives back the file: for every version 2 or 3 header,
  metadata with distinct valid keys, tensor index and data section, laid out with the padding the
  alignment asks for, \<open>GgufFile::from_bytes\<close> returns exactly the metadata and the index that
  were encoded and finds the data section behind the padding.
\<close>

theorem from_bytes_roundtrip:
  assumes g: "good_front version kvs ts"
    and al: "0 < file_alignment kvs"
    and pad: "length (enc_front version kvs ts) + length pad
        = div_ceil (length (enc_front version kvs ts)) (file_alignment kvs) * file_alignment kvs"
    and fits: "length (enc_front version kvs ts @ pad @ data) < i64_limit"
    and within: "tensors_within (length data) ts"
  shows "from_bytes (enc_front version kvs ts @ pad @ data) = Some (Inr
    \<lparr>gf_bytes = enc_front version kvs ts @ pad @ data, gf_version = version, gf_metadata = kvs,
     gf_tensors = ts, gf_data_offset = length (enc_front version kvs ts) + length pad,
     gf_alignment = file_alignment kvs\<rparr>)"
proof -
  let ?f = "enc_front version kvs ts"
  have r: "read_front (?f @ pad @ data) 0 = Parsed (version, kvs, ts) (length ?f)"
    using reads_front[OF g] fits unfolding reads_def by (metis append_Nil add_0 list.size(3))
  have lim: "length ?f + length pad < u64_limit" "length data < u64_limit"
    using fits i64_u64 by (simp_all add: limit_defs)
  then have m: "checked_mul_u64 (div_ceil (length ?f) (file_alignment kvs)) (file_alignment kvs)
      = Some (length ?f + length pad)" by (simp add: pad)
  have c: "check_tensors (length (?f @ pad @ data) - (length ?f + length pad)) ts = Some (Inr ())"
    using within lim(2) by (simp add: check_tensors_Inr)
  have "file_alignment kvs \<noteq> 0" "\<not> length (?f @ pad @ data) < length ?f + length pad" using al by simp_all
  then show ?thesis
    unfolding from_bytes_def r parsed.case prod.case Let_def m option.case c sum.case by (simp only: if_False)
qed

abbreviation sample_kvs :: "(byte list \<times> meta_value) list" where
  "sample_kvs \<equiv> [(ascii ''a'', VArray (AI16 [7, 65535]))]"

abbreviation sample_tensors :: "tensor_info list" where
  "sample_tensors \<equiv> [\<lparr>ti_name = ascii ''w'', ti_shape = [2], ti_dtype = GF32, ti_offset = 0\<rparr>]"

theorem from_bytes_roundtrip_witness:
  "let front = enc_front 3 sample_kvs sample_tensors; bytes = front @ replicate 10 0 @ replicate 8 1 in
   from_bytes bytes = Some (Inr
    \<lparr>gf_bytes = bytes, gf_version = 3, gf_metadata = sample_kvs, gf_tensors = sample_tensors,
     gf_data_offset = length front + length (replicate 10 (0 :: byte)), gf_alignment = file_alignment sample_kvs\<rparr>)"
proof -
  have g: "good_front 3 sample_kvs sample_tensors" by code_simp
  have al: "0 < file_alignment sample_kvs" by code_simp
  have pad: "length (enc_front 3 sample_kvs sample_tensors) + length (replicate 10 (0 :: byte))
        = div_ceil (length (enc_front 3 sample_kvs sample_tensors)) (file_alignment sample_kvs) * file_alignment sample_kvs"
    by code_simp
  have fits: "length (enc_front 3 sample_kvs sample_tensors @ replicate 10 0 @ replicate 8 1) < i64_limit" by code_simp
  have within: "tensors_within (length (replicate 8 (1 :: byte))) sample_tensors" by code_simp
  from from_bytes_roundtrip[OF g al pad fits within] show ?thesis unfolding Let_def .
qed

section \<open>What a successful read guarantees\<close>

lemma from_bytes_Inr:
  assumes "from_bytes bytes = Some (Inr f)"
  obtains e where "read_front bytes 0 = Parsed (gf_version f, gf_metadata f, gf_tensors f) e"
    "gf_bytes f = bytes" "gf_alignment f = file_alignment (gf_metadata f)" "0 < gf_alignment f"
    "gf_data_offset f = div_ceil e (gf_alignment f) * gf_alignment f" "gf_data_offset f \<le> length bytes"
    "check_tensors (length bytes - gf_data_offset f) (gf_tensors f) = Some (Inr ())"
proof -
  from assms obtain v m ts e where r: "read_front bytes 0 = Parsed (v, m, ts) e"
    by (auto simp: from_bytes_def split: parsed.splits)
  from assms show ?thesis
    unfolding from_bytes_def r parsed.case prod.case Let_def
    by (intro that[of e]) (auto simp: r split: if_splits option.splits sum.splits)
qed

lemma indexed_tensor_bytes:
  assumes ok: "from_bytes bytes = Some (Inr f)" and len: "length bytes < u64_limit"
    and t: "t \<in> set (gf_tensors f)"
  obtains sz where "ti_byte_size t = Some sz" "gf_data_offset f + unat (ti_offset t) + sz \<le> length bytes"
    "tensor_bytes f t = Some (take sz (drop (gf_data_offset f + unat (ti_offset t)) bytes))"
proof (rule from_bytes_Inr[OF ok])
  fix e assume b: "gf_bytes f = bytes" and d: "gf_data_offset f \<le> length bytes"
    and c: "check_tensors (length bytes - gf_data_offset f) (gf_tensors f) = Some (Inr ())"
  have "tensors_within (length bytes - gf_data_offset f) (gf_tensors f)"
    using c len by (subst check_tensors_Inr[symmetric]) simp_all
  then obtain sz where sz: "ti_byte_size t = Some sz" "unat (ti_offset t) + sz \<le> length bytes - gf_data_offset f"
    using t by (auto simp: tensors_within_def list_all_iff split: option.splits)
  then have le: "gf_data_offset f + unat (ti_offset t) + sz \<le> length bytes" using d by simp
  then have "tensor_bytes f t = Some (take sz (drop (gf_data_offset f + unat (ti_offset t)) bytes))"
    using sz(1) len by (simp add: tensor_bytes_def checked_add_u64_def b)
  with sz(1) le show thesis by (rule that)
qed

text \<open>
  C19. What a successful \<open>from_bytes\<close> guarantees: the data section starts at a multiple of the
  alignment, behind the header, inside the file, and for every tensor of the index
  \<open>tensor_bytes\<close> returns, without a panic, exactly the bytes of the file that belong to it.
\<close>

theorem from_bytes_safe:
  assumes ok: "from_bytes bytes = Some (Inr f)" and len: "length bytes < u64_limit"
    and t: "t \<in> set (gf_tensors f)"
  shows "gf_alignment f dvd gf_data_offset f \<and> gf_data_offset f \<le> file_size f
    \<and> (\<exists>front header_end. read_front bytes 0 = Parsed front header_end \<and> header_end \<le> gf_data_offset f)
    \<and> (\<exists>sz. ti_byte_size t = Some sz \<and> gf_data_offset f + unat (ti_offset t) + sz \<le> length bytes
         \<and> tensor_bytes f t = Some (take sz (drop (gf_data_offset f + unat (ti_offset t)) bytes)))"
proof (rule from_bytes_Inr[OF ok])
  fix e assume r: "read_front bytes 0 = Parsed (gf_version f, gf_metadata f, gf_tensors f) e"
    and b: "gf_bytes f = bytes" and a: "0 < gf_alignment f"
    and d: "gf_data_offset f = div_ceil e (gf_alignment f) * gf_alignment f" "gf_data_offset f \<le> length bytes"
    and c: "check_tensors (length bytes - gf_data_offset f) (gf_tensors f) = Some (Inr ())"
  from indexed_tensor_bytes[OF ok len t] obtain sz where sz: "ti_byte_size t = Some sz"
    "gf_data_offset f + unat (ti_offset t) + sz \<le> length bytes"
    "tensor_bytes f t = Some (take sz (drop (gf_data_offset f + unat (ti_offset t)) bytes))" .
  have "e \<le> gf_data_offset f" unfolding d(1) using a by (rule div_ceil_mult_ge)
  with d sz r b show ?thesis by (auto simp: file_size_def)
qed

lemma sample_parses:
  "case from_bytes (enc_front 3 sample_kvs sample_tensors @ replicate 10 0 @ replicate 8 1) of
     Some (Inr f) \<Rightarrow> gf_tensors f = sample_tensors | _ \<Rightarrow> False"
  by code_simp

theorem from_bytes_safe_witness:
  "let bytes = enc_front 3 sample_kvs sample_tensors @ replicate 10 0 @ replicate 8 1 in
   case from_bytes bytes of
     Some (Inr f) \<Rightarrow> gf_alignment f dvd gf_data_offset f
       \<and> (\<exists>sz. ti_byte_size (hd sample_tensors) = Some sz
            \<and> tensor_bytes f (hd sample_tensors)
              = Some (take sz (drop (gf_data_offset f + unat (ti_offset (hd sample_tensors))) bytes)))
   | _ \<Rightarrow> False"
proof -
  let ?b = "enc_front 3 sample_kvs sample_tensors @ replicate 10 0 @ replicate 8 1"
  obtain f where f: "from_bytes ?b = Some (Inr f)" "gf_tensors f = sample_tensors"
    using sample_parses by (auto split: option.splits sum.splits)
  have len: "length ?b < u64_limit" by code_simp
  have t: "hd sample_tensors \<in> set (gf_tensors f)" by (simp add: f(2))
  from from_bytes_safe[OF f(1) len t] show ?thesis unfolding Let_def f(1) option.case sum.case by blast
qed

section \<open>Inputs that make the reader panic\<close>

text \<open>
  A file that ends with its header (no tensors, no padding): the data section would start behind
  the end of the file, and \<open>bytes.len() - data_offset\<close> underflows.
\<close>

lemma header_only_file_panics: "case from_bytes (enc_front 3 [] []) of None \<Rightarrow> True | Some _ \<Rightarrow> False"
  by code_simp

text \<open>An alignment of zero in the metadata: \<open>div_ceil\<close> divides by zero.\<close>

lemma zero_alignment_panics:
  "case from_bytes (enc_front 3 [(ascii ''general.alignment'', VU32 0)] [] @ replicate 64 0) of
     None \<Rightarrow> True | Some _ \<Rightarrow> False"
  by code_simp

text \<open>A key whose length is \<open>2^64 - 1\<close>: the addition in \<open>Cursor::need\<close> overflows.\<close>

lemma huge_length_panics:
  "case from_bytes (enc_u32 GGUF_MAGIC @ enc_u32 3 @ enc_u64 0 @ enc_u64 1 @ enc_u64 (- 1)) of
     None \<Rightarrow> True | Some _ \<Rightarrow> False"
  by code_simp

end
