(* ===== verification/Gguf_Dequant.thy ===== *)
theory Gguf_Dequant
  imports Gguf_Reader
begin

text \<open>
  Dequantisation to \<open>f32\<close>: \<open>rustorch-gguf/src/dequant.rs\<close>.  Bytes are 8-bit words and the bit
  operations of the source are those of words; the arithmetic of \<open>f32\<close> and the widening of the
  half-precision formats are arguments (\<open>F\<close>).

  The source writes the weights of a block in ascending order (or group by group) into the
  output slice; a decoder returns the list of them.  \<open>None\<close> is the panic of an index out of
  range.  The locale \<open>block_format\<close> is the contract of a format; the theory \<open>Gguf_Packing\<close> has the
  formats' reference packings.
\<close>

unbundle bit_operations_syntax

section \<open>Floating point\<close>

record 'f f32_float =
  fl_mul :: "'f \<Rightarrow> 'f \<Rightarrow> 'f"
  fl_sub :: "'f \<Rightarrow> 'f \<Rightarrow> 'f"
  fl_add :: "'f \<Rightarrow> 'f \<Rightarrow> 'f"
  fl_int :: "int \<Rightarrow> 'f"
  fl_bits :: "32 word \<Rightarrow> 'f"
  fl_f16 :: "16 word \<Rightarrow> 'f"
  fl_bf16 :: "16 word \<Rightarrow> 'f"

text \<open>\<open>from_le_bytes\<close>\<close>

definition u16_le :: "byte list \<Rightarrow> 16 word" where
  "u16_le bs = word_of_nat (le_nat bs)"

definition u32_le :: "byte list \<Rightarrow> 32 word" where
  "u32_le bs = word_of_nat (le_nat bs)"

section \<open>Formats\<close>

datatype dequant_error =
    Unsupported ggml_type
  | BufferTooSmall nat nat
  | OutputSize nat nat

definition Q8_0_BS :: nat where "Q8_0_BS = 32"
definition Q8_0_BYTES :: nat where "Q8_0_BYTES = 2 + 32"
definition QK_K :: nat where "QK_K = 256"
definition Q4_K_BYTES :: nat where "Q4_K_BYTES = 2 + 2 + 12 + 128"
definition Q5_K_BYTES :: nat where "Q5_K_BYTES = 2 + 2 + 12 + 32 + 128"
definition Q6_K_BYTES :: nat where "Q6_K_BYTES = 128 + 64 + 16 + 2"
definition Q3_K_BYTES :: nat where "Q3_K_BYTES = 32 + 64 + 12 + 2"

lemmas format_sizes = Q8_0_BS_def Q8_0_BYTES_def QK_K_def Q4_K_BYTES_def Q5_K_BYTES_def Q6_K_BYTES_def Q3_K_BYTES_def

definition slice_bytes :: "byte list \<Rightarrow> nat \<Rightarrow> nat \<Rightarrow> byte list option" where
  "slice_bytes src off len = (if off + len \<le> length src then Some (take len (drop off src)) else None)"

subsection \<open>Dense formats\<close>

text \<open>\<open>chunks_exact(w)\<close> over the checked prefix.\<close>

definition dequant_dense :: "nat \<Rightarrow> (byte list \<Rightarrow> 'f) \<Rightarrow> byte list \<Rightarrow> nat \<Rightarrow> (dequant_error + 'f list) option" where
  "dequant_dense w conv src n =
     (let needed = n * w in
      if length src < needed then Some (Inl (BufferTooSmall needed (length src)))
      else Some (Inr (map (\<lambda>i. conv (take w (drop (i * w) (take needed src)))) [0..<n])))"

definition dequant_f32 :: "'f f32_float \<Rightarrow> byte list \<Rightarrow> nat \<Rightarrow> (dequant_error + 'f list) option" where
  "dequant_f32 F src n = dequant_dense 4 (\<lambda>c. fl_bits F (u32_le c)) src n"

definition dequant_f16 :: "'f f32_float \<Rightarrow> byte list \<Rightarrow> nat \<Rightarrow> (dequant_error + 'f list) option" where
  "dequant_f16 F src n = dequant_dense 2 (\<lambda>c. fl_f16 F (u16_le c)) src n"

definition dequant_bf16 :: "'f f32_float \<Rightarrow> byte list \<Rightarrow> nat \<Rightarrow> (dequant_error + 'f list) option" where
  "dequant_bf16 F src n = dequant_dense 2 (\<lambda>c. fl_bf16 F (u16_le c)) src n"

subsection \<open>Blocks\<close>

text \<open>The frame of the block formats: \<open>n\<close> weights in blocks of \<open>bs\<close> weights and \<open>bytes\<close> bytes.\<close>

definition dequant_blocks ::
  "nat \<Rightarrow> nat \<Rightarrow> (byte list \<Rightarrow> 'f list) \<Rightarrow> byte list \<Rightarrow> nat \<Rightarrow> (dequant_error + 'f list) option" where
  "dequant_blocks bs bytes decode src n =
     (if n mod bs \<noteq> 0 then Some (Inl (OutputSize (n div bs * bs) n))
      else let nb = n div bs; needed = nb * bytes in
        if length src < needed then Some (Inl (BufferTooSmall needed (length src)))
        else (case those (map (\<lambda>b. map_option decode (slice_bytes src (b * bytes) bytes)) [0..<nb]) of
           None \<Rightarrow> None
         | Some outs \<Rightarrow> Some (Inr (concat outs))))"

definition decode_q8_0 :: "'f f32_float \<Rightarrow> byte list \<Rightarrow> 'f list" where
  "decode_q8_0 F blk =
     (let d = fl_f16 F (u16_le [blk ! 0, blk ! 1]);
          qs = take 32 (drop 2 blk)
      in map (\<lambda>i. fl_mul F (fl_int F (sint (qs ! i))) d) [0..<32])"

definition dequant_q8_0 :: "'f f32_float \<Rightarrow> byte list \<Rightarrow> nat \<Rightarrow> (dequant_error + 'f list) option" where
  "dequant_q8_0 F src n = dequant_blocks Q8_0_BS Q8_0_BYTES (decode_q8_0 F) src n"

definition unpack_q4_k_sc_m :: "byte list \<Rightarrow> byte list \<times> byte list" where
  "unpack_q4_k_sc_m scales =
     (map (\<lambda>i. scales ! i AND 0x3F) [0..<4]
        @ map (\<lambda>i. (scales ! (i + 8) AND 0x0F) OR push_bit 4 (drop_bit 6 (scales ! i))) [0..<4],
      map (\<lambda>i. scales ! (i + 4) AND 0x3F) [0..<4]
        @ map (\<lambda>i. drop_bit 4 (scales ! (i + 8)) OR push_bit 4 (drop_bit 6 (scales ! (i + 4)))) [0..<4])"

definition decode_q4_k :: "'f f32_float \<Rightarrow> byte list \<Rightarrow> 'f list" where
  "decode_q4_k F blk =
     (let d = fl_f16 F (u16_le [blk ! 0, blk ! 1]);
          dmin = fl_f16 F (u16_le [blk ! 2, blk ! 3]);
          (sc, m) = unpack_q4_k_sc_m (take 12 (drop 4 blk));
          qs = take 128 (drop 16 blk)
      in concat (map (\<lambda>j_pair.
           let j0 = 2 * j_pair; j1 = 2 * j_pair + 1;
               nibbles = take 32 (drop (j_pair * 32) qs);
               scale0 = fl_mul F d (fl_int F (uint (sc ! j0))); min0 = fl_mul F dmin (fl_int F (uint (m ! j0)));
               scale1 = fl_mul F d (fl_int F (uint (sc ! j1))); min1 = fl_mul F dmin (fl_int F (uint (m ! j1)))
           in map (\<lambda>k. let q = fl_int F (uint (nibbles ! k AND 0x0F)) in fl_sub F (fl_mul F scale0 q) min0) [0..<32]
            @ map (\<lambda>k. let q = fl_int F (uint (drop_bit 4 (nibbles ! k))) in fl_sub F (fl_mul F scale1 q) min1) [0..<32])
         [0..<4]))"

definition dequant_q4_k :: "'f f32_float \<Rightarrow> byte list \<Rightarrow> nat \<Rightarrow> (dequant_error + 'f list) option" where
  "dequant_q4_k F src n = dequant_blocks QK_K Q4_K_BYTES (decode_q4_k F) src n"

text \<open>\<open>u1\<close> and \<open>u2\<close> move up by two bits with every pair.\<close>

definition decode_q5_k :: "'f f32_float \<Rightarrow> byte list \<Rightarrow> 'f list" where
  "decode_q5_k F blk =
     (let d = fl_f16 F (u16_le [blk ! 0, blk ! 1]);
          dmin = fl_f16 F (u16_le [blk ! 2, blk ! 3]);
          (sc, m) = unpack_q4_k_sc_m (take 12 (drop 4 blk));
          qh = take 32 (drop 16 blk);
          qs_all = take 128 (drop 48 blk)
      in concat (map (\<lambda>pair.
           let u1 = push_bit (2 * pair) 1; u2 = push_bit (2 * pair) 2;
               sb0 = 2 * pair; sb1 = 2 * pair + 1;
               scale0 = fl_mul F d (fl_int F (uint (sc ! sb0))); min0 = fl_mul F dmin (fl_int F (uint (m ! sb0)));
               scale1 = fl_mul F d (fl_int F (uint (sc ! sb1))); min1 = fl_mul F dmin (fl_int F (uint (m ! sb1)));
               ql = take 32 (drop (pair * 32) qs_all)
           in map (\<lambda>l. let low = fl_int F (uint (ql ! l AND 0x0F));
                            high = fl_int F (if qh ! l AND u1 \<noteq> 0 then 16 else 0)
                        in fl_sub F (fl_mul F scale0 (fl_add F low high)) min0) [0..<32]
            @ map (\<lambda>l. let low = fl_int F (uint (drop_bit 4 (ql ! l)));
                            high = fl_int F (if qh ! l AND u2 \<noteq> 0 then 16 else 0)
                        in fl_sub F (fl_mul F scale1 (fl_add F low high)) min1) [0..<32])
         [0..<4]))"

definition dequant_q5_k :: "'f f32_float \<Rightarrow> byte list \<Rightarrow> nat \<Rightarrow> (dequant_error + 'f list) option" where
  "dequant_q5_k F src n = dequant_blocks QK_K Q5_K_BYTES (decode_q5_k F) src n"

text \<open>The four groups of a half, each at its own place of the output.\<close>

definition decode_q6_k :: "'f f32_float \<Rightarrow> byte list \<Rightarrow> 'f list" where
  "decode_q6_k F blk =
     (let ql = take 128 blk; qh = take 64 (drop 128 blk); scales = take 16 (drop 192 blk);
          d = fl_f16 F (u16_le [blk ! 208, blk ! 209])
      in concat (map (\<lambda>half.
           let ql_h = take 64 (drop (half * 64) ql); qh_h = take 32 (drop (half * 32) qh);
               sc_h = take 8 (drop (half * 8) scales);
               s = (\<lambda>i. fl_mul F d (fl_int F (sint (sc_h ! i))));
               q1 = (\<lambda>l. uint (ql_h ! l AND 0x0F) OR push_bit 4 (uint (qh_h ! l AND 0x03)));
               q2 = (\<lambda>l. uint (ql_h ! (l + 32) AND 0x0F) OR push_bit 4 (uint (drop_bit 2 (qh_h ! l) AND 0x03)));
               q3 = (\<lambda>l. uint (drop_bit 4 (ql_h ! l)) OR push_bit 4 (uint (drop_bit 4 (qh_h ! l) AND 0x03)));
               q4 = (\<lambda>l. uint (drop_bit 4 (ql_h ! (l + 32))) OR push_bit 4 (uint (drop_bit 6 (qh_h ! l) AND 0x03)))
           in map (\<lambda>l. fl_mul F (s (l div 16)) (fl_int F (q1 l - 32))) [0..<32]
            @ map (\<lambda>l. fl_mul F (s (2 + l div 16)) (fl_int F (q2 l - 32))) [0..<32]
            @ map (\<lambda>l. fl_mul F (s (4 + l div 16)) (fl_int F (q3 l - 32))) [0..<32]
            @ map (\<lambda>l. fl_mul F (s (6 + l div 16)) (fl_int F (q4 l - 32))) [0..<32])
         [0..<2]))"

definition dequant_q6_k :: "'f f32_float \<Rightarrow> byte list \<Rightarrow> nat \<Rightarrow> (dequant_error + 'f list) option" where
  "dequant_q6_k F src n = dequant_blocks QK_K Q6_K_BYTES (decode_q6_k F) src n"

definition KMASK1 :: "32 word" where "KMASK1 = 0x03030303"
definition KMASK2 :: "32 word" where "KMASK2 = 0x0F0F0F0F"

definition bytes_of_u32 :: "32 word \<Rightarrow> byte list" where
  "bytes_of_u32 a = map (\<lambda>k. ucast (drop_bit (8 * k) a AND 0xFF)) [0..<4]"

definition unpack_q3_k_scales :: "byte list \<Rightarrow> byte list" where
  "unpack_q3_k_scales sc_raw =
     (let aux0 = u32_le (take 4 sc_raw); aux1 = u32_le (take 4 (drop 4 sc_raw));
          aux2_raw = u32_le (take 4 (drop 8 sc_raw));
          aux2 = (drop_bit 4 aux0 AND KMASK2) OR push_bit 4 (drop_bit 4 aux2_raw AND KMASK1);
          aux3 = (drop_bit 4 aux1 AND KMASK2) OR push_bit 4 (drop_bit 6 aux2_raw AND KMASK1);
          aux0' = (aux0 AND KMASK2) OR push_bit 4 (aux2_raw AND KMASK1);
          aux1' = (aux1 AND KMASK2) OR push_bit 4 (drop_bit 2 aux2_raw AND KMASK1)
      in bytes_of_u32 aux0' @ bytes_of_u32 aux1' @ bytes_of_u32 aux2 @ bytes_of_u32 aux3)"

text \<open>\<open>is\<close>, \<open>m\<close> and \<open>shift\<close> count the sub-blocks across both halves: with pass \<open>p < 8\<close> (the half is
  \<open>p div 4\<close>) the scales are \<open>2p\<close> and \<open>2p + 1\<close>, the mask bit is \<open>p\<close> and the shift \<open>2 (p mod 4)\<close>.\<close>

definition decode_q3_k :: "'f f32_float \<Rightarrow> byte list \<Rightarrow> 'f list" where
  "decode_q3_k F blk =
     (let hmask = take 32 blk; qs = take 64 (drop 32 blk); scales = unpack_q3_k_scales (take 12 (drop 96 blk));
          d_all = fl_f16 F (u16_le [blk ! 108, blk ! 109])
      in concat (map (\<lambda>p.
           let q_chunk = take 32 (drop (32 * (p div 4)) qs); shift = 2 * (p mod 4); m = push_bit p 1;
               dl = (\<lambda>i. fl_mul F d_all (fl_int F (sint (scales ! i) - 32)));
               v = (\<lambda>l. uint (drop_bit shift (q_chunk ! l) AND 0x03) - (if hmask ! l AND m \<noteq> 0 then 0 else 4))
           in map (\<lambda>l. fl_mul F (dl (2 * p)) (fl_int F (v l))) [0..<16]
            @ map (\<lambda>l. fl_mul F (dl (2 * p + 1)) (fl_int F (v (l + 16)))) [0..<16])
         [0..<8]))"

definition dequant_q3_k :: "'f f32_float \<Rightarrow> byte list \<Rightarrow> nat \<Rightarrow> (dequant_error + 'f list) option" where
  "dequant_q3_k F src n = dequant_blocks QK_K Q3_K_BYTES (decode_q3_k F) src n"

subsection \<open>Dispatch\<close>

definition dequantize_block_chunk ::
  "'f f32_float \<Rightarrow> ggml_type \<Rightarrow> byte list \<Rightarrow> nat \<Rightarrow> (dequant_error + 'f list) option" where
  "dequantize_block_chunk F dtype src n =
     (case dtype of
        GF32 \<Rightarrow> dequant_f32 F src n
      | GF16 \<Rightarrow> dequant_f16 F src n
      | GBF16 \<Rightarrow> dequant_bf16 F src n
      | Q8_0 \<Rightarrow> dequant_q8_0 F src n
      | Q3_K \<Rightarrow> dequant_q3_k F src n
      | Q4_K \<Rightarrow> dequant_q4_k F src n
      | Q5_K \<Rightarrow> dequant_q5_k F src n
      | Q6_K \<Rightarrow> dequant_q6_k F src n
      | other \<Rightarrow> Some (Inl (Unsupported other)))"

text \<open>\<open>vec![0f32; n]\<close> panics when its size in bytes exceeds \<open>isize::MAX\<close>, and so does an overflow in
  the number of elements.\<close>

definition dequant_to_f32 :: "'f f32_float \<Rightarrow> tensor_info \<Rightarrow> byte list \<Rightarrow> (dequant_error + 'f list) option" where
  "dequant_to_f32 F t src =
     (case n_elements t of
        None \<Rightarrow> None
      | Some n \<Rightarrow> if n * 4 < i64_limit then dequantize_block_chunk F (ti_dtype t) src n else None)"

section \<open>Bits\<close>

lemma byte_bit: "bit (x :: byte) n \<Longrightarrow> n < 8"
  using bit_imp_le_length[of x n] by simp

lemma take_bit_id_iff: "take_bit w (x :: byte) = x \<longleftrightarrow> (\<forall>n. bit x n \<longrightarrow> n < w)"
proof
  assume t: "take_bit w x = x"
  show "\<forall>n. bit x n \<longrightarrow> n < w" using bit_take_bit_iff[of w x] unfolding t by blast
next
  assume "\<forall>n. bit x n \<longrightarrow> n < w"
  then show "take_bit w x = x" by (intro bit_word_eqI) (auto simp: bit_take_bit_iff)
qed

lemma byte_masks:
  "(b :: byte) AND 0x0F = take_bit 4 b" "b AND 0x03 = take_bit 2 b" "b AND 0x3F = take_bit 6 b"
  by (simp_all add: take_bit_eq_mask mask_eq_exp_minus_1)

lemma drop_byte: "drop_bit 4 (b :: byte) = take_bit 4 (drop_bit 4 b)"
  by (rule bit_word_eqI) (auto simp: bit_simps dest: byte_bit)

lemma single_bit: "(b :: byte) AND push_bit n 1 \<noteq> 0 \<longleftrightarrow> bit b n"
proof -
  have "b AND push_bit n 1 = 0 \<longleftrightarrow> \<not> bit b n"
  proof
    assume "b AND push_bit n 1 = 0"
    then have "\<not> bit (b AND push_bit n 1) n" by simp
    then show "\<not> bit b n" by (auto simp: bit_simps dest: bit_imp_le_length)
  next
    assume "\<not> bit b n"
    then show "b AND push_bit n 1 = 0" by (intro bit_word_eqI) (auto simp: bit_simps)
  qed
  then show ?thesis by simp
qed

text \<open>A byte made of the fields \<open>fs\<close> of \<open>w\<close> bits each, the first one lowest.\<close>

definition pack :: "nat \<Rightarrow> byte list \<Rightarrow> byte" where
  "pack w fs = horner_sum of_bool 2 (map (\<lambda>n. n div w < length fs \<and> bit (fs ! (n div w)) (n mod w)) [0..<8])"

lemma bit_pack: "bit (pack w fs) n \<longleftrightarrow> n < 8 \<and> n div w < length fs \<and> bit (fs ! (n div w)) (n mod w)"
  by (auto simp: pack_def bit_horner_sum_bit_word_iff)

lemma pack_field:
  assumes "s < length fs" "0 < w" "w * s + w \<le> 8" "take_bit w (fs ! s) = fs ! s"
  shows "take_bit w (drop_bit (w * s) (pack w fs)) = fs ! s"
proof (rule bit_word_eqI)
  fix n assume "n < LENGTH(8)"
  have "bit (fs ! s) n \<Longrightarrow> n < w" using assms(4) take_bit_id_iff by blast
  then show "bit (take_bit w (drop_bit (w * s) (pack w fs))) n = bit (fs ! s) n"
    using assms(1-3) by (auto simp: bit_take_bit_iff bit_drop_bit_eq bit_pack)
qed

lemma pack_flag:
  assumes "s < length fs" "s < 8"
  shows "bit (pack 1 fs) s \<longleftrightarrow> bit (fs ! s) 0"
  using assms by (simp add: bit_pack)

text \<open>Lists that are written block by block.\<close>

lemma map_blocks: "map f [0..<a * b] = concat (map (\<lambda>p. map (\<lambda>k. f (p * b + k)) [0..<b]) [0..<a])"
proof (induction a)
  case (Suc a)
  have "[0..<Suc a * b] = [0..<a * b] @ map (\<lambda>k. a * b + k) [0..<b]"
    by (rule nth_equalityI) (auto simp: nth_append)
  then show ?case using Suc by (simp add: o_def)
qed simp

lemma upt_double: "map f [0..<n + m] = map f [0..<n] @ map (\<lambda>k. f (n + k)) [0..<m]"
  by (rule nth_equalityI) (auto simp: nth_append)

section \<open>The frame\<close>

text \<open>
  A block format: a decoder that gives \<open>bs\<close> weights for every block of \<open>bytes\<close> bytes, and the
  packing \<open>encode\<close> of a block's contents that it inverts: the decoded weights are \<open>weights\<close>.
\<close>

locale block_format =
  fixes bs bytes :: nat and decode :: "'f f32_float \<Rightarrow> byte list \<Rightarrow> 'f list"
    and good :: "'b \<Rightarrow> bool" and encode :: "'b \<Rightarrow> byte list" and weights :: "'f f32_float \<Rightarrow> 'b \<Rightarrow> 'f list"
  assumes bs_pos: "0 < bs"
    and decode_length: "length blk = bytes \<Longrightarrow> length (decode F blk) = bs"
    and encode_length: "good b \<Longrightarrow> length (encode b) = bytes"
    and decode_encode: "good b \<Longrightarrow> decode F (encode b) = weights F b"
begin

lemma blocks_eq:
  assumes "nb * bytes \<le> length src"
  shows "those (map (\<lambda>b. map_option (decode F) (slice_bytes src (b * bytes) bytes)) [0..<nb])
    = Some (map (\<lambda>b. decode F (take bytes (drop (b * bytes) src))) [0..<nb])"
proof (rule those_map_Some, rule ballI)
  fix b assume "b \<in> set [0..<nb]"
  then have "Suc b * bytes \<le> nb * bytes" by (intro mult_le_mono1) simp
  with assms have "b * bytes + bytes \<le> length src" by simp
  then show "map_option (decode F) (slice_bytes src (b * bytes) bytes) = Some (decode F (take bytes (drop (b * bytes) src)))"
    by (simp add: slice_bytes_def)
qed

text \<open>The frame never panics; it succeeds exactly when the sizes fit.\<close>

lemma blocks_outcome:
  "(case dequant_blocks bs bytes (decode F) src n of
      None \<Rightarrow> False
    | Some (Inl e) \<Rightarrow> n mod bs \<noteq> 0 \<or> length src < n div bs * bytes
    | Some (Inr out) \<Rightarrow> n mod bs = 0 \<and> n div bs * bytes \<le> length src \<and> length out = n)"
proof (cases "n mod bs = 0 \<and> n div bs * bytes \<le> length src")
  case True
  have "length (decode F (take bytes (drop (b * bytes) src))) = bs" if "b < n div bs" for b
  proof (rule decode_length)
    have "Suc b * bytes \<le> n div bs * bytes" using that by (intro mult_le_mono1) simp
    with True have "b * bytes + bytes \<le> length src" by simp
    then show "length (take bytes (drop (b * bytes) src)) = bytes" by simp
  qed
  then have "sum_list (map (\<lambda>b. length (decode F (take bytes (drop (b * bytes) src)))) [0..<n div bs])
      = sum_list (map (\<lambda>_. bs) [0..<n div bs])"
    by (intro arg_cong[where f = sum_list] map_cong) simp_all
  then have "length (concat (map (\<lambda>b. decode F (take bytes (drop (b * bytes) src))) [0..<n div bs])) = n div bs * bs"
    by (simp add: length_concat o_def sum_list_triv)
  moreover have "n div bs * bs = n" using True by (metis add.right_neutral div_mult_mod_eq)
  ultimately show ?thesis using True by (simp add: dequant_blocks_def Let_def blocks_eq)
next
  case False
  then show ?thesis by (auto simp: dequant_blocks_def Let_def)
qed

lemma slices_of_concat:
  "\<forall>b \<in> set bl. good b \<Longrightarrow>
   map (\<lambda>b. take bytes (drop (b * bytes) (concat (map encode bl) @ rest))) [0..<length bl] = map encode bl"
proof (induction bl)
  case (Cons b bl)
  have b: "length (encode b) = bytes" using Cons.prems encode_length by simp
  have "map (\<lambda>k. take bytes (drop (k * bytes) (concat (map encode (b # bl)) @ rest))) [0..<length (b # bl)]
      = encode b # map (\<lambda>k. take bytes (drop (k * bytes) (concat (map encode bl) @ rest))) [0..<length bl]"
    using b by (simp add: upt_conv_Cons del: upt_Suc flip: map_Suc_upt)
  then show ?case using Cons by simp
qed simp

lemma roundtrip:
  assumes "\<forall>b \<in> set bl. good b"
  shows "dequant_blocks bs bytes (decode F) (concat (map encode bl) @ rest) (length bl * bs)
    = Some (Inr (concat (map (weights F) bl)))"
proof -
  have "length (concat (map encode bl)) = length bl * bytes"
    using assms encode_length by (induction bl) simp_all
  then have "those (map (\<lambda>b. map_option (decode F) (slice_bytes (concat (map encode bl) @ rest) (b * bytes) bytes)) [0..<length bl])
      = Some (map (decode F) (map (\<lambda>b. take bytes (drop (b * bytes) (concat (map encode bl) @ rest))) [0..<length bl]))"
    by (subst blocks_eq) simp_all
  also have "\<dots> = Some (map (weights F) bl)"
    using assms decode_encode unfolding slices_of_concat[OF assms] by simp
  finally show ?thesis
    using bs_pos \<open>length (concat (map encode bl)) = _\<close> by (simp add: dequant_blocks_def Let_def)
qed

end

end
