(* ===== verification/Gguf_Packing.thy ===== *)
theory Gguf_Packing
  imports Gguf_Dequant
begin

text \<open>
  The block formats of GGUF.  For every format there is a record of a block's contents (scales and
  quantised weights as they are), the packing of it into bytes as the file format defines it, and
  the weights it stands for.  Every decoder of \<open>Gguf_Dequant\<close> is shown to invert the packing: an
  interpretation of \<open>block_format\<close>.  The last section composes the reader and the decoders.
\<close>

unbundle bit_operations_syntax

section \<open>The formats and their packings\<close>

definition le2 :: "16 word \<Rightarrow> byte list" where
  "le2 d = le_bytes 2 (unat d)"

lemma le2_list: "le2 d = [le2 d ! 0, le2 d ! 1]" "length (le2 d) = 2"
  by (simp_all add: le2_def numeral_2_eq_2)

lemma u16_le2: "u16_le (le2 d) = d"
proof -
  have "unat d < 256 ^ 2" using unsigned_less[of d] by simp
  then show ?thesis by (simp add: u16_le_def le2_def le_nat_le_bytes)
qed

lemma u16_le2_nth: "u16_le [le2 d ! 0, le2 d ! Suc 0] = d"
  using u16_le2[of d] le2_list(1)[of d] by simp

definition fits_bits :: "nat \<Rightarrow> byte list \<Rightarrow> bool" where
  "fits_bits w xs \<longleftrightarrow> list_all (\<lambda>x. take_bit w x = x) xs"

lemma fits_bits_nth: "fits_bits w xs \<Longrightarrow> i < length xs \<Longrightarrow> take_bit w (xs ! i) = xs ! i"
  by (simp add: fits_bits_def list_all_length)

lemma fits_bits_drop:
  assumes "fits_bits (k + w) xs" "i < length xs"
  shows "take_bit w (drop_bit k (xs ! i)) = drop_bit k (xs ! i)"
proof -
  have "bit (xs ! i) n \<Longrightarrow> n < k + w" for n
    using fits_bits_nth[OF assms] unfolding take_bit_id_iff by blast
  then show ?thesis unfolding take_bit_id_iff by (fastforce simp: bit_drop_bit_eq)
qed

subsection \<open>Q8_0\<close>

record q8_block =
  q8_d :: "16 word"
  q8_q :: "byte list"

definition good_q8 :: "q8_block \<Rightarrow> bool" where
  "good_q8 b \<longleftrightarrow> length (q8_q b) = 32"

definition encode_q8 :: "q8_block \<Rightarrow> byte list" where
  "encode_q8 b = le2 (q8_d b) @ q8_q b"

definition weights_q8 :: "'f f32_float \<Rightarrow> q8_block \<Rightarrow> 'f list" where
  "weights_q8 F b = map (\<lambda>q. fl_mul F (fl_int F (sint q)) (fl_f16 F (q8_d b))) (q8_q b)"

interpretation q8: block_format Q8_0_BS Q8_0_BYTES decode_q8_0 good_q8 encode_q8 weights_q8
proof
  show "0 < Q8_0_BS" by (simp add: format_sizes)
  fix F :: "'f f32_float" and b
  show "length (decode_q8_0 F blk) = Q8_0_BS" for blk by (simp add: decode_q8_0_def Let_def format_sizes)
  assume g: "good_q8 b"
  then show "length (encode_q8 b) = Q8_0_BYTES" by (simp add: good_q8_def encode_q8_def le2_list(2) format_sizes)
  have "u16_le [encode_q8 b ! 0, encode_q8 b ! 1] = q8_d b" "take 32 (drop 2 (encode_q8 b)) = q8_q b"
    using g by (simp_all add: encode_q8_def nth_append le2_list(2) u16_le2_nth good_q8_def)
  moreover have "map (\<lambda>i. fl_mul F (fl_int F (sint (q8_q b ! i))) (fl_f16 F (q8_d b))) [0..<32] = weights_q8 F b"
    using g map_nth[of "q8_q b"] unfolding good_q8_def weights_q8_def by (metis (no_types, lifting) map_map o_def map_eq_conv)
  ultimately show "decode_q8_0 F (encode_q8 b) = weights_q8 F b"
    by (simp only: decode_q8_0_def Let_def)
qed

subsection \<open>Scales of Q4_K and Q5_K\<close>

definition pack_sc_m :: "byte list \<Rightarrow> byte list \<Rightarrow> byte list" where
  "pack_sc_m sc m =
     map (\<lambda>i. sc ! i OR push_bit 6 (drop_bit 4 (sc ! (i + 4)))) [0..<4]
     @ map (\<lambda>i. m ! i OR push_bit 6 (drop_bit 4 (m ! (i + 4)))) [0..<4]
     @ map (\<lambda>i. pack 4 [take_bit 4 (sc ! (i + 4)), take_bit 4 (m ! (i + 4))]) [0..<4]"

lemma mixed_byte:
  assumes "take_bit 6 x = x" "take_bit 6 y = y"
  shows "take_bit 6 (x OR push_bit 6 (drop_bit 4 y)) = x" "drop_bit 6 (x OR push_bit 6 (drop_bit 4 y)) = drop_bit 4 (y :: byte)"
    "take_bit 4 y OR push_bit 4 (drop_bit 4 y) = y"
proof -
  have b: "bit x n \<Longrightarrow> n < 6" "bit y n \<Longrightarrow> n < 6" for n using assms take_bit_id_iff by blast+
  show "take_bit 6 (x OR push_bit 6 (drop_bit 4 y)) = x"
    by (rule bit_word_eqI) (auto simp: bit_simps dest: b)
  show "drop_bit 6 (x OR push_bit 6 (drop_bit 4 y)) = drop_bit 4 y"
    by (rule bit_word_eqI) (auto simp: bit_simps dest: b)
  show "take_bit 4 y OR push_bit 4 (drop_bit 4 y) = y"
  proof (rule bit_word_eqI)
    fix n show "bit (take_bit 4 y OR push_bit 4 (drop_bit 4 y)) n = bit y n" if "n < LENGTH(8)"
      using that by (cases "n < 4") (auto simp: bit_simps)
  qed
qed

lemma pack_nibbles:
  "take_bit 4 (pack 4 [take_bit 4 x, take_bit 4 y]) = take_bit 4 x"
  "drop_bit 4 (pack 4 [take_bit 4 x, take_bit 4 y]) = take_bit 4 y"
  using pack_field[of 0 "[take_bit 4 x, take_bit 4 y]" 4] pack_field[of 1 "[take_bit 4 x, take_bit 4 y]" 4]
  by (simp_all flip: drop_byte)

lemma unpack_pack_sc_m:
  assumes "length sc = 8" "length m = 8" "fits_bits 6 sc" "fits_bits 6 m"
  shows "unpack_q4_k_sc_m (pack_sc_m sc m) = (sc, m)"
proof -
  have f: "take_bit 6 (sc ! i) = sc ! i" "take_bit 6 (m ! i) = m ! i" if "i < 8" for i
    using fits_bits_nth assms that by simp_all
  have p: "pack_sc_m sc m ! i = sc ! i OR push_bit 6 (drop_bit 4 (sc ! (i + 4)))"
    "pack_sc_m sc m ! (i + 4) = m ! i OR push_bit 6 (drop_bit 4 (m ! (i + 4)))"
    "pack_sc_m sc m ! (i + 8) = pack 4 [take_bit 4 (sc ! (i + 4)), take_bit 4 (m ! (i + 4))]" if "i < 4" for i
    using that by (simp_all add: pack_sc_m_def nth_append)
  have e: "pack_sc_m sc m ! i AND 0x3F = sc ! i" "pack_sc_m sc m ! (i + 4) AND 0x3F = m ! i"
    "(pack_sc_m sc m ! (i + 8) AND 0x0F) OR push_bit 4 (drop_bit 6 (pack_sc_m sc m ! i)) = sc ! (i + 4)"
    "drop_bit 4 (pack_sc_m sc m ! (i + 8)) OR push_bit 4 (drop_bit 6 (pack_sc_m sc m ! (i + 4))) = m ! (i + 4)"
    if "i < 4" for i
  proof -
    have l: "i < 8" "i + 4 < 8" using that by simp_all
    note y = mixed_byte[OF f(1)[OF l(1)] f(1)[OF l(2)]] mixed_byte[OF f(2)[OF l(1)] f(2)[OF l(2)]]
    show "pack_sc_m sc m ! i AND 0x3F = sc ! i" "pack_sc_m sc m ! (i + 4) AND 0x3F = m ! i"
      "(pack_sc_m sc m ! (i + 8) AND 0x0F) OR push_bit 4 (drop_bit 6 (pack_sc_m sc m ! i)) = sc ! (i + 4)"
      "drop_bit 4 (pack_sc_m sc m ! (i + 8)) OR push_bit 4 (drop_bit 6 (pack_sc_m sc m ! (i + 4))) = m ! (i + 4)"
      unfolding p[OF that] byte_masks y pack_nibbles by (rule refl)+
  qed
  have "map (\<lambda>i. pack_sc_m sc m ! i AND 0x3F) [0..<4]
        @ map (\<lambda>i. (pack_sc_m sc m ! (i + 8) AND 0x0F) OR push_bit 4 (drop_bit 6 (pack_sc_m sc m ! i))) [0..<4]
      = map (\<lambda>i. sc ! i) [0..<4] @ map (\<lambda>i. sc ! (4 + i)) [0..<4]"
    by (intro arg_cong2[where f = append] map_cong refl) (simp_all only: set_upt atLeastLessThan_iff e add.commute[of 4])
  also have "\<dots> = map (\<lambda>i. sc ! i) [0..<4 + 4]" by (rule upt_double[symmetric])
  finally have sc: "map (\<lambda>i. pack_sc_m sc m ! i AND 0x3F) [0..<4]
        @ map (\<lambda>i. (pack_sc_m sc m ! (i + 8) AND 0x0F) OR push_bit 4 (drop_bit 6 (pack_sc_m sc m ! i))) [0..<4] = sc"
    using assms(1) map_nth[of sc] by simp
  have "map (\<lambda>i. pack_sc_m sc m ! (i + 4) AND 0x3F) [0..<4]
        @ map (\<lambda>i. drop_bit 4 (pack_sc_m sc m ! (i + 8)) OR push_bit 4 (drop_bit 6 (pack_sc_m sc m ! (i + 4)))) [0..<4]
      = map (\<lambda>i. m ! i) [0..<4] @ map (\<lambda>i. m ! (4 + i)) [0..<4]"
    by (intro arg_cong2[where f = append] map_cong refl) (simp_all only: set_upt atLeastLessThan_iff e add.commute[of 4])
  also have "\<dots> = map (\<lambda>i. m ! i) [0..<4 + 4]" by (rule upt_double[symmetric])
  finally show ?thesis using sc assms(2) map_nth[of m] by (simp add: unpack_q4_k_sc_m_def)
qed

lemma length_pack_sc_m [simp]: "length (pack_sc_m sc m) = 12"
  by (simp add: pack_sc_m_def)

subsection \<open>Q4_K and Q5_K\<close>

record k_block =
  kb_d :: "16 word"
  kb_dmin :: "16 word"
  kb_sc :: "byte list"
  kb_m :: "byte list"
  kb_q :: "byte list"

definition good_k :: "nat \<Rightarrow> k_block \<Rightarrow> bool" where
  "good_k w b \<longleftrightarrow> length (kb_sc b) = 8 \<and> length (kb_m b) = 8 \<and> length (kb_q b) = 256 \<and>
     fits_bits 6 (kb_sc b) \<and> fits_bits 6 (kb_m b) \<and> fits_bits w (kb_q b)"

text \<open>The low nibbles: 32 bytes hold two sub-blocks.\<close>

definition pack_low :: "byte list \<Rightarrow> byte list" where
  "pack_low q = map (\<lambda>i. pack 4 [take_bit 4 (q ! (64 * (i div 32) + i mod 32)),
                                take_bit 4 (q ! (64 * (i div 32) + 32 + i mod 32))]) [0..<128]"

definition encode_q4 :: "k_block \<Rightarrow> byte list" where
  "encode_q4 b = le2 (kb_d b) @ le2 (kb_dmin b) @ pack_sc_m (kb_sc b) (kb_m b) @ pack_low (kb_q b)"

text \<open>The fifth bits: byte \<open>l\<close> has the bit of weight \<open>l\<close> of every sub-block.\<close>

definition pack_high :: "nat \<Rightarrow> byte list \<Rightarrow> byte list" where
  "pack_high k q = map (\<lambda>l. pack 1 (map (\<lambda>j. drop_bit k (q ! (32 * j + l))) [0..<8])) [0..<32]"

definition encode_q5 :: "k_block \<Rightarrow> byte list" where
  "encode_q5 b = le2 (kb_d b) @ le2 (kb_dmin b) @ pack_sc_m (kb_sc b) (kb_m b) @ pack_high 4 (kb_q b) @ pack_low (kb_q b)"

definition scaled :: "'f f32_float \<Rightarrow> k_block \<Rightarrow> nat \<Rightarrow> 'f \<Rightarrow> 'f" where
  "scaled F b i x = fl_sub F (fl_mul F (fl_mul F (fl_f16 F (kb_d b)) (fl_int F (uint (kb_sc b ! (i div 32))))) x)
     (fl_mul F (fl_f16 F (kb_dmin b)) (fl_int F (uint (kb_m b ! (i div 32)))))"

definition weights_q4 :: "'f f32_float \<Rightarrow> k_block \<Rightarrow> 'f list" where
  "weights_q4 F b = map (\<lambda>i. scaled F b i (fl_int F (uint (kb_q b ! i)))) [0..<256]"

text \<open>The two parts of a five-bit weight are added as floats.\<close>

definition weights_q5 :: "'f f32_float \<Rightarrow> k_block \<Rightarrow> 'f list" where
  "weights_q5 F b = map (\<lambda>i. scaled F b i (fl_add F (fl_int F (uint (kb_q b ! i) mod 16))
     (fl_int F (16 * (uint (kb_q b ! i) div 16))))) [0..<256]"

lemma pack_low_nth:
  assumes "p < 4" "k < 32"
  shows "pack_low q ! (p * 32 + k) = pack 4 [take_bit 4 (q ! (64 * p + k)), take_bit 4 (q ! (64 * p + 32 + k))]"
proof -
  have "(p * 32 + k) div 32 = p" "(p * 32 + k) mod 32 = k" "p * 32 + k < 128" using assms by simp_all
  then show ?thesis using assms(2) by (simp add: pack_low_def)
qed

lemma sub_block_of:
  "k < 32 \<Longrightarrow> (64 * p + k) div 32 = 2 * p" "k < 32 \<Longrightarrow> (64 * p + 32 + k) div 32 = Suc (2 * p)"
  for k p :: nat
  by presburger+

lemma pack_high_bit:
  assumes "l < 32" "j < 8"
  shows "bit (pack_high k q ! l) j \<longleftrightarrow> bit (q ! (32 * j + l)) k"
  using assms pack_flag[of j "map (\<lambda>j. drop_bit k (q ! (32 * j + l))) [0..<8]"]
  by (simp add: pack_high_def bit_drop_bit_eq)

lemma length_packs [simp]: "length (pack_low q) = 128" "length (pack_high k q) = 32"
  by (simp_all add: pack_low_def pack_high_def)

lemma sub_blocks:
  fixes f :: "nat \<Rightarrow> 'f"
  shows "map f [0..<256] = concat (map (\<lambda>p. map (\<lambda>k. f (64 * p + k)) [0..<32] @ map (\<lambda>k. f (64 * p + 32 + k)) [0..<32]) [0..<4])"
proof -
  have "map f [0..<4 * 64] = concat (map (\<lambda>p. map (\<lambda>k. f (p * 64 + k)) [0..<32 + 32]) [0..<4])"
    using map_blocks[of f 4 64] by simp
  then show ?thesis unfolding upt_double by (simp add: mult.commute add.assoc)
qed

lemma encode_q4_parts:
  assumes "good_k w b"
  shows "u16_le [encode_q4 b ! 0, encode_q4 b ! 1] = kb_d b" "u16_le [encode_q4 b ! 2, encode_q4 b ! 3] = kb_dmin b"
    "unpack_q4_k_sc_m (take 12 (drop 4 (encode_q4 b))) = (kb_sc b, kb_m b)"
    "take 128 (drop 16 (encode_q4 b)) = pack_low (kb_q b)" "length (encode_q4 b) = Q4_K_BYTES"
  using assms unpack_pack_sc_m[of "kb_sc b" "kb_m b"]
  by (simp_all add: encode_q4_def nth_append le2_list(2) u16_le2_nth good_k_def format_sizes)

lemma encode_q5_parts:
  assumes "good_k w b"
  shows "u16_le [encode_q5 b ! 0, encode_q5 b ! 1] = kb_d b" "u16_le [encode_q5 b ! 2, encode_q5 b ! 3] = kb_dmin b"
    "unpack_q4_k_sc_m (take 12 (drop 4 (encode_q5 b))) = (kb_sc b, kb_m b)"
    "take 32 (drop 16 (encode_q5 b)) = pack_high 4 (kb_q b)"
    "take 128 (drop 48 (encode_q5 b)) = pack_low (kb_q b)" "length (encode_q5 b) = Q5_K_BYTES"
  using assms unpack_pack_sc_m[of "kb_sc b" "kb_m b"]
  by (simp_all add: encode_q5_def nth_append le2_list(2) u16_le2_nth good_k_def format_sizes)

interpretation q4: block_format QK_K Q4_K_BYTES decode_q4_k "good_k 4" encode_q4 weights_q4
proof
  show "0 < QK_K" by (simp add: format_sizes)
  fix F :: "'f f32_float" and b blk
  show "length (decode_q4_k F blk) = QK_K"
    by (simp add: decode_q4_k_def Let_def format_sizes length_concat o_def sum_list_triv split: prod.split)
  assume g: "good_k 4 b"
  note e = encode_q4_parts[OF g]
  show "length (encode_q4 b) = Q4_K_BYTES" by (rule e)
  have q: "take_bit 4 (kb_q b ! i) = kb_q b ! i" if "i < 256" for i
    using g that fits_bits_nth by (simp add: good_k_def)
  have lo: "pack_low (kb_q b) ! (p * 32 + k) AND 0x0F = kb_q b ! (64 * p + k)"
    and hi: "drop_bit 4 (pack_low (kb_q b) ! (p * 32 + k)) = kb_q b ! (64 * p + 32 + k)"
    if "p < 4" "k < 32" for p k
    using that by (simp_all only: pack_low_nth byte_masks pack_nibbles) (simp_all add: q)
  show "decode_q4_k F (encode_q4 b) = weights_q4 F b"
    unfolding decode_q4_k_def e Let_def prod.case weights_q4_def sub_blocks
    by (intro arg_cong[where f = concat] map_cong arg_cong2[where f = append])
      (simp_all add: lo hi scaled_def sub_block_of)
qed

lemma five_bits:
  assumes "take_bit 5 (x :: byte) = x"
  shows "(if bit x 4 then 16 else 0) = 16 * (uint x div 16)"
proof -
  have "uint x = take_bit 5 (uint x)" using assms by (metis unsigned_take_bit_eq)
  also have "\<dots> < 2 ^ 5" by (rule take_bit_int_less_exp)
  finally have "uint x div 16 < 2" "0 \<le> uint x div 16" 
    using pos_imp_zdiv_nonneg_iff[of 16 "uint x"] by (simp_all add: div_less_iff_less_mult)
  then have "uint x div 16 = 0 \<or> uint x div 16 = 1" by linarith
  moreover have "bit x 4 \<longleftrightarrow> odd (uint x div 16)"
    using bit_uint_iff[of x 4] bit_iff_odd[of "uint x" 4] by simp
  ultimately show ?thesis by auto
qed

lemma low_nibble: "uint (take_bit 4 (x :: byte)) = uint x mod 16"
  unfolding unsigned_take_bit_eq by (simp add: take_bit_eq_mod)

lemma second_mask: "push_bit n 2 = (push_bit (Suc n) 1 :: byte)"
  by (simp add: push_bit_eq_mult)

interpretation q5: block_format QK_K Q5_K_BYTES decode_q5_k "good_k 5" encode_q5 weights_q5
proof
  show "0 < QK_K" by (simp add: format_sizes)
  fix F :: "'f f32_float" and b blk
  show "length (decode_q5_k F blk) = QK_K"
    by (simp add: decode_q5_k_def Let_def format_sizes length_concat o_def sum_list_triv split: prod.split)
  assume g: "good_k 5 b"
  note e = encode_q5_parts[OF g]
  show "length (encode_q5 b) = Q5_K_BYTES" by (rule e)
  have q: "take_bit 5 (kb_q b ! i) = kb_q b ! i" if "i < 256" for i
    using g that fits_bits_nth by (simp add: good_k_def)
  have lo: "uint (pack_low (kb_q b) ! (p * 32 + k) AND 0x0F) = uint (kb_q b ! (64 * p + k)) mod 16"
    and hi: "uint (drop_bit 4 (pack_low (kb_q b) ! (p * 32 + k))) = uint (kb_q b ! (64 * p + 32 + k)) mod 16"
    and b1: "(if pack_high 4 (kb_q b) ! k AND push_bit (2 * p) 1 \<noteq> 0 then 16 else 0) = 16 * (uint (kb_q b ! (64 * p + k)) div 16)"
    and b2: "(if pack_high 4 (kb_q b) ! k AND push_bit (2 * p) 2 \<noteq> 0 then 16 else 0) = 16 * (uint (kb_q b ! (64 * p + 32 + k)) div 16)"
    if "p < 4" "k < 32" for p k
  proof -
    show "uint (pack_low (kb_q b) ! (p * 32 + k) AND 0x0F) = uint (kb_q b ! (64 * p + k)) mod 16"
      "uint (drop_bit 4 (pack_low (kb_q b) ! (p * 32 + k))) = uint (kb_q b ! (64 * p + 32 + k)) mod 16"
      using that by (simp_all only: pack_low_nth byte_masks pack_nibbles low_nibble)
    have "32 * (2 * p) + k = 64 * p + k" "32 * Suc (2 * p) + k = 64 * p + 32 + k" "2 * p < 8" "Suc (2 * p) < 8"
      "64 * p + k < 256" "64 * p + 32 + k < 256" using that by simp_all
    then show "(if pack_high 4 (kb_q b) ! k AND push_bit (2 * p) 1 \<noteq> 0 then 16 else 0) = 16 * (uint (kb_q b ! (64 * p + k)) div 16)"
      "(if pack_high 4 (kb_q b) ! k AND push_bit (2 * p) 2 \<noteq> 0 then 16 else 0) = 16 * (uint (kb_q b ! (64 * p + 32 + k)) div 16)"
      using that by (simp_all only: second_mask single_bit pack_high_bit five_bits q)
  qed
  show "decode_q5_k F (encode_q5 b) = weights_q5 F b"
    unfolding decode_q5_k_def e Let_def prod.case weights_q5_def sub_blocks
  proof (intro arg_cong[where f = concat] map_cong arg_cong2[where f = append] refl)
    fix p k assume "p \<in> set [0..<4]" "k \<in> set [0..<32]"
    then have pk: "p < 4" "k < 32" by simp_all
    then have t: "take 32 (drop (p * 32) (pack_low (kb_q b))) ! k = pack_low (kb_q b) ! (p * 32 + k)" by simp
    show "fl_sub F (fl_mul F (fl_mul F (fl_f16 F (kb_d b)) (fl_int F (uint (kb_sc b ! (2 * p)))))
        (fl_add F (fl_int F (uint (take 32 (drop (p * 32) (pack_low (kb_q b))) ! k AND 15)))
          (fl_int F (if pack_high 4 (kb_q b) ! k AND push_bit (2 * p) 1 \<noteq> 0 then 16 else 0))))
        (fl_mul F (fl_f16 F (kb_dmin b)) (fl_int F (uint (kb_m b ! (2 * p)))))
      = scaled F b (64 * p + k) (fl_add F (fl_int F (uint (kb_q b ! (64 * p + k)) mod 16))
        (fl_int F (16 * (uint (kb_q b ! (64 * p + k)) div 16))))"
      unfolding t lo[OF pk] b1[OF pk] scaled_def sub_block_of(1)[OF pk(2)] by (rule refl)
    show "fl_sub F (fl_mul F (fl_mul F (fl_f16 F (kb_d b)) (fl_int F (uint (kb_sc b ! (2 * p + 1)))))
        (fl_add F (fl_int F (uint (drop_bit 4 (take 32 (drop (p * 32) (pack_low (kb_q b))) ! k))))
          (fl_int F (if pack_high 4 (kb_q b) ! k AND push_bit (2 * p) 2 \<noteq> 0 then 16 else 0))))
        (fl_mul F (fl_f16 F (kb_dmin b)) (fl_int F (uint (kb_m b ! (2 * p + 1)))))
      = scaled F b (64 * p + 32 + k) (fl_add F (fl_int F (uint (kb_q b ! (64 * p + 32 + k)) mod 16))
        (fl_int F (16 * (uint (kb_q b ! (64 * p + 32 + k)) div 16))))"
      unfolding t hi[OF pk] b2[OF pk] scaled_def sub_block_of(2)[OF pk(2)] Suc_eq_plus1 by (rule refl)
  qed
qed

subsection \<open>Q6_K\<close>

record q6_block =
  q6_d :: "16 word"
  q6_sc :: "byte list"
  q6_q :: "byte list"

definition good_q6 :: "q6_block \<Rightarrow> bool" where
  "good_q6 b \<longleftrightarrow> length (q6_sc b) = 16 \<and> length (q6_q b) = 256 \<and> fits_bits 6 (q6_q b)"

definition pack_q6_low :: "byte list \<Rightarrow> byte list" where
  "pack_q6_low q = map (\<lambda>i. pack 4 [take_bit 4 (q ! (128 * (i div 64) + i mod 64)),
                                   take_bit 4 (q ! (128 * (i div 64) + 64 + i mod 64))]) [0..<128]"

definition pack_q6_high :: "byte list \<Rightarrow> byte list" where
  "pack_q6_high q = map (\<lambda>i. pack 2 (map (\<lambda>g. drop_bit 4 (q ! (128 * (i div 32) + 32 * g + i mod 32))) [0..<4])) [0..<64]"

definition encode_q6 :: "q6_block \<Rightarrow> byte list" where
  "encode_q6 b = pack_q6_low (q6_q b) @ pack_q6_high (q6_q b) @ q6_sc b @ le2 (q6_d b)"

definition weight_q6 :: "'f f32_float \<Rightarrow> q6_block \<Rightarrow> nat \<Rightarrow> 'f" where
  "weight_q6 F b i = fl_mul F (fl_mul F (fl_f16 F (q6_d b)) (fl_int F (sint (q6_sc b ! (i div 16)))))
     (fl_int F (uint (q6_q b ! i) - 32))"

definition weights_q6 :: "'f f32_float \<Rightarrow> q6_block \<Rightarrow> 'f list" where
  "weights_q6 F b = map (weight_q6 F b) [0..<256]"

lemma encode_q6_parts:
  assumes "good_q6 b"
  shows "take 128 (encode_q6 b) = pack_q6_low (q6_q b)" "take 64 (drop 128 (encode_q6 b)) = pack_q6_high (q6_q b)"
    "take 16 (drop 192 (encode_q6 b)) = q6_sc b" "u16_le [encode_q6 b ! 208, encode_q6 b ! 209] = q6_d b"
    "length (encode_q6 b) = Q6_K_BYTES"
  using assms by (simp_all add: encode_q6_def pack_q6_low_def pack_q6_high_def nth_append le2_list(2) u16_le2_nth
      good_q6_def format_sizes)

lemma quarters:
  fixes f :: "nat \<Rightarrow> 'f"
  shows "map f [0..<256] = concat (map (\<lambda>h. map (\<lambda>l. f (128 * h + l)) [0..<32] @ map (\<lambda>l. f (128 * h + 32 + l)) [0..<32]
    @ map (\<lambda>l. f (128 * h + 64 + l)) [0..<32] @ map (\<lambda>l. f (128 * h + 96 + l)) [0..<32]) [0..<2])"
proof -
  have "map f [0..<2 * 128] = concat (map (\<lambda>h. map (\<lambda>k. f (h * 128 + k)) [0..<32 + (32 + (32 + 32))]) [0..<2])"
    using map_blocks[of f 2 128] by simp
  then show ?thesis unfolding upt_double by (simp add: mult.commute add.assoc)
qed

lemma nibbles_and_high: "uint (take_bit 4 x) OR push_bit 4 (uint (drop_bit 4 x)) = uint (x :: byte)"
proof (rule bit_eqI)
  fix n show "bit (uint (take_bit 4 x) OR push_bit 4 (uint (drop_bit 4 x))) n = bit (uint x) n"
    by (cases "n < 4") (auto simp: bit_simps dest: byte_bit)
qed

lemma pack_quarter:
  assumes "g < 4" "take_bit 2 (fs ! g) = fs ! g" "length fs = 4"
  shows "drop_bit (2 * g) (pack 2 fs) AND 0x03 = fs ! g"
  using pack_field[of g fs 2] assms by (simp add: byte_masks)

lemma q6_bytes:
  assumes "h < 2" "l < 32" "length q = 256" "fits_bits 6 q"
  shows "uint (pack_q6_low q ! (h * 64 + l) AND 0x0F) OR push_bit 4 (uint (pack_q6_high q ! (h * 32 + l) AND 0x03))
      = uint (q ! (128 * h + l))"
    "uint (pack_q6_low q ! (h * 64 + (l + 32)) AND 0x0F) OR push_bit 4 (uint (drop_bit 2 (pack_q6_high q ! (h * 32 + l)) AND 0x03))
      = uint (q ! (128 * h + 32 + l))"
    "uint (drop_bit 4 (pack_q6_low q ! (h * 64 + l))) OR push_bit 4 (uint (drop_bit 4 (pack_q6_high q ! (h * 32 + l)) AND 0x03))
      = uint (q ! (128 * h + 64 + l))"
    "uint (drop_bit 4 (pack_q6_low q ! (h * 64 + (l + 32)))) OR push_bit 4 (uint (drop_bit 6 (pack_q6_high q ! (h * 32 + l)) AND 0x03))
      = uint (q ! (128 * h + 96 + l))"
proof -
  have lo: "pack_q6_low q ! (h * 64 + k) = pack 4 [take_bit 4 (q ! (128 * h + k)), take_bit 4 (q ! (128 * h + 64 + k))]" if "k < 64" for k
  proof -
    have "(h * 64 + k) div 64 = h" "(h * 64 + k) mod 64 = k" "h * 64 + k < 128" using assms(1) that by simp_all
    then show ?thesis by (simp add: pack_q6_low_def)
  qed
  have hi: "drop_bit (2 * g) (pack_q6_high q ! (h * 32 + l)) AND 0x03 = drop_bit 4 (q ! (128 * h + 32 * g + l))" if "g < 4" for g
  proof -
    have "128 * h + 32 * g + l < 256" using assms that by linarith
    then have t: "take_bit 2 (drop_bit 4 (q ! (128 * h + 32 * g + l))) = drop_bit 4 (q ! (128 * h + 32 * g + l))"
      using fits_bits_drop[of 4 2 q] assms by simp
    have "(h * 32 + l) div 32 = h" "(h * 32 + l) mod 32 = l" "h * 32 + l < 64" using assms by simp_all
    then have "pack_q6_high q ! (h * 32 + l) = pack 2 (map (\<lambda>g. drop_bit 4 (q ! (128 * h + 32 * g + l))) [0..<4])"
      by (simp add: pack_q6_high_def del: upt_conv_Cons)
    then show ?thesis using pack_quarter[of g "map (\<lambda>g. drop_bit 4 (q ! (128 * h + 32 * g + l))) [0..<4]"] that t by simp
  qed
  have l: "l < 64" "l + 32 < 64" "128 * h + 64 + (l + 32) = 128 * h + 96 + l" "128 * h + (l + 32) = 128 * h + 32 + l"
    using assms(2) by simp_all
  show "uint (pack_q6_low q ! (h * 64 + l) AND 0x0F) OR push_bit 4 (uint (pack_q6_high q ! (h * 32 + l) AND 0x03)) = uint (q ! (128 * h + l))"
    using hi[of 0] by (simp add: lo[OF l(1)] byte_masks(1) pack_nibbles nibbles_and_high)
  show "uint (pack_q6_low q ! (h * 64 + (l + 32)) AND 0x0F) OR push_bit 4 (uint (drop_bit 2 (pack_q6_high q ! (h * 32 + l)) AND 0x03)) = uint (q ! (128 * h + 32 + l))"
    using hi[of 1] by (simp only: lo[OF l(2)] l byte_masks(1) pack_nibbles mult_1_right) (simp add: nibbles_and_high)
  show "uint (drop_bit 4 (pack_q6_low q ! (h * 64 + l))) OR push_bit 4 (uint (drop_bit 4 (pack_q6_high q ! (h * 32 + l)) AND 0x03)) = uint (q ! (128 * h + 64 + l))"
    using hi[of 2] by (simp add: lo[OF l(1)] pack_nibbles nibbles_and_high)
  show "uint (drop_bit 4 (pack_q6_low q ! (h * 64 + (l + 32)))) OR push_bit 4 (uint (drop_bit 6 (pack_q6_high q ! (h * 32 + l)) AND 0x03)) = uint (q ! (128 * h + 96 + l))"
    using hi[of 3] by (simp only: lo[OF l(2)] l pack_nibbles) (simp add: nibbles_and_high)
qed

lemma length_q6_packs [simp]: "length (pack_q6_low q) = 128" "length (pack_q6_high q) = 64"
  by (simp_all add: pack_q6_low_def pack_q6_high_def)

interpretation q6: block_format QK_K Q6_K_BYTES decode_q6_k good_q6 encode_q6 weights_q6
proof
  show "0 < QK_K" by (simp add: format_sizes)
  fix F :: "'f f32_float" and b blk
  show "length (decode_q6_k F blk) = QK_K"
    by (simp add: decode_q6_k_def Let_def format_sizes length_concat o_def sum_list_triv)
  assume g: "good_q6 b"
  note e = encode_q6_parts[OF g]
  show "length (encode_q6 b) = Q6_K_BYTES" by (rule e)
  from g have q: "length (q6_q b) = 256" "fits_bits 6 (q6_q b)" "length (q6_sc b) = 16" by (simp_all add: good_q6_def)
  have sc: "(128 * h + l) div 16 = h * 8 + l div 16" "(128 * h + 32 + l) div 16 = h * 8 + (2 + l div 16)"
    "(128 * h + 64 + l) div 16 = h * 8 + (4 + l div 16)" "(128 * h + 96 + l) div 16 = h * 8 + (6 + l div 16)" for h l :: nat
    by presburger+
  show "decode_q6_k F (encode_q6 b) = weights_q6 F b"
    unfolding decode_q6_k_def e Let_def weights_q6_def quarters
  proof (intro arg_cong[where f = concat] map_cong arg_cong2[where f = append] refl, goal_cases)
    case (1 h l)
    then have hl: "h < 2" "l < 32" "l div 16 < 8" by auto
    show ?case using hl q6_bytes(1)[OF hl(1,2) q(1,2)] by (simp add: weight_q6_def sc q(3))
  next
    case (2 h l)
    then have hl: "h < 2" "l < 32" "2 + l div 16 < 8" by auto
    show ?case using hl q6_bytes(2)[OF hl(1,2) q(1,2)] by (simp add: weight_q6_def sc q(3))
  next
    case (3 h l)
    then have hl: "h < 2" "l < 32" "4 + l div 16 < 8" by auto
    show ?case using hl q6_bytes(3)[OF hl(1,2) q(1,2)] by (simp add: weight_q6_def sc q(3))
  next
    case (4 h l)
    then have hl: "h < 2" "l < 32" "6 + l div 16 < 8" by auto
    show ?case using hl q6_bytes(4)[OF hl(1,2) q(1,2)] by (simp add: weight_q6_def sc q(3))
  qed
qed

subsection \<open>Q3_K\<close>

lemma bit_add_shift: "bit (unat b + 256 * m) n \<longleftrightarrow> (if n < 8 then bit b n else bit m (n - 8))" for b :: byte
proof -
  have "unat b AND push_bit 8 m = 0"
    by (rule bit_eqI) (auto simp: bit_simps dest: byte_bit)
  then have "unat b + push_bit 8 m = unat b OR push_bit 8 m" by (rule disjunctive_add_eq_or)
  then have "unat b + 256 * m = unat b OR push_bit 8 m" by (simp add: push_bit_eq_mult mult.commute)
  then show ?thesis by (auto simp: bit_simps dest: byte_bit)
qed

lemma bit_le_nat: "bit (le_nat bs) n \<longleftrightarrow> n div 8 < length bs \<and> bit (bs ! (n div 8)) (n mod 8)"
proof (induction bs arbitrary: n)
  case (Cons b bs)
  have "n div 8 = Suc ((n - 8) div 8)" "(n - 8) mod 8 = n mod 8" if "\<not> n < 8"
    using that by (simp_all add: le_div_geq le_mod_geq)
  then show ?case using Cons by (auto simp: bit_add_shift)
qed simp

lemma bit_u32_le: "bit (u32_le bs) n \<longleftrightarrow> n < 32 \<and> n div 8 < length bs \<and> bit (bs ! (n div 8)) (n mod 8)"
  by (simp add: u32_le_def bit_simps bit_le_nat)

lemma bit_lane_masks:
  "bit KMASK1 n \<longleftrightarrow> n < 32 \<and> n mod 8 < 2" "bit KMASK2 n \<longleftrightarrow> n < 32 \<and> n mod 8 < 4"
proof -
  have m: "KMASK1 = u32_le (replicate 4 (mask 2))" "KMASK2 = u32_le (replicate 4 (mask 4))" by code_simp+
  have d: "n < 32 \<Longrightarrow> n div 8 < 4" "n mod 8 < 8" by simp_all
  show "bit KMASK1 n \<longleftrightarrow> n < 32 \<and> n mod 8 < 2" "bit KMASK2 n \<longleftrightarrow> n < 32 \<and> n mod 8 < 4"
    unfolding m bit_u32_le using d by (simp_all add: bit_mask_iff conj_ac cong: conj_cong)
qed

lemma bytes_of_u32_nth: "k < 4 \<Longrightarrow> bit (bytes_of_u32 a ! k) n \<longleftrightarrow> n < 8 \<and> bit a (8 * k + n)"
proof -
  assume "k < 4"
  have "bit (0xFF :: 32 word) n \<longleftrightarrow> n < 8" for n
    using bit_mask_iff[of 8 n, where 'a = "32 word"] by (auto simp: mask_eq_exp_minus_1)
  with \<open>k < 4\<close> show ?thesis by (auto simp: bytes_of_u32_def bit_simps)
qed

lemma lane:
  assumes "k < 4" "m < 8"
  shows "(8 * k + m) div 8 = k" "(8 * k + m) mod 8 = m" "8 * k + m < (32 :: nat)"
  using assms by simp_all

text \<open>What the word operations do in every lane.\<close>

lemma scale_lane:
  assumes "length as = 4" "length cs = 4" "s \<le> 4" "r \<le> 6" "k < 4"
  shows "bytes_of_u32 ((drop_bit s (u32_le as) AND KMASK2) OR push_bit 4 (drop_bit r (u32_le cs) AND KMASK1)) ! k
    = take_bit 4 (drop_bit s (as ! k)) OR push_bit 4 (take_bit 2 (drop_bit r (cs ! k)))"
proof (rule bit_word_eqI)
  fix n assume "n < LENGTH(8)"
  then have n: "n < 8" by simp
  have a: "bit (drop_bit s (u32_le as) AND KMASK2) (8 * k + n) \<longleftrightarrow> n < 4 \<and> bit (as ! k) (s + n)"
  proof (cases "n < 4")
    case True
    have "s + (8 * k + n) = 8 * k + (s + n)" and l: "s + n < 8" using True assms(3) by simp_all
    then have "(s + (8 * k + n)) div 8 = k" "(s + (8 * k + n)) mod 8 = s + n" "s + (8 * k + n) < 32"
      by (simp_all only: lane[OF assms(5) l])
    then show ?thesis using True n assms(1,5) by (simp add: bit_and_iff bit_drop_bit_eq bit_u32_le bit_lane_masks lane)
  next
    case False
    then show ?thesis using lane[OF assms(5) n] by (simp add: bit_and_iff bit_lane_masks)
  qed
  have c: "bit (push_bit 4 (drop_bit r (u32_le cs) AND KMASK1)) (8 * k + n) \<longleftrightarrow> 4 \<le> n \<and> n < 6 \<and> bit (cs ! k) (r + (n - 4))"
  proof (cases "4 \<le> n")
    case True
    then obtain j where j: "n = j + 4" using le_Suc_ex by (metis add.commute)
    then have jn: "j < 4" "j < 8" "8 * k + j + 4 < 32" using n assms(5) by simp_all
    have v: "(r + (8 * k + j)) div 8 = k \<and> (r + (8 * k + j)) mod 8 = r + j \<and> r + (8 * k + j) < 32"
      if "j < 2"
    proof -
      have l: "r + j < 8" using that assms(4) by simp
      have "r + (8 * k + j) = 8 * k + (r + j)" by simp
      then show ?thesis by (simp only: lane[OF assms(5) l] simp_thms)
    qed
    have "bit (push_bit 4 (drop_bit r (u32_le cs) AND KMASK1)) (8 * k + n)
        \<longleftrightarrow> bit (u32_le cs) (r + (8 * k + j)) \<and> bit KMASK1 (8 * k + j)"
      using jn by (simp add: j bit_push_bit_iff bit_and_iff bit_drop_bit_eq add.assoc[symmetric])
    also have "\<dots> \<longleftrightarrow> j < 2 \<and> bit (cs ! k) (r + j)"
      using v lane[OF assms(5) jn(2)] assms(2,5) by (auto simp only: bit_u32_le bit_lane_masks)
    finally show ?thesis by (simp add: j)
  next
    case False
    have "\<not> (8 * k + n - 4) mod 8 < 2" if ge: "4 \<le> 8 * k + n"
    proof -
      obtain j where "k = Suc j" using ge False by (cases k) simp_all
      then have "8 * k + n - 4 = 8 * j + (n + 4)" "n + 4 < 8" using False by simp_all
      then show ?thesis by simp
    qed
    then show ?thesis using False by (auto simp: bit_push_bit_iff bit_and_iff bit_lane_masks)
  qed
  show "bit (bytes_of_u32 ((drop_bit s (u32_le as) AND KMASK2) OR push_bit 4 (drop_bit r (u32_le cs) AND KMASK1)) ! k) n
    = bit (take_bit 4 (drop_bit s (as ! k)) OR push_bit 4 (take_bit 2 (drop_bit r (cs ! k)))) n"
    using n a c by (auto simp: bytes_of_u32_nth[OF assms(5)] bit_or_iff bit_take_bit_iff bit_drop_bit_eq bit_push_bit_iff)
qed

record q3_block =
  q3_d :: "16 word"
  q3_sc :: "byte list"
  q3_q :: "byte list"

definition good_q3 :: "q3_block \<Rightarrow> bool" where
  "good_q3 b \<longleftrightarrow> length (q3_sc b) = 16 \<and> fits_bits 6 (q3_sc b) \<and> length (q3_q b) = 256 \<and> fits_bits 3 (q3_q b)"

definition pack_q3_scales :: "byte list \<Rightarrow> byte list" where
  "pack_q3_scales sc =
     map (\<lambda>j. pack 4 [take_bit 4 (sc ! j), take_bit 4 (sc ! (j + 8))]) [0..<8]
     @ map (\<lambda>k. pack 2 (map (\<lambda>t. drop_bit 4 (sc ! (4 * t + k))) [0..<4])) [0..<4]"

definition pack_q3_low :: "byte list \<Rightarrow> byte list" where
  "pack_q3_low q = map (\<lambda>i. pack 2 (map (\<lambda>s. take_bit 2 (q ! (128 * (i div 32) + 32 * s + i mod 32))) [0..<4])) [0..<64]"

definition encode_q3 :: "q3_block \<Rightarrow> byte list" where
  "encode_q3 b = pack_high 2 (q3_q b) @ pack_q3_low (q3_q b) @ pack_q3_scales (q3_sc b) @ le2 (q3_d b)"

definition weight_q3 :: "'f f32_float \<Rightarrow> q3_block \<Rightarrow> nat \<Rightarrow> 'f" where
  "weight_q3 F b i = fl_mul F (fl_mul F (fl_f16 F (q3_d b)) (fl_int F (uint (q3_sc b ! (i div 16)) - 32)))
     (fl_int F (uint (q3_q b ! i) - 4))"

definition weights_q3 :: "'f f32_float \<Rightarrow> q3_block \<Rightarrow> 'f list" where
  "weights_q3 F b = map (weight_q3 F b) [0..<256]"

lemma length_q3_packs [simp]: "length (pack_q3_low q) = 64" "length (pack_q3_scales sc) = 12"
  by (simp_all add: pack_q3_low_def pack_q3_scales_def)

lemma encode_q3_parts:
  assumes "good_q3 b"
  shows "take 32 (encode_q3 b) = pack_high 2 (q3_q b)" "take 64 (drop 32 (encode_q3 b)) = pack_q3_low (q3_q b)"
    "take 12 (drop 96 (encode_q3 b)) = pack_q3_scales (q3_sc b)"
    "u16_le [encode_q3 b ! 108, encode_q3 b ! 109] = q3_d b" "length (encode_q3 b) = Q3_K_BYTES"
  using assms by (simp_all add: encode_q3_def nth_append le2_list(2) u16_le2_nth good_q3_def format_sizes)

lemma pack_q3_scales_nth:
  assumes "j < 8" "t < 4" "k < 4" "length sc = 16" "fits_bits 6 sc"
  shows "take_bit 4 (pack_q3_scales sc ! j) = take_bit 4 (sc ! j)"
    "drop_bit 4 (pack_q3_scales sc ! j) = take_bit 4 (sc ! (j + 8))"
    "take_bit 2 (drop_bit (2 * t) (pack_q3_scales sc ! (8 + k))) = drop_bit 4 (sc ! (4 * t + k))"
proof -
  have lo: "pack_q3_scales sc ! j = pack 4 [take_bit 4 (sc ! j), take_bit 4 (sc ! (j + 8))]"
    using assms(1) by (simp add: pack_q3_scales_def nth_append)
  show "take_bit 4 (pack_q3_scales sc ! j) = take_bit 4 (sc ! j)"
    "drop_bit 4 (pack_q3_scales sc ! j) = take_bit 4 (sc ! (j + 8))"
    unfolding lo by (rule pack_nibbles)+
  have hi: "pack_q3_scales sc ! (8 + k) = pack 2 (map (\<lambda>t. drop_bit 4 (sc ! (4 * t + k))) [0..<4])"
    using assms(3) unfolding pack_q3_scales_def by (subst nth_append_length_plus[of "map f [0..<8]" for f, simplified]) simp
  have "take_bit 2 (drop_bit 4 (sc ! (4 * t + k))) = drop_bit 4 (sc ! (4 * t + k))"
    using fits_bits_drop[of 4 2 sc "4 * t + k"] assms by simp
  then show "take_bit 2 (drop_bit (2 * t) (pack_q3_scales sc ! (8 + k))) = drop_bit 4 (sc ! (4 * t + k))"
    unfolding hi using pack_field[of t "map (\<lambda>t. drop_bit 4 (sc ! (4 * t + k))) [0..<4]" 2] assms(2) by simp
qed

lemma length_bytes_of_u32 [simp]: "length (bytes_of_u32 a) = 4"
  by (simp add: bytes_of_u32_def)

lemma q3_group:
  assumes "length sc = 16" "fits_bits 6 sc" "t < 4"
  defines "raw \<equiv> pack_q3_scales sc"
  shows "bytes_of_u32 ((drop_bit (4 * (t div 2)) (u32_le (take 4 (drop (4 * (t mod 2)) raw))) AND KMASK2)
      OR push_bit 4 (drop_bit (2 * t) (u32_le (take 4 (drop 8 raw))) AND KMASK1)) = map (\<lambda>k. sc ! (4 * t + k)) [0..<4]"
    (is "?bytes = _")
proof (rule nth_equalityI)
  show "length ?bytes = length (map (\<lambda>k. sc ! (4 * t + k)) [0..<4])" by simp
  fix k assume "k < length ?bytes"
  then have k: "k < 4" by simp
  have l: "length (take 4 (drop (4 * (t mod 2)) raw)) = 4" "length (take 4 (drop 8 raw)) = 4" "4 * (t div 2) \<le> 4" "2 * t \<le> 6"
    using assms(3) by (simp_all add: raw_def)
  have r: "4 * (t mod 2) + k < 8" using k by simp
  note p = pack_q3_scales_nth[OF r assms(3) k assms(1,2), folded raw_def]
  have "take_bit 4 (drop_bit (4 * (t div 2)) (raw ! (4 * (t mod 2) + k))) = take_bit 4 (sc ! (4 * t + k))"
  proof (cases "t < 2")
    case True
    then show ?thesis using p(1) by simp
  next
    case False
    then have t: "t div 2 = 1" "4 * (t mod 2) + k + 8 = 4 * t + k" using assms(3) by presburger+
    show ?thesis using p(2) unfolding t by simp
  qed
  moreover have "?bytes ! k = take_bit 4 (drop_bit (4 * (t div 2)) (raw ! (4 * (t mod 2) + k)))
      OR push_bit 4 (take_bit 2 (drop_bit (2 * t) (raw ! (8 + k))))"
    using scale_lane[OF l k] k by (simp add: raw_def)
  moreover have "take_bit 4 (sc ! (4 * t + k)) OR push_bit 4 (drop_bit 4 (sc ! (4 * t + k))) = sc ! (4 * t + k)"
  proof -
    have "take_bit 6 (sc ! (4 * t + k)) = sc ! (4 * t + k)" using fits_bits_nth[OF assms(2)] assms(1,3) k by simp
    from mixed_byte(3)[OF this this] show ?thesis .
  qed
  ultimately show "?bytes ! k = map (\<lambda>k. sc ! (4 * t + k)) [0..<4] ! k" using p(3) k by simp
qed

lemma unpack_pack_q3_scales:
  assumes "length sc = 16" "fits_bits 6 sc"
  shows "unpack_q3_k_scales (pack_q3_scales sc) = sc"
proof -
  have "unpack_q3_k_scales (pack_q3_scales sc)
      = map (\<lambda>k. sc ! (4 * 0 + k)) [0..<4] @ map (\<lambda>k. sc ! (4 * 1 + k)) [0..<4] @ map (\<lambda>k. sc ! (4 * 2 + k)) [0..<4]
        @ map (\<lambda>k. sc ! (4 * 3 + k)) [0..<4]"
    using q3_group[OF assms, of 0] q3_group[OF assms, of 1] q3_group[OF assms, of 2] q3_group[OF assms, of 3]
    by (simp add: unpack_q3_k_scales_def Let_def del: upt_conv_Cons)
  also have "\<dots> = map (\<lambda>k. sc ! k) [0..<4 + (4 + (4 + 4))]"
    unfolding upt_double by simp
  also have "\<dots> = sc" using map_nth[of sc] assms(1) by simp
  finally show ?thesis .
qed

lemma q3_scale:
  assumes "take_bit 6 (x :: byte) = x"
  shows "sint x = uint x"
proof -
  have "\<not> bit x n" if "6 \<le> n" for n using assms that unfolding take_bit_id_iff by fastforce
  then have "\<not> bit x 7" "7 \<le> n \<Longrightarrow> \<not> bit x n" for n by simp_all
  then show ?thesis
    by (intro bit_eqI) (auto simp: bit_simps min_def split: if_splits)
qed

lemma three_bits:
  assumes "take_bit 3 (x :: byte) = x"
  shows "uint (take_bit 2 x) - (if bit x 2 then 0 else 4) = uint x - 4"
proof -
  have "uint x = take_bit (Suc 2) (uint x)" using assms by (metis unsigned_take_bit_eq eval_nat_numeral(3))
  also have "\<dots> = 4 * of_bool (bit x 2) + uint (take_bit 2 x)"
    unfolding take_bit_Suc_from_most by (simp add: bit_uint_iff unsigned_take_bit_eq)
  finally show ?thesis by simp
qed

lemma sixteens:
  fixes f :: "nat \<Rightarrow> 'f"
  shows "map f [0..<256] = concat (map (\<lambda>p. map (\<lambda>l. f (32 * p + l)) [0..<16] @ map (\<lambda>l. f (32 * p + (16 + l))) [0..<16]) [0..<8])"
proof -
  have "map f [0..<8 * 32] = concat (map (\<lambda>p. map (\<lambda>k. f (p * 32 + k)) [0..<16 + 16]) [0..<8])"
    using map_blocks[of f 8 32] by simp
  then show ?thesis unfolding upt_double by (simp add: mult.commute)
qed

lemma q3_value:
  assumes "p < 8" "l < 32" "length q = 256" "fits_bits 3 q"
  shows "uint (drop_bit (2 * (p mod 4)) (pack_q3_low q ! (32 * (p div 4) + l)) AND 0x03)
      - (if pack_high 2 q ! l AND push_bit p 1 \<noteq> 0 then 0 else 4) = uint (q ! (32 * p + l)) - 4"
proof -
  have "p = 4 * (p div 4) + p mod 4" by simp
  then have i: "128 * (p div 4) + 32 * (p mod 4) + l = 32 * p + l" by linarith
  have p4: "p div 4 < 2" using assms(1) by (rule less_mult_imp_div_less[of p 2 4, simplified])
  have p: "(32 * (p div 4) + l) div 32 = p div 4" "(32 * (p div 4) + l) mod 32 = l" using assms(2) by simp_all
  have "32 * (p div 4) + l < 64" using p4 assms(2) by linarith
  note p = p this
  have "pack_q3_low q ! (32 * (p div 4) + l) = pack 2 (map (\<lambda>s. take_bit 2 (q ! (128 * (p div 4) + 32 * s + l))) [0..<4])"
    using p by (simp add: pack_q3_low_def del: upt_conv_Cons)
  then have "drop_bit (2 * (p mod 4)) (pack_q3_low q ! (32 * (p div 4) + l)) AND 0x03 = take_bit 2 (q ! (32 * p + l))"
    using pack_quarter[of "p mod 4" "map (\<lambda>s. take_bit 2 (q ! (128 * (p div 4) + 32 * s + l))) [0..<4]"] i by simp
  moreover have "pack_high 2 q ! l AND push_bit p 1 \<noteq> 0 \<longleftrightarrow> bit (q ! (32 * p + l)) 2"
    using assms(1,2) by (simp only: single_bit pack_high_bit)
  moreover have "take_bit 3 (q ! (32 * p + l)) = q ! (32 * p + l)" using fits_bits_nth[OF assms(4)] assms(1-3) by simp
  ultimately show ?thesis using three_bits by simp
qed

interpretation q3: block_format QK_K Q3_K_BYTES decode_q3_k good_q3 encode_q3 weights_q3
proof
  show "0 < QK_K" by (simp add: format_sizes)
  fix F :: "'f f32_float" and b blk
  show "length (decode_q3_k F blk) = QK_K"
    by (simp add: decode_q3_k_def Let_def format_sizes length_concat o_def sum_list_triv)
  assume g: "good_q3 b"
  note e = encode_q3_parts[OF g]
  show "length (encode_q3 b) = Q3_K_BYTES" by (rule e)
  from g have q: "length (q3_q b) = 256" "fits_bits 3 (q3_q b)" and s: "length (q3_sc b) = 16" "fits_bits 6 (q3_sc b)"
    by (simp_all add: good_q3_def)
  have sc: "sint (q3_sc b ! i) = uint (q3_sc b ! i)" if "i < 16" for i
    using that s fits_bits_nth q3_scale by simp
  have i: "l < 16 \<Longrightarrow> (32 * p + l) div 16 = 2 * p" "l < 16 \<Longrightarrow> (32 * p + (16 + l)) div 16 = 2 * p + 1" for l p :: nat by presburger+
  show "decode_q3_k F (encode_q3 b) = weights_q3 F b"
    unfolding decode_q3_k_def e Let_def weights_q3_def sixteens unpack_pack_q3_scales[OF s]
  proof (intro arg_cong[where f = concat] map_cong arg_cong2[where f = append] refl, goal_cases)
    case (1 p l)
    then have pl: "p < 8" "l < 32" "l < 16" "2 * p < 16" "32 * (p div 4) \<le> 64" by auto
    then show ?case using q3_value[OF pl(1,2) q] by (simp add: weight_q3_def sc i)
  next
    case (2 p l)
    then have pl: "p < 8" "16 + l < 32" "l < 16" "2 * p + 1 < 16" "32 * (p div 4) \<le> 64" by auto
    then show ?case using q3_value[OF pl(1,2) q] unfolding weight_q3_def i(2)[OF pl(3)] sc[OF pl(4)] add.commute[of l] by simp
  qed
qed

section \<open>Reading the weights of a file\<close>

definition dequant_types :: "ggml_type list" where
  "dequant_types = [GF32, GF16, GBF16, Q8_0, Q3_K, Q4_K, Q5_K, Q6_K]"

lemma dense_ok:
  assumes "length src = n * w"
  shows "dequant_dense w conv src n = Some (Inr (map (\<lambda>i. conv (take w (drop (i * w) src))) [0..<n]))"
  using assms by (simp add: dequant_dense_def)

lemma blocks_ok:
  assumes "case r of
        None \<Rightarrow> False
      | Some (Inl e) \<Rightarrow> n mod bs \<noteq> 0 \<or> length src < n div bs * bytes
      | Some (Inr out) \<Rightarrow> n mod bs = 0 \<and> n div bs * bytes \<le> length src \<and> length out = n"
    and "n mod bs = 0" "length src = n div bs * bytes"
  shows "case r of Some (Inr out) \<Rightarrow> length out = n | _ \<Rightarrow> False"
  using assms by (auto split: option.splits sum.splits)

text \<open>A supported type never fails on the bytes of its weights.\<close>

lemma decode_chunk_ok:
  assumes "n mod block_size ty = 0" "length src = n div block_size ty * type_size ty" "ty \<in> set dequant_types"
  shows "case dequantize_block_chunk F ty src n of Some (Inr out) \<Rightarrow> length out = n | _ \<Rightarrow> False"
proof -
  have "ty = GF32 \<or> ty = GF16 \<or> ty = GBF16 \<or> ty = Q8_0 \<or> ty = Q3_K \<or> ty = Q4_K \<or> ty = Q5_K \<or> ty = Q6_K"
    using assms(3) by (auto simp: dequant_types_def)
  then show ?thesis
  proof (elim disjE)
    assume t: "ty = Q8_0"
    from assms(1,2) show ?thesis
      using blocks_ok[OF q8.blocks_outcome[where F = F and src = src and n = n]]
      by (simp add: t dequantize_block_chunk_def dequant_q8_0_def block_size_def format_sizes)
  next
    assume t: "ty = Q3_K"
    from assms(1,2) show ?thesis
      using blocks_ok[OF q3.blocks_outcome[where F = F and src = src and n = n]]
      by (simp add: t dequantize_block_chunk_def dequant_q3_k_def block_size_def format_sizes)
  next
    assume t: "ty = Q4_K"
    from assms(1,2) show ?thesis
      using blocks_ok[OF q4.blocks_outcome[where F = F and src = src and n = n]]
      by (simp add: t dequantize_block_chunk_def dequant_q4_k_def block_size_def format_sizes)
  next
    assume t: "ty = Q5_K"
    from assms(1,2) show ?thesis
      using blocks_ok[OF q5.blocks_outcome[where F = F and src = src and n = n]]
      by (simp add: t dequantize_block_chunk_def dequant_q5_k_def block_size_def format_sizes)
  next
    assume t: "ty = Q6_K"
    from assms(1,2) show ?thesis
      using blocks_ok[OF q6.blocks_outcome[where F = F and src = src and n = n]]
      by (simp add: t dequantize_block_chunk_def dequant_q6_k_def block_size_def format_sizes)
  qed (use assms in \<open>simp_all add: dequantize_block_chunk_def dequant_f32_def dequant_f16_def dequant_bf16_def
      block_size_def dense_ok\<close>)
qed

lemma chunk_unsupported:
  "ty \<notin> set dequant_types \<Longrightarrow> dequantize_block_chunk F ty src n = Some (Inl (Unsupported ty))"
  by (cases ty) (simp_all add: dequant_types_def dequantize_block_chunk_def)

text \<open>
  C11. Every decoder inverts the packing of its format: the bytes of blocks with the given scales
  and quantised weights, one block after the other and whatever follows them, decode to the
  weights those blocks stand for, in order, for any arithmetic of \<open>f32\<close>.
\<close>

theorem dequant_roundtrip:
  assumes "list_all good_q8 b8" "list_all good_q3 b3" "list_all (good_k 4) b4" "list_all (good_k 5) b5" "list_all good_q6 b6"
  shows "dequant_q8_0 F (concat (map encode_q8 b8) @ rest) (length b8 * 32) = Some (Inr (concat (map (weights_q8 F) b8)))
    \<and> dequant_q3_k F (concat (map encode_q3 b3) @ rest) (length b3 * 256) = Some (Inr (concat (map (weights_q3 F) b3)))
    \<and> dequant_q4_k F (concat (map encode_q4 b4) @ rest) (length b4 * 256) = Some (Inr (concat (map (weights_q4 F) b4)))
    \<and> dequant_q5_k F (concat (map encode_q5 b5) @ rest) (length b5 * 256) = Some (Inr (concat (map (weights_q5 F) b5)))
    \<and> dequant_q6_k F (concat (map encode_q6 b6) @ rest) (length b6 * 256) = Some (Inr (concat (map (weights_q6 F) b6)))"
  using q8.roundtrip[of b8 F rest] q3.roundtrip[of b3 F rest] q4.roundtrip[of b4 F rest] q5.roundtrip[of b5 F rest]
    q6.roundtrip[of b6 F rest] assms
  by (simp add: dequant_q8_0_def dequant_q3_k_def dequant_q4_k_def dequant_q5_k_def dequant_q6_k_def format_sizes list_all_iff)

text \<open>Integers with a scale of one in place of the floats.\<close>

definition int_floats :: "int f32_float" where
  "int_floats = \<lparr>fl_mul = (*), fl_sub = (-), fl_add = (+), fl_int = id, fl_bits = uint, fl_f16 = uint, fl_bf16 = uint\<rparr>"

definition sample_q4 :: k_block where
  "sample_q4 = \<lparr>kb_d = 2, kb_dmin = 1, kb_sc = [1, 2, 3, 4, 50, 60, 61, 63], kb_m = [0, 1, 2, 3, 40, 41, 62, 63],
     kb_q = map (\<lambda>i. word_of_nat (i mod 16)) [0..<256]\<rparr>"

definition sample_q5 :: k_block where
  "sample_q5 = sample_q4\<lparr>kb_q := map (\<lambda>i. word_of_nat (i mod 32)) [0..<256]\<rparr>"

definition sample_q3 :: q3_block where
  "sample_q3 = \<lparr>q3_d = 3, q3_sc = map (\<lambda>i. word_of_nat (i mod 64)) [40..<56], q3_q = map (\<lambda>i. word_of_nat (i mod 8)) [0..<256]\<rparr>"

definition sample_q6 :: q6_block where
  "sample_q6 = \<lparr>q6_d = 3, q6_sc = map word_of_nat [0..<16], q6_q = map (\<lambda>i. word_of_nat (i mod 64)) [0..<256]\<rparr>"

definition sample_q8 :: q8_block where
  "sample_q8 = \<lparr>q8_d = 5, q8_q = map word_of_nat [100..<132]\<rparr>"

lemma fits_words: "fits_bits w (map (\<lambda>i. word_of_nat (i mod 2 ^ w)) is)"
proof -
  have "take_bit w (word_of_nat (i mod 2 ^ w) :: byte) = word_of_nat (take_bit w (i mod 2 ^ w))" for i by (rule take_bit_of_nat)
  then have "take_bit w (word_of_nat (i mod 2 ^ w) :: byte) = word_of_nat (i mod 2 ^ w)" for i
    by (simp only: take_bit_eq_mod[where 'a = nat] mod_mod_trivial)
  then show ?thesis by (simp add: fits_bits_def list_all_iff)
qed

theorem dequant_roundtrip_witness:
  "dequant_q8_0 int_floats (concat (map encode_q8 [sample_q8]) @ [7]) (length [sample_q8] * 32)
      = Some (Inr (concat (map (weights_q8 int_floats) [sample_q8])))
    \<and> dequant_q3_k int_floats (concat (map encode_q3 [sample_q3]) @ [7]) (length [sample_q3] * 256)
      = Some (Inr (concat (map (weights_q3 int_floats) [sample_q3])))
    \<and> dequant_q4_k int_floats (concat (map encode_q4 [sample_q4, sample_q4]) @ [7]) (length [sample_q4, sample_q4] * 256)
      = Some (Inr (concat (map (weights_q4 int_floats) [sample_q4, sample_q4])))
    \<and> dequant_q5_k int_floats (concat (map encode_q5 [sample_q5]) @ [7]) (length [sample_q5] * 256)
      = Some (Inr (concat (map (weights_q5 int_floats) [sample_q5])))
    \<and> dequant_q6_k int_floats (concat (map encode_q6 [sample_q6]) @ [7]) (length [sample_q6] * 256)
      = Some (Inr (concat (map (weights_q6 int_floats) [sample_q6])))"
proof -
  have small: "fits_bits 6 (kb_sc sample_q4)" "fits_bits 6 (kb_m sample_q4)"
    by (simp_all add: fits_bits_def sample_q4_def)
  have "fits_bits 4 (kb_q sample_q4)" "fits_bits 5 (kb_q sample_q5)" "fits_bits 3 (q3_q sample_q3)" "fits_bits 6 (q6_q sample_q6)"
    using fits_words[of 4] fits_words[of 5] fits_words[of 3] fits_words[of 6]
    by (simp_all add: sample_q4_def sample_q5_def sample_q3_def sample_q6_def)
  moreover have "fits_bits 6 (q3_sc sample_q3)" using fits_words[of 6] by (simp add: sample_q3_def del: upt_conv_Cons upt_rec_numeral)
  ultimately have "list_all good_q8 [sample_q8]" "list_all good_q3 [sample_q3]" "list_all (good_k 4) [sample_q4, sample_q4]"
    "list_all (good_k 5) [sample_q5]" "list_all good_q6 [sample_q6]"
    using small by (simp_all add: good_q8_def good_q3_def good_k_def good_q6_def sample_q8_def sample_q4_def sample_q5_def
        sample_q3_def sample_q6_def)
  then show ?thesis by (rule dequant_roundtrip)
qed

text \<open>
  C26. The decoders fit the reader: after a successful \<open>from_bytes\<close> every tensor of the index has its
  bytes, and decoding them never panics and never finds a size wrong; it gives one weight for every
  element when the type is one of the eight that are implemented, and \<open>Unsupported\<close> otherwise.
\<close>

theorem dequant_after_parse:
  assumes "from_bytes bytes = Some (Inr f)" "length bytes < u64_limit" "t \<in> set (gf_tensors f)"
    and "case n_elements t of None \<Rightarrow> True | Some n \<Rightarrow> n * 4 < i64_limit"
  shows "case tensor_bytes f t of
      None \<Rightarrow> False
    | Some src \<Rightarrow>
        if ti_dtype t \<in> set dequant_types
        then (case dequant_to_f32 F t src of Some (Inr ws) \<Rightarrow> n_elements t = Some (length ws) | _ \<Rightarrow> False)
        else dequant_to_f32 F t src = Some (Inl (Unsupported (ti_dtype t)))"
proof (rule indexed_tensor_bytes[OF assms(1-3)])
  fix sz let ?src = "take sz (drop (gf_data_offset f + unat (ti_offset t)) bytes)"
  assume sz: "ti_byte_size t = Some sz" "gf_data_offset f + unat (ti_offset t) + sz \<le> length bytes"
    and tb: "tensor_bytes f t = Some ?src"
  from sz(1) obtain n where n: "n_elements t = Some n" "byte_size_for (ti_dtype t) n = Some sz"
    by (auto simp: ti_byte_size_def split: option.splits)
  then have m: "n mod block_size (ti_dtype t) = 0" "sz = n div block_size (ti_dtype t) * type_size (ti_dtype t)"
    by (auto simp: byte_size_for_def checked_mul_u64_def split: if_splits)
  have d: "dequant_to_f32 F t ?src = dequantize_block_chunk F (ti_dtype t) ?src n"
    using assms(4) n(1) by (simp add: dequant_to_f32_def)
  have len: "length ?src = n div block_size (ti_dtype t) * type_size (ti_dtype t)" using sz(2) m(2) by simp
  show ?thesis
  proof (cases "ti_dtype t \<in> set dequant_types")
    case True
    from decode_chunk_ok[OF m(1) len True, of F] show ?thesis
      unfolding tb option.case d n(1) using True by (auto split: option.splits sum.splits)
  next
    case False
    then show ?thesis unfolding tb option.case d by (simp add: chunk_unsupported)
  qed
qed

theorem dequant_after_parse_witness:
  "let bytes = enc_front 3 sample_kvs sample_tensors @ replicate 10 0 @ replicate 8 1 in
   case from_bytes bytes of
     Some (Inr f) \<Rightarrow>
       (case tensor_bytes f (hd sample_tensors) of
          None \<Rightarrow> False
        | Some src \<Rightarrow>
            if ti_dtype (hd sample_tensors) \<in> set dequant_types
            then (case dequant_to_f32 int_floats (hd sample_tensors) src of
                Some (Inr ws) \<Rightarrow> n_elements (hd sample_tensors) = Some (length ws) | _ \<Rightarrow> False)
            else dequant_to_f32 int_floats (hd sample_tensors) src = Some (Inl (Unsupported (ti_dtype (hd sample_tensors)))))
   | _ \<Rightarrow> False"
proof -
  let ?b = "enc_front 3 sample_kvs sample_tensors @ replicate 10 0 @ replicate 8 1"
  obtain f where f: "from_bytes ?b = Some (Inr f)" "gf_tensors f = sample_tensors"
    using sample_parses by (auto split: option.splits sum.splits)
  have len: "length ?b < u64_limit" by code_simp
  have n: "case n_elements (hd sample_tensors) of None \<Rightarrow> True | Some n \<Rightarrow> n * 4 < i64_limit" by code_simp
  have t: "hd sample_tensors \<in> set (gf_tensors f)" by (simp add: f(2))
  from dequant_after_parse[OF f(1) len t n, of int_floats] show ?thesis
    unfolding Let_def f(1) option.case sum.case by blast
qed

text \<open>\<open>is_dequant_supported\<close> leaves out two types that the decoders implement.\<close>

lemma supported_incomplete:
  "map is_dequant_supported dequant_types = [True, True, True, True, False, True, False, True]"
  by code_simp

end
