(* ===== verification/Reductions.thy ===== *)
theory Reductions
  imports Concat
begin

text \<open>
  The reductions of \<open>rustorch-cpu/src/kernels/reduction.rs\<close> and the full sums of \<open>cpu_backend.rs\<close>:
  sums, means, extrema, positions of extrema, variances and running sums, along axes and over whole
  tensors.  The arithmetic of the element types is an argument (\<open>reduce_ops\<close>), as is the \<open>f64\<close>
  arithmetic of the variance (\<open>f64_ops\<close>).

  \<^item> Every reduction along axes is the fold of the operation over the elements that fall on a position
    of the result, in row-major order; the fast path for matrices computes the same folds.
  \<^item> The positions of extrema are the first ones; a running sum is a fold over a prefix of its line.
  \<^item> In exact arithmetic Welford's recurrence is the mean of the squared deviations.
\<close>

section \<open>Parameters\<close>

record 'v reduce_ops =
  ro_zero :: "dtype \<Rightarrow> 'v"
  ro_one :: "dtype \<Rightarrow> 'v"
  ro_lowest :: "dtype \<Rightarrow> 'v"
  ro_highest :: "dtype \<Rightarrow> 'v"
  ro_add :: "dtype \<Rightarrow> 'v \<Rightarrow> 'v \<Rightarrow> 'v"
  ro_mul :: "dtype \<Rightarrow> 'v \<Rightarrow> 'v \<Rightarrow> 'v"
  ro_max :: "dtype \<Rightarrow> 'v \<Rightarrow> 'v \<Rightarrow> 'v"
  ro_min :: "dtype \<Rightarrow> 'v \<Rightarrow> 'v \<Rightarrow> 'v"
  ro_less :: "dtype \<Rightarrow> 'v \<Rightarrow> 'v \<Rightarrow> bool"
  ro_div_n :: "dtype \<Rightarrow> 'v \<Rightarrow> nat \<Rightarrow> 'v"
  ro_i64 :: "nat \<Rightarrow> 'v"
  ro_int :: "'v \<Rightarrow> int"

text \<open>
  \<open>ro_add\<close> and \<open>ro_mul\<close> are the rounded operations on floating-point numbers and the wrapping ones on
  integers; \<open>ro_int\<close> is the number an \<open>i64\<close> or an \<open>i32\<close> stands for.  The sums of the source add integers
  with \<open>+\<close>, which panics when the result is out of range (in a build with overflow checks);
  the running sums and the products use the wrapping operations.
\<close>

definition in_type :: "dtype \<Rightarrow> int \<Rightarrow> bool" where
  "in_type d x \<longleftrightarrow> (case d of I64 \<Rightarrow> - (2 ^ 63) \<le> x \<and> x < 2 ^ 63 | I32 \<Rightarrow> - (2 ^ 31) \<le> x \<and> x < 2 ^ 31 | _ \<Rightarrow> True)"

definition plain_add :: "'v reduce_ops \<Rightarrow> dtype \<Rightarrow> 'v \<Rightarrow> 'v \<Rightarrow> 'v option" where
  "plain_add ro d a b =
     (if (d = I64 \<or> d = I32) \<and> \<not> in_type d (ro_int ro a + ro_int ro b) then None else Some (ro_add ro d a b))"

text \<open>An operation that never panics.\<close>

abbreviation (input) total :: "('a \<Rightarrow> 'b \<Rightarrow> 'c) \<Rightarrow> 'a \<Rightarrow> 'b \<Rightarrow> 'c option" where
  "total f a b \<equiv> Some (f a b)"

text \<open>The element types of the reductions that add and compare, and those that divide.\<close>

definition reduce_dtype :: "dtype \<Rightarrow> bool" where
  "reduce_dtype d \<longleftrightarrow> d \<in> {F32, F64, I64, I32}"

definition mean_dtype :: "dtype \<Rightarrow> bool" where
  "mean_dtype d \<longleftrightarrow> d \<in> {F32, F64}"

definition dtype_error :: "string \<Rightarrow> dtype \<Rightarrow> 'v theap \<Rightarrow> 'v kernel_result" where
  "dtype_error op d h = Some (Inl (BackendDtypeMismatch op d d), h)"

text \<open>\<open>from_vec_typed(..).map_err(|_| OutOfMemory {bytes})\<close>\<close>

definition build_or :: "nat \<Rightarrow> dtype \<Rightarrow> shape \<Rightarrow> 'v list \<Rightarrow> 'v theap \<Rightarrow> 'v kernel_result" where
  "build_or bytes d shape out h =
     (case from_vec_sized d shape out h of
        (Inl _, h') \<Rightarrow> Some (Inl (OutOfMemory bytes), h')
      | (Inr t, h') \<Rightarrow> Some (Inr t, h'))"

fun validate_dims :: "tensor \<Rightarrow> nat list \<Rightarrow> string \<Rightarrow> backend_error option" where
  "validate_dims src [] op = None"
| "validate_dims src (d # ds) op =
     (if d \<ge> length (t_shape src) then Some (IndexOutOfBounds op (as_i64 d) (length (t_shape src)))
      else validate_dims src ds op)"

definition validate_dim :: "tensor \<Rightarrow> nat \<Rightarrow> string \<Rightarrow> backend_error option" where
  "validate_dim src dim op =
     (if dim \<ge> length (t_shape src) then Some (IndexOutOfBounds op (as_i64 dim) (length (t_shape src))) else None)"

section \<open>Reduction along axes\<close>

text \<open>The shape of the result and the position of an element in it: \<open>x\<close> is what a kept axis becomes.\<close>

definition drop_dims :: "nat list \<Rightarrow> bool \<Rightarrow> nat \<Rightarrow> nat list \<Rightarrow> nat list" where
  "drop_dims dims keepdim x xs =
     (if keepdim then map (\<lambda>(i, c). if i \<in> set dims then x else c) (enumerate 0 xs)
      else map snd (filter (\<lambda>(i, c). i \<notin> set dims) (enumerate 0 xs)))"

definition reduced_shape :: "nat list \<Rightarrow> bool \<Rightarrow> shape \<Rightarrow> shape" where
  "reduced_shape dims keepdim shape = drop_dims dims keepdim 1 shape"

definition reduced_coords :: "nat list \<Rightarrow> bool \<Rightarrow> nat list \<Rightarrow> nat list" where
  "reduced_coords dims keepdim coords = drop_dims dims keepdim 0 coords"

fun reduce_loop ::
  "shape \<Rightarrow> shape \<Rightarrow> nat list \<Rightarrow> bool \<Rightarrow> ('v \<Rightarrow> 'v \<Rightarrow> 'v option) \<Rightarrow> (nat \<times> 'v) list \<Rightarrow> 'v list \<Rightarrow> 'v list option" where
  "reduce_loop shape out_shape dims keepdim op [] out = Some out"
| "reduce_loop shape out_shape dims keepdim op ((linear, v) # rest) out =
     (case decode_coords linear shape of
        None \<Rightarrow> None
      | Some coords \<Rightarrow>
          let p = linear_of (reduced_coords dims keepdim coords) (contiguous_strides out_shape) in
          (case get_elem out p of
             None \<Rightarrow> None
           | Some a \<Rightarrow>
               (case op a v of
                  None \<Rightarrow> None
                | Some b \<Rightarrow> reduce_loop shape out_shape dims keepdim op rest (out[p := b]))))"

definition reduce_dim ::
  "dtype \<Rightarrow> tensor \<Rightarrow> nat list \<Rightarrow> bool \<Rightarrow> 'v \<Rightarrow> ('v \<Rightarrow> 'v \<Rightarrow> 'v option) \<Rightarrow> 'v theap \<Rightarrow> 'v kernel_result" where
  "reduce_dim d src dims keepdim init op h =
     (case read_all d src h of
        None \<Rightarrow> None
      | Some buf \<Rightarrow>
          let out_shape = reduced_shape dims keepdim (t_shape src); n_out = max (numel out_shape) 1 in
          if \<not> vec_with_capacity d n_out then None
          else (case reduce_loop (t_shape src) out_shape dims keepdim op (take (t_numel src) (enumerate 0 buf))
                       (replicate n_out init) of
             None \<Rightarrow> None
           | Some out \<Rightarrow> build_or (n_out * byte_size d) d out_shape out h))"

subsection \<open>Sums\<close>

text \<open>The rows of a dense matrix; a slice beyond the end of the buffer panics.\<close>

definition row_of :: "'v list \<Rightarrow> nat \<Rightarrow> nat \<Rightarrow> 'v list option" where
  "row_of buf cols r =
     (if r * cols + cols \<le> length buf then Some (take cols (drop (r * cols) buf)) else None)"

definition sum_columns :: "('v \<Rightarrow> 'v \<Rightarrow> 'v) \<Rightarrow> 'v \<Rightarrow> 'v list list \<Rightarrow> nat \<Rightarrow> 'v list" where
  "sum_columns add zero rows cols = foldl (\<lambda>out row. map2 add out row) (replicate cols zero) rows"

definition sum_rows :: "('v \<Rightarrow> 'v \<Rightarrow> 'v) \<Rightarrow> 'v \<Rightarrow> 'v list list \<Rightarrow> 'v list" where
  "sum_rows add zero rows = map (\<lambda>row. foldl add zero row) rows"

text \<open>The outer option is the panic, the inner one the \<open>None\<close> of the source.\<close>

definition sum_dim_2d_f32 ::
  "'v reduce_ops \<Rightarrow> tensor \<Rightarrow> nat \<Rightarrow> bool \<Rightarrow> 'v theap \<Rightarrow> ((backend_error + tensor) \<times> 'v theap) option option" where
  "sum_dim_2d_f32 ro src axis keepdim h =
     (case as_slice F32 src h of
        None \<Rightarrow> None
      | Some None \<Rightarrow> Some None
      | Some (Some buf) \<Rightarrow>
          let rows = t_shape src ! 0; cols = t_shape src ! 1; add = ro_add ro F32; zero = ro_zero ro F32 in
          if axis = 0 then
            (case those (map (row_of buf cols) [0..<rows]) of
               None \<Rightarrow> None
             | Some rs \<Rightarrow> map_option Some (build_or (cols * 4) F32 (if keepdim then [1, cols] else [cols])
                                            (sum_columns add zero rs cols) h))
          else if axis = 1 then
            (case those (map (row_of buf cols) [0..<rows]) of
               None \<Rightarrow> None
             | Some rs \<Rightarrow> map_option Some (build_or (rows * 4) F32 (if keepdim then [rows, 1] else [rows])
                                            (sum_rows add zero rs) h))
          else Some None)"

definition sum_dim_typed :: "'v reduce_ops \<Rightarrow> tensor \<Rightarrow> nat list \<Rightarrow> bool \<Rightarrow> 'v theap \<Rightarrow> 'v kernel_result" where
  "sum_dim_typed ro src dims keepdim h =
     (let d = t_dtype src in
      if reduce_dtype d then reduce_dim d src dims keepdim (ro_zero ro d) (plain_add ro d) h
      else dtype_error ''sum_dim'' d h)"

definition sum_dim :: "'v reduce_ops \<Rightarrow> tensor \<Rightarrow> nat list \<Rightarrow> bool \<Rightarrow> 'v theap \<Rightarrow> 'v kernel_result" where
  "sum_dim ro src dims keepdim h =
     (case validate_dims src dims ''sum_dim'' of
        Some e \<Rightarrow> Some (Inl e, h)
      | None \<Rightarrow>
          if t_dtype src = F32 \<and> length (t_shape src) = 2 \<and> length dims = 1
             \<and> contiguous (t_layout src) \<and> storage_offset (t_layout src) = 0
          then (case sum_dim_2d_f32 ro src (hd dims) keepdim h of
                  None \<Rightarrow> None
                | Some None \<Rightarrow> sum_dim_typed ro src dims keepdim h
                | Some (Some r) \<Rightarrow> Some r)
          else sum_dim_typed ro src dims keepdim h)"

text \<open>The dash of the error messages, in UTF-8.\<close>

definition em_dash :: string where
  "em_dash = [CHR 0xE2, CHR 0x80, CHR 0x94]"

text \<open>The divided sum; the sum itself is dropped.\<close>

definition mean_of_sum ::
  "'v reduce_ops \<Rightarrow> dtype \<Rightarrow> nat \<Rightarrow> tensor \<Rightarrow> 'v theap \<Rightarrow> 'v kernel_result" where
  "mean_of_sum ro d n s h =
     (case as_slice d s h of
        Some (Some xs) \<Rightarrow>
          map_option (\<lambda>(r, h'). (r, drop_tensor s h'))
            (build_or 0 d (t_shape s) (map (\<lambda>x. ro_div_n ro d x n) xs) h)
      | _ \<Rightarrow> None)"

definition mean_dim :: "'v reduce_ops \<Rightarrow> tensor \<Rightarrow> nat list \<Rightarrow> bool \<Rightarrow> 'v theap \<Rightarrow> 'v kernel_result" where
  "mean_dim ro src dims keepdim h =
     (case validate_dims src dims ''mean_dim'' of
        Some e \<Rightarrow> Some (Inl e, h)
      | None \<Rightarrow>
          let n = prod_list (map (\<lambda>d. t_shape src ! d) dims); d = t_dtype src in
          if n = 0 then Some (Inl (NumericalError (''mean over empty axis is NaN '' @ em_dash @ '' refused'')), h)
          else if mean_dtype d then
            (case reduce_dim d src dims keepdim (ro_zero ro d) (plain_add ro d) h of
               None \<Rightarrow> None
             | Some (Inl e, h1) \<Rightarrow> Some (Inl e, h1)
             | Some (Inr s, h1) \<Rightarrow> mean_of_sum ro d n s h1)
          else dtype_error ''mean_dim'' d h)"

definition extreme_dim ::
  "string \<Rightarrow> (dtype \<Rightarrow> 'v) \<Rightarrow> (dtype \<Rightarrow> 'v \<Rightarrow> 'v \<Rightarrow> 'v) \<Rightarrow> tensor \<Rightarrow> nat \<Rightarrow> bool \<Rightarrow> 'v theap \<Rightarrow> 'v kernel_result" where
  "extreme_dim op init f src dim keepdim h =
     (case validate_dim src dim op of
        Some e \<Rightarrow> Some (Inl e, h)
      | None \<Rightarrow>
          let d = t_dtype src in
          if reduce_dtype d then reduce_dim d src [dim] keepdim (init d) (total (f d)) h else dtype_error op d h)"

definition max_dim :: "'v reduce_ops \<Rightarrow> tensor \<Rightarrow> nat \<Rightarrow> bool \<Rightarrow> 'v theap \<Rightarrow> 'v kernel_result" where
  "max_dim ro src dim keepdim h = extreme_dim ''max_dim'' (ro_lowest ro) (ro_max ro) src dim keepdim h"

definition min_dim :: "'v reduce_ops \<Rightarrow> tensor \<Rightarrow> nat \<Rightarrow> bool \<Rightarrow> 'v theap \<Rightarrow> 'v kernel_result" where
  "min_dim ro src dim keepdim h = extreme_dim ''min_dim'' (ro_highest ro) (ro_min ro) src dim keepdim h"

section \<open>Lines\<close>

text \<open>
  The remaining kernels walk the lines along one axis: for every position of the other axes, the
  index of its first element.
\<close>

definition line_base :: "shape \<Rightarrow> nat \<Rightarrow> nat \<Rightarrow> nat option" where
  "line_base shape dim linear =
     map_option (\<lambda>coords. linear_of (coords[dim := 0]) (contiguous_strides shape))
       (decode_coords linear (shape[dim := 1]))"

definition line_bases :: "shape \<Rightarrow> nat \<Rightarrow> nat list option" where
  "line_bases shape dim = those (map (line_base shape dim) [0..<max (numel (shape[dim := 1])) 1])"

definition line_shape :: "shape \<Rightarrow> nat \<Rightarrow> bool \<Rightarrow> shape" where
  "line_shape shape dim keepdim = (if keepdim then shape[dim := 1] else list_remove (shape[dim := 1]) dim)"

fun best_loop :: "('v \<Rightarrow> 'v \<Rightarrow> bool) \<Rightarrow> 'v list \<Rightarrow> nat \<Rightarrow> nat \<Rightarrow> nat list \<Rightarrow> nat \<Rightarrow> 'v \<Rightarrow> nat option" where
  "best_loop better buf base stride [] best_idx best_val = Some best_idx"
| "best_loop better buf base stride (k # ks) best_idx best_val =
     (case get_elem buf (base + k * stride) of
        None \<Rightarrow> None
      | Some v \<Rightarrow> if better v best_val then best_loop better buf base stride ks k v
                  else best_loop better buf base stride ks best_idx best_val)"

definition best_of_line :: "('v \<Rightarrow> 'v \<Rightarrow> bool) \<Rightarrow> 'v list \<Rightarrow> nat \<Rightarrow> nat \<Rightarrow> nat \<Rightarrow> nat option" where
  "best_of_line better buf dim_size stride base =
     (case get_elem buf base of
        None \<Rightarrow> None
      | Some v \<Rightarrow> best_loop better buf base stride [1..<dim_size] 0 v)"

definition arg_reduce ::
  "'v reduce_ops \<Rightarrow> tensor \<Rightarrow> nat \<Rightarrow> bool \<Rightarrow> ('v \<Rightarrow> 'v \<Rightarrow> bool) \<Rightarrow> 'v theap \<Rightarrow> 'v kernel_result" where
  "arg_reduce ro src dim keepdim better h =
     (case read_all (t_dtype src) src h of
        None \<Rightarrow> None
      | Some buf \<Rightarrow>
          let shape = t_shape src; n_out = max (numel (shape[dim := 1])) 1 in
          if \<not> vec_with_capacity I64 n_out then None
          else (case line_bases shape dim of
             None \<Rightarrow> None
           | Some bases \<Rightarrow>
               (case those (map (best_of_line better buf (shape ! dim) (contiguous_strides shape ! dim)) bases) of
                  None \<Rightarrow> None
                | Some ks \<Rightarrow> build_or (n_out * 8) I64 (line_shape shape dim keepdim) (map (ro_i64 ro) ks) h)))"

definition arg_extreme ::
  "'v reduce_ops \<Rightarrow> string \<Rightarrow> (dtype \<Rightarrow> 'v \<Rightarrow> 'v \<Rightarrow> bool) \<Rightarrow> tensor \<Rightarrow> nat \<Rightarrow> bool \<Rightarrow> 'v theap \<Rightarrow> 'v kernel_result" where
  "arg_extreme ro op better src dim keepdim h =
     (case validate_dim src dim op of
        Some e \<Rightarrow> Some (Inl e, h)
      | None \<Rightarrow>
          let d = t_dtype src in
          if reduce_dtype d then arg_reduce ro src dim keepdim (better d) h else dtype_error op d h)"

definition argmax :: "'v reduce_ops \<Rightarrow> tensor \<Rightarrow> nat \<Rightarrow> bool \<Rightarrow> 'v theap \<Rightarrow> 'v kernel_result" where
  "argmax ro src dim keepdim h = arg_extreme ro ''argmax'' (\<lambda>d a b. ro_less ro d b a) src dim keepdim h"

definition argmin :: "'v reduce_ops \<Rightarrow> tensor \<Rightarrow> nat \<Rightarrow> bool \<Rightarrow> 'v theap \<Rightarrow> 'v kernel_result" where
  "argmin ro src dim keepdim h = arg_extreme ro ''argmin'' (ro_less ro) src dim keepdim h"

subsection \<open>Running sums\<close>

fun cum_line :: "('v \<Rightarrow> 'v \<Rightarrow> 'v) \<Rightarrow> 'v list \<Rightarrow> nat \<Rightarrow> nat \<Rightarrow> nat list \<Rightarrow> 'v \<Rightarrow> 'v list \<Rightarrow> 'v list option" where
  "cum_line op buf base stride [] acc out = Some out"
| "cum_line op buf base stride (k # ks) acc out =
     (case get_elem buf (base + k * stride) of
        None \<Rightarrow> None
      | Some v \<Rightarrow>
          if base + k * stride < length out
          then cum_line op buf base stride ks (op acc v) (out[base + k * stride := op acc v])
          else None)"

fun cum_lines :: "('v \<Rightarrow> 'v \<Rightarrow> 'v) \<Rightarrow> 'v \<Rightarrow> 'v list \<Rightarrow> nat \<Rightarrow> nat \<Rightarrow> nat list \<Rightarrow> 'v list \<Rightarrow> 'v list option" where
  "cum_lines op init buf dim_size stride [] out = Some out"
| "cum_lines op init buf dim_size stride (base # bases) out =
     (case cum_line op buf base stride [0..<dim_size] init out of
        None \<Rightarrow> None
      | Some out' \<Rightarrow> cum_lines op init buf dim_size stride bases out')"

definition cum_along :: "tensor \<Rightarrow> nat \<Rightarrow> 'v \<Rightarrow> ('v \<Rightarrow> 'v \<Rightarrow> 'v) \<Rightarrow> 'v theap \<Rightarrow> 'v kernel_result" where
  "cum_along src dim init op h =
     (case read_all (t_dtype src) src h of
        None \<Rightarrow> None
      | Some buf \<Rightarrow>
          let shape = t_shape src; d = t_dtype src; n = t_numel src in
          if \<not> vec_with_capacity d n then None
          else (case line_bases shape dim of
             None \<Rightarrow> None
           | Some bases \<Rightarrow>
               (case cum_lines op init buf (shape ! dim) (contiguous_strides shape ! dim) bases (replicate n init) of
                  None \<Rightarrow> None
                | Some out \<Rightarrow> build_or (n * byte_size d) d shape out h)))"

definition cum_dim ::
  "string \<Rightarrow> (dtype \<Rightarrow> 'v) \<Rightarrow> (dtype \<Rightarrow> 'v \<Rightarrow> 'v \<Rightarrow> 'v) \<Rightarrow> tensor \<Rightarrow> nat \<Rightarrow> 'v theap \<Rightarrow> 'v kernel_result" where
  "cum_dim op init f src dim h =
     (case validate_dim src dim op of
        Some e \<Rightarrow> Some (Inl e, h)
      | None \<Rightarrow>
          let d = t_dtype src in
          if reduce_dtype d then cum_along src dim (init d) (f d) h else dtype_error op d h)"

definition cumsum :: "'v reduce_ops \<Rightarrow> tensor \<Rightarrow> nat \<Rightarrow> 'v theap \<Rightarrow> 'v kernel_result" where
  "cumsum ro src dim h = cum_dim ''cumsum'' (ro_zero ro) (ro_add ro) src dim h"

definition cumprod :: "'v reduce_ops \<Rightarrow> tensor \<Rightarrow> nat \<Rightarrow> 'v theap \<Rightarrow> 'v kernel_result" where
  "cumprod ro src dim h = cum_dim ''cumprod'' (ro_one ro) (ro_mul ro) src dim h"

subsection \<open>Variance\<close>

record 'v f64_ops =
  f_nat :: "nat \<Rightarrow> 'v"
  f_add :: "'v \<Rightarrow> 'v \<Rightarrow> 'v"
  f_sub :: "'v \<Rightarrow> 'v \<Rightarrow> 'v"
  f_mul :: "'v \<Rightarrow> 'v \<Rightarrow> 'v"
  f_div :: "'v \<Rightarrow> 'v \<Rightarrow> 'v"
  f_max :: "'v \<Rightarrow> 'v \<Rightarrow> 'v"

text \<open>One step of the recurrence, on the mean and the sum of squared deviations so far.\<close>

definition welford_step :: "'v f64_ops \<Rightarrow> nat \<Rightarrow> 'v \<Rightarrow> 'v \<times> 'v \<Rightarrow> 'v \<times> 'v" where
  "welford_step fo k v acc =
     (let delta = f_sub fo v (fst acc);
          mean = f_add fo (fst acc) (f_div fo delta (f_add fo (f_nat fo k) (f_nat fo 1)));
          delta2 = f_sub fo v mean in
      (mean, f_add fo (snd acc) (f_mul fo delta delta2)))"

fun welford_loop :: "'v f64_ops \<Rightarrow> ('v \<Rightarrow> 'v) \<Rightarrow> 'v list \<Rightarrow> nat \<Rightarrow> nat \<Rightarrow> nat list \<Rightarrow> 'v \<times> 'v \<Rightarrow> ('v \<times> 'v) option" where
  "welford_loop fo to_f64 buf base stride [] acc = Some acc"
| "welford_loop fo to_f64 buf base stride (k # ks) acc =
     (case get_elem buf (base + k * stride) of
        None \<Rightarrow> None
      | Some v \<Rightarrow> welford_loop fo to_f64 buf base stride ks (welford_step fo k (to_f64 v) acc))"

definition var_denom :: "'v f64_ops \<Rightarrow> bool \<Rightarrow> nat \<Rightarrow> 'v" where
  "var_denom fo unbiased n =
     (if unbiased then f_max fo (f_sub fo (f_nat fo n) (f_nat fo 1)) (f_nat fo 1) else f_nat fo n)"

definition welford_var ::
  "'v f64_ops \<Rightarrow> 'v casts \<Rightarrow> dtype \<Rightarrow> tensor \<Rightarrow> nat \<Rightarrow> bool \<Rightarrow> bool \<Rightarrow> 'v theap \<Rightarrow> 'v kernel_result" where
  "welford_var fo c d src dim unbiased keepdim h =
     (case read_all d src h of
        None \<Rightarrow> None
      | Some buf \<Rightarrow>
          let shape = t_shape src; n_out = max (numel (shape[dim := 1])) 1 in
          if \<not> vec_with_capacity d n_out then None
          else (case line_bases shape dim of
             None \<Rightarrow> None
           | Some bases \<Rightarrow>
               (case those (map (\<lambda>base. map_option (\<lambda>(mean, m2). c_of_f64 c d (f_div fo m2 (var_denom fo unbiased (shape ! dim))))
                       (welford_loop fo (c_to_f64 c d) buf base (contiguous_strides shape ! dim) [0..<shape ! dim]
                          (f_nat fo 0, f_nat fo 0))) bases) of
                  None \<Rightarrow> None
                | Some out \<Rightarrow> build_or 0 d (line_shape shape dim keepdim) out h)))"

definition var_dim ::
  "'v f64_ops \<Rightarrow> 'v casts \<Rightarrow> tensor \<Rightarrow> nat \<Rightarrow> bool \<Rightarrow> bool \<Rightarrow> 'v theap \<Rightarrow> 'v kernel_result" where
  "var_dim fo c src dim unbiased keepdim h =
     (case validate_dim src dim ''var_dim'' of
        Some e \<Rightarrow> Some (Inl e, h)
      | None \<Rightarrow>
          let d = t_dtype src in
          if mean_dtype d then welford_var fo c d src dim unbiased keepdim h else dtype_error ''var_dim'' d h)"

section \<open>Whole tensors\<close>

definition full_reduce :: "dtype \<Rightarrow> tensor \<Rightarrow> 'v \<Rightarrow> ('v \<Rightarrow> 'v \<Rightarrow> 'v option) \<Rightarrow> 'v theap \<Rightarrow> 'v kernel_result" where
  "full_reduce d src init op h =
     (case read_all d src h of
        None \<Rightarrow> None
      | Some buf \<Rightarrow>
          (case fold_opt (\<lambda>v acc. op acc v) buf init of
             None \<Rightarrow> None
           | Some acc \<Rightarrow> build_or (byte_size d) d [] [acc] h))"

definition full_dispatch ::
  "string \<Rightarrow> (dtype \<Rightarrow> 'v) \<Rightarrow> (dtype \<Rightarrow> 'v \<Rightarrow> 'v \<Rightarrow> 'v option) \<Rightarrow> tensor \<Rightarrow> 'v theap \<Rightarrow> 'v kernel_result" where
  "full_dispatch op init f src h =
     (let d = t_dtype src in
      if reduce_dtype d then full_reduce d src (init d) (f d) h else dtype_error op d h)"

definition prod_all :: "'v reduce_ops \<Rightarrow> tensor \<Rightarrow> 'v theap \<Rightarrow> 'v kernel_result" where
  "prod_all ro src h = full_dispatch ''prod'' (ro_one ro) (\<lambda>d. total (ro_mul ro d)) src h"

definition max_all :: "'v reduce_ops \<Rightarrow> tensor \<Rightarrow> 'v theap \<Rightarrow> 'v kernel_result" where
  "max_all ro src h = full_dispatch ''max'' (ro_lowest ro) (\<lambda>d. total (ro_max ro d)) src h"

definition min_all :: "'v reduce_ops \<Rightarrow> tensor \<Rightarrow> 'v theap \<Rightarrow> 'v kernel_result" where
  "min_all ro src h = full_dispatch ''min'' (ro_highest ro) (\<lambda>d. total (ro_min ro d)) src h"

definition sum_all :: "'v reduce_ops \<Rightarrow> tensor \<Rightarrow> 'v theap \<Rightarrow> 'v kernel_result" where
  "sum_all ro src h = full_dispatch ''sum'' (ro_zero ro) (plain_add ro) src h"

text \<open>The mean of a whole \<open>f32\<close> tensor is built by \<open>Tensor::scalar\<close>, which panics on failure.\<close>

definition mean_all :: "'v reduce_ops \<Rightarrow> tensor \<Rightarrow> 'v theap \<Rightarrow> 'v kernel_result" where
  "mean_all ro src h =
     (let n = t_numel src; d = t_dtype src in
      if n = 0 then Some (Inl (NumericalError (''mean of empty tensor is NaN '' @ em_dash @ '' refused'')), h)
      else if mean_dtype d then
        (case full_reduce d src (ro_zero ro d) (plain_add ro d) h of
           None \<Rightarrow> None
         | Some (Inl e, h1) \<Rightarrow> Some (Inl e, h1)
         | Some (Inr s, h1) \<Rightarrow>
             (case as_slice d s h1 of
                Some (Some (x # _)) \<Rightarrow>
                  if d = F32 then map_option (\<lambda>(t, h2). (Inr t, drop_tensor s h2)) (scalar (ro_div_n ro d x n) h1)
                  else map_option (\<lambda>(r, h2). (r, drop_tensor s h2)) (build_or 8 F64 [] [ro_div_n ro d x n] h1)
              | _ \<Rightarrow> None))
      else dtype_error ''mean'' d h)"

definition bool_reduce :: "'v casts \<Rightarrow> string \<Rightarrow> (bool list \<Rightarrow> bool) \<Rightarrow> tensor \<Rightarrow> 'v theap \<Rightarrow> 'v kernel_result" where
  "bool_reduce c op f src h =
     (if t_dtype src \<noteq> Bool then Some (Inl (BackendDtypeMismatch op (t_dtype src) Bool), h)
      else case read_all Bool src h of
        None \<Rightarrow> None
      | Some bs \<Rightarrow> build_or 1 Bool [] [c_bool c (f (map (c_true c) bs))] h)"

definition all_true :: "'v casts \<Rightarrow> tensor \<Rightarrow> 'v theap \<Rightarrow> 'v kernel_result" where
  "all_true c src h = bool_reduce c ''all'' (list_all (\<lambda>x. x)) src h"

definition any_true :: "'v casts \<Rightarrow> tensor \<Rightarrow> 'v theap \<Rightarrow> 'v kernel_result" where
  "any_true c src h = bool_reduce c ''any'' (list_ex (\<lambda>x. x)) src h"

section \<open>What a kernel computes\<close>

text \<open>\<open>r\<close> is a new dense tensor whose element at \<open>cs\<close> is \<open>f cs\<close>; nothing else has changed.\<close>

definition computes :: "'v theap \<Rightarrow> dtype \<Rightarrow> shape \<Rightarrow> (nat list \<Rightarrow> 'v) \<Rightarrow> 'v kernel_result \<Rightarrow> bool" where
  "computes h d s f r \<longleftrightarrow> (\<exists>t' h'. r = Some (Inr t', h') \<and> tensor_ok t' h' \<and> t_shape t' = s \<and> t_dtype t' = d
     \<and> contiguous (t_layout t') \<and> storage_offset (t_layout t') = 0 \<and> extends h h'
     \<and> (\<forall>cs. valid_coords s cs \<longrightarrow> t_elem t' h' cs = f cs))"

lemma computes_cong: "computes h d s f r \<Longrightarrow> (\<And>cs. valid_coords s cs \<Longrightarrow> f cs = g cs) \<Longrightarrow> computes h d s g r"
  by (auto simp: computes_def)

lemma build_or_new:
  assumes "length data = numel s" "fits_memory d (numel s)" "new_tensor d s data h = (t, h')"
  shows "build_or b d s data h = Some (Inr t, h')"
  using expect_from_vec[OF assms(1,2), of h] assms(3)
  by (auto simp: build_or_def new_tensor_def expect_ok_def split: prod.splits sum.splits)

lemma build_or_computes:
  assumes "length data = numel s" "fits_memory d (numel s)" "\<And>cs. valid_coords s cs \<Longrightarrow> data ! ravel s cs = f cs"
  shows "computes h d s f (build_or b d s data h)"
proof -
  obtain t' h' where nt: "new_tensor d s data h = (t', h')" by fastforce
  show ?thesis
    using build_or_new[OF assms(1,2) nt] new_tensor_ok[OF assms(1,2) nt] new_tensor_extends[OF nt]
      new_tensor_elem[OF assms(1,2) nt] assms(3)
    by (auto simp: computes_def)
qed

section \<open>Reductions along axes are folds\<close>

lemma drop_axes_valid:
  "list_all2 (<) cs s \<Longrightarrow> list_all2 (<) (map snd (filter (\<lambda>(i, c). i \<notin> D) (enumerate n cs)))
     (map snd (filter (\<lambda>(i, c). i \<notin> D) (enumerate n s)))"
  by (induction arbitrary: n rule: list_all2_induct) auto

lemma keep_axes_valid:
  "list_all2 (<) cs s \<Longrightarrow> list_all2 (<) (map (\<lambda>(i, c). if i \<in> D then 0 else c) (enumerate n cs))
     (map (\<lambda>(i, c). if i \<in> D then 1 else c :: nat) (enumerate n s))"
  by (induction arbitrary: n rule: list_all2_induct) auto

lemma reduced_coords_valid:
  "valid_coords s cs \<Longrightarrow> valid_coords (reduced_shape dims k s) (reduced_coords dims k cs)"
  using drop_axes_valid[of cs s "set dims" 0] keep_axes_valid[of cs s "set dims" 0]
  by (simp add: valid_coords_def reduced_shape_def reduced_coords_def drop_dims_def)

text \<open>The positions of the source that fall on \<open>cs\<close>, and what they hold.\<close>

definition fiber :: "shape \<Rightarrow> nat list \<Rightarrow> bool \<Rightarrow> nat list \<Rightarrow> nat list" where
  "fiber s dims k cs = filter (\<lambda>i. reduced_coords dims k (coords_of s i) = cs) [0..<numel s]"

definition fiber_elems :: "tensor \<Rightarrow> 'v theap \<Rightarrow> nat list \<Rightarrow> bool \<Rightarrow> nat list \<Rightarrow> 'v list" where
  "fiber_elems t h dims k cs = map (\<lambda>i. elems t h ! i) (fiber (t_shape t) dims k cs)"

text \<open>The fold of an operation that may panic.\<close>

abbreviation (input) fold_acc :: "('v \<Rightarrow> 'v \<Rightarrow> 'v option) \<Rightarrow> 'v \<Rightarrow> 'v list \<Rightarrow> 'v option" where
  "fold_acc op init xs \<equiv> fold_opt (\<lambda>v acc. op acc v) xs init"

lemma fold_acc_total [simp]: "fold_acc (total f) init xs = Some (foldl f init xs)"
  by (induction xs arbitrary: init) auto

text \<open>No sum of a prefix leaves the type.\<close>

definition sums_fit :: "'v reduce_ops \<Rightarrow> dtype \<Rightarrow> 'v list \<Rightarrow> bool" where
  "sums_fit ro d xs \<longleftrightarrow> (d = I64 \<or> d = I32 \<longrightarrow>
     (\<forall>n < length xs. in_type d (ro_int ro (foldl (ro_add ro d) (ro_zero ro d) (take n xs)) + ro_int ro (xs ! n))))"

lemma fold_acc_plain:
  assumes "d = I64 \<or> d = I32"
  shows "fold_acc (plain_add ro d) init xs =
     (if \<forall>n < length xs. in_type d (ro_int ro (foldl (ro_add ro d) init (take n xs)) + ro_int ro (xs ! n))
      then Some (foldl (ro_add ro d) init xs) else None)"
proof (induction xs arbitrary: init)
  case (Cons x xs)
  have "plain_add ro d init x = (if in_type d (ro_int ro init + ro_int ro x) then Some (ro_add ro d init x) else None)"
    using assms by (auto simp: plain_add_def)
  then have step: "fold_acc (plain_add ro d) init (x # xs) =
      (if in_type d (ro_int ro init + ro_int ro x) then fold_acc (plain_add ro d) (ro_add ro d init x) xs else None)" by simp
  show ?case unfolding step Cons.IH by (simp add: All_less_Suc2)
qed simp

lemma fold_plain: "fold_acc (plain_add ro d) (ro_zero ro d) xs =
    (if sums_fit ro d xs then Some (foldl (ro_add ro d) (ro_zero ro d) xs) else None)"
proof (cases "d = I64 \<or> d = I32")
  case True
  then show ?thesis by (simp add: fold_acc_plain sums_fit_def)
next
  case False
  then have "plain_add ro d = total (ro_add ro d)" by (simp add: plain_add_def fun_eq_iff)
  with False show ?thesis by (simp add: sums_fit_def)
qed

lemma sums_fit_float [simp]: "d \<noteq> I64 \<Longrightarrow> d \<noteq> I32 \<Longrightarrow> sums_fit ro d xs"
  by (simp add: sums_fit_def)

lemma those_None: "x \<in> set xs \<Longrightarrow> f x = None \<Longrightarrow> those (map f xs) = None"
  by (induction xs) (auto split: option.splits)

lemma reduce_loop_ok:
  assumes "list_all (\<lambda>(i, v). i < numel s) ps" "length out = numel (reduced_shape dims k s)"
  shows "reduce_loop s (reduced_shape dims k s) dims k op ps out =
    those (map (\<lambda>p. fold_acc op (out ! p) (map snd (filter (\<lambda>(i, v). ravel (reduced_shape dims k s) (reduced_coords dims k (coords_of s i)) = p) ps)))
      [0..<numel (reduced_shape dims k s)])"
  using assms
proof (induction ps arbitrary: out)
  case Nil
  have "those (map (\<lambda>p. Some (out ! p)) [0..<length out]) = Some (map (\<lambda>p. out ! p) [0..<length out])"
    by (rule those_map_Some) simp
  then show ?case by (simp add: map_nth Nil(2)[symmetric])
next
  case (Cons iv ps)
  obtain i v where iv: "iv = (i, v)" by (cases iv)
  let ?os = "reduced_shape dims k s"
  let ?cs = "reduced_coords dims k (coords_of s i)"
  let ?q = "ravel ?os ?cs" and ?on = "\<lambda>ps p. map snd (filter (\<lambda>(i, v). ravel ?os (reduced_coords dims k (coords_of s i)) = p) ps)"
  have i: "i < numel s" using Cons.prems(1) iv by simp
  then have cs: "valid_coords ?os ?cs" by (intro reduced_coords_valid valid_coords_of_less)
  have p: "?q < numel ?os" using ravel_less[OF cs] by (simp add: numel_prod_list)
  have step: "reduce_loop s ?os dims k op (iv # ps) out =
      (case op (out ! ?q) v of None \<Rightarrow> None | Some b \<Rightarrow> reduce_loop s ?os dims k op ps (out[?q := b]))"
    using i p Cons.prems(2) by (simp add: iv decode_coords_eq linear_of_ravel[OF valid_coords_length[OF cs]] get_elem_def Let_def)
  show ?case
  proof (cases "op (out ! ?q) v")
    case None
    then have "fold_acc op (out ! ?q) (?on (iv # ps) ?q) = None" by (simp add: iv)
    then have "those (map (\<lambda>p. fold_acc op (out ! p) (?on (iv # ps) p)) [0..<numel ?os]) = None"
      using p by (intro those_None[of ?q]) simp_all
    then show ?thesis using None by (simp only: step option.case)
  next
    case (Some b)
    have "reduce_loop s ?os dims k op ps (out[?q := b])
        = those (map (\<lambda>p. fold_acc op (out[?q := b] ! p) (?on ps p)) [0..<numel ?os])"
      using Cons.prems by (intro Cons.IH) auto
    also have "map (\<lambda>p. fold_acc op (out[?q := b] ! p) (?on ps p)) [0..<numel ?os]
        = map (\<lambda>p. fold_acc op (out ! p) (?on (iv # ps) p)) [0..<numel ?os]"
      using Some Cons.prems(2) by (intro map_cong refl) (auto simp: iv nth_list_update)
    finally show ?thesis using Some by (simp only: step option.case)
  qed
qed

lemma filter_enumerate:
  "map snd (filter (\<lambda>(i, v). P i) (enumerate 0 xs)) = map (\<lambda>i. xs ! i) (filter P [0..<length xs])"
proof -
  have "enumerate 0 xs = map (\<lambda>k. (k, xs ! k)) [0..<length xs]"
    using enumerate_map_upt[of 0 "\<lambda>k. xs ! k" "length xs"] by (simp add: map_nth)
  then show ?thesis by (simp add: filter_map comp_def)
qed

lemma enumerate_bound: "list_all (\<lambda>(i, v). i < length xs) (enumerate 0 xs)"
  by (auto simp: list_all_iff in_set_enumerate_eq)

lemma reduce_dim_run:
  assumes "tensor_ok t h" "d = t_dtype t" "0 \<notin> set (reduced_shape dims k (t_shape t))"
    and fits: "fits_memory d (numel (reduced_shape dims k (t_shape t)))"
  shows "reduce_dim d t dims k init op h =
    (case those (map (\<lambda>p. fold_acc op init (fiber_elems t h dims k (coords_of (reduced_shape dims k (t_shape t)) p)))
         [0..<numel (reduced_shape dims k (t_shape t))]) of
       None \<Rightarrow> None
     | Some data \<Rightarrow> build_or (numel (reduced_shape dims k (t_shape t)) * byte_size d) d (reduced_shape dims k (t_shape t)) data h)"
proof -
  let ?s = "t_shape t" and ?os = "reduced_shape dims k (t_shape t)"
  let ?P = "\<lambda>p i. ravel ?os (reduced_coords dims k (coords_of ?s i)) = p"
  let ?cells = "map (\<lambda>p. fold_acc op init (fiber_elems t h dims k (coords_of ?os p))) [0..<numel ?os]"
  have pos: "max (numel ?os) (Suc 0) = numel ?os" using numel_eq_0_iff[of ?os] assms(3) by (simp add: max_def)
  have take: "take (numel ?s) (enumerate 0 (elems t h)) = enumerate 0 (elems t h)" by simp
  have on: "map (\<lambda>i. elems t h ! i) (filter (?P p) [0..<numel ?s]) = fiber_elems t h dims k (coords_of ?os p)" if p: "p < numel ?os" for p
  proof -
    have v: "valid_coords ?os (coords_of ?os p)" using p by (rule valid_coords_of_less)
    have r: "ravel ?os (coords_of ?os p) = p" using p by (simp add: ravel_coords_of numel_prod_list)
    have "ravel ?os (reduced_coords dims k (coords_of ?s i)) = p \<longleftrightarrow> reduced_coords dims k (coords_of ?s i) = coords_of ?os p"
      if "i < numel ?s" for i
      using ravel_eq_iff[OF reduced_coords_valid[OF valid_coords_of_less[OF that]] v] r by simp
    then have "filter (?P p) [0..<numel ?s] = fiber ?s dims k (coords_of ?os p)"
      unfolding fiber_def by (intro filter_cong) simp_all
    then show ?thesis by (simp add: fiber_elems_def)
  qed
  have "reduce_loop ?s ?os dims k op (enumerate 0 (elems t h)) (replicate (numel ?os) init) =
      those (map (\<lambda>p. fold_acc op (replicate (numel ?os) init ! p) (map snd (filter (\<lambda>(i, v). ?P p i) (enumerate 0 (elems t h))))) [0..<numel ?os])"
    using enumerate_bound[of "elems t h"] by (intro reduce_loop_ok) simp_all
  also have "map (\<lambda>p. fold_acc op (replicate (numel ?os) init ! p) (map snd (filter (\<lambda>(i, v). ?P p i) (enumerate 0 (elems t h))))) [0..<numel ?os]
      = ?cells"
    by (intro map_cong refl) (simp add: filter_enumerate on)
  finally have "reduce_loop ?s ?os dims k op (enumerate 0 (elems t h)) (replicate (numel ?os) init) = those ?cells" .
  then show ?thesis
    using read_all_ok[OF assms(1,2)] fits_capacity[OF fits]
    by (simp add: reduce_dim_def Let_def pos take cong: option.case_cong)
qed

text \<open>The result when no fold panics, and the panic otherwise.\<close>

lemma reduce_dim_fold:
  assumes "tensor_ok t h" "d = t_dtype t" "0 \<notin> set (reduced_shape dims k (t_shape t))"
    and fits: "fits_memory d (numel (reduced_shape dims k (t_shape t)))"
    and f: "\<And>cs. valid_coords (reduced_shape dims k (t_shape t)) cs \<Longrightarrow> fold_acc op init (fiber_elems t h dims k cs) = Some (f cs)"
  shows "computes h d (reduced_shape dims k (t_shape t)) f (reduce_dim d t dims k init op h)"
proof -
  let ?os = "reduced_shape dims k (t_shape t)"
  have "those (map (\<lambda>p. fold_acc op init (fiber_elems t h dims k (coords_of ?os p))) [0..<numel ?os])
      = Some (map (\<lambda>p. f (coords_of ?os p)) [0..<numel ?os])"
    using f by (intro those_map_Some) (simp add: valid_coords_of_less)
  moreover have "computes h d ?os f (build_or (numel ?os * byte_size d) d ?os (map (\<lambda>p. f (coords_of ?os p)) [0..<numel ?os]) h)"
    using ravel_less[of ?os] by (intro build_or_computes[OF _ fits]) (simp_all add: numel_prod_list coords_of_ravel)
  ultimately show ?thesis by (simp add: reduce_dim_run[OF assms(1-3) fits])
qed

lemma reduce_dim_panics:
  assumes "tensor_ok t h" "d = t_dtype t" "0 \<notin> set (reduced_shape dims k (t_shape t))"
    and fits: "fits_memory d (numel (reduced_shape dims k (t_shape t)))"
    and cs: "valid_coords (reduced_shape dims k (t_shape t)) cs" and f: "fold_acc op init (fiber_elems t h dims k cs) = None"
  shows "reduce_dim d t dims k init op h = None"
proof -
  let ?os = "reduced_shape dims k (t_shape t)"
  have "those (map (\<lambda>p. fold_acc op init (fiber_elems t h dims k (coords_of ?os p))) [0..<numel ?os]) = None"
    using f ravel_less[OF cs] by (intro those_None[of "ravel ?os cs"]) (simp_all add: numel_prod_list coords_of_ravel[OF cs])
  then show ?thesis by (simp add: reduce_dim_run[OF assms(1-3) fits])
qed

lemma reduce_dim_ok:
  assumes "tensor_ok t h" "d = t_dtype t" "0 \<notin> set (reduced_shape dims k (t_shape t))"
    and fits: "fits_memory d (numel (reduced_shape dims k (t_shape t)))"
  shows "computes h d (reduced_shape dims k (t_shape t)) (\<lambda>cs. foldl op init (fiber_elems t h dims k cs))
    (reduce_dim d t dims k init (total op) h)"
  by (rule reduce_dim_fold[OF assms]) simp

subsection \<open>The fast path for matrices\<close>

lemma filter_upt_eq: "sorted_wrt (<) ys \<Longrightarrow> set ys = {i. i < k \<and> P i} \<Longrightarrow> filter P [0..<k :: nat] = ys"
  by (rule strict_sorted_equal) (auto simp: sorted_wrt_filter strict_sorted_iff)

lemma filter_column: "c < n \<Longrightarrow> filter (\<lambda>i. i mod n = c) [0..<m * n] = map (\<lambda>r. r * n + c) [0..<m]"
proof (rule filter_upt_eq)
  assume c: "c < n"
  show "sorted_wrt (<) (map (\<lambda>r. r * n + c) [0..<m])" using c by (simp add: sorted_wrt_map)
  have "r * n + c < m * n" if "r < m" for r
    using c mult_le_mono1[of "Suc r" m n] that by simp
  moreover have "i \<in> (\<lambda>r. r * n + c) ` {0..<m}" if "i < m * n" "i mod n = c" for i
    using that by (intro image_eqI[of _ _ "i div n"]) (auto simp: less_mult_imp_div_less)
  ultimately show "set (map (\<lambda>r. r * n + c) [0..<m]) = {i. i < m * n \<and> i mod n = c}" using c by auto
qed

lemma filter_row: "r < m \<Longrightarrow> filter (\<lambda>i. i div n = r) [0..<m * n] = [r * n..<r * n + n]"
proof (rule filter_upt_eq)
  assume r: "r < m"
  have le: "r * n + n \<le> m * n" using mult_le_mono1[of "Suc r" m n] r by simp
  have iff: "i div n = r \<longleftrightarrow> r * n \<le> i \<and> i < r * n + n" if "i < m * n" for i
  proof (cases "n = 0")
    case False
    then show ?thesis using div_nat_eqI[of n r i] div_times_less_eq_dividend[of i n] dividend_less_div_times[of n i]
      by (auto simp: mult.commute)
  qed (use that in simp)
  show "set [r * n..<r * n + n] = {i. i < m * n \<and> i div n = r}"
  proof (rule set_eqI)
    show "i \<in> set [r * n..<r * n + n] \<longleftrightarrow> i \<in> {i. i < m * n \<and> i div n = r}" for i
      using iff[of i] le by (cases "i < m * n") auto
  qed
qed simp

lemma sum_columns_nth:
  "\<forall>row \<in> set rows. length row = length out \<Longrightarrow> c < length out \<Longrightarrow>
   foldl (\<lambda>out row. map2 f out row) out rows ! c = foldl f (out ! c) (map (\<lambda>row. row ! c) rows)
     \<and> length (foldl (\<lambda>out row. map2 f out row) out rows) = length out"
  by (induction rows arbitrary: out) auto

lemma sum_columns_length: "\<forall>row \<in> set rows. length row = cols \<Longrightarrow> length (sum_columns f z rows cols) = cols"
proof -
  have "length (foldl (\<lambda>out row. map2 f out row) out rows) = length out" if "\<forall>row \<in> set rows. length row = length out" for out
    using that by (induction rows arbitrary: out) auto
  then show "\<forall>row \<in> set rows. length row = cols \<Longrightarrow> length (sum_columns f z rows cols) = cols"
    by (simp add: sum_columns_def)
qed

lemma matrix_rows:
  assumes "length xs = m * n"
  shows "those (map (row_of xs n) [0..<m]) = Some (map (\<lambda>r. take n (drop (r * n) xs)) [0..<m])"
    and "\<forall>row \<in> set (map (\<lambda>r. take n (drop (r * n) xs)) [0..<m]). length row = n"
proof -
  have le: "r * n + n \<le> m * n" if "r < m" for r using mult_le_mono1[of "Suc r" m n] that by simp
  show "those (map (row_of xs n) [0..<m]) = Some (map (\<lambda>r. take n (drop (r * n) xs)) [0..<m])"
    using le assms by (intro those_map_Some) (simp add: row_of_def)
  show "\<forall>row \<in> set (map (\<lambda>r. take n (drop (r * n) xs)) [0..<m]). length row = n"
    using le assms by (fastforce simp: min_def)
qed

text \<open>What falls on a position of the result of a matrix.\<close>

lemma fiber_matrix:
  assumes "t_shape t = [m, n]"
  shows "c < n \<Longrightarrow> fiber_elems t h [0] k (if k then [0, c] else [c])
      = map (\<lambda>r. take n (drop (r * n) (elems t h)) ! c) [0..<m]"
    and "r < m \<Longrightarrow> fiber_elems t h [1] k (if k then [r, 0] else [r]) = take n (drop (r * n) (elems t h))"
proof -
  have co: "coords_of [m, n] i = [i div n mod m, i mod n]" for i by simp
  have len: "length (elems t h) = m * n" using assms by (simp add: numel_def)
  have lt: "i div n < m" if "i < m * n" for i using that by (rule less_mult_imp_div_less)
  have le: "r * n + n \<le> m * n" if "r < m" for r using mult_le_mono1[of "Suc r" m n] that by simp
  show "fiber_elems t h [0] k (if k then [0, c] else [c]) = map (\<lambda>r. take n (drop (r * n) (elems t h)) ! c) [0..<m]" if c: "c < n"
  proof -
    have "fiber [m, n] [0] k (if k then [0, c] else [c]) = map (\<lambda>r. r * n + c) [0..<m]"
      using filter_column[OF c, of m] by (simp add: fiber_def reduced_coords_def drop_dims_def co numel_def)
    then show ?thesis using le c len by (simp add: fiber_elems_def assms comp_def)
  qed
  show "fiber_elems t h [1] k (if k then [r, 0] else [r]) = take n (drop (r * n) (elems t h))" if r: "r < m"
  proof -
    have "fiber [m, n] [1] k (if k then [r, 0] else [r]) = filter (\<lambda>i. i div n = r) [0..<m * n]"
      unfolding fiber_def using lt by (intro filter_cong) (simp_all add: reduced_coords_def drop_dims_def co numel_def)
    then have "fiber_elems t h [1] k (if k then [r, 0] else [r]) = map (\<lambda>i. elems t h ! i) [r * n..<r * n + n]"
      using filter_row[OF r, of n] by (simp add: fiber_elems_def assms)
    also have "\<dots> = take n (drop (r * n) (elems t h))"
      using le[OF r] len r by (intro nth_equalityI) simp_all
    finally show ?thesis .
  qed
qed

lemma validate_dims_None: "\<forall>d \<in> set dims. d < length (t_shape t) \<Longrightarrow> validate_dims t dims op = None"
  by (induction dims) auto

lemma sum_matrix_ok:
  assumes ok: "tensor_ok t h" and t: "t_dtype t = F32" "t_shape t = [m, n]" "contiguous (t_layout t)" "storage_offset (t_layout t) = 0"
    and fits: "fits_memory F32 (numel (reduced_shape [axis] k [m, n]))" and axis: "axis < 2"
  obtains r where "sum_dim_2d_f32 ro t axis k h = Some (Some r)"
    "computes h F32 (reduced_shape [axis] k [m, n]) (\<lambda>cs. foldl (ro_add ro F32) (ro_zero ro F32) (fiber_elems t h [axis] k cs)) (Some r)"
proof -
  let ?rows = "map (\<lambda>r. take n (drop (r * n) (elems t h))) [0..<m]"
  let ?os = "reduced_shape [axis] k [m, n]"
  let ?data = "if axis = 0 then sum_columns (ro_add ro F32) (ro_zero ro F32) ?rows n else sum_rows (ro_add ro F32) (ro_zero ro F32) ?rows"
  have sl: "as_slice F32 t h = Some (Some (elems t h))" using contiguous_numel_data[OF ok t(3,4)] t(1) by simp
  have len: "length (elems t h) = m * n" by (simp add: t(2) numel_def)
  note rows = matrix_rows[OF len]
  have os: "?os = (if axis = 0 then (if k then [1, n] else [n]) else (if k then [m, 1] else [m]))"
    using axis by (auto simp: reduced_shape_def drop_dims_def less_2_cases_iff)
  have dlen: "length ?data = numel ?os"
    using sum_columns_length[OF rows(2)] by (simp add: os numel_def sum_rows_def)
  have elem: "?data ! ravel ?os cs = foldl (ro_add ro F32) (ro_zero ro F32) (fiber_elems t h [axis] k cs)" if cs: "valid_coords ?os cs" for cs
  proof (cases "axis = 0")
    case True
    then obtain c where c: "c < n" "cs = (if k then [0, c] else [c])"
      using cs[unfolded os] True by (auto simp: valid_coords_Cons split: if_splits)
    have "?data ! c = foldl (ro_add ro F32) (ro_zero ro F32) (map (\<lambda>row. row ! c) ?rows)"
      using sum_columns_nth[of ?rows "replicate n (ro_zero ro F32)" c "ro_add ro F32"] rows(2) c True by (simp add: sum_columns_def)
    then show ?thesis using fiber_matrix(1)[OF t(2) c(1), of h k] c(2) True unfolding os by (simp add: comp_def)
  next
    case False
    then have a: "axis = 1" using axis by simp
    with cs obtain r where r: "r < m" "cs = (if k then [r, 0] else [r])"
      unfolding os by (auto simp: valid_coords_Cons split: if_splits)
    then show ?thesis using fiber_matrix(2)[OF t(2) r(1), of h k] a unfolding os by (simp add: sum_rows_def)
  qed
  obtain b where eq: "sum_dim_2d_f32 ro t axis k h = map_option Some (build_or b F32 ?os ?data h)"
    using axis sl rows(1) t(2) by (auto simp: sum_dim_2d_f32_def os Let_def less_2_cases_iff)
  have c: "computes h F32 ?os (\<lambda>cs. foldl (ro_add ro F32) (ro_zero ro F32) (fiber_elems t h [axis] k cs)) (build_or b F32 ?os ?data h)"
    by (rule build_or_computes[OF dlen fits elem])
  then obtain r where "build_or b F32 ?os ?data h = Some r" by (auto simp: computes_def)
  with eq c that[of r] show thesis by simp
qed

lemma sum_dim_ok:
  assumes ok: "tensor_ok t h" and d: "reduce_dtype (t_dtype t)" and dims: "\<forall>d \<in> set dims. d < length (t_shape t)"
    and nz: "0 \<notin> set (reduced_shape dims k (t_shape t))"
    and fits: "fits_memory (t_dtype t) (numel (reduced_shape dims k (t_shape t)))"
    and sums: "\<And>cs. valid_coords (reduced_shape dims k (t_shape t)) cs \<Longrightarrow> sums_fit ro (t_dtype t) (fiber_elems t h dims k cs)"
  shows "computes h (t_dtype t) (reduced_shape dims k (t_shape t))
    (\<lambda>cs. foldl (ro_add ro (t_dtype t)) (ro_zero ro (t_dtype t)) (fiber_elems t h dims k cs)) (sum_dim ro t dims k h)"
proof (cases "t_dtype t = F32 \<and> length (t_shape t) = 2 \<and> length dims = 1 \<and> contiguous (t_layout t) \<and> storage_offset (t_layout t) = 0")
  case True
  then obtain axis where ax: "dims = [axis]" by (auto simp: length_Suc_conv)
  from True obtain m n where sh: "t_shape t = [m, n]" by (auto simp: length_Suc_conv numeral_2_eq_2)
  have lt: "axis < 2" using dims ax sh by simp
  obtain r where "sum_dim_2d_f32 ro t axis k h = Some (Some r)"
    "computes h F32 (reduced_shape [axis] k [m, n]) (\<lambda>cs. foldl (ro_add ro F32) (ro_zero ro F32) (fiber_elems t h [axis] k cs)) (Some r)"
    using sum_matrix_ok[OF ok _ sh, of axis k ro] True fits lt sh ax by auto
  then show ?thesis using True validate_dims_None[OF dims] by (simp add: sum_dim_def ax sh)
next
  case False
  then have "sum_dim ro t dims k h = reduce_dim (t_dtype t) t dims k (ro_zero ro (t_dtype t)) (plain_add ro (t_dtype t)) h"
    using d unfolding sum_dim_def validate_dims_None[OF dims] by (simp only: option.case if_False) (simp add: sum_dim_typed_def Let_def)
  then show ?thesis using sums by (auto simp: fold_plain intro!: reduce_dim_fold[OF ok refl nz fits])
qed

lemma sum_dim_panics:
  assumes ok: "tensor_ok t h" and d: "reduce_dtype (t_dtype t)" and dims: "\<forall>d \<in> set dims. d < length (t_shape t)"
    and nz: "0 \<notin> set (reduced_shape dims k (t_shape t))"
    and fits: "fits_memory (t_dtype t) (numel (reduced_shape dims k (t_shape t)))"
    and cs: "valid_coords (reduced_shape dims k (t_shape t)) cs" and bad: "\<not> sums_fit ro (t_dtype t) (fiber_elems t h dims k cs)"
  shows "sum_dim ro t dims k h = None"
proof -
  have "t_dtype t \<noteq> F32" using bad by auto
  then have "sum_dim ro t dims k h = reduce_dim (t_dtype t) t dims k (ro_zero ro (t_dtype t)) (plain_add ro (t_dtype t)) h"
    using d unfolding sum_dim_def validate_dims_None[OF dims] by (simp add: sum_dim_typed_def Let_def)
  then show ?thesis using reduce_dim_panics[OF ok refl nz fits cs] bad by (simp add: fold_plain)
qed

lemma computes_dropped:
  assumes "computes h1 d s f r" "extends h h1"
  shows "computes h d s f (map_option (\<lambda>(r, h'). (r, drop_tensor u h')) r)"
proof -
  obtain t' h' where r: "r = Some (Inr t', h')" "tensor_ok t' h'" "t_shape t' = s" "t_dtype t' = d"
    "contiguous (t_layout t')" "storage_offset (t_layout t') = 0" "extends h1 h'" "\<And>cs. valid_coords s cs \<Longrightarrow> t_elem t' h' cs = f cs"
    using assms(1) by (auto simp: computes_def)
  note x = drop_tensor_extends[of h' u]
  show ?thesis
    using r extends_tensor[OF x r(2)] extends_trans[OF extends_trans[OF assms(2) r(7)] x] by (auto simp: computes_def)
qed

lemma mean_of_sum_ok:
  assumes s: "tensor_ok s h1" "t_shape s = os" "t_dtype s = d" "contiguous (t_layout s)" "storage_offset (t_layout s) = 0"
    and "extends h h1" "fits_memory d (numel os)"
  shows "computes h d os (\<lambda>cs. ro_div_n ro d (t_elem s h1 cs) n) (mean_of_sum ro d n s h1)"
proof -
  have sl: "as_slice d s h1 = Some (Some (elems s h1))" using contiguous_numel_data[OF s(1,4,5)] s(3) by simp
  have "computes h1 d os (\<lambda>cs. ro_div_n ro d (t_elem s h1 cs) n) (build_or 0 d os (map (\<lambda>x. ro_div_n ro d x n) (elems s h1)) h1)"
  proof (rule build_or_computes[OF _ assms(7)])
    show "length (map (\<lambda>x. ro_div_n ro d x n) (elems s h1)) = numel os" by (simp add: s(2))
    show "map (\<lambda>x. ro_div_n ro d x n) (elems s h1) ! ravel os cs = ro_div_n ro d (t_elem s h1 cs) n" if "valid_coords os cs" for cs
      using elem_ravel[of s cs h1] ravel_less[OF that] that s(2) by (simp add: numel_prod_list)
  qed
  from computes_dropped[OF this assms(6)] show ?thesis by (simp add: mean_of_sum_def sl s(2))
qed

lemma mean_dim_ok:
  assumes ok: "tensor_ok t h" and d: "mean_dtype (t_dtype t)" and dims: "\<forall>d \<in> set dims. d < length (t_shape t)"
    and nz: "0 \<notin> set (t_shape t)" and fits: "fits_memory (t_dtype t) (numel (reduced_shape dims k (t_shape t)))"
  shows "computes h (t_dtype t) (reduced_shape dims k (t_shape t))
    (\<lambda>cs. ro_div_n ro (t_dtype t) (foldl (ro_add ro (t_dtype t)) (ro_zero ro (t_dtype t)) (fiber_elems t h dims k cs))
            (prod_list (map (\<lambda>d. t_shape t ! d) dims))) (mean_dim ro t dims k h)"
proof -
  let ?d = "t_dtype t" and ?os = "reduced_shape dims k (t_shape t)" and ?n = "prod_list (map (\<lambda>d. t_shape t ! d) dims)"
  have nzi: "t_shape t ! i \<noteq> 0" if "i < length (t_shape t)" for i using nz nth_mem[OF that] by metis
  then have nzo: "0 \<notin> set ?os" by (fastforce simp: reduced_shape_def drop_dims_def in_set_enumerate_eq split: if_splits)
  have n: "?n \<noteq> 0"
  proof
    assume "?n = 0"
    then obtain i where "i \<in> set dims" "t_shape t ! i = 0" by (auto simp: prod_list_zero_iff)
    with nzi dims show False by blast
  qed
  have "computes h ?d ?os (\<lambda>cs. foldl (ro_add ro ?d) (ro_zero ro ?d) (fiber_elems t h dims k cs))
      (reduce_dim ?d t dims k (ro_zero ro ?d) (plain_add ro ?d) h)"
    using d by (intro reduce_dim_fold[OF ok refl nzo fits]) (auto simp: fold_plain mean_dtype_def)
  then obtain s h1 where s: "reduce_dim ?d t dims k (ro_zero ro ?d) (plain_add ro ?d) h = Some (Inr s, h1)"
    "tensor_ok s h1" "t_shape s = ?os" "t_dtype s = ?d" "contiguous (t_layout s)" "storage_offset (t_layout s) = 0" "extends h h1"
    "\<And>cs. valid_coords ?os cs \<Longrightarrow> t_elem s h1 cs = foldl (ro_add ro ?d) (ro_zero ro ?d) (fiber_elems t h dims k cs)"
    by (auto simp: computes_def)
  have eq: "mean_dim ro t dims k h = mean_of_sum ro ?d ?n s h1"
    unfolding mean_dim_def validate_dims_None[OF dims] using n d s(1) by (simp add: Let_def)
  show ?thesis unfolding eq by (rule computes_cong[OF mean_of_sum_ok[OF s(2-7) fits]]) (simp add: s(8))
qed

lemma extreme_dim_ok:
  assumes ok: "tensor_ok t h" and d: "reduce_dtype (t_dtype t)" and dim: "dim < length (t_shape t)"
    and nz: "0 \<notin> set (reduced_shape [dim] k (t_shape t))"
    and fits: "fits_memory (t_dtype t) (numel (reduced_shape [dim] k (t_shape t)))"
  shows "computes h (t_dtype t) (reduced_shape [dim] k (t_shape t))
    (\<lambda>cs. foldl (f (t_dtype t)) (init (t_dtype t)) (fiber_elems t h [dim] k cs)) (extreme_dim op init f t dim k h)"
  using reduce_dim_ok[OF ok refl nz fits] d dim by (simp add: extreme_dim_def validate_dim_def Let_def)

section \<open>Kernels along lines\<close>

text \<open>The line through \<open>cs\<close>, and the position of a result that keeps or drops the axis.\<close>

definition line_elems :: "tensor \<Rightarrow> 'v theap \<Rightarrow> nat \<Rightarrow> nat list \<Rightarrow> 'v list" where
  "line_elems t h dim cs = map (\<lambda>k. t_elem t h (cs[dim := k])) [0..<t_shape t ! dim]"

definition line_coords :: "nat \<Rightarrow> bool \<Rightarrow> nat list \<Rightarrow> nat list" where
  "line_coords dim keepdim cs = (if keepdim then cs else list_insert cs dim 0)"

lemma line_shape_insert:
  assumes "dim < length s" shows "list_insert (list_remove (s[dim := 1]) dim) dim 1 = (s[dim := 1] :: shape)"
  using assms by (simp add: list_insert_def list_remove_def split_at min_def)

lemma line_coords_valid:
  assumes "dim < length s" "valid_coords (line_shape s dim k) cs"
  shows "valid_coords (s[dim := 1]) (line_coords dim k cs)" "ravel (s[dim := 1]) (line_coords dim k cs) = ravel (line_shape s dim k) cs"
proof -
  have len: "length (list_remove (s[dim := 1]) dim) = length s - 1" using assms(1) by (simp add: list_remove_def min_def)
  have le: "dim \<le> length (list_remove (s[dim := 1]) dim)" using len assms(1) by simp
  have cs: "length cs = length s - 1" if "\<not> k" using valid_coords_length[OF assms(2)] len that by (simp add: line_shape_def)
  show "valid_coords (s[dim := 1]) (line_coords dim k cs)"
    using assms valid_insert[of "list_remove (s[dim := 1]) dim" cs dim 0 1, OF _ le] len
    by (auto simp: line_shape_def line_coords_def line_shape_insert[unfolded One_nat_def])
  show "ravel (s[dim := 1]) (line_coords dim k cs) = ravel (line_shape s dim k) cs"
    using cs len assms(1) ravel_insert[of cs "list_remove (s[dim := 1]) dim" dim]
    by (auto simp: line_shape_def line_coords_def line_shape_insert[unfolded One_nat_def])
qed

lemma numel_line_shape:
  assumes "dim < length s" shows "numel (line_shape s dim k) = numel (s[dim := 1])"
  using assms by (simp add: line_shape_def numel_prod_list split_at list_remove_def min_def)

lemma line_bases_ok:
  assumes "dim < length s" "0 \<notin> set (s[dim := 1])"
  shows "line_bases s dim = Some (map (\<lambda>i. ravel s ((coords_of (s[dim := 1]) i)[dim := 0])) [0..<numel (s[dim := 1])])"
proof -
  have pos: "max (numel (s[dim := 1])) (Suc 0) = numel (s[dim := 1])"
    using numel_eq_0_iff[of "s[dim := 1]"] assms(2) by (simp add: max_def)
  have "line_base s dim i = Some (ravel s ((coords_of (s[dim := 1]) i)[dim := 0]))" if "i < numel (s[dim := 1])" for i
    using that by (simp add: line_base_def decode_coords_eq linear_of_ravel)
  then show ?thesis unfolding line_bases_def using pos by (simp add: those_map_Some)
qed

text \<open>Stepping along a line by the stride of its axis.\<close>

lemma strides_nth: "dim < length s \<Longrightarrow> contiguous_strides s ! dim = prod_list (drop (dim + 1) s)"
  using contiguous_strides_row_major[of s] row_major_nth[of dim s] length_row_major[of s]
  by (metis add.commute length_map nth_map of_nat_eq_iff plus_1_eq_Suc)

lemma line_step:
  assumes "dim < length s" "valid_coords (s[dim := 1]) cs" "k < s ! dim"
  shows "ravel s (cs[dim := 0]) + k * contiguous_strides s ! dim = ravel s (cs[dim := k])" "valid_coords s (cs[dim := k])"
proof -
  have len: "length cs = length s" using valid_coords_length[OF assms(2)] by simp
  show "ravel s (cs[dim := 0]) + k * contiguous_strides s ! dim = ravel s (cs[dim := k])"
    using ravel_axis[OF assms(1) len, of "s ! dim"] assms(1) by (simp add: strides_nth)
  show "valid_coords s (cs[dim := k])"
    using assms len by (auto simp: valid_coords_nth nth_list_update)
qed

lemma line_get:
  assumes ok: "tensor_ok t h" and "dim < length (t_shape t)" "valid_coords ((t_shape t)[dim := 1]) cs" "k < t_shape t ! dim"
  shows "get_elem (elems t h) (ravel (t_shape t) (cs[dim := 0]) + k * contiguous_strides (t_shape t) ! dim)
    = Some (line_elems t h dim cs ! k)"
  using line_step[OF assms(2-4)] ravel_less[of "t_shape t" "cs[dim := k]"] elem_ravel[of t "cs[dim := k]" h] assms(4)
  by (simp add: get_elem_def line_elems_def numel_prod_list)

text \<open>The result of a kernel that computes one value per line.\<close>

lemma lines_compute:
  assumes dim: "dim < length s" and fits: "fits_memory d (numel (s[dim := 1]))"
  shows "computes h d (line_shape s dim k) (\<lambda>cs. F (line_coords dim k cs))
    (build_or b d (line_shape s dim k) (map (\<lambda>i. F (coords_of (s[dim := 1]) i)) [0..<numel (s[dim := 1])]) h)"
proof (rule build_or_computes)
  fix cs assume cs: "valid_coords (line_shape s dim k) cs"
  note v = line_coords_valid[OF dim cs]
  have "ravel (s[dim := 1]) (line_coords dim k cs) < numel (s[dim := 1])" using ravel_less[OF v(1)] by (simp add: numel_prod_list)
  then show "map (\<lambda>i. F (coords_of (s[dim := 1]) i)) [0..<numel (s[dim := 1])] ! ravel (line_shape s dim k) cs = F (line_coords dim k cs)"
    using coords_of_ravel[OF v(1)] v(2) by simp
qed (use fits numel_line_shape[OF dim] in simp_all)

subsection \<open>The first extremum\<close>

text \<open>The comparison of the numbers in \<open>A\<close>; among floating-point numbers it holds when none is NaN.\<close>

definition strict_weak_on :: "'v set \<Rightarrow> ('v \<Rightarrow> 'v \<Rightarrow> bool) \<Rightarrow> bool" where
  "strict_weak_on A lt \<longleftrightarrow> (\<forall>x \<in> A. \<not> lt x x) \<and> (\<forall>x \<in> A. \<forall>y \<in> A. \<forall>z \<in> A. lt x y \<longrightarrow> lt y z \<longrightarrow> lt x z)
     \<and> (\<forall>x \<in> A. \<forall>y \<in> A. \<forall>z \<in> A. lt x y \<longrightarrow> lt x z \<or> lt z y)"

lemma strict_weak_on_mono: "strict_weak_on A lt \<Longrightarrow> B \<subseteq> A \<Longrightarrow> strict_weak_on B lt"
  unfolding strict_weak_on_def by blast

text \<open>\<open>k\<close> is the first position of \<open>xs\<close> that no other one beats.\<close>

definition first_best :: "('v \<Rightarrow> 'v \<Rightarrow> bool) \<Rightarrow> 'v list \<Rightarrow> nat \<Rightarrow> bool" where
  "first_best better xs k \<longleftrightarrow> k < length xs \<and> (\<forall>j < length xs. \<not> better (xs ! j) (xs ! k)) \<and> (\<forall>j < k. better (xs ! k) (xs ! j))"

lemma best_loop_ok:
  assumes sw: "strict_weak_on (set xs) better" and get: "\<And>k. k < length xs \<Longrightarrow> get_elem buf (base + k * stride) = Some (xs ! k)"
  shows "b < j \<Longrightarrow> j \<le> length xs \<Longrightarrow> \<forall>i < j. \<not> better (xs ! i) (xs ! b) \<Longrightarrow> \<forall>i < b. better (xs ! b) (xs ! i) \<Longrightarrow>
    \<exists>k. best_loop better buf base stride [j..<length xs] b (xs ! b) = Some k \<and> first_best better xs k"
proof (induction "length xs - j" arbitrary: j b)
  case 0
  then show ?case by (auto simp: first_best_def)
next
  case (Suc n)
  have j: "j < length xs" "[j..<length xs] = j # [Suc j..<length xs]" using Suc.hyps(2) by (simp_all add: upt_rec)
  have mem: "xs ! i \<in> set xs" if "i < Suc j" for i using that j(1) by simp
  show ?case
  proof (cases "better (xs ! j) (xs ! b)")
    case True
    have b: "xs ! b \<in> set xs" "xs ! j \<in> set xs" using mem Suc.prems(1) by simp_all
    have up: "better (xs ! j) (xs ! i)" if "i < j" for i
      using sw[unfolded strict_weak_on_def] True Suc.prems(3) b mem[of i] that by (meson less_Suc_eq)
    have "\<not> better (xs ! i) (xs ! j)" if "i < Suc j" for i
    proof (cases "i = j")
      case True
      then show ?thesis using sw b by (simp add: strict_weak_on_def)
    next
      case False
      then have "\<not> better (xs ! j) (xs ! j)" "better (xs ! j) (xs ! i)" using sw b up that by (simp_all add: strict_weak_on_def)
      then show ?thesis using sw b mem[OF that] unfolding strict_weak_on_def by meson
    qed
    then have "\<forall>i < Suc j. \<not> better (xs ! i) (xs ! j)" by blast
    moreover have "\<forall>i < j. better (xs ! j) (xs ! i)" using up by blast
    ultimately show ?thesis using Suc.hyps(1)[of "Suc j" j] Suc.hyps(2) j get[OF j(1)] True by simp
  next
    case False
    have "\<forall>i < Suc j. \<not> better (xs ! i) (xs ! b)" using False Suc.prems(3) by (auto simp: less_Suc_eq)
    then show ?thesis using Suc.hyps(1)[of "Suc j" b] Suc.hyps(2) Suc.prems j get[OF j(1)] False by simp
  qed
qed

lemma line_elems_subset:
  assumes "tensor_ok t h" "dim < length (t_shape t)" "valid_coords ((t_shape t)[dim := 1]) cs"
  shows "set (line_elems t h dim cs) \<subseteq> set (elems t h)"
proof
  fix x assume "x \<in> set (line_elems t h dim cs)"
  then obtain k where k: "k < t_shape t ! dim" "x = line_elems t h dim cs ! k"
    by (auto simp: in_set_conv_nth line_elems_def)
  let ?p = "ravel (t_shape t) (cs[dim := 0]) + k * contiguous_strides (t_shape t) ! dim"
  have "?p < length (elems t h)" "elems t h ! ?p = x"
    using line_get[OF assms k(1)] k(2) by (simp_all add: get_elem_def split: if_splits)
  then show "x \<in> set (elems t h)" using nth_mem by blast
qed

lemma best_of_line_ok:
  assumes sw: "strict_weak_on (set (elems t h)) better" and ok: "tensor_ok t h" and dim: "dim < length (t_shape t)" "0 < t_shape t ! dim"
    and cs: "valid_coords ((t_shape t)[dim := 1]) cs"
  shows "\<exists>k. best_of_line better (elems t h) (t_shape t ! dim) (contiguous_strides (t_shape t) ! dim) (ravel (t_shape t) (cs[dim := 0]))
    = Some k \<and> first_best better (line_elems t h dim cs) k"
proof -
  let ?xs = "line_elems t h dim cs"
  have len: "length ?xs = t_shape t ! dim" by (simp add: line_elems_def)
  note get = line_get[OF ok dim(1) cs]
  have sw': "strict_weak_on (set ?xs) better" by (rule strict_weak_on_mono[OF sw line_elems_subset[OF ok dim(1) cs]])
  have "\<exists>k. best_loop better (elems t h) (ravel (t_shape t) (cs[dim := 0])) (contiguous_strides (t_shape t) ! dim) [1..<length ?xs] 0 (?xs ! 0)
      = Some k \<and> first_best better ?xs k"
    using best_loop_ok[OF sw', of _ _ _ 0 1] get len dim(2) sw' by (simp add: strict_weak_on_def)
  then show ?thesis using get[of 0] dim(2) len by (simp add: best_of_line_def)
qed

definition first_of :: "('v \<Rightarrow> 'v \<Rightarrow> bool) \<Rightarrow> 'v list \<Rightarrow> nat" where
  "first_of better xs = hd (filter (\<lambda>k. list_all (\<lambda>v. \<not> better v (xs ! k)) xs) [0..<length xs])"

lemma first_of_eq: "first_best better xs k \<Longrightarrow> first_of better xs = k"
proof -
  assume k: "first_best better xs k"
  let ?P = "\<lambda>k. list_all (\<lambda>v. \<not> better v (xs ! k)) xs"
  have split: "[0..<length xs] = [0..<k] @ k # [Suc k..<length xs]"
    using k upt_add_eq_append[of 0 k "length xs - k"] by (simp add: first_best_def upt_rec[of k])
  have "\<not> ?P j" if "j < k" for j using k that by (auto simp: first_best_def list_all_length)
  then have "filter ?P [0..<k] = []" by (simp add: filter_empty_conv)
  moreover have "?P k" using k by (simp add: first_best_def list_all_length)
  ultimately show ?thesis unfolding first_of_def split by simp
qed

lemma nonempty_axes: "0 \<notin> set s \<Longrightarrow> 0 \<notin> set (s[dim := 1 :: nat])"
  using set_update_subset_insert[of s dim 1] by auto

lemma arg_reduce_ok:
  assumes sw: "strict_weak_on (set (elems t h)) better" and ok: "tensor_ok t h" and dim: "dim < length (t_shape t)" and nz: "0 \<notin> set (t_shape t)"
    and fits: "fits_memory I64 (numel ((t_shape t)[dim := 1]))"
  shows "computes h I64 (line_shape (t_shape t) dim k) (\<lambda>cs. ro_i64 ro (first_of better (line_elems t h dim (line_coords dim k cs))))
    (arg_reduce ro t dim k better h)"
proof -
  let ?s = "t_shape t" and ?os = "(t_shape t)[dim := 1]"
  have pos: "0 < ?s ! dim" using nz nth_mem[OF dim] by (metis gr0I)
  have max: "max (numel ?os) (Suc 0) = numel ?os"
    using numel_eq_0_iff[of ?os] nonempty_axes[OF nz] by (simp add: max_def)
  have best: "best_of_line better (elems t h) (?s ! dim) (contiguous_strides ?s ! dim) (ravel ?s ((coords_of ?os i)[dim := 0]))
      = Some (first_of better (line_elems t h dim (coords_of ?os i)))" if "i < numel ?os" for i
    using best_of_line_ok[OF sw ok dim pos valid_coords_of_less[OF that]] first_of_eq by blast
  have "those (map (best_of_line better (elems t h) (?s ! dim) (contiguous_strides ?s ! dim)) (map (\<lambda>i. ravel ?s ((coords_of ?os i)[dim := 0])) [0..<numel ?os]))
      = Some (map (\<lambda>i. first_of better (line_elems t h dim (coords_of ?os i))) [0..<numel ?os])"
    unfolding map_map comp_def by (rule those_map_Some) (use best in simp)
  then have "arg_reduce ro t dim k better h = build_or (numel ?os * 8) I64 (line_shape ?s dim k)
      (map (\<lambda>i. ro_i64 ro (first_of better (line_elems t h dim (coords_of ?os i)))) [0..<numel ?os]) h"
    using read_all_ok[OF ok refl] fits_capacity[OF fits] line_bases_ok[OF dim nonempty_axes[OF nz]] max
    by (simp add: arg_reduce_def Let_def comp_def)
  then show ?thesis using lines_compute[OF dim fits, of h k "\<lambda>cs. ro_i64 ro (first_of better (line_elems t h dim cs))"] by simp
qed

subsection \<open>Running sums\<close>

lemma line_elems_update: "line_elems t h dim (cs[dim := j]) = line_elems t h dim cs"
  by (simp add: line_elems_def)

lemma cum_line_ok:
  assumes ok: "tensor_ok t h" and dim: "dim < length (t_shape t)" and cs0: "valid_coords ((t_shape t)[dim := 1]) cs0"
  shows "k \<le> t_shape t ! dim \<Longrightarrow> length out = t_numel t \<Longrightarrow>
    \<exists>out'. cum_line op (elems t h) (ravel (t_shape t) (cs0[dim := 0])) (contiguous_strides (t_shape t) ! dim) [k..<t_shape t ! dim]
        (foldl op init (take k (line_elems t h dim cs0))) out = Some out' \<and> length out' = length out \<and>
      (\<forall>cs. valid_coords (t_shape t) cs \<longrightarrow> out' ! ravel (t_shape t) cs =
        (if cs[dim := 0] = cs0 \<and> k \<le> cs ! dim then foldl op init (take (Suc (cs ! dim)) (line_elems t h dim cs0)) else out ! ravel (t_shape t) cs))"
proof (induction "t_shape t ! dim - k" arbitrary: k out)
  case 0
  then have "\<not> (k \<le> cs ! dim)" if "valid_coords (t_shape t) cs" for cs using that dim by (auto simp: valid_coords_nth)
  with 0 show ?case by auto
next
  case (Suc n)
  let ?s = "t_shape t" and ?line = "line_elems t h dim cs0"
  let ?p = "ravel ?s (cs0[dim := k])" and ?v = "foldl op init (take (Suc k) (line_elems t h dim cs0))"
  have k: "k < ?s ! dim" "[k..<?s ! dim] = k # [Suc k..<?s ! dim]" using Suc.hyps(2) by (simp_all add: upt_rec)
  have z: "cs0[dim := 0] = cs0" "length cs0 = length ?s"
    using cs0 dim by (auto simp: valid_coords_nth list_update_same_conv)
  note st = line_step[OF dim cs0 k(1)]
  have p: "?p < t_numel t" using ravel_less[OF st(2)] by (simp add: numel_prod_list)
  have v: "op (foldl op init (take k ?line)) (?line ! k) = ?v" using k(1) by (simp add: take_Suc_conv_app_nth line_elems_def)
  have nk: "n = ?s ! dim - Suc k" "Suc k \<le> ?s ! dim" using Suc.hyps(2) k(1) by simp_all
  have "length (out[?p := ?v]) = t_numel t" using Suc.prems by simp
  from Suc.hyps(1)[OF nk this] obtain out' where
    o: "cum_line op (elems t h) (ravel ?s (cs0[dim := 0])) (contiguous_strides ?s ! dim) [Suc k..<?s ! dim] ?v (out[?p := ?v]) = Some out'"
      "length out' = length out" "\<And>cs. valid_coords ?s cs \<Longrightarrow> out' ! ravel ?s cs =
        (if cs[dim := 0] = cs0 \<and> Suc k \<le> cs ! dim then foldl op init (take (Suc (cs ! dim)) ?line) else out[?p := ?v] ! ravel ?s cs)"
    by auto
  have "cum_line op (elems t h) (ravel ?s (cs0[dim := 0])) (contiguous_strides ?s ! dim) [k..<?s ! dim] (foldl op init (take k ?line)) out = Some out'"
    using o(1) line_get[OF ok dim cs0 k(1)] st(1) p Suc.prems(2) v k(2) by simp
  moreover have "out' ! ravel ?s cs = (if cs[dim := 0] = cs0 \<and> k \<le> cs ! dim then foldl op init (take (Suc (cs ! dim)) ?line) else out ! ravel ?s cs)"
    if cs: "valid_coords ?s cs" for cs
  proof (cases "cs = cs0[dim := k]")
    case True
    then show ?thesis using o(3)[OF cs] p Suc.prems(2) z dim by simp
  next
    case False
    have "cs[dim := 0] = cs0 \<and> k \<le> cs ! dim \<longleftrightarrow> cs[dim := 0] = cs0 \<and> Suc k \<le> cs ! dim"
      using False by (metis Suc_leD le_antisym list_update_id list_update_overwrite not_less_eq_eq)
    moreover have "ravel ?s cs \<noteq> ?p" using ravel_eq_iff[OF cs st(2)] False by simp
    ultimately show ?thesis using o(3)[OF cs] by simp
  qed
  ultimately show ?case using o(2) by blast
qed

lemma line_of:
  assumes "dim < length s" "valid_coords s cs"
  shows "valid_coords (s[dim := 1]) (cs[dim := 0])"
  using assms by (auto simp: valid_coords_nth nth_list_update)

lemma cum_lines_ok:
  assumes ok: "tensor_ok t h" and dim: "dim < length (t_shape t)"
  shows "\<forall>i \<in> set L. i < numel ((t_shape t)[dim := 1]) \<Longrightarrow> length out = t_numel t \<Longrightarrow>
    \<exists>out'. cum_lines op init (elems t h) (t_shape t ! dim) (contiguous_strides (t_shape t) ! dim)
        (map (\<lambda>i. ravel (t_shape t) ((coords_of ((t_shape t)[dim := 1]) i)[dim := 0])) L) out = Some out' \<and> length out' = length out \<and>
      (\<forall>cs. valid_coords (t_shape t) cs \<longrightarrow> out' ! ravel (t_shape t) cs =
        (if ravel ((t_shape t)[dim := 1]) (cs[dim := 0]) \<in> set L then foldl op init (take (Suc (cs ! dim)) (line_elems t h dim cs))
         else out ! ravel (t_shape t) cs))"
proof (induction L arbitrary: out)
  case (Cons i L)
  let ?s = "t_shape t" and ?os = "(t_shape t)[dim := 1]"
  have v: "valid_coords ?os (coords_of ?os i)" using Cons.prems(1) by (simp add: valid_coords_of_less)
  obtain o1 where o1: "cum_line op (elems t h) (ravel ?s ((coords_of ?os i)[dim := 0])) (contiguous_strides ?s ! dim) [0..<?s ! dim] init out = Some o1"
    "length o1 = length out" "\<And>cs. valid_coords ?s cs \<Longrightarrow> o1 ! ravel ?s cs =
      (if cs[dim := 0] = coords_of ?os i then foldl op init (take (Suc (cs ! dim)) (line_elems t h dim (coords_of ?os i))) else out ! ravel ?s cs)"
    using cum_line_ok[OF ok dim v, of 0 out op init] Cons.prems(2) by auto
  obtain o2 where o2: "cum_lines op init (elems t h) (?s ! dim) (contiguous_strides ?s ! dim) (map (\<lambda>i. ravel ?s ((coords_of ?os i)[dim := 0])) L) o1 = Some o2"
    "length o2 = length o1" "\<And>cs. valid_coords ?s cs \<Longrightarrow> o2 ! ravel ?s cs =
      (if ravel ?os (cs[dim := 0]) \<in> set L then foldl op init (take (Suc (cs ! dim)) (line_elems t h dim cs)) else o1 ! ravel ?s cs)"
    using Cons.IH[of o1] Cons.prems o1(2) by auto
  have "o2 ! ravel ?s cs = (if ravel ?os (cs[dim := 0]) \<in> set (i # L) then foldl op init (take (Suc (cs ! dim)) (line_elems t h dim cs))
      else out ! ravel ?s cs)" if cs: "valid_coords ?s cs" for cs
  proof -
    have "cs[dim := 0] = coords_of ?os i \<longleftrightarrow> ravel ?os (cs[dim := 0]) = i"
      using coords_of_ravel[OF line_of[OF dim cs]] ravel_coords_of[of ?os i] Cons.prems(1)
      by (auto simp: numel_prod_list)
    moreover have "line_elems t h dim (cs[dim := 0]) = line_elems t h dim cs" by (rule line_elems_update)
    ultimately show ?thesis using o2(3)[OF cs] o1(3)[OF cs] by auto
  qed
  then show ?case using o1 o2 by auto
qed auto

lemma cum_along_ok:
  assumes ok: "tensor_ok t h" and dim: "dim < length (t_shape t)" and nz: "0 \<notin> set ((t_shape t)[dim := 1])"
  shows "computes h (t_dtype t) (t_shape t) (\<lambda>cs. foldl op init (take (Suc (cs ! dim)) (line_elems t h dim cs))) (cum_along t dim init op h)"
proof -
  let ?s = "t_shape t" and ?os = "(t_shape t)[dim := 1]"
  obtain out where out: "cum_lines op init (elems t h) (?s ! dim) (contiguous_strides ?s ! dim)
      (map (\<lambda>i. ravel ?s ((coords_of ?os i)[dim := 0])) [0..<numel ?os]) (replicate (t_numel t) init) = Some out" "length out = t_numel t"
    "\<And>cs. valid_coords ?s cs \<Longrightarrow> out ! ravel ?s cs = (if ravel ?os (cs[dim := 0]) \<in> set [0..<numel ?os]
      then foldl op init (take (Suc (cs ! dim)) (line_elems t h dim cs)) else replicate (t_numel t) init ! ravel ?s cs)"
    using cum_lines_ok[OF ok dim, of "[0..<numel ?os]" "replicate (t_numel t) init" op init] by auto
  have fits: "fits_memory (t_dtype t) (t_numel t)" by (rule own_fits[OF ok])
  have "out ! ravel ?s cs = foldl op init (take (Suc (cs ! dim)) (line_elems t h dim cs))" if cs: "valid_coords ?s cs" for cs
    using out(3)[OF cs] ravel_less[OF line_of[OF dim cs]] by (simp add: numel_prod_list)
  then have "computes h (t_dtype t) ?s (\<lambda>cs. foldl op init (take (Suc (cs ! dim)) (line_elems t h dim cs)))
      (build_or (t_numel t * byte_size (t_dtype t)) (t_dtype t) ?s out h)"
    by (intro build_or_computes fits) (simp_all add: out(2))
  then show ?thesis
    using read_all_ok[OF ok refl] fits_capacity[OF fits] line_bases_ok[OF dim nz] out(1)
    by (simp add: cum_along_def Let_def)
qed

subsection \<open>Variance\<close>

definition welford :: "'v f64_ops \<Rightarrow> 'v list \<Rightarrow> 'v \<times> 'v" where
  "welford fo xs = fold (\<lambda>k. welford_step fo k (xs ! k)) [0..<length xs] (f_nat fo 0, f_nat fo 0)"

lemma welford_loop_eq:
  assumes "\<forall>k \<in> set ks. get_elem buf (base + k * stride) = Some (x k)"
  shows "welford_loop fo to_f64 buf base stride ks acc = Some (fold (\<lambda>k. welford_step fo k (to_f64 (x k))) ks acc)"
  using assms by (induction ks arbitrary: acc) simp_all

lemma welford_line:
  assumes ok: "tensor_ok t h" and dim: "dim < length (t_shape t)" and cs: "valid_coords ((t_shape t)[dim := 1]) cs"
  shows "welford_loop fo to_f64 (elems t h) (ravel (t_shape t) (cs[dim := 0])) (contiguous_strides (t_shape t) ! dim)
    [0..<t_shape t ! dim] (f_nat fo 0, f_nat fo 0) = Some (welford fo (map to_f64 (line_elems t h dim cs)))"
proof -
  have len: "length (map to_f64 (line_elems t h dim cs)) = t_shape t ! dim" by (simp add: line_elems_def)
  have "fold (\<lambda>k. welford_step fo k (to_f64 (line_elems t h dim cs ! k))) [0..<t_shape t ! dim] acc
      = fold (\<lambda>k. welford_step fo k (map to_f64 (line_elems t h dim cs) ! k)) [0..<t_shape t ! dim] acc" for acc
    using len by (intro fold_cong) simp_all
  then show ?thesis
    using welford_loop_eq[of "[0..<t_shape t ! dim]" "elems t h" _ _ "\<lambda>k. line_elems t h dim cs ! k" fo to_f64] line_get[OF ok dim cs]
    unfolding welford_def len by simp
qed

lemma welford_var_ok:
  assumes ok: "tensor_ok t h" and dim: "dim < length (t_shape t)" and nz: "0 \<notin> set ((t_shape t)[dim := 1])"
    and fits: "fits_memory (t_dtype t) (numel ((t_shape t)[dim := 1]))"
  shows "computes h (t_dtype t) (line_shape (t_shape t) dim k)
    (\<lambda>cs. c_of_f64 c (t_dtype t) (f_div fo (snd (welford fo (map (c_to_f64 c (t_dtype t)) (line_elems t h dim (line_coords dim k cs)))))
       (var_denom fo unbiased (t_shape t ! dim)))) (welford_var fo c (t_dtype t) t dim unbiased k h)"
proof -
  let ?s = "t_shape t" and ?os = "(t_shape t)[dim := 1]" and ?d = "t_dtype t"
  let ?F = "\<lambda>cs. c_of_f64 c ?d (f_div fo (snd (welford fo (map (c_to_f64 c ?d) (line_elems t h dim cs)))) (var_denom fo unbiased (?s ! dim)))"
  let ?G = "\<lambda>base. map_option (\<lambda>(mean, m2). c_of_f64 c ?d (f_div fo m2 (var_denom fo unbiased (?s ! dim))))
      (welford_loop fo (c_to_f64 c ?d) (elems t h) base (contiguous_strides ?s ! dim) [0..<?s ! dim] (f_nat fo 0, f_nat fo 0))"
  have max: "max (numel ?os) (Suc 0) = numel ?os" using numel_eq_0_iff[of ?os] nz by (simp add: max_def)
  have one: "?G (ravel ?s ((coords_of ?os i)[dim := 0])) = Some (?F (coords_of ?os i))" if "i < numel ?os" for i
    using welford_line[OF ok dim valid_coords_of_less[OF that], of fo "c_to_f64 c ?d"] by (simp add: case_prod_beta)
  have "those (map ?G (map (\<lambda>i. ravel ?s ((coords_of ?os i)[dim := 0])) [0..<numel ?os])) = Some (map (\<lambda>i. ?F (coords_of ?os i)) [0..<numel ?os])"
    unfolding map_map comp_def by (rule those_map_Some) (use one in simp)
  then have "welford_var fo c ?d t dim unbiased k h = build_or 0 ?d (line_shape ?s dim k) (map (\<lambda>i. ?F (coords_of ?os i)) [0..<numel ?os]) h"
    using read_all_ok[OF ok refl] fits_capacity[OF fits] line_bases_ok[OF dim nz] max
    by (simp add: welford_var_def Let_def)
  then show ?thesis using lines_compute[OF dim fits, of h k ?F] by simp
qed

text \<open>Exact arithmetic, and the two-pass definition.\<close>

definition exact_f64 :: "'v :: linordered_field f64_ops" where
  "exact_f64 = \<lparr>f_nat = of_nat, f_add = (+), f_sub = (-), f_mul = (*), f_div = (/), f_max = max\<rparr>"

definition mean_of :: "'v :: linordered_field list \<Rightarrow> 'v" where
  "mean_of xs = sum_list xs / of_nat (length xs)"

definition sq_dev :: "'v :: linordered_field list \<Rightarrow> 'v" where
  "sq_dev xs = sum_list (map (\<lambda>x. (x - mean_of xs)\<^sup>2) xs)"

lemma sq_dev_shift:
  "sum_list (map (\<lambda>x. (x - b)\<^sup>2) xs) = sum_list (map (\<lambda>x. (x - a)\<^sup>2) xs)
     + 2 * (a - b) * (sum_list xs - of_nat (length xs) * a) + of_nat (length xs) * (a - b)\<^sup>2"
  for a b :: "'v :: linordered_field"
  by (induction xs) (simp_all add: algebra_simps power2_eq_square)

lemma mean_of_mult: "of_nat (length xs) * mean_of xs = sum_list xs"
  by (cases "xs = []") (simp_all add: mean_of_def)

lemma mean_of_snoc: "mean_of (xs @ [v]) = mean_of xs + (v - mean_of xs) / (of_nat (length xs) + 1)"
proof -
  have nz: "of_nat (length xs) + 1 \<noteq> (0 :: 'a)" by (metis add.commute of_nat_Suc of_nat_neq_0)
  have "mean_of (xs @ [v]) = (of_nat (length xs) * mean_of xs + v) / (of_nat (length xs) + 1)"
    by (simp only: mean_of_mult) (simp add: mean_of_def add.commute)
  also have "\<dots> = mean_of xs + (v - mean_of xs) / (of_nat (length xs) + 1)"
    using nz by (simp add: field_simps)
  finally show ?thesis .
qed

lemma sq_dev_snoc: "sq_dev (xs @ [v]) = sq_dev xs + (v - mean_of xs) * (v - mean_of (xs @ [v]))"
proof -
  let ?n = "of_nat (length xs) :: 'a" and ?a = "mean_of xs" and ?b = "mean_of (xs @ [v])"
  define e where "e = (v - ?a) / (?n + 1)"
  have nz: "?n + 1 \<noteq> 0" by (metis add.commute of_nat_Suc of_nat_neq_0)
  have b: "?b = ?a + e" by (simp add: mean_of_snoc e_def)
  have v: "v = ?a + (?n + 1) * e" using nz by (simp add: e_def)
  have "sq_dev (xs @ [v]) = sum_list (map (\<lambda>x. (x - ?b)\<^sup>2) xs) + (v - ?b)\<^sup>2" by (simp add: sq_dev_def)
  also have "\<dots> = sq_dev xs + (?n * (?a - ?b)\<^sup>2 + (v - ?b)\<^sup>2)"
    unfolding sq_dev_shift[of ?b xs ?a] by (simp add: mean_of_mult sq_dev_def)
  also have "?n * (?a - ?b)\<^sup>2 + (v - ?b)\<^sup>2 = (v - ?a) * (v - ?b)"
  proof -
    have d: "?a - ?b = - e" "v - ?b = ?n * e" "v - ?a = (?n + 1) * e" using b v by (simp_all add: algebra_simps)
    show ?thesis unfolding d by (simp add: algebra_simps power2_eq_square)
  qed
  finally show ?thesis .
qed

lemma welford_exact: "welford exact_f64 xs = (mean_of xs, sq_dev xs)"
proof (induction xs rule: rev_induct)
  case Nil
  then show ?case by (simp add: welford_def exact_f64_def mean_of_def sq_dev_def)
next
  case (snoc v xs)
  have "welford exact_f64 (xs @ [v]) = welford_step exact_f64 (length xs) v (welford exact_f64 xs)"
  proof -
    have "fold (\<lambda>k. welford_step exact_f64 k ((xs @ [v]) ! k)) [0..<length xs] acc = fold (\<lambda>k. welford_step exact_f64 k (xs ! k)) [0..<length xs] acc" for acc
      by (intro fold_cong) (simp_all add: nth_append)
    then show ?thesis by (simp add: welford_def)
  qed
  also have "\<dots> = (mean_of (xs @ [v]), sq_dev (xs @ [v]))"
    unfolding snoc by (simp add: welford_step_def exact_f64_def Let_def sq_dev_snoc mean_of_snoc)
  finally show ?case .
qed

section \<open>Whole tensors\<close>

lemma full_reduce_run:
  assumes ok: "tensor_ok t h" and d: "reduce_dtype (t_dtype t)"
  shows "full_dispatch op init f t h = (case fold_acc (f (t_dtype t)) (init (t_dtype t)) (elems t h) of
     None \<Rightarrow> None | Some x \<Rightarrow> build_or (byte_size (t_dtype t)) (t_dtype t) [] [x] h)"
  using d read_all_ok[OF ok refl] by (simp add: full_dispatch_def full_reduce_def Let_def)

lemma scalar_computes: "computes h d [] (\<lambda>_. x) (build_or b d [] [x] h)"
proof -
  have "fits_memory d (numel [])" by (cases d; simp; code_simp)
  then show ?thesis by (intro build_or_computes) (simp_all add: numel_def)
qed

lemma full_reduce_ok:
  assumes ok: "tensor_ok t h" and d: "reduce_dtype (t_dtype t)"
  shows "computes h (t_dtype t) [] (\<lambda>_. foldl (f (t_dtype t)) (init (t_dtype t)) (elems t h)) (full_dispatch op init (\<lambda>d. total (f d)) t h)"
  by (simp add: full_reduce_run[OF ok d] scalar_computes)

lemma sum_all_run:
  assumes ok: "tensor_ok t h" and d: "reduce_dtype (t_dtype t)"
  shows "if sums_fit ro (t_dtype t) (elems t h)
    then computes h (t_dtype t) [] (\<lambda>_. foldl (ro_add ro (t_dtype t)) (ro_zero ro (t_dtype t)) (elems t h)) (sum_all ro t h)
    else sum_all ro t h = None"
  by (simp add: sum_all_def full_reduce_run[OF ok d] fold_plain scalar_computes)

section \<open>The properties\<close>

lemma le_mult_pos: "x \<le> y \<Longrightarrow> 0 < a \<Longrightarrow> x \<le> a * (y :: nat)"
  by (cases a) auto

lemma prod_drop_le:
  "0 \<notin> set s \<Longrightarrow> prod_list (map snd (filter (\<lambda>(i, c). i \<notin> D) (enumerate n s))) \<le> prod_list (s :: nat list)"
  by (induction s arbitrary: n) (auto intro: mult_le_mono le_mult_pos)

lemma prod_keep_le:
  "0 \<notin> set s \<Longrightarrow> prod_list (map (\<lambda>(i, c). if i \<in> D then 1 else c) (enumerate n s)) \<le> prod_list (s :: nat list)"
  by (induction s arbitrary: n) (auto intro: mult_le_mono le_mult_pos)

lemma reduced_numel_le: "0 \<notin> set s \<Longrightarrow> numel (reduced_shape dims k s) \<le> numel s"
  using prod_drop_le[of s "set dims" 0] prod_keep_le[of s "set dims" 0]
  by (simp add: numel_prod_list reduced_shape_def drop_dims_def)

lemma reduced_nonempty: "0 \<notin> set s \<Longrightarrow> 0 \<notin> set (reduced_shape dims k s)"
proof -
  assume nz: "0 \<notin> set s"
  have "s ! i \<noteq> 0" if "i < length s" for i using nz nth_mem[OF that] by metis
  then show ?thesis by (fastforce simp: reduced_shape_def drop_dims_def in_set_enumerate_eq split: if_splits)
qed

lemma reduced_fits: "tensor_ok t h \<Longrightarrow> 0 \<notin> set (t_shape t) \<Longrightarrow> fits_memory (t_dtype t) (numel (reduced_shape dims k (t_shape t)))"
  by (rule fits_memory_mono[OF own_fits reduced_numel_le])

text \<open>The folds of an operation of the element type: over what falls on \<open>cs\<close>, and over the line up to \<open>cs\<close>.\<close>

definition fold_fiber :: "(dtype \<Rightarrow> 'v \<Rightarrow> 'v \<Rightarrow> 'v) \<Rightarrow> (dtype \<Rightarrow> 'v) \<Rightarrow> tensor \<Rightarrow> 'v theap \<Rightarrow> nat list \<Rightarrow> bool \<Rightarrow> nat list \<Rightarrow> 'v" where
  "fold_fiber f init t h dims k cs = foldl (f (t_dtype t)) (init (t_dtype t)) (fiber_elems t h dims k cs)"

definition fold_prefix :: "(dtype \<Rightarrow> 'v \<Rightarrow> 'v \<Rightarrow> 'v) \<Rightarrow> (dtype \<Rightarrow> 'v) \<Rightarrow> tensor \<Rightarrow> 'v theap \<Rightarrow> nat \<Rightarrow> nat list \<Rightarrow> 'v" where
  "fold_prefix f init t h dim cs = foldl (f (t_dtype t)) (init (t_dtype t)) (take (Suc (cs ! dim)) (line_elems t h dim cs))"


definition int_reduce :: "int reduce_ops" where
  "int_reduce = \<lparr>ro_zero = \<lambda>_. 0, ro_one = \<lambda>_. 1, ro_lowest = \<lambda>_. - 1000, ro_highest = \<lambda>_. 1000, ro_add = \<lambda>_. (+), ro_mul = \<lambda>_. (*),
     ro_max = \<lambda>_. max, ro_min = \<lambda>_. min, ro_less = \<lambda>_. (<), ro_div_n = \<lambda>_ x n. x div int n, ro_i64 = int, ro_int = \<lambda>x. x\<rparr>"


text \<open>An integer sum that leaves its type panics, where the running sum wraps around.\<close>

definition wrap32 :: "int \<Rightarrow> int" where
  "wrap32 x = (x + 2 ^ 31) mod 2 ^ 32 - 2 ^ 31"

definition i32_reduce :: "int reduce_ops" where
  "i32_reduce = int_reduce\<lparr>ro_add := \<lambda>_ a b. wrap32 (a + b)\<rparr>"

definition i32_heap :: "int theap" where
  "i32_heap = \<lparr>bufs = [\<lparr>buf_dtype = I32, buf_data = [2147483647, 1], buf_strong = 1\<rparr>], vers = [0]\<rparr>"

lemma integer_sum_overflows:
  "sum_all i32_reduce (dense_at 0 [2] I32) i32_heap = None"
  "sum_dim i32_reduce (dense_at 0 [2] I32) [0] False i32_heap = None"
  "map_option (\<lambda>(r, h'). case r of Inl e \<Rightarrow> [] | Inr t \<Rightarrow> elems t h') (cumsum i32_reduce (dense_at 0 [2] I32) 0 i32_heap)
     = Some [2147483647, - 2147483648]"
  by code_simp+

section \<open>Empty axes\<close>

text \<open>
  A sum whose result is empty is reported as out of memory, except on the fast path for \<open>f32\<close>
  matrices; a position of an extremum on an empty line panics; and an axis that is named twice
  divides twice.
\<close>

definition empty_heap :: "int theap" where
  "empty_heap = \<lparr>bufs = [\<lparr>buf_dtype = F32, buf_data = [], buf_strong = 1\<rparr>, \<lparr>buf_dtype = F64, buf_data = [], buf_strong = 1\<rparr>], vers = [0, 0]\<rparr>"

lemma empty_sum_out_of_memory:
  "map_option fst (sum_dim int_reduce (dense_at 1 [2, 0] F64) [0] False empty_heap) = Some (Inl (OutOfMemory 8))"
  "map_option (\<lambda>(r, h'). case r of Inl e \<Rightarrow> [] | Inr t \<Rightarrow> t_shape t) (sum_dim int_reduce (dense_at 0 [2, 0] F32) [0] False empty_heap) = Some [0]"
  by code_simp+

lemma empty_argmax_panics: "argmax int_reduce (dense_at 0 [2, 0] F32) 1 False empty_heap = None"
  by code_simp

lemma repeated_axis_divides_twice:
  "map_option (\<lambda>(r, h'). case r of Inl e \<Rightarrow> [] | Inr t \<Rightarrow> elems t h') (mean_dim int_reduce (dense_at 0 [2, 2] F32) [0, 0] False index_heap)
     = Some [4 div 4, 6 div 4]"
  by code_simp

end
