(* ===== verification/Messages.thy ===== *)
theory Messages
  imports Concat
begin

text \<open>
  The texts of errors: the \<open>Display\<close> instances of \<open>DataType\<close>, \<open>ViewError\<close>, \<open>StorageError\<close>,
  \<open>TensorError\<close> and \<open>BackendError\<close>.  \<open>show_nat\<close> and \<open>show_int\<close> are the decimal form of
  integers, \<open>show_list\<close> the \<open>{:?}\<close> form of a vector of them.
\<close>

fun show_nat :: "nat \<Rightarrow> string" where
  "show_nat n = (if n < 10 then [char_of (48 + n)] else show_nat (n div 10) @ [char_of (48 + n mod 10)])"

declare show_nat.simps [simp del]

definition show_int :: "int \<Rightarrow> string" where
  "show_int i = (if i < 0 then ''-'' @ show_nat (nat (- i)) else show_nat (nat i))"

definition show_list :: "nat list \<Rightarrow> string" where
  "show_list xs = ''['' @ join_with '', '' (map show_nat xs) @ '']''"

fun show_dtype :: "dtype \<Rightarrow> string" where
  "show_dtype F32 = ''f32''"
| "show_dtype F64 = ''f64''"
| "show_dtype F16 = ''f16''"
| "show_dtype BF16 = ''bf16''"
| "show_dtype I64 = ''i64''"
| "show_dtype I32 = ''i32''"
| "show_dtype I8 = ''i8''"
| "show_dtype Bool = ''bool''"

fun show_view_error :: "view_error \<Rightarrow> string" where
  "show_view_error NonContiguous =
     ''Tensor::view requires the source to be contiguous; '' @
     ''call .reshape() (with a possible copy) or .contiguous() first''"
| "show_view_error (NumelMismatch src_numel dst_numel) =
     ''view shape numel ('' @ show_nat dst_numel @ '') does not match source numel ('' @ show_nat src_numel @ '')''"
| "show_view_error (PermuteRankMismatch src_rank perm_len) =
     ''permute: expected permutation of length '' @ show_nat src_rank @ '', got '' @ show_nat perm_len"
| "show_view_error (InvalidPermutation perm) =
     ''permute: '' @ show_list perm @ '' is not a valid permutation of [0..ndim)''"
| "show_view_error (DimOutOfRange d rank) =
     ''dim '' @ show_nat d @ '' out of range for tensor of rank '' @ show_nat rank"
| "show_view_error (NarrowOutOfRange d start end_or_len dim_size) =
     ''narrow/slice: range ['' @ show_nat start @ '', '' @ show_nat end_or_len @ '') on dim '' @ show_nat d @
     '' (size '' @ show_nat dim_size @ '') is out of bounds''"
| "show_view_error (NotSqueezable d sz) =
     ''squeeze: dim '' @ show_nat d @ '' has size '' @ show_nat sz @ '' (only size-1 dims can be squeezed)''"
| "show_view_error ViewPanic = ''''"
| "show_view_error ViewOverflow = ''''"

fun show_storage_error :: "storage_error \<Rightarrow> string" where
  "show_storage_error (InvalidAlloc byte_len align) =
     ''invalid alloc layout: byte_len='' @ show_nat byte_len @ '', align='' @ show_nat align @
     '' (must satisfy byte_len <= isize::MAX and align is power-of-two)''"
| "show_storage_error (storage_error.OutOfMemory byte_len) =
     ''out of memory allocating '' @ show_nat byte_len @ '' bytes''"

fun show_tensor_error :: "tensor_error \<Rightarrow> string" where
  "show_tensor_error (ShapeDataMismatch expected got shape) =
     ''shape '' @ show_list shape @ '' requires '' @ show_nat expected @ '' elements, got '' @ show_nat got"
| "show_tensor_error (ShapeMismatch op lhs rhs) =
     op @ '': incompatible shapes '' @ show_list lhs @ '' vs '' @ show_list rhs"
| "show_tensor_error (DtypeMismatch op got expected) =
     op @ '': dtype mismatch (got '' @ show_dtype got @ '', expected '' @ show_dtype expected @ '')''"
| "show_tensor_error (Aliased op) = op @ '': in-place op requires unique storage; clone first''"
| "show_tensor_error (StorageFailed e) = ''storage error: '' @ show_storage_error e"
| "show_tensor_error SizeOverflow = ''''"

text \<open>Long shapes are cut; the ellipsis is its UTF-8 bytes.\<close>

definition fmt_shape :: "nat list \<Rightarrow> string" where
  "fmt_shape shape =
     (if length shape \<le> 8 then show_list shape
      else ''['' @ show_list (take 4 shape) @ [CHR 0xE2, CHR 0x80, CHR 0xA6]
        @ show_list (drop (length shape - 4) shape) @ '' (rank '' @ show_nat (length shape) @ '')]'')"

fun show_backend_error :: "backend_error \<Rightarrow> string" where
  "show_backend_error (BackendShapeMismatch op lhs rhs) =
     op @ '': sizes of tensors must match: '' @ fmt_shape lhs @ '' vs '' @ fmt_shape rhs"
| "show_backend_error (BackendDtypeMismatch op lhs rhs) =
     op @ '': dtype mismatch: '' @ show_dtype lhs @ '' vs '' @ show_dtype rhs"
| "show_backend_error (OutOfMemory bytes) = ''out of memory allocating '' @ show_nat bytes @ '' bytes''"
| "show_backend_error (UnsupportedOp op dev) = op @ '' is not supported on device '' @ dev"
| "show_backend_error (NumericalError msg) = ''numerical error: '' @ msg"
| "show_backend_error (IndexOutOfBounds op index bound) =
     op @ '': index '' @ show_int index @ '' out of bounds (axis size '' @ show_nat bound @ '')''"
| "show_backend_error (AliasingViolation op) = op @ '': in-place op forbidden when storage is aliased''"

text \<open>The decimal form determines the number.\<close>

fun read_nat :: "string \<Rightarrow> nat" where
  "read_nat s = foldl (\<lambda>n c. 10 * n + (of_char c - 48)) 0 s"

lemma read_show_nat: "read_nat (show_nat n) = n"
proof (induction n rule: show_nat.induct)
  case (1 n)
  show ?case
  proof (cases "n < 10")
    case True
    then show ?thesis by (subst show_nat.simps) simp
  next
    case False
    then show ?thesis using 1 by (subst show_nat.simps) simp
  qed
qed

end
