(* ===== verification/Cpu_Backend.thy ===== *)
theory Cpu_Backend
  imports Reductions Messages
begin

text \<open>
  The operations of \<open>cpu_backend.rs\<close> that differentiation uses and that are no reduction or indexing
  kernel: the dispatch of element-wise operations on their type, matrix products, copies in another
  shape, the bias of a layer, and \<open>unbroadcast_to\<close>; and the default methods of the \<open>Backend\<close> trait
  (\<open>backend.rs\<close>) that the CPU backend inherits.  The build is one for a platform other than macOS and
  WebAssembly: matrices of at least 32 rows and columns go to the \<open>gemm\<close> crate, a parameter.
\<close>

section \<open>Parameters\<close>

text \<open>
  The arithmetic of the element types beyond that of the reductions. \<open>nm_nat n\<close> is \<open>n as f32\<close>.  \<open>nm_gemm d\<close> is
  \<open>gemm::gemm\<close> at the element type \<open>d\<close>: it gets the arguments of the crate in their order (the buffer to
  write with its column and row strides and whether to read it, the two operands with their strides,
  \<open>alpha\<close>, \<open>beta\<close> and the three conjugation flags) and returns the written buffer.  \<open>nm_uninit\<close> is what
  a buffer holds that was allocated and not initialised.
\<close>

type_synonym 'v gemm_call =
  "nat \<Rightarrow> nat \<Rightarrow> nat \<Rightarrow> 'v list \<Rightarrow> int \<Rightarrow> int \<Rightarrow> bool \<Rightarrow> 'v list \<Rightarrow> int \<Rightarrow> int \<Rightarrow> 'v list \<Rightarrow> int \<Rightarrow> int \<Rightarrow> 'v \<Rightarrow> 'v
    \<Rightarrow> bool \<Rightarrow> bool \<Rightarrow> bool \<Rightarrow> 'v list"

record 'v num_ops =
  nm_reduce :: "'v reduce_ops"
  nm_casts :: "'v casts"
  nm_sub :: "dtype \<Rightarrow> 'v \<Rightarrow> 'v \<Rightarrow> 'v"
  nm_div :: "dtype \<Rightarrow> 'v \<Rightarrow> 'v \<Rightarrow> 'v"
  nm_pow :: "dtype \<Rightarrow> 'v \<Rightarrow> 'v \<Rightarrow> 'v"
  nm_neg :: "dtype \<Rightarrow> 'v \<Rightarrow> 'v"
  nm_abs :: "dtype \<Rightarrow> 'v \<Rightarrow> 'v"
  nm_exp :: "dtype \<Rightarrow> 'v \<Rightarrow> 'v"
  nm_ln :: "dtype \<Rightarrow> 'v \<Rightarrow> 'v"
  nm_sqrt :: "dtype \<Rightarrow> 'v \<Rightarrow> 'v"
  nm_tanh :: "dtype \<Rightarrow> 'v \<Rightarrow> 'v"
  nm_eq :: "dtype \<Rightarrow> 'v \<Rightarrow> 'v \<Rightarrow> bool"
  nm_nat :: "nat \<Rightarrow> 'v"
  nm_gemm :: "dtype \<Rightarrow> 'v gemm_call"
  nm_uninit :: "nat \<Rightarrow> 'v"

abbreviation nm_zero :: "'v num_ops \<Rightarrow> dtype \<Rightarrow> 'v" where
  "nm_zero nm \<equiv> ro_zero (nm_reduce nm)"

abbreviation nm_one :: "'v num_ops \<Rightarrow> dtype \<Rightarrow> 'v" where
  "nm_one nm \<equiv> ro_one (nm_reduce nm)"

abbreviation nm_add :: "'v num_ops \<Rightarrow> dtype \<Rightarrow> 'v \<Rightarrow> 'v \<Rightarrow> 'v" where
  "nm_add nm \<equiv> ro_add (nm_reduce nm)"

abbreviation nm_mul :: "'v num_ops \<Rightarrow> dtype \<Rightarrow> 'v \<Rightarrow> 'v \<Rightarrow> 'v" where
  "nm_mul nm \<equiv> ro_mul (nm_reduce nm)"

abbreviation nm_less :: "'v num_ops \<Rightarrow> dtype \<Rightarrow> 'v \<Rightarrow> 'v \<Rightarrow> bool" where
  "nm_less nm \<equiv> ro_less (nm_reduce nm)"

abbreviation nm_bool :: "'v num_ops \<Rightarrow> bool \<Rightarrow> 'v" where
  "nm_bool nm \<equiv> c_bool (nm_casts nm)"

text \<open>\<open>x as f32\<close> for an \<open>f64\<close>.\<close>

abbreviation nm_f32 :: "'v num_ops \<Rightarrow> 'v \<Rightarrow> 'v" where
  "nm_f32 nm \<equiv> c_of_f64 (nm_casts nm) F32"

section \<open>Element-wise operations\<close>

datatype binary_kind = KindAdd | KindSub | KindMul | KindDiv

fun binary_fn :: "'v num_ops \<Rightarrow> binary_kind \<Rightarrow> dtype \<Rightarrow> 'v \<Rightarrow> 'v \<Rightarrow> 'v" where
  "binary_fn nm KindAdd = nm_add nm"
| "binary_fn nm KindSub = nm_sub nm"
| "binary_fn nm KindMul = nm_mul nm"
| "binary_fn nm KindDiv = nm_div nm"

definition binary_dtype :: "dtype \<Rightarrow> bool" where
  "binary_dtype d \<longleftrightarrow> d \<in> {F32, F64, I64, I32, BF16, F16}"

definition dispatch_binary ::
  "'v num_ops \<Rightarrow> tensor \<Rightarrow> tensor \<Rightarrow> string \<Rightarrow> binary_kind \<Rightarrow> 'v theap \<Rightarrow> 'v kernel_result" where
  "dispatch_binary nm lhs rhs op kind h =
     (let d = t_dtype lhs in
      if t_dtype lhs \<noteq> t_dtype rhs then Some (Inl (BackendDtypeMismatch op (t_dtype lhs) (t_dtype rhs)), h)
      else if binary_dtype d then map_binary d d op (binary_fn nm kind d) lhs rhs h
      else dtype_error op d h)"

definition cpu_add :: "'v num_ops \<Rightarrow> tensor \<Rightarrow> tensor \<Rightarrow> 'v theap \<Rightarrow> 'v kernel_result" where
  "cpu_add nm lhs rhs h = dispatch_binary nm lhs rhs ''add'' KindAdd h"

definition cpu_sub :: "'v num_ops \<Rightarrow> tensor \<Rightarrow> tensor \<Rightarrow> 'v theap \<Rightarrow> 'v kernel_result" where
  "cpu_sub nm lhs rhs h = dispatch_binary nm lhs rhs ''sub'' KindSub h"

definition cpu_mul :: "'v num_ops \<Rightarrow> tensor \<Rightarrow> tensor \<Rightarrow> 'v theap \<Rightarrow> 'v kernel_result" where
  "cpu_mul nm lhs rhs h = dispatch_binary nm lhs rhs ''mul'' KindMul h"

definition cpu_div :: "'v num_ops \<Rightarrow> tensor \<Rightarrow> tensor \<Rightarrow> 'v theap \<Rightarrow> 'v kernel_result" where
  "cpu_div nm lhs rhs h = dispatch_binary nm lhs rhs ''div'' KindDiv h"

datatype cmp_kind = CmpEq | CmpNe | CmpLt | CmpLe | CmpGt | CmpGe

fun cmp_fn :: "'v num_ops \<Rightarrow> cmp_kind \<Rightarrow> dtype \<Rightarrow> 'v \<Rightarrow> 'v \<Rightarrow> bool" where
  "cmp_fn nm CmpEq d a b = nm_eq nm d a b"
| "cmp_fn nm CmpNe d a b = (\<not> nm_eq nm d a b)"
| "cmp_fn nm CmpLt d a b = nm_less nm d a b"
| "cmp_fn nm CmpLe d a b = (nm_less nm d a b \<or> nm_eq nm d a b)"
| "cmp_fn nm CmpGt d a b = nm_less nm d b a"
| "cmp_fn nm CmpGe d a b = (nm_less nm d b a \<or> nm_eq nm d a b)"

definition cmp_dtype :: "dtype \<Rightarrow> bool" where
  "cmp_dtype d \<longleftrightarrow> d \<in> {F32, F64, I64, I32, I8, Bool}"

definition cmp_tensors ::
  "'v num_ops \<Rightarrow> tensor \<Rightarrow> tensor \<Rightarrow> string \<Rightarrow> cmp_kind \<Rightarrow> 'v theap \<Rightarrow> 'v kernel_result" where
  "cmp_tensors nm lhs rhs op kind h =
     (let d = t_dtype lhs in
      if t_dtype lhs \<noteq> t_dtype rhs then Some (Inl (BackendDtypeMismatch op (t_dtype lhs) (t_dtype rhs)), h)
      else if cmp_dtype d then map_binary d Bool op (\<lambda>a b. nm_bool nm (cmp_fn nm kind d a b)) lhs rhs h
      else dtype_error op d h)"

definition cpu_eq :: "'v num_ops \<Rightarrow> tensor \<Rightarrow> tensor \<Rightarrow> 'v theap \<Rightarrow> 'v kernel_result" where
  "cpu_eq nm lhs rhs h = cmp_tensors nm lhs rhs ''eq'' CmpEq h"

definition cpu_ne :: "'v num_ops \<Rightarrow> tensor \<Rightarrow> tensor \<Rightarrow> 'v theap \<Rightarrow> 'v kernel_result" where
  "cpu_ne nm lhs rhs h = cmp_tensors nm lhs rhs ''ne'' CmpNe h"

definition cpu_lt :: "'v num_ops \<Rightarrow> tensor \<Rightarrow> tensor \<Rightarrow> 'v theap \<Rightarrow> 'v kernel_result" where
  "cpu_lt nm lhs rhs h = cmp_tensors nm lhs rhs ''lt'' CmpLt h"

definition cpu_le :: "'v num_ops \<Rightarrow> tensor \<Rightarrow> tensor \<Rightarrow> 'v theap \<Rightarrow> 'v kernel_result" where
  "cpu_le nm lhs rhs h = cmp_tensors nm lhs rhs ''le'' CmpLe h"

definition cpu_gt :: "'v num_ops \<Rightarrow> tensor \<Rightarrow> tensor \<Rightarrow> 'v theap \<Rightarrow> 'v kernel_result" where
  "cpu_gt nm lhs rhs h = cmp_tensors nm lhs rhs ''gt'' CmpGt h"

definition cpu_ge :: "'v num_ops \<Rightarrow> tensor \<Rightarrow> tensor \<Rightarrow> 'v theap \<Rightarrow> 'v kernel_result" where
  "cpu_ge nm lhs rhs h = cmp_tensors nm lhs rhs ''ge'' CmpGe h"

definition cpu_neg :: "'v num_ops \<Rightarrow> tensor \<Rightarrow> 'v theap \<Rightarrow> 'v kernel_result" where
  "cpu_neg nm src h =
     (let d = t_dtype src in
      if d \<in> {F32, F64, I64, I32, I8} then map_unary d d ''neg'' (nm_neg nm d) src h
      else dtype_error ''neg'' d h)"

definition cpu_abs :: "'v num_ops \<Rightarrow> tensor \<Rightarrow> 'v theap \<Rightarrow> 'v kernel_result" where
  "cpu_abs nm src h =
     (let d = t_dtype src in
      if reduce_dtype d then map_unary d d ''abs'' (nm_abs nm d) src h else dtype_error ''abs'' d h)"

text \<open>The functions of \<open>f32\<close> and \<open>f64\<close> are the same formula at both types.\<close>

definition unary_float ::
  "tensor \<Rightarrow> string \<Rightarrow> (dtype \<Rightarrow> 'v \<Rightarrow> 'v) \<Rightarrow> 'v theap \<Rightarrow> 'v kernel_result" where
  "unary_float src op f h =
     (let d = t_dtype src in if mean_dtype d then map_unary d d op (f d) src h else dtype_error op d h)"

definition sigmoid_fn :: "'v num_ops \<Rightarrow> dtype \<Rightarrow> 'v \<Rightarrow> 'v" where
  "sigmoid_fn nm d x = nm_div nm d (nm_one nm d) (nm_add nm d (nm_one nm d) (nm_exp nm d (nm_neg nm d x)))"

definition silu_fn :: "'v num_ops \<Rightarrow> dtype \<Rightarrow> 'v \<Rightarrow> 'v" where
  "silu_fn nm d x = nm_div nm d x (nm_add nm d (nm_one nm d) (nm_exp nm d (nm_neg nm d x)))"

text \<open>The slope of \<open>leaky_relu\<close> and the exponent of \<open>pow_scalar\<close> are \<open>f64\<close>, narrowed for \<open>f32\<close>.\<close>

definition at_type :: "'v num_ops \<Rightarrow> dtype \<Rightarrow> 'v \<Rightarrow> 'v" where
  "at_type nm d c = (if d = F32 then nm_f32 nm c else c)"

definition leaky_fn :: "'v num_ops \<Rightarrow> 'v \<Rightarrow> dtype \<Rightarrow> 'v \<Rightarrow> 'v" where
  "leaky_fn nm slope d x = (if nm_less nm d (nm_zero nm d) x then x else nm_mul nm d (at_type nm d slope) x)"

definition relu_fn :: "'v num_ops \<Rightarrow> dtype \<Rightarrow> 'v \<Rightarrow> 'v" where
  "relu_fn nm d x = ro_max (nm_reduce nm) d x (nm_zero nm d)"

definition cpu_sqrt :: "'v num_ops \<Rightarrow> tensor \<Rightarrow> 'v theap \<Rightarrow> 'v kernel_result" where
  "cpu_sqrt nm src h = unary_float src ''sqrt'' (nm_sqrt nm) h"

definition cpu_exp :: "'v num_ops \<Rightarrow> tensor \<Rightarrow> 'v theap \<Rightarrow> 'v kernel_result" where
  "cpu_exp nm src h = unary_float src ''exp'' (nm_exp nm) h"

definition cpu_log :: "'v num_ops \<Rightarrow> tensor \<Rightarrow> 'v theap \<Rightarrow> 'v kernel_result" where
  "cpu_log nm src h = unary_float src ''log'' (nm_ln nm) h"

definition cpu_tanh :: "'v num_ops \<Rightarrow> tensor \<Rightarrow> 'v theap \<Rightarrow> 'v kernel_result" where
  "cpu_tanh nm src h = unary_float src ''tanh'' (nm_tanh nm) h"

definition cpu_sigmoid :: "'v num_ops \<Rightarrow> tensor \<Rightarrow> 'v theap \<Rightarrow> 'v kernel_result" where
  "cpu_sigmoid nm src h = unary_float src ''sigmoid'' (sigmoid_fn nm) h"

definition cpu_silu :: "'v num_ops \<Rightarrow> tensor \<Rightarrow> 'v theap \<Rightarrow> 'v kernel_result" where
  "cpu_silu nm src h = unary_float src ''silu'' (silu_fn nm) h"

definition cpu_pow_scalar :: "'v num_ops \<Rightarrow> tensor \<Rightarrow> 'v \<Rightarrow> 'v theap \<Rightarrow> 'v kernel_result" where
  "cpu_pow_scalar nm src e h = unary_float src ''pow_scalar'' (\<lambda>d x. nm_pow nm d x (at_type nm d e)) h"

definition cpu_leaky_relu :: "'v num_ops \<Rightarrow> tensor \<Rightarrow> 'v \<Rightarrow> 'v theap \<Rightarrow> 'v kernel_result" where
  "cpu_leaky_relu nm src slope h = unary_float src ''leaky_relu'' (leaky_fn nm slope) h"

text \<open>The dense path of \<open>relu\<close>, with its threshold and chunks.\<close>

definition relu_f32_dense :: "'v num_ops \<Rightarrow> tensor \<Rightarrow> 'v theap \<Rightarrow> 'v kernel_result" where
  "relu_f32_dense nm src h =
     (let n = t_numel src; raw = t_data src h in
      if length raw < n \<or> \<not> vec_with_capacity F32 n then None
      else build_or (n * 4) F32 (t_shape src)
             (if n \<ge> PARALLEL_THRESHOLD then map_chunks CHUNK (relu_fn nm F32) (take n raw)
              else map (relu_fn nm F32) (take n raw)) h)"

definition cpu_relu :: "'v num_ops \<Rightarrow> tensor \<Rightarrow> 'v theap \<Rightarrow> 'v kernel_result" where
  "cpu_relu nm src h =
     (if t_dtype src = F32 \<and> contiguous (t_layout src) \<and> storage_offset (t_layout src) = 0
      then relu_f32_dense nm src h
      else unary_float src ''relu'' (relu_fn nm) h)"
section \<open>Matrix products\<close>

text \<open>\<open>GEMM_DISPATCH_MIN\<close>.\<close>

definition GEMM_DISPATCH_MIN :: nat where
  "GEMM_DISPATCH_MIN = 32"

text \<open>One element of \<open>matmul_naive\<close>: \<open>l\<close> and \<open>r\<close> are the buffers, \<open>li\<close> and \<open>ri\<close> the indices at step \<open>kk\<close>.\<close>

definition mul_acc ::
  "'v num_ops \<Rightarrow> dtype \<Rightarrow> 'v list \<Rightarrow> 'v list \<Rightarrow> (nat \<Rightarrow> nat) \<Rightarrow> (nat \<Rightarrow> nat) \<Rightarrow> nat \<Rightarrow> 'v option" where
  "mul_acc nm d l r li ri k =
     fold_opt (\<lambda>kk acc. case (get_elem l (li kk), get_elem r (ri kk)) of
         (Some a, Some b) \<Rightarrow> Some (nm_add nm d acc (nm_mul nm d a b))
       | _ \<Rightarrow> None) [0..<k] (nm_zero nm d)"

definition matmul_naive ::
  "'v num_ops \<Rightarrow> dtype \<Rightarrow> tensor \<Rightarrow> tensor \<Rightarrow> nat \<Rightarrow> nat \<Rightarrow> nat \<Rightarrow> 'v theap \<Rightarrow> 'v kernel_result" where
  "matmul_naive nm d lhs rhs m k n h =
     (let ls = lay_strides (t_layout lhs); rs = lay_strides (t_layout rhs);
          lo = int (storage_offset (t_layout lhs)); ro = int (storage_offset (t_layout rhs)) in
      if \<not> vec_with_capacity d (m * n) then None
      else case those (map (\<lambda>(i, j). mul_acc nm d (t_data lhs h) (t_data rhs h)
                 (\<lambda>kk. as_usize (lo + int i * ls ! 0 + int kk * ls ! 1))
                 (\<lambda>kk. as_usize (ro + int kk * rs ! 0 + int j * rs ! 1)) k)
               (List.product [0..<m] [0..<n])) of
        None \<Rightarrow> None
      | Some out \<Rightarrow> build_or (m * n * byte_size d) d [m, n] out h)"

text \<open>The buffer of an operand for \<open>gemm\<close>: the slice of an \<open>f32\<close> tensor that has one, else a copy.\<close>

definition gemm_operand :: "dtype \<Rightarrow> tensor \<Rightarrow> 'v theap \<Rightarrow> 'v list option" where
  "gemm_operand d t h =
     (if d = F32 then (case as_slice F32 t h of None \<Rightarrow> None | Some (Some s) \<Rightarrow> Some s | Some None \<Rightarrow> read_all F32 t h)
      else read_all d t h)"

text \<open>The buffer for the product: not initialised in \<open>f32\<close>, zeros in \<open>f64\<close>.\<close>

definition gemm_output :: "'v num_ops \<Rightarrow> dtype \<Rightarrow> nat \<Rightarrow> 'v list" where
  "gemm_output nm d len = (if d = F32 then map (nm_uninit nm) [0..<len] else replicate len (nm_zero nm d))"

definition matmul_dispatch ::
  "'v num_ops \<Rightarrow> dtype \<Rightarrow> tensor \<Rightarrow> tensor \<Rightarrow> nat \<Rightarrow> nat \<Rightarrow> nat \<Rightarrow> 'v theap \<Rightarrow> 'v kernel_result" where
  "matmul_dispatch nm d lhs rhs m k n h =
     (if m < GEMM_DISPATCH_MIN \<or> n < GEMM_DISPATCH_MIN \<or> k < GEMM_DISPATCH_MIN then matmul_naive nm d lhs rhs m k n h
      else case (gemm_operand d lhs h, gemm_operand d rhs h) of
        (Some l, Some r) \<Rightarrow>
          if \<not> vec_with_capacity d (m * n) then None
          else build_or (m * n * byte_size d) d [m, n]
                 (nm_gemm nm d m n k (gemm_output nm d (m * n)) 1 (as_i64 n) False l 1 (as_i64 k) r 1 (as_i64 n)
                    (nm_zero nm d) (nm_one nm d) False False False) h
      | _ \<Rightarrow> None)"

text \<open>The half-precision types multiply in \<open>f32\<close>.\<close>

definition matmul_half ::
  "'v num_ops \<Rightarrow> dtype \<Rightarrow> tensor \<Rightarrow> tensor \<Rightarrow> nat \<Rightarrow> nat \<Rightarrow> nat \<Rightarrow> 'v theap \<Rightarrow> 'v kernel_result" where
  "matmul_half nm d lhs rhs m k n h =
     (case to_dtype (nm_casts nm) lhs F32 h of
        None \<Rightarrow> None
      | Some (l, h1) \<Rightarrow>
          (case to_dtype (nm_casts nm) rhs F32 h1 of
             None \<Rightarrow> None
           | Some (r, h2) \<Rightarrow>
               (case matmul_dispatch nm F32 l r m k n h2 of
                  None \<Rightarrow> None
                | Some (Inl e, h3) \<Rightarrow> Some (Inl e, drop_tensors [r, l] h3)
                | Some (Inr t, h3) \<Rightarrow>
                    (case to_dtype (nm_casts nm) t d h3 of
                       None \<Rightarrow> None
                     | Some (u, h4) \<Rightarrow> Some (Inr u, drop_tensors [t, r, l] h4)))))"

definition cpu_matmul :: "'v num_ops \<Rightarrow> tensor \<Rightarrow> tensor \<Rightarrow> 'v theap \<Rightarrow> 'v kernel_result" where
  "cpu_matmul nm lhs rhs h =
     (let ls = t_shape lhs; rs = t_shape rhs; d = t_dtype lhs in
      if t_dtype lhs \<noteq> t_dtype rhs then Some (Inl (BackendDtypeMismatch ''matmul'' (t_dtype lhs) (t_dtype rhs)), h)
      else if length ls \<noteq> 2 \<or> length rs \<noteq> 2 \<or> ls ! 1 \<noteq> rs ! 0
        then Some (Inl (BackendShapeMismatch ''matmul'' ls rs), h)
      else case d of
        F32 \<Rightarrow> matmul_dispatch nm F32 lhs rhs (ls ! 0) (ls ! 1) (rs ! 1) h
      | F64 \<Rightarrow> matmul_dispatch nm F64 lhs rhs (ls ! 0) (ls ! 1) (rs ! 1) h
      | BF16 \<Rightarrow> matmul_half nm BF16 lhs rhs (ls ! 0) (ls ! 1) (rs ! 1) h
      | F16 \<Rightarrow> matmul_half nm F16 lhs rhs (ls ! 0) (ls ! 1) (rs ! 1) h
      | _ \<Rightarrow> dtype_error ''matmul'' d h)"

section \<open>Copies in another shape\<close>

definition cpu_transpose :: "tensor \<Rightarrow> nat \<Rightarrow> nat \<Rightarrow> 'v theap \<Rightarrow> 'v kernel_result" where
  "cpu_transpose src d0 d1 h =
     (case view_tensor src (CallTranspose d0 d1) h of
        (Inl ViewPanic, _) \<Rightarrow> None
      | (Inl ViewOverflow, _) \<Rightarrow> None
      | (Inl e, h1) \<Rightarrow> Some (Inl (NumericalError (''transpose: '' @ show_view_error e)), h1)
      | (Inr v, h1) \<Rightarrow>
          (case contiguous_tensor v h1 of
             None \<Rightarrow> None
           | Some (c, h2) \<Rightarrow> Some (Inr c, drop_tensor v h2)))"

text \<open>\<open>from_vec\<close> whose error becomes a message.\<close>

definition build_msg :: "string \<Rightarrow> shape \<Rightarrow> 'v list \<Rightarrow> 'v theap \<Rightarrow> 'v kernel_result" where
  "build_msg what s out h =
     (case from_vec_sized F32 s out h of
        (Inl e, h') \<Rightarrow> Some (Inl (NumericalError (what @ '': '' @ show_tensor_error e)), h')
      | (Inr t, h') \<Rightarrow> Some (Inr t, h'))"

definition cpu_reshape :: "tensor \<Rightarrow> shape \<Rightarrow> 'v theap \<Rightarrow> 'v kernel_result" where
  "cpu_reshape src shape h =
     (case numel_u64 shape of
        None \<Rightarrow> None
      | Some n \<Rightarrow>
          if n \<noteq> t_numel src then Some (Inl (BackendShapeMismatch ''reshape'' (t_shape src) shape), h)
          else (case as_slice F32 src h of
             None \<Rightarrow> None
           | Some None \<Rightarrow> Some (Inl (NumericalError ''reshape: expected contiguous F32 source''), h)
           | Some (Some data) \<Rightarrow>
               (case from_vec shape data h of
                  (Inl SizeOverflow, _) \<Rightarrow> None
                | (Inl e, h') \<Rightarrow> Some (Inl (NumericalError (''reshape build: '' @ show_tensor_error e)), h')
                | (Inr t, h') \<Rightarrow> Some (Inr t, h'))))"

text \<open>A matrix product with operands to transpose first: the default method of the trait.\<close>

definition matmul_operand :: "tensor \<Rightarrow> bool \<Rightarrow> 'v theap \<Rightarrow> 'v kernel_result" where
  "matmul_operand t transposed h =
     (if transposed then cpu_transpose t 0 1 h else (let (c, h') = clone_tensor t h in Some (Inr c, h')))"

definition matmul_with_transposes ::
  "'v num_ops \<Rightarrow> tensor \<Rightarrow> tensor \<Rightarrow> bool \<Rightarrow> bool \<Rightarrow> 'v theap \<Rightarrow> 'v kernel_result" where
  "matmul_with_transposes nm lhs rhs transpose_a transpose_b h =
     (case matmul_operand lhs transpose_a h of
        None \<Rightarrow> None
      | Some (Inl e, h1) \<Rightarrow> Some (Inl e, h1)
      | Some (Inr lhs_eff, h1) \<Rightarrow>
          (case matmul_operand rhs transpose_b h1 of
             None \<Rightarrow> None
           | Some (Inl e, h2) \<Rightarrow> Some (Inl e, drop_tensor lhs_eff h2)
           | Some (Inr rhs_eff, h2) \<Rightarrow>
               map_option (\<lambda>(r, h3). (r, drop_tensors [rhs_eff, lhs_eff] h3)) (cpu_matmul nm lhs_eff rhs_eff h2)))"

definition bmm_impl :: "'v num_ops \<Rightarrow> tensor \<Rightarrow> tensor \<Rightarrow> 'v theap \<Rightarrow> 'v kernel_result" where
  "bmm_impl nm lhs rhs h =
     (let ls = t_shape lhs; rs = t_shape rhs in
      if length ls \<noteq> 3 \<or> length rs \<noteq> 3 \<or> ls ! 0 \<noteq> rs ! 0 \<or> ls ! 2 \<noteq> rs ! 1
      then Some (Inl (BackendShapeMismatch ''bmm'' ls rs), h)
      else let b = ls ! 0; m = ls ! 1; k = ls ! 2; n = rs ! 2 in
        (case as_slice F32 lhs h of
           None \<Rightarrow> None
         | Some None \<Rightarrow> Some (Inl (NumericalError ''bmm: lhs must be contiguous F32''), h)
         | Some (Some l) \<Rightarrow>
             (case as_slice F32 rhs h of
                None \<Rightarrow> None
              | Some None \<Rightarrow> Some (Inl (NumericalError ''bmm: rhs must be contiguous F32''), h)
              | Some (Some r) \<Rightarrow>
                  if \<not> vec_with_capacity F32 (b * m * n) then None
                  else (case those (map (\<lambda>(bi, i, j). mul_acc nm F32 l r
                              (\<lambda>kk. bi * m * k + i * k + kk) (\<lambda>kk. bi * k * n + kk * n + j) k)
                            (List.product [0..<b] (List.product [0..<m] [0..<n]))) of
                     None \<Rightarrow> None
                   | Some out \<Rightarrow> build_msg ''bmm output build'' [b, m, n] out h))))"

section \<open>The bias of a layer\<close>

text \<open>
  The dense path of \<open>add_bias\<close>: element by element, or in parallel row by row from the threshold on;
  the path for a strided \<open>x\<close> adds a tensor of repeated biases.
\<close>

definition bias_rows :: "'v num_ops \<Rightarrow> 'v list \<Rightarrow> 'v list \<Rightarrow> nat \<Rightarrow> nat \<Rightarrow> 'v list option" where
  "bias_rows nm x bias batch n_out =
     (if batch * n_out < PARALLEL_THRESHOLD
      then those (map (\<lambda>(b, j). case (get_elem x (b * n_out + j), get_elem bias j) of
             (Some v, Some c) \<Rightarrow> Some (nm_add nm F32 v c) | _ \<Rightarrow> None) (List.product [0..<batch] [0..<n_out]))
      else map_option concat (those (map (\<lambda>b. case row_of x n_out b of
             None \<Rightarrow> None
           | Some row \<Rightarrow> those (map (\<lambda>j. case (get_elem row j, get_elem bias j) of
               (Some v, Some c) \<Rightarrow> Some (nm_add nm F32 v c) | _ \<Rightarrow> None) [0..<n_out])) [0..<batch])))"

definition cpu_add_bias :: "'v num_ops \<Rightarrow> tensor \<Rightarrow> tensor \<Rightarrow> 'v theap \<Rightarrow> 'v kernel_result" where
  "cpu_add_bias nm x bias h =
     (let xs = t_shape x; bs = t_shape bias; batch = xs ! 0; n_out = xs ! 1 in
      if length xs \<noteq> 2 \<or> length bs \<noteq> 1 \<or> bs \<noteq> [n_out]
      then Some (Inl (BackendShapeMismatch ''add_bias'' xs bs), h)
      else case as_slice F32 bias h of
        None \<Rightarrow> None
      | Some None \<Rightarrow> Some (Inl (NumericalError ''add_bias: expected contiguous F32 bias''), h)
      | Some (Some bias_buf) \<Rightarrow>
          (case as_slice F32 x h of
             None \<Rightarrow> None
           | Some (Some x_buf) \<Rightarrow>
               if \<not> vec_with_capacity F32 (batch * n_out) then None
               else (case bias_rows nm x_buf bias_buf batch n_out of
                  None \<Rightarrow> None
                | Some out \<Rightarrow> build_or (batch * n_out * 4) F32 [batch, n_out] out h)
           | Some None \<Rightarrow>
               if \<not> vec_with_capacity F32 (batch * n_out) then None
               else (case build_msg ''add_bias broadcast'' [batch, n_out] (concat (replicate batch bias_buf)) h of
                  None \<Rightarrow> None
                | Some (Inl e, h1) \<Rightarrow> Some (Inl e, h1)
                | Some (Inr wide, h1) \<Rightarrow>
                    map_option (\<lambda>(r, h2). (r, drop_tensor wide h2)) (cpu_add nm x wide h1))))"

definition matmul_with_bias ::
  "'v num_ops \<Rightarrow> tensor \<Rightarrow> tensor \<Rightarrow> tensor \<Rightarrow> 'v theap \<Rightarrow> 'v kernel_result" where
  "matmul_with_bias nm lhs rhs bias h =
     (case cpu_matmul nm lhs rhs h of
        None \<Rightarrow> None
      | Some (Inl e, h1) \<Rightarrow> Some (Inl e, h1)
      | Some (Inr mm, h1) \<Rightarrow> map_option (\<lambda>(r, h2). (r, drop_tensor mm h2)) (cpu_add_bias nm mm bias h1))"

section \<open>Gradients of broadcast operands\<close>

definition reduce_axes :: "shape \<Rightarrow> shape \<Rightarrow> nat list" where
  "reduce_axes padded grad_shape =
     map fst (filter (\<lambda>(axis, (p, g)). p = 1 \<and> g > 1) (enumerate 0 (zip padded grad_shape)))"

definition unbroadcast_to :: "'v num_ops \<Rightarrow> tensor \<Rightarrow> shape \<Rightarrow> 'v theap \<Rightarrow> 'v kernel_result" where
  "unbroadcast_to nm grad target h =
     (let gs = t_shape grad in
      if gs = target then (let (c, h1) = clone_tensor grad h in Some (Inr c, h1))
      else if length target > length gs then Some (Inl (BackendShapeMismatch ''unbroadcast_to'' gs target), h)
      else let padded = replicate (length gs - length target) 1 @ target in
        if list_ex (\<lambda>(g, t). t \<noteq> 1 \<and> t \<noteq> g) (zip gs padded)
        then Some (Inl (BackendShapeMismatch ''unbroadcast_to'' gs target), h)
        else let axes = reduce_axes padded gs in
          (case (if axes = [] then (let (c, h1) = clone_tensor grad h in Some (Inr c, h1))
                 else sum_dim (nm_reduce nm) grad axes True h) of
             None \<Rightarrow> None
           | Some (Inl e, h1) \<Rightarrow> Some (Inl e, h1)
           | Some (Inr reduced, h1) \<Rightarrow>
               if t_shape reduced = target then Some (Inr reduced, h1)
               else map_option (\<lambda>(r, h2). (r, drop_tensor reduced h2)) (cpu_reshape reduced target h1)))"

definition softmax_grad :: "'v num_ops \<Rightarrow> tensor \<Rightarrow> tensor \<Rightarrow> nat \<Rightarrow> 'v theap \<Rightarrow> 'v kernel_result" where
  "softmax_grad nm grad output d h =
     (case cpu_mul nm grad output h of
        None \<Rightarrow> None
      | Some (Inl e, h1) \<Rightarrow> Some (Inl e, h1)
      | Some (Inr pr, h1) \<Rightarrow>
          (case sum_dim (nm_reduce nm) pr [d] True h1 of
             None \<Rightarrow> None
           | Some (Inl e, h2) \<Rightarrow> Some (Inl e, drop_tensor pr h2)
           | Some (Inr sum_keep, h2) \<Rightarrow>
               (case cpu_sub nm grad sum_keep h2 of
                  None \<Rightarrow> None
                | Some (Inl e, h3) \<Rightarrow> Some (Inl e, drop_tensors [sum_keep, pr] h3)
                | Some (Inr diff, h3) \<Rightarrow>
                    map_option (\<lambda>(r, h4). (r, drop_tensors [diff, sum_keep, pr] h4)) (cpu_mul nm output diff h3))))"

section \<open>What the operations compute\<close>

lemma computesD:
  assumes "computes h d s f r"
  obtains t' h' where "r = Some (Inr t', h')" "tensor_ok t' h'" "t_shape t' = s" "t_dtype t' = d"
    "contiguous (t_layout t')" "storage_offset (t_layout t') = 0" "extends h h'"
    "\<And>cs. valid_coords s cs \<Longrightarrow> t_elem t' h' cs = f cs"
  using assms by (auto simp: computes_def)

lemma computesI:
  assumes "r = Some (Inr t', h')" "tensor_ok t' h'" "t_shape t' = s" "t_dtype t' = d"
    "contiguous (t_layout t')" "storage_offset (t_layout t') = 0" "extends h h'"
    "\<And>cs. valid_coords s cs \<Longrightarrow> t_elem t' h' cs = f cs"
  shows "computes h d s f r"
  using assms by (auto simp: computes_def)

text \<open>Dropping tensors, and going through an intermediate heap, keeps what was computed.\<close>

lemma computes_extended:
  assumes "computes h1 d s f r" "extends h h1" "\<And>h2. extends h2 (k h2)"
  shows "computes h d s f (map_option (\<lambda>(r, h2). (r, k h2)) r)"
proof -
  obtain t' h' where r: "r = Some (Inr t', h')" "tensor_ok t' h'" "t_shape t' = s" "t_dtype t' = d"
    "contiguous (t_layout t')" "storage_offset (t_layout t') = 0" "extends h1 h'"
    "\<And>cs. valid_coords s cs \<Longrightarrow> t_elem t' h' cs = f cs"
    using assms(1) unfolding computes_def by blast
  have "extends h (k h')" using assms(2,3) r(7) extends_trans by blast
  with extends_tensor[OF assms(3)[of h'] r(2)] r show ?thesis by (intro computesI) auto
qed

lemma clone_computes:
  assumes ok: "tensor_ok t h" and c: "contiguous (t_layout t)" "storage_offset (t_layout t) = 0"
  shows "computes h (t_dtype t) (t_shape t) (t_elem t h) (let (c, h1) = clone_tensor t h in Some (Inr c, h1))"
  using extends_tensor[OF share_extends ok, of "t_storage t"] share_extends[of h "t_storage t"] c
  by (auto simp: clone_tensor_def intro!: computesI)

lemma unary_computes:
  assumes ok: "tensor_ok t h" and d: "t_dtype t = d"
  shows "computes h d (t_shape t) (\<lambda>cs. f (t_elem t h cs)) (map_unary d d op f t h)"
proof -
  have fits: "fits_memory d (t_numel t)" using own_fits[OF ok] d by simp
  obtain t' h' where r: "map_unary d d op f t h = Some (Inr t', h')" "tensor_ok t' h'" "extends h h'"
    "t_shape t' = t_shape t" "t_dtype t' = d" "contiguous (t_layout t')" "storage_offset (t_layout t') = 0"
    "elems t' h' = map f (elems t h)" using map_unary_ok[OF ok d fits, of op f] by blast
  show ?thesis
  proof (rule computesI[OF r(1,2,4,5,6,7,3)])
    fix cs assume v: "valid_coords (t_shape t) cs"
    show "t_elem t' h' cs = f (t_elem t h cs)"
      using elem_ravel[of t' cs h'] elem_ravel[OF v, of h] v r(4,8) ravel_less[OF v] by (simp add: numel_prod_list)
  qed
qed

lemma unary_float_computes:
  "tensor_ok t h \<Longrightarrow> mean_dtype (t_dtype t) \<Longrightarrow>
   computes h (t_dtype t) (t_shape t) (\<lambda>cs. f (t_dtype t) (t_elem t h cs)) (unary_float t op f h)"
  by (simp add: unary_float_def Let_def unary_computes)

lemma relu_computes:
  assumes ok: "tensor_ok t h" and d: "mean_dtype (t_dtype t)"
  shows "computes h (t_dtype t) (t_shape t) (\<lambda>cs. relu_fn nm (t_dtype t) (t_elem t h cs)) (cpu_relu nm t h)"
proof (cases "t_dtype t = F32 \<and> contiguous (t_layout t) \<and> storage_offset (t_layout t) = 0")
  case True
  then have "relu_f32_dense nm t h = build_or (t_numel t * 4) F32 (t_shape t) (map (relu_fn nm F32) (elems t h)) h"
    using dense_elems[OF ok] numel_le_data[OF ok] fits_capacity[OF own_fits[OF ok]]
    by (simp add: relu_f32_dense_def Let_def map_chunks_eq CHUNK_def)
  moreover have "computes h F32 (t_shape t) (\<lambda>cs. relu_fn nm F32 (t_elem t h cs))
      (build_or (t_numel t * 4) F32 (t_shape t) (map (relu_fn nm F32) (elems t h)) h)"
    using own_fits[OF ok] True ravel_less elem_ravel[of t _ h] by (intro build_or_computes) (auto simp: numel_prod_list)
  ultimately show ?thesis using True by (simp add: cpu_relu_def)
next
  case False
  then show ?thesis using unary_float_computes[OF ok d] by (simp only: cpu_relu_def if_False)
qed

lemma binary_computes:
  assumes ok: "tensor_ok lhs h" "tensor_ok rhs h" and d: "t_dtype lhs = d" "t_dtype rhs = d"
    and c: "contiguous (t_layout lhs)" "contiguous (t_layout rhs)"
    and bc: "broadcast_with (t_shape lhs) (t_shape rhs) = Inr s" and fits: "fits_memory u (numel s)"
  shows "computes h u s (\<lambda>cs. f (t_elem lhs h (project_coords (t_shape lhs) cs)) (t_elem rhs h (project_coords (t_shape rhs) cs)))
    (map_binary d u op f lhs rhs h)"
proof -
  have "t_dtype lhs = t_dtype rhs" using d by simp
  then obtain ls rs where st: "expand_strides_to (t_shape lhs) s = Inr ls" "expand_strides_to (t_shape rhs) s = Inr rs"
    by (rule build_plan_ok[OF _ bc])
  show ?thesis
    using map_binary_reads[OF ok d bc fits, of op f]
    by (auto simp: rhs_read_contiguous[OF ok(1) c(1) st(1)] rhs_read_contiguous[OF ok(2) c(2) st(2)] intro!: computesI)
qed

lemma dispatch_binary_computes:
  assumes ok: "tensor_ok lhs h" "tensor_ok rhs h" and d: "t_dtype rhs = t_dtype lhs" "binary_dtype (t_dtype lhs)"
    and c: "contiguous (t_layout lhs)" "contiguous (t_layout rhs)"
    and bc: "broadcast_with (t_shape lhs) (t_shape rhs) = Inr s" and fits: "fits_memory (t_dtype lhs) (numel s)"
  shows "computes h (t_dtype lhs) s (\<lambda>cs. binary_fn nm kind (t_dtype lhs) (t_elem lhs h (project_coords (t_shape lhs) cs))
      (t_elem rhs h (project_coords (t_shape rhs) cs))) (dispatch_binary nm lhs rhs op kind h)"
  using binary_computes[OF ok refl d(1) c bc fits] d by (simp add: dispatch_binary_def Let_def)

lemma cmp_computes:
  assumes ok: "tensor_ok lhs h" "tensor_ok rhs h" and d: "t_dtype rhs = t_dtype lhs" "cmp_dtype (t_dtype lhs)"
    and c: "contiguous (t_layout lhs)" "contiguous (t_layout rhs)"
    and bc: "broadcast_with (t_shape lhs) (t_shape rhs) = Inr s" and fits: "fits_memory Bool (numel s)"
  shows "computes h Bool s (\<lambda>cs. nm_bool nm (cmp_fn nm kind (t_dtype lhs) (t_elem lhs h (project_coords (t_shape lhs) cs))
      (t_elem rhs h (project_coords (t_shape rhs) cs)))) (cmp_tensors nm lhs rhs op kind h)"
  using binary_computes[OF ok refl d(1) c bc fits] d by (simp add: cmp_tensors_def Let_def)

subsection \<open>Matrix products\<close>

text \<open>A sum of products, from left to right.\<close>

definition dot_product :: "'v num_ops \<Rightarrow> dtype \<Rightarrow> (nat \<Rightarrow> 'v) \<Rightarrow> (nat \<Rightarrow> 'v) \<Rightarrow> nat \<Rightarrow> 'v" where
  "dot_product nm d f g k = fold (\<lambda>kk acc. nm_add nm d acc (nm_mul nm d (f kk) (g kk))) [0..<k] (nm_zero nm d)"

lemma dot_product_cong: "(\<And>kk. kk < k \<Longrightarrow> f kk = f' kk \<and> g kk = g' kk) \<Longrightarrow> dot_product nm d f g k = dot_product nm d f' g' k"
  unfolding dot_product_def by (rule fold_cong) auto

lemma fold_opt_Some: "(\<And>x s. x \<in> set xs \<Longrightarrow> f x s = Some (g x s)) \<Longrightarrow> fold_opt f xs s = Some (fold g xs s)"
  by (induction xs arbitrary: s) auto

lemma mul_acc_ok:
  assumes "\<And>kk. kk < k \<Longrightarrow> li kk < length l \<and> l ! li kk = f kk" "\<And>kk. kk < k \<Longrightarrow> ri kk < length r \<and> r ! ri kk = g kk"
  shows "mul_acc nm d l r li ri k = Some (dot_product nm d f g k)"
  unfolding mul_acc_def dot_product_def using assms by (intro fold_opt_Some) (auto simp: get_elem_def)

text \<open>
  What the \<open>gemm\<close> crate documents, \<open>dst := alpha * dst + beta * lhs * rhs\<close> on matrices of any strides,
  where \<open>dst\<close> is not read unless asked for; with exact arithmetic, and where one is neutral for the
  product.  The strides must stay within the buffers and the positions of the result must differ.
\<close>

definition cell :: "int \<Rightarrow> int \<Rightarrow> nat \<Rightarrow> nat \<Rightarrow> int" where
  "cell rs cs i j = int i * rs + int j * cs"

definition in_buffer :: "'v list \<Rightarrow> nat \<Rightarrow> nat \<Rightarrow> int \<Rightarrow> int \<Rightarrow> bool" where
  "in_buffer xs m n rs cs \<longleftrightarrow> (\<forall>i < m. \<forall>j < n. 0 \<le> cell rs cs i j \<and> cell rs cs i j < int (length xs))"

definition gemm_elem ::
  "'v num_ops \<Rightarrow> dtype \<Rightarrow> nat \<Rightarrow> 'v list \<Rightarrow> int \<Rightarrow> int \<Rightarrow> bool \<Rightarrow> 'v list \<Rightarrow> int \<Rightarrow> int \<Rightarrow> 'v list \<Rightarrow> int \<Rightarrow> int \<Rightarrow> 'v \<Rightarrow> 'v \<Rightarrow> nat \<Rightarrow> nat \<Rightarrow> 'v" where
  "gemm_elem nm d k dst dcs drs rd lhs lcs lrs rhs rcs rrs al be i j =
     (let p = nm_mul nm d be (dot_product nm d (\<lambda>x. lhs ! nat (cell lrs lcs i x)) (\<lambda>x. rhs ! nat (cell rrs rcs x j)) k)
      in if rd then nm_add nm d (nm_mul nm d al (dst ! nat (cell drs dcs i j))) p else p)"

definition gemm_ok :: "'v num_ops \<Rightarrow> bool" where
  "gemm_ok nm \<longleftrightarrow> (\<forall>d x. nm_mul nm d (nm_one nm d) x = x) \<and>
     (\<forall>d m n k dst dcs drs rd lhs lcs lrs rhs rcs rrs al be.
        in_buffer dst m n drs dcs \<and> inj_on (\<lambda>(i, j). cell drs dcs i j) ({..<m} \<times> {..<n})
        \<and> in_buffer lhs m k lrs lcs \<and> in_buffer rhs k n rrs rcs \<longrightarrow>
        (let out = nm_gemm nm d m n k dst dcs drs rd lhs lcs lrs rhs rcs rrs al be False False False in
           length out = length dst \<and> (\<forall>i < m. \<forall>j < n. out ! nat (cell drs dcs i j)
             = gemm_elem nm d k dst dcs drs rd lhs lcs lrs rhs rcs rrs al be i j)))"

lemma ravel2: "ravel [m, n] [i, j] = i * n + j"
  by simp

lemma ravel3: "ravel [b, m, n] [a, i, j] = a * m * n + i * n + j"
  by (simp add: algebra_simps)

lemma valid2: "valid_coords [m, n] cs \<longleftrightarrow> (\<exists>i < m. \<exists>j < n. cs = [i, j])"
  by (cases cs; cases "tl cs") (auto simp: valid_coords_def)

lemma valid1: "valid_coords [n] cs \<longleftrightarrow> (\<exists>j < n. cs = [j])"
  by (cases cs) (auto simp: valid_coords_def)

lemma valid3: "valid_coords [b, m, n] cs \<longleftrightarrow> (\<exists>a < b. \<exists>i < m. \<exists>j < n. cs = [a, i, j])"
  by (cases cs; cases "tl cs"; cases "tl (tl cs)") (auto simp: valid_coords_def)

lemma grid_index: "i < m \<Longrightarrow> j < n \<Longrightarrow> i * n + j < m * (n :: nat)"
  using mult_le_mono1[of "Suc i" m n] by simp

lemma grid_nth: "i < m \<Longrightarrow> j < n \<Longrightarrow> List.product [0..<m] [0..<n] ! (i * n + j) = (i, j)"
  using grid_index[of i m j n] by (simp add: product_nth)

lemma grid_computes:
  assumes "\<And>i j. i < m \<Longrightarrow> j < n \<Longrightarrow> f (i, j) = Some (g [i, j])" "fits_memory d (m * n)"
  shows "computes h d [m, n] g (case those (map f (List.product [0..<m] [0..<n])) of
     None \<Rightarrow> None | Some out \<Rightarrow> build_or b d [m, n] out h)"
proof -
  have "those (map f (List.product [0..<m] [0..<n])) = Some (map (\<lambda>(i, j). g [i, j]) (List.product [0..<m] [0..<n]))"
    using assms(1) by (intro those_map_Some) auto
  moreover have "computes h d [m, n] g (build_or b d [m, n] (map (\<lambda>(i, j). g [i, j]) (List.product [0..<m] [0..<n])) h)"
    using assms(2) by (intro build_or_computes) (auto simp: valid2 grid_nth grid_index numel_prod_list)
  ultimately show ?thesis by simp
qed

lemma matrix_address:
  assumes ok: "tensor_ok t h" and s: "t_shape t = [m, n]" and ij: "i < m" "j < n"
  shows "as_usize (int (storage_offset (t_layout t)) + int i * lay_strides (t_layout t) ! 0 + int j * lay_strides (t_layout t) ! 1)
      < length (t_data t h)"
    and "t_data t h ! as_usize (int (storage_offset (t_layout t)) + int i * lay_strides (t_layout t) ! 0 + int j * lay_strides (t_layout t) ! 1)
      = t_elem t h [i, j]"
proof -
  have inv: "layout_inv (t_layout t) (length (t_data t h))" using ok by (simp add: tensor_ok_def)
  have "length (lay_strides (t_layout t)) = 2" using inv s by (simp add: layout_inv_def wf_layout_def)
  then obtain a b where st: "lay_strides (t_layout t) = [a, b]"
    by (metis (no_types, opaque_lifting) length_0_conv length_Suc_conv numeral_2_eq_2)
  have eq: "int (storage_offset (t_layout t)) + int i * lay_strides (t_layout t) ! 0 + int j * lay_strides (t_layout t) ! 1
      = addr (t_layout t) [i, j]" by (simp add: st addr_def)
  have lt: "addr (t_layout t) [i, j] < int (length (t_data t h))"
    using inv s ij by (simp add: layout_inv_def valid2)
  have ge: "0 \<le> addr (t_layout t) [i, j]" using s ij by (intro addr_nonneg[OF inv]) (simp add: valid2)
  have "int (length (t_data t h)) < 2 ^ 64" using inv by (simp add: layout_inv_def limit_defs)
  then have "addr (t_layout t) [i, j] mod 2 ^ 64 = addr (t_layout t) [i, j]"
    using lt ge by (intro mod_pos_pos_trivial) linarith+
  then have "as_usize (addr (t_layout t) [i, j]) = nat (addr (t_layout t) [i, j])"
    by (simp only: as_usize_def)
  then show "as_usize (int (storage_offset (t_layout t)) + int i * lay_strides (t_layout t) ! 0 + int j * lay_strides (t_layout t) ! 1)
      < length (t_data t h)"
    and "t_data t h ! as_usize (int (storage_offset (t_layout t)) + int i * lay_strides (t_layout t) ! 0 + int j * lay_strides (t_layout t) ! 1)
      = t_elem t h [i, j]"
    using lt ge unfolding eq t_elem_def by simp_all
qed

lemma matrix_elem: "t_shape t = [m, n] \<Longrightarrow> i < m \<Longrightarrow> j < n \<Longrightarrow> elems t h ! (i * n + j) = t_elem t h [i, j]"
  using elem_ravel[of t "[i, j]" h] by (simp add: valid2)

definition matrix_product ::
  "'v num_ops \<Rightarrow> dtype \<Rightarrow> tensor \<Rightarrow> tensor \<Rightarrow> 'v theap \<Rightarrow> nat \<Rightarrow> nat list \<Rightarrow> 'v" where
  "matrix_product nm d lhs rhs h k cs =
     dot_product nm d (\<lambda>kk. t_elem lhs h [cs ! 0, kk]) (\<lambda>kk. t_elem rhs h [kk, cs ! 1]) k"

lemma matmul_naive_computes:
  assumes ok: "tensor_ok lhs h" "tensor_ok rhs h" and s: "t_shape lhs = [m, k]" "t_shape rhs = [k, n]"
    and fits: "fits_memory d (m * n)"
  shows "computes h d [m, n] (matrix_product nm d lhs rhs h k) (matmul_naive nm d lhs rhs m k n h)"
proof -
  have "mul_acc nm d (t_data lhs h) (t_data rhs h)
      (\<lambda>kk. as_usize (int (storage_offset (t_layout lhs)) + int i * lay_strides (t_layout lhs) ! 0 + int kk * lay_strides (t_layout lhs) ! 1))
      (\<lambda>kk. as_usize (int (storage_offset (t_layout rhs)) + int kk * lay_strides (t_layout rhs) ! 0 + int j * lay_strides (t_layout rhs) ! 1)) k
    = Some (matrix_product nm d lhs rhs h k [i, j])" if ij: "i < m" "j < n" for i j
    unfolding matrix_product_def using matrix_address[OF ok(1) s(1)] matrix_address[OF ok(2) s(2)] ij
    by (intro mul_acc_ok) simp_all
  then show ?thesis
    unfolding matmul_naive_def Let_def using fits_capacity[OF fits] fits by (simp add: grid_computes)
qed

lemma gemm_operand_ok: "tensor_ok t h \<Longrightarrow> t_dtype t = d \<Longrightarrow> gemm_operand d t h = Some (elems t h)"
proof -
  assume ok: "tensor_ok t h" and d: "t_dtype t = d"
  show ?thesis
  proof (cases "contiguous (t_layout t) \<and> storage_offset (t_layout t) = 0")
    case True
    then show ?thesis using contiguous_numel_data[OF ok] read_all_ok[OF ok] d by (auto simp: gemm_operand_def)
  next
    case False
    then have "as_slice d t h = Some None" by (auto simp: as_slice_def)
    then show ?thesis using read_all_ok[OF ok] d by (auto simp: gemm_operand_def)
  qed
qed

text \<open>The call on row-major matrices.\<close>

lemma row_major_buffer: "length xs = m * n \<Longrightarrow> in_buffer xs m n (int n) 1"
  unfolding in_buffer_def cell_def
proof (intro allI impI)
  fix i j assume "length xs = m * n" "i < m" "j < n"
  then have "i * n + j < length xs" by (simp add: grid_index)
  then show "0 \<le> int i * int n + int j * 1 \<and> int i * int n + int j * 1 < int (length xs)"
    unfolding mult_1_right by (metis of_nat_0_le_iff of_nat_add of_nat_less_iff of_nat_mult)
qed

lemma row_major_cell: "nat (cell (int n) 1 i j) = i * n + j"
  by (simp add: cell_def nat_add_distrib nat_mult_distrib)

lemma row_major_inj: "inj_on (\<lambda>(i, j). cell (int n) 1 i j) ({..<m} \<times> {..<n})"
proof (rule inj_onI, clarify)
  fix i j i' j' assume lt: "j < n" "j' < n" and eq: "cell (int n) 1 i j = cell (int n) 1 i' j'"
  then have e: "i * n + j = i' * n + j'" using row_major_cell by metis
  have "(i * n + j) div n = i" "(i' * n + j') div n = i'" "(i * n + j) mod n = j" "(i' * n + j') mod n = j'"
    using lt by simp_all
  with e show "i = i' \<and> j = j'" by metis
qed

lemma gemm_row_major:
  fixes nm :: "'v num_ops" and d :: dtype and dst l r :: "'v list" and m n k :: nat
  assumes gemm: "gemm_ok nm" and len: "length dst = m * n" "length l = m * k" "length r = k * n"
  defines "out \<equiv> nm_gemm nm d m n k dst 1 (int n) False l 1 (int k) r 1 (int n) (nm_zero nm d) (nm_one nm d) False False False"
  shows "length out = m * n"
    and "i < m \<Longrightarrow> j < n \<Longrightarrow> out ! (i * n + j) = dot_product nm d (\<lambda>kk. l ! (i * k + kk)) (\<lambda>kk. r ! (kk * n + j)) k"
proof -
  have one: "nm_mul nm d (nm_one nm d) x = x" for x using gemm by (simp add: gemm_ok_def)
  have law: "length out = length dst \<and> (\<forall>i < m. \<forall>j < n. out ! nat (cell (int n) 1 i j)
      = gemm_elem nm d k dst 1 (int n) False l 1 (int k) r 1 (int n) (nm_zero nm d) (nm_one nm d) i j)"
    using gemm row_major_buffer[OF len(1)] row_major_buffer[OF len(2)] row_major_buffer[OF len(3)] row_major_inj
    unfolding gemm_ok_def out_def Let_def by blast
  then show "length out = m * n" using len(1) by simp
  show "out ! (i * n + j) = dot_product nm d (\<lambda>kk. l ! (i * k + kk)) (\<lambda>kk. r ! (kk * n + j)) k" if "i < m" "j < n"
    using law that by (simp add: row_major_cell gemm_elem_def one)
qed

lemma gemm_output_length [simp]: "length (gemm_output nm d len) = len"
  by (simp add: gemm_output_def)

lemma matmul_dispatch_computes:
  assumes ok: "tensor_ok lhs h" "tensor_ok rhs h" and s: "t_shape lhs = [m, k]" "t_shape rhs = [k, n]"
    and d: "t_dtype lhs = d" "t_dtype rhs = d" and fits: "fits_memory d (m * n)" and gemm: "gemm_ok nm"
  shows "computes h d [m, n] (matrix_product nm d lhs rhs h k) (matmul_dispatch nm d lhs rhs m k n h)"
proof (cases "m < GEMM_DISPATCH_MIN \<or> n < GEMM_DISPATCH_MIN \<or> k < GEMM_DISPATCH_MIN")
  case True
  then show ?thesis using matmul_naive_computes[OF ok s fits] by (simp add: matmul_dispatch_def)
next
  case False
  then have m: "1 \<le> m" by (simp add: GEMM_DISPATCH_MIN_def)
  have "m * k < i64_limit" "m * n < i64_limit"
    using fits_memory_i64[OF own_fits[OF ok(1)]] fits_memory_i64[OF fits] s(1) by (simp_all add: numel_prod_list)
  then have small: "k < i64_limit" "n < i64_limit"
    using mult_le_mono1[OF m, of k] mult_le_mono1[OF m, of n] by linarith+
  let ?out = "nm_gemm nm d m n k (gemm_output nm d (m * n)) 1 (int n) False (elems lhs h) 1 (int k) (elems rhs h) 1 (int n)
    (nm_zero nm d) (nm_one nm d) False False False"
  have len: "length (elems lhs h) = m * k" "length (elems rhs h) = k * n" using s by (simp_all add: numel_prod_list)
  note out = gemm_row_major[OF gemm gemm_output_length len, where d = d]
  have "?out ! (i * n + j) = matrix_product nm d lhs rhs h k [i, j]" if ij: "i < m" "j < n" for i j
    unfolding out(2)[OF ij] matrix_product_def
    using ij by (intro dot_product_cong) (simp add: matrix_elem[OF s(1)] matrix_elem[OF s(2)])
  then have "computes h d [m, n] (matrix_product nm d lhs rhs h k) (build_or (m * n * byte_size d) d [m, n] ?out h)"
    using fits out(1) by (intro build_or_computes) (auto simp: valid2 numel_prod_list)
  then show ?thesis
    using gemm_operand_ok[OF ok(1) d(1)] gemm_operand_ok[OF ok(2) d(2)] fits_capacity[OF fits]
    by (simp only: matmul_dispatch_def if_not_P[OF False] prod.case option.case if_False simp_thms as_i64_small[OF small(1)] as_i64_small[OF small(2)])
qed

text \<open>The half-precision types multiply in \<open>f32\<close>.\<close>

lemma cast_computes:
  assumes ok: "tensor_ok t h" and ne: "t_dtype t \<noteq> target" and fits: "fits_memory target (t_numel t)"
  obtains u h' where "to_dtype c t target h = Some (u, h')" "tensor_ok u h'" "t_shape u = t_shape t" "t_dtype u = target"
    "contiguous (t_layout u)" "storage_offset (t_layout u) = 0" "extends h h'"
    "\<And>cs. valid_coords (t_shape t) cs \<Longrightarrow> t_elem u h' cs = cast_elem c (t_dtype t) target (t_elem t h cs)"
proof -
  let ?xs = "map (cast_elem c (t_dtype t) target) (elems t h)"
  obtain u h' where nt: "new_tensor target (t_shape t) ?xs h = (u, h')" by fastforce
  have len: "length ?xs = numel (t_shape t)" by simp
  have run: "to_dtype c t target h = Some (u, h')"
    using to_dtype_cast[OF ok ne fits] nt by (simp add: new_tensor_def)
  have elem: "t_elem u h' cs = cast_elem c (t_dtype t) target (t_elem t h cs)" if cs: "valid_coords (t_shape t) cs" for cs
    using new_tensor_elem[OF len fits nt cs] elem_ravel[OF cs, of h] ravel_less[OF cs] by (simp add: numel_prod_list)
  show thesis
    using that[OF run] new_tensor_ok[OF len fits nt] new_tensor_extends[OF nt] elem by blast
qed

definition half_product ::
  "'v num_ops \<Rightarrow> dtype \<Rightarrow> tensor \<Rightarrow> tensor \<Rightarrow> 'v theap \<Rightarrow> nat \<Rightarrow> nat list \<Rightarrow> 'v" where
  "half_product nm d lhs rhs h k cs = cast_elem (nm_casts nm) F32 d
     (dot_product nm F32 (\<lambda>kk. cast_elem (nm_casts nm) d F32 (t_elem lhs h [cs ! 0, kk]))
        (\<lambda>kk. cast_elem (nm_casts nm) d F32 (t_elem rhs h [kk, cs ! 1])) k)"

lemma matmul_half_computes:
  assumes ok: "tensor_ok lhs h" "tensor_ok rhs h" and s: "t_shape lhs = [m, k]" "t_shape rhs = [k, n]"
    and d: "t_dtype lhs = d" "t_dtype rhs = d" "d \<noteq> F32" and gemm: "gemm_ok nm"
    and fits: "fits_memory d (m * n)" "fits_memory F32 (m * n)" "fits_memory F32 (m * k)" "fits_memory F32 (k * n)"
  shows "computes h d [m, n] (half_product nm d lhs rhs h k) (matmul_half nm d lhs rhs m k n h)"
proof -
  let ?c = "nm_casts nm"
  have fl: "fits_memory F32 (t_numel lhs)" "fits_memory F32 (t_numel rhs)" using fits s by (simp_all add: numel_prod_list)
  obtain l h1 where l: "to_dtype ?c lhs F32 h = Some (l, h1)" "tensor_ok l h1" "t_shape l = t_shape lhs" "t_dtype l = F32" "extends h h1"
      "\<And>cs. valid_coords (t_shape lhs) cs \<Longrightarrow> t_elem l h1 cs = cast_elem ?c (t_dtype lhs) F32 (t_elem lhs h cs)"
    using cast_computes[OF ok(1) _ fl(1), of ?c] d by metis
  have rhs1: "tensor_ok rhs h1" using extends_tensor(1)[OF l(5) ok(2)] .
  obtain r h2 where r: "to_dtype ?c rhs F32 h1 = Some (r, h2)" "tensor_ok r h2" "t_shape r = t_shape rhs" "t_dtype r = F32" "extends h1 h2"
      "\<And>cs. valid_coords (t_shape rhs) cs \<Longrightarrow> t_elem r h2 cs = cast_elem ?c (t_dtype rhs) F32 (t_elem rhs h1 cs)"
    using cast_computes[OF rhs1 _ fl(2), of ?c] d by metis
  have l2: "tensor_ok l h2" using extends_tensor(1)[OF r(5) l(2)] .
  have "computes h2 F32 [m, n] (matrix_product nm F32 l r h2 k) (matmul_dispatch nm F32 l r m k n h2)"
    using matmul_dispatch_computes[OF l2 r(2) _ _ l(4) r(4) fits(2) gemm] l(3) r(3) s by simp
  then obtain t h3 where t: "matmul_dispatch nm F32 l r m k n h2 = Some (Inr t, h3)" "tensor_ok t h3" "t_shape t = [m, n]" "t_dtype t = F32"
      "extends h2 h3" "\<And>cs. valid_coords [m, n] cs \<Longrightarrow> t_elem t h3 cs = matrix_product nm F32 l r h2 k cs"
    by (auto simp: computes_def)
  obtain u h4 where u: "to_dtype ?c t d h3 = Some (u, h4)" "tensor_ok u h4" "t_shape u = t_shape t" "t_dtype u = d"
      "contiguous (t_layout u)" "storage_offset (t_layout u) = 0" "extends h3 h4"
      "\<And>cs. valid_coords (t_shape t) cs \<Longrightarrow> t_elem u h4 cs = cast_elem ?c (t_dtype t) d (t_elem t h3 cs)"
    using cast_computes[OF t(2), of d ?c] d(3) t(3,4) fits(1) by (metis numel_prod_list prod_list.Cons prod_list.Nil mult.right_neutral)
  have ext: "extends h h4" using l(5) r(5) t(5) u(7) extends_trans by blast
  have "t_elem u h4 cs = half_product nm d lhs rhs h k cs" if cs: "valid_coords [m, n] cs" for cs
  proof -
    obtain i j where ij: "cs = [i, j]" "i < m" "j < n" using cs by (auto simp: valid2)
    have "t_elem l h2 [i, kk] = cast_elem ?c d F32 (t_elem lhs h [i, kk])" if "kk < k" for kk
      using extends_tensor(2)[OF r(5) l(2)] l(3,6) s(1) d(1) ij that by (simp add: valid2)
    moreover have "t_elem r h2 [kk, j] = cast_elem ?c d F32 (t_elem rhs h [kk, j])" if "kk < k" for kk
      using extends_tensor(2)[OF l(5) ok(2)] r(6) s(2) d(2) ij that by (simp add: valid2)
    ultimately have "matrix_product nm F32 l r h2 k cs = dot_product nm F32 (\<lambda>kk. cast_elem ?c d F32 (t_elem lhs h [cs ! 0, kk]))
        (\<lambda>kk. cast_elem ?c d F32 (t_elem rhs h [kk, cs ! 1])) k"
      unfolding matrix_product_def ij(1) by (intro dot_product_cong) simp
    then show ?thesis using u(8) t(3,4,6) cs by (simp add: half_product_def)
  qed
  then have "computes h4 d [m, n] (half_product nm d lhs rhs h k) (Some (Inr u, h4))"
    using u t(3) by (intro computesI) auto
  from computes_extended[OF this ext drop_tensors_extends] show ?thesis
    by (simp add: matmul_half_def l(1) r(1) t(1) u(1))
qed

lemma matmul_computes:
  assumes ok: "tensor_ok lhs h" "tensor_ok rhs h" and s: "t_shape lhs = [m, k]" "t_shape rhs = [k, n]"
    and d: "t_dtype rhs = t_dtype lhs" "mean_dtype (t_dtype lhs)" and fits: "fits_memory (t_dtype lhs) (m * n)" and gemm: "gemm_ok nm"
  shows "computes h (t_dtype lhs) [m, n] (matrix_product nm (t_dtype lhs) lhs rhs h k) (cpu_matmul nm lhs rhs h)"
  using matmul_dispatch_computes[OF ok s refl d(1) fits gemm] d s by (auto simp: cpu_matmul_def Let_def mean_dtype_def)

subsection \<open>Copies and products of transposed operands\<close>

lemma transpose_copies:
  assumes ok: "tensor_ok t h" and d: "d0 < length (t_shape t)" "d1 < length (t_shape t)"
  shows "\<exists>v h1 c h2. view_tensor t (CallTranspose d0 d1) h = (Inr v, h1) \<and> contiguous_tensor v h1 = Some (c, h2)
    \<and> computes h (t_dtype t) (list_swap (t_shape t) d0 d1) (\<lambda>cs. t_elem t h (list_swap cs d0 d1)) (Some (Inr c, h2))"
proof -
  have inv: "layout_inv (t_layout t) (length (t_data t h))" using ok by (simp add: tensor_ok_def)
  then have wf: "wf_layout (t_layout t)" by (simp add: layout_inv_def)
  obtain l where l: "transpose_axes (t_layout t) (d0, d1) = Inr l"
    using d wf by (auto simp: transpose_axes_def Let_def from_strides_def expect_layout_def wf_layout_def)
  obtain v h1 where v: "view_tensor t (CallTranspose d0 d1) h = (Inr v, h1)" "tensor_ok v h1" "extends h h1"
      "t_layout v = l" "t_data v h1 = t_data t h"
    using view_tensor_ok[OF ok, of "CallTranspose d0 d1" l] l transpose_view.vop_dtype[OF l] by auto
  obtain c h2 where c: "contiguous_tensor v h1 = Some (c, h2)" "extends h1 h2" "tensor_ok c h2"
      "t_shape c = t_shape v" "t_dtype c = t_dtype v" "elems c h2 = elems v h1"
      "contiguous (t_layout c)" "storage_offset (t_layout c) = 0"
    using contiguous_tensor_extends[OF v(2)] by blast
  have sh: "t_shape v = list_swap (t_shape t) d0 d1" "t_dtype v = t_dtype t"
    using transpose_axes_Inr[OF l wf] v(4) by simp_all
  have el: "t_elem c h2 cs = t_elem t h (list_swap cs d0 d1)" if cs: "valid_coords (t_shape v) cs" for cs
  proof -
    have "t_elem c h2 cs = t_elem v h1 cs"
      using elem_ravel[OF cs, of h1] elem_ravel[of c cs h2] cs c(4,6) by simp
    also have "\<dots> = t_elem t h (list_swap cs d0 d1)"
      using transpose_view.src_addr[OF inv l, of cs] cs v(4,5) by (simp add: t_elem_def)
    finally show ?thesis .
  qed
  have "extends h h2" using v(3) c(2) extends_trans by blast
  then have "computes h (t_dtype t) (list_swap (t_shape t) d0 d1) (\<lambda>cs. t_elem t h (list_swap cs d0 d1)) (Some (Inr c, h2))"
    using c sh el by (intro computesI) auto
  with v(1) c(1) show ?thesis by blast
qed

lemma transpose_computes:
  assumes "tensor_ok t h" "d0 < length (t_shape t)" "d1 < length (t_shape t)"
  shows "computes h (t_dtype t) (list_swap (t_shape t) d0 d1) (\<lambda>cs. t_elem t h (list_swap cs d0 d1)) (cpu_transpose t d0 d1 h)"
proof -
  obtain v h1 c h2 where r: "view_tensor t (CallTranspose d0 d1) h = (Inr v, h1)" "contiguous_tensor v h1 = Some (c, h2)"
    "computes h (t_dtype t) (list_swap (t_shape t) d0 d1) (\<lambda>cs. t_elem t h (list_swap cs d0 d1)) (Some (Inr c, h2))"
    using transpose_copies[OF assms] by blast
  have "computes h (t_dtype t) (list_swap (t_shape t) d0 d1) (\<lambda>cs. t_elem t h (list_swap cs d0 d1)) (map_option (\<lambda>(r, h2). (r, drop_tensor v h2)) (Some (Inr c, h2)))"
    by (rule computes_extended[OF r(3) extends_refl drop_tensor_extends])
  then show ?thesis by (simp add: cpu_transpose_def r(1,2))
qed

lemma build_msg_computes:
  assumes "length data = numel s" "fits_memory F32 (numel s)" "\<And>cs. valid_coords s cs \<Longrightarrow> data ! ravel s cs = f cs"
  shows "computes h F32 s f (build_msg w s data h)"
proof -
  obtain t' h' where nt: "new_tensor F32 s data h = (t', h')" by fastforce
  then have "from_vec_sized F32 s data h = (Inr t', h')"
    using expect_from_vec[OF assms(1,2), of h]
    by (auto simp: from_vec_def new_tensor_def expect_ok_def split: prod.splits sum.splits)
  then have "build_msg w s data h = Some (Inr t', h')" by (simp add: build_msg_def)
  then show ?thesis
    using new_tensor_ok[OF assms(1,2) nt] new_tensor_extends[OF nt] new_tensor_elem[OF assms(1,2) nt] assms(3)
    by (intro computesI) auto
qed

lemma reshape_computes:
  assumes ok: "tensor_ok t h" and d: "t_dtype t = F32" "contiguous (t_layout t)" "storage_offset (t_layout t) = 0"
    and s: "numel s = t_numel t" and ne: "0 \<notin> set s"
  shows "computes h F32 s (\<lambda>cs. elems t h ! ravel s cs) (cpu_reshape t s h)"
proof -
  have len: "length (elems t h) = numel s" using s by simp
  have fits: "fits_memory F32 (numel s)" using own_fits[OF ok] s d(1) by simp
  have b: "bulk s < i64_limit" using fits_memory_i64[OF fits] ne by (simp add: bulk_nonempty numel_prod_list)
  obtain t' h' where nt: "new_tensor F32 s (elems t h) h = (t', h')" by fastforce
  then have v: "from_vec s (elems t h) h = (Inr t', h')"
    using expect_from_vec[OF len fits, of h] from_vec_exact[OF b, of F32 "elems t h" h]
    by (auto simp: from_vec_def new_tensor_def expect_ok_def split: prod.splits sum.splits)
  have n: "numel_u64 s = Some (numel s)" using b by (intro numel_u64_bulk) (simp add: limit_defs)
  have "cpu_reshape t s h = Some (Inr t', h')"
    using contiguous_numel_data[OF ok d(2,3)] d(1) s v n by (simp add: cpu_reshape_def)
  then show ?thesis
    using new_tensor_ok[OF len fits nt] new_tensor_extends[OF nt] new_tensor_elem[OF len fits nt]
    by (intro computesI) auto
qed

lemma matmul_operand_computes:
  assumes ok: "tensor_ok t h" and c: "contiguous (t_layout t)" "storage_offset (t_layout t) = 0"
    and s: "t_shape t = (if tr then [n, m] else [m, n])"
  shows "computes h (t_dtype t) [m, n] (\<lambda>cs. t_elem t h (if tr then [cs ! 1, cs ! 0] else cs)) (matmul_operand t tr h)"
proof (cases tr)
  case True
  have "computes h (t_dtype t) [m, n] (\<lambda>cs. t_elem t h (list_swap cs 0 1)) (cpu_transpose t 0 1 h)"
    using transpose_computes[OF ok, of 0 1] s True by (simp add: list_swap_def)
  then show ?thesis using True
    by (auto simp: matmul_operand_def list_swap_def valid2 elim!: computes_cong)
next
  case False
  then show ?thesis using clone_computes[OF ok c] s by (simp add: matmul_operand_def)
qed

text \<open>The element of a product whose operands are transposed as the flags say.\<close>

definition product_elem ::
  "'v num_ops \<Rightarrow> dtype \<Rightarrow> (nat list \<Rightarrow> 'v) \<Rightarrow> bool \<Rightarrow> (nat list \<Rightarrow> 'v) \<Rightarrow> bool \<Rightarrow> nat \<Rightarrow> nat list \<Rightarrow> 'v" where
  "product_elem nm d f ta g tb k cs =
     dot_product nm d (\<lambda>kk. f (if ta then [kk, cs ! 0] else [cs ! 0, kk])) (\<lambda>kk. g (if tb then [cs ! 1, kk] else [kk, cs ! 1])) k"

lemma matmul_with_transposes_computes:
  assumes ok: "tensor_ok lhs h" "tensor_ok rhs h"
    and c: "contiguous (t_layout lhs)" "storage_offset (t_layout lhs) = 0" "contiguous (t_layout rhs)" "storage_offset (t_layout rhs) = 0"
    and s: "t_shape lhs = (if ta then [k, m] else [m, k])" "t_shape rhs = (if tb then [n, k] else [k, n])"
    and d: "t_dtype rhs = t_dtype lhs" "mean_dtype (t_dtype lhs)" and fits: "fits_memory (t_dtype lhs) (m * n)" and gemm: "gemm_ok nm"
  shows "computes h (t_dtype lhs) [m, n] (product_elem nm (t_dtype lhs) (t_elem lhs h) ta (t_elem rhs h) tb k)
    (matmul_with_transposes nm lhs rhs ta tb h)"
proof -
  obtain a h1 where a: "matmul_operand lhs ta h = Some (Inr a, h1)" "tensor_ok a h1" "t_shape a = [m, k]" "t_dtype a = t_dtype lhs"
    "extends h h1" "\<And>cs. valid_coords [m, k] cs \<Longrightarrow> t_elem a h1 cs = t_elem lhs h (if ta then [cs ! 1, cs ! 0] else cs)"
    using matmul_operand_computes[OF ok(1) c(1,2) s(1)] unfolding computes_def by blast
  note r1 = extends_tensor[OF a(5) ok(2)]
  obtain b h2 where b: "matmul_operand rhs tb h1 = Some (Inr b, h2)" "tensor_ok b h2" "t_shape b = [k, n]" "t_dtype b = t_dtype rhs"
    "extends h1 h2" "\<And>cs. valid_coords [k, n] cs \<Longrightarrow> t_elem b h2 cs = t_elem rhs h1 (if tb then [cs ! 1, cs ! 0] else cs)"
    using matmul_operand_computes[OF r1(1) c(3,4) s(2)] unfolding computes_def by blast
  note a2 = extends_tensor[OF b(5) a(2)]
  have "computes h2 (t_dtype lhs) [m, n] (matrix_product nm (t_dtype lhs) a b h2 k) (cpu_matmul nm a b h2)"
    using matmul_computes[OF a2(1) b(2) a(3) b(3), of nm] d a(4) b(4) fits gemm by simp
  moreover have "matrix_product nm (t_dtype lhs) a b h2 k cs = product_elem nm (t_dtype lhs) (t_elem lhs h) ta (t_elem rhs h) tb k cs"
    if "valid_coords [m, n] cs" for cs
    using that a(6) b(6) a2(2) r1(2) unfolding matrix_product_def product_elem_def
    by (intro dot_product_cong) (auto simp: valid2)
  ultimately have "computes h2 (t_dtype lhs) [m, n] (product_elem nm (t_dtype lhs) (t_elem lhs h) ta (t_elem rhs h) tb k) (cpu_matmul nm a b h2)"
    by (rule computes_cong)
  from computes_extended[OF this extends_trans[OF a(5) b(5)] drop_tensors_extends] show ?thesis
    by (simp add: matmul_with_transposes_def a(1) b(1))
qed

subsection \<open>Biases and batches\<close>

lemma bias_rows_ok:
  assumes "length x = batch * n" "length bias = n"
  shows "bias_rows nm x bias batch n =
    Some (map (\<lambda>(b, j). nm_add nm F32 (x ! (b * n + j)) (bias ! j)) (List.product [0..<batch] [0..<n]))"
proof (cases "batch * n < PARALLEL_THRESHOLD")
  case True
  have "those (map (\<lambda>(b, j). case (get_elem x (b * n + j), get_elem bias j) of
      (Some v, Some c) \<Rightarrow> Some (nm_add nm F32 v c) | _ \<Rightarrow> None) (List.product [0..<batch] [0..<n]))
    = Some (map (\<lambda>(b, j). nm_add nm F32 (x ! (b * n + j)) (bias ! j)) (List.product [0..<batch] [0..<n]))"
    using assms grid_index by (intro those_map_Some) (auto simp: get_elem_def)
  then show ?thesis using True by (simp add: bias_rows_def)
next
  case False
  let ?row = "\<lambda>b. map (\<lambda>j. nm_add nm F32 (x ! (b * n + j)) (bias ! j)) [0..<n]"
  have row: "row_of x n b = Some (take n (drop (b * n) x))" if "b < batch" for b
    using mult_le_mono1[of "Suc b" batch n] that assms by (simp add: row_of_def)
  have le: "b * n + n \<le> length x" if "b < batch" for b
    using mult_le_mono1[of "Suc b" batch n] that assms by simp
  have "those (map (\<lambda>j. case (get_elem (take n (drop (b * n) x)) j, get_elem bias j) of
      (Some v, Some c) \<Rightarrow> Some (nm_add nm F32 v c) | _ \<Rightarrow> None) [0..<n]) = Some (?row b)" if "b < batch" for b
    using assms le[OF that] that by (intro those_map_Some) (auto simp: get_elem_def)
  then have "those (map (\<lambda>b. case row_of x n b of
             None \<Rightarrow> None
           | Some row \<Rightarrow> those (map (\<lambda>j. case (get_elem row j, get_elem bias j) of
               (Some v, Some c) \<Rightarrow> Some (nm_add nm F32 v c) | _ \<Rightarrow> None) [0..<n])) [0..<batch])
      = Some (map ?row [0..<batch])"
    using row by (intro those_map_Some) simp
  moreover have "concat (map ?row [0..<batch])
      = map (\<lambda>(b, j). nm_add nm F32 (x ! (b * n + j)) (bias ! j)) (List.product [0..<batch] [0..<n])"
    by (simp add: product_concat_map map_concat comp_def)
  ultimately show ?thesis using False by (simp add: bias_rows_def)
qed

lemma add_bias_computes:
  assumes ok: "tensor_ok x h" "tensor_ok bias h" and s: "t_shape x = [b, n]" "t_shape bias = [n]"
    and d: "t_dtype x = F32" "t_dtype bias = F32"
    and c: "contiguous (t_layout x)" "storage_offset (t_layout x) = 0" "contiguous (t_layout bias)" "storage_offset (t_layout bias) = 0"
  shows "computes h F32 [b, n] (\<lambda>cs. nm_add nm F32 (t_elem x h cs) (t_elem bias h [cs ! 1])) (cpu_add_bias nm x bias h)"
proof -
  have fits: "fits_memory F32 (b * n)" using own_fits[OF ok(1)] s d by (simp add: numel_prod_list)
  have len: "length (elems x h) = b * n" "length (elems bias h) = n" using s by (simp_all add: numel_prod_list)
  have "computes h F32 [b, n] (\<lambda>cs. nm_add nm F32 (t_elem x h cs) (t_elem bias h [cs ! 1]))
     (build_or (b * n * 4) F32 [b, n] (map (\<lambda>(i, j). nm_add nm F32 (elems x h ! (i * n + j)) (elems bias h ! j))
        (List.product [0..<b] [0..<n])) h)"
  proof (intro build_or_computes)
    fix cs assume "valid_coords [b, n] cs"
    then obtain i j where ij: "cs = [i, j]" "i < b" "j < n" by (auto simp: valid2)
    have "elems bias h ! j = t_elem bias h [j]" using elem_ravel[of bias "[j]" h] s ij by (simp add: valid1)
    then show "map (\<lambda>(i, j). nm_add nm F32 (elems x h ! (i * n + j)) (elems bias h ! j)) (List.product [0..<b] [0..<n])
        ! ravel [b, n] cs = nm_add nm F32 (t_elem x h cs) (t_elem bias h [cs ! 1])"
      using ij matrix_elem[OF s(1), of i j h] grid_index[of i b j n] by (simp add: grid_nth)
  qed (use fits in \<open>simp_all add: numel_prod_list\<close>)
  then show ?thesis
    using contiguous_numel_data[OF ok(1) c(1,2)] contiguous_numel_data[OF ok(2) c(3,4)] s d
      bias_rows_ok[OF len, of nm] fits_capacity[OF fits]
    by (simp add: cpu_add_bias_def)
qed

lemma matmul_with_bias_computes:
  assumes ok: "tensor_ok x h" "tensor_ok w h" "tensor_ok bias h"
    and s: "t_shape x = [m, k]" "t_shape w = [k, n]" "t_shape bias = [n]"
    and d: "t_dtype x = F32" "t_dtype w = F32" "t_dtype bias = F32"
    and c: "contiguous (t_layout bias)" "storage_offset (t_layout bias) = 0"
    and fits: "fits_memory F32 (m * n)" and gemm: "gemm_ok nm"
  shows "computes h F32 [m, n] (\<lambda>cs. nm_add nm F32 (matrix_product nm F32 x w h k cs) (t_elem bias h [cs ! 1]))
    (matmul_with_bias nm x w bias h)"
proof -
  obtain a h1 where a: "cpu_matmul nm x w h = Some (Inr a, h1)" "tensor_ok a h1" "t_shape a = [m, n]" "t_dtype a = F32"
      "contiguous (t_layout a)" "storage_offset (t_layout a) = 0" "extends h h1"
      "\<And>cs. valid_coords [m, n] cs \<Longrightarrow> t_elem a h1 cs = matrix_product nm F32 x w h k cs"
    using matmul_computes[OF ok(1,2) s(1,2), of nm] d fits gemm unfolding computes_def by (auto simp: mean_dtype_def)
  note b = extends_tensor[OF a(7) ok(3)]
  have "computes h1 F32 [m, n] (\<lambda>cs. nm_add nm F32 (t_elem a h1 cs) (t_elem bias h1 [cs ! 1])) (cpu_add_bias nm a bias h1)"
    by (rule add_bias_computes[OF a(2) b(1) a(3) s(3) a(4) d(3) a(5,6) c])
  then have "computes h1 F32 [m, n] (\<lambda>cs. nm_add nm F32 (matrix_product nm F32 x w h k cs) (t_elem bias h [cs ! 1])) (cpu_add_bias nm a bias h1)"
    by (rule computes_cong) (simp add: a(8) b(2))
  from computes_extended[OF this a(7) drop_tensor_extends] show ?thesis by (simp add: matmul_with_bias_def a(1))
qed

lemma grid3_index: "a < b \<Longrightarrow> i < m \<Longrightarrow> j < n \<Longrightarrow> a * m * n + i * n + j < b * m * (n :: nat)"
  using grid_index[of a b "i * n + j" "m * n"] grid_index[of i m j n] by (simp add: mult.assoc)

lemma grid3_nth:
  assumes "a < b" "i < m" "j < n"
  shows "List.product [0..<b] (List.product [0..<m] [0..<n]) ! (a * m * n + i * n + j) = (a, i, j)"
proof -
  have ij: "i * n + j < m * n" using grid_index assms(2,3) by blast
  have "a * m * n + i * n + j < b * (m * n)" using grid3_index[OF assms] by (simp add: mult.assoc)
  moreover have "(a * m * n + i * n + j) div (m * n) = a" "(a * m * n + i * n + j) mod (m * n) = i * n + j"
    using div_mult_self3[of "m * n" a "i * n + j"] ij unfolding mult.assoc add.assoc
    by (cases "m * n = 0"; simp)+
  ultimately show ?thesis using assms grid_nth[OF assms(2,3)] by (simp add: product_nth)
qed

lemma batch_elem: "t_shape t = [b, m, n] \<Longrightarrow> a < b \<Longrightarrow> i < m \<Longrightarrow> j < n \<Longrightarrow>
  elems t h ! (a * m * n + i * n + j) = t_elem t h [a, i, j]"
  using elem_ravel[of t "[a, i, j]" h] by (simp add: valid3 mult.assoc add.assoc)

lemma bmm_computes:
  assumes ok: "tensor_ok lhs h" "tensor_ok rhs h" and s: "t_shape lhs = [b, m, k]" "t_shape rhs = [b, k, n]"
    and d: "t_dtype lhs = F32" "t_dtype rhs = F32" and fits: "fits_memory F32 (b * m * n)"
    and c: "contiguous (t_layout lhs)" "storage_offset (t_layout lhs) = 0" "contiguous (t_layout rhs)" "storage_offset (t_layout rhs) = 0"
  shows "computes h F32 [b, m, n] (\<lambda>cs. dot_product nm F32 (\<lambda>kk. t_elem lhs h [cs ! 0, cs ! 1, kk]) (\<lambda>kk. t_elem rhs h [cs ! 0, kk, cs ! 2]) k)
    (bmm_impl nm lhs rhs h)"
proof -
  let ?g = "\<lambda>cs. dot_product nm F32 (\<lambda>kk. t_elem lhs h [cs ! 0, cs ! 1, kk]) (\<lambda>kk. t_elem rhs h [cs ! 0, kk, cs ! 2]) k"
  let ?out = "map (\<lambda>(a, i, j). ?g [a, i, j]) (List.product [0..<b] (List.product [0..<m] [0..<n]))"
  have "mul_acc nm F32 (elems lhs h) (elems rhs h) (\<lambda>kk. a * m * k + i * k + kk) (\<lambda>kk. a * k * n + kk * n + j) k = Some (?g [a, i, j])"
    if "a < b" "i < m" "j < n" for a i j
    using that batch_elem[OF s(1)] batch_elem[OF s(2)] grid3_index s
    by (intro mul_acc_ok) (simp_all add: numel_prod_list mult.assoc)
  then have "those (map (\<lambda>(a, i, j). mul_acc nm F32 (elems lhs h) (elems rhs h) (\<lambda>kk. a * m * k + i * k + kk) (\<lambda>kk. a * k * n + kk * n + j) k)
      (List.product [0..<b] (List.product [0..<m] [0..<n]))) = Some ?out"
    by (intro those_map_Some) auto
  moreover have "computes h F32 [b, m, n] ?g (build_msg ''bmm output build'' [b, m, n] ?out h)"
  proof (rule build_msg_computes)
    fix cs assume "valid_coords [b, m, n] cs"
    then obtain a i j where cs: "cs = [a, i, j]" "a < b" "i < m" "j < n" by (auto simp: valid3)
    then show "?out ! ravel [b, m, n] cs = ?g cs"
      using grid3_nth[OF cs(2-4)] grid3_index[OF cs(2-4)] by (simp add: mult.assoc add.assoc)
  qed (use fits in \<open>simp_all add: numel_prod_list mult.assoc\<close>)
  ultimately show ?thesis
    using contiguous_numel_data[OF ok(1) c(1,2)] contiguous_numel_data[OF ok(2) c(3,4)] s d fits_capacity[OF fits]
    by (simp add: bmm_impl_def)
qed

subsection \<open>Gradients of broadcast operands\<close>

lemma reduce_axes_set:
  "set (reduce_axes p g) = {a. a < min (length p) (length g) \<and> p ! a = 1 \<and> g ! a > 1}"
  by (auto simp: reduce_axes_def in_set_enumerate_eq image_iff)

text \<open>\<open>p\<close> is the shape of the operand with the missing axes, \<open>g\<close> the shape of the gradient.\<close>

definition padded_to :: "shape \<Rightarrow> shape \<Rightarrow> shape" where
  "padded_to s g = replicate (length g - length s) 1 @ s"

lemma padded_axes:
  assumes "broadcast_with s g = Inr g" "0 \<notin> set g"
  shows "length (padded_to s g) = length g" "\<And>a. a < length g \<Longrightarrow> padded_to s g ! a = g ! a \<or> padded_to s g ! a = 1"
proof -
  have le: "length s \<le> length g" using broadcast_with_dims(1)[OF assms(1)] by simp
  then show "length (padded_to s g) = length g" by (simp add: padded_to_def)
  have "list_all expandable (zip s (drop (length g - length s) g))"
    using expandable_iff_broadcast[OF le] assms(1) by simp
  then have ex: "s ! i = g ! (length g - length s + i) \<or> s ! i = 1" if "i < length s" for i
    using that le by (auto simp: list_all_length expandable_def)
  show "padded_to s g ! a = g ! a \<or> padded_to s g ! a = 1" if a: "a < length g" for a
    using ex[of "a - (length g - length s)"] a le by (cases "a < length g - length s") (auto simp: padded_to_def nth_append)
qed

lemma padded_reduced_shape:
  assumes "broadcast_with s g = Inr g" "0 \<notin> set g"
  shows "reduced_shape (reduce_axes (padded_to s g) g) True g = padded_to s g"
proof (rule nth_equalityI)
  note p = padded_axes[OF assms]
  show "length (reduced_shape (reduce_axes (padded_to s g) g) True g) = length (padded_to s g)"
    by (simp add: reduced_shape_def drop_dims_def p)
  fix i assume "i < length (reduced_shape (reduce_axes (padded_to s g) g) True g)"
  then have i: "i < length g" by (simp add: reduced_shape_def drop_dims_def)
  moreover have "g ! i \<noteq> 0" using assms(2) i by (metis nth_mem)
  ultimately show "reduced_shape (reduce_axes (padded_to s g) g) True g ! i = padded_to s g ! i"
    using p(2)[OF i] by (auto simp: reduced_shape_def drop_dims_def nth_enumerate_eq reduce_axes_set p(1))
qed

lemma padded_reduced_coords:
  assumes bc: "broadcast_with s g = Inr g" "0 \<notin> set g" and v: "valid_coords g cs"
  shows "reduced_coords (reduce_axes (padded_to s g) g) True cs = replicate (length g - length s) 0 @ project_coords s cs"
proof (rule nth_equalityI)
  note p = padded_axes[OF bc]
  have le: "length s \<le> length g" using broadcast_with_dims(1)[OF bc(1)] by simp
  have cs: "length cs = length g" "\<And>k. k < length g \<Longrightarrow> cs ! k < g ! k" using v by (auto simp: valid_coords_nth)
  show "length (reduced_coords (reduce_axes (padded_to s g) g) True cs)
      = length (replicate (length g - length s) 0 @ project_coords s cs)"
    using le cs(1) by (simp add: reduced_coords_def drop_dims_def project_coords_def)
  fix i assume "i < length (reduced_coords (reduce_axes (padded_to s g) g) True cs)"
  then have i: "i < length g" by (simp add: reduced_coords_def drop_dims_def cs(1))
  have "reduced_coords (reduce_axes (padded_to s g) g) True cs ! i = (if padded_to s g ! i = 1 then 0 else cs ! i)"
    using i cs(2)[OF i] by (auto simp: reduced_coords_def drop_dims_def cs(1) nth_enumerate_eq reduce_axes_set p(1))
  also have "\<dots> = (replicate (length g - length s) 0 @ project_coords s cs) ! i"
    using i le cs(1) by (cases "i < length g - length s") (auto simp: padded_to_def nth_append project_coords_def)
  finally show "reduced_coords (reduce_axes (padded_to s g) g) True cs ! i
      = (replicate (length g - length s) 0 @ project_coords s cs) ! i" .
qed

lemma ravel_padded: "ravel (replicate n 1 @ s) (replicate n 0 @ cs) = ravel s cs"
  by (induction n) simp_all

lemma valid_padded: "valid_coords s cs \<Longrightarrow> valid_coords (replicate n 1 @ s) (replicate n 0 @ cs)"
  by (induction n) (auto simp: valid_coords_def)

text \<open>The positions of the gradient that were read from \<open>cs\<close>, and what is summed there.\<close>

definition read_from :: "shape \<Rightarrow> shape \<Rightarrow> nat list \<Rightarrow> nat list" where
  "read_from s g cs = filter (\<lambda>i. project_coords s (coords_of g i) = cs) [0..<numel g]"

definition unbroadcast_elem :: "'v num_ops \<Rightarrow> shape \<Rightarrow> tensor \<Rightarrow> 'v theap \<Rightarrow> nat list \<Rightarrow> 'v" where
  "unbroadcast_elem nm s t h cs =
     (if padded_to s (t_shape t) = t_shape t then t_elem t h (replicate (length (t_shape t) - length s) 0 @ cs)
      else foldl (nm_add nm (t_dtype t)) (nm_zero nm (t_dtype t)) (map (\<lambda>i. elems t h ! i) (read_from s (t_shape t) cs)))"

lemma reduce_axes_Nil:
  assumes "broadcast_with s g = Inr g" "0 \<notin> set g"
  shows "reduce_axes (padded_to s g) g = [] \<longleftrightarrow> padded_to s g = g"
proof -
  note p = padded_axes[OF assms]
  have g: "g ! a \<noteq> 0" if "a < length g" for a using assms(2) nth_mem[OF that] by metis
  have "reduce_axes (padded_to s g) g = [] \<longleftrightarrow> (\<forall>a < length g. \<not> (padded_to s g ! a = 1 \<and> g ! a > 1))"
    using reduce_axes_set[of "padded_to s g" g] p(1) by (auto simp: set_empty[symmetric] simp del: set_empty)
  also have "\<dots> \<longleftrightarrow> (\<forall>a < length g. padded_to s g ! a = g ! a)"
    using p(2) g by (intro all_cong) (metis One_nat_def gr0I less_irrefl_nat linorder_neqE_nat less_one)
  also have "\<dots> \<longleftrightarrow> padded_to s g = g" using p(1) by (auto intro: nth_equalityI)
  finally show ?thesis .
qed

lemma unbroadcast_computes:
  assumes ok: "tensor_ok t h" and d: "t_dtype t = F32" "contiguous (t_layout t)" "storage_offset (t_layout t) = 0"
    and bc: "broadcast_with s (t_shape t) = Inr (t_shape t)" "0 \<notin> set (t_shape t)"
  shows "computes h F32 s (unbroadcast_elem nm s t h) (unbroadcast_to nm t s h)"
proof (cases "t_shape t = s")
  case True
  have "computes h F32 s (unbroadcast_elem nm s t h) (let (c, h1) = clone_tensor t h in Some (Inr c, h1))"
    using clone_computes[OF ok d(2,3)] True d(1) by (simp add: unbroadcast_elem_def[abs_def] padded_to_def)
  then show ?thesis using True by (simp add: unbroadcast_to_def)
next
  case False
  let ?g = "t_shape t" and ?n = "length (t_shape t) - length s"
  let ?p = "padded_to s ?g"
  let ?axes = "reduce_axes ?p ?g"
  let ?f = "\<lambda>cs. unbroadcast_elem nm s t h (drop ?n cs)"
  note p = padded_axes[OF bc]
  have le: "length s \<le> length ?g" using broadcast_with_dims(1)[OF bc(1)] by simp
  have fine: "\<not> list_ex (\<lambda>(g, t). t \<noteq> 1 \<and> t \<noteq> g) (zip ?g ?p)"
    using p by (auto simp: list_ex_length)
  have red: "computes h F32 ?p ?f
      (if ?axes = [] then (let (c, h1) = clone_tensor t h in Some (Inr c, h1)) else sum_dim (nm_reduce nm) t ?axes True h)"
  proof (cases "?axes = []")
    case True
    then have "?p = ?g" using reduce_axes_Nil[OF bc] by simp
    moreover have "cs = replicate ?n 0 @ drop ?n cs" if "valid_coords ?p cs" for cs
      using that by (intro nth_equalityI) (auto simp: valid_coords_nth padded_to_def nth_append p split: if_splits)
    ultimately have "t_elem t h cs = ?f cs" if "valid_coords ?p cs" for cs
      using that by (simp add: unbroadcast_elem_def)
    then show ?thesis using True clone_computes[OF ok d(2,3)] d(1) \<open>?p = ?g\<close> by (auto elim: computes_cong)
  next
    case ne: False
    have pg: "?p \<noteq> ?g" using ne reduce_axes_Nil[OF bc] by simp
    have "computes h F32 ?p (\<lambda>cs. foldl (nm_add nm F32) (nm_zero nm F32) (fiber_elems t h ?axes True cs)) (sum_dim (nm_reduce nm) t ?axes True h)"
      using sum_dim_ok[OF ok, of ?axes True "nm_reduce nm"] d(1) reduced_nonempty[OF bc(2), of ?axes True]
        reduced_fits[OF ok bc(2), of ?axes True]
      by (simp add: reduce_axes_set padded_reduced_shape[OF bc] reduce_dtype_def)
    moreover have "fiber ?g ?axes True cs = read_from s ?g (drop ?n cs)" if "valid_coords ?p cs" for cs
    proof -
      have "cs = replicate ?n 0 @ drop ?n cs"
        using that by (intro nth_equalityI) (auto simp: valid_coords_nth padded_to_def nth_append p split: if_splits)
      then have "reduced_coords ?axes True (coords_of ?g i) = cs \<longleftrightarrow> project_coords s (coords_of ?g i) = drop ?n cs"
        if "i < numel ?g" for i
        using padded_reduced_coords[OF bc valid_coords_of_less[OF that]] by (metis same_append_eq)
      then show ?thesis unfolding fiber_def read_from_def by (intro filter_cong) simp_all
    qed
    ultimately have "computes h F32 ?p ?f (sum_dim (nm_reduce nm) t ?axes True h)"
      using pg d(1) by (elim computes_cong) (simp add: unbroadcast_elem_def fiber_elems_def)
    then show ?thesis using ne by simp
  qed
  then obtain r h1 where r: "(if ?axes = [] then (let (c, h1) = clone_tensor t h in Some (Inr c, h1))
        else sum_dim (nm_reduce nm) t ?axes True h) = Some (Inr r, h1)"
      "tensor_ok r h1" "t_shape r = ?p" "t_dtype r = F32" "contiguous (t_layout r)" "storage_offset (t_layout r) = 0" "extends h h1"
      "\<And>cs. valid_coords ?p cs \<Longrightarrow> t_elem r h1 cs = ?f cs"
    unfolding computes_def by blast
  have run: "unbroadcast_to nm t s h = (if ?p = s then Some (Inr r, h1)
      else map_option (\<lambda>(x, h2). (x, drop_tensor r h2)) (cpu_reshape r s h1))"
    unfolding unbroadcast_to_def Let_def padded_to_def[symmetric]
    by (simp only: False fine le[unfolded not_less[symmetric]] if_False r(1)[unfolded Let_def] option.case sum.case prod.case r(3))
  show ?thesis
  proof (cases "?p = s")
    case True
    then have "?n = 0" using p(1) by simp
    then show ?thesis using True run r by (auto intro!: computesI)
  next
    case ps: False
    have "0 \<notin> set ?p" using reduced_nonempty[OF bc(2), of ?axes True] by (simp add: padded_reduced_shape[OF bc])
    then have nes: "0 \<notin> set s" by (simp add: padded_to_def)
    have n: "numel s = t_numel r" using r(3) by (simp add: padded_to_def numel_prod_list)
    have "computes h1 F32 s (\<lambda>cs. elems r h1 ! ravel s cs) (cpu_reshape r s h1)"
      using nes by (rule reshape_computes[OF r(2,4,5,6) n])
    then have "computes h1 F32 s (unbroadcast_elem nm s t h) (cpu_reshape r s h1)"
    proof (rule computes_cong)
      fix cs assume v: "valid_coords s cs"
      then have "valid_coords ?p (replicate ?n 0 @ cs)" unfolding padded_to_def by (rule valid_padded)
      then have "elems r h1 ! ravel s cs = t_elem r h1 (replicate ?n 0 @ cs)"
        using elem_ravel[of r "replicate ?n 0 @ cs" h1] r(3) ravel_padded[of ?n s cs] unfolding padded_to_def by simp
      then show "elems r h1 ! ravel s cs = unbroadcast_elem nm s t h cs"
        using r(8) \<open>valid_coords ?p (replicate ?n 0 @ cs)\<close> by simp
    qed
    from computes_extended[OF this r(7) drop_tensor_extends] show ?thesis using ps run by simp
  qed
qed

section \<open>Properties\<close>

text \<open>
  C38. The matrix product on operands of any layout.  Two tensors of different types, or that are not
  matrices with a common inner axis, or of a type that is not a floating-point one, give the error of the
  source and leave the heap alone.  Otherwise, when the result (and, for the half-precision types, the
  \<open>f32\<close> copies) can be allocated, the result is a new dense matrix whose elements are the dot products of
  the rows of the left operand and the columns of the right one, whether the small loop or the call of
  \<open>gemm\<close> with its strides and factors computes them; the half-precision types multiply the elements cast
  to \<open>f32\<close> and cast the result back.
\<close>

theorem matmul_correct:
  assumes ok: "tensor_ok lhs h" "tensor_ok rhs h" and gemm: "gemm_ok nm"
    and fits: "fits_memory (t_dtype lhs) (t_shape lhs ! 0 * t_shape rhs ! 1)"
    and half: "t_dtype lhs \<in> {BF16, F16} \<Longrightarrow> fits_memory F32 (t_shape lhs ! 0 * t_shape rhs ! 1)
      \<and> fits_memory F32 (t_numel lhs) \<and> fits_memory F32 (t_numel rhs)"
  shows "if t_dtype rhs \<noteq> t_dtype lhs
      then cpu_matmul nm lhs rhs h = Some (Inl (BackendDtypeMismatch ''matmul'' (t_dtype lhs) (t_dtype rhs)), h)
    else if \<nexists>m k n. t_shape lhs = [m, k] \<and> t_shape rhs = [k, n]
      then cpu_matmul nm lhs rhs h = Some (Inl (BackendShapeMismatch ''matmul'' (t_shape lhs) (t_shape rhs)), h)
    else if t_dtype lhs \<notin> {F32, F64, BF16, F16}
      then cpu_matmul nm lhs rhs h = Some (Inl (BackendDtypeMismatch ''matmul'' (t_dtype lhs) (t_dtype lhs)), h)
    else computes h (t_dtype lhs) [t_shape lhs ! 0, t_shape rhs ! 1]
      (\<lambda>cs. if t_dtype lhs \<in> {F32, F64}
        then dot_product nm (t_dtype lhs) (\<lambda>kk. t_elem lhs h [cs ! 0, kk]) (\<lambda>kk. t_elem rhs h [kk, cs ! 1]) (t_shape lhs ! 1)
        else cast_elem (nm_casts nm) F32 (t_dtype lhs)
          (dot_product nm F32 (\<lambda>kk. cast_elem (nm_casts nm) (t_dtype lhs) F32 (t_elem lhs h [cs ! 0, kk]))
             (\<lambda>kk. cast_elem (nm_casts nm) (t_dtype lhs) F32 (t_elem rhs h [kk, cs ! 1])) (t_shape lhs ! 1)))
      (cpu_matmul nm lhs rhs h)"
proof (cases "t_dtype rhs = t_dtype lhs")
  case same: True
  show ?thesis
  proof (cases "\<exists>m k n. t_shape lhs = [m, k] \<and> t_shape rhs = [k, n]")
    case True
    then obtain m k n where s: "t_shape lhs = [m, k]" "t_shape rhs = [k, n]" by blast
    consider (full) "t_dtype lhs \<in> {F32, F64}" | (half) "t_dtype lhs \<in> {BF16, F16}" | (none) "t_dtype lhs \<notin> {F32, F64, BF16, F16}"
      by blast
    then show ?thesis
    proof cases
      case full
      then show ?thesis using matmul_computes[OF ok s same _ _ gemm] fits s same
        by (auto simp: mean_dtype_def matrix_product_def[abs_def])
    next
      case half
      then have "computes h (t_dtype lhs) [m, n] (half_product nm (t_dtype lhs) lhs rhs h k) (matmul_half nm (t_dtype lhs) lhs rhs m k n h)"
        using fits assms(5) s by (intro matmul_half_computes[OF ok s refl same _ gemm]) (auto simp: numel_prod_list)
      then show ?thesis using half s same by (auto simp: cpu_matmul_def Let_def half_product_def[abs_def])
    next
      case none
      then show ?thesis using same s by (cases "t_dtype lhs") (auto simp: cpu_matmul_def dtype_error_def)
    qed
  next
    case False
    then have "length (t_shape lhs) \<noteq> 2 \<or> length (t_shape rhs) \<noteq> 2 \<or> t_shape lhs ! 1 \<noteq> t_shape rhs ! 0"
      by (auto simp: numeral_2_eq_2 length_Suc_conv)
    then show ?thesis using False same by (simp add: cpu_matmul_def)
  qed
qed (auto simp: cpu_matmul_def)


subsection \<open>Examples\<close>

definition int_casts :: "int casts" where
  "int_casts = \<lparr>c_to_f64 = \<lambda>_ x. x, c_of_f64 = \<lambda>_ x. x, c_nonzero = \<lambda>x. x \<noteq> 0, c_true = \<lambda>x. x \<noteq> 0, c_bool = of_bool, c_one = 1, c_zero = 0\<rparr>"

text \<open>An instance of \<open>gemm\<close>: every position of the result is written once.\<close>

definition plain_gemm :: "'v num_ops \<Rightarrow> dtype \<Rightarrow> 'v gemm_call" where
  "plain_gemm nm d m n k dst dcs drs rd lhs lcs lrs rhs rcs rrs al be conj_dst conj_lhs conj_rhs =
     fold (\<lambda>(i, j) out. out[nat (cell drs dcs i j) := gemm_elem nm d k dst dcs drs rd lhs lcs lrs rhs rcs rrs al be i j])
       (List.product [0..<m] [0..<n]) dst"

lemma fold_writes:
  "distinct xs \<Longrightarrow> inj_on p (set xs) \<Longrightarrow> \<forall>x \<in> set xs. p x < length out \<Longrightarrow>
   length (fold (\<lambda>x out. out[p x := f x]) xs out) = length out \<and>
   (\<forall>i. i \<notin> p ` set xs \<longrightarrow> fold (\<lambda>x out. out[p x := f x]) xs out ! i = out ! i) \<and>
   (\<forall>x \<in> set xs. fold (\<lambda>x out. out[p x := f x]) xs out ! p x = f x)"
proof (induction xs arbitrary: out)
  case (Cons x xs)
  have x: "p x \<notin> p ` set xs" using Cons.prems(1,2) by (auto simp: inj_on_def)
  have ih: "length (fold (\<lambda>x out. out[p x := f x]) xs (out[p x := f x])) = length out \<and>
     (\<forall>i. i \<notin> p ` set xs \<longrightarrow> fold (\<lambda>x out. out[p x := f x]) xs (out[p x := f x]) ! i = out[p x := f x] ! i) \<and>
     (\<forall>y \<in> set xs. fold (\<lambda>x out. out[p x := f x]) xs (out[p x := f x]) ! p y = f y)"
    using Cons.IH[of "out[p x := f x]"] Cons.prems by (simp add: inj_on_def)
  have "fold (\<lambda>x out. out[p x := f x]) xs (out[p x := f x]) ! p x = f x"
    using ih[THEN conjunct2, THEN conjunct1, rule_format, OF x] Cons.prems(3) by simp
  then show ?case using ih by auto
qed simp

lemma plain_gemm_law:
  assumes dst: "in_buffer dst m n drs dcs" and inj: "inj_on (\<lambda>(i, j). cell drs dcs i j) ({..<m} \<times> {..<n})"
    and out: "out = plain_gemm nm d m n k dst dcs drs rd lhs lcs lrs rhs rcs rrs al be False False False"
  shows "length out = length dst \<and> (\<forall>i < m. \<forall>j < n. out ! nat (cell drs dcs i j)
    = gemm_elem nm d k dst dcs drs rd lhs lcs lrs rhs rcs rrs al be i j)"
proof -
  let ?p = "\<lambda>(i, j). nat (cell drs dcs i j)" and ?g = "List.product [0..<m] [0..<n]"
  let ?f = "\<lambda>(i, j). gemm_elem nm d k dst dcs drs rd lhs lcs lrs rhs rcs rrs al be i j"
  have pos: "0 \<le> cell drs dcs i j" "nat (cell drs dcs i j) < length dst" if "i < m" "j < n" for i j
    using dst that by (auto simp: in_buffer_def nat_less_iff)
  have "inj_on ?p (set ?g)"
  proof (rule inj_onI, clarify)
    fix i j i' j' assume m: "(i, j) \<in> set ?g" "(i', j') \<in> set ?g" and eq: "nat (cell drs dcs i j) = nat (cell drs dcs i' j')"
    then have "cell drs dcs i j = cell drs dcs i' j'" using pos(1) by (auto simp: eq_nat_nat_iff)
    then show "i = i' \<and> j = j'" using inj_onD[OF inj, of "(i, j)" "(i', j')"] m by auto
  qed
  moreover have "\<forall>x \<in> set ?g. ?p x < length dst" using pos(2) by auto
  ultimately have w: "length (fold (\<lambda>x out. out[?p x := ?f x]) ?g dst) = length dst"
      "\<forall>x \<in> set ?g. fold (\<lambda>x out. out[?p x := ?f x]) ?g dst ! ?p x = ?f x"
    using fold_writes[of ?g ?p dst ?f] by (simp_all add: distinct_product)
  have "out = fold (\<lambda>x out. out[?p x := ?f x]) ?g dst"
    unfolding out plain_gemm_def by (intro arg_cong[where f = "\<lambda>f. fold f ?g dst"]) (simp add: fun_eq_iff split: prod.splits)
  then show ?thesis using w by auto
qed

definition int_ops_without :: "int num_ops" where
  "int_ops_without = \<lparr>nm_reduce = int_reduce, nm_casts = int_casts, nm_sub = \<lambda>_. (-), nm_div = \<lambda>_. (div), nm_pow = \<lambda>_ x y. x ^ nat y,
     nm_neg = \<lambda>_. uminus, nm_abs = \<lambda>_. abs, nm_exp = \<lambda>_ x. x, nm_ln = \<lambda>_ x. x, nm_sqrt = \<lambda>_ x. x, nm_tanh = \<lambda>_ x. x,
     nm_eq = \<lambda>_. (=), nm_nat = int, nm_gemm = \<lambda>_ _ _ _ dst _ _ _ _ _ _ _ _ _ _ _ _ _ _. dst, nm_uninit = \<lambda>_. 0\<rparr>"

definition int_ops :: "int num_ops" where
  "int_ops = int_ops_without\<lparr>nm_gemm := plain_gemm int_ops_without\<rparr>"

lemma int_gemm_elem: "gemm_elem int_ops_without = gemm_elem int_ops"
proof -
  have "nm_reduce int_ops_without = nm_reduce int_ops" by (simp add: int_ops_def)
  then show ?thesis by (intro ext) (simp only: gemm_elem_def dot_product_def)
qed

lemma int_gemm_ok: "gemm_ok int_ops"
proof -
  have g: "nm_gemm int_ops = plain_gemm int_ops_without" by (simp add: int_ops_def)
  have "nm_mul int_ops d (nm_one int_ops d) x = x" for d x by (simp add: int_ops_def int_ops_without_def int_reduce_def)
  then show ?thesis unfolding gemm_ok_def g Let_def int_gemm_elem[symmetric]
    by (intro conjI[where P = "\<forall>d x. nm_mul int_ops d (nm_one int_ops d) x = x"] allI impI; (elim conjE)?)
      (assumption | rule plain_gemm_law[OF _ _ refl])+
qed

lemma small_fits: "fits_memory F32 (2 * 2)" "fits_memory F32 4"
  by code_simp+

theorem matmul_correct_witness:
  "\<exists>t' h'. cpu_matmul int_ops (dense_at 0 [2, 2] F32) (dense_at 0 [2, 2] F32) index_heap = Some (Inr t', h') \<and> t_elem t' h' [1, 0] = 15"
proof -
  let ?t = "dense_at 0 [2, 2] F32"
  have s: "t_shape ?t = [2, 2]" "t_dtype ?t = F32" "valid_coords [2, 2] [1, 0]" by code_simp+
  have e: "dot_product int_ops F32 (\<lambda>kk. t_elem ?t index_heap [1, kk]) (\<lambda>kk. t_elem ?t index_heap [kk, 0]) 2 = 15"
    by code_simp
  show ?thesis
    using matmul_correct[OF index_heap_ok(1) index_heap_ok(1) int_gemm_ok] s e small_fits by (auto simp: computes_def)
qed


end
