(* ===== verification/Dense.thy ===== *)
theory Dense
  imports Cpu_Backend "HOL-Library.Monad_Syntax"
begin

text \<open>
  Tensors as values.  Differentiation never writes to a tensor, so a dense tensor (contiguous, at
  offset 0) is its element type, shape, elements and device.  An operation of the CPU backend on such
  values loads them into an empty heap, runs there, and what it builds, which is dense and on the CPU,
  is read back.
\<close>

record 'v dense =
  d_dtype :: dtype
  d_shape :: shape
  d_elems :: "'v list"
  d_device :: device

definition load :: "'v dense \<Rightarrow> 'v theap \<Rightarrow> tensor \<times> 'v theap" where
  "load a h = new_tensor (d_dtype a) (d_shape a) (d_elems a) h"

definition unload :: "tensor \<Rightarrow> 'v theap \<Rightarrow> 'v dense option" where
  "unload t h =
     map_option (\<lambda>xs. \<lparr>d_dtype = t_dtype t, d_shape = t_shape t, d_elems = xs, d_device = Cpu\<rparr>)
       (read_all (t_dtype t) t h)"

type_synonym 'v dense_result = "(backend_error + 'v dense) option"

definition unload_result :: "'v kernel_result \<Rightarrow> 'v dense_result" where
  "unload_result r =
     (case r of
        None \<Rightarrow> None
      | Some (Inl e, _) \<Rightarrow> Some (Inl e)
      | Some (Inr t, h) \<Rightarrow> map_option Inr (unload t h))"

definition no_tensors :: "'v theap" where
  "no_tensors = \<lparr>bufs = [], vers = []\<rparr>"

definition run1 :: "(tensor \<Rightarrow> 'v theap \<Rightarrow> 'v kernel_result) \<Rightarrow> 'v dense \<Rightarrow> 'v dense_result" where
  "run1 K a = (let (t, h) = load a no_tensors in unload_result (K t h))"

definition run2 ::
  "(tensor \<Rightarrow> tensor \<Rightarrow> 'v theap \<Rightarrow> 'v kernel_result) \<Rightarrow> 'v dense \<Rightarrow> 'v dense \<Rightarrow> 'v dense_result" where
  "run2 K a b = (let (t, h) = load a no_tensors; (u, h') = load b h in unload_result (K t u h'))"

definition run3 ::
  "(tensor \<Rightarrow> tensor \<Rightarrow> tensor \<Rightarrow> 'v theap \<Rightarrow> 'v kernel_result)
    \<Rightarrow> 'v dense \<Rightarrow> 'v dense \<Rightarrow> 'v dense \<Rightarrow> 'v dense_result" where
  "run3 K a b c =
     (let (t, h) = load a no_tensors; (u, h1) = load b h; (w, h2) = load c h1 in unload_result (K t u w h2))"

text \<open>\<open>Tensor::scalar\<close>, \<open>Tensor::from_vec\<close>, \<open>as_slice::<f32>().expect(..)\<close>, \<open>to_dtype\<close>.\<close>

definition dense_scalar :: "'v \<Rightarrow> 'v dense" where
  "dense_scalar x = \<lparr>d_dtype = F32, d_shape = [], d_elems = [x], d_device = Cpu\<rparr>"

definition dense_from_vec :: "shape \<Rightarrow> 'v list \<Rightarrow> tensor_error + 'v dense" where
  "dense_from_vec s xs =
     (case from_vec s xs no_tensors of
        (Inl e, _) \<Rightarrow> Inl e
      | (Inr _, _) \<Rightarrow> Inr \<lparr>d_dtype = F32, d_shape = s, d_elems = xs, d_device = Cpu\<rparr>)"

definition f32_slice :: "'v dense \<Rightarrow> 'v list option" where
  "f32_slice a = (if d_dtype a = F32 then Some (d_elems a) else None)"

definition dense_to_dtype :: "'v num_ops \<Rightarrow> 'v dense \<Rightarrow> dtype \<Rightarrow> 'v dense option" where
  "dense_to_dtype nm a d =
     (if d_dtype a = d then Some a
      else (let (t, h) = load a no_tensors in
        case to_dtype (nm_casts nm) t d h of None \<Rightarrow> None | Some (u, h') \<Rightarrow> unload u h'))"

definition ok_or_panic :: "(('e + 'a)) option \<Rightarrow> 'a option" where
  "ok_or_panic r = (case r of Some (Inr x) \<Rightarrow> Some x | _ \<Rightarrow> None)"

section \<open>Facts\<close>

definition dense_ok :: "'v dense \<Rightarrow> bool" where
  "dense_ok a \<longleftrightarrow> length (d_elems a) = numel (d_shape a) \<and> fits_memory (d_dtype a) (numel (d_shape a))"

text \<open>The element at a coordinate, and the \<open>f32\<close> tensor with given elements.\<close>

definition elt :: "'v dense \<Rightarrow> nat list \<Rightarrow> 'v" where
  "elt a cs = d_elems a ! ravel (d_shape a) cs"

definition tabulate_as :: "dtype \<Rightarrow> shape \<Rightarrow> (nat list \<Rightarrow> 'v) \<Rightarrow> 'v dense" where
  "tabulate_as d s f = \<lparr>d_dtype = d, d_shape = s, d_elems = map (\<lambda>i. f (coords_of s i)) [0..<numel s], d_device = Cpu\<rparr>"

abbreviation tabulate :: "shape \<Rightarrow> (nat list \<Rightarrow> 'v) \<Rightarrow> 'v dense" where
  "tabulate \<equiv> tabulate_as F32"

lemma tabulate_fields [simp]:
  "d_dtype (tabulate_as d s f) = d" "d_shape (tabulate_as d s f) = s" "d_device (tabulate_as d s f) = Cpu"
  "length (d_elems (tabulate_as d s f)) = numel s"
  by (simp_all add: tabulate_as_def)

lemma elt_tabulate [simp]: "valid_coords s cs \<Longrightarrow> elt (tabulate_as d s f) cs = f cs"
  using ravel_less[of s cs] by (simp add: elt_def tabulate_as_def coords_of_ravel numel_prod_list)

lemma elems_tabulate: "i < numel s \<Longrightarrow> d_elems (tabulate_as d s f) ! i = f (coords_of s i)"
  by (simp add: tabulate_as_def)

lemma tabulate_cong: "(\<And>cs. valid_coords s cs \<Longrightarrow> f cs = g cs) \<Longrightarrow> tabulate_as d s f = tabulate_as d s g"
  by (simp add: tabulate_as_def valid_coords_of_less)

lemma tabulate_eq_iff: "tabulate_as d s f = tabulate_as d s g \<longleftrightarrow> (\<forall>cs. valid_coords s cs \<longrightarrow> f cs = g cs)"
  by (metis elt_tabulate tabulate_cong)

lemma tabulate_elt:
  assumes "dense_ok a" "d_dtype a = F32" "d_device a = Cpu"
  shows "tabulate (d_shape a) (elt a) = a"
proof -
  have "map (\<lambda>i. elt a (coords_of (d_shape a) i)) [0..<numel (d_shape a)] = d_elems a"
    using assms(1) by (intro nth_equalityI) (simp_all add: dense_ok_def elt_def ravel_coords_of numel_prod_list)
  then show ?thesis using assms(2,3) by (simp add: tabulate_as_def)
qed

lemma dense_ok_tabulate: "dense_ok (tabulate_as d s f) \<longleftrightarrow> fits_memory d (numel s)"
  by (simp add: dense_ok_def)

text \<open>What is in the heap after loading.\<close>

definition holds :: "'v dense \<Rightarrow> tensor \<Rightarrow> 'v theap \<Rightarrow> bool" where
  "holds a t h \<longleftrightarrow> tensor_ok t h \<and> t_shape t = d_shape a \<and> t_dtype t = d_dtype a \<and> contiguous (t_layout t)
     \<and> storage_offset (t_layout t) = 0 \<and> elems t h = d_elems a
     \<and> (\<forall>cs. valid_coords (d_shape a) cs \<longrightarrow> t_elem t h cs = elt a cs)"

lemma load_holds: "dense_ok a \<Longrightarrow> load a h = (t, h') \<Longrightarrow> holds a t h' \<and> extends h h'"
  unfolding load_def dense_ok_def holds_def
  using new_tensor_ok[of "d_elems a" "d_shape a" "d_dtype a" h t h'] new_tensor_extends[of "d_dtype a" "d_shape a" "d_elems a" h t h']
    elem_ravel[of t _ h'] by (auto simp: elt_def)

lemma holds_extends: "holds a t h \<Longrightarrow> extends h h' \<Longrightarrow> holds a t h'"
  using extends_tensor[of h h' t] by (auto simp: holds_def)

lemma unload_computes: "computes h d s f r \<Longrightarrow> unload_result r = Some (Inr (tabulate_as d s f))"
proof -
  assume "computes h d s f r"
  then obtain t' h' where r: "r = Some (Inr t', h')" "tensor_ok t' h'" "t_shape t' = s" "t_dtype t' = d"
    "\<And>cs. valid_coords s cs \<Longrightarrow> t_elem t' h' cs = f cs" unfolding computes_def by blast
  have "elems t' h' = map (\<lambda>i. f (coords_of s i)) [0..<numel s]"
    using r(3,5) by (intro nth_equalityI) (simp_all add: elem_position valid_coords_of_less)
  then show ?thesis using read_all_ok[OF r(2) refl] r(1,3,4) by (simp add: unload_result_def unload_def tabulate_as_def)
qed

lemma run1_computes:
  assumes "dense_ok a" "\<And>t h. holds a t h \<Longrightarrow> computes h d s f (K t h)"
  shows "run1 K a = Some (Inr (tabulate_as d s f))"
  using load_holds[OF assms(1), of no_tensors] unload_computes[OF assms(2)]
  by (auto simp: run1_def split: prod.splits)

lemma run2_computes:
  assumes "dense_ok a" "dense_ok b" "\<And>t u h. holds a t h \<Longrightarrow> holds b u h \<Longrightarrow> computes h d s f (K t u h)"
  shows "run2 K a b = Some (Inr (tabulate_as d s f))"
proof -
  obtain t h where t: "load a no_tensors = (t, h)" by fastforce
  obtain u h' where u: "load b h = (u, h')" by fastforce
  have "holds a t h'" "holds b u h'"
    using load_holds[OF assms(1) t] load_holds[OF assms(2) u] holds_extends by blast+
  then show ?thesis using unload_computes[OF assms(3)] by (simp add: run2_def t u)
qed

lemma run3_computes:
  assumes "dense_ok a" "dense_ok b" "dense_ok c"
    and "\<And>t u w h. holds a t h \<Longrightarrow> holds b u h \<Longrightarrow> holds c w h \<Longrightarrow> computes h d s f (K t u w h)"
  shows "run3 K a b c = Some (Inr (tabulate_as d s f))"
proof -
  obtain t h where t: "load a no_tensors = (t, h)" by fastforce
  obtain u h1 where u: "load b h = (u, h1)" by fastforce
  obtain w h2 where w: "load c h1 = (w, h2)" by fastforce
  have "extends h1 h2" "extends h h1" using load_holds[OF assms(2) u] load_holds[OF assms(3) w] by blast+
  then have "holds a t h2" "holds b u h2" "holds c w h2"
    using load_holds[OF assms(1) t] load_holds[OF assms(2) u] load_holds[OF assms(3) w] holds_extends by blast+
  then show ?thesis using unload_computes[OF assms(4)] by (simp add: run3_def t u w)
qed

lemma dense_from_vec_ok:
  assumes "length xs = numel s" and fits: "fits_memory F32 (numel s)" and ne: "0 \<notin> set s"
  shows "dense_from_vec s xs = Inr \<lparr>d_dtype = F32, d_shape = s, d_elems = xs, d_device = Cpu\<rparr>"
proof -
  have "bulk s < i64_limit" using fits_memory_i64[OF fits] ne by (simp add: bulk_nonempty numel_prod_list)
  then show ?thesis
    using expect_from_vec[OF assms(1) fits, of no_tensors] from_vec_exact[of s F32 xs no_tensors]
    by (auto simp: dense_from_vec_def from_vec_def expect_ok_def split: prod.splits sum.splits)
qed

lemma dense_from_vec_tabulate:
  assumes "fits_memory F32 (numel s)" "length xs = numel s" "\<And>cs. valid_coords s cs \<Longrightarrow> xs ! ravel s cs = f cs"
    and ne: "0 \<notin> set s"
  shows "dense_from_vec s xs = Inr (tabulate s f)"
proof -
  have "xs = map (\<lambda>i. f (coords_of s i)) [0..<numel s]"
    using assms(2,3)[symmetric] by (intro nth_equalityI) (simp_all add: valid_coords_of_less ravel_coords_of numel_prod_list)
  then show ?thesis using dense_from_vec_ok[OF assms(2,1) ne] by (simp add: tabulate_as_def)
qed

end
