(* ===== verification/Autograd.thy ===== *)
theory Autograd
  imports Dtype Rust_Base
begin

text \<open>
  Reverse-mode differentiation: \<open>node.rs\<close>, \<open>variable.rs\<close>, \<open>tape.rs\<close>, \<open>backward.rs\<close>,
  \<open>higher_order.rs\<close> and \<open>custom_function.rs\<close> of \<open>rustorch-autograd\<close>, in a build without the GPU
  features.

  Shared cells (\<open>Arc<Mutex<..>>\<close>) and nodes (\<open>Arc<dyn Node>\<close>) are addresses in a heap.  A node is
  what the trait promises: a name, the function \<open>apply\<close>, which may panic (\<open>None\<close>), and its edges.  Tensors are an abstract
  type \<open>'t\<close>; the backend's addition is the parameter \<open>add\<close>, which may report an error.
\<close>

section \<open>Nodes, variables and the heap\<close>

record edge =
  e_node :: "nat option"
  e_slot :: "nat option"

definition edge_leaf :: "nat \<Rightarrow> edge" where
  "edge_leaf slot = \<lparr>e_node = None, e_slot = Some slot\<rparr>"

definition edge_from_node :: "nat \<Rightarrow> edge" where
  "edge_from_node n = \<lparr>e_node = Some n, e_slot = None\<rparr>"

definition edge_detached :: edge where
  "edge_detached = \<lparr>e_node = None, e_slot = None\<rparr>"

record 't gnode =
  n_name :: string
  n_apply :: "'t \<Rightarrow> 't option list option"
  n_edges :: "edge list"

type_synonym 't graph = "nat \<rightharpoonup> 't gnode"

record variable =
  v_data :: nat
  v_grad_fn :: "nat option"
  v_grad :: nat
  v_requires_grad :: bool

record 't heap =
  h_data :: "nat \<Rightarrow> 't option"
  h_grad :: "nat \<Rightarrow> 't option"
  h_nodes :: "'t graph"
  h_next :: nat
  h_grad_enabled :: bool

definition alloc_variable :: "bool \<Rightarrow> 't \<Rightarrow> 't heap \<Rightarrow> variable \<times> 't heap" where
  "alloc_variable rg t h =
     (\<lparr>v_data = h_next h, v_grad_fn = None, v_grad = h_next h, v_requires_grad = rg\<rparr>,
      h\<lparr>h_data := (h_data h)(h_next h \<mapsto> t), h_grad := (h_grad h)(h_next h := None),
        h_next := Suc (h_next h)\<rparr>)"

definition var_new :: "'t \<Rightarrow> 't heap \<Rightarrow> variable \<times> 't heap" where
  "var_new t h = alloc_variable False t h"

definition var_leaf :: "'t \<Rightarrow> 't heap \<Rightarrow> variable \<times> 't heap" where
  "var_leaf t h = alloc_variable True t h"

definition requires_grad :: "variable \<Rightarrow> bool \<Rightarrow> variable" where
  "requires_grad v flag = v\<lparr>v_requires_grad := flag\<rparr>"

definition var_tensor :: "variable \<Rightarrow> 't heap \<Rightarrow> 't option" where
  "var_tensor v h = h_data h (v_data v)"

definition set_data :: "variable \<Rightarrow> 't \<Rightarrow> 't heap \<Rightarrow> 't heap" where
  "set_data v t h = h\<lparr>h_data := (h_data h)(v_data v \<mapsto> t)\<rparr>"

definition raw_grad :: "variable \<Rightarrow> 't heap \<Rightarrow> 't option" where
  "raw_grad v h = h_grad h (v_grad v)"

definition var_grad :: "variable \<Rightarrow> 't heap \<Rightarrow> 't option" where
  "var_grad v h = (case h_grad h (v_grad v) of None \<Rightarrow> None | Some g \<Rightarrow> Some g)"

definition zero_grad :: "variable \<Rightarrow> 't heap \<Rightarrow> 't heap" where
  "zero_grad v h = h\<lparr>h_grad := (h_grad h)(v_grad v := None)\<rparr>"

definition set_grad :: "variable \<Rightarrow> 't option \<Rightarrow> 't heap \<Rightarrow> 't heap" where
  "set_grad v g h = h\<lparr>h_grad := (h_grad h)(v_grad v := g)\<rparr>"

definition detach :: "variable \<Rightarrow> 't heap \<Rightarrow> (variable \<times> 't heap) option" where
  "detach v h = (case var_tensor v h of None \<Rightarrow> None | Some t \<Rightarrow> Some (var_new t h))"

definition var_edge :: "variable \<Rightarrow> edge" where
  "var_edge v =
     (if \<not> v_requires_grad v then edge_detached
      else case v_grad_fn v of Some n \<Rightarrow> edge_from_node n | None \<Rightarrow> edge_leaf (v_grad v))"

section \<open>The tape switch\<close>

text \<open>
  \<open>GRAD_ENABLED\<close> with its guards: entering returns the guard with the previous value, dropping
  the guard stores it back.
\<close>

definition is_grad_enabled :: "'t heap \<Rightarrow> bool" where
  "is_grad_enabled h = h_grad_enabled h"

definition no_grad_enter :: "'t heap \<Rightarrow> bool \<times> 't heap" where
  "no_grad_enter h = (h_grad_enabled h, h\<lparr>h_grad_enabled := False\<rparr>)"

definition with_grad_enter :: "'t heap \<Rightarrow> bool \<times> 't heap" where
  "with_grad_enter h = (h_grad_enabled h, h\<lparr>h_grad_enabled := True\<rparr>)"

definition guard_drop :: "bool \<Rightarrow> 't heap \<Rightarrow> 't heap" where
  "guard_drop previous h = h\<lparr>h_grad_enabled := previous\<rparr>"

definition no_grad :: "('t heap \<Rightarrow> 'r \<times> 't heap) \<Rightarrow> 't heap \<Rightarrow> 'r \<times> 't heap" where
  "no_grad f h = (let (previous, h1) = no_grad_enter h; (r, h2) = f h1 in (r, guard_drop previous h2))"

definition with_grad :: "('t heap \<Rightarrow> 'r \<times> 't heap) \<Rightarrow> 't heap \<Rightarrow> 'r \<times> 't heap" where
  "with_grad f h = (let (previous, h1) = with_grad_enter h; (r, h2) = f h1 in (r, guard_drop previous h2))"

section \<open>The backward pass\<close>

text \<open>The message of a backend error: the one of the backend, or the formatted arities.\<close>

datatype backend_message = BackendText string | ArityText nat nat

datatype backward_error =
    NoGradFn
  | Backend string backend_message
  | DeviceMismatch string device device

text \<open>
  \<open>visit\<close>, with the depth of the recursion as fuel: the children of a node are older than the
  node, so the identifier of the root is a bound.
\<close>

primrec visit :: "nat \<Rightarrow> 't graph \<Rightarrow> nat \<Rightarrow> nat list \<times> nat set \<Rightarrow> (nat list \<times> nat set) option" where
  "visit 0 g n st = None"
| "visit (Suc fuel) g n st =
     (if n \<in> snd st then Some st
      else case g n of
        None \<Rightarrow> None
      | Some nd \<Rightarrow>
          (case fold_opt (\<lambda>e st. case e_node e of Some m \<Rightarrow> visit fuel g m st | None \<Rightarrow> Some st)
                  (n_edges nd) (fst st, insert n (snd st)) of
             None \<Rightarrow> None
           | Some (topo, visited) \<Rightarrow> Some (topo @ [n], visited)))"

text \<open>The accumulated gradients of nodes and leaf slots, with the error that stopped the pass.\<close>

type_synonym 't bstate = "(nat \<rightharpoonup> 't) \<times> (nat \<Rightarrow> 't option)"

definition accumulate_into_edge ::
    "('t \<Rightarrow> 't \<Rightarrow> string + 't) \<Rightarrow> edge \<Rightarrow> 't \<Rightarrow> 't bstate \<Rightarrow> backward_error option \<times> 't bstate" where
  "accumulate_into_edge add e grad st =
     (let grads = fst st; slots = snd st in
      case e_node e of
        Some m \<Rightarrow>
          (case grads m of
             Some prev \<Rightarrow>
               (case add prev grad of
                  Inl msg \<Rightarrow> (Some (Backend ''accumulate'' (BackendText msg)), (grads(m := None), slots))
                | Inr s \<Rightarrow> (None, (grads(m \<mapsto> s), slots)))
           | None \<Rightarrow> (None, (grads(m \<mapsto> grad), slots)))
      | None \<Rightarrow>
          (case e_slot e of
             Some s \<Rightarrow>
               (case slots s of
                  Some prev \<Rightarrow>
                    (case add prev grad of
                       Inl msg \<Rightarrow> (Some (Backend ''accumulate_leaf'' (BackendText msg)), (grads, slots(s := None)))
                     | Inr x \<Rightarrow> (None, (grads, slots(s \<mapsto> x))))
                | None \<Rightarrow> (None, (grads, slots(s \<mapsto> grad))))
           | None \<Rightarrow> (None, st)))"

fun accumulate_all ::
    "('t \<Rightarrow> 't \<Rightarrow> string + 't) \<Rightarrow> (edge \<times> 't option) list \<Rightarrow> 't bstate \<Rightarrow> backward_error option \<times> 't bstate" where
  "accumulate_all add [] st = (None, st)"
| "accumulate_all add ((e, None) # cs) st = accumulate_all add cs st"
| "accumulate_all add ((e, Some g) # cs) st =
     (case accumulate_into_edge add e g st of
        (Some err, st') \<Rightarrow> (Some err, st')
      | (None, st') \<Rightarrow> accumulate_all add cs st')"

fun process ::
    "('t \<Rightarrow> 't \<Rightarrow> string + 't) \<Rightarrow> 't graph \<Rightarrow> nat list \<Rightarrow> 't bstate \<Rightarrow> (backward_error option \<times> 't bstate) option" where
  "process add g [] st = Some (None, st)"
| "process add g (n # ns) st =
     (case (fst st n, g n) of
        (Some upstream, Some nd) \<Rightarrow>
          let st1 = ((fst st)(n := None), snd st) in
          (case n_apply nd upstream of
             None \<Rightarrow> None
           | Some input_grads \<Rightarrow>
               if length input_grads \<noteq> length (n_edges nd)
               then Some (Some (Backend (n_name nd) (ArityText (length input_grads) (length (n_edges nd)))), st1)
               else (case accumulate_all add (zip (n_edges nd) input_grads) st1 of
                       (Some err, st2) \<Rightarrow> Some (Some err, st2)
                     | (None, st2) \<Rightarrow> process add g ns st2))
      | _ \<Rightarrow> process add g ns st)"

text \<open>
  \<open>backward\<close>; \<open>ones_like\<close> is the default gradient.  The outer option is \<open>None\<close> only if a node
  panics, the fuel runs out or an address dangles.
\<close>

definition backward ::
    "('t \<Rightarrow> 't \<Rightarrow> string + 't) \<Rightarrow> ('t \<Rightarrow> 't) \<Rightarrow> variable \<Rightarrow> 't option \<Rightarrow> 't heap
     \<Rightarrow> (backward_error option \<times> 't heap) option" where
  "backward add ones_like output initial_grad h =
     (case v_grad_fn output of
        None \<Rightarrow> Some (Some NoGradFn, h)
      | Some root \<Rightarrow>
          (case (case initial_grad of Some g \<Rightarrow> Some g | None \<Rightarrow> map_option ones_like (var_tensor output h)) of
             None \<Rightarrow> None
           | Some grad \<Rightarrow>
               (case visit (Suc root) (h_nodes h) root ([], {}) of
                  None \<Rightarrow> None
                | Some (topo, _) \<Rightarrow>
                    (case process add (h_nodes h) (rev topo) ([root \<mapsto> grad], h_grad h) of
                       None \<Rightarrow> None
                     | Some (err, st) \<Rightarrow> Some (err, h\<lparr>h_grad := snd st\<rparr>)))))"

text \<open>\<open>grad\<close> of \<open>higher_order.rs\<close>; \<open>zeros_like\<close> makes the zero tensor of an unused input.\<close>

definition grad_of ::
    "('t \<Rightarrow> 't \<Rightarrow> string + 't) \<Rightarrow> ('t \<Rightarrow> 't) \<Rightarrow> ('t \<Rightarrow> 't) \<Rightarrow> variable \<Rightarrow> variable list \<Rightarrow> 't option \<Rightarrow> 't heap
     \<Rightarrow> ((backward_error + 't list) \<times> 't heap) option" where
  "grad_of add ones_like zeros_like outputs inputs grad_outputs h =
     (case backward add ones_like outputs grad_outputs h of
        None \<Rightarrow> None
      | Some (Some e, h') \<Rightarrow> Some (Inl e, h')
      | Some (None, h') \<Rightarrow>
          (case those (map (\<lambda>inp. case var_grad inp h' of
                              Some g \<Rightarrow> Some g | None \<Rightarrow> map_option zeros_like (var_tensor inp h')) inputs) of
             None \<Rightarrow> None
           | Some out \<Rightarrow> Some (Inr out, h')))"

section \<open>Well-formed graphs\<close>

definition child_of :: "'t graph \<Rightarrow> nat \<Rightarrow> nat \<Rightarrow> bool" where
  "child_of g n m \<longleftrightarrow> (\<exists>nd. g n = Some nd \<and> (\<exists>e \<in> set (n_edges nd). e_node e = Some m))"

text \<open>Nodes are immutable and built from existing ones: every edge leads to an older node of the heap.\<close>

definition graph_ok :: "'t graph \<Rightarrow> bool" where
  "graph_ok g \<longleftrightarrow> (\<forall>n m. child_of g n m \<longrightarrow> m < n \<and> g m \<noteq> None)"

text \<open>
  The gradients of a node and of a leaf slot have a type (for tensors, a shape): \<open>P n\<close> and \<open>Q s\<close>.
  The backend adds gradients of one type, which is the function \<open>f\<close>; \<open>apply\<close> on a gradient of its
  node does not panic and returns one gradient per edge, at the type of its target.
\<close>

definition adds :: "('t \<Rightarrow> 't \<Rightarrow> string + 't) \<Rightarrow> ('t \<Rightarrow> 't \<Rightarrow> 't) \<Rightarrow> ('t \<Rightarrow> bool) \<Rightarrow> bool" where
  "adds add f T \<longleftrightarrow> (\<forall>a b. T a \<longrightarrow> T b \<longrightarrow> add a b = Inr (f a b) \<and> T (f a b))"

definition edge_type :: "(nat \<Rightarrow> 't \<Rightarrow> bool) \<Rightarrow> (nat \<Rightarrow> 't \<Rightarrow> bool) \<Rightarrow> edge \<Rightarrow> 't \<Rightarrow> bool" where
  "edge_type P Q e x \<longleftrightarrow>
     (case e_node e of Some m \<Rightarrow> P m x | None \<Rightarrow> (case e_slot e of Some s \<Rightarrow> Q s x | None \<Rightarrow> True))"

definition node_typed :: "(nat \<Rightarrow> 't \<Rightarrow> bool) \<Rightarrow> (nat \<Rightarrow> 't \<Rightarrow> bool) \<Rightarrow> ('t \<Rightarrow> bool) \<Rightarrow> 't gnode \<Rightarrow> bool" where
  "node_typed P Q T nd \<longleftrightarrow> (\<forall>x. T x \<longrightarrow> (\<exists>gs. n_apply nd x = Some gs
     \<and> list_all2 (\<lambda>e c. case c of None \<Rightarrow> True | Some y \<Rightarrow> edge_type P Q e y) (n_edges nd) gs))"

definition graph_typed ::
    "('t \<Rightarrow> 't \<Rightarrow> string + 't) \<Rightarrow> ('t \<Rightarrow> 't \<Rightarrow> 't) \<Rightarrow> (nat \<Rightarrow> 't \<Rightarrow> bool) \<Rightarrow> (nat \<Rightarrow> 't \<Rightarrow> bool) \<Rightarrow> 't graph \<Rightarrow> bool" where
  "graph_typed add f P Q g \<longleftrightarrow> (\<forall>n. adds add f (P n)) \<and> (\<forall>s. adds add f (Q s))
     \<and> (\<forall>n nd. g n = Some nd \<longrightarrow> node_typed P Q (P n) nd)"

inductive reachable :: "'t graph \<Rightarrow> nat \<Rightarrow> nat \<Rightarrow> bool" for g where
  reach_refl: "reachable g n n"
| reach_step: "reachable g n m \<Longrightarrow> child_of g m k \<Longrightarrow> reachable g n k"

lemma reach_child: "child_of g n m \<Longrightarrow> reachable g m k \<Longrightarrow> reachable g n k"
  by (rotate_tac, induction rule: reachable.induct) (auto intro: reachable.intros)

text \<open>Every child stands before its parents.\<close>

definition children_first :: "'t graph \<Rightarrow> nat list \<Rightarrow> bool" where
  "children_first g topo \<longleftrightarrow> distinct topo
     \<and> (\<forall>i < length topo. \<forall>m. child_of g (topo ! i) m \<longrightarrow> m \<in> set (take i topo))"

lemma children_first_snoc:
  assumes "children_first g topo" "n \<notin> set topo" "\<And>m. child_of g n m \<Longrightarrow> m \<in> set topo"
  shows "children_first g (topo @ [n])"
  using assms by (auto simp: children_first_def nth_append less_Suc_eq)

lemma children_first_closed:
  assumes "children_first g topo" "root \<in> set topo" "reachable g root n"
  shows "n \<in> set topo"
  using assms(3,1,2)
proof (induction rule: reachable.induct)
  case (reach_step n m k)
  then obtain i where "i < length topo" "topo ! i = m" by (auto simp: in_set_conv_nth)
  with reach_step have "k \<in> set (take i topo)" by (auto simp: children_first_def)
  then show ?case by (rule in_set_takeD)
qed simp

section \<open>The order of the traversal\<close>

definition visit_inv :: "'t graph \<Rightarrow> nat \<Rightarrow> nat list \<times> nat set \<Rightarrow> bool" where
  "visit_inv g bound st \<longleftrightarrow> children_first g (fst st) \<and> set (fst st) \<subseteq> snd st
     \<and> (\<forall>p \<in> snd st - set (fst st). bound < p)"

text \<open>What a visit of \<open>n\<close> does to the state: it only adds finished nodes reachable from \<open>n\<close>.\<close>

definition visit_grows :: "'t graph \<Rightarrow> nat set \<Rightarrow> nat list \<times> nat set \<Rightarrow> nat list \<times> nat set \<Rightarrow> bool" where
  "visit_grows g R st st' \<longleftrightarrow> set (fst st) \<subseteq> set (fst st') \<and> set (fst st') \<subseteq> set (fst st) \<union> R
     \<and> snd st' - set (fst st') = snd st - set (fst st) \<and> children_first g (fst st') \<and> set (fst st') \<subseteq> snd st'"

lemma visit_grows_refl: "visit_inv g b st \<Longrightarrow> visit_grows g R st st"
  by (auto simp: visit_grows_def visit_inv_def)

lemma visit_grows_trans:
  "visit_grows g R st st1 \<Longrightarrow> visit_grows g R st1 st2 \<Longrightarrow> visit_grows g R st st2"
  by (auto simp: visit_grows_def)

lemma visit_grows_inv: "visit_grows g R st st' \<Longrightarrow> visit_inv g b st \<Longrightarrow> visit_inv g b st'"
  by (simp add: visit_grows_def visit_inv_def)

lemma visit_correct:
  assumes ok: "graph_ok g"
  shows "n < fuel \<Longrightarrow> g n \<noteq> None \<Longrightarrow> visit_inv g n st \<Longrightarrow>
    \<exists>st'. visit fuel g n st = Some st' \<and> visit_grows g {k. reachable g n k} st st' \<and> n \<in> set (fst st')"
proof (induction fuel arbitrary: n st)
  case (Suc fuel)
  show ?case
  proof (cases "n \<in> snd st")
    case True
    then have "n \<in> set (fst st)" using Suc.prems(3) by (force simp: visit_inv_def)
    with True Suc.prems(3) show ?thesis by (auto simp: visit_grows_refl)
  next
    case False
    obtain nd where nd: "g n = Some nd" using Suc.prems(2) by blast
    let ?f = "\<lambda>e st. case e_node e of Some m \<Rightarrow> visit fuel g m st | None \<Rightarrow> Some st"
    let ?st1 = "(fst st, insert n (snd st))"
    let ?R = "{k. \<exists>m. child_of g n m \<and> reachable g m k}"
    let ?I = "\<lambda>es s. visit_grows g ?R ?st1 s \<and> (\<forall>e \<in> set es. \<forall>m. e_node e = Some m \<longrightarrow> m \<in> set (fst s))"
    have inv1: "visit_inv g m ?st1" if "m < n" for m
      using Suc.prems(3) that unfolding visit_inv_def fst_conv snd_conv by (auto intro: less_trans)
    have "\<exists>s. fold_opt ?f (n_edges nd) ?st1 = Some s \<and> ?I (n_edges nd) s"
    proof (rule fold_opt_total)
      show "?I [] ?st1" using Suc.prems(3) by (auto simp: visit_grows_def visit_inv_def)
    next
      fix ys e s assume I: "?I ys s" and pre: "\<exists>zs. n_edges nd = ys @ e # zs"
      show "\<exists>s'. ?f e s = Some s' \<and> ?I (ys @ [e]) s'"
      proof (cases "e_node e")
        case None
        with I show ?thesis by auto
      next
        case (Some m)
        then have c: "child_of g n m" using pre nd by (auto simp: child_of_def)
        then have m: "m < n" "g m \<noteq> None" using ok by (auto simp: graph_ok_def)
        have "visit_inv g m s" using visit_grows_inv I inv1[OF m(1)] by blast
        then obtain s' where s': "visit fuel g m s = Some s'" "visit_grows g {k. reachable g m k} s s'" "m \<in> set (fst s')"
          using Suc.IH[of m s] m Suc.prems(1) by auto
        have "visit_grows g ?R s s'" using s'(2) c by (auto simp: visit_grows_def)
        with I have "visit_grows g ?R ?st1 s'" by (blast intro: visit_grows_trans)
        moreover have "set (fst s) \<subseteq> set (fst s')" using s'(2) by (simp add: visit_grows_def)
        ultimately show ?thesis using I s' Some by auto
      qed
    qed
    then obtain s0 where s0: "fold_opt ?f (n_edges nd) ?st1 = Some s0" "?I (n_edges nd) s0" by blast
    obtain topo vis where tv: "s0 = (topo, vis)" by (cases s0)
    note s = s0(1)[unfolded tv] and I = s0(2)[unfolded tv]
    have n_vis: "n \<in> vis - set topo"
    proof -
      have "vis - set topo = insert n (snd st) - set (fst st)" using I by (simp add: visit_grows_def)
      moreover have "n \<notin> set (fst st)" using False Suc.prems(3) by (auto simp: visit_inv_def)
      ultimately show ?thesis by simp
    qed
    have "children_first g (topo @ [n])"
      using I n_vis nd by (intro children_first_snoc) (auto simp: visit_grows_def child_of_def)
    moreover have "set topo \<subseteq> set (fst st) \<union> {k. reachable g n k}"
      using I reach_child[of g n] unfolding visit_grows_def fst_conv by blast
    ultimately have "visit_grows g {k. reachable g n k} st (topo @ [n], vis)"
      using I n_vis Suc.prems(3) reach_refl[of g n] by (auto simp: visit_grows_def visit_inv_def)
    with False nd s show ?thesis by auto
  qed
qed simp

lemma visit_root:
  assumes ok: "graph_ok g" and root: "g root \<noteq> None"
  shows "\<exists>topo vis. visit (Suc root) g root ([], {}) = Some (topo, vis)
    \<and> children_first g topo \<and> set topo = {n. reachable g root n}"
proof -
  have "visit_inv g root ([], {})" by (simp add: visit_inv_def children_first_def)
  from visit_correct[OF ok, of root "Suc root", OF _ root this]
  obtain topo vis where v: "visit (Suc root) g root ([], {}) = Some (topo, vis)"
    and gr: "visit_grows g {k. reachable g root k} ([], {}) (topo, vis)" and r: "root \<in> set topo" by auto
  have "children_first g topo" "set topo \<subseteq> {n. reachable g root n}" using gr by (auto simp: visit_grows_def)
  moreover have "{n. reachable g root n} \<subseteq> set topo"
    using children_first_closed[OF calculation(1) r] by blast
  ultimately show ?thesis using v by blast
qed

section \<open>The gradients\<close>

text \<open>
  The specification.  \<open>contribs nd x\<close>: the gradients a node sends along its edges for the incoming
  gradient \<open>x\<close>.  \<open>osum f\<close> adds contributions in order to an optional start value.
\<close>

definition some_contribs :: "(edge \<times> 't option) list \<Rightarrow> (edge \<times> 't) list" where
  "some_contribs cs = List.map_filter (\<lambda>(e, x). map_option (Pair e) x) cs"

definition contribs :: "'t gnode \<Rightarrow> 't \<Rightarrow> (edge \<times> 't) list" where
  "contribs nd x = (case n_apply nd x of None \<Rightarrow> [] | Some gs \<Rightarrow> some_contribs (zip (n_edges nd) gs))"

definition all_contribs :: "'t graph \<Rightarrow> (nat \<rightharpoonup> 't) \<Rightarrow> nat list \<Rightarrow> (edge \<times> 't) list" where
  "all_contribs g U order = concat (map (\<lambda>p. case (U p, g p) of (Some x, Some nd) \<Rightarrow> contribs nd x | _ \<Rightarrow> []) order)"

definition to_node :: "nat \<Rightarrow> (edge \<times> 't) list \<Rightarrow> 't list" where
  "to_node n cs = map snd (filter (\<lambda>(e, _). e_node e = Some n) cs)"

definition to_slot :: "nat \<Rightarrow> (edge \<times> 't) list \<Rightarrow> 't list" where
  "to_slot s cs = map snd (filter (\<lambda>(e, _). e_node e = None \<and> e_slot e = Some s) cs)"

fun osum :: "('t \<Rightarrow> 't \<Rightarrow> 't) \<Rightarrow> 't option \<Rightarrow> 't list \<Rightarrow> 't option" where
  "osum f start [] = start"
| "osum f start (c # cs) = osum f (Some (case start of None \<Rightarrow> c | Some a \<Rightarrow> f a c)) cs"

lemma osum_append: "osum f start (xs @ ys) = osum f (osum f start xs) ys"
  by (induction xs arbitrary: start) auto

lemma to_node_append: "to_node n (xs @ ys) = to_node n xs @ to_node n ys"
  by (simp add: to_node_def)

lemma to_slot_append: "to_slot n (xs @ ys) = to_slot n xs @ to_slot n ys"
  by (simp add: to_slot_def)

abbreviation total_add :: "('t \<Rightarrow> 't \<Rightarrow> 't) \<Rightarrow> 't \<Rightarrow> 't \<Rightarrow> string + 't" where
  "total_add f \<equiv> (\<lambda>a b. Inr (f a b))"

definition state_typed :: "(nat \<Rightarrow> 't \<Rightarrow> bool) \<Rightarrow> (nat \<Rightarrow> 't \<Rightarrow> bool) \<Rightarrow> 't bstate \<Rightarrow> bool" where
  "state_typed P Q st \<longleftrightarrow> (\<forall>n x. fst st n = Some x \<longrightarrow> P n x) \<and> (\<forall>s x. snd st s = Some x \<longrightarrow> Q s x)"

lemma addsD: "adds add f T \<Longrightarrow> T a \<Longrightarrow> T b \<Longrightarrow> add a b = Inr (f a b)"
  by (simp add: adds_def)

lemma addsT: "adds add f T \<Longrightarrow> T a \<Longrightarrow> T b \<Longrightarrow> T (f a b)"
  by (simp add: adds_def)

lemma accumulate_edge_osum:
  assumes "\<And>n. adds add f (P n)" "\<And>s. adds add f (Q s)" "state_typed P Q (grads, slots)" "edge_type P Q e c"
  defines "st' \<equiv> (\<lambda>n. osum f (grads n) (to_node n [(e, c)]), \<lambda>k. osum f (slots k) (to_slot k [(e, c)]))"
  shows "accumulate_into_edge add e c (grads, slots) = (None, st')" "state_typed P Q st'"
proof -
  note st = assms(3)[unfolded state_typed_def fst_conv snd_conv] and ty = assms(4)[unfolded edge_type_def]
  have ad: "add x c = Inr (f x c)" if "e_node e = Some m" "grads m = Some x" for m x
    using addsD[OF assms(1)[of m], of x c] st ty that by simp
  have as: "add x c = Inr (f x c)" if "e_node e = None" "e_slot e = Some k" "slots k = Some x" for k x
    using addsD[OF assms(2)[of k], of x c] st ty that by simp
  show "accumulate_into_edge add e c (grads, slots) = (None, st')"
    using ad as unfolding st'_def
    by (cases "e_node e"; cases "e_slot e")
      (auto simp: accumulate_into_edge_def to_node_def to_slot_def fun_eq_iff split: option.splits)
  show "state_typed P Q st'"
    using st ty addsT[OF assms(1)] addsT[OF assms(2)] unfolding st'_def
    by (cases "e_node e"; cases "e_slot e") (auto simp: state_typed_def to_node_def to_slot_def split: option.splits)
qed

lemma accumulate_all_osum:
  assumes ad: "\<And>n. adds add f (P n)" "\<And>s. adds add f (Q s)"
  shows "state_typed P Q (grads, slots) \<Longrightarrow> \<forall>(e, c) \<in> set (some_contribs cs). edge_type P Q e c \<Longrightarrow>
    \<exists>grads' slots'. accumulate_all add cs (grads, slots) = (None, (grads', slots'))
    \<and> (\<forall>n. grads' n = osum f (grads n) (to_node n (some_contribs cs)))
    \<and> (\<forall>s. slots' s = osum f (slots s) (to_slot s (some_contribs cs))) \<and> state_typed P Q (grads', slots')"
proof (induction cs arbitrary: grads slots)
  case Nil
  then show ?case by (simp add: some_contribs_def map_filter_simps to_node_def to_slot_def)
next
  case (Cons ec cs)
  obtain e oc where ec: "ec = (e, oc)" by (cases ec)
  show ?case
  proof (cases oc)
    case None
    then show ?thesis using Cons by (simp add: ec some_contribs_def map_filter_simps)
  next
    case (Some c)
    have sp: "some_contribs (ec # cs) = [(e, c)] @ some_contribs cs"
      by (simp add: ec Some some_contribs_def map_filter_simps)
    let ?g1 = "\<lambda>n. osum f (grads n) (to_node n [(e, c)])" and ?s1 = "\<lambda>k. osum f (slots k) (to_slot k [(e, c)])"
    have ty: "edge_type P Q e c" "\<forall>(e, c) \<in> set (some_contribs cs). edge_type P Q e c"
      using Cons.prems(2) unfolding sp by auto
    note a = accumulate_edge_osum[OF ad Cons.prems(1) ty(1)]
    from Cons.IH[OF a(2) ty(2)] obtain grads' slots' where
      r: "accumulate_all add cs (?g1, ?s1) = (None, (grads', slots'))"
      and r1: "\<And>n. grads' n = osum f (?g1 n) (to_node n (some_contribs cs))"
      and r2: "\<And>k. slots' k = osum f (?s1 k) (to_slot k (some_contribs cs))" and r3: "state_typed P Q (grads', slots')"
      by blast
    have "accumulate_all add (ec # cs) (grads, slots) = (None, (grads', slots'))"
      by (simp add: ec Some a(1) r)
    then show ?thesis unfolding sp to_node_append to_slot_append osum_append using r1 r2 r3 by blast
  qed
qed

text \<open>An order in which no node comes before one of its parents.\<close>

fun parents_first :: "'t graph \<Rightarrow> nat list \<Rightarrow> bool" where
  "parents_first g [] \<longleftrightarrow> True"
| "parents_first g (n # ns) \<longleftrightarrow> n \<notin> set ns \<and> \<not> child_of g n n
     \<and> (\<forall>p \<in> set ns. \<not> child_of g p n) \<and> parents_first g ns"

lemma parents_first_append:
  assumes "parents_first g xs" "distinct (xs @ [n])" "\<not> child_of g n n" "\<forall>x \<in> set xs. \<not> child_of g n x"
  shows "parents_first g (xs @ [n])"
  using assms by (induction xs) auto

lemma parents_first_rev:
  assumes ok: "graph_ok g"
  shows "children_first g topo \<Longrightarrow> parents_first g (rev topo)"
proof (induction topo rule: rev_induct)
  case (snoc n topo)
  have cf: "children_first g topo"
    using snoc.prems unfolding children_first_def
    by (auto simp: nth_append)
  have "\<not> child_of g p n" if p: "p \<in> set topo" for p
  proof
    assume c: "child_of g p n"
    obtain i where i: "i < length topo" "topo ! i = p" using p by (auto simp: in_set_conv_nth)
    with snoc.prems c have "n \<in> set (take i (topo @ [n]))"
      unfolding children_first_def by (metis length_append_singleton less_SucI nth_append)
    with i have "n \<in> set topo" by (auto dest: in_set_takeD)
    with snoc.prems show False by (simp add: children_first_def)
  qed
  moreover have "\<not> child_of g n n" using ok by (auto simp: graph_ok_def)
  ultimately show ?case using snoc.IH[OF cf] snoc.prems by (auto simp: children_first_def)
qed simp

lemma contribs_children:
  assumes "g p = Some nd" "(e, c) \<in> set (contribs nd x)" "e_node e = Some m"
  shows "child_of g p m"
proof -
  have "e \<in> set (n_edges nd)"
    using assms(2) by (auto simp: contribs_def some_contribs_def map_filter_def dest: set_zip_leftD)
  with assms show ?thesis by (auto simp: child_of_def)
qed

lemma to_node_none:
  assumes "\<forall>p \<in> set ns. \<not> child_of g p m"
  shows "to_node m (all_contribs g U ns) = []"
proof -
  have "e_node e \<noteq> Some m" if ec: "(e, c) \<in> set (all_contribs g U ns)" for e c
  proof
    assume m: "e_node e = Some m"
    from ec obtain p where p: "p \<in> set ns" "(e, c) \<in> set (case (U p, g p) of (Some x, Some nd) \<Rightarrow> contribs nd x | _ \<Rightarrow> [])"
      by (auto simp: all_contribs_def)
    then obtain x nd where "g p = Some nd" "(e, c) \<in> set (contribs nd x)"
      by (cases "U p"; cases "g p") auto
    from contribs_children[where g = g, OF this m] assms p(1) show False by blast
  qed
  then show ?thesis by (auto simp: to_node_def filter_empty_conv)
qed

lemma all_contribs_cong: "(\<forall>n \<in> set ns. U n = V n) \<Longrightarrow> all_contribs g U ns = all_contribs g V ns"
  by (auto simp: all_contribs_def intro!: arg_cong[where f = concat])

lemma all_contribs_Cons:
  "all_contribs g U (n # ns) = (case (U n, g n) of (Some x, Some nd) \<Rightarrow> contribs nd x | _ \<Rightarrow> []) @ all_contribs g U ns"
  by (simp add: all_contribs_def)

lemma some_contribs_typed:
  "list_all2 (\<lambda>e c. case c of None \<Rightarrow> True | Some y \<Rightarrow> R e y) es gs \<Longrightarrow> \<forall>(e, c) \<in> set (some_contribs (zip es gs)). R e c"
  by (induction rule: list_all2_induct) (auto simp: some_contribs_def map_filter_simps split: option.splits)

text \<open>
  The pass over a list of nodes: there is one gradient per node such that each is the sum of what
  the nodes of the list send to it, and the slots hold the sums of what is sent to them.
\<close>

lemma process_correct:
  assumes gt: "graph_typed add f P Q g"
  shows "parents_first g ns \<Longrightarrow> state_typed P Q (grads, slots) \<Longrightarrow>
    \<exists>U grads' slots'. process add g ns (grads, slots) = Some (None, (grads', slots'))
    \<and> (\<forall>n \<in> set ns. U n = osum f (grads n) (to_node n (all_contribs g U ns)))
    \<and> (\<forall>s. slots' s = osum f (slots s) (to_slot s (all_contribs g U ns)))
    \<and> (\<forall>n \<in> set ns. \<forall>x. U n = Some x \<longrightarrow> P n x)"
proof (induction ns arbitrary: grads slots)
  case Nil
  then show ?case by (simp add: all_contribs_def to_slot_def)
next
  case (Cons n ns)
  have ad: "adds add f (P m)" "adds add f (Q m)" for m using gt by (simp_all add: graph_typed_def)
  let ?cs = "case (grads n, g n) of (Some x, Some nd) \<Rightarrow> contribs nd x | _ \<Rightarrow> []"
  obtain grads1 slots1 where p: "process add g (n # ns) (grads, slots) = process add g ns (grads1, slots1)"
    and g1: "\<And>m. m \<noteq> n \<Longrightarrow> grads1 m = osum f (grads m) (to_node m ?cs)"
    and s1: "\<And>k. slots1 k = osum f (slots k) (to_slot k ?cs)" and t1: "state_typed P Q (grads1, slots1)"
  proof (cases "\<exists>x nd. grads n = Some x \<and> g n = Some nd")
    case True
    then obtain x nd where x: "grads n = Some x" "g n = Some nd" by blast
    have "P n x" using Cons.prems(2) x(1) by (simp add: state_typed_def)
    with gt x(2) obtain gs where gs: "n_apply nd x = Some gs"
      "list_all2 (\<lambda>e c. case c of None \<Rightarrow> True | Some y \<Rightarrow> edge_type P Q e y) (n_edges nd) gs"
      unfolding graph_typed_def node_typed_def by blast
    have st: "state_typed P Q (grads(n := None), slots)" using Cons.prems(2) by (auto simp: state_typed_def)
    obtain grads1 slots1 where a: "accumulate_all add (zip (n_edges nd) gs) (grads(n := None), slots) = (None, (grads1, slots1))"
      and b: "\<And>m. grads1 m = osum f ((grads(n := None)) m) (to_node m (contribs nd x))"
      and c: "\<And>k. slots1 k = osum f (slots k) (to_slot k (contribs nd x))" and d: "state_typed P Q (grads1, slots1)"
      using accumulate_all_osum[where add = add and f = f and P = P and Q = Q, OF ad st some_contribs_typed[OF gs(2)]] gs(1)
      by (auto simp: contribs_def)
    have "length gs = length (n_edges nd)" using gs(2) by (simp add: list_all2_lengthD)
    then have "process add g (n # ns) (grads, slots) = process add g ns (grads1, slots1)"
      by (simp add: x gs(1) a Let_def)
    from that[OF this] b c d x show ?thesis by simp
  next
    case False
    then have "process add g (n # ns) (grads, slots) = process add g ns (grads, slots)"
      and "?cs = []" by (auto split: option.splits)
    from that[OF this(1)] this(2) Cons.prems(2) show ?thesis by (simp add: to_node_def to_slot_def)
  qed
  have pf: "parents_first g ns" using Cons.prems by simp
  from Cons.IH[OF pf t1] obtain V grads' slots' where V: "process add g ns (grads1, slots1) = Some (None, (grads', slots'))"
    "\<forall>m \<in> set ns. V m = osum f (grads1 m) (to_node m (all_contribs g V ns))"
    "\<forall>s. slots' s = osum f (slots1 s) (to_slot s (all_contribs g V ns))" "\<forall>m \<in> set ns. \<forall>x. V m = Some x \<longrightarrow> P m x" by blast
  define U where "U = V(n := grads n)"
  have "all_contribs g U ns = all_contribs g V ns"
    by (rule all_contribs_cong) (use Cons.prems in \<open>auto simp: U_def\<close>)
  then have all: "all_contribs g U (n # ns) = ?cs @ all_contribs g V ns"
    by (simp add: all_contribs_Cons U_def)
  have "to_node n (all_contribs g U (n # ns)) = []" using Cons.prems by (intro to_node_none) simp
  then have n: "U n = osum f (grads n) (to_node n (all_contribs g U (n # ns)))" by (simp add: U_def)
  have "U m = osum f (grads m) (to_node m (all_contribs g U (n # ns)))" if "m \<in> set ns" for m
  proof -
    have "m \<noteq> n" using that Cons.prems by auto
    then show ?thesis unfolding all to_node_append osum_append using V(2) that g1 by (simp add: U_def)
  qed
  with n have "\<forall>m \<in> set (n # ns). U m = osum f (grads m) (to_node m (all_contribs g U (n # ns)))" by simp
  moreover have "\<forall>s. slots' s = osum f (slots s) (to_slot s (all_contribs g U (n # ns)))"
    unfolding all to_slot_append osum_append using V(3) s1 by simp
  moreover have "\<forall>m \<in> set (n # ns). \<forall>x. U m = Some x \<longrightarrow> P m x"
    using V(4) Cons.prems(2) by (auto simp: U_def state_typed_def)
  ultimately show ?case unfolding p V(1) by blast
qed

lemma backward_pass:
  assumes ok: "graph_ok (h_nodes h)" and gt: "graph_typed add f P Q (h_nodes h)"
    and root: "v_grad_fn out = Some root" "h_nodes h root \<noteq> None"
    and seed: "P root seed" and slots: "\<And>s x. h_grad h s = Some x \<Longrightarrow> Q s x"
  shows "\<exists>order U h'. backward add ones_like out (Some seed) h = Some (None, h')
    \<and> set order = {n. reachable (h_nodes h) root n} \<and> parents_first (h_nodes h) order
    \<and> (\<forall>n \<in> set order. U n = osum f (if n = root then Some seed else None)
          (to_node n (all_contribs (h_nodes h) U order)))
    \<and> (\<forall>s. h_grad h' s = osum f (h_grad h s) (to_slot s (all_contribs (h_nodes h) U order)))
    \<and> (\<forall>n \<in> set order. \<forall>x. U n = Some x \<longrightarrow> P n x) \<and> h_data h' = h_data h \<and> h_nodes h' = h_nodes h"
proof -
  let ?g = "h_nodes h"
  obtain topo vis where v: "visit (Suc root) ?g root ([], {}) = Some (topo, vis)"
    and cf: "children_first ?g topo" and st: "set topo = {n. reachable ?g root n}"
    using visit_root[OF ok root(2)] by blast
  have pf: "parents_first ?g (rev topo)" by (rule parents_first_rev[OF ok cf])
  have ty: "state_typed P Q ([root \<mapsto> seed], h_grad h)" using seed slots by (simp add: state_typed_def)
  obtain U grads' slots' where p: "process add ?g (rev topo) ([root \<mapsto> seed], h_grad h) = Some (None, (grads', slots'))"
    and U: "\<forall>n \<in> set (rev topo). U n = osum f ([root \<mapsto> seed] n) (to_node n (all_contribs ?g U (rev topo)))"
    and S: "\<forall>s. slots' s = osum f (h_grad h s) (to_slot s (all_contribs ?g U (rev topo)))"
    and T: "\<forall>n \<in> set (rev topo). \<forall>x. U n = Some x \<longrightarrow> P n x"
    using process_correct[OF gt pf ty] by blast
  have "backward add ones_like out (Some seed) h = Some (None, h\<lparr>h_grad := slots'\<rparr>)"
    by (simp add: backward_def root(1) v p del: visit.simps)
  moreover have "\<forall>n \<in> set (rev topo). U n = osum f (if n = root then Some seed else None)
      (to_node n (all_contribs ?g U (rev topo)))" using U by (auto simp: fun_upd_def)
  ultimately show ?thesis using st pf S T by (intro exI[of _ "rev topo"] exI[of _ U] exI[of _ "h\<lparr>h_grad := slots'\<rparr>"]) simp
qed

text \<open>
  C3. The backward pass computes the chain rule on the whole graph: when the nodes keep the types
  (the shapes) of the gradients and the backend adds gradients of one type, the pass from \<open>root\<close>
  succeeds, and there is a gradient for every node reachable from the root such that the gradient of
  a node is the sum of what all its parents send to it (the seed for the root), and every leaf slot is
  its old value plus the sum of what all nodes send to it.  Sums are taken in the order of the
  traversal, parents first.
\<close>

theorem backward_correct:
  assumes ok: "graph_ok (h_nodes h)" and gt: "graph_typed add f P Q (h_nodes h)"
    and root: "v_grad_fn out = Some root" "h_nodes h root \<noteq> None"
    and seed: "P root seed" and slots: "\<And>s x. h_grad h s = Some x \<Longrightarrow> Q s x"
  shows "\<exists>order U h'. backward add ones_like out (Some seed) h = Some (None, h')
    \<and> set order = {n. reachable (h_nodes h) root n} \<and> parents_first (h_nodes h) order
    \<and> (\<forall>n \<in> set order. U n = osum f (if n = root then Some seed else None)
          (to_node n (all_contribs (h_nodes h) U order)))
    \<and> (\<forall>s. h_grad h' s = osum f (h_grad h s) (to_slot s (all_contribs (h_nodes h) U order)))
    \<and> (\<forall>n \<in> set order. \<forall>x. U n = Some x \<longrightarrow> P n x) \<and> h_data h' = h_data h \<and> h_nodes h' = h_nodes h"
  using backward_pass[OF assms] .

text \<open>A product and a sum over the integers: \<open>y = a * b + a\<close> at \<open>a = 3\<close>, \<open>b = 5\<close>.\<close>

abbreviation mul_add_nodes :: "int graph" where
  "mul_add_nodes \<equiv> [0 \<mapsto> \<lparr>n_name = ''MulBackward'', n_apply = (\<lambda>x. Some [Some (x * 5), Some (x * 3)]),
                            n_edges = [edge_leaf 0, edge_leaf 1]\<rparr>,
                     1 \<mapsto> \<lparr>n_name = ''AddBackward'', n_apply = (\<lambda>x. Some [Some x, Some x]),
                            n_edges = [edge_from_node 0, edge_leaf 0]\<rparr>]"

abbreviation mul_add_heap :: "int heap" where
  "mul_add_heap \<equiv> \<lparr>h_data = [0 \<mapsto> 3, 1 \<mapsto> 5, 2 \<mapsto> 18], h_grad = [0 \<mapsto> 100], h_nodes = mul_add_nodes,
     h_next = 3, h_grad_enabled = True\<rparr>"

abbreviation mul_add_out :: variable where
  "mul_add_out \<equiv> \<lparr>v_data = 2, v_grad_fn = Some 1, v_grad = 2, v_requires_grad = True\<rparr>"

theorem backward_correct_witness:
  "\<exists>h'. backward (total_add (+)) (\<lambda>_. 1) mul_add_out (Some 1) mul_add_heap = Some (None, h')
     \<and> h_grad h' 0 = Some 106 \<and> h_grad h' 1 = Some 3 \<and> h_data h' = h_data mul_add_heap"
proof -
  have ok: "graph_ok (h_nodes mul_add_heap)"
    by (auto simp: graph_ok_def child_of_def edge_leaf_def edge_from_node_def split: if_splits)
  have gt: "graph_typed (total_add (+)) (+) (\<lambda>_ _. True) (\<lambda>_ _. True) (h_nodes mul_add_heap)"
    by (auto simp: graph_typed_def adds_def node_typed_def edge_type_def split: if_splits option.splits)
  have root: "v_grad_fn mul_add_out = Some 1" "h_nodes mul_add_heap 1 \<noteq> None" by simp_all
  obtain h' where h': "backward (total_add (+)) (\<lambda>_. 1) mul_add_out (Some 1) mul_add_heap = Some (None, h')"
    "h_data h' = h_data mul_add_heap"
    using backward_correct[where seed = 1 and ones_like = "\<lambda>_. 1", OF ok gt root] by blast
  have "case backward (total_add (+)) (\<lambda>_. 1) mul_add_out (Some 1) mul_add_heap of
      Some (_, h') \<Rightarrow> h_grad h' 0 = Some 106 \<and> h_grad h' 1 = Some 3 | None \<Rightarrow> False" by code_simp
  with h' show ?thesis by auto
qed

section \<open>What the gradients of \<open>grad\<close> and of a failed pass are\<close>

text \<open>
  \<open>grad\<close> reads the slots after a pass that accumulates: a gradient left from an earlier pass is
  part of the result.  Here the slot of the first input held 100, and the derivative is 6.
\<close>

lemma grad_includes_old_gradient:
  "case grad_of (total_add (+)) (\<lambda>_. 1) (\<lambda>_. 0) mul_add_out
      [\<lparr>v_data = 0, v_grad_fn = None, v_grad = 0, v_requires_grad = True\<rparr>] None mul_add_heap of
     Some (Inr gs, _) \<Rightarrow> gs = [106] | _ \<Rightarrow> False"
  by code_simp

text \<open>
  If the backend cannot add, the pass stops with an error and the gradient the leaf had before is
  lost: \<open>take\<close> has emptied the slot.
\<close>

lemma failed_add_drops_gradient:
  "case backward (\<lambda>_ _. Inl ''shape mismatch'') (\<lambda>_. 1) mul_add_out None mul_add_heap of
     Some (Some (Backend op _), h') \<Rightarrow> op = ''accumulate_leaf'' \<and> h_grad mul_add_heap 0 = Some 100 \<and> h_grad h' 0 = None
   | _ \<Rightarrow> False"
  by code_simp

section \<open>Scopes\<close>

text \<open>A program of nested scopes, which records the switch wherever it is observed.\<close>

datatype scope = Observe | NoGrad "scope list" | WithGrad "scope list"

fun run_scope :: "scope \<Rightarrow> 't heap \<Rightarrow> bool list \<times> 't heap"
  and run_scopes :: "scope list \<Rightarrow> 't heap \<Rightarrow> bool list \<times> 't heap" where
  "run_scope Observe h = ([is_grad_enabled h], h)"
| "run_scope (NoGrad ss) h = no_grad (run_scopes ss) h"
| "run_scope (WithGrad ss) h = with_grad (run_scopes ss) h"
| "run_scopes [] h = ([], h)"
| "run_scopes (s # ss) h = (let (l1, h1) = run_scope s h; (l2, h2) = run_scopes ss h1 in (l1 @ l2, h2))"

fun expected :: "bool \<Rightarrow> scope \<Rightarrow> bool list" where
  "expected b Observe = [b]"
| "expected b (NoGrad ss) = concat (map (expected False) ss)"
| "expected b (WithGrad ss) = concat (map (expected True) ss)"

text \<open>
  The scopes of \<open>no_grad\<close> and \<open>with_grad\<close> nest: every observation sees the innermost
  enclosing scope (the initial switch outside all of them), and the switch is restored at the end.
\<close>

theorem scopes_nest:
  "run_scopes ss h = (concat (map (expected (is_grad_enabled h)) ss), h)"
proof -
  have "run_scope s h = (expected (is_grad_enabled h) s, h)"
    and "run_scopes ss h = (concat (map (expected (is_grad_enabled h)) ss), h)" for s ss and h :: "'a heap"
    by (induction s h and ss h rule: run_scope_run_scopes.induct)
      (simp_all add: no_grad_def with_grad_def no_grad_enter_def with_grad_enter_def guard_drop_def is_grad_enabled_def)
  then show ?thesis by blast
qed

section \<open>Custom functions\<close>

text \<open>
  \<open>apply_custom\<close>; the functions \<open>forward\<close> (outputs and saved tensors) and \<open>bwd\<close> are those of the
  trait \<open>CustomFunction\<close>.
\<close>

fun alloc_all :: "'t list \<Rightarrow> 't heap \<Rightarrow> variable list \<times> 't heap" where
  "alloc_all [] h = ([], h)"
| "alloc_all (t # ts) h = (let (v, h1) = var_new t h; (vs, h2) = alloc_all ts h1 in (v # vs, h2))"

definition custom_node :: "('t list \<Rightarrow> 't list \<Rightarrow> 't list) \<Rightarrow> 't list \<Rightarrow> edge list \<Rightarrow> 't gnode" where
  "custom_node bwd saved edges =
     \<lparr>n_name = ''CustomBackward'', n_apply = (\<lambda>grad. Some (map Some (bwd saved [grad]))), n_edges = edges\<rparr>"

definition apply_custom ::
    "('t list \<Rightarrow> 't list \<times> 't list) \<Rightarrow> ('t list \<Rightarrow> 't list \<Rightarrow> 't list) \<Rightarrow> variable list \<Rightarrow> 't heap
     \<Rightarrow> ((backward_error + variable list) \<times> 't heap) option" where
  "apply_custom forward bwd inputs h =
     (case those (map (\<lambda>v. var_tensor v h) inputs) of
        None \<Rightarrow> None
      | Some raw_inputs \<Rightarrow>
          let (outputs, saved) = forward raw_inputs in
          if outputs = []
          then Some (Inl (Backend ''custom'' (BackendText ''CustomFunction::forward returned 0 outputs'')), h)
          else let (out_vars, h1) = alloc_all outputs h in
            if is_grad_enabled h \<and> list_ex v_requires_grad inputs
            then let n = h_next h1 in
              Some (Inr (map (\<lambda>v. v\<lparr>v_grad_fn := Some n, v_requires_grad := True\<rparr>) out_vars),
                    h1\<lparr>h_nodes := (h_nodes h1)(n \<mapsto> custom_node bwd saved (map var_edge inputs)),
                       h_next := Suc n\<rparr>)
            else Some (Inr out_vars, h1))"

definition heap_ok :: "'t heap \<Rightarrow> bool" where
  "heap_ok h \<longleftrightarrow> graph_ok (h_nodes h) \<and> (\<forall>n \<in> dom (h_nodes h). n < h_next h)"

definition var_ok :: "'t heap \<Rightarrow> variable \<Rightarrow> bool" where
  "var_ok h v \<longleftrightarrow> (\<forall>n. v_grad_fn v = Some n \<longrightarrow> h_nodes h n \<noteq> None)"

lemma alloc_all_facts:
  "alloc_all ts h = (vs, h') \<Longrightarrow> h_nodes h' = h_nodes h \<and> h_next h \<le> h_next h' \<and> h_grad_enabled h' = h_grad_enabled h
    \<and> length vs = length ts \<and> (\<forall>v \<in> set vs. v_grad_fn v = None \<and> \<not> v_requires_grad v)"
proof (induction ts h arbitrary: vs h' rule: alloc_all.induct)
  case (2 t ts h)
  obtain v h1 where v: "var_new t h = (v, h1)" by (cases "var_new t h")
  obtain ws h2 where w: "alloc_all ts h1 = (ws, h2)" by (cases "alloc_all ts h1")
  from 2(1)[OF v[symmetric] refl w] v w 2(2) show ?case
    by (auto simp: var_new_def alloc_variable_def)
qed simp

lemma graph_ok_upd:
  assumes ok: "graph_ok g" and fresh: "\<forall>m \<in> dom g. m < n"
    and ed: "\<forall>e \<in> set (n_edges nd). \<forall>m. e_node e = Some m \<longrightarrow> g m \<noteq> None"
  shows "graph_ok (g(n \<mapsto> nd))"
  using assms by (fastforce simp: graph_ok_def child_of_def split: if_splits)

text \<open>
  C27. \<open>apply_custom\<close> keeps the graph well-formed and records a node exactly when gradients are
  enabled and some input requires one: then every output has the new node, whose edges are those
  of the inputs, and requires a gradient; otherwise no output does.  Without outputs it reports an
  error and changes nothing.
\<close>

theorem apply_custom_records:
  assumes h: "heap_ok h" and ins: "\<forall>v \<in> set inputs. var_ok h v"
    and run: "apply_custom forward bwd inputs h = Some (res, h')"
  shows "heap_ok h' \<and> (\<forall>n \<in> dom (h_nodes h). h_nodes h' n = h_nodes h n)
    \<and> (case res of
         Inl e \<Rightarrow> h' = h
       | Inr outs \<Rightarrow> outs \<noteq> [] \<and> (\<forall>v \<in> set outs.
           if is_grad_enabled h \<and> (\<exists>i \<in> set inputs. v_requires_grad i)
           then v_requires_grad v \<and> (\<exists>n saved. v_grad_fn v = Some n
                  \<and> h_nodes h' n = Some (custom_node bwd saved (map var_edge inputs)))
           else \<not> v_requires_grad v \<and> v_grad_fn v = None))"
proof -
  obtain raw where raw: "those (map (\<lambda>v. var_tensor v h) inputs) = Some raw"
    using run by (auto simp: apply_custom_def split: option.splits)
  obtain outputs saved where f: "forward raw = (outputs, saved)" by (cases "forward raw")
  obtain vs h1 where a: "alloc_all outputs h = (vs, h1)" by (cases "alloc_all outputs h")
  note af = alloc_all_facts[OF a]
  let ?nd = "custom_node bwd saved (map var_edge inputs)"
  have ed: "\<forall>e \<in> set (n_edges ?nd). \<forall>m. e_node e = Some m \<longrightarrow> h_nodes h m \<noteq> None"
    using ins by (auto simp: custom_node_def var_edge_def edge_detached_def edge_from_node_def edge_leaf_def var_ok_def
        split: if_splits option.splits)
  have lt: "\<forall>m \<in> dom (h_nodes h). m < h_next h1"
    using h af unfolding heap_ok_def by (meson order_less_le_trans)
  have "graph_ok ((h_nodes h)(h_next h1 \<mapsto> ?nd))"
    using h graph_ok_upd[OF _ lt ed] by (simp add: heap_ok_def)
  moreover have "h_nodes h (h_next h1) = None" using lt by (metis domIff less_irrefl)
  moreover have ok1: "heap_ok h1" using h af lt by (simp add: heap_ok_def)
  moreover have "m < Suc (h_next h1)" if "h_nodes h m = Some y" for m y
    using lt that by (meson domI less_SucI)
  ultimately show ?thesis
    using run h af lt ok1 unfolding apply_custom_def raw f a
    by (auto simp: Let_def f a heap_ok_def list_ex_iff split: if_splits)
qed

theorem apply_custom_records_witness:
  "let square = (\<lambda>ts. (map (\<lambda>x. x * x) ts, ts)); bwd = (\<lambda>saved gs. map2 (\<lambda>x g. 2 * x * g) saved gs);
       x = \<lparr>v_data = 0, v_grad_fn = None, v_grad = 0, v_requires_grad = True\<rparr> in
   \<exists>outs h'. apply_custom square bwd [x] mul_add_heap = Some (Inr outs, h') \<and> heap_ok h' \<and> outs \<noteq> []"
proof -
  let ?square = "\<lambda>ts. (map (\<lambda>x. x * x) ts, ts)" and ?bwd = "\<lambda>saved gs. map2 (\<lambda>x g. 2 * x * g) saved gs"
  let ?x = "\<lparr>v_data = 0, v_grad_fn = None, v_grad = 0, v_requires_grad = True\<rparr>"
  have h: "heap_ok mul_add_heap"
    by (auto simp: heap_ok_def graph_ok_def child_of_def edge_leaf_def edge_from_node_def split: if_splits)
  have i: "\<forall>v \<in> set [?x]. var_ok mul_add_heap v" by (simp add: var_ok_def)
  have "case apply_custom ?square ?bwd [?x] mul_add_heap of Some (Inr outs, _) \<Rightarrow> True | _ \<Rightarrow> False" by code_simp
  then obtain outs h' where r: "apply_custom ?square ?bwd [?x] mul_add_heap = Some (Inr outs, h')"
    by (auto split: option.splits sum.splits)
  from apply_custom_records[OF h i r] have "heap_ok h' \<and> outs \<noteq> []" by simp
  with r show ?thesis unfolding Let_def by blast
qed

section \<open>Device checks and anomaly detection\<close>

definition require_same_device_2 :: "string \<Rightarrow> device \<Rightarrow> device \<Rightarrow> backward_error + device" where
  "require_same_device_2 op l r = (if l \<noteq> r then Inl (DeviceMismatch op l r) else Inr l)"

definition require_same_device_3 :: "string \<Rightarrow> device \<Rightarrow> device \<Rightarrow> device \<Rightarrow> backward_error + device" where
  "require_same_device_3 op da db dc =
     (if da \<noteq> db then Inl (DeviceMismatch op da db)
      else if da \<noteq> dc then Inl (DeviceMismatch op da dc) else Inr da)"

lemma require_same_device_3_Inr:
  "require_same_device_3 op a b c = Inr d \<longleftrightarrow> d = a \<and> b = a \<and> c = a"
  by (auto simp: require_same_device_3_def)

text \<open>
  \<open>first_bad_value\<close> on the switch, the element type and the elements; which values are finite is
  the parameter \<open>finite_val\<close>.
\<close>

fun position :: "('a \<Rightarrow> bool) \<Rightarrow> 'a list \<Rightarrow> nat option" where
  "position P [] = None"
| "position P (x # xs) = (if P x then Some 0 else map_option Suc (position P xs))"

definition first_bad_value :: "bool \<Rightarrow> ('f \<Rightarrow> bool) \<Rightarrow> dtype \<Rightarrow> 'f list option \<Rightarrow> nat option" where
  "first_bad_value detect finite_val dt slice =
     (if \<not> detect then None
      else if dt = F32 \<or> dt = F64
      then (case slice of None \<Rightarrow> None | Some s \<Rightarrow> position (\<lambda>v. \<not> finite_val v) s)
      else None)"

lemma position_Some:
  "position P xs = Some i \<longleftrightarrow> i < length xs \<and> P (xs ! i) \<and> (\<forall>j < i. \<not> P (xs ! j))"
proof (induction xs arbitrary: i)
  case (Cons x xs)
  show ?case
  proof (cases i)
    case (Suc k)
    then show ?thesis using Cons[of k] by (auto simp: less_Suc_eq_0_disj)
  qed auto
qed simp

lemma position_None: "position P xs = None \<longleftrightarrow> (\<forall>x \<in> set xs. \<not> P x)"
  by (induction xs) auto

lemma first_bad_value_correct:
  "first_bad_value True fin F32 (Some s) = Some i \<longleftrightarrow> i < length s \<and> \<not> fin (s ! i) \<and> (\<forall>j < i. fin (s ! j))"
  by (simp add: first_bad_value_def position_Some)

end
