(* ===== verification/Adjoint.thy ===== *)
theory Adjoint
  imports Autograd
begin

text \<open>
  What the backward pass computes, in terms of derivatives.  A tangent is given for every node and
  every leaf slot, and a pairing \<open>ip\<close> of gradients with tangents (for tensors, the sum of the products
  of their elements).  If every node sends back, along its edges, gradients that pair with the tangents
  of its inputs as the incoming gradient pairs with its own tangent (\<open>apply\<close> is the adjoint of the
  derivative of the operation), then what the pass adds to the leaf slots pairs with their tangents as
  the seed does with the tangent of the root: the whole pass is the adjoint of the derivative of the
  program.
\<close>

definition edge_ip :: "('t \<Rightarrow> 't \<Rightarrow> 'r :: ab_group_add) \<Rightarrow> (nat \<Rightarrow> 't) \<Rightarrow> (nat \<Rightarrow> 't) \<Rightarrow> edge \<Rightarrow> 't \<Rightarrow> 'r" where
  "edge_ip ip tn ts e c =
     (case e_node e of Some m \<Rightarrow> ip c (tn m) | None \<Rightarrow> (case e_slot e of Some s \<Rightarrow> ip c (ts s) | None \<Rightarrow> 0))"

definition contribs_ip :: "('t \<Rightarrow> 't \<Rightarrow> 'r :: ab_group_add) \<Rightarrow> (nat \<Rightarrow> 't) \<Rightarrow> (nat \<Rightarrow> 't) \<Rightarrow> (edge \<times> 't) list \<Rightarrow> 'r" where
  "contribs_ip ip tn ts cs = sum_list (map (\<lambda>(e, c). edge_ip ip tn ts e c) cs)"

definition opt_ip :: "('t \<Rightarrow> 't \<Rightarrow> 'r :: ab_group_add) \<Rightarrow> 't option \<Rightarrow> 't \<Rightarrow> 'r" where
  "opt_ip ip ox t = (case ox of None \<Rightarrow> 0 | Some x \<Rightarrow> ip x t)"

text \<open>
  The node of every address sends back gradients of the types \<open>sh\<close> of its inputs, and is the adjoint of
  what takes the tangents \<open>tan\<close> of its inputs to its own.
\<close>

definition adjoint_graph ::
    "('ty \<Rightarrow> 't \<Rightarrow> bool) \<Rightarrow> ('t \<Rightarrow> 't \<Rightarrow> 'r :: ab_group_add) \<Rightarrow> (nat \<Rightarrow> 'ty) \<Rightarrow> (nat \<Rightarrow> 't) \<Rightarrow> 't graph \<Rightarrow> bool" where
  "adjoint_graph ty ip sh tan g \<longleftrightarrow> (\<forall>n nd x. g n = Some nd \<longrightarrow> ty (sh n) x \<longrightarrow> (\<exists>gs. n_apply nd x = Some gs
     \<and> list_all2 (\<lambda>e c. case c of None \<Rightarrow> True | Some y \<Rightarrow> edge_type (\<lambda>m. ty (sh m)) (\<lambda>m. ty (sh m)) e y) (n_edges nd) gs
     \<and> contribs_ip ip tan tan (contribs nd x) = ip x (tan n)))"

text \<open>What the pass asks of tensors: the backend adds those of one type, and the pairing is additive.\<close>

locale tensor_sums =
  fixes add :: "'t \<Rightarrow> 't \<Rightarrow> string + 't" and f :: "'t \<Rightarrow> 't \<Rightarrow> 't"
    and ty :: "'ty \<Rightarrow> 't \<Rightarrow> bool" and ip :: "'t \<Rightarrow> 't \<Rightarrow> 'r :: ab_group_add"
  assumes adds_ty: "adds add f (ty s)"
    and ip_add: "ty s a \<Longrightarrow> ty s b \<Longrightarrow> ip (f a b) t = ip a t + ip b t"
begin

lemma graph_typed_of_adjoint:
  "adjoint_graph ty ip sh tan g \<Longrightarrow> graph_typed add f (\<lambda>n. ty (sh n)) (\<lambda>n. ty (sh n)) g"
  using adds_ty by (fastforce simp: graph_typed_def node_typed_def adjoint_graph_def)

lemma node_adjoint:
  "adjoint_graph ty ip sh tan g \<Longrightarrow> g n = Some nd \<Longrightarrow> ty (sh n) x \<Longrightarrow> contribs_ip ip tan tan (contribs nd x) = ip x (tan n)"
  unfolding adjoint_graph_def by blast

lemma contribs_typed:
  "adjoint_graph ty ip sh tan g \<Longrightarrow> g n = Some nd \<Longrightarrow> ty (sh n) x \<Longrightarrow>
   \<forall>(e, c) \<in> set (contribs nd x). edge_type (\<lambda>m. ty (sh m)) (\<lambda>m. ty (sh m)) e c"
proof -
  assume "adjoint_graph ty ip sh tan g" "g n = Some nd" "ty (sh n) x"
  then obtain gs where "n_apply nd x = Some gs"
    "list_all2 (\<lambda>e c. case c of None \<Rightarrow> True | Some y \<Rightarrow> edge_type (\<lambda>m. ty (sh m)) (\<lambda>m. ty (sh m)) e y) (n_edges nd) gs"
    unfolding adjoint_graph_def by blast
  then show ?thesis
    using some_contribs_typed[of "edge_type (\<lambda>m. ty (sh m)) (\<lambda>m. ty (sh m))" "n_edges nd" gs] by (simp add: contribs_def)
qed

lemma osum_ip:
  assumes "adds add f T" "\<And>a b. T a \<Longrightarrow> T b \<Longrightarrow> ip (f a b) t = ip a t + ip b t"
  shows "(\<And>x. start = Some x \<Longrightarrow> T x) \<Longrightarrow> list_all T cs \<Longrightarrow>
    opt_ip ip (osum f start cs) t = opt_ip ip start t + sum_list (map (\<lambda>c. ip c t) cs)"
proof (induction cs arbitrary: start)
  case (Cons c cs)
  let ?s = "case start of None \<Rightarrow> c | Some a \<Rightarrow> f a c"
  have T: "T ?s" using Cons.prems addsT[OF assms(1)] by (auto split: option.splits)
  have "opt_ip ip (osum f start (c # cs)) t = opt_ip ip (Some ?s) t + sum_list (map (\<lambda>c. ip c t) cs)"
    using Cons.IH[of "Some ?s"] T Cons.prems(2) by simp
  also have "opt_ip ip (Some ?s) t = opt_ip ip start t + ip c t"
    using Cons.prems assms(2) by (auto simp: opt_ip_def split: option.splits)
  finally show ?case by (simp add: add.assoc)
qed simp

text \<open>Contributions, sorted by their targets.\<close>

lemma sum_by_target:
  assumes "\<forall>(e, c) \<in> set cs. (\<forall>m. e_node e = Some m \<longrightarrow> m \<in> N) \<and> (\<forall>s. e_node e = None \<longrightarrow> e_slot e = Some s \<longrightarrow> s \<in> S)"
    and "finite N" "finite S"
  shows "contribs_ip ip tn ts cs = (\<Sum>n \<in> N. sum_list (map (\<lambda>c. ip c (tn n)) (to_node n cs)))
    + (\<Sum>s \<in> S. sum_list (map (\<lambda>c. ip c (ts s)) (to_slot s cs)))"
  using assms(1)
proof (induction cs)
  case Nil
  then show ?case by (simp add: contribs_ip_def to_node_def to_slot_def)
next
  case (Cons ec cs)
  obtain e c where ec: "ec = (e, c)" by (cases ec)
  have n: "(\<Sum>n \<in> N. sum_list (map (\<lambda>c. ip c (tn n)) (to_node n (ec # cs)))) =
      (\<Sum>n \<in> N. if e_node e = Some n then ip c (tn n) else 0) + (\<Sum>n \<in> N. sum_list (map (\<lambda>c. ip c (tn n)) (to_node n cs)))"
    unfolding sum.distrib[symmetric] by (intro sum.cong) (auto simp: ec to_node_def)
  have s: "(\<Sum>s \<in> S. sum_list (map (\<lambda>c. ip c (ts s)) (to_slot s (ec # cs)))) =
      (\<Sum>s \<in> S. if e_node e = None \<and> e_slot e = Some s then ip c (ts s) else 0) + (\<Sum>s \<in> S. sum_list (map (\<lambda>c. ip c (ts s)) (to_slot s cs)))"
    unfolding sum.distrib[symmetric] by (intro sum.cong) (auto simp: ec to_slot_def)
  have h: "edge_ip ip tn ts e c = (\<Sum>n \<in> N. if e_node e = Some n then ip c (tn n) else 0)
      + (\<Sum>s \<in> S. if e_node e = None \<and> e_slot e = Some s then ip c (ts s) else 0)"
    using Cons.prems assms(2,3) by (cases "e_node e"; cases "e_slot e") (auto simp: ec edge_ip_def)
  have "contribs_ip ip tn ts (ec # cs) = edge_ip ip tn ts e c + contribs_ip ip tn ts cs"
    by (simp add: ec contribs_ip_def)
  then show ?case unfolding n s h using Cons by (simp add: algebra_simps)
qed

text \<open>The pass over an order, from gradients that satisfy its equations.\<close>

lemma all_contribs_ip:
  assumes ag: "adjoint_graph ty ip sh tan g"
  shows "\<forall>n \<in> set order. g n \<noteq> None \<Longrightarrow> \<forall>n \<in> set order. \<forall>x. U n = Some x \<longrightarrow> ty (sh n) x \<Longrightarrow>
    contribs_ip ip tan tan (all_contribs g U order) = sum_list (map (\<lambda>n. opt_ip ip (U n) (tan n)) order)"
proof (induction order)
  case Nil
  then show ?case by (simp add: all_contribs_def contribs_ip_def)
next
  case (Cons n order)
  obtain nd where nd: "g n = Some nd" using Cons.prems(1) by auto
  have "contribs_ip ip tan tan (case (U n, g n) of (Some x, Some nd) \<Rightarrow> contribs nd x | _ \<Rightarrow> []) = opt_ip ip (U n) (tan n)"
    using node_adjoint[OF ag nd] Cons.prems(2) by (cases "U n") (simp_all add: nd opt_ip_def contribs_ip_def)
  then show ?case using Cons by (simp add: all_contribs_Cons contribs_ip_def)
qed

lemma all_contribs_typed:
  assumes ag: "adjoint_graph ty ip sh tan g" and U: "\<forall>n \<in> set order. \<forall>x. U n = Some x \<longrightarrow> ty (sh n) x" and ec: "(e, c) \<in> set (all_contribs g U order)"
  shows "edge_type (\<lambda>m. ty (sh m)) (\<lambda>m. ty (sh m)) e c" "\<exists>p \<in> set order. \<forall>m. e_node e = Some m \<longrightarrow> child_of g p m"
proof -
  obtain p where p: "p \<in> set order" "(e, c) \<in> set (case (U p, g p) of (Some x, Some nd) \<Rightarrow> contribs nd x | _ \<Rightarrow> [])"
    using ec by (auto simp: all_contribs_def)
  then obtain x nd where x: "U p = Some x" "g p = Some nd" "(e, c) \<in> set (contribs nd x)"
    by (cases "U p"; cases "g p") auto
  show "edge_type (\<lambda>m. ty (sh m)) (\<lambda>m. ty (sh m)) e c" using contribs_typed[OF ag x(2)] U p(1) x(1,3) by blast
  show "\<exists>p \<in> set order. \<forall>m. e_node e = Some m \<longrightarrow> child_of g p m"
    using p(1) contribs_children[where g = g and p = p and nd = nd and e = e and c = c and x = x, OF x(2,3)] by blast
qed

lemma pass_is_adjoint:
  assumes ok: "graph_ok g" and ag: "adjoint_graph ty ip sh tan g" and root: "g root \<noteq> None" "ty (sh root) seed"
    and order: "set order = {n. reachable g root n}" "distinct order"
    and U: "\<forall>n \<in> set order. U n = osum f (if n = root then Some seed else None) (to_node n (all_contribs g U order))"
    and slots: "\<forall>s. new s = osum f (old s) (to_slot s (all_contribs g U order))" "\<And>s x. old s = Some x \<Longrightarrow> ty (sh s) x"
    and typedU: "\<forall>n \<in> set order. \<forall>x. U n = Some x \<longrightarrow> ty (sh n) x"
    and S: "finite S" "\<And>n nd e s. reachable g root n \<Longrightarrow> g n = Some nd \<Longrightarrow> e \<in> set (n_edges nd) \<Longrightarrow> e_node e = None \<Longrightarrow> e_slot e = Some s \<Longrightarrow> s \<in> S"
  shows "(\<Sum>s \<in> S. opt_ip ip (new s) (tan s) - opt_ip ip (old s) (tan s)) = ip seed (tan root)"
proof -
  let ?C = "all_contribs g U order"
  have nodes: "g n \<noteq> None" if "n \<in> set order" for n
    using that order(1) root(1) ok by (auto simp: graph_ok_def elim: reachable.cases)
  have edges: "(\<forall>m. e_node e = Some m \<longrightarrow> m \<in> set order) \<and> (\<forall>s. e_node e = None \<longrightarrow> e_slot e = Some s \<longrightarrow> s \<in> S)"
    if ec: "(e, c) \<in> set ?C" for e c
  proof (intro conjI allI impI)
    fix m assume "e_node e = Some m"
    with all_contribs_typed(2)[OF ag typedU ec] obtain p where "p \<in> set order" "child_of g p m" by blast
    then show "m \<in> set order" using order(1) by (auto intro: reach_step)
  next
    fix s assume e: "e_node e = None" "e_slot e = Some s"
    obtain p where p: "p \<in> set order" "(e, c) \<in> set (case (U p, g p) of (Some x, Some nd) \<Rightarrow> contribs nd x | _ \<Rightarrow> [])"
      using ec by (auto simp: all_contribs_def)
    then obtain x nd where x: "g p = Some nd" "(e, c) \<in> set (contribs nd x)" by (cases "U p"; cases "g p") auto
    then have "e \<in> set (n_edges nd)"
      by (auto simp: contribs_def some_contribs_def map_filter_def dest: set_zip_leftD split: option.splits)
    then show "s \<in> S" using S(2) p(1) order(1) x(1) e by blast
  qed
  have tyn: "list_all (ty (sh n)) (to_node n ?C)" for n
    using all_contribs_typed(1)[OF ag typedU] by (fastforce simp: list_all_iff to_node_def edge_type_def)
  have tys: "list_all (ty (sh s)) (to_slot s ?C)" for s
    using all_contribs_typed(1)[OF ag typedU] by (fastforce simp: list_all_iff to_slot_def edge_type_def)
  have node_sum: "opt_ip ip (U n) (tan n) = (if n = root then ip seed (tan n) else 0) + sum_list (map (\<lambda>c. ip c (tan n)) (to_node n ?C))"
    if "n \<in> set order" for n
    proof -
    let ?s = "if n = root then Some seed else None"
    have "opt_ip ip (U n) (tan n) = opt_ip ip ?s (tan n) + sum_list (map (\<lambda>c. ip c (tan n)) (to_node n ?C))"
      using U that osum_ip[OF adds_ty ip_add _ tyn, where start = ?s] root(2) by (auto split: if_splits)
    then show ?thesis by (simp add: opt_ip_def)
  qed
  have slot_sum: "opt_ip ip (new s) (tan s) - opt_ip ip (old s) (tan s) = sum_list (map (\<lambda>c. ip c (tan s)) (to_slot s ?C))" for s
    using slots(1) osum_ip[OF adds_ty ip_add _ tys, where start = "old s"] slots(2) by simp
  have "sum_list (map (\<lambda>n. opt_ip ip (U n) (tan n)) order) = (\<Sum>n \<in> set order. opt_ip ip (U n) (tan n))"
    using order(2) by (simp add: sum_list_distinct_conv_sum_set)
  also have "\<dots> = (\<Sum>n \<in> set order. if n = root then ip seed (tan n) else 0) + (\<Sum>n \<in> set order. sum_list (map (\<lambda>c. ip c (tan n)) (to_node n ?C)))"
    unfolding sum.distrib[symmetric] by (intro sum.cong node_sum refl)
  also have "(\<Sum>n \<in> set order. if n = root then ip seed (tan n) else 0) = ip seed (tan root)"
    unfolding sum.delta[OF finite_set] using order(1) reach_refl[of g root] by simp
  finally have "contribs_ip ip tan tan ?C = ip seed (tan root) + (\<Sum>n \<in> set order. sum_list (map (\<lambda>c. ip c (tan n)) (to_node n ?C)))"
    using all_contribs_ip[OF ag _ typedU] nodes by simp
  moreover have "contribs_ip ip tan tan ?C = (\<Sum>n \<in> set order. sum_list (map (\<lambda>c. ip c (tan n)) (to_node n ?C)))
      + (\<Sum>s \<in> S. sum_list (map (\<lambda>c. ip c (tan s)) (to_slot s ?C)))"
    using edges by (intro sum_by_target S(1)) auto
  ultimately show ?thesis by (simp add: slot_sum)
qed

lemma pass_slots_typed:
  assumes ag: "adjoint_graph ty ip sh tan g" and old: "\<And>x. old s = Some x \<Longrightarrow> ty (sh s) x"
    and new: "new s = osum f (old s) (to_slot s (all_contribs g U order))"
    and U: "\<forall>n \<in> set order. \<forall>x. U n = Some x \<longrightarrow> ty (sh n) x"
  shows "new s = Some x \<Longrightarrow> ty (sh s) x"
proof -
  have osum: "list_all (ty r) cs \<Longrightarrow> (\<And>x. start = Some x \<Longrightarrow> ty r x) \<Longrightarrow> osum f start cs = Some x \<Longrightarrow> ty r x" for r start cs x
  proof (induction cs arbitrary: start)
    case (Cons c cs)
    have "ty r (case start of None \<Rightarrow> c | Some a \<Rightarrow> f a c)"
      using Cons.prems(1,2) addsT[OF adds_ty] by (auto split: option.splits)
    then show ?case using Cons.IH[of "Some (case start of None \<Rightarrow> c | Some a \<Rightarrow> f a c)"] Cons.prems(1,3) by simp
  qed simp
  have "list_all (ty (sh s)) (to_slot s (all_contribs g U order))"
    using all_contribs_typed(1)[OF ag U] by (fastforce simp: list_all_iff to_slot_def edge_type_def)
  then show "new s = Some x \<Longrightarrow> ty (sh s) x" using osum old new by metis
qed

text \<open>The backward pass of a heap.\<close>

lemma backward_adjoint:
  assumes ok: "graph_ok (h_nodes h)" and ag: "adjoint_graph ty ip sh tan (h_nodes h)"
    and root: "v_grad_fn out = Some root" "h_nodes h root \<noteq> None" "ty (sh root) seed"
    and old: "\<And>s x. h_grad h s = Some x \<Longrightarrow> ty (sh s) x"
    and S: "finite S" "\<And>n nd e s. h_nodes h n = Some nd \<Longrightarrow> e \<in> set (n_edges nd) \<Longrightarrow> e_node e = None \<Longrightarrow> e_slot e = Some s \<Longrightarrow> s \<in> S"
  shows "\<exists>h'. backward add ones_like out (Some seed) h = Some (None, h')
    \<and> (\<Sum>s \<in> S. opt_ip ip (h_grad h' s) (tan s) - opt_ip ip (h_grad h s) (tan s)) = ip seed (tan root)
    \<and> (\<forall>s x. h_grad h' s = Some x \<longrightarrow> ty (sh s) x)"
proof -
  obtain order U h' where r: "backward add ones_like out (Some seed) h = Some (None, h')"
    "set order = {n. reachable (h_nodes h) root n}" "parents_first (h_nodes h) order"
    "\<forall>n \<in> set order. U n = osum f (if n = root then Some seed else None) (to_node n (all_contribs (h_nodes h) U order))"
    "\<forall>s. h_grad h' s = osum f (h_grad h s) (to_slot s (all_contribs (h_nodes h) U order))"
    "\<forall>n \<in> set order. \<forall>x. U n = Some x \<longrightarrow> ty (sh n) x"
    using backward_pass[OF ok graph_typed_of_adjoint[OF ag] root(1,2,3) old] by blast
  have "distinct order" using r(3) by (induction order) auto
  note sums = pass_is_adjoint[OF ok ag root(2,3) r(2) this r(4,5) old r(6) S(1)]
  have "ty (sh s) x" if "h_grad h' s = Some x" for s x
  proof (rule pass_slots_typed[where old = "h_grad h" and new = "h_grad h'" and s = s, OF ag])
    show "h_grad h' s = osum f (h_grad h s) (to_slot s (all_contribs (h_nodes h) U order))" using r(5) by blast
  qed (use old r(6) that in blast)+
  then show ?thesis using sums S(2) r(1) by blast
qed

end

end
