(* ===== verification/Ops.thy ===== *)
theory Ops
  imports Dense Adjoint
begin

text \<open>
  The differentiable operations: \<open>ops.rs\<close> of \<open>rustorch-autograd\<close> with the dispatch of
  \<open>dispatch.rs\<close> and \<open>broadcast.rs\<close>, in a build without GPU features and for variables whose tensors
  are dense.  Each operation has the function \<open>apply\<close> of its node (\<open>relu_apply\<close> for \<open>ReluBackward\<close>)
  and the function that computes the output and, when gradients are enabled and an input requires one,
  records the node (\<open>op_relu\<close>).  \<open>None\<close> is a panic.
\<close>

section \<open>Dispatch and recording\<close>

type_synonym 'v node_fn = "'v dense \<Rightarrow> 'v dense option list option"

type_synonym 'v op_result = "((backward_error + variable) \<times> 'v dense heap) option"

text \<open>Only the CPU backend is compiled in: a tensor of another device panics.\<close>

definition pick_backend :: "device \<Rightarrow> 'a option \<Rightarrow> 'a option" where
  "pick_backend dev r = (if dev = Cpu then r else None)"

text \<open>\<open>pick_backend(dev).op(..).expect(..)\<close>\<close>

definition expect1 :: "device \<Rightarrow> (tensor \<Rightarrow> 'v theap \<Rightarrow> 'v kernel_result) \<Rightarrow> 'v dense \<Rightarrow> 'v dense option" where
  "expect1 dev K a = ok_or_panic (pick_backend dev (run1 K a))"

definition expect2 ::
  "device \<Rightarrow> (tensor \<Rightarrow> tensor \<Rightarrow> 'v theap \<Rightarrow> 'v kernel_result) \<Rightarrow> 'v dense \<Rightarrow> 'v dense \<Rightarrow> 'v dense option" where
  "expect2 dev K a b = ok_or_panic (pick_backend dev (run2 K a b))"

definition backend_err :: "string \<Rightarrow> backend_error \<Rightarrow> backward_error" where
  "backend_err op e = Backend op (BackendText (show_backend_error e))"

definition unbroadcast_grad :: "'v num_ops \<Rightarrow> device \<Rightarrow> 'v dense \<Rightarrow> shape \<Rightarrow> 'v dense option" where
  "unbroadcast_grad nm dev grad target = expect1 dev (\<lambda>t. unbroadcast_to nm t target) grad"

text \<open>The new variable, with a node when it is tracked.\<close>

definition attach ::
  "string \<Rightarrow> 'v node_fn \<Rightarrow> variable list \<Rightarrow> 'v dense \<Rightarrow> 'v dense heap \<Rightarrow> variable \<times> 'v dense heap" where
  "attach name ap inputs out h =
     (let (v, h1) = var_new out h in
      if is_grad_enabled h1 \<and> list_ex v_requires_grad inputs
      then (v\<lparr>v_grad_fn := Some (h_next h1), v_requires_grad := True\<rparr>,
            h1\<lparr>h_nodes := (h_nodes h1)(h_next h1 \<mapsto> \<lparr>n_name = name, n_apply = ap, n_edges = map var_edge inputs\<rparr>),
               h_next := Suc (h_next h1)\<rparr>)
      else (v, h1))"

definition finish_op ::
  "string \<Rightarrow> string \<Rightarrow> ('v dense \<Rightarrow> 'v node_fn) \<Rightarrow> variable list \<Rightarrow> 'v dense_result \<Rightarrow> 'v dense heap \<Rightarrow> 'v op_result" where
  "finish_op op name mk inputs r h =
     (case r of
        None \<Rightarrow> None
      | Some (Inl e) \<Rightarrow> Some (Inl (backend_err op e), h)
      | Some (Inr out) \<Rightarrow> (let (v, h') = attach name (mk out) inputs out h in Some (Inr v, h')))"

text \<open>
  The common form of the operations of one and of two variables; \<open>mk\<close> makes \<open>apply\<close> from the input
  tensors, the device and the output.
\<close>

definition unary_op ::
  "string \<Rightarrow> string \<Rightarrow> (tensor \<Rightarrow> 'v theap \<Rightarrow> 'v kernel_result) \<Rightarrow> ('v dense \<Rightarrow> device \<Rightarrow> 'v dense \<Rightarrow> 'v node_fn)
    \<Rightarrow> variable \<Rightarrow> 'v dense heap \<Rightarrow> 'v op_result" where
  "unary_op op name K mk src h =
     (case var_tensor src h of
        None \<Rightarrow> None
      | Some x \<Rightarrow> finish_op op name (mk x (d_device x)) [src] (pick_backend (d_device x) (run1 K x)) h)"

definition binary_op ::
  "string \<Rightarrow> string \<Rightarrow> (tensor \<Rightarrow> tensor \<Rightarrow> 'v theap \<Rightarrow> 'v kernel_result)
    \<Rightarrow> ('v dense \<Rightarrow> 'v dense \<Rightarrow> device \<Rightarrow> 'v dense \<Rightarrow> 'v node_fn) \<Rightarrow> variable \<Rightarrow> variable \<Rightarrow> 'v dense heap \<Rightarrow> 'v op_result" where
  "binary_op op name K mk lhs rhs h =
     (case (var_tensor lhs h, var_tensor rhs h) of
        (Some l, Some r) \<Rightarrow>
          (case require_same_device_2 op (d_device l) (d_device r) of
             Inl e \<Rightarrow> Some (Inl e, h)
           | Inr dev \<Rightarrow> finish_op op name (mk l r dev) [lhs, rhs] (pick_backend dev (run2 K l r)) h)
      | _ \<Rightarrow> None)"

section \<open>Arithmetic with broadcasting\<close>

definition add_apply :: "'v num_ops \<Rightarrow> shape \<Rightarrow> shape \<Rightarrow> device \<Rightarrow> 'v node_fn" where
  "add_apply nm lhs_shape rhs_shape dev grad = do {
     g_lhs \<leftarrow> unbroadcast_grad nm dev grad lhs_shape;
     g_rhs \<leftarrow> unbroadcast_grad nm dev grad rhs_shape;
     Some [Some g_lhs, Some g_rhs] }"

definition op_add :: "'v num_ops \<Rightarrow> variable \<Rightarrow> variable \<Rightarrow> 'v dense heap \<Rightarrow> 'v op_result" where
  "op_add nm = binary_op ''add'' ''AddBackward'' (cpu_add nm)
     (\<lambda>l r dev out. add_apply nm (d_shape l) (d_shape r) dev)"

definition sub_apply :: "'v num_ops \<Rightarrow> shape \<Rightarrow> shape \<Rightarrow> device \<Rightarrow> 'v node_fn" where
  "sub_apply nm lhs_shape rhs_shape dev grad = do {
     neg_grad \<leftarrow> expect1 dev (cpu_neg nm) grad;
     g_lhs \<leftarrow> unbroadcast_grad nm dev grad lhs_shape;
     g_rhs \<leftarrow> unbroadcast_grad nm dev neg_grad rhs_shape;
     Some [Some g_lhs, Some g_rhs] }"

definition op_sub :: "'v num_ops \<Rightarrow> variable \<Rightarrow> variable \<Rightarrow> 'v dense heap \<Rightarrow> 'v op_result" where
  "op_sub nm = binary_op ''sub'' ''SubBackward'' (cpu_sub nm)
     (\<lambda>l r dev out. sub_apply nm (d_shape l) (d_shape r) dev)"

definition mul_apply :: "'v num_ops \<Rightarrow> 'v dense \<Rightarrow> 'v dense \<Rightarrow> device \<Rightarrow> 'v node_fn" where
  "mul_apply nm lhs_saved rhs_saved dev grad = do {
     g_lhs_raw \<leftarrow> expect2 dev (cpu_mul nm) grad rhs_saved;
     g_rhs_raw \<leftarrow> expect2 dev (cpu_mul nm) grad lhs_saved;
     g_lhs \<leftarrow> unbroadcast_grad nm dev g_lhs_raw (d_shape lhs_saved);
     g_rhs \<leftarrow> unbroadcast_grad nm dev g_rhs_raw (d_shape rhs_saved);
     Some [Some g_lhs, Some g_rhs] }"

definition op_mul :: "'v num_ops \<Rightarrow> variable \<Rightarrow> variable \<Rightarrow> 'v dense heap \<Rightarrow> 'v op_result" where
  "op_mul nm = binary_op ''mul'' ''MulBackward'' (cpu_mul nm) (\<lambda>l r dev out. mul_apply nm l r dev)"

definition div_apply :: "'v num_ops \<Rightarrow> 'v dense \<Rightarrow> 'v dense \<Rightarrow> device \<Rightarrow> 'v node_fn" where
  "div_apply nm lhs_saved rhs_saved dev grad = do {
     g_lhs_raw \<leftarrow> expect2 dev (cpu_div nm) grad rhs_saved;
     rhs_sq \<leftarrow> expect2 dev (cpu_mul nm) rhs_saved rhs_saved;
     lhs_grad \<leftarrow> expect2 dev (cpu_mul nm) lhs_saved grad;
     div_term \<leftarrow> expect2 dev (cpu_div nm) lhs_grad rhs_sq;
     g_rhs_raw \<leftarrow> expect1 dev (cpu_neg nm) div_term;
     g_lhs \<leftarrow> unbroadcast_grad nm dev g_lhs_raw (d_shape lhs_saved);
     g_rhs \<leftarrow> unbroadcast_grad nm dev g_rhs_raw (d_shape rhs_saved);
     Some [Some g_lhs, Some g_rhs] }"

definition op_div :: "'v num_ops \<Rightarrow> variable \<Rightarrow> variable \<Rightarrow> 'v dense heap \<Rightarrow> 'v op_result" where
  "op_div nm = binary_op ''div'' ''DivBackward'' (cpu_div nm) (\<lambda>l r dev out. div_apply nm l r dev)"

definition neg_apply :: "'v num_ops \<Rightarrow> device \<Rightarrow> 'v node_fn" where
  "neg_apply nm dev grad = do { g \<leftarrow> expect1 dev (cpu_neg nm) grad; Some [Some g] }"

definition op_neg :: "'v num_ops \<Rightarrow> variable \<Rightarrow> 'v dense heap \<Rightarrow> 'v op_result" where
  "op_neg nm = unary_op ''neg'' ''NegBackward'' (cpu_neg nm) (\<lambda>x dev out. neg_apply nm dev)"

section \<open>Activations and elementary functions\<close>

definition scalar_two :: "'v num_ops \<Rightarrow> 'v dense" where
  "scalar_two nm = dense_scalar (nm_nat nm 2)"

abbreviation scalar_one :: "'v num_ops \<Rightarrow> 'v dense" where
  "scalar_one nm \<equiv> dense_scalar (nm_one nm F32)"

definition relu_apply :: "'v num_ops \<Rightarrow> 'v dense \<Rightarrow> device \<Rightarrow> 'v node_fn" where
  "relu_apply nm saved dev grad = do {
     mask \<leftarrow> expect2 dev (cpu_gt nm) saved (dense_scalar (nm_zero nm F32));
     mask_f \<leftarrow> dense_to_dtype nm mask (d_dtype grad);
     g \<leftarrow> expect2 dev (cpu_mul nm) grad mask_f;
     Some [Some g] }"

definition op_relu :: "'v num_ops \<Rightarrow> variable \<Rightarrow> 'v dense heap \<Rightarrow> 'v op_result" where
  "op_relu nm = unary_op ''relu'' ''ReluBackward'' (cpu_relu nm) (\<lambda>x dev out. relu_apply nm x dev)"

definition sigmoid_apply :: "'v num_ops \<Rightarrow> 'v dense \<Rightarrow> device \<Rightarrow> 'v node_fn" where
  "sigmoid_apply nm saved_out dev grad = do {
     one_minus \<leftarrow> expect2 dev (cpu_sub nm) (scalar_one nm) saved_out;
     s_times_one_minus \<leftarrow> expect2 dev (cpu_mul nm) saved_out one_minus;
     g \<leftarrow> expect2 dev (cpu_mul nm) grad s_times_one_minus;
     Some [Some g] }"

definition op_sigmoid :: "'v num_ops \<Rightarrow> variable \<Rightarrow> 'v dense heap \<Rightarrow> 'v op_result" where
  "op_sigmoid nm = unary_op ''sigmoid'' ''SigmoidBackward'' (cpu_sigmoid nm) (\<lambda>x dev out. sigmoid_apply nm out dev)"

definition tanh_apply :: "'v num_ops \<Rightarrow> 'v dense \<Rightarrow> device \<Rightarrow> 'v node_fn" where
  "tanh_apply nm saved_out dev grad = do {
     sq \<leftarrow> expect2 dev (cpu_mul nm) saved_out saved_out;
     one_minus_sq \<leftarrow> expect2 dev (cpu_sub nm) (scalar_one nm) sq;
     g \<leftarrow> expect2 dev (cpu_mul nm) grad one_minus_sq;
     Some [Some g] }"

definition op_tanh :: "'v num_ops \<Rightarrow> variable \<Rightarrow> 'v dense heap \<Rightarrow> 'v op_result" where
  "op_tanh nm = unary_op ''tanh'' ''TanhBackward'' (cpu_tanh nm) (\<lambda>x dev out. tanh_apply nm out dev)"

definition silu_apply :: "'v num_ops \<Rightarrow> 'v dense \<Rightarrow> device \<Rightarrow> 'v node_fn" where
  "silu_apply nm saved_input dev grad = do {
     s \<leftarrow> expect1 dev (cpu_sigmoid nm) saved_input;
     one_minus_s \<leftarrow> expect2 dev (cpu_sub nm) (scalar_one nm) s;
     x_one_minus_s \<leftarrow> expect2 dev (cpu_mul nm) saved_input one_minus_s;
     inner \<leftarrow> expect2 dev (cpu_add nm) (scalar_one nm) x_one_minus_s;
     local \<leftarrow> expect2 dev (cpu_mul nm) s inner;
     g \<leftarrow> expect2 dev (cpu_mul nm) grad local;
     Some [Some g] }"

definition op_silu :: "'v num_ops \<Rightarrow> variable \<Rightarrow> 'v dense heap \<Rightarrow> 'v op_result" where
  "op_silu nm = unary_op ''silu'' ''SiluBackward'' (cpu_silu nm) (\<lambda>x dev out. silu_apply nm x dev)"

text \<open>The loops of \<open>leaky_relu\<close> and \<open>abs\<close> over the two slices.\<close>

definition scale_elems :: "('v \<Rightarrow> 'v) \<Rightarrow> ('v \<Rightarrow> 'v \<Rightarrow> 'v) \<Rightarrow> 'v dense \<Rightarrow> 'v node_fn" where
  "scale_elems factor pr saved_input grad = do {
     x \<leftarrow> f32_slice saved_input;
     g \<leftarrow> f32_slice grad;
     out \<leftarrow> those (map (\<lambda>i. do { gi \<leftarrow> get_elem g i; Some (pr gi (factor (x ! i))) }) [0..<length x]);
     g_t \<leftarrow> ok_or_panic (Some (dense_from_vec (d_shape saved_input) out));
     Some [Some g_t] }"

definition leaky_relu_apply :: "'v num_ops \<Rightarrow> 'v dense \<Rightarrow> 'v \<Rightarrow> 'v node_fn" where
  "leaky_relu_apply nm saved_input slope =
     scale_elems (\<lambda>x. if nm_less nm F32 (nm_zero nm F32) x then nm_one nm F32 else nm_f32 nm slope) (nm_mul nm F32) saved_input"

definition op_leaky_relu :: "'v num_ops \<Rightarrow> 'v \<Rightarrow> variable \<Rightarrow> 'v dense heap \<Rightarrow> 'v op_result" where
  "op_leaky_relu nm slope = unary_op ''leaky_relu'' ''LeakyReluBackward'' (\<lambda>t. cpu_leaky_relu nm t slope)
     (\<lambda>x dev out. leaky_relu_apply nm x slope)"

definition exp_apply :: "'v num_ops \<Rightarrow> 'v dense \<Rightarrow> device \<Rightarrow> 'v node_fn" where
  "exp_apply nm saved_out dev grad = do { g \<leftarrow> expect2 dev (cpu_mul nm) grad saved_out; Some [Some g] }"

definition op_exp :: "'v num_ops \<Rightarrow> variable \<Rightarrow> 'v dense heap \<Rightarrow> 'v op_result" where
  "op_exp nm = unary_op ''exp'' ''ExpBackward'' (cpu_exp nm) (\<lambda>x dev out. exp_apply nm out dev)"

definition log_apply :: "'v num_ops \<Rightarrow> 'v dense \<Rightarrow> device \<Rightarrow> 'v node_fn" where
  "log_apply nm saved_input dev grad = do { g \<leftarrow> expect2 dev (cpu_div nm) grad saved_input; Some [Some g] }"

definition op_log :: "'v num_ops \<Rightarrow> variable \<Rightarrow> 'v dense heap \<Rightarrow> 'v op_result" where
  "op_log nm = unary_op ''log'' ''LogBackward'' (cpu_log nm) (\<lambda>x dev out. log_apply nm x dev)"

definition sqrt_apply :: "'v num_ops \<Rightarrow> 'v dense \<Rightarrow> device \<Rightarrow> 'v node_fn" where
  "sqrt_apply nm saved_out dev grad = do {
     two_out \<leftarrow> expect2 dev (cpu_mul nm) (scalar_two nm) saved_out;
     g \<leftarrow> expect2 dev (cpu_div nm) grad two_out;
     Some [Some g] }"

definition op_sqrt :: "'v num_ops \<Rightarrow> variable \<Rightarrow> 'v dense heap \<Rightarrow> 'v op_result" where
  "op_sqrt nm = unary_op ''sqrt'' ''SqrtBackward'' (cpu_sqrt nm) (\<lambda>x dev out. sqrt_apply nm out dev)"

definition abs_apply :: "'v num_ops \<Rightarrow> 'v dense \<Rightarrow> 'v node_fn" where
  "abs_apply nm saved_input =
     scale_elems (\<lambda>x. if nm_less nm F32 (nm_zero nm F32) x then nm_one nm F32
        else if nm_less nm F32 x (nm_zero nm F32) then nm_neg nm F32 (nm_one nm F32) else nm_zero nm F32)
       (nm_mul nm F32) saved_input"

definition op_abs :: "'v num_ops \<Rightarrow> variable \<Rightarrow> 'v dense heap \<Rightarrow> 'v op_result" where
  "op_abs nm = unary_op ''abs'' ''AbsBackward'' (cpu_abs nm) (\<lambda>x dev out. abs_apply nm x)"

definition pow_scalar_apply :: "'v num_ops \<Rightarrow> 'v dense \<Rightarrow> 'v \<Rightarrow> device \<Rightarrow> 'v node_fn" where
  "pow_scalar_apply nm saved_input e dev grad = do {
     xn1 \<leftarrow> expect1 dev (\<lambda>t. cpu_pow_scalar nm t (nm_sub nm F64 e (nm_one nm F64))) saved_input;
     scaled \<leftarrow> expect2 dev (cpu_mul nm) (dense_scalar (nm_f32 nm e)) xn1;
     g \<leftarrow> expect2 dev (cpu_mul nm) grad scaled;
     Some [Some g] }"

definition op_pow_scalar :: "'v num_ops \<Rightarrow> 'v \<Rightarrow> variable \<Rightarrow> 'v dense heap \<Rightarrow> 'v op_result" where
  "op_pow_scalar nm e = unary_op ''pow_scalar'' ''PowScalarBackward'' (\<lambda>t. cpu_pow_scalar nm t e)
     (\<lambda>x dev out. pow_scalar_apply nm x e dev)"

section \<open>Sums and means\<close>

text \<open>The scalar gradient spread over the input: \<open>as_slice()[0]\<close> panics on an empty gradient.\<close>

definition first_elem :: "'v dense \<Rightarrow> 'v option" where
  "first_elem grad = do { g \<leftarrow> f32_slice grad; get_elem g 0 }"

definition sum_apply :: "shape \<Rightarrow> 'v node_fn" where
  "sum_apply in_shape grad = do {
     let n = (if in_shape = [] then 1 else numel in_shape);
     g_scalar \<leftarrow> first_elem grad;
     g_full \<leftarrow> ok_or_panic (Some (dense_from_vec in_shape (replicate n g_scalar)));
     Some [Some g_full] }"

definition op_sum :: "'v num_ops \<Rightarrow> variable \<Rightarrow> 'v dense heap \<Rightarrow> 'v op_result" where
  "op_sum nm = unary_op ''sum'' ''SumBackward'' (sum_all (nm_reduce nm)) (\<lambda>x dev out. sum_apply (d_shape x))"

definition mean_apply :: "'v num_ops \<Rightarrow> shape \<Rightarrow> nat \<Rightarrow> 'v node_fn" where
  "mean_apply nm in_shape n grad = do {
     g0 \<leftarrow> first_elem grad;
     g_full \<leftarrow> ok_or_panic (Some (dense_from_vec in_shape (replicate n (ro_div_n (nm_reduce nm) F32 g0 n))));
     Some [Some g_full] }"

definition op_mean :: "'v num_ops \<Rightarrow> variable \<Rightarrow> 'v dense heap \<Rightarrow> 'v op_result" where
  "op_mean nm = unary_op ''mean'' ''MeanBackward'' (mean_all (nm_reduce nm))
     (\<lambda>x dev out. mean_apply nm (d_shape x) (numel (d_shape x)))"

definition mean_dim_apply :: "'v num_ops \<Rightarrow> shape \<Rightarrow> nat \<Rightarrow> device \<Rightarrow> 'v node_fn" where
  "mean_dim_apply nm in_shape n_reduced dev grad = do {
     let inv_n = ro_div_n (nm_reduce nm) F32 (nm_one nm F32) n_reduced;
     scaled_ones \<leftarrow> ok_or_panic (Some (dense_from_vec in_shape (replicate (numel in_shape) inv_n)));
     g \<leftarrow> expect2 dev (cpu_mul nm) grad scaled_ones;
     Some [Some g] }"

definition op_mean_dim :: "'v num_ops \<Rightarrow> nat list \<Rightarrow> variable \<Rightarrow> 'v dense heap \<Rightarrow> 'v op_result" where
  "op_mean_dim nm dims = unary_op ''mean_dim'' ''MeanDimBackward'' (\<lambda>t. mean_dim (nm_reduce nm) t dims True)
     (\<lambda>x dev out. mean_dim_apply nm (d_shape x) (prod_list (map (\<lambda>d. d_shape x ! d) dims)) dev)"

section \<open>Matrices\<close>

definition matmul_apply :: "'v num_ops \<Rightarrow> 'v dense \<Rightarrow> 'v dense \<Rightarrow> device \<Rightarrow> 'v node_fn" where
  "matmul_apply nm lhs_saved rhs_saved dev grad = do {
     g_lhs \<leftarrow> expect2 dev (\<lambda>t u. matmul_with_transposes nm t u False True) grad rhs_saved;
     g_rhs \<leftarrow> expect2 dev (\<lambda>t u. matmul_with_transposes nm t u True False) lhs_saved grad;
     Some [Some g_lhs, Some g_rhs] }"

definition op_matmul :: "'v num_ops \<Rightarrow> variable \<Rightarrow> variable \<Rightarrow> 'v dense heap \<Rightarrow> 'v op_result" where
  "op_matmul nm = binary_op ''matmul'' ''MatMulBackward'' (cpu_matmul nm) (\<lambda>l r dev out. matmul_apply nm l r dev)"

definition add_bias_apply :: "'v num_ops \<Rightarrow> device \<Rightarrow> 'v node_fn" where
  "add_bias_apply nm dev grad = do {
     g_bias \<leftarrow> expect1 dev (\<lambda>t. sum_dim (nm_reduce nm) t [0] False) grad;
     Some [Some grad, Some g_bias] }"

definition op_add_bias :: "'v num_ops \<Rightarrow> variable \<Rightarrow> variable \<Rightarrow> 'v dense heap \<Rightarrow> 'v op_result" where
  "op_add_bias nm x bias h =
     (case (var_tensor x h, var_tensor bias h) of
        (Some x_t, Some bias_t) \<Rightarrow>
          let xs = d_shape x_t; bs = d_shape bias_t in
          (case require_same_device_2 ''add_bias'' (d_device x_t) (d_device bias_t) of
             Inl e \<Rightarrow> Some (Inl e, h)
           | Inr dev \<Rightarrow>
               if length xs \<noteq> 2 \<or> length bs \<noteq> 1
               then Some (Inl (Backend ''add_bias'' (BackendText (''expected x: rank-2, bias: rank-1; got '' @
                      show_list xs @ '' and '' @ show_list bs))), h)
               else if bs \<noteq> [xs ! 1]
               then Some (Inl (Backend ''add_bias'' (BackendText (''bias shape '' @ show_list bs @
                      '' does not match x.shape[1] = '' @ show_nat (xs ! 1)))), h)
               else finish_op ''add_bias'' ''AddBiasBackward'' (\<lambda>out. add_bias_apply nm dev) [x, bias]
                      (pick_backend dev (run2 (cpu_add_bias nm) x_t bias_t)) h)
      | _ \<Rightarrow> None)"

definition linear_apply :: "'v num_ops \<Rightarrow> 'v dense \<Rightarrow> 'v dense \<Rightarrow> device \<Rightarrow> 'v node_fn" where
  "linear_apply nm x_saved w_saved dev grad = do {
     dx \<leftarrow> expect2 dev (\<lambda>t u. matmul_with_transposes nm t u False True) grad w_saved;
     dw \<leftarrow> expect2 dev (\<lambda>t u. matmul_with_transposes nm t u True False) x_saved grad;
     dbias \<leftarrow> expect1 dev (\<lambda>t. sum_dim (nm_reduce nm) t [0] False) grad;
     Some [Some dx, Some dw, Some dbias] }"

definition op_linear :: "'v num_ops \<Rightarrow> variable \<Rightarrow> variable \<Rightarrow> variable \<Rightarrow> 'v dense heap \<Rightarrow> 'v op_result" where
  "op_linear nm x w bias h =
     (case (var_tensor x h, var_tensor w h, var_tensor bias h) of
        (Some x_t, Some w_t, Some bias_t) \<Rightarrow>
          let xs = d_shape x_t; ws = d_shape w_t; bs = d_shape bias_t in
          (case require_same_device_3 ''linear'' (d_device x_t) (d_device w_t) (d_device bias_t) of
             Inl e \<Rightarrow> Some (Inl e, h)
           | Inr dev \<Rightarrow>
               if length xs \<noteq> 2 \<or> length ws \<noteq> 2 \<or> length bs \<noteq> 1
               then Some (Inl (Backend ''linear'' (BackendText (''expected x: rank-2, w: rank-2, bias: rank-1; got '' @
                      show_list xs @ '', '' @ show_list ws @ '', '' @ show_list bs))), h)
               else finish_op ''linear'' ''LinearBackward'' (\<lambda>out. linear_apply nm x_t w_t dev) [x, w, bias]
                      (pick_backend dev (run3 (matmul_with_bias nm) x_t w_t bias_t)) h)
      | _ \<Rightarrow> None)"

text \<open>\<open>bmm_grad_inputs\<close>: the two products of a batch, by the triple loops of the source.\<close>

definition bmm_grad_inputs ::
  "'v num_ops \<Rightarrow> 'v dense \<Rightarrow> 'v dense \<Rightarrow> 'v dense \<Rightarrow> ('v dense \<times> 'v dense) option" where
  "bmm_grad_inputs nm grad lhs rhs =
     (if length (d_shape lhs) < 3 \<or> length (d_shape rhs) < 3 then None
      else do {
        let b = d_shape lhs ! 0; let m = d_shape lhs ! 1; let k = d_shape lhs ! 2; let n = d_shape rhs ! 2;
        g \<leftarrow> f32_slice grad;
        l \<leftarrow> f32_slice lhs;
        r \<leftarrow> f32_slice rhs;
        da \<leftarrow> (if vec_with_capacity F32 (b * m * k) then
               those (map (\<lambda>(bi, i, kk). mul_acc nm F32 g r (\<lambda>j. bi * m * n + i * n + j) (\<lambda>j. bi * k * n + kk * n + j) n)
                 (List.product [0..<b] (List.product [0..<m] [0..<k]))) else None);
        db \<leftarrow> (if vec_with_capacity F32 (b * k * n) then
               those (map (\<lambda>(bi, kk, j). mul_acc nm F32 l g (\<lambda>i. bi * m * k + i * k + kk) (\<lambda>i. bi * m * n + i * n + j) m)
                 (List.product [0..<b] (List.product [0..<k] [0..<n]))) else None);
        da_t \<leftarrow> ok_or_panic (Some (dense_from_vec [b, m, k] da));
        db_t \<leftarrow> ok_or_panic (Some (dense_from_vec [b, k, n] db));
        Some (da_t, db_t) })"

definition bmm_apply :: "'v num_ops \<Rightarrow> 'v dense \<Rightarrow> 'v dense \<Rightarrow> 'v node_fn" where
  "bmm_apply nm lhs_saved rhs_saved grad = do {
     (da, db) \<leftarrow> bmm_grad_inputs nm grad lhs_saved rhs_saved;
     Some [Some da, Some db] }"

definition op_bmm :: "'v num_ops \<Rightarrow> variable \<Rightarrow> variable \<Rightarrow> 'v dense heap \<Rightarrow> 'v op_result" where
  "op_bmm nm = binary_op ''bmm'' ''BmmBackward'' (bmm_impl nm) (\<lambda>l r dev out. bmm_apply nm l r)"

section \<open>Changes of shape\<close>

text \<open>\<open>src.transpose(d0, d1)\<close> followed by \<open>contiguous()\<close>.\<close>

definition dense_transpose :: "'v dense \<Rightarrow> nat \<Rightarrow> nat \<Rightarrow> (view_error + 'v dense) option" where
  "dense_transpose a d0 d1 =
     (let (t, h) = load a no_tensors in
      case view_tensor t (CallTranspose d0 d1) h of
        (Inl ViewPanic, _) \<Rightarrow> None
      | (Inl ViewOverflow, _) \<Rightarrow> None
      | (Inl e, _) \<Rightarrow> Some (Inl e)
      | (Inr v, h1) \<Rightarrow>
          (case contiguous_tensor v h1 of
             None \<Rightarrow> None
           | Some (c, h2) \<Rightarrow> map_option Inr (unload c h2)))"

definition transpose_apply :: "nat \<Rightarrow> nat \<Rightarrow> 'v node_fn" where
  "transpose_apply d0 d1 grad = do { g \<leftarrow> ok_or_panic (dense_transpose grad d0 d1); Some [Some g] }"

definition op_transpose :: "nat \<Rightarrow> nat \<Rightarrow> variable \<Rightarrow> 'v dense heap \<Rightarrow> 'v op_result" where
  "op_transpose d0 d1 src h =
     (case var_tensor src h of
        None \<Rightarrow> None
      | Some x \<Rightarrow>
          (case dense_transpose x d0 d1 of
             None \<Rightarrow> None
           | Some (Inl e) \<Rightarrow> Some (Inl (Backend ''transpose'' (BackendText (show_view_error e))), h)
           | Some (Inr out) \<Rightarrow>
               finish_op ''transpose'' ''TransposeBackward'' (\<lambda>out. transpose_apply d0 d1) [src]
                 (Some (Inr (out\<lparr>d_device := d_device x\<rparr>))) h))"

definition reshape_apply :: "shape \<Rightarrow> 'v node_fn" where
  "reshape_apply in_shape grad = do {
     data \<leftarrow> f32_slice grad;
     g \<leftarrow> ok_or_panic (Some (dense_from_vec in_shape data));
     Some [Some g] }"

definition op_reshape :: "shape \<Rightarrow> variable \<Rightarrow> 'v dense heap \<Rightarrow> 'v op_result" where
  "op_reshape shape src h =
     (case var_tensor src h of
        None \<Rightarrow> None
      | Some x \<Rightarrow>
          case numel_u64 shape of
            None \<Rightarrow> None
          | Some n \<Rightarrow>
          if n \<noteq> numel (d_shape x)
          then Some (Inl (Backend ''reshape'' (BackendText (''shape '' @ show_list shape @ '' has '' @ show_nat n @
                 '' elements, src has '' @ show_nat (numel (d_shape x)) @ '' elements''))), h)
          else case f32_slice x of
            None \<Rightarrow> Some (Inl (Backend ''reshape'' (BackendText ''expected contiguous F32'')), h)
          | Some data \<Rightarrow>
              (case dense_from_vec shape data of
                 Inl SizeOverflow \<Rightarrow> None
               | Inl e \<Rightarrow> Some (Inl (Backend ''reshape'' (BackendText (show_tensor_error e))), h)
               | Inr out \<Rightarrow>
                   finish_op ''reshape'' ''ReshapeBackward'' (\<lambda>out. reshape_apply (d_shape x)) [src]
                     (Some (Inr (out\<lparr>d_device := d_device x\<rparr>))) h))"

section \<open>Rows by index\<close>

text \<open>The gradients of the rows, added at the rows they came from; \<open>idx\<close> are the indices as \<open>usize\<close>.\<close>

definition index_select_apply :: "'v num_ops \<Rightarrow> ('v \<Rightarrow> int) \<Rightarrow> shape \<Rightarrow> 'v dense \<Rightarrow> 'v node_fn" where
  "index_select_apply nm to_int in_shape indices grad =
     (if in_shape = [] then None
      else do {
        let v = hd in_shape; let row_size = max (prod_list (tl in_shape)) 1;
        g_data \<leftarrow> f32_slice grad;
        idx \<leftarrow> (if d_dtype indices = I64 then Some (map (\<lambda>x. as_usize (to_int x)) (d_elems indices)) else None);
        src_grad \<leftarrow> (if \<not> vec_with_capacity F32 (v * row_size) then None
          else fold_opt (\<lambda>(k, j) acc.
            case (get_elem acc (idx ! k * row_size + j), get_elem g_data (k * row_size + j)) of
              (Some a, Some g) \<Rightarrow> Some (acc[idx ! k * row_size + j := nm_add nm F32 a g])
            | _ \<Rightarrow> None) (List.product [0..<length idx] [0..<row_size]) (replicate (v * row_size) (nm_zero nm F32)));
        g_t \<leftarrow> ok_or_panic (Some (dense_from_vec in_shape src_grad));
        Some [Some g_t] })"

definition op_index_select ::
  "'v num_ops \<Rightarrow> ('v \<Rightarrow> int) \<Rightarrow> 'v dense \<Rightarrow> variable \<Rightarrow> 'v dense heap \<Rightarrow> 'v op_result" where
  "op_index_select nm to_int indices src h =
     (case var_tensor src h of
        None \<Rightarrow> None
      | Some x \<Rightarrow>
          finish_op ''index_select'' ''IndexSelectBackward'' (\<lambda>out. index_select_apply nm to_int (d_shape x) indices) [src]
            (pick_backend (d_device x) (run2 (\<lambda>t u. index_select to_int t 0 u) x indices)) h)"

section \<open>Normalisation by the norm\<close>

text \<open>\<open>l2_normalize_with_eps\<close>, composed of the operations above; an error of a step is the result.\<close>

definition and_then_op :: "'v op_result \<Rightarrow> (variable \<Rightarrow> 'v dense heap \<Rightarrow> 'v op_result) \<Rightarrow> 'v op_result" where
  "and_then_op r k = (case r of None \<Rightarrow> None | Some (Inl e, h) \<Rightarrow> Some (Inl e, h) | Some (Inr v, h) \<Rightarrow> k v h)"

definition op_l2_normalize :: "'v num_ops \<Rightarrow> 'v \<Rightarrow> nat \<Rightarrow> variable \<Rightarrow> 'v dense heap \<Rightarrow> 'v op_result" where
  "op_l2_normalize nm eps d src h =
     (case var_tensor src h of
        None \<Rightarrow> None
      | Some x \<Rightarrow>
          if d \<ge> length (d_shape x)
          then Some (Inl (Backend ''l2_normalize'' (BackendText (''dim '' @ show_nat d @ '' out of range for shape '' @
                 show_list (d_shape x)))), h)
          else and_then_op (op_mul nm src src h) (\<lambda>square h.
               and_then_op (op_mean_dim nm [d] square h) (\<lambda>mean_sq h.
               (let (n_scalar, h) = var_new ((dense_scalar (nm_nat nm (d_shape x ! d)))\<lparr>d_device := d_device x\<rparr>) h in
               and_then_op (op_mul nm mean_sq n_scalar h) (\<lambda>sum_sq h.
               (let (eps_scalar, h) = var_new ((dense_scalar eps)\<lparr>d_device := d_device x\<rparr>) h in
               and_then_op (op_add nm sum_sq eps_scalar h) (\<lambda>norm_sq h.
               and_then_op (op_sqrt nm norm_sq h) (\<lambda>norm h. op_div nm src norm h))))))))"

end
