(* ===== verification/Smooth.thy ===== *)
theory Smooth
  imports Complex_Main Ops
begin

text \<open>
  The mathematics the differentiable operations stand for, over the real numbers: for every
  operation the shape of its result, the value at a coordinate, the derivative of that value along
  tangents of the operands, and where the operation is smooth.
\<close>

section \<open>Sums over the coordinates of a shape\<close>

type_synonym field = "nat list \<Rightarrow> real"

definition coords :: "shape \<Rightarrow> nat list set" where
  "coords s = {cs. valid_coords s cs}"

lemma coords_iff [simp]: "cs \<in> coords s \<longleftrightarrow> valid_coords s cs"
  by (simp add: coords_def)

lemma coords_positions: "bij_betw (coords_of s) {..<numel s} (coords s)"
proof (rule bij_betw_byWitness[where f' = "ravel s"])
  show "coords_of s ` {..<numel s} \<subseteq> coords s" using valid_coords_of_less by auto
  show "ravel s ` coords s \<subseteq> {..<numel s}" using ravel_less by (auto simp: numel_prod_list)
qed (auto simp: ravel_coords_of coords_of_ravel numel_prod_list)

lemma finite_coords [simp]: "finite (coords s)"
  using bij_betw_finite[OF coords_positions[of s]] by simp

lemma sum_coords: "sum f (coords s) = (\<Sum>i < numel s. f (coords_of s i))"
  using sum.reindex_bij_betw[OF coords_positions, of f s] by simp

lemma card_coords [simp]: "card (coords s) = numel s"
  using bij_betw_same_card[OF coords_positions[of s]] by simp

lemma sum_list_upt: "sum_list (map f [0..<n]) = sum f {..<n}" for f :: "nat \<Rightarrow> real"
  by (simp add: sum_set_upt_conv_sum_list_nat[symmetric] atLeast0LessThan)

lemma sum_coords_list: "sum_list (map (\<lambda>i. f (coords_of s i)) [0..<numel s]) = sum f (coords s)" for f :: field
  by (simp add: sum_coords sum_list_upt)

lemma coords_Nil [simp]: "coords [] = {[]}"
  by (auto simp: coords_def)

lemma sum_coords_Cons: "sum f (coords (d # s)) = (\<Sum>i < d. \<Sum>cs \<in> coords s. f (i # cs))"
proof -
  have "bij_betw (\<lambda>(i, cs). i # cs) ({..<d} \<times> coords s) (coords (d # s))"
    by (auto simp: bij_betw_def inj_on_def coords_def valid_coords_Cons image_iff)
  from sum.reindex_bij_betw[OF this, of f] show ?thesis
    by (simp add: sum.cartesian_product case_prod_unfold)
qed

lemma sum_coords1: "sum f (coords [n]) = (\<Sum>i < n. f [i])"
  by (simp add: sum_coords_Cons)

lemma sum_coords2: "sum f (coords [m, n]) = (\<Sum>i < m. \<Sum>j < n. f [i, j])"
  by (simp add: sum_coords_Cons)

lemma sum_coords3: "sum f (coords [b, m, n]) = (\<Sum>a < b. \<Sum>i < m. \<Sum>j < n. f [a, i, j])"
  by (simp add: sum_coords_Cons)

text \<open>A sum over groups, and the pairing of two fields of one shape.\<close>

lemma sum_grouped:
  "(\<And>cs. cs \<in> coords s \<Longrightarrow> p cs \<in> coords u) \<Longrightarrow>
   (\<Sum>cs \<in> coords u. (\<Sum>x \<in> {x \<in> coords s. p x = cs}. G x) * T cs) = (\<Sum>x \<in> coords s. G x * T (p x))" for G T :: field
proof -
  assume p: "\<And>cs. cs \<in> coords s \<Longrightarrow> p cs \<in> coords u"
  have "(\<Sum>cs \<in> coords u. (\<Sum>x \<in> {x \<in> coords s. p x = cs}. G x) * T cs)
      = (\<Sum>cs \<in> coords u. \<Sum>x \<in> {x \<in> coords s. p x = cs}. G x * T (p x))"
    by (intro sum.cong refl) (auto simp: sum_distrib_right)
  also have "\<dots> = (\<Sum>x \<in> coords s. G x * T (p x))"
    using p by (intro sum.group) auto
  finally show ?thesis .
qed

definition pairing :: "shape \<Rightarrow> field \<Rightarrow> field \<Rightarrow> real" where
  "pairing s f g = (\<Sum>cs \<in> coords s. f cs * g cs)"

lemma pairing_cong:
  "(\<And>cs. valid_coords s cs \<Longrightarrow> f cs = f' cs) \<Longrightarrow> (\<And>cs. valid_coords s cs \<Longrightarrow> g cs = g' cs) \<Longrightarrow> pairing s f g = pairing s f' g'"
  unfolding pairing_def by (intro sum.cong) auto

lemma pairing_add_left: "pairing s (\<lambda>cs. f cs + f' cs) g = pairing s f g + pairing s f' g"
  by (simp add: pairing_def algebra_simps sum.distrib)

lemma pairing_zero [simp]: "pairing s f (\<lambda>_. 0) = 0"
  by (simp add: pairing_def)

section \<open>Functions of one and of two elements\<close>

datatype unary_fun =
  UNeg | URelu | USigmoid | UTanh | USilu | ULeaky real | UExp | ULog | USqrt | UAbs | UPow real

definition logistic :: "real \<Rightarrow> real" where
  "logistic x = 1 / (1 + exp (- x))"

fun unary_val :: "unary_fun \<Rightarrow> real \<Rightarrow> real" where
  "unary_val UNeg x = - x"
| "unary_val URelu x = max x 0"
| "unary_val USigmoid x = logistic x"
| "unary_val UTanh x = tanh x"
| "unary_val USilu x = x * logistic x"
| "unary_val (ULeaky slope) x = (if 0 < x then x else slope * x)"
| "unary_val UExp x = exp x"
| "unary_val ULog x = ln x"
| "unary_val USqrt x = sqrt x"
| "unary_val UAbs x = \<bar>x\<bar>"
| "unary_val (UPow e) x = x powr e"

fun unary_der :: "unary_fun \<Rightarrow> real \<Rightarrow> real" where
  "unary_der UNeg x = - 1"
| "unary_der URelu x = (if 0 < x then 1 else 0)"
| "unary_der USigmoid x = logistic x * (1 - logistic x)"
| "unary_der UTanh x = 1 - tanh x * tanh x"
| "unary_der USilu x = logistic x * (1 + x * (1 - logistic x))"
| "unary_der (ULeaky slope) x = (if 0 < x then 1 else slope)"
| "unary_der UExp x = exp x"
| "unary_der ULog x = 1 / x"
| "unary_der USqrt x = 1 / (2 * sqrt x)"
| "unary_der UAbs x = sgn x"
| "unary_der (UPow e) x = e * x powr (e - 1)"

fun unary_smooth :: "unary_fun \<Rightarrow> real \<Rightarrow> bool" where
  "unary_smooth URelu x \<longleftrightarrow> x \<noteq> 0"
| "unary_smooth (ULeaky slope) x \<longleftrightarrow> x \<noteq> 0"
| "unary_smooth UAbs x \<longleftrightarrow> x \<noteq> 0"
| "unary_smooth ULog x \<longleftrightarrow> 0 < x"
| "unary_smooth USqrt x \<longleftrightarrow> 0 < x"
| "unary_smooth (UPow e) x \<longleftrightarrow> 0 < x"
| "unary_smooth _ x \<longleftrightarrow> True"

lemma logistic_derivative: "(logistic has_real_derivative logistic x * (1 - logistic x)) (at x)"
proof -
  have "1 + exp (- x) \<noteq> 0" by (metis add_pos_pos exp_gt_zero less_irrefl zero_less_one)
  then show ?thesis unfolding logistic_def by (auto intro!: derivative_eq_intros simp: field_simps power2_eq_square)
qed

text \<open>A function that agrees with a line on each side of zero.\<close>

lemma piecewise_derivative:
  assumes "x \<noteq> 0" "\<And>y. 0 < y \<Longrightarrow> f y = a * y" "\<And>y. y < 0 \<Longrightarrow> f y = b * y"
  shows "(f has_real_derivative (if 0 < x then a else b)) (at x)"
proof (cases "0 < x")
  case True
  have "((\<lambda>y. a * y) has_real_derivative a) (at x)" by (auto intro!: derivative_eq_intros)
  from has_field_derivative_transform_within_open[OF this, of "{0<..}" f] show ?thesis using True assms(2) by simp
next
  case False
  have "((\<lambda>y. b * y) has_real_derivative b) (at x)" by (auto intro!: derivative_eq_intros)
  from has_field_derivative_transform_within_open[OF this, of "{..<0}" f] show ?thesis using False assms(1,3) by simp
qed

lemma unary_val_eq:
  "unary_val UNeg = (\<lambda>x. - x)" "unary_val URelu = (\<lambda>x. max x 0)" "unary_val USigmoid = logistic" "unary_val UTanh = tanh"
  "unary_val USilu = (\<lambda>x. x * logistic x)" "unary_val (ULeaky slope) = (\<lambda>x. if 0 < x then x else slope * x)"
  "unary_val UExp = exp" "unary_val ULog = ln" "unary_val USqrt = sqrt" "unary_val UAbs = abs"
  "unary_val (UPow e) = (\<lambda>x. x powr e)"
  by (simp_all add: fun_eq_iff)

lemma unary_derivative: "unary_smooth u x \<Longrightarrow> (unary_val u has_real_derivative unary_der u x) (at x)"
proof (cases u)
  case URelu
  then show "unary_smooth u x \<Longrightarrow> ?thesis" using piecewise_derivative[of x "\<lambda>x. max x 0" 1 0] by (simp add: unary_val_eq)
next
  case (ULeaky slope)
  then show "unary_smooth u x \<Longrightarrow> ?thesis"
    using piecewise_derivative[of x "unary_val (ULeaky slope)" 1 slope] by simp
next
  case UAbs
  then show "unary_smooth u x \<Longrightarrow> ?thesis" using piecewise_derivative[of x abs 1 "- 1"] by (auto simp: unary_val_eq sgn_real_def)
next
  case USqrt
  then show "unary_smooth u x \<Longrightarrow> ?thesis" using DERIV_real_sqrt[of x] by (simp add: unary_val_eq field_simps)
next
  case (UPow e)
  then show "unary_smooth u x \<Longrightarrow> ?thesis" using has_real_derivative_powr[of x e] by (simp add: unary_val_eq)
next
  case USigmoid
  then show "unary_smooth u x \<Longrightarrow> ?thesis" using logistic_derivative[of x] by (simp add: unary_val_eq)
next
  case ULog
  then show "unary_smooth u x \<Longrightarrow> ?thesis" using DERIV_ln[of x] by (simp add: unary_val_eq field_simps)
qed (auto intro!: derivative_eq_intros logistic_derivative simp: unary_val_eq power2_eq_square algebra_simps)

datatype binary_fun = BAdd | BSub | BMul | BDiv

fun binary_val :: "binary_fun \<Rightarrow> real \<Rightarrow> real \<Rightarrow> real" where
  "binary_val BAdd x y = x + y"
| "binary_val BSub x y = x - y"
| "binary_val BMul x y = x * y"
| "binary_val BDiv x y = x / y"

text \<open>The two partial derivatives.\<close>

fun binary_dl :: "binary_fun \<Rightarrow> real \<Rightarrow> real \<Rightarrow> real" where
  "binary_dl BAdd x y = 1"
| "binary_dl BSub x y = 1"
| "binary_dl BMul x y = y"
| "binary_dl BDiv x y = 1 / y"

fun binary_dr :: "binary_fun \<Rightarrow> real \<Rightarrow> real \<Rightarrow> real" where
  "binary_dr BAdd x y = 1"
| "binary_dr BSub x y = - 1"
| "binary_dr BMul x y = x"
| "binary_dr BDiv x y = - (x / (y * y))"

fun binary_smooth :: "binary_fun \<Rightarrow> real \<Rightarrow> real \<Rightarrow> bool" where
  "binary_smooth BDiv x y \<longleftrightarrow> y \<noteq> 0"
| "binary_smooth _ x y \<longleftrightarrow> True"

lemma binary_derivative:
  assumes "(f has_real_derivative s) (at 0)" "(g has_real_derivative t) (at 0)" "binary_smooth b (f 0) (g 0)"
  shows "((\<lambda>e. binary_val b (f e) (g e)) has_real_derivative binary_dl b (f 0) (g 0) * s + binary_dr b (f 0) (g 0) * t) (at 0)"
proof (cases b)
  case BDiv
  then show ?thesis
    using assms by (auto intro!: derivative_eq_intros simp: divide_simps algebra_simps power2_eq_square)
qed (use assms in \<open>auto intro!: derivative_eq_intros simp: algebra_simps\<close>)

section \<open>Operations\<close>

text \<open>
  A call of an operation, on positions in the list of the variables made so far.  \<open>CIndexSelect\<close>
  carries the tensor of indices, which is no variable.
\<close>

datatype call =
    CUnary unary_fun nat
  | CBinary binary_fun nat nat
  | CSum nat
  | CMean nat
  | CMeanDim "nat list" nat
  | CMatmul nat nat
  | CAddBias nat nat
  | CLinear nat nat nat
  | CBmm nat nat
  | CTranspose nat nat nat
  | CReshape shape nat
  | CIndexSelect "real dense" nat

fun operands :: "call \<Rightarrow> nat list" where
  "operands (CUnary u i) = [i]"
| "operands (CBinary b i j) = [i, j]"
| "operands (CSum i) = [i]"
| "operands (CMean i) = [i]"
| "operands (CMeanDim dims i) = [i]"
| "operands (CMatmul i j) = [i, j]"
| "operands (CAddBias i j) = [i, j]"
| "operands (CLinear i j k) = [i, j, k]"
| "operands (CBmm i j) = [i, j]"
| "operands (CTranspose d0 d1 i) = [i]"
| "operands (CReshape s i) = [i]"
| "operands (CIndexSelect idx i) = [i]"

text \<open>
  What an operation means for operands of given shapes: the shape of the result, its value from the
  values of the operands, its derivative along tangents of the operands, and where it is smooth.
\<close>

record meaning =
  m_shape :: shape
  m_val :: "field list \<Rightarrow> field"
  m_tan :: "field list \<Rightarrow> field list \<Rightarrow> field"
  m_smooth :: "field list \<Rightarrow> bool"

text \<open>A linear function of one operand, which is its own derivative.\<close>

definition linear_meaning :: "shape \<Rightarrow> (field \<Rightarrow> field) \<Rightarrow> meaning" where
  "linear_meaning s L = \<lparr>m_shape = s, m_val = \<lambda>fs. L (fs ! 0), m_tan = \<lambda>fs ts. L (ts ! 0), m_smooth = \<lambda>_. True\<rparr>"

text \<open>A product, linear in each of two operands, and what is added to it.\<close>

definition product_meaning :: "shape \<Rightarrow> (field \<Rightarrow> field \<Rightarrow> field) \<Rightarrow> (field list \<Rightarrow> field) \<Rightarrow> meaning" where
  "product_meaning s B L = \<lparr>m_shape = s, m_val = \<lambda>fs cs. B (fs ! 0) (fs ! 1) cs + L fs cs,
     m_tan = \<lambda>fs ts cs. B (ts ! 0) (fs ! 1) cs + B (fs ! 0) (ts ! 1) cs + L ts cs, m_smooth = \<lambda>_. True\<rparr>"

definition matrix_mul :: "nat \<Rightarrow> field \<Rightarrow> field \<Rightarrow> field" where
  "matrix_mul k f g cs = (\<Sum>kk < k. f [cs ! 0, kk] * g [kk, cs ! 1])"

definition batch_mul :: "nat \<Rightarrow> field \<Rightarrow> field \<Rightarrow> field" where
  "batch_mul k f g cs = (\<Sum>kk < k. f [cs ! 0, cs ! 1, kk] * g [cs ! 0, kk, cs ! 2])"

text \<open>The mean over some axes, which stay with length 1.\<close>

definition mean_over :: "nat list \<Rightarrow> shape \<Rightarrow> field \<Rightarrow> field" where
  "mean_over dims s f cs =
     (\<Sum>x \<in> {x \<in> coords s. reduced_coords dims True x = cs}. f x) / real (prod_list (map (\<lambda>d. s ! d) dims))"

definition index_row :: "real dense \<Rightarrow> nat \<Rightarrow> nat" where
  "index_row idx i = nat \<lfloor>d_elems idx ! i\<rfloor>"

definition valid_indices :: "nat \<Rightarrow> real dense \<Rightarrow> bool" where
  "valid_indices rows idx \<longleftrightarrow> dense_ok idx \<and> d_dtype idx = I64 \<and> length (d_shape idx) = 1
     \<and> (\<forall>x \<in> set (d_elems idx). 0 \<le> \<lfloor>x\<rfloor> \<and> \<lfloor>x\<rfloor> < int rows)"

fun meaning_of :: "call \<Rightarrow> shape list \<Rightarrow> meaning option" where
  "meaning_of (CUnary u _) ss =
     Some \<lparr>m_shape = ss ! 0, m_val = \<lambda>fs cs. unary_val u ((fs ! 0) cs),
       m_tan = \<lambda>fs ts cs. unary_der u ((fs ! 0) cs) * (ts ! 0) cs,
       m_smooth = \<lambda>fs. \<forall>cs \<in> coords (ss ! 0). unary_smooth u ((fs ! 0) cs)\<rparr>"
| "meaning_of (CBinary b _ _) ss =
     (case broadcast_with (ss ! 0) (ss ! 1) of
        Inl _ \<Rightarrow> None
      | Inr s \<Rightarrow>
          let l = (\<lambda>fs cs. (fs ! 0) (project_coords (ss ! 0) cs)); r = (\<lambda>fs cs. (fs ! 1) (project_coords (ss ! 1) cs)) in
          Some \<lparr>m_shape = s, m_val = \<lambda>fs cs. binary_val b (l fs cs) (r fs cs),
            m_tan = \<lambda>fs ts cs. binary_dl b (l fs cs) (r fs cs) * l ts cs + binary_dr b (l fs cs) (r fs cs) * r ts cs,
            m_smooth = \<lambda>fs. \<forall>cs \<in> coords s. binary_smooth b (l fs cs) (r fs cs)\<rparr>)"
| "meaning_of (CSum _) ss = Some (linear_meaning [] (\<lambda>f cs. \<Sum>x \<in> coords (ss ! 0). f x))"
| "meaning_of (CMean _) ss = Some (linear_meaning [] (\<lambda>f cs. (\<Sum>x \<in> coords (ss ! 0). f x) / real (numel (ss ! 0))))"
| "meaning_of (CMeanDim dims _) ss =
     (if \<forall>d \<in> set dims. d < length (ss ! 0) then Some (linear_meaning (reduced_shape dims True (ss ! 0)) (mean_over dims (ss ! 0)))
      else None)"
| "meaning_of (CMatmul _ _) ss =
     (case (ss ! 0, ss ! 1) of
        ([m, k], [k', n]) \<Rightarrow> if k = k' then Some (product_meaning [m, n] (matrix_mul k) (\<lambda>_ _. 0)) else None
      | _ \<Rightarrow> None)"
| "meaning_of (CAddBias _ _) ss =
     (case (ss ! 0, ss ! 1) of
        ([m, n], [n']) \<Rightarrow>
          if n = n' then Some (product_meaning [m, n] (\<lambda>_ _ _. 0) (\<lambda>fs cs. (fs ! 0) cs + (fs ! 1) [cs ! 1])) else None
      | _ \<Rightarrow> None)"
| "meaning_of (CLinear _ _ _) ss =
     (case (ss ! 0, ss ! 1, ss ! 2) of
        ([m, k], [k', n], [n']) \<Rightarrow>
          if k = k' \<and> n = n' then Some (product_meaning [m, n] (matrix_mul k) (\<lambda>fs cs. (fs ! 2) [cs ! 1])) else None
      | _ \<Rightarrow> None)"
| "meaning_of (CBmm _ _) ss =
     (case (ss ! 0, ss ! 1) of
        ([b, m, k], [b', k', n]) \<Rightarrow>
          if b = b' \<and> k = k' then Some (product_meaning [b, m, n] (batch_mul k) (\<lambda>_ _. 0)) else None
      | _ \<Rightarrow> None)"
| "meaning_of (CTranspose d0 d1 _) ss =
     (if d0 < length (ss ! 0) \<and> d1 < length (ss ! 0)
      then Some (linear_meaning (list_swap (ss ! 0) d0 d1) (\<lambda>f cs. f (list_swap cs d0 d1))) else None)"
| "meaning_of (CReshape s _) ss =
     (if numel s = numel (ss ! 0) then Some (linear_meaning s (\<lambda>f cs. f (coords_of (ss ! 0) (ravel s cs)))) else None)"
| "meaning_of (CIndexSelect idx _) ss =
     (if ss ! 0 \<noteq> [] \<and> valid_indices (hd (ss ! 0)) idx
      then Some (linear_meaning (numel (d_shape idx) # tl (ss ! 0)) (\<lambda>f cs. f (index_row idx (hd cs) # tl cs))) else None)"

section \<open>The derivatives\<close>

lemma bcast_coords:
  assumes "broadcast_with s t = Inr u" "valid_coords u cs"
  shows "valid_coords s (project_coords s cs)" "valid_coords t (project_coords t cs)"
  using valid_project_coords[OF broadcast_absorb[OF assms(1)] assms(2)]
    valid_project_coords[OF broadcast_absorb[OF broadcast_with_commute[OF assms(1)]] assms(2)] by simp_all

lemma linear_derivative:
  "((\<lambda>e. L (F e ! 0) cs) has_real_derivative L (ts ! 0) cs) (at 0) \<Longrightarrow> m = linear_meaning s L \<Longrightarrow>
   ((\<lambda>e. m_val m (F e) cs) has_real_derivative m_tan m (F 0) ts cs) (at 0)"
  by (simp add: linear_meaning_def)

lemma product_derivative:
  assumes "m = product_meaning s B L"
    and "((\<lambda>e. B (F e ! 0) (F e ! 1) cs) has_real_derivative B (ts ! 0) (F 0 ! 1) cs + B (F 0 ! 0) (ts ! 1) cs) (at 0)"
    and "((\<lambda>e. L (F e) cs) has_real_derivative L ts cs) (at 0)"
  shows "((\<lambda>e. m_val m (F e) cs) has_real_derivative m_tan m (F 0) ts cs) (at 0)"
  using assms(2,3) by (auto simp: assms(1) product_meaning_def intro!: derivative_eq_intros)

lemma matrix_mul_derivative:
  assumes "\<And>kk. kk < k \<Longrightarrow> ((\<lambda>e. f e [cs ! 0, kk]) has_real_derivative s [cs ! 0, kk]) (at 0)"
    and "\<And>kk. kk < k \<Longrightarrow> ((\<lambda>e. g e [kk, cs ! 1]) has_real_derivative t [kk, cs ! 1]) (at 0)"
  shows "((\<lambda>e. matrix_mul k (f e) (g e) cs) has_real_derivative matrix_mul k s (g 0) cs + matrix_mul k (f 0) t cs) (at 0)"
  unfolding matrix_mul_def sum.distrib[symmetric]
  by (intro DERIV_sum) (auto intro!: derivative_eq_intros assms simp: algebra_simps simp del: One_nat_def)

lemma batch_mul_derivative:
  assumes "\<And>kk. kk < k \<Longrightarrow> ((\<lambda>e. f e [cs ! 0, cs ! 1, kk]) has_real_derivative s [cs ! 0, cs ! 1, kk]) (at 0)"
    and "\<And>kk. kk < k \<Longrightarrow> ((\<lambda>e. g e [cs ! 0, kk, cs ! 2]) has_real_derivative t [cs ! 0, kk, cs ! 2]) (at 0)"
  shows "((\<lambda>e. batch_mul k (f e) (g e) cs) has_real_derivative batch_mul k s (g 0) cs + batch_mul k (f 0) t cs) (at 0)"
  unfolding batch_mul_def sum.distrib[symmetric]
  by (intro DERIV_sum) (auto intro!: derivative_eq_intros assms simp: algebra_simps simp del: One_nat_def)

lemma valid_swap: "valid_coords (list_swap s d0 d1) cs \<Longrightarrow> d0 < length s \<Longrightarrow> d1 < length s \<Longrightarrow> valid_coords s (list_swap cs d0 d1)"
  by (auto simp: valid_coords_nth list_swap_def nth_list_update split: if_splits)

lemma valid_select:
  assumes "s \<noteq> []" "valid_indices (hd s) idx" "valid_coords (numel (d_shape idx) # tl s) cs"
  shows "valid_coords s (index_row idx (hd cs) # tl cs)"
proof -
  have "hd cs < length (d_elems idx)" using assms(2,3) by (auto simp: valid_indices_def dense_ok_def valid_coords_Cons)
  then have "index_row idx (hd cs) < hd s"
    using assms(2) nth_mem unfolding valid_indices_def index_row_def by (metis nat_less_iff)
  then show ?thesis using assms(1,3) by (cases s) (auto simp: valid_coords_Cons)
qed

lemma meaning_derivative:
  assumes m: "meaning_of c ss = Some m" "length ss = length (operands c)" "m_smooth m (F 0)" "valid_coords (m_shape m) cs"
    and F: "\<And>k cs. k < length ss \<Longrightarrow> valid_coords (ss ! k) cs \<Longrightarrow> ((\<lambda>e. (F e ! k) cs) has_real_derivative (ts ! k) cs) (at 0)"
  shows "((\<lambda>e. m_val m (F e) cs) has_real_derivative m_tan m (F 0) ts cs) (at 0)"
proof (cases c)
  case (CUnary u i)
  then show ?thesis using m F[of 0 cs] by (auto intro!: DERIV_chain2[of "unary_val u"] unary_derivative)
next
  case (CBinary b i j)
  then obtain s where s: "broadcast_with (ss ! 0) (ss ! 1) = Inr s" using m(1) by (auto split: sum.splits)
  then show ?thesis using m CBinary bcast_coords[OF s, of cs] F[of 0] F[of 1] by (auto simp: Let_def intro!: binary_derivative)
next
  case (CSum i)
  then show ?thesis using m F[of 0] by (auto simp: linear_meaning_def intro!: DERIV_sum)
next
  case (CMean i)
  then show ?thesis using m F[of 0] by (auto simp: linear_meaning_def intro!: DERIV_sum DERIV_cdivide)
next
  case (CMeanDim dims i)
  then show ?thesis using m F[of 0] by (auto simp: linear_meaning_def mean_over_def split: if_splits intro!: DERIV_sum DERIV_cdivide)
next
  case (CTranspose d0 d1 i)
  then show ?thesis using m F[of 0] valid_swap by (auto simp: linear_meaning_def split: if_splits)
next
  case (CReshape s i)
  then show ?thesis using m F[of 0 "coords_of (ss ! 0) (ravel s cs)"] ravel_less[of s cs] valid_coords_of_less[of "ravel s cs" "ss ! 0"]
    by (auto simp: linear_meaning_def numel_prod_list split: if_splits)
next
  case (CIndexSelect idx i)
  then show ?thesis using m F[of 0] valid_select by (auto simp: linear_meaning_def split: if_splits)
next
  case (CMatmul i j)
  then obtain p k n where s: "ss ! 0 = [p, k]" "ss ! 1 = [k, n]" "m = product_meaning [p, n] (matrix_mul k) (\<lambda>_ _. 0)"
    using m(1) by (auto split: list.splits if_splits)
  show ?thesis using m(2,4) F[of 0] F[of 1] CMatmul
    by (intro product_derivative[OF s(3)] matrix_mul_derivative) (auto simp: s product_meaning_def valid2 simp del: One_nat_def)
next
  case (CAddBias i j)
  then obtain p n where s: "ss ! 0 = [p, n]" "ss ! 1 = [n]"
      "m = product_meaning [p, n] (\<lambda>_ _ _. 0) (\<lambda>fs cs. (fs ! 0) cs + (fs ! 1) [cs ! 1])"
    using m(1) by (auto split: list.splits if_splits)
  show ?thesis using m(2,4) F[of 0] F[of 1] CAddBias
    by (intro product_derivative[OF s(3)]) (auto simp: s product_meaning_def valid2 valid1 simp del: One_nat_def intro!: DERIV_add)
next
  case (CLinear i j l)
  then obtain p k n where s: "ss ! 0 = [p, k]" "ss ! 1 = [k, n]" "ss ! 2 = [n]"
      "m = product_meaning [p, n] (matrix_mul k) (\<lambda>fs cs. (fs ! 2) [cs ! 1])"
    using m(1) by (auto split: list.splits if_splits)
  show ?thesis using m(2,4) F[of 0] F[of 1] F[of 2] CLinear
    by (intro product_derivative[OF s(4)] matrix_mul_derivative) (auto simp: s product_meaning_def valid2 valid1 simp del: One_nat_def)
next
  case (CBmm i j)
  then obtain b p k n where s: "ss ! 0 = [b, p, k]" "ss ! 1 = [b, k, n]" "m = product_meaning [b, p, n] (batch_mul k) (\<lambda>_ _. 0)"
    using m(1) by (auto split: list.splits if_splits)
  show ?thesis using m(2,4) F[of 0] F[of 1] CBmm
    by (intro product_derivative[OF s(3)] batch_mul_derivative) (auto simp: s product_meaning_def valid3 simp del: One_nat_def)
qed

end
