(* ===== verification/Exact.thy ===== *)
theory Exact
  imports Smooth
begin

text \<open>
  The operations of the backend over exact real arithmetic, on the tensors \<open>tabulate s f\<close>: every
  dense \<open>f32\<close> tensor on the CPU is one of these, and an operation makes another.  The \<open>gemm\<close> crate
  stays a parameter.
\<close>

section \<open>Exact arithmetic\<close>

definition real_reduce :: "real reduce_ops" where
  "real_reduce = \<lparr>ro_zero = \<lambda>_. 0, ro_one = \<lambda>_. 1, ro_lowest = \<lambda>_. - (2 ^ 128), ro_highest = \<lambda>_. 2 ^ 128,
     ro_add = \<lambda>_. (+), ro_mul = \<lambda>_. (*), ro_max = \<lambda>_. max, ro_min = \<lambda>_. min, ro_less = \<lambda>_. (<),
     ro_div_n = \<lambda>_ x n. x / real n, ro_i64 = real, ro_int = floor\<rparr>"

definition real_casts :: "real casts" where
  "real_casts = \<lparr>c_to_f64 = \<lambda>_ x. x, c_of_f64 = \<lambda>_ x. x, c_nonzero = \<lambda>x. x \<noteq> 0, c_true = \<lambda>x. x \<noteq> 0,
     c_bool = of_bool, c_one = 1, c_zero = 0\<rparr>"

type_synonym gemm = "dtype \<Rightarrow> real gemm_call"

definition real_ops :: "gemm \<Rightarrow> real num_ops" where
  "real_ops gm = \<lparr>nm_reduce = real_reduce, nm_casts = real_casts, nm_sub = \<lambda>_. (-), nm_div = \<lambda>_. (/), nm_pow = \<lambda>_. (powr),
     nm_neg = \<lambda>_. uminus, nm_abs = \<lambda>_. abs, nm_exp = \<lambda>_. exp, nm_ln = \<lambda>_. ln, nm_sqrt = \<lambda>_. sqrt, nm_tanh = \<lambda>_. tanh,
     nm_eq = \<lambda>_. (=), nm_nat = real, nm_gemm = gm, nm_uninit = \<lambda>_. 0\<rparr>"

lemma real_ops_simps [simp]:
  "nm_reduce (real_ops gm) = real_reduce" "nm_casts (real_ops gm) = real_casts" "nm_sub (real_ops gm) d = (-)"
  "nm_div (real_ops gm) d = (/)" "nm_pow (real_ops gm) d = (powr)" "nm_neg (real_ops gm) d = uminus" "nm_abs (real_ops gm) d = abs"
  "nm_exp (real_ops gm) d = exp" "nm_ln (real_ops gm) d = ln" "nm_sqrt (real_ops gm) d = sqrt" "nm_tanh (real_ops gm) d = tanh"
  "nm_nat (real_ops gm) = real" "ro_zero real_reduce d = 0" "ro_one real_reduce d = 1" "ro_add real_reduce d = (+)"
  "ro_mul real_reduce d = (*)" "ro_max real_reduce d = max" "ro_less real_reduce d = (<)" "ro_div_n real_reduce d x n = x / real n"
  "c_of_f64 real_casts d x = x" "c_bool real_casts = of_bool"
  by (simp_all add: real_ops_def real_reduce_def real_casts_def)

lemma foldl_plus: "foldl (+) (a :: real) xs = a + sum_list xs"
  by (induction xs arbitrary: a) simp_all

lemma dot_product_real: "dot_product (real_ops gm) d f g k = (\<Sum>kk < k. f kk * g kk)"
  by (induction k) (simp_all add: dot_product_def)

section \<open>Tabulated tensors\<close>

definition good_shape :: "shape \<Rightarrow> bool" where
  "good_shape s \<longleftrightarrow> fits_memory F32 (numel s) \<and> 0 \<notin> set s"

definition good :: "shape \<Rightarrow> 'v dense \<Rightarrow> bool" where
  "good s a \<longleftrightarrow> d_dtype a = F32 \<and> d_device a = Cpu \<and> d_shape a = s \<and> length (d_elems a) = numel s \<and> good_shape s"

lemma good_tabulate [simp]: "good s (tabulate s f) \<longleftrightarrow> good_shape s"
  by (simp add: good_def)

lemma good_tabulated: "good s a \<Longrightarrow> a = tabulate s (elt a)"
  using tabulate_elt[of a] by (auto simp: good_def good_shape_def dense_ok_def)

lemma ok_tabulate: "good_shape s \<Longrightarrow> dense_ok (tabulate s f)"
  by (simp add: dense_ok_tabulate good_shape_def)

lemma scalar_tabulate: "dense_scalar c = tabulate [] (\<lambda>_. c)"
  by (simp add: dense_scalar_def tabulate_as_def numel_def)

lemma good_shape_Nil [simp]: "good_shape []"
  by (simp add: good_shape_def) code_simp

lemma run1_tab:
  "good_shape s \<Longrightarrow> (\<And>t h. holds (tabulate s f) t h \<Longrightarrow> computes h F32 u g (K t h)) \<Longrightarrow>
   run1 K (tabulate s f) = Some (Inr (tabulate u g))"
  by (rule run1_computes[OF ok_tabulate])

lemma run2_tab:
  "good_shape s \<Longrightarrow> good_shape t \<Longrightarrow>
   (\<And>a b h. holds (tabulate s f) a h \<Longrightarrow> holds (tabulate t g) b h \<Longrightarrow> computes h F32 u e (K a b h)) \<Longrightarrow>
   run2 K (tabulate s f) (tabulate t g) = Some (Inr (tabulate u e))"
  by (rule run2_computes[OF ok_tabulate ok_tabulate])

lemma run3_tab:
  "good_shape s \<Longrightarrow> good_shape t \<Longrightarrow> good_shape r \<Longrightarrow>
   (\<And>a b c h. holds (tabulate s f) a h \<Longrightarrow> holds (tabulate t g) b h \<Longrightarrow> holds (tabulate r g') c h \<Longrightarrow> computes h F32 u e (K a b c h)) \<Longrightarrow>
   run3 K (tabulate s f) (tabulate t g) (tabulate r g') = Some (Inr (tabulate u e))"
  by (rule run3_computes[OF ok_tabulate ok_tabulate ok_tabulate])

lemma holds_elt: "holds (tabulate s f) t h \<Longrightarrow> valid_coords s cs \<Longrightarrow> t_elem t h cs = f cs"
  by (simp add: holds_def)

lemma holds_facts:
  "holds (tabulate s f) t h \<Longrightarrow> tensor_ok t h" "holds (tabulate s f) t h \<Longrightarrow> t_shape t = s"
  "holds (tabulate s f) t h \<Longrightarrow> t_dtype t = F32" "holds (tabulate s f) t h \<Longrightarrow> contiguous (t_layout t)"
  "holds (tabulate s f) t h \<Longrightarrow> storage_offset (t_layout t) = 0"
  by (simp_all add: holds_def)

section \<open>Element by element\<close>

lemma run_unary:
  assumes "good_shape s" "\<And>t h. tensor_ok t h \<Longrightarrow> t_dtype t = F32 \<Longrightarrow> computes h F32 (t_shape t) (\<lambda>cs. g (t_elem t h cs)) (K t h)"
  shows "run1 K (tabulate s f) = Some (Inr (tabulate s (\<lambda>cs. g (f cs))))"
proof (rule run1_tab[OF assms(1)])
  fix t :: tensor and h assume h: "holds (tabulate s f) t h"
  then have "computes h F32 s (\<lambda>cs. g (t_elem t h cs)) (K t h)" using assms(2)[of t h] by (simp add: holds_def)
  then show "computes h F32 s (\<lambda>cs. g (f cs)) (K t h)" by (rule computes_cong) (use h in \<open>simp add: holds_elt\<close>)
qed

lemma run_float:
  assumes "good_shape s" "K = (\<lambda>t. unary_float t op g)"
  shows "run1 K (tabulate s f) = Some (Inr (tabulate s (\<lambda>cs. g F32 (f cs))))"
proof (rule run_unary[OF assms(1)])
  fix t :: tensor and h :: "'a theap" assume "tensor_ok t h" "t_dtype t = F32"
  then show "computes h F32 (t_shape t) (\<lambda>cs. g F32 (t_elem t h cs)) (K t h)"
    using unary_float_computes[of t h g op] by (simp add: assms(2) mean_dtype_def)
qed

lemma at_type_real [simp]: "at_type (real_ops gm) d e = e"
  by (simp add: at_type_def)

lemma run_dispatch:
  assumes "good_shape s" "good_shape t" "good_shape u" "broadcast_with s t = Inr u"
  shows "run2 (\<lambda>a b. dispatch_binary nm a b op kind) (tabulate s f) (tabulate t g)
    = Some (Inr (tabulate u (\<lambda>cs. binary_fn nm kind F32 (f (project_coords s cs)) (g (project_coords t cs)))))"
proof (rule run2_tab[OF assms(1,2)])
  fix a b :: tensor and h assume h: "holds (tabulate s f) a h" "holds (tabulate t g) b h"
  then have "computes h F32 u (\<lambda>cs. binary_fn nm kind F32 (t_elem a h (project_coords s cs)) (t_elem b h (project_coords t cs)))
      (dispatch_binary nm a b op kind h)"
    using dispatch_binary_computes[of a h b u nm kind op] assms(3,4) by (auto simp: holds_def binary_dtype_def good_shape_def)
  then show "computes h F32 u (\<lambda>cs. binary_fn nm kind F32 (f (project_coords s cs)) (g (project_coords t cs))) (dispatch_binary nm a b op kind h)"
    by (rule computes_cong) (use h bcast_coords[OF assms(4)] in \<open>simp add: holds_elt\<close>)
qed

lemma broadcast_self: "broadcast_with s s = Inr s"
  using expandable_iff_broadcast[of s s] by (auto simp: list_all_length expandable_def)

lemma broadcast_scalar: "broadcast_with [] s = Inr s"
  using expandable_iff_broadcast[of "[]" s] by simp

lemma project_Nil [simp]: "project_coords [] cs = []"
  by (simp add: project_coords_def)

lemma dispatch_eta:
  "cpu_add nm = (\<lambda>a b. dispatch_binary nm a b ''add'' KindAdd)" "cpu_sub nm = (\<lambda>a b. dispatch_binary nm a b ''sub'' KindSub)"
  "cpu_mul nm = (\<lambda>a b. dispatch_binary nm a b ''mul'' KindMul)" "cpu_div nm = (\<lambda>a b. dispatch_binary nm a b ''div'' KindDiv)"
  by (simp_all add: fun_eq_iff cpu_add_def cpu_sub_def cpu_mul_def cpu_div_def)

lemma run_same:
  "good_shape s \<Longrightarrow> run2 (\<lambda>a b. dispatch_binary nm a b op kind) (tabulate s f) (tabulate s g)
    = Some (Inr (tabulate s (\<lambda>cs. binary_fn nm kind F32 (f cs) (g cs))))"
  using run_dispatch[of s s s nm op kind f g] broadcast_self[of s]
  by (auto simp: project_coords_self intro: tabulate_cong)

lemma run_scalar:
  "good_shape s \<Longrightarrow> run2 (\<lambda>a b. dispatch_binary nm a b op kind) (dense_scalar c) (tabulate s g)
    = Some (Inr (tabulate s (\<lambda>cs. binary_fn nm kind F32 c (g cs))))"
  using run_dispatch[of "[]" s s nm op kind "\<lambda>_. c" g] broadcast_scalar[of s]
  by (auto simp: project_coords_self scalar_tabulate intro: tabulate_cong)

text \<open>\<open>expect\<close> of an operation that succeeds on the CPU.\<close>

lemma expect_ok_simps [simp]:
  "expect1 Cpu K a = (case run1 K a of Some (Inr x) \<Rightarrow> Some x | _ \<Rightarrow> None)"
  "expect2 Cpu M a b = (case run2 M a b of Some (Inr x) \<Rightarrow> Some x | _ \<Rightarrow> None)"
  "pick_backend Cpu r = r"
  by (simp_all add: expect1_def expect2_def pick_backend_def ok_or_panic_def)

lemmas elementwise = dispatch_eta run_same run_scalar

section \<open>Unary operations\<close>

lemma fits_bool: "fits_memory F32 n \<Longrightarrow> fits_memory Bool n"
  using alloc_layout_mono[of "n * 4" _ n] by (auto simp: fits_memory_iff byte_size_def)

lemma cast_tabulated:
  assumes "fits_memory F32 (numel s)" "fits_memory Bool (numel s)"
  shows "dense_to_dtype (real_ops gm) (tabulate_as Bool s f) F32 = Some (tabulate s (\<lambda>cs. of_bool (f cs \<noteq> 0)))"
proof -
  obtain t h where l: "load (tabulate_as Bool s f) no_tensors = (t, h)" by fastforce
  have t: "holds (tabulate_as Bool s f) t h" using load_holds[OF _ l] assms(2) by (simp add: dense_ok_tabulate)
  note T = t[unfolded holds_def tabulate_fields]
  let ?xs = "map (cast_elem real_casts Bool F32) (elems t h)"
  obtain u h' where u: "new_tensor F32 s ?xs h = (u, h')" by fastforce
  have len: "length ?xs = numel s" using T by (auto simp: tabulate_as_def)
  have "to_dtype real_casts t F32 h = Some (u, h')"
    using to_dtype_cast[of t h F32 real_casts] T assms u by (auto simp: new_tensor_def)
  moreover note n = new_tensor_ok[OF len assms(1) u]
  have "?xs = map (\<lambda>i. of_bool (f (coords_of s i) \<noteq> 0)) [0..<numel s]"
    using T by (simp add: tabulate_as_def cast_elem_def real_casts_def)
  ultimately show ?thesis
    using read_all_ok[OF n(1) refl] n by (simp add: dense_to_dtype_def l unload_def) (simp add: tabulate_as_def)
qed

lemma relu_mask:
  assumes "good_shape s"
  shows "run2 (cpu_gt (real_ops gm)) (tabulate s f) (dense_scalar 0) = Some (Inr (tabulate_as Bool s (\<lambda>cs. of_bool (0 < f cs))))"
  unfolding scalar_tabulate
proof (rule run2_computes)
  fix a b :: tensor and h assume h: "holds (tabulate s f) a h" "holds (tabulate [] (\<lambda>_. 0)) b h"
  note H = holds_facts[OF h(1)] holds_facts[OF h(2)]
  have "computes h Bool s (\<lambda>cs. of_bool (t_elem b h (project_coords [] cs) < t_elem a h (project_coords s cs)))
      (cpu_gt (real_ops gm) a b h)"
    using cmp_computes[of a h b s "real_ops gm" CmpGt "''gt''"] broadcast_with_commute[OF broadcast_scalar[of s]] H assms fits_bool
    by (simp add: cpu_gt_def cmp_dtype_def good_shape_def)
  then show "computes h Bool s (\<lambda>cs. of_bool (0 < f cs)) (cpu_gt (real_ops gm) a b h)"
    by (rule computes_cong) (use h in \<open>simp add: holds_elt project_coords_self\<close>)
qed (use ok_tabulate[OF assms] ok_tabulate[OF good_shape_Nil] in auto)

section \<open>Sums of elements\<close>

lemma sum_list_coords:
  "sum_list (map (\<lambda>i. f (coords_of u i)) (filter (\<lambda>i. P (coords_of u i)) [0..<numel u])) = (\<Sum>x \<in> {x \<in> coords u. P x}. f x)"
  for f :: field
proof -
  have "sum_list (map (\<lambda>i. f (coords_of u i)) (filter (\<lambda>i. P (coords_of u i)) [0..<numel u]))
      = (\<Sum>x \<in> coords u. if P x then f x else 0)"
    using sum_coords_list[of "\<lambda>x. if P x then f x else 0" u] by (simp add: sum_list_map_filter')
  also have "\<dots> = (\<Sum>x \<in> {x \<in> coords u. P x}. f x)" by (rule sum.inter_filter[symmetric]) simp
  finally show ?thesis .
qed

lemma holds_elems: "holds (tabulate u f) t h \<Longrightarrow> elems t h = map (\<lambda>i. f (coords_of u i)) [0..<numel u]"
  by (simp add: holds_def tabulate_as_def)

lemma filtered_elems:
  "map (\<lambda>i. map (\<lambda>i. f (coords_of u i)) [0..<numel u] ! i) (filter P [0..<numel u]) = map (\<lambda>i. f (coords_of u i)) (filter P [0..<numel u])"
  by (intro map_cong) auto

lemma read_padded:
  assumes bc: "broadcast_with s u = Inr u" "0 \<notin> set u" and eq: "padded_to s u = u" and cs: "valid_coords s cs"
  shows "{x \<in> coords u. project_coords s x = cs} = {replicate (length u - length s) 0 @ cs}"
proof -
  let ?n = "length u - length s"
  have nil: "reduce_axes u u = []" using reduce_axes_Nil[OF bc] eq by simp
  have x: "x = replicate ?n 0 @ project_coords s x" if "valid_coords u x" for x
    using padded_reduced_coords[OF bc that] by (simp add: eq nil reduced_coords_def drop_dims_def split_def)
  have v: "valid_coords u (replicate ?n 0 @ cs)"
    using valid_padded[OF cs, of ?n] eq by (simp add: padded_to_def)
  from x[OF v] have "project_coords s (replicate ?n 0 @ cs) = cs" by simp
  then show ?thesis using x v by auto
qed

lemma run_unbroadcast:
  assumes "good_shape u" "broadcast_with s u = Inr u"
  shows "run1 (\<lambda>t. unbroadcast_to (real_ops gm) t s) (tabulate u f)
    = Some (Inr (tabulate s (\<lambda>cs. \<Sum>x \<in> {x \<in> coords u. project_coords s x = cs}. f x)))"
proof (rule run1_tab[OF assms(1)])
  fix t :: tensor and h assume h: "holds (tabulate u f) t h"
  have nz: "0 \<notin> set u" using assms(1) by (simp add: good_shape_def)
  have "computes h F32 s (unbroadcast_elem (real_ops gm) s t h) (unbroadcast_to (real_ops gm) t s h)"
    using unbroadcast_computes[of t h s "real_ops gm"] holds_facts[OF h] assms nz by simp
  then show "computes h F32 s (\<lambda>cs. \<Sum>x \<in> {x \<in> coords u. project_coords s x = cs}. f x) (unbroadcast_to (real_ops gm) t s h)"
  proof (rule computes_cong)
    fix cs assume cs: "valid_coords s cs"
    show "unbroadcast_elem (real_ops gm) s t h cs = (\<Sum>x \<in> {x \<in> coords u. project_coords s x = cs}. f x)"
    proof (cases "padded_to s u = u")
      case True
      have "valid_coords u (replicate (length u - length s) 0 @ cs)"
        using valid_padded[OF cs, of "length u - length s"] True by (simp add: padded_to_def)
      then show ?thesis
        using True holds_facts(2)[OF h] holds_elt[OF h] by (simp add: unbroadcast_elem_def read_padded[OF assms(2) nz True cs] del: coords_iff)
    next
      case False
      then show ?thesis using holds_facts[OF h] sum_list_coords[of f u "\<lambda>x. project_coords s x = cs"]
        by (simp add: unbroadcast_elem_def read_from_def foldl_plus holds_elems[OF h] filtered_elems)
    qed
  qed
qed

lemma fiber_sum:
  "holds (tabulate u f) t h \<Longrightarrow>
   foldl (+) 0 (fiber_elems t h dims k cs) = (\<Sum>x \<in> {x \<in> coords u. reduced_coords dims k x = cs}. f x)" for f :: field
  using holds_facts(2)[of u f t h] sum_list_coords[of f u "\<lambda>x. reduced_coords dims k x = cs"]
  by (simp add: fiber_elems_def fiber_def foldl_plus holds_elems filtered_elems)

lemma sum_column:
  "j < n \<Longrightarrow> (\<Sum>x \<in> {x \<in> coords [m, n]. reduced_coords [0] False x = [j]}. f x) = (\<Sum>i < m. f [i, j])" for f :: field
proof -
  assume j: "j < n"
  have "(\<Sum>x \<in> {x \<in> coords [m, n]. reduced_coords [0] False x = [j]}. f x)
      = (\<Sum>i < m. \<Sum>j' < n. if reduced_coords [0] False [i, j'] = [j] then f [i, j'] else 0)"
    using sum_coords2[of "\<lambda>x. if reduced_coords [0] False x = [j] then f x else 0" m n]
      sum.inter_filter[OF finite_coords, of f "[m, n]" "\<lambda>x. reduced_coords [0] False x = [j]"] by simp
  also have "\<dots> = (\<Sum>i < m. \<Sum>j' < n. if j' = j then f [i, j'] else 0)"
    by (intro sum.cong refl) (simp add: reduced_coords_def drop_dims_def)
  also have "\<dots> = (\<Sum>i < m. f [i, j])" using j by (simp add: sum.delta)
  finally show ?thesis .
qed

lemma run_sum_rows:
  assumes "good_shape [m, n]"
  shows "run1 (\<lambda>t. sum_dim real_reduce t [0] False) (tabulate [m, n] f) = Some (Inr (tabulate [n] (\<lambda>cs. \<Sum>i < m. f [i, cs ! 0])))"
proof (rule run1_tab[OF assms])
  fix t :: tensor and h assume h: "holds (tabulate [m, n] f) t h"
  have os: "reduced_shape [0] False [m, n] = [n]" by (simp add: reduced_shape_def drop_dims_def)
  have fits: "fits_memory F32 n" using assms fits_memory_mono[of F32 "m * n" n] by (simp add: good_shape_def numel_prod_list)
  have "computes h F32 [n] (\<lambda>cs. foldl (+) 0 (fiber_elems t h [0] False cs)) (sum_dim real_reduce t [0] False h)"
    using sum_dim_ok[of t h "[0]" False real_reduce] holds_facts[OF h] assms fits os
    by (simp add: good_shape_def reduce_dtype_def numel_prod_list)
  then show "computes h F32 [n] (\<lambda>cs. \<Sum>i < m. f [i, cs ! 0]) (sum_dim real_reduce t [0] False h)"
    by (rule computes_cong) (auto simp: fiber_sum[OF h] valid1 sum_column simp del: coords_iff)
qed

lemma run_sum_all:
  assumes "good_shape s"
  shows "run1 (sum_all real_reduce) (tabulate s f) = Some (Inr (tabulate [] (\<lambda>_. \<Sum>x \<in> coords s. f x)))"
proof (rule run1_tab[OF assms])
  fix t :: tensor and h assume h: "holds (tabulate s f) t h"
  have "computes h F32 [] (\<lambda>_. foldl (+) 0 (elems t h)) (sum_all real_reduce t h)"
    using sum_all_run[of t h real_reduce] holds_facts[OF h] by (simp add: reduce_dtype_def)
  then show "computes h F32 [] (\<lambda>_. \<Sum>x \<in> coords s. f x) (sum_all real_reduce t h)"
    by (simp add: holds_elems[OF h] foldl_plus sum_coords_list)
qed

lemma run_mean_dim:
  assumes "good_shape s" "good_shape (reduced_shape dims True s)" "\<forall>d \<in> set dims. d < length s"
  shows "run1 (\<lambda>t. mean_dim real_reduce t dims True) (tabulate s f)
    = Some (Inr (tabulate (reduced_shape dims True s) (mean_over dims s f)))"
proof (rule run1_tab[OF assms(1)])
  fix t :: tensor and h assume h: "holds (tabulate s f) t h"
  show "computes h F32 (reduced_shape dims True s) (mean_over dims s f) (mean_dim real_reduce t dims True h)"
    using mean_dim_ok[of t h dims True real_reduce] holds_facts[OF h] assms fiber_sum[OF h]
    by (simp add: mean_over_def[abs_def] good_shape_def mean_dtype_def)
qed

section \<open>Products\<close>

lemma run_matmul_transposes:
  assumes "good_shape ls" "good_shape rs" "good_shape [m, n]" "gemm_ok (real_ops gm)"
    and "ls = (if ta then [k, m] else [m, k])" "rs = (if tb then [n, k] else [k, n])"
  shows "run2 (\<lambda>t u. matmul_with_transposes (real_ops gm) t u ta tb) (tabulate ls f) (tabulate rs g)
    = Some (Inr (tabulate [m, n] (\<lambda>cs. \<Sum>kk < k. f (if ta then [kk, cs ! 0] else [cs ! 0, kk]) * g (if tb then [cs ! 1, kk] else [kk, cs ! 1]))))"
proof (rule run2_tab[OF assms(1,2)])
  fix a b :: tensor and h assume h: "holds (tabulate ls f) a h" "holds (tabulate rs g) b h"
  have "computes h F32 [m, n] (product_elem (real_ops gm) F32 (t_elem a h) ta (t_elem b h) tb k) (matmul_with_transposes (real_ops gm) a b ta tb h)"
    using matmul_with_transposes_computes[of a h b ta k m tb n "real_ops gm"] holds_facts[OF h(1)] holds_facts[OF h(2)] assms
    by (simp add: good_shape_def mean_dtype_def numel_prod_list)
  then show "computes h F32 [m, n] (\<lambda>cs. \<Sum>kk < k. f (if ta then [kk, cs ! 0] else [cs ! 0, kk]) * g (if tb then [cs ! 1, kk] else [kk, cs ! 1]))
      (matmul_with_transposes (real_ops gm) a b ta tb h)"
    by (rule computes_cong)
      (auto simp: product_elem_def dot_product_real valid2 assms(5,6) intro!: sum.cong arg_cong2[where f = "(*)"]
        holds_elt[OF h(1)] holds_elt[OF h(2)])
qed

lemma run_matmul:
  assumes "good_shape [m, k]" "good_shape [k, n]" "good_shape [m, n]" "gemm_ok (real_ops gm)"
  shows "run2 (cpu_matmul (real_ops gm)) (tabulate [m, k] f) (tabulate [k, n] g) = Some (Inr (tabulate [m, n] (matrix_mul k f g)))"
proof (rule run2_tab[OF assms(1,2)])
  fix a b :: tensor and h assume h: "holds (tabulate [m, k] f) a h" "holds (tabulate [k, n] g) b h"
  have "computes h F32 [m, n] (matrix_product (real_ops gm) F32 a b h k) (cpu_matmul (real_ops gm) a b h)"
    using matmul_computes[of a h b m k n "real_ops gm"] holds_facts[OF h(1)] holds_facts[OF h(2)] assms
    by (simp add: good_shape_def mean_dtype_def numel_prod_list)
  then show "computes h F32 [m, n] (matrix_mul k f g) (cpu_matmul (real_ops gm) a b h)"
    by (rule computes_cong)
      (auto simp: matrix_product_def matrix_mul_def dot_product_real valid2 holds_elt[OF h(1)] holds_elt[OF h(2)] intro!: sum.cong)
qed

lemma run_add_bias:
  assumes "good_shape [m, n]" "good_shape [n]"
  shows "run2 (cpu_add_bias (real_ops gm)) (tabulate [m, n] f) (tabulate [n] g) = Some (Inr (tabulate [m, n] (\<lambda>cs. f cs + g [cs ! 1])))"
proof (rule run2_tab[OF assms])
  fix a b :: tensor and h assume h: "holds (tabulate [m, n] f) a h" "holds (tabulate [n] g) b h"
  have "computes h F32 [m, n] (\<lambda>cs. t_elem a h cs + t_elem b h [cs ! 1]) (cpu_add_bias (real_ops gm) a b h)"
    using add_bias_computes[of a h b m n "real_ops gm"] holds_facts[OF h(1)] holds_facts[OF h(2)] by simp
  then show "computes h F32 [m, n] (\<lambda>cs. f cs + g [cs ! 1]) (cpu_add_bias (real_ops gm) a b h)"
    by (rule computes_cong) (auto simp: valid2 valid1 holds_elt[OF h(1)] holds_elt[OF h(2)])
qed

lemma run_linear:
  assumes "good_shape [m, k]" "good_shape [k, n]" "good_shape [n]" "good_shape [m, n]" "gemm_ok (real_ops gm)"
  shows "run3 (matmul_with_bias (real_ops gm)) (tabulate [m, k] f) (tabulate [k, n] g) (tabulate [n] b)
    = Some (Inr (tabulate [m, n] (\<lambda>cs. matrix_mul k f g cs + b [cs ! 1])))"
proof (rule run3_tab[OF assms(1-3)])
  fix x w c :: tensor and h
  assume h: "holds (tabulate [m, k] f) x h" "holds (tabulate [k, n] g) w h" "holds (tabulate [n] b) c h"
  have "computes h F32 [m, n] (\<lambda>cs. matrix_product (real_ops gm) F32 x w h k cs + t_elem c h [cs ! 1]) (matmul_with_bias (real_ops gm) x w c h)"
    using matmul_with_bias_computes[of x h w c m k n "real_ops gm"] holds_facts[OF h(1)] holds_facts[OF h(2)] holds_facts[OF h(3)] assms
    by (simp add: good_shape_def numel_prod_list)
  then show "computes h F32 [m, n] (\<lambda>cs. matrix_mul k f g cs + b [cs ! 1]) (matmul_with_bias (real_ops gm) x w c h)"
    by (rule computes_cong)
      (auto simp: matrix_product_def matrix_mul_def dot_product_real valid2 valid1 holds_elt[OF h(1)] holds_elt[OF h(2)] holds_elt[OF h(3)] intro!: sum.cong)
qed

lemma run_bmm:
  assumes "good_shape [b, m, k]" "good_shape [b, k, n]" "good_shape [b, m, n]"
  shows "run2 (bmm_impl (real_ops gm)) (tabulate [b, m, k] f) (tabulate [b, k, n] g) = Some (Inr (tabulate [b, m, n] (batch_mul k f g)))"
proof (rule run2_tab[OF assms(1,2)])
  fix x y :: tensor and h assume h: "holds (tabulate [b, m, k] f) x h" "holds (tabulate [b, k, n] g) y h"
  have "computes h F32 [b, m, n] (\<lambda>cs. \<Sum>kk < k. t_elem x h [cs ! 0, cs ! 1, kk] * t_elem y h [cs ! 0, kk, cs ! 2]) (bmm_impl (real_ops gm) x y h)"
    using bmm_computes[of x h y b m k n "real_ops gm"] holds_facts[OF h(1)] holds_facts[OF h(2)] assms
    by (simp add: good_shape_def numel_prod_list dot_product_real mult.assoc)
  then show "computes h F32 [b, m, n] (batch_mul k f g) (bmm_impl (real_ops gm) x y h)"
    by (rule computes_cong) (auto simp: batch_mul_def valid3 holds_elt[OF h(1)] holds_elt[OF h(2)] intro!: sum.cong)
qed


section \<open>The mean, copies and rows\<close>

lemma run_mean_all:
  assumes "good_shape s"
  shows "run1 (mean_all real_reduce) (tabulate s f) = Some (Inr (tabulate [] (\<lambda>_. (\<Sum>x \<in> coords s. f x) / real (numel s))))"
proof (rule run1_tab[OF assms])
  fix t :: tensor and h assume h: "holds (tabulate s f) t h"
  note H = holds_facts[OF h]
  have "computes h F32 [] (\<lambda>_. foldl (+) 0 (elems t h)) (full_reduce F32 t 0 (plain_add real_reduce F32) h)"
    using sum_all_run[of t h real_reduce] H by (simp add: sum_all_def full_dispatch_def reduce_dtype_def)
  then obtain u h1 where u: "full_reduce F32 t 0 (plain_add real_reduce F32) h = Some (Inr u, h1)" "tensor_ok u h1" "t_shape u = []" "t_dtype u = F32"
      "contiguous (t_layout u)" "storage_offset (t_layout u) = 0" "extends h h1" "t_elem u h1 [] = foldl (+) 0 (elems t h)"
    unfolding computes_def by auto
  have v: "foldl (+) 0 (elems t h) = (\<Sum>x \<in> coords s. f x)"
    by (simp add: holds_elems[OF h, unfolded numel_prod_list] foldl_plus sum_coords_list[unfolded numel_prod_list])
  have "elems u h1 = [t_elem u h1 []]" by (simp only: elems_def u(3)) (simp add: numel_def)
  then have sl: "as_slice F32 u h1 = Some (Some [\<Sum>x \<in> coords s. f x])"
    using contiguous_numel_data[OF u(2,5,6)] u(4,8) v by simp
  have n: "numel s \<noteq> 0" using assms by (simp add: good_shape_def numel_eq_0_iff)
  let ?v = "(\<Sum>x \<in> coords s. f x) / real (numel s)"
  obtain w h2 where w: "new_tensor F32 [] [?v] h1 = (w, h2)" by fastforce
  have fits: "fits_memory F32 (numel [])" using good_shape_Nil by (simp add: good_shape_def)
  have len: "length [?v] = numel []" by (simp add: numel_def)
  have "scalar ?v h1 = Some (w, h2)"
    using expect_from_vec[OF len fits, of h1] w by (simp add: scalar_def new_tensor_def)
  then have "mean_all real_reduce t h = map_option (\<lambda>(r, h). (r, drop_tensor u h)) (Some (Inr w, h2))"
    using n H(2,3) by (simp add: mean_all_def mean_dtype_def u(1) sl)
  moreover have "computes h1 F32 [] (\<lambda>_. ?v) (Some (Inr w, h2))"
    using new_tensor_ok[OF len fits w] new_tensor_extends[OF w] new_tensor_elem[OF len fits w, of "[]"] by (intro computesI) auto
  then have "computes h F32 [] (\<lambda>_. ?v) (map_option (\<lambda>(r, h). (r, drop_tensor u h)) (Some (Inr w, h2)))"
    by (rule computes_extended[OF _ u(7) drop_tensor_extends])
  ultimately show "computes h F32 [] (\<lambda>_. ?v) (mean_all real_reduce t h)" by simp
qed

lemma dense_transpose_tab:
  assumes "good_shape s" "d0 < length s" "d1 < length s"
  shows "dense_transpose (tabulate s f) d0 d1 = Some (Inr (tabulate (list_swap s d0 d1) (\<lambda>cs. f (list_swap cs d0 d1))))"
proof -
  obtain t h where l: "load (tabulate s f) no_tensors = (t, h)" by fastforce
  have t: "holds (tabulate s f) t h" using load_holds[OF ok_tabulate[OF assms(1)] l] by simp
  obtain v h1 c h2 where r: "view_tensor t (CallTranspose d0 d1) h = (Inr v, h1)" "contiguous_tensor v h1 = Some (c, h2)"
    "computes h F32 (list_swap s d0 d1) (\<lambda>cs. t_elem t h (list_swap cs d0 d1)) (Some (Inr c, h2))"
    using transpose_copies[of t h d0 d1] holds_facts[OF t] assms by auto
  have "computes h F32 (list_swap s d0 d1) (\<lambda>cs. f (list_swap cs d0 d1)) (Some (Inr c, h2))"
    using r(3) by (rule computes_cong) (use holds_elt[OF t] valid_swap[of s d0 d1] assms(2,3) in auto)
  from unload_computes[OF this] show ?thesis by (simp add: dense_transpose_def l r(1,2) unload_result_def)
qed

lemma from_vec_map:
  "good_shape s \<Longrightarrow> dense_from_vec s (map (\<lambda>i. f (coords_of s i)) [0..<numel s]) = Inr (tabulate s f)"
  by (simp add: dense_from_vec_ok tabulate_as_def good_shape_def)

lemma f32_slice_tab [simp]: "f32_slice (tabulate s f) = Some (map (\<lambda>i. f (coords_of s i)) [0..<numel s])"
  by (simp add: f32_slice_def tabulate_as_def)

lemma run_select:
  assumes "good_shape s" "s \<noteq> []" "valid_indices (hd s) idx" "good_shape (numel (d_shape idx) # tl s)"
  shows "run2 (\<lambda>t u. index_select floor t 0 u) (tabulate s f) idx
    = Some (Inr (tabulate (numel (d_shape idx) # tl s) (\<lambda>cs. f (index_row idx (hd cs) # tl cs))))"
proof (rule run2_computes)
  fix a b :: tensor and h assume h: "holds (tabulate s f) a h" "holds idx b h"
  obtain n where sh: "d_shape idx = [n]" using assms(3) by (auto simp: valid_indices_def length_Suc_conv)
  have n: "numel (d_shape idx) = n" by (simp add: sh numel_def)
  have B: "tensor_ok b h" "t_shape b = [n]" "t_dtype b = I64" "elems b h = d_elems idx"
    using h(2) assms(3) sh by (simp_all add: holds_def valid_indices_def)
  have r: "in_range (hd s) (map floor (elems b h))"
    using assms(3) B(4) by (auto simp: in_range_def valid_indices_def list_all_iff)
  have up: "s[0 := n] = n # tl s" "s ! 0 = hd s" using assms(2) by (cases s; simp)+
  obtain t' h' where m: "index_select floor a 0 b h = Some (Inr t', h')"
    "moved a h (n # tl s) (\<lambda>cs. cs[0 := nat \<lfloor>t_elem b h [cs ! 0]\<rfloor>]) t' h'"
    using index_select_ok[of a h b n 0 floor] holds_facts[OF h(1)] B r assms(2,4) up n
    by (auto simp: good_shape_def index_op_dtype_def)
  have el: "t_elem a h (cs[0 := nat \<lfloor>t_elem b h [cs ! 0]\<rfloor>]) = f (index_row idx (hd cs) # tl cs)" if cs: "valid_coords (n # tl s) cs" for cs
  proof -
    obtain c cs' where c: "cs = c # cs'" "c < n" using cs by (auto simp: valid_coords_Cons)
    have "t_elem b h [c] = d_elems idx ! c" using h(2) c(2) sh by (simp add: holds_def elt_def valid1)
    then have "cs[0 := nat \<lfloor>t_elem b h [cs ! 0]\<rfloor>] = index_row idx (hd cs) # tl cs" using c by (simp add: index_row_def)
    then show ?thesis using holds_elt[OF h(1)] valid_select[OF assms(2,3), of cs] cs n by simp
  qed
  show "computes h F32 (numel (d_shape idx) # tl s) (\<lambda>cs. f (index_row idx (hd cs) # tl cs)) (index_select floor a 0 b h)"
    using m holds_facts(3)[OF h(1)] el unfolding n computes_def by (auto simp: moved_def)
qed (use ok_tabulate[OF assms(1)] assms(3) in \<open>auto simp: valid_indices_def\<close>)


end
