(* ===== verification/Gradients.thy ===== *)
theory Gradients
  imports Exact
begin

text \<open>
  Every differentiable operation computes the value its meaning gives, and the function \<open>apply\<close> of its
  node is the adjoint of the derivative: the gradients it returns pair with tangents of the operands
  as the incoming gradient pairs with the derivative along them.
\<close>

section \<open>The loops of \<open>apply\<close>\<close>

lemma ok_or_panic_simps [simp]: "ok_or_panic (Some (Inr x)) = Some x" "ok_or_panic (Some (Inl e)) = None" "ok_or_panic None = None"
  by (simp_all add: ok_or_panic_def)

lemma scale_elems_tab:
  assumes "good_shape s"
  shows "scale_elems fac pr (tabulate s f) (tabulate s G) = Some [Some (tabulate s (\<lambda>cs. pr (G cs) (fac (f cs))))]"
proof -
  let ?g = "map (\<lambda>i. G (coords_of s i)) [0..<numel s]" and ?x = "map (\<lambda>i. f (coords_of s i)) [0..<numel s]"
  have "those (map (\<lambda>i. do { gi \<leftarrow> get_elem ?g i; Some (pr gi (fac (?x ! i))) }) [0..<length ?x])
      = Some (map (\<lambda>i. pr (G (coords_of s i)) (fac (f (coords_of s i)))) [0..<numel s])"
    using those_map_Some[of "[0..<numel s]" "\<lambda>i. do { gi \<leftarrow> get_elem ?g i; Some (pr gi (fac (?x ! i))) }"
        "\<lambda>i. pr (G (coords_of s i)) (fac (f (coords_of s i)))"] by (simp add: get_elem_def del: numel_prod_list)
  then show ?thesis using from_vec_map[OF assms, of "\<lambda>cs. pr (G cs) (fac (f cs))"] by (simp add: scale_elems_def)
qed

lemma tab_nth: "valid_coords s cs \<Longrightarrow> map (\<lambda>i. f (coords_of s i)) [0..<numel s] ! ravel s cs = f cs"
  using ravel_less[of s cs] by (simp add: numel_prod_list coords_of_ravel)

lemma batch_nth:
  assumes "a < b" "i < m" "j < n"
  shows "map (\<lambda>i. f (coords_of [b, m, n] i)) [0..<numel [b, m, n]] ! (a * m * n + i * n + j) = f [a, i, j]"
    and "a * m * n + i * n + j < length (map (\<lambda>i. f (coords_of [b, m, n] i)) [0..<numel [b, m, n]])"
  using tab_nth[of "[b, m, n]" "[a, i, j]" f] grid3_index[OF assms] assms
  by (simp_all only: ravel3 valid3) (simp_all add: numel_prod_list mult.assoc)

lemma batch_from_vec:
  assumes "good_shape [b, m, n]"
  shows "dense_from_vec [b, m, n] (map (\<lambda>(a, i, j). f [a, i, j]) (List.product [0..<b] (List.product [0..<m] [0..<n])))
    = Inr (tabulate [b, m, n] f)"
proof (rule dense_from_vec_tabulate)
  fix cs assume "valid_coords [b, m, n] cs"
  then obtain a i j where c: "cs = [a, i, j]" "a < b" "i < m" "j < n" by (auto simp: valid3)
  then show "map (\<lambda>(a, i, j). f [a, i, j]) (List.product [0..<b] (List.product [0..<m] [0..<n])) ! ravel [b, m, n] cs = f cs"
    using grid3_nth[OF c(2-4)] grid3_index[OF c(2-4)] by (simp add: mult.assoc add.assoc)
qed (use assms in \<open>simp_all add: good_shape_def numel_prod_list mult.assoc\<close>)

lemma mul_acc_real:
  assumes "\<And>kk. kk < k \<Longrightarrow> li kk < length l \<and> l ! li kk = f kk" "\<And>kk. kk < k \<Longrightarrow> ri kk < length r \<and> r ! ri kk = g kk"
  shows "mul_acc (real_ops gm) F32 l r li ri k = Some (\<Sum>kk < k. f kk * g kk)"
  using mul_acc_ok[OF assms] by (simp add: dot_product_real)

lemma bmm_grads:
  assumes "good_shape [b, m, k]" "good_shape [b, k, n]"
  shows "bmm_grad_inputs (real_ops gm) (tabulate [b, m, n] G) (tabulate [b, m, k] f) (tabulate [b, k, n] g) =
    Some (tabulate [b, m, k] (\<lambda>cs. \<Sum>j < n. G [cs ! 0, cs ! 1, j] * g [cs ! 0, cs ! 2, j]),
          tabulate [b, k, n] (\<lambda>cs. \<Sum>i < m. f [cs ! 0, i, cs ! 1] * G [cs ! 0, i, cs ! 2]))"
proof -
  let ?A = "\<lambda>cs. \<Sum>j < n. G [cs ! 0, cs ! 1, j] * g [cs ! 0, cs ! 2, j]"
  let ?B = "\<lambda>cs. \<Sum>i < m. f [cs ! 0, i, cs ! 1] * G [cs ! 0, i, cs ! 2]"
  let ?l = "\<lambda>s f. map (\<lambda>i. f (coords_of s i)) [0..<numel s]"
  have a: "mul_acc (real_ops gm) F32 (?l [b, m, n] G) (?l [b, k, n] g) (\<lambda>j. bi * m * n + i * n + j)
      (\<lambda>j. bi * k * n + kk * n + j) n = Some (?A [bi, i, kk])" if "bi < b" "i < m" "kk < k" for bi i kk
    using batch_nth that by (simp del: coords_of.simps numel_prod_list, intro mul_acc_real) (auto simp del: coords_of.simps numel_prod_list)
  have b: "mul_acc (real_ops gm) F32 (?l [b, m, k] f) (?l [b, m, n] G) (\<lambda>i. bi * m * k + i * k + kk)
      (\<lambda>i. bi * m * n + i * n + j) m = Some (?B [bi, kk, j])" if "bi < b" "kk < k" "j < n" for bi kk j
    using batch_nth that by (simp del: coords_of.simps numel_prod_list, intro mul_acc_real) (auto simp del: coords_of.simps numel_prod_list)
  have da: "those (map (\<lambda>(bi, i, kk). mul_acc (real_ops gm) F32 (?l [b, m, n] G) (?l [b, k, n] g) (\<lambda>j. bi * m * n + i * n + j)
        (\<lambda>j. bi * k * n + kk * n + j) n) (List.product [0..<b] (List.product [0..<m] [0..<k])))
      = Some (map (\<lambda>(bi, i, kk). ?A [bi, i, kk]) (List.product [0..<b] (List.product [0..<m] [0..<k])))"
    by (intro those_map_Some ballI) (clarsimp simp only: set_product mem_Sigma_iff set_upt atLeastLessThan_iff prod.case a)
  have db: "those (map (\<lambda>(bi, kk, j). mul_acc (real_ops gm) F32 (?l [b, m, k] f) (?l [b, m, n] G) (\<lambda>i. bi * m * k + i * k + kk)
        (\<lambda>i. bi * m * n + i * n + j) m) (List.product [0..<b] (List.product [0..<k] [0..<n])))
      = Some (map (\<lambda>(bi, kk, j). ?B [bi, kk, j]) (List.product [0..<b] (List.product [0..<k] [0..<n])))"
    by (intro those_map_Some ballI) (clarsimp simp only: set_product mem_Sigma_iff set_upt atLeastLessThan_iff prod.case b)
  have c: "vec_with_capacity F32 (b * m * k)" "vec_with_capacity F32 (b * k * n)"
    using assms fits_capacity[of F32 "b * m * k"] fits_capacity[of F32 "b * k * n"] by (simp_all add: good_shape_def numel_prod_list mult.assoc)
  show ?thesis
    unfolding bmm_grad_inputs_def f32_slice_tab
    using da db c batch_from_vec[OF assms(1), of ?A] batch_from_vec[OF assms(2), of ?B]
    by (simp del: coords_of.simps numel_prod_list)
qed

section \<open>The rows an index selects\<close>

text \<open>The loop that adds at positions, over any list of pairs of a target and a source.\<close>

lemma scatter_add:
  "\<forall>x \<in> set xs. P x < length acc \<and> Q x < length g \<Longrightarrow>
   \<exists>out. fold_opt (\<lambda>x acc. case (get_elem acc (P x), get_elem g (Q x)) of (Some a, Some y) \<Rightarrow> Some (acc[P x := a + y]) | _ \<Rightarrow> None) xs acc
     = Some out \<and> length out = length acc \<and> (\<forall>p < length acc. out ! p = acc ! p + sum_list (map (\<lambda>x. if P x = p then g ! Q x else 0) xs))"
  for g :: "real list"
proof (induction xs arbitrary: acc)
  case (Cons x xs)
  let ?acc = "acc[P x := acc ! P x + g ! Q x]"
  have "\<forall>y \<in> set xs. P y < length ?acc \<and> Q y < length g" using Cons.prems by simp
  from Cons.IH[OF this] obtain out where out: "fold_opt (\<lambda>x acc. case (get_elem acc (P x), get_elem g (Q x)) of
      (Some a, Some y) \<Rightarrow> Some (acc[P x := a + y]) | _ \<Rightarrow> None) xs ?acc = Some out" "length out = length ?acc"
    "\<forall>p < length ?acc. out ! p = ?acc ! p + sum_list (map (\<lambda>x. if P x = p then g ! Q x else 0) xs)" by blast
  then show ?case using Cons.prems by (intro exI[of _ out]) (auto simp: get_elem_def nth_list_update)
qed simp

lemma sum_list_product:
  "sum_list (map (\<lambda>(k, j). F k j) (List.product [0..<n] [0..<r])) = (\<Sum>k < n. \<Sum>j < r. F k j)" for F :: "nat \<Rightarrow> nat \<Rightarrow> real"
proof -
  have "sum_list (map (\<lambda>(k, j). F k j) (List.product [0..<n] [0..<r])) = (\<Sum>(k, j) \<in> {..<n} \<times> {..<r}. F k j)"
    by (subst sum_list_distinct_conv_sum_set) (auto simp: distinct_product atLeast0LessThan)
  then show ?thesis by (simp add: sum.cartesian_product)
qed

lemma sum_selected:
  fixes G :: field
  assumes cs: "valid_coords (d # ds) cs" and row: "\<And>k. k < n \<Longrightarrow> row k < d"
  shows "(\<Sum>k < n. \<Sum>j < numel ds. if row k * numel ds + j = ravel (d # ds) cs then G (k # coords_of ds j) else 0)
    = (\<Sum>x \<in> {x \<in> coords (n # ds). row (hd x) # tl x = cs}. G x)"
proof -
  have eq: "row k * numel ds + j = ravel (d # ds) cs \<longleftrightarrow> row k # coords_of ds j = cs" if "k < n" "j < numel ds" for k j
  proof -
    have v: "valid_coords (d # ds) (row k # coords_of ds j)"
      using row[OF that(1)] valid_coords_of_less[OF that(2)] by (simp add: valid_coords_Cons)
    have "row k * numel ds + j = ravel (d # ds) (row k # coords_of ds j)"
      using that(2) by (simp add: ravel_coords_of numel_prod_list)
    then show ?thesis using coords_of_ravel[OF v] coords_of_ravel[OF cs] by metis
  qed
  have "(\<Sum>x \<in> {x \<in> coords (n # ds). row (hd x) # tl x = cs}. G x) = (\<Sum>x \<in> coords (n # ds). if row (hd x) # tl x = cs then G x else 0)"
    by (rule sum.inter_filter) simp
  also have "\<dots> = (\<Sum>k < n. \<Sum>j < numel ds. if row k # coords_of ds j = cs then G (k # coords_of ds j) else 0)"
    unfolding sum_coords_Cons by (simp add: sum_coords)
  also have "\<dots> = (\<Sum>k < n. \<Sum>j < numel ds. if row k * numel ds + j = ravel (d # ds) cs then G (k # coords_of ds j) else 0)"
    using eq by (intro sum.cong refl) (auto simp del: ravel.simps numel_prod_list)
  finally show ?thesis by simp
qed

lemma index_apply_tab:
  assumes "good_shape (d # ds)" "valid_indices d idx" "good_shape (numel (d_shape idx) # ds)"
  shows "index_select_apply (real_ops gm) floor (d # ds) idx (tabulate (numel (d_shape idx) # ds) G)
    = Some [Some (tabulate (d # ds) (\<lambda>cs. \<Sum>x \<in> {x \<in> coords (numel (d_shape idx) # ds). index_row idx (hd x) # tl x = cs}. G x))]"
proof -
  let ?n = "numel (d_shape idx)" and ?r = "numel ds"
  let ?s = "?n # ds"
  let ?g = "map (\<lambda>i. G (coords_of ?s i)) [0..<numel ?s]"
  let ?idx = "map (\<lambda>x. as_usize \<lfloor>x\<rfloor>) (d_elems idx)"
  have "prod_list ds \<noteq> 0" using assms(1) by (simp add: good_shape_def prod_list_zero_iff)
  then have r: "max (prod_list ds) 1 = ?r" by (simp add: numel_prod_list)
  have len: "length (d_elems idx) = ?n" and ty: "d_dtype idx = I64" using assms(2) by (simp_all add: valid_indices_def dense_ok_def)
  have fits: "fits_memory F32 (d * ?r)" using assms(1) by (simp add: good_shape_def numel_prod_list)
  have small: "d < 2 ^ 64"
  proof -
    have "1 \<le> ?r" using r by linarith
    then have "d \<le> d * ?r" by (simp del: numel_prod_list)
    then show ?thesis using fits_memory_small[OF fits] unfolding u64_limit_def by (rule order.strict_trans1)
  qed
  have row: "?idx ! k = index_row idx k \<and> index_row idx k < d" if "k < ?n" for k
  proof -
    have "d_elems idx ! k \<in> set (d_elems idx)" using that len by simp
    then have b: "0 \<le> \<lfloor>d_elems idx ! k\<rfloor>" "\<lfloor>d_elems idx ! k\<rfloor> < int d" using assms(2) by (auto simp: valid_indices_def)
    have "as_usize \<lfloor>d_elems idx ! k\<rfloor> = nat \<lfloor>d_elems idx ! k\<rfloor>" by (rule as_usize_nonneg[OF b(1)]) (rule order.strict_trans[OF b(2)], use small in simp)
    then have "?idx ! k = index_row idx k" using that len by (simp add: index_row_def)
    then show ?thesis using b by (simp add: index_row_def nat_less_iff)
  qed
  have Q: "k * ?r + j < numel ?s \<and> ?g ! (k * ?r + j) = G (k # coords_of ds j)" if "k < ?n" "j < ?r" for k j
  proof -
    have v: "valid_coords ?s (k # coords_of ds j)" using that valid_coords_of_less[OF that(2)] by (simp add: valid_coords_Cons)
    have "ravel ?s (k # coords_of ds j) = k * ?r + j" using that(2) by (simp add: ravel_coords_of numel_prod_list)
    then show ?thesis using tab_nth[OF v, of G] ravel_less[OF v] by (simp only: numel_prod_list)
  qed
  define P where "P = (\<lambda>(k, j). ?idx ! k * ?r + j)"
  define S where "S = (\<lambda>(k, j). k * ?r + j)"
  let ?f = "\<lambda>(k, j) acc. case (get_elem acc (?idx ! k * ?r + j), get_elem ?g (k * ?r + j)) of
      (Some a, Some g) \<Rightarrow> Some (acc[?idx ! k * ?r + j := a + g]) | _ \<Rightarrow> None"
  have f: "?f = (\<lambda>x acc. case (get_elem acc (P x), get_elem ?g (S x)) of (Some a, Some y) \<Rightarrow> Some (acc[P x := a + y]) | _ \<Rightarrow> None)"
    by (intro ext) (auto simp: P_def S_def split: option.splits)
  have "\<forall>x \<in> set (List.product [0..<?n] [0..<?r]). P x < length (replicate (d * ?r) (0 :: real)) \<and> S x < length ?g"
    using Q row grid_index[of _ d _ ?r] by (auto simp: P_def S_def simp del: numel_prod_list coords_of.simps)
  from scatter_add[OF this] obtain out where out: "fold_opt ?f (List.product [0..<?n] [0..<?r]) (replicate (d * ?r) 0) = Some out"
    "length out = d * ?r" "\<And>p. p < d * ?r \<Longrightarrow> out ! p = replicate (d * ?r) 0 ! p
      + sum_list (map (\<lambda>x. if P x = p then ?g ! S x else 0) (List.product [0..<?n] [0..<?r]))"
    unfolding f length_replicate by blast
  let ?A = "\<lambda>cs. \<Sum>x \<in> {x \<in> coords ?s. index_row idx (hd x) # tl x = cs}. G x"
  have "dense_from_vec (d # ds) out = Inr (tabulate (d # ds) ?A)"
  proof (rule dense_from_vec_tabulate)
    fix cs assume cs: "valid_coords (d # ds) cs"
    have p: "ravel (d # ds) cs < d * ?r" using ravel_less[OF cs] by (simp add: numel_prod_list)
    have "out ! ravel (d # ds) cs = (\<Sum>k < ?n. \<Sum>j < ?r. if ?idx ! k * ?r + j = ravel (d # ds) cs then ?g ! (k * ?r + j) else 0)"
      using out(3)[OF p, unfolded P_def S_def case_prod_unfold] p by (simp add: case_prod_unfold sum_list_product[symmetric] del: numel_prod_list coords_of.simps ravel.simps)
    also have "\<dots> = (\<Sum>k < ?n. \<Sum>j < ?r. if index_row idx k * ?r + j = ravel (d # ds) cs then G (k # coords_of ds j) else 0)"
      using Q row by (intro sum.cong refl) (simp del: nth_map nth_map_upt numel_prod_list coords_of.simps ravel.simps)
    also have "\<dots> = ?A cs" using row by (intro sum_selected[OF cs]) simp
    finally show "out ! ravel (d # ds) cs = ?A cs" .
  qed (use assms(1) out(2) in \<open>simp_all add: good_shape_def numel_prod_list\<close>)
  then show ?thesis
    using out(1) fits_capacity[OF fits] r len ty
    by (simp add: index_select_apply_def Let_def del: numel_prod_list coords_of.simps cong: option.case_cong)
qed


section \<open>Adjoint functions\<close>

text \<open>
  \<open>ap\<close> takes a gradient of shape \<open>s\<close> to gradients of the operands, of shapes \<open>ss\<close>, that pair with
  tangents of the operands as the gradient pairs with the derivative \<open>D\<close> along them.
\<close>

definition adjoint_at :: "real node_fn \<Rightarrow> shape list \<Rightarrow> shape \<Rightarrow> (field list \<Rightarrow> field) \<Rightarrow> bool" where
  "adjoint_at ap ss s D \<longleftrightarrow> (\<forall>G. \<exists>As. length As = length ss
     \<and> ap (tabulate s G) = Some (map2 (\<lambda>r A. Some (tabulate r A)) ss As)
     \<and> (\<forall>ts. length ts = length ss \<longrightarrow> (\<Sum>k < length ss. pairing (ss ! k) (As ! k) (ts ! k)) = pairing s G (D ts)))"

lemma adjoint1:
  assumes "\<And>G. ap (tabulate s G) = Some [Some (tabulate r (A G))]" "\<And>G t. pairing r (A G) t = pairing s G (D [t])"
  shows "adjoint_at ap [r] s D"
  unfolding adjoint_at_def using assms by (intro allI, rule_tac x = "[A G]" in exI) (auto simp: length_Suc_conv)

lemma adjoint2:
  assumes "\<And>G. ap (tabulate s G) = Some [Some (tabulate r (A G)), Some (tabulate r' (A' G))]"
    and "\<And>G t t'. pairing r (A G) t + pairing r' (A' G) t' = pairing s G (D [t, t'])"
  shows "adjoint_at ap [r, r'] s D"
  unfolding adjoint_at_def using assms by (intro allI, rule_tac x = "[A G, A' G]" in exI) (auto simp: length_Suc_conv)

lemma adjoint3:
  assumes "\<And>G. ap (tabulate s G) = Some [Some (tabulate r (A G)), Some (tabulate r' (A' G)), Some (tabulate r'' (A'' G))]"
    and "\<And>G t t' t''. pairing r (A G) t + pairing r' (A' G) t' + pairing r'' (A'' G) t'' = pairing s G (D [t, t', t''])"
  shows "adjoint_at ap [r, r', r''] s D"
  unfolding adjoint_at_def using assms
  by (intro allI, rule_tac x = "[A G, A' G, A'' G]" in exI) (auto simp: length_Suc_conv eval_nat_numeral)

section \<open>Functions of one element\<close>

fun run_unary_call :: "gemm \<Rightarrow> unary_fun \<Rightarrow> variable \<Rightarrow> real dense heap \<Rightarrow> real op_result" where
  "run_unary_call gm UNeg = op_neg (real_ops gm)"
| "run_unary_call gm URelu = op_relu (real_ops gm)"
| "run_unary_call gm USigmoid = op_sigmoid (real_ops gm)"
| "run_unary_call gm UTanh = op_tanh (real_ops gm)"
| "run_unary_call gm USilu = op_silu (real_ops gm)"
| "run_unary_call gm (ULeaky slope) = op_leaky_relu (real_ops gm) slope"
| "run_unary_call gm UExp = op_exp (real_ops gm)"
| "run_unary_call gm ULog = op_log (real_ops gm)"
| "run_unary_call gm USqrt = op_sqrt (real_ops gm)"
| "run_unary_call gm UAbs = op_abs (real_ops gm)"
| "run_unary_call gm (UPow e) = op_pow_scalar (real_ops gm) e"

text \<open>The kernel of the forward computation and the function \<open>apply\<close>, from the input and the output.\<close>

fun unary_kernel :: "gemm \<Rightarrow> unary_fun \<Rightarrow> tensor \<Rightarrow> real theap \<Rightarrow> real kernel_result" where
  "unary_kernel gm UNeg = cpu_neg (real_ops gm)"
| "unary_kernel gm URelu = cpu_relu (real_ops gm)"
| "unary_kernel gm USigmoid = cpu_sigmoid (real_ops gm)"
| "unary_kernel gm UTanh = cpu_tanh (real_ops gm)"
| "unary_kernel gm USilu = cpu_silu (real_ops gm)"
| "unary_kernel gm (ULeaky slope) = (\<lambda>t. cpu_leaky_relu (real_ops gm) t slope)"
| "unary_kernel gm UExp = cpu_exp (real_ops gm)"
| "unary_kernel gm ULog = cpu_log (real_ops gm)"
| "unary_kernel gm USqrt = cpu_sqrt (real_ops gm)"
| "unary_kernel gm UAbs = cpu_abs (real_ops gm)"
| "unary_kernel gm (UPow e) = (\<lambda>t. cpu_pow_scalar (real_ops gm) t e)"

fun unary_apply :: "gemm \<Rightarrow> unary_fun \<Rightarrow> real dense \<Rightarrow> device \<Rightarrow> real dense \<Rightarrow> real node_fn" where
  "unary_apply gm UNeg x dev out = neg_apply (real_ops gm) dev"
| "unary_apply gm URelu x dev out = relu_apply (real_ops gm) x dev"
| "unary_apply gm USigmoid x dev out = sigmoid_apply (real_ops gm) out dev"
| "unary_apply gm UTanh x dev out = tanh_apply (real_ops gm) out dev"
| "unary_apply gm USilu x dev out = silu_apply (real_ops gm) x dev"
| "unary_apply gm (ULeaky slope) x dev out = leaky_relu_apply (real_ops gm) x slope"
| "unary_apply gm UExp x dev out = exp_apply (real_ops gm) out dev"
| "unary_apply gm ULog x dev out = log_apply (real_ops gm) x dev"
| "unary_apply gm USqrt x dev out = sqrt_apply (real_ops gm) out dev"
| "unary_apply gm UAbs x dev out = abs_apply (real_ops gm) x"
| "unary_apply gm (UPow e) x dev out = pow_scalar_apply (real_ops gm) x e dev"

lemma unary_apply_eq:
  "unary_apply gm UNeg = (\<lambda>x dev out. neg_apply (real_ops gm) dev)"
  "unary_apply gm URelu = (\<lambda>x dev out. relu_apply (real_ops gm) x dev)"
  "unary_apply gm USigmoid = (\<lambda>x dev out. sigmoid_apply (real_ops gm) out dev)"
  "unary_apply gm UTanh = (\<lambda>x dev out. tanh_apply (real_ops gm) out dev)"
  "unary_apply gm USilu = (\<lambda>x dev out. silu_apply (real_ops gm) x dev)"
  "unary_apply gm (ULeaky slope) = (\<lambda>x dev out. leaky_relu_apply (real_ops gm) x slope)"
  "unary_apply gm UExp = (\<lambda>x dev out. exp_apply (real_ops gm) out dev)"
  "unary_apply gm ULog = (\<lambda>x dev out. log_apply (real_ops gm) x dev)"
  "unary_apply gm USqrt = (\<lambda>x dev out. sqrt_apply (real_ops gm) out dev)"
  "unary_apply gm UAbs = (\<lambda>x dev out. abs_apply (real_ops gm) x)"
  "unary_apply gm (UPow e) = (\<lambda>x dev out. pow_scalar_apply (real_ops gm) x e dev)"
  by (simp_all add: fun_eq_iff)

lemma run_unary_call_eq: "\<exists>op name. run_unary_call gm u = unary_op op name (unary_kernel gm u) (unary_apply gm u)"
  by (cases u; simp only: run_unary_call.simps unary_kernel.simps unary_apply_eq op_neg_def op_relu_def op_sigmoid_def op_tanh_def
      op_silu_def op_leaky_relu_def op_exp_def op_log_def op_sqrt_def op_abs_def op_pow_scalar_def; intro exI; rule refl)

lemma run_neg: "good_shape s \<Longrightarrow> run1 (cpu_neg (real_ops gm)) (tabulate s f) = Some (Inr (tabulate s (\<lambda>cs. - f cs)))"
  using unary_computes[of _ _ F32 uminus "''neg''"] by (intro run_unary) (auto simp: cpu_neg_def)

lemma run_abs: "good_shape s \<Longrightarrow> run1 (cpu_abs (real_ops gm)) (tabulate s f) = Some (Inr (tabulate s (\<lambda>cs. \<bar>f cs\<bar>)))"
  using unary_computes[of _ _ F32 abs "''abs''"] by (intro run_unary) (auto simp: cpu_abs_def reduce_dtype_def)

lemma run_relu: "good_shape s \<Longrightarrow> run1 (cpu_relu (real_ops gm)) (tabulate s f) = Some (Inr (tabulate s (\<lambda>cs. max (f cs) 0)))"
proof (intro run_unary)
  fix t :: tensor and h :: "real theap" assume "tensor_ok t h" "t_dtype t = F32"
  then show "computes h F32 (t_shape t) (\<lambda>cs. max (t_elem t h cs) 0) (cpu_relu (real_ops gm) t h)"
    using relu_computes[of t h "real_ops gm"] by (simp add: relu_fn_def mean_dtype_def)
qed

lemma run_sigmoid: "good_shape s \<Longrightarrow> run1 (cpu_sigmoid (real_ops gm)) (tabulate s f) = Some (Inr (tabulate s (\<lambda>cs. logistic (f cs))))"
  using run_float[of s "cpu_sigmoid (real_ops gm)" "''sigmoid''" "sigmoid_fn (real_ops gm)" f]
  by (simp add: fun_eq_iff cpu_sigmoid_def sigmoid_fn_def logistic_def)

lemma run_pow: "good_shape s \<Longrightarrow> run1 (\<lambda>t. cpu_pow_scalar (real_ops gm) t e) (tabulate s f) = Some (Inr (tabulate s (\<lambda>cs. f cs powr e)))"
  using run_float[of s "\<lambda>t. cpu_pow_scalar (real_ops gm) t e" "''pow_scalar''" "\<lambda>d x. nm_pow (real_ops gm) d x (at_type (real_ops gm) d e)" f]
  by (simp add: fun_eq_iff cpu_pow_scalar_def)

lemma run_unary_kernel:
  assumes "good_shape s"
  shows "run1 (unary_kernel gm u) (tabulate s f) = Some (Inr (tabulate s (\<lambda>cs. unary_val u (f cs))))"
proof (cases u)
  case UTanh
  then show ?thesis using run_float[OF assms, of "cpu_tanh (real_ops gm)" "''tanh''" "nm_tanh (real_ops gm)" f]
    by (simp add: fun_eq_iff cpu_tanh_def)
next
  case USilu
  then show ?thesis using run_float[OF assms, of "cpu_silu (real_ops gm)" "''silu''" "silu_fn (real_ops gm)" f]
    by (simp add: fun_eq_iff cpu_silu_def silu_fn_def logistic_def)
next
  case (ULeaky slope)
  then show ?thesis
    using run_float[OF assms, of "\<lambda>t. cpu_leaky_relu (real_ops gm) t slope" "''leaky_relu''" "leaky_fn (real_ops gm) slope" f]
    by (simp add: fun_eq_iff cpu_leaky_relu_def leaky_fn_def cong: if_cong)
next
  case UExp
  then show ?thesis using run_float[OF assms, of "cpu_exp (real_ops gm)" "''exp''" "nm_exp (real_ops gm)" f]
    by (simp add: fun_eq_iff cpu_exp_def)
next
  case ULog
  then show ?thesis using run_float[OF assms, of "cpu_log (real_ops gm)" "''log''" "nm_ln (real_ops gm)" f]
    by (simp add: fun_eq_iff cpu_log_def)
next
  case USqrt
  then show ?thesis using run_float[OF assms, of "cpu_sqrt (real_ops gm)" "''sqrt''" "nm_sqrt (real_ops gm)" f]
    by (simp add: fun_eq_iff cpu_sqrt_def)
qed (use assms run_neg run_abs run_relu run_sigmoid run_pow in simp_all)

lemma unary_apply_tab:
  assumes "good_shape s"
  shows "unary_apply gm u (tabulate s f) Cpu (tabulate s (\<lambda>cs. unary_val u (f cs))) (tabulate s G)
    = Some [Some (tabulate s (\<lambda>cs. G cs * unary_der u (f cs)))]"
proof -
  have m: "dense_to_dtype (real_ops gm) (tabulate_as Bool s F) F32 = Some (tabulate s (\<lambda>cs. of_bool (F cs \<noteq> 0)))" for F
    using assms fits_bool by (intro cast_tabulated) (auto simp: good_shape_def)
  note runs = elementwise[where nm = "real_ops gm"] assms run_neg run_sigmoid run_pow relu_mask m scale_elems_tab
  show ?thesis
    by (cases u)
      (simp_all add: runs neg_apply_def relu_apply_def sigmoid_apply_def tanh_apply_def silu_apply_def leaky_relu_apply_def
        exp_apply_def log_apply_def sqrt_apply_def abs_apply_def pow_scalar_apply_def scalar_two_def
        tabulate_eq_iff sgn_real_def algebra_simps divide_simps)
qed


section \<open>Functions of two elements\<close>

fun run_binary_call :: "gemm \<Rightarrow> binary_fun \<Rightarrow> variable \<Rightarrow> variable \<Rightarrow> real dense heap \<Rightarrow> real op_result" where
  "run_binary_call gm BAdd = op_add (real_ops gm)"
| "run_binary_call gm BSub = op_sub (real_ops gm)"
| "run_binary_call gm BMul = op_mul (real_ops gm)"
| "run_binary_call gm BDiv = op_div (real_ops gm)"

fun binary_kernel :: "gemm \<Rightarrow> binary_fun \<Rightarrow> tensor \<Rightarrow> tensor \<Rightarrow> real theap \<Rightarrow> real kernel_result" where
  "binary_kernel gm BAdd = cpu_add (real_ops gm)"
| "binary_kernel gm BSub = cpu_sub (real_ops gm)"
| "binary_kernel gm BMul = cpu_mul (real_ops gm)"
| "binary_kernel gm BDiv = cpu_div (real_ops gm)"

fun binary_apply :: "gemm \<Rightarrow> binary_fun \<Rightarrow> real dense \<Rightarrow> real dense \<Rightarrow> device \<Rightarrow> real dense \<Rightarrow> real node_fn" where
  "binary_apply gm BAdd l r dev out = add_apply (real_ops gm) (d_shape l) (d_shape r) dev"
| "binary_apply gm BSub l r dev out = sub_apply (real_ops gm) (d_shape l) (d_shape r) dev"
| "binary_apply gm BMul l r dev out = mul_apply (real_ops gm) l r dev"
| "binary_apply gm BDiv l r dev out = div_apply (real_ops gm) l r dev"

lemma binary_apply_eq:
  "binary_apply gm BAdd = (\<lambda>l r dev out. add_apply (real_ops gm) (d_shape l) (d_shape r) dev)"
  "binary_apply gm BSub = (\<lambda>l r dev out. sub_apply (real_ops gm) (d_shape l) (d_shape r) dev)"
  "binary_apply gm BMul = (\<lambda>l r dev out. mul_apply (real_ops gm) l r dev)"
  "binary_apply gm BDiv = (\<lambda>l r dev out. div_apply (real_ops gm) l r dev)"
  by (simp_all add: fun_eq_iff)

lemma run_binary_call_eq: "\<exists>op name. run_binary_call gm b = binary_op op name (binary_kernel gm b) (binary_apply gm b)"
  by (cases b; simp only: run_binary_call.simps binary_kernel.simps binary_apply_eq op_add_def op_sub_def op_mul_def op_div_def;
      intro exI; rule refl)

lemma run_binary_kernel:
  assumes "good_shape s" "good_shape t" "good_shape u" "broadcast_with s t = Inr u"
  shows "run2 (binary_kernel gm b) (tabulate s f) (tabulate t g)
    = Some (Inr (tabulate u (\<lambda>cs. binary_val b (f (project_coords s cs)) (g (project_coords t cs)))))"
  by (cases b) (simp_all add: dispatch_eta run_dispatch[OF assms])

text \<open>A gradient with an operand, in either order.\<close>

lemma run_grad:
  assumes "good_shape u" "good_shape t" "broadcast_with t u = Inr u"
  shows "run2 (\<lambda>a b. dispatch_binary nm a b op kind) (tabulate u G) (tabulate t g)
      = Some (Inr (tabulate u (\<lambda>cs. binary_fn nm kind F32 (G cs) (g (project_coords t cs)))))"
    and "run2 (\<lambda>a b. dispatch_binary nm a b op kind) (tabulate t g) (tabulate u G)
      = Some (Inr (tabulate u (\<lambda>cs. binary_fn nm kind F32 (g (project_coords t cs)) (G cs))))"
  using run_dispatch[OF assms(1,2,1) broadcast_with_commute[OF assms(3)], of nm op kind G g]
    run_dispatch[OF assms(2,1,1,3), of nm op kind g G]
  by (auto simp: project_coords_self intro: tabulate_cong)

lemma binary_apply_tab:
  assumes g: "good_shape s" "good_shape t" "good_shape u" and bc: "broadcast_with s t = Inr u"
  shows "binary_apply gm b (tabulate s f) (tabulate t g) Cpu out (tabulate u G) = Some
    [Some (tabulate s (\<lambda>cs. \<Sum>x \<in> {x \<in> coords u. project_coords s x = cs}.
        G x * binary_dl b (f (project_coords s x)) (g (project_coords t x)))),
     Some (tabulate t (\<lambda>cs. \<Sum>x \<in> {x \<in> coords u. project_coords t x = cs}.
        G x * binary_dr b (f (project_coords s x)) (g (project_coords t x))))]"
proof -
  have s: "broadcast_with s u = Inr u" by (rule broadcast_absorb[OF bc])
  have t: "broadcast_with t u = Inr u" by (rule broadcast_absorb[OF broadcast_with_commute[OF bc]])
  note runs = dispatch_eta run_same[OF g(2)] run_grad[OF g(3,1) s] run_grad[OF g(3,2) t] run_neg[OF g(3)] unbroadcast_grad_def
    run_unbroadcast[OF g(3) s] run_unbroadcast[OF g(3) t] sum_negf
  show ?thesis
    by (cases b) (simp_all add: runs add_apply_def sub_apply_def mul_apply_def div_apply_def algebra_simps)
qed

lemma binary_pairing:
  fixes G :: field
  assumes "broadcast_with s t = Inr u"
  shows "pairing s (\<lambda>cs. \<Sum>x \<in> {x \<in> coords u. project_coords s x = cs}. G x * L x) v
      + pairing t (\<lambda>cs. \<Sum>x \<in> {x \<in> coords u. project_coords t x = cs}. G x * R x) w
    = pairing u G (\<lambda>x. L x * v (project_coords s x) + R x * w (project_coords t x))"
  unfolding pairing_def
  using bcast_coords[OF assms] sum_grouped[of u "project_coords s" s "\<lambda>x. G x * L x" v]
    sum_grouped[of u "project_coords t" t "\<lambda>x. G x * R x" w]
  by (simp add: sum.distrib[symmetric] algebra_simps)

section \<open>The adjoints of sums and products\<close>

lemma matrix_adjoint:
  "pairing [m, k] (\<lambda>cs. \<Sum>j < n. G [cs ! 0, j] * g [cs ! 1, j]) v + pairing [k, n] (\<lambda>cs. \<Sum>i < m. f [i, cs ! 0] * G [i, cs ! 1]) w
    = pairing [m, n] G (\<lambda>cs. matrix_mul k v g cs + matrix_mul k f w cs)"
proof -
  have l: "(\<Sum>i < m. \<Sum>kk < k. (\<Sum>j < n. G [i, j] * g [kk, j]) * v [i, kk]) = (\<Sum>i < m. \<Sum>j < n. G [i, j] * (\<Sum>kk < k. v [i, kk] * g [kk, j]))"
    unfolding sum_distrib_left sum_distrib_right
    by (rule sum.cong[OF refl], subst sum.swap) (simp add: algebra_simps)
  have "(\<Sum>kk < k. \<Sum>j < n. (\<Sum>i < m. f [i, kk] * G [i, j]) * w [kk, j]) = (\<Sum>j < n. \<Sum>kk < k. \<Sum>i < m. f [i, kk] * G [i, j] * w [kk, j])"
    unfolding sum_distrib_right by (rule sum.swap)
  also have "\<dots> = (\<Sum>j < n. \<Sum>i < m. \<Sum>kk < k. f [i, kk] * G [i, j] * w [kk, j])" by (intro sum.cong refl sum.swap)
  also have "\<dots> = (\<Sum>i < m. \<Sum>j < n. \<Sum>kk < k. f [i, kk] * G [i, j] * w [kk, j])" by (rule sum.swap)
  also have "\<dots> = (\<Sum>i < m. \<Sum>j < n. G [i, j] * (\<Sum>kk < k. f [i, kk] * w [kk, j]))"
    unfolding sum_distrib_left by (simp add: algebra_simps)
  finally have r: "(\<Sum>kk < k. \<Sum>j < n. (\<Sum>i < m. f [i, kk] * G [i, j]) * w [kk, j]) = (\<Sum>i < m. \<Sum>j < n. G [i, j] * (\<Sum>kk < k. f [i, kk] * w [kk, j]))" .
  show ?thesis using l r by (simp add: pairing_def sum_coords2 matrix_mul_def distrib_left sum.distrib)
qed

lemma batch_adjoint:
  "pairing [b, m, k] (\<lambda>cs. \<Sum>j < n. G [cs ! 0, cs ! 1, j] * g [cs ! 0, cs ! 2, j]) v
      + pairing [b, k, n] (\<lambda>cs. \<Sum>i < m. f [cs ! 0, i, cs ! 1] * G [cs ! 0, i, cs ! 2]) w
    = pairing [b, m, n] G (\<lambda>cs. batch_mul k v g cs + batch_mul k f w cs)"
proof -
  have split: "pairing [b, m, n] F H = (\<Sum>a < b. pairing [m, n] (\<lambda>cs. F (a # cs)) (\<lambda>cs. H (a # cs)))" for F H :: field and m n
    by (simp add: pairing_def sum_coords_Cons)
  have "pairing [m, k] (\<lambda>cs. \<Sum>j < n. G [a, cs ! 0, j] * g [a, cs ! 1, j]) (\<lambda>cs. v (a # cs))
      + pairing [k, n] (\<lambda>cs. \<Sum>i < m. f [a, i, cs ! 0] * G [a, i, cs ! 1]) (\<lambda>cs. w (a # cs))
    = pairing [m, n] (\<lambda>cs. G (a # cs)) (\<lambda>cs. matrix_mul k (\<lambda>cs. v (a # cs)) (\<lambda>cs. g (a # cs)) cs
        + matrix_mul k (\<lambda>cs. f (a # cs)) (\<lambda>cs. w (a # cs)) cs)" for a
    by (rule matrix_adjoint)
  then show ?thesis unfolding split sum.distrib[symmetric]
    by (intro sum.cong refl) (simp add: matrix_mul_def batch_mul_def numeral_2_eq_2)
qed


lemma bias_adjoint:
  "pairing [n] (\<lambda>cs. \<Sum>i < m. G [i, cs ! 0]) w = pairing [m, n] G (\<lambda>cs. w [cs ! 1])"
proof -
  have "(\<Sum>j < n. (\<Sum>i < m. G [i, j]) * w [j]) = (\<Sum>i < m. \<Sum>j < n. G [i, j] * w [j])"
    unfolding sum_distrib_right by (rule sum.swap)
  then show ?thesis by (simp add: pairing_def sum_coords1 sum_coords2)
qed

lemma swap_twice: "d0 < length s \<Longrightarrow> d1 < length s \<Longrightarrow> list_swap (list_swap s d0 d1) d0 d1 = s"
  by (auto simp: list_swap_def nth_list_update intro!: nth_equalityI)

lemma swap_adjoint:
  assumes "d0 < length s" "d1 < length s"
  shows "pairing s (\<lambda>cs. G (list_swap cs d0 d1)) t = pairing (list_swap s d0 d1) G (\<lambda>cs. t (list_swap cs d0 d1))"
proof -
  let ?u = "list_swap s d0 d1"
  have len: "length ?u = length s" by (simp add: list_swap_def)
  have tw: "list_swap (list_swap cs d0 d1) d0 d1 = cs" if "length cs = length s" for cs :: "nat list"
    using that assms by (intro swap_twice) simp_all
  have bk: "valid_coords ?u (list_swap cs d0 d1)" if "valid_coords s cs" for cs
    using valid_swap[of ?u d0 d1 cs] that assms len by (simp add: swap_twice)
  have "bij_betw (\<lambda>cs. list_swap cs d0 d1) (coords ?u) (coords s)"
    using valid_swap[of s d0 d1] assms bk tw len
    by (intro bij_betw_byWitness[where f' = "\<lambda>cs. list_swap cs d0 d1"]) (auto simp: valid_coords_length)
  from sum.reindex_bij_betw[OF this, of "\<lambda>cs. G (list_swap cs d0 d1) * t cs"] show ?thesis
    using tw len by (simp add: pairing_def valid_coords_length)
qed

lemma reshape_adjoint:
  assumes "numel u = numel s"
  shows "pairing s (\<lambda>cs. G (coords_of u (ravel s cs))) t = pairing u G (\<lambda>cs. t (coords_of s (ravel u cs)))"
  using assms by (simp add: pairing_def sum_coords ravel_coords_of numel_prod_list)

lemma const_from_vec: "good_shape s \<Longrightarrow> dense_from_vec s (replicate (numel s) c) = Inr (tabulate s (\<lambda>_. c))"
  using from_vec_map[of s "\<lambda>_. c"] by (simp add: map_replicate_const)

lemma numel_pos: "good_shape s \<Longrightarrow> numel s \<noteq> 0"
  by (simp add: good_shape_def numel_eq_0_iff)

lemma first_elem_tab [simp]: "first_elem (tabulate [] G) = Some (G [])"
  by (simp add: first_elem_def numel_def get_elem_def)

lemma sum_apply_tab: "good_shape s \<Longrightarrow> sum_apply s (tabulate [] G) = Some [Some (tabulate s (\<lambda>_. G []))]"
  using const_from_vec[of s "G []"] by (cases "s = []") (simp_all add: sum_apply_def numel_def)

lemma mean_apply_tab:
  "good_shape s \<Longrightarrow> mean_apply (real_ops gm) s (numel s) (tabulate [] G) = Some [Some (tabulate s (\<lambda>_. G [] / real (numel s)))]"
  using const_from_vec[of s "G [] / real (numel s)"] by (simp add: mean_apply_def)

lemma reduced_keep:
  "length (reduced_shape dims True s) = length s"
  "i < length s \<Longrightarrow> reduced_shape dims True s ! i = (if i \<in> set dims then 1 else s ! i)"
  "i < length cs \<Longrightarrow> reduced_coords dims True cs ! i = (if i \<in> set dims then 0 else cs ! i)"
  "length (reduced_coords dims True cs) = length cs"
  by (simp_all add: reduced_shape_def reduced_coords_def drop_dims_def nth_enumerate_eq)

lemma reduced_broadcast: "broadcast_with (reduced_shape dims True s) s = Inr s"
  using expandable_iff_broadcast[of "reduced_shape dims True s" s]
  by (auto simp: reduced_keep list_all_length expandable_def)

lemma reduced_project:
  "valid_coords s cs \<Longrightarrow> project_coords (reduced_shape dims True s) cs = reduced_coords dims True cs"
  by (intro nth_equalityI) (auto simp: project_coords_def reduced_keep valid_coords_nth)

lemma reduced_valid: "valid_coords s cs \<Longrightarrow> valid_coords (reduced_shape dims True s) (reduced_coords dims True cs)"
  by (auto simp: valid_coords_nth reduced_keep)

lemma mean_dim_apply_tab:
  assumes "good_shape s" "good_shape (reduced_shape dims True s)"
  shows "mean_dim_apply (real_ops gm) s n Cpu (tabulate (reduced_shape dims True s) G)
    = Some [Some (tabulate s (\<lambda>cs. G (reduced_coords dims True cs) * (1 / real n)))]"
proof -
  have "run2 (cpu_mul (real_ops gm)) (tabulate (reduced_shape dims True s) G) (tabulate s (\<lambda>_. 1 / real n))
      = Some (Inr (tabulate s (\<lambda>cs. G (project_coords (reduced_shape dims True s) cs) * (1 / real n))))"
    by (simp add: dispatch_eta run_grad(2)[OF assms reduced_broadcast])
  also have "\<dots> = Some (Inr (tabulate s (\<lambda>cs. G (reduced_coords dims True cs) * (1 / real n))))"
    by (auto simp: reduced_project intro!: tabulate_cong)
  finally show ?thesis using const_from_vec[OF assms(1), of "1 / real n"] by (simp add: mean_dim_apply_def)
qed

lemma mean_dim_adjoint:
  fixes G :: field
  shows "pairing s (\<lambda>cs. G (reduced_coords dims True cs) * (1 / real (prod_list (map (\<lambda>d. s ! d) dims)))) t
    = pairing (reduced_shape dims True s) G (mean_over dims s t)"
  using sum_grouped[of s "reduced_coords dims True" "reduced_shape dims True s" t G] reduced_valid[of s]
  by (simp add: pairing_def mean_over_def sum_divide_distrib[symmetric] algebra_simps)

section \<open>Calls\<close>

fun run_call :: "gemm \<Rightarrow> call \<Rightarrow> variable list \<Rightarrow> real dense heap \<Rightarrow> real op_result" where
  "run_call gm (CUnary u i) env = run_unary_call gm u (env ! i)"
| "run_call gm (CBinary b i j) env = run_binary_call gm b (env ! i) (env ! j)"
| "run_call gm (CSum i) env = op_sum (real_ops gm) (env ! i)"
| "run_call gm (CMean i) env = op_mean (real_ops gm) (env ! i)"
| "run_call gm (CMeanDim dims i) env = op_mean_dim (real_ops gm) dims (env ! i)"
| "run_call gm (CMatmul i j) env = op_matmul (real_ops gm) (env ! i) (env ! j)"
| "run_call gm (CAddBias i j) env = op_add_bias (real_ops gm) (env ! i) (env ! j)"
| "run_call gm (CLinear i j k) env = op_linear (real_ops gm) (env ! i) (env ! j) (env ! k)"
| "run_call gm (CBmm i j) env = op_bmm (real_ops gm) (env ! i) (env ! j)"
| "run_call gm (CTranspose d0 d1 i) env = op_transpose d0 d1 (env ! i)"
| "run_call gm (CReshape s i) env = op_reshape s (env ! i)"
| "run_call gm (CIndexSelect idx i) env = op_index_select (real_ops gm) floor idx (env ! i)"

text \<open>A call whose result is \<open>out\<close> and whose node is the adjoint of \<open>D\<close>.\<close>

definition call_result :: "real op_result \<Rightarrow> variable list \<Rightarrow> shape list \<Rightarrow> shape \<Rightarrow> field \<Rightarrow> (field list \<Rightarrow> field) \<Rightarrow> real dense heap \<Rightarrow> bool" where
  "call_result r inputs ss s f D h \<longleftrightarrow> (\<exists>op name mk. r = finish_op op name mk inputs (Some (Inr (tabulate s f))) h
     \<and> adjoint_at (mk (tabulate s f)) ss s D)"

lemma call_resultI: "r = finish_op op name mk inputs (Some (Inr (tabulate s f))) h \<Longrightarrow> adjoint_at (mk (tabulate s f)) ss s D \<Longrightarrow> call_result r inputs ss s f D h"
  by (auto simp: call_result_def)

lemma unary_op_result:
  assumes "var_tensor v h = Some (tabulate s f)" "run1 K (tabulate s f) = Some (Inr (tabulate u e))"
    and "adjoint_at (mk (tabulate s f) Cpu (tabulate u e)) ss u D"
  shows "call_result (unary_op op name K mk v h) [v] ss u e D h"
  using assms by (intro call_resultI[where mk = "mk (tabulate s f) Cpu"]) (simp_all add: unary_op_def)

lemma binary_op_result:
  assumes "var_tensor v h = Some (tabulate s f)" "var_tensor w h = Some (tabulate t g)"
    and "run2 K (tabulate s f) (tabulate t g) = Some (Inr (tabulate u e))"
    and "adjoint_at (mk (tabulate s f) (tabulate t g) Cpu (tabulate u e)) ss u D"
  shows "call_result (binary_op op name K mk v w h) [v, w] ss u e D h"
  using assms by (intro call_resultI[where mk = "mk (tabulate s f) (tabulate t g) Cpu"]) (simp_all add: binary_op_def require_same_device_2_def)


section \<open>The adjoint of every operation\<close>

lemma unary_adjoint:
  assumes "good_shape s"
  shows "adjoint_at (unary_apply gm u (tabulate s f) Cpu (tabulate s (\<lambda>cs. unary_val u (f cs)))) [s] s
    (\<lambda>ts cs. unary_der u (f cs) * (ts ! 0) cs)"
  by (rule adjoint1, rule unary_apply_tab[OF assms]) (simp add: pairing_def algebra_simps)

lemma binary_adjoint:
  assumes "good_shape s" "good_shape t" "good_shape u" "broadcast_with s t = Inr u"
  shows "adjoint_at (binary_apply gm b (tabulate s f) (tabulate t g) Cpu out) [s, t] u
    (\<lambda>ts cs. binary_dl b (f (project_coords s cs)) (g (project_coords t cs)) * (ts ! 0) (project_coords s cs)
      + binary_dr b (f (project_coords s cs)) (g (project_coords t cs)) * (ts ! 1) (project_coords t cs))"
  by (rule adjoint2, rule binary_apply_tab[OF assms], rule trans[OF binary_pairing[OF assms(4)]]) simp

lemma sum_adjoint: "good_shape s \<Longrightarrow> adjoint_at (sum_apply s) [s] [] (\<lambda>ts cs. \<Sum>x \<in> coords s. (ts ! 0) x)"
  by (rule adjoint1, erule sum_apply_tab) (simp add: pairing_def sum_distrib_left)

lemma mean_adjoint:
  "good_shape s \<Longrightarrow> adjoint_at (mean_apply (real_ops gm) s (numel s)) [s] [] (\<lambda>ts cs. (\<Sum>x \<in> coords s. (ts ! 0) x) / real (numel s))"
  by (rule adjoint1, erule mean_apply_tab) (simp add: pairing_def sum_distrib_left sum_divide_distrib del: numel_prod_list)

lemma mean_dim_adjoint_at:
  assumes "good_shape s" "good_shape (reduced_shape dims True s)"
  shows "adjoint_at (mean_dim_apply (real_ops gm) s (prod_list (map (\<lambda>d. s ! d) dims)) Cpu) [s] (reduced_shape dims True s)
    (\<lambda>ts. mean_over dims s (ts ! 0))"
  by (rule adjoint1, rule mean_dim_apply_tab[OF assms]) (simp only: mean_dim_adjoint nth_Cons_0)

lemma matmul_adjoint:
  assumes g: "good_shape [m, k]" "good_shape [k, n]" "good_shape [m, n]" and gm: "gemm_ok (real_ops gm)"
  shows "adjoint_at (matmul_apply (real_ops gm) (tabulate [m, k] f) (tabulate [k, n] g) Cpu) [[m, k], [k, n]] [m, n]
    (\<lambda>ts cs. matrix_mul k (ts ! 0) g cs + matrix_mul k f (ts ! 1) cs)"
proof (rule adjoint2)
  fix G
  show "matmul_apply (real_ops gm) (tabulate [m, k] f) (tabulate [k, n] g) Cpu (tabulate [m, n] G)
    = Some [Some (tabulate [m, k] (\<lambda>cs. \<Sum>j < n. G [cs ! 0, j] * g [cs ! 1, j])),
            Some (tabulate [k, n] (\<lambda>cs. \<Sum>i < m. f [i, cs ! 0] * G [i, cs ! 1]))]"
    using run_matmul_transposes[OF g(3,2,1) gm, of False n True G g] run_matmul_transposes[OF g(1,3,2) gm, of True m False f G]
    by (simp add: matmul_apply_def)
qed (simp add: matrix_adjoint del: One_nat_def)

lemma add_bias_adjoint:
  assumes "good_shape [m, n]"
  shows "adjoint_at (add_bias_apply (real_ops gm) Cpu) [[m, n], [n]] [m, n] (\<lambda>ts cs. (ts ! 0) cs + (ts ! 1) [cs ! 1])"
proof (rule adjoint2)
  show "add_bias_apply (real_ops gm) Cpu (tabulate [m, n] G)
    = Some [Some (tabulate [m, n] G), Some (tabulate [n] (\<lambda>cs. \<Sum>i < m. G [i, cs ! 0]))]" for G
    using run_sum_rows[OF assms, of G] by (simp add: add_bias_apply_def)
qed (subst bias_adjoint, simp add: pairing_def distrib_left sum.distrib)

lemma linear_adjoint:
  assumes g: "good_shape [m, k]" "good_shape [k, n]" "good_shape [m, n]" and gm: "gemm_ok (real_ops gm)"
  shows "adjoint_at (linear_apply (real_ops gm) (tabulate [m, k] f) (tabulate [k, n] g) Cpu) [[m, k], [k, n], [n]] [m, n]
    (\<lambda>ts cs. matrix_mul k (ts ! 0) g cs + matrix_mul k f (ts ! 1) cs + (ts ! 2) [cs ! 1])"
proof (rule adjoint3)
  fix G
  show "linear_apply (real_ops gm) (tabulate [m, k] f) (tabulate [k, n] g) Cpu (tabulate [m, n] G)
    = Some [Some (tabulate [m, k] (\<lambda>cs. \<Sum>j < n. G [cs ! 0, j] * g [cs ! 1, j])),
            Some (tabulate [k, n] (\<lambda>cs. \<Sum>i < m. f [i, cs ! 0] * G [i, cs ! 1])),
            Some (tabulate [n] (\<lambda>cs. \<Sum>i < m. G [i, cs ! 0]))]"
    using run_matmul_transposes[OF g(3,2,1) gm, of False n True G g] run_matmul_transposes[OF g(1,3,2) gm, of True m False f G]
      run_sum_rows[OF g(3), of G]
    by (simp add: linear_apply_def)
next
  fix G t t' t''
  have "pairing [m, n] G (\<lambda>cs. matrix_mul k t g cs + matrix_mul k f t' cs) + pairing [m, n] G (\<lambda>cs. t'' [cs ! 1])
      = pairing [m, n] G (\<lambda>cs. matrix_mul k t g cs + matrix_mul k f t' cs + t'' [cs ! 1])"
    by (simp add: pairing_def distrib_left sum.distrib)
  then show "pairing [m, k] (\<lambda>cs. \<Sum>j < n. G [cs ! 0, j] * g [cs ! 1, j]) t
      + pairing [k, n] (\<lambda>cs. \<Sum>i < m. f [i, cs ! 0] * G [i, cs ! 1]) t' + pairing [n] (\<lambda>cs. \<Sum>i < m. G [i, cs ! 0]) t''
    = pairing [m, n] G (\<lambda>cs. matrix_mul k ([t, t', t''] ! 0) g cs + matrix_mul k f ([t, t', t''] ! 1) cs + ([t, t', t''] ! 2) [cs ! 1])"
    unfolding matrix_adjoint bias_adjoint by simp
qed

lemma bmm_adjoint:
  assumes "good_shape [b, m, k]" "good_shape [b, k, n]"
  shows "adjoint_at (bmm_apply (real_ops gm) (tabulate [b, m, k] f) (tabulate [b, k, n] g)) [[b, m, k], [b, k, n]] [b, m, n]
    (\<lambda>ts cs. batch_mul k (ts ! 0) g cs + batch_mul k f (ts ! 1) cs)"
proof (rule adjoint2)
  show "bmm_apply (real_ops gm) (tabulate [b, m, k] f) (tabulate [b, k, n] g) (tabulate [b, m, n] G)
    = Some [Some (tabulate [b, m, k] (\<lambda>cs. \<Sum>j < n. G [cs ! 0, cs ! 1, j] * g [cs ! 0, cs ! 2, j])),
            Some (tabulate [b, k, n] (\<lambda>cs. \<Sum>i < m. f [cs ! 0, i, cs ! 1] * G [cs ! 0, i, cs ! 2]))]" for G
    by (simp add: bmm_apply_def bmm_grads[OF assms])
qed (simp add: batch_adjoint del: One_nat_def)

lemma transpose_adjoint:
  assumes "good_shape s" "d0 < length s" "d1 < length s" "good_shape (list_swap s d0 d1)"
  shows "adjoint_at (transpose_apply d0 d1) [s] (list_swap s d0 d1) (\<lambda>ts cs. (ts ! 0) (list_swap cs d0 d1))"
proof (rule adjoint1)
  have len: "length (list_swap s d0 d1) = length s" by (simp add: list_swap_def)
  show "transpose_apply d0 d1 (tabulate (list_swap s d0 d1) G) = Some [Some (tabulate s (\<lambda>cs. G (list_swap cs d0 d1)))]" for G :: field
    using dense_transpose_tab[OF assms(4), of d0 d1 G] assms(2,3) len by (simp add: transpose_apply_def swap_twice)
qed (simp add: swap_adjoint[OF assms(2,3)])

lemma from_vec_reshape:
  assumes "good_shape s" "numel u = numel s"
  shows "dense_from_vec s (map (\<lambda>i. G (coords_of u i)) [0..<numel u]) = Inr (tabulate s (\<lambda>cs. G (coords_of u (ravel s cs))))"
proof -
  have "map (\<lambda>i. G (coords_of u i)) [0..<numel u] = map (\<lambda>i. G (coords_of u (ravel s (coords_of s i)))) [0..<numel s]"
    unfolding assms(2) by (intro map_cong refl) (simp add: ravel_coords_of numel_prod_list)
  then show ?thesis using from_vec_map[OF assms(1), of "\<lambda>cs. G (coords_of u (ravel s cs))"] by simp
qed

lemma reshape_adjoint_at:
  assumes "good_shape s" "numel u = numel s"
  shows "adjoint_at (reshape_apply s) [s] u (\<lambda>ts cs. (ts ! 0) (coords_of s (ravel u cs)))"
proof (rule adjoint1)
  show "reshape_apply s (tabulate u G) = Some [Some (tabulate s (\<lambda>cs. G (coords_of u (ravel s cs))))]" for G :: field
    using from_vec_reshape[OF assms, of G] by (simp add: reshape_apply_def)
qed (simp add: reshape_adjoint[OF assms(2)])

lemma select_adjoint:
  assumes "good_shape (d # ds)" "valid_indices d idx" "good_shape (numel (d_shape idx) # ds)"
  shows "adjoint_at (index_select_apply (real_ops gm) floor (d # ds) idx) [d # ds] (numel (d_shape idx) # ds)
    (\<lambda>ts cs. (ts ! 0) (index_row idx (hd cs) # tl cs))"
proof (rule adjoint1, rule index_apply_tab[OF assms])
  fix G t :: field
  show "pairing (d # ds) (\<lambda>cs. \<Sum>x \<in> {x \<in> coords (numel (d_shape idx) # ds). index_row idx (hd x) # tl x = cs}. G x) t
      = pairing (numel (d_shape idx) # ds) G (\<lambda>cs. ([t] ! 0) (index_row idx (hd cs) # tl cs))"
    using sum_grouped[of "numel (d_shape idx) # ds" "\<lambda>x. index_row idx (hd x) # tl x" "d # ds" G t]
      valid_select[of "d # ds" idx] assms(2) by (simp add: pairing_def)
qed


section \<open>What a call computes and records\<close>

lemma tabulate_on_cpu [simp]: "(tabulate_as d s f)\<lparr>d_device := Cpu\<rparr> = tabulate_as d s f"
  by (simp add: tabulate_as_def)

lemma one_operand: "length ss = Suc 0 \<Longrightarrow> \<exists>s. ss = [s]"
  by (simp add: length_Suc_conv)

lemma two_operands: "length ss = Suc (Suc 0) \<Longrightarrow> \<exists>s t. ss = [s, t]"
  by (auto simp: length_Suc_conv)

text \<open>
  On dense \<open>f32\<close> operands a call succeeds, its value is the one of its meaning, and the node it
  records is the adjoint of the derivative.
\<close>

lemma call_correct:
  assumes m: "meaning_of c ss = Some m" "length ss = length (operands c)" "\<forall>s \<in> set ss. good_shape s" "good_shape (m_shape m)"
    and gm: "gemm_ok (real_ops gm)"
    and env: "\<And>k. k < length ss \<Longrightarrow> var_tensor (env ! (operands c ! k)) h = Some (tabulate (ss ! k) (fs ! k))"
  shows "call_result (run_call gm c env h) (map ((!) env) (operands c)) ss (m_shape m) (m_val m fs) (m_tan m fs) h"
proof (cases c)
  case (CUnary u i)
  obtain s where ss: "ss = [s]" using one_operand[of ss] m(2) CUnary by auto
  obtain op name where e: "run_unary_call gm u = unary_op op name (unary_kernel gm u) (unary_apply gm u)" using run_unary_call_eq by blast
  have s: "good_shape s" using m(3) ss by simp
  show ?thesis using m(1) env[of 0] run_unary_kernel[OF s] unary_adjoint[OF s]
    by (auto simp: CUnary ss e intro!: unary_op_result[where f = "fs ! 0"])
next
  case (CBinary b i j)
  obtain s t where ss: "ss = [s, t]" using two_operands[of ss] m(2) CBinary by auto
  obtain op name where e: "run_binary_call gm b = binary_op op name (binary_kernel gm b) (binary_apply gm b)" using run_binary_call_eq by blast
  obtain u where u: "broadcast_with s t = Inr u" "m_shape m = u" using m(1) by (auto simp: CBinary ss Let_def split: sum.splits)
  have g: "good_shape s" "good_shape t" "good_shape u" using m(3,4) ss u by auto
  show ?thesis using m(1) env[of 0] env[of 1] u run_binary_kernel[OF g u(1)] binary_adjoint[OF g u(1)]
    by (auto simp: CBinary ss e Let_def intro!: binary_op_result[where f = "fs ! 0" and g = "fs ! 1"])
next
  case (CSum i)
  obtain s where ss: "ss = [s]" using one_operand[of ss] m(2) CSum by auto
  have s: "good_shape s" using m(3) ss by simp
  show ?thesis using m(1) env[of 0] run_sum_all[OF s] sum_adjoint[OF s]
    by (auto simp: CSum ss op_sum_def linear_meaning_def intro!: unary_op_result[where f = "fs ! 0"])
next
  case (CMean i)
  obtain s where ss: "ss = [s]" using one_operand[of ss] m(2) CMean by auto
  have s: "good_shape s" using m(3) ss by simp
  show ?thesis using m(1) env[of 0] run_mean_all[OF s] mean_adjoint[OF s]
    by (auto simp: CMean ss op_mean_def linear_meaning_def simp del: numel_prod_list intro!: unary_op_result[where f = "fs ! 0"])
next
  case (CMeanDim dims i)
  obtain s where ss: "ss = [s]" using one_operand[of ss] m(2) CMeanDim by auto
  have d: "\<forall>d \<in> set dims. d < length s" "m = linear_meaning (reduced_shape dims True s) (mean_over dims s)"
    using m(1) by (auto simp: CMeanDim ss split: if_splits)
  have s: "good_shape s" "good_shape (reduced_shape dims True s)" using m(3,4) ss d by (auto simp: linear_meaning_def)
  show ?thesis using env[of 0] run_mean_dim[OF s d(1)] mean_dim_adjoint_at[OF s]
    by (auto simp: CMeanDim ss d(2) op_mean_dim_def linear_meaning_def intro!: unary_op_result[where f = "fs ! 0"])
next
  case (CMatmul i j)
  obtain p k n where ss: "ss = [[p, k], [k, n]]" "m = product_meaning [p, n] (matrix_mul k) (\<lambda>_ _. 0)"
    using m(1,2) two_operands[of ss] by (auto simp: CMatmul split: list.splits if_splits)
  have g: "good_shape [p, k]" "good_shape [k, n]" "good_shape [p, n]" using m(3,4) ss by (auto simp: product_meaning_def)
  show ?thesis using env[of 0] env[of 1] run_matmul[OF g gm] matmul_adjoint[OF g gm]
    by (auto simp: CMatmul ss op_matmul_def product_meaning_def intro!: binary_op_result[where f = "fs ! 0" and g = "fs ! 1"])
next
  case (CAddBias i j)
  obtain p n where ss: "ss = [[p, n], [n]]"
      "m = product_meaning [p, n] (\<lambda>_ _ _. 0) (\<lambda>fs cs. (fs ! 0) cs + (fs ! 1) [cs ! 1])"
    using m(1,2) two_operands[of ss] by (auto simp: CAddBias split: list.splits if_splits)
  have g: "good_shape [p, n]" "good_shape [n]" using m(3) ss by auto
  show ?thesis using env[of 0] env[of 1] run_add_bias[OF g, of gm] add_bias_adjoint[OF g(1), of gm]
    by (auto simp: CAddBias ss op_add_bias_def product_meaning_def require_same_device_2_def intro!: call_resultI)
next
  case (CLinear i j l)
  obtain p k n where ss: "ss = [[p, k], [k, n], [n]]"
      "m = product_meaning [p, n] (matrix_mul k) (\<lambda>fs cs. (fs ! 2) [cs ! 1])"
    using m(1,2) by (auto simp: CLinear length_Suc_conv split: list.splits if_splits)
  have g: "good_shape [p, k]" "good_shape [k, n]" "good_shape [n]" "good_shape [p, n]" using m(3,4) ss by (auto simp: product_meaning_def)
  show ?thesis using env[of 0] env[of 1] env[of 2] run_linear[OF g gm] linear_adjoint[OF g(1,2,4) gm]
    by (auto simp: CLinear ss op_linear_def Let_def product_meaning_def require_same_device_3_def require_same_device_2_def numeral_2_eq_2
        intro!: call_resultI)
next
  case (CBmm i j)
  obtain b p k n where ss: "ss = [[b, p, k], [b, k, n]]" "m = product_meaning [b, p, n] (batch_mul k) (\<lambda>_ _. 0)"
    using m(1,2) two_operands[of ss] by (auto simp: CBmm split: list.splits if_splits)
  have g: "good_shape [b, p, k]" "good_shape [b, k, n]" "good_shape [b, p, n]" using m(3,4) ss by (auto simp: product_meaning_def)
  show ?thesis using env[of 0] env[of 1] run_bmm[OF g] bmm_adjoint[OF g(1,2)]
    by (auto simp: CBmm ss op_bmm_def product_meaning_def intro!: binary_op_result[where f = "fs ! 0" and g = "fs ! 1"])
next
  case (CTranspose d0 d1 i)
  obtain s where ss: "ss = [s]" using one_operand[of ss] m(2) CTranspose by auto
  have d: "d0 < length s" "d1 < length s" "m = linear_meaning (list_swap s d0 d1) (\<lambda>f cs. f (list_swap cs d0 d1))"
    using m(1) by (auto simp: CTranspose ss split: if_splits)
  have s: "good_shape s" "good_shape (list_swap s d0 d1)" using m(3,4) ss d by (auto simp: linear_meaning_def)
  show ?thesis using env[of 0] dense_transpose_tab[OF s(1) d(1,2), of "fs ! 0"] transpose_adjoint[OF s(1) d(1,2) s(2)]
    by (auto simp: CTranspose ss d(3) op_transpose_def linear_meaning_def intro!: call_resultI)
next
  case (CReshape u i)
  obtain s where ss: "ss = [s]" using one_operand[of ss] m(2) CReshape by auto
  have d: "numel u = numel s" "m = linear_meaning u (\<lambda>f cs. f (coords_of s (ravel u cs)))"
    using m(1) by (auto simp: CReshape ss simp del: numel_prod_list split: if_splits)
  have s: "good_shape s" "good_shape u" using m(3,4) ss d by (auto simp: linear_meaning_def)
  have "bulk u < u64_limit"
    using s(2) fits_memory_i64[of F32 "numel u"] bulk_nonempty[of u] by (simp add: good_shape_def numel_prod_list limit_defs)
  then have "numel_u64 u = Some (numel u)" by (rule numel_u64_bulk)
  then show ?thesis using env[of 0] from_vec_reshape[OF s(2) d(1)[symmetric], of "fs ! 0"] reshape_adjoint_at[OF s(1) d(1)]
    by (auto simp: CReshape ss d op_reshape_def linear_meaning_def simp del: numel_prod_list intro!: call_resultI)
next
  case (CIndexSelect idx i)
  obtain s where ss: "ss = [s]" using one_operand[of ss] m(2) CIndexSelect by auto
  have d: "s \<noteq> []" "valid_indices (hd s) idx" "m = linear_meaning (numel (d_shape idx) # tl s) (\<lambda>f cs. f (index_row idx (hd cs) # tl cs))"
    using m(1) by (auto simp: CIndexSelect ss simp del: numel_prod_list split: if_splits)
  have s: "good_shape s" "good_shape (numel (d_shape idx) # tl s)" using m(3,4) ss d by (auto simp: linear_meaning_def simp del: numel_prod_list)
  have a: "adjoint_at (index_select_apply (real_ops gm) floor s idx) [s] (numel (d_shape idx) # tl s)
      (\<lambda>ts cs. (ts ! 0) (index_row idx (hd cs) # tl cs))"
    using select_adjoint[of "hd s" "tl s" idx gm] s d(1,2) by (simp del: numel_prod_list)
  show ?thesis using env[of 0] run_select[OF s(1) d(1,2) s(2), of "fs ! 0"] a
    by (auto simp: CIndexSelect ss d(3) op_index_select_def linear_meaning_def simp del: numel_prod_list intro!: call_resultI)
qed


end
