(* ===== verification/Differentiation.thy ===== *)
theory Differentiation
  imports Gradients
begin

text \<open>
  Programs of differentiable operations and the backward pass over what they record: the gradient that
  the pass leaves at a leaf is the derivative of the program with respect to that leaf.
\<close>

section \<open>The backend's addition of gradients\<close>

definition dense_add :: "gemm \<Rightarrow> real dense \<Rightarrow> real dense \<Rightarrow> string + real dense" where
  "dense_add gm a b =
     (case pick_backend (d_device a) (run2 (cpu_add (real_ops gm)) a b) of
        Some (Inr x) \<Rightarrow> Inr x
      | Some (Inl e) \<Rightarrow> Inl (show_backend_error e)
      | None \<Rightarrow> Inl ''capacity overflow'')"

definition dense_plus :: "real dense \<Rightarrow> real dense \<Rightarrow> real dense" where
  "dense_plus a b = tabulate (d_shape a) (\<lambda>cs. elt a cs + elt b cs)"

text \<open>The pairing of a gradient with a tangent: the sum of the products of the elements.\<close>

definition dense_ip :: "real dense \<Rightarrow> real dense \<Rightarrow> real" where
  "dense_ip a t = pairing (d_shape a) (elt a) (elt t)"

lemma dense_ip_tab [simp]: "dense_ip (tabulate s f) (tabulate s t) = pairing s f t"
  unfolding dense_ip_def by (auto intro: pairing_cong)

lemma good_plus: "good s a \<Longrightarrow> good s b \<Longrightarrow> dense_add gm a b = Inr (dense_plus a b) \<and> good s (dense_plus a b)"
proof -
  assume a: "good s a" and b: "good s b"
  have s: "good_shape s" using a by (simp add: good_def)
  have "run2 (cpu_add (real_ops gm)) (tabulate s (elt a)) (tabulate s (elt b)) = Some (Inr (tabulate s (\<lambda>cs. elt a cs + elt b cs)))"
    using run_same[OF s, of "real_ops gm" "''add''" KindAdd "elt a" "elt b"] by (simp add: dispatch_eta)
  then have "run2 (cpu_add (real_ops gm)) a b = Some (Inr (tabulate s (\<lambda>cs. elt a cs + elt b cs)))"
    using good_tabulated[OF a] good_tabulated[OF b] by simp
  then show ?thesis using a s by (simp add: dense_add_def dense_plus_def good_def)
qed

interpretation cpu_sums: tensor_sums "dense_add gm" dense_plus good dense_ip for gm
proof unfold_locales
  fix s show "adds (dense_add gm) dense_plus (good s)" using good_plus by (auto simp: adds_def)
next
  fix s and a b t :: "real dense" assume "good s a" "good s b"
  then have "d_shape a = s" "d_shape b = s" "good_shape s" by (simp_all add: good_def)
  moreover have "pairing s (elt (tabulate s (\<lambda>cs. elt a cs + elt b cs))) (elt t) = pairing s (\<lambda>cs. elt a cs + elt b cs) (elt t)"
    by (rule pairing_cong) simp_all
  ultimately show "dense_ip (dense_plus a b) t = dense_ip a t + dense_ip b t"
    by (simp add: dense_ip_def dense_plus_def pairing_add_left)
qed

section \<open>Programs\<close>

text \<open>Operations one after the other, each on the variables made so far; the first error ends the run.\<close>

fun run_calls ::
  "gemm \<Rightarrow> call list \<Rightarrow> variable list \<Rightarrow> real dense heap \<Rightarrow> ((backward_error + variable list) \<times> real dense heap) option" where
  "run_calls gm [] env h = Some (Inr env, h)"
| "run_calls gm (c # p) env h =
     (case run_call gm c env h of
        None \<Rightarrow> None
      | Some (Inl e, h') \<Rightarrow> Some (Inl e, h')
      | Some (Inr v, h') \<Rightarrow> run_calls gm p (env @ [v]) h')"

text \<open>The inputs: leaves, which are tracked, and plain variables.\<close>

type_synonym inputs = "(bool \<times> real dense) list"

fun make_inputs :: "inputs \<Rightarrow> variable list \<Rightarrow> real dense heap \<Rightarrow> variable list \<times> real dense heap" where
  "make_inputs [] env h = (env, h)"
| "make_inputs ((leaf, x) # xs) env h =
     (let (v, h') = (if leaf then var_leaf x h else var_new x h) in make_inputs xs (env @ [v]) h')"

definition new_heap :: "real dense heap" where
  "new_heap = \<lparr>h_data = Map.empty, h_grad = \<lambda>_. None, h_nodes = Map.empty, h_next = 0, h_grad_enabled = True\<rparr>"

definition run_on :: "gemm \<Rightarrow> call list \<Rightarrow> inputs \<Rightarrow> ((backward_error + variable list) \<times> real dense heap) option" where
  "run_on gm p xs = (let (env, h) = make_inputs xs [] new_heap in run_calls gm p env h)"

text \<open>The tensor of the last variable, and the gradients of the inputs after a backward pass from it.\<close>

definition output_of :: "gemm \<Rightarrow> call list \<Rightarrow> inputs \<Rightarrow> real dense option" where
  "output_of gm p xs =
     (case run_on gm p xs of Some (Inr env, h) \<Rightarrow> var_tensor (last env) h | _ \<Rightarrow> None)"

definition gradients_of :: "gemm \<Rightarrow> call list \<Rightarrow> inputs \<Rightarrow> real dense \<Rightarrow> real dense option list option" where
  "gradients_of gm p xs seed =
     (case run_on gm p xs of
        Some (Inr env, h) \<Rightarrow>
          (case backward (dense_add gm) (\<lambda>t. tabulate (d_shape t) (\<lambda>_. 1)) (last env) (Some seed) h of
             Some (None, h') \<Rightarrow> Some (map (\<lambda>i. var_grad (env ! i) h') [0..<length xs])
           | _ \<Rightarrow> None)
      | _ \<Rightarrow> None)"

section \<open>What a program computes\<close>

text \<open>The shapes of all variables, if the operations fit; their values, their derivatives and where these exist.\<close>

fun program_shapes :: "call list \<Rightarrow> shape list \<Rightarrow> shape list option" where
  "program_shapes [] ss = Some ss"
| "program_shapes (c # p) ss =
     (if list_all (\<lambda>k. k < length ss) (operands c)
      then case meaning_of c (map ((!) ss) (operands c)) of
             None \<Rightarrow> None
           | Some m \<Rightarrow> if good_shape (m_shape m) then program_shapes p (ss @ [m_shape m]) else None
      else None)"

definition meaning_at :: "call \<Rightarrow> shape list \<Rightarrow> meaning" where
  "meaning_at c ss = the (meaning_of c (map ((!) ss) (operands c)))"

fun program_vals :: "call list \<Rightarrow> shape list \<Rightarrow> field list \<Rightarrow> field list" where
  "program_vals [] ss fs = fs"
| "program_vals (c # p) ss fs =
     (let m = meaning_at c ss in program_vals p (ss @ [m_shape m]) (fs @ [m_val m (map ((!) fs) (operands c))]))"

fun program_tans :: "call list \<Rightarrow> shape list \<Rightarrow> field list \<Rightarrow> field list \<Rightarrow> field list" where
  "program_tans [] ss fs ts = ts"
| "program_tans (c # p) ss fs ts =
     (let m = meaning_at c ss in
      program_tans p (ss @ [m_shape m]) (fs @ [m_val m (map ((!) fs) (operands c))])
        (ts @ [m_tan m (map ((!) fs) (operands c)) (map ((!) ts) (operands c))]))"

fun program_smooth :: "call list \<Rightarrow> shape list \<Rightarrow> field list \<Rightarrow> bool" where
  "program_smooth [] ss fs \<longleftrightarrow> True"
| "program_smooth (c # p) ss fs \<longleftrightarrow>
     (let m = meaning_at c ss in m_smooth m (map ((!) fs) (operands c))
      \<and> program_smooth p (ss @ [m_shape m]) (fs @ [m_val m (map ((!) fs) (operands c))]))"

text \<open>A result is tracked when one of its operands is.\<close>

fun program_tracked :: "call list \<Rightarrow> bool list \<Rightarrow> bool list" where
  "program_tracked [] bs = bs"
| "program_tracked (c # p) bs = program_tracked p (bs @ [list_ex ((!) bs) (operands c)])"

lemma program_shapes_Cons:
  assumes "program_shapes (c # p) ss = Some us"
  shows "\<forall>k \<in> set (operands c). k < length ss" "meaning_of c (map ((!) ss) (operands c)) = Some (meaning_at c ss)"
    "good_shape (m_shape (meaning_at c ss))" "program_shapes p (ss @ [m_shape (meaning_at c ss)]) = Some us"
  using assms by (auto simp: meaning_at_def list_all_iff split: if_splits option.splits)

lemma program_length:
  "length (program_vals p ss fs) = length fs + length p" "length (program_tans p ss fs ts) = length ts + length p"
  "length (program_tracked p bs) = length bs + length p"
  by (induction p arbitrary: ss fs ts bs) (simp_all add: Let_def)

lemma program_shapes_length: "program_shapes p ss = Some us \<Longrightarrow> length us = length ss + length p \<and> take (length ss) us = ss"
proof (induction p arbitrary: ss)
  case (Cons c p)
  from Cons.IH[OF program_shapes_Cons(4)[OF Cons.prems]] show ?case by (auto simp: take_Suc_conv_app_nth dest: arg_cong[where f = "take (length ss)"])
qed simp

text \<open>Along a differentiable path of the inputs, every variable is differentiable and \<open>program_tans\<close> is its derivative.\<close>

lemma program_derivative:
  assumes "program_shapes p ss = Some us" "program_smooth p ss (F 0)" "\<And>e. length (F e) = length ss" "length ts = length ss"
    and "\<And>k cs. k < length ss \<Longrightarrow> valid_coords (ss ! k) cs \<Longrightarrow> ((\<lambda>e. (F e ! k) cs) has_real_derivative (ts ! k) cs) (at 0)"
    and "k < length us" "valid_coords (us ! k) cs"
  shows "((\<lambda>e. (program_vals p ss (F e) ! k) cs) has_real_derivative (program_tans p ss (F 0) ts ! k) cs) (at 0)"
  using assms
proof (induction p arbitrary: ss F ts)
  case (Cons c p)
  let ?m = "meaning_at c ss"
  note sh = program_shapes_Cons[OF Cons.prems(1)]
  have ops: "map ((!) (F e)) (operands c) ! j = F e ! (operands c ! j)" "map ((!) ts) (operands c) ! j = ts ! (operands c ! j)"
    if "j < length (operands c)" for j e
    using that by simp_all
  have new: "((\<lambda>e. m_val ?m (map ((!) (F e)) (operands c)) cs) has_real_derivative
      m_tan ?m (map ((!) (F 0)) (operands c)) (map ((!) ts) (operands c)) cs) (at 0)"
    if cs: "valid_coords (m_shape ?m) cs" for cs
  proof (rule meaning_derivative[OF sh(2) _ _ cs])
    show "m_smooth ?m (map ((!) (F 0)) (operands c))" using Cons.prems(2) by (simp add: Let_def)
    fix j cs assume "j < length (map ((!) ss) (operands c))" "valid_coords (map ((!) ss) (operands c) ! j) cs"
    then show "((\<lambda>e. (map ((!) (F e)) (operands c) ! j) cs) has_real_derivative (map ((!) ts) (operands c) ! j) cs) (at 0)"
      using Cons.prems(5)[of "operands c ! j" cs] sh(1) by simp
  qed simp
  have old: "((\<lambda>e. ((F e @ [m_val ?m (map ((!) (F e)) (operands c))]) ! j) cs) has_real_derivative
      ((ts @ [m_tan ?m (map ((!) (F 0)) (operands c)) (map ((!) ts) (operands c))]) ! j) cs) (at 0)"
    if "j < length (ss @ [m_shape ?m])" "valid_coords ((ss @ [m_shape ?m]) ! j) cs" for j cs
    using that new Cons.prems(3-5) by (cases "j < length ss") (auto simp: nth_append less_Suc_eq)
  show ?case
    using Cons.IH[of "ss @ [m_shape ?m]" "\<lambda>e. F e @ [m_val ?m (map ((!) (F e)) (operands c))]"
        "ts @ [m_tan ?m (map ((!) (F 0)) (operands c)) (map ((!) ts) (operands c))]", OF sh(4) _ _ _ old Cons.prems(6,7)]
      Cons.prems(2-4) by (simp add: Let_def)
qed simp

section \<open>What running a program records\<close>

text \<open>
  A variable with its shape, value and tangent: when it is tracked, the tangent is the one of its node or
  leaf slot, of which there are \<open>N\<close>; when it is not, the tangent is zero.
\<close>

definition var_holds :: "nat \<Rightarrow> (nat \<Rightarrow> shape) \<Rightarrow> (nat \<Rightarrow> real dense) \<Rightarrow> real dense heap \<Rightarrow> variable \<Rightarrow> shape \<Rightarrow> field \<Rightarrow> field \<Rightarrow> bool" where
  "var_holds N sh tg h v s f t \<longleftrightarrow> good_shape s \<and> v_data v < h_next h \<and> v_grad v < h_next h
     \<and> var_tensor v h = Some (tabulate s f)
     \<and> (if v_requires_grad v
        then (case v_grad_fn v of
                Some n \<Rightarrow> h_nodes h n \<noteq> None \<and> sh n = s \<and> tg n = tabulate s t
              | None \<Rightarrow> v_grad v < N \<and> sh (v_grad v) = s \<and> tg (v_grad v) = tabulate s t)
        else v_grad_fn v = None \<and> (\<forall>cs. valid_coords s cs \<longrightarrow> t cs = 0))"

definition recorded :: "nat \<Rightarrow> (nat \<Rightarrow> shape) \<Rightarrow> (nat \<Rightarrow> real dense) \<Rightarrow> real dense heap \<Rightarrow> bool" where
  "recorded N sh tg h \<longleftrightarrow> graph_ok (h_nodes h) \<and> (\<forall>n \<in> dom (h_nodes h). n < h_next h) \<and> (\<forall>s. h_grad h s = None) \<and> h_grad_enabled h \<and> N \<le> h_next h
     \<and> (\<forall>n nd e s. h_nodes h n = Some nd \<longrightarrow> e \<in> set (n_edges nd) \<longrightarrow> e_slot e = Some s \<longrightarrow> s < N)
     \<and> adjoint_graph good dense_ip sh tg (h_nodes h)"

definition env_holds ::
  "nat \<Rightarrow> (nat \<Rightarrow> shape) \<Rightarrow> (nat \<Rightarrow> real dense) \<Rightarrow> real dense heap \<Rightarrow> variable list \<Rightarrow> shape list \<Rightarrow> field list \<Rightarrow> field list \<Rightarrow> bool" where
  "env_holds N sh tg h env ss fs ts \<longleftrightarrow> length env = length ss \<and> length fs = length ss \<and> length ts = length ss
     \<and> (\<forall>k < length ss. var_holds N sh tg h (env ! k) (ss ! k) (fs ! k) (ts ! k))"

text \<open>Addresses that are not in use yet may get a shape and a tangent.\<close>

lemma contribs_edges: "(e, c) \<in> set (contribs nd x) \<Longrightarrow> e \<in> set (n_edges nd)"
  by (auto simp: contribs_def some_contribs_def map_filter_def dest: set_zip_leftD split: option.splits)

lemma adjoint_graph_upd:
  assumes ag: "adjoint_graph good dense_ip sh tg g" and n: "\<And>m nd. g m = Some nd \<Longrightarrow> m < N"
    and slots: "\<And>m nd e s. g m = Some nd \<Longrightarrow> e \<in> set (n_edges nd) \<Longrightarrow> e_slot e = Some s \<Longrightarrow> s < N"
    and ok: "graph_ok g" and eq: "\<And>m. m < N \<Longrightarrow> sh' m = sh m \<and> tg' m = tg m"
  shows "adjoint_graph good dense_ip sh' tg' g"
  unfolding adjoint_graph_def
proof (intro allI impI)
  fix m nd and x :: "real dense" assume nd: "g m = Some nd" and x: "good (sh' m) x"
  have child: "k < N" if "e \<in> set (n_edges nd)" "e_node e = Some k" for e k
    using ok nd that n unfolding graph_ok_def child_of_def by blast
  have same: "edge_type (\<lambda>m. good (sh' m)) (\<lambda>m. good (sh' m)) e c = edge_type (\<lambda>m. good (sh m)) (\<lambda>m. good (sh m)) e c"
      "edge_ip dense_ip tg' tg' e c = edge_ip dense_ip tg tg e c" if "e \<in> set (n_edges nd)" for e c
    using child[OF that] slots[OF nd that] eq by (auto simp: edge_type_def edge_ip_def split: option.splits)
  obtain gs where gs: "n_apply nd x = Some gs"
    "list_all2 (\<lambda>e c. case c of None \<Rightarrow> True | Some y \<Rightarrow> edge_type (\<lambda>m. good (sh m)) (\<lambda>m. good (sh m)) e y) (n_edges nd) gs"
    "contribs_ip dense_ip tg tg (contribs nd x) = dense_ip x (tg m)"
    using ag nd x eq[OF n[OF nd]] unfolding adjoint_graph_def by metis
  have "list_all2 (\<lambda>e c. case c of None \<Rightarrow> True | Some y \<Rightarrow> edge_type (\<lambda>m. good (sh' m)) (\<lambda>m. good (sh' m)) e y) (n_edges nd) gs"
    using gs(2) same(1) by (auto simp: list_all2_conv_all_nth split: option.splits)
  moreover have "contribs_ip dense_ip tg' tg' (contribs nd x) = contribs_ip dense_ip tg tg (contribs nd x)"
    unfolding contribs_ip_def using same(2) contribs_edges[of _ _ nd x] by (intro arg_cong[where f = sum_list] map_cong refl) auto
  ultimately show "\<exists>gs. n_apply nd x = Some gs
     \<and> list_all2 (\<lambda>e c. case c of None \<Rightarrow> True | Some y \<Rightarrow> edge_type (\<lambda>m. good (sh' m)) (\<lambda>m. good (sh' m)) e y) (n_edges nd) gs
     \<and> contribs_ip dense_ip tg' tg' (contribs nd x) = dense_ip x (tg' m)"
    using gs(1,3) eq[OF n[OF nd]] by auto
qed

lemma some_contribs_Some: "some_contribs (zip es (map Some cs)) = zip es cs"
proof (induction es arbitrary: cs)
  case (Cons e es)
  then show ?case by (cases cs) (simp_all add: some_contribs_def map_filter_simps)
qed (simp add: some_contribs_def map_filter_simps)

lemma contribs_ip_zip:
  "length es = length cs \<Longrightarrow> contribs_ip ip tn ts (zip es cs) = (\<Sum>j < length es. edge_ip ip tn ts (es ! j) (cs ! j))"
  by (simp add: contribs_ip_def sum_list_sum_nth atLeast0LessThan)

text \<open>The edge of a variable takes a gradient of its shape, and pairs it with its tangent.\<close>

lemma var_edge_holds:
  assumes "var_holds N sh tg h v s f t"
  shows "edge_type (\<lambda>m. good (sh m)) (\<lambda>m. good (sh m)) (var_edge v) (tabulate s A)"
    and "edge_ip dense_ip tg tg (var_edge v) (tabulate s A) = pairing s A t"
    and "e_node (var_edge v) = Some m \<Longrightarrow> h_nodes h m \<noteq> None" "e_slot (var_edge v) = Some m \<Longrightarrow> m < N"
proof -
  have z: "pairing s A t = 0" if "\<forall>cs. valid_coords s cs \<longrightarrow> t cs = 0"
    using that pairing_cong[of s A A t "\<lambda>_. 0"] by simp
  show "edge_type (\<lambda>m. good (sh m)) (\<lambda>m. good (sh m)) (var_edge v) (tabulate s A)"
    "edge_ip dense_ip tg tg (var_edge v) (tabulate s A) = pairing s A t"
    "e_node (var_edge v) = Some m \<Longrightarrow> h_nodes h m \<noteq> None" "e_slot (var_edge v) = Some m \<Longrightarrow> m < N"
    using assms z by (auto simp: var_holds_def edge_type_def edge_ip_def var_edge_def edge_detached_def edge_from_node_def edge_leaf_def
        split: option.splits if_splits)
qed

lemma node_adjoint_of_call:
  assumes env: "env_holds N sh tg h env ss fs ts" and ks: "\<forall>k \<in> set ks. k < length ss"
    and ap: "adjoint_at ap (map ((!) ss) ks) s D" and x: "good s x"
    and nd: "nd = \<lparr>n_name = name, n_apply = ap, n_edges = map var_edge (map ((!) env) ks)\<rparr>"
  shows "\<exists>gs. n_apply nd x = Some gs
     \<and> list_all2 (\<lambda>e c. case c of None \<Rightarrow> True | Some y \<Rightarrow> edge_type (\<lambda>m. good (sh m)) (\<lambda>m. good (sh m)) e y) (n_edges nd) gs
     \<and> contribs_ip dense_ip tg tg (contribs nd x) = dense_ip x (tabulate s (D (map ((!) ts) ks)))"
proof -
  have v: "var_holds N sh tg h (env ! (ks ! j)) (ss ! (ks ! j)) (fs ! (ks ! j)) (ts ! (ks ! j))" if "j < length ks" for j
    using env ks that by (auto simp: env_holds_def)
  obtain As where As: "length As = length ks" "ap (tabulate s (elt x)) = Some (map2 (\<lambda>r A. Some (tabulate r A)) (map ((!) ss) ks) As)"
    "(\<Sum>j < length ks. pairing (ss ! (ks ! j)) (As ! j) (ts ! (ks ! j))) = pairing s (elt x) (D (map ((!) ts) ks))"
    using ap unfolding adjoint_at_def by (auto dest!: spec[of _ "elt x"] spec[of _ "map ((!) ts) ks"])
  let ?gs = "map2 tabulate (map ((!) ss) ks) As" and ?es = "map var_edge (map ((!) env) ks)"
  have gs: "map2 (\<lambda>r A. Some (tabulate r A)) (map ((!) ss) ks) As = map Some ?gs" by (simp add: case_prod_unfold)
  have nx: "n_apply nd x = Some (map Some ?gs)" using As(2) good_tabulated[OF x] unfolding gs nd by simp
  moreover have "list_all2 (\<lambda>e c. case c of None \<Rightarrow> True | Some y \<Rightarrow> edge_type (\<lambda>m. good (sh m)) (\<lambda>m. good (sh m)) e y) (n_edges nd) (map Some ?gs)"
    using var_edge_holds(1)[OF v] As(1) by (auto simp: nd list_all2_conv_all_nth)
  moreover have "contribs_ip dense_ip tg tg (contribs nd x) = dense_ip x (tabulate s (D (map ((!) ts) ks)))"
  proof -
    have "contribs nd x = zip ?es ?gs" using nx unfolding contribs_def by (simp add: some_contribs_Some nd del: map_map)
    then have "contribs_ip dense_ip tg tg (contribs nd x) = (\<Sum>j < length ks. edge_ip dense_ip tg tg (?es ! j) (?gs ! j))"
      using As(1) contribs_ip_zip[of ?es ?gs dense_ip tg tg] by simp
    also have "\<dots> = (\<Sum>j < length ks. pairing (ss ! (ks ! j)) (As ! j) (ts ! (ks ! j)))"
      using var_edge_holds(2)[OF v] As(1) by (intro sum.cong) simp_all
    finally show ?thesis using As(3) dense_ip_tab[of s "elt x"] good_tabulated[OF x] by simp
  qed
  ultimately show ?thesis by blast
qed

lemma zero_tangent:
  assumes ap: "adjoint_at ap ss s D" and len: "length ts = length ss"
    and z: "\<And>k cs. k < length ss \<Longrightarrow> valid_coords (ss ! k) cs \<Longrightarrow> (ts ! k) cs = 0" and cs: "valid_coords s cs"
  shows "D ts cs = 0"
proof -
  obtain As where "(\<Sum>k < length ss. pairing (ss ! k) (As ! k) (ts ! k)) = pairing s (\<lambda>x. if x = cs then 1 else 0) (D ts)"
    using ap len unfolding adjoint_at_def by blast
  moreover have "pairing (ss ! k) (As ! k) (ts ! k) = 0" if "k < length ss" for k
    using z[OF that] by (simp add: pairing_def)
  moreover have "pairing s (\<lambda>x. if x = cs then 1 else 0) (D ts) = D ts cs"
    using cs by (simp add: pairing_def if_distrib[of "\<lambda>c. c * _"] sum.delta cong: if_cong)
  ultimately show ?thesis by simp
qed


lemma var_holds_mono:
  assumes "var_holds N sh tg h v s f t" "\<And>m. m < h_next h \<Longrightarrow> h_data h' m = h_data h m" "h_next h \<le> h_next h'"
    and "\<And>m. m < h_next h \<Longrightarrow> sh' m = sh m \<and> tg' m = tg m" "\<And>m. h_nodes h m \<noteq> None \<Longrightarrow> m < h_next h \<and> h_nodes h' m \<noteq> None"
  shows "var_holds N sh' tg' h' v s f t"
proof -
  have "var_tensor v h' = var_tensor v h" using assms(1,2) by (simp add: var_holds_def var_tensor_def)
  then show ?thesis using assms(1,3-5) by (auto simp: var_holds_def split: option.splits)
qed

lemma env_holds_snoc:
  assumes "env_holds N sh tg h env ss fs ts" "\<And>m. m < h_next h \<Longrightarrow> h_data h' m = h_data h m" "h_next h \<le> h_next h'"
    and "\<And>m. m < h_next h \<Longrightarrow> sh' m = sh m \<and> tg' m = tg m" "\<And>m. h_nodes h m \<noteq> None \<Longrightarrow> m < h_next h \<and> h_nodes h' m \<noteq> None"
    and "var_holds N sh' tg' h' v s f t"
  shows "env_holds N sh' tg' h' (env @ [v]) (ss @ [s]) (fs @ [f]) (ts @ [t])"
  using assms(1,6) var_holds_mono[OF _ assms(2-5)] by (auto simp: env_holds_def nth_append less_Suc_eq)

lemma attach_recorded:
  assumes rec: "recorded N sh tg h" and env: "env_holds N sh tg h env ss fs ts" and ks: "\<forall>k \<in> set ks. k < length ss"
    and s: "good_shape s" and ap: "adjoint_at ap (map ((!) ss) ks) s D"
    and run: "attach name ap (map ((!) env) ks) (tabulate s f) h = (v, h')"
  shows "\<exists>sh' tg'. recorded N sh' tg' h' \<and> env_holds N sh' tg' h' (env @ [v]) (ss @ [s]) (fs @ [f]) (ts @ [D (map ((!) ts) ks)])
    \<and> (\<forall>m < h_next h. sh' m = sh m \<and> tg' m = tg m) \<and> h_next h \<le> h_next h'
    \<and> (v_requires_grad v \<longleftrightarrow> list_ex (\<lambda>k. v_requires_grad (env ! k)) ks) \<and> (v_requires_grad v \<longrightarrow> v_grad_fn v \<noteq> None)"
proof -
  let ?t = "D (map ((!) ts) ks)" and ?a = "h_next h"
  note R = rec[unfolded recorded_def]
  define h1 where "h1 = snd (var_new (tabulate s f) h)"
  have h1: "h_nodes h1 = h_nodes h" "h_next h1 = Suc ?a" "h_data h1 = (h_data h)(?a \<mapsto> tabulate s f)" "h_grad h1 = (h_grad h)(?a := None)"
    "h_grad_enabled h1 = h_grad_enabled h" by (simp_all add: h1_def var_new_def alloc_variable_def)
  have below: "m < ?a" if "h_nodes h m \<noteq> None" for m using R that by auto
  show ?thesis
  proof (cases "list_ex (\<lambda>k. v_requires_grad (env ! k)) ks")
    case False
    then have v: "v = \<lparr>v_data = ?a, v_grad_fn = None, v_grad = ?a, v_requires_grad = False\<rparr>" "h' = h1"
      using run by (auto simp: attach_def h1_def var_new_def alloc_variable_def list_ex_iff)
    have z: "?t cs = 0" if "valid_coords s cs" for cs
    proof (rule zero_tangent[OF ap _ _ that])
      fix j cs assume j: "j < length (map ((!) ss) ks)" and cs: "valid_coords (map ((!) ss) ks ! j) cs"
      then have "var_holds N sh tg h (env ! (ks ! j)) (ss ! (ks ! j)) (fs ! (ks ! j)) (ts ! (ks ! j))"
        using env ks by (auto simp: env_holds_def)
      then show "(map ((!) ts) ks ! j) cs = 0" using j cs False by (auto simp: var_holds_def list_ex_iff)
    qed simp
    have "recorded N sh tg h1" using R below by (auto simp: recorded_def h1 less_Suc_eq dest: order.strict_trans)
    moreover have "env_holds N sh tg h1 (env @ [v]) (ss @ [s]) (fs @ [f]) (ts @ [?t])"
      using below s z by (intro env_holds_snoc[OF env]) (auto simp: h1 v var_holds_def var_tensor_def)
    ultimately show ?thesis using v False h1(2) by (intro exI[of _ sh] exI[of _ tg]) simp
  next
    case True
    let ?n = "Suc ?a"
    let ?nd = "\<lparr>n_name = name, n_apply = ap, n_edges = map var_edge (map ((!) env) ks)\<rparr>"
    let ?sh = "sh(?n := s)" and ?tg = "tg(?n := tabulate s ?t)"
    have v: "v = \<lparr>v_data = ?a, v_grad_fn = Some ?n, v_grad = ?a, v_requires_grad = True\<rparr>"
      "h' = h1\<lparr>h_nodes := (h_nodes h)(?n \<mapsto> ?nd), h_next := Suc ?n\<rparr>"
      using run True R h1 by (auto simp: attach_def h1_def var_new_def alloc_variable_def list_ex_iff is_grad_enabled_def)
    have upd: "?sh m = sh m \<and> ?tg m = tg m" if "m < ?a" for m using that by simp
    have env': "env_holds N ?sh ?tg h env ss fs ts"
      unfolding env_holds_def
    proof (intro conjI allI impI)
      fix k assume "k < length ss"
      then have "var_holds N sh tg h (env ! k) (ss ! k) (fs ! k) (ts ! k)" using env by (simp add: env_holds_def)
      from var_holds_mono[OF this refl order_refl upd] below
      show "var_holds N ?sh ?tg h (env ! k) (ss ! k) (fs ! k) (ts ! k)" by blast
    qed (use env in \<open>simp_all add: env_holds_def\<close>)
    have edge: "(\<forall>m. e_node e = Some m \<longrightarrow> h_nodes h m \<noteq> None) \<and> (\<forall>m. e_slot e = Some m \<longrightarrow> m < N)" if e: "e \<in> set (n_edges ?nd)" for e
    proof -
      obtain k where "k \<in> set ks" "e = var_edge (env ! k)" using e by auto
      moreover then have "var_holds N sh tg h (env ! k) (ss ! k) (fs ! k) (ts ! k)" using env ks by (simp add: env_holds_def)
      ultimately show ?thesis using var_edge_holds(3,4) by blast
    qed
    have "graph_ok (h_nodes h')" unfolding v using R below edge by (simp, intro graph_ok_upd) (auto intro: less_SucI)
    moreover have "adjoint_graph good dense_ip ?sh ?tg (h_nodes h')"
      unfolding adjoint_graph_def
    proof (intro allI impI)
      fix m nd and x :: "real dense" assume nd: "h_nodes h' m = Some nd" and x: "good (?sh m) x"
      show "\<exists>gs. n_apply nd x = Some gs
         \<and> list_all2 (\<lambda>e c. case c of None \<Rightarrow> True | Some y \<Rightarrow> edge_type (\<lambda>m. good (?sh m)) (\<lambda>m. good (?sh m)) e y) (n_edges nd) gs
         \<and> contribs_ip dense_ip ?tg ?tg (contribs nd x) = dense_ip x (?tg m)"
      proof (cases "m = ?n")
        case True
        then have "nd = ?nd" "good s x" using nd x by (simp_all add: v)
        from node_adjoint_of_call[OF env' ks ap this(2,1)] show ?thesis unfolding True fun_upd_same .
      next
        case False
        have "adjoint_graph good dense_ip ?sh ?tg (h_nodes h)"
        proof (rule adjoint_graph_upd[OF _ _ _ _ upd])
          show "adjoint_graph good dense_ip sh tg (h_nodes h)" "graph_ok (h_nodes h)" using R by blast+
          show "m < ?a" if "h_nodes h m = Some nd" for m nd using below that by simp
          show "s < ?a" if "h_nodes h m = Some nd" "e \<in> set (n_edges nd)" "e_slot e = Some s" for m nd e s
            using R that order.strict_trans2 by blast
        qed
        moreover have "h_nodes h m = Some nd" using nd False by (simp add: v)
        ultimately show ?thesis using x unfolding adjoint_graph_def by blast
      qed
    qed
    moreover have "\<forall>n nd e s. h_nodes h' n = Some nd \<longrightarrow> e \<in> set (n_edges nd) \<longrightarrow> e_slot e = Some s \<longrightarrow> s < N"
    proof (intro allI impI)
      fix n nd e s assume "h_nodes h' n = Some nd" "e \<in> set (n_edges nd)" "e_slot e = Some s"
      moreover from this R have "s < N" if "n \<noteq> ?n" using that unfolding v by simp
      ultimately show "s < N" using edge by (cases "n = ?n") (auto simp: v)
    qed
    moreover have "\<forall>n \<in> dom (h_nodes h'). n < h_next h'" using below by (auto simp: v intro: less_SucI)
    ultimately have "recorded N ?sh ?tg h'" using R by (simp add: recorded_def v h1)
    moreover have "env_holds N ?sh ?tg h' (env @ [v]) (ss @ [s]) (fs @ [f]) (ts @ [?t])"
      using below s by (intro env_holds_snoc[OF env]) (auto simp: h1 v var_holds_def var_tensor_def)
    ultimately show ?thesis using v True h1(2) by (intro exI[of _ ?sh] exI[of _ ?tg]) simp
  qed
qed


lemma run_program_recorded:
  assumes gm: "gemm_ok (real_ops gm)"
  shows "program_shapes p ss = Some us \<Longrightarrow> recorded N sh tg h \<Longrightarrow> env_holds N sh tg h env ss fs ts \<Longrightarrow>
    \<exists>env' h' sh' tg'. run_calls gm p env h = Some (Inr (env @ env'), h') \<and> recorded N sh' tg' h'
      \<and> env_holds N sh' tg' h' (env @ env') us (program_vals p ss fs) (program_tans p ss fs ts)
      \<and> (\<forall>m < h_next h. sh' m = sh m \<and> tg' m = tg m)
      \<and> map v_requires_grad (env @ env') = program_tracked p (map v_requires_grad env)
      \<and> (\<forall>v \<in> set env'. v_requires_grad v \<longrightarrow> v_grad_fn v \<noteq> None)"
proof (induction p arbitrary: ss sh tg h env fs ts)
  case Nil
  then show ?case by auto
next
  case (Cons c p)
  let ?m = "meaning_at c ss" and ?ks = "operands c"
  note shp = program_shapes_Cons[OF Cons.prems(1)] and env = Cons.prems(3)
  have len: "length env = length ss" "length fs = length ss" "length ts = length ss" using env by (simp_all add: env_holds_def)
  have holds: "var_holds N sh tg h (env ! k) (ss ! k) (fs ! k) (ts ! k)" if "k < length ss" for k using env that by (simp add: env_holds_def)
  have "call_result (run_call gm c env h) (map ((!) env) ?ks) (map ((!) ss) ?ks) (m_shape ?m) (m_val ?m (map ((!) fs) ?ks))
      (m_tan ?m (map ((!) fs) ?ks)) h"
  proof (rule call_correct[OF shp(2) _ _ shp(3) gm])
    show "\<forall>s \<in> set (map ((!) ss) ?ks). good_shape s" using holds shp(1) by (auto simp: var_holds_def)
    fix j assume "j < length (map ((!) ss) ?ks)"
    then show "var_tensor (env ! (?ks ! j)) h = Some (tabulate (map ((!) ss) ?ks ! j) (map ((!) fs) ?ks ! j))"
      using holds[of "?ks ! j"] shp(1) by (simp add: var_holds_def)
  qed simp
  then obtain op name mk where r: "run_call gm c env h = finish_op op name mk (map ((!) env) ?ks)
        (Some (Inr (tabulate (m_shape ?m) (m_val ?m (map ((!) fs) ?ks))))) h"
      "adjoint_at (mk (tabulate (m_shape ?m) (m_val ?m (map ((!) fs) ?ks)))) (map ((!) ss) ?ks) (m_shape ?m) (m_tan ?m (map ((!) fs) ?ks))"
    unfolding call_result_def by blast
  obtain v h1 where at: "attach name (mk (tabulate (m_shape ?m) (m_val ?m (map ((!) fs) ?ks)))) (map ((!) env) ?ks)
      (tabulate (m_shape ?m) (m_val ?m (map ((!) fs) ?ks))) h = (v, h1)" by fastforce
  from attach_recorded[OF Cons.prems(2) env shp(1) shp(3) r(2) at] obtain sh1 tg1 where
    a: "recorded N sh1 tg1 h1" "env_holds N sh1 tg1 h1 (env @ [v]) (ss @ [m_shape ?m]) (fs @ [m_val ?m (map ((!) fs) ?ks)])
        (ts @ [m_tan ?m (map ((!) fs) ?ks) (map ((!) ts) ?ks)])"
      "\<forall>m < h_next h. sh1 m = sh m \<and> tg1 m = tg m" "h_next h \<le> h_next h1"
      "v_requires_grad v \<longleftrightarrow> list_ex (\<lambda>k. v_requires_grad (env ! k)) ?ks" "v_requires_grad v \<longrightarrow> v_grad_fn v \<noteq> None" by blast
  from Cons.IH[OF shp(4) a(1,2)] obtain env' h' sh' tg' where
    b: "run_calls gm p (env @ [v]) h1 = Some (Inr ((env @ [v]) @ env'), h')" "recorded N sh' tg' h'"
      "env_holds N sh' tg' h' ((env @ [v]) @ env') us (program_vals p (ss @ [m_shape ?m]) (fs @ [m_val ?m (map ((!) fs) ?ks)]))
        (program_tans p (ss @ [m_shape ?m]) (fs @ [m_val ?m (map ((!) fs) ?ks)]) (ts @ [m_tan ?m (map ((!) fs) ?ks) (map ((!) ts) ?ks)]))"
      "\<forall>m < h_next h1. sh' m = sh1 m \<and> tg' m = tg1 m"
      "map v_requires_grad ((env @ [v]) @ env') = program_tracked p (map v_requires_grad (env @ [v]))"
      "\<forall>v \<in> set env'. v_requires_grad v \<longrightarrow> v_grad_fn v \<noteq> None" by blast
  have tr: "v_requires_grad v = list_ex ((!) (map v_requires_grad env)) ?ks"
    using a(5) shp(1) len(1) by (auto simp: list_ex_iff)
  show ?case
  proof (intro exI conjI)
    show "run_calls gm (c # p) env h = Some (Inr (env @ v # env'), h')" using b(1) by (simp add: r(1) finish_op_def at)
    show "map v_requires_grad (env @ v # env') = program_tracked (c # p) (map v_requires_grad env)" using b(5) by (simp add: tr)
    show "env_holds N sh' tg' h' (env @ v # env') us (program_vals (c # p) ss fs) (program_tans (c # p) ss fs ts)"
      using b(3) by (simp add: Let_def)
    show "\<forall>m < h_next h. sh' m = sh m \<and> tg' m = tg m" using a(3,4) b(4) order_less_le_trans[of _ "h_next h" "h_next h1"] by simp
  qed (use b(2,6) a(6) in auto)
qed

text \<open>The inputs take the addresses from 0 on.\<close>

definition input_var :: "inputs \<Rightarrow> nat \<Rightarrow> variable" where
  "input_var xs k = \<lparr>v_data = k, v_grad_fn = None, v_grad = k, v_requires_grad = fst (xs ! k)\<rparr>"

definition input_heap :: "inputs \<Rightarrow> real dense heap" where
  "input_heap xs = \<lparr>h_data = (\<lambda>k. if k < length xs then Some (snd (xs ! k)) else None), h_grad = \<lambda>_. None, h_nodes = Map.empty,
     h_next = length xs, h_grad_enabled = True\<rparr>"

lemma make_inputs_snoc:
  "make_inputs (xs @ [(b, x)]) env h =
     (let (env', h') = make_inputs xs env h; (v, h'') = (if b then var_leaf x h' else var_new x h') in (env' @ [v], h''))"
  by (induction xs env h rule: make_inputs.induct) (auto simp: Let_def split: prod.splits)

lemma make_inputs_eq: "make_inputs xs [] new_heap = (map (input_var xs) [0..<length xs], input_heap xs)"
proof (induction xs rule: rev_induct)
  case (snoc bx xs)
  obtain b x where bx: "bx = (b, x)" by (cases bx)
  have "map (input_var xs) [0..<length xs] = map (input_var (xs @ [bx])) [0..<length xs]"
    by (intro map_cong refl) (simp add: input_var_def nth_append)
  then show ?case using snoc
    by (auto simp: bx make_inputs_snoc Let_def var_leaf_def var_new_def alloc_variable_def input_var_def input_heap_def fun_eq_iff nth_append)
qed (simp add: input_heap_def new_heap_def)

definition inputs_ok :: "inputs \<Rightarrow> bool" where
  "inputs_ok xs \<longleftrightarrow> (\<forall>(b, x) \<in> set xs. good (d_shape x) x)"

abbreviation input_shapes :: "inputs \<Rightarrow> shape list" where
  "input_shapes xs \<equiv> map (\<lambda>(b, x). d_shape x) xs"

abbreviation input_fields :: "inputs \<Rightarrow> field list" where
  "input_fields xs \<equiv> map (\<lambda>(b, x). elt x) xs"

lemma inputs_recorded:
  assumes ok: "inputs_ok xs" and ts: "length ts = length xs"
    and z: "\<And>k cs. k < length xs \<Longrightarrow> \<not> fst (xs ! k) \<Longrightarrow> (ts ! k) cs = 0"
  shows "recorded (length xs) sh tg (input_heap xs)"
    "env_holds (length xs) (\<lambda>k. d_shape (snd (xs ! k))) (\<lambda>k. tabulate (d_shape (snd (xs ! k))) (ts ! k)) (input_heap xs)
       (map (input_var xs) [0..<length xs]) (input_shapes xs) (input_fields xs) ts"
proof -
  show "recorded (length xs) sh tg (input_heap xs)"
    by (simp add: recorded_def input_heap_def graph_ok_def child_of_def adjoint_graph_def)
  have g: "good (d_shape (snd (xs ! k))) (snd (xs ! k))" if "k < length xs" for k
    using ok nth_mem[OF that] unfolding inputs_ok_def by (metis (mono_tags, lifting) case_prod_unfold)
  then show "env_holds (length xs) (\<lambda>k. d_shape (snd (xs ! k))) (\<lambda>k. tabulate (d_shape (snd (xs ! k))) (ts ! k)) (input_heap xs)
       (map (input_var xs) [0..<length xs]) (input_shapes xs) (input_fields xs) ts"
    using ts z good_tabulated[OF g]
    by (auto simp: env_holds_def var_holds_def input_var_def input_heap_def var_tensor_def case_prod_unfold good_def)
qed


section \<open>Gradients are derivatives\<close>

lemma env_holds_last:
  assumes "env_holds N sh tg h env us fs ts" "us \<noteq> []"
  shows "var_holds N sh tg h (last env) (last us) (last fs) (last ts)"
proof -
  have len: "length env = length us" "length fs = length us" "length ts = length us" using assms(1) by (simp_all add: env_holds_def)
  have "length us - 1 < length us" using assms(2) by simp
  with assms(1) have "var_holds N sh tg h (env ! (length us - 1)) (us ! (length us - 1)) (fs ! (length us - 1)) (ts ! (length us - 1))"
    by (simp add: env_holds_def)
  moreover have "env \<noteq> []" "fs \<noteq> []" "ts \<noteq> []" using assms(2) len by auto
  ultimately show ?thesis using assms(2) len by (simp add: last_conv_nth)
qed

lemma run_on_inputs:
  assumes gm: "gemm_ok (real_ops gm)" and ok: "inputs_ok xs" and shapes: "program_shapes p (input_shapes xs) = Some us"
    and ts: "length ts = length xs" "\<And>k cs. k < length xs \<Longrightarrow> \<not> fst (xs ! k) \<Longrightarrow> (ts ! k) cs = 0"
  obtains env h sh tg where "run_on gm p xs = Some (Inr (map (input_var xs) [0..<length xs] @ env), h)"
    "recorded (length xs) sh tg h" "env_holds (length xs) sh tg h (map (input_var xs) [0..<length xs] @ env) us
       (program_vals p (input_shapes xs) (input_fields xs)) (program_tans p (input_shapes xs) (input_fields xs) ts)"
    "\<And>k. k < length xs \<Longrightarrow> sh k = d_shape (snd (xs ! k)) \<and> tg k = tabulate (d_shape (snd (xs ! k))) (ts ! k)"
    "map v_requires_grad (map (input_var xs) [0..<length xs] @ env) = program_tracked p (map fst xs)"
    "\<forall>v \<in> set env. v_requires_grad v \<longrightarrow> v_grad_fn v \<noteq> None"
proof -
  let ?env = "map (input_var xs) [0..<length xs]"
  have bs: "map v_requires_grad ?env = map fst xs"
    by (intro nth_equalityI) (simp_all add: input_var_def)
  from run_program_recorded[OF gm shapes inputs_recorded[OF ok ts]] obtain env h sh tg where
    "run_calls gm p ?env (input_heap xs) = Some (Inr (?env @ env), h)" "recorded (length xs) sh tg h"
    "env_holds (length xs) sh tg h (?env @ env) us (program_vals p (input_shapes xs) (input_fields xs))
       (program_tans p (input_shapes xs) (input_fields xs) ts)"
    "\<forall>m < h_next (input_heap xs). sh m = d_shape (snd (xs ! m)) \<and> tg m = tabulate (d_shape (snd (xs ! m))) (ts ! m)"
    "map v_requires_grad (?env @ env) = program_tracked p (map v_requires_grad ?env)"
    "\<forall>v \<in> set env. v_requires_grad v \<longrightarrow> v_grad_fn v \<noteq> None" by blast
  then show thesis using that[of env h sh tg] unfolding bs by (simp add: run_on_def make_inputs_eq input_heap_def)
qed

text \<open>The value of the output, for any good inputs.\<close>

lemma output_value:
  assumes "gemm_ok (real_ops gm)" "inputs_ok xs" "program_shapes p (input_shapes xs) = Some us" "p \<noteq> []"
  shows "output_of gm p xs = Some (tabulate (last us) (last (program_vals p (input_shapes xs) (input_fields xs))))"
proof -
  have "(replicate (length xs) (\<lambda>_. 0) ! k) cs = 0" if "k < length xs" for k and cs :: "nat list" using that by simp
  with run_on_inputs[OF assms(1-3), of "replicate (length xs) (\<lambda>_. 0)"] obtain env h sh tg where
    r: "run_on gm p xs = Some (Inr (map (input_var xs) [0..<length xs] @ env), h)"
    "env_holds (length xs) sh tg h (map (input_var xs) [0..<length xs] @ env) us
       (program_vals p (input_shapes xs) (input_fields xs)) (program_tans p (input_shapes xs) (input_fields xs) (replicate (length xs) (\<lambda>_. 0)))"
    by (metis length_replicate)
  let ?env = "map (input_var xs) [0..<length xs] @ env" and ?fs = "program_vals p (input_shapes xs) (input_fields xs)"
  have "us \<noteq> []" using program_shapes_length[OF assms(3)] assms(4) by auto
  from env_holds_last[OF r(2) this] have "var_tensor (last ?env) h = Some (tabulate (last us) (last ?fs))"
    by (simp add: var_holds_def)
  then show ?thesis by (simp add: output_of_def r(1))
qed

text \<open>The gradients after a pass, paired with any tangents of the inputs.\<close>

lemma gradients_pair:
  assumes gm: "gemm_ok (real_ops gm)" and ok: "inputs_ok xs" and shapes: "program_shapes p (input_shapes xs) = Some us"
    and p: "p \<noteq> []" and tracked: "last (program_tracked p (map fst xs))" and seed: "good (last us) seed"
    and ts: "length ts = length xs" "\<And>k cs. k < length xs \<Longrightarrow> \<not> fst (xs ! k) \<Longrightarrow> (ts ! k) cs = 0"
  shows "\<exists>gs. gradients_of gm p xs seed = Some gs \<and> length gs = length xs
    \<and> (\<forall>k < length xs. \<forall>g. gs ! k = Some g \<longrightarrow> good (d_shape (snd (xs ! k))) g)
    \<and> (\<Sum>k < length xs. opt_ip dense_ip (gs ! k) (tabulate (d_shape (snd (xs ! k))) (ts ! k)))
      = pairing (last us) (elt seed) (last (program_tans p (input_shapes xs) (input_fields xs) ts))"
proof -
  let ?ins = "map (input_var xs) [0..<length xs]"
  from run_on_inputs[OF gm ok shapes ts] obtain env h sh tg where
    r: "run_on gm p xs = Some (Inr (?ins @ env), h)" "recorded (length xs) sh tg h"
      "env_holds (length xs) sh tg h (?ins @ env) us
       (program_vals p (input_shapes xs) (input_fields xs)) (program_tans p (input_shapes xs) (input_fields xs) ts)"
      "\<And>k. k < length xs \<Longrightarrow> sh k = d_shape (snd (xs ! k)) \<and> tg k = tabulate (d_shape (snd (xs ! k))) (ts ! k)"
      "map v_requires_grad (?ins @ env) = program_tracked p (map fst xs)"
      "\<forall>v \<in> set env. v_requires_grad v \<longrightarrow> v_grad_fn v \<noteq> None" by metis
  let ?v = "last (?ins @ env)" and ?tans = "program_tans p (input_shapes xs) (input_fields xs) ts"
  have len: "length (?ins @ env) = length us" "length ?tans = length us" "length us = length xs + length p" "env \<noteq> []"
    using r(3) program_shapes_length[OF shapes] p by (auto simp: env_holds_def)
  have v: "?v \<in> set env" using len(4) by simp
  have us: "us \<noteq> []" using len(3) p by auto
  have "v_requires_grad ?v" using tracked r(5) len(4) by (metis last_map Nil_is_append_conv)
  then obtain root where root: "v_grad_fn ?v = Some root" using r(6) v by blast
  have "var_holds (length xs) sh tg h ?v (last us) (last (program_vals p (input_shapes xs) (input_fields xs))) (last ?tans)"
    by (rule env_holds_last[OF r(3) us])
  then have vh: "h_nodes h root \<noteq> None" "sh root = last us" "tg root = tabulate (last us) (last ?tans)"
    using root \<open>v_requires_grad ?v\<close> by (auto simp: var_holds_def)
  note R = r(2)[unfolded recorded_def]
  have "\<exists>h'. backward (dense_add gm) (\<lambda>t. tabulate (d_shape t) (\<lambda>_. 1)) ?v (Some seed) h = Some (None, h')
    \<and> (\<Sum>s < length xs. opt_ip dense_ip (h_grad h' s) (tg s) - opt_ip dense_ip (h_grad h s) (tg s)) = dense_ip seed (tg root)
    \<and> (\<forall>s x. h_grad h' s = Some x \<longrightarrow> good (sh s) x)"
    by (rule cpu_sums.backward_adjoint[OF _ _ root vh(1)]) (use R vh seed in auto)
  then obtain h' where b: "backward (dense_add gm) (\<lambda>t. tabulate (d_shape t) (\<lambda>_. 1)) ?v (Some seed) h = Some (None, h')"
    "(\<Sum>s < length xs. opt_ip dense_ip (h_grad h' s) (tg s)) = dense_ip seed (tg root)" "\<And>s x. h_grad h' s = Some x \<Longrightarrow> good (sh s) x"
    using R by (auto simp: opt_ip_def)
  let ?gs = "map (h_grad h') [0..<length xs]"
  have "gradients_of gm p xs seed = Some (map (\<lambda>i. var_grad ((?ins @ env) ! i) h') [0..<length xs])"
    by (simp add: gradients_of_def r(1) b(1))
  also have "map (\<lambda>i. var_grad ((?ins @ env) ! i) h') [0..<length xs] = ?gs"
    by (intro map_cong refl) (auto simp: nth_append var_grad_def input_var_def split: option.splits)
  finally have "gradients_of gm p xs seed = Some ?gs" .
  moreover have "dense_ip seed (tg root) = pairing (last us) (elt seed) (last ?tans)"
    using vh(3) seed by (auto simp: dense_ip_def good_def intro!: pairing_cong)
  moreover have "good (d_shape (snd (xs ! k))) g" if "k < length xs" "h_grad h' k = Some g" for k g
    using b(3)[OF that(2)] r(4)[OF that(1)] by simp
  ultimately show ?thesis using b(2) r(4) by (intro exI[of _ ?gs]) simp
qed


text \<open>One element of one input moved by \<open>e\<close>, and the pairing of the output with the seed.\<close>

definition moved_by :: "real dense \<Rightarrow> nat list \<Rightarrow> real \<Rightarrow> real dense" where
  "moved_by x cs e = x\<lparr>d_elems := (d_elems x)[ravel (d_shape x) cs := elt x cs + e]\<rparr>"

definition moved_input :: "inputs \<Rightarrow> nat \<Rightarrow> nat list \<Rightarrow> real \<Rightarrow> inputs" where
  "moved_input xs i cs e = xs[i := (fst (xs ! i), moved_by (snd (xs ! i)) cs e)]"

definition objective :: "gemm \<Rightarrow> call list \<Rightarrow> inputs \<Rightarrow> real dense \<Rightarrow> real" where
  "objective gm p xs seed = (case output_of gm p xs of Some y \<Rightarrow> dense_ip seed y | None \<Rightarrow> 0)"

lemma moved_by_facts:
  assumes "good (d_shape x) x" "valid_coords (d_shape x) cs"
  shows "good (d_shape x) (moved_by x cs e)" "d_shape (moved_by x cs e) = d_shape x" "moved_by x cs 0 = x"
    "valid_coords (d_shape x) c \<Longrightarrow> elt (moved_by x cs e) c = elt x c + (if c = cs then e else 0)"
proof -
  have lt: "ravel (d_shape x) c < length (d_elems x)" if "valid_coords (d_shape x) c" for c
    using ravel_less[OF that] assms(1) by (simp add: good_def numel_prod_list)
  show "good (d_shape x) (moved_by x cs e)" "d_shape (moved_by x cs e) = d_shape x" "moved_by x cs 0 = x"
    using assms(1) by (simp_all add: moved_by_def good_def elt_def)
  show "elt (moved_by x cs e) c = elt x c + (if c = cs then e else 0)" if c: "valid_coords (d_shape x) c"
  proof (cases "c = cs")
    case True
    then show ?thesis using lt[OF c] by (simp add: moved_by_def elt_def)
  next
    case False
    then have "ravel (d_shape x) c \<noteq> ravel (d_shape x) cs" using coords_of_ravel[OF c] coords_of_ravel[OF assms(2)] by metis
    then show ?thesis using False by (simp add: moved_by_def elt_def)
  qed
qed

lemma moved_input_facts:
  assumes ok: "inputs_ok xs" and i: "i < length xs" and cs: "valid_coords (d_shape (snd (xs ! i))) cs"
  shows "inputs_ok (moved_input xs i cs e)" "input_shapes (moved_input xs i cs e) = input_shapes xs" "moved_input xs i cs 0 = xs"
    "length (moved_input xs i cs e) = length xs"
    "k < length xs \<Longrightarrow> valid_coords (d_shape (snd (xs ! k))) c \<Longrightarrow>
      (input_fields (moved_input xs i cs e) ! k) c = elt (snd (xs ! k)) c + (if k = i \<and> c = cs then e else 0)"
proof -
  have g: "good (d_shape (snd (xs ! i))) (snd (xs ! i))" 
    using ok nth_mem[OF i] unfolding inputs_ok_def by (metis (mono_tags, lifting) case_prod_unfold)
  note m = moved_by_facts[OF g cs]
  show "inputs_ok (moved_input xs i cs e)" using ok m(1,2) by (auto simp: moved_input_def inputs_ok_def dest!: set_update_subset_insert[THEN subsetD])
  show "input_shapes (moved_input xs i cs e) = input_shapes xs"
    using i m(2) by (intro nth_equalityI) (auto simp: moved_input_def nth_list_update case_prod_unfold)
  show "moved_input xs i cs 0 = xs" using m(3) by (simp add: moved_input_def)
  show "length (moved_input xs i cs e) = length xs" by (simp add: moved_input_def)
  show "k < length xs \<Longrightarrow> valid_coords (d_shape (snd (xs ! k))) c \<Longrightarrow>
      (input_fields (moved_input xs i cs e) ! k) c = elt (snd (xs ! k)) c + (if k = i \<and> c = cs then e else 0)"
    using m(4) by (cases "k = i") (auto simp: moved_input_def case_prod_unfold)
qed

text \<open>The tangents that move one element of one input.\<close>

abbreviation unit_tangents :: "inputs \<Rightarrow> nat \<Rightarrow> nat list \<Rightarrow> field list" where
  "unit_tangents xs i cs \<equiv> map (\<lambda>k c. if k = i \<and> c = cs then 1 else 0) [0..<length xs]"

lemma objective_derivative:
  assumes gm: "gemm_ok (real_ops gm)" and ok: "inputs_ok xs" and shapes: "program_shapes p (input_shapes xs) = Some us"
    and smooth: "program_smooth p (input_shapes xs) (input_fields xs)"
    and p: "p \<noteq> []" and seed: "good (last us) seed"
    and i: "i < length xs" and cs: "valid_coords (d_shape (snd (xs ! i))) cs"
  shows "((\<lambda>e. objective gm p (moved_input xs i cs e) seed) has_real_derivative
    pairing (last us) (elt seed) (last (program_tans p (input_shapes xs) (input_fields xs) (unit_tangents xs i cs)))) (at 0)"
proof -
  let ?F = "\<lambda>e. input_fields (moved_input xs i cs e)" and ?ss = "input_shapes xs" and ?ts = "unit_tangents xs i cs"
  note mv = moved_input_facts[OF ok i cs]
  have us: "length us = length xs + length p" using program_shapes_length[OF shapes] by simp
  have obj: "objective gm p (moved_input xs i cs e) seed = pairing (last us) (elt seed) (last (program_vals p ?ss (?F e)))" for e
    using output_value[OF gm mv(1) _ p, of e us] shapes mv(2)[of e] seed
    by (auto simp: objective_def dense_ip_def good_def intro!: pairing_cong)
  have F0: "?F 0 = input_fields xs" by (simp add: mv(3))
  have d: "((\<lambda>e. (program_vals p ?ss (?F e) ! k) c) has_real_derivative (program_tans p ?ss (?F 0) ?ts ! k) c) (at 0)"
    if "k < length us" "valid_coords (us ! k) c" for k c
  proof (rule program_derivative[OF shapes _ _ _ _ that])
    show "program_smooth p ?ss (?F 0)" using smooth F0 by simp
    fix k c assume k: "k < length ?ss" and c: "valid_coords (?ss ! k) c"
    have eq: "(?F e ! k) c = elt (snd (xs ! k)) c + (if k = i \<and> c = cs then e else 0)" for e
      using mv(5)[of k c e] k c by (simp add: case_prod_unfold)
    show "((\<lambda>e. (?F e ! k) c) has_real_derivative (?ts ! k) c) (at 0)"
      unfolding eq using k by (cases "k = i \<and> c = cs") (auto intro!: derivative_eq_intros)
  qed (simp_all add: mv(4))
  have last_nth: "last zs = zs ! (length us - 1)" if "length zs = length us" for zs :: "'z list"
    using that us p by (cases "zs = []") (simp_all add: last_conv_nth)
  have n: "length us - 1 < length us" "last us = us ! (length us - 1)" using us p last_nth[of us] by simp_all
  have "length (program_vals p ?ss (?F e)) = length us" "length (program_tans p ?ss (?F 0) ?ts) = length us" for e
    using us mv(4) by (simp_all add: program_length)
  from last_nth[OF this(1)] last_nth[OF this(2)]
  have nth: "last (program_vals p ?ss (?F e)) = program_vals p ?ss (?F e) ! (length us - 1)"
    "last (program_tans p ?ss (?F 0) ?ts) = program_tans p ?ss (?F 0) ?ts ! (length us - 1)" for e by blast+
  have "((\<lambda>e. pairing (last us) (elt seed) (last (program_vals p ?ss (?F e)))) has_real_derivative
      pairing (last us) (elt seed) (last (program_tans p ?ss (?F 0) ?ts))) (at 0)"
    unfolding pairing_def nth using d[OF n(1)] n(2) by (intro DERIV_sum DERIV_cmult) simp
  then show ?thesis unfolding obj F0 .
qed

lemma pair_with_unit:
  assumes g: "\<And>k g. k < length xs \<Longrightarrow> gs ! k = Some g \<Longrightarrow> d_shape g = d_shape (snd (xs ! k))"
    and i: "i < length xs" and cs: "valid_coords (d_shape (snd (xs ! i))) cs"
  shows "(\<Sum>k < length xs. opt_ip dense_ip (gs ! k) (tabulate (d_shape (snd (xs ! k))) (unit_tangents xs i cs ! k)))
    = (case gs ! i of None \<Rightarrow> 0 | Some g \<Rightarrow> elt g cs)"
proof -
  let ?ip = "\<lambda>k. opt_ip dense_ip (gs ! k) (tabulate (d_shape (snd (xs ! k))) (unit_tangents xs i cs ! k))"
  have "?ip k = (if k = i then (case gs ! i of None \<Rightarrow> 0 | Some g \<Rightarrow> elt g cs) else 0)" if k: "k < length xs" for k
  proof (cases "gs ! k")
    case (Some x)
    have "?ip k = pairing (d_shape x) (elt x) (\<lambda>c. if k = i \<and> c = cs then 1 else 0)"
      using k by (auto simp: opt_ip_def Some dense_ip_def g[OF k Some] intro!: pairing_cong)
    also have "\<dots> = (if k = i then elt x cs else 0)"
      using cs g[OF k Some] by (simp add: pairing_def if_distrib[of "\<lambda>c. _ * c"] sum.delta cong: if_cong)
    finally show ?thesis using Some by auto
  qed (auto simp: opt_ip_def)
  then have "(\<Sum>k < length xs. ?ip k) = (\<Sum>k < length xs. if k = i then (case gs ! i of None \<Rightarrow> 0 | Some g \<Rightarrow> elt g cs) else 0)"
    by (intro sum.cong refl) blast
  also have "\<dots> = (case gs ! i of None \<Rightarrow> 0 | Some g \<Rightarrow> elt g cs)" using i by (simp add: sum.delta)
  finally show ?thesis .
qed


text \<open>A layer: \<open>sum(sigmoid(x \<cdot> w + b))\<close>, with \<open>w\<close> and \<open>b\<close> tracked and \<open>x\<close> not.\<close>

definition exact_gemm :: gemm where
  "exact_gemm = plain_gemm (real_ops (\<lambda>_ _ _ _ dst _ _ _ _ _ _ _ _ _ _ _ _ _ _. dst))"

lemma exact_gemm_ok: "gemm_ok (real_ops exact_gemm)"
proof -
  let ?gm = "\<lambda>_ _ _ _ dst _ _ _ _ _ _ _ _ _ _ _ _ _ _. dst"
  have g: "nm_gemm (real_ops exact_gemm) = plain_gemm (real_ops ?gm)" by (simp add: real_ops_def exact_gemm_def)
  have e: "gemm_elem (real_ops exact_gemm) = gemm_elem (real_ops ?gm)"
    by (intro ext) (simp only: gemm_elem_def dot_product_def real_ops_simps)
  have "nm_mul (real_ops exact_gemm) d (nm_one (real_ops exact_gemm) d) x = x" for d x by simp
  then show ?thesis unfolding gemm_ok_def g e Let_def
    by (intro conjI[where P = "\<forall>d x. nm_mul (real_ops exact_gemm) d (nm_one (real_ops exact_gemm) d) x = x"] allI impI; (elim conjE)?)
      (assumption | rule plain_gemm_law[OF _ _ refl])+
qed

definition f32_tensor :: "shape \<Rightarrow> real list \<Rightarrow> real dense" where
  "f32_tensor s xs = \<lparr>d_dtype = F32, d_shape = s, d_elems = xs, d_device = Cpu\<rparr>"

abbreviation layer :: "call list" where
  "layer \<equiv> [CMatmul 0 1, CAddBias 3 2, CUnary USigmoid 4, CSum 5]"

abbreviation layer_inputs :: inputs where
  "layer_inputs \<equiv> [(False, f32_tensor [1, 2] [1, - 2]), (True, f32_tensor [2, 2] [3, 0, 1, 1]), (True, f32_tensor [2] [1, 4])]"

lemma small_shapes: "good_shape [1, 2]" "good_shape [2, 2]" "good_shape [2]"
  by code_simp+



end
