(* ===== verification/Serve.thy ===== *)
theory Serve
  imports Rust_Base
begin

text \<open>
  The serving runtime: \<open>rustorch-serve/src/batcher.rs\<close> and the request handler and builder of
  \<open>server.rs\<close>.  The batching task and its callers are a machine: a state of the channel, the task,
  the calls that wait and the clock, and one step for every event.  Which event comes next is the
  choice of the runtime, so the theorems hold for every sequence of events.

  A value of JSON is an element of a type \<open>'v\<close> with a \<open>null\<close>; the model function is an argument that
  returns \<open>None\<close> when it panics.  Time is counted in ticks of the clock.
\<close>

section \<open>Configuration\<close>

record batch_config =
  max_batch :: nat
  max_wait :: nat
  queue_depth :: nat

text \<open>\<open>Default\<close>, with a tick of one millisecond.\<close>

definition default_config :: batch_config where
  "default_config = \<lparr>max_batch = 32, max_wait = 20, queue_depth = 256\<rparr>"

text \<open>The setters of \<open>ServeBuilder\<close>.\<close>

definition builder_max_batch :: "nat \<Rightarrow> batch_config \<Rightarrow> batch_config" where
  "builder_max_batch n cfg = cfg\<lparr>max_batch := max n 1\<rparr>"

definition builder_max_wait_ms :: "nat \<Rightarrow> batch_config \<Rightarrow> batch_config" where
  "builder_max_wait_ms ms cfg = cfg\<lparr>max_wait := ms\<rparr>"

definition builder_queue_depth :: "nat \<Rightarrow> batch_config \<Rightarrow> batch_config" where
  "builder_queue_depth n cfg = cfg\<lparr>queue_depth := max n 1\<rparr>"

section \<open>The batching task\<close>

datatype batcher_error = Overloaded | Shutdown

text \<open>
  A request is its input with the identity of its reply channel.  The task waits for the first
  request (\<open>Receiving\<close>), is at the head of the collecting loop (\<open>Collecting\<close>) or inside its
  \<open>timeout(remaining, rx.recv())\<close> (\<open>Awaiting\<close>), each with the batch so far and the deadline,
  waits for the model (\<open>Inferring\<close>) or has returned, which closes the channel.
\<close>

type_synonym 'v request = "nat \<times> 'v"

datatype 'v task =
    Receiving
  | Collecting "'v request list" nat
  | Awaiting "'v request list" nat
  | Inferring "'v request list"
  | Returned

text \<open>
  \<open>b_waiting\<close> are the calls of \<open>predict\<close> that wait for a reply, \<open>b_sent\<close> the replies sent so far, and
  \<open>b_accepted\<close> (history only) the requests accepted so far; \<open>b_handles\<close> says that a \<open>Batcher\<close> is alive.
\<close>

record 'v batcher =
  b_queue :: "'v request list"
  b_task :: "'v task"
  b_now :: nat
  b_handles :: bool
  b_waiting :: "nat list"
  b_sent :: "(nat \<times> 'v) list"
  b_accepted :: "'v request list"

text \<open>\<open>mpsc::channel(0)\<close> panics.\<close>

definition spawn :: "batch_config \<Rightarrow> 'v batcher option" where
  "spawn cfg =
     (if queue_depth cfg = 0 then None
      else Some \<lparr>b_queue = [], b_task = Receiving, b_now = 0, b_handles = True, b_waiting = [], b_sent = [], b_accepted = []\<rparr>)"

text \<open>
  \<open>try_send\<close> of \<open>predict\<close>: the channel is closed once the task has returned, and full at its depth.
  The identity of the new reply channel is the number of requests accepted before.
\<close>

definition predict :: "batch_config \<Rightarrow> 'v \<Rightarrow> 'v batcher \<Rightarrow> 'v batcher \<times> (batcher_error + nat)" where
  "predict cfg v s =
     (if b_task s = Returned then (s, Inl Shutdown)
      else if queue_depth cfg \<le> length (b_queue s) then (s, Inl Overloaded)
      else let n = length (b_accepted s) in
        (s\<lparr>b_queue := b_queue s @ [(n, v)], b_waiting := b_waiting s @ [n], b_accepted := b_accepted s @ [(n, v)]\<rparr>, Inr n))"

text \<open>The replies of a batch: \<open>null\<close> where the model returned too few values or panicked.\<close>

definition batch_replies :: "'v \<Rightarrow> ('v list \<Rightarrow> 'v list option) \<Rightarrow> 'v request list \<Rightarrow> (nat \<times> 'v) list" where
  "batch_replies null infer batch =
     (let outputs = (case infer (map snd batch) of None \<Rightarrow> [] | Some out \<Rightarrow> out)
      in map (\<lambda>i. (fst (batch ! i), if i < length outputs then outputs ! i else null)) [0..<length batch])"

text \<open>One turn of the task: up to its next \<open>await\<close>.  Where it has to wait nothing changes.\<close>

definition task_turn :: "batch_config \<Rightarrow> 'v \<Rightarrow> ('v list \<Rightarrow> 'v list option) \<Rightarrow> 'v batcher \<Rightarrow> 'v batcher" where
  "task_turn cfg null infer s =
     (case b_task s of
        Receiving \<Rightarrow>
          (case b_queue s of
             [] \<Rightarrow> if b_handles s then s else s\<lparr>b_task := Returned\<rparr>
           | r # q \<Rightarrow> s\<lparr>b_queue := q, b_task := Collecting [r] (b_now s + max_wait cfg)\<rparr>)
      | Collecting batch deadline \<Rightarrow>
          if length batch < max_batch cfg \<and> deadline - b_now s \<noteq> 0 then s\<lparr>b_task := Awaiting batch deadline\<rparr>
          else s\<lparr>b_task := Inferring batch\<rparr>
      | Awaiting batch deadline \<Rightarrow>
          (case b_queue s of
             r # q \<Rightarrow> s\<lparr>b_queue := q, b_task := Collecting (batch @ [r]) deadline\<rparr>
           | [] \<Rightarrow>
               if \<not> b_handles s then s\<lparr>b_task := Returned\<rparr>
               else if deadline \<le> b_now s then s\<lparr>b_task := Inferring batch\<rparr>
               else s)
      | Inferring batch \<Rightarrow>
          let replies = batch_replies null infer batch in
          s\<lparr>b_task := Receiving, b_sent := b_sent s @ replies,
            b_waiting := filter (\<lambda>n. n \<notin> fst ` set replies) (b_waiting s)\<rparr>
      | Returned \<Rightarrow> s)"

text \<open>
  The events: a caller calls \<open>predict\<close>; the clock advances and the task gets a turn; a caller gives
  up (its future is dropped); the last handle is dropped, which no caller can do while it waits,
  because \<open>predict\<close> borrows a handle.
\<close>

datatype 'v serve_event = Predict 'v | Turn nat | Cancel nat | DropHandles

definition serve_step ::
  "batch_config \<Rightarrow> 'v \<Rightarrow> ('v list \<Rightarrow> 'v list option) \<Rightarrow> 'v batcher \<Rightarrow> 'v serve_event \<Rightarrow> 'v batcher" where
  "serve_step cfg null infer s e =
     (case e of
        Predict v \<Rightarrow> if b_handles s then fst (predict cfg v s) else s
      | Turn d \<Rightarrow> task_turn cfg null infer (s\<lparr>b_now := b_now s + d\<rparr>)
      | Cancel n \<Rightarrow> s\<lparr>b_waiting := filter (\<lambda>m. m \<noteq> n) (b_waiting s)\<rparr>
      | DropHandles \<Rightarrow> if b_waiting s = [] then s\<lparr>b_handles := False\<rparr> else s)"

definition serve_run ::
  "batch_config \<Rightarrow> 'v \<Rightarrow> ('v list \<Rightarrow> 'v list option) \<Rightarrow> 'v batcher \<Rightarrow> 'v serve_event list \<Rightarrow> 'v batcher" where
  "serve_run cfg null infer = foldl (serve_step cfg null infer)"

section \<open>What the task promises\<close>

text \<open>The requests the task holds.\<close>

fun held :: "'v task \<Rightarrow> 'v request list" where
  "held (Collecting batch _) = batch"
| "held (Awaiting batch _) = batch"
| "held (Inferring batch) = batch"
| "held _ = []"

text \<open>
  The requests are served in the order they were accepted, in batches: every batch has at least one
  and at most \<open>max_batch\<close> requests (one, when \<open>max_batch\<close> is zero) and gets the replies of one call of
  the model.  \<open>lost\<close> are the requests the task drops when it returns.
\<close>

definition good_batch :: "batch_config \<Rightarrow> 'v request list \<Rightarrow> bool" where
  "good_batch cfg b \<longleftrightarrow> b \<noteq> [] \<and> length b \<le> max 1 (max_batch cfg)"

definition served ::
  "batch_config \<Rightarrow> 'v \<Rightarrow> ('v list \<Rightarrow> 'v list option) \<Rightarrow> 'v request list list \<Rightarrow> 'v request list \<Rightarrow> 'v batcher \<Rightarrow> bool" where
  "served cfg null infer batches lost s \<longleftrightarrow>
     b_accepted s = concat batches @ lost @ held (b_task s) @ b_queue s
   \<and> b_sent s = concat (map (batch_replies null infer) batches)
   \<and> (\<forall>b \<in> set batches. good_batch cfg b)
   \<and> (b_task s \<noteq> Returned \<longrightarrow> lost = [])"

definition batcher_inv :: "batch_config \<Rightarrow> 'v \<Rightarrow> ('v list \<Rightarrow> 'v list option) \<Rightarrow> 'v batcher \<Rightarrow> bool" where
  "batcher_inv cfg null infer s \<longleftrightarrow>
     (\<exists>batches lost. served cfg null infer batches lost s)
   \<and> map fst (b_accepted s) = [0..<length (b_accepted s)]
   \<and> (held (b_task s) \<noteq> [] \<longrightarrow> good_batch cfg (held (b_task s)))
   \<and> (case b_task s of Collecting b _ \<Rightarrow> b \<noteq> [] | Awaiting b _ \<Rightarrow> b \<noteq> [] \<and> length b < max_batch cfg | Inferring b \<Rightarrow> b \<noteq> [] | _ \<Rightarrow> True)
   \<and> set (b_waiting s) \<subseteq> fst ` set (held (b_task s) @ b_queue s)
   \<and> length (b_queue s) \<le> queue_depth cfg
   \<and> (\<not> b_handles s \<longrightarrow> b_waiting s = [])
   \<and> (b_task s = Returned \<longrightarrow> \<not> b_handles s \<and> b_queue s = [])"

lemma batcher_invI:
  assumes "served cfg null infer batches lost s" "map fst (b_accepted s) = [0..<length (b_accepted s)]"
    "held (b_task s) \<noteq> [] \<Longrightarrow> good_batch cfg (held (b_task s))"
    "case b_task s of Collecting b _ \<Rightarrow> b \<noteq> [] | Awaiting b _ \<Rightarrow> b \<noteq> [] \<and> length b < max_batch cfg | Inferring b \<Rightarrow> b \<noteq> [] | _ \<Rightarrow> True"
    "set (b_waiting s) \<subseteq> fst ` set (held (b_task s) @ b_queue s)" "length (b_queue s) \<le> queue_depth cfg"
    "\<not> b_handles s \<Longrightarrow> b_waiting s = []" "b_task s = Returned \<Longrightarrow> \<not> b_handles s \<and> b_queue s = []"
  shows "batcher_inv cfg null infer s"
  using assms unfolding batcher_inv_def by blast

lemma spawn_inv: "spawn cfg = Some s \<Longrightarrow> batcher_inv cfg null infer s"
  by (auto simp: spawn_def split: if_splits intro!: batcher_invI[where batches = "[]" and lost = "[]"] simp: served_def)

lemma batch_replies_ids: "map fst (batch_replies null infer b) = map fst b"
proof -
  have "map fst (batch_replies null infer b) = map fst (map ((!) b) [0..<length b])"
    by (simp add: batch_replies_def Let_def o_def)
  then show ?thesis by (simp only: map_nth)
qed

lemma batch_replies_id_set: "fst ` set (batch_replies null infer b) = fst ` set b"
  using batch_replies_ids[of null infer b] by (metis list.set_map)

section \<open>Every event keeps the promise\<close>

lemma predict_inv:
  assumes "batcher_inv cfg null infer s" "b_handles s"
  shows "batcher_inv cfg null infer (fst (predict cfg v s))"
proof (cases "b_task s \<noteq> Returned \<and> length (b_queue s) < queue_depth cfg")
  case True
  from assms(1) obtain bs ls where sv: "served cfg null infer bs ls s" by (auto simp: batcher_inv_def)
  have "fst (predict cfg v s) = s\<lparr>b_queue := b_queue s @ [(length (b_accepted s), v)],
      b_waiting := b_waiting s @ [length (b_accepted s)], b_accepted := b_accepted s @ [(length (b_accepted s), v)]\<rparr>"
    using True by (simp add: predict_def Let_def)
  moreover have "batcher_inv cfg null infer \<dots>"
    using assms sv True by (intro batcher_invI[where batches = bs and lost = ls]) (auto simp: served_def batcher_inv_def)
  ultimately show ?thesis by simp
next
  case False
  then have "fst (predict cfg v s) = s" by (auto simp: predict_def)
  then show ?thesis using assms(1) by simp
qed

lemma served_time: "served cfg null infer bs ls (s\<lparr>b_now := t\<rparr>) = served cfg null infer bs ls s"
  by (simp add: served_def)

lemma time_inv: "batcher_inv cfg null infer s \<Longrightarrow> batcher_inv cfg null infer (s\<lparr>b_now := t\<rparr>)"
  by (simp add: batcher_inv_def served_time)

lemma receive_inv:
  assumes "batcher_inv cfg null infer s" "b_task s = Receiving"
  shows "batcher_inv cfg null infer (task_turn cfg null infer s)"
proof -
  from assms obtain bs ls where sv: "served cfg null infer bs ls s" by (auto simp: batcher_inv_def)
  show ?thesis
  proof (cases "b_queue s")
    case Nil
    then show ?thesis
      using assms sv by (auto simp: task_turn_def batcher_inv_def served_def)
  next
    case (Cons r q)
    with assms sv show ?thesis
      by (intro batcher_invI[where batches = bs and lost = ls])
        (auto simp: task_turn_def batcher_inv_def served_def good_batch_def)
  qed
qed

lemma collect_inv:
  assumes "batcher_inv cfg null infer s" "b_task s = Collecting b dl"
  shows "batcher_inv cfg null infer (task_turn cfg null infer s)"
proof -
  from assms obtain bs ls where sv: "served cfg null infer bs ls s" by (auto simp: batcher_inv_def)
  with assms show ?thesis
    by (intro batcher_invI[where batches = bs and lost = ls]) (auto simp: task_turn_def batcher_inv_def served_def)
qed

lemma await_inv:
  assumes "batcher_inv cfg null infer s" "b_task s = Awaiting b dl"
  shows "batcher_inv cfg null infer (task_turn cfg null infer s)"
proof -
  from assms obtain bs ls where sv: "served cfg null infer bs ls s" by (auto simp: batcher_inv_def)
  show ?thesis
  proof (cases "b_queue s")
    case (Cons r q)
    with assms sv show ?thesis
      by (intro batcher_invI[where batches = bs and lost = ls])
        (auto simp: task_turn_def batcher_inv_def served_def good_batch_def)
  next
    case Nil
    note q = this
    show ?thesis
    proof (cases "b_handles s")
      case True
      show ?thesis
      proof (cases "dl \<le> b_now s")
        case True
        with \<open>b_handles s\<close> q assms(2) have "task_turn cfg null infer s = s\<lparr>b_task := Inferring b\<rparr>" by (simp add: task_turn_def)
        with assms sv q show ?thesis
          by (intro batcher_invI[where batches = bs and lost = ls]) (auto simp: batcher_inv_def served_def)
      next
        case False
        with \<open>b_handles s\<close> q assms(2) have "task_turn cfg null infer s = s" by (simp add: task_turn_def)
        with assms(1) show ?thesis by simp
      qed
    next
      case False
      with assms sv q show ?thesis
        by (intro batcher_invI[where batches = bs and lost = "ls @ b"]) (auto simp: task_turn_def batcher_inv_def served_def)
    qed
  qed
qed

lemma infer_inv:
  assumes "batcher_inv cfg null infer s" "b_task s = Inferring b"
  shows "batcher_inv cfg null infer (task_turn cfg null infer s)"
proof -
  from assms obtain bs ls where sv: "served cfg null infer bs ls s" by (auto simp: batcher_inv_def)
  have ls: "ls = []" using sv assms(2) by (auto simp: served_def)
  have "good_batch cfg b" using assms by (auto simp: batcher_inv_def)
  with assms sv ls show ?thesis
    by (intro batcher_invI[where batches = "bs @ [b]" and lost = "[]"])
      (auto simp: task_turn_def batcher_inv_def served_def Let_def batch_replies_id_set)
qed

lemma turn_inv:
  assumes "batcher_inv cfg null infer s"
  shows "batcher_inv cfg null infer (task_turn cfg null infer s)"
proof (cases "b_task s")
  case Returned
  then show ?thesis using assms by (simp add: task_turn_def)
qed (simp_all add: assms receive_inv collect_inv await_inv infer_inv)

lemma serve_step_inv:
  assumes "batcher_inv cfg null infer s"
  shows "batcher_inv cfg null infer (serve_step cfg null infer s e)"
proof (cases e)
  case (Predict v)
  then show ?thesis using assms predict_inv by (auto simp: serve_step_def)
next
  case (Turn d)
  then show ?thesis using assms by (simp add: serve_step_def turn_inv time_inv)
next
  case (Cancel n)
  from assms obtain bs ls where sv: "served cfg null infer bs ls s" by (auto simp: batcher_inv_def)
  with Cancel assms show ?thesis
    by (intro batcher_invI[where batches = bs and lost = ls]) (auto simp: serve_step_def batcher_inv_def served_def)
next
  case DropHandles
  from assms obtain bs ls where sv: "served cfg null infer bs ls s" by (auto simp: batcher_inv_def)
  with DropHandles assms show ?thesis
    by (auto simp: serve_step_def batcher_inv_def served_def)
qed

lemma serve_run_inv: "batcher_inv cfg null infer s \<Longrightarrow> batcher_inv cfg null infer (serve_run cfg null infer s es)"
  by (induction es arbitrary: s) (simp_all add: serve_run_def serve_step_inv)

section \<open>Progress\<close>

text \<open>
  A machine that makes progress: while \<open>pending\<close>, no allowed event increases the measure, and the
  events that count decrease it.  Then it is not pending any more once enough events have counted.
\<close>

locale progress =
  fixes step :: "'s \<Rightarrow> 'e \<Rightarrow> 's" and inv :: "'s \<Rightarrow> bool" and pending :: "'s \<Rightarrow> bool"
    and remaining :: "'s \<Rightarrow> nat" and allowed :: "'e \<Rightarrow> bool" and counts :: "'e \<Rightarrow> bool"
  assumes inv_step: "inv s \<Longrightarrow> inv (step s e)"
    and settled: "inv s \<Longrightarrow> \<not> pending s \<Longrightarrow> allowed e \<Longrightarrow> \<not> pending (step s e)"
    and bounded: "inv s \<Longrightarrow> pending s \<Longrightarrow> allowed e \<Longrightarrow> pending (step s e) \<Longrightarrow>
      remaining (step s e) + (if counts e then 1 else 0) \<le> remaining s"
begin

lemma run_settled: "inv s \<Longrightarrow> \<not> pending s \<Longrightarrow> list_all allowed es \<Longrightarrow> \<not> pending (foldl step s es)"
  by (induction es arbitrary: s) (simp_all add: inv_step settled)

lemma run_bounded:
  "inv s \<Longrightarrow> pending s \<Longrightarrow> list_all allowed es \<Longrightarrow> pending (foldl step s es) \<Longrightarrow>
   remaining (foldl step s es) + length (filter counts es) \<le> remaining s"
proof (induction es arbitrary: s)
  case (Cons e es)
  have p: "pending (step s e)"
    using Cons.prems run_settled[of "step s e" es] inv_step by auto
  have "remaining (step s e) + (if counts e then 1 else 0) \<le> remaining s" using Cons.prems p by (intro bounded) simp_all
  moreover have "remaining (foldl step (step s e) es) + length (filter counts es) \<le> remaining (step s e)"
    using Cons.prems p inv_step by (intro Cons.IH) simp_all
  ultimately show ?case by (cases "counts e") simp_all
qed simp

lemma reached:
  assumes "inv s" "pending s" "list_all allowed es" "remaining s < length (filter counts es)"
  shows "\<not> pending (foldl step s es)"
  using run_bounded[OF assms(1-3)] assms(4) by linarith

end

text \<open>
  The turns a waiting call has left: a full batch for every request before it in the channel, and
  what the task has to do for the batch it holds.
\<close>

definition turns_per_batch :: "batch_config \<Rightarrow> nat" where
  "turns_per_batch cfg = 2 * max_batch cfg + max_wait cfg + 4"

definition queue_place :: "nat \<Rightarrow> 'v request list \<Rightarrow> nat" where
  "queue_place n q = length (takeWhile (\<lambda>r. fst r \<noteq> n) q) + 1"

definition task_left :: "batch_config \<Rightarrow> 'v batcher \<Rightarrow> nat" where
  "task_left cfg s =
     (case b_task s of
        Collecting b dl \<Rightarrow> 3 + 2 * (max_batch cfg - length b) + (dl - b_now s)
      | Awaiting b dl \<Rightarrow> 2 + 2 * (max_batch cfg - length b) + (dl - b_now s)
      | Inferring b \<Rightarrow> 1
      | _ \<Rightarrow> 0)"

definition batches_left :: "nat \<Rightarrow> 'v batcher \<Rightarrow> nat" where
  "batches_left n s = (if n \<in> fst ` set (held (b_task s)) then 0 else queue_place n (b_queue s))"

definition turns_left :: "batch_config \<Rightarrow> nat \<Rightarrow> 'v batcher \<Rightarrow> nat" where
  "turns_left cfg n s = batches_left n s * turns_per_batch cfg + task_left cfg s"

fun passes_time :: "'v serve_event \<Rightarrow> bool" where
  "passes_time (Turn d) = (0 < d)"
| "passes_time _ = False"

lemma queue_place_Cons: "queue_place n (r # q) = (if fst r = n then 1 else Suc (queue_place n q))"
  by (simp add: queue_place_def)

lemma queue_place_append: "n \<in> fst ` set q \<Longrightarrow> queue_place n (q @ rs) = queue_place n q"
proof -
  assume "n \<in> fst ` set q"
  then obtain r where "r \<in> set q" "\<not> fst r \<noteq> n" by auto
  then show ?thesis unfolding queue_place_def by (subst takeWhile_append1) auto
qed

lemma pending_place:
  assumes "batcher_inv cfg null infer s" "n \<in> set (b_waiting s)"
  shows "n \<in> fst ` set (held (b_task s)) \<or> n \<in> fst ` set (b_queue s)" "b_handles s" "b_task s \<noteq> Returned"
  using assms by (auto simp: batcher_inv_def)

text \<open>Taking a request out of the channel brings every waiting call nearer.\<close>

lemma batches_left_taken:
  assumes "b_queue s = r # q" "b_queue t = q" "held (b_task t) = held (b_task s) @ [r]"
  shows "batches_left n t \<le> batches_left n s" "n \<notin> fst ` set (held (b_task s)) \<Longrightarrow> Suc (batches_left n t) \<le> batches_left n s"
  using assms by (auto simp: batches_left_def queue_place_Cons queue_place_def)

lemma receive_progress:
  assumes "batcher_inv cfg null infer s" "n \<in> set (b_waiting s)" "b_task s = Receiving"
  shows "turns_left cfg n (task_turn cfg null infer s) + 1 \<le> turns_left cfg n s"
proof -
  have "b_queue s \<noteq> []" using pending_place(1)[OF assms(1,2)] assms(3) by auto
  then obtain r q where q: "b_queue s = r # q" by (cases "b_queue s") auto
  let ?t = "s\<lparr>b_queue := q, b_task := Collecting [r] (b_now s + max_wait cfg)\<rparr>"
  have t: "task_turn cfg null infer s = ?t" using assms(3) q by (simp add: task_turn_def)
  have "Suc (batches_left n ?t) \<le> batches_left n s"
    using assms(3) by (intro batches_left_taken(2)[where r = r and q = q]) (simp_all add: q)
  then have "Suc (batches_left n ?t) * turns_per_batch cfg \<le> batches_left n s * turns_per_batch cfg" by (rule mult_le_mono1)
  moreover have "task_left cfg ?t + 1 \<le> turns_per_batch cfg" by (simp add: task_left_def turns_per_batch_def)
  ultimately show ?thesis unfolding t turns_left_def by (simp add: assms(3) task_left_def[of _ s])
qed

lemma collect_progress:
  assumes "b_task s = Collecting b dl"
  shows "turns_left cfg n (task_turn cfg null infer s) + 1 \<le> turns_left cfg n s"
  using assms by (auto simp: task_turn_def turns_left_def task_left_def batches_left_def)

lemma await_progress:
  assumes "batcher_inv cfg null infer s" "n \<in> set (b_waiting s)" "b_task s = Awaiting b dl"
  shows "turns_left cfg n (task_turn cfg null infer s) + (if b_queue s = [] \<and> b_now s < dl then 0 else 1) \<le> turns_left cfg n s"
proof (cases "b_queue s")
  case Nil
  then show ?thesis
    using assms(3) pending_place(2)[OF assms(1,2)] by (auto simp: task_turn_def turns_left_def task_left_def batches_left_def)
next
  case (Cons r q)
  let ?t = "s\<lparr>b_queue := q, b_task := Collecting (b @ [r]) dl\<rparr>"
  have t: "task_turn cfg null infer s = ?t" using assms(3) Cons by (simp add: task_turn_def)
  have "length b < max_batch cfg" using assms(1,3) by (simp add: batcher_inv_def)
  then have "task_left cfg ?t + 1 \<le> task_left cfg s" using assms(3) by (simp add: task_left_def)
  moreover have "batches_left n ?t \<le> batches_left n s"
    using assms(3) by (intro batches_left_taken(1)[where r = r and q = q]) (simp_all add: Cons)
  then have "batches_left n ?t * turns_per_batch cfg \<le> batches_left n s * turns_per_batch cfg" by (rule mult_le_mono1)
  ultimately have "turns_left cfg n ?t + 1 \<le> turns_left cfg n s" unfolding turns_left_def by linarith
  then show ?thesis unfolding t using Cons by simp
qed

lemma infer_progress:
  assumes "batcher_inv cfg null infer s" "b_task s = Inferring b" "n \<in> set (b_waiting (task_turn cfg null infer s))"
  shows "turns_left cfg n (task_turn cfg null infer s) + 1 \<le> turns_left cfg n s"
  using assms(2,3)
  by (auto simp: task_turn_def Let_def turns_left_def task_left_def batches_left_def batch_replies_id_set)

lemma time_left:
  "turns_left cfg n (s\<lparr>b_now := b_now s + d\<rparr>)
     + (case b_task s of Collecting b dl \<Rightarrow> min d (dl - b_now s) | Awaiting b dl \<Rightarrow> min d (dl - b_now s) | _ \<Rightarrow> 0)
   = turns_left cfg n s"
  by (auto simp: turns_left_def task_left_def batches_left_def split: task.splits)

lemma turn_progress:
  assumes inv: "batcher_inv cfg null infer s" and n: "n \<in> set (b_waiting s)"
    and p: "n \<in> set (b_waiting (serve_step cfg null infer s (Turn d)))"
  shows "turns_left cfg n (serve_step cfg null infer s (Turn d)) + (if 0 < d then 1 else 0) \<le> turns_left cfg n s"
proof -
  define u where "u = s\<lparr>b_now := b_now s + d\<rparr>"
  have u: "batcher_inv cfg null infer u" "n \<in> set (b_waiting u)" "b_task u = b_task s" "b_now u = b_now s + d"
    using inv n by (simp_all add: time_inv u_def)
  have st: "serve_step cfg null infer s (Turn d) = task_turn cfg null infer u" by (simp add: serve_step_def u_def)
  note tl = time_left[of cfg n s d, folded u_def]
  have one: ?thesis if "turns_left cfg n (task_turn cfg null infer u) + 1 \<le> turns_left cfg n s"
    using that unfolding st by simp
  show ?thesis
  proof (cases "b_task s")
    case Receiving
    then show ?thesis using receive_progress[OF u(1,2)] tl u(3) by (intro one) simp
  next
    case (Collecting b dl)
    then show ?thesis using collect_progress[of u b dl cfg n null infer] tl u(3) by (intro one) simp
  next
    case (Awaiting b dl)
    have a: "turns_left cfg n (task_turn cfg null infer u) + (if b_queue u = [] \<and> b_now u < dl then 0 else 1) \<le> turns_left cfg n u"
      using await_progress[OF u(1,2), of b dl] Awaiting u(3) by simp
    have t: "turns_left cfg n u + min d (dl - b_now s) = turns_left cfg n s" using tl Awaiting by simp
    show ?thesis
    proof (cases "b_queue u = [] \<and> b_now u < dl")
      case True
      then have "min d (dl - b_now s) = d" using u(4) by (intro min_absorb1) linarith
      then show ?thesis using a t unfolding st by simp
    next
      case False
      then have "turns_left cfg n (task_turn cfg null infer u) + 1 \<le> turns_left cfg n u" using a by (simp only: if_False)
      then show ?thesis using t by (intro one) linarith
    qed
  next
    case (Inferring b)
    have "turns_left cfg n (task_turn cfg null infer u) + 1 \<le> turns_left cfg n u"
      using infer_progress[OF u(1), of b n] p Inferring u(3) unfolding st by simp
    then show ?thesis using tl Inferring by (intro one) simp
  next
    case Returned
    then show ?thesis using pending_place(3)[OF inv n] by simp
  qed
qed

lemma predict_cases:
  "fst (predict cfg v s) = s \<or> fst (predict cfg v s) = s\<lparr>b_queue := b_queue s @ [(length (b_accepted s), v)],
     b_waiting := b_waiting s @ [length (b_accepted s)], b_accepted := b_accepted s @ [(length (b_accepted s), v)]\<rparr>"
  by (simp add: predict_def Let_def)

lemma waiting_step:
  assumes "batcher_inv cfg null infer s" "n < length (b_accepted s)" "n \<notin> set (b_waiting s)"
  shows "n \<notin> set (b_waiting (serve_step cfg null infer s e))"
proof (cases e)
  case (Turn d)
  then show ?thesis using assms(3)
    by (auto simp: serve_step_def task_turn_def Let_def split: task.splits list.splits)
qed (use assms(2,3) in \<open>auto simp: serve_step_def predict_def Let_def\<close>)

lemma accepted_step: "n < length (b_accepted s) \<Longrightarrow> n < length (b_accepted (serve_step cfg null infer s e))"
  by (auto simp: serve_step_def predict_def task_turn_def Let_def split: serve_event.splits task.splits list.splits)

interpretation serving: progress "serve_step cfg null infer"
    "\<lambda>s. batcher_inv cfg null infer s \<and> n < length (b_accepted s)" "\<lambda>s. n \<in> set (b_waiting s)" "turns_left cfg n"
    "\<lambda>e. e \<noteq> Cancel n" passes_time
  for cfg null infer n
proof
  fix s e
  assume inv: "batcher_inv cfg null infer s \<and> n < length (b_accepted s)"
  then show "batcher_inv cfg null infer (serve_step cfg null infer s e) \<and> n < length (b_accepted (serve_step cfg null infer s e))"
    by (simp add: serve_step_inv accepted_step)
  show "n \<notin> set (b_waiting (serve_step cfg null infer s e))" if "n \<notin> set (b_waiting s)"
    using waiting_step[of cfg null infer s n e] that inv by simp
  assume n: "n \<in> set (b_waiting s)" and p: "n \<in> set (b_waiting (serve_step cfg null infer s e))" and a: "e \<noteq> Cancel n"
  show "turns_left cfg n (serve_step cfg null infer s e) + (if passes_time e then 1 else 0) \<le> turns_left cfg n s"
  proof (cases e)
    case (Predict v)
    have "batches_left n (s\<lparr>b_queue := b_queue s @ [r], b_waiting := ws, b_accepted := rs\<rparr>) = batches_left n s" for r ws rs
      using pending_place(1)[of cfg null infer s n] inv n queue_place_append[of n "b_queue s"] by (auto simp: batches_left_def)
    then have "turns_left cfg n (fst (predict cfg v s)) = turns_left cfg n s"
      using predict_cases[of cfg v s] by (auto simp: turns_left_def task_left_def split: task.split)
    then show ?thesis using Predict by (simp add: serve_step_def)
  next
    case (Turn d)
    then show ?thesis using turn_progress[of cfg null infer s n d] inv n p by simp
  qed (simp_all add: serve_step_def turns_left_def task_left_def batches_left_def split: task.split)
qed

section \<open>Every accepted call is answered\<close>

text \<open>A reply of a batch: what the model returned at its place, or \<open>null\<close>.\<close>

definition reply_at :: "'v \<Rightarrow> ('v list \<Rightarrow> 'v list option) \<Rightarrow> 'v request list \<Rightarrow> nat \<Rightarrow> 'v" where
  "reply_at null infer b i =
     (case infer (map snd b) of None \<Rightarrow> null | Some out \<Rightarrow> if i < length out then out ! i else null)"

lemma batch_replies_nth: "batch_replies null infer b = map (\<lambda>i. (fst (b ! i), reply_at null infer b i)) [0..<length b]"
  by (simp add: batch_replies_def reply_at_def Let_def split: option.split)

lemma waits_or_sent_step:
  assumes "n \<in> set (b_waiting s) \<or> n \<in> fst ` set (b_sent s)" "e \<noteq> Cancel n"
  shows "n \<in> set (b_waiting (serve_step cfg null infer s e)) \<or> n \<in> fst ` set (b_sent (serve_step cfg null infer s e))"
  using assms
  by (auto simp: serve_step_def predict_def task_turn_def Let_def split: serve_event.splits task.splits list.splits)

lemma waits_or_sent:
  "n \<in> set (b_waiting s) \<or> n \<in> fst ` set (b_sent s) \<Longrightarrow> list_all (\<lambda>e. e \<noteq> Cancel n) es \<Longrightarrow>
   n \<in> set (b_waiting (foldl (serve_step cfg null infer) s es)) \<or> n \<in> fst ` set (b_sent (foldl (serve_step cfg null infer) s es))"
proof (induction es arbitrary: s)
  case (Cons e es)
  then have "n \<in> set (b_waiting (serve_step cfg null infer s e)) \<or> n \<in> fst ` set (b_sent (serve_step cfg null infer s e))"
    by (intro waits_or_sent_step) simp_all
  then show ?case using Cons by simp
qed simp

lemma accepted_step_grows: "set (b_accepted s) \<subseteq> set (b_accepted (serve_step cfg null infer s e))"
  by (auto simp: serve_step_def predict_def task_turn_def Let_def split: serve_event.splits task.splits list.splits)

lemma accepted_grows: "set (b_accepted s) \<subseteq> set (b_accepted (foldl (serve_step cfg null infer) s es))"
proof (induction es arbitrary: s)
  case (Cons e es)
  show ?case using accepted_step_grows[of s cfg null infer e] Cons[of "serve_step cfg null infer s e"] by auto
qed simp

lemma filter_key: "distinct (map fst xs) \<Longrightarrow> (n, v) \<in> set xs \<Longrightarrow> filter (\<lambda>r. fst r = n) xs = [(n, v)]"
proof (induction xs)
  case (Cons x xs)
  show ?case
  proof (cases "x = (n, v)")
    case True
    then have "filter (\<lambda>r. fst r = n) xs = []" using Cons.prems(1) by (auto simp: filter_empty_conv)
    then show ?thesis using True by simp
  next
    case False
    then have "(n, v) \<in> set xs" using Cons.prems(2) by simp
    moreover from this have "n \<in> fst ` set xs" by force
    then have "fst x \<noteq> n" using Cons.prems(1) by auto
    ultimately show ?thesis using Cons by simp
  qed
qed simp

lemma sent_once:
  assumes "batcher_inv cfg null infer s" "n \<in> fst ` set (b_sent s)"
  obtains b i where "good_batch cfg b" "i < length b" "fst (b ! i) = n" "set b \<subseteq> set (b_accepted s)"
    "filter (\<lambda>r. fst r = n) (b_sent s) = [(n, reply_at null infer b i)]"
proof -
  from assms(1) obtain bs ls where sv: "served cfg null infer bs ls s" and ids: "map fst (b_accepted s) = [0..<length (b_accepted s)]"
    by (auto simp: batcher_inv_def)
  have sent: "b_sent s = concat (map (batch_replies null infer) bs)" using sv by (simp add: served_def)
  with assms(2) obtain b where b: "b \<in> set bs" "n \<in> fst ` set (batch_replies null infer b)" by auto
  then obtain i where i: "i < length b" "fst (b ! i) = n" by (auto simp: batch_replies_nth)
  have "map fst (b_sent s) = map fst (concat bs)"
    by (simp add: sent map_concat o_def batch_replies_ids)
  moreover have "b_accepted s = concat bs @ ls @ held (b_task s) @ b_queue s" using sv by (simp add: served_def)
  moreover have "distinct (map fst (b_accepted s))" by (simp add: ids)
  ultimately have d: "distinct (map fst (b_sent s))" and sub: "set (concat bs) \<subseteq> set (b_accepted s)"
    by (auto simp del: map_concat set_concat)
  have m: "(n, reply_at null infer b i) \<in> set (b_sent s)"
    unfolding sent batch_replies_nth using b(1) i by force
  have "set b \<subseteq> set (b_accepted s)" using sub b(1) by auto
  moreover have "good_batch cfg b" using sv b(1) by (simp add: served_def)
  ultimately show thesis using filter_key[OF d m] i by (intro that)
qed

text \<open>
  C5. Every accepted call is answered, exactly once, and with its own result: from any state the
  task can reach, whatever the callers do and however the runtime interleaves them, a call that
  waits and is not given up has its reply after the turns counted by \<open>turns_left\<close> in which time
  passes.  The reply is the one the model returned, at the place of the call's input, for a batch of
  at most \<open>max_batch\<close> accepted inputs; \<open>null\<close> when the model panicked or returned too few values.
\<close>

theorem batcher_answers:
  assumes start: "spawn cfg = Some s0" and s: "s = serve_run cfg null infer s0 es0"
    and waits: "n \<in> set (b_waiting s)" and input: "(n, v) \<in> set (b_accepted s)"
    and kept: "list_all (\<lambda>e. e \<noteq> Cancel n) es" and turns: "turns_left cfg n s < length (filter passes_time es)"
  shows "n \<notin> set (b_waiting (serve_run cfg null infer s es))
    \<and> (\<exists>b i. good_batch cfg b \<and> i < length b \<and> b ! i = (n, v) \<and> set b \<subseteq> set (b_accepted (serve_run cfg null infer s es))
        \<and> filter (\<lambda>r. fst r = n) (b_sent (serve_run cfg null infer s es)) = [(n, reply_at null infer b i)])"
proof -
  let ?t = "serve_run cfg null infer s es"
  have inv: "batcher_inv cfg null infer s" unfolding s using spawn_inv[OF start] by (rule serve_run_inv)
  have "n \<in> set (map fst (b_accepted s))" using input by force
  moreover have "map fst (b_accepted s) = [0..<length (b_accepted s)]" using inv by (simp add: batcher_inv_def)
  ultimately have n: "n < length (b_accepted s)" by simp
  have d: "n \<notin> set (b_waiting ?t)"
    unfolding serve_run_def using inv n waits kept turns by (intro serving.reached) simp_all
  moreover have "n \<in> fst ` set (b_sent ?t)"
    using waits_or_sent[of n s es cfg null infer] waits kept d by (simp add: serve_run_def)
  moreover have inv_t: "batcher_inv cfg null infer ?t" by (rule serve_run_inv[OF inv])
  ultimately obtain b i where b: "good_batch cfg b" "i < length b" "fst (b ! i) = n" "set b \<subseteq> set (b_accepted ?t)"
    "filter (\<lambda>r. fst r = n) (b_sent ?t) = [(n, reply_at null infer b i)]"
    using sent_once[where s = "serve_run cfg null infer s es"] by metis
  have "(n, v) \<in> set (b_accepted ?t)" using accepted_grows[of s cfg null infer es] input by (auto simp: serve_run_def)
  moreover have "b ! i \<in> set (b_accepted ?t)" using b(2,4) nth_mem by blast
  moreover have "inj_on fst (set (b_accepted ?t))"
    using inv_t unfolding batcher_inv_def by (metis distinct_map distinct_upt)
  ultimately have "b ! i = (n, v)" using b(3) by (metis fst_conv inj_onD)
  then show ?thesis using d b by blast
qed

definition demo_config :: batch_config where
  "demo_config = \<lparr>max_batch = 2, max_wait = 3, queue_depth = 4\<rparr>"

definition demo_model :: "nat list \<Rightarrow> nat list option" where
  "demo_model xs = Some (map Suc xs)"

definition demo_start :: "nat batcher" where
  "demo_start = serve_run demo_config 0 demo_model (the (spawn demo_config)) [Predict 10, Predict 20, Turn 1, Predict 30]"

theorem batcher_answers_witness:
  "2 \<notin> set (b_waiting (serve_run demo_config 0 demo_model demo_start (replicate 45 (Turn 1))))
    \<and> (\<exists>b i. good_batch demo_config b \<and> i < length b \<and> b ! i = (2, 30)
        \<and> set b \<subseteq> set (b_accepted (serve_run demo_config 0 demo_model demo_start (replicate 45 (Turn 1))))
        \<and> filter (\<lambda>r. fst r = 2) (b_sent (serve_run demo_config 0 demo_model demo_start (replicate 45 (Turn 1))))
          = [(2, reply_at 0 demo_model b i)])"
proof -
  have start: "spawn demo_config = Some (the (spawn demo_config) :: nat batcher)" by (simp add: spawn_def demo_config_def)
  have "2 \<in> set (b_waiting demo_start)" "(2, 30) \<in> set (b_accepted demo_start)" by code_simp+
  moreover have "list_all (\<lambda>e. e \<noteq> Cancel 2) (replicate 45 (Turn 1 :: nat serve_event))" by code_simp
  moreover have "turns_left demo_config 2 demo_start < length (filter passes_time (replicate 45 (Turn 1 :: nat serve_event)))" by code_simp
  ultimately show ?thesis by (rule batcher_answers[OF start demo_start_def])
qed

section \<open>The request handler\<close>

text \<open>
  \<open>predict\<close> of \<open>server.rs\<close>: the request counter, the call, and the status of the response.  The call
  ends at once (\<open>Responded\<close>) or waits for the reply of its identity (\<open>Waits\<close>); a reply channel dropped
  by the task is \<open>Shutdown\<close> too.
\<close>

record metrics =
  requests_total :: nat
  overload_total :: nat

datatype 'v handled = Responded nat "'v option" | Waits nat

definition http_predict :: "batch_config \<Rightarrow> 'v \<Rightarrow> metrics \<Rightarrow> 'v batcher \<Rightarrow> metrics \<times> 'v batcher \<times> 'v handled" where
  "http_predict cfg v m s =
     (let m' = m\<lparr>requests_total := requests_total m + 1\<rparr> in
      case predict cfg v s of
        (s', Inr n) \<Rightarrow> (m', s', Waits n)
      | (s', Inl Overloaded) \<Rightarrow> (m'\<lparr>overload_total := overload_total m' + 1\<rparr>, s', Responded 503 None)
      | (s', Inl Shutdown) \<Rightarrow> (m', s', Responded 500 None))"

text \<open>A builder's configuration never makes \<open>spawn\<close> panic, and its batches respect \<open>max_batch\<close>.\<close>

lemma builder_config_ok:
  "\<exists>s. spawn (builder_queue_depth n (builder_max_batch m (builder_max_wait_ms w default_config))) = Some s"
  "max_batch (builder_queue_depth n (builder_max_batch m (builder_max_wait_ms w default_config))) = max m 1"
  by (simp_all add: spawn_def builder_queue_depth_def builder_max_batch_def builder_max_wait_ms_def)

text \<open>A full channel is the only reason to refuse a request while the task runs, and it changes nothing.\<close>

lemma overload_iff:
  assumes "b_task s \<noteq> Returned"
  shows "(case http_predict cfg v m s of
      (m', s', Responded c r) \<Rightarrow> c = 503 \<and> s' = s \<and> overload_total m' = overload_total m + 1 \<and> length (b_queue s) \<ge> queue_depth cfg
    | (m', s', Waits n) \<Rightarrow> length (b_queue s) < queue_depth cfg \<and> (n, v) \<in> set (b_accepted s') \<and> n \<in> set (b_waiting s')
        \<and> overload_total m' = overload_total m)"
  using assms by (auto simp: http_predict_def predict_def Let_def)

text \<open>A \<open>BatchConfig\<close> that is not made by the builder can have a depth of zero, and \<open>Batcher::spawn\<close> panics.\<close>

lemma zero_depth_panics: "spawn (default_config\<lparr>queue_depth := 0\<rparr>) = None"
  by (simp add: spawn_def default_config_def)

end
