(* ===== verification/Autoscale.thy ===== *)
theory Autoscale
  imports Serve "HOL-Library.List_Lexorder" "HOL-Library.Char_ord"
begin

text \<open>
  The autoscale controller and the graph cache of the serving runtime:
  \<open>rustorch-serve/src/autoscale.rs\<close> and \<open>cuda_graphs.rs\<close>.  Worker counts are \<open>u32\<close>; the instants that
  the controller reads from the clock are arguments, in the order of the calls.  The comparison of
  \<open>f64\<close> latencies is an argument.
\<close>

section \<open>The controller\<close>

record 'f load_snapshot =
  p99_latency_ms :: 'f
  snap_queue_depth :: nat
  gpu_util :: nat

record 'f autoscale_target =
  p99_target_ms :: 'f
  queue_threshold :: nat
  idle_window :: nat
  min_workers :: nat
  max_workers :: nat
  scale_step :: nat

datatype scale_decision = Hold | ScaleUp nat | ScaleDown nat

record 'f controller =
  ac_target :: "'f autoscale_target"
  current_workers :: nat
  last_scale :: "nat option"
  idle_since :: "nat option"

text \<open>\<open>clamp\<close> panics when the bounds are crossed.\<close>

definition controller_new :: "'f autoscale_target \<Rightarrow> nat \<Rightarrow> 'f controller option" where
  "controller_new t initial =
     (if min_workers t \<le> max_workers t
      then Some \<lparr>ac_target = t, current_workers = max (min_workers t) (min initial (max_workers t)),
                 last_scale = None, idle_since = None\<rparr>
      else None)"

definition try_scale_up :: "nat \<Rightarrow> 'f controller \<Rightarrow> 'f controller \<times> scale_decision" where
  "try_scale_up now c =
     (if max_workers (ac_target c) \<le> current_workers c then (c, Hold)
      else (c\<lparr>last_scale := Some now\<rparr>,
            ScaleUp (min (scale_step (ac_target c)) (max_workers (ac_target c) - current_workers c))))"

definition try_scale_down :: "nat \<Rightarrow> 'f controller \<Rightarrow> 'f controller \<times> scale_decision" where
  "try_scale_down now c =
     (if current_workers c \<le> min_workers (ac_target c) then (c, Hold)
      else (c\<lparr>last_scale := Some now\<rparr>,
            ScaleDown (min (scale_step (ac_target c)) (current_workers c - min_workers (ac_target c)))))"

text \<open>The clock is read at \<open>t0\<close> (start of idleness), \<open>t1\<close> (elapsed), \<open>t2\<close> (last scale) and \<open>t3\<close> (reset).\<close>

definition tick ::
  "('f \<Rightarrow> 'f \<Rightarrow> bool) \<Rightarrow> 'f load_snapshot \<Rightarrow> nat \<Rightarrow> nat \<Rightarrow> nat \<Rightarrow> nat \<Rightarrow> 'f controller \<Rightarrow> 'f controller \<times> scale_decision" where
  "tick gt snap t0 t1 t2 t3 c =
     (let latency_breach = gt (p99_latency_ms snap) (p99_target_ms (ac_target c));
          queue_breach = queue_threshold (ac_target c) \<le> snap_queue_depth snap
      in if latency_breach \<or> queue_breach then try_scale_up t2 (c\<lparr>idle_since := None\<rparr>)
      else if gpu_util snap < 5 \<and> snap_queue_depth snap = 0 then
        (let started = (case idle_since c of Some t \<Rightarrow> t | None \<Rightarrow> t0); c' = c\<lparr>idle_since := Some started\<rparr> in
         if idle_window (ac_target c) \<le> t1 - started then
           (case try_scale_down t2 c' of
              (c'', ScaleDown d) \<Rightarrow> (c''\<lparr>idle_since := Some t3\<rparr>, ScaleDown d)
            | r \<Rightarrow> r)
         else (c', Hold))
      else (c\<lparr>idle_since := None\<rparr>, Hold))"

text \<open>\<open>None\<close>: the addition leaves \<open>u32\<close>.\<close>

definition apply_decision :: "scale_decision \<Rightarrow> 'f controller \<Rightarrow> 'f controller option" where
  "apply_decision d c =
     (case d of
        ScaleUp n \<Rightarrow>
          if current_workers c + n < u32_limit
          then Some (c\<lparr>current_workers := min (current_workers c + n) (max_workers (ac_target c))\<rparr>) else None
      | ScaleDown n \<Rightarrow> Some (c\<lparr>current_workers := max (current_workers c - n) (min_workers (ac_target c))\<rparr>)
      | Hold \<Rightarrow> Some c)"

section \<open>Worker counts stay in range\<close>

definition controller_ok :: "'f controller \<Rightarrow> bool" where
  "controller_ok c \<longleftrightarrow> min_workers (ac_target c) \<le> current_workers c \<and> current_workers c \<le> max_workers (ac_target c)
     \<and> max_workers (ac_target c) < u32_limit"

lemma controller_new_ok: "controller_new t n = Some c \<Longrightarrow> max_workers t < u32_limit \<Longrightarrow> controller_ok c"
  by (auto simp: controller_new_def controller_ok_def split: if_splits)

lemma tick_frame:
  "ac_target (fst (tick gt snap t0 t1 t2 t3 c)) = ac_target c" "current_workers (fst (tick gt snap t0 t1 t2 t3 c)) = current_workers c"
  by (simp_all add: tick_def try_scale_up_def try_scale_down_def Let_def)

text \<open>What a decision may be: a step of at most \<open>step\<close> workers that stays in range.\<close>

lemma tick_decision:
  assumes "tick gt snap t0 t1 t2 t3 c = (c', d)"
  shows "case d of Hold \<Rightarrow> True
    | ScaleUp n \<Rightarrow> n \<le> scale_step (ac_target c) \<and> current_workers c + n \<le> max_workers (ac_target c)
    | ScaleDown n \<Rightarrow> n \<le> scale_step (ac_target c) \<and> min_workers (ac_target c) + n \<le> current_workers c"
  using assms by (auto simp: tick_def try_scale_up_def try_scale_down_def Let_def split: if_splits scale_decision.splits)

text \<open>
  A decision applied at once is carried out in full: nothing is clipped, nothing overflows, and the
  number of workers stays between its bounds.
\<close>

lemma tick_apply:
  assumes "controller_ok c" "tick gt snap t0 t1 t2 t3 c = (c', d)"
  obtains c'' where "apply_decision d c' = Some c''" "controller_ok c''"
    "int (current_workers c'') - int (current_workers c) = (case d of Hold \<Rightarrow> 0 | ScaleUp n \<Rightarrow> int n | ScaleDown n \<Rightarrow> - int n)"
proof -
  have f: "ac_target c' = ac_target c" "current_workers c' = current_workers c"
    using tick_frame[of gt snap t0 t1 t2 t3 c] assms(2) by simp_all
  show thesis
    using tick_decision[OF assms(2)] assms(1) f
    by (intro that[of "the (apply_decision d c')"]) (auto simp: apply_decision_def controller_ok_def split: scale_decision.splits)
qed

text \<open>Any decision, however old, keeps the bounds, unless the addition overflows.\<close>

lemma apply_decision_ok: "controller_ok c \<Longrightarrow> apply_decision d c = Some c' \<Longrightarrow> controller_ok c'"
  by (auto simp: apply_decision_def controller_ok_def split: scale_decision.splits if_splits)

section \<open>No thrashing\<close>

text \<open>A run: every tick with its clock readings, each decision applied at once.\<close>

type_synonym 'f tick_input = "'f load_snapshot \<times> nat \<times> nat \<times> nat \<times> nat"

fun run_ticks :: "('f \<Rightarrow> 'f \<Rightarrow> bool) \<Rightarrow> 'f tick_input list \<Rightarrow> 'f controller \<Rightarrow> ('f controller \<times> (scale_decision \<times> nat) list) option" where
  "run_ticks gt [] c = Some (c, [])"
| "run_ticks gt ((snap, t0, t1, t2, t3) # xs) c =
     (case tick gt snap t0 t1 t2 t3 c of
        (c', d) \<Rightarrow> (case apply_decision d c' of
            None \<Rightarrow> None
          | Some c'' \<Rightarrow> (case run_ticks gt xs c'' of None \<Rightarrow> None | Some (e, ds) \<Rightarrow> Some (e, (d, t1) # ds))))"

fun clock_forward :: "nat \<Rightarrow> 'f tick_input list \<Rightarrow> bool" where
  "clock_forward t [] = True"
| "clock_forward t ((snap, t0, t1, t2, t3) # xs) = (t \<le> t0 \<and> t0 \<le> t1 \<and> t1 \<le> t2 \<and> t2 \<le> t3 \<and> clock_forward t3 xs)"

lemma run_ticks_ok:
  assumes "controller_ok c"
  shows "case run_ticks gt xs c of None \<Rightarrow> False | Some (e, ds) \<Rightarrow> controller_ok e \<and> length ds = length xs"
  using assms
proof (induction xs arbitrary: c)
  case (Cons x xs)
  obtain snap t0 t1 t2 t3 where x: "x = (snap, t0, t1, t2, t3)" by (cases x)
  obtain c' d where t: "tick gt snap t0 t1 t2 t3 c = (c', d)" by (cases "tick gt snap t0 t1 t2 t3 c")
  from tick_apply[OF Cons.prems t] obtain c'' where "apply_decision d c' = Some c''" "controller_ok c''" by blast
  with Cons.IH[of c''] show ?case by (auto simp: x t split: option.splits)
qed simp

text \<open>A scale-down needs an idle window that started at \<open>s\<close> or later.\<close>

lemma down_after_window:
  assumes "run_ticks gt xs c = Some (e, ds)" "clock_forward s xs" "case idle_since c of None \<Rightarrow> True | Some t \<Rightarrow> s \<le> t"
    "(ScaleDown n, t) \<in> set ds"
  shows "s + idle_window (ac_target c) \<le> t"
  using assms
proof (induction xs arbitrary: c ds)
  case (Cons x xs)
  obtain snap t0 t1 t2 t3 where x: "x = (snap, t0, t1, t2, t3)" by (cases x)
  obtain c' d where tk: "tick gt snap t0 t1 t2 t3 c = (c', d)" by (cases "tick gt snap t0 t1 t2 t3 c")
  obtain c'' rs where r: "apply_decision d c' = Some c''" "run_ticks gt xs c'' = Some (e, rs)" "ds = (d, t1) # rs"
    using Cons.prems(1) by (auto simp: x tk split: option.splits)
  have fw: "s \<le> t0" "t0 \<le> t1" "t1 \<le> t2" "t2 \<le> t3" "clock_forward t3 xs" using Cons.prems(2) by (simp_all add: x)
  have idle: "case idle_since c' of None \<Rightarrow> True | Some t \<Rightarrow> s \<le> t"
    using Cons.prems(3) fw tk
    by (auto simp: tick_def try_scale_up_def try_scale_down_def Let_def split: if_splits option.splits)
  have frame: "ac_target c'' = ac_target c" "idle_since c'' = idle_since c'"
    using r(1) tick_frame(1)[of gt snap t0 t1 t2 t3 c] tk
    by (auto simp: apply_decision_def split: scale_decision.splits if_splits)
  have "clock_forward s xs" using fw by (cases xs) auto
  show ?case
  proof (cases "(ScaleDown n, t) = (d, t1)")
    case True
    then show ?thesis
      using tk Cons.prems(3) fw by (auto simp: tick_def try_scale_up_def try_scale_down_def Let_def split: if_splits option.splits)
  next
    case False
    then have "(ScaleDown n, t) \<in> set rs" using Cons.prems(4) r(3) by auto
    then show ?thesis using Cons.IH[OF r(2) \<open>clock_forward s xs\<close>] idle frame by simp
  qed
qed simp

lemma scale_down_resets:
  assumes "tick gt snap t0 t1 t2 t3 c = (c', ScaleDown n)"
  shows "idle_since c' = Some t3"
  using assms by (auto simp: tick_def try_scale_up_def try_scale_down_def Let_def split: if_splits)

text \<open>
  So two scale-downs are at least \<open>idle_window\<close> apart: after one, no other comes before a whole
  window has passed.
\<close>

lemma scale_downs_apart:
  assumes "run_ticks gt ((snap, t0, t1, t2, t3) # xs) c = Some (e, (ScaleDown m, u) # ds)" "t1 \<le> t3" "clock_forward t3 xs"
    "(ScaleDown n, t) \<in> set ds"
  shows "u + idle_window (ac_target c) \<le> t"
proof -
  obtain c' where tk: "tick gt snap t0 t1 t2 t3 c = (c', ScaleDown m)" and u: "u = t1"
    using assms(1) by (auto split: option.splits prod.splits)
  obtain c'' where r: "apply_decision (ScaleDown m) c' = Some c''" "run_ticks gt xs c'' = Some (e, ds)"
    using assms(1) by (auto simp: tk split: option.splits)
  have "ac_target c'' = ac_target c" "idle_since c'' = Some t3"
    using r(1) tick_frame(1)[of gt snap t0 t1 t2 t3 c] tk scale_down_resets[OF tk] by (auto simp: apply_decision_def)
  then show ?thesis using down_after_window[OF r(2) assms(3) _ assms(4)] assms(2) u by simp
qed

section \<open>The graph cache\<close>

text \<open>
  \<open>cuda_graphs.rs\<close>: \<open>GraphKey\<close> and \<open>MockGraphRunner\<close>.  \<open>render\<close> is the text of a JSON value and \<open>show_nat\<close>
  the decimal text of a length.
\<close>

datatype 'n json =
    JNull
  | JBool bool
  | JNumber 'n
  | JString string
  | JArray "'n json list"
  | JObject "(string \<times> 'n json) list"

record graph_key =
  key_shape :: string
  key_dtype :: string

definition graph_key_from_inputs :: "(nat \<Rightarrow> string) \<Rightarrow> ('n json \<Rightarrow> string) \<Rightarrow> 'n json \<Rightarrow> string \<Rightarrow> graph_key" where
  "graph_key_from_inputs show_nat render inputs dtype =
     \<lparr>key_shape = (case inputs of
        JArray xs \<Rightarrow> ''['' @ show_nat (length xs) @ '']''
      | JObject kvs \<Rightarrow> ''{'' @ join_with '','' (sort (map fst kvs)) @ ''}''
      | other \<Rightarrow> ''scalar:'' @ render other),
      key_dtype = dtype\<rparr>"

type_synonym 'v graph_cache = "(graph_key \<times> 'v) list"

text \<open>\<open>HashMap::insert\<close> of a key that is absent.\<close>

definition graph_run :: "('v \<Rightarrow> 'v) \<Rightarrow> graph_key \<Rightarrow> 'v \<Rightarrow> 'v graph_cache \<Rightarrow> 'v graph_cache \<times> 'v" where
  "graph_run eager key inputs cache =
     (case map_of cache key of
        Some out \<Rightarrow> (cache, out)
      | None \<Rightarrow> (let out = eager inputs in ((key, out) # cache, out)))"

definition captured_count :: "'v graph_cache \<Rightarrow> nat" where
  "captured_count cache = length cache"

definition has_captured :: "graph_key \<Rightarrow> 'v graph_cache \<Rightarrow> bool" where
  "has_captured key cache \<longleftrightarrow> map_of cache key \<noteq> None"

fun graph_aware_infer :: "('v \<Rightarrow> graph_key) \<Rightarrow> ('v \<Rightarrow> 'v) \<Rightarrow> 'v list \<Rightarrow> 'v graph_cache \<Rightarrow> 'v graph_cache \<times> 'v list" where
  "graph_aware_infer key_of eager [] cache = (cache, [])"
| "graph_aware_infer key_of eager (x # xs) cache =
     (case graph_run eager (key_of x) x cache of
        (cache', out) \<Rightarrow> (case graph_aware_infer key_of eager xs cache' of (cache'', outs) \<Rightarrow> (cache'', out # outs)))"

text \<open>
  One entry for every key that was run, each the output of the first input with that key; the batch
  gets one output per input, so the batching task never pads.
\<close>

definition cache_ok :: "('v \<Rightarrow> 'v) \<Rightarrow> 'v graph_cache \<Rightarrow> bool" where
  "cache_ok eager cache \<longleftrightarrow> distinct (map fst cache) \<and> snd ` set cache \<subseteq> range eager"

lemma graph_run_ok:
  assumes "cache_ok eager cache"
  shows "cache_ok eager (fst (graph_run eager key x cache))" "has_captured key (fst (graph_run eager key x cache))"
    "map_of (fst (graph_run eager key x cache)) key = Some (snd (graph_run eager key x cache))"
    "has_captured k cache \<Longrightarrow> map_of (fst (graph_run eager key x cache)) k = map_of cache k"
    "captured_count (fst (graph_run eager key x cache)) = (if has_captured key cache then captured_count cache else captured_count cache + 1)"
  using assms
  by (auto simp: cache_ok_def graph_run_def has_captured_def captured_count_def Let_def map_of_eq_None_iff intro: rev_image_eqI split: option.splits)

lemma graph_aware_infer_ok:
  "cache_ok eager cache \<Longrightarrow> length (snd (graph_aware_infer key_of eager xs cache)) = length xs
     \<and> cache_ok eager (fst (graph_aware_infer key_of eager xs cache))"
proof (induction xs arbitrary: cache)
  case (Cons x xs)
  obtain c' out where r: "graph_run eager (key_of x) x cache = (c', out)" by (cases "graph_run eager (key_of x) x cache")
  have "cache_ok eager c'" using graph_run_ok(1)[OF Cons.prems, of "key_of x" x] r by simp
  with Cons.IH[of c'] show ?case by (auto simp: r split: prod.splits)
qed simp

text \<open>
  The key ignores the values of an array, so a second input of the same length gets the reply of the
  first one.
\<close>

lemma cache_replays_other_input:
  "let key_of = (\<lambda>v. graph_key_from_inputs (\<lambda>n. replicate n (CHR ''i'')) (\<lambda>_. []) v ''f32'');
       a = JArray [JNumber (1 :: nat)]; b = JArray [JNumber 2]
   in snd (graph_aware_infer key_of (\<lambda>v. v) [a, b] []) = [a, a]"
  by code_simp

end
