(* ===== verification/KV_Cache.thy ===== *)
theory KV_Cache
  imports Rust_Base
begin

text \<open>
  The key-value cache of autoregressive decoding: \<open>rustorch-nn/src/kv_cache.rs\<close>.  Every layer has two
  flat buffers of shape \<open>[batch, n_heads, max_seq, head_dim]\<close>, filled position by position.  \<open>None\<close> is a
  panic: an arithmetic overflow, a slice out of range or an allocation beyond \<open>isize::MAX\<close> bytes.

  The abstract cache of a layer is, for every batch entry and head, the list of the values appended
  so far; the theory shows that the buffers refine it.
\<close>

section \<open>One layer\<close>

record 'v kv_layer =
  kl_k :: "'v list"
  kl_v :: "'v list"
  kl_batch :: nat
  kl_n_heads :: nat
  kl_max_seq :: nat
  kl_head_dim :: nat

datatype kv_error =
    Overflow nat nat
  | WrongInputLen nat nat nat
  | LayerOutOfRange nat nat
  | Aliased

definition layer_new :: "'v \<Rightarrow> nat \<Rightarrow> nat \<Rightarrow> nat \<Rightarrow> nat \<Rightarrow> 'v kv_layer option" where
  "layer_new zero batch n_heads max_seq head_dim =
     (case product4 batch n_heads max_seq head_dim of
        None \<Rightarrow> None
      | Some n \<Rightarrow>
          if n * 4 < i64_limit
          then Some \<lparr>kl_k = replicate n zero, kl_v = replicate n zero, kl_batch = batch, kl_n_heads = n_heads,
                     kl_max_seq = max_seq, kl_head_dim = head_dim\<rparr>
          else None)"

text \<open>\<open>dst[d..d + n].copy_from_slice(&src[s..s + n])\<close>\<close>

definition copy_slice :: "nat \<Rightarrow> nat \<Rightarrow> nat \<Rightarrow> 'v list \<Rightarrow> 'v list \<Rightarrow> 'v list option" where
  "copy_slice d s n src dst =
     (if d + n \<le> length dst \<and> s + n \<le> length src
      then Some (take d dst @ take n (drop s src) @ drop (d + n) dst) else None)"

definition layer_copy :: "nat \<Rightarrow> nat \<Rightarrow> 'v list \<Rightarrow> 'v list \<Rightarrow> nat \<times> nat \<Rightarrow> 'v kv_layer \<Rightarrow> 'v kv_layer option" where
  "layer_copy current_len s_new new_k new_v bh l =
     (let (b, h) = bh; hd = kl_head_dim l; s_max = kl_max_seq l;
          src_off = b * kl_n_heads l * s_new * hd + h * s_new * hd;
          dst_off = b * kl_n_heads l * s_max * hd + h * s_max * hd + current_len * hd
      in case copy_slice dst_off src_off (s_new * hd) new_k (kl_k l) of
           None \<Rightarrow> None
         | Some k \<Rightarrow> (case copy_slice dst_off src_off (s_new * hd) new_v (kl_v l) of
             None \<Rightarrow> None
           | Some v \<Rightarrow> Some (l\<lparr>kl_k := k, kl_v := v\<rparr>)))"

text \<open>The pairs of the two nested loops.\<close>

definition heads_of :: "'v kv_layer \<Rightarrow> (nat \<times> nat) list" where
  "heads_of l = concat (map (\<lambda>b. map (\<lambda>h. (b, h)) [0..<kl_n_heads l]) [0..<kl_batch l])"

definition layer_append :: "nat \<Rightarrow> nat \<Rightarrow> 'v list \<Rightarrow> 'v list \<Rightarrow> 'v kv_layer \<Rightarrow> (kv_error + 'v kv_layer) option" where
  "layer_append current_len seq_added new_k new_v l =
     (case checked_add_u64 current_len seq_added of
        None \<Rightarrow> None
      | Some end_pos \<Rightarrow>
          if end_pos > kl_max_seq l then Some (Inl (Overflow end_pos (kl_max_seq l)))
          else (case product4 (kl_batch l) (kl_n_heads l) seq_added (kl_head_dim l) of
                  None \<Rightarrow> None
                | Some bhsd \<Rightarrow>
                    if length new_k \<noteq> bhsd \<or> length new_v \<noteq> bhsd
                    then Some (Inl (WrongInputLen bhsd (length new_k) (length new_v)))
                    else map_option Inr (fold_opt (layer_copy current_len seq_added new_k new_v) (heads_of l) l)))"

section \<open>The cache\<close>

record 'v kv_cache =
  kv_layers :: "'v kv_layer list"
  kv_current_len :: nat
  kv_max_seq :: nat

definition kv_new :: "'v \<Rightarrow> nat \<Rightarrow> nat \<Rightarrow> nat \<Rightarrow> nat \<Rightarrow> nat \<Rightarrow> 'v kv_cache option" where
  "kv_new zero num_layers batch n_heads head_dim max_seq =
     (case those (map (\<lambda>_. layer_new zero batch n_heads max_seq head_dim) [0..<num_layers]) of
        None \<Rightarrow> None
      | Some ls \<Rightarrow> Some \<lparr>kv_layers = ls, kv_current_len = 0, kv_max_seq = max_seq\<rparr>)"

definition kv_clear :: "'v kv_cache \<Rightarrow> 'v kv_cache" where
  "kv_clear c = c\<lparr>kv_current_len := 0\<rparr>"

text \<open>An error leaves the cache as it is.\<close>

definition kv_append :: "nat \<Rightarrow> nat \<Rightarrow> 'v list \<Rightarrow> 'v list \<Rightarrow> 'v kv_cache \<Rightarrow> (kv_error + 'v kv_cache) option" where
  "kv_append layer_idx seq_added new_k new_v c =
     (if layer_idx < length (kv_layers c)
      then (case layer_append (kv_current_len c) seq_added new_k new_v (kv_layers c ! layer_idx) of
              None \<Rightarrow> None
            | Some (Inl e) \<Rightarrow> Some (Inl e)
            | Some (Inr l) \<Rightarrow> Some (Inr (c\<lparr>kv_layers := (kv_layers c)[layer_idx := l]\<rparr>)))
      else Some (Inl (LayerOutOfRange layer_idx (length (kv_layers c)))))"

definition kv_advance :: "nat \<Rightarrow> 'v kv_cache \<Rightarrow> (kv_error + 'v kv_cache) option" where
  "kv_advance seq_added c =
     (case checked_add_u64 (kv_current_len c) seq_added of
        None \<Rightarrow> None
      | Some new_len \<Rightarrow>
          if new_len > kv_max_seq c then Some (Inl (Overflow new_len (kv_max_seq c)))
          else Some (Inr (c\<lparr>kv_current_len := new_len\<rparr>)))"

definition k_buffer :: "nat \<Rightarrow> 'v kv_cache \<Rightarrow> 'v list option" where
  "k_buffer i c = (if i < length (kv_layers c) then Some (kl_k (kv_layers c ! i)) else None)"

definition v_buffer :: "nat \<Rightarrow> 'v kv_cache \<Rightarrow> 'v list option" where
  "v_buffer i c = (if i < length (kv_layers c) then Some (kl_v (kv_layers c ! i)) else None)"

definition kv_dims :: "'v kv_cache \<Rightarrow> (nat \<times> nat \<times> nat \<times> nat) option" where
  "kv_dims c = (case kv_layers c of [] \<Rightarrow> None | l # _ \<Rightarrow> Some (kl_batch l, kl_n_heads l, kl_max_seq l, kl_head_dim l))"

text \<open>The use the documentation prescribes: every layer gets its rows, then the position advances.\<close>

fun append_all :: "nat \<Rightarrow> nat \<Rightarrow> ('v list \<times> 'v list) list \<Rightarrow> 'v kv_cache \<Rightarrow> (kv_error + 'v kv_cache) option" where
  "append_all i s [] c = Some (Inr c)"
| "append_all i s (kv # kvs) c =
     (case kv_append i s (fst kv) (snd kv) c of
        Some (Inr c') \<Rightarrow> append_all (i + 1) s kvs c'
      | r \<Rightarrow> r)"

definition decode_step :: "nat \<Rightarrow> ('v list \<times> 'v list) list \<Rightarrow> 'v kv_cache \<Rightarrow> (kv_error + 'v kv_cache) option" where
  "decode_step s kvs c = (case append_all 0 s kvs c of Some (Inr c') \<Rightarrow> kv_advance s c' | r \<Rightarrow> r)"

section \<open>Blocks of a buffer\<close>

text \<open>What head \<open>i\<close> (of all heads of all batch entries) holds at its first \<open>n\<close> elements, in blocks of \<open>w\<close>.\<close>

definition head_prefix :: "nat \<Rightarrow> nat \<Rightarrow> nat \<Rightarrow> 'v list \<Rightarrow> 'v list" where
  "head_prefix w i n buf = take n (drop (i * w) buf)"

lemma copy_slice_nth:
  assumes "copy_slice d s n src dst = Some dst'"
  shows "length dst' = length dst"
    "j < length dst \<Longrightarrow> dst' ! j = (if d \<le> j \<and> j < d + n then src ! (s + (j - d)) else dst ! j)"
proof -
  have b: "d + n \<le> length dst" "s + n \<le> length src" "dst' = take d dst @ take n (drop s src) @ drop (d + n) dst"
    using assms by (auto simp: copy_slice_def split: if_splits)
  then have m: "min (length src - s) n = n" "min (length dst) d = d" by simp_all
  show "length dst' = length dst" using b(1,2) by (simp add: b(3) m)
  show "j < length dst \<Longrightarrow> dst' ! j = (if d \<le> j \<and> j < d + n then src ! (s + (j - d)) else dst ! j)"
    using b(1,2) by (auto simp: b(3) nth_append m)
qed

text \<open>The blocks a loop has written.\<close>

definition blocks_written :: "nat \<Rightarrow> nat \<Rightarrow> nat \<Rightarrow> 'v list \<Rightarrow> 'v list \<Rightarrow> nat set \<Rightarrow> 'v list \<Rightarrow> bool" where
  "blocks_written w lo sz src old done buf \<longleftrightarrow> length buf = length old \<and>
     (\<forall>j < length old. buf ! j =
        (if j div w \<in> done \<and> lo \<le> j mod w \<and> j mod w < lo + sz then src ! ((j div w) * sz + (j mod w - lo)) else old ! j))"

lemma block_window:
  fixes w :: nat
  assumes "lo + sz \<le> w" "j < n * w"
  shows "i * w + lo \<le> j \<and> j < i * w + lo + sz \<longleftrightarrow> j div w = i \<and> lo \<le> j mod w \<and> j mod w < lo + sz"
proof -
  have w: "0 < w" using assms(2) by (cases w) simp_all
  have j: "j = j div w * w + j mod w" by simp
  show ?thesis
  proof
    assume a: "i * w + lo \<le> j \<and> j < i * w + lo + sz"
    then have "i * w \<le> j" "j < Suc i * w" using assms(1) by simp_all
    then have "j div w = i" using w by (simp add: div_nat_eqI mult.commute)
    then show "j div w = i \<and> lo \<le> j mod w \<and> j mod w < lo + sz" using a j by simp
  next
    assume "j div w = i \<and> lo \<le> j mod w \<and> j mod w < lo + sz"
    then show "i * w + lo \<le> j \<and> j < i * w + lo + sz" using j by (metis add_less_cancel_left add_le_cancel_left add.assoc)
  qed
qed

lemma block_write:
  assumes "blocks_written w lo sz src old done buf" "copy_slice (i * w + lo) (i * sz) sz src buf = Some buf'"
    "lo + sz \<le> w" "length old = n * w"
  shows "blocks_written w lo sz src old (insert i done) buf'"
  unfolding blocks_written_def
proof (intro conjI allI impI)
  have len: "length buf = length old" using assms(1) by (simp add: blocks_written_def)
  then show "length buf' = length old" using copy_slice_nth(1)[OF assms(2)] by simp
  fix j assume j: "j < length old"
  note win = block_window[OF assms(3) j[unfolded assms(4)], of i]
  have "buf' ! j = (if i * w + lo \<le> j \<and> j < i * w + lo + sz then src ! (i * sz + (j - (i * w + lo))) else buf ! j)"
    using copy_slice_nth(2)[OF assms(2), of j] j len by simp
  moreover have "j - (i * w + lo) = j mod w - lo" if "j div w = i"
  proof -
    have "j = i * w + j mod w" using that by (metis div_mult_mod_eq)
    then show ?thesis by simp
  qed
  moreover have "buf ! j = (if j div w \<in> done \<and> lo \<le> j mod w \<and> j mod w < lo + sz then src ! ((j div w) * sz + (j mod w - lo)) else old ! j)"
    using assms(1) j by (simp add: blocks_written_def)
  ultimately show "buf' ! j = (if j div w \<in> insert i done \<and> lo \<le> j mod w \<and> j mod w < lo + sz
      then src ! ((j div w) * sz + (j mod w - lo)) else old ! j)"
    using win by auto
qed

lemma head_prefix_written:
  assumes "blocks_written w lo sz src old {..<n} buf" "lo + sz \<le> w" "length old = n * w" "length src = n * sz" "i < n"
  shows "head_prefix w i (lo + sz) buf = head_prefix w i lo old @ take sz (drop (i * sz) src)"
proof (rule nth_equalityI)
  have iw: "i * w + w \<le> n * w" "i * sz + sz \<le> n * sz"
    using mult_le_mono1[of "Suc i" n] assms(5) by (metis Suc_leI add.commute mult_Suc)+
  have len: "length buf = n * w" using assms(1,3) by (simp add: blocks_written_def)
  show l: "length (head_prefix w i (lo + sz) buf) = length (head_prefix w i lo old @ take sz (drop (i * sz) src))"
    using iw len assms by (simp add: head_prefix_def)
  fix k assume "k < length (head_prefix w i (lo + sz) buf)"
  then have k: "k < lo + sz" by (simp add: head_prefix_def)
  then have kw: "k < w" using assms(2) by simp
  then have j: "(i * w + k) div w = i" "(i * w + k) mod w = k" by simp_all
  have in_range: "i * w + k < n * w" using iw(1) kw by simp
  have "buf ! (i * w + k) = (if lo \<le> k then src ! (i * sz + (k - lo)) else old ! (i * w + k))"
    using assms(1,3,5) in_range j k by (simp add: blocks_written_def)
  then show "head_prefix w i (lo + sz) buf ! k = (head_prefix w i lo old @ take sz (drop (i * sz) src)) ! k"
    using k kw iw len assms(2-5) by (auto simp: head_prefix_def nth_append)
qed

section \<open>Appending to a layer\<close>

definition layer_ok :: "nat \<Rightarrow> nat \<Rightarrow> nat \<Rightarrow> nat \<Rightarrow> 'v kv_layer \<Rightarrow> bool" where
  "layer_ok B H S D l \<longleftrightarrow> kl_batch l = B \<and> kl_n_heads l = H \<and> kl_max_seq l = S \<and> kl_head_dim l = D
     \<and> length (kl_k l) = B * H * (S * D) \<and> length (kl_v l) = B * H * (S * D)
     \<and> B * H < u64_limit \<and> B * H * S < u64_limit \<and> B * H * (S * D) < u64_limit \<and> S < u64_limit"

lemma layer_new_ok:
  assumes "layer_new zero B H S D = Some l" "S < u64_limit"
  shows "layer_ok B H S D l"
  using assms
  by (auto simp: layer_new_def layer_ok_def product4_def checked_mul_u64_def mult.assoc split: option.splits if_splits)

lemma product4_ok:
  assumes "layer_ok B H S D l" "s \<le> S"
  shows "product4 B H s D = Some (B * H * s * D)"
proof -
  have "B * H * s \<le> B * H * S" "B * H * s * D \<le> B * H * (S * D)"
    using assms(2) by (simp_all add: mult_le_mono mult.assoc)
  then have "B * H < u64_limit" "B * H * s < u64_limit" "B * H * s * D < u64_limit"
    using assms(1) unfolding layer_ok_def by linarith+
  then show ?thesis unfolding product4_def by (simp add: checked_mul_u64_def)
qed

lemma in_heads_of: "(b, h) \<in> set (heads_of l) \<longleftrightarrow> b < kl_batch l \<and> h < kl_n_heads l"
  by (force simp: heads_of_def)

lemma heads_of_indices:
  assumes "layer_ok B H S D l"
  shows "(\<lambda>(b, h). b * H + h) ` set (heads_of l) = {..<B * H}"
proof (intro equalityI subsetI)
  fix i assume "i \<in> (\<lambda>(b, h). b * H + h) ` set (heads_of l)"
  then obtain b h where i: "i = b * H + h" "b < B" "h < H" using assms by (auto simp: heads_of_def layer_ok_def)
  then have "Suc b * H \<le> B * H" by (intro mult_le_mono1) simp
  then show "i \<in> {..<B * H}" using i by simp
next
  fix i assume i: "i \<in> {..<B * H}"
  then have H: "0 < H" by (cases H) simp_all
  then have "i div H < B" "i mod H < H" using i by (simp_all add: less_mult_imp_div_less)
  then have "(i div H, i mod H) \<in> set (heads_of l)" using assms by (simp add: in_heads_of layer_ok_def)
  then show "i \<in> (\<lambda>(b, h). b * H + h) ` set (heads_of l)" by (rule rev_image_eqI) simp
qed

lemma copy_slice_Some: "d + n \<le> length dst \<Longrightarrow> s + n \<le> length src \<Longrightarrow> \<exists>r. copy_slice d s n src dst = Some r"
  by (simp add: copy_slice_def)

lemma layer_copy_step:
  fixes w :: nat
  assumes ok: "layer_ok B H S D l" "layer_ok B H S D m" and bh: "b < B" "h < H" and c: "cur + s \<le> S"
    and src: "length nk = B * H * (s * D)" "length nv = B * H * (s * D)"
    and k: "blocks_written (S * D) (cur * D) (s * D) nk (kl_k l) X (kl_k m)"
    and v: "blocks_written (S * D) (cur * D) (s * D) nv (kl_v l) X (kl_v m)"
  shows "\<exists>m'. layer_copy cur s nk nv (b, h) m = Some m' \<and> layer_ok B H S D m'
    \<and> blocks_written (S * D) (cur * D) (s * D) nk (kl_k l) (insert (b * H + h) X) (kl_k m')
    \<and> blocks_written (S * D) (cur * D) (s * D) nv (kl_v l) (insert (b * H + h) X) (kl_v m')"
proof -
  let ?i = "b * H + h"
  have "Suc b * H \<le> B * H" using bh(1) by (intro mult_le_mono1) simp
  then have i: "Suc ?i \<le> B * H" using bh(2) by simp
  have win: "cur * D + s * D \<le> S * D" using c by (metis add_mult_distrib mult_le_mono1)
  have "Suc ?i * (S * D) \<le> B * H * (S * D)" "Suc ?i * (s * D) \<le> B * H * (s * D)"
    using i by (intro mult_le_mono1; assumption)+
  then have fit: "?i * (S * D) + cur * D + s * D \<le> B * H * (S * D)" "?i * (s * D) + s * D \<le> B * H * (s * D)"
    using win by simp_all
  have len: "length (kl_k m) = B * H * (S * D)" "length (kl_v m) = B * H * (S * D)" using ok(2) by (simp_all add: layer_ok_def)
  obtain rk where rk: "copy_slice (?i * (S * D) + cur * D) (?i * (s * D)) (s * D) nk (kl_k m) = Some rk"
    using copy_slice_Some fit len src by metis
  obtain rv where rv: "copy_slice (?i * (S * D) + cur * D) (?i * (s * D)) (s * D) nv (kl_v m) = Some rv"
    using copy_slice_Some fit len src by metis
  have off: "b * H * S * D + h * S * D + cur * D = ?i * (S * D) + cur * D" "b * H * s * D + h * s * D = ?i * (s * D)"
    by (simp_all add: algebra_simps)
  have "layer_copy cur s nk nv (b, h) m = Some (m\<lparr>kl_k := rk, kl_v := rv\<rparr>)"
    using ok(2) rk rv unfolding layer_copy_def by (simp add: Let_def layer_ok_def off)
  moreover have "layer_ok B H S D (m\<lparr>kl_k := rk, kl_v := rv\<rparr>)"
    using ok(2) copy_slice_nth(1)[OF rk] copy_slice_nth(1)[OF rv] by (simp add: layer_ok_def)
  moreover have "blocks_written (S * D) (cur * D) (s * D) nk (kl_k l) (insert ?i X) rk"
    using ok(1) by (intro block_write[OF k rk win, where n = "B * H"]) (simp add: layer_ok_def)
  moreover have "blocks_written (S * D) (cur * D) (s * D) nv (kl_v l) (insert ?i X) rv"
    using ok(1) by (intro block_write[OF v rv win, where n = "B * H"]) (simp add: layer_ok_def)
  ultimately show ?thesis by simp
qed

lemma layer_append_ok:
  assumes ok: "layer_ok B H S D l" and c: "cur + s \<le> S"
    and src: "length nk = B * H * (s * D)" "length nv = B * H * (s * D)"
  obtains l' where "layer_append cur s nk nv l = Some (Inr l')" "layer_ok B H S D l'"
    "\<And>i. i < B * H \<Longrightarrow> head_prefix (S * D) i ((cur + s) * D) (kl_k l')
        = head_prefix (S * D) i (cur * D) (kl_k l) @ take (s * D) (drop (i * (s * D)) nk)"
    "\<And>i. i < B * H \<Longrightarrow> head_prefix (S * D) i ((cur + s) * D) (kl_v l')
        = head_prefix (S * D) i (cur * D) (kl_v l) @ take (s * D) (drop (i * (s * D)) nv)"
proof -
  define I where "I ys m \<longleftrightarrow> layer_ok B H S D m
      \<and> blocks_written (S * D) (cur * D) (s * D) nk (kl_k l) ((\<lambda>(b, h). b * H + h) ` set ys) (kl_k m)
      \<and> blocks_written (S * D) (cur * D) (s * D) nv (kl_v l) ((\<lambda>(b, h). b * H + h) ` set ys) (kl_v m)" for ys m
  have "\<exists>l'. fold_opt (layer_copy cur s nk nv) (heads_of l) l = Some l' \<and> I (heads_of l) l'"
  proof (rule fold_opt_total)
    show "I [] l" using ok by (simp add: I_def blocks_written_def)
    fix ys x m assume s: "\<exists>zs. heads_of l = ys @ x # zs" "I ys m"
    obtain b h where x: "x = (b, h)" by (cases x)
    have "(b, h) \<in> set (heads_of l)" using s(1) x by auto
    then have bh: "b < B" "h < H" using ok by (auto simp: heads_of_def layer_ok_def)
    show "\<exists>m'. layer_copy cur s nk nv x m = Some m' \<and> I (ys @ [x]) m'"
      using layer_copy_step[OF ok _ bh c src] s(2) by (auto simp: I_def x)
  qed
  then obtain l' where f: "fold_opt (layer_copy cur s nk nv) (heads_of l) l = Some l'" and i: "I (heads_of l) l'" by blast
  have "s \<le> S" using c by simp
  have "cur + s < u64_limit" using ok c by (simp add: layer_ok_def)
  then have "layer_append cur s nk nv l = Some (Inr l')"
    using ok c src product4_ok[OF ok \<open>s \<le> S\<close>] f by (simp add: layer_append_def layer_ok_def checked_add_u64_def mult.assoc)
  moreover have win: "cur * D + s * D \<le> S * D" using c by (metis add_mult_distrib mult_le_mono1)
  moreover have lens: "length (kl_k l) = B * H * (S * D)" "length (kl_v l) = B * H * (S * D)" using ok by (simp_all add: layer_ok_def)
  ultimately show thesis
    using i unfolding I_def heads_of_indices[OF ok]
    by (intro that) (auto simp: add_mult_distrib head_prefix_written[OF _ win lens(1) src(1)] head_prefix_written[OF _ win lens(2) src(2)])
qed

section \<open>Decoding\<close>

definition cache_ok :: "nat \<Rightarrow> nat \<Rightarrow> nat \<Rightarrow> nat \<Rightarrow> nat \<Rightarrow> 'v kv_cache \<Rightarrow> bool" where
  "cache_ok L B H S D c \<longleftrightarrow> length (kv_layers c) = L \<and> list_all (layer_ok B H S D) (kv_layers c)
     \<and> kv_max_seq c = S \<and> kv_current_len c \<le> S"

text \<open>What the kernel reads: the first \<open>current_len\<close> positions of a head.\<close>

definition cached :: "('v kv_layer \<Rightarrow> 'v list) \<Rightarrow> nat \<Rightarrow> nat \<Rightarrow> 'v kv_layer \<Rightarrow> 'v list" where
  "cached buf n i l = head_prefix (kl_max_seq l * kl_head_dim l) i (n * kl_head_dim l) (buf l)"

text \<open>The rows of head \<open>i\<close> among the values appended in one step.\<close>

definition head_rows :: "nat \<Rightarrow> nat \<Rightarrow> nat \<Rightarrow> 'v list \<Rightarrow> 'v list" where
  "head_rows D s i new = take (s * D) (drop (i * (s * D)) new)"

definition step_fits :: "nat \<Rightarrow> nat \<Rightarrow> nat \<Rightarrow> nat \<Rightarrow> nat \<times> ('v list \<times> 'v list) list \<Rightarrow> bool" where
  "step_fits L B H D st \<longleftrightarrow> length (snd st) = L
     \<and> list_all (\<lambda>kv. length (fst kv) = B * H * (fst st * D) \<and> length (snd kv) = B * H * (fst st * D)) (snd st)"

lemma kv_new_ok:
  assumes "kv_new zero L B H D S = Some c" "S < u64_limit"
  shows "cache_ok L B H S D c" "kv_current_len c = 0"
proof -
  obtain ls where ls: "those (map (\<lambda>_. layer_new zero B H S D) [0..<L]) = Some ls" "c = \<lparr>kv_layers = ls, kv_current_len = 0, kv_max_seq = S\<rparr>"
    using assms(1) by (auto simp: kv_new_def split: option.splits)
  have all: "those (map (\<lambda>_. x) is) = Some ls \<Longrightarrow> length ls = length is \<and> (\<forall>l \<in> set ls. x = Some l)"
    for x :: "'a kv_layer option" and "is" :: "nat list"
    by (induction "is" arbitrary: ls) (auto split: option.splits)
  have l: "layer_new zero B H S D = Some l" if "l \<in> set ls" for l using all[OF ls(1)] that by auto
  have "length ls = L" using all[OF ls(1)] by simp
  moreover have "layer_ok B H S D l" if "l \<in> set ls" for l using l[OF that] assms(2) by (rule layer_new_ok)
  ultimately show "cache_ok L B H S D c" "kv_current_len c = 0" by (auto simp: cache_ok_def ls(2) list_all_iff)
qed

lemma append_all_ok:
  assumes "cache_ok L B H S D c" "kv_current_len c + s \<le> S" "k + length kvs = L"
    and "list_all (\<lambda>kv. length (fst kv) = B * H * (s * D) \<and> length (snd kv) = B * H * (s * D)) kvs"
  shows "\<exists>c'. append_all k s kvs c = Some (Inr c') \<and> cache_ok L B H S D c' \<and> kv_current_len c' = kv_current_len c
    \<and> take k (kv_layers c') = take k (kv_layers c)
    \<and> (\<forall>l < length kvs. \<forall>i < B * H.
        cached kl_k (kv_current_len c + s) i (kv_layers c' ! (k + l)) = cached kl_k (kv_current_len c) i (kv_layers c ! (k + l)) @ head_rows D s i (fst (kvs ! l))
      \<and> cached kl_v (kv_current_len c + s) i (kv_layers c' ! (k + l)) = cached kl_v (kv_current_len c) i (kv_layers c ! (k + l)) @ head_rows D s i (snd (kvs ! l)))"
  using assms
proof (induction kvs arbitrary: k c)
  case (Cons kv kvs)
  let ?cur = "kv_current_len c"
  have k: "k < length (kv_layers c)" using Cons.prems(1,3) by (simp add: cache_ok_def)
  have ok: "layer_ok B H S D (kv_layers c ! k)" using Cons.prems(1) k by (simp add: cache_ok_def list_all_length)
  have new: "length (fst kv) = B * H * (s * D)" "length (snd kv) = B * H * (s * D)" using Cons.prems(4) by simp_all
  obtain l where l: "layer_append ?cur s (fst kv) (snd kv) (kv_layers c ! k) = Some (Inr l)" "layer_ok B H S D l"
    "\<And>i. i < B * H \<Longrightarrow> head_prefix (S * D) i ((?cur + s) * D) (kl_k l)
        = head_prefix (S * D) i (?cur * D) (kl_k (kv_layers c ! k)) @ take (s * D) (drop (i * (s * D)) (fst kv))"
    "\<And>i. i < B * H \<Longrightarrow> head_prefix (S * D) i ((?cur + s) * D) (kl_v l)
        = head_prefix (S * D) i (?cur * D) (kl_v (kv_layers c ! k)) @ take (s * D) (drop (i * (s * D)) (snd kv))"
    using layer_append_ok[OF ok Cons.prems(2) new] by blast
  define c1 where "c1 = c\<lparr>kv_layers := (kv_layers c)[k := l]\<rparr>"
  have c1: "kv_append k s (fst kv) (snd kv) c = Some (Inr c1)" using k l(1) by (simp add: kv_append_def c1_def)
  have cur1: "kv_current_len c1 = ?cur" by (simp add: c1_def)
  have ok1: "cache_ok L B H S D c1"
    using Cons.prems(1) l(2) k by (auto simp: cache_ok_def c1_def list_all_length nth_list_update)
  have tail: "Suc k + length kvs = L" using Cons.prems(3) by simp
  obtain c' where c': "append_all (Suc k) s kvs c1 = Some (Inr c')" "cache_ok L B H S D c'" "kv_current_len c' = ?cur"
    "take (Suc k) (kv_layers c') = take (Suc k) (kv_layers c1)"
    "\<And>l i. l < length kvs \<Longrightarrow> i < B * H \<Longrightarrow>
        cached kl_k (?cur + s) i (kv_layers c' ! (Suc k + l)) = cached kl_k ?cur i (kv_layers c1 ! (Suc k + l)) @ head_rows D s i (fst (kvs ! l))
      \<and> cached kl_v (?cur + s) i (kv_layers c' ! (Suc k + l)) = cached kl_v ?cur i (kv_layers c1 ! (Suc k + l)) @ head_rows D s i (snd (kvs ! l))"
    using Cons.IH[OF ok1 _ tail] Cons.prems(2,4) unfolding cur1 by auto
  have at_k: "kv_layers c' ! k = l"
    using c'(4) k by (metis c1_def kv_cache.select_convs(1) kv_cache.surjective kv_cache.update_convs(1) lessI nth_list_update_eq nth_take)
  have before: "take k (kv_layers c') = take k (kv_layers c)"
  proof -
    have "take k (take (Suc k) (kv_layers c')) = take k (take (Suc k) (kv_layers c1))" by (simp only: c'(4))
    then show ?thesis by (simp add: c1_def min_def)
  qed
  have dims: "kl_max_seq l = S" "kl_head_dim l = D" "kl_max_seq (kv_layers c ! k) = S" "kl_head_dim (kv_layers c ! k) = D"
    using l(2) ok by (simp_all add: layer_ok_def)
  have "cached kl_k (?cur + s) i (kv_layers c' ! (k + j)) = cached kl_k ?cur i (kv_layers c ! (k + j)) @ head_rows D s i (fst ((kv # kvs) ! j))
      \<and> cached kl_v (?cur + s) i (kv_layers c' ! (k + j)) = cached kl_v ?cur i (kv_layers c ! (k + j)) @ head_rows D s i (snd ((kv # kvs) ! j))"
    if "j < length (kv # kvs)" "i < B * H" for j i
  proof (cases j)
    case 0
    then show ?thesis using l(3,4)[OF that(2)] at_k by (simp add: cached_def head_rows_def dims)
  next
    case (Suc j')
    then show ?thesis using c'(5)[of j' i] that by (simp add: c1_def)
  qed
  then show ?case using c' before c1 by auto
qed simp

lemma decode_step_ok:
  assumes "cache_ok L B H S D c" "kv_current_len c + s \<le> S" "step_fits L B H D (s, kvs)" "S < u64_limit"
  obtains c' where "decode_step s kvs c = Some (Inr c')" "cache_ok L B H S D c'" "kv_current_len c' = kv_current_len c + s"
    "\<And>l i. l < L \<Longrightarrow> i < B * H \<Longrightarrow>
        cached kl_k (kv_current_len c') i (kv_layers c' ! l) = cached kl_k (kv_current_len c) i (kv_layers c ! l) @ head_rows D s i (fst (kvs ! l))
      \<and> cached kl_v (kv_current_len c') i (kv_layers c' ! l) = cached kl_v (kv_current_len c) i (kv_layers c ! l) @ head_rows D s i (snd (kvs ! l))"
proof -
  obtain c1 where c1: "append_all 0 s kvs c = Some (Inr c1)" "cache_ok L B H S D c1" "kv_current_len c1 = kv_current_len c"
    "\<And>l i. l < L \<Longrightarrow> i < B * H \<Longrightarrow>
        cached kl_k (kv_current_len c + s) i (kv_layers c1 ! l) = cached kl_k (kv_current_len c) i (kv_layers c ! l) @ head_rows D s i (fst (kvs ! l))
      \<and> cached kl_v (kv_current_len c + s) i (kv_layers c1 ! l) = cached kl_v (kv_current_len c) i (kv_layers c ! l) @ head_rows D s i (snd (kvs ! l))"
    using append_all_ok[OF assms(1,2), of 0 kvs] assms(3) by (auto simp: step_fits_def)
  let ?c = "c1\<lparr>kv_current_len := kv_current_len c + s\<rparr>"
  have "decode_step s kvs c = Some (Inr ?c)"
    using assms(2,4) c1(1-3) by (simp add: decode_step_def kv_advance_def checked_add_u64_def cache_ok_def)
  moreover have "cache_ok L B H S D ?c" using c1(2) assms(2) by (simp add: cache_ok_def)
  ultimately show thesis using c1(4) by (intro that[of ?c]) simp_all
qed

section \<open>A whole decoding run\<close>

definition decode_run :: "(nat \<times> ('v list \<times> 'v list) list) list \<Rightarrow> 'v kv_cache \<Rightarrow> (kv_error + 'v kv_cache) option" where
  "decode_run steps c = foldl (\<lambda>r (s, kvs). case r of Some (Inr c) \<Rightarrow> decode_step s kvs c | _ \<Rightarrow> r) (Some (Inr c)) steps"

lemma decode_run_simps:
  "decode_run [] c = Some (Inr c)"
  "decode_run ((s, kvs) # steps) c = (case decode_step s kvs c of Some (Inr c') \<Rightarrow> decode_run steps c' | r \<Rightarrow> r)"
proof -
  have stuck: "foldl (\<lambda>r (s, kvs). case r of Some (Inr c) \<Rightarrow> decode_step s kvs c | _ \<Rightarrow> r) r steps = r"
    if "case r of Some (Inr _) \<Rightarrow> False | _ \<Rightarrow> True" for r :: "(kv_error + 'a kv_cache) option"
    using that by (induction steps) (auto split: option.splits sum.splits)
  show "decode_run [] c = Some (Inr c)" by (simp add: decode_run_def)
  show "decode_run ((s, kvs) # steps) c = (case decode_step s kvs c of Some (Inr c') \<Rightarrow> decode_run steps c' | r \<Rightarrow> r)"
    by (auto simp: decode_run_def stuck split: option.splits sum.splits)
qed

text \<open>A step beyond \<open>max_seq\<close> reports the overflow and appends nothing.\<close>

lemma decode_step_overflow:
  assumes "cache_ok L B H S D c" "S < kv_current_len c + s" "kv_current_len c + s < u64_limit" "length kvs = L"
  shows "decode_step s kvs c = Some (Inl (Overflow (kv_current_len c + s) S))"
proof (cases kvs)
  case Nil
  then show ?thesis using assms by (simp add: decode_step_def kv_advance_def checked_add_u64_def cache_ok_def)
next
  case (Cons kv rest)
  then have "0 < length (kv_layers c)" using assms(1,4) by (simp add: cache_ok_def)
  moreover from this have "layer_ok B H S D (kv_layers c ! 0)" using assms(1) unfolding cache_ok_def list_all_length by blast
  then have "layer_append (kv_current_len c) s (fst kv) (snd kv) (kv_layers c ! 0) = Some (Inl (Overflow (kv_current_len c + s) S))"
    using assms(2,3) by (simp add: layer_append_def checked_add_u64_def layer_ok_def)
  ultimately show ?thesis by (simp add: Cons decode_step_def kv_append_def)
qed

lemma decode_run_ok:
  assumes "cache_ok L B H S D c" "list_all (step_fits L B H D) steps" "S < u64_limit" "kv_current_len c + sum_list (map fst steps) < u64_limit"
  shows "if kv_current_len c + sum_list (map fst steps) \<le> S
    then \<exists>c'. decode_run steps c = Some (Inr c') \<and> kv_current_len c' = kv_current_len c + sum_list (map fst steps)
      \<and> (\<forall>l < L. \<forall>i < B * H.
          cached kl_k (kv_current_len c') i (kv_layers c' ! l)
            = cached kl_k (kv_current_len c) i (kv_layers c ! l) @ concat (map (\<lambda>st. head_rows D (fst st) i (fst (snd st ! l))) steps)
        \<and> cached kl_v (kv_current_len c') i (kv_layers c' ! l)
            = cached kl_v (kv_current_len c) i (kv_layers c ! l) @ concat (map (\<lambda>st. head_rows D (fst st) i (snd (snd st ! l))) steps))
    else \<exists>r. decode_run steps c = Some (Inl (Overflow r S)) \<and> S < r"
  using assms
proof (induction steps arbitrary: c)
  case Nil
  then show ?case by (simp add: decode_run_simps cache_ok_def)
next
  case (Cons st steps)
  obtain s kvs where st: "st = (s, kvs)" by (cases st)
  have fits: "step_fits L B H D (s, kvs)" using Cons.prems(2) st by simp
  show ?case
  proof (cases "kv_current_len c + s \<le> S")
    case True
    obtain c1 where c1: "decode_step s kvs c = Some (Inr c1)" "cache_ok L B H S D c1" "kv_current_len c1 = kv_current_len c + s"
      "\<And>l i. l < L \<Longrightarrow> i < B * H \<Longrightarrow>
        cached kl_k (kv_current_len c1) i (kv_layers c1 ! l) = cached kl_k (kv_current_len c) i (kv_layers c ! l) @ head_rows D s i (fst (kvs ! l))
      \<and> cached kl_v (kv_current_len c1) i (kv_layers c1 ! l) = cached kl_v (kv_current_len c) i (kv_layers c ! l) @ head_rows D s i (snd (kvs ! l))"
      using decode_step_ok[OF Cons.prems(1) True fits Cons.prems(3)] by blast
    have run: "decode_run (st # steps) c = decode_run steps c1" by (simp add: st decode_run_simps c1(1))
    have total: "kv_current_len c1 + sum_list (map fst steps) = kv_current_len c + sum_list (map fst (st # steps))"
      by (simp add: c1(3) st)
    have IH: "if kv_current_len c1 + sum_list (map fst steps) \<le> S
      then \<exists>c'. decode_run steps c1 = Some (Inr c') \<and> kv_current_len c' = kv_current_len c1 + sum_list (map fst steps)
      \<and> (\<forall>l < L. \<forall>i < B * H.
          cached kl_k (kv_current_len c') i (kv_layers c' ! l)
            = cached kl_k (kv_current_len c1) i (kv_layers c1 ! l) @ concat (map (\<lambda>st. head_rows D (fst st) i (fst (snd st ! l))) steps)
        \<and> cached kl_v (kv_current_len c') i (kv_layers c' ! l)
            = cached kl_v (kv_current_len c1) i (kv_layers c1 ! l) @ concat (map (\<lambda>st. head_rows D (fst st) i (snd (snd st ! l))) steps))
      else \<exists>r. decode_run steps c1 = Some (Inl (Overflow r S)) \<and> S < r"
      using Cons.prems(2-4) total by (intro Cons.IH[OF c1(2)]) simp_all
    then show ?thesis unfolding run total by (auto simp: st c1(4) split: if_splits)
  next
    case False
    have "kv_current_len c + s < u64_limit" using Cons.prems(4) by (simp add: st)
    then have "decode_step s kvs c = Some (Inl (Overflow (kv_current_len c + s) S))"
      using decode_step_overflow[OF Cons.prems(1)] False fits by (simp add: step_fits_def)
    then show ?thesis using False by (simp add: st decode_run_simps)
  qed
qed

text \<open>
  C34. The cache refines its abstract content: after a run that gives every layer its rows at every
  step, each head of each layer holds, at its first \<open>current_len\<close> positions, exactly the rows
  appended for it, in the order of the steps; a run that needs more than \<open>max_seq\<close> positions reports
  the overflow, and nothing panics.
\<close>

theorem kv_cache_refines_rows:
  assumes "kv_new zero L B H D S = Some c0" "S < u64_limit" "list_all (step_fits L B H D) steps"
    and "sum_list (map fst steps) < u64_limit"
  shows "if sum_list (map fst steps) \<le> S
    then \<exists>c. decode_run steps c0 = Some (Inr c) \<and> kv_current_len c = sum_list (map fst steps)
      \<and> (\<forall>l < L. \<forall>i < B * H.
          cached kl_k (kv_current_len c) i (kv_layers c ! l) = concat (map (\<lambda>st. head_rows D (fst st) i (fst (snd st ! l))) steps)
        \<and> cached kl_v (kv_current_len c) i (kv_layers c ! l) = concat (map (\<lambda>st. head_rows D (fst st) i (snd (snd st ! l))) steps))
    else \<exists>r. decode_run steps c0 = Some (Inl (Overflow r S)) \<and> S < r"
proof -
  note ok = kv_new_ok[OF assms(1,2)]
  have e: "cached buf 0 i l = []" for buf :: "'a kv_layer \<Rightarrow> 'a list" and l i
    by (simp add: cached_def head_prefix_def)
  show ?thesis using decode_run_ok[OF ok(1) assms(3,2)] assms(4) unfolding ok(2) e add_0 append_Nil by blast
qed

definition demo_steps :: "(nat \<times> (nat list \<times> nat list) list) list" where
  "demo_steps = [(2, [([1, 2, 3, 4], [5, 6, 7, 8])]), (1, [([9, 10], [11, 12])])]"

theorem kv_cache_refines_rows_witness:
  "\<exists>c. decode_run demo_steps (the (kv_new 0 1 1 2 1 3)) = Some (Inr c) \<and> kv_current_len c = 3
    \<and> cached kl_k 3 1 (kv_layers c ! 0) = [3, 4, 10]"
proof -
  have new: "kv_new 0 1 1 2 1 3 = Some (the (kv_new 0 1 1 2 1 3) :: nat kv_cache)" by code_simp
  have "(3 :: nat) < u64_limit" "list_all (step_fits 1 1 2 1) demo_steps" "sum_list (map fst demo_steps) < u64_limit" by code_simp+
  from kv_cache_refines_rows[OF new this] obtain c where
    "decode_run demo_steps (the (kv_new 0 1 1 2 1 3)) = Some (Inr c)" "kv_current_len c = 3"
    "cached kl_k (kv_current_len c) 1 (kv_layers c ! 0) = concat (map (\<lambda>st. head_rows 1 (fst st) 1 (fst (snd st ! 0))) demo_steps)"
    by (auto simp: demo_steps_def)
  then show ?thesis by (auto simp: demo_steps_def head_rows_def numeral_2_eq_2)
qed

end
