(* ===== verification/Fusion.thy ===== *)
theory Fusion
  imports Rust_Base
begin

text \<open>
  Kernel fusion: the patterns, the matcher and the dispatcher of \<open>rustorch-fusion/src/pattern.rs\<close>,
  \<open>matcher.rs\<close> and \<open>dispatcher.rs\<close>.  A trace is a list of operations with the indices of their inputs;
  the matcher looks for chains of operations linked by their first inputs.
\<close>

section \<open>Patterns and traces\<close>

datatype op_kind =
    Matmul | BiasAdd | Relu | Gelu | Silu | LayerNorm | RmsNorm | Linear | Add | Mul | Sub | Div
  | Sigmoid | Tanh | Any

record pattern =
  pat_label :: string
  pat_chain :: "op_kind list"

definition pattern_len :: "pattern \<Rightarrow> nat" where
  "pattern_len p = length (pat_chain p)"

definition pattern_is_empty :: "pattern \<Rightarrow> bool" where
  "pattern_is_empty p \<longleftrightarrow> pat_chain p = []"

definition default_library :: "pattern list" where
  "default_library =
     [\<lparr>pat_label = ''matmul+bias'', pat_chain = [Matmul, BiasAdd]\<rparr>,
      \<lparr>pat_label = ''matmul+bias+relu'', pat_chain = [Matmul, BiasAdd, Relu]\<rparr>,
      \<lparr>pat_label = ''matmul+bias+gelu'', pat_chain = [Matmul, BiasAdd, Gelu]\<rparr>,
      \<lparr>pat_label = ''matmul+bias+silu'', pat_chain = [Matmul, BiasAdd, Silu]\<rparr>,
      \<lparr>pat_label = ''linear+relu'', pat_chain = [Linear, Relu]\<rparr>,
      \<lparr>pat_label = ''layernorm+linear'', pat_chain = [LayerNorm, Linear]\<rparr>,
      \<lparr>pat_label = ''rmsnorm+linear'', pat_chain = [RmsNorm, Linear]\<rparr>,
      \<lparr>pat_label = ''residual_add'', pat_chain = [Add]\<rparr>,
      \<lparr>pat_label = ''add+mul'', pat_chain = [Add, Mul]\<rparr>,
      \<lparr>pat_label = ''add+mul+sigmoid'', pat_chain = [Add, Mul, Sigmoid]\<rparr>,
      \<lparr>pat_label = ''sub+mul'', pat_chain = [Sub, Mul]\<rparr>,
      \<lparr>pat_label = ''mul+tanh'', pat_chain = [Mul, Tanh]\<rparr>,
      \<lparr>pat_label = ''div+add+relu'', pat_chain = [Div, Add, Relu]\<rparr>,
      \<lparr>pat_label = ''matmul+bias+silu+mul'', pat_chain = [Matmul, BiasAdd, Silu, Mul]\<rparr>,
      \<lparr>pat_label = ''layernorm+matmul+bias'', pat_chain = [LayerNorm, Matmul, BiasAdd]\<rparr>]"

record trace_node =
  tn_kind :: op_kind
  tn_inputs :: "nat list"

record fusion_match =
  m_label :: string
  m_nodes :: "nat list"

section \<open>The matcher\<close>

definition op_kind_matches :: "op_kind \<Rightarrow> op_kind \<Rightarrow> bool" where
  "op_kind_matches actual expected \<longleftrightarrow> expected = Any \<or> actual = expected"

text \<open>The first node whose first input is \<open>current\<close>.\<close>

definition next_link :: "trace_node list \<Rightarrow> nat \<Rightarrow> nat option" where
  "next_link trace current =
     List.find (\<lambda>i. case tn_inputs (trace ! i) of [] \<Rightarrow> False | x # _ \<Rightarrow> x = current) [0..<length trace]"

fun try_match_chain :: "trace_node list \<Rightarrow> nat \<Rightarrow> op_kind list \<Rightarrow> nat list option" where
  "try_match_chain trace current [] = Some []"
| "try_match_chain trace current (expected # chain) =
     (if current < length trace then
        (if op_kind_matches (tn_kind (trace ! current)) expected then
           (if chain = [] then Some [current]
            else (case next_link trace current of
                    None \<Rightarrow> None
                  | Some n \<Rightarrow> map_option ((#) current) (try_match_chain trace n chain)))
         else None)
      else None)"

text \<open>The body of the two nested loops: the nodes already covered and the matches so far.\<close>

definition scan_start ::
  "trace_node list \<Rightarrow> pattern \<Rightarrow> nat \<Rightarrow> bool list \<times> fusion_match list \<Rightarrow> bool list \<times> fusion_match list" where
  "scan_start trace p start st =
     (let (covered, matches) = st in
      if covered ! start then st
      else (case try_match_chain trace start (pat_chain p) of
              None \<Rightarrow> st
            | Some chain \<Rightarrow>
                if list_ex (\<lambda>i. covered ! i) chain then st
                else (fold (\<lambda>i c. c[i := True]) chain covered, matches @ [\<lparr>m_label = pat_label p, m_nodes = chain\<rparr>])))"

definition scan_pattern ::
  "trace_node list \<Rightarrow> pattern \<Rightarrow> bool list \<times> fusion_match list \<Rightarrow> bool list \<times> fusion_match list" where
  "scan_pattern trace p st = (if pattern_is_empty p then st else fold (scan_start trace p) [0..<length trace] st)"

text \<open>\<open>sort_by_key\<close> is stable; \<open>Reverse\<close> sorts the longest patterns first.\<close>

definition find_matches :: "trace_node list \<Rightarrow> pattern list \<Rightarrow> fusion_match list" where
  "find_matches trace patterns =
     (if trace = [] \<or> patterns = [] then []
      else sort_key (\<lambda>m. m_nodes m ! 0)
        (snd (fold (scan_pattern trace) (sort_key (\<lambda>p. - int (pattern_len p)) patterns) (replicate (length trace) False, []))))"

section \<open>The dispatcher\<close>

text \<open>The process-wide flag is an argument; a guard keeps the value it found.\<close>

datatype fuse_decision = Apply_Fusion | Skip_Fusion

definition decide :: "bool \<Rightarrow> pattern list \<Rightarrow> string \<Rightarrow> fuse_decision" where
  "decide no_fuse registry label =
     (if no_fuse then Skip_Fusion
      else if list_ex (\<lambda>p. pat_label p = label) registry then Apply_Fusion else Skip_Fusion)"

definition register_pattern :: "pattern \<Rightarrow> pattern list \<Rightarrow> pattern list" where
  "register_pattern p registry = registry @ [p]"

definition no_fuse_enter :: "bool \<Rightarrow> bool \<times> bool" where
  "no_fuse_enter flag = (True, flag)"

definition no_fuse_drop :: "bool \<Rightarrow> bool" where
  "no_fuse_drop prev = prev"

lemma decide_iff: "decide off ps l = Apply_Fusion \<longleftrightarrow> \<not> off \<and> l \<in> pat_label ` set ps"
  by (auto simp: decide_def list_ex_iff)

lemma no_fuse_scope: "let (flag, guard) = no_fuse_enter old in decide flag ps l = Skip_Fusion \<and> no_fuse_drop guard = old"
  by (simp add: no_fuse_enter_def no_fuse_drop_def decide_def)

section \<open>What a match is\<close>

text \<open>Every link consumes the node before it as its first input.\<close>

fun linked :: "trace_node list \<Rightarrow> nat list \<Rightarrow> bool" where
  "linked trace (i # j # is) = ((\<exists>rest. tn_inputs (trace ! j) = i # rest) \<and> linked trace (j # is))"
| "linked trace _ = True"

definition chain_at :: "trace_node list \<Rightarrow> op_kind list \<Rightarrow> nat list \<Rightarrow> bool" where
  "chain_at trace chain is \<longleftrightarrow>
     list_all2 (\<lambda>k i. i < length trace \<and> op_kind_matches (tn_kind (trace ! i)) k) chain is \<and> linked trace is"

text \<open>Nodes only read nodes before them.\<close>

definition trace_ok :: "trace_node list \<Rightarrow> bool" where
  "trace_ok trace \<longleftrightarrow> (\<forall>i < length trace. \<forall>j \<in> set (tn_inputs (trace ! i)). j < i)"

lemma next_link_Some:
  assumes "next_link trace i = Some j"
  shows "j < length trace" "\<exists>rest. tn_inputs (trace ! j) = i # rest"
proof -
  obtain k where "k < length trace" "[0..<length trace] ! k = j"
    "case tn_inputs (trace ! ([0..<length trace] ! k)) of [] \<Rightarrow> False | x # _ \<Rightarrow> x = i"
    using assms by (auto simp: next_link_def find_Some_iff)
  then show "j < length trace" "\<exists>rest. tn_inputs (trace ! j) = i # rest" by (auto split: list.splits)
qed

lemma try_match_chain_sound:
  "try_match_chain trace i chain = Some is \<Longrightarrow> chain \<noteq> [] \<Longrightarrow> chain_at trace chain is \<and> is \<noteq> [] \<and> hd is = i"
proof (induction chain arbitrary: i "is")
  case (Cons e chain)
  have c: "i < length trace" "op_kind_matches (tn_kind (trace ! i)) e" using Cons.prems(1) by (auto split: if_splits)
  show ?case
  proof (cases "chain = []")
    case True
    then show ?thesis using Cons.prems(1) c by (auto simp: chain_at_def)
  next
    case False
    then obtain n js where n: "next_link trace i = Some n" "try_match_chain trace n chain = Some js" "is = i # js"
      using Cons.prems(1) c by (auto split: option.splits)
    have IH: "chain_at trace chain js" "js \<noteq> []" "hd js = n"
      using Cons.IH[OF n(2) False] by simp_all
    then obtain ks where "js = n # ks" by (cases js) auto
    with IH n c next_link_Some[OF n(1)] show ?thesis by (auto simp: chain_at_def)
  qed
qed simp

lemma linked_increasing:
  assumes "trace_ok trace" "linked trace is" "list_all (\<lambda>i. i < length trace) is"
  shows "sorted_wrt (<) is"
  using assms(2,3)
proof (induction "is")
  case (Cons i "is")
  show ?case
  proof (cases "is")
    case Nil
    then show ?thesis by simp
  next
    case (Cons j js)
    have "linked trace is" "list_all (\<lambda>i. i < length trace) is" "\<exists>rest. tn_inputs (trace ! j) = i # rest"
      using Cons.prems Cons by simp_all
    with Cons.IH have "sorted_wrt (<) is" "i < j" using assms(1) Cons Cons.prems(2) by (auto simp: trace_ok_def)
    then show ?thesis using Cons by (auto intro: less_trans)
  qed
qed simp

section \<open>The state of the scan\<close>

definition scan_inv :: "trace_node list \<Rightarrow> pattern list \<Rightarrow> nat \<Rightarrow> bool list \<times> fusion_match list \<Rightarrow> bool" where
  "scan_inv trace pats n st \<longleftrightarrow> length (fst st) = length trace
     \<and> (\<forall>i < length trace. fst st ! i \<longleftrightarrow> i \<in> set (concat (map m_nodes (snd st))))
     \<and> distinct (concat (map m_nodes (snd st)))
     \<and> (\<forall>m \<in> set (snd st). n \<le> length (m_nodes m) \<and> m_nodes m \<noteq> [] \<and> (\<exists>p \<in> set pats. pat_label p = m_label m \<and> chain_at trace (pat_chain p) (m_nodes m)))"

lemma cover_length [simp]: "length (fold (\<lambda>i c. c[i := True]) is c) = length c"
  by (induction "is" arbitrary: c) simp_all

lemma cover_nth: "j < length c \<Longrightarrow> fold (\<lambda>i c. c[i := True]) is c ! j \<longleftrightarrow> c ! j \<or> j \<in> set is"
proof (induction "is" arbitrary: c)
  case (Cons a "is")
  then show ?case by (cases "a = j") simp_all
qed simp

lemma chain_at_props:
  assumes "chain_at trace chain is" "trace_ok trace"
  shows "length is = length chain" "list_all (\<lambda>i. i < length trace) is" "distinct is"
proof -
  have a: "list_all2 (\<lambda>k i. i < length trace \<and> op_kind_matches (tn_kind (trace ! i)) k) chain is" "linked trace is"
    using assms(1) by (simp_all add: chain_at_def)
  show "length is = length chain" using list_all2_lengthD[OF a(1)] by simp
  show l: "list_all (\<lambda>i. i < length trace) is" using a(1) by (auto simp: list_all2_conv_all_nth list_all_length)
  show "distinct is" using linked_increasing[OF assms(2) a(2) l] by (simp add: strict_sorted_iff)
qed

text \<open>Every attempt leaves a cover: the chain it found meets a match that is at least as long.\<close>

definition attempt_covered :: "trace_node list \<Rightarrow> pattern \<Rightarrow> nat \<Rightarrow> fusion_match list \<Rightarrow> bool" where
  "attempt_covered trace p start ms \<longleftrightarrow>
     (case try_match_chain trace start (pat_chain p) of
        None \<Rightarrow> True
      | Some chain \<Rightarrow> list_ex (\<lambda>m. length chain \<le> length (m_nodes m) \<and> list_ex (\<lambda>i. i \<in> set (m_nodes m)) chain) ms)"

lemma attempt_covered_mono: "attempt_covered trace p start ms \<Longrightarrow> set ms \<subseteq> set ms' \<Longrightarrow> attempt_covered trace p start ms'"
  by (auto simp: attempt_covered_def list_ex_iff split: option.splits)

text \<open>One start: skipped, matched, or suppressed by an overlap.\<close>

lemma scan_start_cases:
  assumes "scan_inv trace pats n (cov, ms)" "trace_ok trace" "p \<in> set pats" "pat_chain p \<noteq> []" "start < length trace"
  obtains (skipped) "scan_start trace p start (cov, ms) = (cov, ms)" "start \<in> set (concat (map m_nodes ms))"
  | (no_chain) "scan_start trace p start (cov, ms) = (cov, ms)" "try_match_chain trace start (pat_chain p) = None"
  | (overlap) chain i where "scan_start trace p start (cov, ms) = (cov, ms)"
      "try_match_chain trace start (pat_chain p) = Some chain" "i \<in> set chain" "i \<in> set (concat (map m_nodes ms))"
  | (matched) chain where "try_match_chain trace start (pat_chain p) = Some chain" "set chain \<inter> set (concat (map m_nodes ms)) = {}"
      "scan_start trace p start (cov, ms) =
         (fold (\<lambda>i c. c[i := True]) chain cov, ms @ [\<lparr>m_label = pat_label p, m_nodes = chain\<rparr>])"
proof (cases "cov ! start")
  case True
  then show thesis using assms(1,5) by (intro skipped) (simp_all add: scan_start_def scan_inv_def)
next
  case ns: False
  show thesis
  proof (cases "try_match_chain trace start (pat_chain p)")
    case None
    then show thesis using ns by (intro no_chain) (simp_all add: scan_start_def)
  next
    case (Some chain)
    have sound: "chain_at trace (pat_chain p) chain" using try_match_chain_sound[OF Some assms(4)] by simp
    have covers: "cov ! i \<longleftrightarrow> i \<in> set (concat (map m_nodes ms))" if "i \<in> set chain" for i
      using chain_at_props(2)[OF sound assms(2)] that assms(1) by (simp add: scan_inv_def list_all_iff)
    show thesis
    proof (cases "list_ex (\<lambda>i. cov ! i) chain")
      case True
      then obtain i where i: "i \<in> set chain" "cov ! i" by (auto simp: list_ex_iff)
      show thesis using True ns Some i covers[OF i(1)] by (intro overlap[OF _ Some i(1)]) (simp_all add: scan_start_def)
    next
      case False
      then show thesis using ns Some covers
        by (intro matched) (auto simp: list_ex_iff scan_start_def)
    qed
  qed
qed

lemma scan_start_inv:
  assumes "scan_inv trace pats n st" "trace_ok trace" "p \<in> set pats" "pat_chain p \<noteq> []" "n \<le> pattern_len p" "start < length trace"
  shows "scan_inv trace pats n (scan_start trace p start st) \<and> set (snd st) \<subseteq> set (snd (scan_start trace p start st))"
proof (cases st)
  case (Pair cov ms)
  from assms(1)[unfolded Pair] assms(2-4,6) show ?thesis
  proof (cases rule: scan_start_cases)
    case (matched chain)
    note sound = try_match_chain_sound[OF matched(1) assms(4)]
    note props = chain_at_props[OF conjunct1[OF sound] assms(2)]
    show ?thesis using matched props sound assms(1,3,5) Pair
      by (auto simp: scan_inv_def pattern_len_def cover_nth)
  qed (use assms(1) Pair in simp_all)
qed

lemma scan_start_covers:
  assumes "scan_inv trace pats n st" "trace_ok trace" "p \<in> set pats" "pat_chain p \<noteq> []" "n = pattern_len p" "start < length trace"
  shows "attempt_covered trace p start (snd (scan_start trace p start st))"
proof (cases st)
  case (Pair cov ms)
  have long: "length chain \<le> length (m_nodes m)"
    if "m \<in> set ms" "try_match_chain trace start (pat_chain p) = Some chain" for m chain
    using that assms(1,5) Pair try_match_chain_sound[OF that(2) assms(4)] chain_at_props(1)[OF _ assms(2)]
    by (fastforce simp: scan_inv_def pattern_len_def)
  have hd: "start \<in> set chain" "chain \<noteq> []" if "try_match_chain trace start (pat_chain p) = Some chain" for chain
    using try_match_chain_sound[OF that assms(4)] by (cases chain; simp)+
  from assms(1)[unfolded Pair] assms(2-4,6) show ?thesis
  proof (cases rule: scan_start_cases)
    case skipped
    then show ?thesis using long hd Pair by (fastforce simp: attempt_covered_def list_ex_iff split: option.splits)
  next
    case (overlap chain i)
    then show ?thesis using long Pair by (fastforce simp: attempt_covered_def list_ex_iff)
  next
    case (matched chain)
    then show ?thesis using hd Pair by (auto simp: attempt_covered_def list_ex_iff)
  qed (simp add: attempt_covered_def Pair)
qed

section \<open>The loops\<close>

lemma scan_starts:
  assumes "scan_inv trace pats n st" "trace_ok trace" "p \<in> set pats" "pat_chain p \<noteq> []" "n = pattern_len p"
    "list_all (\<lambda>i. i < length trace) starts"
  shows "scan_inv trace pats n (fold (scan_start trace p) starts st)
     \<and> set (snd st) \<subseteq> set (snd (fold (scan_start trace p) starts st))
     \<and> list_all (\<lambda>s. attempt_covered trace p s (snd (fold (scan_start trace p) starts st))) starts"
  using assms(1,6)
proof (induction starts arbitrary: st)
  case (Cons s starts)
  have s: "scan_inv trace pats n (scan_start trace p s st)" "set (snd st) \<subseteq> set (snd (scan_start trace p s st))"
    using scan_start_inv[OF Cons.prems(1) assms(2-4)] assms(5) Cons.prems(2) by simp_all
  have c: "attempt_covered trace p s (snd (scan_start trace p s st))"
    using scan_start_covers[OF Cons.prems(1) assms(2-5)] Cons.prems(2) by simp
  note IH = Cons.IH[OF s(1)]
  show ?case using IH s(2) attempt_covered_mono[OF c] Cons.prems(2) by auto
qed simp

lemma scan_inv_mono: "scan_inv trace pats n st \<Longrightarrow> m \<le> n \<Longrightarrow> scan_inv trace pats m st"
  by (fastforce simp: scan_inv_def)

definition all_covered :: "trace_node list \<Rightarrow> pattern \<Rightarrow> fusion_match list \<Rightarrow> bool" where
  "all_covered trace p ms \<longleftrightarrow> pat_chain p = [] \<or> (\<forall>s < length trace. attempt_covered trace p s ms)"

lemma all_covered_mono: "all_covered trace p ms \<Longrightarrow> set ms \<subseteq> set ms' \<Longrightarrow> all_covered trace p ms'"
  by (auto simp: all_covered_def intro: attempt_covered_mono)

lemma scan_patterns:
  assumes "scan_inv trace pats n st" "trace_ok trace" "set ps \<subseteq> set pats" "sorted_wrt (\<lambda>p q. pattern_len q \<le> pattern_len p) ps"
    "list_all (\<lambda>p. pattern_len p \<le> n) ps"
  shows "scan_inv trace pats 0 (fold (scan_pattern trace) ps st)
     \<and> set (snd st) \<subseteq> set (snd (fold (scan_pattern trace) ps st))
     \<and> list_all (\<lambda>p. all_covered trace p (snd (fold (scan_pattern trace) ps st))) ps"
  using assms(1,3-5)
proof (induction ps arbitrary: st n)
  case Nil
  then show ?case using scan_inv_mono by fastforce
next
  case (Cons p ps)
  have inv: "scan_inv trace pats (pattern_len p) st" using scan_inv_mono[OF Cons.prems(1)] Cons.prems(4) by simp
  have step: "scan_inv trace pats (pattern_len p) (scan_pattern trace p st) \<and> set (snd st) \<subseteq> set (snd (scan_pattern trace p st))
     \<and> all_covered trace p (snd (scan_pattern trace p st))"
    using scan_starts[OF inv assms(2) _ _ refl, of "[0..<length trace]"] inv Cons.prems(2)
    by (auto simp: scan_pattern_def pattern_is_empty_def all_covered_def list_all_iff)
  note IH = Cons.IH[OF conjunct1[OF step]]
  show ?case using IH step all_covered_mono[OF conjunct2[OF conjunct2[OF step]]] Cons.prems
    by (auto simp: list_all_iff)
qed

section \<open>The matches of a trace\<close>

lemma distinct_concat_mset: "mset xs = mset ys \<Longrightarrow> distinct (concat xs) = distinct (concat ys)"
  by (rule mset_eq_imp_distinct_iff) (simp add: mset_concat flip: sum_mset_sum_list)

lemma longest_first: "sorted_wrt (\<lambda>p q. pattern_len q \<le> pattern_len p) (sort_key (\<lambda>p. - int (pattern_len p)) ps)"
  using sorted_sort_key[of "\<lambda>p. - int (pattern_len p)" ps] by (simp add: sorted_map)

lemma bounded_lens: "\<exists>n. list_all (\<lambda>p. pattern_len p \<le> n) ps"
  by (rule exI[of _ "sum_list (map pattern_len ps)"]) (simp add: list_all_iff member_le_sum_list)

text \<open>
  C35.  The matches of a trace are sorted by their first node and share no node; each is a chain of
  operations that its pattern accepts, every operation reading the one before it as its first
  input; and every chain that the matcher finds for a pattern meets an emitted match that is at
  least as long (the doc's longest-chain-first preference).
\<close>

theorem fusion_matches_correct:
  assumes "trace_ok trace"
  shows "sorted (map (\<lambda>m. m_nodes m ! 0) (find_matches trace pats))
    \<and> distinct (concat (map m_nodes (find_matches trace pats)))
    \<and> (\<forall>m \<in> set (find_matches trace pats). \<exists>p \<in> set pats. pat_label p = m_label m \<and> chain_at trace (pat_chain p) (m_nodes m))
    \<and> (\<forall>p \<in> set pats. pat_chain p = [] \<or> (\<forall>s < length trace. attempt_covered trace p s (find_matches trace pats)))"
proof (cases "trace = [] \<or> pats = []")
  case True
  then show ?thesis by (auto simp: find_matches_def)
next
  case False
  let ?ps = "sort_key (\<lambda>p. - int (pattern_len p)) pats"
  let ?st = "fold (scan_pattern trace) ?ps (replicate (length trace) False, [])"
  let ?fm = "sort_key (\<lambda>m. m_nodes m ! 0) (snd ?st)"
  have fm: "find_matches trace pats = ?fm" using False by (simp add: find_matches_def)
  obtain n where n: "list_all (\<lambda>p. pattern_len p \<le> n) ?ps" using bounded_lens by blast
  have "scan_inv trace pats n (replicate (length trace) False, [])" by (simp add: scan_inv_def)
  from scan_patterns[OF this assms _ longest_first n]
  have inv: "scan_inv trace pats 0 ?st" and cov: "list_all (\<lambda>p. all_covered trace p (snd ?st)) ?ps" by simp_all
  have "distinct (concat (map m_nodes ?fm))"
    using inv by (subst distinct_concat_mset[of _ "map m_nodes (snd ?st)"]) (simp_all add: scan_inv_def)
  moreover have "all_covered trace p ?fm" if "p \<in> set pats" for p
  proof -
    have "all_covered trace p (snd ?st)" using cov that by (simp only: list_all_iff set_sort Ball_def)
    then show ?thesis by (rule all_covered_mono) simp
  qed
  moreover have "\<forall>m \<in> set ?fm. \<exists>p \<in> set pats. pat_label p = m_label m \<and> chain_at trace (pat_chain p) (m_nodes m)"
    using inv by (simp add: scan_inv_def)
  ultimately show ?thesis by (simp add: fm all_covered_def)
qed

definition mlp_trace :: "trace_node list" where
  "mlp_trace = [\<lparr>tn_kind = Matmul, tn_inputs = []\<rparr>, \<lparr>tn_kind = BiasAdd, tn_inputs = [0]\<rparr>, \<lparr>tn_kind = Relu, tn_inputs = [1]\<rparr>,
     \<lparr>tn_kind = Add, tn_inputs = [2, 0]\<rparr>]"

lemma mlp_trace_ok: "trace_ok mlp_trace"
  by (simp add: trace_ok_def mlp_trace_def less_Suc_eq)

lemmas matcher_eval = find_matches_def default_library_def scan_pattern_def scan_start_def pattern_len_def pattern_is_empty_def
  next_link_def op_kind_matches_def Let_def upt_rec[of 0] upt_rec[of "Suc _"]

lemma mlp_matches:
  "find_matches mlp_trace default_library
     = [\<lparr>m_label = ''matmul+bias+relu'', m_nodes = [0, 1, 2]\<rparr>, \<lparr>m_label = ''residual_add'', m_nodes = [3]\<rparr>]"
  by (simp add: matcher_eval mlp_trace_def)

theorem fusion_matches_correct_witness:
  "distinct (concat (map m_nodes (find_matches mlp_trace default_library))) \<and> length (find_matches mlp_trace default_library) = 2"
  using fusion_matches_correct[OF mlp_trace_ok, of default_library] by (simp add: mlp_matches)

text \<open>
  The matcher follows the first consumer only: a pattern whose next operation is another consumer
  of the same node is missed, although the chain is there.
\<close>

lemma second_consumer_missed:
  "let trace = [\<lparr>tn_kind = Matmul, tn_inputs = []\<rparr>, \<lparr>tn_kind = Tanh, tn_inputs = [0]\<rparr>, \<lparr>tn_kind = BiasAdd, tn_inputs = [0]\<rparr>]
   in find_matches trace default_library = [] \<and> chain_at trace [Matmul, BiasAdd] [0, 2]"
  by (simp add: chain_at_def matcher_eval)

end
