(* ===== verification/Statistics.thy ===== *)
theory Statistics
  imports Complex_Main Reductions
begin

text \<open>
  The statistics along a line of theory \<open>Reductions\<close>: the positions of extrema, and the variance in
  exact arithmetic.
\<close>

lemma line_numel_le:
  assumes "0 \<notin> set s" "axis < length s"
  shows "numel (s[axis := 1]) \<le> numel s"
proof -
  have "0 < s ! axis" using assms nth_mem[OF assms(2)] by (metis gr0I)
  then show ?thesis using numel_axis[of axis s] numel_axis[of axis "s[axis := 1]"] assms(2) by simp
qed

lemma exact_ops:
  "f_div exact_f64 = (/)" "var_denom exact_f64 unbiased n = (if unbiased then max (of_nat n - 1) 1 else of_nat n)"
  by (simp_all add: exact_f64_def var_denom_def)

lemma strict_weak_flip: "strict_weak_on A lt \<Longrightarrow> strict_weak_on A (\<lambda>a b. lt b a)"
  unfolding strict_weak_on_def by blast

text \<open>
  C37. On a tensor of type \<open>f32\<close>, \<open>f64\<close>, \<open>i64\<close> or \<open>i32\<close> without an empty axis, whose elements are
  ordered by \<open><\<close> (there is no NaN among them), \<open>argmax\<close> and \<open>argmin\<close> give the first position of
  the line that no other one beats.  On an \<open>f32\<close> or \<open>f64\<close> tensor without an empty axis, and in exact
  arithmetic, Welford's one-pass recurrence computes the two-pass variance: the sum of the
  squared deviations from the mean, over n or, unbiased, over n - 1 (at least 1).
  (On empty lines see \<open>empty_argmax_panics\<close>.)
\<close>

theorem line_statistics_correct:
  assumes "tensor_ok t h" "0 \<notin> set (t_shape t)" "reduce_dtype (t_dtype t)" "axis < length (t_shape t)"
    and "strict_weak_on (set (elems t h)) (ro_less ro (t_dtype t))" "fits_memory I64 (numel ((t_shape t)[axis := 1]))"
    and "tensor_ok u g" "0 \<notin> set (t_shape u)" "mean_dtype (t_dtype u)" "ax < length (t_shape u)"
    and "\<And>v. c_to_f64 c (t_dtype u) v = v" "\<And>v. c_of_f64 c (t_dtype u) v = v"
  shows "computes h I64 (line_shape (t_shape t) axis k)
        (\<lambda>cs. ro_i64 ro (first_of (\<lambda>a b. ro_less ro (t_dtype t) b a) (line_elems t h axis (line_coords axis k cs)))) (argmax ro t axis k h)
    \<and> computes h I64 (line_shape (t_shape t) axis k)
        (\<lambda>cs. ro_i64 ro (first_of (ro_less ro (t_dtype t)) (line_elems t h axis (line_coords axis k cs)))) (argmin ro t axis k h)
    \<and> computes g (t_dtype u) (line_shape (t_shape u) ax k)
        (\<lambda>cs. sq_dev (line_elems u g ax (line_coords ax k cs)) / (if unbiased then max (of_nat (t_shape u ! ax) - 1) 1 else of_nat (t_shape u ! ax)))
        (var_dim exact_f64 c u ax unbiased k g)"
proof -
  let ?s = "t_shape u"
  have "numel (?s[ax := 1]) \<le> numel ?s" by (rule line_numel_le[OF assms(8,10)])
  then have fits: "fits_memory (t_dtype u) (numel (?s[ax := 1]))" by (rule fits_memory_mono[OF own_fits[OF assms(7)]])
  have id: "c_to_f64 c (t_dtype u) = (\<lambda>v. v)" using assms(11) by blast
  have "computes g (t_dtype u) (line_shape (t_shape u) ax k)
        (\<lambda>cs. sq_dev (line_elems u g ax (line_coords ax k cs)) / (if unbiased then max (of_nat (t_shape u ! ax) - 1) 1 else of_nat (t_shape u ! ax)))
        (var_dim exact_f64 c u ax unbiased k g)"
    using welford_var_ok[OF assms(7,10) nonempty_axes[OF assms(8)] fits, of k c exact_f64 unbiased] assms(9,10,12)
    by (simp add: var_dim_def validate_dim_def Let_def welford_exact exact_ops id)
  then show ?thesis
    using arg_reduce_ok[OF strict_weak_flip[OF assms(5)] assms(1,4,2,6)] arg_reduce_ok[OF assms(5,1,4,2,6)] assms(3,4)
    by (simp add: argmax_def argmin_def arg_extreme_def validate_dim_def Let_def)
qed

definition rat_casts :: "rat casts" where
  "rat_casts = \<lparr>c_to_f64 = \<lambda>_ v. v, c_of_f64 = \<lambda>_ v. v, c_nonzero = \<lambda>v. v \<noteq> 0, c_true = \<lambda>v. v \<noteq> 0, c_bool = of_bool, c_one = 1, c_zero = 0\<rparr>"

definition rat_heap :: "rat theap" where
  "rat_heap = \<lparr>bufs = [\<lparr>buf_dtype = F64, buf_data = [1, 4, 4, 7], buf_strong = 1\<rparr>], vers = [0]\<rparr>"

lemma rat_heap_ok: "tensor_ok (dense_at 0 [4] F64) rat_heap"
  by (rule dense_at_ok; simp add: rat_heap_def numel_def; code_simp)

definition i32_line :: "int theap" where
  "i32_line = \<lparr>bufs = [\<lparr>buf_dtype = I32, buf_data = [3, 9, 9, 2], buf_strong = 1\<rparr>], vers = [0]\<rparr>"

lemma i32_line_ok: "tensor_ok (dense_at 0 [4] I32) i32_line"
  by (rule dense_at_ok; simp add: i32_line_def numel_def; code_simp)

lemma int_strict: "strict_weak_on A (ro_less int_reduce d)"
  by (auto simp: strict_weak_on_def int_reduce_def)

theorem line_statistics_correct_witness:
  "(\<exists>t' h'. argmax int_reduce (dense_at 0 [4] I32) 0 False i32_line = Some (Inr t', h') \<and> t_elem t' h' [] = 1) \<and>
   (\<exists>t' h'. var_dim exact_f64 rat_casts (dense_at 0 [4] F64) 0 True False rat_heap = Some (Inr t', h') \<and> t_elem t' h' [] = 6)"
proof -
  let ?t = "dense_at 0 [4] I32" and ?u = "dense_at 0 [4] F64"
  have p: "0 \<notin> set (t_shape ?u)" "mean_dtype (t_dtype ?u)" "0 < length (t_shape ?u)"
    "t_shape ?u = [4]" "line_shape [4] 0 False = []" "line_coords 0 False [] = [0]"
    and q: "0 \<notin> set (t_shape ?t)" "reduce_dtype (t_dtype ?t)" "0 < length (t_shape ?t)" "fits_memory I64 (numel ((t_shape ?t)[0 := 1]))"
    "t_shape ?t = [4]"
    and e: "ro_i64 int_reduce (first_of (\<lambda>a b. ro_less int_reduce (t_dtype ?t) b a) (line_elems ?t i32_line 0 [0])) = 1"
    by code_simp+
  have l: "line_elems ?u rat_heap 0 [0] = [1, 4, 4, 7]"
    by (simp add: line_elems_def t_elem_def dense_at_def contiguous_layout_def rat_heap_def addr_def upt_rec)
  have "sq_dev [1, 4, 4, 7 :: rat] / 3 = 6" by (simp add: sq_dev_def mean_of_def power2_eq_square)
  then show ?thesis
    using line_statistics_correct[OF i32_line_ok q(1-3) int_strict q(4) rat_heap_ok p(1-3), of rat_casts False True] p q(5) e l
    by (auto simp: computes_def rat_casts_def)
qed

end
