(* ===== verification/Floats.thy ===== *)
theory Floats
  imports Complex_Main
begin

text \<open>
  Floating-point numbers.  Code that compares, tests or produces special values takes its arithmetic as
  a record of operations.  The exact instance has the special values of IEEE 754 and no rounding: a
  number is real, an infinity or not a number.  Zero has no sign, so a quotient by zero has the sign
  of the dividend.
\<close>

record 'v float_ops =
  fo_zero :: 'v
  fo_one :: 'v
  fo_neg_inf :: 'v
  fo_nan :: 'v
  fo_nat :: "nat \<Rightarrow> 'v"
  fo_add :: "'v \<Rightarrow> 'v \<Rightarrow> 'v"
  fo_sub :: "'v \<Rightarrow> 'v \<Rightarrow> 'v"
  fo_mul :: "'v \<Rightarrow> 'v \<Rightarrow> 'v"
  fo_div :: "'v \<Rightarrow> 'v \<Rightarrow> 'v"
  fo_exp :: "'v \<Rightarrow> 'v"
  fo_sqrt :: "'v \<Rightarrow> 'v"
  fo_less :: "'v \<Rightarrow> 'v \<Rightarrow> bool"
  fo_eq :: "'v \<Rightarrow> 'v \<Rightarrow> bool"
  fo_finite :: "'v \<Rightarrow> bool"

text \<open>\<open>f32::max\<close> ignores an operand that is not a number.\<close>

definition fo_max :: "'v float_ops \<Rightarrow> 'v \<Rightarrow> 'v \<Rightarrow> 'v" where
  "fo_max F a b =
     (if \<not> fo_eq F a a then b else if \<not> fo_eq F b b then a else if fo_less F a b then b else a)"

text \<open>Sums from left to right.\<close>

definition fo_sum :: "'v float_ops \<Rightarrow> 'v list \<Rightarrow> 'v" where
  "fo_sum F xs = foldl (fo_add F) (fo_zero F) xs"

section \<open>Exact arithmetic\<close>

datatype fl = Fin real | PInf | NInf | NaN

fun fl_sign :: "fl \<Rightarrow> real" where
  "fl_sign (Fin a) = sgn a"
| "fl_sign PInf = 1"
| "fl_sign NInf = - 1"
| "fl_sign NaN = 0"

definition inf_signed :: "real \<Rightarrow> fl" where
  "inf_signed s = (if s > 0 then PInf else if s < 0 then NInf else NaN)"

fun fl_add :: "fl \<Rightarrow> fl \<Rightarrow> fl" where
  "fl_add (Fin a) (Fin b) = Fin (a + b)"
| "fl_add NaN y = NaN"
| "fl_add x NaN = NaN"
| "fl_add PInf NInf = NaN"
| "fl_add NInf PInf = NaN"
| "fl_add PInf y = PInf"
| "fl_add x PInf = PInf"
| "fl_add NInf y = NInf"
| "fl_add x NInf = NInf"

fun fl_neg :: "fl \<Rightarrow> fl" where
  "fl_neg (Fin a) = Fin (- a)"
| "fl_neg PInf = NInf"
| "fl_neg NInf = PInf"
| "fl_neg NaN = NaN"

definition fl_sub :: "fl \<Rightarrow> fl \<Rightarrow> fl" where
  "fl_sub x y = fl_add x (fl_neg y)"

fun fl_mul :: "fl \<Rightarrow> fl \<Rightarrow> fl" where
  "fl_mul (Fin a) (Fin b) = Fin (a * b)"
| "fl_mul NaN y = NaN"
| "fl_mul x NaN = NaN"
| "fl_mul x y = inf_signed (fl_sign x * fl_sign y)"

fun fl_div :: "fl \<Rightarrow> fl \<Rightarrow> fl" where
  "fl_div (Fin a) (Fin b) = (if b = 0 then inf_signed a else Fin (a / b))"
| "fl_div NaN y = NaN"
| "fl_div x NaN = NaN"
| "fl_div (Fin a) y = Fin 0"
| "fl_div x (Fin b) = (if b < 0 then fl_neg x else x)"
| "fl_div x y = NaN"

fun fl_exp :: "fl \<Rightarrow> fl" where
  "fl_exp (Fin a) = Fin (exp a)"
| "fl_exp PInf = PInf"
| "fl_exp NInf = Fin 0"
| "fl_exp NaN = NaN"

fun fl_sqrt :: "fl \<Rightarrow> fl" where
  "fl_sqrt (Fin a) = (if a < 0 then NaN else Fin (sqrt a))"
| "fl_sqrt PInf = PInf"
| "fl_sqrt NInf = NaN"
| "fl_sqrt NaN = NaN"

fun fl_less :: "fl \<Rightarrow> fl \<Rightarrow> bool" where
  "fl_less (Fin a) (Fin b) = (a < b)"
| "fl_less NaN y = False"
| "fl_less x NaN = False"
| "fl_less NInf y = (y \<noteq> NInf)"
| "fl_less x PInf = (x \<noteq> PInf)"
| "fl_less x y = False"

definition fl_eq :: "fl \<Rightarrow> fl \<Rightarrow> bool" where
  "fl_eq x y \<longleftrightarrow> x = y \<and> x \<noteq> NaN"

definition fl_finite :: "fl \<Rightarrow> bool" where
  "fl_finite x \<longleftrightarrow> x \<in> range Fin"

definition exact :: "fl float_ops" where
  "exact = \<lparr>fo_zero = Fin 0, fo_one = Fin 1, fo_neg_inf = NInf, fo_nan = NaN, fo_nat = (\<lambda>n. Fin (real n)),
     fo_add = fl_add, fo_sub = fl_sub, fo_mul = fl_mul, fo_div = fl_div, fo_exp = fl_exp, fo_sqrt = fl_sqrt,
     fo_less = fl_less, fo_eq = fl_eq, fo_finite = fl_finite\<rparr>"

lemma exact_simps [simp]:
  "fo_zero exact = Fin 0" "fo_one exact = Fin 1" "fo_neg_inf exact = NInf" "fo_nan exact = NaN"
  "fo_nat exact n = Fin (real n)" "fo_add exact = fl_add" "fo_sub exact = fl_sub" "fo_mul exact = fl_mul"
  "fo_div exact = fl_div" "fo_exp exact = fl_exp" "fo_sqrt exact = fl_sqrt" "fo_less exact = fl_less"
  "fo_eq exact = fl_eq" "fo_finite exact = fl_finite"
  by (simp_all add: exact_def)

lemma fl_simps [simp]:
  "fl_sub (Fin a) (Fin b) = Fin (a - b)" "fl_sub NInf (Fin b) = NInf" "fl_sub NInf NInf = NaN"
  "fl_sub NaN y = NaN" "fl_sub x NaN = NaN" "fl_add x NaN = NaN" "fl_mul x NaN = NaN"
  "fl_eq (Fin a) (Fin b) \<longleftrightarrow> a = b" "fl_eq NInf NInf" "\<not> fl_eq (Fin a) NInf" "\<not> fl_eq NInf (Fin a)"
  "\<not> fl_eq NaN y" "\<not> fl_eq x NaN" "fl_finite (Fin a)" "\<not> fl_finite NaN" "\<not> fl_finite NInf" "\<not> fl_finite PInf"
  "\<not> fl_less x NaN" "\<not> fl_less (Fin a) NInf" "\<not> fl_less NInf NInf" "fl_less NInf (Fin a)"
  by (cases x; auto simp: fl_sub_def fl_eq_def fl_finite_def)+

text \<open>The real number of a finite value.\<close>

fun fin_part :: "fl \<Rightarrow> real" where
  "fin_part (Fin a) = a"
| "fin_part x = 0"

lemma fin_part_Fin: "fl_finite x \<longleftrightarrow> x = Fin (fin_part x)"
  by (cases x) auto

lemma foldl_fl_add: "foldl fl_add (Fin a) (map (\<lambda>i. Fin (f i)) is) = Fin (a + (\<Sum>i\<leftarrow>is. f i))"
  by (induction "is" arbitrary: a) (simp_all add: add.assoc)

lemma foldl_fl_add_NaN: "foldl fl_add NaN xs = NaN"
  by (induction xs) simp_all

lemma foldl_fl_add_mem: "NaN \<in> set xs \<Longrightarrow> foldl fl_add a xs = NaN"
  by (induction xs arbitrary: a) (auto simp: foldl_fl_add_NaN)

lemma fo_sum_exact: "fo_sum exact (map (\<lambda>i. Fin (f i)) is) = Fin (\<Sum>i\<leftarrow>is. f i)"
  using foldl_fl_add[of 0 f "is"] by (simp add: fo_sum_def)

lemma fo_sum_upt: "fo_sum exact (map (\<lambda>i. Fin (f i)) [0..<n]) = Fin (\<Sum>i<n. f i)"
  by (simp add: fo_sum_exact sum_list_distinct_conv_sum_set lessThan_atLeast0)

text \<open>A running maximum of real numbers and \<open>- \<infinity>\<close> is real as soon as one of them is.\<close>

lemma running_max_fin:
  assumes "set xs \<subseteq> insert NInf (range Fin)" "m \<in> insert NInf (range Fin)"
  shows "foldl (\<lambda>m x. if fl_less m x then x else m) m xs \<in> insert NInf (range Fin)
    \<and> (foldl (\<lambda>m x. if fl_less m x then x else m) m xs = NInf \<longleftrightarrow> m = NInf \<and> set xs \<subseteq> {NInf})"
  using assms
proof (induction xs arbitrary: m)
  case (Cons x xs)
  let ?m = "if fl_less m x then x else m"
  have "?m \<in> insert NInf (range Fin)" using Cons.prems by simp
  moreover have "?m = NInf \<longleftrightarrow> m = NInf \<and> x = NInf" using Cons.prems by auto
  ultimately show ?case using Cons.IH[of ?m] Cons.prems(1) by auto
qed simp

lemma fo_max_fin: "m \<in> insert NInf (range Fin) \<Longrightarrow> x \<in> insert NInf (range Fin) \<Longrightarrow>
    fo_max exact m x = (if fl_less m x then x else m)"
  by (auto simp: fo_max_def)

lemma max_fold_fin:
  assumes "set xs \<subseteq> insert NInf (range Fin)" "m \<in> insert NInf (range Fin)"
  shows "foldl (fo_max exact) m xs = foldl (\<lambda>m x. if fl_less m x then x else m) m xs"
  using assms by (induction xs arbitrary: m) (auto simp: fo_max_fin)

end
