(* ===== verification/Attention.thy ===== *)
theory Attention
  imports Rust_Base Floats
begin

text \<open>
  Scaled dot-product attention on the CPU: \<open>rustorch-attention/src/{mask,online_softmax,cpu_forward,
  cpu_backward}.rs\<close>, in a build for neither macOS nor WebAssembly.  The \<open>gemm\<close> crate and the
  floating-point operations are parameters.  \<open>None\<close> is a panic or a loop that does not end.
\<close>

section \<open>Shapes, masks and errors\<close>

record attention_shape =
  at_batch :: nat
  at_heads :: nat
  at_seq :: nat
  at_dim :: nat
  at_br :: nat
  at_bc :: nat

definition attention_shape_new :: "nat \<Rightarrow> nat \<Rightarrow> nat \<Rightarrow> nat \<Rightarrow> attention_shape" where
  "attention_shape_new batch heads seq d =
     \<lparr>at_batch = batch, at_heads = heads, at_seq = seq, at_dim = d, at_br = 64, at_bc = 64\<rparr>"

definition buffer_len :: "attention_shape \<Rightarrow> nat option" where
  "buffer_len s = product4 (at_batch s) (at_heads s) (at_seq s) (at_dim s)"

text \<open>The strides of a batch entry, a head and a position.\<close>

definition attention_strides :: "attention_shape \<Rightarrow> (nat \<times> nat \<times> nat) option" where
  "attention_strides s =
     (case checked_mul_u64 (at_seq s) (at_dim s) of
        None \<Rightarrow> None
      | Some s_h \<Rightarrow> map_option (\<lambda>s_b. (s_b, s_h, at_dim s)) (checked_mul_u64 (at_heads s) s_h))"

datatype mask_error = PaddingLengthMismatch nat nat

datatype attention_error =
    BufferShapeMismatch string nat nat
  | OutputShapeMismatch nat nat
  | ZeroDim
  | MaskFailed mask_error

datatype mask = MaskNone | MaskCausal | MaskPadding "bool list"

fun is_masked :: "mask \<Rightarrow> nat \<Rightarrow> nat \<Rightarrow> bool" where
  "is_masked MaskNone qi kj = False"
| "is_masked MaskCausal qi kj = (kj > qi)"
| "is_masked (MaskPadding keep) qi kj = (kj < length keep \<and> \<not> keep ! kj)"

fun mask_validate :: "mask \<Rightarrow> nat \<Rightarrow> mask_error option" where
  "mask_validate (MaskPadding keep) seq =
     (if length keep = seq then None else Some (PaddingLengthMismatch seq (length keep)))"
| "mask_validate _ seq = None"

text \<open>The first named buffer of another length.\<close>

fun check_buffers :: "nat \<Rightarrow> (string \<times> 'v list) list \<Rightarrow> attention_error option" where
  "check_buffers expected [] = None"
| "check_buffers expected ((which, buf) # bs) =
     (if length buf \<noteq> expected then Some (BufferShapeMismatch which expected (length buf)) else check_buffers expected bs)"

text \<open>\<open>None\<close> is an overflow, \<open>Some None\<close> success.\<close>

definition validate_buffers ::
  "attention_shape \<Rightarrow> 'v list \<Rightarrow> 'v list \<Rightarrow> 'v list \<Rightarrow> 'v list \<Rightarrow> attention_error option option" where
  "validate_buffers shape q k v out =
     (if at_dim shape = 0 then Some (Some ZeroDim)
      else case buffer_len shape of
        None \<Rightarrow> None
      | Some expected \<Rightarrow>
          (case check_buffers expected [(''q'', q), (''k'', k), (''v'', v)] of
             Some e \<Rightarrow> Some (Some e)
           | None \<Rightarrow> Some (if length out \<noteq> expected then Some (OutputShapeMismatch expected (length out)) else None)))"

text \<open>A vector of \<open>f32\<close> that can be allocated.\<close>

definition f32_vec_ok :: "nat \<Rightarrow> bool" where
  "f32_vec_ok n \<longleftrightarrow> n * 4 < i64_limit"

text \<open>Writing to a slice that is in range.\<close>

definition write_at :: "nat \<Rightarrow> 'v list \<Rightarrow> 'v list \<Rightarrow> 'v list" where
  "write_at a ys xs = take a xs @ ys @ drop (a + length ys) xs"

section \<open>Softmax in one pass\<close>

record 'v softmax_state =
  os_m :: 'v
  os_l :: 'v

definition online_empty :: "'v float_ops \<Rightarrow> 'v softmax_state" where
  "online_empty F = \<lparr>os_m = fo_neg_inf F, os_l = fo_zero F\<rparr>"

definition from_scalar :: "'v float_ops \<Rightarrow> 'v \<Rightarrow> 'v softmax_state" where
  "from_scalar F x = \<lparr>os_m = x, os_l = fo_one F\<rparr>"

definition absorb :: "'v float_ops \<Rightarrow> 'v \<Rightarrow> 'v softmax_state \<Rightarrow> 'v softmax_state" where
  "absorb F x st =
     (if fo_less F (os_m st) x
      then \<lparr>os_m = x, os_l = fo_add F (fo_mul F (os_l st) (fo_exp F (fo_sub F (os_m st) x))) (fo_one F)\<rparr>
      else st\<lparr>os_l := fo_add F (os_l st) (fo_exp F (fo_sub F x (os_m st)))\<rparr>)"

definition online_is_empty :: "'v float_ops \<Rightarrow> 'v softmax_state \<Rightarrow> bool" where
  "online_is_empty F st \<longleftrightarrow> fo_eq F (os_m st) (fo_neg_inf F) \<and> fo_eq F (os_l st) (fo_zero F)"

definition combine_tiles :: "'v float_ops \<Rightarrow> 'v softmax_state \<Rightarrow> 'v softmax_state \<Rightarrow> 'v softmax_state" where
  "combine_tiles F a b =
     (if online_is_empty F a then b
      else if online_is_empty F b then a
      else let m_new = (if fo_less F (os_m b) (os_m a) then os_m a else os_m b) in
        if fo_eq F (os_m a) m_new \<and> fo_eq F (os_m b) m_new
        then \<lparr>os_m = m_new, os_l = fo_add F (os_l a) (os_l b)\<rparr>
        else if fo_eq F (os_m a) m_new
        then \<lparr>os_m = m_new, os_l = fo_add F (os_l a) (fo_mul F (os_l b) (fo_exp F (fo_sub F (os_m b) m_new)))\<rparr>
        else \<lparr>os_m = m_new, os_l = fo_add F (fo_mul F (os_l a) (fo_exp F (fo_sub F (os_m a) m_new))) (os_l b)\<rparr>)"

definition online_softmax_full :: "'v float_ops \<Rightarrow> 'v list \<Rightarrow> 'v softmax_state" where
  "online_softmax_full F xs = foldl (\<lambda>st x. absorb F x st) (online_empty F) xs"

section \<open>The tiled forward pass\<close>

text \<open>
  \<open>gemm m n k dst dst_cs dst_rs read_dst lhs lhs_cs lhs_rs rhs rhs_cs rhs_rs alpha beta\<close> is what the
  crate leaves in \<open>dst\<close>; its documentation says \<open>alpha * dst + beta * lhs * rhs\<close>, without the first
  term when the destination is not read.
\<close>

type_synonym 'v gemm_fn =
  "nat \<Rightarrow> nat \<Rightarrow> nat \<Rightarrow> 'v list \<Rightarrow> nat \<Rightarrow> nat \<Rightarrow> bool \<Rightarrow> 'v list \<Rightarrow> nat \<Rightarrow> nat \<Rightarrow> 'v list \<Rightarrow> nat \<Rightarrow> nat \<Rightarrow> 'v \<Rightarrow> 'v \<Rightarrow> 'v list"

definition sgemm_score_tile ::
  "'v float_ops \<Rightarrow> 'v gemm_fn \<Rightarrow> nat \<Rightarrow> nat \<Rightarrow> nat \<Rightarrow> 'v \<Rightarrow> 'v list \<Rightarrow> nat \<Rightarrow> 'v list \<Rightarrow> nat \<Rightarrow> 'v list \<Rightarrow> nat \<Rightarrow> 'v list" where
  "sgemm_score_tile F gemm m n k alpha q ldq k_buf ldk s lds =
     gemm m n k s 1 lds False q 1 ldq k_buf ldk 1 (fo_zero F) alpha"

definition sgemm_value_accumulate ::
  "'v float_ops \<Rightarrow> 'v gemm_fn \<Rightarrow> nat \<Rightarrow> nat \<Rightarrow> nat \<Rightarrow> 'v list \<Rightarrow> nat \<Rightarrow> 'v list \<Rightarrow> nat \<Rightarrow> 'v list \<Rightarrow> nat \<Rightarrow> 'v list" where
  "sgemm_value_accumulate F gemm m n k p ldp v ldv ob ldo =
     gemm m n k ob 1 ldo True p 1 ldp v 1 ldv (fo_one F) (fo_one F)"

text \<open>The loops over tiles: \<open>body\<close> gets the bounds of a tile.\<close>

partial_function (option) tile_loop :: "nat \<Rightarrow> nat \<Rightarrow> (nat \<Rightarrow> nat \<Rightarrow> 's \<Rightarrow> 's option) \<Rightarrow> nat \<Rightarrow> 's \<Rightarrow> 's option" where
  "tile_loop step seq body start st =
     (if start < seq
      then (case body start (min (start + step) seq) st of
              None \<Rightarrow> None
            | Some st' \<Rightarrow> tile_loop step seq body (min (start + step) seq) st')
      else Some st)"

record 'v scratch =
  s_buf :: "'v list"
  p_buf :: "'v list"
  o_buf :: "'v list"
  m_buf :: "'v list"
  l_buf :: "'v list"

record 'v flash_args =
  fa_scale :: 'v
  fa_seq :: nat
  fa_dim :: nat
  fa_br :: nat
  fa_bc :: nat
  fa_stride :: nat

text \<open>The online update of one row: its new statistics, its rescaled output and its weights.\<close>

definition row_update ::
  "'v float_ops \<Rightarrow> 'v list \<Rightarrow> 'v \<Rightarrow> 'v \<Rightarrow> 'v list \<Rightarrow> 'v \<times> 'v \<times> 'v list \<times> 'v list" where
  "row_update F s_row m_prev l o_row =
     (let m_tile = foldl (\<lambda>m x. if fo_less F m x then x else m) (fo_neg_inf F) s_row;
          m_new = (if fo_less F m_prev m_tile then m_tile else m_prev);
          alpha = (if fo_eq F m_prev (fo_neg_inf F) then fo_zero F else fo_exp F (fo_sub F m_prev m_new));
          l1 = (if \<not> fo_eq F alpha (fo_one F) then fo_mul F l alpha else l);
          o1 = (if \<not> fo_eq F alpha (fo_one F) then map (\<lambda>x. fo_mul F x alpha) o_row else o_row);
          p_row = map (\<lambda>x. fo_exp F (fo_sub F x m_new)) s_row
      in (m_new, fo_add F l1 (fo_sum F p_row), o1, p_row))"

definition flash_row :: "'v float_ops \<Rightarrow> nat \<Rightarrow> nat \<Rightarrow> nat \<Rightarrow> 'v scratch \<Rightarrow> 'v scratch" where
  "flash_row F d bc_used r sc =
     (let (m, l, o_row, p_row) = row_update F (take bc_used (drop (r * bc_used) (s_buf sc)))
            (m_buf sc ! r) (l_buf sc ! r) (take d (drop (r * d) (o_buf sc)))
      in sc\<lparr>p_buf := write_at (r * bc_used) p_row (p_buf sc), o_buf := write_at (r * d) o_row (o_buf sc),
            m_buf := (m_buf sc)[r := m], l_buf := (l_buf sc)[r := l]\<rparr>)"

text \<open>The masked cells of a tile of scores become \<open>- \<infinity>\<close>.\<close>

definition mask_tile :: "'v float_ops \<Rightarrow> mask \<Rightarrow> nat \<Rightarrow> nat \<Rightarrow> nat \<Rightarrow> 'v list \<Rightarrow> 'v list" where
  "mask_tile F msk qi kj bc_used s =
     (if msk = MaskNone then s
      else map (\<lambda>(n, x). if is_masked msk (qi + n div bc_used) (kj + n mod bc_used) then fo_neg_inf F else x) (enumerate 0 s))"

definition key_tile ::
  "'v float_ops \<Rightarrow> 'v gemm_fn \<Rightarrow> 'v list \<Rightarrow> 'v list \<Rightarrow> 'v list \<Rightarrow> mask \<Rightarrow> 'v flash_args \<Rightarrow> nat \<Rightarrow> nat \<Rightarrow> nat
    \<Rightarrow> nat \<Rightarrow> nat \<Rightarrow> 'v scratch \<Rightarrow> 'v scratch" where
  "key_tile F gemm q k v msk a base qi br_used kj kj_end sc =
     (let bc_used = kj_end - kj; d = fa_dim a; s_n = fa_stride a;
          s0 = sgemm_score_tile F gemm br_used bc_used d (fa_scale a) (drop (base + qi * s_n) q) s_n (drop (base + kj * s_n) k) s_n
                 (take (br_used * bc_used) (s_buf sc)) bc_used;
          sc1 = sc\<lparr>s_buf := write_at 0 (mask_tile F msk qi kj bc_used s0) (s_buf sc)\<rparr>;
          sc2 = fold (flash_row F d bc_used) [0..<br_used] sc1;
          o1 = sgemm_value_accumulate F gemm br_used d bc_used (take (br_used * bc_used) (p_buf sc2)) bc_used
                 (drop (base + kj * s_n) v) s_n (take (br_used * d) (o_buf sc2)) d
      in sc2\<lparr>o_buf := write_at 0 o1 (o_buf sc2)\<rparr>)"

text \<open>The output of a row: divided by the sum of its weights, or not a number.\<close>

definition finish_row :: "'v float_ops \<Rightarrow> 'v \<Rightarrow> 'v list \<Rightarrow> 'v list" where
  "finish_row F l o_row =
     (if fo_less F (fo_zero F) l \<and> fo_finite F l
      then map (\<lambda>x. fo_mul F x (fo_div F (fo_one F) l)) o_row
      else map (\<lambda>_. fo_nan F) o_row)"

definition query_tile ::
  "'v float_ops \<Rightarrow> 'v gemm_fn \<Rightarrow> 'v list \<Rightarrow> 'v list \<Rightarrow> 'v list \<Rightarrow> mask \<Rightarrow> 'v flash_args \<Rightarrow> nat
    \<Rightarrow> nat \<Rightarrow> nat \<Rightarrow> 'v scratch \<times> 'v list \<Rightarrow> ('v scratch \<times> 'v list) option" where
  "query_tile F gemm q k v msk a base qi qi_end st =
     (let (sc, slab) = st; br_used = qi_end - qi; d = fa_dim a;
          sc0 = sc\<lparr>m_buf := write_at 0 (replicate br_used (fo_neg_inf F)) (m_buf sc), l_buf := write_at 0 (replicate br_used (fo_zero F)) (l_buf sc),
                   o_buf := write_at 0 (replicate (br_used * d) (fo_zero F)) (o_buf sc)\<rparr>
      in map_option (\<lambda>sc'. (sc', fold (\<lambda>r. write_at ((qi + r) * fa_stride a) (finish_row F (l_buf sc' ! r) (take d (drop (r * d) (o_buf sc')))))
             [0..<br_used] slab))
           (tile_loop (fa_bc a) (fa_seq a) (\<lambda>kj kj_end sc. Some (key_tile F gemm q k v msk a base qi br_used kj kj_end sc)) 0 sc0))"

definition flash_forward_bh ::
  "'v float_ops \<Rightarrow> 'v gemm_fn \<Rightarrow> 'v list \<Rightarrow> 'v list \<Rightarrow> 'v list \<Rightarrow> 'v list \<Rightarrow> mask \<Rightarrow> 'v flash_args \<Rightarrow> nat \<Rightarrow> 'v list option" where
  "flash_forward_bh F gemm q k v slab msk a base =
     (let br = fa_br a; bc = fa_bc a; d = fa_dim a in
      if \<not> f32_vec_ok (br * bc) \<or> \<not> f32_vec_ok (br * d) \<or> \<not> f32_vec_ok br then None
      else map_option snd (tile_loop br (fa_seq a) (query_tile F gemm q k v msk a base) 0
             (\<lparr>s_buf = replicate (br * bc) (fo_zero F), p_buf = replicate (br * bc) (fo_zero F), o_buf = replicate (br * d) (fo_zero F),
               m_buf = replicate br (fo_neg_inf F), l_buf = replicate br (fo_zero F)\<rparr>, slab)))"

definition flash_forward_masked ::
  "'v float_ops \<Rightarrow> 'v gemm_fn \<Rightarrow> attention_shape \<Rightarrow> 'v list \<Rightarrow> 'v list \<Rightarrow> 'v list \<Rightarrow> mask \<Rightarrow> 'v list
    \<Rightarrow> (attention_error + 'v list) option" where
  "flash_forward_masked F gemm shape q k v msk out =
     (case validate_buffers shape q k v out of
        None \<Rightarrow> None
      | Some (Some e) \<Rightarrow> Some (Inl e)
      | Some None \<Rightarrow>
          (case mask_validate msk (at_seq shape) of
             Some e \<Rightarrow> Some (Inl (MaskFailed e))
           | None \<Rightarrow>
               if at_seq shape = 0 then Some (Inr out)
               else (case attention_strides shape of
                  None \<Rightarrow> None
                | Some (_, s_h, s_n) \<Rightarrow>
                    let a = \<lparr>fa_scale = fo_div F (fo_one F) (fo_sqrt F (fo_nat F (at_dim shape))), fa_seq = at_seq shape,
                             fa_dim = at_dim shape, fa_br = at_br shape, fa_bc = at_bc shape, fa_stride = s_n\<rparr>;
                        heads = at_heads shape
                    in map_option (\<lambda>slabs. Inr (concat slabs))
                         (those (map (\<lambda>bh. flash_forward_bh F gemm q k v (take s_h (drop (bh * s_h) out)) msk a
                                   (bh div heads * (heads * s_h) + bh mod heads * s_h))
                            [0..<length out div s_h])))))"

definition flash_forward ::
  "'v float_ops \<Rightarrow> 'v gemm_fn \<Rightarrow> attention_shape \<Rightarrow> 'v list \<Rightarrow> 'v list \<Rightarrow> 'v list \<Rightarrow> 'v list \<Rightarrow> (attention_error + 'v list) option" where
  "flash_forward F gemm shape q k v out = flash_forward_masked F gemm shape q k v MaskNone out"

section \<open>The direct forward pass\<close>

text \<open>The dot product of row \<open>i\<close> of \<open>q\<close> and row \<open>j\<close> of \<open>k\<close> in the buffers that start at \<open>base\<close>.\<close>

definition dot_rows :: "'v float_ops \<Rightarrow> 'v list \<Rightarrow> 'v list \<Rightarrow> nat \<Rightarrow> nat \<Rightarrow> nat \<Rightarrow> nat \<Rightarrow> 'v" where
  "dot_rows F q k base d i j = fo_sum F (map (\<lambda>x. fo_mul F (q ! (base + i * d + x)) (k ! (base + j * d + x))) [0..<d])"

definition naive_row ::
  "'v float_ops \<Rightarrow> 'v list \<Rightarrow> 'v list \<Rightarrow> 'v list \<Rightarrow> mask \<Rightarrow> 'v \<Rightarrow> nat \<Rightarrow> nat \<Rightarrow> nat \<Rightarrow> nat \<Rightarrow> 'v list" where
  "naive_row F q k v msk scale base seq d i =
     (let row = map (\<lambda>j. if is_masked msk i j then fo_neg_inf F else fo_mul F (dot_rows F q k base d i j) scale) [0..<seq];
          m = foldl (fo_max F) (fo_neg_inf F) row;
          e = map (\<lambda>x. fo_exp F (fo_sub F x m)) row;
          s = fo_sum F e
      in if fo_less F (fo_zero F) s \<and> fo_finite F s
         then (let p = map (\<lambda>x. fo_div F x s) e in
           map (\<lambda>dd. fo_sum F (map (\<lambda>j. fo_mul F (p ! j) (v ! (base + j * d + dd))) [0..<seq])) [0..<d])
         else replicate d (fo_nan F))"

definition naive_forward_masked ::
  "'v float_ops \<Rightarrow> attention_shape \<Rightarrow> 'v list \<Rightarrow> 'v list \<Rightarrow> 'v list \<Rightarrow> mask \<Rightarrow> 'v list \<Rightarrow> (attention_error + 'v list) option" where
  "naive_forward_masked F shape q k v msk out =
     (case validate_buffers shape q k v out of
        None \<Rightarrow> None
      | Some (Some e) \<Rightarrow> Some (Inl e)
      | Some None \<Rightarrow>
          (case mask_validate msk (at_seq shape) of
             Some e \<Rightarrow> Some (Inl (MaskFailed e))
           | None \<Rightarrow>
               (case attention_strides shape of
                  None \<Rightarrow> None
                | Some (s_b, s_h, s_n) \<Rightarrow>
                    let scale = fo_div F (fo_one F) (fo_sqrt F (fo_nat F (at_dim shape))); seq = at_seq shape;
                        rows = List.product [0..<at_batch shape] (List.product [0..<at_heads shape] [0..<seq])
                    in if at_batch shape \<noteq> 0 \<and> at_heads shape \<noteq> 0 \<and> \<not> f32_vec_ok (seq * seq) then None
                       else Some (Inr (fold (\<lambda>(b, h, i). write_at (b * s_b + h * s_h + i * s_n)
                              (naive_row F q k v msk scale (b * s_b + h * s_h) seq s_n i)) rows out)))))"

definition naive_forward ::
  "'v float_ops \<Rightarrow> attention_shape \<Rightarrow> 'v list \<Rightarrow> 'v list \<Rightarrow> 'v list \<Rightarrow> 'v list \<Rightarrow> (attention_error + 'v list) option" where
  "naive_forward F shape q k v out = naive_forward_masked F shape q k v MaskNone out"

section \<open>The backward pass\<close>

text \<open>One row of the attention weights; a row whose sum is not a positive number is left undivided.\<close>

definition weight_row :: "'v float_ops \<Rightarrow> 'v list \<Rightarrow> 'v list \<Rightarrow> 'v \<Rightarrow> nat \<Rightarrow> nat \<Rightarrow> nat \<Rightarrow> nat \<Rightarrow> 'v list" where
  "weight_row F q k scale base n d i =
     (let row = map (\<lambda>j. fo_mul F (dot_rows F q k base d i j) scale) [0..<n];
          m = foldl (\<lambda>m x. if fo_less F m x then x else m) (fo_neg_inf F) row;
          e = map (\<lambda>x. fo_exp F (fo_sub F x m)) row;
          s = fo_sum F e
      in if fo_less F (fo_zero F) s \<and> fo_finite F s then map (\<lambda>x. fo_div F x s) e else e)"

text \<open>An element of a gradient: the values added to zero in turn.\<close>

definition accumulated :: "'v float_ops \<Rightarrow> nat \<Rightarrow> (nat \<Rightarrow> 'v) \<Rightarrow> 'v" where
  "accumulated F n f = fo_sum F (map f [0..<n])"

text \<open>The gradients of the rows of one head.\<close>

definition head_gradients ::
  "'v float_ops \<Rightarrow> 'v list \<Rightarrow> 'v list \<Rightarrow> 'v list \<Rightarrow> 'v list \<Rightarrow> 'v \<Rightarrow> nat \<Rightarrow> nat \<Rightarrow> nat \<Rightarrow> 'v list \<times> 'v list \<times> 'v list" where
  "head_gradients F q k v dout scale n d base =
     (let p = concat (map (weight_row F q k scale base n d) [0..<n]);
          dv = map (\<lambda>(j, dd). accumulated F n (\<lambda>i. fo_mul F (p ! (i * n + j)) (dout ! (base + i * d + dd)))) (List.product [0..<n] [0..<d]);
          dp = map (\<lambda>(i, j). dot_rows F dout v base d i j) (List.product [0..<n] [0..<n]);
          row_dot = map (\<lambda>i. fo_sum F (map (\<lambda>j. fo_mul F (p ! (i * n + j)) (dp ! (i * n + j))) [0..<n])) [0..<n];
          ds = map (\<lambda>(i, j). fo_mul F (p ! (i * n + j)) (fo_sub F (dp ! (i * n + j)) (row_dot ! i))) (List.product [0..<n] [0..<n]);
          dq = map (\<lambda>(i, dd). accumulated F n (\<lambda>j. fo_mul F (fo_mul F scale (ds ! (i * n + j))) (k ! (base + j * d + dd)))) (List.product [0..<n] [0..<d]);
          dk = map (\<lambda>(j, dd). accumulated F n (\<lambda>i. fo_mul F (fo_mul F scale (ds ! (i * n + j))) (q ! (base + i * d + dd)))) (List.product [0..<n] [0..<d])
      in (dq, dk, dv))"

definition flash_backward ::
  "'v float_ops \<Rightarrow> attention_shape \<Rightarrow> 'v list \<Rightarrow> 'v list \<Rightarrow> 'v list \<Rightarrow> 'v list \<Rightarrow> 'v list \<Rightarrow> 'v list \<Rightarrow> 'v list
    \<Rightarrow> (attention_error + 'v list \<times> 'v list \<times> 'v list) option" where
  "flash_backward F shape q k v dout dq dk dv =
     (case buffer_len shape of
        None \<Rightarrow> None
      | Some expected \<Rightarrow>
          (case check_buffers expected [(''q'', q), (''k'', k), (''v'', v), (''do'', dout)] of
             Some e \<Rightarrow> Some (Inl e)
           | None \<Rightarrow>
               if length dq \<noteq> expected \<or> length dk \<noteq> expected \<or> length dv \<noteq> expected
               then Some (Inl (OutputShapeMismatch expected (max (max (length dq) (length dk)) (length dv))))
               else if at_seq shape = 0 then Some (Inr (dq, dk, dv))
               else (case attention_strides shape of
                  None \<Rightarrow> None
                | Some (s_b, s_h, s_n) \<Rightarrow>
                    let n = at_seq shape; scale = fo_div F (fo_one F) (fo_sqrt F (fo_nat F (at_dim shape)));
                        zeros = (\<lambda>xs. replicate (length xs) (fo_zero F))
                    in if at_batch shape \<noteq> 0 \<and> at_heads shape \<noteq> 0 \<and> \<not> f32_vec_ok (n * n) then None
                       else Some (Inr (fold (\<lambda>(b, h) (dq, dk, dv).
                              let base = b * s_b + h * s_h; (gq, gk, gv) = head_gradients F q k v dout scale n s_n base
                              in (write_at base gq dq, write_at base gk dk, write_at base gv dv))
                            (List.product [0..<at_batch shape] [0..<at_heads shape]) (zeros dq, zeros dk, zeros dv))))))"

section \<open>Slices and loops\<close>

lemma length_write_at [simp]: "a + length ys \<le> length xs \<Longrightarrow> length (write_at a ys xs) = length xs"
  by (simp add: write_at_def)

lemma nth_write_at:
  assumes "a + length ys \<le> length xs" "i < length xs"
  shows "write_at a ys xs ! i = (if a \<le> i \<and> i < a + length ys then ys ! (i - a) else xs ! i)"
  using assms by (auto simp: write_at_def nth_append min_def not_less)

lemma take_drop_write_at:
  "a + length ys \<le> length xs \<Longrightarrow> n = length ys \<Longrightarrow> take n (drop a (write_at a ys xs)) = ys"
  by (simp add: write_at_def)

lemma slice_nth: "i < n \<Longrightarrow> a + n \<le> length xs \<Longrightarrow> take n (drop a xs) ! i = xs ! (a + i)"
  by simp

text \<open>Writing the rows of a matrix one after the other.\<close>

lemma row_range: "r < n \<Longrightarrow> r * d + d \<le> n * (d :: nat)"
  using mult_le_mono1[of "Suc r" n d] by simp

lemma row_position:
  assumes "c < d"
  shows "a * d \<le> r * d + c \<and> r * d + c < a * d + d \<longleftrightarrow> a = (r :: nat)"
proof
  assume h: "a * d \<le> r * d + c \<and> r * d + c < a * d + d"
  show "a = r"
  proof (rule ccontr)
    assume "a \<noteq> r"
    then consider "Suc r \<le> a" | "Suc a \<le> r" by linarith
    then show False using mult_le_mono1[of "Suc r" a d] mult_le_mono1[of "Suc a" r d] h assms by cases auto
  qed
qed (use assms in auto)

lemma write_rows:
  assumes "\<And>r. r < n \<Longrightarrow> length (f r) = d" "(p + n) * d \<le> length xs"
  shows "length (fold (\<lambda>r. write_at ((p + r) * d) (f r)) [0..<n] xs) = length xs
    \<and> (\<forall>r c. c < d \<and> r * d + c < length xs \<longrightarrow> fold (\<lambda>r. write_at ((p + r) * d) (f r)) [0..<n] xs ! (r * d + c) =
        (if p \<le> r \<and> r < p + n then f (r - p) ! c else xs ! (r * d + c)))"
  using assms
proof (induction n)
  case (Suc n)
  let ?ys = "fold (\<lambda>r. write_at ((p + r) * d) (f r)) [0..<n] xs"
  have ys: "length ?ys = length xs" "\<And>r c. c < d \<Longrightarrow> r * d + c < length xs \<Longrightarrow> ?ys ! (r * d + c) = (if p \<le> r \<and> r < p + n then f (r - p) ! c else xs ! (r * d + c))"
    using Suc by (auto simp: algebra_simps)
  have fit: "(p + n) * d + length (f n) \<le> length ?ys" using Suc.prems ys(1) by (simp add: algebra_simps)
  have "write_at ((p + n) * d) (f n) ?ys ! (r * d + c) = (if p \<le> r \<and> r < p + Suc n then f (r - p) ! c else xs ! (r * d + c))"
    if "c < d" "r * d + c < length xs" for r c
    using row_position[OF that(1), of "p + n" r] ys(2)[OF that] Suc.prems(1)[of n] that ys(1)
    by (auto simp: nth_write_at[OF fit] less_Suc_eq)
  then show ?case using ys(1) fit by simp
qed auto

text \<open>A loop over tiles with a step keeps an invariant and ends; with step 0 it never ends.\<close>

lemma tile_loop_invariant:
  assumes step: "0 < step"
    and body: "\<And>start st. start < seq \<Longrightarrow> P start st \<Longrightarrow> \<exists>st'. body start (min (start + step) seq) st = Some st' \<and> P (min (start + step) seq) st'"
  shows "start \<le> seq \<Longrightarrow> P start st \<Longrightarrow> \<exists>st'. tile_loop step seq body start st = Some st' \<and> P seq st'"
proof (induction "seq - start" arbitrary: start st rule: less_induct)
  case less
  show ?case
  proof (cases "start < seq")
    case True
    obtain st' where st': "body start (min (start + step) seq) st = Some st'" "P (min (start + step) seq) st'"
      using body[OF True less.prems(2)] by blast
    have "seq - min (start + step) seq < seq - start" using True step by auto
    from less.hyps[OF this _ st'(2)] show ?thesis using st'(1) True by (subst tile_loop.simps) simp
  next
    case False
    then show ?thesis using less.prems by (subst tile_loop.simps) simp
  qed
qed

lemma tile_loop_zero: "tile_loop step seq body s x = Some y \<Longrightarrow> step = 0 \<Longrightarrow> \<not> s < seq"
  by (rule tile_loop.raw_induct[where P = "\<lambda>step sq bd s x y. step = 0 \<longrightarrow> \<not> s < sq", rule_format])
    (auto split: if_splits option.splits, blast?)

section \<open>One row in exact arithmetic\<close>

abbreviation fins :: "(nat \<Rightarrow> real) \<Rightarrow> nat \<Rightarrow> fl list" where
  "fins f n \<equiv> map (\<lambda>i. Fin (f i)) [0..<n]"

text \<open>A row of scores in which the positions outside \<open>U\<close> are masked.\<close>

definition score_row :: "(nat \<Rightarrow> real) \<Rightarrow> (nat \<Rightarrow> bool) \<Rightarrow> nat \<Rightarrow> fl list" where
  "score_row s u n = map (\<lambda>c. if u c then Fin (s c) else NInf) [0..<n]"

lemma score_row_max:
  "\<exists>M. foldl (\<lambda>m x. if fl_less m x then x else m) NInf (score_row s u n) = (if \<exists>c<n. u c then Fin M else NInf)"
proof (cases "\<exists>c<n. u c")
  case True
  then obtain c where "c < n" "u c" by blast
  then have "score_row s u n ! c = Fin (s c)" "score_row s u n ! c \<in> set (score_row s u n)"
    by (simp_all add: score_row_def)
  then have "\<not> set (score_row s u n) \<subseteq> {NInf}" by auto
  moreover have "set (score_row s u n) \<subseteq> insert NInf (range Fin)" by (auto simp: score_row_def)
  ultimately show ?thesis using running_max_fin[of "score_row s u n" NInf] True by auto
next
  case False
  then have "set (score_row s u n) \<subseteq> {NInf}" by (auto simp: score_row_def)
  then show ?thesis using running_max_fin[of "score_row s u n" NInf] False by auto
qed

lemma score_row_weights:
  "map (\<lambda>x. fl_exp (fl_sub x (Fin M))) (score_row s u n) = fins (\<lambda>c. if u c then exp (s c - M) else 0) n"
  by (simp add: score_row_def)

lemma row_update_first:
  assumes "\<exists>c<n. u c"
  shows "\<exists>M. row_update exact (score_row s u n) NInf (Fin 0) (fins (\<lambda>_. 0) d)
    = (Fin M, Fin (\<Sum>c<n. if u c then exp (s c - M) else 0), fins (\<lambda>_. 0) d, fins (\<lambda>c. if u c then exp (s c - M) else 0) n)"
proof -
  obtain M where M: "foldl (\<lambda>m x. if fl_less m x then x else m) NInf (score_row s u n) = Fin M"
    using score_row_max[of s u n] assms by auto
  show ?thesis by (rule exI[of _ M]) (simp add: row_update_def M score_row_weights fo_sum_upt Let_def comp_def)
qed

lemma row_update_next:
  "\<exists>M'. row_update exact (score_row s u n) (Fin M) (Fin L) (fins ov d)
    = (Fin M', Fin (L * exp (M - M') + (\<Sum>c<n. if u c then exp (s c - M') else 0)), fins (\<lambda>x. ov x * exp (M - M')) d,
       fins (\<lambda>c. if u c then exp (s c - M') else 0) n)"
proof -
  obtain T where T: "foldl (\<lambda>m x. if fl_less m x then x else m) NInf (score_row s u n) = (if \<exists>c<n. u c then Fin T else NInf)"
    using score_row_max[of s u n] by blast
  let ?M = "if (\<exists>c<n. u c) \<and> M < T then T else M"
  have m: "(if fl_less (Fin M) (if \<exists>c<n. u c then Fin T else NInf) then (if \<exists>c<n. u c then Fin T else NInf) else Fin M) = Fin ?M"
    by auto
  have one: "fl_eq (Fin (exp (M - M'))) (Fin 1) \<longleftrightarrow> M' = M" for M' by auto
  show ?thesis
    by (rule exI[of _ ?M]) (simp add: row_update_def T m score_row_weights fo_sum_upt Let_def comp_def one)
qed

text \<open>A first tile without a visible key spoils the sum of the row.\<close>

lemma row_update_hidden:
  assumes "\<not> (\<exists>c<n. u c)" "0 < n"
  shows "fst (snd (row_update exact (score_row s u n) NInf (Fin 0) ov)) = NaN"
proof -
  obtain T where T: "foldl (\<lambda>m x. if fl_less m x then x else m) NInf (score_row s u n) = NInf"
    using score_row_max[of s u n] assms by auto
  have "map (\<lambda>x. fl_exp (fl_sub x NInf)) (score_row s u n) = replicate n NaN"
    using assms by (intro nth_equalityI) (auto simp: score_row_def)
  then show ?thesis using assms(2) by (simp add: row_update_def T fo_sum_def foldl_fl_add_mem)
qed

lemma row_update_spoilt: "fst (snd (row_update exact s m NaN ov)) = NaN"
  by (simp add: row_update_def Let_def)

lemma row_update_lengths:
  "row_update F s m l ov = (m', l', ov', p) \<Longrightarrow> length ov' = length ov \<and> length p = length s"
  by (auto simp: row_update_def Let_def)

lemma finish_row_exact:
  "finish_row exact (Fin l) (fins ov d) = (if 0 < l then fins (\<lambda>x. ov x / l) d else replicate d NaN)"
  "finish_row exact NaN (replicate d x) = replicate d NaN" "length (finish_row F y xs) = length xs"
  by (auto simp: finish_row_def intro!: nth_equalityI)

lemma finish_row_NaN: "finish_row exact NaN xs = replicate (length xs) NaN"
  by (auto simp: finish_row_def intro!: nth_equalityI)

section \<open>The tiles\<close>

text \<open>
  What the documentation of the \<open>gemm\<close> crate says, in exact arithmetic, for a destination with
  contiguous rows: every element whose operands are finite is the sum of products, scaled, and
  the buffer keeps its length.
\<close>

definition gemm_exact :: "fl gemm_fn \<Rightarrow> bool" where
  "gemm_exact gemm \<longleftrightarrow>
     (\<forall>m n k dst rs rd lhs lcs lrs rhs rcs rrs al be. length (gemm m n k dst 1 rs rd lhs lcs lrs rhs rcs rrs al be) = length dst)
   \<and> (\<forall>m n k dst rs rd lhs lcs lrs rhs rcs rrs al be i j a b c.
        n \<le> rs \<and> (m - 1) * rs + n \<le> length dst \<and> i < m \<and> j < n
        \<and> (\<forall>x<k. i * lrs + x * lcs < length lhs \<and> lhs ! (i * lrs + x * lcs) = Fin (a x))
        \<and> (\<forall>x<k. x * rrs + j * rcs < length rhs \<and> rhs ! (x * rrs + j * rcs) = Fin (b x))
        \<and> (rd \<longrightarrow> dst ! (i * rs + j) = Fin c)
        \<longrightarrow> gemm m n k dst 1 rs rd lhs lcs lrs rhs rcs rrs (Fin al) (Fin be) ! (i * rs + j)
            = Fin ((if rd then al * c else 0) + be * (\<Sum>x<k. a x * b x)))"

lemma gemm_length: "gemm_exact gemm \<Longrightarrow> length (gemm m n k dst 1 rs rd lhs lcs lrs rhs rcs rrs al be) = length dst"
  by (simp add: gemm_exact_def)

lemma gemm_elem:
  assumes "gemm_exact gemm" "n \<le> rs" "(m - 1) * rs + n \<le> length dst" "i < m" "j < n"
    "\<And>x. x < k \<Longrightarrow> i * lrs + x * lcs < length lhs \<and> lhs ! (i * lrs + x * lcs) = Fin (a x)"
    "\<And>x. x < k \<Longrightarrow> x * rrs + j * rcs < length rhs \<and> rhs ! (x * rrs + j * rcs) = Fin (b x)"
    "rd \<Longrightarrow> dst ! (i * rs + j) = Fin c"
  shows "gemm m n k dst 1 rs rd lhs lcs lrs rhs rcs rrs (Fin al) (Fin be) ! (i * rs + j)
    = Fin ((if rd then al * c else 0) + be * (\<Sum>x<k. a x * b x))"
  by (rule assms(1)[unfolded gemm_exact_def, THEN conjunct2, rule_format]) (use assms(2-) in blast)

text \<open>A buffer that holds, from \<open>base\<close> on, \<open>n\<close> rows of \<open>d\<close> real numbers.\<close>

definition rows_are :: "fl list \<Rightarrow> nat \<Rightarrow> nat \<Rightarrow> nat \<Rightarrow> (nat \<Rightarrow> nat \<Rightarrow> real) \<Rightarrow> bool" where
  "rows_are xs base n d f \<longleftrightarrow> base + n * d \<le> length xs \<and> (\<forall>i<n. \<forall>x<d. xs ! (base + i * d + x) = Fin (f i x))"

definition score_of :: "(nat \<Rightarrow> nat \<Rightarrow> real) \<Rightarrow> (nat \<Rightarrow> nat \<Rightarrow> real) \<Rightarrow> nat \<Rightarrow> real \<Rightarrow> nat \<Rightarrow> nat \<Rightarrow> real" where
  "score_of Q K d scale i j = (\<Sum>x<d. Q i x * K j x) * scale"

abbreviation visible :: "mask \<Rightarrow> nat \<Rightarrow> nat \<Rightarrow> bool" where
  "visible msk i j \<equiv> \<not> is_masked msk i j"

lemma rows_are_nth:
  assumes "rows_are xs base n d f" "i < n" "x < d"
  shows "base + i * d + x < length xs" "xs ! (base + i * d + x) = Fin (f i x)"
  using assms row_range[of i n d] by (auto simp: rows_are_def)

lemma rows_are_drop:
  assumes "rows_are xs base n d f" "p + i < n" "x < d"
  shows "i * d + x < length (drop (base + p * d) xs)" "drop (base + p * d) xs ! (i * d + x) = Fin (f (p + i) x)"
proof -
  have lt: "base + p * d + (i * d + x) < length xs" and eq: "xs ! (base + p * d + (i * d + x)) = Fin (f (p + i) x)"
    using rows_are_nth[OF assms] by (simp_all add: algebra_simps)
  then show "i * d + x < length (drop (base + p * d) xs)" by simp
  show "drop (base + p * d) xs ! (i * d + x) = Fin (f (p + i) x)" using lt eq by (subst nth_drop) simp_all
qed

lemma score_tile:
  assumes gemm: "gemm_exact gemm" and q: "rows_are q base n d Q" and k: "rows_are k base n d K"
    and r: "r < m" "c < w" and fit: "qi + m \<le> n" "kj + w \<le> n" and s: "length s = m * w"
  shows "sgemm_score_tile exact gemm m w d (Fin scale) (drop (base + qi * d) q) d (drop (base + kj * d) k) d s w ! (r * w + c)
    = Fin (score_of Q K d scale (qi + r) (kj + c))"
proof -
  have A: "r * d + x * 1 < length (drop (base + qi * d) q) \<and> drop (base + qi * d) q ! (r * d + x * 1) = Fin (Q (qi + r) x)" if "x < d" for x
    using rows_are_drop[OF q, of qi r] fit r that by simp
  have B: "x * 1 + c * d < length (drop (base + kj * d) k) \<and> drop (base + kj * d) k ! (x * 1 + c * d) = Fin (K (kj + c) x)" if "x < d" for x
    using rows_are_drop[OF k, of kj c] fit r that by (simp add: add.commute)
  have "(m - 1) * w + w \<le> length s" using r s by (cases m) simp_all
  then have "gemm m w d s 1 w False (drop (base + qi * d) q) 1 d (drop (base + kj * d) k) d 1 (Fin 0) (Fin scale) ! (r * w + c)
      = Fin ((if False then 0 * 0 else 0) + scale * (\<Sum>x<d. Q (qi + r) x * K (kj + c) x))"
    by (intro gemm_elem[OF gemm]) (use A B r in auto)
  then show ?thesis by (simp add: sgemm_score_tile_def score_of_def mult.commute)
qed

lemma mask_tile_nth:
  assumes "length s = m * w" "r < m" "c < w"
  shows "mask_tile exact msk qi kj w s ! (r * w + c) = (if visible msk (qi + r) (kj + c) then s ! (r * w + c) else NInf)"
proof -
  have "r * w + c < m * w" using row_range[OF assms(2), of w] assms(3) by simp
  moreover have "(r * w + c) div w = r" "(r * w + c) mod w = c" using assms(3) by auto
  ultimately show ?thesis using assms(1) by (cases msk) (auto simp: mask_tile_def nth_enumerate_eq)
qed

lemma length_mask_tile [simp]: "length (mask_tile F msk qi kj w s) = length s"
  by (simp add: mask_tile_def)

lemma slice_write_other:
  assumes "r \<noteq> a" "length ys = d" "a * d + d \<le> length xs" "r * d + d \<le> length xs"
  shows "take d (drop (r * d) (write_at (a * d) ys xs)) = take d (drop (r * d) xs)"
proof (rule nth_equalityI)
  fix i assume "i < length (take d (drop (r * d) (write_at (a * d) ys xs)))"
  then have "i < d" by simp
  then show "take d (drop (r * d) (write_at (a * d) ys xs)) ! i = take d (drop (r * d) xs) ! i"
    using row_position[of i d a r] assms by (auto simp: nth_write_at)
qed (use assms in simp)

lemma flash_rows:
  fixes sc :: "'v scratch" and F :: "'v float_ops"
  assumes len: "N \<le> length (m_buf sc)" "N \<le> length (l_buf sc)" "N * w \<le> length (s_buf sc)" "N * w \<le> length (p_buf sc)"
    "N * d \<le> length (o_buf sc)"
  defines "res \<equiv> \<lambda>r. row_update F (take w (drop (r * w) (s_buf sc))) (m_buf sc ! r) (l_buf sc ! r) (take d (drop (r * d) (o_buf sc)))"
  shows "n \<le> N \<Longrightarrow> (let sc' = fold (flash_row F d w) [0..<n] sc in
     s_buf sc' = s_buf sc \<and> length (m_buf sc') = length (m_buf sc) \<and> length (l_buf sc') = length (l_buf sc)
     \<and> length (p_buf sc') = length (p_buf sc) \<and> length (o_buf sc') = length (o_buf sc)
     \<and> (\<forall>r < N. m_buf sc' ! r = (if r < n then fst (res r) else m_buf sc ! r)
        \<and> l_buf sc' ! r = (if r < n then fst (snd (res r)) else l_buf sc ! r)
        \<and> take d (drop (r * d) (o_buf sc')) = (if r < n then fst (snd (snd (res r))) else take d (drop (r * d) (o_buf sc)))
        \<and> (r < n \<longrightarrow> take w (drop (r * w) (p_buf sc')) = snd (snd (snd (res r))))))"
proof (induction n)
  case 0
  then show ?case by simp
next
  case (Suc n)
  let ?sc = "fold (flash_row F d w) [0..<n] sc"
  note IH = Suc.IH[unfolded Let_def]
  have n: "n < N" using Suc.prems by simp
  obtain m l ov p where res: "res n = (m, l, ov, p)" by (metis prod_cases4)
  have fit: "n * w + w \<le> length (s_buf sc)" "n * w + w \<le> length (p_buf sc)" "n * d + d \<le> length (o_buf sc)"
    using row_range[OF n, of w] row_range[OF n, of d] len by linarith+
  have lens: "length ov = d" "length p = w"
    using row_update_lengths[OF res[unfolded res_def]] fit by simp_all
  have upd: "flash_row F d w n ?sc = ?sc\<lparr>p_buf := write_at (n * w) p (p_buf ?sc), o_buf := write_at (n * d) ov (o_buf ?sc),
      m_buf := (m_buf ?sc)[n := m], l_buf := (l_buf ?sc)[n := l]\<rparr>"
    using IH n res by (simp add: flash_row_def res_def)
  have rows: "r * w + w \<le> length (p_buf sc)" "r * d + d \<le> length (o_buf sc)" if "r < N" for r
    using row_range[OF that, of w] row_range[OF that, of d] len by linarith+
  show ?case
    using IH n len fit lens res rows
    by (auto simp: upd Let_def nth_list_update take_drop_write_at slice_write_other less_Suc_eq)
qed

text \<open>The weight of a key in a row whose statistics refer to \<open>M\<close>, and what a row holds after the first \<open>kj\<close> keys.\<close>

definition weight :: "mask \<Rightarrow> (nat \<Rightarrow> nat \<Rightarrow> real) \<Rightarrow> nat \<Rightarrow> real \<Rightarrow> nat \<Rightarrow> real" where
  "weight msk s i M j = (if visible msk i j then exp (s i j - M) else 0)"

definition row_inv ::
  "mask \<Rightarrow> (nat \<Rightarrow> nat \<Rightarrow> real) \<Rightarrow> (nat \<Rightarrow> nat \<Rightarrow> real) \<Rightarrow> nat \<Rightarrow> nat \<Rightarrow> nat \<Rightarrow> nat \<Rightarrow> fl \<Rightarrow> fl \<Rightarrow> fl list \<Rightarrow> bool" where
  "row_inv msk s V d first i kj m l ov \<longleftrightarrow>
     (if kj = 0 then m = NInf \<and> l = Fin 0 \<and> ov = fins (\<lambda>_. 0) d
      else if \<exists>j<first. visible msk i j
        then \<exists>M. m = Fin M \<and> l = Fin (\<Sum>j<kj. weight msk s i M j) \<and> ov = fins (\<lambda>x. \<Sum>j<kj. weight msk s i M j * V j x) d
        else l = NaN)"

lemma sum_split: "(\<Sum>j<a + b. f j) = (\<Sum>j<a. f j) + (\<Sum>c<b. f (a + c :: nat) :: real)"
  by (induction b) (simp_all add: add.assoc)

lemma weight_shift: "weight msk s i M j * exp (M - M') = weight msk s i M' j"
  by (simp add: weight_def flip: exp_add)

lemma row_step:
  assumes inv: "row_inv msk s V d first i kj m l ov" and w: "0 < w" "kj = 0 \<Longrightarrow> w = first"
  defines "res \<equiv> row_update exact (score_row (\<lambda>c. s i (kj + c)) (\<lambda>c. visible msk i (kj + c)) w) m l ov"
  shows "if \<exists>j<first. visible msk i j
    then \<exists>M. res = (Fin M, Fin (\<Sum>j<kj + w. weight msk s i M j), fins (\<lambda>x. \<Sum>j<kj. weight msk s i M j * V j x) d,
               fins (\<lambda>c. weight msk s i M (kj + c)) w)
    else fst (snd res) = NaN"
proof (cases "kj = 0")
  case True
  then have m: "m = NInf" "l = Fin 0" "ov = fins (\<lambda>_. 0) d" using inv by (simp_all add: row_inv_def)
  show ?thesis
  proof (cases "\<exists>j<first. visible msk i j")
    case vis: True
    then have "\<exists>c<w. visible msk i (kj + c)" using True w(2) by simp
    from row_update_first[OF this, of "\<lambda>c. s i (kj + c)" d] show ?thesis
      unfolding res_def m if_P[OF vis] unfolding True by (simp add: weight_def cong: if_cong)
  next
    case False
    then have "\<not> (\<exists>c<w. visible msk i (kj + c))" using True w(2) by simp
    from row_update_hidden[OF this w(1)] show ?thesis unfolding res_def m if_not_P[OF False] .
  qed
next
  case kj: False
  show ?thesis
  proof (cases "\<exists>j<first. visible msk i j")
    case True
    then obtain M where M: "m = Fin M" "l = Fin (\<Sum>j<kj. weight msk s i M j)" "ov = fins (\<lambda>x. \<Sum>j<kj. weight msk s i M j * V j x) d"
      using inv kj unfolding row_inv_def by auto
    obtain M' where "res = (Fin M', Fin ((\<Sum>j<kj. weight msk s i M j) * exp (M - M') + (\<Sum>c<w. if visible msk i (kj + c) then exp (s i (kj + c) - M') else 0)),
        fins (\<lambda>x. (\<Sum>j<kj. weight msk s i M j * V j x) * exp (M - M')) d,
        fins (\<lambda>c. if visible msk i (kj + c) then exp (s i (kj + c) - M') else 0) w)"
      using row_update_next[of "\<lambda>c. s i (kj + c)" "\<lambda>c. visible msk i (kj + c)" w M "\<Sum>j<kj. weight msk s i M j"
          "\<lambda>x. \<Sum>j<kj. weight msk s i M j * V j x" d] unfolding res_def M by blast
    moreover have "weight msk s i M j * V j x * exp (M - M') = weight msk s i M' j * V j x" for j x
      using weight_shift[of msk s i M j M'] by (simp add: algebra_simps)
    ultimately have "res = (Fin M', Fin (\<Sum>j<kj + w. weight msk s i M' j), fins (\<lambda>x. \<Sum>j<kj. weight msk s i M' j * V j x) d,
        fins (\<lambda>c. weight msk s i M' (kj + c)) w)"
      by (simp add: sum_split sum_distrib_right weight_shift) (simp add: weight_def)
    then show ?thesis using True by auto
  next
    case False
    then have "l = NaN" using inv kj by (simp add: row_inv_def)
    then show ?thesis unfolding if_not_P[OF False] res_def by (simp add: row_update_spoilt)
  qed
qed

definition tile_inv ::
  "mask \<Rightarrow> (nat \<Rightarrow> nat \<Rightarrow> real) \<Rightarrow> (nat \<Rightarrow> nat \<Rightarrow> real) \<Rightarrow> nat \<Rightarrow> nat \<Rightarrow> nat \<Rightarrow> nat \<Rightarrow> nat \<Rightarrow> nat \<Rightarrow> nat \<Rightarrow> fl scratch \<Rightarrow> bool" where
  "tile_inv msk s V d br bc n qi m kj sc \<longleftrightarrow>
     length (s_buf sc) = br * bc \<and> length (p_buf sc) = br * bc \<and> length (o_buf sc) = br * d \<and> length (m_buf sc) = br \<and> length (l_buf sc) = br
     \<and> (\<forall>r<m. row_inv msk s V d (min bc n) (qi + r) kj (m_buf sc ! r) (l_buf sc ! r) (take d (drop (r * d) (o_buf sc))))"

lemma slice_write_front:
  assumes "r < m" "length ys = m * w" "m * w \<le> length xs"
  shows "take w (drop (r * w) (write_at 0 ys xs)) = take w (drop (r * w) ys)"
  using row_range[OF assms(1), of w] assms(2,3) by (simp add: write_at_def)

lemma score_slice:
  assumes "length ys = m * w" "r < m" "\<And>c. c < w \<Longrightarrow> ys ! (r * w + c) = (if u c then Fin (s c) else NInf)"
  shows "take w (drop (r * w) ys) = score_row s u w"
  using row_range[OF assms(2), of w] assms by (intro nth_equalityI) (auto simp: score_row_def)

lemma key_tile_inv:
  fixes a :: "fl flash_args"
  assumes gemm: "gemm_exact gemm" and a: "fa_scale a = Fin scale" "fa_dim a = d" "fa_stride a = d"
    and q: "rows_are q base n d Q" and k: "rows_are k base n d K" and v: "rows_are v base n d V"
    and kj: "kj < n" and bc: "0 < bc" and m: "m \<le> br" "qi + m \<le> n"
    and inv: "tile_inv msk (score_of Q K d scale) V d br bc n qi m kj sc"
  shows "tile_inv msk (score_of Q K d scale) V d br bc n qi m (min (kj + bc) n)
    (key_tile exact gemm q k v msk a base qi m kj (min (kj + bc) n) sc)"
proof -
  let ?s = "score_of Q K d scale"
  define w where "w = min (kj + bc) n - kj"
  have w: "0 < w" "w \<le> bc" "kj + w = min (kj + bc) n" "kj + w \<le> n" "kj = 0 \<Longrightarrow> w = min bc n"
    using kj bc by (auto simp: w_def)
  have mw: "m * w \<le> br * bc" "m * d \<le> br * d" using m(1) w(2) by (simp_all add: mult_le_mono)
  have len: "length (s_buf sc) = br * bc" "length (p_buf sc) = br * bc" "length (o_buf sc) = br * d" "length (m_buf sc) = br" "length (l_buf sc) = br"
    using inv by (simp_all add: tile_inv_def)
  define s0 where "s0 = sgemm_score_tile exact gemm m w d (Fin scale) (drop (base + qi * d) q) d (drop (base + kj * d) k) d
      (take (m * w) (s_buf sc)) w"
  have s0: "length s0 = m * w" unfolding s0_def sgemm_score_tile_def gemm_length[OF gemm] using len mw by simp
  define sc1 where "sc1 = sc\<lparr>s_buf := write_at 0 (mask_tile exact msk qi kj w s0) (s_buf sc)\<rparr>"
  have srow: "take w (drop (r * w) (s_buf sc1)) = score_row (\<lambda>c. ?s (qi + r) (kj + c)) (\<lambda>c. visible msk (qi + r) (kj + c)) w"
    if r: "r < m" for r
  proof -
    have "mask_tile exact msk qi kj w s0 ! (r * w + c) = (if visible msk (qi + r) (kj + c) then Fin (?s (qi + r) (kj + c)) else NInf)"
      if "c < w" for c
      using mask_tile_nth[OF s0 r that] score_tile[OF gemm q k r that m(2) w(4)] len mw unfolding s0_def by simp
    then have "take w (drop (r * w) (mask_tile exact msk qi kj w s0)) = score_row (\<lambda>c. ?s (qi + r) (kj + c)) (\<lambda>c. visible msk (qi + r) (kj + c)) w"
      by (intro score_slice[OF _ r]) (simp_all add: s0)
    then show ?thesis using slice_write_front[OF r, of "mask_tile exact msk qi kj w s0" w] s0 len mw by (simp add: sc1_def)
  qed
  define sc2 where "sc2 = fold (flash_row exact d w) [0..<m] sc1"
  define res where "res r = row_update exact (take w (drop (r * w) (s_buf sc1))) (m_buf sc1 ! r) (l_buf sc1 ! r) (take d (drop (r * d) (o_buf sc1)))" for r
  have len1: "length (s_buf sc1) = br * bc" using s0 len mw by (simp add: sc1_def)
  have sc2: "length (s_buf sc2) = br * bc" "length (p_buf sc2) = br * bc" "length (o_buf sc2) = br * d" "length (m_buf sc2) = br" "length (l_buf sc2) = br"
    "\<And>r. r < m \<Longrightarrow> m_buf sc2 ! r = fst (res r) \<and> l_buf sc2 ! r = fst (snd (res r))
       \<and> take d (drop (r * d) (o_buf sc2)) = fst (snd (snd (res r))) \<and> take w (drop (r * w) (p_buf sc2)) = snd (snd (snd (res r)))"
    using flash_rows[of m sc1 w d m exact] len len1 m(1) mw unfolding Let_def sc2_def[symmetric] res_def[symmetric]
    by (simp_all add: sc1_def)
  define o1 where "o1 = sgemm_value_accumulate exact gemm m d w (take (m * w) (p_buf sc2)) w (drop (base + kj * d) v) d (take (m * d) (o_buf sc2)) d"
  have o1: "length o1 = m * d" unfolding o1_def sgemm_value_accumulate_def gemm_length[OF gemm] using sc2 mw by simp
  have kt: "key_tile exact gemm q k v msk a base qi m kj (min (kj + bc) n) sc = sc2\<lparr>o_buf := write_at 0 o1 (o_buf sc2)\<rparr>"
    by (simp add: key_tile_def Let_def a w_def[symmetric] s0_def[symmetric] sc1_def[symmetric] sc2_def[symmetric] o1_def[symmetric])
  have row: "row_inv msk ?s V d (min bc n) (qi + r) (kj + w) (m_buf sc2 ! r) (l_buf sc2 ! r) (take d (drop (r * d) o1))" if r: "r < m" for r
  proof (cases "\<exists>j<min bc n. visible msk (qi + r) j")
    case True
    have "row_inv msk ?s V d (min bc n) (qi + r) kj (m_buf sc ! r) (l_buf sc ! r) (take d (drop (r * d) (o_buf sc)))"
      using inv r by (simp add: tile_inv_def)
    from row_step[OF this w(1,5)] True srow[OF r] obtain M where M: "res r = (Fin M, Fin (\<Sum>j<kj + w. weight msk ?s (qi + r) M j),
        fins (\<lambda>x. \<Sum>j<kj. weight msk ?s (qi + r) M j * V j x) d, fins (\<lambda>c. weight msk ?s (qi + r) M (kj + c)) w)"
      by (auto simp: res_def sc1_def)
    have "o1 ! (r * d + x) = Fin (\<Sum>j<kj + w. weight msk ?s (qi + r) M j * V j x)" if x: "x < d" for x
    proof -
      have le: "r * w + w \<le> m * w" "r * d + d \<le> m * d" using row_range[OF r] by blast+
      have p: "take (m * w) (p_buf sc2) ! (r * w + c) = Fin (weight msk ?s (qi + r) M (kj + c))" if "c < w" for c
        using slice_nth[OF that, of "r * w" "p_buf sc2"] sc2(2) sc2(6)[OF r] M le mw that by simp
      have ov: "take (m * d) (o_buf sc2) ! (r * d + x) = Fin (\<Sum>j<kj. weight msk ?s (qi + r) M j * V j x)"
        using slice_nth[OF x, of "r * d" "o_buf sc2"] sc2(3) sc2(6)[OF r] M le mw x by simp
      have "gemm m d w (take (m * d) (o_buf sc2)) 1 d True (take (m * w) (p_buf sc2)) 1 w (drop (base + kj * d) v) 1 d (Fin 1) (Fin 1) ! (r * d + x)
        = Fin ((if True then 1 * (\<Sum>j<kj. weight msk ?s (qi + r) M j * V j x) else 0) + 1 * (\<Sum>c<w. weight msk ?s (qi + r) M (kj + c) * V (kj + c) x))"
      proof (intro gemm_elem[OF gemm])
        show "(m - 1) * d + d \<le> length (take (m * d) (o_buf sc2))" using r sc2(3) mw by (cases m) simp_all
        show "r * w + c * 1 < length (take (m * w) (p_buf sc2)) \<and> take (m * w) (p_buf sc2) ! (r * w + c * 1) = Fin (weight msk ?s (qi + r) M (kj + c))"
          if "c < w" for c using p[OF that] sc2(2) mw le that by simp
        show "c * d + x * 1 < length (drop (base + kj * d) v) \<and> drop (base + kj * d) v ! (c * d + x * 1) = Fin (V (kj + c) x)"
          if "c < w" for c using rows_are_drop[OF v, of kj c x] w(4) that x by simp
      qed (use r x ov in simp_all)
      then show ?thesis by (simp add: o1_def sgemm_value_accumulate_def sum_split)
    qed
    then have "take d (drop (r * d) o1) = fins (\<lambda>x. \<Sum>j<kj + w. weight msk ?s (qi + r) M j * V j x) d"
      using row_range[OF r, of d] o1 by (intro nth_equalityI) (simp_all add: nth_drop[OF add_leD1[of "r * d" d]])
    then show ?thesis using sc2(6)[OF r] M True w(1) by (auto simp: row_inv_def)
  next
    case False
    have "row_inv msk ?s V d (min bc n) (qi + r) kj (m_buf sc ! r) (l_buf sc ! r) (take d (drop (r * d) (o_buf sc)))"
      using inv r by (simp add: tile_inv_def)
    from row_step[OF this w(1,5)] False srow[OF r] have "fst (snd (res r)) = NaN" by (simp add: res_def sc1_def)
    then show ?thesis using sc2(6)[OF r] False w(1) by (simp add: row_inv_def)
  qed
  show ?thesis
    unfolding kt unfolding w(3)[symmetric] tile_inv_def using sc2(1-5) o1 mw row slice_write_front[OF _ o1] by simp
qed

section \<open>The forward pass is attention\<close>

text \<open>
  The value of attention: the mean of the values of the visible keys, weighted by the exponentials of the
  scores.
\<close>

definition attention_value ::
  "mask \<Rightarrow> (nat \<Rightarrow> nat \<Rightarrow> real) \<Rightarrow> (nat \<Rightarrow> nat \<Rightarrow> real) \<Rightarrow> nat \<Rightarrow> nat \<Rightarrow> nat \<Rightarrow> real" where
  "attention_value msk s V n i x =
     (\<Sum>j<n. weight msk s i 0 j * V j x) / (\<Sum>j<n. weight msk s i 0 j)"

definition output_row ::
  "mask \<Rightarrow> (nat \<Rightarrow> nat \<Rightarrow> real) \<Rightarrow> (nat \<Rightarrow> nat \<Rightarrow> real) \<Rightarrow> nat \<Rightarrow> nat \<Rightarrow> nat \<Rightarrow> nat \<Rightarrow> fl list" where
  "output_row msk s V d n first i =
     (if \<exists>j<first. visible msk i j then fins (attention_value msk s V n i) d else replicate d NaN)"

lemma length_output_row [simp]: "length (output_row msk s V d n first i) = d"
  by (simp add: output_row_def)

lemma weight_pos:
  assumes "visible msk i j" "j < n"
  shows "0 < (\<Sum>j<n. weight msk s i M j)"
proof -
  have "0 < weight msk s i M j" using assms by (simp add: weight_def)
  also have "\<dots> \<le> (\<Sum>j<n. weight msk s i M j)" using assms(2) by (intro member_le_sum) (auto simp: weight_def)
  finally show ?thesis .
qed

lemma weighted_mean_shift:
  "(\<Sum>j<n. weight msk s i M j * f j) / (\<Sum>j<n. weight msk s i M j) = (\<Sum>j<n. weight msk s i 0 j * f j) / (\<Sum>j<n. weight msk s i 0 j)"
proof -
  have w: "weight msk s i M j = weight msk s i 0 j * exp (- M)" for j using weight_shift[of msk s i 0 j M] by simp
  have "(\<Sum>j<n. weight msk s i M j * f j) = (\<Sum>j<n. weight msk s i 0 j * f j) * exp (- M)"
    "(\<Sum>j<n. weight msk s i M j) = (\<Sum>j<n. weight msk s i 0 j) * exp (- M)"
    unfolding sum_distrib_right by (simp_all add: w mult_ac)
  then show ?thesis by simp
qed

lemma row_inv_finish:
  assumes inv: "row_inv msk s V d first i n m l ov" and n: "0 < n" "first \<le> n" and ov: "length ov = d"
  shows "finish_row exact l ov = output_row msk s V d n first i"
proof (cases "\<exists>j<first. visible msk i j")
  case True
  then obtain M where M: "l = Fin (\<Sum>j<n. weight msk s i M j)" "ov = fins (\<lambda>x. \<Sum>j<n. weight msk s i M j * V j x) d"
    using inv n(1) unfolding row_inv_def by auto
  have "0 < (\<Sum>j<n. weight msk s i M j)" using True n(2) weight_pos[of msk i] by (meson less_le_trans)
  then show ?thesis using True unfolding M
    by (simp add: finish_row_exact output_row_def attention_value_def weighted_mean_shift[where M = M])
next
  case False
  have "l = NaN" using inv n(1) unfolding row_inv_def if_not_P[OF False] by simp
  then show ?thesis using ov unfolding output_row_def if_not_P[OF False] by (simp add: finish_row_NaN)
qed

definition slab_inv :: "(nat \<Rightarrow> fl list) \<Rightarrow> nat \<Rightarrow> nat \<Rightarrow> nat \<Rightarrow> nat \<Rightarrow> nat \<Rightarrow> fl scratch \<times> fl list \<Rightarrow> bool" where
  "slab_inv R d br bc n qi st \<longleftrightarrow> (case st of (sc, slab) \<Rightarrow>
     length (s_buf sc) = br * bc \<and> length (p_buf sc) = br * bc \<and> length (o_buf sc) = br * d \<and> length (m_buf sc) = br \<and> length (l_buf sc) = br
     \<and> length slab = n * d \<and> (\<forall>i<qi. \<forall>x<d. slab ! (i * d + x) = R i ! x))"

lemma flash_head:
  fixes a :: "fl flash_args"
  assumes gemm: "gemm_exact gemm" and a: "fa_scale a = Fin scale" "fa_dim a = d" "fa_stride a = d" "fa_seq a = n"
    and q: "rows_are q base n d Q" and k: "rows_are k base n d K" and v: "rows_are v base n d V"
    and br: "0 < fa_br a" and bc: "0 < fa_bc a" and n: "0 < n" and slab: "length slab = n * d"
    and fit: "f32_vec_ok (fa_br a * fa_bc a)" "f32_vec_ok (fa_br a * d)" "f32_vec_ok (fa_br a)"
  shows "\<exists>slab'. flash_forward_bh exact gemm q k v slab msk a base = Some slab' \<and> length slab' = n * d
    \<and> (\<forall>i<n. \<forall>x<d. slab' ! (i * d + x) = output_row msk (score_of Q K d scale) V d n (min (fa_bc a) n) i ! x)"
proof -
  let ?s = "score_of Q K d scale"
  let ?br = "fa_br a" and ?bc = "fa_bc a"
  let ?R = "output_row msk ?s V d n (min (fa_bc a) n)"
  let ?body = "query_tile exact gemm q k v msk a base"
  let ?P = "slab_inv ?R d ?br ?bc n"
  let ?init = "(\<lparr>s_buf = replicate (?br * ?bc) (Fin 0), p_buf = replicate (?br * ?bc) (Fin 0), o_buf = replicate (?br * d) (Fin 0),
      m_buf = replicate ?br NInf, l_buf = replicate ?br (Fin 0)\<rparr>, slab)"
  have step: "\<exists>st'. ?body qi (min (qi + ?br) n) st = Some st' \<and> ?P (min (qi + ?br) n) st'" if qi: "qi < n" and inv: "?P qi st" for qi st
  proof -
    obtain sc sl where st: "st = (sc, sl)" by fastforce
    define m where "m = min (qi + ?br) n - qi"
    have m: "m \<le> ?br" "qi + m \<le> n" "qi + m = min (qi + ?br) n" using qi by (auto simp: m_def)
    note len = inv[unfolded slab_inv_def st prod.case]
    have md: "m * d \<le> ?br * d" using m(1) by (simp add: mult_le_mono1)
    define sc0 where "sc0 = sc\<lparr>m_buf := write_at 0 (replicate m NInf) (m_buf sc), l_buf := write_at 0 (replicate m (Fin 0)) (l_buf sc),
        o_buf := write_at 0 (replicate (m * d) (Fin 0)) (o_buf sc)\<rparr>"
    have "take d (drop (r * d) (o_buf sc0)) = fins (\<lambda>_. 0) d" if "r < m" for r
      using slice_write_front[OF that, of "replicate (m * d) (Fin 0)" d "o_buf sc"] len md row_range[OF that, of d]
      by (simp add: sc0_def map_replicate_const)
    then have "tile_inv msk ?s V d ?br ?bc n qi m 0 sc0"
      using len m(1) md by (auto simp: tile_inv_def row_inv_def sc0_def nth_write_at)
    moreover have "\<exists>st'. Some (key_tile exact gemm q k v msk a base qi m start (min (start + ?bc) n) st) = Some st'
        \<and> tile_inv msk ?s V d ?br ?bc n qi m (min (start + ?bc) n) st'"
      if "start < n" "tile_inv msk ?s V d ?br ?bc n qi m start st" for start st
      using key_tile_inv[OF gemm a(1-3) q k v that(1) bc m(1,2) that(2)] by blast
    ultimately obtain sc' where sc': "tile_loop ?bc n (\<lambda>kj kj_end sc. Some (key_tile exact gemm q k v msk a base qi m kj kj_end sc)) 0 sc0 = Some sc'"
      "tile_inv msk ?s V d ?br ?bc n qi m n sc'"
      using tile_loop_invariant[OF bc, of n "tile_inv msk ?s V d ?br ?bc n qi m"
          "\<lambda>kj kj_end sc. Some (key_tile exact gemm q k v msk a base qi m kj kj_end sc)" 0 sc0] by blast
    let ?f = "\<lambda>r. finish_row exact (l_buf sc' ! r) (take d (drop (r * d) (o_buf sc')))"
    let ?sl = "fold (\<lambda>r. write_at ((qi + r) * d) (?f r)) [0..<m] sl"
    have fin: "?f r = ?R (qi + r)" if r: "r < m" for r
    proof (rule row_inv_finish[OF _ n])
      show "row_inv msk ?s V d (min ?bc n) (qi + r) n (m_buf sc' ! r) (l_buf sc' ! r) (take d (drop (r * d) (o_buf sc')))"
        using sc'(2) r by (simp add: tile_inv_def)
      show "length (take d (drop (r * d) (o_buf sc'))) = d"
        using sc'(2) le_trans[OF row_range[OF r, of d] md] by (simp add: tile_inv_def)
    qed simp
    have len': "length (?f r) = d" if "r < m" for r using fin[OF that] by simp
    have fitm: "(qi + m) * d \<le> length sl" using len m(2) by (simp add: mult_le_mono1)
    note wr = write_rows[of m ?f d qi sl, OF len' fitm]
    have run: "?body qi (min (qi + ?br) n) st = Some (sc', ?sl)"
      unfolding query_tile_def st prod.case Let_def a m_def[symmetric] exact_simps sc0_def[symmetric] sc'(1) by simp
    have "?sl ! (i * d + x) = ?R i ! x" if i: "i < qi + m" and x: "x < d" for i x
    proof -
      have "i * d + x < length sl" using row_range[OF i, of d] x fitm by linarith
      then have "?sl ! (i * d + x) = (if qi \<le> i \<and> i < qi + m then ?f (i - qi) ! x else sl ! (i * d + x))" using wr x by blast
      then show ?thesis using fin[of "i - qi"] i x len by (cases "qi \<le> i") auto
    qed
    then show ?thesis using run sc'(2) wr len m(3) by (auto simp: slab_inv_def tile_inv_def)
  qed
  have "?P 0 ?init" using slab by (simp add: slab_inv_def)
  then obtain st' where st': "tile_loop ?br n ?body 0 ?init = Some st'" "?P n st'"
    using tile_loop_invariant[OF br, of n ?P ?body 0 ?init] step by blast
  then show ?thesis using fit a(2,4) by (cases st') (auto simp: flash_forward_bh_def Let_def slab_inv_def)
qed

subsection \<open>The whole output\<close>

lemma nth_concat_rows:
  "\<forall>xs \<in> set xss. length xs = w \<Longrightarrow> r < length xss \<Longrightarrow> c < w \<Longrightarrow> concat xss ! (r * w + c) = xss ! r ! c"
proof (induction xss arbitrary: r)
  case (Cons xs xss)
  then show ?case by (cases r) (auto simp: nth_append add.assoc)
qed simp

lemma length_concat_rows: "\<forall>xs \<in> set xss. length xs = w \<Longrightarrow> length (concat xss) = length xss * w"
  by (induction xss) auto

text \<open>The rows of head \<open>h\<close> of batch entry \<open>b\<close> in a buffer.\<close>

definition head_rows :: "attention_shape \<Rightarrow> real list \<Rightarrow> nat \<Rightarrow> nat \<Rightarrow> nat \<Rightarrow> nat \<Rightarrow> real" where
  "head_rows shape xs b h i x = xs ! (((b * at_heads shape + h) * at_seq shape + i) * at_dim shape + x)"

definition attention_at ::
  "attention_shape \<Rightarrow> real list \<Rightarrow> real list \<Rightarrow> real list \<Rightarrow> mask \<Rightarrow> nat \<Rightarrow> nat \<Rightarrow> nat \<Rightarrow> nat \<Rightarrow> real" where
  "attention_at shape q k v msk b h =
     attention_value msk (score_of (head_rows shape q b h) (head_rows shape k b h) (at_dim shape) (1 / sqrt (at_dim shape)))
       (head_rows shape v b h) (at_seq shape)"

definition shape_ok :: "attention_shape \<Rightarrow> nat \<Rightarrow> bool" where
  "shape_ok shape len \<longleftrightarrow> buffer_len shape = Some len \<and> 0 < at_batch shape \<and> 0 < at_heads shape \<and> 0 < at_seq shape \<and> 0 < at_dim shape"

lemma shape_okD:
  assumes "shape_ok shape len"
  shows "len = at_batch shape * at_heads shape * at_seq shape * at_dim shape"
    "attention_strides shape = Some (at_heads shape * (at_seq shape * at_dim shape), at_seq shape * at_dim shape, at_dim shape)"
proof -
  let ?B = "at_batch shape" and ?H = "at_heads shape" and ?n = "at_seq shape" and ?d = "at_dim shape"
  have pos: "0 < ?B" "0 < ?H" "0 < ?n" "0 < ?d" and bl: "product4 ?B ?H ?n ?d = Some len"
    using assms by (simp_all add: shape_ok_def buffer_len_def)
  show len: "len = ?B * ?H * ?n * ?d" using product4_Some[OF bl] .
  have lt: "?B * ?H * ?n * ?d < u64_limit"
    using bl by (auto simp: product4_def checked_mul_u64_def split: if_splits option.splits)
  have "?n * ?d \<le> ?H * (?n * ?d)" "?H * (?n * ?d) \<le> ?B * (?H * (?n * ?d))" using pos by simp_all
  moreover have "?B * (?H * (?n * ?d)) < u64_limit" using lt by (simp only: mult.assoc)
  ultimately have "?n * ?d < u64_limit" "?H * (?n * ?d) < u64_limit" by linarith+
  then show "attention_strides shape = Some (?H * (?n * ?d), ?n * ?d, ?d)"
    by (simp add: attention_strides_def checked_mul_u64_def)
qed

lemma head_rows_are:
  assumes "shape_ok shape (length xs)" "b < at_batch shape" "h < at_heads shape"
  shows "rows_are (map Fin xs) ((b * at_heads shape + h) * (at_seq shape * at_dim shape)) (at_seq shape) (at_dim shape) (head_rows shape xs b h)"
proof -
  let ?H = "at_heads shape" and ?n = "at_seq shape" and ?d = "at_dim shape"
  have "b * ?H + h < at_batch shape * ?H" using assms(2,3) mult_le_mono1[of "Suc b" "at_batch shape" ?H] by simp
  then have "(b * ?H + h) * (?n * ?d) + ?n * ?d \<le> length xs"
    using row_range[of "b * ?H + h" "at_batch shape * ?H" "?n * ?d"] shape_okD(1)[OF assms(1)] by (simp add: mult.assoc)
  moreover have "i * ?d + x < ?n * ?d" if "i < ?n" "x < ?d" for i x using row_range[OF that(1), of ?d] that(2) by simp
  ultimately show ?thesis
    by (fastforce simp: rows_are_def head_rows_def algebra_simps)
qed

lemma scale_exact: "0 < d \<Longrightarrow> fl_div (Fin 1) (fl_sqrt (Fin (real d))) = Fin (1 / sqrt (real d))"
  by simp

lemma check_buffers_ok: "\<forall>(_, xs) \<in> set bs. length xs = n \<Longrightarrow> check_buffers n bs = None"
  by (induction n bs rule: check_buffers.induct) auto

lemma validate_ok:
  assumes "shape_ok shape n" "length q = n" "length k = n" "length v = n" "length out = n"
  shows "validate_buffers shape q k v out = Some None"
  using assms by (simp add: validate_buffers_def shape_ok_def)

lemma flash_forward_exact:
  assumes gemm: "gemm_exact gemm" and ok: "shape_ok shape (length q)" and len: "length k = length q" "length v = length q" "length out = length q"
    and tiles: "0 < at_br shape" "0 < at_bc shape" and fit: "f32_vec_ok (at_br shape * at_bc shape)" "f32_vec_ok (at_br shape * at_dim shape)" "f32_vec_ok (at_br shape)"
    and msk: "mask_validate msk (at_seq shape) = None"
  shows "\<exists>out'. flash_forward_masked exact gemm shape (map Fin q) (map Fin k) (map Fin v) msk out = Some (Inr out') \<and> length out' = length q
    \<and> (\<forall>b < at_batch shape. \<forall>h < at_heads shape. \<forall>i < at_seq shape. \<forall>x < at_dim shape.
        out' ! (((b * at_heads shape + h) * at_seq shape + i) * at_dim shape + x)
        = (if \<exists>j < min (at_bc shape) (at_seq shape). visible msk i j then Fin (attention_at shape q k v msk b h i x) else NaN))"
proof -
  let ?B = "at_batch shape" and ?H = "at_heads shape" and ?n = "at_seq shape" and ?d = "at_dim shape"
  let ?sh = "?n * ?d" and ?first = "min (at_bc shape) (at_seq shape)"
  define a where "a = \<lparr>fa_scale = Fin (1 / sqrt ?d), fa_seq = ?n, fa_dim = ?d, fa_br = at_br shape, fa_bc = at_bc shape, fa_stride = ?d\<rparr>"
  define run where "run bh = flash_forward_bh exact gemm (map Fin q) (map Fin k) (map Fin v) (take ?sh (drop (bh * ?sh) out)) msk a
    (bh div ?H * (?H * ?sh) + bh mod ?H * ?sh)" for bh
  have pos: "0 < ?B" "0 < ?H" "0 < ?n" "0 < ?d" using ok by (simp_all add: shape_ok_def)
  have total: "length out = ?B * ?H * ?sh" using shape_okD(1)[OF ok] len by (simp add: mult.assoc)
  have okk: "shape_ok shape (length k)" "shape_ok shape (length v)" using ok len by simp_all
  have val: "validate_buffers shape (map Fin q) (map Fin k) (map Fin v) out = Some None" using validate_ok[OF ok, of "map Fin q" "map Fin k" "map Fin v" out] len by simp
  have each: "\<exists>slab. run bh = Some slab \<and> length slab = ?sh \<and> (\<forall>i<?n. \<forall>x<?d. slab ! (i * ?d + x)
      = (if \<exists>j<?first. visible msk i j then Fin (attention_at shape q k v msk (bh div ?H) (bh mod ?H) i x) else NaN))"
    if bh: "bh < ?B * ?H" for bh
  proof -
    have bq: "bh div ?H < ?B" "bh mod ?H < ?H" using bh pos by (simp_all add: less_mult_imp_div_less)
    have base: "bh div ?H * (?H * ?sh) + bh mod ?H * ?sh = (bh div ?H * ?H + bh mod ?H) * ?sh"
      by (simp only: distrib_right mult.assoc)
    have "bh * ?sh + ?sh \<le> length out" using row_range[OF bh, of ?sh] total by simp
    then have "length (take ?sh (drop (bh * ?sh) out)) = ?n * ?d" by simp
    from flash_head[OF gemm _ _ _ _ head_rows_are[OF ok bq] head_rows_are[OF okk(1) bq] head_rows_are[OF okk(2) bq] _ _ pos(3) this,
        of a "1 / sqrt ?d" msk]
    obtain slab where "run bh = Some slab" "length slab = ?n * ?d"
      "\<forall>i<?n. \<forall>x<?d. slab ! (i * ?d + x) = output_row msk (score_of (head_rows shape q (bh div ?H) (bh mod ?H))
          (head_rows shape k (bh div ?H) (bh mod ?H)) ?d (1 / sqrt ?d)) (head_rows shape v (bh div ?H) (bh mod ?H)) ?d ?n ?first i ! x"
      using tiles fit unfolding run_def base by (auto simp: a_def)
    then show ?thesis by (auto simp: output_row_def attention_at_def)
  qed
  then obtain slab where slab: "run bh = Some (slab bh)" "length (slab bh) = ?sh"
    "\<forall>i<?n. \<forall>x<?d. slab bh ! (i * ?d + x)
      = (if \<exists>j<?first. visible msk i j then Fin (attention_at shape q k v msk (bh div ?H) (bh mod ?H) i x) else NaN)"
    if "bh < ?B * ?H" for bh by metis
  have "those (map run [0..<?B * ?H]) = Some (map slab [0..<?B * ?H])"
    by (rule those_map_Some) (use slab(1) in simp)
  moreover have "length out div ?sh = ?B * ?H" using total pos by simp
  ultimately have res: "flash_forward_masked exact gemm shape (map Fin q) (map Fin k) (map Fin v) msk out
      = Some (Inr (concat (map slab [0..<?B * ?H])))"
    using val msk pos shape_okD(2)[OF ok]
    by (simp add: flash_forward_masked_def scale_exact Let_def run_def[abs_def] a_def)
  have rows: "\<forall>xs \<in> set (map slab [0..<?B * ?H]). length xs = ?sh" using slab(2) by auto
  have "concat (map slab [0..<?B * ?H]) ! (((b * ?H + h) * ?n + i) * ?d + x)
      = (if \<exists>j<?first. visible msk i j then Fin (attention_at shape q k v msk b h i x) else NaN)"
    if b: "b < ?B" and h: "h < ?H" and i: "i < ?n" and x: "x < ?d" for b h i x
  proof -
    have bh: "b * ?H + h < ?B * ?H" using row_range[OF b, of ?H] h by simp
    have ix: "i * ?d + x < ?sh" using row_range[OF i, of ?d] x by simp
    have "((b * ?H + h) * ?n + i) * ?d + x = (b * ?H + h) * ?sh + (i * ?d + x)" by (simp add: algebra_simps)
    moreover have "concat (map slab [0..<?B * ?H]) ! ((b * ?H + h) * ?sh + (i * ?d + x)) = slab (b * ?H + h) ! (i * ?d + x)"
      using nth_concat_rows[OF rows _ ix, of "b * ?H + h"] bh by simp
    ultimately have "concat (map slab [0..<?B * ?H]) ! (((b * ?H + h) * ?n + i) * ?d + x) = slab (b * ?H + h) ! (i * ?d + x)" by (simp only:)
    moreover have "(b * ?H + h) div ?H = b" "(b * ?H + h) mod ?H = h" using h by simp_all
    ultimately show ?thesis using slab(3)[OF bh, rule_format, OF i x] by (simp only:)
  qed
  then show ?thesis using res length_concat_rows[OF rows] total len by simp
qed

section \<open>The direct forward pass\<close>

lemma naive_row_exact:
  assumes q: "rows_are q base n d Q" and k: "rows_are k base n d K" and v: "rows_are v base n d V" and i: "i < n"
  shows "naive_row exact q k v msk (Fin scale) base n d i = output_row msk (score_of Q K d scale) V d n n i"
proof -
  let ?s = "score_of Q K d scale" and ?u = "visible msk i"
  let ?row = "map (\<lambda>j. if is_masked msk i j then NInf else fl_mul (dot_rows exact q k base d i j) (Fin scale)) [0..<n]"
  have dot: "dot_rows exact q k base d i j = Fin (\<Sum>x<d. Q i x * K j x)" if "j < n" for j
  proof -
    have "map (\<lambda>x. fo_mul exact (q ! (base + i * d + x)) (k ! (base + j * d + x))) [0..<d] = fins (\<lambda>x. Q i x * K j x) d"
      using rows_are_nth[OF q i] rows_are_nth[OF k that] by (intro map_cong) auto
    then show ?thesis by (simp only: dot_rows_def fo_sum_upt)
  qed
  have row: "?row = score_row (?s i) ?u n"
    using dot by (auto simp: score_row_def score_of_def intro!: map_cong)
  have set: "set (score_row (?s i) ?u n) \<subseteq> insert NInf (range Fin)" by (auto simp: score_row_def)
  obtain M where M: "foldl (fo_max exact) NInf (score_row (?s i) ?u n) = (if \<exists>c<n. ?u c then Fin M else NInf)"
    using score_row_max[of "?s i" ?u n] max_fold_fin[OF set, of NInf] by auto
  show ?thesis
  proof (cases "\<exists>j<n. ?u j")
    case True
    have e: "map (\<lambda>x. fl_exp (fl_sub x (Fin M))) (score_row (?s i) ?u n) = fins (weight msk ?s i M) n"
      using score_row_weights[of M "?s i" ?u n] by (simp add: weight_def)
    let ?S = "\<Sum>j<n. weight msk ?s i M j"
    have pos: "0 < ?S" using True weight_pos by blast
    have "fo_sum exact (map (\<lambda>j. fl_mul (map (\<lambda>x. fl_div x (Fin ?S)) (fins (weight msk ?s i M) n) ! j) (v ! (base + j * d + x))) [0..<n])
        = Fin (attention_value msk ?s V n i x)" if x: "x < d" for x
    proof -
      have "map (\<lambda>j. fl_mul (map (\<lambda>x. fl_div x (Fin ?S)) (fins (weight msk ?s i M) n) ! j) (v ! (base + j * d + x))) [0..<n]
          = fins (\<lambda>j. weight msk ?s i M j / ?S * V j x) n"
        using rows_are_nth(2)[OF v _ x] pos by (intro map_cong) auto
      then have "fo_sum exact (map (\<lambda>j. fl_mul (map (\<lambda>x. fl_div x (Fin ?S)) (fins (weight msk ?s i M) n) ! j) (v ! (base + j * d + x))) [0..<n])
          = Fin (\<Sum>j<n. weight msk ?s i M j / ?S * V j x)" by (simp only: fo_sum_upt)
      also have "\<dots> = Fin ((\<Sum>j<n. weight msk ?s i M j * V j x) / ?S)" by (simp add: sum_divide_distrib)
      finally show ?thesis by (simp add: attention_value_def weighted_mean_shift[where M = M])
    qed
    then have vals: "map (\<lambda>x. fo_sum exact (map (\<lambda>j. fl_mul (map (\<lambda>x. fl_div x (Fin ?S)) (fins (weight msk ?s i M) n) ! j)
        (v ! (base + j * d + x))) [0..<n])) [0..<d] = fins (attention_value msk ?s V n i) d"
      by (intro map_cong) auto
    have "naive_row exact q k v msk (Fin scale) base n d i = fins (attention_value msk ?s V n i) d"
      unfolding naive_row_def Let_def exact_simps row M if_P[OF True] e fo_sum_upt vals using pos by simp
    then show ?thesis using True by (simp add: output_row_def)
  next
    case False
    have e: "map (\<lambda>x. fl_exp (fl_sub x NInf)) (score_row (?s i) ?u n) = replicate n NaN"
      using False by (intro nth_equalityI) (auto simp: score_row_def)
    have "fo_sum exact (replicate n NaN) = NaN" using i by (simp add: fo_sum_def foldl_fl_add_mem)
    then have "naive_row exact q k v msk (Fin scale) base n d i = replicate d NaN"
      unfolding naive_row_def Let_def exact_simps row M if_not_P[OF False] e by simp
    then show ?thesis unfolding output_row_def if_not_P[OF False] .
  qed
qed

text \<open>The nested loops over batch entries, heads and positions are one loop over all rows.\<close>

lemma nested_loops:
  assumes "0 < (n :: nat)" "0 < H"
  shows "List.product [0..<B] (List.product [0..<H] [0..<n])
    = map (\<lambda>r. (r div n div H, r div n mod H, r mod n)) [0..<B * H * n]"
proof (rule nth_equalityI)
  fix r assume "r < length (List.product [0..<B] (List.product [0..<H] [0..<n]))"
  then have r: "r < B * H * n" by (simp add: mult.assoc)
  have "r div n mod H * n + r mod n = r mod (H * n)" by (metis add.commute mod_mult2_eq mult.commute)
  moreover have "r mod (H * n) div n = r div n mod H" "r mod (H * n) mod n = r mod n" "r div (H * n) = r div n div H"
    by (simp_all add: mod_mult2_eq div_mult2_eq mult.commute[of H n] assms)
  moreover have "r div (H * n) < B" using r by (simp add: less_mult_imp_div_less mult.assoc)
  moreover have "r mod (H * n) < H * n" "r div n mod H < H" "r mod n < n" using assms by simp_all
  ultimately show "List.product [0..<B] (List.product [0..<H] [0..<n]) ! r
      = map (\<lambda>r. (r div n div H, r div n mod H, r mod n)) [0..<B * H * n] ! r"
    using r by (simp add: product_nth mult.assoc)
qed (simp add: mult.assoc)

lemma naive_forward_exact:
  assumes ok: "shape_ok shape (length q)" and len: "length k = length q" "length v = length q" "length out = length q"
    and fit: "f32_vec_ok (at_seq shape * at_seq shape)" and msk: "mask_validate msk (at_seq shape) = None"
  shows "\<exists>out'. naive_forward_masked exact shape (map Fin q) (map Fin k) (map Fin v) msk out = Some (Inr out') \<and> length out' = length q
    \<and> (\<forall>b < at_batch shape. \<forall>h < at_heads shape. \<forall>i < at_seq shape. \<forall>x < at_dim shape.
        out' ! (((b * at_heads shape + h) * at_seq shape + i) * at_dim shape + x)
        = (if \<exists>j < at_seq shape. visible msk i j then Fin (attention_at shape q k v msk b h i x) else NaN))"
proof -
  let ?B = "at_batch shape" and ?H = "at_heads shape" and ?n = "at_seq shape" and ?d = "at_dim shape"
  let ?sh = "?n * ?d" and ?scale = "1 / sqrt (at_dim shape)"
  let ?R = "\<lambda>b h i. output_row msk (score_of (head_rows shape q b h) (head_rows shape k b h) ?d ?scale) (head_rows shape v b h) ?d ?n ?n i"
  have pos: "0 < ?B" "0 < ?H" "0 < ?n" "0 < ?d" using ok by (simp_all add: shape_ok_def)
  have total: "length out = ?B * ?H * ?n * ?d" using shape_okD(1)[OF ok] len by simp
  have okk: "shape_ok shape (length k)" "shape_ok shape (length v)" using ok len by simp_all
  have val: "validate_buffers shape (map Fin q) (map Fin k) (map Fin v) out = Some None"
    using validate_ok[OF ok, of "map Fin q" "map Fin k" "map Fin v" out] len by simp
  define f where "f r = ?R (r div ?n div ?H) (r div ?n mod ?H) (r mod ?n)" for r
  let ?out = "fold (\<lambda>r. write_at ((0 + r) * ?d) (f r)) [0..<?B * ?H * ?n] out"
  have "fold (\<lambda>(b, h, i). write_at (b * (?H * ?sh) + h * ?sh + i * ?d)
        (naive_row exact (map Fin q) (map Fin k) (map Fin v) msk (Fin ?scale) (b * (?H * ?sh) + h * ?sh) ?n ?d i))
      (List.product [0..<?B] (List.product [0..<?H] [0..<?n])) out = ?out"
    unfolding nested_loops[OF pos(3,2)] fold_map
  proof (rule fold_cong)
    fix r assume "r \<in> set [0..<?B * ?H * ?n]"
    then have r: "r < ?B * ?H * ?n" by simp
    have bh: "r div ?n div ?H < ?B" "r div ?n mod ?H < ?H" "r mod ?n < ?n"
      using r pos by (simp_all add: less_mult_imp_div_less)
    have base: "r div ?n div ?H * (?H * ?sh) + r div ?n mod ?H * ?sh = (r div ?n div ?H * ?H + r div ?n mod ?H) * ?sh"
      by (simp only: distrib_right mult.assoc)
    have "(r div ?n div ?H * ?H + r div ?n mod ?H) * ?sh + r mod ?n * ?d = (r div ?n) * ?sh + r mod ?n * ?d"
      by (simp only: div_mult_mod_eq)
    also have "\<dots> = (r div ?n * ?n + r mod ?n) * ?d" by (simp only: distrib_right mult.assoc)
    also have "\<dots> = (0 + r) * ?d" by (simp only: div_mult_mod_eq add_0_left)
    finally have "(r div ?n div ?H * ?H + r div ?n mod ?H) * ?sh + r mod ?n * ?d = (0 + r) * ?d" .
    then show "((\<lambda>(b, h, i). write_at (b * (?H * ?sh) + h * ?sh + i * ?d)
        (naive_row exact (map Fin q) (map Fin k) (map Fin v) msk (Fin ?scale) (b * (?H * ?sh) + h * ?sh) ?n ?d i))
        \<circ> (\<lambda>r. (r div ?n div ?H, r div ?n mod ?H, r mod ?n))) r = write_at ((0 + r) * ?d) (f r)"
      using naive_row_exact[OF head_rows_are[OF ok bh(1,2)] head_rows_are[OF okk(1) bh(1,2)] head_rows_are[OF okk(2) bh(1,2)] bh(3), of msk ?scale]
      unfolding comp_def prod.case base f_def by (simp only:)
  qed simp_all
  then have res: "naive_forward_masked exact shape (map Fin q) (map Fin k) (map Fin v) msk out = Some (Inr ?out)"
    using val msk fit shape_okD(2)[OF ok] pos(4) by (simp add: naive_forward_masked_def scale_exact Let_def)
  have "length (f r) = ?d" for r by (simp add: f_def)
  note wr = write_rows[of "?B * ?H * ?n" f ?d 0 out, OF this] 
  have "?out ! (((b * ?H + h) * ?n + i) * ?d + x) = (if \<exists>j<?n. visible msk i j then Fin (attention_at shape q k v msk b h i x) else NaN)"
    if b: "b < ?B" and h: "h < ?H" and i: "i < ?n" and x: "x < ?d" for b h i x
  proof -
    let ?r = "(b * ?H + h) * ?n + i"
    have bh: "b * ?H + h < ?B * ?H" using row_range[OF b, of ?H] h by simp
    have r: "?r < ?B * ?H * ?n" using row_range[OF bh, of ?n] i by simp
    have "?r div ?n = b * ?H + h" "?r mod ?n = i" using i by simp_all
    moreover have "(b * ?H + h) div ?H = b" "(b * ?H + h) mod ?H = h" using h by simp_all
    ultimately have "f ?r = ?R b h i" by (simp only: f_def)
    moreover have "?out ! (?r * ?d + x) = f ?r ! x"
      using wr x r row_range[OF r, of ?d] total by simp
    ultimately show ?thesis using x by (simp add: output_row_def attention_at_def)
  qed
  moreover have "length ?out = length q" using wr total len by simp
  ultimately show ?thesis using res by blast
qed

section \<open>Softmax in one pass, in exact arithmetic\<close>

text \<open>The maximum and the sum of exponentials of a list.\<close>

definition softmax_stats :: "real list \<Rightarrow> fl softmax_state" where
  "softmax_stats xs =
     (if xs = [] then \<lparr>os_m = NInf, os_l = Fin 0\<rparr>
      else \<lparr>os_m = Fin (Max (set xs)), os_l = Fin (\<Sum>x\<leftarrow>xs. exp (x - Max (set xs)))\<rparr>)"

lemma shifted_exp: "(\<Sum>x\<leftarrow>xs. exp (x - m)) * exp (m - m') = (\<Sum>x\<leftarrow>xs. exp (x - m') :: real)"
  by (simp add: sum_list_mult_const[symmetric] flip: exp_add)

lemma absorb_stats: "absorb exact (Fin x) (softmax_stats xs) = softmax_stats (xs @ [x])"
proof (cases "xs = []")
  case False
  define M where "M = Max (set xs)"
  have "Max (set (xs @ [x])) = max x M" using False by (simp add: M_def)
  then show ?thesis using False
    by (simp add: absorb_def softmax_stats_def flip: M_def; simp add: shifted_exp max_def)
qed (simp add: absorb_def softmax_stats_def)

lemma online_full_stats: "online_softmax_full exact (map Fin xs) = softmax_stats xs"
proof (induction xs rule: rev_induct)
  case (snoc x xs)
  then show ?case by (simp add: online_softmax_full_def absorb_stats)
qed (simp add: online_softmax_full_def online_empty_def softmax_stats_def)

lemma stats_pos: "xs \<noteq> [] \<Longrightarrow> 0 < (\<Sum>x\<leftarrow>xs. exp (x - m :: real))"
  by (cases xs) (auto intro!: add_pos_nonneg sum_list_nonneg)

lemma combine_stats: "combine_tiles exact (softmax_stats xs) (softmax_stats ys) = softmax_stats (xs @ ys)"
proof (cases "xs = [] \<or> ys = []")
  case False
  define M N where "M = Max (set xs)" and "N = Max (set ys)"
  have m: "Max (set (xs @ ys)) = max M N" using False by (simp add: M_def N_def Max_Un)
  have "\<not> online_is_empty exact (softmax_stats xs)" "\<not> online_is_empty exact (softmax_stats ys)"
    using False by (simp_all add: online_is_empty_def softmax_stats_def)
  then have "combine_tiles exact (softmax_stats xs) (softmax_stats ys)
      = \<lparr>os_m = Fin (max M N), os_l = Fin ((\<Sum>x\<leftarrow>xs. exp (x - M)) * exp (M - max M N) + (\<Sum>y\<leftarrow>ys. exp (y - N)) * exp (N - max M N))\<rparr>"
    using False by (simp add: combine_tiles_def softmax_stats_def Let_def max_def flip: M_def N_def; auto)
  then show ?thesis using False m by (simp add: softmax_stats_def shifted_exp)
qed (auto simp: combine_tiles_def online_is_empty_def softmax_stats_def)

section \<open>Properties\<close>

text \<open>
  C40. Softmax in one pass.  Absorbing the elements of a list one by one gives its maximum and the sum
  of the exponentials of the distances to it; combining the states of two tiles gives the state of their
  concatenation, so tiles can be combined in any grouping, and in any order up to the order of the list.
\<close>

theorem online_softmax_correct:
  "online_softmax_full exact (map Fin xs) = softmax_stats xs
   \<and> combine_tiles exact (online_softmax_full exact (map Fin xs)) (online_softmax_full exact (map Fin ys)) = softmax_stats (xs @ ys)
   \<and> softmax_stats (xs @ ys) = softmax_stats (ys @ xs)
   \<and> foldl (combine_tiles exact) (online_empty exact) (map (\<lambda>t. online_softmax_full exact (map Fin t)) ts)
      = online_softmax_full exact (map Fin (concat ts))"
proof -
  have "foldl (combine_tiles exact) (softmax_stats zs) (map softmax_stats ts) = softmax_stats (zs @ concat ts)" for zs
    by (induction ts arbitrary: zs) (simp_all add: combine_stats)
  from this[of "[]"] have "foldl (combine_tiles exact) (online_empty exact) (map softmax_stats ts) = softmax_stats (concat ts)"
    by (simp add: softmax_stats_def online_empty_def)
  then show ?thesis
    by (simp add: online_full_stats combine_stats) (simp add: softmax_stats_def Un_commute add.commute)
qed

text \<open>
  C13. Tiled attention is attention.  In exact arithmetic, for buffers of the right size, the tiled
  kernel ends for every positive tile size.  Where a query sees a key of the first tile, it leaves
  what the direct kernel leaves, the mean of the values of the visible keys weighted by the
  exponentials of the scores; a query that sees no key of the first tile is spoilt, while the direct kernel
  gives up only on queries that see no key at all.
\<close>

theorem flash_attention_correct:
  assumes gemm: "gemm_exact gemm" and ok: "shape_ok shape (length q)" and len: "length k = length q" "length v = length q" "length out = length q"
    and tiles: "0 < at_br shape" "0 < at_bc shape"
    and fit: "f32_vec_ok (at_br shape * at_bc shape)" "f32_vec_ok (at_br shape * at_dim shape)" "f32_vec_ok (at_br shape)"
      "f32_vec_ok (at_seq shape * at_seq shape)"
    and msk: "mask_validate msk (at_seq shape) = None"
  shows "\<exists>tiled direct.
      flash_forward_masked exact gemm shape (map Fin q) (map Fin k) (map Fin v) msk out = Some (Inr tiled)
    \<and> naive_forward_masked exact shape (map Fin q) (map Fin k) (map Fin v) msk out = Some (Inr direct)
    \<and> length tiled = length q \<and> length direct = length q
    \<and> (\<forall>b < at_batch shape. \<forall>h < at_heads shape. \<forall>i < at_seq shape. \<forall>x < at_dim shape.
        let p = ((b * at_heads shape + h) * at_seq shape + i) * at_dim shape + x in
        direct ! p = (if \<exists>j < at_seq shape. visible msk i j then Fin (attention_at shape q k v msk b h i x) else NaN)
        \<and> tiled ! p = (if \<exists>j < min (at_bc shape) (at_seq shape). visible msk i j then direct ! p else NaN))"
proof -
  obtain o1 where o1: "flash_forward_masked exact gemm shape (map Fin q) (map Fin k) (map Fin v) msk out = Some (Inr o1)" "length o1 = length q"
    "\<And>b h i x. b < at_batch shape \<Longrightarrow> h < at_heads shape \<Longrightarrow> i < at_seq shape \<Longrightarrow> x < at_dim shape \<Longrightarrow>
        o1 ! (((b * at_heads shape + h) * at_seq shape + i) * at_dim shape + x)
        = (if \<exists>j < min (at_bc shape) (at_seq shape). visible msk i j then Fin (attention_at shape q k v msk b h i x) else NaN)"
    using flash_forward_exact[OF gemm ok len tiles fit(1-3) msk] by blast
  obtain o2 where o2: "naive_forward_masked exact shape (map Fin q) (map Fin k) (map Fin v) msk out = Some (Inr o2)" "length o2 = length q"
    "\<And>b h i x. b < at_batch shape \<Longrightarrow> h < at_heads shape \<Longrightarrow> i < at_seq shape \<Longrightarrow> x < at_dim shape \<Longrightarrow>
        o2 ! (((b * at_heads shape + h) * at_seq shape + i) * at_dim shape + x)
        = (if \<exists>j < at_seq shape. visible msk i j then Fin (attention_at shape q k v msk b h i x) else NaN)"
    using naive_forward_exact[OF ok len fit(4) msk] by blast
  have sub: "(\<exists>j < min (at_bc shape) (at_seq shape). visible msk i j) \<Longrightarrow> \<exists>j < at_seq shape. visible msk i j" for i by auto
  show ?thesis
    by (rule exI[of _ o1], rule exI[of _ o2]) (use o1 o2 sub in \<open>simp only: Let_def if_True simp_thms cong: if_cong, metis\<close>)
qed

text \<open>The reference product, and a head of two positions with tiles of one.\<close>

definition row_gemm :: "fl gemm_fn" where
  "row_gemm m n k dst cs rs rd lhs lcs lrs rhs rcs rrs al be =
     map (\<lambda>p. let i = p div rs; j = p mod rs in
       if i < m \<and> j < n
       then fl_add (if rd then fl_mul al (dst ! p) else Fin 0)
              (fl_mul be (fo_sum exact (map (\<lambda>x. fl_mul (lhs ! (i * lrs + x * lcs)) (rhs ! (x * rrs + j * rcs))) [0..<k])))
       else dst ! p) [0..<length dst]"

lemma row_gemm_exact: "gemm_exact row_gemm"
  unfolding gemm_exact_def
proof (intro conjI allI impI)
  fix m n k dst rs rd lhs lcs lrs rhs rcs rrs al be i j a b c
  assume h: "n \<le> rs \<and> (m - 1) * rs + n \<le> length dst \<and> i < m \<and> j < n
    \<and> (\<forall>x<k. i * lrs + x * lcs < length lhs \<and> lhs ! (i * lrs + x * lcs) = Fin (a x))
    \<and> (\<forall>x<k. x * rrs + j * rcs < length rhs \<and> rhs ! (x * rrs + j * rcs) = Fin (b x)) \<and> (rd \<longrightarrow> dst ! (i * rs + j) = Fin c)"
  have "i * rs \<le> (m - 1) * rs" using h by (intro mult_le_mono1) linarith
  then have "i * rs + j < length dst" using h by linarith
  moreover have "(i * rs + j) div rs = i" "(i * rs + j) mod rs = j" using h by auto
  moreover have "map (\<lambda>x. fl_mul (lhs ! (i * lrs + x * lcs)) (rhs ! (x * rrs + j * rcs))) [0..<k] = fins (\<lambda>x. a x * b x) k"
    using h by (intro map_cong) auto
  then have "fo_sum exact (map (\<lambda>x. fl_mul (lhs ! (i * lrs + x * lcs)) (rhs ! (x * rrs + j * rcs))) [0..<k]) = Fin (\<Sum>x<k. a x * b x)"
    by (simp only: fo_sum_upt)
  ultimately show "row_gemm m n k dst 1 rs rd lhs lcs lrs rhs rcs rrs (Fin al) (Fin be) ! (i * rs + j)
      = Fin ((if rd then al * c else 0) + be * (\<Sum>x<k. a x * b x))"
    using h by (simp add: row_gemm_def)
qed (simp add: row_gemm_def)

definition tiny_shape :: attention_shape where
  "tiny_shape = \<lparr>at_batch = 1, at_heads = 1, at_seq = 2, at_dim = 1, at_br = 1, at_bc = 1\<rparr>"

lemma tiny_shape_ok: "shape_ok tiny_shape (length [0, 0 :: real])"
  by (simp add: shape_ok_def tiny_shape_def buffer_len_def product4_def checked_mul_u64_def u64_limit_def)

lemma tiny_dims: "at_batch tiny_shape = 1" "at_heads tiny_shape = 1" "at_seq tiny_shape = 2" "at_dim tiny_shape = 1" "at_bc tiny_shape = 1"
  by (simp_all add: tiny_shape_def)

lemma tiny_fits: "f32_vec_ok (at_br tiny_shape * at_bc tiny_shape)" "f32_vec_ok (at_br tiny_shape * at_dim tiny_shape)"
  "f32_vec_ok (at_br tiny_shape)" "f32_vec_ok (at_seq tiny_shape * at_seq tiny_shape)"
  by (simp_all add: tiny_shape_def f32_vec_ok_def i64_limit_def)

lemma tiny_attention:
  "attention_at tiny_shape [0, 0] [0, 0] [2, 4] msk 0 0 i 0
    = ((if visible msk i 0 then 2 else 0) + (if visible msk i 1 then 4 else 0)) / ((if visible msk i 0 then 1 else 0) + (if visible msk i 1 then 1 else 0))"
  by (simp add: attention_at_def attention_value_def tiny_shape_def head_rows_def weight_def score_of_def lessThan_Suc numeral_2_eq_2)

theorem flash_attention_correct_witness:
  "\<exists>tiled. flash_forward_masked exact row_gemm tiny_shape (map Fin [0, 0]) (map Fin [0, 0]) (map Fin [2, 4]) MaskCausal [Fin 0, Fin 0]
     = Some (Inr tiled) \<and> tiled ! 1 = Fin 3"
proof -
  have tiles: "0 < at_br tiny_shape" "0 < at_bc tiny_shape" "mask_validate MaskCausal (at_seq tiny_shape) = None" by (simp_all add: tiny_shape_def)
  have len: "length [0, 0 :: real] = length [0, 0 :: real]" "length [2, 4 :: real] = length [0, 0 :: real]" "length [Fin 0, Fin 0] = length [0, 0 :: real]" by simp_all
  obtain tiled direct where t: "flash_forward_masked exact row_gemm tiny_shape (map Fin [0, 0]) (map Fin [0, 0]) (map Fin [2, 4]) MaskCausal [Fin 0, Fin 0] = Some (Inr tiled)"
    "\<forall>b < at_batch tiny_shape. \<forall>h < at_heads tiny_shape. \<forall>i < at_seq tiny_shape. \<forall>x < at_dim tiny_shape.
        let p = ((b * at_heads tiny_shape + h) * at_seq tiny_shape + i) * at_dim tiny_shape + x in
        direct ! p = (if \<exists>j < at_seq tiny_shape. visible MaskCausal i j then Fin (attention_at tiny_shape [0, 0] [0, 0] [2, 4] MaskCausal b h i x) else NaN)
        \<and> tiled ! p = (if \<exists>j < min (at_bc tiny_shape) (at_seq tiny_shape). visible MaskCausal i j then direct ! p else NaN)"
    using flash_attention_correct[OF row_gemm_exact tiny_shape_ok len tiles(1,2) tiny_fits tiles(3)] by blast
  have "tiled ! 1 = Fin (attention_at tiny_shape [0, 0] [0, 0] [2, 4] MaskCausal 0 0 1 0)"
    using t(2)[unfolded tiny_dims Let_def, rule_format, of 0 0 1 0] exI[of "\<lambda>j. j < 2 \<and> visible MaskCausal 1 j" 0] by auto
  then show ?thesis using t(1) tiny_attention[of MaskCausal 1] by auto
qed

text \<open>
  With a padding mask that hides the first key, the tiled kernel with tiles of one key returns no
  numbers at all, although every query sees the second key and the direct kernel returns its value.
\<close>

lemma left_padding_spoils_rows:
  "flash_forward_masked exact row_gemm tiny_shape (map Fin [0, 0]) (map Fin [0, 0]) (map Fin [2, 4]) (MaskPadding [False, True]) [Fin 0, Fin 0]
     = Some (Inr [NaN, NaN])"
  "naive_forward_masked exact tiny_shape (map Fin [0, 0]) (map Fin [0, 0]) (map Fin [2, 4]) (MaskPadding [False, True]) [Fin 0, Fin 0]
     = Some (Inr [Fin 4, Fin 4])"
proof -
  let ?m = "MaskPadding [False, True]"
  have tiles: "0 < at_br tiny_shape" "0 < at_bc tiny_shape" "mask_validate ?m (at_seq tiny_shape) = None" by (simp_all add: tiny_shape_def)
  have len: "length [0, 0 :: real] = length [0, 0 :: real]" "length [2, 4 :: real] = length [0, 0 :: real]" "length [Fin 0, Fin 0] = length [0, 0 :: real]" by simp_all
  have two: "xs = [a, b]" if "length xs = length [0, 0 :: real]" "xs ! 0 = a" "xs ! 1 = b" for xs and a b :: fl
    using that by (cases xs; cases "tl xs") auto
  from flash_forward_exact[OF row_gemm_exact tiny_shape_ok len tiles(1,2) tiny_fits(1-3) tiles(3)] obtain o1 where o1:
    "flash_forward_masked exact row_gemm tiny_shape (map Fin [0, 0]) (map Fin [0, 0]) (map Fin [2, 4]) ?m [Fin 0, Fin 0] = Some (Inr o1)"
    "length o1 = length [0, 0 :: real]" "\<forall>i<2. o1 ! i = NaN" by (auto simp: tiny_dims)
  then have "o1 = [NaN, NaN]" by (intro two) simp_all
  with o1(1) show "flash_forward_masked exact row_gemm tiny_shape (map Fin [0, 0]) (map Fin [0, 0]) (map Fin [2, 4]) ?m [Fin 0, Fin 0]
     = Some (Inr [NaN, NaN])" by simp
  have vis: "\<exists>j<2. visible ?m i j" for i by (rule exI[of _ 1]) simp
  have val: "attention_at tiny_shape [0, 0] [0, 0] [2, 4] ?m 0 0 i 0 = 4" for i by (simp add: tiny_attention)
  obtain o2 where o2:
    "naive_forward_masked exact tiny_shape (map Fin [0, 0]) (map Fin [0, 0]) (map Fin [2, 4]) ?m [Fin 0, Fin 0] = Some (Inr o2)"
    "length o2 = length [0, 0 :: real]" "\<forall>i<2. o2 ! i = Fin 4"
    using naive_forward_exact[OF tiny_shape_ok len tiny_fits(4) tiles(3)] unfolding tiny_dims if_P[OF vis] by (auto simp: val)
  then have "o2 = [Fin 4, Fin 4]" by (intro two) simp_all
  with o2(1) show "naive_forward_masked exact tiny_shape (map Fin [0, 0]) (map Fin [0, 0]) (map Fin [2, 4]) ?m [Fin 0, Fin 0]
     = Some (Inr [Fin 4, Fin 4])" by simp
qed

text \<open>With a tile of no rows the kernel never returns.\<close>

lemma zero_tile_never_returns:
  assumes "fa_br a = 0" "0 < fa_seq a"
  shows "flash_forward_bh F gemm q k v slab msk a base = None"
proof -
  have "tile_loop (fa_br a) (fa_seq a) (query_tile F gemm q k v msk a base) 0 st = None" for st
    using tile_loop_zero[of "fa_br a" "fa_seq a" "query_tile F gemm q k v msk a base" 0 st] assms
    by (cases "tile_loop (fa_br a) (fa_seq a) (query_tile F gemm q k v msk a base) 0 st") auto
  then show ?thesis by (simp add: flash_forward_bh_def Let_def)
qed

text \<open>Scores that are all hidden have no sum, not the sum 0.\<close>

lemma all_hidden_scores: "online_softmax_full exact (replicate (Suc n) NInf) = \<lparr>os_m = NInf, os_l = NaN\<rparr>"
proof -
  have "foldl (\<lambda>st x. absorb exact x st) \<lparr>os_m = NInf, os_l = NaN\<rparr> (replicate n NInf) = \<lparr>os_m = NInf, os_l = NaN\<rparr>"
    by (induction n) (simp_all add: absorb_def)
  then show ?thesis by (simp add: online_softmax_full_def online_empty_def absorb_def)
qed

end
