(* ===== verification/Attention_Gradients.thy ===== *)
theory Attention_Gradients
  imports Attention
begin

text \<open>
  The backward pass of attention, \<open>cpu_backward.rs\<close>: in exact arithmetic it returns the derivatives of
  the pairing of the output of attention with the incoming gradient.
\<close>

section \<open>The derivative of attention\<close>

text \<open>A weighted mean whose weights are exponentials.\<close>

lemma softmax_mean_derivative:
  fixes s v :: "nat \<Rightarrow> real \<Rightarrow> real"
  assumes n: "0 < n" and s: "\<And>j. j < n \<Longrightarrow> (s j has_real_derivative s' j) (at 0)"
    and v: "\<And>j. j < n \<Longrightarrow> (v j has_real_derivative v' j) (at 0)"
  defines "p \<equiv> \<lambda>j. exp (s j 0) / (\<Sum>l<n. exp (s l 0))"
  shows "((\<lambda>e. (\<Sum>j<n. exp (s j e) * v j e) / (\<Sum>j<n. exp (s j e))) has_real_derivative
    (\<Sum>j<n. p j * (v' j + (s' j - (\<Sum>l<n. p l * s' l)) * v j 0))) (at 0)"
proof -
  let ?Z = "\<Sum>l<n. exp (s l 0)" and ?N = "\<Sum>j<n. exp (s j 0) * v j 0"
  let ?Z' = "\<Sum>l<n. exp (s l 0) * s' l" and ?N' = "\<Sum>j<n. exp (s j 0) * s' j * v j 0 + exp (s j 0) * v' j"
  have "0 < ?Z" using n by (intro sum_pos) auto
  then have Z: "?Z \<noteq> 0" by simp
  have dN: "((\<lambda>e. \<Sum>j<n. exp (s j e) * v j e) has_real_derivative ?N') (at 0)"
    by (intro DERIV_sum) (auto intro!: derivative_eq_intros s v)
  have dZ: "((\<lambda>e. \<Sum>j<n. exp (s j e)) has_real_derivative ?Z') (at 0)"
    by (intro DERIV_sum) (auto intro!: derivative_eq_intros s)
  have "((\<lambda>e. (\<Sum>j<n. exp (s j e) * v j e) / (\<Sum>j<n. exp (s j e))) has_real_derivative (?N' * ?Z - ?N * ?Z') / (?Z * ?Z)) (at 0)"
    using DERIV_divide[OF dN dZ Z] .
  moreover have "(?N' * ?Z - ?N * ?Z') / (?Z * ?Z) = (\<Sum>j<n. p j * (v' j + (s' j - (\<Sum>l<n. p l * s' l)) * v j 0))"
  proof -
    have r: "(\<Sum>l<n. p l * s' l) = ?Z' / ?Z" by (simp add: p_def sum_divide_distrib)
    have "(\<Sum>j<n. p j * (v' j + (s' j - ?Z' / ?Z) * v j 0)) = (\<Sum>j<n. (exp (s j 0) * s' j * v j 0 + exp (s j 0) * v' j) / ?Z - exp (s j 0) * v j 0 * ?Z' / (?Z * ?Z))"
      using Z by (intro sum.cong refl) (simp add: p_def field_simps)
    also have "\<dots> = ?N' / ?Z - ?N * ?Z' / (?Z * ?Z)"
      by (simp only: sum_subtractf sum_divide_distrib[symmetric] sum_distrib_right[symmetric])
    also have "\<dots> = (?N' * ?Z - ?N * ?Z') / (?Z * ?Z)" using Z by (simp add: diff_divide_distrib)
    finally show ?thesis by (simp only: r)
  qed
  ultimately show ?thesis by simp
qed

text \<open>The weights, the gradients of the weights and the gradients of the scores of one head.\<close>

definition prob :: "(nat \<Rightarrow> nat \<Rightarrow> real) \<Rightarrow> nat \<Rightarrow> nat \<Rightarrow> nat \<Rightarrow> real" where
  "prob s n i j = exp (s i j) / (\<Sum>l<n. exp (s i l))"

definition prob_grad :: "(nat \<Rightarrow> nat \<Rightarrow> real) \<Rightarrow> (nat \<Rightarrow> nat \<Rightarrow> real) \<Rightarrow> nat \<Rightarrow> nat \<Rightarrow> nat \<Rightarrow> real" where
  "prob_grad G V d i j = (\<Sum>x<d. G i x * V j x)"

definition score_grad ::
  "(nat \<Rightarrow> nat \<Rightarrow> real) \<Rightarrow> (nat \<Rightarrow> nat \<Rightarrow> real) \<Rightarrow> (nat \<Rightarrow> nat \<Rightarrow> real) \<Rightarrow> nat \<Rightarrow> nat \<Rightarrow> nat \<Rightarrow> nat \<Rightarrow> real" where
  "score_grad s G V n d i j = prob s n i j * (prob_grad G V d i j - (\<Sum>l<n. prob s n i l * prob_grad G V d i l))"

definition head_loss ::
  "(nat \<Rightarrow> nat \<Rightarrow> real) \<Rightarrow> (nat \<Rightarrow> nat \<Rightarrow> real) \<Rightarrow> (nat \<Rightarrow> nat \<Rightarrow> real) \<Rightarrow> nat \<Rightarrow> nat \<Rightarrow> real" where
  "head_loss s V G n d = (\<Sum>i<n. \<Sum>x<d. G i x * attention_value MaskNone s V n i x)"

lemma attention_value_softmax:
  "attention_value MaskNone s V n i x = (\<Sum>j<n. exp (s i j) * V j x) / (\<Sum>j<n. exp (s i j))"
  by (simp add: attention_value_def weight_def)

lemma head_loss_derivative:
  fixes S V :: "real \<Rightarrow> nat \<Rightarrow> nat \<Rightarrow> real"
  assumes n: "0 < n"
    and s: "\<And>i j. i < n \<Longrightarrow> j < n \<Longrightarrow> ((\<lambda>e. S e i j) has_real_derivative S' i j) (at 0)"
    and v: "\<And>j x. j < n \<Longrightarrow> x < d \<Longrightarrow> ((\<lambda>e. V e j x) has_real_derivative V' j x) (at 0)"
  shows "((\<lambda>e. head_loss (S e) (V e) G n d) has_real_derivative
    (\<Sum>i<n. \<Sum>j<n. prob (S 0) n i j * (\<Sum>x<d. G i x * V' j x)) + (\<Sum>i<n. \<Sum>j<n. score_grad (S 0) G (V 0) n d i j * S' i j)) (at 0)"
proof -
  let ?p = "prob (S 0) n" and ?dp = "prob_grad G (V 0) d"
  let ?r = "\<lambda>i. \<Sum>l<n. ?p i l * S' i l"
  have "((\<lambda>e. head_loss (S e) (V e) G n d) has_real_derivative
      (\<Sum>i<n. \<Sum>x<d. G i x * (\<Sum>j<n. ?p i j * (V' j x + (S' i j - ?r i) * V 0 j x)))) (at 0)"
    unfolding head_loss_def attention_value_softmax prob_def
    by (intro DERIV_sum DERIV_cmult softmax_mean_derivative n s v) simp_all
  moreover have "(\<Sum>x<d. G i x * (\<Sum>j<n. ?p i j * (V' j x + (S' i j - ?r i) * V 0 j x)))
      = (\<Sum>j<n. ?p i j * (\<Sum>x<d. G i x * V' j x)) + (\<Sum>j<n. score_grad (S 0) G (V 0) n d i j * S' i j)" for i
  proof -
    have "(\<Sum>x<d. G i x * (\<Sum>j<n. ?p i j * (V' j x + (S' i j - ?r i) * V 0 j x)))
        = (\<Sum>x<d. \<Sum>j<n. ?p i j * (G i x * V' j x) + ?p i j * (S' i j - ?r i) * (G i x * V 0 j x))"
      by (simp add: sum_distrib_left algebra_simps)
    also have "\<dots> = (\<Sum>j<n. \<Sum>x<d. ?p i j * (G i x * V' j x) + ?p i j * (S' i j - ?r i) * (G i x * V 0 j x))"
      by (rule sum.swap)
    also have "\<dots> = (\<Sum>j<n. ?p i j * (\<Sum>x<d. G i x * V' j x)) + (\<Sum>j<n. ?p i j * (S' i j - ?r i) * ?dp i j)"
      by (simp add: sum.distrib sum_distrib_left prob_grad_def)
    also have "(\<Sum>j<n. ?p i j * (S' i j - ?r i) * ?dp i j) = (\<Sum>j<n. ?p i j * S' i j * ?dp i j) - ?r i * (\<Sum>j<n. ?p i j * ?dp i j)"
      by (simp add: sum_distrib_left sum_subtractf algebra_simps)
    also have "\<dots> = (\<Sum>j<n. ?p i j * S' i j * ?dp i j) - (\<Sum>j<n. ?p i j * S' i j * (\<Sum>l<n. ?p i l * ?dp i l))"
      by (simp add: sum_distrib_right)
    also have "\<dots> = (\<Sum>j<n. score_grad (S 0) G (V 0) n d i j * S' i j)"
      by (simp add: score_grad_def sum_subtractf[symmetric] algebra_simps)
    finally show ?thesis .
  qed
  ultimately show ?thesis by (simp add: sum.distrib)
qed

section \<open>One head of the backward pass\<close>

definition query_grad :: "(nat \<Rightarrow> nat \<Rightarrow> real) \<Rightarrow> (nat \<Rightarrow> nat \<Rightarrow> real) \<Rightarrow> (nat \<Rightarrow> nat \<Rightarrow> real) \<Rightarrow> (nat \<Rightarrow> nat \<Rightarrow> real)
    \<Rightarrow> real \<Rightarrow> nat \<Rightarrow> nat \<Rightarrow> nat \<Rightarrow> nat \<Rightarrow> real" where
  "query_grad Q K V G c n d i x = (\<Sum>j<n. c * score_grad (score_of Q K d c) G V n d i j * K j x)"

definition key_grad :: "(nat \<Rightarrow> nat \<Rightarrow> real) \<Rightarrow> (nat \<Rightarrow> nat \<Rightarrow> real) \<Rightarrow> (nat \<Rightarrow> nat \<Rightarrow> real) \<Rightarrow> (nat \<Rightarrow> nat \<Rightarrow> real)
    \<Rightarrow> real \<Rightarrow> nat \<Rightarrow> nat \<Rightarrow> nat \<Rightarrow> nat \<Rightarrow> real" where
  "key_grad Q K V G c n d j x = (\<Sum>i<n. c * score_grad (score_of Q K d c) G V n d i j * Q i x)"

definition value_grad :: "(nat \<Rightarrow> nat \<Rightarrow> real) \<Rightarrow> (nat \<Rightarrow> nat \<Rightarrow> real) \<Rightarrow> (nat \<Rightarrow> nat \<Rightarrow> real)
    \<Rightarrow> real \<Rightarrow> nat \<Rightarrow> nat \<Rightarrow> nat \<Rightarrow> nat \<Rightarrow> real" where
  "value_grad Q K G c n d j x = (\<Sum>i<n. prob (score_of Q K d c) n i j * G i x)"

lemma dot_rows_exact:
  assumes "rows_are q base n d Q" "rows_are k base n d K" "i < n" "j < n"
  shows "dot_rows exact q k base d i j = Fin (\<Sum>x<d. Q i x * K j x)"
proof -
  have "map (\<lambda>x. fo_mul exact (q ! (base + i * d + x)) (k ! (base + j * d + x))) [0..<d] = fins (\<lambda>x. Q i x * K j x) d"
    using rows_are_nth[OF assms(1,3)] rows_are_nth[OF assms(2,4)] by (intro map_cong) auto
  then show ?thesis by (simp only: dot_rows_def fo_sum_upt)
qed

lemma weight_row_exact:
  assumes q: "rows_are q base n d Q" and k: "rows_are k base n d K" and i: "i < n"
  shows "weight_row exact q k (Fin c) base n d i = fins (prob (score_of Q K d c) n i) n"
proof -
  let ?s = "score_of Q K d c"
  have row: "map (\<lambda>j. fl_mul (dot_rows exact q k base d i j) (Fin c)) [0..<n] = score_row (?s i) (\<lambda>_. True) n"
    using dot_rows_exact[OF q k i] by (auto simp: score_row_def score_of_def intro!: map_cong)
  obtain M where M: "foldl (\<lambda>m x. if fl_less m x then x else m) NInf (score_row (?s i) (\<lambda>_. True) n) = Fin M"
    using score_row_max[of "?s i" "\<lambda>_. True" n] i by (auto split: if_splits)
  have e: "map (\<lambda>x. fl_exp (fl_sub x (Fin M))) (score_row (?s i) (\<lambda>_. True) n) = fins (\<lambda>j. exp (?s i j - M)) n"
    by (simp add: score_row_def)
  have pos: "0 < (\<Sum>j<n. exp (?s i j - M))" using i by (intro sum_pos) auto
  have "exp (?s i j - M) / (\<Sum>j<n. exp (?s i j - M)) = prob ?s n i j" for j
    by (simp add: prob_def exp_diff sum_divide_distrib[symmetric])
  then show ?thesis
    unfolding weight_row_def Let_def exact_simps row M e fo_sum_upt using pos by simp
qed

text \<open>Matrices as lists of their elements.\<close>

lemma grid_position: "i < m \<Longrightarrow> j < n \<Longrightarrow> map f (List.product [0..<m] [0..<n]) ! (i * n + j) = f (i, j)"
proof -
  assume ij: "i < m" "j < n"
  then have "i * n + j < m * n" using row_range[of i m n] by simp
  then show ?thesis using ij by (simp add: product_nth)
qed

lemma head_gradients_exact:
  assumes q: "rows_are q base n d Q" and k: "rows_are k base n d K" and v: "rows_are v base n d V" and g: "rows_are g base n d G"
  shows "head_gradients exact q k v g (Fin c) n d base =
    (map (\<lambda>(i, x). Fin (query_grad Q K V G c n d i x)) (List.product [0..<n] [0..<d]),
     map (\<lambda>(j, x). Fin (key_grad Q K V G c n d j x)) (List.product [0..<n] [0..<d]),
     map (\<lambda>(j, x). Fin (value_grad Q K G c n d j x)) (List.product [0..<n] [0..<d]))"
proof -
  let ?s = "score_of Q K d c"
  define p where "p = concat (map (weight_row exact q k (Fin c) base n d) [0..<n])"
  have p: "p ! (i * n + j) = Fin (prob ?s n i j)" if "i < n" "j < n" for i j
  proof -
    have "map (weight_row exact q k (Fin c) base n d) [0..<n] = map (\<lambda>i. fins (prob ?s n i) n) [0..<n]"
      using weight_row_exact[OF q k] by (intro map_cong) auto
    moreover have "\<forall>xs \<in> set (map (\<lambda>i. fins (prob ?s n i) n) [0..<n]). length xs = n" by auto
    from nth_concat_rows[OF this, of i j] have "concat (map (\<lambda>i. fins (prob ?s n i) n) [0..<n]) ! (i * n + j) = Fin (prob ?s n i j)"
      using that by simp
    ultimately show ?thesis by (simp only: p_def)
  qed
  define dp where "dp = map (\<lambda>(i, j). dot_rows exact g v base d i j) (List.product [0..<n] [0..<n])"
  have dp: "dp ! (i * n + j) = Fin (prob_grad G V d i j)" if "i < n" "j < n" for i j
    using grid_position[OF that, of "\<lambda>(i, j). dot_rows exact g v base d i j"] dot_rows_exact[OF g v that]
    by (simp add: dp_def prob_grad_def)
  define row_dot where "row_dot = map (\<lambda>i. fo_sum exact (map (\<lambda>j. fl_mul (p ! (i * n + j)) (dp ! (i * n + j))) [0..<n])) [0..<n]"
  have row_dot: "row_dot ! i = Fin (\<Sum>j<n. prob ?s n i j * prob_grad G V d i j)" if "i < n" for i
  proof -
    have "map (\<lambda>j. fl_mul (p ! (i * n + j)) (dp ! (i * n + j))) [0..<n] = fins (\<lambda>j. prob ?s n i j * prob_grad G V d i j) n"
      using p[OF that] dp[OF that] by (intro map_cong) auto
    then have "fo_sum exact (map (\<lambda>j. fl_mul (p ! (i * n + j)) (dp ! (i * n + j))) [0..<n]) = Fin (\<Sum>j<n. prob ?s n i j * prob_grad G V d i j)"
      by (simp only: fo_sum_upt)
    then show ?thesis using that by (simp add: row_dot_def)
  qed
  define ds where "ds = map (\<lambda>(i, j). fl_mul (p ! (i * n + j)) (fl_sub (dp ! (i * n + j)) (row_dot ! i))) (List.product [0..<n] [0..<n])"
  have ds: "ds ! (i * n + j) = Fin (score_grad ?s G V n d i j)" if "i < n" "j < n" for i j
    using grid_position[OF that, of "\<lambda>(i, j). fl_mul (p ! (i * n + j)) (fl_sub (dp ! (i * n + j)) (row_dot ! i))"] p[OF that] dp[OF that] row_dot[OF that(1)]
    by (simp add: ds_def score_grad_def)
  have acc: "accumulated exact n f = Fin (\<Sum>i<n. r i)" if "\<And>i. i < n \<Longrightarrow> f i = Fin (r i)" for f r
  proof -
    have "map f [0..<n] = fins r n" using that by (intro map_cong) auto
    then show ?thesis by (simp only: accumulated_def fo_sum_upt)
  qed
  have "accumulated exact n (\<lambda>j. fl_mul (fl_mul (Fin c) (ds ! (i * n + j))) (k ! (base + j * d + x))) = Fin (query_grad Q K V G c n d i x)"
    if "i < n" "x < d" for i x
    unfolding query_grad_def using ds[OF that(1)] rows_are_nth(2)[OF k _ that(2)] by (intro acc) simp
  moreover have "accumulated exact n (\<lambda>i. fl_mul (fl_mul (Fin c) (ds ! (i * n + j))) (q ! (base + i * d + x))) = Fin (key_grad Q K V G c n d j x)"
    if "j < n" "x < d" for j x
    unfolding key_grad_def using ds[OF _ that(1)] rows_are_nth(2)[OF q _ that(2)] by (intro acc) simp
  moreover have "accumulated exact n (\<lambda>i. fl_mul (p ! (i * n + j)) (g ! (base + i * d + x))) = Fin (value_grad Q K G c n d j x)"
    if "j < n" "x < d" for j x
    unfolding value_grad_def using p[OF _ that(1)] rows_are_nth(2)[OF g _ that(2)] by (intro acc) simp
  ultimately show ?thesis
    unfolding head_gradients_def Let_def exact_simps p_def[symmetric] dp_def[symmetric] row_dot_def[symmetric] ds_def[symmetric]
    by (auto intro!: map_cong)
qed

section \<open>The derivative of one head\<close>

text \<open>A matrix one of whose elements is moved.\<close>

abbreviation moved :: "(real \<Rightarrow> nat \<Rightarrow> nat \<Rightarrow> real) \<Rightarrow> bool \<Rightarrow> nat \<Rightarrow> nat \<Rightarrow> nat \<Rightarrow> nat \<Rightarrow> bool" where
  "moved Q hit n d i0 x0 \<equiv> \<forall>i<n. \<forall>x<d. ((\<lambda>e. Q e i x) has_real_derivative (if hit \<and> i = i0 \<and> x = x0 then 1 else 0)) (at 0)"

lemma pick_one: "i0 < (n :: nat) \<Longrightarrow> (\<Sum>i<n. if hit \<and> i = i0 then f i else 0) = (if hit then f i0 else (0 :: real))"
  by (simp add: sum.delta)

lemma head_query_derivative:
  assumes n: "i0 < n" "x0 < d" and Q: "moved Q hit n d i0 x0"
  shows "((\<lambda>e. head_loss (score_of (Q e) K d c) V G n d) has_real_derivative
    (if hit then query_grad (Q 0) K V G c n d i0 x0 else 0)) (at 0)"
proof -
  let ?S' = "\<lambda>i j. if hit \<and> i = i0 then K j x0 * c else 0" and ?g = "score_grad (score_of (Q 0) K d c) G V n d"
  have s: "((\<lambda>e. score_of (Q e) K d c i j) has_real_derivative ?S' i j) (at 0)" if "i < n" "j < n" for i j
  proof -
    have "((\<lambda>e. score_of (Q e) K d c i j) has_real_derivative (\<Sum>x<d. (if hit \<and> i = i0 \<and> x = x0 then 1 else 0) * K j x) * c) (at 0)"
      unfolding score_of_def using Q that by (intro DERIV_cmult_right DERIV_sum) auto
    moreover have "(\<Sum>x<d. (if hit \<and> i = i0 \<and> x = x0 then 1 else 0) * K j x) = (\<Sum>x<d. if (hit \<and> i = i0) \<and> x = x0 then K j x else 0)"
      by (intro sum.cong) auto
    ultimately show ?thesis using pick_one[OF n(2), of "hit \<and> i = i0" "K j"] by (cases "hit \<and> i = i0") auto
  qed
  have "((\<lambda>e. head_loss (score_of (Q e) K d c) V G n d) has_real_derivative
      (\<Sum>i<n. \<Sum>j<n. prob (score_of (Q 0) K d c) n i j * (\<Sum>x<d. G i x * 0)) + (\<Sum>i<n. \<Sum>j<n. ?g i j * ?S' i j)) (at 0)"
    using head_loss_derivative[of n "\<lambda>e. score_of (Q e) K d c" ?S' d "\<lambda>_. V" "\<lambda>_ _. 0" G] s n by auto
  moreover have "(\<Sum>i<n. \<Sum>j<n. ?g i j * ?S' i j) = (\<Sum>i<n. if hit \<and> i = i0 then \<Sum>j<n. ?g i j * (K j x0 * c) else 0)"
    by (intro sum.cong) auto
  moreover have "(\<Sum>j<n. ?g i0 j * (K j x0 * c)) = query_grad (Q 0) K V G c n d i0 x0"
    by (simp add: query_grad_def ac_simps)
  ultimately show ?thesis by (simp only: pick_one[OF n(1)] mult_zero_right sum.neutral_const add_0_left)
qed

lemma head_key_derivative:
  assumes n: "j0 < n" "x0 < d" and K: "moved K hit n d j0 x0"
  shows "((\<lambda>e. head_loss (score_of Q (K e) d c) V G n d) has_real_derivative
    (if hit then key_grad Q (K 0) V G c n d j0 x0 else 0)) (at 0)"
proof -
  let ?S' = "\<lambda>i j. if hit \<and> j = j0 then Q i x0 * c else 0" and ?g = "score_grad (score_of Q (K 0) d c) G V n d"
  have s: "((\<lambda>e. score_of Q (K e) d c i j) has_real_derivative ?S' i j) (at 0)" if "i < n" "j < n" for i j
  proof -
    have "((\<lambda>e. score_of Q (K e) d c i j) has_real_derivative (\<Sum>x<d. Q i x * (if hit \<and> j = j0 \<and> x = x0 then 1 else 0)) * c) (at 0)"
      unfolding score_of_def using K that by (intro DERIV_cmult_right DERIV_sum DERIV_cmult) auto
    moreover have "(\<Sum>x<d. Q i x * (if hit \<and> j = j0 \<and> x = x0 then 1 else 0)) = (\<Sum>x<d. if (hit \<and> j = j0) \<and> x = x0 then Q i x else 0)"
      by (intro sum.cong) auto
    ultimately show ?thesis using pick_one[OF n(2), of "hit \<and> j = j0" "Q i"] by (cases "hit \<and> j = j0") auto
  qed
  have "((\<lambda>e. head_loss (score_of Q (K e) d c) V G n d) has_real_derivative
      (\<Sum>i<n. \<Sum>j<n. prob (score_of Q (K 0) d c) n i j * (\<Sum>x<d. G i x * 0)) + (\<Sum>i<n. \<Sum>j<n. ?g i j * ?S' i j)) (at 0)"
    using head_loss_derivative[of n "\<lambda>e. score_of Q (K e) d c" ?S' d "\<lambda>_. V" "\<lambda>_ _. 0" G] s n by auto
  moreover have "(\<Sum>j<n. ?g i j * ?S' i j) = (if hit then ?g i j0 * (Q i x0 * c) else 0)" for i
    using pick_one[OF n(1), of hit "\<lambda>j. ?g i j * (Q i x0 * c)"] by (simp add: if_distrib[of "\<lambda>y. _ * y"] cong: if_cong)
  ultimately show ?thesis by (cases hit) (simp_all add: key_grad_def ac_simps)
qed

lemma head_value_derivative:
  assumes n: "j0 < n" "x0 < d" and V: "moved V hit n d j0 x0"
  shows "((\<lambda>e. head_loss (score_of Q K d c) (V e) G n d) has_real_derivative
    (if hit then value_grad Q K G c n d j0 x0 else 0)) (at 0)"
proof -
  let ?V' = "\<lambda>j x. if hit \<and> j = j0 \<and> x = x0 then 1 else (0 :: real)" and ?p = "prob (score_of Q K d c) n"
  have "((\<lambda>e. head_loss (score_of Q K d c) (V e) G n d) has_real_derivative
      (\<Sum>i<n. \<Sum>j<n. ?p i j * (\<Sum>x<d. G i x * ?V' j x)) + (\<Sum>i<n. \<Sum>j<n. score_grad (score_of Q K d c) G (V 0) n d i j * 0)) (at 0)"
    by (rule head_loss_derivative[of n "\<lambda>_. score_of Q K d c" "\<lambda>_ _. 0" d V ?V' G]) (use V n in auto)
  moreover have "(\<Sum>x<d. G i x * ?V' j x) = (if hit \<and> j = j0 then G i x0 else 0)" for i j
    using pick_one[OF n(2), of "hit \<and> j = j0" "G i"] by (simp add: if_distrib[of "\<lambda>y. _ * y"] conj_assoc cong: if_cong)
  moreover have "(\<Sum>j<n. ?p i j * (if hit \<and> j = j0 then G i x0 else 0)) = (if hit then ?p i j0 * G i x0 else 0)" for i
    using pick_one[OF n(1), of hit "\<lambda>j. ?p i j * G i x0"] by (simp add: if_distrib[of "\<lambda>y. _ * y"] cong: if_cong)
  ultimately show ?thesis by (cases hit) (simp_all add: value_grad_def)
qed


section \<open>The whole backward pass\<close>

lemma fold_triple:
  "fold (\<lambda>z (a, b, c). (f z a, g z b, k z c)) zs (a, b, c) = (fold f zs a, fold g zs b, fold k zs c)"
  by (induction zs arbitrary: a b c) simp_all

lemma head_loop:
  "0 < H \<Longrightarrow> List.product [0..<B] [0..<H] = map (\<lambda>r. (r div H, r mod H)) [0..<B * H]"
  by (rule nth_equalityI) (auto simp: product_nth less_mult_imp_div_less)

text \<open>The elements of one head, in the order of the buffer.\<close>

abbreviation head_cells :: "(nat \<Rightarrow> nat \<Rightarrow> real) \<Rightarrow> nat \<Rightarrow> nat \<Rightarrow> fl list" where
  "head_cells f n d \<equiv> map (\<lambda>(i, x). Fin (f i x)) (List.product [0..<n] [0..<d])"

definition loss_scale :: "attention_shape \<Rightarrow> real" where
  "loss_scale shape = 1 / sqrt (at_dim shape)"

lemma slabs_written:
  assumes "length xs = B * H * n * d" "b < B" "h < H" "i < n" "x < d"
  shows "fold (\<lambda>r. write_at (r * (n * d)) (head_cells (f (r div H) (r mod H)) n d)) [0..<B * H] xs ! (((b * H + h) * n + i) * d + x) = Fin (f b h i x)"
    "length (fold (\<lambda>r. write_at (r * (n * d)) (head_cells (f (r div H) (r mod H)) n d)) [0..<B * H] xs) = length xs"
proof -
  let ?F = "\<lambda>r. head_cells (f (r div H) (r mod H)) n d"
  have bh: "b * H + h < B * H" using row_range[OF assms(2), of H] assms(3) by simp
  have ix: "i * d + x < n * d" using row_range[OF assms(4), of d] assms(5) by simp
  have pos: "((b * H + h) * n + i) * d + x = (b * H + h) * (n * d) + (i * d + x)" by (simp add: algebra_simps)
  have wr: "length (fold (\<lambda>r. write_at (r * (n * d)) (?F r)) [0..<B * H] xs) = length xs
    \<and> (\<forall>r c. c < n * d \<and> r * (n * d) + c < length xs \<longrightarrow> fold (\<lambda>r. write_at (r * (n * d)) (?F r)) [0..<B * H] xs ! (r * (n * d) + c) =
        (if r < B * H then ?F r ! c else xs ! (r * (n * d) + c)))"
    using write_rows[of "B * H" ?F "n * d" 0 xs] assms(1) by (simp add: mult.assoc)
  moreover have "(b * H + h) * (n * d) + (i * d + x) < length xs"
    using row_range[OF bh, of "n * d"] ix assms(1) by (simp add: mult.assoc)
  moreover have "?F (b * H + h) ! (i * d + x) = Fin (f b h i x)"
    using grid_position[OF assms(4,5), of "\<lambda>(i, x). Fin (f ((b * H + h) div H) ((b * H + h) mod H) i x)"] assms(3) by simp
  ultimately show "fold (\<lambda>r. write_at (r * (n * d)) (?F r)) [0..<B * H] xs ! (((b * H + h) * n + i) * d + x) = Fin (f b h i x)"
    unfolding pos using bh ix by simp
  show "length (fold (\<lambda>r. write_at (r * (n * d)) (?F r)) [0..<B * H] xs) = length xs" using wr by simp
qed

lemma flash_backward_exact:
  fixes shape q k v g
  defines "gq \<equiv> \<lambda>b h. query_grad (head_rows shape q b h) (head_rows shape k b h) (head_rows shape v b h) (head_rows shape g b h) (loss_scale shape) (at_seq shape) (at_dim shape)"
    and "gk \<equiv> \<lambda>b h. key_grad (head_rows shape q b h) (head_rows shape k b h) (head_rows shape v b h) (head_rows shape g b h) (loss_scale shape) (at_seq shape) (at_dim shape)"
    and "gv \<equiv> \<lambda>b h. value_grad (head_rows shape q b h) (head_rows shape k b h) (head_rows shape g b h) (loss_scale shape) (at_seq shape) (at_dim shape)"
  assumes ok: "shape_ok shape (length q)" and len: "length k = length q" "length v = length q" "length g = length q"
      "length dq = length q" "length dk = length q" "length dv = length q"
    and fit: "f32_vec_ok (at_seq shape * at_seq shape)"
  shows "\<exists>dq' dk' dv'. flash_backward exact shape (map Fin q) (map Fin k) (map Fin v) (map Fin g) dq dk dv = Some (Inr (dq', dk', dv'))
    \<and> (\<forall>b < at_batch shape. \<forall>h < at_heads shape. \<forall>i < at_seq shape. \<forall>x < at_dim shape.
        let p = ((b * at_heads shape + h) * at_seq shape + i) * at_dim shape + x in
        dq' ! p = Fin (gq b h i x) \<and> dk' ! p = Fin (gk b h i x) \<and> dv' ! p = Fin (gv b h i x))"
proof -
  let ?B = "at_batch shape" and ?H = "at_heads shape" and ?n = "at_seq shape" and ?d = "at_dim shape"
  let ?sh = "?n * ?d" and ?c = "loss_scale shape"
  have pos: "0 < ?B" "0 < ?H" "0 < ?n" "0 < ?d" using ok by (simp_all add: shape_ok_def)
  have total: "length q = ?B * ?H * ?n * ?d" using shape_okD(1)[OF ok] .
  have bl: "buffer_len shape = Some (length q)" using ok by (simp add: shape_ok_def)
  have chk: "check_buffers (length q) [(''q'', map Fin q), (''k'', map Fin k), (''v'', map Fin v), (''do'', map Fin g)] = None"
    using len by (intro check_buffers_ok) auto
  let ?W = "\<lambda>f r. write_at (r * ?sh) (head_cells (f (r div ?H) (r mod ?H)) ?n ?d)"
  let ?run = "\<lambda>f. fold (?W f) [0..<?B * ?H] (replicate (length q) (Fin 0))"
  have heads: "head_gradients exact (map Fin q) (map Fin k) (map Fin v) (map Fin g) (Fin ?c) ?n ?d (r * ?sh)
      = (head_cells (gq (r div ?H) (r mod ?H)) ?n ?d, head_cells (gk (r div ?H) (r mod ?H)) ?n ?d, head_cells (gv (r div ?H) (r mod ?H)) ?n ?d)"
    and base: "r div ?H * (?H * ?sh) + r mod ?H * ?sh = r * ?sh" if r: "r < ?B * ?H" for r
  proof -
    have bh: "r div ?H < ?B" "r mod ?H < ?H" using r pos by (simp_all add: less_mult_imp_div_less)
    have oks: "shape_ok shape (length k)" "shape_ok shape (length v)" "shape_ok shape (length g)" using ok len by simp_all
    have "r div ?H * (?H * ?sh) + r mod ?H * ?sh = (r div ?H * ?H + r mod ?H) * ?sh" by (simp only: distrib_right mult.assoc)
    then show "r div ?H * (?H * ?sh) + r mod ?H * ?sh = r * ?sh" by (simp only: div_mult_mod_eq)
    show "head_gradients exact (map Fin q) (map Fin k) (map Fin v) (map Fin g) (Fin ?c) ?n ?d (r * ?sh)
      = (head_cells (gq (r div ?H) (r mod ?H)) ?n ?d, head_cells (gk (r div ?H) (r mod ?H)) ?n ?d, head_cells (gv (r div ?H) (r mod ?H)) ?n ?d)"
      using head_gradients_exact[OF head_rows_are[OF ok bh] head_rows_are[OF oks(1) bh] head_rows_are[OF oks(2) bh] head_rows_are[OF oks(3) bh], of ?c]
      unfolding gq_def gk_def gv_def div_mult_mod_eq .
  qed
  have "fold (\<lambda>(b, h) (dq, dk, dv).
        let base = b * (?H * ?sh) + h * ?sh; (hq, hk, hv) = head_gradients exact (map Fin q) (map Fin k) (map Fin v) (map Fin g) (Fin ?c) ?n ?d base
        in (write_at base hq dq, write_at base hk dk, write_at base hv dv)) (List.product [0..<?B] [0..<?H])
      (replicate (length q) (Fin 0), replicate (length q) (Fin 0), replicate (length q) (Fin 0))
    = fold (\<lambda>r (dq, dk, dv). (?W gq r dq, ?W gk r dk, ?W gv r dv)) [0..<?B * ?H]
      (replicate (length q) (Fin 0), replicate (length q) (Fin 0), replicate (length q) (Fin 0))"
    unfolding head_loop[OF pos(2)] fold_map
    by (rule fold_cong) (auto simp only: Let_def heads base comp_def prod.case atLeastLessThan_iff set_upt fun_eq_iff split: prod.splits)
  then have run: "fold (\<lambda>(b, h) (dq, dk, dv).
        let base = b * (?H * ?sh) + h * ?sh; (hq, hk, hv) = head_gradients exact (map Fin q) (map Fin k) (map Fin v) (map Fin g) (Fin ?c) ?n ?d base
        in (write_at base hq dq, write_at base hk dk, write_at base hv dv)) (List.product [0..<?B] [0..<?H])
      (replicate (length q) (Fin 0), replicate (length q) (Fin 0), replicate (length q) (Fin 0)) = (?run gq, ?run gk, ?run gv)"
    by (simp only: fold_triple)
  have sc: "fl_div (Fin 1) (fl_sqrt (Fin (real ?d))) = Fin ?c" using scale_exact[OF pos(4)] by (simp only: loss_scale_def)
  have "flash_backward exact shape (map Fin q) (map Fin k) (map Fin v) (map Fin g) dq dk dv = Some (Inr (?run gq, ?run gk, ?run gv))"
    unfolding flash_backward_def bl option.case chk shape_okD(2)[OF ok] Let_def exact_simps sc len run[unfolded Let_def] prod.case
    using pos fit by simp
  moreover have "length (replicate (length q) (Fin 0)) = ?B * ?H * ?n * ?d" using total by simp
  note slabs_written(1)[OF this]
  ultimately show ?thesis unfolding Let_def by blast
qed


text \<open>The pairing of the output of attention with the incoming gradient.\<close>

definition attention_loss :: "attention_shape \<Rightarrow> real list \<Rightarrow> real list \<Rightarrow> real list \<Rightarrow> real list \<Rightarrow> real" where
  "attention_loss shape q k v g =
     (\<Sum>b < at_batch shape. \<Sum>h < at_heads shape. \<Sum>i < at_seq shape. \<Sum>x < at_dim shape.
        head_rows shape g b h i x * attention_at shape q k v MaskNone b h i x)"

lemma attention_loss_heads:
  "attention_loss shape q k v g = (\<Sum>b < at_batch shape. \<Sum>h < at_heads shape.
     head_loss (score_of (head_rows shape q b h) (head_rows shape k b h) (at_dim shape) (loss_scale shape)) (head_rows shape v b h)
       (head_rows shape g b h) (at_seq shape) (at_dim shape))"
  by (simp add: attention_loss_def head_loss_def attention_at_def loss_scale_def)

text \<open>Moving one element of a buffer moves one element of one head.\<close>

lemma cell_inj:
  assumes "h < H" "i < n" "x < d" "h' < H" "i' < n" "x' < (d :: nat)"
  shows "((b * H + h) * n + i) * d + x = ((b' * H + h') * n + i') * d + x' \<longleftrightarrow> b = b' \<and> h = h' \<and> i = i' \<and> x = x'"
proof -
  have one: "r * m + c = r' * m + c' \<longleftrightarrow> r = r' \<and> c = c'" if "c < m" "c' < m" for r r' c c' m :: nat
  proof
    assume eq: "r * m + c = r' * m + c'"
    have "(r * m + c) div m = r" "(r' * m + c') div m = r'" using that by simp_all
    then have "r = r'" by (simp only: eq)
    then show "r = r' \<and> c = c'" using eq by simp
  qed simp
  show ?thesis using assms by (auto simp: one)
qed

lemma head_rows_moved:
  assumes ok: "shape_ok shape (length xs)" and b: "b < at_batch shape" "h < at_heads shape"
    and at: "b0 < at_batch shape" "h0 < at_heads shape" "i0 < at_seq shape" "x0 < at_dim shape"
  shows "moved (\<lambda>e. head_rows shape (xs[((b0 * at_heads shape + h0) * at_seq shape + i0) * at_dim shape + x0 :=
      xs ! (((b0 * at_heads shape + h0) * at_seq shape + i0) * at_dim shape + x0) + e]) b h)
    (b = b0 \<and> h = h0) (at_seq shape) (at_dim shape) i0 x0"
proof (intro allI impI)
  let ?H = "at_heads shape" and ?n = "at_seq shape" and ?d = "at_dim shape"
  fix i x assume i: "i < ?n" and x: "x < ?d"
  let ?p = "((b0 * ?H + h0) * ?n + i0) * ?d + x0" and ?c = "((b * ?H + h) * ?n + i) * ?d + x"
  have bh: "b * ?H + h < at_batch shape * ?H" using row_range[OF b(1), of ?H] b(2) by simp
  have r: "(b * ?H + h) * ?n + i < at_batch shape * ?H * ?n" using row_range[OF bh, of ?n] i by simp
  have lt: "?c < length xs" using row_range[OF r, of ?d] x unfolding shape_okD(1)[OF ok] by linarith
  have hit: "?p = ?c \<longleftrightarrow> (b = b0 \<and> h = h0) \<and> i = i0 \<and> x = x0"
    by (rule trans[OF cell_inj[OF at(2-4) b(2) i x]]) auto
  have eq: "head_rows shape (xs[?p := xs ! ?p + e]) b h i x = xs ! ?c + (if (b = b0 \<and> h = h0) \<and> i = i0 \<and> x = x0 then 1 else 0) * e" for e
  proof (cases "?p = ?c")
    case True
    then have "(b = b0 \<and> h = h0) \<and> i = i0 \<and> x = x0" using hit by blast
    then show ?thesis unfolding head_rows_def True using lt by (simp del: distrib_right)
  next
    case False
    then have "\<not> ((b = b0 \<and> h = h0) \<and> i = i0 \<and> x = x0)" using hit by blast
    then show ?thesis unfolding head_rows_def nth_list_update_neq[OF False] by auto
  qed
  show "((\<lambda>e. head_rows shape (xs[?p := xs ! ?p + e]) b h i x) has_real_derivative
      (if (b = b0 \<and> h = h0) \<and> i = i0 \<and> x = x0 then 1 else 0)) (at 0)"
    unfolding eq by (auto intro!: derivative_eq_intros)
qed

lemma heads_derivative:
  fixes b0 h0 :: nat
  assumes "\<And>b h. b < B \<Longrightarrow> h < H \<Longrightarrow> (f b h has_real_derivative (if b = b0 \<and> h = h0 then D b h else 0)) (at 0)" "b0 < B" "h0 < H"
  shows "((\<lambda>e. \<Sum>b<B. \<Sum>h<H. f b h e) has_real_derivative D b0 h0) (at (0 :: real))"
proof -
  have "((\<lambda>e. \<Sum>b<B. \<Sum>h<H. f b h e) has_real_derivative (\<Sum>b<B. \<Sum>h<H. if b = b0 \<and> h = h0 then D b h else 0)) (at 0)"
    using assms(1) by (intro DERIV_sum) auto
  moreover have "(\<Sum>b<B. \<Sum>h<H. if b = b0 \<and> h = h0 then D b h else 0) = (\<Sum>b<B. if b = b0 then D b h0 else 0)"
    using assms(3) pick_one[of h0 H True] by (intro sum.cong refl) auto
  ultimately show ?thesis using assms(2) by simp
qed

text \<open>
  C14. The backward pass of attention returns its derivatives.  In exact arithmetic, on buffers of the
  size the shape asks for, it succeeds, whatever the gradient buffers held before; and every element of the
  three gradients it leaves is the derivative of the pairing of the output of attention with the incoming gradient,
  by the element of the queries, the keys or the values at the same place.
\<close>

theorem flash_backward_correct:
  assumes ok: "shape_ok shape (length q)" and len: "length k = length q" "length v = length q" "length g = length q"
      "length dq = length q" "length dk = length q" "length dv = length q"
    and fit: "f32_vec_ok (at_seq shape * at_seq shape)"
  shows "\<exists>dq' dk' dv'. flash_backward exact shape (map Fin q) (map Fin k) (map Fin v) (map Fin g) dq dk dv = Some (Inr (dq', dk', dv'))
    \<and> (\<forall>b < at_batch shape. \<forall>h < at_heads shape. \<forall>i < at_seq shape. \<forall>x < at_dim shape.
        let p = ((b * at_heads shape + h) * at_seq shape + i) * at_dim shape + x in
        (\<exists>y. dq' ! p = Fin y \<and> ((\<lambda>e. attention_loss shape (q[p := q ! p + e]) k v g) has_real_derivative y) (at 0))
        \<and> (\<exists>y. dk' ! p = Fin y \<and> ((\<lambda>e. attention_loss shape q (k[p := k ! p + e]) v g) has_real_derivative y) (at 0))
        \<and> (\<exists>y. dv' ! p = Fin y \<and> ((\<lambda>e. attention_loss shape q k (v[p := v ! p + e]) g) has_real_derivative y) (at 0)))"
proof -
  let ?B = "at_batch shape" and ?H = "at_heads shape" and ?n = "at_seq shape" and ?d = "at_dim shape" and ?c = "loss_scale shape"
  obtain dq' dk' dv' where run: "flash_backward exact shape (map Fin q) (map Fin k) (map Fin v) (map Fin g) dq dk dv = Some (Inr (dq', dk', dv'))"
    and cells: "\<And>b h i x. b < ?B \<Longrightarrow> h < ?H \<Longrightarrow> i < ?n \<Longrightarrow> x < ?d \<Longrightarrow>
        dq' ! (((b * ?H + h) * ?n + i) * ?d + x) = Fin (query_grad (head_rows shape q b h) (head_rows shape k b h) (head_rows shape v b h) (head_rows shape g b h) ?c ?n ?d i x)
      \<and> dk' ! (((b * ?H + h) * ?n + i) * ?d + x) = Fin (key_grad (head_rows shape q b h) (head_rows shape k b h) (head_rows shape v b h) (head_rows shape g b h) ?c ?n ?d i x)
      \<and> dv' ! (((b * ?H + h) * ?n + i) * ?d + x) = Fin (value_grad (head_rows shape q b h) (head_rows shape k b h) (head_rows shape g b h) ?c ?n ?d i x)"
    using flash_backward_exact[OF ok len fit] unfolding Let_def by blast
  have oks: "shape_ok shape (length k)" "shape_ok shape (length v)" using ok len by simp_all
  have "((\<lambda>e. attention_loss shape (q[p := q ! p + e]) k v g) has_real_derivative fin_part (dq' ! p)) (at 0) \<and> dq' ! p = Fin (fin_part (dq' ! p))
    \<and> ((\<lambda>e. attention_loss shape q (k[p := k ! p + e]) v g) has_real_derivative fin_part (dk' ! p)) (at 0) \<and> dk' ! p = Fin (fin_part (dk' ! p))
    \<and> ((\<lambda>e. attention_loss shape q k (v[p := v ! p + e]) g) has_real_derivative fin_part (dv' ! p)) (at 0) \<and> dv' ! p = Fin (fin_part (dv' ! p))"
    if at: "b < ?B" "h < ?H" "i < ?n" "x < ?d" and p: "p = ((b * ?H + h) * ?n + i) * ?d + x" for b h i x p
  proof -
    note mv = head_rows_moved[OF _ _ _ at, folded p]
    note dq = heads_derivative[OF head_query_derivative[OF at(3,4) mv[OF ok]] at(1,2), unfolded add_0_right list_update_id]
    note dk = heads_derivative[OF head_key_derivative[OF at(3,4) mv[OF oks(1)]] at(1,2), unfolded add_0_right list_update_id]
    note dv = heads_derivative[OF head_value_derivative[OF at(3,4) mv[OF oks(2)]] at(1,2), unfolded add_0_right list_update_id]
    note cell = cells[OF at, folded p]
    show ?thesis
      unfolding attention_loss_heads conjunct1[OF cell] conjunct1[OF conjunct2[OF cell]] conjunct2[OF conjunct2[OF cell]] fin_part.simps
      by (intro conjI refl) (rule dq dk dv, assumption+)+
  qed
  then show ?thesis using run unfolding Let_def by blast
qed


text \<open>On two positions with equal scores, with gradient buffers that held no numbers before.\<close>

theorem flash_backward_correct_witness:
  "\<exists>dq dk dv. flash_backward exact tiny_shape (map Fin [0, 0]) (map Fin [1, 3]) (map Fin [2, 4]) (map Fin [1, 0]) [NaN, NaN] [NaN, NaN] [NaN, NaN]
      = Some (Inr (dq, dk, dv)) \<and>
    (\<exists>y. dv ! 0 = Fin y \<and> ((\<lambda>e. attention_loss tiny_shape [0, 0] [1, 3] [2 + e, 4] [1, 0]) has_real_derivative y) (at 0))"
proof -
  have ok: "shape_ok tiny_shape (length [0, 0 :: real])" by (rule tiny_shape_ok)
  obtain dq dk dv where r: "flash_backward exact tiny_shape (map Fin [0, 0]) (map Fin [1, 3]) (map Fin [2, 4]) (map Fin [1, 0]) [NaN, NaN] [NaN, NaN] [NaN, NaN]
      = Some (Inr (dq, dk, dv))"
    "\<exists>y. dv ! 0 = Fin y \<and> ((\<lambda>e. attention_loss tiny_shape [0, 0] [1, 3] ([2, 4][0 := [2, 4] ! 0 + e]) [1, 0]) has_real_derivative y) (at 0)"
    using flash_backward_correct[OF ok, of "[1, 3]" "[2, 4]" "[1, 0]" "[NaN, NaN]" "[NaN, NaN]" "[NaN, NaN]"] tiny_fits(4)
    by (fastforce simp: tiny_dims Let_def)
  then show ?thesis by auto
qed


end
