(* ===== verification/Spec2Isabelle.thy ===== *)
theory Spec2Isabelle
  imports Tensor_Programs Data Planner Gguf_Packing Differentiation Autoscale KV_Cache Fusion Statistics Attention_Gradients
begin

text \<open>
  A verification library for rustorch, a deep-learning framework in Rust.  It models the tensor core,
  the CPU kernels, the data loader, the memory planner, automatic differentiation (the reverse-mode
  engine and its operations), attention, the GGUF file format and the serving runtime.

  \<^bold>\<open>How the parts fit together.\<close>  A tensor (\<open>rustorch-core\<close>) is a shape and a layout over a
  reference-counted storage, whose memory comes from a thread-local pool.  Views share the storage;
  kernels (\<open>rustorch-cpu\<close>) walk the elements through the layout; the data loader (\<open>rustorch-data\<close>)
  selects rows and concatenates them.  The reverse-mode engine (\<open>rustorch-autograd\<close>) keeps a graph of
  the operations that made a variable.  The planner (\<open>rustorch-planner\<close>) takes a graph of operations,
  chooses an order, computes the lifetimes of the tensors and assigns them to memory slots.  The GGUF
  reader (\<open>rustorch-gguf\<close>) gives the tensors of a model file and decodes their quantised blocks.
  The serving runtime (\<open>rustorch-serve\<close>) collects requests into batches for a model.

  \<^bold>\<open>Conventions\<close> (theory \<open>Rust_Base\<close>).  Unsigned machine integers are natural numbers and signed
  ones integers; where an operation can leave its range the model uses a checked operation, and
  \<open>None\<close> is the panic of a build with overflow checks.  Bytes, the numbers of a file and everything
  that is combined bitwise are words.  A \<open>Result\<close> is a sum with \<open>Inl\<close> for \<open>Err\<close>; \<open>None\<close> around it is a
  panic.  A \<open>HashMap\<close> is an association list whose order is the arbitrary order of iteration.
  Floating-point arithmetic, random numbers, casts, the system allocator, the \<open>gemm\<close> crate and user
  functions are arguments of the definitions, with no assumption unless a theorem names one.

  \<^bold>\<open>Theories and sources\<close> (under \<open>src/crates/\<close>):

  \<^item> \<open>Dtype\<close>, \<open>Shape\<close>, \<open>Layout\<close>, \<open>View\<close>: \<open>rustorch-core/src/tensor/{dtype,device,shape,layout,view}.rs\<close>.
    Broadcasting is the elementwise least upper bound and broadcast strides read the projected
    coordinates; type promotion is a semilattice; every chain of views stays in bounds and reads the
    element it should.
  \<^item> \<open>Storage\<close>: \<open>storage.rs\<close>.  A machine with the live allocations, the \<open>Arc\<close> cells and the pools; no
    program that owns its storages touches dead memory, and the storages refine an abstract store.
  \<^item> \<open>Tensor\<close>, \<open>Tensor_Programs\<close>: \<open>tensor_impl.rs\<close>, \<open>version.rs\<close>, \<open>convert.rs\<close>.  In-place operations,
    contiguous copies and casts, and sequences of them: bytes are read at the type they were written
    with, and an in-place operation never changes another tensor.
  \<^item> \<open>Kernels\<close>, \<open>Concat\<close>: \<open>rustorch-cpu/src/iterator.rs\<close>, \<open>kernels/shape_ops.rs\<close> and the indexing
    operations of \<open>cpu_backend.rs\<close>.  The locale \<open>coord_map\<close> is a kernel given by a map of coordinates;
    repeat, flip, roll, gather and index_select are its interpretations.
  \<^item> \<open>Reductions\<close>, \<open>Statistics\<close>: \<open>rustorch-cpu/src/kernels/reduction.rs\<close>.  Reductions are folds over
    what falls on each position of the result; the one-pass variance is the two-pass one.
  \<^item> \<open>Data\<close>: \<open>rustorch-data/src/{sampler,dataset,dataloader}.rs\<close>.  The locales \<open>sampler\<close>,
    \<open>exhaustive_sampler\<close> and \<open>dataset\<close> are the traits of the crate with the laws the loader relies on.
  \<^item> \<open>Lifetime\<close>, \<open>Allocator\<close>, \<open>Reorder\<close>, \<open>Inplace\<close>, \<open>Planner\<close>: \<open>rustorch-planner/src/*.rs\<close>.  The planned
    slots never hold two live tensors, the chosen order computes every operation after its inputs,
    running the schedule in the slots computes what the graph means, and errors are reported exactly
    for graphs with a cycle or plans over budget.  The loop of \<open>reorder\<close> has as fuel the number of
    operations plus one, and every step schedules one; the planner does not depend on map order.
  \<^item> \<open>Autograd\<close>: \<open>rustorch-autograd/src/{node,variable,tape,backward}.rs\<close> and their neighbours.  The
    topological visit has the number of the root plus one as fuel, because inputs are allocated
    before the nodes that use them; backward accumulates, for every leaf, the contributions of all
    its uses.
  \<^item> \<open>Messages\<close>, \<open>Cpu_Backend\<close>: the texts of errors, and the operations of
    \<open>rustorch-cpu/src/{cpu_backend,backend}.rs\<close> that differentiation uses, each with what it computes on
    every layout (predicate \<open>computes\<close>).
  \<^item> \<open>Adjoint\<close>: when every node's \<open>apply\<close> is the adjoint of a linear map between tangents, so is the
    whole backward pass; the locale \<open>tensor_sums\<close> holds what that needs of the addition of gradients.
  \<^item> \<open>Dense\<close>, \<open>Ops\<close>: the operations of \<open>rustorch-autograd/src/ops.rs\<close> (\<open>op_matmul\<close> is \<open>matmul\<close>,
    \<open>matmul_apply\<close> the \<open>apply\<close> of its node) on dense tensors, which differentiation never mutates.
  \<^item> \<open>Smooth\<close>, \<open>Exact\<close>, \<open>Gradients\<close>, \<open>Differentiation\<close>: the functions the operations stand for over
    the real numbers and their derivatives, the backend in exact arithmetic, the proof that every operation
    computes its function and sends back the adjoint of its derivative, and programs of operations: their
    gradients are derivatives.
  \<^item> \<open>Gguf_Format\<close>, \<open>Gguf_Reader\<close>, \<open>Gguf_Dequant\<close>, \<open>Gguf_Packing\<close>:
    \<open>rustorch-gguf/src/{metadata,tensor,reader,dequant}.rs\<close>.  The locale \<open>codec\<close> relates a reader to an
    encoding, \<open>block_format\<close> a block decoder to its packing; the parser inverts the format, what it
    accepts is safe to use, and the decoders invert the packings.
  \<^item> \<open>Serve\<close>, \<open>Autoscale\<close>: \<open>rustorch-serve/src/{batcher,server,autoscale,cuda_graphs}.rs\<close>.  The batching
    task and its callers are a machine driven by events; the locale \<open>progress\<close> turns a measure into
    a bound on the turns a caller waits.  The controller keeps the number of workers in range.
  \<^item> \<open>KV_Cache\<close>: \<open>rustorch-nn/src/kv_cache.rs\<close>.  A decoding run leaves in the flat buffers of every
    layer the rows that were appended, head by head.
  \<^item> \<open>Floats\<close>, \<open>Attention\<close>, \<open>Attention_Gradients\<close>: \<open>rustorch-attention/src/{mask,online_softmax,
    cpu_forward,cpu_backward}.rs\<close>.  Floating-point operations are a record; its exact instance has
    infinities and NaN.  Tiled attention leaves what the direct kernel leaves, and its backward pass
    returns derivatives; a loop over tiles is a partial function, which ends for positive tile sizes.
  \<^item> \<open>Fusion\<close>: \<open>rustorch-fusion/src/{pattern,matcher,dispatcher}.rs\<close>.  The scan for fusible chains keeps
    the set of covered nodes equal to the nodes of the matches.

  \<^bold>\<open>Properties.\<close>  The theorems whose text begins with the letter C and a number state what the parts
  promise; each stands in the theory of its component and, where it has hypotheses, is followed by
  an instance on concrete data.  Lemmas that end in \<open>panics\<close>, \<open>ignores_...\<close> or the like exhibit inputs on
  which the code does something its documentation does not say.

  \<^bold>\<open>Not modelled.\<close>  Rounding: statements about values are about exact arithmetic or hold for any
  arithmetic.  Convolutions, normalisation, losses, optimisers, GPU back ends and
  shaders, network and database code, the command line, macros and demonstration programs.  Concurrency is modelled where the code relies on an order of events (the
  serving runtime); the storage machine interleaves the operations of threads.
\<close>

end
